(* ===== verification/Prelude.thy ===== *)
theory Prelude
  imports Main "HOL-Library.List_Lexorder" "HOL-Library.Char_ord" "HOL-Library.Product_Lexorder"
begin

text \<open>
  What every component shares: the result type of a fallible Rust function, the
  state-and-error monad in which the stateful code is written, the ordered maps
  (\<open>BTreeMap\<close>) with their interface, and the operations on UTF-8 strings
  (\<open>String\<close>, \<open>&str\<close>) the sources use.
\<close>

section \<open>Collections of facts\<close>

named_theorems heap_simps \<open>reads of a heap after each heap operation\<close>
named_theorems inv_intros \<open>each operation keeps its component's invariant\<close>
named_theorems run_simps \<open>how each monadic operation runs\<close>

section \<open>Results\<close>

text \<open>
  \<open>Result<T, String>\<close> with the panics of Rust as a third outcome: \<open>Panic\<close> stands for an
  index out of range, an \<open>unwrap\<close> or \<open>expect\<close> that fails and \<open>unreachable!\<close>, and for a
  recursion that never returns (a stack overflow aborts the process).
\<close>

datatype 'a res = Ok 'a | Err string | Panic string

text \<open>
  The two panics that are not excluded: the overflow of the stack by an unguarded recursion,
  and that of \<open>sort_by\<close> under a comparison that is no total order.
\<close>

definition stack_overflow :: string where
  "stack_overflow = ''stack overflow''"

definition sort_not_total :: string where
  "sort_not_total = ''user-provided comparison function does not correctly implement a total order''"

definition excused :: "string \<Rightarrow> bool" where
  "excused p \<longleftrightarrow> p = stack_overflow \<or> p = sort_not_total"

fun res_map :: "('a \<Rightarrow> 'b) \<Rightarrow> 'a res \<Rightarrow> 'b res" where
  "res_map f (Ok a) = Ok (f a)"
| "res_map f (Err e) = Err e"
| "res_map f (Panic p) = Panic p"

fun res_bind :: "'a res \<Rightarrow> ('a \<Rightarrow> 'b res) \<Rightarrow> 'b res" where
  "res_bind (Ok a) f = f a"
| "res_bind (Err e) f = Err e"
| "res_bind (Panic p) f = Panic p"

lemma res_bind_cong [fundef_cong]:
  "r = r' \<Longrightarrow> (\<And>a. r' = Ok a \<Longrightarrow> f a = g a) \<Longrightarrow> res_bind r f = res_bind r' g"
  by (cases r') auto

fun is_ok :: "'a res \<Rightarrow> bool" where
  "is_ok (Ok _) = True"
| "is_ok _ = False"

fun no_panic :: "'a res \<Rightarrow> bool" where
  "no_panic (Panic _) = False"
| "no_panic _ = True"

definition ok_or :: "string \<Rightarrow> 'a option \<Rightarrow> 'a res" where
  "ok_or e x = (case x of None \<Rightarrow> Err e | Some a \<Rightarrow> Ok a)"

text \<open>\<open>if c { return Err(e) }\<close>, and the sequence of two such checks.\<close>

definition reject_if :: "bool \<Rightarrow> string \<Rightarrow> unit res" where
  "reject_if c e = (if c then Err e else Ok ())"

definition res_then :: "unit res \<Rightarrow> 'b res \<Rightarrow> 'b res" where
  "res_then r k = res_bind r (\<lambda>_. k)"

text \<open>\<open>iter().map(f).collect::<Result<Vec<_>>>()\<close>: the first error wins.\<close>

fun res_mapM :: "('a \<Rightarrow> 'b res) \<Rightarrow> 'a list \<Rightarrow> 'b list res" where
  "res_mapM f [] = Ok []"
| "res_mapM f (x # xs) = res_bind (f x) (\<lambda>y. res_bind (res_mapM f xs) (\<lambda>ys. Ok (y # ys)))"

text \<open>A \<open>for\<close> loop whose body may return early with an error.\<close>

fun res_each :: "('a \<Rightarrow> unit res) \<Rightarrow> 'a list \<Rightarrow> unit res" where
  "res_each f [] = Ok ()"
| "res_each f (x # xs) = res_bind (f x) (\<lambda>_. res_each f xs)"

text \<open>\<open>usize::MAX\<close> on the 64-bit targets, also \<open>u64::MAX\<close>.\<close>

definition usize_max :: nat where
  "usize_max = 2 ^ 64 - 1"

lemma res_mapM_cong [fundef_cong]:
  "xs = ys \<Longrightarrow> (\<And>x. x \<in> set ys \<Longrightarrow> f x = g x) \<Longrightarrow> res_mapM f xs = res_mapM g ys"
  by (induction xs arbitrary: ys) auto

lemma res_bind_Ok_iff: "res_bind r f = Ok b \<longleftrightarrow> (\<exists>a. r = Ok a \<and> f a = Ok b)"
  by (cases r) auto

lemma reject_if_Ok [simp]: "reject_if c e = Ok () \<longleftrightarrow> \<not> c"
  by (simp add: reject_if_def)

lemma res_then_Ok [simp]: "res_then r k = Ok b \<longleftrightarrow> r = Ok () \<and> k = Ok b"
  by (cases r) (auto simp: res_then_def)

lemma no_panic_reject_if [simp]: "no_panic (reject_if c e)"
  by (simp add: reject_if_def)

lemma res_bind_Panic_iff:
  "res_bind r f = Panic p \<longleftrightarrow> r = Panic p \<or> (\<exists>a. r = Ok a \<and> f a = Panic p)"
  by (cases r) auto

lemma no_panic_bind:
  "no_panic r \<Longrightarrow> (\<And>a. r = Ok a \<Longrightarrow> no_panic (f a)) \<Longrightarrow> no_panic (res_bind r f)"
  by (cases r) auto

lemma no_panic_then:
  "no_panic r \<Longrightarrow> (r = Ok () \<Longrightarrow> no_panic k) \<Longrightarrow> no_panic (res_then r k)"
  unfolding res_then_def by (rule no_panic_bind) auto

lemma res_each_Ok: "res_each f xs = Ok () \<longleftrightarrow> (\<forall>x \<in> set xs. f x = Ok ())"
  by (induction xs) (auto simp: res_bind_Ok_iff)

lemma no_panic_each: "(\<And>x. x \<in> set xs \<Longrightarrow> no_panic (f x)) \<Longrightarrow> no_panic (res_each f xs)"
  by (induction xs) (auto intro!: no_panic_bind)

lemma res_mapM_Ok_length: "res_mapM f xs = Ok ys \<Longrightarrow> length ys = length xs"
  by (induction xs arbitrary: ys) (auto simp: res_bind_Ok_iff)

lemma res_mapM_Ok_map: "(\<And>x. x \<in> set xs \<Longrightarrow> f x = Ok (g x)) \<Longrightarrow> res_mapM f xs = Ok (map g xs)"
  by (induction xs) auto

lemma res_mapM_Ok_nth: "res_mapM f xs = Ok ys \<Longrightarrow> i < length xs \<Longrightarrow> f (xs ! i) = Ok (ys ! i)"
  by (induction xs arbitrary: ys i) (auto simp: res_bind_Ok_iff nth_Cons split: nat.splits)

lemma no_panic_mapM: "(\<And>x. x \<in> set xs \<Longrightarrow> no_panic (f x)) \<Longrightarrow> no_panic (res_mapM f xs)"
  by (induction xs) (auto intro!: no_panic_bind)

section \<open>Sizes of nested data\<close>

text \<open>What the termination of the recursions through lists of named parts needs.\<close>

lemma size_field [termination_simp]:
  "(n, t) \<in> set fs \<Longrightarrow> f t < Suc (size_list (size_prod (\<lambda>_. 0) f) fs)"
  by (induction fs) auto

lemma size_case [termination_simp]:
  "(n, Some t) \<in> set fs \<Longrightarrow> f t < Suc (size_list (size_prod (\<lambda>_. 0) (size_option f)) fs)"
  by (induction fs) auto

lemma size_zip1 [termination_simp]:
  "(t, w) \<in> set (zip ts ws) \<Longrightarrow> f t < Suc (size_list f ts)"
  by (induction ts ws rule: list_induct2') auto

lemma size_zip2 [termination_simp]:
  "(w, t) \<in> set (zip ws ts) \<Longrightarrow> f t < Suc (size_list f ts)"
  by (induction ws ts rule: list_induct2') auto

lemma size_found_case [termination_simp]:
  assumes "find P fs = Some (n, Some t)"
  shows "f t < Suc (size_list (\<lambda>x. Suc (size_option f (snd x))) fs)"
proof -
  have "(n, Some t) \<in> set fs" using assms by (auto simp: find_Some_iff)
  then show ?thesis by (induction fs) auto
qed

section \<open>The state and error monad\<close>

text \<open>
  A method \<open>fn f(&mut self, ..) -> Result<T>\<close> is a function of the state that returns the
  result and the state as the method leaves it; an early return by \<open>?\<close> keeps the changes
  made so far, as in Rust.
\<close>

type_synonym ('s, 'a) rm = "'s \<Rightarrow> 'a res \<times> 's"

definition ret :: "'a \<Rightarrow> ('s, 'a) rm" where
  "ret a = (\<lambda>s. (Ok a, s))"

definition fail :: "string \<Rightarrow> ('s, 'a) rm" where
  "fail e = (\<lambda>s. (Err e, s))"

definition panic :: "string \<Rightarrow> ('s, 'a) rm" where
  "panic p = (\<lambda>s. (Panic p, s))"

definition bind :: "('s, 'a) rm \<Rightarrow> ('a \<Rightarrow> ('s, 'b) rm) \<Rightarrow> ('s, 'b) rm" where
  "bind m f = (\<lambda>s. case m s of (r, s') \<Rightarrow>
     (case r of Ok a \<Rightarrow> f a s' | Err e \<Rightarrow> (Err e, s') | Panic p \<Rightarrow> (Panic p, s')))"

lemma bind_cong [fundef_cong]:
  "m = m' \<Longrightarrow> (\<And>a. f a = g a) \<Longrightarrow> bind m f = bind m' g"
  by (simp add: ext [of f g])

definition seq :: "('s, unit) rm \<Rightarrow> ('s, 'b) rm \<Rightarrow> ('s, 'b) rm" where
  "seq m k = bind m (\<lambda>_. k)"

definition gets :: "('s \<Rightarrow> 'a) \<Rightarrow> ('s, 'a) rm" where
  "gets f = (\<lambda>s. (Ok (f s), s))"

definition modify :: "('s \<Rightarrow> 's) \<Rightarrow> ('s, unit) rm" where
  "modify f = (\<lambda>s. (Ok (), f s))"

definition lift_res :: "'a res \<Rightarrow> ('s, 'a) rm" where
  "lift_res r = (\<lambda>s. (r, s))"

definition of_opt :: "string \<Rightarrow> 'a option \<Rightarrow> ('s, 'a) rm" where
  "of_opt e x = lift_res (ok_or e x)"

text \<open>Run a method of one component inside the state that contains it.\<close>

definition zoom :: "('t \<Rightarrow> 's) \<Rightarrow> ('s \<Rightarrow> 't \<Rightarrow> 't) \<Rightarrow> ('s, 'a) rm \<Rightarrow> ('t, 'a) rm" where
  "zoom g p m = (\<lambda>t. case m (g t) of (r, s') \<Rightarrow> (r, p s' t))"

fun mapM :: "('a \<Rightarrow> ('s, 'b) rm) \<Rightarrow> 'a list \<Rightarrow> ('s, 'b list) rm" where
  "mapM f [] = ret []"
| "mapM f (x # xs) = bind (f x) (\<lambda>y. bind (mapM f xs) (\<lambda>ys. ret (y # ys)))"

lemma mapM_cong [fundef_cong]:
  "xs = ys \<Longrightarrow> (\<And>x. x \<in> set ys \<Longrightarrow> f x = g x) \<Longrightarrow> mapM f xs = mapM g ys"
  by (induction xs arbitrary: ys) auto

text \<open>A \<open>for\<close> loop whose body changes the state and may return early.\<close>

fun eachM :: "('a \<Rightarrow> ('s, unit) rm) \<Rightarrow> 'a list \<Rightarrow> ('s, unit) rm" where
  "eachM f [] = ret ()"
| "eachM f (x # xs) = seq (f x) (eachM f xs)"

lemma eachM_cong [fundef_cong]:
  "xs = ys \<Longrightarrow> (\<And>x. x \<in> set ys \<Longrightarrow> f x = g x) \<Longrightarrow> eachM f xs = eachM g ys"
  by (induction xs arbitrary: ys) auto

lemmas monad_defs = ret_def fail_def panic_def bind_def seq_def gets_def modify_def
  lift_res_def of_opt_def zoom_def

lemma bind_ret [simp]: "bind (ret a) f = f a"
  by (simp add: monad_defs)

lemma bind_fail [simp]: "bind (fail e) f = fail e"
  by (simp add: monad_defs)

lemma bind_panic [simp]: "bind (panic e) f = panic e"
  by (simp add: monad_defs)

lemma bind_assoc: "bind (bind m f) g = bind m (\<lambda>a. bind (f a) g)"
  by (auto simp: monad_defs split: prod.splits res.splits)

lemma bind_Ok:
  "bind m f s = (Ok b, t) \<longleftrightarrow> (\<exists>a s'. m s = (Ok a, s') \<and> f a s' = (Ok b, t))"
  by (auto simp: monad_defs split: prod.splits res.splits)

lemma seq_Ok:
  "seq m k s = (Ok b, t) \<longleftrightarrow> (\<exists>s'. m s = (Ok (), s') \<and> k s' = (Ok b, t))"
  by (auto simp: monad_defs split: prod.splits res.splits)

lemma ret_run [run_simps]: "ret a s = (Ok a, s)"
  by (simp add: ret_def)

lemma gets_run [run_simps]: "gets f s = (Ok (f s), s)"
  by (simp add: gets_def)

lemma modify_run [run_simps]: "modify f s = (Ok (), f s)"
  by (simp add: modify_def)

lemma fail_run [run_simps]: "fail e s = (Err e, s)"
  by (simp add: fail_def)

lemma panic_run [run_simps]: "panic e s = (Panic e, s)"
  by (simp add: panic_def)

lemma lift_res_run [run_simps]: "lift_res r s = (r, s)"
  by (simp add: lift_res_def)

lemma fst_seq: "fst (seq m k s) = res_bind (fst (m s)) (\<lambda>_. fst (k (snd (m s))))"
  by (auto simp: monad_defs split: prod.splits res.splits)

lemma eachM_Ok:
  assumes "\<And>x s. x \<in> set xs \<Longrightarrow> fst (f x s) = Ok () \<longleftrightarrow> P x"
  shows "fst (eachM f xs s) = Ok () \<longleftrightarrow> (\<forall>x \<in> set xs. P x)"
  using assms by (induction xs arbitrary: s) (auto simp: run_simps fst_seq res_bind_Ok_iff)

subsection \<open>Hoare triples\<close>

text \<open>
  The interface of a stateful component: an invariant \<open>inv\<close> of its state and a preorder
  \<open>ext\<close> that says how the state may evolve (what is known of a handle stays true). A
  \<open>triple P m Q\<close> then says: started in a state of the invariant where \<open>P\<close> holds, \<open>m\<close> does
  not panic (but for the excused panics), keeps the invariant whether it succeeds or fails, evolves the state along
  \<open>ext\<close>, and when it succeeds its result and state satisfy \<open>Q\<close>. A Rust error (\<open>Err\<close>) is
  allowed: the code reports it to its caller.
\<close>

locale hoare =
  fixes inv :: "'s \<Rightarrow> bool" and ext :: "'s \<Rightarrow> 's \<Rightarrow> bool"
  assumes ext_refl: "ext s s"
    and ext_trans: "ext s t \<Longrightarrow> ext t u \<Longrightarrow> ext s u"
begin

definition triple :: "('s \<Rightarrow> bool) \<Rightarrow> ('s, 'a) rm \<Rightarrow> ('a \<Rightarrow> 's \<Rightarrow> bool) \<Rightarrow> bool" where
  "triple P m Q \<longleftrightarrow> (\<forall>s. inv s \<longrightarrow> P s \<longrightarrow>
     inv (snd (m s)) \<and> ext s (snd (m s)) \<and> (\<forall>p. fst (m s) = Panic p \<longrightarrow> excused p) \<and>
     (\<forall>a. fst (m s) = Ok a \<longrightarrow> Q a (snd (m s))))"

text \<open>Facts that the evolution of the state keeps: they are carried across every call.\<close>

definition stable :: "('s \<Rightarrow> bool) \<Rightarrow> bool" where
  "stable P \<longleftrightarrow> (\<forall>s t. P s \<longrightarrow> ext s t \<longrightarrow> P t)"

lemma stable_const: "stable (\<lambda>_. C)"
  by (simp add: stable_def)

lemma stable_conj: "stable P \<Longrightarrow> stable Q \<Longrightarrow> stable (\<lambda>s. P s \<and> Q s)"
  unfolding stable_def by blast

lemma stable_all: "(\<And>x. stable (P x)) \<Longrightarrow> stable (\<lambda>s. \<forall>x. P x s)"
  unfolding stable_def by blast

lemma stable_ball: "(\<And>x. x \<in> A \<Longrightarrow> stable (P x)) \<Longrightarrow> stable (\<lambda>s. \<forall>x \<in> A. P x s)"
  unfolding stable_def by blast

lemma stable_imp: "(C \<Longrightarrow> stable P) \<Longrightarrow> stable (\<lambda>s. C \<longrightarrow> P s)"
  unfolding stable_def by blast

lemma stable_ex: "(\<And>x. stable (P x)) \<Longrightarrow> stable (\<lambda>s. \<exists>x. P x s)"
  unfolding stable_def by blast

lemma tripleI:
  "(\<And>s r t. inv s \<Longrightarrow> P s \<Longrightarrow> m s = (r, t) \<Longrightarrow>
     inv t \<and> ext s t \<and> (\<forall>p. r = Panic p \<longrightarrow> excused p) \<and> (\<forall>a. r = Ok a \<longrightarrow> Q a t)) \<Longrightarrow> triple P m Q"
  unfolding triple_def by (metis surjective_pairing)

lemma triple_D:
  assumes "triple P m Q" and "inv s" and "P s" and "m s = (r, t)"
  shows "inv t" and "ext s t" and "r = Panic p \<Longrightarrow> excused p" and "r = Ok a \<Longrightarrow> Q a t"
  using assms unfolding triple_def by (metis fst_conv snd_conv)+

lemma triple_pre: "triple P m Q \<Longrightarrow> (\<And>s. inv s \<Longrightarrow> P' s \<Longrightarrow> P s) \<Longrightarrow> triple P' m Q"
  unfolding triple_def by blast

lemma triple_post: "triple P m Q \<Longrightarrow> (\<And>a s. inv s \<Longrightarrow> Q a s \<Longrightarrow> Q' a s) \<Longrightarrow> triple P m Q'"
  unfolding triple_def by blast

text \<open>The rule of sequencing carries what is known before the first call past it.\<close>

lemma triple_bind:
  assumes st: "stable P" and m: "triple P m Q" and f: "\<And>a. triple (\<lambda>s. P s \<and> Q a s) (f a) R"
  shows "triple P (bind m f) R"
proof (rule tripleI)
  fix s r t
  assume s: "inv s" "P s" and run: "bind m f s = (r, t)"
  obtain r1 t1 where m1: "m s = (r1, t1)" by fastforce
  note d = triple_D [OF m s m1]
  show "inv t \<and> ext s t \<and> (\<forall>p. r = Panic p \<longrightarrow> excused p) \<and> (\<forall>a. r = Ok a \<longrightarrow> R a t)"
  proof (cases r1)
    case (Ok a)
    have "f a t1 = (r, t)" using run m1 Ok by (simp add: bind_def)
    moreover have "P t1 \<and> Q a t1" using st s d(2,4) Ok unfolding stable_def by blast
    ultimately show ?thesis using triple_D [OF f d(1), of a r t] ext_trans [OF d(2)] by blast
  next
    case (Err e)
    then have "r = Err e" "t = t1" using run m1 by (simp_all add: bind_def)
    then show ?thesis using d(1,2) by simp
  next
    case (Panic p)
    then have "r = Panic p" "t = t1" using run m1 by (simp_all add: bind_def)
    then show ?thesis using d(1,2) d(3) [of p] Panic by simp
  qed
qed

lemma triple_seq:
  "stable P \<Longrightarrow> triple P m Q \<Longrightarrow> triple (\<lambda>s. P s \<and> Q () s) k R \<Longrightarrow> triple P (seq m k) R"
  unfolding seq_def by (rule triple_bind) auto

lemma triple_ret: "(\<And>s. inv s \<Longrightarrow> P s \<Longrightarrow> Q a s) \<Longrightarrow> triple P (ret a) Q"
  by (simp add: triple_def run_simps ext_refl)

lemma triple_fail: "triple P (fail e) Q"
  by (simp add: triple_def run_simps ext_refl)

lemma triple_panic: "(\<And>s. inv s \<Longrightarrow> P s \<Longrightarrow> excused e) \<Longrightarrow> triple P (panic e) Q"
  by (auto simp: triple_def run_simps ext_refl)

lemma triple_gets: "(\<And>s. inv s \<Longrightarrow> P s \<Longrightarrow> Q (f s) s) \<Longrightarrow> triple P (gets f) Q"
  by (simp add: triple_def run_simps ext_refl)

lemma triple_modify:
  "(\<And>s. inv s \<Longrightarrow> P s \<Longrightarrow> inv (f s) \<and> ext s (f s) \<and> Q () (f s)) \<Longrightarrow> triple P (modify f) Q"
  by (simp add: triple_def run_simps)

lemma triple_of_opt:
  "(\<And>a s. x = Some a \<Longrightarrow> inv s \<Longrightarrow> P s \<Longrightarrow> Q a s) \<Longrightarrow> triple P (of_opt e x) Q"
  by (cases x) (auto simp: triple_def of_opt_def ok_or_def lift_res_def ext_refl)

lemma triple_lift_res:
  "(\<And>s. inv s \<Longrightarrow> P s \<Longrightarrow> no_panic r) \<Longrightarrow> (\<And>a s. r = Ok a \<Longrightarrow> inv s \<Longrightarrow> P s \<Longrightarrow> Q a s) \<Longrightarrow>
   triple P (lift_res r) Q"
  by (cases r) (auto simp: triple_def lift_res_def ext_refl)

lemma triple_query:
  "(\<And>s. inv s \<Longrightarrow> P s \<Longrightarrow> no_panic (f s)) \<Longrightarrow> (\<And>a s. f s = Ok a \<Longrightarrow> inv s \<Longrightarrow> P s \<Longrightarrow> Q a s) \<Longrightarrow>
   triple P (\<lambda>s. (f s, s)) Q"
  unfolding triple_def by (metis ext_refl fst_conv snd_conv no_panic.simps(1))

lemma triple_pull: "(\<And>s. inv s \<Longrightarrow> P s \<Longrightarrow> C) \<Longrightarrow> (C \<Longrightarrow> triple P m Q) \<Longrightarrow> triple P m Q"
  unfolding triple_def by blast

lemma triple_weaken: "triple (\<lambda>_. True) m Q \<Longrightarrow> triple P m Q"
  by (erule triple_pre) simp

text \<open>The rules in the form in which they are applied: a known triple used first, or last.\<close>

lemma triple_use:
  assumes "triple P0 m Q0" and "stable P" and "\<And>s. inv s \<Longrightarrow> P s \<Longrightarrow> P0 s"
    and "\<And>a. triple (\<lambda>s. P s \<and> Q0 a s) (f a) R"
  shows "triple P (bind m f) R"
  by (rule triple_bind [OF assms(2) triple_pre [OF assms(1,3)] assms(4)])

lemma triple_use_seq:
  assumes "triple P0 m Q0" and "stable P" and "\<And>s. inv s \<Longrightarrow> P s \<Longrightarrow> P0 s"
    and "triple (\<lambda>s. P s \<and> Q0 () s) k R"
  shows "triple P (seq m k) R"
  by (rule triple_seq [OF assms(2) triple_pre [OF assms(1,3)] assms(4)])

lemma triple_last:
  assumes "triple P0 m Q0" and "stable P" and "\<And>s. inv s \<Longrightarrow> P s \<Longrightarrow> P0 s"
    and "\<And>a s. inv s \<Longrightarrow> P s \<Longrightarrow> Q0 a s \<Longrightarrow> Q a s"
  shows "triple P m Q"
proof -
  have "triple P m (\<lambda>a s. P s \<and> Q0 a s)"
    using assms(1-3) unfolding triple_def stable_def by blast
  then show ?thesis by (rule triple_post) (use assms(4) in blast)
qed

text \<open>The case distinctions of the sources.\<close>

lemma triple_if: "(b \<Longrightarrow> triple P x Q) \<Longrightarrow> (\<not> b \<Longrightarrow> triple P y Q) \<Longrightarrow> triple P (if b then x else y) Q"
  by simp

lemma triple_option:
  "(x = None \<Longrightarrow> triple P m Q) \<Longrightarrow> (\<And>y. x = Some y \<Longrightarrow> triple P (f y) Q) \<Longrightarrow>
   triple P (case x of None \<Rightarrow> m | Some y \<Rightarrow> f y) Q"
  by (cases x) simp_all

lemma triple_prod: "(\<And>a b. x = (a, b) \<Longrightarrow> triple P (f a b) Q) \<Longrightarrow> triple P (case x of (a, b) \<Rightarrow> f a b) Q"
  by (cases x) simp

lemma triple_sum:
  "(\<And>a. x = Inl a \<Longrightarrow> triple P (f a) Q) \<Longrightarrow> (\<And>b. x = Inr b \<Longrightarrow> triple P (g b) Q) \<Longrightarrow>
   triple P (case x of Inl a \<Rightarrow> f a | Inr b \<Rightarrow> g b) Q"
  by (cases x) simp_all

lemma triple_list:
  "(x = [] \<Longrightarrow> triple P m Q) \<Longrightarrow> (\<And>y ys. x = y # ys \<Longrightarrow> triple P (f y ys) Q) \<Longrightarrow>
   triple P (case x of [] \<Rightarrow> m | y # ys \<Rightarrow> f y ys) Q"
  by (cases x) simp_all

lemma triple_let: "triple P (f x) Q \<Longrightarrow> triple P (let y = x in f y) Q"
  by simp

lemmas triple_cases = triple_if triple_option triple_prod triple_sum triple_list triple_let

lemma triple_mapM:
  assumes st: "stable P" and stR: "\<And>x y. stable (R x y)"
    and f: "\<And>x. x \<in> set xs \<Longrightarrow> triple P (f x) (\<lambda>y s. R x y s)"
  shows "triple P (mapM f xs) (\<lambda>ys s. list_all2 (\<lambda>x y. R x y s) xs ys)"
  using f
proof (induction xs)
  case Nil
  show ?case by (simp add: triple_ret)
next
  case (Cons x xs)
  have IH: "triple P (mapM f xs) (\<lambda>ys s. list_all2 (\<lambda>x y. R x y s) xs ys)"
    by (rule Cons.IH) (simp add: Cons.prems)
  have fx: "triple P (f x) (\<lambda>y s. R x y s)" by (rule Cons.prems) simp
  have s2: "stable (\<lambda>s. P s \<and> R x y s)" for y by (rule stable_conj [OF st stR])
  show ?case
    unfolding mapM.simps
    by (rule triple_bind [OF st fx], rule triple_bind [OF s2], rule triple_pre [OF IH], simp,
        rule triple_ret, simp)
qed

end

text \<open>A triple of a component holds of the component inside a larger state.\<close>

lemma zoom_triple:
  assumes m: "hoare.triple inv1 ext1 P m Q"
    and h1: "hoare ext1" and h2: "hoare ext2"
    and get_put: "\<And>s t. g (p s t) = s"
    and sub: "\<And>t. inv2 t \<Longrightarrow> inv1 (g t)"
    and keep: "\<And>s t. inv2 t \<Longrightarrow> inv1 s \<Longrightarrow> ext1 (g t) s \<Longrightarrow> inv2 (p s t) \<and> ext2 t (p s t)"
  shows "hoare.triple inv2 ext2 (\<lambda>t. P (g t)) (zoom g p m) (\<lambda>a t. Q a (g t))"
proof (rule hoare.tripleI [OF h2])
  fix t r t'
  assume t: "inv2 t" "P (g t)" and run: "zoom g p m t = (r, t')"
  obtain r1 s where m1: "m (g t) = (r1, s)" by fastforce
  with run have e: "r = r1" "t' = p s t" by (simp_all add: zoom_def)
  note d = hoare.triple_D [OF h1 m sub [OF t(1)] t(2) m1]
  show "inv2 t' \<and> ext2 t t' \<and> (\<forall>q. r = Panic q \<longrightarrow> excused q) \<and> (\<forall>a. r = Ok a \<longrightarrow> Q a (g t'))"
    using keep [OF t(1) d(1,2)] d(3) d(4) unfolding e get_put by simp
qed

end
