(* ===== verification/OrdMap.thy ===== *)
theory OrdMap
  imports Prelude
begin

text \<open>
  \<open>BTreeMap<K, V>\<close> of the Rust standard library: an association list kept strictly
  ascending in its keys, so that iteration order (which the VM relies on for scheduling and
  for wire values) is the list itself. The locale \<open>ord_map\<close> is the interface the components
  use; it is interpreted on these operations.
\<close>

type_synonym ('k, 'v) btree = "('k \<times> 'v) list"

fun bt_insert :: "'k::linorder \<Rightarrow> 'v \<Rightarrow> ('k, 'v) btree \<Rightarrow> ('k, 'v) btree" where
  "bt_insert k v [] = [(k, v)]"
| "bt_insert k v ((k', v') # m) =
     (if k < k' then (k, v) # (k', v') # m
      else if k = k' then (k, v) # m
      else (k', v') # bt_insert k v m)"

definition bt_remove :: "'k \<Rightarrow> ('k, 'v) btree \<Rightarrow> ('k, 'v) btree" where
  "bt_remove k m = filter (\<lambda>p. fst p \<noteq> k) m"

definition bt_get :: "('k, 'v) btree \<Rightarrow> 'k \<Rightarrow> 'v option" where
  "bt_get m k = map_of m k"

definition bt_keys :: "('k, 'v) btree \<Rightarrow> 'k list" where
  "bt_keys m = map fst m"

definition bt_values :: "('k, 'v) btree \<Rightarrow> 'v list" where
  "bt_values m = map snd m"

definition bt_contains :: "('k, 'v) btree \<Rightarrow> 'k \<Rightarrow> bool" where
  "bt_contains m k = (k \<in> set (bt_keys m))"

definition bt_retain :: "('k \<Rightarrow> 'v \<Rightarrow> bool) \<Rightarrow> ('k, 'v) btree \<Rightarrow> ('k, 'v) btree" where
  "bt_retain p m = filter (\<lambda>(k, v). p k v) m"

text \<open>\<open>extend\<close> and \<open>collect\<close>: later entries replace earlier ones.\<close>

definition bt_extend :: "('k::linorder, 'v) btree \<Rightarrow> ('k \<times> 'v) list \<Rightarrow> ('k, 'v) btree" where
  "bt_extend m xs = foldl (\<lambda>a (k, v). bt_insert k v a) m xs"

definition bt_collect :: "('k::linorder \<times> 'v) list \<Rightarrow> ('k, 'v) btree" where
  "bt_collect xs = bt_extend [] xs"

text \<open>\<open>entry(k).or_insert(v)\<close>.\<close>

definition bt_or_insert :: "'k::linorder \<Rightarrow> 'v \<Rightarrow> ('k, 'v) btree \<Rightarrow> ('k, 'v) btree" where
  "bt_or_insert k v m = (if bt_contains m k then m else bt_insert k v m)"

definition bt_inv :: "('k::linorder, 'v) btree \<Rightarrow> bool" where
  "bt_inv m = sorted_wrt (<) (map fst m)"

section \<open>The interface\<close>

locale ord_map =
  fixes empty :: "'m"
    and insert :: "'k::linorder \<Rightarrow> 'v \<Rightarrow> 'm \<Rightarrow> 'm"
    and remove :: "'k \<Rightarrow> 'm \<Rightarrow> 'm"
    and lookup :: "'m \<Rightarrow> 'k \<Rightarrow> 'v option"
    and keys :: "'m \<Rightarrow> 'k list"
    and inv :: "'m \<Rightarrow> bool"
  assumes lookup_empty: "lookup empty k = None"
    and lookup_insert: "lookup (insert k v m) k' = (if k' = k then Some v else lookup m k')"
    and lookup_remove: "lookup (remove k m) k' = (if k' = k then None else lookup m k')"
    and keys_lookup: "k \<in> set (keys m) \<longleftrightarrow> lookup m k \<noteq> None"
    and inv_empty: "inv empty"
    and inv_insert: "inv m \<Longrightarrow> inv (insert k v m)"
    and inv_remove: "inv m \<Longrightarrow> inv (remove k m)"
    and inv_sorted: "inv m \<Longrightarrow> sorted_wrt (<) (keys m)"
begin

lemma keys_insert: "set (keys (insert k v m)) = set (keys m) \<union> {k}"
  by (auto simp: keys_lookup lookup_insert split: if_splits)

lemma keys_remove: "set (keys (remove k m)) = set (keys m) - {k}"
  by (auto simp: keys_lookup lookup_remove split: if_splits)

lemma distinct_keys: "inv m \<Longrightarrow> distinct (keys m)"
  using inv_sorted strict_sorted_iff by blast

lemma insert_remove_lookup: "lookup (remove k (insert k v m)) k' = lookup (remove k m) k'"
  by (simp add: lookup_insert lookup_remove)

end

lemma map_of_bt_insert: "map_of (bt_insert k v m) k' = (if k' = k then Some v else map_of m k')"
  by (induction k v m rule: bt_insert.induct) auto

lemma map_of_bt_remove: "map_of (bt_remove k m) k' = (if k' = k then None else map_of m k')"
  unfolding bt_remove_def by (induction m) auto

lemma set_bt_insert: "set (map fst (bt_insert k v m)) = Set.insert k (set (map fst m))"
  by (induction k v m rule: bt_insert.induct) auto

lemma bt_insert_sorted: "sorted_wrt (<) (map fst m) \<Longrightarrow> sorted_wrt (<) (map fst (bt_insert k v m))"
proof (induction k v m rule: bt_insert.induct)
  case (2 k v k' v' m)
  then have "\<forall>x \<in> set (map fst (bt_insert k v m)). k' < x" if "k' < k"
    using that unfolding set_bt_insert by simp
  with 2 show ?case by (auto simp: not_less_iff_gr_or_eq)
qed simp

lemma sorted_wrt_map_filter:
  "sorted_wrt R (map f xs) \<Longrightarrow> sorted_wrt R (map f (filter p xs))"
  by (induction xs) auto

interpretation bt: ord_map "[]" bt_insert bt_remove bt_get bt_keys bt_inv
proof unfold_locales
  fix m :: "('a \<times> 'b) list" and k
  show "(k \<in> set (bt_keys m)) = (bt_get m k \<noteq> None)"
    by (simp add: bt_keys_def bt_get_def map_of_eq_None_iff)
qed (simp_all add: bt_get_def bt_inv_def bt_keys_def map_of_bt_insert map_of_bt_remove
      bt_insert_sorted, simp add: bt_remove_def sorted_wrt_map_filter)

lemma bt_get_insert [simp]: "bt_get (bt_insert k v m) k' = (if k' = k then Some v else bt_get m k')"
  by (rule bt.lookup_insert)

lemma bt_get_remove [simp]: "bt_get (bt_remove k m) k' = (if k' = k then None else bt_get m k')"
  by (simp add: bt_get_def map_of_bt_remove)

lemma bt_get_empty [simp]: "bt_get [] k = None"
  by (simp add: bt_get_def)

lemma bt_contains_get: "bt_contains m k \<longleftrightarrow> bt_get m k \<noteq> None"
  by (simp add: bt_contains_def bt_keys_def bt_get_def map_of_eq_None_iff)

lemma bt_get_in_set: "bt_get m k = Some v \<Longrightarrow> (k, v) \<in> set m"
  by (simp add: bt_get_def map_of_SomeD)

lemma bt_get_value: "bt_get m k = Some v \<Longrightarrow> v \<in> set (bt_values m)"
  by (force simp: bt_values_def dest: bt_get_in_set)

lemma set_bt_insert_pairs: "set (bt_insert k v m) \<subseteq> Set.insert (k, v) (set m)"
  by (induction k v m rule: bt_insert.induct) auto

lemma bt_values_insert: "set (bt_values (bt_insert k v m)) \<subseteq> Set.insert v (set (bt_values m))"
  using set_bt_insert_pairs [of k v m] by (fastforce simp: bt_values_def)

lemma bt_values_remove: "set (bt_values (bt_remove k m)) \<subseteq> set (bt_values m)"
  by (auto simp: bt_values_def bt_remove_def)

lemma bt_values_retain: "set (bt_values (bt_retain p m)) \<subseteq> set (bt_values m)"
  by (auto simp: bt_values_def bt_retain_def)

lemma bt_values_extend: "set (bt_values (bt_extend m xs)) \<subseteq> set (bt_values m) \<union> set (map snd xs)"
proof (induction xs arbitrary: m)
  case Nil
  show ?case by (simp add: bt_extend_def)
next
  case (Cons x xs)
  obtain k v where x: "x = (k, v)" by (cases x)
  have "bt_extend m (x # xs) = bt_extend (bt_insert k v m) xs"
    by (simp add: bt_extend_def x)
  with Cons.IH [of "bt_insert k v m"] bt_values_insert [of k v m] x show ?case by auto
qed

lemma bt_keys_extend: "set (bt_keys (bt_extend m xs)) = set (bt_keys m) \<union> set (map fst xs)"
proof (induction xs arbitrary: m)
  case Nil
  show ?case by (simp add: bt_extend_def)
next
  case (Cons x xs)
  obtain k v where x: "x = (k, v)" by (cases x)
  have "bt_extend m (x # xs) = bt_extend (bt_insert k v m) xs"
    by (simp add: bt_extend_def x)
  with Cons.IH [of "bt_insert k v m"] show ?case
    by (auto simp: x bt.keys_insert)
qed

lemma bt_inv_extend: "bt_inv m \<Longrightarrow> bt_inv (bt_extend m xs)"
  by (induction xs arbitrary: m) (auto simp: bt_extend_def bt.inv_insert split: prod.splits)

lemma bt_inv_collect [simp]: "bt_inv (bt_collect xs)"
  by (simp add: bt_collect_def bt_inv_extend bt.inv_empty)

lemma bt_inv_retain: "bt_inv m \<Longrightarrow> bt_inv (bt_retain p m)"
  by (simp add: bt_inv_def bt_retain_def sorted_wrt_map_filter)

lemma bt_extend_Cons [simp]: "bt_extend m ((k, v) # xs) = bt_extend (bt_insert k v m) xs"
  by (simp add: bt_extend_def)

lemma bt_extend_Nil [simp]: "bt_extend m [] = m"
  by (simp add: bt_extend_def)

lemma bt_insert_last:
  "\<forall>k' \<in> set (map fst m). k' < k \<Longrightarrow> bt_insert k v m = m @ [(k, v)]"
  by (induction m) auto

text \<open>Collecting an ascending list gives it back: what iterating and rebuilding a map does.\<close>

lemma bt_extend_sorted:
  "sorted_wrt (<) (map fst (m @ xs)) \<Longrightarrow> bt_extend m xs = m @ xs"
proof (induction xs arbitrary: m)
  case (Cons x xs)
  obtain k v where x: "x = (k, v)" by (cases x)
  from Cons.prems x have "bt_insert k v m = m @ [(k, v)]"
    by (intro bt_insert_last) (auto simp: sorted_wrt_append)
  with Cons.IH [of "m @ [(k, v)]"] Cons.prems x show ?case by simp
qed simp

lemma bt_collect_sorted: "bt_inv m \<Longrightarrow> bt_collect m = m"
  by (simp add: bt_collect_def bt_inv_def bt_extend_sorted)

text \<open>Changing the values and not the keys.\<close>

definition bt_map :: "('k \<Rightarrow> 'v \<Rightarrow> 'w) \<Rightarrow> ('k, 'v) btree \<Rightarrow> ('k, 'w) btree" where
  "bt_map g m = map (\<lambda>(k, v). (k, g k v)) m"

lemma bt_map_Cons [simp]: "bt_map g ((k, v) # m) = (k, g k v) # bt_map g m"
  by (simp add: bt_map_def)

lemma bt_map_Nil [simp]: "bt_map g [] = []"
  by (simp add: bt_map_def)

lemma bt_get_bt_map [simp]: "bt_get (bt_map g m) k = map_option (g k) (bt_get m k)"
  by (induction m) (auto simp: bt_get_def)

lemma map_fst_bt_map [simp]: "map fst (bt_map g m) = map fst m"
  by (induction m) auto

lemma bt_inv_map [simp]: "bt_inv (bt_map g m) = bt_inv m"
  by (simp add: bt_inv_def)

lemma bt_contains_map [simp]: "bt_contains (bt_map g m) k = bt_contains m k"
  by (simp add: bt_contains_def bt_keys_def)

lemma bt_get_iff: "bt_inv m \<Longrightarrow> bt_get m k = Some v \<longleftrightarrow> (k, v) \<in> set m"
  unfolding bt_get_def bt_inv_def
  by (rule map_of_eq_Some_iff) (simp add: strict_sorted_iff)

lemma bt_get_or_insert: "bt_get (bt_or_insert k v m) k' =
    (if k' = k \<and> bt_get m k = None then Some v else bt_get m k')"
  by (auto simp: bt_or_insert_def bt_contains_get)

lemma bt_inv_or_insert: "bt_inv m \<Longrightarrow> bt_inv (bt_or_insert k v m)"
  by (simp add: bt_or_insert_def bt.inv_insert)

lemma bt_or_insert_same: "bt_get m k \<noteq> None \<Longrightarrow> bt_or_insert k v m = m"
  by (simp add: bt_or_insert_def bt_contains_get)

lemma bt_extend_in_set: "(k, v) \<in> set (bt_extend m xs) \<Longrightarrow> (k, v) \<in> set m \<or> (k, v) \<in> set xs"
proof (induction xs arbitrary: m)
  case (Cons x xs)
  obtain k' v' where x: "x = (k', v')" by (cases x)
  from Cons.prems have "(k, v) \<in> set (bt_insert k' v' m) \<or> (k, v) \<in> set xs" by (intro Cons.IH) (simp add: x)
  then show ?case using set_bt_insert_pairs [of k' v' m] by (auto simp: x)
qed simp

lemma bt_get_collect_in_set: "bt_get (bt_collect xs) k = Some v \<Longrightarrow> (k, v) \<in> set xs"
  using bt_extend_in_set [of k v "[]" xs] by (auto simp: bt_collect_def dest: bt_get_in_set)

end
