(* ===== verification/F64.thy ===== *)
theory F64
  imports Prelude "HOL-Library.Word"
begin

text \<open>
  Rust's \<open>f64\<close> (IEEE 754 binary64, round to nearest even), the number type of the virtual
  machine, with the operations the sources use: arithmetic, comparisons, the conversions
  \<open>as f64\<close>, \<open>as usize\<close>, \<open>as i64\<close> and the text that \<open>{}\<close> prints. A finite number is
  a sign, a magnitude and an exponent, \<open>(-1)^s * m * 2^e\<close>, in the one canonical form
  \<open>f64_wf\<close>; every operation computes the exact result on integers and rounds it once.
\<close>

section \<open>Representation\<close>

datatype f64 = NaN | Inf bool | Fin bool int int

fun f64_wf :: "f64 \<Rightarrow> bool" where
  "f64_wf NaN = True"
| "f64_wf (Inf s) = True"
| "f64_wf (Fin s m e) =
     (0 \<le> m \<and> m < 2 ^ 53 \<and> - 1074 \<le> e \<and> e \<le> 971 \<and> (2 ^ 52 \<le> m \<or> e = - 1074))"

text \<open>The number of binary digits of a magnitude.\<close>

function bit_len :: "int \<Rightarrow> nat" where
  "bit_len n = (if n \<le> 0 then 0 else Suc (bit_len (n div 2)))"
  by pat_completeness auto
termination
  by (relation "measure nat") auto

declare bit_len.simps [simp del]

text \<open>
  Round \<open>(-1)^s * (m + d) * 2^e\<close>, where \<open>0 \<le> d < 1\<close> and \<open>d > 0\<close> iff \<open>sticky\<close>. Callers that
  set \<open>sticky\<close> supply at least 55 binary digits, so that \<open>d\<close> lies below the rounding bit.
\<close>

definition f64_round :: "bool \<Rightarrow> int \<Rightarrow> int \<Rightarrow> bool \<Rightarrow> f64" where
  "f64_round s m e sticky =
     (let e' = max (e + int (bit_len m) - 53) (- 1074);
          shift = e' - e
      in if m = 0 then Fin s 0 (- 1074)
         else if shift \<le> 0 then (if 971 < e' then Inf s else Fin s (m * 2 ^ nat (- shift)) e')
         else let q = m div 2 ^ nat shift;
                  r = m mod 2 ^ nat shift;
                  half = 2 ^ (nat shift - 1);
                  up = half < r \<or> (r = half \<and> (sticky \<or> odd q));
                  q' = (if up then q + 1 else q);
                  m' = (if q' = 2 ^ 53 then 2 ^ 52 else q');
                  e'' = (if q' = 2 ^ 53 then e' + 1 else e')
              in if 971 < e'' then Inf s else Fin s m' e'')"

definition f64_of_int :: "int \<Rightarrow> f64" where
  "f64_of_int n = f64_round (n < 0) \<bar>n\<bar> 0 False"

text \<open>\<open>n as f64\<close> for an unsigned \<open>n\<close>.\<close>

definition f64_of_nat :: "nat \<Rightarrow> f64" where
  "f64_of_nat n = f64_of_int (int n)"

abbreviation f64_zero :: f64 where "f64_zero \<equiv> Fin False 0 (- 1074)"

definition f64_one :: f64 where "f64_one = Fin False (2 ^ 52) (- 52)"

section \<open>Arithmetic\<close>

fun f64_neg :: "f64 \<Rightarrow> f64" where
  "f64_neg NaN = NaN"
| "f64_neg (Inf s) = Inf (\<not> s)"
| "f64_neg (Fin s m e) = Fin (\<not> s) m e"

definition signed :: "bool \<Rightarrow> int \<Rightarrow> int" where
  "signed s m = (if s then - m else m)"

text \<open>An exact zero sum is \<open>+0\<close> unless both addends are \<open>-0\<close>.\<close>

fun f64_add :: "f64 \<Rightarrow> f64 \<Rightarrow> f64" where
  "f64_add (Inf s) (Inf t) = (if s = t then Inf s else NaN)"
| "f64_add (Inf s) (Fin _ _ _) = Inf s"
| "f64_add (Fin _ _ _) (Inf t) = Inf t"
| "f64_add (Fin s m e) (Fin t n f) =
     (let g = min e f;
          v = signed s (m * 2 ^ nat (e - g)) + signed t (n * 2 ^ nat (f - g))
      in if v = 0 then Fin (s \<and> t) 0 (- 1074) else f64_round (v < 0) \<bar>v\<bar> g False)"
| "f64_add _ _ = NaN"

definition f64_sub :: "f64 \<Rightarrow> f64 \<Rightarrow> f64" where
  "f64_sub a b = f64_add a (f64_neg b)"

fun f64_mul :: "f64 \<Rightarrow> f64 \<Rightarrow> f64" where
  "f64_mul (Inf s) (Inf t) = Inf (s \<noteq> t)"
| "f64_mul (Inf s) (Fin t n _) = (if n = 0 then NaN else Inf (s \<noteq> t))"
| "f64_mul (Fin s m _) (Inf t) = (if m = 0 then NaN else Inf (s \<noteq> t))"
| "f64_mul (Fin s m e) (Fin t n f) = f64_round (s \<noteq> t) (m * n) (e + f) False"
| "f64_mul _ _ = NaN"

text \<open>
  The quotient is computed with 120 extra binary digits, so that it has at least 66 of them
  and the remainder only says whether it is inexact.
\<close>

fun f64_div :: "f64 \<Rightarrow> f64 \<Rightarrow> f64" where
  "f64_div (Inf s) (Fin t _ _) = Inf (s \<noteq> t)"
| "f64_div (Fin s _ _) (Inf t) = Fin (s \<noteq> t) 0 (- 1074)"
| "f64_div (Fin s m e) (Fin t n f) =
     (if n = 0 then (if m = 0 then NaN else Inf (s \<noteq> t))
      else f64_round (s \<noteq> t) (m * 2 ^ 120 div n) (e - f - 120) (m * 2 ^ 120 mod n \<noteq> 0))"
| "f64_div _ _ = NaN"

text \<open>\<open>a % b\<close>: the truncated remainder (\<open>fmod\<close>), exact, with the sign of \<open>a\<close>.\<close>

fun f64_rem :: "f64 \<Rightarrow> f64 \<Rightarrow> f64" where
  "f64_rem (Fin s m e) (Inf _) = Fin s m e"
| "f64_rem (Fin s m e) (Fin t n f) =
     (if n = 0 then NaN
      else let g = min e f
           in f64_round s ((m * 2 ^ nat (e - g)) mod (n * 2 ^ nat (f - g))) g False)"
| "f64_rem _ _ = NaN"

section \<open>Comparisons\<close>

fun f64_lt :: "f64 \<Rightarrow> f64 \<Rightarrow> bool" where
  "f64_lt (Inf s) (Inf t) = (s \<and> \<not> t)"
| "f64_lt (Inf s) (Fin _ _ _) = s"
| "f64_lt (Fin _ _ _) (Inf t) = (\<not> t)"
| "f64_lt (Fin s m e) (Fin t n f) =
     (let g = min e f in signed s (m * 2 ^ nat (e - g)) < signed t (n * 2 ^ nat (f - g)))"
| "f64_lt _ _ = False"

fun f64_eq :: "f64 \<Rightarrow> f64 \<Rightarrow> bool" where
  "f64_eq (Inf s) (Inf t) = (s = t)"
| "f64_eq (Fin s m e) (Fin t n f) =
     (let g = min e f in signed s (m * 2 ^ nat (e - g)) = signed t (n * 2 ^ nat (f - g)))"
| "f64_eq _ _ = False"

definition f64_le :: "f64 \<Rightarrow> f64 \<Rightarrow> bool" where
  "f64_le a b = (f64_lt a b \<or> f64_eq a b)"

text \<open>\<open>f64::max\<close> and \<open>f64::min\<close> return the other operand when one is NaN.\<close>

definition f64_max :: "f64 \<Rightarrow> f64 \<Rightarrow> f64" where
  "f64_max a b = (if a = NaN then b else if b = NaN then a else if f64_lt a b then b else a)"

definition f64_min :: "f64 \<Rightarrow> f64 \<Rightarrow> f64" where
  "f64_min a b = (if a = NaN then b else if b = NaN then a else if f64_lt b a then b else a)"

fun f64_is_finite :: "f64 \<Rightarrow> bool" where
  "f64_is_finite (Fin _ _ _) = True"
| "f64_is_finite _ = False"

section \<open>Conversions\<close>

text \<open>The integer part towards zero of a finite number.\<close>

fun f64_trunc_int :: "f64 \<Rightarrow> int" where
  "f64_trunc_int (Fin s m e) = signed s (if 0 \<le> e then m * 2 ^ nat e else m div 2 ^ nat (- e))"
| "f64_trunc_int _ = 0"

text \<open>\<open>trunc\<close> keeps the sign of its argument, so that \<open>-0.5\<close> truncates to \<open>-0\<close>.\<close>

fun f64_trunc :: "f64 \<Rightarrow> f64" where
  "f64_trunc (Fin s m e) = (if 0 \<le> e then Fin s m e else f64_round s (m div 2 ^ nat (- e)) 0 False)"
| "f64_trunc x = x"

definition f64_fract :: "f64 \<Rightarrow> f64" where
  "f64_fract x = f64_sub x (f64_trunc x)"

text \<open>\<open>x.fract() == 0.\<close>: the test for a whole number.\<close>

definition f64_fract_zero :: "f64 \<Rightarrow> bool" where
  "f64_fract_zero x = f64_eq (f64_fract x) f64_zero"

text \<open>
  \<open>f64::ceil\<close>.
\<close>

fun f64_ceil :: "f64 \<Rightarrow> f64" where
  "f64_ceil (Fin s m e) =
     (if 0 \<le> e then Fin s m e
      else let q = m div 2 ^ nat (- e); r = m mod 2 ^ nat (- e)
           in f64_round s (if r = 0 \<or> s then q else q + 1) 0 False)"
| "f64_ceil x = x"

text \<open>Casts saturate and send NaN to 0. \<open>usize\<close> and \<open>u64\<close> have 64 bits.\<close>

fun f64_to_u64 :: "f64 \<Rightarrow> nat" where
  "f64_to_u64 (Inf s) = (if s then 0 else 2 ^ 64 - 1)"
| "f64_to_u64 (Fin s m e) = nat (min (f64_trunc_int (Fin s m e)) (2 ^ 64 - 1))"
| "f64_to_u64 NaN = 0"

fun f64_to_i64 :: "f64 \<Rightarrow> int" where
  "f64_to_i64 (Inf s) = (if s then - (2 ^ 63) else 2 ^ 63 - 1)"
| "f64_to_i64 (Fin s m e) = max (- (2 ^ 63)) (min (f64_trunc_int (Fin s m e)) (2 ^ 63 - 1))"
| "f64_to_i64 NaN = 0"

section \<open>Text\<close>

text \<open>Decimal digits of a number, as \<open>{}\<close> prints an unsigned integer.\<close>

definition digit_char :: "int \<Rightarrow> char" where
  "digit_char d = char_of (48 + nat d)"

function dec_text :: "int \<Rightarrow> string" where
  "dec_text n = (if n < 10 then [digit_char n] else dec_text (n div 10) @ [digit_char (n mod 10)])"
  by pat_completeness auto
termination
  by (relation "measure nat") auto

declare dec_text.simps [simp del]

definition nat_text :: "nat \<Rightarrow> string" where
  "nat_text n = dec_text (int n)"

text \<open>The number rounded to \<open>f64\<close> from the decimal \<open>d * 10^p\<close>.\<close>

definition f64_of_decimal :: "bool \<Rightarrow> int \<Rightarrow> int \<Rightarrow> f64" where
  "f64_of_decimal s d p =
     (if d = 0 then Fin s 0 (- 1074)
      else if 0 \<le> p then f64_round s (d * 10 ^ nat p) 0 False
      else let n = 10 ^ nat (- p); k = bit_len n + 64
           in f64_round s (d * 2 ^ k div n) (- int k) (d * 2 ^ k mod n \<noteq> 0))"

text \<open>
  The shortest decimal \<open>d * 10^p\<close> with \<open>k\<close> digits that reads back as the number, the
  nearer of two such; \<open>num / den\<close> is the number's magnitude and \<open>ex\<close> its decimal exponent.
\<close>

definition short_candidate :: "f64 \<Rightarrow> int \<Rightarrow> int \<Rightarrow> int \<Rightarrow> nat \<Rightarrow> (int \<times> int) option" where
  "short_candidate x num den ex k =
     (let p = ex - int k + 1;
          a = (if 0 \<le> p then num else num * 10 ^ nat (- p));
          b = (if 0 \<le> p then den * 10 ^ nat p else den);
          lo = a div b;
          r = a mod b;
          near = (if 2 * r < b \<or> (2 * r = b \<and> even lo) then lo else lo + 1);
          far = (if near = lo then lo + 1 else lo)
      in if f64_of_decimal False near p = x then Some (near, p)
         else if f64_of_decimal False far p = x then Some (far, p)
         else None)"

fun short_search :: "f64 \<Rightarrow> int \<Rightarrow> int \<Rightarrow> int \<Rightarrow> nat \<Rightarrow> nat \<Rightarrow> (int \<times> int) option" where
  "short_search x num den ex k 0 = None"
| "short_search x num den ex k (Suc n) =
     (case short_candidate x num den ex k of
        Some c \<Rightarrow> Some c
      | None \<Rightarrow> short_search x num den ex (Suc k) n)"

text \<open>The decimal exponent of \<open>num / den\<close>: the \<open>e\<close> with \<open>10^e \<le> num/den < 10^(e+1)\<close>.\<close>

definition dec_exp :: "int \<Rightarrow> int \<Rightarrow> int" where
  "dec_exp num den =
     (if den \<le> num then int (length (dec_text (num div den))) - 1
      else - int (length (dec_text ((den - 1) div num))))"

definition decimal_text :: "int \<Rightarrow> int \<Rightarrow> string" where
  "decimal_text d p =
     (let ds = dec_text d
      in if 0 \<le> p then ds @ replicate (nat p) (CHR ''0'')
         else if nat (- p) < length ds
           then take (length ds - nat (- p)) ds @ CHR ''.'' # drop (length ds - nat (- p)) ds
         else ''0.'' @ replicate (nat (- p) - length ds) (CHR ''0'') @ ds)"

text \<open>\<open>format!("{n}")\<close>: the shortest digits that read back, never with an exponent.\<close>

fun f64_text :: "f64 \<Rightarrow> string" where
  "f64_text NaN = ''NaN''"
| "f64_text (Inf s) = (if s then ''-inf'' else ''inf'')"
| "f64_text (Fin s m e) =
     (let sg = (if s then ''-'' else '''')
      in if m = 0 then sg @ ''0''
         else let num = (if 0 \<le> e then m * 2 ^ nat e else m);
                  den = (if 0 \<le> e then 1 else 2 ^ nat (- e))
              in case short_search (Fin False m e) num den (dec_exp num den) 1 17 of
                   Some (d, p) \<Rightarrow> sg @ decimal_text d p
                 | None \<Rightarrow> sg @ decimal_text (num div den) 0)"

section \<open>Facts\<close>

lemma bit_len_le: "0 \<le> n \<Longrightarrow> n < 2 ^ bit_len n"
proof (induction n rule: bit_len.induct)
  case (1 n)
  show ?case
  proof (cases "n \<le> 0")
    case False
    with 1 have "n div 2 < 2 ^ bit_len (n div 2)" by auto
    then have "n < 2 * 2 ^ bit_len (n div 2)" by linarith
    with False show ?thesis by (subst bit_len.simps) simp
  qed (subst bit_len.simps, simp)
qed

lemma bit_len_ge: "0 < n \<Longrightarrow> 2 ^ (bit_len n - 1) \<le> n"
proof (induction n rule: bit_len.induct)
  case (1 n)
  show ?case
  proof (cases "n = 1")
    case True
    then show ?thesis by (simp add: bit_len.simps)
  next
    case False
    with 1 have ih: "2 ^ (bit_len (n div 2) - 1) \<le> n div 2" by auto
    have "0 < bit_len (n div 2)" using False 1(2) by (subst bit_len.simps) auto
    then have "2 ^ bit_len (n div 2) = 2 * (2::int) ^ (bit_len (n div 2) - 1)"
      by (cases "bit_len (n div 2)") auto
    with ih have "2 ^ bit_len (n div 2) \<le> n" by linarith
    with 1(2) show ?thesis by (subst bit_len.simps) simp
  qed
qed

lemma bit_len_bound: "0 \<le> n \<Longrightarrow> n < 2 ^ k \<Longrightarrow> bit_len n \<le> k"
proof (induction n arbitrary: k rule: bit_len.induct)
  case (1 n)
  show ?case
  proof (cases "n \<le> 0")
    case False
    with 1(3) obtain k' where k: "k = Suc k'" by (cases k) auto
    with 1(3) have "n div 2 < 2 ^ k'" by auto
    with 1 False have "bit_len (n div 2) \<le> k'" by auto
    with False k show ?thesis by (subst bit_len.simps) simp
  qed (subst bit_len.simps, simp)
qed

lemma f64_of_int_round:
  assumes "\<bar>n\<bar> < 2 ^ 53"
  shows "f64_of_int n =
    (let k = nat (53 - int (bit_len \<bar>n\<bar>)) in
     if n = 0 then f64_zero else Fin (n < 0) (\<bar>n\<bar> * 2 ^ k) (- int k))"
proof (cases "n = 0")
  case True
  then show ?thesis by (simp add: f64_of_int_def f64_round_def bit_len.simps Let_def)
next
  case False
  have b: "bit_len \<bar>n\<bar> \<le> 53" using assms by (intro bit_len_bound) auto
  then show ?thesis using False
    by (simp add: f64_of_int_def f64_round_def Let_def max_def)
qed

text \<open>Every integer of magnitude below \<open>2^53\<close> is represented exactly.\<close>

lemma f64_trunc_of_int: "\<bar>n\<bar> < 2 ^ 53 \<Longrightarrow> f64_trunc_int (f64_of_int n) = n"
proof (cases "n = 0")
  case False
  assume n: "\<bar>n\<bar> < 2 ^ 53"
  define k where "k = nat (53 - int (bit_len \<bar>n\<bar>))"
  have "f64_of_int n = Fin (n < 0) (\<bar>n\<bar> * 2 ^ k) (- int k)"
    using False by (simp add: f64_of_int_round [OF n] k_def Let_def)
  moreover have "\<bar>n\<bar> * 2 ^ k div 2 ^ k = \<bar>n\<bar>" by simp
  moreover have "\<bar>n\<bar> * 2 ^ nat (- int k) = \<bar>n\<bar> \<and> k = 0" if "0 \<le> - int k" using that by simp
  ultimately have "f64_trunc_int (f64_of_int n) = signed (n < 0) \<bar>n\<bar>" by auto
  then show ?thesis by (simp add: signed_def)
qed (simp add: f64_of_int_round Let_def signed_def)

lemma f64_of_int_inj: "\<bar>n\<bar> < 2 ^ 53 \<Longrightarrow> \<bar>k\<bar> < 2 ^ 53 \<Longrightarrow> f64_of_int n = f64_of_int k \<Longrightarrow> n = k"
  by (metis f64_trunc_of_int)

lemma f64_of_int_finite: "\<bar>n\<bar> < 2 ^ 53 \<Longrightarrow> f64_is_finite (f64_of_int n)"
  by (simp add: f64_of_int_round Let_def)

lemma f64_of_nat_to_u64: "n < 2 ^ 53 \<Longrightarrow> f64_to_u64 (f64_of_nat n) = n"
proof -
  assume n: "n < 2 ^ 53"
  then have i: "\<bar>int n\<bar> < 2 ^ 53" by simp
  obtain s m e where f: "f64_of_int (int n) = Fin s m e"
    using f64_of_int_finite [OF i] by (cases "f64_of_int (int n)") auto
  have "f64_trunc_int (Fin s m e) = int n"
    using f64_trunc_of_int [OF i] f by simp
  with n show ?thesis by (simp add: f64_of_nat_def f)
qed

end
