(* ===== verification/Bytecode.thy ===== *)
theory Bytecode
  imports OrdMap F64
begin

text \<open>
  The instruction set of the virtual machine, its functions and programs, and the
  validation a program passes before it runs (\<open>crates/deka_vm/src/bytecode.rs\<close>, with the
  JSON schemas of \<open>json.rs\<close> that some instructions carry). Constructors keep the names of
  the source, with the prefix \<open>Op_\<close>, \<open>Lit_\<close>, \<open>LM_\<close>, \<open>PJ_\<close> or \<open>Js_\<close> of their Rust type.
\<close>

section \<open>Operands\<close>

datatype promise_join = PJ_All | PJ_Race

fun promise_join_name :: "promise_join \<Rightarrow> string" where
  "promise_join_name PJ_All = ''all''"
| "promise_join_name PJ_Race = ''race''"

datatype type_descriptor = TypeDescriptor (td_kind: string) (td_name: string)

datatype literal =
    Lit_Unit
  | Lit_Uninitialized
  | Lit_Number f64
  | Lit_Bool bool
  | Lit_String string

datatype list_mut =
    LM_Push | LM_Pop | LM_Shift | LM_Unshift | LM_Splice | LM_Sort | LM_Reverse | LM_Fill
  | LM_CopyWithin

text \<open>The concrete JSON schema the compiler supplies; a \<open>JsonField\<close> is a name and a schema.\<close>

datatype json_shape =
    Js_Leaf string
  | Js_Struct string string "(string \<times> json_shape) list" "string list"
      \<comment> \<open>name, identity, fields, embeds\<close>
  | Js_Record "(string \<times> json_shape) list"
  | Js_Tuple "json_shape list"
  | Js_Array json_shape
  | Js_Option json_shape
  | Js_Enum string "(string \<times> json_shape option) list"
  | Js_Newtype string json_shape
  | Js_Union "json_shape list"

section \<open>Instructions\<close>

datatype (plugins only: code) op =
    Op_Const literal
  | Op_Pop
  | Op_Dup
  | Op_Load nat
  | Op_Store nat
  | Op_Rebind nat
  | Op_LoadChecked nat string \<comment> \<open>slot, message\<close>
  | Op_Add | Op_Sub | Op_Mul | Op_Div | Op_Mod
  | Op_Less | Op_LessEq | Op_Greater | Op_GreaterEq | Op_Equal | Op_NotEqual
  | Op_BitAnd | Op_BitOr | Op_BitXor | Op_Shl | Op_Shr
  | Op_Neg
  | Op_Not
  | Op_Jump nat
  | Op_JumpIfFalse nat
  | Op_JumpIfUnit nat
  | Op_Closure nat "nat list" \<comment> \<open>function, captures\<close>
  | Op_Call nat
  | Op_ComponentCall
  | Op_Slot
  | Op_MethodCall string nat \<comment> \<open>name, argc\<close>
  | Op_Host string nat \<comment> \<open>operation, arguments\<close>
  | Op_PromiseJoin promise_join
  | Op_Await
  | Op_Handler nat
  | Op_EndHandler
  | Op_Throw
  | Op_Return
  | Op_List nat
  | Op_ListAppend
  | Op_ListHas
  | Op_ListExtend
  | Op_Index
  | Op_FieldSet string
  | Op_IndexSet
  | Op_ListMut list_mut
  | Op_Record "string list"
  | Op_Struct string "string option" "string list" "string list"
      \<comment> \<open>name, identity, fields, embeds\<close>
  | Op_Props "string list"
  | Op_RecordExtend
  | Op_Field string
  | Op_OptionalField string
  | Op_FieldOrSelf string
  | Op_ToString
  | Op_GetType
  | Op_Descriptor type_descriptor
  | Op_JsonStringify json_shape
  | Op_JwtStringify json_shape string \<comment> \<open>shape, error\<close>
  | Op_JsonParse json_shape
  | Op_JsonParseResult json_shape
  | Op_Newtype string
  | Op_Enum string string nat bool \<comment> \<open>name, case, index, payload\<close>
  | Op_MatchEnum "string option" string \<comment> \<open>name, case\<close>
  | Op_MatchType type_descriptor
  | Op_MatchStruct string
  | Op_MatchTuple nat
  | Op_MatchEqual
  | Op_ToNumber
  | Op_Panic

record func =
  fn_name :: string
  parameters :: nat
  captures :: nat
  locals :: nat
  asynchronous :: bool
  code :: "op list"

record program =
  version :: nat
  funcs :: "func list"

section \<open>Validation\<close>

text \<open>The checks of one instruction, in the order of the source's \<open>match\<close> arms.\<close>

definition validate_op :: "program \<Rightarrow> func \<Rightarrow> op \<Rightarrow> unit res" where
  "validate_op p f x =
     (case x of
        Op_Load i \<Rightarrow> (if locals f \<le> i then Err ''invalid local operand'' else Ok ())
      | Op_Store i \<Rightarrow> (if locals f \<le> i then Err ''invalid local operand'' else Ok ())
      | Op_Rebind i \<Rightarrow> (if locals f \<le> i then Err ''invalid local operand'' else Ok ())
      | Op_LoadChecked slot _ \<Rightarrow> (if locals f \<le> slot then Err ''invalid local operand'' else Ok ())
      | Op_Jump i \<Rightarrow> (if length (code f) \<le> i then Err ''invalid jump'' else Ok ())
      | Op_JumpIfFalse i \<Rightarrow> (if length (code f) \<le> i then Err ''invalid jump'' else Ok ())
      | Op_JumpIfUnit i \<Rightarrow> (if length (code f) \<le> i then Err ''invalid jump'' else Ok ())
      | Op_Handler i \<Rightarrow> (if length (code f) \<le> i then Err ''invalid jump'' else Ok ())
      | Op_Closure g cs \<Rightarrow> (if length (funcs p) \<le> g then Err ''invalid function operand'' else if length cs \<noteq> captures (funcs p ! g) \<or> list_ex (\<lambda>i. locals f \<le> i) cs then Err ''invalid capture operands'' else Ok ())
      | _ \<Rightarrow> Ok ())"

definition validate_func :: "program \<Rightarrow> func \<Rightarrow> unit res" where
  "validate_func p f =
     (if locals f < min (parameters f + captures f) usize_max \<or> 65536 < locals f
      then Err ''invalid local count''
      else res_each (validate_op p f) (code f))"

definition validate :: "program \<Rightarrow> unit res" where
  "validate p =
     (if version p \<noteq> 1 \<or> funcs p = [] then Err ''unsupported or empty bytecode''
      else res_each (validate_func p) (funcs p))"

section \<open>What validation establishes\<close>

text \<open>
  The static safety of a program, stated without the code's control flow: every local,
  jump, handler and capture operand is in range and every closure names a function with
  the right number of captures.
\<close>

definition op_safe :: "program \<Rightarrow> func \<Rightarrow> op \<Rightarrow> bool" where
  "op_safe p f x =
     (case x of
        Op_Load i \<Rightarrow> (i < locals f)
      | Op_Store i \<Rightarrow> (i < locals f)
      | Op_Rebind i \<Rightarrow> (i < locals f)
      | Op_LoadChecked i _ \<Rightarrow> (i < locals f)
      | Op_Jump i \<Rightarrow> (i < length (code f))
      | Op_JumpIfFalse i \<Rightarrow> (i < length (code f))
      | Op_JumpIfUnit i \<Rightarrow> (i < length (code f))
      | Op_Handler i \<Rightarrow> (i < length (code f))
      | Op_Closure g cs \<Rightarrow> (g < length (funcs p) \<and> length cs = captures (funcs p ! g) \<and> (\<forall>i \<in> set cs. i < locals f))
      | _ \<Rightarrow> True)"

definition func_safe :: "program \<Rightarrow> func \<Rightarrow> bool" where
  "func_safe p f \<longleftrightarrow>
     parameters f + captures f \<le> locals f \<and> locals f \<le> 65536 \<and> (\<forall>x \<in> set (code f). op_safe p f x)"

definition program_safe :: "program \<Rightarrow> bool" where
  "program_safe p \<longleftrightarrow>
     version p = 1 \<and> funcs p \<noteq> [] \<and> (\<forall>f \<in> set (funcs p). func_safe p f)"

lemma validate_op_safe: "validate_op p f x = Ok () \<longleftrightarrow> op_safe p f x"
  by (cases x) (auto simp: validate_op_def op_safe_def list_ex_iff not_less)

lemma validate_op_no_panic: "no_panic (validate_op p f x)"
  by (cases x) (auto simp: validate_op_def)

lemma validate_func_safe: "validate_func p f = Ok () \<longleftrightarrow> func_safe p f"
  by (auto simp: validate_func_def func_safe_def res_each_Ok validate_op_safe usize_max_def)

lemma validate_safe: "validate p = Ok () \<longleftrightarrow> program_safe p"
  by (auto simp: validate_def program_safe_def res_each_Ok validate_func_safe)

lemma validate_no_panic: "no_panic (validate p)"
  by (auto simp: validate_def validate_func_def validate_op_no_panic intro!: no_panic_each)

lemma program_safe_op:
  "program_safe p \<Longrightarrow> f < length (funcs p) \<Longrightarrow> i < length (code (funcs p ! f)) \<Longrightarrow>
   op_safe p (funcs p ! f) (code (funcs p ! f) ! i)"
  by (auto simp: program_safe_def func_safe_def)

lemma program_safe_locals:
  "program_safe p \<Longrightarrow> f < length (funcs p) \<Longrightarrow>
   parameters (funcs p ! f) + captures (funcs p ! f) \<le> locals (funcs p ! f)"
  by (auto simp: program_safe_def func_safe_def)

section \<open>Order of type descriptors\<close>

text \<open>\<open>#[derive(PartialOrd, Ord)]\<close>: by kind, then by name.\<close>

instantiation type_descriptor :: linorder
begin

definition less_eq_type_descriptor :: "type_descriptor \<Rightarrow> type_descriptor \<Rightarrow> bool" where
  "less_eq_type_descriptor a b \<longleftrightarrow> (td_kind a, td_name a) \<le> (td_kind b, td_name b)"

definition less_type_descriptor :: "type_descriptor \<Rightarrow> type_descriptor \<Rightarrow> bool" where
  "less_type_descriptor a b \<longleftrightarrow> (td_kind a, td_name a) < (td_kind b, td_name b)"

instance
proof
  fix x y :: type_descriptor
  assume "x \<le> y" and "y \<le> x"
  then have "(td_kind x, td_name x) = (td_kind y, td_name y)"
    unfolding less_eq_type_descriptor_def by (rule antisym)
  then show "x = y" by (simp add: type_descriptor.expand)
qed (auto simp only: less_eq_type_descriptor_def less_type_descriptor_def)

end

end
