(* ===== verification/HeapModel.thy ===== *)
theory HeapModel
  imports Bytecode
begin

text \<open>
  The garbage-collected heap of the virtual machine (\<open>crates/deka_vm/src/heap.rs\<close>):
  values, slots with generations, allocation from a free list, the mark and sweep
  collector, and the read capture that tells which bindings a write makes dirty.

  Conventions: a \<open>Vec\<close> used as a stack is a list with its last element first (the free
  list, the collector's worklist). \<open>usize\<close> and \<open>u64\<close> counters that only grow are \<open>nat\<close>;
  the generation, whose overflow the code checks, has its bound written out, and the
  revision, which wraps, is a 64-bit word.
\<close>

section \<open>Handles and values\<close>

datatype handle = Handle (index: nat) (generation: nat)

text \<open>\<open>#[derive(PartialOrd, Ord)]\<close>: by index, then by generation.\<close>

instantiation handle :: linorder
begin

definition less_eq_handle :: "handle \<Rightarrow> handle \<Rightarrow> bool" where
  "less_eq_handle a b \<longleftrightarrow> (index a, generation a) \<le> (index b, generation b)"

definition less_handle :: "handle \<Rightarrow> handle \<Rightarrow> bool" where
  "less_handle a b \<longleftrightarrow> (index a, generation a) < (index b, generation b)"

instance
proof
  fix x y :: handle
  assume "x \<le> y" and "y \<le> x"
  then have "(index x, generation x) = (index y, generation y)"
    unfolding less_eq_handle_def by (rule antisym)
  then show "x = y" by (simp add: handle.expand)
qed (auto simp only: less_eq_handle_def less_handle_def)

end

text \<open>
  A \<open>HostHandle\<close> is a name and a Rust allocation; equality compares the name and the
  allocation's identity (\<open>Rc::ptr_eq\<close>), here a number.
\<close>

datatype host_handle = HostHandle (hh_name: string) (hh_resource: nat)

datatype outcome = Out_Value handle | Out_Thrown handle

record record_value =
  rec_fields :: "(string, handle) btree"
  rec_struct_name :: "string option"
  rec_struct_identity :: "string option"
  rec_enum_name :: "string option"
  rec_order :: "string list"
  rec_embeds :: "string list"

definition empty_record :: record_value where
  "empty_record = \<lparr>rec_fields = [], rec_struct_name = None, rec_struct_identity = None,
     rec_enum_name = None, rec_order = [], rec_embeds = []\<rparr>"

datatype val =
    V_Unit
  | V_Uninitialized
  | V_Descriptor type_descriptor
  | V_Number f64
  | V_Bool bool
  | V_String string
  | V_Bytes "8 word list"
  | V_Host host_handle
  | V_List "handle list"
  | V_Record record_value
  | V_Props "(string, handle) btree"
  | V_Cell handle
  | V_Closure nat "handle list" "handle option" \<comment> \<open>function, captures, slot children\<close>
  | V_Promise "(string + outcome) option" \<comment> \<open>\<open>Inl\<close> is a fault of the VM\<close>

fun val_of_literal :: "literal \<Rightarrow> val" where
  "val_of_literal Lit_Unit = V_Unit"
| "val_of_literal Lit_Uninitialized = V_Uninitialized"
| "val_of_literal (Lit_Number n) = V_Number n"
| "val_of_literal (Lit_Bool b) = V_Bool b"
| "val_of_literal (Lit_String s) = V_String s"

definition rec_get :: "record_value \<Rightarrow> string \<Rightarrow> handle option" where
  "rec_get r n = bt_get (rec_fields r) n"

definition rec_insert :: "string \<Rightarrow> handle \<Rightarrow> record_value \<Rightarrow> record_value" where
  "rec_insert n h r = r\<lparr>rec_fields := bt_insert n h (rec_fields r)\<rparr>"

text \<open>\<open>Record: FromIterator<(String, Handle)>\<close>: a repeated name keeps its first place.\<close>

definition rec_put :: "string \<Rightarrow> handle \<Rightarrow> record_value \<Rightarrow> record_value" where
  "rec_put n h r =
     (let r' = (if bt_contains (rec_fields r) n then r else r\<lparr>rec_order := rec_order r @ [n]\<rparr>)
      in rec_insert n h r')"

definition record_from_iter :: "(string \<times> handle) list \<Rightarrow> record_value" where
  "record_from_iter xs = foldl (\<lambda>r (n, h). rec_put n h r) empty_record xs"

section \<open>The heap\<close>

record slot =
  slot_value :: "val option"
  slot_gen :: nat
  slot_marked :: bool
  slot_newtype :: "string option"
  slot_created :: nat
  slot_revision :: "64 word"

datatype read = Read_Cell | Read_Field string | Read_Index nat | Read_Length | Read_Entity

datatype observed = Obs_Address "handle option" | Obs_Size nat | Obs_Revision "64 word"

record dependency =
  dep_object :: handle
  dep_read :: read
  dep_observed :: observed

record reads =
  reads_start :: nat
  reads_deps :: "dependency list"
  reads_volatile :: bool

record heap =
  slots :: "slot list"
  free :: "nat list"
  collections :: nat
  allocations :: nat
  heap_reads :: "reads option"

definition empty_heap :: heap where
  "empty_heap = \<lparr>slots = [], free = [], collections = 0, allocations = 0, heap_reads = None\<rparr>"

record heap_stats =
  stat_live :: nat
  stat_slots :: nat
  stat_collections :: nat
  stat_allocations :: nat

subsection \<open>Reading and allocating\<close>

definition slots_get :: "slot list \<Rightarrow> handle \<Rightarrow> val res" where
  "slots_get ss h =
     (if index h < length ss \<and> slot_gen (ss ! index h) = generation h
      then ok_or ''stale heap handle'' (slot_value (ss ! index h))
      else Err ''stale heap handle'')"

definition heap_get :: "heap \<Rightarrow> handle \<Rightarrow> val res" where
  "heap_get hp h = slots_get (slots hp) h"

text \<open>
  A freed slot is reused with its present generation, which the sweep has already advanced. The free
  list only holds indices of slots (\<open>heap_wf\<close>); one out of range, where the source would panic, cannot occur.
\<close>

definition heap_alloc :: "val \<Rightarrow> heap \<Rightarrow> handle \<times> heap" where
  "heap_alloc v hp =
     (let n = Suc (allocations hp)
      in case free hp of
           i # rest \<Rightarrow>
             let s = slots hp ! i;
                 s' = s\<lparr>slot_value := Some v, slot_newtype := None, slot_created := n, slot_revision := 0\<rparr>
             in (Handle i (slot_gen s),
                 hp\<lparr>slots := (slots hp)[i := s'], free := rest, allocations := n\<rparr>)
         | [] \<Rightarrow>
             let s' = \<lparr>slot_value = Some v, slot_gen = 0, slot_marked = False, slot_newtype = None,
                       slot_created = n, slot_revision = 0\<rparr>
             in (Handle (length (slots hp)) 0,
                 hp\<lparr>slots := slots hp @ [s'], allocations := n\<rparr>))"

definition heap_alloc_newtype :: "val \<Rightarrow> string \<Rightarrow> heap \<Rightarrow> handle \<times> heap" where
  "heap_alloc_newtype v name hp =
     (case heap_alloc v hp of (h, hp') \<Rightarrow>
        (h, hp'\<lparr>slots := (slots hp')[index h := (slots hp' ! index h)\<lparr>slot_newtype := Some name\<rparr>]\<rparr>))"

definition newtype_name :: "heap \<Rightarrow> handle \<Rightarrow> string option res" where
  "newtype_name hp h = res_bind (heap_get hp h) (\<lambda>_. Ok (slot_newtype (slots hp ! index h)))"

text \<open>Every enum value is a record with the case's label, its index and perhaps a payload.\<close>

definition heap_alloc_enum ::
    "string \<Rightarrow> string \<Rightarrow> nat \<Rightarrow> handle option \<Rightarrow> heap \<Rightarrow> handle \<times> heap" where
  "heap_alloc_enum name c idx payload hp =
     (case heap_alloc (V_String c) hp of (label, hp1) \<Rightarrow>
      case heap_alloc (V_Number (f64_of_nat idx)) hp1 of (ih, hp2) \<Rightarrow>
      let r = record_from_iter [(''name'', label), (''index'', ih)];
          r' = (case payload of
                  None \<Rightarrow> r
                | Some v \<Rightarrow> rec_insert ''value'' v (r\<lparr>rec_order := rec_order r @ [''value'']\<rparr>))
      in heap_alloc (V_Record (r'\<lparr>rec_enum_name := Some name\<rparr>)) hp2)"

definition heap_stats_of :: "heap \<Rightarrow> heap_stats" where
  "heap_stats_of hp =
     \<lparr>stat_live = length (slots hp) - length (free hp), stat_slots = length (slots hp),
      stat_collections = collections hp, stat_allocations = allocations hp\<rparr>"

subsection \<open>Writing\<close>

definition observe_write :: "handle \<Rightarrow> heap \<Rightarrow> heap" where
  "observe_write h hp =
     (case heap_reads hp of
        None \<Rightarrow> hp
      | Some r \<Rightarrow>
          if slot_created (slots hp ! index h) \<le> reads_start r
          then hp\<lparr>heap_reads := Some (r\<lparr>reads_volatile := True\<rparr>)\<rparr>
          else hp)"

definition bump_revision :: "handle \<Rightarrow> heap \<Rightarrow> heap" where
  "bump_revision h hp =
     hp\<lparr>slots := (slots hp)[index h :=
       (slots hp ! index h)\<lparr>slot_revision := slot_revision (slots hp ! index h) + 1\<rparr>]\<rparr>"

text \<open>
  \<open>get_mut\<close> hands out a reference: reading through it is its result, writing through it is
  \<open>heap_put\<close>. Both the capture and the revision change as soon as the reference is taken.
\<close>

definition heap_get_mut :: "handle \<Rightarrow> (heap, val) rm" where
  "heap_get_mut h = bind (\<lambda>hp. (heap_get hp h, hp)) (\<lambda>_.
     seq (modify (observe_write h)) (
     seq (modify (bump_revision h)) (\<lambda>hp. (heap_get hp h, hp))))"

definition heap_put :: "handle \<Rightarrow> val \<Rightarrow> heap \<Rightarrow> heap" where
  "heap_put h v hp =
     hp\<lparr>slots := (slots hp)[index h := (slots hp ! index h)\<lparr>slot_value := Some v\<rparr>]\<rparr>"

definition heap_replace :: "handle \<Rightarrow> val \<Rightarrow> (heap, unit) rm" where
  "heap_replace h v = bind (\<lambda>hp. (heap_get hp h, hp)) (\<lambda>_.
     seq (modify (observe_write h)) (
     seq (modify (bump_revision h)) (modify (heap_put h v))))"

subsection \<open>Collection\<close>

text \<open>The handles a value holds, in the order the collector pushes them.\<close>

fun children :: "val \<Rightarrow> handle list" where
  "children (V_Cell h) = [h]"
| "children (V_Promise (Some (Inr (Out_Value h)))) = [h]"
| "children (V_Promise (Some (Inr (Out_Thrown h)))) = [h]"
| "children (V_List hs) = hs"
| "children (V_Closure f cs sl) = cs @ (case sl of None \<Rightarrow> [] | Some h \<Rightarrow> [h])"
| "children (V_Record r) = bt_values (rec_fields r)"
| "children (V_Props m) = bt_values m"
| "children _ = []"

definition dep_roots :: "dependency \<Rightarrow> handle list" where
  "dep_roots d = dep_object d #
     (case dep_observed d of Obs_Address (Some h) \<Rightarrow> [h] | _ \<Rightarrow> [])"

definition mark_slot :: "nat \<Rightarrow> slot list \<Rightarrow> slot list" where
  "mark_slot i ss = ss[i := (ss ! i)\<lparr>slot_marked := True\<rparr>]"

definition unmarked :: "slot list \<Rightarrow> nat" where
  "unmarked ss = length (filter (\<lambda>s. \<not> slot_marked s) ss)"

lemma unmarked_mark_less:
  "i < length ss \<Longrightarrow> \<not> slot_marked (ss ! i) \<Longrightarrow> unmarked (mark_slot i ss) < unmarked ss"
  unfolding unmarked_def mark_slot_def
  by (induction ss arbitrary: i) (auto split: nat.splits)

function mark_loop :: "slot list \<Rightarrow> handle list \<Rightarrow> unit res \<times> slot list" where
  "mark_loop ss [] = (Ok (), ss)"
| "mark_loop ss (h # todo) =
     (case slots_get ss h of
        Err e \<Rightarrow> (Err e, ss)
      | Panic p \<Rightarrow> (Panic p, ss)
      | Ok v \<Rightarrow>
          if slot_marked (ss ! index h) then mark_loop ss todo
          else mark_loop (mark_slot (index h) ss) (rev (children v) @ todo))"
  by pat_completeness auto
termination
  by (relation "measures [\<lambda>(ss, todo). unmarked ss, \<lambda>(ss, todo). length todo]")
     (auto intro: unmarked_mark_less simp: slots_get_def split: if_splits)

text \<open>
  The sweep over the slots from index \<open>i\<close>: the outcome, the slots, and the indices freed,
  last one first. It stops at a slot whose generation cannot be advanced.
\<close>

fun sweep :: "nat \<Rightarrow> slot list \<Rightarrow> unit res \<times> slot list \<times> nat list" where
  "sweep i [] = (Ok (), [], [])"
| "sweep i (s # ss) =
     (if slot_value s \<noteq> None \<and> \<not> slot_marked s
      then let s1 = s\<lparr>slot_value := None, slot_newtype := None\<rparr>
           in if slot_gen s \<ge> usize_max then (Err ''heap generation exhausted'', s1 # ss, [])
              else case sweep (Suc i) ss of (r, ss', fr) \<Rightarrow>
                (r, s1\<lparr>slot_gen := Suc (slot_gen s), slot_marked := False\<rparr> # ss', fr @ [i])
      else case sweep (Suc i) ss of (r, ss', fr) \<Rightarrow> (r, s\<lparr>slot_marked := False\<rparr> # ss', fr))"

definition collect_roots :: "heap \<Rightarrow> handle list \<Rightarrow> handle list" where
  "collect_roots hp roots =
     roots @ (case heap_reads hp of None \<Rightarrow> [] | Some r \<Rightarrow> concat (map dep_roots (reads_deps r)))"

definition heap_collect :: "handle list \<Rightarrow> (heap, unit) rm" where
  "heap_collect roots hp =
     (case mark_loop (slots hp) (rev (collect_roots hp roots)) of
        (Ok _, ss) \<Rightarrow>
          (case sweep 0 ss of (r, ss', fr) \<Rightarrow>
             (let hp' = hp\<lparr>slots := ss', free := fr @ free hp\<rparr>
              in case r of Ok _ \<Rightarrow> (Ok (), hp'\<lparr>collections := Suc (collections hp)\<rparr>)
                 | Err e \<Rightarrow> (Err e, hp') | Panic p \<Rightarrow> (Panic p, hp')))
      | (Err e, ss) \<Rightarrow> (Err e, hp\<lparr>slots := ss\<rparr>)
      | (Panic p, ss) \<Rightarrow> (Panic p, hp\<lparr>slots := ss\<rparr>))"

subsection \<open>Read capture\<close>

definition observed_at :: "heap \<Rightarrow> handle \<Rightarrow> read \<Rightarrow> observed res" where
  "observed_at hp h rd = res_bind (heap_get hp h) (\<lambda>v. Ok
     (case (rd, v) of
        (Read_Cell, V_Cell c) \<Rightarrow> Obs_Address (Some c)
      | (Read_Field n, V_Record r) \<Rightarrow> Obs_Address (rec_get r n)
      | (Read_Field n, V_Props m) \<Rightarrow> Obs_Address (bt_get m n)
      | (Read_Index i, V_List items) \<Rightarrow>
          Obs_Address (if i < length items then Some (items ! i) else None)
      | (Read_Length, V_List items) \<Rightarrow> Obs_Size (length items)
      | _ \<Rightarrow> Obs_Revision (slot_revision (slots hp ! index h))))"

definition heap_observe :: "handle \<Rightarrow> read \<Rightarrow> (heap, unit) rm" where
  "heap_observe h rd hp =
     (case heap_reads hp of
        None \<Rightarrow> (Ok (), hp)
      | Some r \<Rightarrow>
          (case observed_at hp h rd of
             Err e \<Rightarrow> (Err e, hp)
           | Panic p \<Rightarrow> (Panic p, hp)
           | Ok ob \<Rightarrow>
               if slot_created (slots hp ! index h) \<le> reads_start r \<and>
                  \<not> list_ex (\<lambda>d. dep_object d = h \<and> dep_read d = rd) (reads_deps r)
               then (Ok (), hp\<lparr>heap_reads := Some (r\<lparr>reads_deps := reads_deps r @
                       [\<lparr>dep_object = h, dep_read = rd, dep_observed = ob\<rparr>]\<rparr>)\<rparr>)
               else (Ok (), hp)))"

definition heap_volatile :: "heap \<Rightarrow> heap" where
  "heap_volatile hp =
     (case heap_reads hp of
        None \<Rightarrow> hp
      | Some r \<Rightarrow> hp\<lparr>heap_reads := Some (r\<lparr>reads_volatile := True\<rparr>)\<rparr>)"

definition begin_reads :: "heap \<Rightarrow> heap" where
  "begin_reads hp =
     hp\<lparr>heap_reads := Some \<lparr>reads_start = allocations hp, reads_deps = [], reads_volatile = False\<rparr>\<rparr>"

record dependencies =
  deps_values :: "dependency list"
  deps_volatile :: bool

definition end_reads :: "(heap, dependencies) rm" where
  "end_reads hp =
     (case heap_reads hp of
        None \<Rightarrow> (Panic ''binding capture started'', hp)
      | Some r \<Rightarrow> (Ok \<lparr>deps_values = reads_deps r, deps_volatile = reads_volatile r\<rparr>,
                   hp\<lparr>heap_reads := None\<rparr>))"

definition deps_roots :: "dependencies \<Rightarrow> handle list" where
  "deps_roots ds = concat (map dep_roots (deps_values ds))"

definition deps_dirty :: "dependencies \<Rightarrow> heap \<Rightarrow> bool" where
  "deps_dirty ds hp \<longleftrightarrow>
     deps_volatile ds \<or>
     list_ex (\<lambda>d. observed_at hp (dep_object d) (dep_read d) \<noteq> Ok (dep_observed d)) (deps_values ds)"

end
