(* ===== verification/HeapGC.thy ===== *)
theory HeapGC
  imports HeapModel
begin

text \<open>
  The collector of \<open>heap.rs\<close> is exact: it keeps what the roots reach and frees everything
  else, and a handle to a freed slot never reads a value again. The theory states
  reachability, the heap's well-formedness and the preservation of both by each operation.
\<close>

section \<open>Reachability and well-formedness\<close>

inductive reach :: "(handle \<Rightarrow> val res) \<Rightarrow> handle set \<Rightarrow> handle \<Rightarrow> bool"
  for get :: "handle \<Rightarrow> val res" and roots :: "handle set" where
  reach_root: "h \<in> roots \<Longrightarrow> reach get roots h"
| reach_child: "reach get roots h \<Longrightarrow> get h = Ok v \<Longrightarrow> c \<in> set (children v) \<Longrightarrow> reach get roots c"

definition live :: "heap \<Rightarrow> handle \<Rightarrow> bool" where
  "live hp h \<longleftrightarrow> is_ok (heap_get hp h)"

text \<open>A handle whose slot has moved on to a later generation.\<close>

definition dead :: "heap \<Rightarrow> handle \<Rightarrow> bool" where
  "dead hp h \<longleftrightarrow> index h < length (slots hp) \<and> generation h < slot_gen (slots hp ! index h)"

definition heap_wf :: "heap \<Rightarrow> bool" where
  "heap_wf hp \<longleftrightarrow>
     distinct (free hp) \<and>
     set (free hp) = {i. i < length (slots hp) \<and> slot_value (slots hp ! i) = None} \<and>
     (\<forall>s \<in> set (slots hp). \<not> slot_marked s)"

text \<open>No live value holds a stale handle.\<close>

definition heap_closed :: "heap \<Rightarrow> bool" where
  "heap_closed hp \<longleftrightarrow> (\<forall>h v c. heap_get hp h = Ok v \<longrightarrow> c \<in> set (children v) \<longrightarrow> live hp c)"

lemma reach_mono: "reach get A h \<Longrightarrow> A \<subseteq> B \<Longrightarrow> reach get B h"
  by (induction rule: reach.induct) (auto intro: reach.intros)

lemma reach_trans:
  "reach get A h \<Longrightarrow> (\<And>a. a \<in> A \<Longrightarrow> reach get B a) \<Longrightarrow> reach get B h"
  by (induction rule: reach.induct) (auto intro: reach.intros)

lemma slots_get_Ok_iff:
  "slots_get ss h = Ok v \<longleftrightarrow>
   index h < length ss \<and> slot_gen (ss ! index h) = generation h \<and> slot_value (ss ! index h) = Some v"
  by (auto simp: slots_get_def ok_or_def split: option.splits)

lemma slots_get_cases:
  obtains v where "slots_get ss h = Ok v" | "slots_get ss h = Err ''stale heap handle''"
proof -
  have "(\<exists>v. slots_get ss h = Ok v) \<or> slots_get ss h = Err ''stale heap handle''"
    by (auto simp: slots_get_def ok_or_def split: option.splits)
  with that show thesis by blast
qed

lemma heap_get_cases:
  obtains v where "heap_get hp h = Ok v" | "heap_get hp h = Err ''stale heap handle''"
  unfolding heap_get_def by (rule slots_get_cases)

lemma heap_get_no_panic [simp]: "no_panic (heap_get hp h)" "heap_get hp h \<noteq> Panic p"
  by (cases rule: heap_get_cases [of hp h]; simp)+

lemma live_iff: "live hp h \<longleftrightarrow> (\<exists>v. heap_get hp h = Ok v)"
  by (cases "heap_get hp h") (auto simp: live_def)

lemma dead_not_live: "dead hp h \<Longrightarrow> heap_get hp h = Err ''stale heap handle''"
  by (auto simp: dead_def heap_get_def slots_get_def)

section \<open>Marking\<close>

definition same_data :: "slot list \<Rightarrow> slot list \<Rightarrow> bool" where
  "same_data ss ss' \<longleftrightarrow> map (\<lambda>s. s\<lparr>slot_marked := False\<rparr>) ss = map (\<lambda>s. s\<lparr>slot_marked := False\<rparr>) ss'"

lemma same_data_refl [simp]: "same_data ss ss"
  by (simp add: same_data_def)

lemma same_data_trans: "same_data a b \<Longrightarrow> same_data b c \<Longrightarrow> same_data a c"
  by (simp add: same_data_def)

lemma same_data_mark [simp]: "same_data (mark_slot i ss) ss"
  by (cases "i < length ss")
     (auto simp: same_data_def mark_slot_def list_eq_iff_nth_eq nth_list_update list_update_beyond)

lemma same_data_length: "same_data a b \<Longrightarrow> length a = length b"
  unfolding same_data_def by (metis length_map)

lemma same_data_nth:
  assumes "same_data a b" and "i < length a"
  shows "(a ! i)\<lparr>slot_marked := False\<rparr> = (b ! i)\<lparr>slot_marked := False\<rparr>"
  using assms same_data_length [OF assms(1)] unfolding same_data_def by (metis nth_map)

lemma same_data_fields:
  assumes "same_data a b" and "i < length a"
  shows "slot_value (a ! i) = slot_value (b ! i)" and "slot_gen (a ! i) = slot_gen (b ! i)"
    and "slot_newtype (a ! i) = slot_newtype (b ! i)"
proof -
  let ?u = "\<lambda>s. s\<lparr>slot_marked := False\<rparr>"
  have e: "?u (a ! i) = ?u (b ! i)" by (rule same_data_nth [OF assms])
  show "slot_value (a ! i) = slot_value (b ! i)"
    using arg_cong [OF e, of slot_value] by simp
  show "slot_gen (a ! i) = slot_gen (b ! i)"
    using arg_cong [OF e, of slot_gen] by simp
  show "slot_newtype (a ! i) = slot_newtype (b ! i)"
    using arg_cong [OF e, of slot_newtype] by simp
qed

lemma same_data_get: "same_data a b \<Longrightarrow> slots_get a h = slots_get b h"
  using same_data_length [of a b] same_data_fields [of a b "index h"]
  by (auto simp: slots_get_def)

lemma mark_slot_get [simp]: "slots_get (mark_slot i ss) h = slots_get ss h"
  by (rule same_data_get) simp

lemma length_mark_slot [simp]: "length (mark_slot i ss) = length ss"
  by (simp add: mark_slot_def)

lemma marked_mark_slot:
  "j < length ss \<Longrightarrow> slot_marked (mark_slot i ss ! j) \<longleftrightarrow> j = i \<or> slot_marked (ss ! j)"
  by (cases "j = i") (auto simp: mark_slot_def)

lemma mark_loop_same_data: "same_data (snd (mark_loop ss todo)) ss"
proof (induction ss todo rule: mark_loop.induct)
  case (2 ss h todo)
  show ?case
  proof (cases rule: slots_get_cases [of ss h])
    case g: (1 v)
    show ?thesis
    proof (cases "slot_marked (ss ! index h)")
      case True
      show ?thesis using "2.IH"(1) [OF g True] g True by simp
    next
      case False
      show ?thesis
        using same_data_trans [OF "2.IH"(2) [OF g False] same_data_mark] g False by simp
    qed
  qed simp
qed simp

lemma mark_loop_get: "mark_loop ss todo = (r, ss') \<Longrightarrow> slots_get ss' = slots_get ss"
  using mark_loop_same_data [of ss todo] by (auto intro: same_data_get)

lemma mark_loop_length: "mark_loop ss todo = (r, ss') \<Longrightarrow> length ss' = length ss"
  using mark_loop_same_data [of ss todo] by (auto dest: same_data_length)

text \<open>The tri-colour invariant: a marked slot's children are marked or still to do.\<close>

definition mark_inv :: "slot list \<Rightarrow> handle set \<Rightarrow> bool" where
  "mark_inv ss todo \<longleftrightarrow> (\<forall>h v c. slots_get ss h = Ok v \<longrightarrow> slot_marked (ss ! index h) \<longrightarrow>
     c \<in> set (children v) \<longrightarrow> c \<in> todo \<or> (is_ok (slots_get ss c) \<and> slot_marked (ss ! index c)))"

lemma mark_inv_step:
  assumes "mark_inv ss (insert h todo)" and get: "slots_get ss h = Ok v"
  shows "mark_inv (mark_slot (index h) ss) (set (children v) \<union> todo)"
  unfolding mark_inv_def
proof (intro allI impI)
  fix h' v' c
  assume "slots_get (mark_slot (index h) ss) h' = Ok v'"
  then have g: "slots_get ss h' = Ok v'" by simp
  then have l: "index h' < length ss" by (simp add: slots_get_Ok_iff)
  assume m: "slot_marked (mark_slot (index h) ss ! index h')" and c: "c \<in> set (children v')"
  show "c \<in> set (children v) \<union> todo \<or>
    is_ok (slots_get (mark_slot (index h) ss) c) \<and> slot_marked (mark_slot (index h) ss ! index c)"
  proof (cases "index h' = index h")
    case True
    with g get have "v' = v" by (auto simp: slots_get_Ok_iff)
    with c show ?thesis by simp
  next
    case False
    with m l have "slot_marked (ss ! index h')" by (simp add: marked_mark_slot)
    with assms(1) g c have "c \<in> insert h todo \<or> is_ok (slots_get ss c) \<and> slot_marked (ss ! index c)"
      unfolding mark_inv_def by blast
    moreover have "index c < length ss" if "is_ok (slots_get ss c)"
      using that by (cases "slots_get ss c") (auto simp: slots_get_Ok_iff)
    moreover have "index h < length ss" using get by (simp add: slots_get_Ok_iff)
    ultimately show ?thesis using get by (auto simp: marked_mark_slot)
  qed
qed

lemma mark_loop_marks_mono:
  "mark_loop ss todo = (r, ss') \<Longrightarrow> i < length ss \<Longrightarrow> slot_marked (ss ! i) \<Longrightarrow> slot_marked (ss' ! i)"
proof (induction ss todo rule: mark_loop.induct)
  case (2 ss h todo)
  then show ?case
    by (auto simp: marked_mark_slot split: res.splits if_splits)
qed simp

lemma mark_loop_marks:
  "mark_loop ss todo = (Ok (), ss') \<Longrightarrow> mark_inv ss (set todo) \<Longrightarrow>
   mark_inv ss' {} \<and> (\<forall>h \<in> set todo. is_ok (slots_get ss h) \<and> slot_marked (ss' ! index h))"
proof (induction ss todo rule: mark_loop.induct)
  case (1 ss)
  then show ?case by simp
next
  case (2 ss h todo)
  from "2.prems"(1) obtain v where g: "slots_get ss h = Ok v"
    by (cases rule: slots_get_cases [of ss h]) auto
  then have l: "index h < length ss" by (simp add: slots_get_Ok_iff)
  show ?case
  proof (cases "slot_marked (ss ! index h)")
    case True
    with "2.prems" g have run: "mark_loop ss todo = (Ok (), ss')" by simp
    have "mark_inv ss (set todo)"
      using "2.prems"(2) True g unfolding mark_inv_def by (metis insert_iff is_ok.simps(1) list.simps(15))
    with "2.IH"(1) [OF g True run] mark_loop_marks_mono [OF run l True] g
    show ?thesis by simp
  next
    case False
    with "2.prems" g
    have run: "mark_loop (mark_slot (index h) ss) (rev (children v) @ todo) = (Ok (), ss')" by simp
    have "mark_inv (mark_slot (index h) ss) (set (rev (children v) @ todo))"
      using mark_inv_step [OF _ g, of "set todo"] "2.prems"(2) by simp
    with "2.IH"(2) [OF g False run]
    have "mark_inv ss' {}" and "\<forall>x \<in> set todo. is_ok (slots_get ss x) \<and> slot_marked (ss' ! index x)"
      by auto
    moreover have "slot_marked (ss' ! index h)"
      by (rule mark_loop_marks_mono [OF run]) (simp_all add: l marked_mark_slot)
    ultimately show ?thesis using g by simp
  qed
qed

lemma mark_loop_only_reach:
  "mark_loop ss todo = (r, ss') \<Longrightarrow> i < length ss \<Longrightarrow> slot_marked (ss' ! i) \<Longrightarrow>
   slot_marked (ss ! i) \<or> (\<exists>h. index h = i \<and> is_ok (slots_get ss h) \<and> reach (slots_get ss) (set todo) h)"
proof (induction ss todo rule: mark_loop.induct)
  case (1 ss)
  then show ?case by simp
next
  case (2 ss h todo)
  show ?case
  proof (cases rule: slots_get_cases [of ss h])
    case g: (1 v)
    have up: "reach (slots_get ss) (set (h # todo)) x"
      if "reach (slots_get ss) (set (rev (children v) @ todo)) x" for x
      using that g by (auto elim!: reach_trans intro: reach.intros)
    show ?thesis
    proof (cases "slot_marked (ss ! index h)")
      case True
      with g "2.prems"(1) have "mark_loop ss todo = (r, ss')" by simp
      with "2.IH"(1) [OF g True this] "2.prems"(2,3) show ?thesis
        by (auto intro: reach_mono)
    next
      case False
      with g "2.prems"(1)
      have run: "mark_loop (mark_slot (index h) ss) (rev (children v) @ todo) = (r, ss')" by simp
      have e: "slots_get (mark_slot (index h) ss) = slots_get ss" by (simp add: fun_eq_iff)
      have "slot_marked (ss ! i) \<or> i = index h \<or>
          (\<exists>x. index x = i \<and> is_ok (slots_get ss x) \<and>
               reach (slots_get ss) (set (rev (children v) @ todo)) x)"
        using "2.IH"(2) [OF g False run] "2.prems"(2,3) unfolding e length_mark_slot
        by (auto simp: marked_mark_slot)
      moreover have "is_ok (slots_get ss h)" and "reach (slots_get ss) (set (h # todo)) h"
        using g by (auto intro: reach_root)
      ultimately show ?thesis using up by blast
    qed
  qed (use 2 in simp)
qed

lemma mark_loop_err:
  "mark_loop ss todo = (r, ss') \<Longrightarrow> r \<noteq> Ok () \<Longrightarrow>
   r = Err ''stale heap handle'' \<and>
   (\<exists>h. reach (slots_get ss) (set todo) h \<and> slots_get ss h = Err ''stale heap handle'')"
proof (induction ss todo rule: mark_loop.induct)
  case (1 ss)
  then show ?case by simp
next
  case (2 ss h todo)
  show ?case
  proof (cases rule: slots_get_cases [of ss h])
    case g: (1 v)
    have e: "slots_get (mark_slot (index h) ss) = slots_get ss" by (simp add: fun_eq_iff)
    have up: "reach (slots_get ss) (set (h # todo)) x"
      if "reach (slots_get ss) (set (rev (children v) @ todo)) x" for x
      using that g by (auto elim!: reach_trans intro: reach.intros)
    have up': "reach (slots_get ss) (set (h # todo)) x" if "reach (slots_get ss) (set todo) x" for x
      using that by (auto intro: reach_mono)
    show ?thesis
      using "2.IH" [OF g] "2.prems" g up up' unfolding e
      by (cases "slot_marked (ss ! index h)") auto
  qed (use 2 in \<open>auto intro: reach_root\<close>)
qed

section \<open>Sweeping\<close>

definition swept :: "slot \<Rightarrow> bool" where
  "swept s \<longleftrightarrow> slot_value s \<noteq> None \<and> \<not> slot_marked s"

definition after_sweep :: "slot \<Rightarrow> slot" where
  "after_sweep s =
     (if swept s
      then s\<lparr>slot_value := None, slot_newtype := None, slot_gen := Suc (slot_gen s), slot_marked := False\<rparr>
      else s\<lparr>slot_marked := False\<rparr>)"

lemma ex_nat_Suc: "(\<exists>j. P j) \<longleftrightarrow> P 0 \<or> (\<exists>j. P (Suc j))"
  by (metis not0_implies_Suc)

lemma swept_indices_Cons:
  "{i + j | j. j < length (s # ss) \<and> swept ((s # ss) ! j)} =
   (if swept s then {i} else {}) \<union> {Suc i + j | j. j < length ss \<and> swept (ss ! j)}"
proof -
  have "(\<exists>j. x = i + j \<and> j < length (s # ss) \<and> swept ((s # ss) ! j)) \<longleftrightarrow>
        (x = i \<and> swept s) \<or> (\<exists>j. x = Suc i + j \<and> j < length ss \<and> swept (ss ! j))" for x
    by (subst ex_nat_Suc) auto
  then show ?thesis by auto
qed

lemma sweep_Ok:
  "sweep i ss = (Ok (), ss', fr) \<Longrightarrow>
   ss' = map after_sweep ss \<and> set fr = {i + j | j. j < length ss \<and> swept (ss ! j)} \<and> distinct fr"
proof (induction ss arbitrary: i ss' fr)
  case Nil
  then show ?case by simp
next
  case (Cons s ss)
  obtain r ss1 fr1 where rest: "sweep (Suc i) ss = (r, ss1, fr1)"
    by (cases "sweep (Suc i) ss") auto
  have r: "r = Ok ()" using Cons.prems rest by (auto simp: Let_def split: if_splits)
  with Cons.IH rest have ih: "ss1 = map after_sweep ss"
      "set fr1 = {Suc i + j | j. j < length ss \<and> swept (ss ! j)}" "distinct fr1"
    by auto
  have "ss' = after_sweep s # ss1 \<and> fr = (if swept s then fr1 @ [i] else fr1)"
    using Cons.prems rest r by (auto simp: after_sweep_def swept_def Let_def split: if_splits)
  then show ?case
    unfolding swept_indices_Cons using ih by auto
qed

lemma sweep_total:
  "\<forall>s \<in> set ss. slot_gen s < usize_max \<Longrightarrow> fst (sweep i ss) = Ok ()"
  by (induction i ss rule: sweep.induct) (auto simp: Let_def split: prod.splits)

lemma sweep_no_panic: "fst (sweep i ss) \<noteq> Panic p"
  by (induction i ss rule: sweep.induct) (auto simp: Let_def split: prod.splits)

section \<open>The collector is exact\<close>

definition no_stale :: "heap \<Rightarrow> handle list \<Rightarrow> bool" where
  "no_stale hp roots \<longleftrightarrow>
     (\<forall>h. reach (heap_get hp) (set (collect_roots hp roots)) h \<longrightarrow> live hp h)"

lemma mark_inv_unmarked: "\<forall>s \<in> set ss. \<not> slot_marked s \<Longrightarrow> mark_inv ss todo"
  by (auto simp: mark_inv_def slots_get_Ok_iff)

lemma mark_inv_reach:
  assumes inv: "mark_inv ss {}"
    and roots: "\<forall>h \<in> R. is_ok (slots_get ss h) \<and> slot_marked (ss ! index h)"
    and r: "reach (slots_get ss) R h"
  shows "is_ok (slots_get ss h) \<and> slot_marked (ss ! index h)"
  using r
proof (induction rule: reach.induct)
  case (reach_root h)
  then show ?case using roots by blast
next
  case (reach_child h v c)
  then show ?case using inv unfolding mark_inv_def by blast
qed

text \<open>After marking from a clean heap, the marked slots are those the roots reach.\<close>

lemma mark_loop_exact:
  assumes clean: "\<forall>s \<in> set ss. \<not> slot_marked s"
    and run: "mark_loop ss todo = (Ok (), ss')"
  shows "\<forall>h. reach (slots_get ss) (set todo) h \<longrightarrow> is_ok (slots_get ss h) \<and> slot_marked (ss' ! index h)"
    and "\<And>h. is_ok (slots_get ss h) \<Longrightarrow>
      slot_marked (ss' ! index h) \<longleftrightarrow> reach (slots_get ss) (set todo) h"
proof -
  have eq: "slots_get ss' = slots_get ss" by (rule mark_loop_get [OF run])
  have m: "mark_inv ss' {} \<and> (\<forall>h \<in> set todo. is_ok (slots_get ss h) \<and> slot_marked (ss' ! index h))"
    by (rule mark_loop_marks [OF run mark_inv_unmarked [OF clean]])
  show all: "\<forall>h. reach (slots_get ss) (set todo) h \<longrightarrow> is_ok (slots_get ss h) \<and> slot_marked (ss' ! index h)"
    using mark_inv_reach [of ss' "set todo"] m unfolding eq by blast
  show "slot_marked (ss' ! index h) \<longleftrightarrow> reach (slots_get ss) (set todo) h" if ok: "is_ok (slots_get ss h)" for h
  proof
    assume mk: "slot_marked (ss' ! index h)"
    have l: "index h < length ss" using ok by (cases "slots_get ss h") (auto simp: slots_get_Ok_iff)
    then have "\<not> slot_marked (ss ! index h)" using clean by simp
    with mark_loop_only_reach [OF run l mk] obtain k where
      k: "index k = index h" "is_ok (slots_get ss k)" "reach (slots_get ss) (set todo) k" by blast
    have "k = h"
      using k(1,2) ok by (cases "slots_get ss h"; cases "slots_get ss k") (auto simp: slots_get_Ok_iff handle.expand)
    with k show "reach (slots_get ss) (set todo) h" by simp
  qed (use all in blast)
qed

lemma heap_collect_Ok:
  assumes wf: "heap_wf hp" and run: "heap_collect roots hp = (Ok (), hp')"
  obtains ss fr where "mark_loop (slots hp) (rev (collect_roots hp roots)) = (Ok (), ss)"
    and "set fr = {j. j < length ss \<and> swept (ss ! j)}" and "distinct fr"
    and "hp' = hp\<lparr>slots := map after_sweep ss, free := fr @ free hp, collections := Suc (collections hp)\<rparr>"
proof -
  obtain r ss where m: "mark_loop (slots hp) (rev (collect_roots hp roots)) = (r, ss)" by fastforce
  with run have r: "r = Ok ()" by (cases r) (auto simp: heap_collect_def)
  obtain r2 ss2 fr where sw: "sweep 0 ss = (r2, ss2, fr)" by (cases "sweep 0 ss") auto
  with run m r have r2: "r2 = Ok ()" by (cases r2) (auto simp: heap_collect_def Let_def)
  show thesis
    by (rule that [of ss fr])
       (use m r sweep_Ok [of 0 ss ss2 fr] sw r2 run in \<open>auto simp: heap_collect_def Let_def\<close>)
qed

lemma after_sweep_get:
  "slots_get (map after_sweep ss) h =
   (if index h < length ss \<and> swept (ss ! index h) then Err ''stale heap handle'' else slots_get ss h)"
  by (cases "index h < length ss"; cases "swept (ss ! index h)")
     (simp_all add: slots_get_def after_sweep_def ok_or_def)

lemma heap_collect_exact:
  assumes wf: "heap_wf hp" and run: "heap_collect roots hp = (Ok (), hp')"
  shows "heap_get hp' h =
      (if reach (heap_get hp) (set (collect_roots hp roots)) h then heap_get hp h
       else Err ''stale heap handle'')"
    and "no_stale hp roots"
proof -
  obtain ss fr where
    m: "mark_loop (slots hp) (rev (collect_roots hp roots)) = (Ok (), ss)" and
    fr: "set fr = {j. j < length ss \<and> swept (ss ! j)}" "distinct fr" and
    hp': "hp' = hp\<lparr>slots := map after_sweep ss, free := fr @ free hp, collections := Suc (collections hp)\<rparr>"
    by (rule heap_collect_Ok [OF wf run])
  have clean: "\<forall>s \<in> set (slots hp). \<not> slot_marked s" using wf by (simp add: heap_wf_def)
  have g: "slots_get ss = slots_get (slots hp)" by (rule mark_loop_get [OF m])
  have e: "heap_get hp = slots_get (slots hp)" by (simp add: heap_get_def fun_eq_iff)
  note ex = mark_loop_exact [OF clean m, unfolded set_rev]
  show "no_stale hp roots" using ex(1) unfolding no_stale_def live_def e by blast
  show "heap_get hp' h =
      (if reach (heap_get hp) (set (collect_roots hp roots)) h then heap_get hp h
       else Err ''stale heap handle'')"
  proof (cases rule: slots_get_cases [of "slots hp" h])
    case (1 v)
    then have gss: "slots_get ss h = Ok v" unfolding g .
    then have "swept (ss ! index h) \<longleftrightarrow> \<not> slot_marked (ss ! index h)"
      by (auto simp: swept_def slots_get_Ok_iff)
    moreover have "index h < length ss" using gss by (simp add: slots_get_Ok_iff)
    ultimately show ?thesis
      using 1 ex(2) [of h] unfolding heap_get_def hp' by (simp add: after_sweep_get g e)
  next
    case 2
    then show ?thesis unfolding heap_get_def hp' by (simp add: after_sweep_get g)
  qed
qed

lemma heap_collect_wf:
  assumes wf: "heap_wf hp" and run: "heap_collect roots hp = (Ok (), hp')"
  shows "heap_wf hp'" and "heap_closed hp'" and "heap_reads hp' = heap_reads hp"
proof -
  obtain ss fr where
    m: "mark_loop (slots hp) (rev (collect_roots hp roots)) = (Ok (), ss)" and
    fr: "set fr = {j. j < length ss \<and> swept (ss ! j)}" "distinct fr" and
    hp': "hp' = hp\<lparr>slots := map after_sweep ss, free := fr @ free hp, collections := Suc (collections hp)\<rparr>"
    by (rule heap_collect_Ok [OF wf run])
  have sd: "same_data ss (slots hp)" using mark_loop_same_data [of "slots hp"] m by (metis snd_conv)
  have len: "length ss = length (slots hp)" by (rule same_data_length [OF sd])
  have v: "slot_value (ss ! i) = slot_value (slots hp ! i)" if "i < length ss" for i
    by (rule same_data_fields [OF sd that])
  have f: "set (free hp) = {i. i < length ss \<and> slot_value (ss ! i) = None}" "distinct (free hp)"
    using wf v by (auto simp: heap_wf_def len)
  have dis: "set fr \<inter> set (free hp) = {}" unfolding fr(1) f(1) by (auto simp: swept_def)
  have val: "slot_value (after_sweep s) = None \<longleftrightarrow> swept s \<or> slot_value s = None" for s
    by (simp add: after_sweep_def)
  have um: "\<not> slot_marked (after_sweep s)" for s by (simp add: after_sweep_def)
  have "set (fr @ free hp) = {i. i < length ss \<and> slot_value (after_sweep (ss ! i)) = None}"
    unfolding set_append fr(1) f(1) val by auto
  then show "heap_wf hp'"
    unfolding heap_wf_def hp' using fr(2) f(2) dis um by (simp cong: conj_cong)
  show "heap_reads hp' = heap_reads hp" by (simp add: hp')
  have e: "heap_get hp' = (\<lambda>h. if reach (heap_get hp) (set (collect_roots hp roots)) h then heap_get hp h
       else Err ''stale heap handle'')"
    by (rule ext) (rule heap_collect_exact(1) [OF wf run])
  show "heap_closed hp'"
    unfolding heap_closed_def
  proof (intro allI impI)
    fix h v c
    assume g: "heap_get hp' h = Ok v" and c: "c \<in> set (children v)"
    then have r: "reach (heap_get hp) (set (collect_roots hp roots)) h" and "heap_get hp h = Ok v"
      by (simp_all add: e split: if_splits)
    then have rc: "reach (heap_get hp) (set (collect_roots hp roots)) c" using c by (rule reach_child)
    then have "live hp c" using heap_collect_exact(2) [OF wf run] by (simp add: no_stale_def)
    then show "live hp' c" using rc by (simp add: live_def e)
  qed
qed

lemma heap_collect_total:
  assumes ns: "no_stale hp roots"
    and gen: "\<forall>s \<in> set (slots hp). slot_gen s < usize_max"
  shows "fst (heap_collect roots hp) = Ok ()"
proof -
  obtain r ss where m: "mark_loop (slots hp) (rev (collect_roots hp roots)) = (r, ss)" by fastforce
  have e: "heap_get hp = slots_get (slots hp)" by (simp add: heap_get_def fun_eq_iff)
  have r: "r = Ok ()"
    using mark_loop_err [OF m] ns unfolding no_stale_def live_def e by fastforce
  have sd: "same_data ss (slots hp)" using mark_loop_same_data [of "slots hp"] m by (metis snd_conv)
  have "\<forall>s \<in> set ss. slot_gen s < usize_max"
    using gen same_data_fields(2) [OF sd] same_data_length [OF sd] by (fastforce simp: in_set_conv_nth)
  then have "fst (sweep 0 ss) = Ok ()" by (rule sweep_total)
  then show ?thesis using m r by (auto simp: heap_collect_def Let_def split: prod.splits)
qed

lemma heap_collect_no_panic: "fst (heap_collect roots hp) \<noteq> Panic p"
proof -
  obtain r ss where m: "mark_loop (slots hp) (rev (collect_roots hp roots)) = (r, ss)" by fastforce
  show ?thesis
    using mark_loop_err [OF m] sweep_no_panic [of 0 ss p] m
    by (cases r) (auto simp: heap_collect_def Let_def split: prod.splits res.splits)
qed

lemma closed_no_stale:
  assumes "heap_closed hp" and "\<forall>h \<in> set (collect_roots hp roots). live hp h"
  shows "no_stale hp roots"
  unfolding no_stale_def
proof (intro allI impI)
  fix h
  assume "reach (heap_get hp) (set (collect_roots hp roots)) h"
  then show "live hp h"
    by (induction rule: reach.induct) (use assms in \<open>auto simp: heap_closed_def\<close>)
qed

end
