(* ===== verification/HeapOps.thy ===== *)
theory HeapOps
  imports HeapGC
begin

text \<open>
  What each heap operation does to what the heap holds: allocation is fresh and changes
  nothing else, a write changes one value, the capture and the revision counters none.
  A freed handle stays dead whatever happens later.
\<close>

section \<open>Reads after each operation\<close>

lemma nth_update: "xs[i := x] ! j = (if i = j \<and> j < length xs then x else xs ! j)"
  by (cases "i < length xs") (auto simp: nth_list_update list_update_beyond not_less)

lemma heap_alloc_get:
  assumes wf: "heap_wf hp" and run: "heap_alloc v hp = (h, hp')"
  shows "heap_get hp' h' = (if h' = h then Ok v else heap_get hp h')"
    and "heap_get hp h = Err ''stale heap handle''"
    and "heap_wf hp'"
    and "heap_reads hp' = heap_reads hp"
proof -
  have "(\<forall>h'. heap_get hp' h' = (if h' = h then Ok v else heap_get hp h')) \<and>
      heap_get hp h = Err ''stale heap handle'' \<and> heap_wf hp' \<and> heap_reads hp' = heap_reads hp"
  proof (cases "free hp")
    case Nil
    define s where "s = \<lparr>slot_value = Some v, slot_gen = 0, slot_marked = False, slot_newtype = None,
                       slot_created = Suc (allocations hp), slot_revision = 0\<rparr>"
    have e: "h = Handle (length (slots hp)) 0" "slots hp' = slots hp @ [s]" "free hp' = []"
      "heap_reads hp' = heap_reads hp"
      using run Nil by (auto simp: heap_alloc_def s_def Let_def)
    have "heap_get hp' h' = (if h' = h then Ok v else heap_get hp h')" for h'
      by (cases h') (auto simp: heap_get_def slots_get_def e nth_append s_def ok_or_def less_Suc_eq)
    moreover have "heap_wf hp'"
      using wf Nil by (auto simp: heap_wf_def e nth_append s_def less_Suc_eq)
    ultimately show ?thesis using e by (simp add: heap_get_def slots_get_def)
  next
    case (Cons i rest)
    define s where "s = (slots hp ! i)\<lparr>slot_value := Some v, slot_newtype := None,
                       slot_created := Suc (allocations hp), slot_revision := 0\<rparr>"
    have e: "h = Handle i (slot_gen (slots hp ! i))" "slots hp' = (slots hp)[i := s]" "free hp' = rest"
      "heap_reads hp' = heap_reads hp"
      using run Cons by (auto simp: heap_alloc_def s_def Let_def)
    have i: "i < length (slots hp)" "slot_value (slots hp ! i) = None"
      and d: "distinct (free hp)" and f: "set (free hp) = {i. i < length (slots hp) \<and> slot_value (slots hp ! i) = None}"
      using wf Cons by (auto simp: heap_wf_def)
    have "heap_get hp' h' = (if h' = h then Ok v else heap_get hp h')" for h'
      using i by (cases h') (auto simp: heap_get_def slots_get_def e nth_list_update s_def ok_or_def)
    moreover have "heap_get hp h = Err ''stale heap handle''"
      using i by (simp add: heap_get_def slots_get_def e ok_or_def)
    moreover have "heap_wf hp'"
    proof -
      have "set rest = set (free hp) - {i}" using d Cons by auto
      also have "\<dots> = {j. j < length (slots hp') \<and> slot_value (slots hp' ! j) = None}"
        unfolding f using i by (auto simp: e nth_list_update s_def)
      finally have "set rest = {j. j < length (slots hp') \<and> slot_value (slots hp' ! j) = None}" .
      moreover have "\<forall>x \<in> set (slots hp'). \<not> slot_marked x"
        using wf i set_update_subset_insert [of "slots hp" i s] by (auto simp: heap_wf_def e s_def)
      ultimately show ?thesis using d Cons by (simp add: heap_wf_def e)
    qed
    ultimately show ?thesis using e by simp
  qed
  then show "heap_get hp' h' = (if h' = h then Ok v else heap_get hp h')"
    and "heap_get hp h = Err ''stale heap handle''" and "heap_wf hp'" and "heap_reads hp' = heap_reads hp"
    by auto
qed

text \<open>Operations that leave the values and the generations of all slots alone.\<close>

definition same_values :: "heap \<Rightarrow> heap \<Rightarrow> bool" where
  "same_values a b \<longleftrightarrow>
     length (slots a) = length (slots b) \<and> free a = free b \<and>
     (\<forall>i < length (slots a). slot_value (slots a ! i) = slot_value (slots b ! i) \<and>
        slot_gen (slots a ! i) = slot_gen (slots b ! i) \<and>
        slot_marked (slots a ! i) = slot_marked (slots b ! i))"

lemma same_values_refl [simp]: "same_values a a"
  by (simp add: same_values_def)

lemma same_values_trans: "same_values a b \<Longrightarrow> same_values b c \<Longrightarrow> same_values a c"
  by (simp add: same_values_def)

lemma same_values_get: "same_values a b \<Longrightarrow> heap_get a = heap_get b"
  by (rule ext) (auto simp: same_values_def heap_get_def slots_get_def)

lemma same_values_wf: "same_values a b \<Longrightarrow> heap_wf a \<longleftrightarrow> heap_wf b"
  unfolding same_values_def heap_wf_def all_set_conv_all_nth by (auto simp: Collect_conj_eq)

lemma same_values_observe_write [simp]: "same_values (observe_write h hp) hp"
  by (simp add: same_values_def observe_write_def split: option.splits)

lemma same_values_bump [simp]: "same_values (bump_revision h hp) hp"
  by (simp add: same_values_def bump_revision_def nth_update)

lemma same_values_volatile [simp]: "same_values (heap_volatile hp) hp"
  by (simp add: same_values_def heap_volatile_def split: option.splits)

lemma same_values_observe: "heap_observe h rd hp = (r, hp') \<Longrightarrow> same_values hp' hp"
  by (auto simp: same_values_def heap_observe_def split: option.splits res.splits if_splits)

text \<open>A write through a mutable reference.\<close>

lemma heap_put_get:
  assumes "heap_get hp h = Ok u"
  shows "heap_get (heap_put h v hp) h' = (if h' = h then Ok v else heap_get hp h')"
proof -
  have "index h < length (slots hp)" "slot_gen (slots hp ! index h) = generation h"
    "slot_value (slots hp ! index h) = Some u"
    using assms by (auto simp: heap_get_def slots_get_Ok_iff)
  then show ?thesis
    by (auto simp: heap_get_def slots_get_def heap_put_def nth_list_update ok_or_def handle.expand)
qed

lemma heap_put_wf:
  assumes "heap_get hp h = Ok u" and "heap_wf hp"
  shows "heap_wf (heap_put h v hp)"
proof -
  have "index h < length (slots hp)" "slot_value (slots hp ! index h) = Some u"
    using assms(1) by (auto simp: heap_get_def slots_get_Ok_iff)
  then show ?thesis
    using assms(2) unfolding heap_wf_def all_set_conv_all_nth
    by (auto simp: heap_put_def nth_list_update split: if_splits)
qed

lemma heap_put_reads [simp]: "heap_reads (heap_put h v hp) = heap_reads hp"
  by (simp add: heap_put_def)

definition same_reads :: "heap \<Rightarrow> heap \<Rightarrow> bool" where
  "same_reads a b \<longleftrightarrow> map_option reads_deps (heap_reads a) = map_option reads_deps (heap_reads b)"

lemma same_reads_write [simp]:
  "same_reads (observe_write h hp) hp" "same_reads (bump_revision h hp) hp"
  "same_reads (heap_volatile hp) hp" "same_reads (heap_put h v hp) hp"
  by (auto simp: same_reads_def observe_write_def bump_revision_def heap_volatile_def split: option.splits)

lemma heap_get_mut_cases:
  assumes "heap_get_mut h hp = (r, hp')"
  shows "same_values hp' hp" and "same_reads hp' hp" and "r = heap_get hp h"
proof -
  have "same_values hp' hp \<and> same_reads hp' hp \<and> r = heap_get hp h"
  proof (cases "heap_get hp h")
    case (Ok v)
    have sv: "same_values (bump_revision h (observe_write h hp)) hp"
      by (rule same_values_trans [OF same_values_bump]) simp
    have "same_reads (bump_revision h (observe_write h hp)) hp"
      using same_reads_write(1,2) unfolding same_reads_def by metis
    then show ?thesis
      using assms Ok sv same_values_get [OF sv]
      by (auto simp: heap_get_mut_def bind_def seq_def modify_def)
  qed (use assms in \<open>auto simp: heap_get_mut_def bind_def same_reads_def\<close>)
  then show "same_values hp' hp" and "same_reads hp' hp" and "r = heap_get hp h" by auto
qed

lemma heap_replace_cases:
  assumes "heap_replace h v hp = (r, hp')"
  shows "(\<exists>u hp1. heap_get hp h = Ok u \<and> same_values hp1 hp \<and> same_reads hp1 hp \<and> r = Ok () \<and>
      hp' = heap_put h v hp1) \<or>
    (r = Err ''stale heap handle'' \<and> hp' = hp \<and> heap_get hp h = Err ''stale heap handle'')"
proof (cases rule: heap_get_cases [of hp h])
  case (1 u)
  let ?h1 = "bump_revision h (observe_write h hp)"
  have sv: "same_values ?h1 hp" by (rule same_values_trans [OF same_values_bump]) simp
  moreover have "same_reads ?h1 hp"
    using same_reads_write(1,2) unfolding same_reads_def by metis
  moreover have "r = Ok ()" "hp' = heap_put h v ?h1"
    using assms 1 by (auto simp: heap_replace_def bind_def seq_def modify_def)
  ultimately show ?thesis using 1 by blast
next
  case 2
  then show ?thesis using assms by (auto simp: heap_replace_def bind_def)
qed

section \<open>Freed handles stay dead\<close>

text \<open>Every way the machine changes a heap.\<close>

inductive heap_step :: "heap \<Rightarrow> heap \<Rightarrow> bool" where
  hs_alloc: "heap_alloc v hp = (h, hp') \<Longrightarrow> heap_step hp hp'"
| hs_newtype: "heap_alloc_newtype v n hp = (h, hp') \<Longrightarrow> heap_step hp hp'"
| hs_enum: "heap_alloc_enum n c i p hp = (h, hp') \<Longrightarrow> heap_step hp hp'"
| hs_replace: "heap_replace h v hp = (r, hp') \<Longrightarrow> heap_step hp hp'"
| hs_get_mut: "heap_get_mut h hp = (r, hp') \<Longrightarrow> heap_step hp hp'"
| hs_put: "heap_get hp h = Ok u \<Longrightarrow> heap_step hp (heap_put h v hp)"
| hs_observe: "heap_observe h rd hp = (r, hp') \<Longrightarrow> heap_step hp hp'"
| hs_volatile: "heap_step hp (heap_volatile hp)"
| hs_begin: "heap_step hp (begin_reads hp)"
| hs_end: "end_reads hp = (r, hp') \<Longrightarrow> heap_step hp hp'"
| hs_collect: "heap_collect roots hp = (r, hp') \<Longrightarrow> heap_step hp hp'"

inductive_cases heap_stepE: "heap_step hp hp'"

text \<open>Generations never go back.\<close>

definition gens_le :: "heap \<Rightarrow> heap \<Rightarrow> bool" where
  "gens_le a b \<longleftrightarrow> length (slots a) \<le> length (slots b) \<and>
     (\<forall>i < length (slots a). slot_gen (slots a ! i) \<le> slot_gen (slots b ! i))"

lemma gens_le_refl [simp]: "gens_le a a"
  by (simp add: gens_le_def)

lemma gens_le_trans: "gens_le a b \<Longrightarrow> gens_le b c \<Longrightarrow> gens_le a c"
  unfolding gens_le_def by (meson le_trans less_le_trans)

lemma gens_le_same: "same_values b a \<Longrightarrow> gens_le a b"
  by (simp add: same_values_def gens_le_def)

lemma gens_le_alloc: "heap_alloc v hp = (h, hp') \<Longrightarrow> gens_le hp hp'"
  by (auto simp: heap_alloc_def Let_def gens_le_def nth_append nth_update split: list.splits)

lemma gens_le_put: "gens_le hp (heap_put h v hp)"
  by (simp add: gens_le_def heap_put_def nth_update)

lemma gens_le_newtype:
  assumes "heap_alloc_newtype v n hp = (h, hp')"
  shows "gens_le hp hp'"
proof -
  obtain h1 hp1 where a: "heap_alloc v hp = (h1, hp1)" by fastforce
  have "gens_le hp1 hp'"
    using assms a by (auto simp: heap_alloc_newtype_def gens_le_def nth_update)
  with gens_le_alloc [OF a] show ?thesis by (rule gens_le_trans)
qed

lemma gens_le_enum:
  assumes "heap_alloc_enum n c i p hp = (h, hp')"
  shows "gens_le hp hp'"
proof -
  obtain l hp1 where a: "heap_alloc (V_String c) hp = (l, hp1)" by fastforce
  obtain x hp2 where b: "heap_alloc (V_Number (f64_of_nat i)) hp1 = (x, hp2)" by fastforce
  obtain r where "heap_alloc (V_Record r) hp2 = (h, hp')"
    using assms a b by (auto simp: heap_alloc_enum_def Let_def split: option.splits)
  with gens_le_alloc [OF a] gens_le_alloc [OF b] show ?thesis
    by (meson gens_le_alloc gens_le_trans)
qed

lemma sweep_gens:
  "sweep i ss = (r, ss', fr) \<Longrightarrow> length ss' = length ss \<and>
   (\<forall>j < length ss. slot_gen (ss ! j) \<le> slot_gen (ss' ! j))"
proof (induction ss arbitrary: i r ss' fr)
  case (Cons s ss)
  obtain r1 ss1 fr1 where "sweep (Suc i) ss = (r1, ss1, fr1)" by (cases "sweep (Suc i) ss") auto
  with Cons.prems Cons.IH [OF this] show ?case
    by (auto simp: Let_def nth_Cons split: if_splits nat.splits)
qed simp

lemma gens_le_collect:
  assumes "heap_collect roots hp = (r, hp')"
  shows "gens_le hp hp'"
proof -
  obtain r1 ss where m: "mark_loop (slots hp) (rev (collect_roots hp roots)) = (r1, ss)" by fastforce
  have sd: "same_data ss (slots hp)" using mark_loop_same_data [of "slots hp"] m by (metis snd_conv)
  obtain r2 ss2 fr where sw: "sweep 0 ss = (r2, ss2, fr)" by (cases "sweep 0 ss") auto
  have "slots hp' = ss \<or> slots hp' = ss2"
    using assms m sw by (auto simp: heap_collect_def Let_def split: res.splits)
  then show ?thesis
    using same_data_length [OF sd] same_data_fields(2) [OF sd] sweep_gens [OF sw]
    by (auto simp: gens_le_def)
qed

lemma heap_step_gens: "heap_step hp hp' \<Longrightarrow> gens_le hp hp'"
proof (induction rule: heap_step.induct)
  case (hs_replace h v hp r hp')
  from heap_replace_cases [OF this] show ?case
    by (auto intro: gens_le_trans gens_le_same gens_le_put)
next
  case (hs_end hp r hp')
  then show ?case by (auto simp: end_reads_def gens_le_def split: option.splits)
next
  case (hs_begin hp)
  then show ?case by (simp add: begin_reads_def gens_le_def)
qed (auto intro: gens_le_alloc gens_le_newtype gens_le_enum gens_le_collect gens_le_put gens_le_same
      dest: heap_get_mut_cases same_values_observe)

lemma dead_gens: "dead a h \<Longrightarrow> gens_le a b \<Longrightarrow> dead b h"
  unfolding dead_def gens_le_def by (meson less_le_trans)

lemma dead_steps: "heap_step\<^sup>*\<^sup>* a b \<Longrightarrow> dead a h \<Longrightarrow> dead b h"
  by (induction rule: rtranclp_induct) (auto intro: dead_gens heap_step_gens)

text \<open>The collector's victims are dead.\<close>

lemma heap_collect_dead:
  assumes wf: "heap_wf hp" and run: "heap_collect roots hp = (Ok (), hp')"
    and was: "heap_get hp h = Ok v" and freed: "\<not> live hp' h"
  shows "dead hp' h"
proof -
  obtain ss fr where
    m: "mark_loop (slots hp) (rev (collect_roots hp roots)) = (Ok (), ss)" and
    hp': "hp' = hp\<lparr>slots := map after_sweep ss, free := fr @ free hp, collections := Suc (collections hp)\<rparr>"
    by (rule heap_collect_Ok [OF wf run])
  have "slots_get ss h = Ok v" using mark_loop_get [OF m] was by (simp add: heap_get_def)
  then have s: "index h < length ss" "slot_gen (ss ! index h) = generation h" "slot_value (ss ! index h) = Some v"
    by (simp_all add: slots_get_Ok_iff)
  have "slots_get ss h = Ok v" using s by (simp add: slots_get_Ok_iff)
  then have "swept (ss ! index h)"
    using freed by (simp add: live_def heap_get_def hp' after_sweep_get split: if_splits)
  then show ?thesis using s by (simp add: dead_def hp' after_sweep_def)
qed

end
