(* ===== verification/HostTypes.thy ===== *)
theory HostTypes
  imports HeapModel Text
begin

text \<open>
  The typed boundary between the virtual machine and its Rust hosts
  (\<open>crates/deka_vm/src/host.rs\<close>): host types and values, the check that a value has a
  type, the normalisation of accepted values, and the validation of a schema.
  Constructors have the prefix \<open>HT_\<close> or \<open>HV_\<close> of their Rust type.
\<close>

section \<open>Types and values\<close>

text \<open>\<open>HostEnum\<close> and \<open>HostStruct\<close> are a name with cases or fields.\<close>

datatype host_type =
    HT_Unit
  | HT_Number
  | HT_Bool
  | HT_String
  | HT_Strings
  | HT_List host_type
  | HT_Option host_type
  | HT_Tuple "host_type list"
  | HT_Record "(string \<times> host_type) list"
  | HT_Bytes
  | HT_Handle string
  | HT_Callback
  | HT_Enum string "(string \<times> host_type option) list"
  | HT_Struct string "(string \<times> host_type) list"
  | HT_TypedCallback "host_type list" host_type bool \<comment> \<open>args, result, result channel\<close>

record signature =
  sig_args :: "host_type list"
  sig_result :: host_type
  sig_channel :: bool

text \<open>
  A rooted language callback: the identity of its allocation, the closure's handle, the
  context of the machine that owns it, and its signature when it has one.
\<close>

record host_callback =
  hc_id :: nat
  hc_handle :: handle
  hc_owner :: nat
  hc_sig :: "signature option"

datatype host_value =
    HV_Unit
  | HV_Number f64
  | HV_Bool bool
  | HV_String string
  | HV_Strings "string list"
  | HV_List "host_value list"
  | HV_Option "host_value option"
  | HV_Record "(string \<times> host_value) list"
  | HV_Bytes "8 word list"
  | HV_Handle host_handle
  | HV_Callback host_callback
  | HV_Enum string string "host_value option" \<comment> \<open>name, case, payload\<close>
  | HV_Struct string "(string \<times> host_value) list"

record host_enum_error =
  he_name :: string
  he_cases :: "(string \<times> host_type option) list"
  he_case :: string

definition with_signature :: "host_type list \<Rightarrow> host_type \<Rightarrow> bool \<Rightarrow> host_callback \<Rightarrow> host_callback" where
  "with_signature as r ch cb =
     cb\<lparr>hc_sig := Some \<lparr>sig_args = as, sig_result = r, sig_channel = ch\<rparr>\<rparr>"

text \<open>\<open>native_brand.rs\<close>: the private identity of a native declaration, and its public name.\<close>

definition brand_prefix :: string where
  "brand_prefix = ''__DekaHost_''"

definition brand :: "string \<Rightarrow> string" where
  "brand name = brand_prefix @ name"

definition public_name :: "string \<Rightarrow> string" where
  "public_name name = (case strip_prefix brand_prefix name of Some s \<Rightarrow> s | None \<Rightarrow> name)"

lemma public_name_brand [simp]: "public_name (brand name) = name"
  by (simp add: public_name_def brand_def)

lemma starts_with_brand [simp]: "starts_with (brand name) brand_prefix"
  by (simp add: brand_def)

section \<open>The check of a value against a type\<close>

fun is_option :: "host_type \<Rightarrow> bool" where
  "is_option (HT_Option _) = True"
| "is_option _ = False"

fun is_hv_string :: "host_value \<Rightarrow> bool" where
  "is_hv_string (HV_String _) = True"
| "is_hv_string _ = False"

text \<open>The clause of records, which that of structs calls on its fields.\<close>

definition accepts_fields ::
    "(host_type \<Rightarrow> host_value \<Rightarrow> bool) \<Rightarrow> (string \<times> host_type) list \<Rightarrow>
     (string \<times> host_value) list \<Rightarrow> bool" where
  "accepts_fields acc fs vs \<longleftrightarrow>
     list_all (\<lambda>(n, t). case bt_get vs n of None \<Rightarrow> is_option t | Some v \<Rightarrow> acc t v) fs"

lemma accepts_fields_cong [fundef_cong]:
  assumes "fs = fs'" and "vs = vs'" and "\<And>n t v. (n, t) \<in> set fs' \<Longrightarrow> acc t v = acc' t v"
  shows "accepts_fields acc fs vs = accepts_fields acc' fs' vs'"
  unfolding accepts_fields_def assms(1,2)
  by (rule list.pred_cong) (use assms(3) in \<open>auto split: option.splits\<close>)

fun accepts :: "host_type \<Rightarrow> host_value \<Rightarrow> bool" where
  "accepts HT_Unit v = (case v of HV_Unit \<Rightarrow> True | _ \<Rightarrow> False)"
| "accepts HT_Number v = (case v of HV_Number _ \<Rightarrow> True | _ \<Rightarrow> False)"
| "accepts HT_Bool v = (case v of HV_Bool _ \<Rightarrow> True | _ \<Rightarrow> False)"
| "accepts HT_String v = (case v of HV_String _ \<Rightarrow> True | _ \<Rightarrow> False)"
| "accepts HT_Strings v =
     (case v of HV_Strings _ \<Rightarrow> True | HV_List items \<Rightarrow> list_all is_hv_string items | _ \<Rightarrow> False)"
| "accepts HT_Bytes v = (case v of HV_Bytes _ \<Rightarrow> True | _ \<Rightarrow> False)"
| "accepts HT_Callback v = (case v of HV_Callback _ \<Rightarrow> True | _ \<Rightarrow> False)"
| "accepts (HT_TypedCallback _ _ _) v = (case v of HV_Callback _ \<Rightarrow> True | _ \<Rightarrow> False)"
| "accepts (HT_Option t) v =
     (case v of HV_Option None \<Rightarrow> True | HV_Option (Some w) \<Rightarrow> accepts t w | _ \<Rightarrow> False)"
| "accepts (HT_Tuple ts) v =
     (case v of
        HV_List items \<Rightarrow>
          length ts = length items \<and> list_all (\<lambda>(t, w). accepts t w) (zip ts items)
      | _ \<Rightarrow> False)"
| "accepts (HT_List t) v =
     (case v of
        HV_List items \<Rightarrow> list_all (accepts t) items
      | HV_Strings _ \<Rightarrow> t = HT_String
      | _ \<Rightarrow> False)"
| "accepts (HT_Record fs) v = (case v of HV_Record vs \<Rightarrow> accepts_fields accepts fs vs | _ \<Rightarrow> False)"
| "accepts (HT_Enum name cases) v =
     (case v of
        HV_Enum n c payload \<Rightarrow>
          n = brand name \<and>
          list_ex (\<lambda>(label, t). label = c \<and>
            (case (t, payload) of (None, None) \<Rightarrow> True | (Some t', Some w) \<Rightarrow> accepts t' w | _ \<Rightarrow> False)) cases
      | _ \<Rightarrow> False)"
| "accepts (HT_Struct name fs) v =
     (case v of HV_Struct n vs \<Rightarrow> n = brand name \<and> accepts_fields accepts fs vs | _ \<Rightarrow> False)"
| "accepts (HT_Handle name) v = (case v of HV_Handle h \<Rightarrow> name = hh_name h | _ \<Rightarrow> False)"

section \<open>Normalisation\<close>

text \<open>
  An absent optional field becomes \<open>None\<close>; the entries are then normalised one by one and
  collected again.
\<close>

definition add_options :: "(string \<times> host_type) list \<Rightarrow> (string \<times> host_value) list \<Rightarrow>
    (string \<times> host_value) list" where
  "add_options fs vs =
     foldl (\<lambda>m (n, t). if is_option t then bt_or_insert n (HV_Option None) m else m) vs fs"

definition normalize_fields ::
    "(host_type \<Rightarrow> host_value \<Rightarrow> host_value res) \<Rightarrow> (string \<times> host_type) list \<Rightarrow>
     (string \<times> host_value) list \<Rightarrow> (string \<times> host_value) list res" where
  "normalize_fields norm fs vs =
     res_map bt_collect (res_mapM (\<lambda>(n, v).
       case bt_get fs n of
         Some t \<Rightarrow> res_map (Pair n) (norm t v)
       | None \<Rightarrow> Ok (n, v)) (add_options fs vs))"

lemma normalize_fields_cong [fundef_cong]:
  assumes "fs = fs'" and "vs = vs'" and "\<And>n t v. (n, t) \<in> set fs' \<Longrightarrow> norm t v = norm' t v"
  shows "normalize_fields norm fs vs = normalize_fields norm' fs' vs'"
  unfolding normalize_fields_def assms(1,2)
proof (rule arg_cong [where f = "res_map bt_collect"], rule res_mapM_cong [OF refl])
  fix x
  show "(case x of (n, v) \<Rightarrow> case bt_get fs' n of Some t \<Rightarrow> res_map (Pair n) (norm t v) | None \<Rightarrow> Ok (n, v)) =
    (case x of (n, v) \<Rightarrow> case bt_get fs' n of Some t \<Rightarrow> res_map (Pair n) (norm' t v) | None \<Rightarrow> Ok (n, v))"
    by (cases x) (auto split: option.splits simp: assms(3) [OF bt_get_in_set])
qed

fun normalize :: "host_type \<Rightarrow> host_value \<Rightarrow> host_value res" where
  "normalize (HT_TypedCallback as r ch) v =
     (case v of
        HV_Callback cb \<Rightarrow>
          Ok (HV_Callback (with_signature as r ch cb))
      | _ \<Rightarrow> Ok v)"
| "normalize HT_Strings v =
     (case v of
        HV_List items \<Rightarrow>
          res_map HV_Strings (res_mapM (\<lambda>w. case w of HV_String s \<Rightarrow> Ok s
            | _ \<Rightarrow> Panic ''validated string list'') items)
      | _ \<Rightarrow> Ok v)"
| "normalize (HT_Option t) v =
     (case v of
        HV_Option (Some w) \<Rightarrow> res_map (\<lambda>x. HV_Option (Some x)) (normalize t w)
      | _ \<Rightarrow> Ok v)"
| "normalize (HT_Tuple ts) v =
     (case v of
        HV_List items \<Rightarrow> res_map HV_List (res_mapM (\<lambda>(t, w). normalize t w) (zip ts items))
      | _ \<Rightarrow> Ok v)"
| "normalize (HT_List t) v =
     (case v of
        HV_List items \<Rightarrow> res_map HV_List (res_mapM (normalize t) items)
      | HV_Strings items \<Rightarrow> Ok (HV_List (map HV_String items))
      | _ \<Rightarrow> Ok v)"
| "normalize (HT_Record fs) v =
     (case v of
        HV_Record vs \<Rightarrow> res_map HV_Record (normalize_fields normalize fs vs)
      | _ \<Rightarrow> Ok v)"
| "normalize (HT_Enum name cases) v =
     (case v of
        HV_Enum n c payload \<Rightarrow>
          (case find (\<lambda>(label, _). label = c) cases of
             None \<Rightarrow> Panic ''validated host enum''
           | Some (_, t) \<Rightarrow>
               (case payload of
                  None \<Rightarrow> Ok (HV_Enum n c None)
                | Some w \<Rightarrow>
                    (case t of
                       None \<Rightarrow> Panic ''validated enum payload''
                     | Some t' \<Rightarrow> res_map (\<lambda>x. HV_Enum n c (Some x)) (normalize t' w))))
      | _ \<Rightarrow> Ok v)"
| "normalize (HT_Struct name fs) v =
     (case v of
        HV_Struct n vs \<Rightarrow> res_map (HV_Struct n) (normalize_fields normalize fs vs)
      | _ \<Rightarrow> Ok v)"
| "normalize HT_Unit v = Ok v"
| "normalize HT_Number v = Ok v"
| "normalize HT_Bool v = Ok v"
| "normalize HT_String v = Ok v"
| "normalize HT_Bytes v = Ok v"
| "normalize (HT_Handle _) v = Ok v"
| "normalize HT_Callback v = Ok v"

section \<open>Validation of a schema\<close>

type_synonym name_set = "(string, unit) btree"

definition validate_nominal_name :: "string \<Rightarrow> unit res" where
  "validate_nominal_name name =
     (if \<not> is_identifier name \<or> \<not> ascii_upper (hd name) \<or>
         name \<in> set [''Option'', ''Result'', ''Promise'', ''Exception'', ''Array'', ''Type'']
      then Err ''invalid named host type'' else Ok ())"

definition reserved_handles :: "string list" where
  "reserved_handles =
     [''Option'', ''Result'', ''Promise'', ''Exception'', ''Array'', ''Type'', ''Component'',
      ''ReactNode'', ''JsError'', ''Error'', ''SyntaxError'', ''TypeError'', ''RangeError'',
      ''JsValue'', ''OpenContext'', ''Context'']"

text \<open>The loop over the cases of an enum, with the set of the labels met so far.\<close>

fun validate_cases :: "(host_type \<Rightarrow> (name_set, unit) rm) \<Rightarrow> string list \<Rightarrow>
    (string \<times> host_type option) list \<Rightarrow> (name_set, unit) rm" where
  "validate_cases f seen [] = ret ()"
| "validate_cases f seen ((c, payload) # cs) =
     (if \<not> is_identifier c \<or> c \<in> set seen then fail ''invalid or duplicate host enum case''
      else seq (case payload of None \<Rightarrow> ret () | Some t \<Rightarrow> f t) (validate_cases f (c # seen) cs))"

lemma validate_cases_cong [fundef_cong]:
  assumes "seen = seen'" and "cs = cs'" and "\<And>c t. (c, Some t) \<in> set cs' \<Longrightarrow> f t = g t"
  shows "validate_cases f seen cs = validate_cases g seen' cs'"
  unfolding assms(1,2) using assms(3)
proof (induction g seen' cs' rule: validate_cases.induct)
  case (2 g seen c payload cs)
  have "(case payload of None \<Rightarrow> ret () | Some t \<Rightarrow> f t) = (case payload of None \<Rightarrow> ret () | Some t \<Rightarrow> g t)"
    using "2.prems" [of c] by (cases payload) auto
  moreover have "validate_cases f (c # seen) cs = validate_cases g (c # seen) cs"
    if "\<not> (\<not> is_identifier c \<or> c \<in> set seen)"
    by (rule "2.IH" [OF that]) (use "2.prems" in auto)
  ultimately show ?case by simp
qed simp

definition validate_fields :: "(host_type \<Rightarrow> (name_set, unit) rm) \<Rightarrow> (string \<times> host_type) list \<Rightarrow>
    (name_set, unit) rm" where
  "validate_fields f fs =
     eachM (\<lambda>(n, t). if \<not> is_identifier n then fail ''invalid host record field name'' else f t) fs"

lemma validate_fields_cong [fundef_cong]:
  assumes "fs = fs'" and "\<And>n t. (n, t) \<in> set fs' \<Longrightarrow> f t = g t"
  shows "validate_fields f fs = validate_fields g fs'"
  unfolding validate_fields_def assms(1) by (rule eachM_cong) (use assms(2) in auto)

definition within_depth :: "nat \<Rightarrow> (name_set, unit) rm \<Rightarrow> (name_set, unit) rm" where
  "within_depth d m = (if d > 64 then fail ''host type nesting limit exceeded'' else m)"

text \<open>The state is the set of the opaque handles met, which the declarations list.\<close>

fun ht_validate :: "nat \<Rightarrow> host_type \<Rightarrow> (name_set, unit) rm" where
  "ht_validate d (HT_Record fs) = within_depth d (validate_fields (ht_validate (Suc d)) fs)"
| "ht_validate d (HT_TypedCallback as r _) =
     within_depth d (seq (eachM (ht_validate (Suc d)) as) (ht_validate (Suc d) r))"
| "ht_validate d (HT_Enum name cases) =
     within_depth d (seq (lift_res (validate_nominal_name name))
       (if cases = [] then fail ''host enum needs a case''
        else validate_cases (ht_validate (Suc d)) [] cases))"
| "ht_validate d (HT_Struct name fs) =
     within_depth d (seq (lift_res (validate_nominal_name name))
       (within_depth (Suc d) (validate_fields (ht_validate (Suc (Suc d))) fs)))"
| "ht_validate d (HT_List t) = within_depth d (ht_validate (Suc d) t)"
| "ht_validate d (HT_Option t) = within_depth d (ht_validate (Suc d) t)"
| "ht_validate d (HT_Tuple ts) = within_depth d (eachM (ht_validate (Suc d)) ts)"
| "ht_validate d (HT_Handle name) =
     within_depth d
       (if \<not> is_identifier name \<or> \<not> ascii_upper (hd name) \<or> name \<in> set reserved_handles
        then fail ''invalid opaque host type name''
        else modify (bt_insert name ()))"
| "ht_validate d HT_Unit = within_depth d (ret ())"
| "ht_validate d HT_Number = within_depth d (ret ())"
| "ht_validate d HT_Bool = within_depth d (ret ())"
| "ht_validate d HT_String = within_depth d (ret ())"
| "ht_validate d HT_Strings = within_depth d (ret ())"
| "ht_validate d HT_Bytes = within_depth d (ret ())"
| "ht_validate d HT_Callback = within_depth d (ret ())"

section \<open>What validation establishes\<close>

text \<open>
  A valid schema, without the code's loops: good names everywhere, enums with a case and
  with distinct labels; and its nesting, which validation bounds by 64.
\<close>

fun ht_valid :: "host_type \<Rightarrow> bool" where
  "ht_valid (HT_Record fs) \<longleftrightarrow> (\<forall>(n, t) \<in> set fs. is_identifier n \<and> ht_valid t)"
| "ht_valid (HT_TypedCallback as r _) \<longleftrightarrow> (\<forall>t \<in> set as. ht_valid t) \<and> ht_valid r"
| "ht_valid (HT_Enum name cases) \<longleftrightarrow>
     validate_nominal_name name = Ok () \<and> cases \<noteq> [] \<and> distinct (map fst cases) \<and>
     (\<forall>(c, p) \<in> set cases. is_identifier c \<and> (case p of None \<Rightarrow> True | Some t \<Rightarrow> ht_valid t))"
| "ht_valid (HT_Struct name fs) \<longleftrightarrow>
     validate_nominal_name name = Ok () \<and> (\<forall>(n, t) \<in> set fs. is_identifier n \<and> ht_valid t)"
| "ht_valid (HT_List t) \<longleftrightarrow> ht_valid t"
| "ht_valid (HT_Option t) \<longleftrightarrow> ht_valid t"
| "ht_valid (HT_Tuple ts) \<longleftrightarrow> (\<forall>t \<in> set ts. ht_valid t)"
| "ht_valid (HT_Handle name) \<longleftrightarrow>
     is_identifier name \<and> ascii_upper (hd name) \<and> name \<notin> set reserved_handles"
| "ht_valid _ \<longleftrightarrow> True"

fun ht_fits :: "nat \<Rightarrow> host_type \<Rightarrow> bool" where
  "ht_fits d (HT_Record fs) \<longleftrightarrow> d \<le> 64 \<and> (\<forall>(n, t) \<in> set fs. ht_fits (Suc d) t)"
| "ht_fits d (HT_TypedCallback as r _) \<longleftrightarrow> d \<le> 64 \<and> (\<forall>t \<in> set as. ht_fits (Suc d) t) \<and> ht_fits (Suc d) r"
| "ht_fits d (HT_Enum name cases) \<longleftrightarrow>
     d \<le> 64 \<and> (\<forall>(c, p) \<in> set cases. case p of None \<Rightarrow> True | Some t \<Rightarrow> ht_fits (Suc d) t)"
| "ht_fits d (HT_Struct name fs) \<longleftrightarrow> Suc d \<le> 64 \<and> (\<forall>(n, t) \<in> set fs. ht_fits (Suc (Suc d)) t)"
| "ht_fits d (HT_List t) \<longleftrightarrow> d \<le> 64 \<and> ht_fits (Suc d) t"
| "ht_fits d (HT_Option t) \<longleftrightarrow> d \<le> 64 \<and> ht_fits (Suc d) t"
| "ht_fits d (HT_Tuple ts) \<longleftrightarrow> d \<le> 64 \<and> (\<forall>t \<in> set ts. ht_fits (Suc d) t)"
| "ht_fits d _ \<longleftrightarrow> d \<le> 64"

lemma within_depth_Ok: "fst (within_depth d m s) = Ok () \<longleftrightarrow> d \<le> 64 \<and> fst (m s) = Ok ()"
  by (simp add: within_depth_def run_simps)

lemma validate_fields_Ok:
  assumes "\<And>n t s. (n, t) \<in> set fs \<Longrightarrow> fst (f t s) = Ok () \<longleftrightarrow> P t"
  shows "fst (validate_fields f fs s) = Ok () \<longleftrightarrow> (\<forall>(n, t) \<in> set fs. is_identifier n \<and> P t)"
proof -
  have "fst (validate_fields f fs s) = Ok () \<longleftrightarrow>
      (\<forall>x \<in> set fs. case x of (n, t) \<Rightarrow> is_identifier n \<and> P t)"
    unfolding validate_fields_def
    by (rule eachM_Ok) (use assms in \<open>auto simp: run_simps split: if_splits\<close>)
  then show ?thesis .
qed

lemma validate_cases_Ok:
  assumes "\<And>c t s. (c, Some t) \<in> set cs \<Longrightarrow> fst (f t s) = Ok () \<longleftrightarrow> P t"
  shows "fst (validate_cases f seen cs s) = Ok () \<longleftrightarrow>
    distinct (map fst cs) \<and> set (map fst cs) \<inter> set seen = {} \<and>
    (\<forall>(c, p) \<in> set cs. is_identifier c \<and> (case p of None \<Rightarrow> True | Some t \<Rightarrow> P t))"
  using assms
proof (induction cs arbitrary: seen s)
  case Nil
  show ?case by (simp add: run_simps)
next
  case (Cons x cs)
  obtain c p where x: "x = (c, p)" by fastforce
  have IH: "fst (validate_cases f (c # seen) cs s') = Ok () \<longleftrightarrow>
    distinct (map fst cs) \<and> set (map fst cs) \<inter> set (c # seen) = {} \<and>
    (\<forall>(c, p) \<in> set cs. is_identifier c \<and> (case p of None \<Rightarrow> True | Some t \<Rightarrow> P t))" for s'
    by (rule Cons.IH) (meson Cons.prems list.set_intros(2))
  show ?case
    using Cons.prems [of c] by (cases p) (auto simp: x run_simps fst_seq res_bind_Ok_iff IH)
qed

lemma case_option_conj:
  "(case p of None \<Rightarrow> True | Some t \<Rightarrow> A t \<and> B t) \<longleftrightarrow>
   (case p of None \<Rightarrow> True | Some t \<Rightarrow> A t) \<and> (case p of None \<Rightarrow> True | Some t \<Rightarrow> B t)"
  by (cases p) auto

lemma ht_validate_Ok: "fst (ht_validate d t s) = Ok () \<longleftrightarrow> ht_valid t \<and> ht_fits d t"
proof (induction d t arbitrary: s rule: ht_validate.induct)
  case (1 d fs)
  show ?case
    using validate_fields_Ok [of fs "ht_validate (Suc d)" "\<lambda>t. ht_valid t \<and> ht_fits (Suc d) t" s] 1
    by (auto simp: within_depth_Ok)
next
  case (2 d as r ch)
  show ?case
    using eachM_Ok [of as "ht_validate (Suc d)" "\<lambda>t. ht_valid t \<and> ht_fits (Suc d) t" s] 2
    by (auto simp: within_depth_Ok fst_seq res_bind_Ok_iff)
next
  case (3 d name cases)
  have e: "fst (validate_cases (ht_validate (Suc d)) [] cases s') = Ok () \<longleftrightarrow>
    distinct (map fst cases) \<and>
    (\<forall>(c, p) \<in> set cases. is_identifier c \<and> (case p of None \<Rightarrow> True | Some t \<Rightarrow> ht_valid t \<and> ht_fits (Suc d) t))"
    if "cases \<noteq> []" for s'
    using validate_cases_Ok [of cases "ht_validate (Suc d)" "\<lambda>t. ht_valid t \<and> ht_fits (Suc d) t" "[]" s'] 3 that
    by simp
  show ?case
    by (cases "cases = []") (auto simp: within_depth_Ok fst_seq res_bind_Ok_iff run_simps e case_option_conj)
next
  case (4 d name fs)
  show ?case
    using validate_fields_Ok [of fs "ht_validate (Suc (Suc d))" "\<lambda>t. ht_valid t \<and> ht_fits (Suc (Suc d)) t" s] 4
    by (auto simp: within_depth_Ok fst_seq res_bind_Ok_iff run_simps)
next
  case (7 d ts)
  show ?case
    using eachM_Ok [of ts "ht_validate (Suc d)" "\<lambda>t. ht_valid t \<and> ht_fits (Suc d) t" s] 7
    by (auto simp: within_depth_Ok)
qed (auto simp: within_depth_Ok run_simps)

section \<open>Normalisation of accepted values\<close>

text \<open>The maps inside a type or a value are ordered, as every \<open>BTreeMap\<close> is.\<close>

fun ht_wf :: "host_type \<Rightarrow> bool" where
  "ht_wf (HT_Record fs) \<longleftrightarrow> bt_inv fs \<and> (\<forall>(n, t) \<in> set fs. ht_wf t)"
| "ht_wf (HT_Struct name fs) \<longleftrightarrow> bt_inv fs \<and> (\<forall>(n, t) \<in> set fs. ht_wf t)"
| "ht_wf (HT_Enum name cases) \<longleftrightarrow> (\<forall>(c, p) \<in> set cases. case p of None \<Rightarrow> True | Some t \<Rightarrow> ht_wf t)"
| "ht_wf (HT_TypedCallback as r _) \<longleftrightarrow> (\<forall>t \<in> set as. ht_wf t) \<and> ht_wf r"
| "ht_wf (HT_List t) \<longleftrightarrow> ht_wf t"
| "ht_wf (HT_Option t) \<longleftrightarrow> ht_wf t"
| "ht_wf (HT_Tuple ts) \<longleftrightarrow> (\<forall>t \<in> set ts. ht_wf t)"
| "ht_wf _ \<longleftrightarrow> True"

fun hv_wf :: "host_value \<Rightarrow> bool" where
  "hv_wf (HV_Record vs) \<longleftrightarrow> bt_inv vs \<and> (\<forall>(n, v) \<in> set vs. hv_wf v)"
| "hv_wf (HV_Struct name vs) \<longleftrightarrow> bt_inv vs \<and> (\<forall>(n, v) \<in> set vs. hv_wf v)"
| "hv_wf (HV_Enum name c p) \<longleftrightarrow> (case p of None \<Rightarrow> True | Some v \<Rightarrow> hv_wf v)"
| "hv_wf (HV_List vs) \<longleftrightarrow> (\<forall>v \<in> set vs. hv_wf v)"
| "hv_wf (HV_Option p) \<longleftrightarrow> (case p of None \<Rightarrow> True | Some v \<Rightarrow> hv_wf v)"
| "hv_wf _ \<longleftrightarrow> True"

text \<open>What normalising one value of a type promises; \<open>norm_ok\<close> is shared by the inductive cases.\<close>

definition norm_ok :: "(host_type \<Rightarrow> host_value \<Rightarrow> bool) \<Rightarrow> (host_type \<Rightarrow> host_value \<Rightarrow> host_value res) \<Rightarrow>
    host_type \<Rightarrow> host_value \<Rightarrow> bool" where
  "norm_ok acc norm t v \<longleftrightarrow>
     (\<exists>v'. norm t v = Ok v' \<and> acc t v' \<and> hv_wf v' \<and> norm t v' = Ok v')"

lemma norm_okI: "norm t v = Ok v' \<Longrightarrow> acc t v' \<Longrightarrow> hv_wf v' \<Longrightarrow> norm t v' = Ok v' \<Longrightarrow> norm_ok acc norm t v"
  by (auto simp: norm_ok_def)

definition the_ok :: "'a res \<Rightarrow> 'a \<Rightarrow> 'a" where
  "the_ok r d = (case r of Ok a \<Rightarrow> a | _ \<Rightarrow> d)"

definition norm_val :: "(host_type \<Rightarrow> host_value \<Rightarrow> host_value res) \<Rightarrow> host_type \<Rightarrow> host_value \<Rightarrow> host_value" where
  "norm_val norm t v = the_ok (norm t v) v"

lemma norm_okD:
  assumes "norm_ok acc norm t v"
  shows "norm t v = Ok (norm_val norm t v)" and "acc t (norm_val norm t v)"
    and "hv_wf (norm_val norm t v)" and "norm t (norm_val norm t v) = Ok (norm_val norm t v)"
  using assms by (auto simp: norm_ok_def norm_val_def the_ok_def)

lemma add_options_inv: "bt_inv vs \<Longrightarrow> bt_inv (add_options fs vs)"
  unfolding add_options_def
  by (induction fs arbitrary: vs) (auto simp: bt_inv_or_insert)

lemma add_options_get:
  "bt_get (add_options fs vs) n =
   (if bt_get vs n = None \<and> (\<exists>t. (n, t) \<in> set fs \<and> is_option t) then Some (HV_Option None)
    else bt_get vs n)"
proof (induction fs arbitrary: vs)
  case (Cons f fs)
  obtain m t where f: "f = (m, t)" by fastforce
  have "add_options (f # fs) vs =
      add_options fs (if is_option t then bt_or_insert m (HV_Option None) vs else vs)"
    by (simp add: add_options_def f)
  then show ?case using Cons.IH by (auto simp: f bt_get_or_insert)
qed (simp add: add_options_def)

lemma add_options_same:
  "\<forall>(n, t) \<in> set fs. is_option t \<longrightarrow> bt_get vs n \<noteq> None \<Longrightarrow> add_options fs vs = vs"
  unfolding add_options_def
  by (induction fs arbitrary: vs) (auto simp: bt_or_insert_same)

lemma normalize_fields_map:
  assumes "bt_inv vs"
    and "\<And>n v. (n, v) \<in> set (add_options fs vs) \<Longrightarrow>
      (case bt_get fs n of Some t \<Rightarrow> norm t v = Ok (g n v) | None \<Rightarrow> g n v = v)"
  shows "normalize_fields norm fs vs = Ok (bt_map g (add_options fs vs))"
proof -
  let ?f = "\<lambda>(n, v). case bt_get fs n of Some t \<Rightarrow> res_map (Pair n) (norm t v) | None \<Rightarrow> Ok (n, v)"
  have "res_mapM ?f (add_options fs vs) = Ok (map (\<lambda>(n, v). (n, g n v)) (add_options fs vs))"
    by (rule res_mapM_Ok_map) (use assms(2) in \<open>fastforce split: option.splits\<close>)
  then show ?thesis
    using add_options_inv [OF assms(1), of fs]
    by (simp add: normalize_fields_def bt_map_def [symmetric] bt_collect_sorted)
qed

lemma normalize_fields_ok:
  assumes fs: "bt_inv fs" and vs: "bt_inv vs" and wf: "\<forall>(n, v) \<in> set vs. hv_wf v"
    and acc: "accepts_fields acc fs vs"
    and f: "\<And>n t v. (n, t) \<in> set fs \<Longrightarrow> hv_wf v \<Longrightarrow> acc t v \<Longrightarrow> norm_ok acc norm t v"
    and opt: "\<And>t. is_option t \<Longrightarrow> acc t (HV_Option None)"
  shows "\<exists>vs'. normalize_fields norm fs vs = Ok vs' \<and> bt_inv vs' \<and> (\<forall>(n, v) \<in> set vs'. hv_wf v) \<and>
    accepts_fields acc fs vs' \<and> normalize_fields norm fs vs' = Ok vs'"
proof -
  define g where "g = (\<lambda>n v. case bt_get fs n of Some t \<Rightarrow> norm_val norm t v | None \<Rightarrow> v)"
  define ws where "ws = add_options fs vs"
  have inv: "bt_inv ws" unfolding ws_def by (rule add_options_inv [OF vs])
  have ws: "hv_wf v \<and> (\<forall>t. bt_get fs n = Some t \<longrightarrow> acc t v)" if "(n, v) \<in> set ws" for n v
  proof -
    have "bt_get ws n = Some v" using that inv by (simp add: bt_get_iff)
    then have "bt_get vs n = Some v \<or>
        v = HV_Option None \<and> bt_get vs n = None \<and> (\<exists>t. (n, t) \<in> set fs \<and> is_option t)"
      by (auto simp: ws_def add_options_get split: if_splits)
    then consider (old) "bt_get vs n = Some v"
      | (new) t where "v = HV_Option None" "(n, t) \<in> set fs" "is_option t" by blast
    then show ?thesis
    proof cases
      case old
      then have "(n, v) \<in> set vs" using vs by (simp add: bt_get_iff)
      then have "hv_wf v" using wf by blast
      moreover have "acc t v" if "bt_get fs n = Some t" for t
      proof -
        have "(n, t) \<in> set fs" using that by (rule bt_get_in_set)
        then show ?thesis using acc old unfolding accepts_fields_def list_all_iff by fastforce
      qed
      ultimately show ?thesis by blast
    next
      case new
      then have "bt_get fs n = Some t" using fs by (simp add: bt_get_iff)
      then show ?thesis using new opt by simp
    qed
  qed
  have nok: "norm_ok acc norm t v" if "bt_get fs n = Some t" "(n, v) \<in> set ws" for n t v
    using f [OF bt_get_in_set [OF that(1)]] ws [OF that(2)] that(1) by simp
  have run: "normalize_fields norm fs vs = Ok (bt_map g ws)"
    unfolding ws_def
    by (rule normalize_fields_map [OF vs])
       (auto simp: g_def ws_def [symmetric] intro: norm_okD(1) nok split: option.splits)
  have elem: "\<exists>v. (n, v) \<in> set ws \<and> v' = g n v" if "(n, v') \<in> set (bt_map g ws)" for n v'
    using that by (auto simp: bt_map_def)
  have gg: "case bt_get fs n of Some t \<Rightarrow> norm t v' = Ok v' | None \<Rightarrow> v' = v'" and wfg: "hv_wf v'"
    if nv: "(n, v') \<in> set (bt_map g ws)" for n v'
  proof -
    obtain v where v: "(n, v) \<in> set ws" "v' = g n v" using elem [OF nv] by blast
    have "(case bt_get fs n of Some t \<Rightarrow> norm t v' = Ok v' | None \<Rightarrow> v' = v') \<and> hv_wf v'"
    proof (cases "bt_get fs n")
      case None
      then show ?thesis using v ws [OF v(1)] by (simp add: g_def)
    next
      case (Some t)
      from norm_okD(3,4) [OF nok [OF Some v(1)]] show ?thesis using Some v(2) by (simp add: g_def)
    qed
    then show "case bt_get fs n of Some t \<Rightarrow> norm t v' = Ok v' | None \<Rightarrow> v' = v'" and "hv_wf v'" by blast+
  qed
  have opts: "add_options fs (bt_map g ws) = bt_map g ws"
    by (rule add_options_same) (auto simp: ws_def add_options_get)
  have "normalize_fields norm fs (bt_map g ws) = Ok (bt_map (\<lambda>n v. v) (add_options fs (bt_map g ws)))"
    by (rule normalize_fields_map)
       (use inv gg in \<open>auto simp: opts\<close>)
  moreover have "bt_map (\<lambda>n v. v) m = m" for m :: "(string \<times> host_value) list"
    by (induction m) auto
  moreover have "\<forall>(n, v) \<in> set (bt_map g ws). hv_wf v"
    using wfg by blast
  moreover have "accepts_fields acc fs (bt_map g ws)"
    unfolding accepts_fields_def list_all_iff
  proof clarify
    fix n t
    assume nt: "(n, t) \<in> set fs"
    then have get: "bt_get fs n = Some t" using fs by (simp add: bt_get_iff)
    show "case bt_get (bt_map g ws) n of None \<Rightarrow> is_option t | Some v \<Rightarrow> acc t v"
    proof (cases "bt_get ws n")
      case None
      then have "bt_get vs n = None" by (auto simp: ws_def add_options_get split: if_splits)
      then show ?thesis using acc nt None by (auto simp: accepts_fields_def list_all_iff)
    next
      case (Some v)
      then have "(n, v) \<in> set ws" using inv by (simp add: bt_get_iff)
      then show ?thesis using Some norm_okD(2) [OF nok [OF get]] get by (simp add: g_def)
    qed
  qed
  ultimately show ?thesis using run inv opts by (intro exI [of _ "bt_map g ws"]) simp
qed

lemma norm_ok_mapM:
  assumes "\<And>v. v \<in> set vs \<Longrightarrow> norm_ok acc norm t v"
  shows "\<exists>vs'. res_mapM (norm t) vs = Ok vs' \<and> (\<forall>v \<in> set vs'. acc t v \<and> hv_wf v) \<and>
    res_mapM (norm t) vs' = Ok vs'"
  using assms
proof (induction vs)
  case (Cons v vs)
  obtain vs' where vs': "res_mapM (norm t) vs = Ok vs'" "\<forall>v \<in> set vs'. acc t v \<and> hv_wf v"
    "res_mapM (norm t) vs' = Ok vs'" using Cons by auto
  have nok: "norm_ok acc norm t v" using Cons.prems by simp
  show ?case
    by (rule exI [of _ "norm_val norm t v # vs'"]) (use vs' norm_okD [OF nok] in auto)
qed simp

lemma norm_ok_zip:
  assumes "length ts = length vs" and "\<And>t v. (t, v) \<in> set (zip ts vs) \<Longrightarrow> norm_ok acc norm t v"
  shows "\<exists>vs'. length vs' = length ts \<and> res_mapM (\<lambda>(t, v). norm t v) (zip ts vs) = Ok vs' \<and>
    (\<forall>(t, v) \<in> set (zip ts vs'). acc t v) \<and> (\<forall>v \<in> set vs'. hv_wf v) \<and>
    res_mapM (\<lambda>(t, v). norm t v) (zip ts vs') = Ok vs'"
  using assms
proof (induction ts vs rule: list_induct2)
  case (Cons t ts v vs)
  obtain vs' where vs': "length vs' = length ts" "res_mapM (\<lambda>(t, v). norm t v) (zip ts vs) = Ok vs'"
    "\<forall>(t, v) \<in> set (zip ts vs'). acc t v" "\<forall>v \<in> set vs'. hv_wf v"
    "res_mapM (\<lambda>(t, v). norm t v) (zip ts vs') = Ok vs'" using Cons by auto
  have nok: "norm_ok acc norm t v" using Cons.prems by simp
  show ?case
    by (rule exI [of _ "norm_val norm t v # vs'"]) (use vs' norm_okD [OF nok] in auto)
qed simp

lemma find_case:
  assumes "distinct (map fst cs)" and "(c, p) \<in> set cs"
  shows "find (\<lambda>(label, _). label = c) cs = Some (c, p)"
  using assms by (induction cs) (auto simp: rev_image_eqI)

lemma normalize_norm_ok:
  "ht_wf t \<Longrightarrow> ht_valid t \<Longrightarrow> hv_wf v \<Longrightarrow> accepts t v \<Longrightarrow> norm_ok accepts normalize t v"
proof (induction t v rule: accepts.induct)
  case (5 v)
  then show ?case
  proof (cases v)
    case (HV_List items)
    have "\<exists>ss. items = map HV_String ss"
      using 5 HV_List
    proof (induction items arbitrary: v)
      case (Cons i items)
      then obtain ss where "items = map HV_String ss" by force
      moreover obtain x where "i = HV_String x" using Cons.prems by (cases i) auto
      ultimately show ?case by (metis list.simps(9))
    qed simp
    then obtain ss where ss: "items = map HV_String ss" by blast
    have "res_mapM (\<lambda>w. case w of HV_String s \<Rightarrow> Ok s | _ \<Rightarrow> Panic ''validated string list'') items = Ok ss"
      unfolding ss by (induction ss) auto
    then show ?thesis by (intro norm_okI [of _ _ _ "HV_Strings ss"]) (simp_all add: HV_List)
  qed (auto intro: norm_okI)
next
  case (8 as r ch v)
  then show ?case by (cases v) (auto simp: with_signature_def intro: norm_okI)
next
  case (9 t v)
  then show ?case
  proof (cases v)
    case (HV_Option p)
    show ?thesis
    proof (cases p)
      case None
      then show ?thesis by (auto simp: HV_Option intro: norm_okI)
    next
      case (Some w)
      have "norm_ok accepts normalize t w" using 9 HV_Option Some by auto
      from norm_okD [OF this] show ?thesis by (auto simp: HV_Option Some intro!: norm_okI)
    qed
  qed auto
next
  case (10 ts v)
  then show ?case
  proof (cases v)
    case (HV_List items)
    have "\<exists>vs'. length vs' = length ts \<and> res_mapM (\<lambda>(t, v). normalize t v) (zip ts items) = Ok vs' \<and>
      (\<forall>(t, v) \<in> set (zip ts vs'). accepts t v) \<and> (\<forall>v \<in> set vs'. hv_wf v) \<and>
      res_mapM (\<lambda>(t, v). normalize t v) (zip ts vs') = Ok vs'"
    proof (rule norm_ok_zip)
      show "length ts = length items" using 10 HV_List by simp
      fix t w assume tw: "(t, w) \<in> set (zip ts items)"
      then have "t \<in> set ts" "w \<in> set items" by (auto dest: set_zip_leftD set_zip_rightD)
      then show "norm_ok accepts normalize t w"
        using 10 HV_List tw by (fastforce simp: list_all_iff)
    qed
    then show ?thesis by (auto simp: HV_List list_all_iff intro!: norm_okI)
  qed auto
next
  case (11 t v)
  then show ?case
  proof (cases v)
    case (HV_List items)
    have "\<exists>vs'. res_mapM (normalize t) items = Ok vs' \<and> (\<forall>v \<in> set vs'. accepts t v \<and> hv_wf v) \<and>
      res_mapM (normalize t) vs' = Ok vs'"
      by (rule norm_ok_mapM) (use 11 HV_List in \<open>auto simp: list_all_iff\<close>)
    then show ?thesis by (auto simp: HV_List list_all_iff intro!: norm_okI)
  next
    case (HV_Strings ss)
    have "res_mapM (normalize HT_String) (map HV_String ss) = Ok (map HV_String ss)"
      by (induction ss) auto
    then show ?thesis using 11 HV_Strings by (auto simp: list_all_iff intro!: norm_okI)
  qed auto
next
  case (12 fs v)
  then show ?case
  proof (cases v)
    case (HV_Record vs)
    have "\<exists>vs'. normalize_fields normalize fs vs = Ok vs' \<and> bt_inv vs' \<and> (\<forall>(n, v) \<in> set vs'. hv_wf v) \<and>
      accepts_fields accepts fs vs' \<and> normalize_fields normalize fs vs' = Ok vs'"
    proof (rule normalize_fields_ok)
      show "accepts t (HV_Option None)" if "is_option t" for t using that by (cases t) auto
      show "norm_ok accepts normalize t w" if "(n', t) \<in> set fs" "hv_wf w" "accepts t w" for n' t w
        using 12 HV_Record that by fastforce
    qed (use 12 HV_Record in auto)
    then show ?thesis by (auto simp: HV_Record intro!: norm_okI)
  qed auto
next
  case (13 name cases v)
  then show ?case
  proof (cases v)
    case (HV_Enum n c p)
    obtain t where t: "(c, t) \<in> set cases" and tp: "case (t, p) of (None, None) \<Rightarrow> True
        | (Some t', Some w) \<Rightarrow> accepts t' w | _ \<Rightarrow> False" and n: "n = brand name"
      using 13 HV_Enum by (auto simp: list_ex_iff)
    have fd: "find (\<lambda>(label, _). label = c) cases = Some (c, t)"
      by (rule find_case) (use 13 t in auto)
    show ?thesis
    proof (cases p)
      case None
      then show ?thesis using tp t fd n
        by (intro norm_okI [of _ _ _ "HV_Enum n c None"]) (auto simp: HV_Enum list_ex_iff split: option.splits)
    next
      case (Some w)
      then obtain t' where t': "t = Some t'" "accepts t' w" using tp by (auto split: option.splits)
      have "norm_ok accepts normalize t' w"
        using 13 HV_Enum t t' Some by fastforce
      from norm_okD [OF this] show ?thesis using t fd n
        by (intro norm_okI [of _ _ _ "HV_Enum n c (Some (norm_val normalize t' w))"])
           (auto simp: HV_Enum Some t' list_ex_iff intro!: bexI [of _ "(c, Some t')"])
    qed
  qed auto
next
  case (14 name fs v)
  then show ?case
  proof (cases v)
    case (HV_Struct n vs)
    have "\<exists>vs'. normalize_fields normalize fs vs = Ok vs' \<and> bt_inv vs' \<and> (\<forall>(n, v) \<in> set vs'. hv_wf v) \<and>
      accepts_fields accepts fs vs' \<and> normalize_fields normalize fs vs' = Ok vs'"
    proof (rule normalize_fields_ok)
      show "accepts t (HV_Option None)" if "is_option t" for t using that by (cases t) auto
      show "norm_ok accepts normalize t w" if "(n', t) \<in> set fs" "hv_wf w" "accepts t w" for n' t w
        using 14 HV_Struct that by fastforce
    qed (use 14 HV_Struct in auto)
    then show ?thesis using 14 by (auto simp: HV_Struct intro!: norm_okI)
  qed auto
qed (auto intro: norm_okI split: host_value.splits)

end
