(* ===== verification/Context.thy ===== *)
theory Context
  imports HostTypes
begin

text \<open>
  The queue through which host work enters the virtual machine that owns it
  (\<open>crates/deka_vm/src/callback.rs\<close>): rooted language callbacks, cancellable jobs, commands
  and the completions of awaited callbacks.

  A \<open>Rc\<close> allocation is a number; a \<open>Weak\<close> reference is a flag that says whether a strong
  reference is left. Strong references are held by host code outside this repository, so
  their release is an event of the environment. The \<open>ready\<close> flag is that of the machine's
  own \<open>ReadyWake\<close> (\<open>turn.rs\<close>), which the registered waker sets.
\<close>

section \<open>State\<close>

record host_job =
  hj_id :: nat
  hj_owner :: nat

record completion =
  cp_id :: nat
  cp_result :: host_type
  cp_channel :: bool

datatype command =
    Cmd_Spawn host_job nat \<comment> \<open>job, future\<close>
  | Cmd_Cancel nat
  | Cmd_Call host_callback "host_value list" "host_job option" "completion option"

record host_context =
  ctx_id :: nat
  alive :: bool
  next_job :: nat
  jobs :: "(nat, bool) btree"
  cancelled :: "nat list"
  callbacks :: "(nat \<times> handle \<times> bool) list"
  next_callback :: nat
  completions :: "(nat, (string + host_value) option) btree"
  next_completion :: nat
  queue :: "command list"
  has_waker :: bool
  ready :: bool

definition new_context :: "nat \<Rightarrow> host_context" where
  "new_context i = \<lparr>ctx_id = i, alive = True, next_job = 0, jobs = [], cancelled = [],
     callbacks = [], next_callback = 0, completions = [], next_completion = 0, queue = [],
     has_waker = False, ready = False\<rparr>"

definition job_cancelled :: "host_context \<Rightarrow> host_job \<Rightarrow> bool" where
  "job_cancelled c j \<longleftrightarrow> hj_id j \<in> set (cancelled c)"

section \<open>Completions\<close>

text \<open>\<open>finish\<close>: the first result stands. Dropping an unresolved completion finishes it.\<close>

definition finish :: "completion \<Rightarrow> string + host_value \<Rightarrow> host_context \<Rightarrow> host_context" where
  "finish cp r c =
     (case bt_get (completions c) (cp_id cp) of
        Some None \<Rightarrow> c\<lparr>completions := bt_insert (cp_id cp) (Some r) (completions c)\<rparr>
      | _ \<Rightarrow> c)"

definition drop_completion :: "completion option \<Rightarrow> host_context \<Rightarrow> host_context" where
  "drop_completion cp c = (case cp of None \<Rightarrow> c | Some x \<Rightarrow> finish x (Inl ''VM cancelled'') c)"

fun command_completion :: "command \<Rightarrow> completion option" where
  "command_completion (Cmd_Call _ _ _ cp) = cp"
| "command_completion _ = None"

section \<open>The queue\<close>

definition ctx_enqueue :: "command \<Rightarrow> (host_context, unit) rm" where
  "ctx_enqueue cmd c =
     (if \<not> alive c then (Err ''VM cancelled'', drop_completion (command_completion cmd) c)
      else (Ok (), c\<lparr>queue := queue c @ [cmd], ready := ready c \<or> has_waker c\<rparr>))"

definition ctx_set_waker :: "host_context \<Rightarrow> host_context" where
  "ctx_set_waker c = c\<lparr>has_waker := True\<rparr>"

definition ctx_take :: "nat \<Rightarrow> host_context \<Rightarrow> command list \<times> host_context" where
  "ctx_take limit c =
     (let n = min limit (length (queue c)) in (take n (queue c), c\<lparr>queue := drop n (queue c)\<rparr>))"

definition has_commands :: "host_context \<Rightarrow> bool" where
  "has_commands c \<longleftrightarrow> queue c \<noteq> []"

section \<open>Jobs\<close>

definition ctx_job :: "(host_context, host_job) rm" where
  "ctx_job c =
     (if \<not> alive c then (Err ''VM cancelled'', c)
      else if 2 ^ 53 \<le> next_job c then (Err ''host job identifiers exhausted'', c)
      else let n = Suc (next_job c)
           in (Ok \<lparr>hj_id = n, hj_owner = ctx_id c\<rparr>,
               c\<lparr>next_job := n, jobs := bt_insert n True (jobs c)\<rparr>))"

definition ctx_spawn :: "host_job \<Rightarrow> nat \<Rightarrow> (host_context, unit) rm" where
  "ctx_spawn j fut c =
     (if hj_owner j \<noteq> ctx_id c then (Err ''host job belongs to another VM'', c)
      else ctx_enqueue (Cmd_Spawn j fut) c)"

definition ctx_cancel :: "nat \<Rightarrow> (host_context, unit) rm" where
  "ctx_cancel i c =
     (if \<not> alive c then (Err ''VM cancelled'', c)
      else ctx_enqueue (Cmd_Cancel i)
        (if bt_get (jobs c) i = Some True then c\<lparr>cancelled := i # cancelled c\<rparr> else c))"

section \<open>Callbacks\<close>

definition ctx_callback :: "handle \<Rightarrow> host_context \<Rightarrow> host_callback \<times> host_context" where
  "ctx_callback h c =
     (\<lparr>hc_id = next_callback c, hc_handle = h, hc_owner = ctx_id c, hc_sig = None\<rparr>,
      c\<lparr>callbacks := callbacks c @ [(next_callback c, h, True)],
        next_callback := Suc (next_callback c)\<rparr>)"

definition ctx_owns :: "host_context \<Rightarrow> host_callback \<Rightarrow> bool" where
  "ctx_owns c cb \<longleftrightarrow> hc_owner cb = ctx_id c"

text \<open>\<open>HostCallback::enqueue\<close>; a failed call drops the completion it was given.\<close>

definition cb_enqueue ::
    "host_callback \<Rightarrow> host_value list \<Rightarrow> host_job option \<Rightarrow> completion option \<Rightarrow> (host_context, unit) rm" where
  "cb_enqueue cb args job cp =
     (case hc_sig cb of
        None \<Rightarrow> ctx_enqueue (Cmd_Call cb args job cp)
      | Some sg \<Rightarrow>
          if length args \<noteq> length (sig_args sg) \<or>
             \<not> list_all (\<lambda>(t, v). accepts t v) (zip (sig_args sg) args)
          then seq (modify (drop_completion cp)) (fail ''invalid host callback arguments'')
          else bind (lift_res (res_mapM (\<lambda>(t, v). normalize t v) (zip (sig_args sg) args)))
                 (\<lambda>args'. ctx_enqueue (Cmd_Call cb args' job cp)))"

definition cb_call :: "host_callback \<Rightarrow> host_value list \<Rightarrow> (host_context, unit) rm" where
  "cb_call cb args = cb_enqueue cb args None None"

definition cb_call_for :: "host_callback \<Rightarrow> host_job \<Rightarrow> (host_context, unit) rm" where
  "cb_call_for cb j = cb_enqueue cb [] (Some j) None"

text \<open>The future that awaits the call is the number of its completion.\<close>

definition cb_call_async :: "host_callback \<Rightarrow> host_value list \<Rightarrow> (host_context, nat) rm" where
  "cb_call_async cb args c =
     (case hc_sig cb of
        None \<Rightarrow> (Err ''awaitable callback requires a typed signature'', c)
      | Some sg \<Rightarrow>
          let n = next_completion c;
              cp = \<lparr>cp_id = n, cp_result = sig_result sg, cp_channel = sig_channel sg\<rparr>;
              c' = c\<lparr>completions := bt_insert n None (completions c), next_completion := Suc n\<rparr>
          in bind (cb_enqueue cb args None (Some cp)) (\<lambda>_. ret n) c')"

text \<open>\<open>CompletionFuture::poll\<close>: the result is taken once.\<close>

definition poll_completion :: "nat \<Rightarrow> host_context \<Rightarrow> (string + host_value) option \<times> host_context" where
  "poll_completion n c =
     (case bt_get (completions c) n of
        Some (Some r) \<Rightarrow> (Some r, c\<lparr>completions := bt_insert n None (completions c)\<rparr>)
      | _ \<Rightarrow> (None, c))"

section \<open>Collection and closing\<close>

text \<open>\<open>roots\<close>: the entries whose last strong reference is gone are forgotten first.\<close>

definition ctx_roots :: "host_context \<Rightarrow> handle list \<times> host_context" where
  "ctx_roots c =
     (let c' = c\<lparr>jobs := bt_retain (\<lambda>_ strong. strong) (jobs c),
                 callbacks := filter (\<lambda>(_, _, strong). strong) (callbacks c)\<rparr>
      in (map (\<lambda>(_, h, _). h) (callbacks c'), c'))"

definition ctx_close :: "host_context \<Rightarrow> host_context" where
  "ctx_close c =
     foldl (\<lambda>c cmd. drop_completion (command_completion cmd) c)
       (c\<lparr>alive := False,
          cancelled := map fst (filter snd (jobs c)) @ cancelled c,
          jobs := [], callbacks := [], has_waker := False, queue := []\<rparr>)
       (queue c)"

section \<open>What host code does to a context\<close>

text \<open>
  The calls host code outside the repository can make while the machine runs one of its
  operations or futures, or between two turns; \<open>Ev_DropCallback\<close> and \<open>Ev_DropJob\<close> release
  its last reference (a queued call holds one of its own).
\<close>

datatype host_event =
    Ev_Job
  | Ev_Spawn host_job nat
  | Ev_Cancel nat
  | Ev_Call host_callback "host_value list"
  | Ev_CallFor host_callback host_job
  | Ev_CallAsync host_callback "host_value list"
  | Ev_DropCallback nat
  | Ev_DropJob nat

fun holds_callback :: "nat \<Rightarrow> command \<Rightarrow> bool" where
  "holds_callback i (Cmd_Call cb _ _ _) \<longleftrightarrow> hc_id cb = i"
| "holds_callback i _ \<longleftrightarrow> False"

fun host_effect :: "host_event \<Rightarrow> host_context \<Rightarrow> host_context" where
  "host_effect Ev_Job c = snd (ctx_job c)"
| "host_effect (Ev_Spawn j fut) c = snd (ctx_spawn j fut c)"
| "host_effect (Ev_Cancel i) c = snd (ctx_cancel i c)"
| "host_effect (Ev_Call cb args) c = snd (cb_call cb args c)"
| "host_effect (Ev_CallFor cb j) c = snd (cb_call_for cb j c)"
| "host_effect (Ev_CallAsync cb args) c = snd (cb_call_async cb args c)"
| "host_effect (Ev_DropCallback i) c =
     (if list_ex (holds_callback i) (queue c) then c
      else c\<lparr>callbacks := map (\<lambda>(k, h, s). (k, h, s \<and> k \<noteq> i)) (callbacks c)\<rparr>)"
| "host_effect (Ev_DropJob i) c = c\<lparr>jobs := map (\<lambda>(k, s). (k, s \<and> k \<noteq> i)) (jobs c)\<rparr>"

definition host_events :: "host_event list \<Rightarrow> host_context \<Rightarrow> host_context" where
  "host_events evs c = foldl (\<lambda>c e. host_effect e c) c evs"

end
