(* ===== verification/Hosts.thy ===== *)
theory Hosts
  imports Context
begin

text \<open>
  The registry of host operations (\<open>crates/deka_vm/src/host.rs\<close>): the rules a registration
  must meet, the table of nominal types it maintains, and the typed call of an operation.
  The handler of an operation is host code: a parameter, here a function from the number of
  the call and its arguments to its reply and to what it did to the machine's context.
\<close>

section \<open>Operations\<close>

datatype host_reply = Reply_Ready "string + host_value" | Reply_Pending nat \<comment> \<open>a future\<close>

record host_op =
  op_name :: string
  op_args :: "host_type list"
  op_result :: host_type
  op_async :: bool
  result_channel :: bool
  result_error :: "host_enum_error option"
  exception_channel :: bool
  global :: bool
  global_value :: "string option"
  namespace :: "(string \<times> string) option"
  receiver_method :: "(string \<times> string) option"
  receiver_property :: bool
  receiver_setter :: "(string \<times> string) option"
  json_body :: bool
  defaults :: "host_value list"
  handler :: "nat \<Rightarrow> host_value list \<Rightarrow> host_reply \<times> host_event list"

record hosts =
  operations :: "(string, host_op) btree"
  nominal :: "(string, host_type) btree"

definition empty_hosts :: hosts where
  "empty_hosts = \<lparr>operations = [], nominal = []\<rparr>"

definition op_global_name :: "host_op \<Rightarrow> string" where
  "op_global_name op = (case global_value op of None \<Rightarrow> op_name op | Some n \<Rightarrow> n)"

definition host_operation :: "hosts \<Rightarrow> string \<Rightarrow> host_op res" where
  "host_operation hs name =
     ok_or (''unknown host operation: '' @ name) (bt_get (operations hs) name)"

section \<open>The table of nominal types\<close>

definition nominal_name :: "host_type \<Rightarrow> string option" where
  "nominal_name t =
     (case t of HT_Enum n _ \<Rightarrow> Some n | HT_Struct n _ \<Rightarrow> Some n | HT_Handle n \<Rightarrow> Some n | _ \<Rightarrow> None)"

definition collect_name :: "host_type \<Rightarrow> ((string, host_type) btree, unit) rm" where
  "collect_name t out =
     (case nominal_name t of
        None \<Rightarrow> (Ok (), out)
      | Some name \<Rightarrow>
          (case bt_get out name of
             Some old \<Rightarrow>
               if old \<noteq> t then (Err (''conflicting host type schema: '' @ name), out) else (Ok (), out)
           | None \<Rightarrow> (Ok (), bt_insert name t out)))"

fun collect_type :: "host_type \<Rightarrow> ((string, host_type) btree, unit) rm" where
  "collect_type (HT_Enum n cases) =
     seq (collect_name (HT_Enum n cases))
       (eachM (\<lambda>(_, p). case p of None \<Rightarrow> ret () | Some t \<Rightarrow> collect_type t) cases)"
| "collect_type (HT_Struct n fs) =
     seq (collect_name (HT_Struct n fs)) (eachM (\<lambda>(_, t). collect_type t) fs)"
| "collect_type (HT_Record fs) = eachM (\<lambda>(_, t). collect_type t) fs"
| "collect_type (HT_List t) = collect_type t"
| "collect_type (HT_Option t) = collect_type t"
| "collect_type (HT_TypedCallback as r ch) = seq (eachM collect_type as) (collect_type r)"
| "collect_type (HT_Tuple ts) = eachM collect_type ts"
| "collect_type (HT_Handle n) = collect_name (HT_Handle n)"
| "collect_type HT_Unit = ret ()"
| "collect_type HT_Number = ret ()"
| "collect_type HT_Bool = ret ()"
| "collect_type HT_String = ret ()"
| "collect_type HT_Strings = ret ()"
| "collect_type HT_Bytes = ret ()"
| "collect_type HT_Callback = ret ()"

definition op_types :: "host_op \<Rightarrow> host_type list" where
  "op_types op = op_args op @ [op_result op] @
     (case result_error op of None \<Rightarrow> [] | Some e \<Rightarrow> [HT_Enum (he_name e) (he_cases e)])"

definition nominal_schemas :: "host_op list \<Rightarrow> (string, host_type) btree res" where
  "nominal_schemas ops =
     (case eachM (\<lambda>op. eachM collect_type (op_types op)) ops [] of
        (Ok _, out) \<Rightarrow> Ok out | (Err e, _) \<Rightarrow> Err e | (Panic p, _) \<Rightarrow> Panic p)"

definition nominal_type :: "hosts \<Rightarrow> string \<Rightarrow> host_type option" where
  "nominal_type hs b = bt_get (nominal hs) (public_name b)"

section \<open>Registration\<close>

text \<open>
  The source text of a default argument, when it has one. The quoting of a string as JSON
  is done by \<open>serde_json\<close>: the parameter \<open>quote\<close>.
\<close>

fun default_source :: "(string \<Rightarrow> string) \<Rightarrow> host_value \<Rightarrow> string option" where
  "default_source quote (HV_Option None) = Some ''None''"
| "default_source quote (HV_Option (Some v)) =
     map_option (\<lambda>s. ''Some('' @ s @ '')'') (default_source quote v)"
| "default_source quote (HV_Bool b) = Some (if b then ''true'' else ''false'')"
| "default_source quote (HV_Number n) = (if f64_is_finite n then Some (f64_text n) else None)"
| "default_source quote (HV_String s) = Some (quote s)"
| "default_source quote (HV_Record fs) =
     map_option (\<lambda>ps. ''{'' @ join '', '' ps @ ''}'')
       (those (map (\<lambda>(n, v). map_option (\<lambda>s. quote n @ '': '' @ s) (default_source quote v)) fs))"
| "default_source quote (HV_List vs) =
     map_option (\<lambda>ps. ''['' @ join '', '' ps @ '']'') (those (map (default_source quote) vs))"
| "default_source quote _ = None"

definition any_op :: "hosts \<Rightarrow> (host_op \<Rightarrow> bool) \<Rightarrow> bool" where
  "any_op hs p = list_ex p (bt_values (operations hs))"

text \<open>The getter and setter of one property, in either order of registration.\<close>

definition property_pair :: "host_op \<Rightarrow> host_op \<Rightarrow> (host_op \<times> host_op) option" where
  "property_pair op old =
     (if receiver_setter op = receiver_method old \<and> receiver_setter op \<noteq> None then Some (op, old)
      else if receiver_setter old = receiver_method op \<and> receiver_setter old \<noteq> None then Some (old, op)
      else None)"

definition pair_conflict :: "host_op \<Rightarrow> host_op \<Rightarrow> bool" where
  "pair_conflict op old =
     (case property_pair op old of
        None \<Rightarrow> False
      | Some (setter, getter) \<Rightarrow>
          \<not> receiver_property getter \<or> result_channel getter \<or> exception_channel getter \<or>
          \<not> (length (op_args setter) > 1 \<and> op_args setter ! 1 = op_result getter))"

definition check_names :: "hosts \<Rightarrow> host_op \<Rightarrow> unit res" where
  "check_names hs op =
     res_then (reject_if (exception_channel op \<and>
         (op_async op \<or> result_channel op \<or> result_error op \<noteq> None \<or> global_value op \<noteq> None \<or>
          receiver_property op \<or> json_body op))
       ''Exception host channel requires a synchronous throwing function'') (
     res_then (reject_if (\<not> is_identifier (op_name op)) ''invalid host operation name'') (
     res_then (reject_if (bt_contains (operations hs) (op_name op)) ''duplicate host operation'') (
     res_then (reject_if (case global_value op of None \<Rightarrow> False
         | Some name \<Rightarrow> \<not> is_identifier name \<or> \<not> global op \<or> op_args op \<noteq> [] \<or> op_async op \<or>
             result_channel op \<or> (case op_result op of HT_Handle _ \<Rightarrow> False | _ \<Rightarrow> True) \<or>
             receiver_method op \<noteq> None)
       ''ambient host value needs a synchronous opaque getter'') (
     res_then (reject_if (global op \<and>
         any_op hs (\<lambda>old. global old \<and> op_global_name old = op_global_name op))
       ''duplicate ambient host name'') (
     res_then (reject_if (case namespace op of None \<Rightarrow> False
         | Some (ns, field) \<Rightarrow> \<not> is_identifier ns \<or> \<not> is_identifier field \<or> global op \<or>
             receiver_method op \<noteq> None \<or> ns = ''Promise'' \<or>
             any_op hs (\<lambda>old. namespace old = namespace op \<or> (global old \<and> op_global_name old = ns)))
       ''invalid or duplicate host namespace binding'') (
     reject_if (global op \<and>
         any_op hs (\<lambda>old. case namespace old of None \<Rightarrow> False | Some (ns, _) \<Rightarrow> ns = op_global_name op))
       ''host global conflicts with a namespace''))))))"

definition check_types :: "(string \<Rightarrow> string) \<Rightarrow> host_op \<Rightarrow> unit res" where
  "check_types quote op =
     res_then (res_each (\<lambda>t. fst (ht_validate 0 t [])) (op_args op @ [op_result op])) (
     res_then (reject_if (length (defaults op) > length (op_args op)) ''too many host default arguments'') (
     res_then (reject_if (list_ex (\<lambda>(t, v). \<not> accepts t v \<or> default_source quote v = None)
         (zip (drop (length (op_args op) - length (defaults op)) (op_args op)) (defaults op)))
       ''invalid host default argument'') (
     reject_if (json_body op \<and>
         (receiver_method op = None \<or> receiver_property op \<or> \<not> op_async op \<or> \<not> result_channel op \<or>
          op_result op \<noteq> HT_String \<or> length (op_args op) \<noteq> 1 \<or> defaults op \<noteq> []))
       ''JSON body reader must be an async Result<string> receiver method'')))"

definition first_is_handle :: "host_op \<Rightarrow> string \<Rightarrow> bool" where
  "first_is_handle op owner \<longleftrightarrow> (case op_args op of [] \<Rightarrow> False | t # _ \<Rightarrow> t = HT_Handle owner)"

definition check_receivers :: "hosts \<Rightarrow> host_op \<Rightarrow> unit res" where
  "check_receivers hs op =
     res_then (reject_if (receiver_property op \<and> receiver_method op = None)
       ''host property needs a receiver'') (
     res_then (reject_if (case receiver_method op of None \<Rightarrow> False
         | Some (owner, m) \<Rightarrow> \<not> is_identifier m \<or> \<not> first_is_handle op owner \<or>
             (receiver_property op \<and> (length (op_args op) \<noteq> 1 \<or> op_async op)) \<or>
             length (defaults op) = length (op_args op) \<or>
             any_op hs (\<lambda>old. receiver_method old = receiver_method op))
       ''invalid or duplicate host receiver method'') (
     res_then (reject_if (case receiver_setter op of None \<Rightarrow> False
         | Some (owner, p) \<Rightarrow> \<not> is_identifier p \<or> length (op_args op) \<noteq> 2 \<or>
             \<not> first_is_handle op owner \<or> op_result op \<noteq> HT_Unit \<or> op_async op \<or> result_channel op \<or>
             exception_channel op \<or> global op \<or> global_value op \<noteq> None \<or> namespace op \<noteq> None \<or>
             receiver_method op \<noteq> None \<or> json_body op \<or> defaults op \<noteq> [] \<or>
             any_op hs (\<lambda>old. receiver_setter old = receiver_setter op))
       ''host setter needs an opaque receiver, one value and synchronous total Unit output'') (
     res_then (reject_if (any_op hs (pair_conflict op))
       ''host getter and setter must declare the same total property value type'') (
     case result_error op of
       None \<Rightarrow> Ok ()
     | Some e \<Rightarrow>
         res_then (reject_if (\<not> result_channel op \<or>
             \<not> list_ex (\<lambda>(n, t). n = he_case e \<and> t = Some HT_String) (he_cases e))
           ''host enum error needs a declared string-payload case'')
         (fst (ht_validate 0 (HT_Enum (he_name e) (he_cases e)) []))))))"

text \<open>The registry changes only when every check has passed.\<close>

definition register :: "(string \<Rightarrow> string) \<Rightarrow> host_op \<Rightarrow> (hosts, unit) rm" where
  "register quote op hs =
     (case res_then (check_names hs op) (res_then (check_types quote op) (res_then (check_receivers hs op)
             (nominal_schemas (bt_values (operations hs) @ [op])))) of
        Ok nom \<Rightarrow> (Ok (), \<lparr>operations = bt_insert (op_name op) op (operations hs), nominal = nom\<rparr>)
      | Err e \<Rightarrow> (Err e, hs)
      | Panic p \<Rightarrow> (Panic p, hs))"

section \<open>Calls\<close>

text \<open>Omitted trailing parameters arrive as unit cells and are removed first.\<close>

fun trim_units :: "nat \<Rightarrow> host_value list \<Rightarrow> host_value list" where
  "trim_units least [] = []"
| "trim_units least (v # vs) =
     (if Suc (length vs) > least \<and> v = HV_Unit then trim_units least vs else v # vs)"

definition trim_args :: "nat \<Rightarrow> host_value list \<Rightarrow> host_value list" where
  "trim_args least args = rev (trim_units least (rev args))"

text \<open>The arguments an operation's handler receives.\<close>

definition call_args :: "host_op \<Rightarrow> host_value list \<Rightarrow> host_value list res" where
  "call_args op args0 =
     (let least = length (op_args op) - length (defaults op);
          args = trim_args least args0
      in if length args < least \<or> length args > length (op_args op) \<or>
            \<not> list_all (\<lambda>(t, v). accepts t v) (zip (op_args op) args)
         then Err (''invalid arguments for host operation '' @ op_name op)
         else let omitted = length (op_args op) - length args;
                  full = args @ drop (length (defaults op) - omitted) (defaults op)
              in res_mapM (\<lambda>(t, v). normalize t v) (zip (op_args op) full))"

text \<open>
  \<open>call\<close>: the reply of the handler, and the context as the handler leaves it. \<open>now\<close> is the
  number of the call. The declared result type and channels are read from the operation.
\<close>

definition host_call :: "hosts \<Rightarrow> nat \<Rightarrow> string \<Rightarrow> host_value list \<Rightarrow>
    (host_context, host_reply \<times> host_op) rm" where
  "host_call hs now name args c =
     (case res_bind (host_operation hs name) (\<lambda>op. res_bind (call_args op args) (\<lambda>vs. Ok (op, vs))) of
        Err e \<Rightarrow> (Err e, c)
      | Panic p \<Rightarrow> (Panic p, c)
      | Ok (op, vs) \<Rightarrow>
          (case handler op now vs of (reply, evs) \<Rightarrow>
             (let c' = host_events evs c
              in case reply of
                   Reply_Pending fut \<Rightarrow>
                     if \<not> op_async op
                     then (Err (''synchronous host operation '' @ name @ '' returned a future''), c')
                     else (Ok (reply, op), c')
                 | Reply_Ready _ \<Rightarrow> (Ok (reply, op), c'))))"

section \<open>The nominal table is a function of the name\<close>

text \<open>Every type a type mentions, itself included.\<close>

fun subtypes :: "host_type \<Rightarrow> host_type list" where
  "subtypes (HT_Enum n cases) =
     HT_Enum n cases # concat (map (\<lambda>(_, p). case p of None \<Rightarrow> [] | Some t \<Rightarrow> subtypes t) cases)"
| "subtypes (HT_Struct n fs) = HT_Struct n fs # concat (map (\<lambda>(_, t). subtypes t) fs)"
| "subtypes (HT_Record fs) = HT_Record fs # concat (map (\<lambda>(_, t). subtypes t) fs)"
| "subtypes (HT_List t) = HT_List t # subtypes t"
| "subtypes (HT_Option t) = HT_Option t # subtypes t"
| "subtypes (HT_TypedCallback as r ch) = HT_TypedCallback as r ch # concat (map subtypes as) @ subtypes r"
| "subtypes (HT_Tuple ts) = HT_Tuple ts # concat (map subtypes ts)"
| "subtypes t = [t]"

definition table_le :: "(string, host_type) btree \<Rightarrow> (string, host_type) btree \<Rightarrow> bool" where
  "table_le a b \<longleftrightarrow> (\<forall>n u. bt_get a n = Some u \<longrightarrow> bt_get b n = Some u)"

definition named_in :: "(string, host_type) btree \<Rightarrow> host_type list \<Rightarrow> bool" where
  "named_in out ts \<longleftrightarrow> (\<forall>u n. u \<in> set ts \<longrightarrow> nominal_name u = Some n \<longrightarrow> bt_get out n = Some u)"

lemma table_le_refl [simp]: "table_le a a"
  by (simp add: table_le_def)

lemma table_le_trans: "table_le a b \<Longrightarrow> table_le b c \<Longrightarrow> table_le a c"
  by (simp add: table_le_def)

lemma named_in_mono: "named_in a ts \<Longrightarrow> table_le a b \<Longrightarrow> named_in b ts"
  by (simp add: named_in_def table_le_def)

lemma named_in_append [simp]: "named_in out (ts @ us) \<longleftrightarrow> named_in out ts \<and> named_in out us"
  by (auto simp: named_in_def)

lemma named_in_Nil [simp]: "named_in out []"
  by (simp add: named_in_def)

lemma named_in_Cons: "named_in out (t # ts) \<longleftrightarrow> named_in out [t] \<and> named_in out ts"
  by (auto simp: named_in_def)

definition collects :: "((string, host_type) btree, unit) rm \<Rightarrow> host_type list \<Rightarrow> bool" where
  "collects m ts \<longleftrightarrow> (\<forall>out out'. m out = (Ok (), out') \<longrightarrow> table_le out out' \<and> named_in out' ts)"

lemma collects_seq: "collects m ts \<Longrightarrow> collects k us \<Longrightarrow> collects (seq m k) (ts @ us)"
  unfolding collects_def seq_Ok
  by (metis named_in_append named_in_mono table_le_trans)

lemma collects_each:
  assumes "\<And>x. x \<in> set xs \<Longrightarrow> collects (f x) (g x)"
  shows "collects (eachM f xs) (concat (map g xs))"
  using assms
proof (induction xs)
  case Nil
  show ?case by (simp add: collects_def run_simps)
next
  case (Cons x xs)
  then show ?case by (auto intro: collects_seq)
qed

lemma collects_ret [simp]: "collects (ret ()) []"
  by (simp add: collects_def run_simps)

lemma collects_name: "collects (collect_name t) [t]"
  unfolding collects_def collect_name_def named_in_def table_le_def
  by (auto split: option.splits if_splits)

lemma collects_silent: "collects m ts \<Longrightarrow> nominal_name t = None \<Longrightarrow> collects m (t # ts)"
  by (auto simp: collects_def named_in_def)

lemma collects_type: "collects (collect_type t) (subtypes t)"
proof (induction t rule: collect_type.induct)
  case (1 n cases)
  have "collects (eachM (\<lambda>(_, p). case p of None \<Rightarrow> ret () | Some t \<Rightarrow> collect_type t) cases)
      (concat (map (\<lambda>(_, p). case p of None \<Rightarrow> [] | Some t \<Rightarrow> subtypes t) cases))"
    by (rule collects_each) (use 1 in \<open>auto split: option.splits\<close>)
  from collects_seq [OF collects_name this] show ?case by simp
next
  case (2 n fs)
  have "collects (eachM (\<lambda>(_, t). collect_type t) fs) (concat (map (\<lambda>(_, t). subtypes t) fs))"
    by (rule collects_each) (use 2 in auto)
  from collects_seq [OF collects_name this] show ?case by simp
next
  case (3 fs)
  have "collects (eachM (\<lambda>(_, t). collect_type t) fs) (concat (map (\<lambda>(_, t). subtypes t) fs))"
    by (rule collects_each) (use 3 in auto)
  then show ?case by (simp add: collects_silent nominal_name_def)
next
  case (6 as r ch)
  have "collects (eachM collect_type as) (concat (map subtypes as))"
    by (rule collects_each) (use 6 in auto)
  from collects_seq [OF this 6(2)] show ?case by (simp add: collects_silent nominal_name_def)
next
  case (7 ts)
  have "collects (eachM collect_type ts) (concat (map subtypes ts))"
    by (rule collects_each) (use 7 in auto)
  then show ?case by (simp add: collects_silent nominal_name_def)
next
  case (8 n)
  then show ?case using collects_name by simp
qed (simp_all add: collects_silent nominal_name_def)

lemma nominal_schemas_named:
  assumes "nominal_schemas ops = Ok out" and "op \<in> set ops" and "t \<in> set (op_types op)"
    and "u \<in> set (subtypes t)" and "nominal_name u = Some n"
  shows "bt_get out n = Some u"
proof -
  have "collects (eachM (\<lambda>op. eachM collect_type (op_types op)) ops)
      (concat (map (\<lambda>op. concat (map subtypes (op_types op))) ops))"
    by (intro collects_each collects_type)
  moreover have "eachM (\<lambda>op. eachM collect_type (op_types op)) ops [] = (Ok (), out)"
    using assms(1) by (auto simp: nominal_schemas_def split: prod.splits res.splits)
  ultimately have "named_in out (concat (map (\<lambda>op. concat (map subtypes (op_types op))) ops))"
    by (simp add: collects_def)
  then show ?thesis using assms(2-5) unfolding named_in_def by auto
qed

section \<open>The registry's invariant\<close>

definition op_wf :: "host_op \<Rightarrow> bool" where
  "op_wf op \<longleftrightarrow> (\<forall>t \<in> set (op_types op). ht_wf t) \<and> (\<forall>v \<in> set (defaults op). hv_wf v)"

definition op_ok :: "host_op \<Rightarrow> bool" where
  "op_ok op \<longleftrightarrow>
     op_wf op \<and> (\<forall>t \<in> set (op_types op). ht_valid t) \<and> length (defaults op) \<le> length (op_args op) \<and>
     (\<forall>i < length (defaults op).
        accepts (op_args op ! (length (op_args op) - length (defaults op) + i)) (defaults op ! i))"

definition hosts_ok :: "hosts \<Rightarrow> bool" where
  "hosts_ok hs \<longleftrightarrow>
     bt_inv (operations hs) \<and>
     (\<forall>(n, op) \<in> set (operations hs). n = op_name op \<and> op_ok op) \<and>
     (\<forall>(n, op) \<in> set (operations hs). \<forall>t \<in> set (op_types op). \<forall>u \<in> set (subtypes t). \<forall>m.
        nominal_name u = Some m \<longrightarrow> bt_get (nominal hs) m = Some u)"

lemma hosts_ok_empty: "hosts_ok empty_hosts"
  by (simp add: hosts_ok_def empty_hosts_def bt.inv_empty)

lemma check_types_ok:
  assumes "check_types quote op = Ok ()" and "op_wf op"
    and "\<And>e. result_error op = Some e \<Longrightarrow> ht_valid (HT_Enum (he_name e) (he_cases e))"
  shows "op_ok op"
proof -
  let ?n = "length (op_args op)" and ?d = "length (defaults op)"
  have v: "\<forall>t \<in> set (op_args op @ [op_result op]). ht_valid t" and d: "?d \<le> ?n"
    and l: "\<not> list_ex (\<lambda>(t, v). \<not> accepts t v \<or> default_source quote v = None)
         (zip (drop (?n - ?d) (op_args op)) (defaults op))"
    using assms(1) by (auto simp: check_types_def res_each_Ok ht_validate_Ok)
  have "accepts (op_args op ! (?n - ?d + i)) (defaults op ! i)" if i: "i < ?d" for i
  proof -
    have "(op_args op ! (?n - ?d + i), defaults op ! i) \<in>
        set (zip (drop (?n - ?d) (op_args op)) (defaults op))"
      using i d by (auto simp: in_set_zip intro!: exI [of _ i])
    then show ?thesis using l by (auto simp: list_ex_iff)
  qed
  moreover have "\<forall>t \<in> set (op_types op). ht_valid t"
    using v assms(3) by (auto simp: op_types_def simp del: ht_valid.simps split: option.splits)
  ultimately show ?thesis using assms(2) d by (simp add: op_ok_def)
qed

lemma register_hosts_ok:
  assumes ok: "hosts_ok hs" and wf: "op_wf op" and run: "register quote op hs = (r, hs')"
  shows "hosts_ok hs'" and "r = Ok () \<Longrightarrow> bt_get (operations hs') (op_name op) = Some op"
proof -
  have "hosts_ok hs' \<and> (r = Ok () \<longrightarrow> bt_get (operations hs') (op_name op) = Some op)"
  proof (cases "r = Ok ()")
    case False
    then have "hs' = hs" using run by (auto simp: register_def split: res.splits)
    with ok False show ?thesis by simp
  next
    case True
    then obtain nom where checks: "check_types quote op = Ok ()" "check_receivers hs op = Ok ()"
      and nom: "nominal_schemas (bt_values (operations hs) @ [op]) = Ok nom"
      and hs': "hs' = \<lparr>operations = bt_insert (op_name op) op (operations hs), nominal = nom\<rparr>"
      using run by (auto simp: register_def split: res.splits)
    have "ht_valid (HT_Enum (he_name e) (he_cases e))" if "result_error op = Some e" for e
      using checks(2) that by (simp add: check_receivers_def ht_validate_Ok del: ht_valid.simps ht_validate.simps)
    then have op: "op_ok op" by (rule check_types_ok [OF checks(1) wf])
    have el: "(n, x) \<in> set (operations hs') \<Longrightarrow> (n, x) = (op_name op, op) \<or> (n, x) \<in> set (operations hs)" for n x
      using set_bt_insert_pairs by (fastforce simp: hs')
    have "\<forall>(n, x) \<in> set (operations hs'). n = op_name x \<and> op_ok x"
      using el ok op by (fastforce simp: hosts_ok_def)
    moreover have "bt_get nom m = Some u"
      if "(n, x) \<in> set (operations hs')" "t \<in> set (op_types x)" "u \<in> set (subtypes t)" "nominal_name u = Some m"
      for n x t u m
    proof (rule nominal_schemas_named [OF nom _ that(2-4)])
      show "x \<in> set (bt_values (operations hs) @ [op])"
        using el [OF that(1)] by (force simp: bt_values_def)
    qed
    ultimately show ?thesis
      using ok by (auto simp: hosts_ok_def hs' bt.inv_insert)
  qed
  then show "hosts_ok hs'" and "r = Ok () \<Longrightarrow> bt_get (operations hs') (op_name op) = Some op" by auto
qed

lemma hosts_ok_operation:
  "hosts_ok hs \<Longrightarrow> host_operation hs name = Ok op \<Longrightarrow> op_ok op \<and> op_name op = name"
  by (auto simp: hosts_ok_def host_operation_def ok_or_def split: option.splits dest!: bt_get_in_set)

section \<open>Calls\<close>

lemma set_trim_args: "set (trim_args n vs) \<subseteq> set vs"
proof -
  have "set (trim_units n vs) \<subseteq> set vs" for vs by (induction vs) auto
  from this [of "rev vs"] show ?thesis by (simp add: trim_args_def)
qed

lemma normalize_all:
  assumes "length ts = length vs"
    and "\<And>t v. (t, v) \<in> set (zip ts vs) \<Longrightarrow> ht_wf t \<and> ht_valid t \<and> hv_wf v \<and> accepts t v"
  shows "\<exists>vs'. res_mapM (\<lambda>(t, v). normalize t v) (zip ts vs) = Ok vs' \<and> length vs' = length ts \<and>
    (\<forall>(t, v) \<in> set (zip ts vs'). accepts t v) \<and> (\<forall>v \<in> set vs'. hv_wf v)"
  using norm_ok_zip [OF assms(1), of accepts normalize] normalize_norm_ok assms(2) by blast

lemma call_args_ok:
  assumes op: "op_ok op" and wf: "\<forall>v \<in> set args. hv_wf v"
  shows "no_panic (call_args op args)"
    and "call_args op args = Ok vs \<Longrightarrow> length vs = length (op_args op) \<and>
      (\<forall>(t, v) \<in> set (zip (op_args op) vs). accepts t v) \<and> (\<forall>v \<in> set vs. hv_wf v)"
proof -
  let ?n = "length (op_args op)" and ?d = "length (defaults op)"
  define as where "as = trim_args (?n - ?d) args"
  define full where "full = as @ drop (?d - (?n - length as)) (defaults op)"
  have d: "?d \<le> ?n" using op by (simp add: op_ok_def)
  have as: "\<forall>v \<in> set as. hv_wf v" using wf set_trim_args unfolding as_def by blast
  have "no_panic (call_args op args) \<and> (call_args op args = Ok vs \<longrightarrow> length vs = ?n \<and>
      (\<forall>(t, v) \<in> set (zip (op_args op) vs). accepts t v) \<and> (\<forall>v \<in> set vs. hv_wf v))"
  proof (cases "length as < ?n - ?d \<or> length as > ?n \<or> \<not> list_all (\<lambda>(t, v). accepts t v) (zip (op_args op) as)")
    case True
    then show ?thesis by (simp add: call_args_def as_def [symmetric] Let_def)
  next
    case False
    then have run: "call_args op args = res_mapM (\<lambda>(t, v). normalize t v) (zip (op_args op) full)"
      by (simp add: call_args_def as_def [symmetric] full_def Let_def)
    have "?n - ?d \<le> length as" "length as \<le> ?n" using False by auto
    then have len: "length (op_args op) = length full" using d by (simp add: full_def)
    have acc: "accepts (op_args op ! i) (full ! i) \<and> hv_wf (full ! i)" if i: "i < ?n" for i
    proof (cases "i < length as")
      case True
      then have "(op_args op ! i, as ! i) \<in> set (zip (op_args op) as)"
        using i by (auto simp: in_set_zip)
      then show ?thesis using False True as by (auto simp: full_def nth_append list_all_iff)
    next
      case n: False
      define j where "j = ?d - (?n - length as) + (i - length as)"
      have j: "j < ?d" and "?n - ?d + j = i" and fi: "full ! i = defaults op ! j"
        using n i d False by (auto simp: j_def full_def nth_append)
      then show ?thesis using op j by (auto simp: op_ok_def op_wf_def)
    qed
    have "\<exists>vs'. res_mapM (\<lambda>(t, v). normalize t v) (zip (op_args op) full) = Ok vs' \<and> length vs' = ?n \<and>
        (\<forall>(t, v) \<in> set (zip (op_args op) vs'). accepts t v) \<and> (\<forall>v \<in> set vs'. hv_wf v)"
    proof (rule normalize_all [OF len])
      fix t v assume "(t, v) \<in> set (zip (op_args op) full)"
      then obtain i where "i < ?n" "t = op_args op ! i" "v = full ! i" by (auto simp: in_set_zip)
      moreover from this have "t \<in> set (op_types op)" by (simp add: op_types_def)
      ultimately show "ht_wf t \<and> ht_valid t \<and> hv_wf v \<and> accepts t v"
        using acc op by (auto simp: op_ok_def op_wf_def)
    qed
    then show ?thesis unfolding run by auto
  qed
  then show "no_panic (call_args op args)" and "call_args op args = Ok vs \<Longrightarrow> length vs = ?n \<and>
      (\<forall>(t, v) \<in> set (zip (op_args op) vs). accepts t v) \<and> (\<forall>v \<in> set vs. hv_wf v)" by auto
qed

end
