(* ===== verification/Json.thy ===== *)
theory Json
  imports HeapModel Text
begin

text \<open>
  Typed JSON conversion (\<open>crates/deka_vm/src/json.rs\<close>): a heap value is encoded, and a
  JSON document decoded, along the schema the compiler supplies. Reading and printing the
  text of a document is done by \<open>serde_json\<close>, a parameter where it is used. An object of
  \<open>serde_json\<close> is an ordered map of its keys.
\<close>

datatype json_number = JInt int | JFloat f64

datatype json =
    J_Null
  | J_Bool bool
  | J_Number json_number
  | J_String string
  | J_Array "json list"
  | J_Object "(string \<times> json) list"

fun json_as_f64 :: "json_number \<Rightarrow> f64" where
  "json_as_f64 (JInt i) = f64_of_int i"
| "json_as_f64 (JFloat n) = n"

definition json_get :: "json \<Rightarrow> string \<Rightarrow> json option" where
  "json_get j k = (case j of J_Object m \<Rightarrow> bt_get m k | _ \<Rightarrow> None)"

section \<open>Enum records\<close>

definition enum_case :: "heap \<Rightarrow> record_value \<Rightarrow> string res" where
  "enum_case hp r =
     res_bind (ok_or ''invalid nominal enum label'' (rec_get r ''name'')) (\<lambda>h.
     res_bind (heap_get hp h) (\<lambda>v.
       case v of V_String s \<Rightarrow> Ok s | _ \<Rightarrow> Err ''invalid nominal enum label''))"

definition enum_payload :: "record_value \<Rightarrow> handle res" where
  "enum_payload r = ok_or ''nominal enum payload is missing'' (rec_get r ''value'')"

section \<open>Encoding\<close>

text \<open>Whole doubles in the range of \<open>i64\<close> are written as integers.\<close>

definition encode_number :: "f64 \<Rightarrow> json res" where
  "encode_number n =
     (if \<not> f64_is_finite n then Err ''JSON cannot encode a non-finite number''
      else if f64_fract_zero n \<and> f64_le (f64_of_int (- (2 ^ 63))) n \<and> f64_lt n (f64_of_int (2 ^ 63 - 1))
      then Ok (J_Number (JInt (f64_to_i64 n)))
      else Ok (J_Number (JFloat n)))"

definition mismatch_shape :: "json res" where
  "mismatch_shape = Err ''value does not match its checked JSON shape''"

definition encode_fields ::
    "(handle \<Rightarrow> json_shape \<Rightarrow> json res) \<Rightarrow> record_value \<Rightarrow> (string \<times> json_shape) list \<Rightarrow> json res" where
  "encode_fields enc r fs =
     res_map (\<lambda>ps. J_Object (bt_collect ps)) (res_mapM (\<lambda>(n, s).
       res_bind (ok_or (''JSON field `'' @ n @ ''` is missing'') (rec_get r n)) (\<lambda>h.
         res_map (Pair n) (enc h s))) fs)"

lemma encode_fields_cong [fundef_cong]:
  assumes "r = r'" and "fs = fs'" and "\<And>h n s. (n, s) \<in> set fs' \<Longrightarrow> enc h s = enc' h s"
  shows "encode_fields enc r fs = encode_fields enc' r' fs'"
  unfolding encode_fields_def assms(1,2)
  by (rule arg_cong [where f = "res_map (\<lambda>ps. J_Object (bt_collect ps))"], rule res_mapM_cong)
     (use assms(3) in \<open>auto intro!: arg_cong2 [where f = res_bind] ext\<close>)

text \<open>\<open>find_map(|member| encode(..).ok())\<close>.\<close>

fun first_ok :: "('a \<Rightarrow> 'b res) \<Rightarrow> string \<Rightarrow> 'a list \<Rightarrow> 'b res" where
  "first_ok f e [] = Err e"
| "first_ok f e (x # xs) = (case f x of Ok b \<Rightarrow> Ok b | Err _ \<Rightarrow> first_ok f e xs | Panic p \<Rightarrow> Panic p)"

lemma first_ok_cong [fundef_cong]:
  "xs = ys \<Longrightarrow> e = e' \<Longrightarrow> (\<And>x. x \<in> set ys \<Longrightarrow> f x = g x) \<Longrightarrow> first_ok f e xs = first_ok g e' ys"
  by (induction xs arbitrary: ys) (auto split: res.splits)

fun encode :: "heap \<Rightarrow> handle \<Rightarrow> json_shape \<Rightarrow> json res" where
  "encode hp h (Js_Leaf kind) =
     res_bind (heap_get hp h) (\<lambda>v. case v of
         V_Number n \<Rightarrow> if kind = ''number'' then encode_number n else mismatch_shape
       | V_String s \<Rightarrow> if kind = ''string'' then Ok (J_String s) else mismatch_shape
       | V_Bool b \<Rightarrow> if kind = ''boolean'' then Ok (J_Bool b) else mismatch_shape
       | V_Record r \<Rightarrow>
           if kind = ''none'' \<and> rec_enum_name r = Some ''Option''
           then res_bind (enum_case hp r) (\<lambda>c. if c = ''None'' then Ok J_Null else mismatch_shape)
           else mismatch_shape
       | _ \<Rightarrow> mismatch_shape)"
| "encode hp h (Js_Array el) =
     res_bind (heap_get hp h) (\<lambda>v. case v of
         V_List items \<Rightarrow> res_map J_Array (res_mapM (\<lambda>i. encode hp i el) items)
       | _ \<Rightarrow> mismatch_shape)"
| "encode hp h (Js_Tuple els) =
     res_bind (heap_get hp h) (\<lambda>v. case v of
         V_List items \<Rightarrow>
           if length items = length els
           then res_map J_Array (res_mapM (\<lambda>(i, el). encode hp i el) (zip items els))
           else mismatch_shape
       | _ \<Rightarrow> mismatch_shape)"
| "encode hp h (Js_Record fs) =
     res_bind (heap_get hp h) (\<lambda>v. case v of
         V_Record r \<Rightarrow> encode_fields (encode hp) r fs
       | _ \<Rightarrow> mismatch_shape)"
| "encode hp h (Js_Struct name ident fs embeds) =
     res_bind (heap_get hp h) (\<lambda>v. case v of
         V_Record r \<Rightarrow>
           if rec_struct_identity r = Some ident
           then res_map (\<lambda>obj. J_Object [(name, obj)]) (encode_fields (encode hp) r fs)
           else mismatch_shape
       | _ \<Rightarrow> mismatch_shape)"
| "encode hp h (Js_Option inner) =
     res_bind (heap_get hp h) (\<lambda>v. case v of
         V_Record r \<Rightarrow>
           if rec_enum_name r = Some ''Option''
           then res_bind (enum_case hp r) (\<lambda>c.
             if c = ''None'' then Ok J_Null
             else if c = ''Some'' then res_bind (enum_payload r) (\<lambda>p. encode hp p inner)
             else Err ''invalid Option case for JSON'')
           else mismatch_shape
       | _ \<Rightarrow> mismatch_shape)"
| "encode hp h (Js_Enum name cases) =
     res_bind (heap_get hp h) (\<lambda>v. case v of
         V_Record r \<Rightarrow>
           if rec_enum_name r = Some name
           then res_bind (enum_case hp r) (\<lambda>c.
             case find (\<lambda>(label, _). label = c) cases of
               None \<Rightarrow> Err ''invalid enum case for JSON''
             | Some (_, None) \<Rightarrow> Ok (J_Object [(''tag'', J_String c)])
             | Some (_, Some s) \<Rightarrow>
                 res_bind (enum_payload r) (\<lambda>p.
                   res_map (\<lambda>j. J_Object [(''tag'', J_String c), (''value'', j)]) (encode hp p s)))
           else mismatch_shape
       | _ \<Rightarrow> mismatch_shape)"
| "encode hp h (Js_Newtype name repr) =
     res_bind (heap_get hp h) (\<lambda>_.
     res_bind (newtype_name hp h) (\<lambda>n.
       if n = Some name then encode hp h repr else mismatch_shape))"
| "encode hp h (Js_Union members) =
     res_bind (heap_get hp h) (\<lambda>_.
       first_ok (encode hp h) ''value does not match any checked JSON union member'' members)"

definition stringify :: "(json \<Rightarrow> string) \<Rightarrow> heap \<Rightarrow> handle \<Rightarrow> json_shape \<Rightarrow> string res" where
  "stringify print hp h s = res_map print (encode hp h s)"

section \<open>Decoding\<close>

definition mismatch_at :: "string \<Rightarrow> (heap, 'a) rm" where
  "mismatch_at path = fail (path @ '': JSON value does not match the expected type'')"

definition alloc_m :: "val \<Rightarrow> (heap, handle) rm" where
  "alloc_m v hp = (case heap_alloc v hp of (h, hp') \<Rightarrow> (Ok h, hp'))"

definition alloc_enum_m :: "string \<Rightarrow> string \<Rightarrow> nat \<Rightarrow> handle option \<Rightarrow> (heap, handle) rm" where
  "alloc_enum_m name c i p hp = (case heap_alloc_enum name c i p hp of (h, hp') \<Rightarrow> (Ok h, hp'))"

definition alloc_newtype_m :: "val \<Rightarrow> string \<Rightarrow> (heap, handle) rm" where
  "alloc_newtype_m v name hp = (case heap_alloc_newtype v name hp of (h, hp') \<Rightarrow> (Ok h, hp'))"

definition get_m :: "handle \<Rightarrow> (heap, val) rm" where
  "get_m h hp = (heap_get hp h, hp)"

text \<open>The loop over the fields of a record or a struct.\<close>

fun decode_fields ::
    "(json \<Rightarrow> json_shape \<Rightarrow> string \<Rightarrow> (heap, handle) rm) \<Rightarrow> string \<Rightarrow> (string \<times> json_shape) list \<Rightarrow>
     (string \<times> json) list \<Rightarrow> record_value \<Rightarrow> (heap, record_value) rm" where
  "decode_fields dec path [] obj r = ret r"
| "decode_fields dec path ((n, s) # fs) obj r =
     (let p = path @ ''.'' @ n
      in case bt_get obj n of
           None \<Rightarrow> fail (p @ '': required JSON field is missing'')
         | Some j \<Rightarrow> bind (dec j s p) (\<lambda>h.
             decode_fields dec path fs obj (rec_insert n h (r\<lparr>rec_order := rec_order r @ [n]\<rparr>))))"

lemma decode_fields_cong [fundef_cong]:
  assumes "path = path'" and "fs = fs'" and "obj = obj'" and "r = r'"
    and "\<And>j n s p. (n, s) \<in> set fs' \<Longrightarrow> dec j s p = dec' j s p"
  shows "decode_fields dec path fs obj r = decode_fields dec' path' fs' obj' r'"
  unfolding assms(1-4) using assms(5)
proof (induction fs' arbitrary: r')
  case (Cons f fs)
  obtain n s where f: "f = (n, s)" by fastforce
  have "dec j s p = dec' j s p" for j p by (rule Cons.prems [of n]) (simp add: f)
  moreover have "decode_fields dec path' fs obj' r = decode_fields dec' path' fs obj' r" for r
    by (rule Cons.IH) (meson Cons.prems list.set_intros(2))
  ultimately show ?case by (simp add: f Let_def split: option.splits)
qed simp

text \<open>The elements of an array or a tuple, with their indices in the path.\<close>

fun decode_items ::
    "(json \<Rightarrow> json_shape \<Rightarrow> string \<Rightarrow> (heap, handle) rm) \<Rightarrow> string \<Rightarrow> nat \<Rightarrow> (json \<times> json_shape) list \<Rightarrow>
     (heap, handle list) rm" where
  "decode_items dec path i [] = ret []"
| "decode_items dec path i ((j, s) # js) =
     bind (dec j s (path @ ''['' @ nat_text i @ '']'')) (\<lambda>h.
     bind (decode_items dec path (Suc i) js) (\<lambda>hs. ret (h # hs)))"

lemma decode_items_cong [fundef_cong]:
  assumes "path = path'" and "i = i'" and "js = js'"
    and "\<And>j s p. (j, s) \<in> set js' \<Longrightarrow> dec j s p = dec' j s p"
  shows "decode_items dec path i js = decode_items dec' path' i' js'"
  unfolding assms(1-3) using assms(4)
proof (induction js' arbitrary: i')
  case (Cons x js)
  obtain j s where x: "x = (j, s)" by fastforce
  have "dec j s p = dec' j s p" for p by (rule Cons.prems) (simp add: x)
  moreover have "decode_items dec path' i js = decode_items dec' path' i js" for i
    by (rule Cons.IH) (meson Cons.prems list.set_intros(2))
  ultimately show ?case by (simp add: x)
qed simp

text \<open>A union must match exactly one member; a second match is looked for and refused.\<close>

fun union_match ::
    "(json_shape \<Rightarrow> (heap, handle) rm) \<Rightarrow> string \<Rightarrow> handle option \<Rightarrow> json_shape list \<Rightarrow> (heap, handle) rm" where
  "union_match dec path None [] = fail (path @ '': JSON union matches no member'')"
| "union_match dec path (Some h) [] = ret h"
| "union_match dec path found (m # ms) =
     (\<lambda>hp. case dec m hp of
        (Ok h, hp') \<Rightarrow>
          (case found of
             None \<Rightarrow> union_match dec path (Some h) ms hp'
           | Some _ \<Rightarrow> (Err (path @ '': JSON union matches more than one member''), hp'))
      | (Err _, hp') \<Rightarrow> union_match dec path found ms hp'
      | (Panic p, hp') \<Rightarrow> (Panic p, hp'))"

lemma union_match_cong [fundef_cong]:
  assumes "path = path'" and "found = found'" and "ms = ms'"
    and "\<And>m. m \<in> set ms' \<Longrightarrow> dec m = dec' m"
  shows "union_match dec path found ms = union_match dec' path' found' ms'"
  unfolding assms(1-3) using assms(4)
proof (induction ms' arbitrary: found')
  case Nil
  show ?case by (cases found') simp_all
next
  case (Cons m ms)
  then show ?case by (cases found') (simp_all add: fun_eq_iff split: prod.splits res.splits)
qed

text \<open>The method table a struct's factory supplies is added to its fields.\<close>

definition add_methods :: "handle \<Rightarrow> string \<Rightarrow> record_value \<Rightarrow> (heap, record_value) rm" where
  "add_methods factories ident r =
     bind (get_m factories) (\<lambda>t. case t of
         V_Record table \<Rightarrow>
           (case rec_get table ident of
              None \<Rightarrow> ret r
            | Some m \<Rightarrow> bind (get_m m) (\<lambda>v. case v of
                  V_Record methods \<Rightarrow> ret (r\<lparr>rec_fields := bt_extend (rec_fields r) (rec_fields methods)\<rparr>)
                | _ \<Rightarrow> fail ''invalid JSON struct methods''))
       | _ \<Rightarrow> fail ''invalid JSON struct method table'')"

lemma size_found_case_index [termination_simp]:
  assumes "find P (enumerate n cs) = Some (i, c, Some t)"
  shows "f t < Suc (size_list (\<lambda>x. Suc (size_option f (snd x))) cs)"
proof -
  have "(i, c, Some t) \<in> set (enumerate n cs)" using assms by (auto simp: find_Some_iff)
  then have "(c, Some t) \<in> set cs" by (metis in_set_enumerate_eq nth_mem snd_conv le_add_diff_inverse less_diff_conv2 add.commute)
  then show ?thesis by (induction cs) auto
qed

fun decode :: "handle \<Rightarrow> json \<Rightarrow> json_shape \<Rightarrow> string \<Rightarrow> (heap, handle) rm" where
  "decode fac j (Js_Leaf kind) path =
     (case j of
        J_Number n \<Rightarrow>
          if kind = ''number''
          then (if f64_is_finite (json_as_f64 n) then alloc_m (V_Number (json_as_f64 n)) else mismatch_at path)
          else mismatch_at path
      | J_String s \<Rightarrow> if kind = ''string'' then alloc_m (V_String s) else mismatch_at path
      | J_Bool b \<Rightarrow> if kind = ''boolean'' then alloc_m (V_Bool b) else mismatch_at path
      | J_Null \<Rightarrow> if kind = ''none'' then alloc_enum_m ''Option'' ''None'' 1 None else mismatch_at path
      | _ \<Rightarrow> mismatch_at path)"
| "decode fac j (Js_Array el) path =
     (case j of
        J_Array items \<Rightarrow>
          bind (decode_items (\<lambda>j _ p. decode fac j el p) path 0 (map (\<lambda>i. (i, el)) items))
            (\<lambda>hs. alloc_m (V_List hs))
      | _ \<Rightarrow> mismatch_at path)"
| "decode fac j (Js_Tuple els) path =
     (case j of
        J_Array items \<Rightarrow>
          if length items = length els
          then bind (decode_items (decode fac) path 0 (zip items els)) (\<lambda>hs. alloc_m (V_List hs))
          else mismatch_at path
      | _ \<Rightarrow> mismatch_at path)"
| "decode fac j (Js_Record fs) path =
     (case j of
        J_Object obj \<Rightarrow>
          bind (decode_fields (decode fac) path fs obj empty_record) (\<lambda>r. alloc_m (V_Record r))
      | _ \<Rightarrow> mismatch_at path)"
| "decode fac j (Js_Struct name ident fs embeds) path =
     (case j of
        J_Object wrapper \<Rightarrow>
          (case bt_get wrapper name of
             Some (J_Object obj) \<Rightarrow>
               bind (decode_fields (decode fac) (path @ ''.'' @ name) fs obj
                 (empty_record\<lparr>rec_struct_name := Some name, rec_struct_identity := Some ident,
                    rec_embeds := embeds\<rparr>)) (\<lambda>r.
               bind (add_methods fac ident r) (\<lambda>r'. alloc_m (V_Record r')))
           | _ \<Rightarrow> mismatch_at path)
      | _ \<Rightarrow> mismatch_at path)"
| "decode fac j (Js_Option inner) path =
     (case j of
        J_Null \<Rightarrow> alloc_enum_m ''Option'' ''None'' 1 None
      | _ \<Rightarrow> bind (decode fac j inner path) (\<lambda>h. alloc_enum_m ''Option'' ''Some'' 0 (Some h)))"
| "decode fac j (Js_Enum name cases) path =
     (case j of
        J_Object obj \<Rightarrow>
          (case bt_get obj ''tag'' of
             Some (J_String c) \<Rightarrow>
               (case find (\<lambda>(i, label, _). label = c) (enumerate 0 cases) of
                  None \<Rightarrow> fail (path @ '': unknown JSON enum tag '' @ c)
                | Some (i, _, Some s) \<Rightarrow>
                    (case bt_get obj ''value'' of
                       None \<Rightarrow> fail (path @ '': JSON enum payload is missing'')
                     | Some v \<Rightarrow> bind (decode fac v s (path @ ''.value'')) (\<lambda>h.
                         alloc_enum_m name c i (Some h)))
                | Some (i, _, None) \<Rightarrow>
                    if bt_contains obj ''value''
                    then fail (path @ '': payload-less JSON enum tag has a value'')
                    else alloc_enum_m name c i None)
           | _ \<Rightarrow> fail (path @ '': JSON enum tag must be a string''))
      | _ \<Rightarrow> mismatch_at path)"
| "decode fac j (Js_Newtype name repr) path =
     bind (decode fac j repr path) (\<lambda>h. bind (get_m h) (\<lambda>v. alloc_newtype_m v name))"
| "decode fac j (Js_Union members) path =
     union_match (\<lambda>m. decode fac j m path) path None members"

text \<open>\<open>parse\<close>: the reader of \<open>serde_json\<close> gives a document or the text of its error.\<close>

definition json_parse :: "(string \<Rightarrow> string + json) \<Rightarrow> string \<Rightarrow> json_shape \<Rightarrow> handle \<Rightarrow> (heap, handle) rm" where
  "json_parse read text s fac =
     (case read text of
        Inl e \<Rightarrow> fail (''invalid JSON: '' @ e)
      | Inr j \<Rightarrow> decode fac j s ''$'')"

section \<open>The order-preserving view of JWT\<close>

text \<open>
  \<open>Ordered::serialize\<close>: the document the serializer writes, its objects with their entries
  in the order written. It takes the field order from the heap value and everything else
  from the checked document; \<open>flatten\<close> drops the wrapper of a struct.
\<close>

definition first_occurrences :: "'a list \<Rightarrow> 'a list" where
  "first_occurrences xs = rev (remdups (rev xs))"

definition ordered_fields ::
    "(handle \<Rightarrow> json_shape \<Rightarrow> json \<Rightarrow> json res) \<Rightarrow> (string \<times> json_shape) list \<Rightarrow> record_value \<Rightarrow> json \<Rightarrow>
     json res" where
  "ordered_fields ord fs r object =
     res_map J_Object (res_mapM (\<lambda>n.
         case bt_get (bt_collect fs) n of
           None \<Rightarrow> Err ''checked JSON property is missing''
         | Some s \<Rightarrow>
             res_bind (ok_or ''checked JSON field is missing'' (rec_get r n)) (\<lambda>h.
             res_bind (ok_or ''checked JSON property is missing'' (json_get object n)) (\<lambda>c.
             res_map (Pair n) (ord h s c))))
       (filter (\<lambda>n. bt_contains (bt_collect fs) n) (first_occurrences (rec_order r @ map fst fs))))"

lemma ordered_fields_cong [fundef_cong]:
  assumes "fs = fs'" and "r = r'" and "object = object'"
    and "\<And>h n s c. (n, s) \<in> set fs' \<Longrightarrow> ord h s c = ord' h s c"
  shows "ordered_fields ord fs r object = ordered_fields ord' fs' r' object'"
  unfolding ordered_fields_def assms(1-3)
proof (rule arg_cong [where f = "res_map J_Object"], rule res_mapM_cong [OF refl])
  fix n
  show "(case bt_get (bt_collect fs') n of None \<Rightarrow> Err ''checked JSON property is missing''
      | Some s \<Rightarrow> res_bind (ok_or ''checked JSON field is missing'' (rec_get r' n)) (\<lambda>h.
             res_bind (ok_or ''checked JSON property is missing'' (json_get object' n)) (\<lambda>c.
             res_map (Pair n) (ord h s c)))) =
    (case bt_get (bt_collect fs') n of None \<Rightarrow> Err ''checked JSON property is missing''
      | Some s \<Rightarrow> res_bind (ok_or ''checked JSON field is missing'' (rec_get r' n)) (\<lambda>h.
             res_bind (ok_or ''checked JSON property is missing'' (json_get object' n)) (\<lambda>c.
             res_map (Pair n) (ord' h s c))))"
    using assms(4) [OF bt_get_collect_in_set] by (cases "bt_get (bt_collect fs') n") simp_all
qed

definition json_items :: "string \<Rightarrow> json \<Rightarrow> json list res" where
  "json_items e j = (case j of J_Array js \<Rightarrow> Ok js | _ \<Rightarrow> Err e)"

text \<open>The first member of a union that encodes.\<close>

definition first_member :: "heap \<Rightarrow> handle \<Rightarrow> json_shape list \<Rightarrow> json_shape option" where
  "first_member hp h ms = find (\<lambda>m. is_ok (encode hp h m)) ms"

lemma first_member_size [termination_simp]:
  assumes "first_member hp h ms = Some m"
  shows "size m < Suc (size_list size ms)"
proof -
  have "m \<in> set ms" using assms by (auto simp: first_member_def find_Some_iff)
  then show ?thesis by (induction ms) auto
qed

lemma size_zip_zip [termination_simp]:
  "((h, s), c) \<in> set (zip (zip hs ss) cs) \<Longrightarrow> size s < Suc (size_list size ss)"
proof -
  assume "((h, s), c) \<in> set (zip (zip hs ss) cs)"
  then have "s \<in> set ss" by (auto dest: set_zip_leftD set_zip_rightD)
  then show ?thesis by (induction ss) auto
qed

lemma size_member:
  "(n, t) \<in> set fs \<Longrightarrow> size t \<le> size_list (size_prod (\<lambda>_. 0) size) fs"
  "((h, s), c) \<in> set (zip (zip hs ss) cs) \<Longrightarrow> size s \<le> size_list size ss"
  "find P cases = Some (n, Some t) \<Longrightarrow> size t \<le> size_list (size_prod (\<lambda>_. 0) (size_option size)) cases"
  "first_member hp h' ms = Some m \<Longrightarrow> size m \<le> size_list size ms"
proof -
  show "(n, t) \<in> set fs \<Longrightarrow> size t \<le> size_list (size_prod (\<lambda>_. 0) size) fs"
    using size_field [of n t fs size] by simp
  show "((h, s), c) \<in> set (zip (zip hs ss) cs) \<Longrightarrow> size s \<le> size_list size ss"
    using size_zip_zip [of h s c hs ss cs] by simp
  show "find P cases = Some (n, Some t) \<Longrightarrow> size t \<le> size_list (size_prod (\<lambda>_. 0) (size_option size)) cases"
    using size_case [of n t cases size] by (auto simp: find_Some_iff)
  show "first_member hp h' ms = Some m \<Longrightarrow> size m \<le> size_list size ms"
    using first_member_size [of hp h' ms m] by simp
qed

function ordered :: "heap \<Rightarrow> handle \<Rightarrow> json_shape \<Rightarrow> json \<Rightarrow> bool \<Rightarrow> json res" where
  "ordered hp h s checked flatten =
     res_bind (heap_get hp h) (\<lambda>v.
       case (s, v) of
         (Js_Struct name _ fs _, _) \<Rightarrow>
           if \<not> flatten
           then res_bind (ok_or ''checked JSON struct wrapper is missing'' (json_get checked name)) (\<lambda>_.
             res_map (\<lambda>j. J_Object [(name, j)]) (ordered hp h s checked True))
           else (case v of
               V_Record r \<Rightarrow>
                 res_bind (ok_or ''checked JSON struct wrapper is missing'' (json_get checked name)) (\<lambda>obj.
                 ordered_fields (\<lambda>h' s' c. ordered hp h' s' c False) fs r obj)
             | _ \<Rightarrow> Ok checked)
       | (Js_Record fs, V_Record r) \<Rightarrow>
           ordered_fields (\<lambda>h' s' c. ordered hp h' s' c False) fs r checked
       | (Js_Array el, V_List items) \<Rightarrow>
           res_bind (json_items ''checked JSON array is missing'' checked) (\<lambda>cs.
           res_map J_Array (res_mapM (\<lambda>(i, c). ordered hp i el c False) (zip items cs)))
       | (Js_Tuple els, V_List items) \<Rightarrow>
           res_bind (json_items ''checked JSON tuple is missing'' checked) (\<lambda>cs.
           res_map J_Array (res_mapM (\<lambda>((i, el), c). ordered hp i el c False) (zip (zip items els) cs)))
       | (Js_Option inner, V_Record r) \<Rightarrow>
           res_bind (enum_case hp r) (\<lambda>c.
             if c = ''Some'' then res_bind (enum_payload r) (\<lambda>p. ordered hp p inner checked False)
             else Ok checked)
       | (Js_Enum _ cases, V_Record r) \<Rightarrow>
           res_bind (enum_case hp r) (\<lambda>c.
             case find (\<lambda>(label, _). label = c) cases of
               Some (_, Some s') \<Rightarrow>
                 res_bind (ok_or ''checked JSON enum payload is missing'' (json_get checked ''value'')) (\<lambda>cv.
                 res_bind (enum_payload r) (\<lambda>p.
                 res_map (\<lambda>j. J_Object [(''tag'', J_String c), (''value'', j)]) (ordered hp p s' cv False)))
             | _ \<Rightarrow> Ok (J_Object [(''tag'', J_String c)]))
       | (Js_Newtype _ repr, _) \<Rightarrow> ordered hp h repr checked flatten
       | (Js_Union ms, _) \<Rightarrow>
           (case first_member hp h ms of
              None \<Rightarrow> Err ''checked JSON union member is missing''
            | Some m \<Rightarrow> ordered hp h m checked flatten)
       | _ \<Rightarrow> Ok checked)"
  by pat_completeness auto
termination
  by (relation "measure (\<lambda>(hp, h, s, c, fl). 2 * size s + (if fl then 0 else 1))")
     (auto simp: less_Suc_eq_le dest: size_member simp del: size_list_conv_sum_list)

text \<open>The size limit of the encoded document, 16 MiB.\<close>

definition jwt_max_input :: nat where
  "jwt_max_input = 16 * 1024 * 1024"

definition jwt_stringify :: "(json \<Rightarrow> string) \<Rightarrow> heap \<Rightarrow> handle \<Rightarrow> json_shape \<Rightarrow> string res" where
  "jwt_stringify print hp h s =
     res_bind (encode hp h s) (\<lambda>checked.
     res_bind (ordered hp h s checked True) (\<lambda>j.
       if length (print j) > jwt_max_input then Err ''JWT input too large'' else Ok (print j)))"

end
