(* ===== verification/VmState.thy ===== *)
theory VmState
  imports Hosts Json
begin

text \<open>
  The state of the virtual machine (\<open>crates/deka_vm/src/machine.rs\<close>, \<open>stack.rs\<close>) and the
  operations its instructions share: setting up a call, spawning a task, moving values
  across the host boundary, printing a value, finding the owner of a field.

  Conventions: the call stack and the operand stacks are lists with the top first. The
  counters that the code keeps in \<open>u64\<close> and only increments are \<open>nat\<close>. What lies outside
  the repository is a field of \<open>externals\<close>: the reader, printer and string quoting of
  \<open>serde_json\<close>, and the polls of host futures, answered by the number of the poll.
\<close>

section \<open>State\<close>

record externals =
  ext_quote :: "string \<Rightarrow> string"
  ext_read :: "string \<Rightarrow> string + json"
  ext_print :: "json \<Rightarrow> string"
  ext_poll :: "nat \<Rightarrow> nat \<Rightarrow> (string + host_value) option \<times> bool \<times> host_event list"
    \<comment> \<open>time and future to the result, whether it woke itself, and what it did\<close>
  ext_unordered :: "(nat \<times> f64 \<times> string) list \<Rightarrow> nat list option"
    \<comment> \<open>the order \<open>sort_by\<close> gives where the comparison is no total order; \<open>None\<close> is a panic\<close>

record exc_handler =
  target :: nat
  stack_depth :: nat

record frame =
  fr_function :: nat
  ip :: nat
  frame_locals :: "handle list"
  stack :: "handle list"
  slot_children :: "handle option"
  then_call :: "handle list option"
  handlers :: "exc_handler list"

record join_state =
  jn_kind :: promise_join
  jn_inputs :: "handle list"
  jn_values :: "handle option list"
  jn_remaining :: nat
  jn_cursor :: nat
  jn_created :: nat
  jn_scan :: nat
  jn_checked :: "nat option"
  jn_first :: "(nat \<times> nat \<times> outcome) option"

record host_work =
  hw_future :: nat
  hw_result :: host_type
  hw_channel :: bool
  hw_error :: "host_enum_error option"
  hw_job :: "host_job option"
  hw_ready :: bool

datatype work =
    W_Code "frame list"
  | W_Join join_state
  | W_CallbackWait handle
  | W_Host host_work

record task =
  tk_promise :: handle
  tk_work :: work
  tk_waiting :: "handle option"
  tk_completion :: "completion option"

datatype vm_step = St_Continue | St_Blocked handle | St_Complete outcome

datatype invocation = Inv_Frame frame | Inv_Task handle

record vm =
  prog :: program
  vm_hosts :: hosts
  ctx :: host_context
  vheap :: heap
  pins :: "handle list"
  tasks :: "(nat, task) btree"
  next_task :: nat
  root :: "handle option"
  instructions :: nat
  instruction_limit :: "nat option"
  descriptors :: "(type_descriptor, handle) btree"
  turn_cursor :: nat
  completion_epoch :: nat
  completion_order :: "(handle, nat) btree"
  events :: "nat list"
  clock :: nat \<comment> \<open>the number of calls into host code so far\<close>
  ext_lib :: externals

section \<open>Components inside the machine\<close>

definition on_heap :: "(heap, 'a) rm \<Rightarrow> (vm, 'a) rm" where
  "on_heap m = zoom vheap (\<lambda>h v. v\<lparr>vheap := h\<rparr>) m"

definition on_ctx :: "(host_context, 'a) rm \<Rightarrow> (vm, 'a) rm" where
  "on_ctx m = zoom ctx (\<lambda>c v. v\<lparr>ctx := c\<rparr>) m"

definition heap_query :: "(heap \<Rightarrow> 'a res) \<Rightarrow> (heap, 'a) rm" where
  "heap_query f = (\<lambda>hp. (f hp, hp))"

definition replace_m :: "handle \<Rightarrow> val \<Rightarrow> (heap, unit) rm" where
  "replace_m h v = heap_replace h v"

section \<open>Tasks and promises\<close>

definition vm_spawn :: "work \<Rightarrow> (vm, handle) rm" where
  "vm_spawn w v =
     (case heap_alloc (V_Promise None) (vheap v) of (p, hp) \<Rightarrow>
      let w' = (case w of W_Host hw \<Rightarrow> W_Host (hw\<lparr>hw_ready := True\<rparr>) | _ \<Rightarrow> w);
          t = \<lparr>tk_promise = p, tk_work = w', tk_waiting = None, tk_completion = None\<rparr>
      in (Ok p, v\<lparr>vheap := hp, tasks := bt_insert (next_task v) t (tasks v),
                  next_task := Suc (next_task v)\<rparr>))"

definition settle_promise :: "handle \<Rightarrow> string + outcome \<Rightarrow> (vm, unit) rm" where
  "settle_promise p out =
     seq (on_heap (replace_m p (V_Promise (Some out))))
       (modify (\<lambda>v. v\<lparr>completion_epoch := Suc (completion_epoch v),
                      completion_order := bt_insert p (Suc (completion_epoch v)) (completion_order v)\<rparr>))"

definition vm_join :: "promise_join \<Rightarrow> handle \<Rightarrow> (vm, handle) rm" where
  "vm_join kind list =
     bind (on_heap (get_m list)) (\<lambda>l. case l of
         V_List inputs \<Rightarrow>
           bind (gets completion_epoch) (\<lambda>epoch.
             vm_spawn (W_Join \<lparr>jn_kind = kind, jn_inputs = inputs,
               jn_values = replicate (length inputs) None, jn_remaining = length inputs,
               jn_cursor = 0, jn_created = epoch, jn_scan = epoch, jn_checked = None,
               jn_first = None\<rparr>))
       | _ \<Rightarrow> fail ''promise combinator requires a list'')"

section \<open>Calls\<close>

text \<open>Captures, then a fresh cell per argument, then a cell of unit per remaining local.\<close>

definition alloc_cells :: "handle list \<Rightarrow> (heap, handle list) rm" where
  "alloc_cells args = mapM (\<lambda>a. alloc_m (V_Cell a)) args"

definition fill_cells :: "nat \<Rightarrow> (heap, handle list) rm" where
  "fill_cells n = mapM (\<lambda>_. bind (alloc_m V_Unit) (\<lambda>u. alloc_m (V_Cell u))) (replicate n ())"

definition new_frame :: "program \<Rightarrow> nat \<Rightarrow> handle list \<Rightarrow> handle list \<Rightarrow> handle option \<Rightarrow> (heap, frame) rm" where
  "new_frame p f caps args slot =
     (if length (funcs p) \<le> f then fail ''unknown function''
      else let fn = funcs p ! f in
        if length args > parameters fn \<or> length caps \<noteq> captures fn then fail ''function arity mismatch''
        else bind (alloc_cells args) (\<lambda>cells.
             bind (fill_cells (locals fn - (length caps + length args))) (\<lambda>rest.
             ret \<lparr>fr_function = f, ip = 0, frame_locals = caps @ cells @ rest, stack = [],
                  slot_children = slot, then_call = None, handlers = []\<rparr>)))"

definition vm_frame :: "nat \<Rightarrow> handle list \<Rightarrow> handle list \<Rightarrow> handle option \<Rightarrow> (vm, frame) rm" where
  "vm_frame f caps args slot = bind (gets prog) (\<lambda>p. on_heap (new_frame p f caps args slot))"

text \<open>The index of \<open>functions[function]\<close> panics out of range.\<close>

definition function_at :: "nat \<Rightarrow> (vm, func) rm" where
  "function_at f = bind (gets prog) (\<lambda>p.
     if f < length (funcs p) then ret (funcs p ! f) else panic ''index out of bounds'')"

definition invoke :: "nat \<Rightarrow> handle list \<Rightarrow> handle list \<Rightarrow> handle option \<Rightarrow> (vm, invocation) rm" where
  "invoke f caps args slot =
     bind (vm_frame f caps args slot) (\<lambda>next.
     bind (function_at f) (\<lambda>fn.
       if asynchronous fn then bind (vm_spawn (W_Code [next])) (\<lambda>p. ret (Inv_Task p))
       else ret (Inv_Frame next)))"

section \<open>Descriptors and types\<close>

definition intern_descriptor :: "type_descriptor \<Rightarrow> (vm, handle) rm" where
  "intern_descriptor d v =
     (case bt_get (descriptors v) d of
        Some h \<Rightarrow> (Ok h, v)
      | None \<Rightarrow>
          (case heap_alloc (V_Descriptor d) (vheap v) of (h, hp) \<Rightarrow>
             (Ok h, v\<lparr>vheap := hp, descriptors := bt_insert d h (descriptors v)\<rparr>)))"

definition type_of :: "heap \<Rightarrow> handle \<Rightarrow> type_descriptor res" where
  "type_of hp h =
     res_bind (newtype_name hp h) (\<lambda>nt. case nt of
       Some name \<Rightarrow> Ok (TypeDescriptor ''newtype'' name)
     | None \<Rightarrow> res_bind (heap_get hp h) (\<lambda>v. case v of
           V_Unit \<Rightarrow> Ok (TypeDescriptor ''none'' ''None'')
         | V_Number _ \<Rightarrow> Ok (TypeDescriptor ''number'' ''number'')
         | V_Bool _ \<Rightarrow> Ok (TypeDescriptor ''boolean'' ''boolean'')
         | V_String _ \<Rightarrow> Ok (TypeDescriptor ''string'' ''string'')
         | V_Bytes _ \<Rightarrow> Ok (TypeDescriptor ''bytes'' ''bytes'')
         | V_Host x \<Rightarrow> Ok (TypeDescriptor ''opaque'' (hh_name x))
         | V_List _ \<Rightarrow> Ok (TypeDescriptor ''array'' ''Array'')
         | V_Record r \<Rightarrow> Ok (case rec_struct_name r of
               Some name \<Rightarrow> TypeDescriptor ''struct'' name
             | None \<Rightarrow> (case rec_enum_name r of
                 Some name \<Rightarrow> TypeDescriptor ''enum'' (public_name name)
               | None \<Rightarrow> TypeDescriptor ''object'' ''Object''))
         | V_Closure _ _ _ \<Rightarrow> Ok (TypeDescriptor ''function'' ''Function'')
         | V_Descriptor _ \<Rightarrow> Ok (TypeDescriptor ''object'' ''Type'')
         | V_Promise _ \<Rightarrow> Ok (TypeDescriptor ''object'' ''Promise'')
         | V_Props _ \<Rightarrow> Ok (TypeDescriptor ''object'' ''Object'')
         | _ \<Rightarrow> Err ''uninitialized value has no runtime type''))"

section \<open>Values across the host boundary\<close>

subsection \<open>To the host\<close>

text \<open>
  The recursion is bounded by the list of ancestors, which may hold 64 handles. A closure
  becomes a callback that the context roots.
\<close>

function to_host_inner :: "heap \<Rightarrow> handle list \<Rightarrow> handle \<Rightarrow> (host_context, host_value) rm" where
  "to_host_inner hp anc h =
     (if h \<in> set anc then fail ''cyclic value cannot cross the host boundary''
      else if length anc \<ge> 64 then fail ''host value nesting limit exceeded''
      else bind (lift_res (heap_get hp h)) (\<lambda>v. case v of
          V_Unit \<Rightarrow> ret HV_Unit
        | V_Number n \<Rightarrow> ret (HV_Number n)
        | V_Bool b \<Rightarrow> ret (HV_Bool b)
        | V_String s \<Rightarrow> ret (HV_String s)
        | V_Bytes bs \<Rightarrow> ret (HV_Bytes bs)
        | V_Host x \<Rightarrow> ret (HV_Handle x)
        | V_List items \<Rightarrow> bind (mapM (to_host_inner hp (h # anc)) items) (\<lambda>vs. ret (HV_List vs))
        | V_Record r \<Rightarrow>
            (case rec_enum_name r of
               Some name \<Rightarrow>
                 if name = ''Option''
                 then bind (of_opt ''Option has no case'' (rec_get r ''name'')) (\<lambda>nh.
                   bind (lift_res (heap_get hp nh)) (\<lambda>nv.
                     if nv = V_String ''None'' then ret (HV_Option None)
                     else if nv = V_String ''Some''
                     then bind (of_opt ''Some has no payload'' (rec_get r ''value'')) (\<lambda>p.
                       bind (to_host_inner hp (h # anc) p) (\<lambda>x. ret (HV_Option (Some x))))
                     else fail ''invalid Option case''))
                 else bind (of_opt ''enum has no case'' (rec_get r ''name'')) (\<lambda>nh.
                   bind (lift_res (heap_get hp nh)) (\<lambda>nv. case nv of
                       V_String c \<Rightarrow>
                         (case rec_get r ''value'' of
                            None \<Rightarrow> ret (HV_Enum name c None)
                          | Some p \<Rightarrow> bind (to_host_inner hp (h # anc) p) (\<lambda>x. ret (HV_Enum name c (Some x))))
                     | _ \<Rightarrow> fail ''invalid enum case''))
             | None \<Rightarrow>
                 bind (mapM (\<lambda>(n, x). bind (to_host_inner hp (h # anc) x) (\<lambda>y. ret (n, y))) (rec_fields r))
                   (\<lambda>fs. ret (case rec_struct_identity r of
                      Some ident \<Rightarrow> if starts_with ident brand_prefix then HV_Struct ident fs else HV_Record fs
                    | None \<Rightarrow> HV_Record fs)))
        | V_Closure _ _ _ \<Rightarrow> (\<lambda>c. case ctx_callback h c of (cb, c') \<Rightarrow> (Ok (HV_Callback cb), c'))
        | _ \<Rightarrow> fail ''unsupported host wire value''))"
  by pat_completeness auto
termination
  by (relation "measure (\<lambda>(hp, anc, h). 65 - length anc)") auto

declare to_host_inner.simps [simp del]

definition to_host :: "handle \<Rightarrow> (vm, host_value) rm" where
  "to_host h = bind (gets vheap) (\<lambda>hp. on_ctx (to_host_inner hp [] h))"

subsection \<open>From the host\<close>

definition enum_schema :: "hosts \<Rightarrow> string \<Rightarrow> (string \<times> (string \<times> host_type option) list) option" where
  "enum_schema hs b = (case nominal_type hs b of Some (HT_Enum n cs) \<Rightarrow> Some (n, cs) | _ \<Rightarrow> None)"

definition struct_schema :: "hosts \<Rightarrow> string \<Rightarrow> (string \<times> (string \<times> host_type) list) option" where
  "struct_schema hs b = (case nominal_type hs b of Some (HT_Struct n fs) \<Rightarrow> Some (n, fs) | _ \<Rightarrow> None)"

definition case_position :: "(string \<times> 'a) list \<Rightarrow> string \<Rightarrow> nat option" where
  "case_position cs c = map_option fst (find (\<lambda>(i, label, _). label = c) (enumerate 0 cs))"

fun alloc_host_inner :: "hosts \<Rightarrow> host_context \<Rightarrow> nat \<Rightarrow> host_value \<Rightarrow> (heap, handle) rm" where
  "alloc_host_inner hs c d v =
     (if d \<ge> 64 then fail ''host value nesting limit exceeded''
      else case v of
        HV_Enum name k payload \<Rightarrow>
          bind (of_opt ''unknown host enum brand'' (enum_schema hs name)) (\<lambda>(en, cs).
          bind (of_opt ''invalid host enum case'' (case_position cs k)) (\<lambda>i.
            if \<not> accepts (HT_Enum en cs) (HV_Enum name k payload)
            then fail ''invalid host enum payload''
            else case payload of
              None \<Rightarrow> alloc_enum_m name k i None
            | Some p \<Rightarrow> bind (alloc_host_inner hs c (Suc d) p) (\<lambda>h. alloc_enum_m name k i (Some h))))
      | HV_Struct name flds \<Rightarrow>
          bind (of_opt ''unknown host struct brand'' (struct_schema hs name)) (\<lambda>(sn, fs).
            if \<not> accepts (HT_Struct sn fs) (HV_Struct name flds)
            then fail ''invalid host struct fields''
            else bind (mapM (\<lambda>(n, x). bind (alloc_host_inner hs c (Suc d) x) (\<lambda>h. ret (n, h))) flds) (\<lambda>ps.
              let m = bt_collect ps in
              alloc_m (V_Record \<lparr>rec_fields = m, rec_struct_name = Some sn,
                rec_struct_identity = Some name, rec_enum_name = None, rec_order = bt_keys m,
                rec_embeds = []\<rparr>)))
      | HV_Option None \<Rightarrow> alloc_enum_m ''Option'' ''None'' 1 None
      | HV_Option (Some x) \<Rightarrow>
          bind (alloc_host_inner hs c (Suc d) x) (\<lambda>h. alloc_enum_m ''Option'' ''Some'' 0 (Some h))
      | HV_Bytes bs \<Rightarrow> alloc_m (V_Bytes bs)
      | HV_Handle x \<Rightarrow> alloc_m (V_Host x)
      | HV_List items \<Rightarrow>
          bind (mapM (\<lambda>x. alloc_host_inner hs c (Suc d) x) items) (\<lambda>hs'. alloc_m (V_List hs'))
      | HV_Record flds \<Rightarrow>
          bind (mapM (\<lambda>(n, x). bind (alloc_host_inner hs c (Suc d) x) (\<lambda>h. ret (n, h))) flds)
            (\<lambda>ps. alloc_m (V_Record (record_from_iter ps)))
      | HV_Callback cb \<Rightarrow>
          if \<not> ctx_owns c cb then fail ''callback belongs to another VM''
          else bind (get_m (hc_handle cb)) (\<lambda>_. ret (hc_handle cb))
      | HV_Unit \<Rightarrow> alloc_m V_Unit
      | HV_Number n \<Rightarrow> alloc_m (V_Number n)
      | HV_Bool b \<Rightarrow> alloc_m (V_Bool b)
      | HV_String s \<Rightarrow> alloc_m (V_String s)
      | HV_Strings ss \<Rightarrow> bind (mapM (\<lambda>s. alloc_m (V_String s)) ss) (\<lambda>hs'. alloc_m (V_List hs')))"

declare alloc_host_inner.simps [simp del]

definition alloc_host_value :: "host_value \<Rightarrow> (vm, handle) rm" where
  "alloc_host_value x =
     bind (gets (\<lambda>v. (vm_hosts v, ctx v))) (\<lambda>(hs, c). on_heap (alloc_host_inner hs c 0 x))"

definition vm_alloc :: "val \<Rightarrow> (vm, handle) rm" where
  "vm_alloc x = on_heap (alloc_m x)"

definition enum_value :: "string \<Rightarrow> string \<Rightarrow> nat \<Rightarrow> handle option \<Rightarrow> (vm, handle) rm" where
  "enum_value name c i p = on_heap (alloc_enum_m name c i p)"

text \<open>The result of a host operation: checked, normalised and, in a result channel, wrapped.\<close>

definition host_result ::
    "string + host_value \<Rightarrow> host_type \<Rightarrow> bool \<Rightarrow> host_enum_error option \<Rightarrow> (vm, handle) rm" where
  "host_result value expected channel err =
     (case value of
        Inl e \<Rightarrow>
          if channel
          then bind (case err of
                 Some typed \<Rightarrow> alloc_host_value (HV_Enum (brand (he_name typed)) (he_case typed) (Some (HV_String e)))
               | None \<Rightarrow> vm_alloc (V_String e)) (\<lambda>p. enum_value ''Result'' ''Err'' 1 (Some p))
          else fail e
      | Inr v \<Rightarrow>
          if \<not> accepts expected v then fail ''host returned the wrong result type''
          else bind (lift_res (normalize expected v)) (\<lambda>v'.
               bind (alloc_host_value v') (\<lambda>p.
                 if channel then enum_value ''Result'' ''Ok'' 0 (Some p) else ret p)))"

end
