(* ===== verification/VmOps.thy ===== *)
theory VmOps
  imports VmState
begin

text \<open>
  What single instructions of the machine compute (\<open>crates/deka_vm/src/machine.rs\<close>): the
  binary operators, the text of a value, the owner of a field through declared embeds, and
  the in-place list operations.
\<close>

section \<open>Numbers and text\<close>

definition number_text :: "f64 \<Rightarrow> string" where
  "number_text n =
     (if n = Inf False then ''Infinity'' else if n = Inf True then ''-Infinity'' else f64_text n)"

definition bool_text :: "bool \<Rightarrow> string" where
  "bool_text b = (if b then ''true'' else ''false'')"

text \<open>\<open>(n.trunc() as i64) as i32\<close>: the first cast saturates, the second keeps 32 bits.\<close>

definition int32 :: "f64 \<Rightarrow> 32 word" where
  "int32 n = word_of_int (f64_to_i64 (f64_trunc n))"

definition num_of_i32 :: "32 word \<Rightarrow> val" where
  "num_of_i32 w = V_Number (f64_of_int (sint w))"

definition number_op :: "op \<Rightarrow> f64 \<Rightarrow> f64 \<Rightarrow> val res" where
  "number_op x a b =
     (case x of
        Op_Add \<Rightarrow> Ok (V_Number (f64_add a b))
      | Op_Sub \<Rightarrow> Ok (V_Number (f64_sub a b))
      | Op_Mul \<Rightarrow> Ok (V_Number (f64_mul a b))
      | Op_Div \<Rightarrow> Ok (V_Number (f64_div a b))
      | Op_Mod \<Rightarrow> Ok (V_Number (f64_rem a b))
      | Op_Less \<Rightarrow> Ok (V_Bool (f64_lt a b))
      | Op_LessEq \<Rightarrow> Ok (V_Bool (f64_le a b))
      | Op_Greater \<Rightarrow> Ok (V_Bool (f64_lt b a))
      | Op_GreaterEq \<Rightarrow> Ok (V_Bool (f64_le b a))
      | Op_Equal \<Rightarrow> Ok (V_Bool (f64_eq a b))
      | Op_NotEqual \<Rightarrow> Ok (V_Bool (\<not> f64_eq a b))
      | Op_BitAnd \<Rightarrow> Ok (num_of_i32 (and (int32 a) (int32 b)))
      | Op_BitOr \<Rightarrow> Ok (num_of_i32 (or (int32 a) (int32 b)))
      | Op_BitXor \<Rightarrow> Ok (num_of_i32 (xor (int32 a) (int32 b)))
      | Op_Shl \<Rightarrow> Ok (num_of_i32 (push_bit (unat (and (int32 b) 31)) (int32 a)))
      | Op_Shr \<Rightarrow> Ok (num_of_i32 (signed_drop_bit (unat (and (int32 b) 31)) (int32 a)))
      | _ \<Rightarrow> Panic ''unreachable'')"

definition string_op :: "op \<Rightarrow> string \<Rightarrow> string \<Rightarrow> val res" where
  "string_op x a b =
     (case x of
        Op_Add \<Rightarrow> Ok (V_String (a @ b))
      | Op_Equal \<Rightarrow> Ok (V_Bool (a = b))
      | Op_NotEqual \<Rightarrow> Ok (V_Bool (a \<noteq> b))
      | Op_Less \<Rightarrow> Ok (V_Bool (a < b))
      | Op_LessEq \<Rightarrow> Ok (V_Bool (a \<le> b))
      | Op_Greater \<Rightarrow> Ok (V_Bool (b < a))
      | Op_GreaterEq \<Rightarrow> Ok (V_Bool (b \<le> a))
      | _ \<Rightarrow> Err ''unsupported string operation'')"

definition promise_add_text :: "val \<Rightarrow> string res" where
  "promise_add_text v =
     (case v of
        V_Promise _ \<Rightarrow> Ok ''[object Promise]''
      | V_String s \<Rightarrow> Ok s
      | V_Number n \<Rightarrow> Ok (number_text n)
      | V_Bool b \<Rightarrow> Ok (bool_text b)
      | _ \<Rightarrow> Err ''invalid arithmetic operands'')"

fun is_promise :: "val \<Rightarrow> bool" where
  "is_promise (V_Promise _) = True"
| "is_promise _ = False"

text \<open>The operands' mixed cases, in the order of the arms.\<close>

definition binary_op :: "op \<Rightarrow> val \<Rightarrow> val \<Rightarrow> val res" where
  "binary_op x a b =
     (let add = (case x of Op_Add \<Rightarrow> True | _ \<Rightarrow> False);
          eq = (case x of Op_Equal \<Rightarrow> True | _ \<Rightarrow> False);
          neq = (case x of Op_NotEqual \<Rightarrow> True | _ \<Rightarrow> False)
      in case (a, b) of
           (V_Number m, V_Number n) \<Rightarrow> number_op x m n
         | (V_String s, V_String t) \<Rightarrow> string_op x s t
         | _ \<Rightarrow>
             if add then
               (case (a, b) of
                  (V_String s, V_Number n) \<Rightarrow> Ok (V_String (s @ number_text n))
                | (V_Number n, V_String s) \<Rightarrow> Ok (V_String (number_text n @ s))
                | (V_String s, V_Bool t) \<Rightarrow> Ok (V_String (s @ bool_text t))
                | (V_Bool t, V_String s) \<Rightarrow> Ok (V_String (bool_text t @ s))
                | _ \<Rightarrow>
                    if is_promise a \<or> is_promise b
                    then res_bind (promise_add_text a) (\<lambda>s. res_bind (promise_add_text b) (\<lambda>t.
                           Ok (V_String (s @ t))))
                    else Err ''invalid arithmetic operands'')
             else
               (case (a, b) of
                  (V_Descriptor d, V_Descriptor e) \<Rightarrow>
                    if eq then Ok (V_Bool (d = e)) else if neq then Ok (V_Bool (d \<noteq> e))
                    else Err ''invalid arithmetic operands''
                | (V_Bool s, V_Bool t) \<Rightarrow>
                    if eq then Ok (V_Bool (s = t)) else if neq then Ok (V_Bool (s \<noteq> t))
                    else Err ''invalid arithmetic operands''
                | _ \<Rightarrow> Err ''invalid arithmetic operands''))"

section \<open>The text of a value\<close>

text \<open>The character U+2026 that stands for what lies too deep.\<close>

definition ellipsis :: string where
  "ellipsis = [CHR 0xE2, CHR 0x80, CHR 0xA6]"

definition hidden_name :: "string \<Rightarrow> string" where
  "hidden_name n = CHR ''$'' # n"

text \<open>The named fields that are printed, in the declared order.\<close>

definition printed_fields :: "record_value \<Rightarrow> (string \<times> handle) list" where
  "printed_fields r =
     List.map_filter (\<lambda>n. if rec_struct_name r \<noteq> None \<and> starts_with n ''$'' then None
       else map_option (Pair n) (rec_get r n)) (rec_order r)"

definition braces :: "string \<Rightarrow> string \<Rightarrow> string list \<Rightarrow> string" where
  "braces l r parts = (if parts = [] then l @ r else l @ '' '' @ join '', '' parts @ '' '' @ r)"

function inspect :: "(string \<Rightarrow> string) \<Rightarrow> bool \<Rightarrow> handle list \<Rightarrow> handle \<Rightarrow> (heap, string) rm" where
  "inspect quote nested anc h =
     seq (heap_observe h Read_Entity) (bind (get_m h) (\<lambda>v. case v of
         V_Unit \<Rightarrow> ret ''None''
       | V_Number n \<Rightarrow> ret (number_text n)
       | V_Bool b \<Rightarrow> ret (bool_text b)
       | V_String s \<Rightarrow> ret (if nested then quote s else s)
       | V_List items \<Rightarrow>
           if h \<in> set anc then ret ''[Circular]''
           else if length anc \<ge> 24 then ret ellipsis
           else bind (mapM (inspect quote True (h # anc)) items) (\<lambda>parts. ret (braces ''['' '']'' parts))
       | V_Record r \<Rightarrow>
           if h \<in> set anc then ret ''[Circular]''
           else if length anc \<ge> 24 then ret ellipsis
           else if rec_enum_name r \<noteq> None
           then bind (of_opt ''enum has no case name'' (rec_get r ''name'')) (\<lambda>nh.
                bind (get_m nh) (\<lambda>nv. case nv of
                    V_String name \<Rightarrow>
                      (case rec_get r ''value'' of
                         Some p \<Rightarrow> bind (inspect quote True (h # anc) p) (\<lambda>t. ret (name @ ''('' @ t @ '')''))
                       | None \<Rightarrow> ret name)
                  | _ \<Rightarrow> fail ''enum case name is not text''))
           else bind (mapM (\<lambda>(n, x). bind (inspect quote True (h # anc) x) (\<lambda>t. ret (n @ '': '' @ t)))
                  (printed_fields r)) (\<lambda>parts.
                ret (case rec_struct_name r of
                       Some name \<Rightarrow> name @ '' '' @ braces ''{'' ''}'' parts
                     | None \<Rightarrow> braces ''{'' ''}'' parts))
       | _ \<Rightarrow> fail ''value has no printable form''))"
  by pat_completeness auto
termination
  by (relation "measure (\<lambda>(q, n, anc, h). 25 - length anc)") auto

declare inspect.simps [simp del]

definition value_text :: "handle \<Rightarrow> (vm, string) rm" where
  "value_text h = bind (gets (\<lambda>v. ext_quote (ext_lib v))) (\<lambda>q. on_heap (inspect q False [] h))"

section \<open>The owner of a field\<close>

text \<open>
  The recursion of the source follows the declared embeds with no guard: where they form a
  cycle it never returns and exhausts the stack. A path through the heap longer than the
  number of its slots repeats a handle, so that number of nested calls tells the two apart.
\<close>

fun search_embeds :: "(handle \<Rightarrow> (heap, handle option) rm) \<Rightarrow> handle \<Rightarrow> record_value \<Rightarrow> string list \<Rightarrow>
    (heap, handle option) rm" where
  "search_embeds f h r [] = ret None"
| "search_embeds f h r (e # es) =
     seq (heap_observe h (Read_Field e))
       (case rec_get r e of
          None \<Rightarrow> search_embeds f h r es
        | Some x \<Rightarrow> bind (f x) (\<lambda>o'. case o' of
              Some w \<Rightarrow> ret (Some w)
            | None \<Rightarrow> search_embeds f h r es))"

text \<open>
  The recursion of the source has no bound, so it overflows the stack on embeds that form a cycle. The
  stack is taken to hold a chain without a cycle, however long.
\<close>

fun field_owner_fuel :: "nat \<Rightarrow> string \<Rightarrow> handle \<Rightarrow> (heap, handle option) rm" where
  "field_owner_fuel 0 name h = panic stack_overflow"
| "field_owner_fuel (Suc k) name h =
     seq (heap_observe h (Read_Field name)) (bind (get_m h) (\<lambda>v. case v of
         V_Record r \<Rightarrow>
           if bt_contains (rec_fields r) name then ret (Some h)
           else if rec_struct_name r = None then ret None
           else search_embeds (field_owner_fuel k name) h r (rec_embeds r)
       | _ \<Rightarrow> ret None))"

definition field_owner :: "handle \<Rightarrow> string \<Rightarrow> (heap, handle option) rm" where
  "field_owner h name = bind (gets (\<lambda>hp. length (slots hp))) (\<lambda>n. field_owner_fuel (Suc n) name h)"

section \<open>Lists in place\<close>

definition get_mut_m :: "handle \<Rightarrow> (heap, val) rm" where
  "get_mut_m h = heap_get_mut h"

text \<open>Take a list mutably, change it, and return what the change gives.\<close>

definition with_list :: "handle \<Rightarrow> string \<Rightarrow> (handle list \<Rightarrow> handle list \<times> 'a) \<Rightarrow> (heap, 'a) rm" where
  "with_list l e f =
     bind (get_mut_m l) (\<lambda>v. case v of
         V_List items \<Rightarrow> (case f items of (items', a) \<Rightarrow>
           seq (modify (heap_put l (V_List items'))) (ret a))
       | _ \<Rightarrow> fail e)"

definition clamp :: "f64 \<Rightarrow> nat \<Rightarrow> nat" where
  "clamp n len = (if \<not> f64_is_finite n then len else min (f64_to_u64 (f64_max n f64_zero)) len)"

text \<open>\<open>drain(start..end)\<close>.\<close>

definition splice_list :: "f64 \<Rightarrow> f64 \<Rightarrow> handle list \<Rightarrow> handle list \<times> handle list" where
  "splice_list start delete items =
     (let len = length items;
          s = clamp start len;
          e = min (s + clamp delete len) len
      in (take s items @ drop e items, take (e - s) (drop s items)))"

definition fill_list :: "f64 \<Rightarrow> handle \<Rightarrow> handle list \<Rightarrow> handle list" where
  "fill_list start v items =
     (let s = clamp start (length items) in take s items @ replicate (length items - s) v)"

text \<open>The copy runs upwards, one element at a time, in the list itself.\<close>

definition copy_within :: "f64 \<Rightarrow> f64 \<Rightarrow> handle list \<Rightarrow> handle list" where
  "copy_within target0 start0 items =
     (let len = length items;
          s = clamp start0 len;
          t = clamp target0 len
      in foldl (\<lambda>xs i. xs[t + i := xs ! (s + i)]) items [0..<min (len - s) (len - t)])"

type_synonym sort_key = "nat \<times> f64 \<times> string"

definition sort_key_of :: "val \<Rightarrow> sort_key res" where
  "sort_key_of v =
     (case v of
        V_Number n \<Rightarrow> Ok (0, n, '''')
      | V_String s \<Rightarrow> Ok (1, f64_zero, s)
      | _ \<Rightarrow> Err ''sort requires a list of numbers or strings'')"

text \<open>\<open>a\<close> may stand before \<open>b\<close>: the comparison is not \<open>Greater\<close>; \<open>NaN\<close> compares equal.\<close>

definition key_le :: "sort_key \<Rightarrow> sort_key \<Rightarrow> bool" where
  "key_le a b =
     (case (a, b) of ((i, m, s), (j, n, t)) \<Rightarrow>
        i < j \<or> (i = j \<and> (f64_lt m n \<or> (\<not> f64_lt n m \<and> s \<le> t))))"

fun insert_by :: "('a \<Rightarrow> 'a \<Rightarrow> bool) \<Rightarrow> 'a \<Rightarrow> 'a list \<Rightarrow> 'a list" where
  "insert_by le x [] = [x]"
| "insert_by le x (y # ys) = (if le x y then x # y # ys else y # insert_by le x ys)"

text \<open>The stable sort of \<open>slice::sort_by\<close>.\<close>

definition sort_by :: "('a \<Rightarrow> 'a \<Rightarrow> bool) \<Rightarrow> 'a list \<Rightarrow> 'a list" where
  "sort_by le xs = foldr (insert_by le) xs []"

fun is_nan :: "f64 \<Rightarrow> bool" where
  "is_nan NaN = True"
| "is_nan _ = False"

text \<open>
  With a \<open>NaN\<close> among the keys the comparison is no total order: the standard library then
  leaves the order unspecified and may panic, so the outcome is a parameter.
\<close>

definition sort_ranked :: "(sort_key list \<Rightarrow> nat list option) \<Rightarrow> (sort_key \<times> handle) list \<Rightarrow> handle list res" where
  "sort_ranked unordered ranked =
     (if list_ex (\<lambda>((_, n, _), _). is_nan n) ranked
      then (case unordered (map fst ranked) of
              None \<Rightarrow> Panic sort_not_total
            | Some perm \<Rightarrow>
                if sort perm = [0..<length ranked] then Ok (map (\<lambda>i. snd (ranked ! i)) perm)
                else Ok (map snd ranked))
      else Ok (map snd (sort_by (\<lambda>a b. key_le (fst a) (fst b)) ranked)))"

end
