(* ===== verification/HeapInv.thy ===== *)
theory HeapInv
  imports HeapOps VmOps
begin

text \<open>
  What the virtual machine keeps true of its heap: no value holds a stale handle, a closure
  names a function of the program with the right captures, a record's declared order names
  its own fields. Every operation on the heap keeps it, and keeps what is known of a handle:
  that it is live, and of which kind.
\<close>

section \<open>Kinds\<close>

text \<open>
  How the value of a handle may change: cells, lists and records are written in place, a
  pending promise may settle, and everything else never changes.
\<close>

definition kind0 :: "val \<Rightarrow> val \<Rightarrow> bool" where
  "kind0 v w \<longleftrightarrow> w = v \<or> (\<exists>c d. v = V_Cell c \<and> w = V_Cell d) \<or>
     (\<exists>xs ys. v = V_List xs \<and> w = V_List ys) \<or> (\<exists>r s. v = V_Record r \<and> w = V_Record s)"

definition kind1 :: "val \<Rightarrow> val \<Rightarrow> bool" where
  "kind1 v w \<longleftrightarrow> kind0 v w \<or> (v = V_Promise None \<and> (\<exists>out. w = V_Promise (Some out)))"

lemma kind0_refl [simp]: "kind0 v v"
  by (simp add: kind0_def)

lemma kind1_refl [simp]: "kind1 v v"
  by (simp add: kind1_def)

lemma kind0_kind1: "kind0 v w \<Longrightarrow> kind1 v w"
  by (simp add: kind1_def)

lemma kind0_trans: "kind0 u v \<Longrightarrow> kind0 v w \<Longrightarrow> kind0 u w"
  by (auto simp: kind0_def)

lemma kind1_trans: "kind1 u v \<Longrightarrow> kind1 v w \<Longrightarrow> kind1 u w"
  by (auto simp: kind1_def kind0_def)

lemma kind1_simps [simp]:
  "kind1 (V_Cell c) w \<longleftrightarrow> (\<exists>d. w = V_Cell d)"
  "kind1 (V_List xs) w \<longleftrightarrow> (\<exists>ys. w = V_List ys)"
  "kind1 (V_Record r) w \<longleftrightarrow> (\<exists>s. w = V_Record s)"
  "kind1 (V_Closure f cs sl) w \<longleftrightarrow> w = V_Closure f cs sl"
  "kind1 (V_Promise (Some out)) w \<longleftrightarrow> w = V_Promise (Some out)"
  "kind1 (V_Promise None) w \<longleftrightarrow> (\<exists>x. w = V_Promise x)"
  by (auto simp: kind1_def kind0_def split: option.splits)

definition ext_by :: "(val \<Rightarrow> val \<Rightarrow> bool) \<Rightarrow> heap \<Rightarrow> heap \<Rightarrow> bool" where
  "ext_by K a b \<longleftrightarrow> (\<forall>h v. heap_get a h = Ok v \<longrightarrow> (\<exists>w. heap_get b h = Ok w \<and> K v w))"

abbreviation heap_ext :: "heap \<Rightarrow> heap \<Rightarrow> bool" where
  "heap_ext \<equiv> ext_by kind0"

abbreviation heap_ext1 :: "heap \<Rightarrow> heap \<Rightarrow> bool" where
  "heap_ext1 \<equiv> ext_by kind1"

lemma ext_by_refl: "(\<And>v. K v v) \<Longrightarrow> ext_by K a a"
  by (simp add: ext_by_def)

lemma ext_by_trans:
  "(\<And>u v w. K u v \<Longrightarrow> K v w \<Longrightarrow> K u w) \<Longrightarrow> ext_by K a b \<Longrightarrow> ext_by K b c \<Longrightarrow> ext_by K a c"
  unfolding ext_by_def by meson

lemma heap_ext_ext1: "heap_ext a b \<Longrightarrow> heap_ext1 a b"
  unfolding ext_by_def by (meson kind0_kind1)

lemma heap_ext_same: "same_values b a \<Longrightarrow> heap_ext a b"
  by (simp add: ext_by_def same_values_get)

section \<open>What is known of a handle\<close>

definition shaped :: "heap \<Rightarrow> handle \<Rightarrow> val \<Rightarrow> bool" where
  "shaped hp h v \<longleftrightarrow> (\<exists>w. heap_get hp h = Ok w \<and> kind1 v w)"

definition is_cell :: "heap \<Rightarrow> handle \<Rightarrow> bool" where
  "is_cell hp h \<longleftrightarrow> (\<exists>c. heap_get hp h = Ok (V_Cell c))"

definition is_record :: "heap \<Rightarrow> handle \<Rightarrow> bool" where
  "is_record hp h \<longleftrightarrow> (\<exists>r. heap_get hp h = Ok (V_Record r))"

lemma shaped_live: "shaped hp h v \<Longrightarrow> live hp h"
  by (auto simp: shaped_def live_iff)

lemma shaped_cell: "shaped hp h (V_Cell c) \<longleftrightarrow> is_cell hp h"
  by (auto simp: shaped_def is_cell_def)

lemma shaped_record: "shaped hp h (V_Record r) \<longleftrightarrow> is_record hp h"
  by (auto simp: shaped_def is_record_def)

lemma is_cell_live: "is_cell hp h \<Longrightarrow> live hp h"
  by (auto simp: is_cell_def live_iff)

lemma live_ext1: "live a h \<Longrightarrow> heap_ext1 a b \<Longrightarrow> live b h"
  unfolding live_iff ext_by_def by blast

lemma shaped_ext1: "shaped a h v \<Longrightarrow> heap_ext1 a b \<Longrightarrow> shaped b h v"
  unfolding shaped_def ext_by_def by (meson kind1_trans)

lemma is_cell_ext1: "is_cell a h \<Longrightarrow> heap_ext1 a b \<Longrightarrow> is_cell b h"
  using shaped_ext1 [of a h "V_Cell h"] by (simp add: shaped_cell)

lemma is_record_ext1: "is_record a h \<Longrightarrow> heap_ext1 a b \<Longrightarrow> is_record b h"
  using shaped_ext1 [of a h "V_Record empty_record"] by (simp add: shaped_record)

section \<open>Well-formed values\<close>

definition closure_ok :: "program \<Rightarrow> heap \<Rightarrow> nat \<Rightarrow> handle list \<Rightarrow> bool" where
  "closure_ok p hp f cs \<longleftrightarrow>
     f < length (funcs p) \<and> length cs = captures (funcs p ! f) \<and> (\<forall>c \<in> set cs. is_cell hp c)"

definition record_ok :: "record_value \<Rightarrow> bool" where
  "record_ok r \<longleftrightarrow> bt_inv (rec_fields r) \<and> set (rec_order r) \<subseteq> set (bt_keys (rec_fields r))"

definition handles_live :: "heap \<Rightarrow> handle list \<Rightarrow> bool" where
  "handles_live hp hs \<longleftrightarrow> (\<forall>h \<in> set hs. live hp h)"

definition val_ok :: "program \<Rightarrow> heap \<Rightarrow> val \<Rightarrow> bool" where
  "val_ok p hp v \<longleftrightarrow> handles_live hp (children v) \<and>
     (case v of V_Closure f cs _ \<Rightarrow> closure_ok p hp f cs | V_Record r \<Rightarrow> record_ok r | _ \<Rightarrow> True)"

lemma handles_live_simps [simp]:
  "handles_live hp []"
  "handles_live hp (h # hs) \<longleftrightarrow> live hp h \<and> handles_live hp hs"
  "handles_live hp (hs @ hs') \<longleftrightarrow> handles_live hp hs \<and> handles_live hp hs'"
  "handles_live hp (rev hs) \<longleftrightarrow> handles_live hp hs"
  by (auto simp: handles_live_def)

lemma handles_live_ext1: "handles_live a hs \<Longrightarrow> heap_ext1 a b \<Longrightarrow> handles_live b hs"
  unfolding handles_live_def by (meson live_ext1)

lemma closure_ok_ext1: "closure_ok p a f cs \<Longrightarrow> heap_ext1 a b \<Longrightarrow> closure_ok p b f cs"
  unfolding closure_ok_def by (meson is_cell_ext1)

lemma val_ok_ext1: "val_ok p a v \<Longrightarrow> heap_ext1 a b \<Longrightarrow> val_ok p b v"
  unfolding val_ok_def
  using handles_live_ext1 [of a "children v" b] closure_ok_ext1 [of p a _ _ b]
  by (auto split: val.splits)

lemma val_ok_simps [simp]:
  "val_ok p hp V_Unit" "val_ok p hp V_Uninitialized" "val_ok p hp (V_Descriptor d)"
  "val_ok p hp (V_Number n)" "val_ok p hp (V_Bool b)" "val_ok p hp (V_String s)"
  "val_ok p hp (V_Bytes bs)" "val_ok p hp (V_Host x)"
  "val_ok p hp (V_List hs) \<longleftrightarrow> handles_live hp hs"
  "val_ok p hp (V_Cell h) \<longleftrightarrow> live hp h"
  "val_ok p hp (V_Promise None)"
  "val_ok p hp (V_Promise (Some (Inl e)))"
  "val_ok p hp (V_Promise (Some (Inr (Out_Value h)))) \<longleftrightarrow> live hp h"
  "val_ok p hp (V_Promise (Some (Inr (Out_Thrown h)))) \<longleftrightarrow> live hp h"
  "val_ok p hp (V_Props m) \<longleftrightarrow> handles_live hp (bt_values m)"
  "val_ok p hp (V_Record r) \<longleftrightarrow> handles_live hp (bt_values (rec_fields r)) \<and> record_ok r"
  "val_ok p hp (V_Closure f cs sl) \<longleftrightarrow> closure_ok p hp f cs \<and> (\<forall>h. sl = Some h \<longrightarrow> live hp h)"
  by (auto simp: val_ok_def closure_ok_def handles_live_def split: option.splits intro: is_cell_live)

lemma val_ok_literal [simp]: "val_ok p hp (val_of_literal l)"
  by (cases l) auto

lemma rec_get_live: "handles_live hp (bt_values (rec_fields r)) \<Longrightarrow> rec_get r n = Some h \<Longrightarrow> live hp h"
  unfolding handles_live_def rec_get_def by (meson bt_get_value)

lemma bt_get_live: "handles_live hp (bt_values m) \<Longrightarrow> bt_get m n = Some h \<Longrightarrow> live hp h"
  unfolding handles_live_def by (meson bt_get_value)

subsection \<open>Building records\<close>

lemma record_ok_empty [simp]: "record_ok empty_record" "rec_fields empty_record = []"
  by (simp_all add: record_ok_def empty_record_def bt.inv_empty)

lemma rec_put_ok:
  assumes "record_ok r"
  shows "record_ok (rec_put n h r)"
proof -
  have "bt_inv (rec_fields (rec_put n h r))"
    using assms by (simp add: rec_put_def rec_insert_def Let_def record_ok_def bt.inv_insert)
  moreover have "set (rec_order (rec_put n h r)) \<subseteq> set (bt_keys (rec_fields (rec_put n h r)))"
    using assms by (auto simp: rec_put_def rec_insert_def Let_def record_ok_def bt.keys_insert)
  ultimately show ?thesis by (simp add: record_ok_def)
qed

lemma rec_put_live:
  "handles_live hp (bt_values (rec_fields r)) \<Longrightarrow> live hp h \<Longrightarrow>
   handles_live hp (bt_values (rec_fields (rec_put n h r)))"
  using bt_values_insert [of n h "rec_fields r"]
  by (auto simp: rec_put_def rec_insert_def Let_def handles_live_def)

lemma record_from_iter_ok:
  "handles_live hp (map snd ps) \<Longrightarrow>
   record_ok (record_from_iter ps) \<and> handles_live hp (bt_values (rec_fields (record_from_iter ps)))"
proof -
  have "handles_live hp (map snd ps) \<Longrightarrow> record_ok r \<Longrightarrow> handles_live hp (bt_values (rec_fields r)) \<Longrightarrow>
    record_ok (foldl (\<lambda>r (n, h). rec_put n h r) r ps) \<and>
    handles_live hp (bt_values (rec_fields (foldl (\<lambda>r (n, h). rec_put n h r) r ps)))" for r
    by (induction ps arbitrary: r) (auto simp: rec_put_ok rec_put_live)
  then show "handles_live hp (map snd ps) \<Longrightarrow> ?thesis"
    by (simp add: record_from_iter_def bt_values_def)
qed

lemma bt_collect_live:
  "handles_live hp (map snd ps) \<Longrightarrow> handles_live hp (bt_values (bt_collect ps))"
  using bt_values_extend [of "[]" ps] unfolding handles_live_def bt_collect_def
  by (metis Un_iff bt_values_def empty_iff list.map(1) list.set(1) subsetD)

lemma keys_bt_collect: "set (bt_keys (bt_collect ps)) = set (map fst ps)"
  using bt_keys_extend [of "[]" ps] by (simp add: bt_collect_def bt_keys_def)

section \<open>The invariant\<close>

definition reads_ok :: "heap \<Rightarrow> bool" where
  "reads_ok hp \<longleftrightarrow> (case heap_reads hp of None \<Rightarrow> True
     | Some r \<Rightarrow> \<forall>d \<in> set (reads_deps r). handles_live hp (dep_roots d))"

definition heap_ok :: "program \<Rightarrow> heap \<Rightarrow> bool" where
  "heap_ok p hp \<longleftrightarrow> heap_wf hp \<and> (\<forall>h v. heap_get hp h = Ok v \<longrightarrow> val_ok p hp v) \<and> reads_ok hp"

lemma heap_ok_closed: "heap_ok p hp \<Longrightarrow> heap_closed hp"
  unfolding heap_ok_def heap_closed_def val_ok_def handles_live_def by blast

lemma heap_okD: "heap_ok p hp \<Longrightarrow> heap_get hp h = Ok v \<Longrightarrow> val_ok p hp v"
  by (simp add: heap_ok_def)

lemma reads_ok_ext1:
  "reads_ok a \<Longrightarrow> heap_ext1 a b \<Longrightarrow> map_option reads_deps (heap_reads b) = map_option reads_deps (heap_reads a) \<Longrightarrow>
   reads_ok b"
  unfolding reads_ok_def by (auto split: option.splits dest: handles_live_ext1)

lemma heap_ok_alloc:
  assumes ok: "heap_ok p hp" and v: "val_ok p hp v" and run: "heap_alloc v hp = (h, hp')"
  shows "heap_ok p hp'" and "heap_ext hp hp'" and "heap_get hp' h = Ok v"
    and "heap_get hp h = Err ''stale heap handle''"
proof -
  have wf: "heap_wf hp" using ok by (simp add: heap_ok_def)
  note a = heap_alloc_get [OF wf run]
  show g: "heap_get hp' h = Ok v" by (simp add: a(1))
  show st: "heap_get hp h = Err ''stale heap handle''" by (rule a(2))
  show e: "heap_ext hp hp'" unfolding ext_by_def using a(1,2) by auto
  note e1 = heap_ext_ext1 [OF e]
  have "val_ok p hp' w" if "heap_get hp' h' = Ok w" for h' w
    using that a(1) val_ok_ext1 [OF v e1] val_ok_ext1 [OF heap_okD [OF ok] e1] by (auto split: if_splits)
  moreover have "reads_ok hp'"
    using ok e1 a(4) by (auto intro: reads_ok_ext1 simp: heap_ok_def)
  ultimately show "heap_ok p hp'" using a(3) by (simp add: heap_ok_def)
qed

lemma heap_ok_same:
  assumes ok: "heap_ok p hp" and sv: "same_values hp' hp" and sr: "same_reads hp' hp"
  shows "heap_ok p hp'" and "heap_ext hp hp'"
proof -
  show e: "heap_ext hp hp'" by (rule heap_ext_same [OF sv])
  note e1 = heap_ext_ext1 [OF e]
  show "heap_ok p hp'"
    using ok val_ok_ext1 [OF _ e1] same_values_get [OF sv] same_values_wf [OF sv]
      reads_ok_ext1 [OF _ e1] sr by (simp add: heap_ok_def same_reads_def)
qed

lemma heap_ok_put_by:
  assumes K: "\<And>v. K v v" "\<And>v w. K v w \<Longrightarrow> kind1 v w"
    and ok: "heap_ok p hp" and get: "heap_get hp h = Ok u" and k: "K u v" and v: "val_ok p hp v"
  shows "heap_ok p (heap_put h v hp)" and "ext_by K hp (heap_put h v hp)"
proof -
  note g = heap_put_get [OF get]
  show e: "ext_by K hp (heap_put h v hp)" unfolding ext_by_def g using get k K(1) by auto
  then have e1: "heap_ext1 hp (heap_put h v hp)" unfolding ext_by_def using K(2) by meson
  have "val_ok p (heap_put h v hp) w" if "heap_get (heap_put h v hp) h' = Ok w" for h' w
    using that g val_ok_ext1 [OF v e1] val_ok_ext1 [OF heap_okD [OF ok] e1] by (auto split: if_splits)
  moreover have "reads_ok (heap_put h v hp)"
    using ok e1 by (auto intro: reads_ok_ext1 simp: heap_ok_def)
  moreover have "heap_wf (heap_put h v hp)"
    using ok heap_put_wf [OF get] by (simp add: heap_ok_def)
  ultimately show "heap_ok p (heap_put h v hp)" by (simp add: heap_ok_def)
qed

lemma heap_ok_put:
  assumes "heap_ok p hp" and "heap_get hp h = Ok u" and "kind0 u v" and "val_ok p hp v"
  shows "heap_ok p (heap_put h v hp)" and "heap_ext hp (heap_put h v hp)"
  using heap_ok_put_by [of kind0, OF kind0_refl kind0_kind1 assms] by auto

lemma heap_ok_put1:
  assumes "heap_ok p hp" and "heap_get hp h = Ok u" and "kind1 u v" and "val_ok p hp v"
  shows "heap_ok p (heap_put h v hp)" and "heap_ext1 hp (heap_put h v hp)"
  using heap_ok_put_by [of kind1, OF kind1_refl _ assms] by auto

lemma observed_at_live:
  assumes ok: "heap_ok p hp" and ob: "observed_at hp h rd = Ok x"
  shows "handles_live hp (dep_roots \<lparr>dep_object = h, dep_read = r, dep_observed = x\<rparr>)"
proof -
  obtain v where g: "heap_get hp h = Ok v" using ob by (auto simp: observed_at_def res_bind_Ok_iff)
  have "val_ok p hp v" by (rule heap_okD [OF ok g])
  then have "live hp c" if "x = Obs_Address (Some c)" for c
    using ob g that
    by (auto simp: observed_at_def handles_live_def split: read.splits val.splits if_splits
        intro: bt_get_live rec_get_live)
  moreover have "live hp h" using g by (simp add: live_iff)
  ultimately show ?thesis by (auto simp: dep_roots_def split: observed.splits option.splits)
qed

lemma heap_ok_observe:
  assumes ok: "heap_ok p hp" and run: "heap_observe h rd hp = (r, hp')"
  shows "heap_ok p hp'" and "heap_ext hp hp'" and "\<not> (\<exists>q. r = Panic q)"
proof -
  have sv: "same_values hp' hp" by (rule same_values_observe [OF run])
  show e: "heap_ext hp hp'" by (rule heap_ext_same [OF sv])
  note e1 = heap_ext_ext1 [OF e]
  have "reads_ok hp'"
  proof (cases "heap_reads hp' = heap_reads hp")
    case True
    then show ?thesis using ok e1 by (auto intro: reads_ok_ext1 simp: heap_ok_def)
  next
    case False
    then obtain rs x where rs: "heap_reads hp = Some rs" "observed_at hp h rd = Ok x"
      "heap_reads hp' = Some (rs\<lparr>reads_deps := reads_deps rs @ [\<lparr>dep_object = h, dep_read = rd, dep_observed = x\<rparr>]\<rparr>)"
      using run by (auto simp: heap_observe_def split: option.splits res.splits if_splits)
    have "\<forall>d \<in> set (reads_deps rs). handles_live hp' (dep_roots d)"
      using ok rs(1) handles_live_ext1 [OF _ e1] by (auto simp: heap_ok_def reads_ok_def)
    moreover have "handles_live hp' (dep_roots \<lparr>dep_object = h, dep_read = rd, dep_observed = x\<rparr>)"
      by (rule handles_live_ext1 [OF observed_at_live [OF ok rs(2)] e1])
    ultimately show ?thesis by (simp add: reads_ok_def rs(3))
  qed
  then show "heap_ok p hp'"
    using ok val_ok_ext1 [OF _ e1] same_values_get [OF sv] same_values_wf [OF sv] by (simp add: heap_ok_def)
  have "no_panic (observed_at hp h rd)" by (auto simp: observed_at_def intro!: no_panic_bind)
  then show "\<not> (\<exists>q. r = Panic q)"
    using run by (auto simp: heap_observe_def split: option.splits res.splits if_splits)
qed

end
