(* ===== verification/HeapProps.thy ===== *)
theory HeapProps
  imports HeapInv
begin

text \<open>
  What the heap promises the machine: the collector frees exactly what the roots do not
  reach, it succeeds on a heap without stale handles, and a handle whose value it freed is
  refused for ever. The example heap holds a string in a cell and a list that holds itself.
\<close>

section \<open>An example\<close>

definition demo_heap :: heap where
  "demo_heap =
     (let (s, a) = heap_alloc (V_String ''kept'') empty_heap;
          (c, b) = heap_alloc (V_Cell s) a;
          (l, d) = heap_alloc (V_List []) b
      in heap_put l (V_List [l]) d)"

abbreviation demo_root :: handle where
  "demo_root \<equiv> Handle 1 0"

abbreviation demo_cycle :: handle where
  "demo_cycle \<equiv> Handle 2 0"

definition demo_collected :: heap where
  "demo_collected = snd (heap_collect [demo_root] demo_heap)"

lemmas demo_defs = demo_heap_def heap_alloc_def empty_heap_def Let_def heap_put_def

lemma demo_heap_eq:
  "demo_heap = \<lparr>slots = [
     \<lparr>slot_value = Some (V_String ''kept''), slot_gen = 0, slot_marked = False, slot_newtype = None, slot_created = 1, slot_revision = 0\<rparr>,
     \<lparr>slot_value = Some (V_Cell (Handle 0 0)), slot_gen = 0, slot_marked = False, slot_newtype = None, slot_created = 2, slot_revision = 0\<rparr>,
     \<lparr>slot_value = Some (V_List [demo_cycle]), slot_gen = 0, slot_marked = False, slot_newtype = None, slot_created = 3, slot_revision = 0\<rparr>],
     free = [], collections = 0, allocations = 3, heap_reads = None\<rparr>"
  by (simp add: demo_defs)

lemma demo_heap_wf: "heap_wf demo_heap"
  by (auto simp: demo_heap_eq heap_wf_def less_Suc_eq nth_Cons')

lemma demo_collect_run: "heap_collect [demo_root] demo_heap = (Ok (), \<lparr>slots = [
     \<lparr>slot_value = Some (V_String ''kept''), slot_gen = 0, slot_marked = False, slot_newtype = None, slot_created = 1, slot_revision = 0\<rparr>,
     \<lparr>slot_value = Some (V_Cell (Handle 0 0)), slot_gen = 0, slot_marked = False, slot_newtype = None, slot_created = 2, slot_revision = 0\<rparr>,
     \<lparr>slot_value = None, slot_gen = 1, slot_marked = False, slot_newtype = None, slot_created = 3, slot_revision = 0\<rparr>],
     free = [2], collections = 1, allocations = 3, heap_reads = None\<rparr>)"
  by (simp add: heap_collect_def collect_roots_def demo_heap_eq slots_get_def ok_or_def mark_slot_def
      usize_max_def Let_def)

lemmas demo_collected_eq = demo_collected_def [unfolded demo_collect_run snd_conv]

lemma demo_collect: "heap_collect [demo_root] demo_heap = (Ok (), demo_collected)"
  unfolding demo_collected_def demo_collect_run by simp

lemma demo_heap_ok: "heap_ok p demo_heap"
proof -
  have "val_ok p demo_heap v" if "heap_get demo_heap h = Ok v" for h v
    using that by (auto simp: demo_heap_eq heap_get_def slots_get_def ok_or_def live_def less_Suc_eq nth_Cons'
        split: if_splits)
  then show ?thesis
    using demo_heap_wf by (simp add: heap_ok_def reads_ok_def) (simp add: demo_heap_eq)
qed

section \<open>Properties\<close>

text \<open>
  C3. After a collection, a handle reads what it read before if the roots reach it, and is
  stale otherwise: nothing in use is freed, nothing else survives.
\<close>

theorem collect_exact:
  assumes "heap_wf hp" and "heap_collect roots hp = (Ok (), hp')"
  shows "\<forall>h. heap_get hp' h =
      (if reach (heap_get hp) (set (collect_roots hp roots)) h then heap_get hp h
       else Err ''stale heap handle'')"
  using heap_collect_exact(1) [OF assms] by blast

theorem collect_exact_witness:
  "\<forall>h. heap_get demo_collected h =
      (if reach (heap_get demo_heap) (set (collect_roots demo_heap [demo_root])) h then heap_get demo_heap h
       else Err ''stale heap handle'')"
  by (rule collect_exact [OF demo_heap_wf demo_collect])

text \<open>
  On a well-formed heap without stale handles the collection succeeds whenever its roots
  are live and no slot has used up its generations, and it leaves such a heap.
\<close>

theorem collect_succeeds:
  assumes wf: "heap_wf hp" and closed: "heap_closed hp"
    and roots: "\<forall>h \<in> set (collect_roots hp roots). live hp h"
    and gens: "\<forall>s \<in> set (slots hp). slot_gen s < usize_max"
  shows "\<exists>hp'. heap_collect roots hp = (Ok (), hp') \<and> heap_wf hp' \<and> heap_closed hp'"
proof -
  have "fst (heap_collect roots hp) = Ok ()"
    by (rule heap_collect_total [OF closed_no_stale [OF closed roots] gens])
  then obtain hp' where run: "heap_collect roots hp = (Ok (), hp')" by (cases "heap_collect roots hp") simp
  from heap_collect_wf [OF wf run] run show ?thesis by blast
qed

theorem collect_succeeds_witness:
  "\<exists>hp'. heap_collect [demo_root] demo_heap = (Ok (), hp') \<and> heap_wf hp' \<and> heap_closed hp'"
proof (rule collect_succeeds [OF demo_heap_wf heap_ok_closed [OF demo_heap_ok]])
  show "\<forall>h \<in> set (collect_roots demo_heap [demo_root]). live demo_heap h"
    by (simp add: demo_heap_eq collect_roots_def live_def heap_get_def slots_get_def ok_or_def)
  show "\<forall>s \<in> set (slots demo_heap). slot_gen s < usize_max" by (simp add: demo_heap_eq usize_max_def)
qed

text \<open>
  C5. A handle whose value a collection freed is never read again: whatever the machine
  does to the heap afterwards, in any order and for however long, reading it is refused.
  So a slot that is used again cannot alias an old handle.
\<close>

theorem freed_never_read:
  assumes "heap_wf hp" and "heap_get hp h = Ok v" and "heap_collect roots hp = (Ok (), hp')"
    and "\<not> live hp' h" and "heap_step\<^sup>*\<^sup>* hp' hp''"
  shows "heap_get hp'' h = Err ''stale heap handle''"
  using dead_steps [OF assms(5) heap_collect_dead [OF assms(1,3,2,4)]]
  by (auto simp: dead_def heap_get_def slots_get_def ok_or_def)

definition demo_reused :: "handle \<times> heap" where
  "demo_reused = heap_alloc (V_String ''new'') demo_collected"

theorem freed_never_read_witness:
  "fst demo_reused = Handle 2 1 \<and> heap_get (snd demo_reused) demo_cycle = Err ''stale heap handle''"
proof
  show "fst demo_reused = Handle 2 1" by (simp add: demo_reused_def demo_collected_eq heap_alloc_def)
  have "heap_step demo_collected (snd demo_reused)"
    by (rule hs_alloc [of "V_String ''new''" _ "fst demo_reused"]) (simp add: demo_reused_def)
  then have "heap_step\<^sup>*\<^sup>* demo_collected (snd demo_reused)" by blast
  moreover have "heap_get demo_heap demo_cycle = Ok (V_List [demo_cycle])"
    by (simp add: demo_heap_eq heap_get_def slots_get_def ok_or_def)
  moreover have "\<not> live demo_collected demo_cycle"
    by (simp add: demo_collected_eq live_def heap_get_def slots_get_def ok_or_def)
  ultimately show "heap_get (snd demo_reused) demo_cycle = Err ''stale heap handle''"
    by (intro freed_never_read [OF demo_heap_wf _ demo_collect])
qed

end
