(* ===== verification/HostProps.thy ===== *)
theory HostProps
  imports Hosts
begin

text \<open>
  What the registry of host operations promises the machine: schemas are checked before
  they are stored, a name stands for one type everywhere, and a handler is only called
  with arguments of its declared types, in their normal form.
\<close>

section \<open>An example\<close>

definition demo_color :: host_type where
  "demo_color = HT_Enum ''Color'' [(''Red'', None), (''Grey'', Some HT_Number)]"

definition demo_op :: host_op where
  "demo_op = \<lparr>op_name = ''paint'', op_args = [demo_color, HT_Option HT_String], op_result = HT_Unit,
     op_async = False, result_channel = False, result_error = None, exception_channel = False,
     global = True, global_value = None, namespace = None, receiver_method = None,
     receiver_property = False, receiver_setter = None, json_body = False,
     defaults = [HV_Option None], handler = (\<lambda>_ _. (Reply_Ready (Inr HV_Unit), []))\<rparr>"

definition demo_hosts :: hosts where
  "demo_hosts = snd (register id demo_op empty_hosts)"

lemma demo_op_wf: "op_wf demo_op"
  by (simp add: op_wf_def demo_op_def op_types_def demo_color_def)

lemma demo_checks:
  "check_names empty_hosts demo_op = Ok ()" "check_types id demo_op = Ok ()"
  "check_receivers empty_hosts demo_op = Ok ()"
  "nominal_schemas [demo_op] = Ok [(''Color'', demo_color)]"
  by code_simp+

lemma demo_run:
  "register id demo_op empty_hosts =
     (Ok (), \<lparr>operations = [(''paint'', demo_op)], nominal = [(''Color'', demo_color)]\<rparr>)"
proof -
  have "bt_values (operations empty_hosts) @ [demo_op] = [demo_op]" by (simp add: empty_hosts_def bt_values_def)
  moreover have "bt_insert (op_name demo_op) demo_op (operations empty_hosts) = [(''paint'', demo_op)]"
    by (simp add: empty_hosts_def) (simp add: demo_op_def)
  ultimately show ?thesis by (simp add: register_def demo_checks res_then_def)
qed

lemma demo_hosts_eq: "demo_hosts = \<lparr>operations = [(''paint'', demo_op)], nominal = [(''Color'', demo_color)]\<rparr>"
  by (simp add: demo_hosts_def demo_run)

lemma demo_register: "register id demo_op empty_hosts = (Ok (), demo_hosts)"
  by (simp add: demo_run demo_hosts_eq)

lemma demo_hosts_ok: "hosts_ok demo_hosts"
  by (rule register_hosts_ok(1) [OF hosts_ok_empty demo_op_wf demo_register])

section \<open>Registration\<close>

lemma register_effect:
  assumes "register quote op hs = (r, hs')"
  shows "if r = Ok ()
     then bt_get (operations hs) (op_name op) = None \<and>
          (\<forall>n. bt_get (operations hs') n = (if n = op_name op then Some op else bt_get (operations hs) n))
     else hs' = hs"
  using assms
  by (auto simp: register_def check_names_def res_then_def reject_if_def bt_contains_get
      split: res.splits if_splits)

text \<open>
  The registry after a sequence of registrations, the rejected ones included, and the types an
  operation mentions at any depth.
\<close>

definition registered :: "(string \<Rightarrow> string) \<Rightarrow> host_op list \<Rightarrow> hosts" where
  "registered quote ops = foldl (\<lambda>hs op. snd (register quote op hs)) empty_hosts ops"

definition mentioned :: "host_op \<Rightarrow> host_type list" where
  "mentioned op = concat (map subtypes (op_types op))"

lemma registered_ok: "\<forall>op \<in> set ops. op_wf op \<Longrightarrow> hosts_ok (registered quote ops)"
proof (induction ops rule: rev_induct)
  case (snoc op ops)
  then have "hosts_ok (registered quote ops)" "op_wf op" by simp_all
  from register_hosts_ok(1) [OF this, of quote] show ?case by (simp add: registered_def) (metis prod.collapse)
qed (simp add: registered_def hosts_ok_empty)

lemma mentioned_in_table:
  assumes "hosts_ok hs" and "bt_get (operations hs) m = Some op" and "u \<in> set (mentioned op)" and "nominal_name u = Some n"
  shows "bt_get (nominal hs) n = Some u"
  using assms bt_get_in_set [OF assms(2)] unfolding hosts_ok_def mentioned_def by fastforce

text \<open>
  C15. Registering an operation keeps the registry well formed, whatever the outcome: a
  rejected operation changes nothing, an accepted one was not there before and is found
  under its name, and the other operations stay as they were.
\<close>

theorem register_keeps:
  assumes "hosts_ok hs" and "op_wf op" and "register quote op hs = (r, hs')"
  shows "hosts_ok hs' \<and>
    (if r = Ok ()
     then bt_get (operations hs) (op_name op) = None \<and>
          (\<forall>n. bt_get (operations hs') n = (if n = op_name op then Some op else bt_get (operations hs) n))
     else hs' = hs)"
  using register_hosts_ok(1) [OF assms] register_effect [OF assms(3)] by blast

theorem register_keeps_witness:
  "hosts_ok demo_hosts \<and>
    (if Ok () = Ok ()
     then bt_get (operations empty_hosts) (op_name demo_op) = None \<and>
          (\<forall>n. bt_get (operations demo_hosts) n =
             (if n = op_name demo_op then Some demo_op else bt_get (operations empty_hosts) n))
     else demo_hosts = empty_hosts)"
  by (rule register_keeps [OF hosts_ok_empty demo_op_wf demo_register])


definition other_color :: host_type where
  "other_color = HT_Enum ''Color'' [(''Green'', None)]"

definition other_op :: host_op where
  "other_op = demo_op\<lparr>op_name := ''tint'', op_args := [other_color]\<rparr>"


section \<open>Types and calls\<close>

text \<open>
  C14. The validation of a type, whatever handle names it has met before, accepts exactly the
  types whose names are admissible, whose enums have distinct cases, at least one, and whose
  nesting stays within 64 levels.
\<close>

theorem validate_exact: "fst (ht_validate 0 t names) = Ok () \<longleftrightarrow> ht_valid t \<and> ht_fits 0 t"
  by (rule ht_validate_Ok)

text \<open>
  C13. Normalising an accepted value for a valid type never panics; the result is accepted
  too, and it is a normal form: normalising it again changes nothing.
\<close>

theorem normalize_accepted:
  assumes "ht_wf t" and "ht_valid t" and "hv_wf v" and "accepts t v"
  shows "\<exists>v'. normalize t v = Ok v' \<and> accepts t v' \<and> normalize t v' = Ok v'"
  using normalize_norm_ok [OF assms] by (auto simp: norm_ok_def)

definition demo_rec_type :: host_type where
  "demo_rec_type = HT_Record [(''alt'', HT_Option HT_String), (''tags'', HT_Strings)]"

theorem normalize_accepted_witness:
  "\<exists>v'. normalize demo_rec_type (HV_Record [(''tags'', HV_List [HV_String ''a''])]) = Ok v' \<and>
     accepts demo_rec_type v' \<and> normalize demo_rec_type v' = Ok v'"
  by (rule normalize_accepted; code_simp)

text \<open>
  C12. A call that goes through hands the operation's handler exactly one argument per
  declared parameter, each of the declared type and in its normal form, with the defaults in
  place of those omitted; a synchronous operation never answers with a future.
\<close>

theorem call_typed:
  assumes ok: "hosts_ok hs" and args: "\<forall>v \<in> set args. hv_wf v"
    and run: "host_call hs now name args c = (Ok (reply, op), c')"
  shows "bt_get (operations hs) name = Some op \<and>
    (\<exists>vs evs. handler op now vs = (reply, evs) \<and> c' = host_events evs c \<and>
       length vs = length (op_args op) \<and> (\<forall>(t, v) \<in> set (zip (op_args op) vs). accepts t v)) \<and>
    (\<not> op_async op \<longrightarrow> (\<exists>r. reply = Reply_Ready r))"
proof -
  obtain vs evs where op: "bt_get (operations hs) name = Some op" and vs: "call_args op args = Ok vs"
    and h: "handler op now vs = (reply, evs)" and c': "c' = host_events evs c"
    and sync: "\<not> op_async op \<longrightarrow> (\<exists>r. reply = Reply_Ready r)"
    using run
    by (auto simp: host_call_def host_operation_def ok_or_def Let_def res_bind_Ok_iff
        split: res.splits prod.splits host_reply.splits if_splits option.splits)
  have "op_ok op" using ok bt_get_in_set [OF op] unfolding hosts_ok_def by fast
  from call_args_ok(2) [OF this args vs] op h c' sync show ?thesis by blast
qed

theorem call_typed_witness:
  "\<exists>vs. fst (handler demo_op 0 vs) = Reply_Ready (Inr HV_Unit) \<and> length vs = 2 \<and>
     list_all (\<lambda>(t, v). accepts t v) (zip (op_args demo_op) vs)"
proof -
  let ?args = "[HV_Enum (brand ''Color'') ''Red'' None, HV_Unit]"
  have "call_args demo_op ?args = Ok [HV_Enum (brand ''Color'') ''Red'' None, HV_Option None]"
    by code_simp
  then have "host_call demo_hosts 0 ''paint'' ?args (new_context 0) =
      (Ok (Reply_Ready (Inr HV_Unit), demo_op), new_context 0)"
    by (simp add: host_call_def host_operation_def demo_hosts_eq ok_or_def bt_get_def)
       (simp add: demo_op_def host_events_def)
  from call_typed [OF demo_hosts_ok _ this]
  have "\<exists>vs evs. handler demo_op 0 vs = (Reply_Ready (Inr HV_Unit), evs) \<and>
      length vs = length (op_args demo_op) \<and> (\<forall>(t, v) \<in> set (zip (op_args demo_op) vs). accepts t v)"
    by auto
  moreover have "length (op_args demo_op) = 2" by (simp add: demo_op_def)
  ultimately show ?thesis unfolding list_all_iff by (metis fst_conv)
qed

end
