(* ===== verification/HeapTriples.thy ===== *)
theory HeapTriples
  imports HeapInv
begin

text \<open>
  The contract of the heap as its clients use it: the locale of triples interpreted on the
  heap's invariant, one triple per operation, and with them the routines that only work on
  the heap: building enums and newtypes.
\<close>

context hoare
begin

lemma triple_val:
  assumes "v = V_Unit \<Longrightarrow> triple P m1 Q" and "v = V_Uninitialized \<Longrightarrow> triple P m2 Q"
    and "\<And>d. v = V_Descriptor d \<Longrightarrow> triple P (m3 d) Q" and "\<And>n. v = V_Number n \<Longrightarrow> triple P (m4 n) Q"
    and "\<And>b. v = V_Bool b \<Longrightarrow> triple P (m5 b) Q" and "\<And>s. v = V_String s \<Longrightarrow> triple P (m6 s) Q"
    and "\<And>bs. v = V_Bytes bs \<Longrightarrow> triple P (m7 bs) Q" and "\<And>x. v = V_Host x \<Longrightarrow> triple P (m8 x) Q"
    and "\<And>hs. v = V_List hs \<Longrightarrow> triple P (m9 hs) Q" and "\<And>r. v = V_Record r \<Longrightarrow> triple P (m10 r) Q"
    and "\<And>m. v = V_Props m \<Longrightarrow> triple P (m11 m) Q" and "\<And>h. v = V_Cell h \<Longrightarrow> triple P (m12 h) Q"
    and "\<And>f cs sl. v = V_Closure f cs sl \<Longrightarrow> triple P (m13 f cs sl) Q"
    and "\<And>x. v = V_Promise x \<Longrightarrow> triple P (m14 x) Q"
  shows "triple P (case_val m1 m2 m3 m4 m5 m6 m7 m8 m9 m10 m11 m12 m13 m14 v) Q"
  using assms by (cases v) simp_all

end

interpretation hh: hoare "heap_ok p" heap_ext for p
  by unfold_locales (auto intro: ext_by_refl ext_by_trans kind0_trans)

lemma hh_stable1: "(\<And>a b. P a \<Longrightarrow> heap_ext1 a b \<Longrightarrow> P b) \<Longrightarrow> hh.stable P"
  unfolding hh.stable_def using heap_ext_ext1 by blast

lemma hh_stable_facts:
  "hh.stable (\<lambda>hp. live hp h)"
  "hh.stable (\<lambda>hp. handles_live hp hs)"
  "hh.stable (\<lambda>hp. shaped hp h v)"
  "hh.stable (\<lambda>hp. is_cell hp h)"
  "hh.stable (\<lambda>hp. is_record hp h)"
  "hh.stable (\<lambda>hp. val_ok p hp v)"
  by (rule hh_stable1, blast intro: live_ext1 handles_live_ext1 shaped_ext1 is_cell_ext1 is_record_ext1 val_ok_ext1)+

lemmas hh_stable = hh_stable_facts hh.stable_const hh.stable_conj hh.stable_imp hh.stable_all hh.stable_ball

section \<open>Primitive operations\<close>

lemma hh_alloc: "hh.triple p (\<lambda>hp. val_ok p hp v) (alloc_m v) (\<lambda>h hp. shaped hp h v)"
proof (rule hh.tripleI)
  fix s r t
  assume a: "heap_ok p s" "val_ok p s v" "alloc_m v s = (r, t)"
  then obtain h where h: "heap_alloc v s = (h, t)" "r = Ok h" by (auto simp: alloc_m_def split: prod.splits)
  note b = heap_ok_alloc [OF a(1,2) h(1)]
  show "heap_ok p t \<and> heap_ext s t \<and> (\<forall>q. r = Panic q \<longrightarrow> excused q) \<and> (\<forall>h. r = Ok h \<longrightarrow> shaped t h v)"
    using b h by (auto simp: shaped_def)
qed

lemma hh_get: "hh.triple p (\<lambda>_. True) (get_m h) (\<lambda>v hp. val_ok p hp v \<and> shaped hp h v)"
proof (rule hh.tripleI)
  fix s r t
  assume a: "heap_ok p s" "get_m h s = (r, t)"
  then show "heap_ok p t \<and> heap_ext s t \<and> (\<forall>q. r = Panic q \<longrightarrow> excused q) \<and>
      (\<forall>v. r = Ok v \<longrightarrow> val_ok p t v \<and> shaped t h v)"
    by (auto simp: get_m_def shaped_def hh.ext_refl dest: heap_okD)
qed

lemma hh_observe: "hh.triple p (\<lambda>_. True) (heap_observe h rd) (\<lambda>_ _. True)"
  by (rule hh.tripleI) (use heap_ok_observe in blast)

lemma hh_volatile: "hh.triple p (\<lambda>_. True) (modify heap_volatile) (\<lambda>_ _. True)"
  by (rule hh.triple_modify) (use heap_ok_same same_values_volatile same_reads_write(3) in blast)

lemma hh_replace_cell:
  "hh.triple p (\<lambda>hp. is_cell hp h \<and> live hp c) (replace_m h (V_Cell c)) (\<lambda>_ _. True)"
proof (rule hh.tripleI)
  fix s r t
  assume a: "heap_ok p s" "is_cell s h \<and> live s c" "replace_m h (V_Cell c) s = (r, t)"
  from heap_replace_cases [of h "V_Cell c" s r t] a(3) obtain u hp1 where
    b: "heap_get s h = Ok u" "same_values hp1 s" "same_reads hp1 s" "r = Ok ()" "t = heap_put h (V_Cell c) hp1"
    using a(2) by (auto simp: replace_m_def is_cell_def)
  note c = heap_ok_same [OF a(1) b(2,3)]
  have g: "heap_get hp1 h = Ok u" using b(1) same_values_get [OF b(2)] by simp
  have k: "kind0 u (V_Cell c)" using a(2) b(1) by (auto simp: is_cell_def kind0_def)
  have l: "val_ok p hp1 (V_Cell c)" using a(2) live_ext1 [OF _ heap_ext_ext1 [OF c(2)]] by simp
  note d = heap_ok_put [OF c(1) g k l]
  show "heap_ok p t \<and> heap_ext s t \<and> (\<forall>q. r = Panic q \<longrightarrow> excused q) \<and> (\<forall>a. r = Ok a \<longrightarrow> True)"
    using d hh.ext_trans [OF c(2) d(2)] b by simp
qed

lemma hh_get_mut: "hh.triple p (\<lambda>_. True) (get_mut_m h) (\<lambda>v hp. val_ok p hp v \<and> heap_get hp h = Ok v)"
proof (rule hh.tripleI)
  fix s r t
  assume a: "heap_ok p s" "get_mut_m h s = (r, t)"
  then have run: "heap_get_mut h s = (r, t)" by (simp add: get_mut_m_def)
  note b = heap_get_mut_cases [OF run]
  note c = heap_ok_same [OF a(1) b(1,2)]
  show "heap_ok p t \<and> heap_ext s t \<and> (\<forall>q. r = Panic q \<longrightarrow> excused q) \<and>
      (\<forall>v. r = Ok v \<longrightarrow> val_ok p t v \<and> heap_get t h = Ok v)"
    using b(3) c same_values_get [OF b(1)] heap_okD [OF c(1), of h] by auto
qed

lemma hh_put:
  "hh.triple p (\<lambda>hp. (\<exists>u. heap_get hp h = Ok u \<and> kind0 u v) \<and> val_ok p hp v) (modify (heap_put h v)) (\<lambda>_ _. True)"
  by (rule hh.triple_modify) (use heap_ok_put in blast)

lemma hh_with_list:
  assumes st: "hh.stable P"
    and f: "\<And>hp xs ys a. heap_ok p hp \<Longrightarrow> P hp \<Longrightarrow> handles_live hp xs \<Longrightarrow> f xs = (ys, a) \<Longrightarrow>
      handles_live hp ys \<and> R a hp"
    and R: "\<And>a. hh.stable (R a)"
  shows "hh.triple p P (with_list l e f) R"
proof (rule hh.tripleI)
  fix s r t
  assume a: "heap_ok p s" "P s" "with_list l e f s = (r, t)"
  obtain r1 s1 where g: "get_mut_m l s = (r1, s1)" by fastforce
  note d = hh.triple_D [OF hh_get_mut a(1) TrueI g]
  have P1: "P s1" using st a(2) d(2) unfolding hh.stable_def by blast
  have base: "heap_ok p s1 \<and> heap_ext s s1 \<and> (\<forall>q. r1 = Panic q \<longrightarrow> excused q)" using d(1-3) by blast
  show "heap_ok p t \<and> heap_ext s t \<and> (\<forall>q. r = Panic q \<longrightarrow> excused q) \<and> (\<forall>a. r = Ok a \<longrightarrow> R a t)"
  proof (cases "\<exists>xs. r1 = Ok (V_List xs)")
    case True
    then obtain xs where xs: "r1 = Ok (V_List xs)" by blast
    obtain ys x where f': "f xs = (ys, x)" by fastforce
    have v: "val_ok p s1 (V_List xs) \<and> heap_get s1 l = Ok (V_List xs)" by (rule d(4) [OF xs])
    then have "handles_live s1 ys \<and> R x s1" using f [OF d(1) P1 _ f'] by simp
    moreover from this have p: "heap_ok p (heap_put l (V_List ys) s1)" "heap_ext s1 (heap_put l (V_List ys) s1)"
      using heap_ok_put [OF d(1), of l "V_List xs" "V_List ys"] v by (auto simp: kind0_def)
    moreover have "r = Ok x" "t = heap_put l (V_List ys) s1"
      using a(3) g xs f' by (auto simp: with_list_def bind_def seq_def modify_def ret_def)
    ultimately show ?thesis using hh.ext_trans [OF d(2) p(2)] R unfolding hh.stable_def by auto
  next
    case False
    then have "t = s1 \<and> ((\<exists>e. r = Err e) \<or> (\<exists>q. r1 = Panic q \<and> r = Panic q))"
      using a(3) g by (auto simp: with_list_def bind_def fail_def split: res.splits val.splits)
    then show ?thesis using base by auto
  qed
qed

lemma hh_query:
  "(\<And>hp. no_panic (f hp)) \<Longrightarrow> hh.triple p (\<lambda>_. True) (heap_query f) (\<lambda>_ _. True)"
  unfolding heap_query_def by (rule hh.triple_query) auto

section \<open>Enums and newtypes\<close>

lemma hh_alloc_newtype: "hh.triple p (\<lambda>hp. val_ok p hp v) (alloc_newtype_m v n) (\<lambda>h hp. live hp h)"
proof (rule hh.tripleI)
  fix s r t
  assume a: "heap_ok p s" "val_ok p s v" "alloc_newtype_m v n s = (r, t)"
  obtain h s1 where h: "heap_alloc v s = (h, s1)" by fastforce
  note b = heap_ok_alloc [OF a(1,2) h]
  have t: "t = s1\<lparr>slots := (slots s1)[index h := (slots s1 ! index h)\<lparr>slot_newtype := Some n\<rparr>]\<rparr>" "r = Ok h"
    using a(3) h by (auto simp: alloc_newtype_m_def heap_alloc_newtype_def)
  have "same_values t s1" unfolding t by (simp add: same_values_def nth_update)
  moreover have "same_reads t s1" by (simp add: t same_reads_def)
  ultimately have c: "heap_ok p t" "heap_ext s1 t" using heap_ok_same [OF b(1)] by auto
  have "live t h" using b(3) live_ext1 [OF _ heap_ext_ext1 [OF c(2)], of h] by (simp add: live_iff)
  then show "heap_ok p t \<and> heap_ext s t \<and> (\<forall>q. r = Panic q \<longrightarrow> excused q) \<and> (\<forall>h. r = Ok h \<longrightarrow> live t h)"
    using c hh.ext_trans [OF b(2) c(2)] t by simp
qed

lemma alloc_enum_m_eq:
  "alloc_enum_m name c i pl =
   bind (alloc_m (V_String c)) (\<lambda>label. bind (alloc_m (V_Number (f64_of_nat i))) (\<lambda>ih.
     alloc_m (V_Record ((case pl of
         None \<Rightarrow> record_from_iter [(''name'', label), (''index'', ih)]
       | Some v \<Rightarrow> rec_put ''value'' v (record_from_iter [(''name'', label), (''index'', ih)]))
       \<lparr>rec_enum_name := Some name\<rparr>))))"
proof (rule ext)
  fix hp
  have "bt_contains (rec_fields (record_from_iter [(''name'', l), (''index'', ih)])) ''value'' = False" for l ih
    by (simp add: record_from_iter_def rec_put_def rec_insert_def Let_def empty_record_def bt_contains_def bt_keys_def
        set_bt_insert del: set_map)
  then show "alloc_enum_m name c i pl hp = bind (alloc_m (V_String c)) (\<lambda>label.
      bind (alloc_m (V_Number (f64_of_nat i))) (\<lambda>ih.
     alloc_m (V_Record ((case pl of
         None \<Rightarrow> record_from_iter [(''name'', label), (''index'', ih)]
       | Some v \<Rightarrow> rec_put ''value'' v (record_from_iter [(''name'', label), (''index'', ih)]))
       \<lparr>rec_enum_name := Some name\<rparr>)))) hp"
    by (cases pl) (auto simp: alloc_enum_m_def heap_alloc_enum_def alloc_m_def bind_def rec_put_def Let_def
        split: prod.splits)
qed

lemma hh_alloc_enum:
  "hh.triple p (\<lambda>hp. \<forall>h. pl = Some h \<longrightarrow> live hp h) (alloc_enum_m name c i pl) (\<lambda>h hp. is_record hp h)"
  unfolding alloc_enum_m_eq
  apply (rule hh.triple_use [OF hh_alloc], (intro hh_stable)[1], simp)
  apply (rule hh.triple_use [OF hh_alloc], (intro hh_stable)[1], simp)
  apply (rule hh.triple_last [OF hh_alloc], (intro hh_stable)[1])
  subgoal premises prems for label ih hp
  proof -
    let ?r = "record_from_iter [(''name'', label), (''index'', ih)]"
    have "record_ok ?r \<and> handles_live hp (bt_values (rec_fields ?r))"
      using prems by (intro record_from_iter_ok) (auto intro: shaped_live)
    then show ?thesis
      using prems rec_put_ok [of ?r "''value''"] rec_put_live [of hp ?r _ "''value''"]
      by (auto simp: record_ok_def split: option.splits)
  qed
  by (simp add: shaped_record)

lemma live_of_record: "is_record hp h \<Longrightarrow> live hp h"
  by (auto simp: is_record_def live_iff)

lemma hh_alloc_live: "hh.triple p (\<lambda>hp. val_ok p hp v) (alloc_m v) (\<lambda>h hp. live hp h)"
  by (rule hh.triple_post [OF hh_alloc]) (rule shaped_live)

lemma hh_alloc_enum_live:
  "hh.triple p (\<lambda>hp. \<forall>h. pl = Some h \<longrightarrow> live hp h) (alloc_enum_m name c i pl) (\<lambda>h hp. live hp h)"
  by (rule hh.triple_post [OF hh_alloc_enum]) (rule live_of_record)

end
