(* ===== verification/JsonTriples.thy ===== *)
theory JsonTriples
  imports HeapTriples
begin

text \<open>
  The triples of the decoder of JSON texts: whatever the text and the shape, it leaves the
  heap well formed, the handle it returns is live, and it panics only where the sources do.
\<close>

section \<open>Decoding JSON\<close>

definition rec_live :: "heap \<Rightarrow> record_value \<Rightarrow> bool" where
  "rec_live hp r \<longleftrightarrow> record_ok r \<and> handles_live hp (bt_values (rec_fields r))"

lemma rec_live_stable: "hh.stable (\<lambda>hp. rec_live hp r)"
  unfolding rec_live_def by (intro hh_stable)

lemma val_ok_rec_live: "val_ok p hp (V_Record r) \<longleftrightarrow> rec_live hp r"
  by (auto simp: rec_live_def)

lemma rec_live_insert:
  assumes "rec_live hp r" and "live hp h"
  shows "rec_live hp (rec_insert n h (r\<lparr>rec_order := rec_order r @ [n]\<rparr>))"
  using assms bt_values_insert [of n h "rec_fields r"]
  by (auto simp: rec_live_def rec_insert_def record_ok_def bt.keys_insert bt.inv_insert handles_live_def)

lemma rec_live_extend:
  assumes "rec_live hp r" and "handles_live hp (bt_values m)"
  shows "rec_live hp (r\<lparr>rec_fields := bt_extend (rec_fields r) m\<rparr>)"
  using assms subsetD [OF bt_values_extend [of "rec_fields r" m]]
  by (auto simp: rec_live_def record_ok_def bt_inv_extend bt_keys_extend handles_live_def simp flip: bt_values_def)

lemmas hh_stable2 = hh_stable rec_live_stable

lemma decode_fields_triple:
  assumes "\<And>n s j q. (n, s) \<in> set fs \<Longrightarrow> hh.triple p (\<lambda>_. True) (dec j s q) (\<lambda>h hp. live hp h)"
  shows "hh.triple p (\<lambda>hp. rec_live hp r) (decode_fields dec path fs obj r) (\<lambda>r' hp. rec_live hp r')"
  using assms
proof (induction fs arbitrary: r)
  case Nil
  show ?case by (simp add: hh.triple_ret)
next
  case (Cons f fs)
  obtain n s where f: "f = (n, s)" by fastforce
  have IH: "hh.triple p (\<lambda>hp. rec_live hp r') (decode_fields dec path fs obj r') (\<lambda>r' hp. rec_live hp r')" for r'
  proof (rule Cons.IH)
    fix n s j q assume "(n, s) \<in> set fs"
    then show "hh.triple p (\<lambda>_. True) (dec j s q) (\<lambda>h hp. live hp h)"
      by (intro Cons.prems [where n = n]) simp
  qed
  have d: "hh.triple p (\<lambda>_. True) (dec j s q) (\<lambda>h hp. live hp h)" for j q
    by (rule Cons.prems [of n]) (simp add: f)
  show ?case
  proof (cases "bt_get obj n")
    case None
    then show ?thesis by (simp add: f Let_def hh.triple_fail)
  next
    case (Some j)
    show ?thesis
      unfolding f decode_fields.simps Let_def Some option.case
      by (rule hh.triple_use [OF d], rule rec_live_stable, simp, rule hh.triple_pre [OF IH])
         (simp add: rec_live_insert)
  qed
qed

lemma decode_items_triple:
  assumes "\<And>j s q. (j, s) \<in> set js \<Longrightarrow> hh.triple p (\<lambda>_. True) (dec j s q) (\<lambda>h hp. live hp h)"
  shows "hh.triple p (\<lambda>_. True) (decode_items dec path i js) (\<lambda>hs hp. handles_live hp hs)"
  using assms
proof (induction js arbitrary: i)
  case Nil
  show ?case by (simp add: hh.triple_ret)
next
  case (Cons x js)
  obtain j s where x: "x = (j, s)" by fastforce
  have IH: "hh.triple p (\<lambda>_. True) (decode_items dec path i js) (\<lambda>hs hp. handles_live hp hs)" for i
    by (rule Cons.IH, rule Cons.prems) simp
  have d: "hh.triple p (\<lambda>_. True) (dec j s q) (\<lambda>h hp. live hp h)" for q
    by (rule Cons.prems) (simp add: x)
  show ?case
    unfolding x decode_items.simps
    by (rule hh.triple_use [OF d], intro hh_stable, simp,
        rule hh.triple_use [OF IH], intro hh_stable, simp, rule hh.triple_ret) simp
qed

lemma union_match_triple:
  assumes "\<And>m. m \<in> set ms \<Longrightarrow> hh.triple p (\<lambda>_. True) (dec m) (\<lambda>h hp. live hp h)"
  shows "hh.triple p (\<lambda>hp. \<forall>h. found = Some h \<longrightarrow> live hp h) (union_match dec path found ms) (\<lambda>h hp. live hp h)"
  using assms
proof (induction ms arbitrary: found)
  case Nil
  show ?case by (cases found) (simp_all add: hh.triple_fail hh.triple_ret)
next
  case (Cons m ms)
  have IH: "hh.triple p (\<lambda>hp. \<forall>h. f = Some h \<longrightarrow> live hp h) (union_match dec path f ms) (\<lambda>h hp. live hp h)" for f
    by (rule Cons.IH) (simp add: Cons.prems)
  have d: "hh.triple p (\<lambda>_. True) (dec m) (\<lambda>h hp. live hp h)" by (rule Cons.prems) simp
  have st: "hh.stable (\<lambda>hp. \<forall>h. found = Some h \<longrightarrow> live hp h)" by (intro hh_stable)
  show ?case
  proof (rule hh.tripleI)
    fix s r t
    assume a: "heap_ok p s" "\<forall>h. found = Some h \<longrightarrow> live s h" "union_match dec path found (m # ms) s = (r, t)"
    obtain r1 s1 where run: "dec m s = (r1, s1)" by fastforce
    note D = hh.triple_D [OF d a(1) TrueI run]
    have P1: "\<forall>h. found = Some h \<longrightarrow> live s1 h" using st a(2) D(2) unfolding hh.stable_def by blast
    have next_ok: "heap_ok p t \<and> heap_ext s t \<and> (\<forall>q. r = Panic q \<longrightarrow> excused q) \<and> (\<forall>a. r = Ok a \<longrightarrow> live t a)"
      if "union_match dec path f ms s1 = (r, t)" "\<forall>h. f = Some h \<longrightarrow> live s1 h" for f
      using hh.triple_D [OF IH D(1) that(2,1)] hh.ext_trans [OF D(2)] by blast
    show "heap_ok p t \<and> heap_ext s t \<and> (\<forall>q. r = Panic q \<longrightarrow> excused q) \<and> (\<forall>a. r = Ok a \<longrightarrow> live t a)"
    proof (cases r1)
      case (Ok h)
      show ?thesis
      proof (cases found)
        case None
        then show ?thesis using next_ok [of "Some h"] a(3) run Ok D(4) by simp
      next
        case (Some h')
        then show ?thesis using a(3) run Ok D(1,2) by auto
      qed
    next
      case (Err e)
      then show ?thesis using next_ok [of found] a(3) run P1 by (cases found) simp_all
    next
      case (Panic q)
      then show ?thesis using a(3) run D(1,2) D(3) [of q] by (cases found) auto
    qed
  qed
qed

lemma add_methods_triple:
  "hh.triple p (\<lambda>hp. rec_live hp r) (add_methods fac ident r) (\<lambda>r' hp. rec_live hp r')"
  unfolding add_methods_def
  apply (rule hh.triple_use [OF hh_get], rule rec_live_stable, simp)
  subgoal for t
    apply (cases t; simp add: hh.triple_fail)
    subgoal for table
      apply (cases "rec_get table ident"; simp)
       apply (rule hh.triple_ret, simp)
      subgoal for m
        apply (rule hh.triple_use [OF hh_get], intro hh_stable2, simp)
        subgoal for v by (cases v; simp add: hh.triple_fail; rule hh.triple_ret; simp add: rec_live_extend)
        done
      done
    done
  done

lemma rec_live_empty:
  "rec_live hp (empty_record\<lparr>rec_struct_name := a, rec_struct_identity := b, rec_embeds := c\<rparr>)"
  "rec_live hp empty_record"
  by (simp_all add: rec_live_def record_ok_def empty_record_def bt.inv_empty bt_values_def)

lemma decode_triple: "hh.triple p (\<lambda>_. True) (decode fac j s path) (\<lambda>h hp. live hp h)"
proof (induction fac j s path rule: decode.induct)
  case (1 fac j kind path)
  have e: "hh.triple p (\<lambda>_. True) (alloc_enum_m ''Option'' ''None'' 1 None) (\<lambda>h hp. live hp h)"
    by (rule hh.triple_pre [OF hh_alloc_enum_live]) simp
  have a: "hh.triple p (\<lambda>_. True) (alloc_m v) (\<lambda>h hp. live hp h)" if "\<And>hp. val_ok p hp v" for v
    by (rule hh.triple_pre [OF hh_alloc_live]) (rule that)
  show ?case by (cases j) (simp_all add: a e [simplified] mismatch_at_def hh.triple_fail)
next
  case (2 fac j el path)
  show ?case
  proof (cases j)
    case (J_Array items)
    have "hh.triple p (\<lambda>_. True) (decode_items (\<lambda>j _. decode fac j el) path 0 (map (\<lambda>i. (i, el)) items))
      (\<lambda>hs hp. handles_live hp hs)"
      by (rule decode_items_triple) (use 2 J_Array in auto)
    then show ?thesis
      unfolding decode.simps J_Array json.case
      by (rule hh.triple_use) (auto intro!: hh_stable hh.triple_pre [OF hh_alloc_live])
  qed (simp_all add: mismatch_at_def hh.triple_fail)
next
  case (3 fac j els path)
  show ?case
  proof (cases j)
    case (J_Array items)
    have "hh.triple p (\<lambda>_. True) (decode_items (decode fac) path 0 (zip items els)) (\<lambda>hs hp. handles_live hp hs)"
      if "length items = length els"
      by (rule decode_items_triple) (use 3 J_Array that in auto)
    then show ?thesis
      unfolding decode.simps J_Array json.case
      by (auto simp: mismatch_at_def hh.triple_fail intro!: hh.triple_use [of p "\<lambda>_. True"] hh_stable
          hh.triple_pre [OF hh_alloc_live])
  qed (simp_all add: mismatch_at_def hh.triple_fail)
next
  case (4 fac j fs path)
  show ?case
  proof (cases j)
    case (J_Object obj)
    have "hh.triple p (\<lambda>hp. rec_live hp empty_record) (decode_fields (decode fac) path fs obj empty_record)
      (\<lambda>r hp. rec_live hp r)"
      by (rule decode_fields_triple) (use 4 J_Object in auto)
    then show ?thesis
      unfolding decode.simps J_Object json.case
      by (rule hh.triple_use) (auto intro!: hh_stable hh.triple_pre [OF hh_alloc_live] simp: rec_live_empty rec_live_def record_ok_def empty_record_def bt.inv_empty bt_values_def)
  qed (simp_all add: mismatch_at_def hh.triple_fail)
next
  case (5 fac j name ident fs embeds path)
  show ?case
  proof (cases j)
    case (J_Object w)
    show ?thesis
    proof (cases "\<exists>obj. bt_get w name = Some (J_Object obj)")
      case True
      then obtain obj where obj: "bt_get w name = Some (J_Object obj)" by blast
      let ?r0 = "empty_record\<lparr>rec_struct_name := Some name, rec_struct_identity := Some ident, rec_embeds := embeds\<rparr>"
      have d: "hh.triple p (\<lambda>hp. rec_live hp ?r0) (decode_fields (decode fac) (path @ ''.'' @ name) fs obj ?r0)
        (\<lambda>r hp. rec_live hp r)"
        by (rule decode_fields_triple) (use 5 J_Object obj in auto)
      show ?thesis
        unfolding decode.simps J_Object json.case obj option.case
        apply (rule hh.triple_use [OF d], (intro hh_stable)[1], (rule rec_live_empty)[1])
        apply (rule hh.triple_use [OF add_methods_triple], (intro hh_stable2)[1], simp)
        by (rule hh.triple_pre [OF hh_alloc_live]) (simp add: rec_live_def)
    next
      case False
      then show ?thesis
        by (auto simp: J_Object mismatch_at_def hh.triple_fail split: option.splits json.splits)
    qed
  qed (simp_all add: mismatch_at_def hh.triple_fail)
next
  case (6 fac j inner path)
  have n: "hh.triple p (\<lambda>_. True) (alloc_enum_m ''Option'' ''None'' 1 None) (\<lambda>h hp. live hp h)"
    by (rule hh.triple_pre [OF hh_alloc_enum_live]) simp
  have s: "hh.triple p (\<lambda>_. True) (bind (decode fac j inner path) (\<lambda>h. alloc_enum_m ''Option'' ''Some'' 0 (Some h)))
    (\<lambda>h hp. live hp h)" if "j \<noteq> J_Null"
  proof -
    have "hh.triple p (\<lambda>_. True) (decode fac j inner path) (\<lambda>h hp. live hp h)"
      using 6 that by (cases j) simp_all
    then show ?thesis
      by (rule hh.triple_use) (auto intro!: hh_stable hh.triple_pre [OF hh_alloc_enum_live])
  qed
  show ?case using n s by (cases j) simp_all
next
  case (7 fac j name cases path)
  show ?case
  proof (cases j)
    case (J_Object obj)
    show ?thesis
    proof (cases "\<exists>c. bt_get obj ''tag'' = Some (J_String c)")
      case True
      then obtain c where c: "bt_get obj ''tag'' = Some (J_String c)" by blast
      show ?thesis
      proof (cases "find (\<lambda>(i, label, _). label = c) (enumerate 0 cases)")
        case None
        then show ?thesis by (simp add: J_Object c hh.triple_fail)
      next
        case (Some x)
        obtain i l o' where x: "x = (i, l, o')" by (cases x)
        show ?thesis
        proof (cases o')
          case None
          have "hh.triple p (\<lambda>_. True) (alloc_enum_m name c i None) (\<lambda>h hp. live hp h)"
            by (rule hh.triple_pre [OF hh_alloc_enum_live]) simp
          then show ?thesis by (simp add: J_Object c Some x None hh.triple_fail)
        next
          case s: (Some sh)
          have d: "hh.triple p (\<lambda>_. True) (decode fac v sh (path @ ''.value'')) (\<lambda>h hp. live hp h)"
            if "bt_get obj ''value'' = Some v" for v
            by (rule 7 [OF J_Object c refl Some x [symmetric] refl s that])
          have "hh.triple p (\<lambda>_. True) (bind (decode fac v sh (path @ ''.value'')) (\<lambda>h. alloc_enum_m name c i (Some h)))
            (\<lambda>h hp. live hp h)" if "bt_get obj ''value'' = Some v" for v
            by (rule hh.triple_use [OF d [OF that]]) (auto intro!: hh_stable hh.triple_pre [OF hh_alloc_enum_live])
          then show ?thesis
            by (cases "bt_get obj ''value''") (simp_all add: J_Object c Some x s hh.triple_fail)
        qed
      qed
    next
      case False
      then show ?thesis by (auto simp: J_Object hh.triple_fail split: option.splits json.splits)
    qed
  qed (simp_all add: mismatch_at_def hh.triple_fail)
next
  case (8 fac j name repr path)
  show ?case
    unfolding decode.simps
    apply (rule hh.triple_use [OF 8], (intro hh_stable)[1], simp)
    apply (rule hh.triple_use [OF hh_get], (intro hh_stable)[1], simp)
    by (rule hh.triple_pre [OF hh_alloc_newtype]) simp
next
  case (9 fac j members path)
  show ?case
    unfolding decode.simps
    by (rule hh.triple_pre [OF union_match_triple]) (use 9 in auto)
qed

lemma json_parse_triple: "hh.triple p (\<lambda>_. True) (json_parse rd text s fac) (\<lambda>h hp. live hp h)"
  by (simp add: json_parse_def decode_triple hh.triple_fail split: sum.splits)

end
