(* ===== verification/VmStep.thy ===== *)
theory VmStep
  imports VmOps
begin

text \<open>
  One step of the virtual machine (\<open>Vm::step\<close> in \<open>crates/deka_vm/src/machine.rs\<close>): the
  instruction at the top frame's instruction pointer, one definition per instruction or
  group of instructions, composed by \<open>step\<close>. The state of a step is the machine and the
  call stack of the task that runs.
\<close>

type_synonym mst = "vm \<times> frame list"

section \<open>The top frame\<close>

definition on_vm :: "(vm, 'a) rm \<Rightarrow> (mst, 'a) rm" where
  "on_vm m = zoom fst (\<lambda>v s. (v, snd s)) m"

definition on_vheap :: "(heap, 'a) rm \<Rightarrow> (mst, 'a) rm" where
  "on_vheap m = on_vm (on_heap m)"

definition top_frame :: "(mst, frame) rm" where
  "top_frame s = (case snd s of [] \<Rightarrow> (Err ''empty call stack'', s) | f # _ \<Rightarrow> (Ok f, s))"

definition set_top :: "frame \<Rightarrow> (mst, unit) rm" where
  "set_top f s = (case snd s of [] \<Rightarrow> (Err ''empty call stack'', s) | _ # fs \<Rightarrow> (Ok (), (fst s, f # fs)))"

definition push :: "handle \<Rightarrow> (mst, unit) rm" where
  "push h = bind top_frame (\<lambda>f. set_top (f\<lparr>stack := h # stack f\<rparr>))"

definition pop_operand :: "(mst, handle) rm" where
  "pop_operand = bind top_frame (\<lambda>f. case stack f of
       [] \<Rightarrow> fail ''operand stack underflow''
     | h # st \<Rightarrow> seq (set_top (f\<lparr>stack := st\<rparr>)) (ret h))"

fun pop_many :: "nat \<Rightarrow> (mst, handle list) rm" where
  "pop_many 0 = ret []"
| "pop_many (Suc n) = bind pop_operand (\<lambda>h. bind (pop_many n) (\<lambda>hs. ret (h # hs)))"

text \<open>\<open>arguments\<close>: the operands in the order they were pushed.\<close>

definition arguments :: "nat \<Rightarrow> (mst, handle list) rm" where
  "arguments n = bind (pop_many n) (\<lambda>hs. ret (rev hs))"

definition jump :: "nat \<Rightarrow> (mst, unit) rm" where
  "jump i = bind top_frame (\<lambda>f. set_top (f\<lparr>ip := i\<rparr>))"

text \<open>\<open>frame.locals[i]\<close> panics out of range.\<close>

definition local_at :: "nat \<Rightarrow> (mst, handle) rm" where
  "local_at i = bind top_frame (\<lambda>f.
     if i < length (frame_locals f) then ret (frame_locals f ! i) else panic ''index out of bounds'')"

definition push_frame :: "frame \<Rightarrow> (mst, unit) rm" where
  "push_frame f = bind (gets snd) (\<lambda>fs.
     if length fs \<ge> 1024 then fail ''call stack limit exceeded''
     else modify (\<lambda>(v, fs). (v, f # fs)))"

definition get_val :: "handle \<Rightarrow> (mst, val) rm" where
  "get_val h = on_vheap (get_m h)"

definition alloc_push :: "val \<Rightarrow> (mst, unit) rm" where
  "alloc_push v = bind (on_vm (vm_alloc v)) push"

definition observe :: "handle \<Rightarrow> read \<Rightarrow> (mst, unit) rm" where
  "observe h r = on_vheap (heap_observe h r)"

definition enter :: "invocation \<Rightarrow> (mst, unit) rm" where
  "enter i = (case i of Inv_Task h \<Rightarrow> push h | Inv_Frame f \<Rightarrow> push_frame f)"

section \<open>Exceptions\<close>

definition stack_truncate :: "nat \<Rightarrow> handle list \<Rightarrow> handle list" where
  "stack_truncate n st = drop (length st - n) st"

fun raise_frames :: "handle \<Rightarrow> frame list \<Rightarrow> vm_step \<times> frame list" where
  "raise_frames value [] = (St_Complete (Out_Thrown value), [])"
| "raise_frames value (f # fs) =
     (case handlers f of
        h # hs \<Rightarrow>
          (St_Continue, f\<lparr>handlers := hs, stack := value # stack_truncate (stack_depth h) (stack f),
                          ip := target h\<rparr> # fs)
      | [] \<Rightarrow> raise_frames value fs)"

definition raise :: "handle \<Rightarrow> (mst, vm_step) rm" where
  "raise value s = (case raise_frames value (snd s) of (st, fs) \<Rightarrow> (Ok st, (fst s, fs)))"

section \<open>Locals and operands\<close>

definition op_dup :: "(mst, unit) rm" where
  "op_dup = bind pop_operand (\<lambda>h. seq (push h) (push h))"

definition op_load :: "nat \<Rightarrow> (mst, unit) rm" where
  "op_load i = bind (local_at i) (\<lambda>l. seq (observe l Read_Cell) (
     bind (get_val l) (\<lambda>v. case v of V_Cell h \<Rightarrow> push h | _ \<Rightarrow> fail ''invalid local cell'')))"

definition op_load_checked :: "nat \<Rightarrow> string \<Rightarrow> (mst, unit) rm" where
  "op_load_checked i message = bind (local_at i) (\<lambda>l. seq (observe l Read_Cell) (
     bind (get_val l) (\<lambda>v. case v of
         V_Cell h \<Rightarrow> bind (get_val h) (\<lambda>w. case w of
             V_Uninitialized \<Rightarrow> fail message
           | _ \<Rightarrow> push h)
       | _ \<Rightarrow> fail ''invalid local cell'')))"

definition op_store :: "nat \<Rightarrow> (mst, unit) rm" where
  "op_store i = bind pop_operand (\<lambda>h. bind (local_at i) (\<lambda>l. on_vheap (replace_m l (V_Cell h))))"

definition op_rebind :: "nat \<Rightarrow> (mst, unit) rm" where
  "op_rebind i =
     bind (on_vm (vm_alloc V_Unit)) (\<lambda>u.
     bind (on_vm (vm_alloc (V_Cell u))) (\<lambda>c.
     bind (local_at i) (\<lambda>_.
     bind top_frame (\<lambda>f. set_top (f\<lparr>frame_locals := (frame_locals f)[i := c]\<rparr>)))))"

section \<open>Operators\<close>

definition op_binary :: "op \<Rightarrow> (mst, unit) rm" where
  "op_binary x = bind pop_operand (\<lambda>hb. bind (get_val hb) (\<lambda>b.
     bind pop_operand (\<lambda>ha. bind (get_val ha) (\<lambda>a.
     bind (lift_res (binary_op x a b)) alloc_push))))"

definition op_neg :: "(mst, unit) rm" where
  "op_neg = bind pop_operand (\<lambda>h. bind (get_val h) (\<lambda>v. case v of
       V_Number n \<Rightarrow> alloc_push (V_Number (f64_neg n))
     | _ \<Rightarrow> fail ''unary - requires a number''))"

definition op_not :: "(mst, unit) rm" where
  "op_not = bind pop_operand (\<lambda>h. bind (get_val h) (\<lambda>v. case v of
       V_Bool b \<Rightarrow> alloc_push (V_Bool (\<not> b))
     | _ \<Rightarrow> fail ''! requires a bool''))"

definition op_newtype :: "string \<Rightarrow> (mst, unit) rm" where
  "op_newtype name = bind pop_operand (\<lambda>h. bind (get_val h) (\<lambda>v.
     bind (on_vheap (alloc_newtype_m v name)) push))"

definition op_get_type :: "(mst, unit) rm" where
  "op_get_type = bind pop_operand (\<lambda>h.
     bind (on_vheap (heap_query (\<lambda>hp. type_of hp h))) (\<lambda>d.
     bind (on_vm (intern_descriptor d)) push))"

definition op_to_string :: "(mst, unit) rm" where
  "op_to_string = bind pop_operand (\<lambda>h. bind (on_vm (value_text h)) (\<lambda>t. alloc_push (V_String t)))"

definition op_to_number :: "(mst, unit) rm" where
  "op_to_number = bind pop_operand (\<lambda>h. bind (get_val h) (\<lambda>v. case v of
       V_Number n \<Rightarrow> alloc_push (V_Number n)
     | V_Bool b \<Rightarrow> alloc_push (V_Number (if b then f64_one else f64_zero))
     | _ \<Rightarrow> fail ''toNumber() only accepts number or bool''))"

definition op_panic :: "(mst, unit) rm" where
  "op_panic = bind pop_operand (\<lambda>h. bind (get_val h) (\<lambda>v. case v of
       V_String message \<Rightarrow> fail message
     | _ \<Rightarrow> fail ''panic() requires a string message''))"

definition op_jump_if_false :: "nat \<Rightarrow> (mst, unit) rm" where
  "op_jump_if_false i = bind pop_operand (\<lambda>h. bind (get_val h) (\<lambda>v. case v of
       V_Bool b \<Rightarrow> if b then ret () else jump i
     | _ \<Rightarrow> fail ''condition must be bool''))"

definition op_jump_if_unit :: "nat \<Rightarrow> (mst, unit) rm" where
  "op_jump_if_unit i = bind pop_operand (\<lambda>h. bind (get_val h) (\<lambda>v.
     if v = V_Unit then jump i else ret ()))"

section \<open>JSON\<close>

definition op_json_stringify :: "json_shape \<Rightarrow> (mst, unit) rm" where
  "op_json_stringify s = bind pop_operand (\<lambda>h.
     bind (gets (\<lambda>st. ext_print (ext_lib (fst st)))) (\<lambda>print.
     bind (on_vheap (heap_query (\<lambda>hp. stringify print hp h s))) (\<lambda>t. alloc_push (V_String t))))"

definition op_jwt_stringify :: "json_shape \<Rightarrow> string \<Rightarrow> (mst, unit) rm" where
  "op_jwt_stringify s error = bind pop_operand (\<lambda>h.
     bind (gets (\<lambda>st. jwt_stringify (ext_print (ext_lib (fst st))) (vheap (fst st)) h s)) (\<lambda>r.
     case r of
       Panic p \<Rightarrow> panic p
     | Ok text \<Rightarrow> bind (on_vm (vm_alloc (V_String text))) (\<lambda>p.
         bind (on_vm (enum_value ''Result'' ''Ok'' 0 (Some p))) push)
     | Err _ \<Rightarrow> bind (on_vm (vm_alloc (V_String error))) (\<lambda>p.
         bind (on_vm (enum_value ''Result'' ''Err'' 1 (Some p))) push)))"

text \<open>\<open>parse_json\<close>: a failed parse is the \<open>Err\<close> case of a language \<open>Result\<close>.\<close>

definition catch_err :: "(heap, 'a) rm \<Rightarrow> (heap, string + 'a) rm" where
  "catch_err m hp = (case m hp of (Ok a, t) \<Rightarrow> (Ok (Inr a), t) | (Err e, t) \<Rightarrow> (Ok (Inl e), t)
     | (Panic p, t) \<Rightarrow> (Panic p, t))"

definition parse_json :: "handle \<Rightarrow> json_shape \<Rightarrow> handle \<Rightarrow> (vm, handle) rm" where
  "parse_json text s factories =
     bind (on_heap (get_m text)) (\<lambda>v. case v of
         V_String t \<Rightarrow>
           bind (gets (\<lambda>v. ext_read (ext_lib v))) (\<lambda>read.
           bind (on_heap (catch_err (json_parse read t s factories))) (\<lambda>r. case r of
               Inr h \<Rightarrow> enum_value ''Result'' ''Ok'' 0 (Some h)
             | Inl e \<Rightarrow> bind (vm_alloc (V_String e)) (\<lambda>h. enum_value ''Result'' ''Err'' 1 (Some h))))
       | _ \<Rightarrow> fail ''JSON.parse requires string input'')"

definition op_json_parse :: "json_shape \<Rightarrow> (mst, unit) rm" where
  "op_json_parse s = bind pop_operand (\<lambda>factories. bind pop_operand (\<lambda>text.
     bind (on_vm (parse_json text s factories)) push))"

definition op_json_parse_result :: "json_shape \<Rightarrow> (mst, unit) rm" where
  "op_json_parse_result s = bind pop_operand (\<lambda>factories. bind pop_operand (\<lambda>result.
     bind (get_val result) (\<lambda>v. case v of
         V_Record r \<Rightarrow>
           if rec_enum_name r \<noteq> Some ''Result'' then fail ''JSON body read requires a nominal Result''
           else bind (of_opt ''JSON body Result has no case'' (rec_get r ''name'')) (\<lambda>c.
                bind (of_opt ''JSON body Result has no payload'' (rec_get r ''value'')) (\<lambda>p.
                bind (get_val c) (\<lambda>cv.
                  if cv = V_String ''Err'' then push result
                  else if cv = V_String ''Ok'' then bind (on_vm (parse_json p s factories)) push
                  else fail ''invalid JSON body Result case'')))
       | _ \<Rightarrow> fail ''JSON body read requires a Result'')))"

section \<open>Enums and matching\<close>

definition op_descriptor :: "type_descriptor \<Rightarrow> (mst, unit) rm" where
  "op_descriptor d = bind (on_vm (intern_descriptor d)) push"

definition op_enum :: "string \<Rightarrow> string \<Rightarrow> nat \<Rightarrow> bool \<Rightarrow> (mst, unit) rm" where
  "op_enum name c i payload =
     bind (if payload then bind pop_operand (\<lambda>h. ret (Some h)) else ret None) (\<lambda>p.
     bind (on_vm (enum_value name c i p)) push)"

definition enum_matches :: "heap \<Rightarrow> val \<Rightarrow> string option \<Rightarrow> string \<Rightarrow> bool" where
  "enum_matches hp v name c =
     (case v of
        V_Record r \<Rightarrow>
          rec_enum_name r \<noteq> None \<and> (name = None \<or> rec_enum_name r = name) \<and>
          (case rec_get r ''name'' of None \<Rightarrow> False | Some l \<Rightarrow> heap_get hp l = Ok (V_String c))
      | _ \<Rightarrow> False)"

definition op_match_enum :: "string option \<Rightarrow> string \<Rightarrow> (mst, unit) rm" where
  "op_match_enum name c = bind pop_operand (\<lambda>h. seq (observe h (Read_Field ''name'')) (
     bind (get_val h) (\<lambda>v. bind (gets (\<lambda>s. enum_matches (vheap (fst s)) v name c)) (\<lambda>m.
     alloc_push (V_Bool m)))))"

definition op_match_struct :: "string \<Rightarrow> (mst, unit) rm" where
  "op_match_struct ident = bind pop_operand (\<lambda>h. bind (get_val h) (\<lambda>v.
     alloc_push (V_Bool (case v of V_Record r \<Rightarrow> rec_struct_identity r = Some ident | _ \<Rightarrow> False))))"

definition op_match_type :: "type_descriptor \<Rightarrow> (mst, unit) rm" where
  "op_match_type expected = bind pop_operand (\<lambda>h.
     bind (on_vheap (heap_query (\<lambda>hp. type_of hp h))) (\<lambda>d. alloc_push (V_Bool (d = expected))))"

definition match_equal :: "val \<Rightarrow> val \<Rightarrow> bool" where
  "match_equal a b =
     (case (a, b) of
        (V_Number m, V_Number n) \<Rightarrow> f64_eq m n
      | (V_String s, V_String t) \<Rightarrow> s = t
      | (V_Bool s, V_Bool t) \<Rightarrow> s = t
      | (V_Unit, V_Unit) \<Rightarrow> True
      | _ \<Rightarrow> False)"

definition op_match_equal :: "(mst, unit) rm" where
  "op_match_equal = bind pop_operand (\<lambda>b. bind pop_operand (\<lambda>a.
     bind (get_val a) (\<lambda>av. bind (get_val b) (\<lambda>bv. alloc_push (V_Bool (match_equal av bv))))))"

definition op_match_tuple :: "nat \<Rightarrow> (mst, unit) rm" where
  "op_match_tuple n = bind pop_operand (\<lambda>h. seq (observe h Read_Length) (
     bind (get_val h) (\<lambda>v.
     alloc_push (V_Bool (case v of V_List items \<Rightarrow> length items = n | _ \<Rightarrow> False)))))"

section \<open>Calls\<close>

definition op_closure :: "nat \<Rightarrow> nat list \<Rightarrow> (mst, unit) rm" where
  "op_closure f cs = bind (mapM local_at cs) (\<lambda>caps. bind top_frame (\<lambda>fr.
     alloc_push (V_Closure f caps (slot_children fr))))"

definition op_slot :: "(mst, unit) rm" where
  "op_slot = bind top_frame (\<lambda>fr. case slot_children fr of
       Some h \<Rightarrow> push h
     | None \<Rightarrow> alloc_push V_Unit)"

definition op_component_call :: "(mst, unit) rm" where
  "op_component_call = bind pop_operand (\<lambda>props. bind pop_operand (\<lambda>callee.
     bind (get_val callee) (\<lambda>v. case v of
         V_Closure f caps _ \<Rightarrow>
           bind (get_val props) (\<lambda>pv. case pv of
               V_Props m \<Rightarrow>
                 bind (on_vm (function_at f)) (\<lambda>fn.
                   if asynchronous fn \<or> parameters fn > 1
                   then fail ''component must be synchronous with zero or one props parameter''
                   else bind (on_vm (vm_frame f caps (if parameters fn = 0 then [] else [props])
                          (bt_get m ''children''))) push_frame)
             | _ \<Rightarrow> fail ''component call requires a props record'')
       | _ \<Rightarrow> fail ''component is not callable'')))"

definition op_call :: "nat \<Rightarrow> (mst, unit) rm" where
  "op_call argc = bind (arguments argc) (\<lambda>args. bind pop_operand (\<lambda>callee.
     bind (get_val callee) (\<lambda>v. case v of
         V_Closure f caps sl \<Rightarrow> bind (on_vm (invoke f caps args sl)) enter
       | _ \<Rightarrow> fail ''value is not callable'')))"

text \<open>\<open>call_value\<close>: as a call, with the callee and arguments at hand.\<close>

definition call_value :: "handle \<Rightarrow> handle list \<Rightarrow> (mst, unit) rm" where
  "call_value callee args = bind (get_val callee) (\<lambda>v. case v of
       V_Closure f caps sl \<Rightarrow> bind (on_vm (invoke f caps args sl)) enter
     | _ \<Rightarrow> fail ''value is not callable'')"

definition read_prop :: "handle option \<Rightarrow> handle list option \<Rightarrow> (mst, unit) rm" where
  "read_prop value then_args =
     (case value of
        None \<Rightarrow> alloc_push V_Unit
      | Some h \<Rightarrow> bind (get_val h) (\<lambda>v. case v of
            V_Closure f caps sl \<Rightarrow>
              bind (on_vm (vm_frame f caps [] sl)) (\<lambda>getter. push_frame (getter\<lparr>then_call := then_args\<rparr>))
          | _ \<Rightarrow> (case then_args of
                Some args \<Rightarrow> call_value h args
              | None \<Rightarrow> push h)))"

definition op_method_call :: "string \<Rightarrow> nat \<Rightarrow> (mst, unit) rm" where
  "op_method_call name argc = bind (arguments argc) (\<lambda>args. bind pop_operand (\<lambda>receiver.
     seq (observe receiver (Read_Field name)) (
     seq (observe receiver (Read_Field (hidden_name name))) (
     bind (get_val receiver) (\<lambda>v. case v of
         V_Props m \<Rightarrow>
           (case bt_get m name of
              None \<Rightarrow> fail ''missing field''
            | Some x \<Rightarrow> read_prop (Some x) (Some args))
       | V_Descriptor d \<Rightarrow>
           if name = ''toString'' \<and> args = [] then alloc_push (V_String (td_name d))
           else fail ''method call requires a record''
       | V_Record r \<Rightarrow>
           bind (case rec_get r (hidden_name name) of
               Some f \<Rightarrow> ret (f, True)
             | None \<Rightarrow> (case rec_get r name of
                   Some f \<Rightarrow> ret (f, False)
                 | None \<Rightarrow> fail ''missing field'')) (\<lambda>(callee, with_receiver).
           bind (get_val callee) (\<lambda>cv. case cv of
               V_Closure f caps sl \<Rightarrow>
                 bind (on_vm (invoke f caps (if with_receiver then receiver # args else args) sl)) enter
             | _ \<Rightarrow> fail ''value is not callable''))
       | _ \<Rightarrow> fail ''method call requires a record'')))))"

section \<open>Host operations and promises\<close>

text \<open>The call of the handler: it runs in the machine's context at the next time.\<close>

definition call_host :: "string \<Rightarrow> host_value list \<Rightarrow> (vm, host_reply \<times> host_op) rm" where
  "call_host name args =
     bind (gets (\<lambda>v. (vm_hosts v, clock v))) (\<lambda>(hs, now).
     seq (modify (\<lambda>v. v\<lparr>clock := Suc (clock v)\<rparr>)) (on_ctx (host_call hs now name args)))"

definition js_error :: "string \<Rightarrow> host_value" where
  "js_error message = HV_Record [(''message'', HV_String message), (''name'', HV_String ''Error'')]"

text \<open>The result of an operation that is ready, as a promise when it is asynchronous.\<close>

definition ready_result :: "string + host_value \<Rightarrow> host_op \<Rightarrow> (vm, handle) rm" where
  "ready_result value op v =
     (case host_result value (op_result op) (result_channel op) (result_error op) v of
        (r, v') \<Rightarrow>
          if op_async op
          then (case r of
                  Panic p \<Rightarrow> (Panic p, v')
                | _ \<Rightarrow> bind (vm_alloc (V_Promise None)) (\<lambda>p.
                    seq (settle_promise p (case r of Ok h \<Rightarrow> Inr (Out_Value h) | Err e \<Rightarrow> Inl e | Panic e \<Rightarrow> Inl e))
                      (ret p)) v')
          else (r, v'))"

definition op_host :: "string \<Rightarrow> nat \<Rightarrow> (mst, vm_step) rm" where
  "op_host name argc =
     seq (on_vheap (modify heap_volatile)) (
     bind (arguments argc) (\<lambda>hs.
     bind (mapM (\<lambda>h. on_vm (to_host h)) hs) (\<lambda>args.
     bind (on_vm (bind (gets vm_hosts) (\<lambda>reg. lift_res (host_operation reg name)))) (\<lambda>op0.
     bind (on_vm (call_host name args)) (\<lambda>(reply, op). case reply of
         Reply_Pending fut \<Rightarrow>
           bind (on_vm (vm_spawn (W_Host \<lparr>hw_future = fut, hw_result = op_result op,
             hw_channel = result_channel op, hw_error = result_error op, hw_job = None,
             hw_ready = False\<rparr>))) (\<lambda>p. seq (push p) (ret St_Continue))
       | Reply_Ready value \<Rightarrow>
           (case value of
              Inl message \<Rightarrow>
                if exception_channel op0
                then bind (on_vm (alloc_host_value (js_error message))) raise
                else bind (on_vm (ready_result value op)) (\<lambda>h. seq (push h) (ret St_Continue))
            | Inr _ \<Rightarrow> bind (on_vm (ready_result value op)) (\<lambda>h. seq (push h) (ret St_Continue))))))))"

definition op_promise_join :: "promise_join \<Rightarrow> (mst, unit) rm" where
  "op_promise_join kind = bind pop_operand (\<lambda>l. bind (on_vm (vm_join kind l)) push)"

definition op_await :: "(mst, vm_step) rm" where
  "op_await = bind pop_operand (\<lambda>p. bind (get_val p) (\<lambda>v. case v of
       V_Promise (Some (Inl e)) \<Rightarrow> fail e
     | V_Promise (Some (Inr (Out_Value h))) \<Rightarrow> seq (push h) (ret St_Continue)
     | V_Promise (Some (Inr (Out_Thrown h))) \<Rightarrow> raise h
     | V_Promise None \<Rightarrow>
         seq (push p) (bind top_frame (\<lambda>f. seq (set_top (f\<lparr>ip := ip f - 1\<rparr>)) (ret (St_Blocked p))))
     | _ \<Rightarrow> fail ''await requires a promise''))"

definition op_handler :: "nat \<Rightarrow> (mst, unit) rm" where
  "op_handler i = bind top_frame (\<lambda>f.
     set_top (f\<lparr>handlers := \<lparr>target = i, stack_depth = length (stack f)\<rparr> # handlers f\<rparr>))"

definition op_end_handler :: "(mst, unit) rm" where
  "op_end_handler = bind top_frame (\<lambda>f. case handlers f of
       [] \<Rightarrow> fail ''missing exception handler''
     | _ # hs \<Rightarrow> set_top (f\<lparr>handlers := hs\<rparr>))"

text \<open>A getter read as a callee calls its result instead of handing it to the caller.\<close>

definition op_return :: "(mst, vm_step) rm" where
  "op_return = bind pop_operand (\<lambda>result. bind top_frame (\<lambda>finished.
     seq (modify (\<lambda>(v, fs). (v, tl fs))) (
       case then_call finished of
         Some args \<Rightarrow> seq (call_value result args) (ret St_Continue)
       | None \<Rightarrow> bind (gets snd) (\<lambda>fs. case fs of
             [] \<Rightarrow> ret (St_Complete (Out_Value result))
           | _ # _ \<Rightarrow> seq (push result) (ret St_Continue)))))"

section \<open>Lists and records\<close>

definition op_list :: "nat \<Rightarrow> (mst, unit) rm" where
  "op_list n = bind (arguments n) (\<lambda>items. alloc_push (V_List items))"

text \<open>A number that can index a list, as \<open>Op::Index\<close> and \<open>Op::IndexSet\<close> check it.\<close>

definition as_index :: "f64 \<Rightarrow> nat res" where
  "as_index n =
     (if \<not> f64_is_finite n \<or> f64_lt n f64_zero \<or> \<not> f64_fract_zero n then Err ''invalid index''
      else Ok (f64_to_u64 n))"

definition op_list_has :: "(mst, unit) rm" where
  "op_list_has = bind pop_operand (\<lambda>ih. bind pop_operand (\<lambda>l. seq (observe l Read_Length) (
     bind (get_val ih) (\<lambda>iv. case iv of
         V_Number n \<Rightarrow> bind (get_val l) (\<lambda>lv. case lv of
             V_List items \<Rightarrow>
               alloc_push (V_Bool (f64_is_finite n \<and> f64_le f64_zero n \<and> f64_fract_zero n \<and>
                 f64_lt n (f64_of_nat (length items))))
           | _ \<Rightarrow> fail ''has requires list'')
       | _ \<Rightarrow> fail ''index must be number''))))"

definition op_list_append :: "(mst, unit) rm" where
  "op_list_append = bind pop_operand (\<lambda>item. bind pop_operand (\<lambda>l. seq (observe l Read_Entity) (
     bind (get_val l) (\<lambda>lv. case lv of
         V_List items \<Rightarrow> alloc_push (V_List (items @ [item]))
       | _ \<Rightarrow> fail ''append requires list''))))"

definition op_props :: "string list \<Rightarrow> (mst, unit) rm" where
  "op_props names = bind (arguments (length names)) (\<lambda>items.
     alloc_push (V_Props (bt_collect (zip names items))))"

definition op_list_extend :: "(mst, unit) rm" where
  "op_list_extend = bind pop_operand (\<lambda>source. bind pop_operand (\<lambda>dest.
     seq (observe source Read_Entity) (seq (observe dest Read_Entity) (
     bind (get_val source) (\<lambda>sv. case sv of
         V_List extra \<Rightarrow> bind (get_val dest) (\<lambda>tv. case tv of
             V_List items \<Rightarrow> alloc_push (V_List (items @ extra))
           | _ \<Rightarrow> fail ''extend requires list'')
       | _ \<Rightarrow> fail ''spread requires a list'')))))"

definition op_record :: "string list \<Rightarrow> (mst, unit) rm" where
  "op_record names = bind (arguments (length names)) (\<lambda>items.
     alloc_push (V_Record (record_from_iter (zip names items))))"

definition op_struct :: "string \<Rightarrow> string option \<Rightarrow> string list \<Rightarrow> string list \<Rightarrow> (mst, unit) rm" where
  "op_struct name ident names embeds = bind (arguments (length names)) (\<lambda>items.
     alloc_push (V_Record \<lparr>rec_fields = bt_collect (zip names items), rec_struct_name = Some name,
       rec_struct_identity = ident, rec_enum_name = None, rec_order = names, rec_embeds = embeds\<rparr>))"

text \<open>The loop over the declared order; \<open>extra.fields[&name]\<close> panics on a missing name.\<close>

fun extend_record :: "record_value \<Rightarrow> string list \<Rightarrow> record_value \<Rightarrow> record_value res" where
  "extend_record extra [] r = Ok r"
| "extend_record extra (n # ns) r =
     (case rec_get extra n of
        None \<Rightarrow> Panic ''no entry found for key''
      | Some h \<Rightarrow> extend_record extra ns (rec_put n h r))"

definition op_record_extend :: "(mst, unit) rm" where
  "op_record_extend = bind pop_operand (\<lambda>source. bind pop_operand (\<lambda>dest.
     seq (observe source Read_Entity) (seq (observe dest Read_Entity) (
     bind (get_val source) (\<lambda>sv. case sv of
         V_Record extra \<Rightarrow> bind (get_val dest) (\<lambda>tv. case tv of
             V_Record r \<Rightarrow> bind (lift_res (extend_record extra (rec_order extra) r)) (\<lambda>r'.
               alloc_push (V_Record r'))
           | _ \<Rightarrow> fail ''extend requires record'')
       | _ \<Rightarrow> fail ''object spread requires a record'')))))"

section \<open>Fields and elements\<close>

definition field_read :: "string \<Rightarrow> handle \<Rightarrow> (mst, read) rm" where
  "field_read name h =
     (if name = ''length''
      then bind (get_val h) (\<lambda>v. ret (case v of V_List _ \<Rightarrow> Read_Length | _ \<Rightarrow> Read_Field name))
      else ret (Read_Field name))"

definition op_field :: "string \<Rightarrow> bool \<Rightarrow> (mst, unit) rm" where
  "op_field name optional_field = bind pop_operand (\<lambda>h.
     bind (field_read name h) (\<lambda>rd. seq (observe h rd) (
     bind (get_val h) (\<lambda>v. case v of
         V_Props m \<Rightarrow> read_prop (bt_get m name) None
       | V_List items \<Rightarrow>
           if name = ''length'' then alloc_push (V_Number (f64_of_nat (length items)))
           else fail ''unsupported field access''
       | V_Bytes bs \<Rightarrow>
           if name = ''length'' then alloc_push (V_Number (f64_of_nat (length bs)))
           else fail ''unsupported field access''
       | V_String s \<Rightarrow>
           if name = ''length'' then alloc_push (V_Number (f64_of_nat (length (utf8_chars s))))
           else fail ''unsupported field access''
       | V_Record _ \<Rightarrow>
           bind (on_vheap (field_owner h name)) (\<lambda>o'. case o' of
               Some owner \<Rightarrow> bind (get_val owner) (\<lambda>ov. case ov of
                   V_Record r \<Rightarrow> bind (of_opt ''missing field'' (rec_get r name)) push
                 | _ \<Rightarrow> panic ''unreachable'')
             | None \<Rightarrow>
                 if optional_field then bind (on_vm (enum_value ''Option'' ''None'' 1 None)) push
                 else fail ''missing field'')
       | _ \<Rightarrow> fail ''unsupported field access''))))"

definition op_field_or_self :: "string \<Rightarrow> (mst, unit) rm" where
  "op_field_or_self name = bind pop_operand (\<lambda>h. seq (observe h (Read_Field name)) (
     bind (get_val h) (\<lambda>v. case v of
         V_Props m \<Rightarrow> (case bt_get m name of Some x \<Rightarrow> read_prop (Some x) None | None \<Rightarrow> push h)
       | V_Record r \<Rightarrow> push (case rec_get r name of Some x \<Rightarrow> x | None \<Rightarrow> h)
       | _ \<Rightarrow> fail ''unsupported field access'')))"

definition op_index :: "(mst, unit) rm" where
  "op_index = bind pop_operand (\<lambda>ih. bind pop_operand (\<lambda>object.
     bind (get_val ih) (\<lambda>iv. case iv of
         V_Number n \<Rightarrow>
           bind (lift_res (as_index n)) (\<lambda>i. seq (observe object (Read_Index i)) (
           bind (get_val object) (\<lambda>v. case v of
               V_List items \<Rightarrow>
                 if i < length items then push (items ! i) else fail ''index out of bounds''
             | V_Bytes bs \<Rightarrow>
                 if i < length bs then alloc_push (V_Number (f64_of_nat (unat (bs ! i))))
                 else fail ''index out of bounds''
             | V_String s \<Rightarrow>
                 if i < length (utf8_chars s) then alloc_push (V_String (utf8_chars s ! i))
                 else fail ''index out of bounds''
             | _ \<Rightarrow> fail ''index requires a list or string'')))
       | _ \<Rightarrow> fail ''index must be number'')))"

definition op_field_set :: "string \<Rightarrow> (mst, unit) rm" where
  "op_field_set name = bind pop_operand (\<lambda>value. bind pop_operand (\<lambda>object0.
     bind (on_vheap (field_owner object0 name)) (\<lambda>o'.
     let object = (case o' of Some w \<Rightarrow> w | None \<Rightarrow> object0) in
     bind (on_vheap (get_mut_m object)) (\<lambda>v. case v of
         V_Record r \<Rightarrow>
           seq (on_vheap (modify (heap_put object (V_Record (rec_put name value r))))) (push value)
       | _ \<Rightarrow> fail ''Cannot assign to read only property''))))"

definition op_index_set :: "(mst, unit) rm" where
  "op_index_set = bind pop_operand (\<lambda>value. bind pop_operand (\<lambda>ih. bind pop_operand (\<lambda>object.
     bind (get_val ih) (\<lambda>iv. case iv of
         V_Number n \<Rightarrow>
           bind (lift_res (as_index n)) (\<lambda>i.
           bind (on_vheap (get_mut_m object)) (\<lambda>v. case v of
               V_List items \<Rightarrow>
                 if i < length items
                 then seq (on_vheap (modify (heap_put object (V_List (items[i := value]))))) (push value)
                 else fail ''index out of bounds''
             | V_String _ \<Rightarrow> fail ''Cannot assign to read only property''
             | _ \<Rightarrow> fail ''index assignment requires a list''))
       | _ \<Rightarrow> fail ''index must be number''))))"

section \<open>List built-ins\<close>

definition pop_number :: "(mst, f64) rm" where
  "pop_number = bind pop_operand (\<lambda>h. bind (get_val h) (\<lambda>v. case v of
       V_Number n \<Rightarrow> ret n
     | _ \<Rightarrow> fail ''list built-in index must be number''))"

definition list_push :: "list_mut \<Rightarrow> (mst, unit) rm" where
  "list_push kind = bind pop_operand (\<lambda>value. bind pop_operand (\<lambda>l.
     bind (on_vheap (case kind of
         LM_Unshift \<Rightarrow> with_list l ''unshift requires list'' (\<lambda>xs. (value # xs, Suc (length xs)))
       | _ \<Rightarrow> with_list l ''push requires list'' (\<lambda>xs. (xs @ [value], Suc (length xs)))))
       (\<lambda>n. alloc_push (V_Number (f64_of_nat n)))))"

definition list_take :: "list_mut \<Rightarrow> (mst, unit) rm" where
  "list_take kind = bind pop_operand (\<lambda>l.
     bind (on_vheap (with_list l ''pop/shift requires list'' (\<lambda>xs. case xs of
         [] \<Rightarrow> ([], None)
       | _ # _ \<Rightarrow> (case kind of LM_Pop \<Rightarrow> (butlast xs, Some (last xs)) | _ \<Rightarrow> (tl xs, Some (hd xs))))))
       (\<lambda>taken. case taken of Some h \<Rightarrow> push h | None \<Rightarrow> alloc_push V_Unit))"

definition list_splice :: "(mst, unit) rm" where
  "list_splice = bind pop_number (\<lambda>delete. bind pop_number (\<lambda>start. bind pop_operand (\<lambda>l.
     bind (on_vheap (with_list l ''splice requires list'' (splice_list start delete)))
       (\<lambda>removed. alloc_push (V_List removed)))))"

definition list_sort :: "(mst, unit) rm" where
  "list_sort = bind pop_operand (\<lambda>l. bind (get_val l) (\<lambda>v. case v of
       V_List items \<Rightarrow>
         bind (mapM (\<lambda>h. bind (get_val h) (\<lambda>x. lift_res (sort_key_of x))) items) (\<lambda>keys.
         bind (gets (\<lambda>s. ext_unordered (ext_lib (fst s)))) (\<lambda>unordered.
         bind (lift_res (sort_ranked unordered (zip keys items))) (\<lambda>sorted_items.
         seq (on_vheap (with_list l ''sort requires list'' (\<lambda>_. (sorted_items, ())))) (push l))))
     | _ \<Rightarrow> fail ''sort requires list''))"

definition list_reverse :: "(mst, unit) rm" where
  "list_reverse = bind pop_operand (\<lambda>l.
     seq (on_vheap (with_list l ''reverse requires list'' (\<lambda>xs. (rev xs, ())))) (push l))"

definition list_fill :: "(mst, unit) rm" where
  "list_fill = bind pop_number (\<lambda>start. bind pop_operand (\<lambda>value. bind pop_operand (\<lambda>l.
     seq (on_vheap (with_list l ''fill requires list'' (\<lambda>xs. (fill_list start value xs, ())))) (push l))))"

definition list_copy_within :: "(mst, unit) rm" where
  "list_copy_within = bind pop_number (\<lambda>start. bind pop_number (\<lambda>tgt. bind pop_operand (\<lambda>l.
     seq (on_vheap (with_list l ''copyWithin requires list'' (\<lambda>xs. (copy_within tgt start xs, ())))) (push l))))"

definition list_mut_op :: "list_mut \<Rightarrow> (mst, unit) rm" where
  "list_mut_op kind =
     (case kind of
        LM_Push \<Rightarrow> list_push kind
      | LM_Unshift \<Rightarrow> list_push kind
      | LM_Pop \<Rightarrow> list_take kind
      | LM_Shift \<Rightarrow> list_take kind
      | LM_Splice \<Rightarrow> list_splice
      | LM_Sort \<Rightarrow> list_sort
      | LM_Reverse \<Rightarrow> list_reverse
      | LM_Fill \<Rightarrow> list_fill
      | LM_CopyWithin \<Rightarrow> list_copy_within)"

section \<open>One step\<close>

definition continue :: "(mst, unit) rm \<Rightarrow> (mst, vm_step) rm" where
  "continue m = seq m (ret St_Continue)"

definition exec_op :: "op \<Rightarrow> (mst, vm_step) rm" where
  "exec_op x =
     (case x of
        Op_Const l \<Rightarrow> continue (alloc_push (val_of_literal l))
      | Op_Pop \<Rightarrow> continue (bind pop_operand (\<lambda>_. ret ()))
      | Op_Dup \<Rightarrow> continue op_dup
      | Op_Load i \<Rightarrow> continue (op_load i)
      | Op_Store i \<Rightarrow> continue (op_store i)
      | Op_Rebind i \<Rightarrow> continue (op_rebind i)
      | Op_LoadChecked i m \<Rightarrow> continue (op_load_checked i m)
      | Op_Neg \<Rightarrow> continue op_neg
      | Op_Not \<Rightarrow> continue op_not
      | Op_Jump i \<Rightarrow> continue (jump i)
      | Op_JumpIfFalse i \<Rightarrow> continue (op_jump_if_false i)
      | Op_JumpIfUnit i \<Rightarrow> continue (op_jump_if_unit i)
      | Op_Closure f cs \<Rightarrow> continue (op_closure f cs)
      | Op_Call n \<Rightarrow> continue (op_call n)
      | Op_ComponentCall \<Rightarrow> continue op_component_call
      | Op_Slot \<Rightarrow> continue op_slot
      | Op_MethodCall n argc \<Rightarrow> continue (op_method_call n argc)
      | Op_Host n argc \<Rightarrow> op_host n argc
      | Op_PromiseJoin k \<Rightarrow> continue (op_promise_join k)
      | Op_Await \<Rightarrow> op_await
      | Op_Handler i \<Rightarrow> continue (op_handler i)
      | Op_EndHandler \<Rightarrow> continue op_end_handler
      | Op_Throw \<Rightarrow> bind pop_operand raise
      | Op_Return \<Rightarrow> op_return
      | Op_List n \<Rightarrow> continue (op_list n)
      | Op_ListAppend \<Rightarrow> continue op_list_append
      | Op_ListHas \<Rightarrow> continue op_list_has
      | Op_ListExtend \<Rightarrow> continue op_list_extend
      | Op_Index \<Rightarrow> continue op_index
      | Op_FieldSet n \<Rightarrow> continue (op_field_set n)
      | Op_IndexSet \<Rightarrow> continue op_index_set
      | Op_ListMut k \<Rightarrow> continue (list_mut_op k)
      | Op_Record ns \<Rightarrow> continue (op_record ns)
      | Op_Struct n ident ns es \<Rightarrow> continue (op_struct n ident ns es)
      | Op_Props ns \<Rightarrow> continue (op_props ns)
      | Op_RecordExtend \<Rightarrow> continue op_record_extend
      | Op_Field n \<Rightarrow> continue (op_field n False)
      | Op_OptionalField n \<Rightarrow> continue (op_field n True)
      | Op_FieldOrSelf n \<Rightarrow> continue (op_field_or_self n)
      | Op_ToString \<Rightarrow> continue op_to_string
      | Op_GetType \<Rightarrow> continue op_get_type
      | Op_Descriptor d \<Rightarrow> continue (op_descriptor d)
      | Op_JsonStringify s \<Rightarrow> continue (op_json_stringify s)
      | Op_JwtStringify s e \<Rightarrow> continue (op_jwt_stringify s e)
      | Op_JsonParse s \<Rightarrow> continue (op_json_parse s)
      | Op_JsonParseResult s \<Rightarrow> continue (op_json_parse_result s)
      | Op_Newtype n \<Rightarrow> continue (op_newtype n)
      | Op_Enum n c i p \<Rightarrow> continue (op_enum n c i p)
      | Op_MatchEnum n c \<Rightarrow> continue (op_match_enum n c)
      | Op_MatchType d \<Rightarrow> continue (op_match_type d)
      | Op_MatchStruct i \<Rightarrow> continue (op_match_struct i)
      | Op_MatchTuple n \<Rightarrow> continue (op_match_tuple n)
      | Op_MatchEqual \<Rightarrow> continue op_match_equal
      | Op_ToNumber \<Rightarrow> continue op_to_number
      | Op_Panic \<Rightarrow> continue op_panic
      | _ \<Rightarrow> continue (op_binary x))"

text \<open>The fetch: the instruction pointer moves past the instruction before it runs.\<close>

definition fetch :: "(mst, op) rm" where
  "fetch = bind top_frame (\<lambda>f. bind (on_vm (function_at (fr_function f))) (\<lambda>fn.
     if ip f < length (code fn)
     then seq (set_top (f\<lparr>ip := Suc (ip f)\<rparr>)) (ret (code fn ! ip f))
     else fail ''instruction pointer outside function''))"

definition step :: "(mst, vm_step) rm" where
  "step = bind fetch exec_op"

end
