(* ===== verification/VmSched.thy ===== *)
theory VmSched
  imports VmStep
begin

text \<open>
  The scheduler of the virtual machine (\<open>crates/deka_vm/src/machine.rs\<close>, \<open>turn.rs\<close>): joins of
  promises, the commands of host code, the bounded drive over the runnable tasks, a turn, a
  poll to completion, cancellation and the collection of garbage with the machine's roots.

  \<open>None\<close> in a polled result stands for \<open>Poll::Pending\<close>. The waker of the platform, the
  parent of the machine's own wake, is not part of the state.
\<close>

section \<open>Construction, collection and cancellation\<close>

definition wake :: "vm \<Rightarrow> vm" where
  "wake v = v\<lparr>ctx := (ctx v)\<lparr>ready := True\<rparr>\<rparr>"

definition vm_new :: "program \<Rightarrow> hosts \<Rightarrow> nat \<Rightarrow> externals \<Rightarrow> vm res" where
  "vm_new p hs i lib =
     res_bind (validate p) (\<lambda>_.
       if parameters (funcs p ! 0) \<noteq> 0 \<or> captures (funcs p ! 0) \<noteq> 0
       then Err ''entry function cannot take arguments/captures''
       else
         let v = \<lparr>prog = p, vm_hosts = hs, ctx = new_context i, vheap = empty_heap, pins = [],
               tasks = [], next_task = 0, root = None, instructions = 0, instruction_limit = None,
               descriptors = [], turn_cursor = 0, completion_epoch = 0, completion_order = [],
               events = [], clock = 0, ext_lib = lib\<rparr>
         in case bind (vm_frame 0 [] [] None) (\<lambda>f. vm_spawn (W_Code [f])) v of
              (Ok h, v') \<Rightarrow> Ok (wake (v'\<lparr>root := Some h\<rparr>))
            | (Err e, _) \<Rightarrow> Err e
            | (Panic e, _) \<Rightarrow> Panic e)"

definition frame_roots :: "frame \<Rightarrow> handle list" where
  "frame_roots f = frame_locals f @ rev (stack f) @
     (case slot_children f of None \<Rightarrow> [] | Some h \<Rightarrow> [h]) @
     (case then_call f of None \<Rightarrow> [] | Some hs \<Rightarrow> hs)"

definition work_roots :: "work \<Rightarrow> handle list" where
  "work_roots w =
     (case w of
        W_Code frames \<Rightarrow> concat (map frame_roots (rev frames))
      | W_Join j \<Rightarrow> jn_inputs j @ List.map_filter id (jn_values j)
      | W_CallbackWait p \<Rightarrow> [p]
      | W_Host _ \<Rightarrow> [])"

definition task_roots :: "task \<Rightarrow> handle list" where
  "task_roots t = tk_promise t # work_roots (tk_work t)"

definition vm_roots :: "vm \<Rightarrow> handle list \<Rightarrow> handle list" where
  "vm_roots v cbs =
     (case root v of None \<Rightarrow> [] | Some h \<Rightarrow> [h]) @ pins v @ bt_values (descriptors v) @ cbs @
     concat (map task_roots (bt_values (tasks v)))"

definition is_settled :: "heap \<Rightarrow> handle \<Rightarrow> bool" where
  "is_settled hp h \<longleftrightarrow> (case heap_get hp h of Ok (V_Promise (Some _)) \<Rightarrow> True | _ \<Rightarrow> False)"

definition vm_collect :: "(vm, unit) rm" where
  "vm_collect v =
     (case ctx_roots (ctx v) of (cbs, c) \<Rightarrow>
        bind (on_heap (heap_collect (vm_roots v cbs))) (\<lambda>_.
        modify (\<lambda>v. v\<lparr>completion_order :=
          bt_retain (\<lambda>h _. is_settled (vheap v) h) (completion_order v)\<rparr>)) (v\<lparr>ctx := c\<rparr>))"

definition drop_completions :: "task list \<Rightarrow> host_context \<Rightarrow> host_context" where
  "drop_completions ts c = foldl (\<lambda>c t. drop_completion (tk_completion t) c) c ts"

definition vm_cancel :: "(vm, unit) rm" where
  "vm_cancel v =
     on_heap (heap_collect [])
       (v\<lparr>ctx := drop_completions (bt_values (tasks v)) (ctx_close (ctx v)), tasks := [],
          completion_order := [], events := [], pins := [], descriptors := [], root := None\<rparr>)"

section \<open>Joins\<close>

fun is_thrown :: "outcome \<Rightarrow> bool" where
  "is_thrown (Out_Thrown _) = True"
| "is_thrown (Out_Value _) = False"

text \<open>
  What the join does with the input under its cursor. The count of the values that are missing is not
  0 where one is missing (\<open>join_ok\<close>), so that the subtraction of naturals is that of the source.
\<close>

definition join_value :: "outcome \<Rightarrow> join_state \<Rightarrow> join_state" where
  "join_value out j =
     (case out of
        Out_Value h \<Rightarrow>
          if jn_values j ! jn_cursor j = None
          then j\<lparr>jn_values := (jn_values j)[jn_cursor j := Some h], jn_remaining := jn_remaining j - 1\<rparr>
          else j
      | Out_Thrown _ \<Rightarrow> j)"

definition join_candidate :: "nat \<Rightarrow> outcome \<Rightarrow> join_state \<Rightarrow> join_state" where
  "join_candidate order0 out j =
     (let order = (if order0 \<le> jn_created j then 0 else order0)
      in if (case jn_first j of None \<Rightarrow> True | Some (o', i, _) \<Rightarrow> (order, jn_cursor j) < (o', i))
         then j\<lparr>jn_first := Some (order, jn_cursor j, out)\<rparr> else j)"

definition join_visit :: "heap \<Rightarrow> (handle, nat) btree \<Rightarrow> join_state \<Rightarrow> join_state res" where
  "join_visit hp orders j =
     (let p = jn_inputs j ! jn_cursor j
      in res_bind (res_bind (heap_get hp p) (\<lambda>v. case v of
             V_Promise (Some (Inl e)) \<Rightarrow> Err e
           | V_Promise (Some (Inr out)) \<Rightarrow>
               let j1 = join_value out j
               in if jn_kind j = PJ_Race \<or> is_thrown out
                  then res_bind (ok_or ''missing promise settlement order'' (bt_get orders p))
                         (\<lambda>o'. Ok (join_candidate o' out j1))
                  else Ok j1
           | V_Promise None \<Rightarrow> Ok j
           | _ \<Rightarrow> Err ''promise combinator requires promises''))
         (\<lambda>j1. Ok (j1\<lparr>jn_cursor := Suc (jn_cursor j1)\<rparr>)))"

fun join_scan :: "heap \<Rightarrow> (handle, nat) btree \<Rightarrow> nat \<Rightarrow> join_state \<Rightarrow> nat \<Rightarrow> (join_state \<times> nat) res" where
  "join_scan hp orders 0 j left = Ok (j, left)"
| "join_scan hp orders (Suc n) j left =
     (if jn_cursor j = length (jn_inputs j) then Ok (j, left - 1)
      else res_bind (join_visit hp orders j) (\<lambda>j1. join_scan hp orders n j1 (left - 1)))"

datatype join_result = Jr_Pending | Jr_Outcome outcome | Jr_All "handle list"

text \<open>After a complete scan: the winner, the values of all, or another scan later.\<close>

definition join_finish :: "join_state \<Rightarrow> join_result \<times> join_state" where
  "join_finish j =
     (if jn_cursor j < length (jn_inputs j) then (Jr_Pending, j)
      else case jn_first j of
        Some (order, _, out) \<Rightarrow>
          if order > jn_scan j then (Jr_Pending, j\<lparr>jn_cursor := 0, jn_checked := None\<rparr>)
          else (Jr_Outcome out, j\<lparr>jn_first := None\<rparr>)
      | None \<Rightarrow>
          if jn_kind j = PJ_All \<and> jn_remaining j = 0
          then (Jr_All (List.map_filter id (jn_values j)), j)
          else (Jr_Pending, j\<lparr>jn_cursor := 0, jn_checked := Some (jn_scan j)\<rparr>))"

definition poll_join :: "join_state \<Rightarrow> nat \<Rightarrow> (vm, outcome option \<times> join_state \<times> nat) rm" where
  "poll_join j0 left0 v =
     (let j = (if jn_cursor j0 = 0 then j0\<lparr>jn_scan := completion_epoch v\<rparr> else j0)
      in case join_scan (vheap v) (completion_order v) (min 256 left0) j left0 of
           Err e \<Rightarrow> (Err e, v)
         | Panic p \<Rightarrow> (Panic p, v)
         | Ok (j1, left) \<Rightarrow>
             (case join_finish j1 of
                (Jr_Pending, j2) \<Rightarrow> (Ok (None, j2, left), v)
              | (Jr_Outcome out, j2) \<Rightarrow> (Ok (Some out, j2, left), v)
              | (Jr_All hs, j2) \<Rightarrow>
                  bind (vm_alloc (V_List hs)) (\<lambda>h. ret (Some (Out_Value h), j2, left)) v))"

section \<open>Commands of host code\<close>

definition set_completion :: "nat \<Rightarrow> completion option \<Rightarrow> (vm, unit) rm" where
  "set_completion i cp v =
     (case bt_get (tasks v) i of
        None \<Rightarrow> (Err ''missing callback task'', v)
      | Some t \<Rightarrow> (Ok (), v\<lparr>tasks := bt_insert i (t\<lparr>tk_completion := cp\<rparr>) (tasks v)\<rparr>))"

definition start_callback ::
    "host_callback \<Rightarrow> host_value list \<Rightarrow> completion option \<Rightarrow> (vm, unit) rm" where
  "start_callback cb args cp =
     bind (gets ctx) (\<lambda>c.
       if \<not> ctx_owns c cb then fail ''callback belongs to another VM''
       else bind (on_heap (get_m (hc_handle cb))) (\<lambda>v. case v of
           V_Closure f caps sl \<Rightarrow>
             bind (mapM alloc_host_value args) (\<lambda>hs.
             bind (vm_frame f caps hs sl) (\<lambda>fr.
             bind (gets next_task) (\<lambda>i.
             bind (vm_spawn (W_Code [fr])) (\<lambda>_. set_completion i cp))))
         | _ \<Rightarrow> fail ''host callback is not callable''))"

definition run_command :: "command \<Rightarrow> (vm, unit) rm" where
  "run_command cmd = bind (gets ctx) (\<lambda>c. case cmd of
       Cmd_Spawn j fut \<Rightarrow>
         if job_cancelled c j then ret ()
         else bind (vm_spawn (W_Host \<lparr>hw_future = fut, hw_result = HT_Unit, hw_channel = False,
           hw_error = None, hw_job = Some j, hw_ready = False\<rparr>)) (\<lambda>_. ret ())
     | Cmd_Cancel i \<Rightarrow>
         modify (\<lambda>v. v\<lparr>tasks := bt_retain (\<lambda>_ t. case tk_work t of
             W_Host hw \<Rightarrow> (case hw_job hw of Some j \<Rightarrow> hj_id j \<noteq> i | None \<Rightarrow> True)
           | _ \<Rightarrow> True) (tasks v)\<rparr>)
     | Cmd_Call cb args job cp \<Rightarrow>
         if (case job of Some j \<Rightarrow> job_cancelled c j | None \<Rightarrow> False)
         then modify (\<lambda>v. v\<lparr>ctx := drop_completion cp (ctx v)\<rparr>)
         else start_callback cb args cp)"

text \<open>A failing command drops its own completion and those of the commands behind it.\<close>

fun run_commands :: "command list \<Rightarrow> (vm, unit) rm" where
  "run_commands [] v = (Ok (), v)"
| "run_commands (cmd # cmds) v =
     (case run_command cmd v of
        (Ok _, v') \<Rightarrow> run_commands cmds v'
      | (r, v') \<Rightarrow>
          (r, v'\<lparr>ctx := foldl (\<lambda>c cmd. drop_completion (command_completion cmd) c) (ctx v') (cmd # cmds)\<rparr>))"

definition host_commands :: "nat \<Rightarrow> (vm, bool \<times> nat) rm" where
  "host_commands left v =
     (case ctx_take left (ctx v) of (cmds, c) \<Rightarrow>
        bind (run_commands cmds) (\<lambda>_. ret (cmds \<noteq> [], left - length cmds)) (v\<lparr>ctx := c\<rparr>))"

section \<open>Results of callbacks\<close>

definition thrown_error :: "handle \<Rightarrow> (vm, 'a) rm" where
  "thrown_error h = bind (value_text h) (\<lambda>t. fail (''uncaught Throw: '' @ t))"

definition checked_result :: "host_type \<Rightarrow> handle \<Rightarrow> (vm, string + host_value) rm" where
  "checked_result expected h = bind (to_host h) (\<lambda>v.
     if \<not> accepts expected v then fail ''callback returned the wrong result type''
     else bind (lift_res (normalize expected v)) (\<lambda>v'. ret (Inr v')))"

definition callback_result :: "string + outcome \<Rightarrow> host_type \<Rightarrow> bool \<Rightarrow> (vm, string + host_value) rm" where
  "callback_result out expected channel =
     (case out of
        Inl e \<Rightarrow> fail e
      | Inr (Out_Thrown h) \<Rightarrow> thrown_error h
      | Inr (Out_Value h) \<Rightarrow>
          if \<not> channel then checked_result expected h
          else bind (on_heap (get_m h)) (\<lambda>v. case v of
              V_Record r \<Rightarrow>
                if rec_enum_name r \<noteq> Some ''Result'' then fail ''callback did not return a Result''
                else bind (of_opt ''Result has no case'' (rec_get r ''name'')) (\<lambda>c.
                     bind (of_opt ''Result has no payload'' (rec_get r ''value'')) (\<lambda>p.
                     bind (on_heap (get_m c)) (\<lambda>cv.
                       if cv = V_String ''Ok'' then checked_result expected p
                       else if cv = V_String ''Err''
                       then bind (on_heap (get_m p)) (\<lambda>pv. case pv of
                           V_String e \<Rightarrow> ret (Inl e)
                         | _ \<Rightarrow> fail ''callback Result error must be a string'')
                       else fail ''invalid callback Result case'')))
            | _ \<Rightarrow> fail ''callback did not return a Result''))"

section \<open>One task\<close>

text \<open>A slice of a task: what came of it and the task as the slice leaves it.\<close>

record slice =
  sl_result :: "(string + outcome) option"
  sl_task :: task
  sl_left :: nat
  sl_progressed :: bool

text \<open>Instructions until the slice ends: result, wait, frames, steps, progress.\<close>

fun run_code :: "nat \<Rightarrow> nat option \<Rightarrow> vm \<Rightarrow> frame list \<Rightarrow>
    ((string + outcome) option \<times> handle option \<times> frame list \<times> nat \<times> bool) res \<times> vm" where
  "run_code 0 limit v fs = (Ok (None, None, fs, 0, False), v)"
| "run_code (Suc n) limit v fs =
     (let v1 = v\<lparr>instructions := Suc (instructions v)\<rparr>
      in if (case limit of None \<Rightarrow> False | Some l \<Rightarrow> instructions v1 > l)
         then (Err ''instruction limit exceeded'', v1)
         else case step (v1, fs) of
           (Ok St_Continue, v2, fs2) \<Rightarrow>
             (case run_code n limit v2 fs2 of
                (Ok (r, w, fs3, k, _), v3) \<Rightarrow> (Ok (r, w, fs3, Suc k, True), v3)
              | (Err e, v3) \<Rightarrow> (Err e, v3)
              | (Panic p, v3) \<Rightarrow> (Panic p, v3))
         | (Ok (St_Blocked p), v2, fs2) \<Rightarrow> (Ok (None, Some p, fs2, 1, False), v2)
         | (Ok (St_Complete out), v2, fs2) \<Rightarrow> (Ok (Some (Inr out), None, fs2, 1, False), v2)
         | (Err e, v2, fs2) \<Rightarrow> (Ok (Some (Inl e), None, fs2, 1, False), v2)
         | (Panic p, v2, fs2) \<Rightarrow> (Panic p, v2))"

definition poll_future :: "nat \<Rightarrow> (vm, (string + host_value) option \<times> bool) rm" where
  "poll_future fut v =
     (case ext_poll (ext_lib v) (clock v) fut of (r, woke, evs) \<Rightarrow>
        (Ok (r, woke),
         v\<lparr>clock := Suc (clock v),
           ctx := (host_events evs (ctx v))\<lparr>ready := ready (host_events evs (ctx v)) \<or> woke\<rparr>\<rparr>))"

definition run_work :: "task \<Rightarrow> nat \<Rightarrow> nat option \<Rightarrow> (vm, slice) rm" where
  "run_work t left limit =
     (case tk_work t of
        W_CallbackWait p \<Rightarrow>
          bind (on_heap (get_m p)) (\<lambda>v. case v of
              V_Promise (Some out) \<Rightarrow>
                ret \<lparr>sl_result = Some out, sl_task = t, sl_left = left - 1, sl_progressed = False\<rparr>
            | V_Promise None \<Rightarrow>
                ret \<lparr>sl_result = None, sl_task = t\<lparr>tk_waiting := Some p\<rparr>, sl_left = left - 1,
                     sl_progressed = False\<rparr>
            | _ \<Rightarrow> fail ''invalid callback promise'')
      | W_Join j \<Rightarrow>
          bind (poll_join j left) (\<lambda>(out, j', left').
            ret \<lparr>sl_result = map_option Inr out, sl_task = t\<lparr>tk_work := W_Join j'\<rparr>, sl_left = left',
                 sl_progressed = (left \<noteq> left')\<rparr>)
      | W_Host hw \<Rightarrow>
          bind (poll_future (hw_future hw)) (\<lambda>(r, woke).
            let t' = t\<lparr>tk_work := W_Host (hw\<lparr>hw_ready := woke\<rparr>)\<rparr>
            in case r of
                 None \<Rightarrow> ret \<lparr>sl_result = None, sl_task = t', sl_left = left - 1, sl_progressed = False\<rparr>
               | Some value \<Rightarrow> (\<lambda>v.
                   case host_result value (hw_result hw) (hw_channel hw) (hw_error hw) v of
                     (Ok h, v') \<Rightarrow>
                       (Ok \<lparr>sl_result = Some (Inr (Out_Value h)), sl_task = t', sl_left = left - 1,
                            sl_progressed = False\<rparr>, v')
                   | (Err e, v') \<Rightarrow>
                       (Ok \<lparr>sl_result = Some (Inl e), sl_task = t', sl_left = left - 1,
                            sl_progressed = False\<rparr>, v')
                   | (Panic p, v') \<Rightarrow> (Panic p, v')))
      | W_Code frames \<Rightarrow> (\<lambda>v.
          case run_code (min 256 left) limit v frames of
            (Ok (r, w, frames', k, prog'), v') \<Rightarrow>
              (Ok \<lparr>sl_result = r, sl_task = t\<lparr>tk_work := W_Code frames', tk_waiting := w\<rparr>,
                   sl_left = left - k, sl_progressed = prog'\<rparr>, v')
          | (Err e, v') \<Rightarrow> (Err e, v')
          | (Panic p, v') \<Rightarrow> (Panic p, v')))"

text \<open>The promise a finished callback task returned itself, to follow.\<close>

definition followed :: "vm \<Rightarrow> task \<Rightarrow> string + outcome \<Rightarrow> handle option res" where
  "followed v t r =
     (if tk_completion t = None then Ok None
      else case r of
        Inr (Out_Value p) \<Rightarrow>
          res_bind (heap_get (vheap v) p) (\<lambda>x. Ok (if is_promise x then Some p else None))
      | _ \<Rightarrow> Ok None)"

definition resolve_completion :: "completion option \<Rightarrow> string + outcome \<Rightarrow> (vm, unit) rm" where
  "resolve_completion cp r =
     (case cp of
        None \<Rightarrow> ret ()
      | Some c \<Rightarrow> (\<lambda>v. case callback_result r (cp_result c) (cp_channel c) v of
            (Ok value, v') \<Rightarrow> (Ok (), v'\<lparr>ctx := finish c value (ctx v')\<rparr>)
          | (Err e, v') \<Rightarrow> (Err e, v'\<lparr>ctx := finish c (Inl e) (ctx v')\<rparr>)
          | (Panic p, v') \<Rightarrow> (Panic p, v')))"

definition of_sum :: "string + 'a \<Rightarrow> ('s, 'a) rm" where
  "of_sum r = (case r of Inl e \<Rightarrow> fail e | Inr a \<Rightarrow> ret a)"

text \<open>An event's uncaught exception is an error of the drive.\<close>

definition event_guard :: "nat \<Rightarrow> outcome \<Rightarrow> (vm, unit) rm" where
  "event_guard i out = bind (gets events) (\<lambda>evs.
     if i \<in> set evs
     then seq (modify (\<lambda>v. v\<lparr>events := removeAll i (events v)\<rparr>))
            (case out of Out_Thrown h \<Rightarrow> thrown_error h | Out_Value _ \<Rightarrow> ret ())
     else ret ())"

text \<open>What happens to a task after its slice; the result says whether it made progress.\<close>

definition finish_slice :: "nat \<Rightarrow> slice \<Rightarrow> (vm, bool) rm" where
  "finish_slice i s =
     (case sl_result s of
        None \<Rightarrow> seq (modify (\<lambda>v. v\<lparr>tasks := bt_insert i (sl_task s) (tasks v)\<rparr>)) (ret False)
      | Some r \<Rightarrow> bind (\<lambda>v. (followed v (sl_task s) r, v)) (\<lambda>fw. case fw of
            Some p \<Rightarrow>
              seq (modify (\<lambda>v. v\<lparr>tasks := bt_insert i
                     ((sl_task s)\<lparr>tk_work := W_CallbackWait p, tk_waiting := Some p\<rparr>) (tasks v)\<rparr>)) (ret True)
          | None \<Rightarrow>
              seq (resolve_completion (tk_completion (sl_task s)) r) (
              bind (of_sum r) (\<lambda>out.
              seq (event_guard i out) (
              seq (settle_promise (tk_promise (sl_task s)) (Inr out)) (ret True))))))"

text \<open>An error drops the task in hand, and with it the completion it still owns.\<close>

definition dropping :: "task \<Rightarrow> (vm, 'a) rm \<Rightarrow> (vm, 'a) rm" where
  "dropping t m v = (case m v of
       (Ok a, v') \<Rightarrow> (Ok a, v')
     | (r, v') \<Rightarrow> (r, v'\<lparr>ctx := drop_completion (tk_completion t) (ctx v')\<rparr>))"

section \<open>The drive\<close>

definition is_ready :: "vm \<Rightarrow> handle option \<Rightarrow> task \<Rightarrow> bool" where
  "is_ready v only t \<longleftrightarrow>
     (case only of None \<Rightarrow> True | Some h \<Rightarrow> tk_promise t = h) \<and>
     (case tk_waiting t of None \<Rightarrow> True | Some p \<Rightarrow> heap_get (vheap v) p \<noteq> Ok (V_Promise None)) \<and>
     (case tk_work t of
        W_Host hw \<Rightarrow> hw_ready hw
      | W_Code _ \<Rightarrow> True
      | W_CallbackWait _ \<Rightarrow> True
      | W_Join j \<Rightarrow> jn_checked j \<noteq> Some (completion_epoch v))"

text \<open>From the cursor round to just before it.\<close>

definition runnable :: "vm \<Rightarrow> handle option \<Rightarrow> nat list" where
  "runnable v only =
     (let (before, after) = (filter (\<lambda>(i, _). i < turn_cursor v) (tasks v),
                             filter (\<lambda>(i, _). turn_cursor v \<le> i) (tasks v))
      in map fst (filter (\<lambda>(_, t). is_ready v only t) (after @ before)))"

record drive_state =
  dr_left :: nat
  dr_progressed :: bool
  dr_deferred :: bool

definition drive_task :: "handle option \<Rightarrow> nat option \<Rightarrow> nat \<Rightarrow> drive_state \<Rightarrow> (vm, drive_state) rm" where
  "drive_task only limit i d v =
     (case bt_get (tasks v) i of
        None \<Rightarrow> (Err ''missing scheduled task'', v)
      | Some t \<Rightarrow>
          dropping t (
            bind (run_work (t\<lparr>tk_waiting := None\<rparr>) (dr_left d) limit) (\<lambda>s.
            seq (modify (\<lambda>v. if only = None then v\<lparr>turn_cursor := min (Suc i) usize_max\<rparr> else v)) (
            bind (finish_slice i s) (\<lambda>p.
            ret \<lparr>dr_left = sl_left s, dr_progressed = (dr_progressed d \<or> sl_progressed s \<or> p),
                 dr_deferred = dr_deferred d\<rparr>))))
          (v\<lparr>tasks := bt_remove i (tasks v)\<rparr>))"

fun drive_tasks :: "handle option \<Rightarrow> nat option \<Rightarrow> nat list \<Rightarrow> drive_state \<Rightarrow> (vm, drive_state) rm" where
  "drive_tasks only limit [] d = ret d"
| "drive_tasks only limit (i # is) d =
     (if dr_left d = 0 then ret (d\<lparr>dr_deferred := True\<rparr>)
      else bind (drive_task only limit i d) (drive_tasks only limit is))"

definition drive :: "nat \<Rightarrow> handle option \<Rightarrow> nat option \<Rightarrow> (vm, bool \<times> bool) rm" where
  "drive budget only limit =
     bind (if only = None then host_commands budget else ret (False, budget)) (\<lambda>(p, left).
     bind (gets (\<lambda>v. runnable v only)) (\<lambda>ids.
     bind (drive_tasks only limit ids \<lparr>dr_left = left, dr_progressed = p, dr_deferred = False\<rparr>) (\<lambda>d.
     bind (if only = None then host_commands (dr_left d) else ret (False, dr_left d)) (\<lambda>(p', _).
     seq vm_collect (ret (dr_progressed d \<or> p', dr_deferred d))))))"

section \<open>Turns and polls\<close>

record turn =
  turn_progressed :: bool
  turn_instructions :: nat

definition clear_wake :: "vm \<Rightarrow> vm" where
  "clear_wake v = v\<lparr>ctx := ctx_set_waker ((ctx v)\<lparr>ready := False\<rparr>)\<rparr>"

definition has_ready_work :: "vm \<Rightarrow> bool" where
  "has_ready_work v \<longleftrightarrow> root v \<noteq> None \<and> (ready (ctx v) \<or> has_commands (ctx v))"

definition run_turn :: "nat \<Rightarrow> (vm, turn) rm" where
  "run_turn budget v =
     (if budget = 0 then (Err ''turn budget must be positive'', v)
      else if root v = None then (Err ''VM cancelled'', v)
      else case drive budget None None (clear_wake v) of
        (Ok (progressed, deferred), v') \<Rightarrow>
          (Ok \<lparr>turn_progressed = progressed, turn_instructions = instructions v' - instructions v\<rparr>,
           if (progressed \<or> deferred) \<and> tasks v' \<noteq> [] \<or> has_commands (ctx v') then wake v' else v')
      | (Err e, v') \<Rightarrow>
          (case vm_cancel v' of (Ok _, v'') \<Rightarrow> (Err e, v'') | (Err e', v'') \<Rightarrow> (Err e', v'')
             | (Panic p, v'') \<Rightarrow> (Panic p, v''))
      | (Panic p, v') \<Rightarrow> (Panic p, v'))"

definition root_result :: "vm \<Rightarrow> handle res option \<times> vm" where
  "root_result v =
     (case root v of
        None \<Rightarrow> (Some (Err ''VM cancelled''), v)
      | Some h \<Rightarrow>
          (case heap_get (vheap v) h of
             Ok (V_Promise (Some (Inr (Out_Value x)))) \<Rightarrow> (Some (Ok x), v)
           | Ok (V_Promise (Some (Inr (Out_Thrown x)))) \<Rightarrow>
               (case thrown_error x v of (r, v') \<Rightarrow> (Some r, v'))
           | Ok (V_Promise (Some (Inl e))) \<Rightarrow> (Some (Err e), v)
           | Ok (V_Promise None) \<Rightarrow> (None, v)
           | _ \<Rightarrow> (Some (Err ''invalid entry promise''), v)))"

definition poll_inner :: "bool \<Rightarrow> vm \<Rightarrow> handle res option \<times> vm" where
  "poll_inner drain v =
     (if root v = None then (Some (Err ''VM cancelled''), v)
      else case drive 4096 None (instruction_limit v) (clear_wake v) of
        (Err e, v') \<Rightarrow> (Some (Err e), v')
      | (Panic p, v') \<Rightarrow> (Some (Panic p), v')
      | (Ok (progressed, deferred), v') \<Rightarrow>
          (case root_result v' of (r, v'') \<Rightarrow>
             if r = None \<or> (drain \<and> (case r of Some (Ok _) \<Rightarrow> True | _ \<Rightarrow> False) \<and>
                  (tasks v'' \<noteq> [] \<or> has_commands (ctx v'')))
             then (None, if progressed \<or> deferred \<or> has_commands (ctx v'') then wake v'' else v'')
             else (r, v'')))"

definition vm_poll :: "vm \<Rightarrow> host_value res option \<times> vm" where
  "vm_poll v =
     (case poll_inner True v of
        (None, v') \<Rightarrow> (None, v')
      | (Some r, v') \<Rightarrow>
          (case bind (lift_res r) to_host v' of
             (Panic p, v'') \<Rightarrow> (Some (Panic p), v'')
           | (r', v'') \<Rightarrow> (case vm_cancel v'' of
                 (Panic p, w) \<Rightarrow> (Some (Panic p), w)
               | (_, w) \<Rightarrow> (Some r', w))))"

section \<open>The environment between turns\<close>

text \<open>Host code acts on the context, or a future wakes its task.\<close>

definition env_event :: "host_event \<Rightarrow> vm \<Rightarrow> vm" where
  "env_event e v = v\<lparr>ctx := host_effect e (ctx v)\<rparr>"

definition env_wake :: "nat \<Rightarrow> vm \<Rightarrow> vm" where
  "env_wake i v =
     (case bt_get (tasks v) i of
        Some t \<Rightarrow> (case tk_work t of
            W_Host hw \<Rightarrow> wake (v\<lparr>tasks := bt_insert i (t\<lparr>tk_work := W_Host (hw\<lparr>hw_ready := True\<rparr>)\<rparr>) (tasks v)\<rparr>)
          | _ \<Rightarrow> v)
      | None \<Rightarrow> v)"

definition enqueue_event :: "handle \<Rightarrow> handle list \<Rightarrow> (vm, unit) rm" where
  "enqueue_event closure args =
     bind (on_heap (get_m closure)) (\<lambda>v. case v of
         V_Closure f caps sl \<Rightarrow>
           bind (vm_frame f caps args sl) (\<lambda>fr.
           seq (modify (\<lambda>v. v\<lparr>events := next_task v # events v\<rparr>)) (
           bind (vm_spawn (W_Code [fr])) (\<lambda>_. modify wake)))
       | _ \<Rightarrow> fail ''UI handler is not a closure'')"

definition pin :: "handle \<Rightarrow> vm \<Rightarrow> vm" where
  "pin h v = v\<lparr>pins := pins v @ [h]\<rparr>"

definition set_pins :: "handle list \<Rightarrow> vm \<Rightarrow> vm" where
  "set_pins hs v = v\<lparr>pins := hs\<rparr>"

end
