(* ===== verification/VmInv.thy ===== *)
theory VmInv
  imports HeapTriples JsonTriples VmSched
begin

text \<open>
  The invariant of the virtual machine. Frames fit the function they run and hold live
  handles, every unfinished task owns a pending promise of its own, a join knows only
  settled outcomes of its inputs, and whatever the machine keeps outside the heap is live.
  The theory states it and shows what keeps it when the heap grows.
\<close>

section \<open>Frames, joins and tasks\<close>

definition frame_ok :: "program \<Rightarrow> heap \<Rightarrow> frame \<Rightarrow> bool" where
  "frame_ok p hp f \<longleftrightarrow>
     fr_function f < length (funcs p) \<and>
     length (frame_locals f) = locals (funcs p ! fr_function f) \<and>
     (\<forall>l \<in> set (frame_locals f). is_cell hp l) \<and> handles_live hp (stack f) \<and>
     (\<forall>h. slot_children f = Some h \<longrightarrow> live hp h) \<and>
     (\<forall>hs. then_call f = Some hs \<longrightarrow> handles_live hp hs)"

definition settled_to :: "heap \<Rightarrow> handle \<Rightarrow> outcome \<Rightarrow> bool" where
  "settled_to hp h out \<longleftrightarrow> heap_get hp h = Ok (V_Promise (Some (Inr out)))"

definition pending :: "heap \<Rightarrow> handle \<Rightarrow> bool" where
  "pending hp h \<longleftrightarrow> heap_get hp h = Ok (V_Promise None)"

definition is_promise_at :: "heap \<Rightarrow> handle \<Rightarrow> bool" where
  "is_promise_at hp h \<longleftrightarrow> (\<exists>x. heap_get hp h = Ok (V_Promise x))"

definition join_ok :: "heap \<Rightarrow> join_state \<Rightarrow> bool" where
  "join_ok hp j \<longleftrightarrow>
     handles_live hp (jn_inputs j) \<and> length (jn_values j) = length (jn_inputs j) \<and>
     jn_cursor j \<le> length (jn_inputs j) \<and>
     jn_remaining j = length (filter (\<lambda>x. x = None) (jn_values j)) \<and>
     (\<forall>i < length (jn_inputs j). \<forall>h. jn_values j ! i = Some h \<longrightarrow> settled_to hp (jn_inputs j ! i) (Out_Value h)) \<and>
     (\<forall>n i out. jn_first j = Some (n, i, out) \<longrightarrow> i < length (jn_inputs j) \<and> settled_to hp (jn_inputs j ! i) out)"

definition type_ok :: "host_type \<Rightarrow> bool" where
  "type_ok t \<longleftrightarrow> ht_wf t \<and> ht_valid t"

definition work_ok :: "program \<Rightarrow> heap \<Rightarrow> work \<Rightarrow> bool" where
  "work_ok p hp w \<longleftrightarrow>
     (case w of
        W_Code fs \<Rightarrow> (\<forall>f \<in> set fs. frame_ok p hp f)
      | W_Join j \<Rightarrow> join_ok hp j
      | W_CallbackWait h \<Rightarrow> is_promise_at hp h
      | W_Host hw \<Rightarrow> type_ok (hw_result hw))"

definition completion_ok :: "completion option \<Rightarrow> bool" where
  "completion_ok cp \<longleftrightarrow> (\<forall>c. cp = Some c \<longrightarrow> type_ok (cp_result c))"

definition task_ok :: "program \<Rightarrow> heap \<Rightarrow> task \<Rightarrow> bool" where
  "task_ok p hp t \<longleftrightarrow> work_ok p hp (tk_work t) \<and> completion_ok (tk_completion t)"

section \<open>The context and the outside\<close>

fun command_ok :: "command \<Rightarrow> bool" where
  "command_ok (Cmd_Call _ _ _ cp) \<longleftrightarrow> completion_ok cp"
| "command_ok _ \<longleftrightarrow> True"

definition ctx_ok :: "heap \<Rightarrow> host_context \<Rightarrow> bool" where
  "ctx_ok hp c \<longleftrightarrow>
     (\<forall>(_, h, strong) \<in> set (callbacks c). strong \<longrightarrow> live hp h) \<and> (\<forall>cmd \<in> set (queue c). command_ok cmd)"

text \<open>
  Host code can only hold callbacks whose signature the machine attached, so the types of a
  signature are validated; and a map it returns is a map.
\<close>

fun event_ok :: "host_event \<Rightarrow> bool" where
  "event_ok (Ev_CallAsync cb _) \<longleftrightarrow> (\<forall>sg. hc_sig cb = Some sg \<longrightarrow> type_ok (sig_result sg))"
| "event_ok _ \<longleftrightarrow> True"

definition result_wf :: "string + host_value \<Rightarrow> bool" where
  "result_wf r \<longleftrightarrow> (\<forall>v. r = Inr v \<longrightarrow> hv_wf v)"

definition handlers_ok :: "hosts \<Rightarrow> bool" where
  "handlers_ok hs \<longleftrightarrow> (\<forall>(n, op) \<in> set (operations hs). \<forall>now args reply evs.
     handler op now args = (reply, evs) \<longrightarrow>
       (\<forall>r. reply = Reply_Ready r \<longrightarrow> result_wf r) \<and> (\<forall>e \<in> set evs. event_ok e))"

definition polls_ok :: "externals \<Rightarrow> bool" where
  "polls_ok lib \<longleftrightarrow> (\<forall>now fut r woke evs. ext_poll lib now fut = (r, woke, evs) \<longrightarrow>
     (\<forall>x. r = Some x \<longrightarrow> result_wf x) \<and> (\<forall>e \<in> set evs. event_ok e))"

section \<open>The invariant\<close>

text \<open>\<open>held\<close>: the pending promises of tasks that are taken out of the table while they run.\<close>

definition tasks_ok :: "program \<Rightarrow> heap \<Rightarrow> handle list \<Rightarrow> vm \<Rightarrow> bool" where
  "tasks_ok p hp held v \<longleftrightarrow>
     bt_inv (tasks v) \<and> (\<forall>i \<in> set (bt_keys (tasks v)). i < next_task v) \<and>
     (\<forall>t \<in> set (bt_values (tasks v)). task_ok p hp t) \<and>
     distinct (held @ map tk_promise (bt_values (tasks v))) \<and>
     (\<forall>h \<in> set (held @ map tk_promise (bt_values (tasks v))). pending hp h)"

definition roots_ok :: "heap \<Rightarrow> vm \<Rightarrow> bool" where
  "roots_ok hp v \<longleftrightarrow>
     (\<forall>h. root v = Some h \<longrightarrow> is_promise_at hp h) \<and> handles_live hp (pins v) \<and>
     bt_inv (descriptors v) \<and> handles_live hp (bt_values (descriptors v))"

definition vm_inv :: "program \<Rightarrow> handle list \<Rightarrow> vm \<Rightarrow> bool" where
  "vm_inv p held v \<longleftrightarrow>
     prog v = p \<and> program_safe p \<and> hosts_ok (vm_hosts v) \<and> handlers_ok (vm_hosts v) \<and> polls_ok (ext_lib v) \<and>
     heap_ok p (vheap v) \<and> ctx_ok (vheap v) (ctx v) \<and> roots_ok (vheap v) v \<and> tasks_ok p (vheap v) held v"

definition vm_ext :: "vm \<Rightarrow> vm \<Rightarrow> bool" where
  "vm_ext v w \<longleftrightarrow> heap_ext1 (vheap v) (vheap w) \<and> next_task v \<le> next_task w"

lemma heap_ext1_refl: "heap_ext1 a a"
  by (simp add: ext_by_refl)

lemma heap_ext1_trans: "heap_ext1 a b \<Longrightarrow> heap_ext1 b c \<Longrightarrow> heap_ext1 a c"
  by (rule ext_by_trans [of kind1]) (auto intro: kind1_trans)

section \<open>What growth of the heap keeps\<close>

lemma frame_ok_ext1: "frame_ok p a f \<Longrightarrow> heap_ext1 a b \<Longrightarrow> frame_ok p b f"
  unfolding frame_ok_def by (auto intro: is_cell_ext1 live_ext1 handles_live_ext1)

lemma settled_to_ext1: "settled_to a h out \<Longrightarrow> heap_ext1 a b \<Longrightarrow> settled_to b h out"
  unfolding settled_to_def ext_by_def by fastforce

lemma is_promise_at_ext1: "is_promise_at a h \<Longrightarrow> heap_ext1 a b \<Longrightarrow> is_promise_at b h"
  unfolding is_promise_at_def ext_by_def by (metis kind1_simps(5,6) not_Some_eq)

lemma pending_ext: "pending a h \<Longrightarrow> heap_ext a b \<Longrightarrow> pending b h"
  unfolding pending_def ext_by_def kind0_def by fastforce

lemma pending_is_promise: "pending hp h \<Longrightarrow> is_promise_at hp h"
  by (auto simp: pending_def is_promise_at_def)

lemma is_promise_at_live: "is_promise_at hp h \<Longrightarrow> live hp h"
  by (auto simp: is_promise_at_def live_iff)

lemma join_ok_ext1: "join_ok a j \<Longrightarrow> heap_ext1 a b \<Longrightarrow> join_ok b j"
  unfolding join_ok_def by (meson handles_live_ext1 settled_to_ext1)

lemma work_ok_ext1: "work_ok p a w \<Longrightarrow> heap_ext1 a b \<Longrightarrow> work_ok p b w"
  by (cases w) (auto simp: work_ok_def intro: frame_ok_ext1 join_ok_ext1 is_promise_at_ext1)

lemma task_ok_ext1: "task_ok p a t \<Longrightarrow> heap_ext1 a b \<Longrightarrow> task_ok p b t"
  unfolding task_ok_def by (blast intro: work_ok_ext1)

lemma ctx_ok_ext1: "ctx_ok a c \<Longrightarrow> heap_ext1 a b \<Longrightarrow> ctx_ok b c"
  unfolding ctx_ok_def by (fastforce intro: live_ext1)

lemma roots_ok_ext1: "roots_ok a v \<Longrightarrow> heap_ext1 a b \<Longrightarrow> roots_ok b v"
  unfolding roots_ok_def by (meson handles_live_ext1 is_promise_at_ext1)

lemma tasks_ok_ext: "tasks_ok p a held v \<Longrightarrow> heap_ext a b \<Longrightarrow> tasks_ok p b held v"
  unfolding tasks_ok_def by (meson heap_ext_ext1 pending_ext task_ok_ext1)

text \<open>The parts of the machine that the predicates do not read.\<close>

lemma tasks_ok_upd [simp]:
  "tasks_ok p hp held (v\<lparr>vheap := hp'\<rparr>) = tasks_ok p hp held v"
  "tasks_ok p hp held (v\<lparr>ctx := c\<rparr>) = tasks_ok p hp held v"
  "tasks_ok p hp held (v\<lparr>clock := n\<rparr>) = tasks_ok p hp held v"
  "tasks_ok p hp held (v\<lparr>root := r\<rparr>) = tasks_ok p hp held v"
  "tasks_ok p hp held (v\<lparr>pins := ps\<rparr>) = tasks_ok p hp held v"
  "tasks_ok p hp held (v\<lparr>descriptors := ds\<rparr>) = tasks_ok p hp held v"
  "tasks_ok p hp held (v\<lparr>completion_epoch := n\<rparr>) = tasks_ok p hp held v"
  "tasks_ok p hp held (v\<lparr>completion_order := os\<rparr>) = tasks_ok p hp held v"
  "tasks_ok p hp held (v\<lparr>instructions := n\<rparr>) = tasks_ok p hp held v"
  "tasks_ok p hp held (v\<lparr>turn_cursor := n\<rparr>) = tasks_ok p hp held v"
  "tasks_ok p hp held (v\<lparr>events := es\<rparr>) = tasks_ok p hp held v"
  by (simp_all add: tasks_ok_def)

lemma roots_ok_upd [simp]:
  "roots_ok hp (v\<lparr>vheap := hp'\<rparr>) = roots_ok hp v"
  "roots_ok hp (v\<lparr>ctx := c\<rparr>) = roots_ok hp v"
  "roots_ok hp (v\<lparr>clock := n\<rparr>) = roots_ok hp v"
  "roots_ok hp (v\<lparr>tasks := ts\<rparr>) = roots_ok hp v"
  "roots_ok hp (v\<lparr>next_task := n\<rparr>) = roots_ok hp v"
  "roots_ok hp (v\<lparr>completion_epoch := n\<rparr>) = roots_ok hp v"
  "roots_ok hp (v\<lparr>completion_order := os\<rparr>) = roots_ok hp v"
  "roots_ok hp (v\<lparr>instructions := n\<rparr>) = roots_ok hp v"
  "roots_ok hp (v\<lparr>turn_cursor := n\<rparr>) = roots_ok hp v"
  "roots_ok hp (v\<lparr>events := es\<rparr>) = roots_ok hp v"
  by (simp_all add: roots_ok_def)

lemma vm_inv_upd [simp]:
  "vm_inv p held (v\<lparr>clock := n\<rparr>) = vm_inv p held v"
  "vm_inv p held (v\<lparr>completion_epoch := n\<rparr>) = vm_inv p held v"
  "vm_inv p held (v\<lparr>completion_order := os\<rparr>) = vm_inv p held v"
  "vm_inv p held (v\<lparr>instructions := n\<rparr>) = vm_inv p held v"
  "vm_inv p held (v\<lparr>turn_cursor := n\<rparr>) = vm_inv p held v"
  "vm_inv p held (v\<lparr>events := es\<rparr>) = vm_inv p held v"
  by (simp_all add: vm_inv_def)

lemma vm_inv_heap: "vm_inv p held v \<Longrightarrow> heap_ok p hp \<Longrightarrow> heap_ext (vheap v) hp \<Longrightarrow> vm_inv p held (v\<lparr>vheap := hp\<rparr>)"
  unfolding vm_inv_def
  by (auto intro: ctx_ok_ext1 roots_ok_ext1 tasks_ok_ext heap_ext_ext1)

lemma vm_inv_ctx: "vm_inv p held v \<Longrightarrow> ctx_ok (vheap v) c \<Longrightarrow> vm_inv p held (v\<lparr>ctx := c\<rparr>)"
  by (simp add: vm_inv_def)

interpretation vv: hoare "vm_inv p held" vm_ext for p held
  by unfold_locales (auto simp: vm_ext_def intro: heap_ext1_refl heap_ext1_trans)

end
