(* ===== verification/OpsTriples.thy ===== *)
theory OpsTriples
  imports HeapTriples
begin

text \<open>
  Triples of the routines that walk the heap: printing a value, finding the owner of a
  field, and the queries that only read (encoding to JSON, the type of a value), which
  never panic.
\<close>

lemmas hh_walk = hh.triple_cases hh.triple_val hh.triple_fail hh.triple_ret hh_stable
  hh.triple_use [OF hh_get] hh.triple_last [OF hh_get]
  hh.triple_use_seq [OF hh_observe] hh.triple_use_seq [OF hh_volatile]

lemma hh_mapM_plain:
  "(\<And>x. x \<in> set xs \<Longrightarrow> hh.triple p (\<lambda>_. True) (f x) (\<lambda>_ _. True)) \<Longrightarrow>
   hh.triple p (\<lambda>_. True) (mapM f xs) (\<lambda>_ _. True)"
  by (rule hh.triple_post [OF hh.triple_mapM [where R = "\<lambda>_ _ _. True"]]) (auto intro: hh_stable)

lemma hh_bind_plain:
  "hh.triple p (\<lambda>_. True) m (\<lambda>_ _. True) \<Longrightarrow> (\<And>a. hh.triple p (\<lambda>_. True) (f a) (\<lambda>_ _. True)) \<Longrightarrow>
   hh.triple p (\<lambda>_. True) (bind m f) (\<lambda>_ _. True)"
  by (rule hh.triple_bind) (auto intro: hh_stable)

lemmas hh_plain = hh_bind_plain hh_mapM_plain hh.triple_post [OF hh_get] hh_observe
  hh.triple_cases hh.triple_val hh.triple_fail hh.triple_ret hh.triple_of_opt

section \<open>Printing\<close>

lemma inspect_triple: "hh.triple p (\<lambda>_. True) (inspect quote nested anc h) (\<lambda>_ _. True)"
proof (induction "25 - length anc" arbitrary: nested anc h rule: less_induct)
  case less
  have IH: "hh.triple p (\<lambda>_. True) (inspect quote True (h # anc) x) (\<lambda>_ _. True)" if "\<not> 24 \<le> length anc" for x
    by (rule less) (use that in simp)
  show ?case
    unfolding inspect.simps [of quote nested anc h] seq_def
    by (intro hh_plain IH; simp)
qed

section \<open>The owner of a field\<close>

definition owner_ok :: "handle option \<Rightarrow> heap \<Rightarrow> bool" where
  "owner_ok w hp \<longleftrightarrow> (\<forall>h. w = Some h \<longrightarrow> is_record hp h)"

lemma owner_ok_stable: "hh.stable (owner_ok w)"
  unfolding owner_ok_def by (intro hh_stable)

lemma search_embeds_triple:
  assumes f: "\<And>x. hh.triple p (\<lambda>_. True) (f x) owner_ok"
  shows "hh.triple p (\<lambda>_. True) (search_embeds f h r es) owner_ok"
proof (induction es)
  case Nil
  show ?case by (auto intro: hh.triple_ret simp: owner_ok_def)
next
  case (Cons e es)
  have b: "hh.triple p (\<lambda>_. True)
      (bind (f x) (\<lambda>o'. case o' of Some w \<Rightarrow> ret (Some w) | None \<Rightarrow> search_embeds f h r es)) owner_ok" for x
    by (rule hh.triple_use [OF f], intro hh_stable, simp)
       (auto intro!: hh.triple_option hh.triple_ret hh.triple_weaken [OF Cons])
  show ?case
    unfolding search_embeds.simps
    by (rule hh.triple_use_seq [OF hh_observe], intro hh_stable, simp)
       (auto intro!: hh.triple_option hh.triple_weaken [OF Cons] hh.triple_weaken [OF b])
qed

lemma field_owner_fuel_triple: "hh.triple p (\<lambda>_. True) (field_owner_fuel k name h) owner_ok"
proof (induction k arbitrary: h)
  case 0
  show ?case by (auto intro: hh.triple_panic simp: excused_def)
next
  case (Suc k)
  show ?case
    unfolding field_owner_fuel.simps
    apply (rule hh.triple_use_seq [OF hh_observe], intro hh_stable, simp)
    apply (rule hh.triple_use [OF hh_get], intro hh_stable, simp)
    apply (intro hh.triple_val hh.triple_if hh.triple_weaken [OF search_embeds_triple] Suc hh.triple_ret)
    by (auto simp: owner_ok_def shaped_record)
qed

lemma field_owner_triple: "hh.triple p (\<lambda>_. True) (field_owner h name) owner_ok"
  unfolding field_owner_def
  by (rule hh.triple_bind [OF hh.stable_const hh.triple_gets [where Q = "\<lambda>_ _. True"]])
     (simp_all add: field_owner_fuel_triple del: field_owner_fuel.simps)

section \<open>Queries\<close>

lemma no_panic_simps [simp]:
  "no_panic (ok_or e x)" "no_panic (res_map f r) = no_panic r" "no_panic mismatch_shape"
  by (cases x, simp_all add: ok_or_def) (cases r, simp_all add: mismatch_shape_def)

lemma no_panic_val:
  assumes "no_panic m1" "no_panic m2" "\<And>d. v = V_Descriptor d \<Longrightarrow> no_panic (m3 d)"
    "\<And>n. v = V_Number n \<Longrightarrow> no_panic (m4 n)" "\<And>b. v = V_Bool b \<Longrightarrow> no_panic (m5 b)"
    "\<And>s. v = V_String s \<Longrightarrow> no_panic (m6 s)" "\<And>bs. v = V_Bytes bs \<Longrightarrow> no_panic (m7 bs)"
    "\<And>x. v = V_Host x \<Longrightarrow> no_panic (m8 x)" "\<And>hs. v = V_List hs \<Longrightarrow> no_panic (m9 hs)"
    "\<And>r. v = V_Record r \<Longrightarrow> no_panic (m10 r)" "\<And>m. v = V_Props m \<Longrightarrow> no_panic (m11 m)"
    "\<And>h. v = V_Cell h \<Longrightarrow> no_panic (m12 h)" "\<And>f cs sl. v = V_Closure f cs sl \<Longrightarrow> no_panic (m13 f cs sl)"
    "\<And>x. v = V_Promise x \<Longrightarrow> no_panic (m14 x)"
  shows "no_panic (case_val m1 m2 m3 m4 m5 m6 m7 m8 m9 m10 m11 m12 m13 m14 v)"
  using assms by (cases v) simp_all

lemma no_panic_cases:
  "(b \<Longrightarrow> no_panic x) \<Longrightarrow> (\<not> b \<Longrightarrow> no_panic y) \<Longrightarrow> no_panic (if b then x else y)"
  "(x1 = None \<Longrightarrow> no_panic m) \<Longrightarrow> (\<And>y. x1 = Some y \<Longrightarrow> no_panic (f y)) \<Longrightarrow>
    no_panic (case x1 of None \<Rightarrow> m | Some y \<Rightarrow> f y)"
  "(\<And>a b. z = (a, b) \<Longrightarrow> no_panic (g a b)) \<Longrightarrow> no_panic (case z of (a, b) \<Rightarrow> g a b)"
  by (cases x1; cases z; simp)+

lemmas no_panic_intros = no_panic_bind no_panic_val no_panic_cases no_panic_mapM

lemma enum_case_no_panic [simp]: "no_panic (enum_case hp r)"
  unfolding enum_case_def by (intro no_panic_intros; simp)

lemma enum_payload_no_panic [simp]: "no_panic (enum_payload r)"
  by (simp add: enum_payload_def)

lemma newtype_name_no_panic [simp]: "no_panic (newtype_name hp h)"
  unfolding newtype_name_def by (intro no_panic_intros; simp)

lemma type_of_no_panic: "no_panic (type_of hp h)"
  unfolding type_of_def by (intro no_panic_intros; simp)

lemma encode_fields_no_panic:
  "(\<And>h n s. (n, s) \<in> set fs \<Longrightarrow> no_panic (enc h s)) \<Longrightarrow> no_panic (encode_fields enc r fs)"
  unfolding encode_fields_def no_panic_simps by (intro no_panic_intros; simp)

lemma first_ok_no_panic: "(\<And>x. x \<in> set xs \<Longrightarrow> no_panic (f x)) \<Longrightarrow> no_panic (first_ok f e xs)"
proof (induction xs)
  case (Cons x xs)
  then have "no_panic (f x)" by simp
  then show ?case using Cons by (cases "f x") simp_all
qed simp

lemma encode_no_panic [simp]: "no_panic (encode hp h s)"
proof (induction hp h s rule: encode.induct)
  case (1 hp h kind)
  show ?case unfolding encode.simps by (intro no_panic_intros; simp add: encode_number_def)
next
  case (4 hp h fs)
  then show ?case unfolding encode.simps by (intro no_panic_intros encode_fields_no_panic; simp)
next
  case (5 hp h name ident fs embeds)
  then show ?case
    unfolding encode.simps by (intro no_panic_intros; simp add: encode_fields_no_panic)
next
  case (9 hp h members)
  then show ?case unfolding encode.simps by (intro no_panic_intros first_ok_no_panic; simp)
qed (unfold encode.simps; intro no_panic_intros; simp add: no_panic_mapM split: prod.split)+

lemma stringify_no_panic: "no_panic (stringify print hp h s)"
  by (simp add: stringify_def)

lemma json_items_no_panic [simp]: "no_panic (json_items e j)"
  by (simp add: json_items_def split: json.split)

lemma ordered_fields_no_panic:
  "(\<And>h n s c. (n, s) \<in> set fs \<Longrightarrow> no_panic (ord h s c)) \<Longrightarrow> no_panic (ordered_fields ord fs r object)"
  unfolding ordered_fields_def no_panic_simps by (intro no_panic_intros) (auto dest: bt_get_collect_in_set)

lemma no_panic_shape:
  assumes "\<And>k. s = Js_Leaf k \<Longrightarrow> no_panic (m1 k)" "\<And>n i fs e. s = Js_Struct n i fs e \<Longrightarrow> no_panic (m2 n i fs e)"
    "\<And>fs. s = Js_Record fs \<Longrightarrow> no_panic (m3 fs)" "\<And>ts. s = Js_Tuple ts \<Longrightarrow> no_panic (m4 ts)"
    "\<And>t. s = Js_Array t \<Longrightarrow> no_panic (m5 t)" "\<And>t. s = Js_Option t \<Longrightarrow> no_panic (m6 t)"
    "\<And>n cs. s = Js_Enum n cs \<Longrightarrow> no_panic (m7 n cs)" "\<And>n r. s = Js_Newtype n r \<Longrightarrow> no_panic (m8 n r)"
    "\<And>ms. s = Js_Union ms \<Longrightarrow> no_panic (m9 ms)"
  shows "no_panic (case_json_shape m1 m2 m3 m4 m5 m6 m7 m8 m9 s)"
  using assms by (cases s) simp_all

declare ordered.simps [simp del]

lemma ordered_no_panic: "no_panic (ordered hp h s checked flatten)"
proof (induction "2 * size s + (if flatten then 0 else 1 :: nat)" arbitrary: h s checked flatten rule: less_induct)
  case less
  show ?case
    unfolding ordered.simps [of hp h s checked flatten] prod.case
    by (intro no_panic_intros no_panic_shape ordered_fields_no_panic)
       (auto intro!: less no_panic_mapM dest: size_member simp: less_Suc_eq_le simp del: size_list_conv_sum_list)
qed

lemma jwt_stringify_no_panic: "no_panic (jwt_stringify print hp h s)"
  unfolding jwt_stringify_def by (intro no_panic_intros; simp add: ordered_no_panic)

end
