(* ===== verification/VmTriples.thy ===== *)
theory VmTriples
  imports VmInv OpsTriples
begin

text \<open>
  Triples of what the instructions share, over the machine's invariant: work on the heap
  lifted to the machine, setting up calls, spawning tasks, joining, interning descriptors.
\<close>

section \<open>Lifting\<close>

lemma vv_heap:
  assumes "hh.triple p P m Q"
  shows "vv.triple p held (\<lambda>v. P (vheap v)) (on_heap m) (\<lambda>a v. Q a (vheap v))"
  unfolding on_heap_def
  by (rule zoom_triple [OF assms hh.hoare_axioms vv.hoare_axioms])
     (auto simp: vm_ext_def intro: vm_inv_heap heap_ext_ext1, simp add: vm_inv_def)

lemma vv_stable1: "(\<And>a b. P a \<Longrightarrow> heap_ext1 a b \<Longrightarrow> P b) \<Longrightarrow> vv.stable (\<lambda>v. P (vheap v))"
  unfolding vv.stable_def vm_ext_def by blast

lemma vv_stable_facts:
  "vv.stable (\<lambda>v. live (vheap v) h)"
  "vv.stable (\<lambda>v. handles_live (vheap v) hs)"
  "vv.stable (\<lambda>v. shaped (vheap v) h x)"
  "vv.stable (\<lambda>v. is_cell (vheap v) h)"
  "vv.stable (\<lambda>v. is_record (vheap v) h)"
  "vv.stable (\<lambda>v. val_ok p (vheap v) x)"
  "vv.stable (\<lambda>v. closure_ok p (vheap v) f cs)"
  "vv.stable (\<lambda>v. frame_ok p (vheap v) fr)"
  "vv.stable (\<lambda>v. is_promise_at (vheap v) h)"
  "vv.stable (\<lambda>v. work_ok p (vheap v) w)"
  by (rule vv_stable1, blast intro: live_ext1 handles_live_ext1 shaped_ext1 is_cell_ext1 is_record_ext1
      val_ok_ext1 closure_ok_ext1 frame_ok_ext1 is_promise_at_ext1 work_ok_ext1)+

lemmas vv_stable = vv_stable_facts vv.stable_const vv.stable_conj vv.stable_imp vv.stable_all vv.stable_ball

lemma vv_alloc: "vv.triple p held (\<lambda>v. val_ok p (vheap v) x) (vm_alloc x) (\<lambda>h v. shaped (vheap v) h x)"
  unfolding vm_alloc_def by (rule vv_heap [OF hh_alloc])

lemma vv_alloc_live: "vv.triple p held (\<lambda>v. val_ok p (vheap v) x) (vm_alloc x) (\<lambda>h v. live (vheap v) h)"
  by (rule vv.triple_post [OF vv_alloc]) (rule shaped_live)

lemma vv_get:
  "vv.triple p held (\<lambda>_. True) (on_heap (get_m h)) (\<lambda>x v. val_ok p (vheap v) x \<and> shaped (vheap v) h x)"
  by (rule vv_heap [OF hh_get])

lemma vv_enum:
  "vv.triple p held (\<lambda>v. \<forall>h. pl = Some h \<longrightarrow> live (vheap v) h) (enum_value n c i pl) (\<lambda>h v. live (vheap v) h)"
  unfolding enum_value_def by (rule vv_heap [OF hh_alloc_enum_live])

lemma vv_value_text: "vv.triple p held (\<lambda>_. True) (value_text h) (\<lambda>_ _. True)"
  unfolding value_text_def
  by (rule vv.triple_bind [OF vv.stable_const vv.triple_gets [where Q = "\<lambda>_ _. True"]])
     (simp_all add: vv_heap [OF inspect_triple])

section \<open>Spawning\<close>

lemma pending_alloc:
  assumes "heap_alloc x hp = (h, hp')" and "heap_wf hp" and "pending hp h'"
  shows "h' \<noteq> h"
  using heap_alloc_get(2) [OF assms(2,1)] assms(3) by (auto simp: pending_def)

lemma bt_values_insert_fresh:
  assumes "bt_inv m" and "\<forall>i \<in> set (bt_keys m). i < (k :: nat)"
  shows "bt_insert k x m = m @ [(k, x)]"
  using assms
proof (induction m)
  case (Cons e m)
  then show ?case by (cases e) (auto simp: bt_keys_def bt_inv_def)
qed simp

lemma vv_spawn: "vv.triple p held (\<lambda>v. work_ok p (vheap v) w) (vm_spawn w) (\<lambda>h v. is_promise_at (vheap v) h)"
proof (rule vv.tripleI)
  fix s r t
  assume a: "vm_inv p held s" "work_ok p (vheap s) w" "vm_spawn w s = (r, t)"
  obtain h hp where al: "heap_alloc (V_Promise None) (vheap s) = (h, hp)" by fastforce
  let ?w = "case w of W_Host hw \<Rightarrow> W_Host (hw\<lparr>hw_ready := True\<rparr>) | _ \<Rightarrow> w"
  let ?t = "\<lparr>tk_promise = h, tk_work = ?w, tk_waiting = None, tk_completion = None\<rparr>"
  have t: "r = Ok h" "t = s\<lparr>vheap := hp, tasks := bt_insert (next_task s) ?t (tasks s), next_task := Suc (next_task s)\<rparr>"
    using a(3) al by (simp_all add: vm_spawn_def Let_def)
  have ok: "heap_ok p (vheap s)" and tk: "tasks_ok p (vheap s) held s" using a(1) by (simp_all add: vm_inv_def)
  note b = heap_ok_alloc [OF ok _ al, simplified]
  note e1 = heap_ext_ext1 [OF b(2)]
  have wf: "heap_wf (vheap s)" using ok by (simp add: heap_ok_def)
  have keys: "\<forall>i \<in> set (bt_keys (tasks s)). i < next_task s" and inv: "bt_inv (tasks s)"
    using tk by (simp_all add: tasks_ok_def)
  have ins: "bt_insert (next_task s) ?t (tasks s) = tasks s @ [(next_task s, ?t)]"
    by (rule bt_values_insert_fresh [OF inv keys])
  have binv: "bt_inv (bt_insert (next_task s) ?t (tasks s))" by (rule bt.inv_insert [OF inv])
  have w': "task_ok p hp ?t"
    using work_ok_ext1 [OF a(2) e1] by (cases w) (auto simp: task_ok_def work_ok_def completion_ok_def)
  have new: "h \<notin> set (held @ map tk_promise (bt_values (tasks s)))"
    using pending_alloc [OF al wf] tk unfolding tasks_ok_def by blast
  have tk': "tasks_ok p hp held s" by (rule tasks_ok_ext [OF tk b(2)])
  have "tasks_ok p hp held t"
    using tk' w' new keys binv b(3)
    by (auto simp: t tasks_ok_def ins bt_values_def bt_keys_def pending_def less_Suc_eq)
  moreover have "vm_inv p held (s\<lparr>vheap := hp\<rparr>)" by (rule vm_inv_heap [OF a(1) b(1,2)])
  ultimately have "vm_inv p held t" by (simp add: t vm_inv_def)
  then show "vm_inv p held t \<and> vm_ext s t \<and> (\<forall>q. r = Panic q \<longrightarrow> excused q) \<and>
      (\<forall>h. r = Ok h \<longrightarrow> is_promise_at (vheap t) h)"
    using t e1 b(3) by (auto simp: vm_ext_def is_promise_at_def)
qed

lemma vv_spawn_live: "vv.triple p held (\<lambda>v. work_ok p (vheap v) w) (vm_spawn w) (\<lambda>h v. live (vheap v) h)"
  by (rule vv.triple_post [OF vv_spawn]) (rule is_promise_at_live)

lemma join_ok_new:
  "handles_live hp hs \<Longrightarrow> join_ok hp \<lparr>jn_kind = k, jn_inputs = hs, jn_values = replicate (length hs) None,
     jn_remaining = length hs, jn_cursor = 0, jn_created = n, jn_scan = m, jn_checked = c, jn_first = None\<rparr>"
  by (simp add: join_ok_def filter_replicate)

lemma vv_join: "vv.triple p held (\<lambda>_. True) (vm_join kind l) (\<lambda>h v. live (vheap v) h)"
  unfolding vm_join_def
  apply (rule vv.triple_use [OF vv_get], intro vv_stable, simp)
  apply (intro vv.triple_val vv.triple_fail)
  apply (rule vv.triple_bind [OF _ vv.triple_gets [where Q = "\<lambda>_ _. True"]], (intro vv_stable)[1], simp)
  by (rule vv.triple_pre [OF vv_spawn_live]) (simp add: work_ok_def join_ok_new)

section \<open>Calls\<close>

lemma hh_cells:
  "hh.triple p (\<lambda>hp. handles_live hp hs) (alloc_cells hs)
     (\<lambda>cs hp. length cs = length hs \<and> (\<forall>c \<in> set cs. is_cell hp c))"
proof -
  have "hh.triple p (\<lambda>hp. handles_live hp hs) (mapM (\<lambda>a. alloc_m (V_Cell a)) hs)
      (\<lambda>cs hp. list_all2 (\<lambda>x y. is_cell hp y) hs cs)"
    by (rule hh.triple_mapM, intro hh_stable, intro hh_stable,
        rule hh.triple_post [OF hh.triple_pre [OF hh_alloc]]) (auto simp: handles_live_def shaped_cell)
  then show ?thesis
    unfolding alloc_cells_def
    by (rule hh.triple_post) (auto simp: list_all2_conv_all_nth in_set_conv_nth)
qed

lemma hh_fill:
  "hh.triple p (\<lambda>_. True) (fill_cells n) (\<lambda>cs hp. length cs = n \<and> (\<forall>c \<in> set cs. is_cell hp c))"
proof -
  have one: "hh.triple p (\<lambda>_. True) (bind (alloc_m V_Unit) (\<lambda>u. alloc_m (V_Cell u))) (\<lambda>c hp. is_cell hp c)"
    by (rule hh.triple_use [OF hh_alloc_live], intro hh_stable, simp,
        rule hh.triple_post [OF hh.triple_pre [OF hh_alloc]]) (auto simp: shaped_cell)
  have "hh.triple p (\<lambda>_. True) (fill_cells n) (\<lambda>cs hp. list_all2 (\<lambda>x y. is_cell hp y) (replicate n ()) cs)"
    unfolding fill_cells_def by (rule hh.triple_mapM, intro hh_stable, intro hh_stable, rule one)
  then show ?thesis
    by (rule hh.triple_post) (auto simp: list_all2_conv_all_nth in_set_conv_nth)
qed

definition call_ready :: "heap \<Rightarrow> handle list \<Rightarrow> handle list \<Rightarrow> handle option \<Rightarrow> bool" where
  "call_ready hp caps args sl \<longleftrightarrow>
     (\<forall>c \<in> set caps. is_cell hp c) \<and> handles_live hp args \<and> (\<forall>h. sl = Some h \<longrightarrow> live hp h)"

lemma call_ready_ext1: "call_ready a caps args sl \<Longrightarrow> heap_ext1 a b \<Longrightarrow> call_ready b caps args sl"
  unfolding call_ready_def by (auto intro: is_cell_ext1 live_ext1 handles_live_ext1)

lemma call_ready_stable: "hh.stable (\<lambda>hp. call_ready hp caps args sl)" "vv.stable (\<lambda>v. call_ready (vheap v) caps args sl)"
  by (rule hh_stable1, rule call_ready_ext1, assumption, assumption,
      rule vv_stable1, rule call_ready_ext1)

lemma hh_new_frame:
  assumes "program_safe p"
  shows "hh.triple p (\<lambda>hp. call_ready hp caps args sl) (new_frame p f caps args sl)
    (\<lambda>fr hp. frame_ok p hp fr \<and> fr_function fr = f)"
proof (cases "length (funcs p) \<le> f \<or> length args > parameters (funcs p ! f) \<or> length caps \<noteq> captures (funcs p ! f)")
  case True
  then show ?thesis by (auto simp: new_frame_def Let_def intro: hh.triple_fail)
next
  case False
  then have f: "f < length (funcs p)" "length args \<le> parameters (funcs p ! f)" "length caps = captures (funcs p ! f)"
    by auto
  have len: "length caps + length args \<le> locals (funcs p ! f)"
    using program_safe_locals [OF assms f(1)] f(2,3) by linarith
  have e: "new_frame p f caps args sl =
      bind (alloc_cells args) (\<lambda>cells.
      bind (fill_cells (locals (funcs p ! f) - (length caps + length args))) (\<lambda>rest.
      ret \<lparr>fr_function = f, ip = 0, frame_locals = caps @ cells @ rest, stack = [],
           slot_children = sl, then_call = None, handlers = []\<rparr>))"
    using f by (simp add: new_frame_def Let_def)
  show ?thesis
    unfolding e
    apply (rule hh.triple_use [OF hh_cells], rule call_ready_stable(1), simp add: call_ready_def)
    apply (rule hh.triple_use [OF hh_fill], intro hh_stable call_ready_stable(1), simp)
    by (rule hh.triple_ret) (use f len in \<open>auto simp: frame_ok_def call_ready_def\<close>)
qed

lemma vv_prog: "vv.triple p held (\<lambda>_. True) (gets prog) (\<lambda>q _. q = p)"
  by (rule vv.triple_gets) (simp add: vm_inv_def)

lemma vv_frame:
  "vv.triple p held (\<lambda>v. call_ready (vheap v) caps args sl) (vm_frame f caps args sl)
     (\<lambda>fr v. frame_ok p (vheap v) fr \<and> fr_function fr = f)"
proof (rule vv.triple_pull [where C = "program_safe p"])
  fix s assume "vm_inv p held s" then show "program_safe p" by (simp add: vm_inv_def)
next
  assume safe: "program_safe p"
  show ?thesis
    unfolding vm_frame_def
    apply (rule vv.triple_use [OF vv_prog], rule call_ready_stable(2), simp)
    subgoal for q
      by (rule vv.triple_pull [where C = "q = p"], simp, simp only:,
          rule vv.triple_pre [OF vv_heap [OF hh_new_frame [OF safe]]], simp)
    done
qed

lemma vv_function_at:
  "f < length (funcs p) \<Longrightarrow> vv.triple p held (\<lambda>_. True) (function_at f) (\<lambda>fn _. fn = funcs p ! f)"
  unfolding function_at_def
  by (rule vv.triple_use [OF vv_prog], intro vv_stable, simp, intro vv.triple_if vv.triple_ret vv.triple_panic) auto

definition invocation_ok :: "program \<Rightarrow> heap \<Rightarrow> invocation \<Rightarrow> bool" where
  "invocation_ok p hp i \<longleftrightarrow> (case i of Inv_Frame f \<Rightarrow> frame_ok p hp f | Inv_Task h \<Rightarrow> live hp h)"

lemma vv_invoke:
  "vv.triple p held (\<lambda>v. call_ready (vheap v) caps args sl) (invoke f caps args sl) (\<lambda>i v. invocation_ok p (vheap v) i)"
  unfolding invoke_def
  apply (rule vv.triple_use [OF vv_frame], rule call_ready_stable(2), simp)
  apply (rule vv.triple_pull [where C = "f < length (funcs p)"], force simp: frame_ok_def)
  apply (rule vv.triple_use [OF vv_function_at], assumption, intro vv_stable call_ready_stable(2), simp)
  apply (rule vv.triple_if)
   apply (rule vv.triple_use [OF vv_spawn_live], (intro vv_stable call_ready_stable(2))[1], simp add: work_ok_def)
   apply (rule vv.triple_ret, simp add: invocation_ok_def)
  by (rule vv.triple_ret) (simp add: invocation_ok_def)

section \<open>Descriptors\<close>

lemma vv_intern: "vv.triple p held (\<lambda>_. True) (intern_descriptor d) (\<lambda>h v. live (vheap v) h)"
proof (rule vv.tripleI)
  fix s r t
  assume a: "vm_inv p held s" "intern_descriptor d s = (r, t)"
  show "vm_inv p held t \<and> vm_ext s t \<and> (\<forall>q. r = Panic q \<longrightarrow> excused q) \<and> (\<forall>h. r = Ok h \<longrightarrow> live (vheap t) h)"
  proof (cases "bt_get (descriptors s) d")
    case (Some h)
    then show ?thesis
      using a bt_get_live [of "vheap s" "descriptors s" d h]
      by (auto simp: intern_descriptor_def vm_inv_def roots_ok_def vv.ext_refl)
  next
    case None
    obtain h hp where al: "heap_alloc (V_Descriptor d) (vheap s) = (h, hp)" by fastforce
    have t: "r = Ok h" "t = s\<lparr>vheap := hp, descriptors := bt_insert d h (descriptors s)\<rparr>"
      using a(2) al None by (simp_all add: intern_descriptor_def)
    have ok: "heap_ok p (vheap s)" using a(1) by (simp add: vm_inv_def)
    note b = heap_ok_alloc [OF ok _ al, simplified]
    have v: "vm_inv p held (s\<lparr>vheap := hp\<rparr>)" by (rule vm_inv_heap [OF a(1) b(1,2)])
    have l: "live hp h" using b(3) by (simp add: live_iff)
    have "roots_ok hp t"
      using v l bt_values_insert [of d h "descriptors s"]
      by (auto simp: t vm_inv_def roots_ok_def bt.inv_insert handles_live_def)
    then have "vm_inv p held t" using v by (simp add: t vm_inv_def)
    then show ?thesis using t l heap_ext_ext1 [OF b(2)] by (simp add: vm_ext_def)
  qed
qed

end
