(* ===== verification/BoundaryTriples.thy ===== *)
theory BoundaryTriples
  imports VmTriples
begin

text \<open>
  The host boundary: what host code does to its context keeps the context well formed,
  values cross in both directions without a panic, and the result of an operation is
  checked before it enters the heap.
\<close>

section \<open>The context\<close>

lemma ctx_ok_upd [simp]:
  "ctx_ok hp (c\<lparr>ready := b\<rparr>) = ctx_ok hp c"
  "ctx_ok hp (c\<lparr>has_waker := b\<rparr>) = ctx_ok hp c"
  "ctx_ok hp (c\<lparr>jobs := js\<rparr>) = ctx_ok hp c"
  "ctx_ok hp (c\<lparr>next_job := n\<rparr>) = ctx_ok hp c"
  "ctx_ok hp (c\<lparr>cancelled := cs\<rparr>) = ctx_ok hp c"
  "ctx_ok hp (c\<lparr>completions := cps\<rparr>) = ctx_ok hp c"
  "ctx_ok hp (c\<lparr>next_completion := n\<rparr>) = ctx_ok hp c"
  "ctx_ok hp (c\<lparr>next_callback := n\<rparr>) = ctx_ok hp c"
  "ctx_ok hp (c\<lparr>alive := b\<rparr>) = ctx_ok hp c"
  by (simp_all add: ctx_ok_def)

lemma ctx_ok_finish [simp]: "ctx_ok hp (finish cp r c) = ctx_ok hp c"
  by (simp add: finish_def split: option.split)

lemma ctx_ok_drop [simp]: "ctx_ok hp (drop_completion cp c) = ctx_ok hp c"
  by (simp add: drop_completion_def split: option.split)

lemma ctx_ok_drops [simp]: "ctx_ok hp (foldl (\<lambda>c x. drop_completion (f x) c) c xs) = ctx_ok hp c"
  by (induction xs arbitrary: c) simp_all

lemma ctx_ok_new [simp]: "ctx_ok hp (new_context i)"
  by (simp add: ctx_ok_def new_context_def)

lemma ctx_ok_set_waker [simp]: "ctx_ok hp (ctx_set_waker c) = ctx_ok hp c"
  by (simp add: ctx_set_waker_def)

lemma list_all2_right: "list_all2 (\<lambda>x y. Q y) xs ys \<Longrightarrow> \<forall>y \<in> set ys. Q y"
  by (induction rule: list_all2_induct) simp_all

interpretation cc: hoare "ctx_ok hp" "\<lambda>_ _. True" for hp
  by unfold_locales auto

lemma cc_stable: "cc.stable (\<lambda>_. C)"
  by (rule cc.stable_const)

lemma cc_modify: "(\<And>c. ctx_ok hp (f c) = ctx_ok hp c) \<Longrightarrow> cc.triple hp (\<lambda>_. True) (modify f) (\<lambda>_ _. True)"
  by (rule cc.triple_modify) simp

lemma cc_enqueue: "command_ok cmd \<Longrightarrow> cc.triple hp (\<lambda>_. True) (ctx_enqueue cmd) (\<lambda>_ _. True)"
  by (rule cc.tripleI) (auto simp: ctx_enqueue_def ctx_ok_def drop_completion_def finish_def
      split: if_splits option.splits)

lemma ctx_ok_enqueue: "command_ok cmd \<Longrightarrow> ctx_ok hp c \<Longrightarrow> ctx_ok hp (snd (ctx_enqueue cmd c))"
  using cc_enqueue [of cmd hp] unfolding cc.triple_def by blast

lemma ctx_ok_cb_enqueue:
  "completion_ok cp \<Longrightarrow> ctx_ok hp c \<Longrightarrow> ctx_ok hp (snd (cb_enqueue cb args job cp c))"
  by (auto simp: cb_enqueue_def monad_defs intro!: ctx_ok_enqueue split: option.splits res.splits)

lemma completion_ok_None [simp]: "completion_ok None"
  by (simp add: completion_ok_def)

lemma ctx_ok_effect: "event_ok e \<Longrightarrow> ctx_ok hp c \<Longrightarrow> ctx_ok hp (host_effect e c)"
proof (cases e)
  case (Ev_CallAsync cb args)
  assume e: "event_ok e" and c: "ctx_ok hp c"
  show ?thesis
  proof (cases "hc_sig cb")
    case None
    then show ?thesis using c Ev_CallAsync by (simp add: cb_call_async_def)
  next
    case (Some sg)
    let ?cp = "\<lparr>cp_id = next_completion c, cp_result = sig_result sg, cp_channel = sig_channel sg\<rparr>"
    let ?c = "c\<lparr>completions := bt_insert (next_completion c) None (completions c), next_completion := Suc (next_completion c)\<rparr>"
    have "ctx_ok hp (snd (cb_enqueue cb args None (Some ?cp) ?c))"
      by (rule ctx_ok_cb_enqueue) (use e c Ev_CallAsync Some in \<open>auto simp: completion_ok_def\<close>)
    moreover have "host_effect e c = snd (cb_enqueue cb args None (Some ?cp) ?c)"
      by (simp add: Ev_CallAsync cb_call_async_def Some Let_def monad_defs split: prod.split res.split)
    ultimately show ?thesis by simp
  qed
qed (auto simp: ctx_job_def ctx_spawn_def ctx_cancel_def cb_call_def cb_call_for_def Let_def
      intro!: ctx_ok_enqueue ctx_ok_cb_enqueue, auto simp: ctx_ok_def split: if_splits)

lemma ctx_ok_events: "\<forall>e \<in> set evs. event_ok e \<Longrightarrow> ctx_ok hp c \<Longrightarrow> ctx_ok hp (host_events evs c)"
  unfolding host_events_def by (induction evs arbitrary: c) (auto intro: ctx_ok_effect)

lemma ctx_ok_take: "ctx_ok hp c \<Longrightarrow> ctx_take n c = (cmds, c') \<Longrightarrow> ctx_ok hp c' \<and> (\<forall>cmd \<in> set cmds. command_ok cmd)"
  by (auto simp: ctx_take_def ctx_ok_def Let_def dest!: in_set_takeD in_set_dropD)

lemma ctx_ok_roots:
  "ctx_ok hp c \<Longrightarrow> ctx_roots c = (cbs, c') \<Longrightarrow> ctx_ok hp c' \<and> handles_live hp cbs"
  by (auto simp: ctx_roots_def ctx_ok_def Let_def handles_live_def)

lemma ctx_ok_close: "ctx_ok hp (ctx_close c)"
  by (simp add: ctx_close_def) (simp add: ctx_ok_def)

section \<open>Values to the host\<close>

lemma cc_callback: "live hp h \<Longrightarrow> cc.triple hp (\<lambda>_. True) (\<lambda>c. case ctx_callback h c of (cb, c') \<Rightarrow> (Ok (HV_Callback cb), c'))
    (\<lambda>v _. hv_wf v)"
  by (rule cc.tripleI) (auto simp: ctx_callback_def ctx_ok_def)

lemma cc_lift_get: "cc.triple hp (\<lambda>_. True) (lift_res (heap_get hp h)) (\<lambda>v _. heap_get hp h = Ok v)"
  by (rule cc.triple_lift_res) auto

lemma cc_of_opt: "cc.triple hp (\<lambda>_. True) (of_opt e x) (\<lambda>_ _. True)"
  by (rule cc.triple_of_opt) simp

lemma cc_items:
  assumes "\<And>x. x \<in> set xs \<Longrightarrow> cc.triple hp (\<lambda>_. True) (f x) (\<lambda>v _. Q x v)"
  shows "cc.triple hp (\<lambda>_. True) (mapM f xs) (\<lambda>vs _. list_all2 Q xs vs)"
  by (rule cc.triple_mapM [OF cc_stable cc_stable]) (rule assms)

lemma cc_use:
  "cc.triple hp (\<lambda>_. True) m (\<lambda>a _. Q a) \<Longrightarrow> (\<And>a. Q a \<Longrightarrow> cc.triple hp (\<lambda>_. True) (f a) R) \<Longrightarrow>
   cc.triple hp (\<lambda>_. True) (bind m f) R"
  by (rule cc.triple_bind [OF cc_stable], assumption) (rule cc.triple_pull, auto)

lemma bt_inv_same_keys: "bt_inv m \<Longrightarrow> list_all2 (\<lambda>x y. fst y = fst x) m m' \<Longrightarrow> bt_inv m'"
proof -
  assume "bt_inv m" and a: "list_all2 (\<lambda>x y. fst y = fst x) m m'"
  have "bt_keys m' = bt_keys m"
    using a unfolding bt_keys_def by (induction rule: list_all2_induct) simp_all
  with \<open>bt_inv m\<close> show "bt_inv m'" by (simp add: bt_inv_def bt_keys_def)
qed

lemma to_host_triple:
  assumes ok: "heap_ok p hp"
  shows "cc.triple hp (\<lambda>_. True) (to_host_inner hp anc h) (\<lambda>v _. hv_wf v)"
proof (induction "65 - length anc" arbitrary: anc h rule: less_induct)
  case less
  show ?case
  proof (cases "h \<in> set anc \<or> 64 \<le> length anc")
    case True
    then show ?thesis by (auto simp: to_host_inner.simps [of hp anc h] cc.triple_fail)
  next
    case False
    then have IH: "cc.triple hp (\<lambda>_. True) (to_host_inner hp (h # anc) x) (\<lambda>v _. hv_wf v)" for x
      by (intro less) auto
    have list: "cc.triple hp (\<lambda>_. True) (mapM (to_host_inner hp (h # anc)) xs) (\<lambda>vs _. \<forall>v \<in> set vs. hv_wf v)" for xs
      by (rule cc.triple_post [OF cc_items [of xs hp _ "\<lambda>_ v. hv_wf v"]])
         (auto intro: IH simp: list_all2_conv_all_nth in_set_conv_nth)
    have fields: "cc.triple hp (\<lambda>_. True)
        (mapM (\<lambda>(n, x). bind (to_host_inner hp (h # anc) x) (\<lambda>y. ret (n, y))) fs)
        (\<lambda>vs _. list_all2 (\<lambda>x y. fst y = fst x \<and> hv_wf (snd y)) fs vs)" for fs
      by (rule cc_items) (auto intro!: cc_use [OF IH] cc.triple_ret)
    have wf: "bt_inv vs \<and> (\<forall>(n, v) \<in> set vs. hv_wf v)"
      if "bt_inv fs" and "list_all2 (\<lambda>x y. fst y = fst x \<and> hv_wf (snd y)) fs vs"
      for fs :: "(string \<times> handle) list" and vs
    proof
      show "bt_inv vs" by (rule bt_inv_same_keys [OF that(1) list_all2_mono [OF that(2)]]) simp
      show "\<forall>(n, v) \<in> set vs. hv_wf v"
        using that(2) by (induction rule: list_all2_induct) auto
    qed
    have rec: "bt_inv (rec_fields r)" if "heap_get hp h = Ok (V_Record r)" for r
      using heap_okD [OF ok that] by (simp add: record_ok_def)
    have live: "live hp h" if "heap_get hp h = Ok v" for v using that by (simp add: live_iff)
    note rules = cc_use [OF cc_lift_get] cc_use [OF cc_of_opt] cc_use [OF list] cc_use [OF fields] cc_use [OF IH]
      cc.triple_val cc.triple_cases cc.triple_fail cc.triple_ret cc_callback
    have e: "(h \<in> set anc) = False" "(64 \<le> length anc) = False" using False by auto
    show ?thesis
      unfolding to_host_inner.simps [of hp anc h] e if_False
      by (intro rules) (auto intro: live dest: wf [OF rec] split: option.splits)
  qed
qed

lemma vv_to_host: "vv.triple p held (\<lambda>_. True) (to_host h) (\<lambda>x _. hv_wf x)"
proof (rule vv.tripleI)
  fix s r t
  assume a: "vm_inv p held s" "to_host h s = (r, t)"
  obtain r1 c where run: "to_host_inner (vheap s) [] h (ctx s) = (r1, c)" by fastforce
  have t: "r = r1" "t = s\<lparr>ctx := c\<rparr>"
    using a(2) run by (simp_all add: to_host_def on_ctx_def monad_defs)
  have "heap_ok p (vheap s)" and c0: "ctx_ok (vheap s) (ctx s)" using a(1) by (simp_all add: vm_inv_def)
  note d = cc.triple_D [OF to_host_triple [OF this(1)] c0 TrueI run]
  show "vm_inv p held t \<and> vm_ext s t \<and> (\<forall>q. r = Panic q \<longrightarrow> excused q) \<and> (\<forall>x. r = Ok x \<longrightarrow> hv_wf x)"
    using d vm_inv_ctx [OF a(1) d(1)] by (auto simp: t vm_ext_def heap_ext1_refl)
qed

section \<open>Values from the host\<close>

lemma record_ok_struct:
  "record_ok \<lparr>rec_fields = bt_collect ps, rec_struct_name = a, rec_struct_identity = b, rec_enum_name = c,
     rec_order = bt_keys (bt_collect ps), rec_embeds = es\<rparr>"
  by (simp add: record_ok_def)

lemma record_ok_from_iter: "record_ok (record_from_iter ps)"
proof -
  have "record_ok r \<Longrightarrow> record_ok (foldl (\<lambda>r (n, h). rec_put n h r) r ps)" for r
    by (induction ps arbitrary: r) (auto simp: rec_put_ok)
  from this [of empty_record] show ?thesis
    by (simp add: record_from_iter_def record_ok_def empty_record_def bt.inv_empty)
qed

lemma alloc_host_triple: "hh.triple p (\<lambda>_. True) (alloc_host_inner hs c d v) (\<lambda>h hp. live hp h)"
proof (induction "65 - d" arbitrary: d v rule: less_induct)
  case less
  show ?case
  proof (cases "64 \<le> d")
    case True
    then show ?thesis by (simp add: alloc_host_inner.simps [of hs c d v] hh.triple_fail)
  next
    case False
    then have IH: "hh.triple p (\<lambda>_. True) (alloc_host_inner hs c (Suc d) x) (\<lambda>h hp. live hp h)" for x
      by (intro less) simp
    have list: "hh.triple p (\<lambda>_. True) (mapM f xs) (\<lambda>hs hp. handles_live hp hs)"
      if "\<And>x. hh.triple p (\<lambda>_. True) (f x) (\<lambda>h hp. live hp h)" for f :: "'x \<Rightarrow> (heap, handle) rm" and xs
      by (rule hh.triple_post [OF hh.triple_mapM [where R = "\<lambda>_ h hp. live hp h"]])
         (auto intro: hh_stable that simp: list_all2_conv_all_nth handles_live_def in_set_conv_nth)
    have fields: "hh.triple p (\<lambda>_. True)
        (mapM (\<lambda>(n, x). bind (alloc_host_inner hs c (Suc d) x) (\<lambda>h. ret (n, h))) fs)
        (\<lambda>ps hp. handles_live hp (map snd ps))" for fs
      by (rule hh.triple_post [OF hh.triple_mapM [where R = "\<lambda>_ y hp. live hp (snd y)"]])
         (auto intro!: hh_stable hh.triple_use [OF IH] hh.triple_ret
           simp: handles_live_def dest: list_all2_right)
    have opt: "hh.triple p (\<lambda>_. True) (of_opt e x) (\<lambda>_ _. True)" for e and x :: "'y option"
      by (rule hh.triple_of_opt) simp
    have str: "hh.triple p (\<lambda>_. True) (mapM (\<lambda>s. alloc_m (V_String s)) ss) (\<lambda>hs hp. handles_live hp hs)" for ss
      by (rule list) (rule hh.triple_pre [OF hh_alloc_live], simp)
    have e: "(64 \<le> d) = False" using False by simp
    note rules = hh.triple_cases hh.triple_fail hh_stable hh.triple_use [OF IH] hh.triple_use [OF fields]
      hh.triple_use [OF list [OF IH]] hh.triple_use [OF str] hh.triple_use [OF opt] hh.triple_use [OF hh_get]
      hh.triple_last [OF hh_alloc_live] hh.triple_last [OF hh_alloc_enum_live] hh.triple_ret
    show ?thesis
      unfolding alloc_host_inner.simps [of hs c d v] e if_False
      by (cases v; simp only: host_value.case; intro rules)
         (auto simp: record_ok_struct bt_collect_live shaped_live record_from_iter_ok record_ok_from_iter)
  qed
qed

lemma vv_alloc_host: "vv.triple p held (\<lambda>_. True) (alloc_host_value x) (\<lambda>h v. live (vheap v) h)"
  unfolding alloc_host_value_def
  by (rule vv.triple_bind [OF vv.stable_const vv.triple_gets [where Q = "\<lambda>_ _. True"]], simp)
     (rule vv.triple_prod, rule vv.triple_pre [OF vv_heap [OF alloc_host_triple]], simp)

lemma normalize_ok:
  "type_ok t \<Longrightarrow> hv_wf v \<Longrightarrow> accepts t v \<Longrightarrow> \<exists>v'. normalize t v = Ok v' \<and> hv_wf v'"
  using normalize_norm_ok [of t v] by (auto simp: type_ok_def norm_ok_def)

lemma vv_host_result:
  assumes t: "type_ok expected" and v: "result_wf value"
  shows "vv.triple p held (\<lambda>_. True) (host_result value expected ch err) (\<lambda>h v. live (vheap v) h)"
proof (cases "value")
  case (Inl e)
  note rules = vv.triple_cases vv.triple_fail vv_stable vv.triple_use [OF vv_alloc_host]
    vv.triple_use [OF vv_alloc_live] vv.triple_use [OF vv_enum] vv.triple_last [OF vv_enum] vv.triple_ret
  have p: "vv.triple p held (\<lambda>_. True) (case err of
      Some typed \<Rightarrow> alloc_host_value (HV_Enum (brand (he_name typed)) (he_case typed) (Some (HV_String e)))
    | None \<Rightarrow> vm_alloc (V_String e)) (\<lambda>h v. live (vheap v) h)"
    by (intro vv.triple_option vv_alloc_host vv.triple_pre [OF vv_alloc_live]) simp
  show ?thesis
    unfolding host_result_def Inl sum.case
    by (intro rules vv.triple_use [OF p]) auto
next
  case (Inr x)
  note rules = vv.triple_cases vv.triple_fail vv_stable vv.triple_use [OF vv_alloc_host]
    vv.triple_last [OF vv_enum] vv.triple_ret
  show ?thesis
  proof (cases "accepts expected x")
    case True
    then obtain x' where x': "normalize expected x = Ok x'"
      using normalize_ok [OF t] v Inr by (auto simp: result_wf_def)
    have l: "bind (lift_res (Ok x')) f = f x'" for f :: "host_value \<Rightarrow> (vm, handle) rm"
      by (simp add: monad_defs)
    show ?thesis
      unfolding host_result_def Inr sum.case x' l using True
      by (intro rules) auto
  qed (simp add: host_result_def Inr vv.triple_fail)
qed

section \<open>Calls of host operations\<close>

lemma op_types_ok: "op_ok op \<Longrightarrow> t \<in> set (op_types op) \<Longrightarrow> type_ok t"
  by (auto simp: op_ok_def op_wf_def type_ok_def)

definition reply_ok :: "host_reply \<times> host_op \<Rightarrow> bool" where
  "reply_ok x \<longleftrightarrow> (case x of (reply, op) \<Rightarrow> type_ok (op_result op) \<and> (\<forall>r. reply = Reply_Ready r \<longrightarrow> result_wf r))"

lemma host_call_ok:
  assumes ok: "hosts_ok hs" "handlers_ok hs" and c: "ctx_ok hp c" and args: "\<forall>v \<in> set args. hv_wf v"
    and run: "host_call hs now name args c = (r, c')"
  shows "ctx_ok hp c'" and "no_panic r" and "r = Ok x \<Longrightarrow> reply_ok x"
proof -
  have "ctx_ok hp c' \<and> no_panic r \<and> (r = Ok x \<longrightarrow> reply_ok x)"
  proof (cases "bt_get (operations hs) name")
    case None
    then show ?thesis using run c by (auto simp: host_call_def host_operation_def ok_or_def)
  next
    case (Some op)
    note mem = bt_get_in_set [OF Some]
    have op: "op_ok op" using ok(1) mem unfolding hosts_ok_def by fast
    show ?thesis
    proof (cases "call_args op args")
      case (Ok vs)
      obtain reply evs where h: "handler op now vs = (reply, evs)" by fastforce
      have "(\<forall>r. reply = Reply_Ready r \<longrightarrow> result_wf r) \<and> (\<forall>e \<in> set evs. event_ok e)"
        using ok(2) mem h unfolding handlers_ok_def by fast
      moreover have "type_ok (op_result op)" by (rule op_types_ok [OF op]) (simp add: op_types_def)
      ultimately show ?thesis
        using run Some Ok h ctx_ok_events [of evs hp c] c
        by (auto simp: host_call_def host_operation_def ok_or_def Let_def reply_ok_def
            split: host_reply.splits if_splits)
    qed (use run Some c call_args_ok(1) [OF op args] in \<open>auto simp: host_call_def host_operation_def ok_or_def\<close>)
  qed
  then show "ctx_ok hp c'" "no_panic r" "r = Ok x \<Longrightarrow> reply_ok x" by auto
qed

lemma vv_call_host:
  assumes args: "\<forall>v \<in> set args. hv_wf v"
  shows "vv.triple p held (\<lambda>_. True) (call_host name args) (\<lambda>x _. reply_ok x)"
proof (rule vv.tripleI)
  fix s r t
  assume a: "vm_inv p held s" "call_host name args s = (r, t)"
  obtain r1 c where run: "host_call (vm_hosts s) (clock s) name args (ctx s) = (r1, c)" by fastforce
  have t: "r = r1" "t = s\<lparr>clock := Suc (clock s), ctx := c\<rparr>"
    using a(2) run by (simp_all add: call_host_def on_ctx_def monad_defs)
  have h: "hosts_ok (vm_hosts s)" "handlers_ok (vm_hosts s)" "ctx_ok (vheap s) (ctx s)"
    using a(1) by (simp_all add: vm_inv_def)
  note d = host_call_ok [OF h args run]
  have "vm_inv p held t" unfolding t(2) by (rule vm_inv_ctx) (use a(1) d(1) in simp_all)
  then show "vm_inv p held t \<and> vm_ext s t \<and> (\<forall>q. r = Panic q \<longrightarrow> excused q) \<and> (\<forall>x. r = Ok x \<longrightarrow> reply_ok x)"
    using d(2) d(3) by (auto simp: t vm_ext_def heap_ext1_refl)
qed

end
