(* ===== verification/StepTriples.thy ===== *)
theory StepTriples
  imports BoundaryTriples
begin

text \<open>
  One step of the machine is safe: on a machine in its invariant with well-formed frames,
  every instruction of a validated program keeps both, whether it succeeds, fails or throws,
  and it never panics but for the two excused cases.
\<close>

context hoare
begin

text \<open>The first call may use a fact that later ones do not keep.\<close>

lemma triple_first:
  assumes m: "triple P m Q" and f: "\<And>a. triple (Q a) (f a) R"
  shows "triple P (bind m f) R"
proof (rule tripleI)
  fix s r t
  assume s: "inv s" "P s" and run: "bind m f s = (r, t)"
  obtain r1 t1 where m1: "m s = (r1, t1)" by fastforce
  note d = triple_D [OF m s m1]
  show "inv t \<and> ext s t \<and> (\<forall>p. r = Panic p \<longrightarrow> excused p) \<and> (\<forall>a. r = Ok a \<longrightarrow> R a t)"
  proof (cases r1)
    case (Ok a)
    have "f a t1 = (r, t)" using run m1 Ok by (simp add: bind_def)
    from triple_D [OF f d(1) d(4) [OF Ok] this] ext_trans [OF d(2)] show ?thesis by blast
  next
    case (Err e)
    then have "r = Err e" "t = t1" using run m1 by (simp_all add: bind_def)
    then show ?thesis using d(1,2) by simp
  next
    case (Panic p)
    then have "r = Panic p" "t = t1" using run m1 by (simp_all add: bind_def)
    then show ?thesis using d(1,2) d(3) [of p] Panic by simp
  qed
qed

lemma triple_lift_excused:
  "(\<And>s q. inv s \<Longrightarrow> P s \<Longrightarrow> r = Panic q \<Longrightarrow> excused q) \<Longrightarrow> (\<And>a s. r = Ok a \<Longrightarrow> inv s \<Longrightarrow> P s \<Longrightarrow> Q a s) \<Longrightarrow>
   triple P (lift_res r) Q"
  by (auto simp: triple_def lift_res_def ext_refl)

end

section \<open>A promise that is settled at once\<close>

definition outcome_live :: "heap \<Rightarrow> outcome \<Rightarrow> bool" where
  "outcome_live hp out \<longleftrightarrow> (case out of Out_Value h \<Rightarrow> live hp h | Out_Thrown h \<Rightarrow> live hp h)"

definition settled_live :: "heap \<Rightarrow> string + outcome \<Rightarrow> bool" where
  "settled_live hp r \<longleftrightarrow> (\<forall>out. r = Inr out \<longrightarrow> outcome_live hp out)"

lemma val_ok_settled: "val_ok p hp (V_Promise (Some r)) \<longleftrightarrow> settled_live hp r"
proof (cases r)
  case (Inr out)
  then show ?thesis by (cases out) (simp_all add: settled_live_def outcome_live_def)
qed (simp add: settled_live_def)

lemma outcome_live_ext1: "outcome_live a out \<Longrightarrow> heap_ext1 a b \<Longrightarrow> outcome_live b out"
  by (auto simp: outcome_live_def split: outcome.splits intro: live_ext1)

lemma settled_live_ext1: "settled_live a r \<Longrightarrow> heap_ext1 a b \<Longrightarrow> settled_live b r"
  by (auto simp: settled_live_def intro: outcome_live_ext1)

lemma vv_settled_promise:
  "vv.triple p held (\<lambda>v. settled_live (vheap v) out)
     (bind (vm_alloc (V_Promise None)) (\<lambda>h. seq (settle_promise h out) (ret h))) (\<lambda>h v. live (vheap v) h)"
proof (rule vv.tripleI)
  fix s r t
  assume a: "vm_inv p held s" "settled_live (vheap s) out"
    "bind (vm_alloc (V_Promise None)) (\<lambda>h. seq (settle_promise h out) (ret h)) s = (r, t)"
  obtain h hp where al: "heap_alloc (V_Promise None) (vheap s) = (h, hp)" by fastforce
  have ok: "heap_ok p (vheap s)" using a(1) by (simp add: vm_inv_def)
  note b = heap_ok_alloc [OF ok _ al, simplified]
  obtain r1 hp2 where rep: "heap_replace h (V_Promise (Some out)) hp = (r1, hp2)" by fastforce
  from heap_replace_cases [OF rep] b(3) obtain hp1 where
    c: "same_values hp1 hp" "same_reads hp1 hp" "r1 = Ok ()" "hp2 = heap_put h (V_Promise (Some out)) hp1"
    by auto
  note d = heap_ok_same [OF b(1) c(1,2)]
  have g: "heap_get hp1 h = Ok (V_Promise None)" using b(3) same_values_get [OF c(1)] by simp
  have v: "val_ok p hp1 (V_Promise (Some out))"
    using a(2) b(2) d(2) by (auto simp: val_ok_settled intro: settled_live_ext1 heap_ext_ext1)
  note e = heap_ok_put1 [OF d(1) g _ v, simplified]
  have x: "heap_ext (vheap s) hp2"
    unfolding ext_by_def
  proof (intro allI impI)
    fix h' w assume w: "heap_get (vheap s) h' = Ok w"
    then have "h' \<noteq> h" using b(4) by auto
    moreover obtain w' where "heap_get hp1 h' = Ok w'" "kind0 w w'"
      using w b(2) d(2) unfolding ext_by_def by (meson kind0_trans)
    ultimately show "\<exists>w'. heap_get hp2 h' = Ok w' \<and> kind0 w w'"
      using heap_put_get [OF g] by (simp add: c(4))
  qed
  have t: "r = Ok h" "t = s\<lparr>vheap := hp2, completion_epoch := Suc (completion_epoch s),
      completion_order := bt_insert h (Suc (completion_epoch s)) (completion_order s)\<rparr>"
    using a(3) al rep c(3)
    by (simp_all add: vm_alloc_def alloc_m_def on_heap_def settle_promise_def replace_m_def monad_defs)
  have "vm_inv p held (s\<lparr>vheap := hp2\<rparr>)" by (rule vm_inv_heap [OF a(1) _ x]) (simp add: c(4) e)
  then have "vm_inv p held t" by (simp add: t vm_inv_def)
  moreover have "live hp2 h" using heap_put_get [OF g] by (simp add: c(4) live_iff)
  ultimately show "vm_inv p held t \<and> vm_ext s t \<and> (\<forall>q. r = Panic q \<longrightarrow> excused q) \<and> (\<forall>h. r = Ok h \<longrightarrow> live (vheap t) h)"
    using heap_ext_ext1 [OF x] by (simp add: t vm_ext_def)
qed

lemma vv_ready_result:
  assumes t: "type_ok (op_result op)" and v: "result_wf value"
  shows "vv.triple p held (\<lambda>_. True) (ready_result value op) (\<lambda>h v. live (vheap v) h)"
proof (rule vv.tripleI)
  fix s r u
  assume a: "vm_inv p held s" "ready_result value op s = (r, u)"
  obtain r1 s1 where run: "host_result value (op_result op) (result_channel op) (result_error op) s = (r1, s1)" by fastforce
  note d = vv.triple_D [OF vv_host_result [OF t v] a(1) TrueI run]
  let ?out = "case r1 of Ok h \<Rightarrow> Inr (Out_Value h) | Err e \<Rightarrow> Inl e | Panic e \<Rightarrow> Inl e"
  have live: "settled_live (vheap s1) ?out"
    using d(4) by (cases r1) (auto simp: settled_live_def outcome_live_def)
  show "vm_inv p held u \<and> vm_ext s u \<and> (\<forall>q. r = Panic q \<longrightarrow> excused q) \<and> (\<forall>h. r = Ok h \<longrightarrow> live (vheap u) h)"
  proof (cases "op_async op \<and> no_panic r1")
    case True
    then have "bind (vm_alloc (V_Promise None)) (\<lambda>h. seq (settle_promise h ?out) (ret h)) s1 = (r, u)"
      using a(2) run by (cases r1) (simp_all add: ready_result_def)
    from vv.triple_D [OF vv_settled_promise d(1) live this] vv.ext_trans [OF d(2)] show ?thesis by blast
  next
    case False
    then have "r = r1 \<and> u = s1" using a(2) run by (cases r1) (auto simp: ready_result_def split: if_splits)
    then show ?thesis using d by blast
  qed
qed

lemma hh_catch: "hh.triple p P m Q \<Longrightarrow> hh.triple p P (catch_err m) (\<lambda>r hp. \<forall>a. r = Inr a \<longrightarrow> Q a hp)"
proof (rule hh.tripleI)
  fix s r t
  assume m: "hh.triple p P m Q" and a: "heap_ok p s" "P s" "catch_err m s = (r, t)"
  obtain r1 s1 where run: "m s = (r1, s1)" by fastforce
  note d = hh.triple_D [OF m a(1,2) run]
  show "heap_ok p t \<and> heap_ext s t \<and> (\<forall>q. r = Panic q \<longrightarrow> excused q) \<and>
      (\<forall>x. r = Ok x \<longrightarrow> (\<forall>a. x = Inr a \<longrightarrow> Q a t))"
    using a(3) run d by (cases r1) (auto simp: catch_err_def)
qed

lemma vv_parse_json: "vv.triple p held (\<lambda>_. True) (parse_json text s fac) (\<lambda>h v. live (vheap v) h)"
proof -
  have g: "vv.triple p held (\<lambda>_. True) (gets f) (\<lambda>_ _. True)" for f :: "vm \<Rightarrow> 'x"
    by (rule vv.triple_gets) simp
  note rules = vv.triple_cases vv.triple_val vv.triple_fail vv_stable vv.triple_use [OF vv_get] vv.triple_use [OF g]
    vv.triple_use [OF vv_heap [OF hh_catch [OF json_parse_triple]]] vv.triple_use [OF vv_alloc_live]
    vv.triple_last [OF vv_enum]
  show ?thesis unfolding parse_json_def by (intro rules) auto
qed

end
