(* ===== verification/ExecTriples.thy ===== *)
theory ExecTriples
  imports StepTriples
begin

text \<open>
  Triples of the instructions, over the machine and the call stack of the running task: all
  frames stay well formed, operands stay live, and nothing panics in a validated program.
\<close>

section \<open>The invariant of a step\<close>

definition frames_ok :: "program \<Rightarrow> mst \<Rightarrow> bool" where
  "frames_ok p s \<longleftrightarrow> (\<forall>f \<in> set (snd s). frame_ok p (vheap (fst s)) f)"

definition run_inv :: "program \<Rightarrow> handle list \<Rightarrow> mst \<Rightarrow> bool" where
  "run_inv p held s \<longleftrightarrow> vm_inv p held (fst s) \<and> frames_ok p s"

definition run_ext :: "mst \<Rightarrow> mst \<Rightarrow> bool" where
  "run_ext s t \<longleftrightarrow> vm_ext (fst s) (fst t)"

interpretation mm: hoare "run_inv p held" run_ext for p held
  by unfold_locales (auto simp: run_ext_def intro: vv.ext_refl vv.ext_trans)

lemma mm_vm:
  assumes "vv.triple p held P m Q"
  shows "mm.triple p held (\<lambda>s. P (fst s)) (on_vm m) (\<lambda>a s. Q a (fst s))"
  unfolding on_vm_def
  by (rule zoom_triple [OF assms vv.hoare_axioms mm.hoare_axioms])
     (auto simp: run_inv_def run_ext_def frames_ok_def vm_ext_def intro: frame_ok_ext1)

lemma mm_heap:
  "hh.triple p P m Q \<Longrightarrow> mm.triple p held (\<lambda>s. P (vheap (fst s))) (on_vheap m) (\<lambda>a s. Q a (vheap (fst s)))"
  unfolding on_vheap_def by (rule mm_vm [OF vv_heap])

lemma mm_stable1: "(\<And>a b. P a \<Longrightarrow> heap_ext1 a b \<Longrightarrow> P b) \<Longrightarrow> mm.stable (\<lambda>s. P (vheap (fst s)))"
  unfolding mm.stable_def run_ext_def vm_ext_def by blast

lemma invocation_ok_ext1: "invocation_ok p a i \<Longrightarrow> heap_ext1 a b \<Longrightarrow> invocation_ok p b i"
  by (auto simp: invocation_ok_def split: invocation.splits intro: live_ext1 frame_ok_ext1)

lemma owner_ok_ext1: "owner_ok w a \<Longrightarrow> heap_ext1 a b \<Longrightarrow> owner_ok w b"
  by (auto simp: owner_ok_def intro: is_record_ext1)

lemma mm_stable_facts:
  "mm.stable (\<lambda>s. live (vheap (fst s)) h)"
  "mm.stable (\<lambda>s. handles_live (vheap (fst s)) hs)"
  "mm.stable (\<lambda>s. shaped (vheap (fst s)) h x)"
  "mm.stable (\<lambda>s. is_cell (vheap (fst s)) h)"
  "mm.stable (\<lambda>s. is_record (vheap (fst s)) h)"
  "mm.stable (\<lambda>s. val_ok p (vheap (fst s)) x)"
  "mm.stable (\<lambda>s. frame_ok p (vheap (fst s)) fr)"
  "mm.stable (\<lambda>s. call_ready (vheap (fst s)) caps args sl)"
  "mm.stable (\<lambda>s. invocation_ok p (vheap (fst s)) i)"
  "mm.stable (\<lambda>s. owner_ok w (vheap (fst s)))"
  by (rule mm_stable1, blast intro: live_ext1 handles_live_ext1 shaped_ext1 is_cell_ext1 is_record_ext1
        val_ok_ext1 frame_ok_ext1 call_ready_ext1 invocation_ok_ext1 owner_ok_ext1)+

lemmas mm_stable = mm_stable_facts mm.stable_const mm.stable_conj mm.stable_imp mm.stable_all mm.stable_ball

section \<open>The top frame\<close>

lemma mm_top: "mm.triple p held (\<lambda>_. True) top_frame (\<lambda>f s. frame_ok p (vheap (fst s)) f)"
  by (rule mm.tripleI) (auto simp: top_frame_def run_inv_def frames_ok_def mm.ext_refl split: list.splits)

lemma mm_set_top: "mm.triple p held (\<lambda>s. frame_ok p (vheap (fst s)) f) (set_top f) (\<lambda>_ _. True)"
  by (rule mm.tripleI) (auto simp: set_top_def run_inv_def frames_ok_def run_ext_def vv.ext_refl split: list.splits)

lemma frame_ok_upd [simp]:
  "frame_ok p hp (f\<lparr>ip := i\<rparr>) = frame_ok p hp f"
  "frame_ok p hp (f\<lparr>handlers := hs\<rparr>) = frame_ok p hp f"
  by (simp_all add: frame_ok_def)

lemma frame_ok_push: "frame_ok p hp f \<Longrightarrow> handles_live hp st \<Longrightarrow> frame_ok p hp (f\<lparr>stack := st\<rparr>)"
  by (simp add: frame_ok_def)

lemma frame_ok_stack: "frame_ok p hp f \<Longrightarrow> handles_live hp (stack f)"
  by (simp add: frame_ok_def)

lemma mm_push: "mm.triple p held (\<lambda>s. live (vheap (fst s)) h) (push h) (\<lambda>_ _. True)"
  unfolding push_def
  by (rule mm.triple_use [OF mm_top], intro mm_stable, simp, rule mm.triple_pre [OF mm_set_top])
     (auto intro!: frame_ok_push intro: frame_ok_stack)

lemma mm_pop: "mm.triple p held (\<lambda>_. True) pop_operand (\<lambda>h s. live (vheap (fst s)) h)"
  unfolding pop_operand_def
  apply (rule mm.triple_use [OF mm_top], intro mm_stable, simp)
  apply (rule mm.triple_list, rule mm.triple_fail)
  apply (rule mm.triple_use_seq [OF mm_set_top], (intro mm_stable)[1])
   apply (use frame_ok_stack frame_ok_push in fastforce)
  by (rule mm.triple_ret) (use frame_ok_stack in fastforce)

lemma mm_pop_many: "mm.triple p held (\<lambda>_. True) (pop_many n) (\<lambda>hs s. handles_live (vheap (fst s)) hs)"
proof (induction n)
  case (Suc n)
  show ?case
    unfolding pop_many.simps
    by (rule mm.triple_use [OF mm_pop], intro mm_stable, simp,
        rule mm.triple_use [OF Suc], intro mm_stable, simp, rule mm.triple_ret, simp)
qed (simp add: mm.triple_ret)

lemma mm_arguments: "mm.triple p held (\<lambda>_. True) (arguments n) (\<lambda>hs s. handles_live (vheap (fst s)) hs)"
  unfolding arguments_def
  by (rule mm.triple_use [OF mm_pop_many], intro mm_stable, simp, rule mm.triple_ret, simp)

lemma mm_jump: "mm.triple p held (\<lambda>_. True) (jump i) (\<lambda>_ _. True)"
  unfolding jump_def
  by (rule mm.triple_use [OF mm_top], intro mm_stable, simp, rule mm.triple_pre [OF mm_set_top]) simp

lemma mm_push_frame: "mm.triple p held (\<lambda>s. frame_ok p (vheap (fst s)) f) (push_frame f) (\<lambda>_ _. True)"
  by (rule mm.tripleI)
     (auto simp: push_frame_def gets_def bind_def modify_def fail_def run_inv_def frames_ok_def run_ext_def vv.ext_refl
        split: if_splits)

lemma mm_get: "mm.triple p held (\<lambda>_. True) (get_val h)
    (\<lambda>x s. val_ok p (vheap (fst s)) x \<and> shaped (vheap (fst s)) h x)"
  unfolding get_val_def by (rule mm_heap [OF hh_get])

lemma mm_observe: "mm.triple p held (\<lambda>_. True) (observe h r) (\<lambda>_ _. True)"
  unfolding observe_def by (rule mm_heap [OF hh_observe])

lemma mm_alloc_push: "mm.triple p held (\<lambda>s. val_ok p (vheap (fst s)) x) (alloc_push x) (\<lambda>_ _. True)"
  unfolding alloc_push_def
  by (rule mm.triple_use [OF mm_vm [OF vv_alloc_live]], intro mm_stable, simp, rule mm.triple_pre [OF mm_push], simp)

lemma mm_enter: "mm.triple p held (\<lambda>s. invocation_ok p (vheap (fst s)) i) (enter i) (\<lambda>_ _. True)"
  unfolding enter_def
  by (cases i) (auto simp: invocation_ok_def intro: mm.triple_pre [OF mm_push] mm.triple_pre [OF mm_push_frame])

lemma mm_gets: "mm.triple p held (\<lambda>_. True) (gets f) (\<lambda>_ _. True)"
  by (rule mm.triple_gets) simp

section \<open>Exceptions\<close>

definition step_post :: "vm_step \<Rightarrow> mst \<Rightarrow> bool" where
  "step_post st s \<longleftrightarrow>
     (case st of
        St_Continue \<Rightarrow> True
      | St_Blocked h \<Rightarrow> is_promise_at (vheap (fst s)) h
      | St_Complete out \<Rightarrow> outcome_live (vheap (fst s)) out)"

lemma stack_truncate_live: "handles_live hp st \<Longrightarrow> handles_live hp (stack_truncate n st)"
  by (auto simp: stack_truncate_def handles_live_def dest: in_set_dropD)

lemma raise_frames_ok:
  "raise_frames h fs = (st, fs') \<Longrightarrow> live hp h \<Longrightarrow> \<forall>f \<in> set fs. frame_ok p hp f \<Longrightarrow>
   (\<forall>f \<in> set fs'. frame_ok p hp f) \<and> (st = St_Continue \<or> st = St_Complete (Out_Thrown h))"
proof (induction h fs rule: raise_frames.induct)
  case (2 h f fs)
  show ?case
  proof (cases "handlers f")
    case (Cons x xs)
    have "frame_ok p hp (f\<lparr>handlers := xs, stack := h # stack_truncate (stack_depth x) (stack f), ip := target x\<rparr>)"
      using 2(3,4) by (auto simp: frame_ok_def stack_truncate_live)
    then show ?thesis using 2(2,4) Cons by auto
  qed (use 2 in auto)
qed auto

lemma mm_raise: "mm.triple p held (\<lambda>s. live (vheap (fst s)) h) (raise h) step_post"
proof (rule mm.tripleI)
  fix s r t
  assume a: "run_inv p held s" "live (vheap (fst s)) h" "raise h s = (r, t)"
  obtain st fs where rf: "raise_frames h (snd s) = (st, fs)" by fastforce
  have t: "r = Ok st" "t = (fst s, fs)" using a(3) rf by (simp_all add: raise_def)
  have "\<forall>f \<in> set (snd s). frame_ok p (vheap (fst s)) f" using a(1) by (simp add: run_inv_def frames_ok_def)
  from raise_frames_ok [OF rf a(2) this] show "run_inv p held t \<and> run_ext s t \<and>
      (\<forall>q. r = Panic q \<longrightarrow> excused q) \<and> (\<forall>x. r = Ok x \<longrightarrow> step_post x t)"
    using a(1,2) by (auto simp: t run_inv_def frames_ok_def run_ext_def vv.ext_refl step_post_def outcome_live_def)
qed

section \<open>Rules for the instructions\<close>

lemmas mm_walk = mm.triple_cases mm.triple_val mm.triple_fail mm_stable
  mm.triple_use [OF mm_pop] mm.triple_use [OF mm_arguments] mm.triple_use [OF mm_get]
  mm.triple_use [OF mm_gets] mm.triple_use [OF mm_top] mm.triple_use_seq [OF mm_observe]
  mm.triple_use_seq [OF mm_push] mm.triple_use_seq [OF mm_set_top]
  mm.triple_use [OF mm_vm [OF vv_alloc_live]] mm.triple_use [OF mm_vm [OF vv_enum]]
  mm.triple_use [OF mm_vm [OF vv_frame]] mm.triple_use [OF mm_vm [OF vv_invoke]]
  mm.triple_use [OF mm_vm [OF vv_intern]] mm.triple_use [OF mm_vm [OF vv_value_text]]
  mm.triple_use [OF mm_vm [OF vv_parse_json]] mm.triple_use [OF mm_vm [OF vv_join]]
  mm.triple_last [OF mm_push] mm.triple_last [OF mm_alloc_push] mm.triple_last [OF mm_jump]
  mm.triple_last [OF mm_set_top] mm.triple_last [OF mm_enter] mm.triple_last [OF mm_push_frame]
  mm.triple_last [OF mm_raise] mm.triple_ret

lemma mm_of_opt: "mm.triple p held (\<lambda>_. True) (of_opt e x) (\<lambda>a _. x = Some a)"
  by (rule mm.triple_of_opt) simp

abbreviation plain :: "program \<Rightarrow> handle list \<Rightarrow> (mst, unit) rm \<Rightarrow> bool" where
  "plain p held m \<equiv> mm.triple p held (\<lambda>_. True) m (\<lambda>_ _. True)"

section \<open>Instructions that work on the operands\<close>

lemma dup_plain: "plain p held op_dup"
  unfolding op_dup_def by (intro mm_walk) auto

lemma neg_plain: "plain p held op_neg"
  unfolding op_neg_def by (intro mm_walk) auto

lemma not_plain: "plain p held op_not"
  unfolding op_not_def by (intro mm_walk) auto

lemma newtype_plain: "plain p held (op_newtype n)"
  unfolding op_newtype_def by (intro mm_walk mm.triple_use [OF mm_heap [OF hh_alloc_newtype]]) auto

lemma get_type_plain: "plain p held op_get_type"
  unfolding op_get_type_def
  by (intro mm_walk mm.triple_use [OF mm_heap [OF hh_query [OF type_of_no_panic]]]) auto

lemma to_string_plain: "plain p held op_to_string"
  unfolding op_to_string_def by (intro mm_walk) auto

lemma to_number_plain: "plain p held op_to_number"
  unfolding op_to_number_def by (intro mm_walk) auto

lemma panic_plain: "plain p held op_panic"
  unfolding op_panic_def by (intro mm_walk) auto

lemma jump_if_plain: "plain p held (op_jump_if_false i)" "plain p held (op_jump_if_unit i)"
  unfolding op_jump_if_false_def op_jump_if_unit_def by (intro mm_walk; auto)+

lemma json_stringify_plain: "plain p held (op_json_stringify s)"
  unfolding op_json_stringify_def
  by (intro mm_walk mm.triple_use [OF mm_heap [OF hh_query [OF stringify_no_panic]]]) auto

lemma json_parse_plain: "plain p held (op_json_parse s)"
  unfolding op_json_parse_def by (intro mm_walk) auto

lemma json_parse_result_plain: "plain p held (op_json_parse_result s)"
  unfolding op_json_parse_result_def by (intro mm_walk mm.triple_use [OF mm_of_opt]) auto

lemma descriptor_plain: "plain p held (op_descriptor d)"
  unfolding op_descriptor_def by (intro mm_walk) auto

lemma match_plain:
  "plain p held (op_match_enum n c)" "plain p held (op_match_struct i)" "plain p held op_match_equal"
  "plain p held (op_match_tuple k)"
  unfolding op_match_enum_def op_match_struct_def op_match_equal_def op_match_tuple_def
  by (intro mm_walk; auto)+

lemma match_type_plain: "plain p held (op_match_type d)"
  unfolding op_match_type_def
  by (intro mm_walk mm.triple_use [OF mm_heap [OF hh_query [OF type_of_no_panic]]]) auto

lemma jwt_stringify_plain: "plain p held (op_jwt_stringify s e)"
proof -
  have "mm.triple p held (\<lambda>_. True) (gets f) (\<lambda>r _. no_panic r)" if "\<And>x. no_panic (f x)"
    for f :: "mst \<Rightarrow> 'a res"
    by (rule mm.triple_gets) (rule that)
  note q = mm.triple_use [OF this]
  show ?thesis
    unfolding op_jwt_stringify_def
    apply (rule mm.triple_use [OF mm_pop], intro mm_stable, simp)
    apply (rule q, rule jwt_stringify_no_panic, intro mm_stable, simp)
    subgoal for h r
      by (cases r; simp only: res.case; intro mm_walk mm.triple_panic) auto
    done
qed

lemma enum_plain: "plain p held (op_enum n c i payload)"
proof -
  have "mm.triple p held (\<lambda>_. True) (if payload then bind pop_operand (\<lambda>h. ret (Some h)) else ret None)
      (\<lambda>x s. \<forall>h. x = Some h \<longrightarrow> live (vheap (fst s)) h)"
    by (intro mm_walk) auto
  note payload = mm.triple_use [OF this]
  show ?thesis
    unfolding op_enum_def by (intro mm_walk payload) auto
qed

section \<open>Calls\<close>

lemma val_ok_closure_ready:
  "val_ok p hp (V_Closure f caps sl) \<Longrightarrow> handles_live hp args \<Longrightarrow> call_ready hp caps args sl"
  by (auto simp: call_ready_def closure_ok_def)

lemma val_ok_closure_slot:
  "val_ok p hp (V_Closure f caps sl') \<Longrightarrow> handles_live hp args \<Longrightarrow> (\<And>h. sl = Some h \<Longrightarrow> live hp h) \<Longrightarrow>
   call_ready hp caps args sl"
  by (auto simp: call_ready_def closure_ok_def)

lemma val_ok_closure_function: "val_ok p hp (V_Closure f caps sl) \<Longrightarrow> f < length (funcs p)"
  by (simp add: closure_ok_def)

lemma slot_plain: "plain p held op_slot"
  unfolding op_slot_def by (intro mm_walk) (auto simp: frame_ok_def)

lemma call_plain: "plain p held (op_call n)"
  unfolding op_call_def by (intro mm_walk) (auto simp: val_ok_closure_ready simp del: val_ok_simps(17))

lemma call_value_triple: "mm.triple p held (\<lambda>s. handles_live (vheap (fst s)) args) (call_value h args) (\<lambda>_ _. True)"
  unfolding call_value_def by (intro mm_walk) (auto simp: val_ok_closure_ready simp del: val_ok_simps(17))

lemma frame_ok_then:
  "frame_ok p hp f \<Longrightarrow> (\<And>hs. th = Some hs \<Longrightarrow> handles_live hp hs) \<Longrightarrow> frame_ok p hp (f\<lparr>then_call := th\<rparr>)"
  by (simp add: frame_ok_def)

lemma read_prop_triple:
  "mm.triple p held (\<lambda>s. (\<forall>h. value = Some h \<longrightarrow> live (vheap (fst s)) h) \<and>
      (\<forall>hs. th = Some hs \<longrightarrow> handles_live (vheap (fst s)) hs)) (read_prop value th) (\<lambda>_ _. True)"
  unfolding read_prop_def
  by (intro mm_walk mm.triple_last [OF call_value_triple])
     (auto simp: val_ok_closure_ready frame_ok_then simp del: val_ok_simps(17))

lemma mm_function_at:
  "mm.triple p held (\<lambda>_. f < length (funcs p)) (on_vm (function_at f)) (\<lambda>fn _. fn = funcs p ! f)"
  by (rule mm.triple_pull [where C = "f < length (funcs p)"], assumption,
      rule mm.triple_pre [OF mm_vm [OF vv_function_at]]) simp_all

lemma component_call_plain: "plain p held op_component_call"
  unfolding op_component_call_def
  by (intro mm_walk mm.triple_use [OF mm_function_at])
     (auto intro!: val_ok_closure_slot intro: bt_get_live dest: val_ok_closure_function simp del: val_ok_simps(17))

lemma method_call_plain: "plain p held (op_method_call n argc)"
proof -
  have "mm.triple p held (\<lambda>_. True) (case rec_get r h of Some f \<Rightarrow> ret (f, True)
      | None \<Rightarrow> (case rec_get r n of Some f \<Rightarrow> ret (f, False) | None \<Rightarrow> fail e)) (\<lambda>_ _. True)" for r h e
    by (intro mm_walk) auto
  note callee = mm.triple_use [OF this]
  show ?thesis
    unfolding op_method_call_def
    by (intro mm_walk callee mm.triple_last [OF read_prop_triple])
       (auto intro: bt_get_live val_ok_closure_ready simp del: val_ok_simps(17))
qed

section \<open>Promises\<close>

lemma promise_join_plain: "plain p held (op_promise_join k)"
  unfolding op_promise_join_def by (intro mm_walk) auto

lemma handler_plain: "plain p held (op_handler i)" "plain p held op_end_handler"
  unfolding op_handler_def op_end_handler_def by (intro mm_walk; auto)+

section \<open>Lists, records, fields\<close>

lemma list_plain: "plain p held (op_list n)"
  unfolding op_list_def by (intro mm_walk) auto

lemma list_has_plain: "plain p held op_list_has"
  unfolding op_list_has_def by (intro mm_walk) auto

lemma list_append_plain: "plain p held op_list_append"
  unfolding op_list_append_def by (intro mm_walk) auto

lemma handles_live_zip: "handles_live hp hs \<Longrightarrow> handles_live hp (map snd (zip ns hs))"
  by (auto simp: handles_live_def dest: set_zip_rightD)

lemma props_plain: "plain p held (op_props ns)"
  unfolding op_props_def by (intro mm_walk) (auto intro: bt_collect_live handles_live_zip)

lemma list_extend_plain: "plain p held op_list_extend"
  unfolding op_list_extend_def by (intro mm_walk) auto

lemma record_plain: "plain p held (op_record ns)"
  unfolding op_record_def by (intro mm_walk) (auto dest: handles_live_zip record_from_iter_ok)

lemma length_pop_many: "pop_many n s = (Ok hs, t) \<Longrightarrow> length hs = n"
  by (induction n arbitrary: s hs) (auto simp: ret_def bind_Ok)

lemma mm_arguments_length:
  "mm.triple p held (\<lambda>_. True) (arguments n) (\<lambda>hs s. handles_live (vheap (fst s)) hs \<and> length hs = n)"
proof (rule mm.tripleI)
  fix s r t
  assume a: "run_inv p held s" "arguments n s = (r, t)"
  have "length hs = n" if "r = Ok hs" for hs
    using a(2) that length_pop_many unfolding arguments_def by (fastforce simp: bind_Ok ret_def)
  then show "run_inv p held t \<and> run_ext s t \<and> (\<forall>q. r = Panic q \<longrightarrow> excused q) \<and>
      (\<forall>hs. r = Ok hs \<longrightarrow> handles_live (vheap (fst t)) hs \<and> length hs = n)"
    using mm.triple_D [OF mm_arguments a(1) TrueI a(2)] by blast
qed

lemma struct_plain: "plain p held (op_struct n ident ns es)"
  unfolding op_struct_def
  by (rule mm.triple_use [OF mm_arguments_length], intro mm_stable, simp, rule mm.triple_pre [OF mm_alloc_push])
     (auto simp: record_ok_def bt_inv_collect keys_bt_collect map_fst_zip intro: bt_collect_live handles_live_zip)

lemma extend_record_ok:
  assumes "set ns \<subseteq> set (bt_keys (rec_fields e))" and "handles_live hp (bt_values (rec_fields e))"
    and "record_ok r" and "handles_live hp (bt_values (rec_fields r))"
  shows "\<exists>r'. extend_record e ns r = Ok r' \<and> record_ok r' \<and> handles_live hp (bt_values (rec_fields r'))"
  using assms
proof (induction ns arbitrary: r)
  case (Cons n ns)
  obtain h where h: "rec_get e n = Some h" using Cons.prems(1) bt_contains_get [of "rec_fields e" n]
    by (auto simp: rec_get_def bt_contains_def)
  have "live hp h" by (rule rec_get_live [OF Cons.prems(2) h])
  then show ?case
    using Cons.IH [of "rec_put n h r"] Cons.prems h by (auto simp: rec_put_ok rec_put_live)
qed simp

lemma record_extend_plain: "plain p held op_record_extend"
proof -
  have "mm.triple p held (\<lambda>s. val_ok p (vheap (fst s)) (V_Record e) \<and> val_ok p (vheap (fst s)) (V_Record r))
      (bind (lift_res (extend_record e (rec_order e) r)) (\<lambda>r'. alloc_push (V_Record r'))) (\<lambda>_ _. True)" for e r
  proof (rule mm.triple_first [where Q = "\<lambda>r' s. val_ok p (vheap (fst s)) (V_Record r')"])
    show "mm.triple p held (\<lambda>s. val_ok p (vheap (fst s)) (V_Record e) \<and> val_ok p (vheap (fst s)) (V_Record r))
      (lift_res (extend_record e (rec_order e) r)) (\<lambda>r' s. val_ok p (vheap (fst s)) (V_Record r'))"
      using extend_record_ok [of "rec_order e" e _ r]
      by (intro mm.triple_lift_res; fastforce simp: record_ok_def)
  qed (rule mm_alloc_push)
  note ext = mm.triple_last [OF this]
  show ?thesis
    unfolding op_record_extend_def by (intro mm_walk ext) auto
qed

section \<open>Fields and elements\<close>

lemma shaped_is_record: "is_record hp h \<Longrightarrow> shaped hp h v \<Longrightarrow> \<exists>r. v = V_Record r"
  by (cases v) (auto simp: is_record_def shaped_def kind1_def kind0_def)

lemma field_read_plain: "mm.triple p held (\<lambda>_. True) (field_read n h) (\<lambda>_ _. True)"
  unfolding field_read_def by (intro mm_walk) auto

lemma mm_owner: "mm.triple p held (\<lambda>_. True) (on_vheap (field_owner h n)) (\<lambda>o' s. owner_ok o' (vheap (fst s)))"
  by (rule mm_heap [OF field_owner_triple])

lemma field_plain: "plain p held (op_field n opt)"
  unfolding op_field_def
  by (intro mm_walk mm.triple_use [OF field_read_plain] mm.triple_use [OF mm_owner] mm.triple_use [OF mm_of_opt]
        mm.triple_last [OF read_prop_triple] mm.triple_panic)
     (auto intro: bt_get_live rec_get_live simp: owner_ok_def dest: shaped_is_record)

lemma field_or_self_plain: "plain p held (op_field_or_self n)"
  unfolding op_field_or_self_def
  by (intro mm_walk mm.triple_last [OF read_prop_triple])
     (auto intro: bt_get_live rec_get_live split: option.splits)

lemma as_index_no_panic [simp]: "no_panic (as_index n)"
  by (simp add: as_index_def)

lemma mm_lift: "no_panic r \<Longrightarrow> mm.triple p held (\<lambda>_. True) (lift_res r) (\<lambda>a _. r = Ok a)"
  by (rule mm.triple_lift_res)

lemma index_plain: "plain p held op_index"
  unfolding op_index_def
  by (intro mm_walk mm.triple_use [OF mm_lift] as_index_no_panic) (auto simp: handles_live_def)

lemma mm_get_mut: "mm.triple p held (\<lambda>_. True) (on_vheap (get_mut_m h))
    (\<lambda>x s. val_ok p (vheap (fst s)) x \<and> shaped (vheap (fst s)) h x)"
  by (rule mm_heap, rule hh.triple_post [OF hh_get_mut]) (auto simp: shaped_def)

lemma mm_put_record: "mm.triple p held (\<lambda>s. is_record (vheap (fst s)) h \<and> val_ok p (vheap (fst s)) (V_Record r))
    (on_vheap (modify (heap_put h (V_Record r)))) (\<lambda>_ _. True)"
  by (rule mm.triple_pre [OF mm_heap [OF hh_put]]) (auto simp: is_record_def kind0_def)

lemma mm_put_list: "mm.triple p held (\<lambda>s. shaped (vheap (fst s)) h (V_List xs) \<and> val_ok p (vheap (fst s)) (V_List ys))
    (on_vheap (modify (heap_put h (V_List ys)))) (\<lambda>_ _. True)"
  by (rule mm.triple_pre [OF mm_heap [OF hh_put]]) (auto simp: shaped_def kind0_def)

lemma field_set_plain: "plain p held (op_field_set n)"
  unfolding op_field_set_def
  by (intro mm_walk mm.triple_use [OF mm_owner] mm.triple_use [OF mm_get_mut] mm.triple_use_seq [OF mm_put_record])
     (auto simp: shaped_record rec_put_ok rec_put_live)

lemma handles_live_update: "handles_live hp xs \<Longrightarrow> live hp v \<Longrightarrow> handles_live hp (xs[i := v])"
  by (auto simp: handles_live_def dest!: set_update_subset_insert [THEN subsetD])

lemma index_set_plain: "plain p held op_index_set"
proof -
  note put = mm.triple_use_seq [OF mm_put_list]
  show ?thesis
    unfolding op_index_set_def
    by (intro mm_walk mm.triple_use [OF mm_lift] as_index_no_panic mm.triple_use [OF mm_get_mut] put)
       (auto simp: handles_live_update)
qed

section \<open>List built-ins\<close>

lemma mm_with_list:
  assumes "\<And>hp xs ys a. (\<forall>x. w = Some x \<longrightarrow> live hp x) \<Longrightarrow> handles_live hp xs \<Longrightarrow> f xs = (ys, a) \<Longrightarrow>
      handles_live hp ys \<and> handles_live hp (g a)"
  shows "mm.triple p held (\<lambda>s. \<forall>x. w = Some x \<longrightarrow> live (vheap (fst s)) x) (on_vheap (with_list l e f))
    (\<lambda>a s. handles_live (vheap (fst s)) (g a))"
proof (rule mm_heap [OF hh_with_list])
  show "hh.stable (\<lambda>hp. \<forall>x. w = Some x \<longrightarrow> live hp x)" by (intro hh_stable)
qed (use assms in \<open>auto intro: hh_stable\<close>)

lemma pop_number_plain: "mm.triple p held (\<lambda>_. True) pop_number (\<lambda>_ _. True)"
  unfolding pop_number_def by (intro mm_walk) auto

lemma list_push_plain: "plain p held (list_push kind)"
proof -
  have "mm.triple p held (\<lambda>s. \<forall>x. Some v = Some x \<longrightarrow> live (vheap (fst s)) x) (on_vheap (case kind of
         LM_Unshift \<Rightarrow> with_list l ''unshift requires list'' (\<lambda>xs. (v # xs, Suc (length xs)))
       | _ \<Rightarrow> with_list l ''push requires list'' (\<lambda>xs. (xs @ [v], Suc (length xs)))))
     (\<lambda>a s. handles_live (vheap (fst s)) [])" for v l
    by (cases kind; simp only: list_mut.case; rule mm_with_list [where w = "Some v" and g = "\<lambda>_. []"]) auto
  note put = mm.triple_use [OF this]
  show ?thesis unfolding list_push_def by (intro mm_walk put) auto
qed

lemma handles_live_list:
  "handles_live hp xs \<Longrightarrow> handles_live hp (butlast xs)"
  "handles_live hp xs \<Longrightarrow> handles_live hp (tl xs)"
  "handles_live hp xs \<Longrightarrow> handles_live hp (take n xs)"
  "handles_live hp xs \<Longrightarrow> handles_live hp (drop n xs)"
  "handles_live hp xs \<Longrightarrow> xs \<noteq> [] \<Longrightarrow> live hp (hd xs)"
  "handles_live hp xs \<Longrightarrow> xs \<noteq> [] \<Longrightarrow> live hp (last xs)"
  "handles_live hp (replicate n h) \<longleftrightarrow> n = 0 \<or> live hp h"
  by (auto simp: handles_live_def dest: in_set_butlastD in_set_takeD in_set_dropD intro: list.set_sel(2))
     (cases xs; simp)

lemma list_take_plain: "plain p held (list_take kind)"
proof -
  have "mm.triple p held (\<lambda>s. \<forall>x. None = Some x \<longrightarrow> live (vheap (fst s)) x) (on_vheap (with_list l e (\<lambda>xs. case xs of
       [] \<Rightarrow> ([], None)
     | _ # _ \<Rightarrow> (case kind of LM_Pop \<Rightarrow> (butlast xs, Some (last xs)) | _ \<Rightarrow> (tl xs, Some (hd xs))))))
     (\<lambda>a s. handles_live (vheap (fst s)) (case a of None \<Rightarrow> [] | Some h \<Rightarrow> [h]))" for l e
    by (rule mm_with_list [where w = None])
       (cases kind; auto simp: handles_live_list split: list.splits)
  note take = mm.triple_use [OF this]
  show ?thesis unfolding list_take_def by (intro mm_walk take) auto
qed

lemma splice_list_live:
  "handles_live hp xs \<Longrightarrow> splice_list a b xs = (ys, zs) \<Longrightarrow> handles_live hp ys \<and> handles_live hp zs"
  by (auto simp: splice_list_def Let_def handles_live_list)

lemma list_splice_plain: "plain p held list_splice"
proof -
  have "mm.triple p held (\<lambda>s. \<forall>x. None = Some x \<longrightarrow> live (vheap (fst s)) x)
     (on_vheap (with_list l e (splice_list a b))) (\<lambda>xs s. handles_live (vheap (fst s)) xs)" for l e a b
    by (rule mm_with_list [where w = None]) (rule splice_list_live)
  note splice = mm.triple_use [OF this]
  show ?thesis
    unfolding list_splice_def by (intro mm_walk mm.triple_use [OF pop_number_plain] splice) auto
qed

lemma list_reverse_plain: "plain p held list_reverse"
proof -
  have "mm.triple p held (\<lambda>s. \<forall>x. None = Some x \<longrightarrow> live (vheap (fst s)) x)
     (on_vheap (with_list l e (\<lambda>xs. (rev xs, ())))) (\<lambda>xs s. handles_live (vheap (fst s)) [])" for l e
    by (rule mm_with_list [where w = None]) auto
  note put = mm.triple_use_seq [OF this]
  show ?thesis unfolding list_reverse_def by (intro mm_walk put) auto
qed

lemma list_fill_plain: "plain p held list_fill"
proof -
  have "mm.triple p held (\<lambda>s. \<forall>x. Some v = Some x \<longrightarrow> live (vheap (fst s)) x)
     (on_vheap (with_list l e (\<lambda>xs. (fill_list n v xs, ())))) (\<lambda>xs s. handles_live (vheap (fst s)) [])" for l e n v
    by (rule mm_with_list [where w = "Some v"]) (auto simp: fill_list_def Let_def handles_live_list)
  note put = mm.triple_use_seq [OF this]
  show ?thesis
    unfolding list_fill_def by (intro mm_walk mm.triple_use [OF pop_number_plain] put) auto
qed

lemma foldl_copy_live:
  "handles_live hp xs \<Longrightarrow> \<forall>i \<in> set is. s + i < length xs \<Longrightarrow>
   handles_live hp (foldl (\<lambda>xs i. xs[t + i := xs ! (s + i)]) xs is)"
proof (induction "is" arbitrary: xs)
  case (Cons i "is")
  have "live hp (xs ! (s + i))" using Cons.prems by (auto simp: handles_live_def)
  then show ?case using Cons by (simp add: handles_live_update)
qed simp

lemma copy_within_live: "handles_live hp xs \<Longrightarrow> handles_live hp (copy_within a b xs)"
  unfolding copy_within_def Let_def by (rule foldl_copy_live) auto

lemma list_copy_within_plain: "plain p held list_copy_within"
proof -
  have "mm.triple p held (\<lambda>s. \<forall>x. None = Some x \<longrightarrow> live (vheap (fst s)) x)
     (on_vheap (with_list l e (\<lambda>xs. (copy_within a b xs, ())))) (\<lambda>xs s. handles_live (vheap (fst s)) [])" for l e a b
    by (rule mm_with_list [where w = None]) (auto simp: copy_within_live)
  note put = mm.triple_use_seq [OF this]
  show ?thesis
    unfolding list_copy_within_def by (intro mm_walk mm.triple_use [OF pop_number_plain] put) auto
qed

subsection \<open>Sorting\<close>

lemma sort_key_no_panic [simp]: "no_panic (sort_key_of x)"
  by (simp add: sort_key_of_def split: val.split)

lemma set_insert_by: "set (insert_by le x xs) = Set.insert x (set xs)"
  by (induction xs) auto

lemma set_sort_by: "set (sort_by le xs) = set xs"
  by (induction xs) (auto simp: sort_by_def set_insert_by)

lemma sort_ranked_cases:
  assumes "sort_ranked u ranked = r"
  shows "r = Panic q \<Longrightarrow> excused q" and "r = Ok hs \<Longrightarrow> set hs \<subseteq> set (map snd ranked)" and "r \<noteq> Err e"
proof -
  have "(\<forall>q. r = Panic q \<longrightarrow> excused q) \<and> (\<forall>hs. r = Ok hs \<longrightarrow> set hs \<subseteq> set (map snd ranked)) \<and> r \<noteq> Err e"
  proof (cases "list_ex (\<lambda>((_, n, _), _). is_nan n) ranked")
    case True
    have *: "snd (ranked ! i) \<in> snd ` set ranked" if "sort perm = [0..<length ranked]" "i \<in> set perm" for perm i
    proof -
      have "i \<in> set (sort perm)" using that(2) by simp
      then have "i < length ranked" unfolding that(1) by simp
      then show ?thesis by simp
    qed
    show ?thesis
      using assms True * by (fastforce simp: sort_ranked_def excused_def split: option.splits if_splits)
  qed (use assms in \<open>auto simp: sort_ranked_def set_sort_by\<close>)
  then show "r = Panic q \<Longrightarrow> excused q" "r = Ok hs \<Longrightarrow> set hs \<subseteq> set (map snd ranked)" "r \<noteq> Err e" by auto
qed

lemma list_sort_plain: "plain p held list_sort"
proof -
  have key: "mm.triple p held (\<lambda>_. True) (bind (get_val h) (\<lambda>x. lift_res (sort_key_of x))) (\<lambda>_ _. True)" for h
    by (intro mm_walk mm.triple_lift_res) auto
  have keys: "mm.triple p held (\<lambda>_. True) (mapM (\<lambda>h. bind (get_val h) (\<lambda>x. lift_res (sort_key_of x))) hs)
      (\<lambda>_ _. True)" for hs
    by (rule mm.triple_post [OF mm.triple_mapM [where R = "\<lambda>_ _ _. True"]]) (auto intro: mm_stable key)
  have sorted: "mm.triple p held (\<lambda>s. handles_live (vheap (fst s)) hs) (lift_res (sort_ranked u (zip ks hs)))
      (\<lambda>xs s. handles_live (vheap (fst s)) xs)" for u ks hs
    by (rule mm.triple_lift_excused)
       (use sort_ranked_cases [OF refl, of u "zip ks hs"] in
         \<open>force simp: handles_live_def dest: set_zip_rightD\<close>)+
  have "mm.triple p held (\<lambda>s. handles_live (vheap (fst s)) xs)
     (on_vheap (with_list l e (\<lambda>_. (xs, ())))) (\<lambda>_ s. True)" for l e xs
    by (rule mm_heap [OF hh_with_list]) (auto intro: hh_stable)
  note put = mm.triple_use_seq [OF this]
  show ?thesis
    unfolding list_sort_def by (intro mm_walk mm.triple_use [OF keys] mm.triple_use [OF sorted] put) auto
qed

lemma list_mut_plain: "plain p held (list_mut_op k)"
  unfolding list_mut_op_def
  by (cases k; simp only: list_mut.case; rule list_push_plain list_take_plain list_splice_plain list_sort_plain
      list_reverse_plain list_fill_plain list_copy_within_plain)

section \<open>Binary operators\<close>

definition is_binary :: "op \<Rightarrow> bool" where
  "is_binary x \<longleftrightarrow> no_panic (number_op x f64_zero f64_zero)"

definition val_result :: "program \<Rightarrow> heap \<Rightarrow> val res \<Rightarrow> bool" where
  "val_result p hp r \<longleftrightarrow> no_panic r \<and> (\<forall>v. r = Ok v \<longrightarrow> val_ok p hp v)"

lemma val_result_simps [simp]:
  "val_result p hp (Ok v) = val_ok p hp v"
  "val_result p hp (Err e)"
  by (simp_all add: val_result_def)

lemma val_result_if:
  "(c \<Longrightarrow> val_result p hp x) \<Longrightarrow> (\<not> c \<Longrightarrow> val_result p hp y) \<Longrightarrow> val_result p hp (if c then x else y)"
  by simp

lemma val_result_val:
  assumes "val_result p hp m1" "val_result p hp m2" "\<And>d. v = V_Descriptor d \<Longrightarrow> val_result p hp (m3 d)"
    "\<And>n. v = V_Number n \<Longrightarrow> val_result p hp (m4 n)" "\<And>b. v = V_Bool b \<Longrightarrow> val_result p hp (m5 b)"
    "\<And>s. v = V_String s \<Longrightarrow> val_result p hp (m6 s)" "\<And>bs. v = V_Bytes bs \<Longrightarrow> val_result p hp (m7 bs)"
    "\<And>x. v = V_Host x \<Longrightarrow> val_result p hp (m8 x)" "\<And>hs. v = V_List hs \<Longrightarrow> val_result p hp (m9 hs)"
    "\<And>r. v = V_Record r \<Longrightarrow> val_result p hp (m10 r)" "\<And>m. v = V_Props m \<Longrightarrow> val_result p hp (m11 m)"
    "\<And>h. v = V_Cell h \<Longrightarrow> val_result p hp (m12 h)"
    "\<And>f cs sl. v = V_Closure f cs sl \<Longrightarrow> val_result p hp (m13 f cs sl)"
    "\<And>x. v = V_Promise x \<Longrightarrow> val_result p hp (m14 x)"
  shows "val_result p hp (case_val m1 m2 m3 m4 m5 m6 m7 m8 m9 m10 m11 m12 m13 m14 v)"
  using assms by (cases v) simp_all

lemma number_op_ok [simp]: "is_binary x \<Longrightarrow> val_result p hp (number_op x m n)"
  by (cases x) (simp_all add: is_binary_def number_op_def num_of_i32_def)

lemma string_op_ok [simp]: "val_result p hp (string_op x a b)"
  by (cases x) (simp_all add: string_op_def)

lemma promise_add_ok [simp]: "no_panic (promise_add_text v)"
  by (simp add: promise_add_text_def split: val.split)

lemma promise_add_result [simp]:
  "val_result p hp (res_bind (promise_add_text a) (\<lambda>s. res_bind (promise_add_text b) (\<lambda>t. Ok (V_String (s @ t)))))"
  by (auto simp: val_result_def res_bind_Ok_iff intro!: no_panic_bind)

lemma val_result_same:
  "val_result p hp d \<Longrightarrow> (\<And>m n. val_result p hp (f m n)) \<Longrightarrow> (\<And>s t. val_result p hp (g s t)) \<Longrightarrow>
   val_result p hp (case (a, b) of (V_Number m, V_Number n) \<Rightarrow> f m n | (V_String s, V_String t) \<Rightarrow> g s t | _ \<Rightarrow> d)"
  by (cases a; cases b; simp)

lemma val_result_mixed:
  "val_result p hp d \<Longrightarrow> val_result p hp
     (case (a, b) of
        (V_String s, V_Number n) \<Rightarrow> Ok (V_String (f1 s n))
      | (V_Number n, V_String s) \<Rightarrow> Ok (V_String (f2 s n))
      | (V_String s, V_Bool t) \<Rightarrow> Ok (V_String (f3 s t))
      | (V_Bool t, V_String s) \<Rightarrow> Ok (V_String (f4 s t))
      | _ \<Rightarrow> d)"
  by (cases a; cases b; simp)

lemma val_result_equal:
  "(\<And>d e. val_result p hp (f d e)) \<Longrightarrow> (\<And>s t. val_result p hp (g s t)) \<Longrightarrow> val_result p hp
     (case (a, b) of (V_Descriptor d, V_Descriptor e) \<Rightarrow> f d e | (V_Bool s, V_Bool t) \<Rightarrow> g s t | _ \<Rightarrow> Err x)"
  by (cases a; cases b; simp)

lemma binary_op_ok: "is_binary x \<Longrightarrow> val_result p hp (binary_op x a b)"
  unfolding binary_op_def Let_def
  by (intro val_result_same val_result_mixed val_result_equal val_result_if) simp_all

lemma binary_plain: "is_binary x \<Longrightarrow> plain p held (op_binary x)"
proof -
  assume b: "is_binary x"
  have "mm.triple p held (\<lambda>_. True) (lift_res (binary_op x u v)) (\<lambda>w s. val_ok p (vheap (fst s)) w)" for u v
    by (rule mm.triple_lift_res) (use binary_op_ok [OF b, of p _ u v] in \<open>auto simp: val_result_def\<close>)
  note result = mm.triple_use [OF this]
  show ?thesis unfolding op_binary_def by (intro mm_walk result) auto
qed

section \<open>Locals\<close>

definition locals_cover :: "nat list \<Rightarrow> mst \<Rightarrow> bool" where
  "locals_cover is s \<longleftrightarrow> (\<forall>f fs. snd s = f # fs \<longrightarrow> (\<forall>i \<in> set is. i < length (frame_locals f)))"

lemma local_at_run:
  "local_at i s = (case snd s of [] \<Rightarrow> (Err ''empty call stack'', s)
     | f # _ \<Rightarrow> if i < length (frame_locals f) then (Ok (frame_locals f ! i), s) else (Panic ''index out of bounds'', s))"
  by (simp add: local_at_def top_frame_def bind_def ret_def panic_def split: list.split)

lemma mm_local: "i \<in> set is \<Longrightarrow> mm.triple p held (locals_cover is) (local_at i) (\<lambda>l s. is_cell (vheap (fst s)) l \<and> locals_cover is s)"
  by (rule mm.tripleI)
     (auto simp: local_at_run locals_cover_def run_inv_def frames_ok_def frame_ok_def mm.ext_refl split: list.splits if_splits)

lemma mapM_local_run:
  "snd s = f # fs \<Longrightarrow> \<forall>i \<in> set is. i < length (frame_locals f) \<Longrightarrow>
   mapM local_at is s = (Ok (map (\<lambda>i. frame_locals f ! i) is), s)"
  by (induction "is") (simp_all add: bind_def ret_def local_at_run)

lemma mapM_local_empty: "snd s = [] \<Longrightarrow> mapM local_at is s = (if is = [] then Ok [] else Err ''empty call stack'', s)"
  by (induction "is") (simp_all add: bind_def ret_def local_at_run)

lemma mm_locals: "mm.triple p held (locals_cover is) (mapM local_at is)
    (\<lambda>ls s. length ls = length is \<and> (\<forall>l \<in> set ls. is_cell (vheap (fst s)) l))"
proof (rule mm.tripleI)
  fix s r t
  assume a: "run_inv p held s" "locals_cover is s" "mapM local_at is s = (r, t)"
  show "run_inv p held t \<and> run_ext s t \<and> (\<forall>q. r = Panic q \<longrightarrow> excused q) \<and>
      (\<forall>ls. r = Ok ls \<longrightarrow> length ls = length is \<and> (\<forall>l \<in> set ls. is_cell (vheap (fst t)) l))"
  proof (cases "snd s")
    case (Cons f fs)
    have f: "frame_ok p (vheap (fst s)) f" using a(1) Cons by (simp add: run_inv_def frames_ok_def)
    show ?thesis
      using a mapM_local_run [OF Cons, of "is"] f
      by (auto simp: locals_cover_def Cons frame_ok_def mm.ext_refl)
  qed (use a mapM_local_empty [of s "is"] in \<open>auto simp: mm.ext_refl split: if_splits\<close>)
qed

lemma locals_cover_pop: "mm.triple p held (locals_cover is) pop_operand (\<lambda>h s. live (vheap (fst s)) h \<and> locals_cover is s)"
proof (rule mm.tripleI)
  fix s r t
  assume a: "run_inv p held s" "locals_cover is s" "pop_operand s = (r, t)"
  have "locals_cover is t"
    using a(2,3) by (auto simp: pop_operand_def top_frame_def set_top_def locals_cover_def monad_defs split: list.splits)
  then show "run_inv p held t \<and> run_ext s t \<and> (\<forall>q. r = Panic q \<longrightarrow> excused q) \<and>
      (\<forall>h. r = Ok h \<longrightarrow> live (vheap (fst t)) h \<and> locals_cover is t)"
    using mm.triple_D [OF mm_pop a(1) TrueI a(3)] by blast
qed

lemma mm_vm_covered:
  assumes "vv.triple p held P m Q"
  shows "mm.triple p held (\<lambda>s. P (fst s) \<and> locals_cover is s) (on_vm m) (\<lambda>a s. Q a (fst s) \<and> locals_cover is s)"
proof (rule mm.tripleI)
  fix s r t
  assume a: "run_inv p held s" "P (fst s) \<and> locals_cover is s" "on_vm m s = (r, t)"
  have "locals_cover is t"
    using a(2,3) by (auto simp: on_vm_def zoom_def locals_cover_def split: prod.splits)
  then show "run_inv p held t \<and> run_ext s t \<and> (\<forall>q. r = Panic q \<longrightarrow> excused q) \<and>
      (\<forall>x. r = Ok x \<longrightarrow> Q x (fst t) \<and> locals_cover is t)"
    using mm.triple_D [OF mm_vm [OF assms] a(1) _ a(3)] a(2) by blast
qed

lemma load_plain: "mm.triple p held (locals_cover [i]) (op_load i) (\<lambda>_ _. True)"
  unfolding op_load_def
  by (rule mm.triple_first, rule mm.triple_post [OF mm_local], simp, rule conjunct1, assumption, intro mm_walk) auto

lemma load_checked_plain: "mm.triple p held (locals_cover [i]) (op_load_checked i m) (\<lambda>_ _. True)"
  unfolding op_load_checked_def
  by (rule mm.triple_first, rule mm.triple_post [OF mm_local], simp, rule conjunct1, assumption, intro mm_walk) auto

lemma store_plain: "mm.triple p held (locals_cover [i]) (op_store i) (\<lambda>_ _. True)"
proof -
  have "mm.triple p held (\<lambda>s. live (vheap (fst s)) h \<and> locals_cover [i] s)
      (local_at i) (\<lambda>l s. live (vheap (fst s)) h \<and> is_cell (vheap (fst s)) l)" for h
    by (rule mm.tripleI)
       (auto simp: local_at_run locals_cover_def run_inv_def frames_ok_def frame_ok_def mm.ext_refl split: list.splits if_splits)
  then show ?thesis
    unfolding op_store_def
    by (rule mm.triple_first [OF locals_cover_pop mm.triple_first])
       (rule mm.triple_pre [OF mm_heap [OF hh_replace_cell]], simp)
qed

lemma frame_ok_locals:
  "frame_ok p hp f \<Longrightarrow> is_cell hp c \<Longrightarrow> frame_ok p hp (f\<lparr>frame_locals := (frame_locals f)[i := c]\<rparr>)"
  by (auto simp: frame_ok_def dest!: set_update_subset_insert [THEN subsetD])

lemma rebind_plain: "mm.triple p held (locals_cover [i]) (op_rebind i) (\<lambda>_ _. True)"
proof -
  have cell: "mm.triple p held (\<lambda>s. is_cell (vheap (fst s)) c \<and> locals_cover [i] s)
      (local_at i) (\<lambda>l s. is_cell (vheap (fst s)) c)" for c
    by (rule mm.tripleI)
       (auto simp: local_at_run locals_cover_def run_inv_def frames_ok_def frame_ok_def mm.ext_refl split: list.splits if_splits)
  have put: "mm.triple p held (\<lambda>s. is_cell (vheap (fst s)) c)
      (bind top_frame (\<lambda>f. set_top (f\<lparr>frame_locals := (frame_locals f)[i := c]\<rparr>))) (\<lambda>_ _. True)" for c
    by (intro mm_walk) (auto simp: frame_ok_locals)
  have u: "mm.triple p held (locals_cover [i]) (on_vm (vm_alloc V_Unit)) (\<lambda>h s. live (vheap (fst s)) h \<and> locals_cover [i] s)"
    by (rule mm.triple_pre [OF mm_vm_covered [OF vv_alloc_live]]) simp
  have c: "mm.triple p held (\<lambda>s. live (vheap (fst s)) h \<and> locals_cover [i] s) (on_vm (vm_alloc (V_Cell h)))
      (\<lambda>h s. is_cell (vheap (fst s)) h \<and> locals_cover [i] s)" for h
    by (rule mm.triple_post [OF mm.triple_pre [OF mm_vm_covered [OF vv_alloc]]]) (auto simp: shaped_cell)
  show ?thesis
    unfolding op_rebind_def
    by (rule mm.triple_first [OF u mm.triple_first [OF c mm.triple_first [OF cell put]]])
qed

lemma closure_plain:
  assumes "g < length (funcs p)" and "length cs = captures (funcs p ! g)"
  shows "mm.triple p held (locals_cover cs) (op_closure g cs) (\<lambda>_ _. True)"
  unfolding op_closure_def
  by (rule mm.triple_first [OF mm_locals], intro mm_walk)
     (use assms in \<open>auto simp: frame_ok_def closure_ok_def\<close>)

section \<open>Waiting, returning, host operations\<close>

lemma mm_outcome:
  "(\<And>h. out = Out_Value h \<Longrightarrow> mm.triple p held P (f h) R) \<Longrightarrow>
   (\<And>h. out = Out_Thrown h \<Longrightarrow> mm.triple p held P (g h) R) \<Longrightarrow>
   mm.triple p held P (case out of Out_Value h \<Rightarrow> f h | Out_Thrown h \<Rightarrow> g h) R"
  by (cases out) simp_all

lemma step_post_continue [simp]: "step_post St_Continue s"
  by (simp add: step_post_def)

lemma await_triple: "mm.triple p held (\<lambda>_. True) op_await step_post"
  unfolding op_await_def
  by (intro mm_walk mm_outcome) (auto simp: step_post_def is_promise_at_def shaped_def)

lemma set_tl: "x \<in> set (tl xs) \<Longrightarrow> x \<in> set xs"
  by (cases xs) auto

lemma mm_pop_frame: "mm.triple p held (\<lambda>_. True) (modify (\<lambda>(v, fs). (v, tl fs))) (\<lambda>_ _. True)"
  by (rule mm.triple_modify) (auto simp: run_inv_def frames_ok_def run_ext_def vv.ext_refl dest!: set_tl)

lemma return_triple: "mm.triple p held (\<lambda>_. True) op_return step_post"
  unfolding op_return_def
  by (intro mm_walk mm.triple_use_seq [OF mm_pop_frame] mm.triple_use_seq [OF call_value_triple])
     (auto simp: step_post_def outcome_live_def frame_ok_def)

lemma mm_to_host: "mm.triple p held (\<lambda>_. True) (mapM (\<lambda>h. on_vm (to_host h)) hs) (\<lambda>vs _. \<forall>v \<in> set vs. hv_wf v)"
  by (rule mm.triple_post [OF mm.triple_mapM [where R = "\<lambda>_ y _. hv_wf y"]])
     (auto intro: mm_stable mm_vm [OF vv_to_host] dest: list_all2_right)

lemma mm_call_host: "mm.triple p held (\<lambda>_. \<forall>v \<in> set args. hv_wf v) (on_vm (call_host n args)) (\<lambda>x _. reply_ok x)"
  by (rule mm.triple_pull [where C = "\<forall>v \<in> set args. hv_wf v"], assumption,
      rule mm.triple_pre [OF mm_vm [OF vv_call_host]]) simp_all

lemma mm_ready_result:
  "mm.triple p held (\<lambda>_. type_ok (op_result op) \<and> result_wf value) (on_vm (ready_result value op))
     (\<lambda>h s. live (vheap (fst s)) h)"
  by (rule mm.triple_pull [where C = "type_ok (op_result op) \<and> result_wf value"], assumption,
      rule mm.triple_pre [OF mm_vm [OF vv_ready_result]]) simp_all

lemma vv_operation: "vv.triple p held (\<lambda>_. True) (bind (gets vm_hosts) (\<lambda>reg. lift_res (host_operation reg n))) (\<lambda>_ _. True)"
  by (rule vv.triple_bind [OF vv.stable_const vv.triple_gets [where Q = "\<lambda>_ _. True"]], simp)
     (rule vv.triple_lift_res; simp add: host_operation_def)

lemma mm_reply:
  "(\<And>fut. r = Reply_Pending fut \<Longrightarrow> mm.triple p held P (f fut) R) \<Longrightarrow>
   (\<And>v. r = Reply_Ready v \<Longrightarrow> mm.triple p held P (g v) R) \<Longrightarrow>
   mm.triple p held P (case r of Reply_Ready v \<Rightarrow> g v | Reply_Pending fut \<Rightarrow> f fut) R"
  by (cases r) simp_all

lemma host_triple: "mm.triple p held (\<lambda>_. True) (op_host n argc) step_post"
  unfolding op_host_def
  by (intro mm_walk mm_reply mm.triple_use_seq [OF mm_heap [OF hh_volatile]] mm.triple_use [OF mm_to_host]
      mm.triple_use [OF mm_vm [OF vv_operation]] mm.triple_use [OF mm_call_host]
      mm.triple_use [OF mm_vm [OF vv_spawn_live]] mm.triple_use [OF mm_vm [OF vv_alloc_host]]
      mm.triple_use [OF mm_ready_result])
     (auto simp: reply_ok_def work_ok_def)

section \<open>One step\<close>

definition op_at :: "program \<Rightarrow> op \<Rightarrow> mst \<Rightarrow> bool" where
  "op_at p x s \<longleftrightarrow> (\<forall>f fs. snd s = f # fs \<longrightarrow> op_safe p (funcs p ! fr_function f) x)"

lemma mm_continue: "mm.triple p held P m (\<lambda>_ _. True) \<Longrightarrow> mm.triple p held P (continue m) step_post"
  unfolding continue_def seq_def by (erule mm.triple_first) (auto intro: mm.triple_ret)

lemma op_at_cover:
  "op_at p x s \<Longrightarrow> run_inv p held s \<Longrightarrow> (\<And>f. op_safe p f x \<Longrightarrow> \<forall>i \<in> set is. i < locals f) \<Longrightarrow> locals_cover is s"
  by (auto simp: op_at_def locals_cover_def run_inv_def frames_ok_def frame_ok_def)

lemmas op_plain = dup_plain neg_plain not_plain newtype_plain get_type_plain to_string_plain to_number_plain
  panic_plain jump_if_plain json_stringify_plain json_parse_plain json_parse_result_plain descriptor_plain
  match_plain match_type_plain jwt_stringify_plain enum_plain slot_plain call_plain component_call_plain
  method_call_plain promise_join_plain handler_plain list_plain list_has_plain list_append_plain props_plain
  list_extend_plain record_plain struct_plain record_extend_plain field_plain field_or_self_plain
  index_plain field_set_plain index_set_plain list_mut_plain mm_jump

lemma const_plain: "plain p held (alloc_push (val_of_literal l))"
  by (rule mm.triple_pre [OF mm_alloc_push]) simp

lemma pop_plain: "plain p held (bind pop_operand (\<lambda>_. ret ()))"
  by (intro mm_walk) auto

lemma throw_triple: "mm.triple p held (\<lambda>_. True) (bind pop_operand raise) step_post"
  by (rule mm.triple_use [OF mm_pop], intro mm_stable, simp, rule mm.triple_pre [OF mm_raise], simp)

lemma covered: "mm.triple p held (locals_cover is) m Q \<Longrightarrow>
   (\<And>f. op_safe p f x \<Longrightarrow> \<forall>i \<in> set is. i < locals f) \<Longrightarrow> mm.triple p held (op_at p x) m Q"
  by (erule mm.triple_pre) (rule op_at_cover)

lemma closure_at: "mm.triple p held (op_at p (Op_Closure g cs)) (op_closure g cs) (\<lambda>_ _. True)"
proof (rule mm.tripleI)
  fix s r t
  assume a: "run_inv p held s" "op_at p (Op_Closure g cs) s" "op_closure g cs s = (r, t)"
  show "run_inv p held t \<and> run_ext s t \<and> (\<forall>q. r = Panic q \<longrightarrow> excused q) \<and> (\<forall>u. r = Ok u \<longrightarrow> True)"
  proof (cases "snd s")
    case Nil
    have "r = Err ''empty call stack'' \<and> t = s"
      using a(3) mapM_local_empty [OF Nil, of cs] Nil
      by (auto simp: op_closure_def bind_def top_frame_def split: if_splits)
    then show ?thesis using a(1) by (simp add: mm.ext_refl)
  next
    case (Cons f fs)
    then have g: "g < length (funcs p)" "length cs = captures (funcs p ! g)"
      using a(2) by (simp_all add: op_at_def op_safe_def)
    have "locals_cover cs s" by (rule op_at_cover [OF a(2,1)]) (simp add: op_safe_def)
    from mm.triple_D [OF closure_plain [OF g] a(1) this a(3)] show ?thesis by simp
  qed
qed

lemma exec_op_triple: "mm.triple p held (op_at p x) (exec_op x) step_post"
  by (cases x; simp only: exec_op_def op.case;
      (rule mm_continue)?;
      ((rule mm.triple_weaken, rule op_plain const_plain pop_plain throw_triple await_triple return_triple host_triple)
      | (rule mm.triple_weaken, rule binary_plain, simp add: is_binary_def number_op_def)
      | (rule covered, rule load_plain load_checked_plain store_plain rebind_plain, simp add: op_safe_def)
      | rule closure_at))

lemma fetch_triple: "mm.triple p held (\<lambda>_. True) fetch (op_at p)"
proof (rule mm.tripleI)
  fix s r t
  assume a: "run_inv p held s" "fetch s = (r, t)"
  have v: "prog (fst s) = p" "program_safe p" using a(1) by (simp_all add: run_inv_def vm_inv_def)
  show "run_inv p held t \<and> run_ext s t \<and> (\<forall>q. r = Panic q \<longrightarrow> excused q) \<and> (\<forall>x. r = Ok x \<longrightarrow> op_at p x t)"
  proof (cases "snd s")
    case Nil
    then show ?thesis using a by (auto simp: fetch_def top_frame_def bind_def mm.ext_refl)
  next
    case (Cons f fs)
    then have f: "fr_function f < length (funcs p)" using a(1) by (simp add: run_inv_def frames_ok_def frame_ok_def)
    show ?thesis
      using a f v Cons program_safe_op [OF v(2) f]
      by (cases s) (auto simp: fetch_def top_frame_def set_top_def on_vm_def function_at_def monad_defs op_at_def
          run_inv_def frames_ok_def run_ext_def vv.ext_refl split: if_splits)
  qed
qed

lemma step_triple: "mm.triple p held (\<lambda>_. True) step step_post"
  unfolding step_def by (rule mm.triple_first [OF fetch_triple exec_op_triple])

end
