(* ===== verification/SchedTriples.thy ===== *)
theory SchedTriples
  imports ExecTriples
begin

text \<open>
  The scheduler keeps the machine's invariant: joins, the work of one slice, the commands of
  host code, a task that is taken out of the table, run, settled or put back, and the whole
  drive up to the collection of garbage.
\<close>

section \<open>Joins\<close>

lemma filter_none_update:
  "i < length xs \<Longrightarrow> xs ! i = None \<Longrightarrow>
   length (filter (\<lambda>x. x = None) (xs[i := Some h])) = length (filter (\<lambda>x. x = None) xs) - 1"
proof (induction xs arbitrary: i)
  case (Cons x xs)
  show ?case
  proof (cases i)
    case (Suc j)
    then have "xs ! j = None" "j < length xs" using Cons.prems by auto
    then have "None \<in> set (filter (\<lambda>x. x = None) xs)" using nth_mem [of j xs] by simp
    then have "length (filter (\<lambda>x. x = None) xs) \<noteq> 0" by (metis empty_iff empty_set length_0_conv)
    then show ?thesis using Cons Suc by auto
  qed (use Cons in auto)
qed simp

lemma join_value_ok:
  assumes j: "join_ok hp j" and c: "jn_cursor j < length (jn_inputs j)"
    and s: "settled_to hp (jn_inputs j ! jn_cursor j) out"
  shows "join_ok hp (join_value out j)"
proof (cases out)
  case (Out_Value h)
  then show ?thesis
    using assms filter_none_update [of "jn_cursor j" "jn_values j" h]
    by (auto simp: join_value_def join_ok_def nth_list_update)
qed (use j in \<open>simp add: join_value_def\<close>)

lemma join_value_same [simp]:
  "jn_cursor (join_value out j) = jn_cursor j" "jn_inputs (join_value out j) = jn_inputs j"
  "jn_kind (join_value out j) = jn_kind j" "jn_first (join_value out j) = jn_first j"
  "jn_created (join_value out j) = jn_created j"
  by (simp_all add: join_value_def split: outcome.split)

lemma join_candidate_ok:
  "join_ok hp j \<Longrightarrow> jn_cursor j < length (jn_inputs j) \<Longrightarrow> settled_to hp (jn_inputs j ! jn_cursor j) out \<Longrightarrow>
   join_ok hp (join_candidate o' out j)"
  by (auto simp: join_candidate_def Let_def join_ok_def)

lemma join_candidate_same [simp]:
  "jn_cursor (join_candidate o' out j) = jn_cursor j" "jn_inputs (join_candidate o' out j) = jn_inputs j"
  by (simp_all add: join_candidate_def Let_def)

lemma join_step_ok: "join_ok hp j \<Longrightarrow> jn_cursor j < length (jn_inputs j) \<Longrightarrow> join_ok hp (j\<lparr>jn_cursor := Suc (jn_cursor j)\<rparr>)"
  by (simp add: join_ok_def)

lemma join_visit_ok:
  assumes j: "join_ok hp j" and c: "jn_cursor j < length (jn_inputs j)"
  shows "no_panic (join_visit hp orders j)"
    and "join_visit hp orders j = Ok j' \<Longrightarrow> join_ok hp j'"
proof -
  let ?p = "jn_inputs j ! jn_cursor j"
  show "no_panic (join_visit hp orders j)"
    unfolding join_visit_def Let_def
    by (intro no_panic_bind) (auto simp: join_value_def split: val.split option.split sum.split intro!: no_panic_bind)
  assume run: "join_visit hp orders j = Ok j'"
  then obtain v j1 where v: "heap_get hp ?p = Ok v" and j': "j' = j1\<lparr>jn_cursor := Suc (jn_cursor j1)\<rparr>"
    and arm: "(case v of
             V_Promise (Some (Inl e)) \<Rightarrow> Err e
           | V_Promise (Some (Inr out)) \<Rightarrow>
               if jn_kind j = PJ_Race \<or> is_thrown out
               then res_bind (ok_or ''missing promise settlement order'' (bt_get orders ?p))
                      (\<lambda>o'. Ok (join_candidate o' out (join_value out j)))
               else Ok (join_value out j)
           | V_Promise None \<Rightarrow> Ok j
           | _ \<Rightarrow> Err ''promise combinator requires promises'') = Ok j1"
    unfolding join_visit_def Let_def res_bind_Ok_iff by blast
  have "join_ok hp j1 \<and> jn_cursor j1 = jn_cursor j \<and> jn_inputs j1 = jn_inputs j"
  proof (cases "\<exists>out. v = V_Promise (Some (Inr out))")
    case True
    then obtain out where out: "v = V_Promise (Some (Inr out))" by blast
    then have s: "settled_to hp ?p out" using v by (simp add: settled_to_def)
    show ?thesis
      using arm out j c s join_value_ok [OF j c s]
      by (auto simp: Let_def res_bind_Ok_iff join_candidate_ok split: if_splits)
  next
    case False
    then show ?thesis using arm j by (auto split: val.splits option.splits sum.splits)
  qed
  then show "join_ok hp j'" using c join_step_ok [of hp j1] by (simp add: j')
qed

lemma join_scan_ok:
  assumes "join_ok hp j" and "n \<le> left"
  shows "no_panic (join_scan hp orders n j left) \<and>
    (\<forall>j' l. join_scan hp orders n j left = Ok (j', l) \<longrightarrow> join_ok hp j' \<and> l \<le> left \<and> left - n \<le> l)"
  using assms
proof (induction n arbitrary: j left)
  case (Suc n)
  show ?case
  proof (cases "jn_cursor j = length (jn_inputs j)")
    case False
    then have c: "jn_cursor j < length (jn_inputs j)" using Suc.prems by (simp add: join_ok_def)
    note v = join_visit_ok [OF Suc.prems(1) c]
    have IH: "no_panic (join_scan hp orders n j1 (left - 1)) \<and>
      (\<forall>j' l. join_scan hp orders n j1 (left - 1) = Ok (j', l) \<longrightarrow> join_ok hp j' \<and> l \<le> left - 1 \<and> left - 1 - n \<le> l)"
      if "join_visit hp orders j = Ok j1" for j1
      by (rule Suc.IH) (use v(2) [OF that] Suc.prems(2) in auto)
    show ?thesis
      using False v(1) [of orders] IH by (fastforce simp: res_bind_Ok_iff intro!: no_panic_bind)
  qed (use Suc.prems in auto)
qed simp

lemma settled_to_live: "heap_ok p hp \<Longrightarrow> settled_to hp h out \<Longrightarrow> outcome_live hp out"
  using heap_okD [of p hp h "V_Promise (Some (Inr out))"]
  by (cases out) (simp_all add: outcome_live_def settled_to_def)

lemma join_values_live:
  assumes ok: "heap_ok p hp" and j: "join_ok hp j"
  shows "handles_live hp (List.map_filter id (jn_values j))"
  unfolding handles_live_def
proof
  fix h assume "h \<in> set (List.map_filter id (jn_values j))"
  then have "Some h \<in> set (jn_values j)" by (auto simp: List.map_filter_def)
  then obtain i where "i < length (jn_values j)" "jn_values j ! i = Some h" by (auto simp: in_set_conv_nth)
  then have "settled_to hp (jn_inputs j ! i) (Out_Value h)" using j by (simp add: join_ok_def)
  then show "live hp h" using settled_to_live [OF ok] by (fastforce simp: outcome_live_def)
qed

lemma join_finish_ok:
  assumes ok: "heap_ok p hp" and j: "join_ok hp j" and run: "join_finish j = (res, j')"
  shows "join_ok hp j'"
    and "res = Jr_Outcome out \<Longrightarrow> outcome_live hp out"
    and "res = Jr_All hs \<Longrightarrow> handles_live hp hs"
proof -
  have first: "outcome_live hp out" if "jn_first j = Some (n, i, out)" for n i out
    using j settled_to_live [OF ok] that unfolding join_ok_def by blast
  note vals = join_values_live [OF ok j]
  show "join_ok hp j'"
    using j run by (auto simp: join_finish_def join_ok_def split: option.splits if_splits)
  show "res = Jr_Outcome out \<Longrightarrow> outcome_live hp out"
    using first run by (auto simp: join_finish_def split: option.splits if_splits)
  show "res = Jr_All hs \<Longrightarrow> handles_live hp hs"
    using vals run by (auto simp: join_finish_def split: option.splits if_splits)
qed

definition out_live :: "heap \<Rightarrow> outcome option \<Rightarrow> bool" where
  "out_live hp x \<longleftrightarrow> (\<forall>out. x = Some out \<longrightarrow> outcome_live hp out)"

lemma join_stable: "vv.stable (\<lambda>v. join_ok (vheap v) j)"
  by (rule vv_stable1) (rule join_ok_ext1)

lemma vv_poll_join:
  "vv.triple p held (\<lambda>v. join_ok (vheap v) j) (poll_join j left)
     (\<lambda>(out, j', l) v. join_ok (vheap v) j' \<and> out_live (vheap v) out \<and> l \<le> left)"
proof (rule vv.tripleI)
  fix s r t
  assume a: "vm_inv p held s" "join_ok (vheap s) j" "poll_join j left s = (r, t)"
  let ?j = "if jn_cursor j = 0 then j\<lparr>jn_scan := completion_epoch s\<rparr> else j"
  have j: "join_ok (vheap s) ?j" using a(2) by (simp add: join_ok_def)
  have ok: "heap_ok p (vheap s)" using a(1) by (simp add: vm_inv_def)
  note sc = join_scan_ok [OF j, of "min 256 left" left "completion_order s"]
  show "vm_inv p held t \<and> vm_ext s t \<and> (\<forall>q. r = Panic q \<longrightarrow> excused q) \<and>
      (\<forall>x. r = Ok x \<longrightarrow> (\<lambda>(out, j', l) v. join_ok (vheap v) j' \<and> out_live (vheap v) out \<and> l \<le> left) x t)"
  proof (cases "join_scan (vheap s) (completion_order s) (min 256 left) ?j left")
    case (Ok x)
    obtain j1 l where x: "x = (j1, l)" by fastforce
    have j1: "join_ok (vheap s) j1" "l \<le> left" using sc Ok x by auto
    obtain res j2 where f: "join_finish j1 = (res, j2)" by fastforce
    note fin = join_finish_ok [OF ok j1(1) f]
    show ?thesis
    proof (cases res)
      case (Jr_All hs)
      have run: "bind (vm_alloc (V_List hs)) (\<lambda>h. ret (Some (Out_Value h), j2, l)) s = (r, t)"
        using a(3) Ok x f Jr_All by (simp add: poll_join_def Let_def)
      have "vv.triple p held (\<lambda>v. handles_live (vheap v) hs \<and> join_ok (vheap v) j2)
          (bind (vm_alloc (V_List hs)) (\<lambda>h. ret (Some (Out_Value h), j2, l)))
          (\<lambda>(out, j', l) v. join_ok (vheap v) j' \<and> out_live (vheap v) out \<and> l \<le> left)"
        by (rule vv.triple_use [OF vv_alloc_live], intro vv_stable join_stable, simp, rule vv.triple_ret)
           (simp add: out_live_def outcome_live_def j1(2))
      from vv.triple_D [OF this a(1) _ run] show ?thesis using fin(1,3) Jr_All by blast
    next
      case Jr_Pending
      then have "r = Ok (None, j2, l) \<and> t = s" using a(3) Ok x f by (simp add: poll_join_def Let_def)
      then show ?thesis using a(1) fin(1) j1(2) by (simp add: vv.ext_refl out_live_def)
    next
      case (Jr_Outcome out)
      then have "r = Ok (Some out, j2, l) \<and> t = s" using a(3) Ok x f by (simp add: poll_join_def Let_def)
      then show ?thesis using a(1) fin(1) fin(2) [OF Jr_Outcome] j1(2) by (simp add: vv.ext_refl out_live_def)
    qed
  next
    case (Err e)
    then have "r = Err e \<and> t = s" using a(3) by (simp add: poll_join_def Let_def)
    then show ?thesis using a(1) by (simp add: vv.ext_refl)
  next
    case (Panic e)
    have "no_panic (join_scan (vheap s) (completion_order s) (min 256 left) ?j left)" using sc by simp
    then show ?thesis unfolding Panic by simp
  qed
qed

section \<open>Code\<close>

lemma run_code_ok:
  assumes "run_inv p held (v, fs)" and "run_code n limit v fs = (r, v')"
  shows "vm_inv p held v' \<and> vm_ext v v' \<and> (\<forall>q. r = Panic q \<longrightarrow> excused q) \<and>
    (\<forall>res w fs' k b. r = Ok (res, w, fs', k, b) \<longrightarrow> run_inv p held (v', fs') \<and> k \<le> n \<and>
      (\<forall>out. res = Some (Inr out) \<longrightarrow> outcome_live (vheap v') out) \<and>
      (\<forall>h. w = Some h \<longrightarrow> is_promise_at (vheap v') h))"
  using assms
proof (induction n arbitrary: v fs r v')
  case 0
  then show ?case by (auto simp: run_inv_def vv.ext_refl)
next
  case (Suc n)
  let ?v1 = "v\<lparr>instructions := Suc (instructions v)\<rparr>"
  have i1: "run_inv p held (?v1, fs)" using Suc.prems(1) by (simp add: run_inv_def frames_ok_def)
  have e1: "vm_ext v ?v1" by (simp add: vm_ext_def heap_ext1_refl)
  show ?case
  proof (cases "case limit of None \<Rightarrow> False | Some l \<Rightarrow> instructions ?v1 > l")
    case True
    then show ?thesis using Suc.prems(2) i1 e1 by (auto simp: run_inv_def Let_def)
  next
    case False
    obtain r1 v2 fs2 where st: "step (?v1, fs) = (r1, v2, fs2)" by (metis surj_pair)
    note d = mm.triple_D [OF step_triple i1 TrueI st]
    have e2: "vm_ext v v2" using d(2) vv.ext_trans [OF e1] by (simp add: run_ext_def)
    show ?thesis
    proof (cases "r1 = Ok St_Continue")
      case True
      obtain r3 v3 where rc: "run_code n limit v2 fs2 = (r3, v3)" by fastforce
      from Suc.IH [OF d(1) rc] show ?thesis
        using Suc.prems(2) False st True rc vv.ext_trans [OF e2]
        by (cases r3) (auto simp: Let_def simp del: run_code.simps(1))
    next
      case False': False
      have post: "\<And>x. r1 = Ok x \<Longrightarrow> step_post x (v2, fs2)" using d(4) by blast
      show ?thesis
        using Suc.prems(2) False False' st d(1) d(3) post e2
        by (cases r1) (auto simp: Let_def run_inv_def step_post_def split: vm_step.splits)
    qed
  qed
qed

section \<open>The work of a slice\<close>

definition slice_ok :: "program \<Rightarrow> heap \<Rightarrow> task \<Rightarrow> slice \<Rightarrow> bool" where
  "slice_ok p hp t s \<longleftrightarrow> task_ok p hp (sl_task s) \<and> tk_promise (sl_task s) = tk_promise t \<and>
     tk_completion (sl_task s) = tk_completion t \<and> (\<forall>r. sl_result s = Some r \<longrightarrow> settled_live hp r)"

lemma vv_poll_future:
  "vv.triple p held (\<lambda>_. True) (poll_future fut) (\<lambda>(r, _) _. \<forall>x. r = Some x \<longrightarrow> result_wf x)"
proof (rule vv.tripleI)
  fix s r t
  assume a: "vm_inv p held s" "poll_future fut s = (r, t)"
  obtain x woke evs where e: "ext_poll (ext_lib s) (clock s) fut = (x, woke, evs)" by (metis surj_pair)
  have "polls_ok (ext_lib s)" using a(1) by (simp add: vm_inv_def)
  then have ok: "\<forall>y. x = Some y \<longrightarrow> result_wf y" "\<forall>e \<in> set evs. event_ok e"
    using e unfolding polls_ok_def by blast+
  have t: "r = Ok (x, woke)" "t = s\<lparr>clock := Suc (clock s),
      ctx := (host_events evs (ctx s))\<lparr>ready := ready (host_events evs (ctx s)) \<or> woke\<rparr>\<rparr>"
    using a(2) e by (simp_all add: poll_future_def)
  have "ctx_ok (vheap s) (host_events evs (ctx s))"
    by (rule ctx_ok_events [OF ok(2)]) (use a(1) in \<open>simp add: vm_inv_def\<close>)
  then have "vm_inv p held t" using a(1) by (simp add: t vm_inv_def)
  then show "vm_inv p held t \<and> vm_ext s t \<and> (\<forall>q. r = Panic q \<longrightarrow> excused q) \<and>
      (\<forall>y. r = Ok y \<longrightarrow> (\<lambda>(r, _) _. \<forall>x. r = Some x \<longrightarrow> result_wf x) y t)"
    using ok(1) by (simp add: t vm_ext_def heap_ext1_refl)
qed

lemma vv_task_stable: "vv.stable (\<lambda>v. task_ok p (vheap v) t)"
  by (rule vv_stable1) (rule task_ok_ext1)

lemma vv_settled_result:
  assumes "vv.triple p held P m (\<lambda>h v. live (vheap v) h)"
  shows "vv.triple p held P (\<lambda>v. case m v of
      (Ok h, v') \<Rightarrow> (Ok (f (Inr (Out_Value h))), v') | (Err e, v') \<Rightarrow> (Ok (f (Inl e)), v') | (Panic q, v') \<Rightarrow> (Panic q, v'))
    (\<lambda>x v. \<exists>r. x = f r \<and> settled_live (vheap v) r)"
proof (rule vv.tripleI)
  fix s r t
  assume a: "vm_inv p held s" "P s" and run: "(case m s of
      (Ok h, v') \<Rightarrow> (Ok (f (Inr (Out_Value h))), v') | (Err e, v') \<Rightarrow> (Ok (f (Inl e)), v') | (Panic q, v') \<Rightarrow> (Panic q, v')) = (r, t)"
  obtain r1 s1 where m1: "m s = (r1, s1)" by fastforce
  note d = vv.triple_D [OF assms a m1]
  show "vm_inv p held t \<and> vm_ext s t \<and> (\<forall>q. r = Panic q \<longrightarrow> excused q) \<and>
      (\<forall>x. r = Ok x \<longrightarrow> (\<exists>r. x = f r \<and> settled_live (vheap t) r))"
    using run m1 d by (cases r1) (auto simp: settled_live_def outcome_live_def)
qed

lemma vv_run_work:
  "vv.triple p held (\<lambda>v. task_ok p (vheap v) t) (run_work t left limit) (\<lambda>s v. slice_ok p (vheap v) t s)"
proof (cases "tk_work t")
  case (W_CallbackWait h)
  show ?thesis
    unfolding run_work_def W_CallbackWait work.case
    apply (rule vv.triple_use [OF vv_get], rule vv_task_stable, simp)
    by (intro vv.triple_val vv.triple_fail vv.triple_option vv.triple_ret)
       (auto simp: slice_ok_def task_ok_def val_ok_settled)
next
  case (W_Join j)
  have j: "join_ok (vheap v) j" if "task_ok p (vheap v) t" for v
    using that W_Join by (simp add: task_ok_def work_ok_def)
  show ?thesis
    unfolding run_work_def W_Join work.case
    apply (rule vv.triple_use [OF vv_poll_join], rule vv_task_stable, rule j, simp)
    by (intro vv.triple_prod vv.triple_ret)
       (auto simp: slice_ok_def task_ok_def work_ok_def settled_live_def out_live_def)
next
  case (W_Host hw)
  have ty: "type_ok (hw_result hw)" if "task_ok p (vheap v) t" for v
    using that W_Host by (simp add: task_ok_def work_ok_def)
  let ?slice = "\<lambda>woke r. \<lparr>sl_result = Some r, sl_task = t\<lparr>tk_work := W_Host (hw\<lparr>hw_ready := woke\<rparr>)\<rparr>,
    sl_left = left - 1, sl_progressed = False\<rparr>"
  have some: "vv.triple p held (\<lambda>v. task_ok p (vheap v) t \<and> result_wf y)
      (\<lambda>v. case host_result y (hw_result hw) (hw_channel hw) (hw_error hw) v of
          (Ok h, v') \<Rightarrow> (Ok (?slice woke (Inr (Out_Value h))), v')
        | (Err e, v') \<Rightarrow> (Ok (?slice woke (Inl e)), v')
        | (Panic q, v') \<Rightarrow> (Panic q, v')) (\<lambda>s v. slice_ok p (vheap v) t s)" for y woke
  proof (rule vv.triple_pull [where C = "type_ok (hw_result hw) \<and> result_wf y"])
    assume c: "type_ok (hw_result hw) \<and> result_wf y"
    show "vv.triple p held (\<lambda>v. task_ok p (vheap v) t \<and> result_wf y)
      (\<lambda>v. case host_result y (hw_result hw) (hw_channel hw) (hw_error hw) v of
          (Ok h, v') \<Rightarrow> (Ok (?slice woke (Inr (Out_Value h))), v')
        | (Err e, v') \<Rightarrow> (Ok (?slice woke (Inl e)), v')
        | (Panic q, v') \<Rightarrow> (Panic q, v')) (\<lambda>s v. slice_ok p (vheap v) t s)"
      by (rule vv.triple_last [OF vv_settled_result [OF vv_host_result, where f = "?slice woke"]],
          use c in simp, use c in simp, intro vv.stable_conj vv.stable_const vv_task_stable)
         (use c in \<open>auto simp: slice_ok_def task_ok_def work_ok_def\<close>)
  qed (use ty in auto)
  have none: "vv.triple p held (\<lambda>v. task_ok p (vheap v) t) (ret \<lparr>sl_result = None,
      sl_task = t\<lparr>tk_work := W_Host (hw\<lparr>hw_ready := woke\<rparr>)\<rparr>, sl_left = left - 1, sl_progressed = False\<rparr>)
      (\<lambda>s v. slice_ok p (vheap v) t s)" for woke
    by (rule vv.triple_ret) (use ty in \<open>auto simp: slice_ok_def task_ok_def work_ok_def\<close>)
  show ?thesis
    unfolding run_work_def W_Host work.case Let_def
    by (rule vv.triple_use [OF vv_poll_future], rule vv_task_stable, simp)
       (intro vv.triple_prod vv.triple_option vv.triple_pre [OF some] vv.triple_pre [OF none]; simp)
next
  case (W_Code fs)
  show ?thesis
    unfolding run_work_def W_Code work.case
  proof (rule vv.tripleI)
    fix s r u
    assume a: "vm_inv p held s" "task_ok p (vheap s) t" and run: "(case run_code (min 256 left) limit s fs of
            (Ok (r, w, frames', k, prog'), v') \<Rightarrow>
              (Ok \<lparr>sl_result = r, sl_task = t\<lparr>tk_work := W_Code frames', tk_waiting := w\<rparr>,
                   sl_left = left - k, sl_progressed = prog'\<rparr>, v')
          | (Err e, v') \<Rightarrow> (Err e, v')
          | (Panic p, v') \<Rightarrow> (Panic p, v')) = (r, u)"
    obtain r1 v1 where rc: "run_code (min 256 left) limit s fs = (r1, v1)" by fastforce
    have "run_inv p held (s, fs)"
      using a W_Code by (simp add: run_inv_def frames_ok_def task_ok_def work_ok_def)
    note d = run_code_ok [OF this rc]
    show "vm_inv p held u \<and> vm_ext s u \<and> (\<forall>q. r = Panic q \<longrightarrow> excused q) \<and>
        (\<forall>x. r = Ok x \<longrightarrow> slice_ok p (vheap u) t x)"
      using run rc d a(2) by (cases r1)
        (auto simp: slice_ok_def task_ok_def work_ok_def run_inv_def frames_ok_def settled_live_def)
  qed
qed

end
