(* ===== verification/DriveTriples.thy ===== *)
theory DriveTriples
  imports SchedTriples "HOL-Library.Multiset"
begin

text \<open>
  The drive keeps the machine's invariant: a task leaves the table while it runs, comes back
  when it waits and settles its promise when it is done; the commands of host code enter in
  order; and the collection at the end keeps whatever the machine still refers to.
\<close>

section \<open>The table of tasks\<close>

lemma bt_split:
  assumes "bt_inv m" and "bt_get m k = Some x"
  obtains xs ys where "m = xs @ (k, x) # ys" and "bt_remove k m = xs @ ys" and "bt_insert k y m = xs @ (k, y) # ys"
proof -
  from bt_get_in_set [OF assms(2)] obtain xs ys where m: "m = xs @ (k, x) # ys" by (auto simp: in_set_conv_decomp)
  have l: "\<forall>e \<in> set xs. fst e < k" and r: "\<forall>e \<in> set ys. k < fst e"
    using assms(1) by (auto simp: m bt_inv_def sorted_wrt_append)
  have "bt_insert k y (xs @ (k, x) # ys) = xs @ (k, y) # ys"
    using l by (induction xs) auto
  moreover have "filter (\<lambda>e. fst e \<noteq> k) xs = xs" "filter (\<lambda>e. fst e \<noteq> k) ys = ys"
    using l r by (auto simp: filter_id_conv)
  ultimately show thesis using that [of xs ys] by (simp add: m bt_remove_def case_prod_beta)
qed

text \<open>Who owns a pending promise: the tasks in hand and those in the table.\<close>

definition owners :: "handle list \<Rightarrow> (nat, task) btree \<Rightarrow> handle multiset" where
  "owners held m = mset held + image_mset tk_promise (mset (bt_values m))"

lemma distinct_submset:
  assumes sub: "mset xs \<subseteq># mset ys" and d: "distinct ys"
  shows "distinct xs"
  unfolding distinct_count_atmost_1
proof
  fix a
  have "count (mset xs) a \<le> count (mset ys) a" by (rule mset_subset_eq_count [OF sub])
  also have "\<dots> \<le> 1" using d by (simp add: distinct_count_atmost_1)
  finally show "count (mset xs) a = (if a \<in> set xs then 1 else 0)"
    using count_mset_0_iff [of xs a] by (cases "count (mset xs) a") auto
qed

lemma tasks_ok_by:
  assumes tk: "tasks_ok p hp held v" and inv: "bt_inv m" and keys: "\<forall>i \<in> set (bt_keys m). i < next_task v"
    and ok: "\<forall>t \<in> set (bt_values m). task_ok p hp t" and own: "owners held' m \<subseteq># owners held (tasks v)"
  shows "tasks_ok p hp held' (v\<lparr>tasks := m\<rparr>)"
proof -
  have o1: "owners h ts = mset (h @ map tk_promise (bt_values ts))" for h ts
    by (simp add: owners_def)
  have "distinct (held' @ map tk_promise (bt_values m))"
    by (rule distinct_submset [OF own [unfolded o1]]) (use tk in \<open>simp add: tasks_ok_def\<close>)
  moreover have "set (held' @ map tk_promise (bt_values m)) \<subseteq> set (held @ map tk_promise (bt_values (tasks v)))"
    using set_mset_mono [OF own] unfolding o1 set_mset_mset .
  moreover have "\<forall>h \<in> set (held @ map tk_promise (bt_values (tasks v))). pending hp h"
    using tk unfolding tasks_ok_def by blast
  ultimately show ?thesis
    unfolding tasks_ok_def using inv keys ok by (intro conjI) (simp_all del: set_append set_map distinct_append, blast)
qed

lemma owners_insert: "owners held (bt_insert k t m) \<subseteq># owners (tk_promise t # held) m"
proof -
  have "mset (bt_values (bt_insert k t m)) \<subseteq># add_mset t (mset (bt_values m))"
  proof (induction m)
    case (Cons e m)
    obtain k' u where e: "e = (k', u)" by fastforce
    have "add_mset u (mset (bt_values (bt_insert k t m))) \<subseteq># add_mset u (add_mset t (mset (bt_values m)))"
      using Cons by simp
    then show ?case by (simp add: e bt_values_def add_mset_commute)
  qed (simp add: bt_values_def)
  from image_mset_subseteq_mono [OF this, of tk_promise] show ?thesis by (simp add: owners_def)
qed

lemma owners_retain: "owners held (bt_retain P m) \<subseteq># owners held m"
  by (auto simp: owners_def bt_values_def bt_retain_def image_mset_subseteq_mono)

lemma vm_inv_drop_held: "vm_inv p (h # held) v \<Longrightarrow> vm_inv p held v"
  by (auto simp: vm_inv_def tasks_ok_def)

lemma vm_inv_by:
  "vm_inv p held v \<Longrightarrow> tasks_ok p (vheap v) held' (v\<lparr>tasks := m\<rparr>) \<Longrightarrow> vm_inv p held' (v\<lparr>tasks := m\<rparr>)"
  by (simp add: vm_inv_def)

lemma vm_inv_tasks: "vm_inv p held v \<Longrightarrow> tasks_ok p (vheap v) held v"
  by (simp add: vm_inv_def)

lemma tasks_ok_inv: "tasks_ok p hp held v \<Longrightarrow> bt_inv (tasks v)"
  by (simp add: tasks_ok_def)

lemma vm_inv_take:
  assumes v: "vm_inv p held v" and t: "bt_get (tasks v) i = Some t"
  shows "vm_inv p (tk_promise t # held) (v\<lparr>tasks := bt_remove i (tasks v)\<rparr>)"
    and "task_ok p (vheap v) t" and "i < next_task v"
proof -
  note tk = vm_inv_tasks [OF v]
  note inv = tasks_ok_inv [OF tk]
  obtain xs ys where s: "tasks v = xs @ (i, t) # ys" "bt_remove i (tasks v) = xs @ ys"
    by (rule bt_split [OF inv t])
  show "task_ok p (vheap v) t" "i < next_task v"
    using tk by (auto simp: tasks_ok_def s bt_values_def bt_keys_def)
  show "vm_inv p (tk_promise t # held) (v\<lparr>tasks := bt_remove i (tasks v)\<rparr>)"
  proof (rule vm_inv_by [OF v tasks_ok_by [OF tk bt.inv_remove [OF inv]]])
    show "owners (tk_promise t # held) (bt_remove i (tasks v)) \<subseteq># owners held (tasks v)"
      unfolding s(2) unfolding s(1) by (simp add: owners_def bt_values_def)
  qed (use tk bt.keys_remove [of i "tasks v"] bt_values_remove [of i "tasks v"] in \<open>auto simp: tasks_ok_def\<close>)
qed

lemma vm_inv_put_back:
  assumes v: "vm_inv p (tk_promise t # held) v" and t: "task_ok p (vheap v) t" and i: "i < next_task v"
  shows "vm_inv p held (v\<lparr>tasks := bt_insert i t (tasks v)\<rparr>)"
proof -
  note tk = vm_inv_tasks [OF v]
  have "\<forall>j \<in> set (bt_keys (bt_insert i t (tasks v))). j < next_task v"
    using tk i bt.keys_insert [of i t "tasks v"] by (auto simp: tasks_ok_def)
  moreover have "\<forall>u \<in> set (bt_values (bt_insert i t (tasks v))). task_ok p (vheap v) u"
    using tk t bt_values_insert [of i t "tasks v"] by (auto simp: tasks_ok_def)
  ultimately show ?thesis
    by (intro vm_inv_by [OF v] tasks_ok_by [OF tk] owners_insert bt.inv_insert tasks_ok_inv [OF tk])
qed

lemma vm_inv_set_task:
  assumes v: "vm_inv p held v" and t: "bt_get (tasks v) i = Some t" and t': "task_ok p (vheap v) t'" "tk_promise t' = tk_promise t"
  shows "vm_inv p held (v\<lparr>tasks := bt_insert i t' (tasks v)\<rparr>)"
proof -
  note tk = vm_inv_tasks [OF v]
  note inv = tasks_ok_inv [OF tk]
  obtain xs ys where s: "tasks v = xs @ (i, t) # ys" "bt_insert i t' (tasks v) = xs @ (i, t') # ys"
    by (rule bt_split [OF inv t])
  show ?thesis
  proof (rule vm_inv_by [OF v tasks_ok_by [OF tk bt.inv_insert [OF inv]]])
    show "owners held (bt_insert i t' (tasks v)) \<subseteq># owners held (tasks v)"
      unfolding s(2) unfolding s(1) by (simp add: owners_def bt_values_def t'(2))
  qed (use tk t'(1) t bt.keys_lookup [of i "tasks v"] bt.keys_insert [of i t' "tasks v"] bt_values_insert [of i t' "tasks v"] in
    \<open>auto simp: tasks_ok_def\<close>)
qed

lemma vm_inv_retain:
  assumes v: "vm_inv p held v"
  shows "vm_inv p held (v\<lparr>tasks := bt_retain P (tasks v)\<rparr>)"
proof -
  note tk = vm_inv_tasks [OF v]
  show ?thesis
    by (rule vm_inv_by [OF v tasks_ok_by [OF tk bt_inv_retain [OF tasks_ok_inv [OF tk]] _ _ owners_retain]])
       (use tk in \<open>auto simp: tasks_ok_def bt_retain_def bt_values_def bt_keys_def\<close>)
qed

section \<open>Settling\<close>

lemma settle_held:
  assumes v: "vm_inv p (h # held) s" and out: "settled_live (vheap s) out"
    and run: "settle_promise h out s = (r, t)"
  shows "vm_inv p held t" and "vm_ext s t" and "r = Ok ()"
    and "heap_get (vheap t) h = Ok (V_Promise (Some out))"
proof -
  have ok: "heap_ok p (vheap s)" and tk: "tasks_ok p (vheap s) (h # held) s" using v by (simp_all add: vm_inv_def)
  have pend: "heap_get (vheap s) h = Ok (V_Promise None)" using tk by (simp add: tasks_ok_def pending_def)
  obtain r1 hp2 where rep: "heap_replace h (V_Promise (Some out)) (vheap s) = (r1, hp2)" by fastforce
  from heap_replace_cases [OF rep] pend obtain hp1 where
    c: "same_values hp1 (vheap s)" "same_reads hp1 (vheap s)" "r1 = Ok ()" "hp2 = heap_put h (V_Promise (Some out)) hp1"
    by auto
  note d = heap_ok_same [OF ok c(1,2)]
  have g: "heap_get hp1 h = Ok (V_Promise None)" using pend same_values_get [OF c(1)] by simp
  have o1: "val_ok p hp1 (V_Promise (Some out))"
    using out d(2) by (auto simp: val_ok_settled intro: settled_live_ext1 heap_ext_ext1)
  note e = heap_ok_put1 [OF d(1) g _ o1, simplified, folded c(4)]
  have x: "heap_ext1 (vheap s) hp2" using heap_ext1_trans [OF heap_ext_ext1 [OF d(2)]] e(2) by simp
  have t: "r = Ok ()" "t = s\<lparr>vheap := hp2, completion_epoch := Suc (completion_epoch s),
      completion_order := bt_insert h (Suc (completion_epoch s)) (completion_order s)\<rparr>"
    using run rep c(3) by (simp_all add: on_heap_def settle_promise_def replace_m_def monad_defs)
  have keep: "pending hp2 h'" if "pending (vheap s) h'" "h' \<noteq> h" for h'
    using that heap_put_get [OF g] same_values_get [OF c(1)] by (simp add: c(4) pending_def)
  have "tasks_ok p hp2 held s"
    unfolding tasks_ok_def
  proof (intro conjI ballI)
    fix h' assume "h' \<in> set (held @ map tk_promise (bt_values (tasks s)))"
    then show "pending hp2 h'" using tk by (intro keep) (auto simp: tasks_ok_def)
  qed (use tk task_ok_ext1 [OF _ x] in \<open>auto simp: tasks_ok_def\<close>)
  moreover have "ctx_ok hp2 (ctx s)" "roots_ok hp2 s"
    using v x by (auto simp: vm_inv_def intro: ctx_ok_ext1 roots_ok_ext1)
  ultimately show "vm_inv p held t" using v e(1) by (simp add: t vm_inv_def)
  show "vm_ext s t" using x by (simp add: t vm_ext_def)
  show "r = Ok ()" by (rule t(1))
  show "heap_get (vheap t) h = Ok (V_Promise (Some out))" using heap_put_get [OF g] by (simp add: t c(4))
qed

section \<open>Results of callbacks\<close>

lemma vv_thrown: "vv.triple p held (\<lambda>_. True) (thrown_error h) (\<lambda>_ _. True)"
  unfolding thrown_error_def by (rule vv.triple_use [OF vv_value_text], intro vv_stable, simp, rule vv.triple_fail)

lemma vv_of_opt: "vv.triple p held (\<lambda>_. True) (of_opt e x) (\<lambda>_ _. True)"
  by (rule vv.triple_of_opt) simp

lemma vv_checked: "type_ok ty \<Longrightarrow> vv.triple p held (\<lambda>_. True) (checked_result ty h) (\<lambda>_ _. True)"
proof -
  assume t: "type_ok ty"
  have norm: "vv.triple p held (\<lambda>_. hv_wf v \<and> accepts ty v) (lift_res (normalize ty v)) (\<lambda>_ _. True)" for v
    by (rule vv.triple_lift_res) (use normalize_ok [OF t, of v] in auto)
  show ?thesis
    unfolding checked_result_def
    by (intro vv.triple_use [OF vv_to_host] vv.triple_use [OF norm] vv.triple_cases vv.triple_fail vv.triple_ret vv_stable) auto
qed

lemma vv_outcome:
  "(\<And>h. out = Out_Value h \<Longrightarrow> vv.triple p held P (f h) R) \<Longrightarrow>
   (\<And>h. out = Out_Thrown h \<Longrightarrow> vv.triple p held P (g h) R) \<Longrightarrow>
   vv.triple p held P (case out of Out_Value h \<Rightarrow> f h | Out_Thrown h \<Rightarrow> g h) R"
  by (cases out) simp_all

lemma vv_callback_result: "type_ok ty \<Longrightarrow> vv.triple p held (\<lambda>_. True) (callback_result r ty ch) (\<lambda>_ _. True)"
  unfolding callback_result_def
  by (intro vv.triple_cases vv_outcome vv.triple_val vv.triple_fail vv.triple_ret vv_stable vv_thrown vv_checked
      vv.triple_use [OF vv_get] vv.triple_use [OF vv_of_opt] vv.triple_weaken [OF vv_checked] ; simp)

lemma vv_resolve: "completion_ok cp \<Longrightarrow> vv.triple p held (\<lambda>_. True) (resolve_completion cp r) (\<lambda>_ _. True)"
proof (cases cp)
  case (Some c)
  assume "completion_ok cp"
  then have t: "type_ok (cp_result c)" by (simp add: completion_ok_def Some)
  show ?thesis
  proof (rule vv.tripleI)
    fix s r' u
    assume a: "vm_inv p held s" "resolve_completion cp r s = (r', u)"
    obtain r1 s1 where m: "callback_result r (cp_result c) (cp_channel c) s = (r1, s1)" by fastforce
    note d = vv.triple_D [OF vv_callback_result [OF t] a(1) TrueI m]
    have c: "vm_inv p held (s1\<lparr>ctx := finish c x (ctx s1)\<rparr>)" for x
      by (rule vm_inv_ctx [OF d(1)]) (use d(1) in \<open>simp add: vm_inv_def\<close>)
    have e: "vm_ext s (s1\<lparr>ctx := finish c x (ctx s1)\<rparr>)" for x using d(2) by (simp add: vm_ext_def)
    show "vm_inv p held u \<and> vm_ext s u \<and> (\<forall>q. r' = Panic q \<longrightarrow> excused q) \<and> (\<forall>a. r' = Ok a \<longrightarrow> True)"
      using a(2) m d c e by (cases r1) (auto simp: resolve_completion_def Some)
  qed
qed (simp add: resolve_completion_def vv.triple_ret)

lemma vv_event_guard: "vv.triple p held (\<lambda>_. True) (event_guard i out) (\<lambda>_ _. True)"
proof -
  have m: "vv.triple p held (\<lambda>_. True) (modify (\<lambda>v. v\<lparr>events := removeAll i (events v)\<rparr>)) (\<lambda>_ _. True)"
    by (rule vv.triple_modify) (simp add: vm_ext_def heap_ext1_refl)
  have g: "vv.triple p held (\<lambda>_. True) (gets events) (\<lambda>_ _. True)"
    by (rule vv.triple_gets) simp
  show ?thesis
    unfolding event_guard_def
    by (intro vv.triple_use [OF g] vv.triple_use_seq [OF m] vv.triple_if vv_outcome vv_stable vv.triple_weaken [OF vv_thrown]
        vv.triple_ret) auto
qed

section \<open>The end of a slice\<close>

definition moved :: "program \<Rightarrow> handle list \<Rightarrow> vm \<Rightarrow> 'a res \<Rightarrow> vm \<Rightarrow> bool" where
  "moved p held s r t \<longleftrightarrow> vm_inv p held t \<and> vm_ext s t \<and> (\<forall>q. r = Panic q \<longrightarrow> excused q)"

lemma movedI: "vv.triple p held P m Q \<Longrightarrow> vm_inv p held s \<Longrightarrow> P s \<Longrightarrow> m s = (r, t) \<Longrightarrow> moved p held s r t"
proof -
  assume a: "vv.triple p held P m Q" "vm_inv p held s" "P s" "m s = (r, t)"
  note d = vv.triple_D [OF a]
  show "moved p held s r t" using d(1,2) d(3) by (simp add: moved_def)
qed

lemma moved_bind:
  assumes m: "moved p held s (fst (m s)) (snd (m s))"
    and f: "\<And>a u. m s = (Ok a, u) \<Longrightarrow> moved p held u (fst (f a u)) (snd (f a u))"
  shows "moved p held s (fst (bind m f s)) (snd (bind m f s))"
proof (cases "m s")
  case (Pair r u)
  show ?thesis
  proof (cases r)
    case (Ok a)
    then show ?thesis using m f [of a u] Pair by (auto simp: bind_def moved_def intro: vv.ext_trans)
  qed (use m Pair in \<open>auto simp: bind_def moved_def\<close>)
qed

lemma moved_drop_held: "moved p (h # held) s r t \<Longrightarrow> moved p held s r t"
  by (auto simp: moved_def intro: vm_inv_drop_held)

lemma followed_ok:
  "no_panic (followed v t r)"
  "followed v t r = Ok (Some h) \<Longrightarrow> is_promise_at (vheap v) h"
proof -
  show "no_panic (followed v t r)"
    by (auto simp: followed_def split: sum.split outcome.split intro!: no_panic_bind)
  assume "followed v t r = Ok (Some h)"
  then obtain x where "heap_get (vheap v) h = Ok x" "is_promise x"
    by (auto simp: followed_def res_bind_Ok_iff split: sum.splits outcome.splits if_splits)
  then show "is_promise_at (vheap v) h" by (cases x) (auto simp: is_promise_at_def)
qed

lemma finish_slice_moved:
  assumes v: "vm_inv p (tk_promise t # held) v" and s: "slice_ok p (vheap v) t s" and i: "i < next_task v"
    and run: "finish_slice i s v = (r, u)"
  shows "moved p held v r u"
proof -
  have t: "task_ok p (vheap v) (sl_task s)" "tk_promise (sl_task s) = tk_promise t"
    using s by (simp_all add: slice_ok_def)
  have put: "vm_inv p held (v\<lparr>tasks := bt_insert i t' (tasks v)\<rparr>)"
    if "task_ok p (vheap v) t'" "tk_promise t' = tk_promise t" for t'
    by (rule vm_inv_put_back) (use v that i in simp_all)
  have ext: "vm_ext v (v\<lparr>tasks := m\<rparr>)" for m by (simp add: vm_ext_def heap_ext1_refl)
  show ?thesis
  proof (cases "sl_result s")
    case None
    then have "r = Ok False" "u = v\<lparr>tasks := bt_insert i (sl_task s) (tasks v)\<rparr>"
      using run by (simp_all add: finish_slice_def monad_defs)
    then show ?thesis using put [OF t] ext by (simp add: moved_def)
  next
    case (Some out)
    show ?thesis
    proof (cases "followed v (sl_task s) out")
      case (Ok fw)
      show ?thesis
      proof (cases fw)
        case (Some h)
        have "task_ok p (vheap v) ((sl_task s)\<lparr>tk_work := W_CallbackWait h, tk_waiting := Some h\<rparr>)"
          using t(1) followed_ok(2) Ok Some by (auto simp: task_ok_def work_ok_def)
        from put [OF this] t(2) show ?thesis
          using run Some Ok \<open>sl_result s = Some out\<close> ext by (auto simp: finish_slice_def monad_defs moved_def)
      next
        case None
        let ?h = "tk_promise t"
        have cp: "completion_ok (tk_completion (sl_task s))" using t(1) by (simp add: task_ok_def)
        have live: "settled_live (vheap v) out" using s Some by (simp add: slice_ok_def)
        have e: "(r, u) = seq (resolve_completion (tk_completion (sl_task s)) out) (bind (of_sum out) (\<lambda>x.
              seq (event_guard i x) (seq (settle_promise ?h (Inr x)) (ret True)))) v"
          using run Some Ok None t(2) by (simp add: finish_slice_def bind_def)
        have "moved p held v (fst (seq (resolve_completion (tk_completion (sl_task s)) out) (bind (of_sum out) (\<lambda>x.
              seq (event_guard i x) (seq (settle_promise ?h (Inr x)) (ret True)))) v))
            (snd (seq (resolve_completion (tk_completion (sl_task s)) out) (bind (of_sum out) (\<lambda>x.
              seq (event_guard i x) (seq (settle_promise ?h (Inr x)) (ret True)))) v))"
          unfolding seq_def
        proof (intro moved_bind)
          show "moved p held v (fst (resolve_completion (tk_completion (sl_task s)) out v))
              (snd (resolve_completion (tk_completion (sl_task s)) out v))"
            by (rule moved_drop_held [OF movedI [OF vv_resolve [OF cp] v]]) simp_all
        next
          fix a w
          assume "resolve_completion (tk_completion (sl_task s)) out v = (Ok a, w)"
          note d = vv.triple_D [OF vv_resolve [OF cp] v TrueI this]
          show "moved p held w (fst (of_sum out w)) (snd (of_sum out w))"
            using vm_inv_drop_held [OF d(1)] by (simp add: of_sum_def monad_defs moved_def vv.ext_refl split: sum.split)
          fix x w2
          assume "of_sum out w = (Ok x, w2)"
          then have w2: "w2 = w" "out = Inr x" by (auto simp: of_sum_def monad_defs split: sum.splits)
          show "moved p held w2 (fst (event_guard i x w2)) (snd (event_guard i x w2))"
            unfolding w2(1) by (rule moved_drop_held [OF movedI [OF vv_event_guard d(1)]]) simp_all
          fix b w3
          assume "event_guard i x w2 = (Ok b, w3)"
          note d3 = vv.triple_D [OF vv_event_guard d(1) TrueI this [unfolded w2(1)]]
          have l3: "settled_live (vheap w3) (Inr x)"
            using live settled_live_ext1 [OF settled_live_ext1] d(2) d3(2) w2(2) by (auto simp: vm_ext_def)
          obtain r4 w4 where st: "settle_promise ?h (Inr x) w3 = (r4, w4)" by fastforce
          note d4 = settle_held [OF d3(1) l3 st]
          show "moved p held w3 (fst (settle_promise ?h (Inr x) w3)) (snd (settle_promise ?h (Inr x) w3))"
            using d4 st by (simp add: moved_def)
          fix c w5
          assume "settle_promise ?h (Inr x) w3 = (Ok c, w5)"
          then show "moved p held w5 (fst (ret True w5)) (snd (ret True w5))"
            using d4 st by (simp add: moved_def ret_def vv.ext_refl)
        qed
        then show ?thesis unfolding e [symmetric] by simp
      qed
    next
      case (Err e)
      then have "r = Err e \<and> u = v" using run Some by (simp add: finish_slice_def bind_def)
      then show ?thesis using vm_inv_drop_held [OF v] by (simp add: moved_def vv.ext_refl)
    next
      case (Panic q)
      then show ?thesis using followed_ok(1) [of v "sl_task s" out] by simp
    qed
  qed
qed

section \<open>Tasks in turn\<close>

lemma moved_ctx:
  "moved p held s r t \<Longrightarrow> (\<And>hp. ctx_ok hp c = ctx_ok hp (ctx t)) \<Longrightarrow> moved p held s r (t\<lparr>ctx := c\<rparr>)"
  by (auto simp: moved_def vm_ext_def intro!: vm_inv_ctx) (simp add: vm_inv_def)

lemma dropping_moved:
  assumes "\<And>r u. m s = (r, u) \<Longrightarrow> moved p held s r u"
  shows "dropping t m s = (r', u') \<Longrightarrow> moved p held s r' u'"
proof -
  assume run: "dropping t m s = (r', u')"
  obtain r u where m: "m s = (r, u)" by fastforce
  show ?thesis
  proof (cases r)
    case (Ok a)
    then show ?thesis using run m assms [OF m] by (simp add: dropping_def)
  qed (use run m moved_ctx [OF assms [OF m]] in \<open>auto simp: dropping_def\<close>)
qed

lemma drive_task_moved:
  assumes v: "vm_inv p held v" and run: "drive_task only limit i d v = (r, u)"
  shows "moved p held v r u"
proof (cases "bt_get (tasks v) i")
  case None
  then show ?thesis using v run by (auto simp: drive_task_def moved_def vv.ext_refl)
next
  case (Some t)
  note tk = vm_inv_take [OF v Some]
  let ?v = "v\<lparr>tasks := bt_remove i (tasks v)\<rparr>"
  let ?t = "t\<lparr>tk_waiting := None\<rparr>"
  let ?body = "bind (run_work ?t (dr_left d) limit) (\<lambda>s.
            seq (modify (\<lambda>v. if only = None then v\<lparr>turn_cursor := min (Suc i) usize_max\<rparr> else v)) (
            bind (finish_slice i s) (\<lambda>q.
            ret \<lparr>dr_left = sl_left s, dr_progressed = (dr_progressed d \<or> sl_progressed s \<or> q),
                 dr_deferred = dr_deferred d\<rparr>)))"
  have tok: "task_ok p (vheap ?v) ?t" using tk(2) by (simp add: task_ok_def)
  have body: "moved p held ?v (fst (?body ?v)) (snd (?body ?v))"
    unfolding seq_def
  proof (intro moved_bind)
    show "moved p held ?v (fst (run_work ?t (dr_left d) limit ?v)) (snd (run_work ?t (dr_left d) limit ?v))"
      by (rule moved_drop_held [OF movedI [OF vv_run_work tk(1)]]) (simp_all add: tok [simplified])
  next
    fix s w
    assume "run_work ?t (dr_left d) limit ?v = (Ok s, w)"
    note dw = vv.triple_D [OF vv_run_work tk(1) tok this]
    let ?c = "modify (\<lambda>v. if only = None then v\<lparr>turn_cursor := min (Suc i) usize_max\<rparr> else v)"
    have c: "vm_inv p (tk_promise t # held) (snd (?c w)) \<and> vm_ext w (snd (?c w)) \<and> vheap (snd (?c w)) = vheap w \<and>
        next_task (snd (?c w)) = next_task w"
      using dw(1) by (simp add: modify_def vm_ext_def heap_ext1_refl)
    show "moved p held w (fst (?c w)) (snd (?c w))"
      using c vm_inv_drop_held by (auto simp: moved_def modify_def)
    fix x w2
    assume "?c w = (Ok x, w2)"
    then have w2: "w2 = snd (?c w)" by simp
    obtain r3 w3 where fin: "finish_slice i s w2 = (r3, w3)" by fastforce
    have "slice_ok p (vheap w2) ?t s" using dw(4) c by (simp add: w2)
    then have sl: "slice_ok p (vheap w2) t s" by (simp add: slice_ok_def)
    have "i < next_task w2" using tk(3) dw(2) c by (simp add: w2 vm_ext_def)
    from finish_slice_moved [OF _ sl this fin] have m: "moved p held w2 r3 w3" using c by (simp add: w2)
    then show "moved p held w2 (fst (finish_slice i s w2)) (snd (finish_slice i s w2))" by (simp add: fin)
    fix b w4
    assume "finish_slice i s w2 = (Ok b, w4)"
    then show "moved p held w4
        (fst (ret \<lparr>dr_left = sl_left s, dr_progressed = (dr_progressed d \<or> sl_progressed s \<or> b), dr_deferred = dr_deferred d\<rparr> w4))
        (snd (ret \<lparr>dr_left = sl_left s, dr_progressed = (dr_progressed d \<or> sl_progressed s \<or> b), dr_deferred = dr_deferred d\<rparr> w4))"
      using m fin by (simp add: moved_def ret_def vv.ext_refl)
  qed
  have "dropping t ?body ?v = (r, u)" using run Some by (simp add: drive_task_def)
  then have "moved p held ?v r u" by (rule dropping_moved [rotated]) (use body in \<open>metis fst_conv snd_conv\<close>)
  then show ?thesis by (simp add: moved_def vm_ext_def)
qed

lemma vv_drive_task: "vv.triple p held (\<lambda>_. True) (drive_task only limit i d) (\<lambda>_ _. True)"
  by (rule vv.tripleI) (use drive_task_moved in \<open>auto simp: moved_def\<close>)

lemma vv_drive_tasks: "vv.triple p held (\<lambda>_. True) (drive_tasks only limit is d) (\<lambda>_ _. True)"
proof (induction "is" arbitrary: d)
  case (Cons i "is")
  show ?case
    by (auto intro!: vv.triple_ret vv.triple_use [OF vv_drive_task] vv.stable_const vv.triple_weaken [OF Cons])
qed (simp add: vv.triple_ret)

section \<open>Commands\<close>

lemma vv_modify_same:
  "(\<And>v. vm_inv p held v \<Longrightarrow> vm_inv p held (f v) \<and> vheap (f v) = vheap v \<and> next_task (f v) = next_task v) \<Longrightarrow>
   vv.triple p held (\<lambda>_. True) (modify f) (\<lambda>_ _. True)"
  by (rule vv.triple_modify) (simp add: vm_ext_def heap_ext1_refl)

lemma vv_set_completion: "completion_ok cp \<Longrightarrow> vv.triple p held (\<lambda>_. True) (set_completion i cp) (\<lambda>_ _. True)"
proof (rule vv.tripleI)
  fix s r t
  assume c: "completion_ok cp" and a: "vm_inv p held s" "set_completion i cp s = (r, t)"
  show "vm_inv p held t \<and> vm_ext s t \<and> (\<forall>q. r = Panic q \<longrightarrow> excused q) \<and> (\<forall>x. r = Ok x \<longrightarrow> True)"
  proof (cases "bt_get (tasks s) i")
    case (Some w)
    have "task_ok p (vheap s) (w\<lparr>tk_completion := cp\<rparr>)"
      using vm_inv_take(2) [OF a(1) Some] c by (simp add: task_ok_def)
    from vm_inv_set_task [OF a(1) Some this] show ?thesis
      using a(2) Some by (auto simp: set_completion_def vm_ext_def heap_ext1_refl)
  qed (use a in \<open>auto simp: set_completion_def vv.ext_refl\<close>)
qed

lemma vv_gets: "vv.triple p held (\<lambda>_. True) (gets f) (\<lambda>_ _. True)"
  by (rule vv.triple_gets) simp

lemma vv_alloc_hosts:
  "vv.triple p held (\<lambda>_. True) (mapM alloc_host_value xs) (\<lambda>hs v. handles_live (vheap v) hs)"
  by (rule vv.triple_post [OF vv.triple_mapM [where R = "\<lambda>_ h v. live (vheap v) h"]])
     (auto intro: vv_stable vv_alloc_host simp: list_all2_conv_all_nth handles_live_def in_set_conv_nth)

lemma vv_start_callback: "completion_ok cp \<Longrightarrow> vv.triple p held (\<lambda>_. True) (start_callback cb args cp) (\<lambda>_ _. True)"
  unfolding start_callback_def
  by (intro vv.triple_use [OF vv_gets] vv.triple_use [OF vv_get] vv.triple_use [OF vv_alloc_hosts]
      vv.triple_use [OF vv_frame] vv.triple_use [OF vv_spawn] vv.triple_cases vv.triple_val vv.triple_fail vv_stable
      vv.triple_weaken [OF vv_set_completion])
     (auto simp: val_ok_closure_ready work_ok_def simp del: val_ok_simps(17))

lemma type_ok_unit: "type_ok HT_Unit"
  by (simp add: type_ok_def)

lemma vv_run_command: "command_ok cmd \<Longrightarrow> vv.triple p held (\<lambda>_. True) (run_command cmd) (\<lambda>_ _. True)"
proof -
  assume c: "command_ok cmd"
  have g: "vv.triple p held (\<lambda>_. True) (gets ctx) (\<lambda>_ _. True)" by (rule vv_gets)
  show ?thesis
    unfolding run_command_def
  proof (rule vv.triple_use [OF g vv.stable_const], simp)
    fix hc
    show "vv.triple p held (\<lambda>s. True \<and> True) (case cmd of
       Cmd_Spawn j fut \<Rightarrow>
         if job_cancelled hc j then ret ()
         else bind (vm_spawn (W_Host \<lparr>hw_future = fut, hw_result = HT_Unit, hw_channel = False,
           hw_error = None, hw_job = Some j, hw_ready = False\<rparr>)) (\<lambda>_. ret ())
     | Cmd_Cancel i \<Rightarrow>
         modify (\<lambda>v. v\<lparr>tasks := bt_retain (\<lambda>_ t. case tk_work t of
             W_Host hw \<Rightarrow> (case hw_job hw of Some j \<Rightarrow> hj_id j \<noteq> i | None \<Rightarrow> True)
           | _ \<Rightarrow> True) (tasks v)\<rparr>)
     | Cmd_Call cb args job cp \<Rightarrow>
         if (case job of Some j \<Rightarrow> job_cancelled hc j | None \<Rightarrow> False)
         then modify (\<lambda>v. v\<lparr>ctx := drop_completion cp (ctx v)\<rparr>)
         else start_callback cb args cp) (\<lambda>_ _. True)"
    proof (cases cmd)
      case (Cmd_Spawn j fut)
      then show ?thesis
        by (auto intro!: vv.triple_ret vv.triple_use [OF vv_spawn] vv.stable_const simp: work_ok_def type_ok_unit)
    next
      case (Cmd_Cancel i)
      then show ?thesis by (auto intro!: vv_modify_same vm_inv_retain)
    next
      case (Cmd_Call cb args job cp)
      then show ?thesis
        using c by (auto intro!: vv_modify_same vm_inv_ctx vv_start_callback) (auto simp: vm_inv_def)
    qed
  qed
qed

end
