(* ===== verification/TurnTriples.thy ===== *)
theory TurnTriples
  imports DriveTriples
begin

text \<open>
  The collection of garbage keeps the machine's invariant because the machine hands it every
  handle it still holds; with it the drive, the turns and polls, and cancellation are safe.
\<close>

section \<open>Commands in order\<close>

lemma run_commands_moved:
  "\<forall>cmd \<in> set cmds. command_ok cmd \<Longrightarrow> vm_inv p held v \<Longrightarrow> run_commands cmds v = (r, t) \<Longrightarrow> moved p held v r t"
proof (induction cmds arbitrary: v)
  case Nil
  then show ?case by (auto simp: moved_def vv.ext_refl)
next
  case (Cons cmd cmds)
  obtain r1 v1 where one: "run_command cmd v = (r1, v1)" by fastforce
  have m: "moved p held v r1 v1"
    by (rule movedI [OF vv_run_command Cons.prems(2) TrueI one]) (use Cons.prems(1) in simp)
  show ?case
  proof (cases r1)
    case (Ok u)
    then have "run_commands cmds v1 = (r, t)" using Cons.prems(3) one by simp
    from Cons.IH [OF _ _ this] m Cons.prems(1) show ?thesis
      by (auto simp: moved_def intro: vv.ext_trans)
  qed (use Cons.prems(3) one m in \<open>auto intro!: moved_ctx\<close>)
qed

lemma vv_host_commands: "vv.triple p held (\<lambda>_. True) (host_commands left) (\<lambda>_ _. True)"
proof (rule vv.tripleI)
  fix s r t
  assume a: "vm_inv p held s" "host_commands left s = (r, t)"
  obtain cmds c where tk: "ctx_take left (ctx s) = (cmds, c)" by fastforce
  have ok: "ctx_ok (vheap s) c" "\<forall>cmd \<in> set cmds. command_ok cmd"
    using ctx_ok_take [OF _ tk, of "vheap s"] a(1) by (simp_all add: vm_inv_def)
  have v: "vm_inv p held (s\<lparr>ctx := c\<rparr>)" by (rule vm_inv_ctx [OF a(1) ok(1)])
  obtain r1 t1 where rc: "run_commands cmds (s\<lparr>ctx := c\<rparr>) = (r1, t1)" by fastforce
  from run_commands_moved [OF ok(2) v rc] show "vm_inv p held t \<and> vm_ext s t \<and> (\<forall>q. r = Panic q \<longrightarrow> excused q) \<and>
      (\<forall>x. r = Ok x \<longrightarrow> True)"
    using a(2) tk rc by (cases r1) (auto simp: host_commands_def bind_def ret_def moved_def vm_ext_def)
qed

section \<open>Collection\<close>

lemma collected_heap_ok:
  assumes ok: "heap_ok p hp" and run: "heap_collect roots hp = (Ok (), hp')"
  shows "heap_ok p hp'"
    and "h \<in> set roots \<Longrightarrow> heap_get hp' h = heap_get hp h"
proof -
  have wf: "heap_wf hp" using ok by (simp add: heap_ok_def)
  note ex = heap_collect_exact(1) [OF wf run]
  note w = heap_collect_wf [OF wf run]
  have root: "heap_get hp' h = heap_get hp h" if "h \<in> set (collect_roots hp roots)" for h
    using ex [of h] reach_root [of h "set (collect_roots hp roots)"] that by simp
  then show "h \<in> set roots \<Longrightarrow> heap_get hp' h = heap_get hp h" by (simp add: collect_roots_def)
  have sub: "heap_get hp h = Ok v \<and> (\<forall>c \<in> set (children v). heap_get hp' c = heap_get hp c)"
    if "heap_get hp' h = Ok v" for h v
  proof -
    have r: "reach (heap_get hp) (set (collect_roots hp roots)) h" and g: "heap_get hp h = Ok v"
      using that ex [of h] by (simp_all split: if_splits)
    then show ?thesis using ex reach_child [OF r g] by simp
  qed
  have live: "live hp' c" if "live hp c" "heap_get hp' c = heap_get hp c" for c
    using that by (simp add: live_iff)
  have "val_ok p hp' v" if g: "heap_get hp' h = Ok v" for h v
  proof -
    have v: "val_ok p hp v" using heap_okD [OF ok] sub [OF g] by blast
    have c: "handles_live hp' (children v)"
      using w(2) g unfolding heap_closed_def handles_live_def by blast
    have "closure_ok p hp' f cs" if "v = V_Closure f cs sl" for f cs sl
      using v sub [OF g] by (auto simp: that closure_ok_def is_cell_def)
    then show ?thesis using v c by (auto simp: val_ok_def split: val.splits)
  qed
  moreover have "reads_ok hp'"
  proof (cases "heap_reads hp")
    case (Some rs)
    have "live hp' c" if "d \<in> set (reads_deps rs)" "c \<in> set (dep_roots d)" for d c
    proof (rule live)
      show "live hp c" using ok that Some by (auto simp: heap_ok_def reads_ok_def handles_live_def)
      show "heap_get hp' c = heap_get hp c" by (rule root) (use that Some in \<open>auto simp: collect_roots_def\<close>)
    qed
    then show ?thesis by (simp add: reads_ok_def w(3) Some handles_live_def)
  qed (simp add: reads_ok_def w(3))
  ultimately show "heap_ok p hp'" using w(1) by (simp add: heap_ok_def)
qed

text \<open>What the machine's own predicates read of the heap are its roots.\<close>

definition kept :: "heap \<Rightarrow> heap \<Rightarrow> handle list \<Rightarrow> bool" where
  "kept hp hp' hs \<longleftrightarrow> (\<forall>h \<in> set hs. heap_get hp' h = heap_get hp h)"

lemma kept_simps [simp]:
  "kept hp hp' []"
  "kept hp hp' (h # hs) \<longleftrightarrow> heap_get hp' h = heap_get hp h \<and> kept hp hp' hs"
  "kept hp hp' (hs @ hs') \<longleftrightarrow> kept hp hp' hs \<and> kept hp hp' hs'"
  "kept hp hp' (rev hs) \<longleftrightarrow> kept hp hp' hs"
  "kept hp hp' (concat hss) \<longleftrightarrow> (\<forall>hs \<in> set hss. kept hp hp' hs)"
  by (auto simp: kept_def)

lemma kept_live: "kept hp hp' hs \<Longrightarrow> handles_live hp hs \<Longrightarrow> handles_live hp' hs"
  by (simp add: kept_def handles_live_def live_iff)

lemma kept_frame: "kept hp hp' (frame_roots f) \<Longrightarrow> frame_ok p hp f \<Longrightarrow> frame_ok p hp' f"
  by (auto simp: frame_ok_def frame_roots_def is_cell_def kept_def live_iff handles_live_def)

lemma kept_join: "kept hp hp' (work_roots (W_Join j)) \<Longrightarrow> join_ok hp j \<Longrightarrow> join_ok hp' j"
  by (auto simp: join_ok_def work_roots_def settled_to_def kept_def handles_live_def live_iff)

lemma kept_work: "kept hp hp' (work_roots w) \<Longrightarrow> work_ok p hp w \<Longrightarrow> work_ok p hp' w"
proof (cases w)
  case (W_Code fs)
  then show "kept hp hp' (work_roots w) \<Longrightarrow> work_ok p hp w \<Longrightarrow> work_ok p hp' w"
    by (auto simp: work_ok_def work_roots_def intro: kept_frame)
next
  case (W_Join j)
  then show "kept hp hp' (work_roots w) \<Longrightarrow> work_ok p hp w \<Longrightarrow> work_ok p hp' w"
    using kept_join [of hp hp' j] by (simp add: work_ok_def)
qed (auto simp: work_ok_def work_roots_def is_promise_at_def)

lemma kept_task:
  "kept hp hp' (task_roots t) \<Longrightarrow> task_ok p hp t \<Longrightarrow> task_ok p hp' t"
  "kept hp hp' (task_roots t) \<Longrightarrow> pending hp (tk_promise t) \<Longrightarrow> pending hp' (tk_promise t)"
  using kept_work [of hp hp' "tk_work t" p] by (simp_all add: task_roots_def task_ok_def pending_def)

lemma collect_moved:
  assumes v: "vm_inv p [] v" and run: "vm_collect v = (r, u)"
  shows "r = Ok () \<Longrightarrow> vm_inv p [] u" and "r \<noteq> Panic q"
proof -
  obtain cbs c where cr: "ctx_roots (ctx v) = (cbs, c)" by fastforce
  let ?v = "v\<lparr>ctx := c\<rparr>"
  obtain r1 hp where hc: "heap_collect (vm_roots ?v cbs) (vheap v) = (r1, hp)" by fastforce
  have r: "r = r1 \<and> (r1 = Ok () \<longrightarrow> u = ?v\<lparr>vheap := hp, completion_order := bt_retain (\<lambda>h _. is_settled hp h) (completion_order v)\<rparr>)"
  proof (cases r1)
    case (Ok x)
    have "vm_roots ?v cbs = vm_roots v cbs" by (simp add: vm_roots_def)
    then show ?thesis using run hc Ok
      by (auto simp: vm_collect_def cr on_heap_def zoom_def bind_def modify_def)
  qed (use run hc in \<open>auto simp: vm_collect_def cr on_heap_def zoom_def bind_def vm_roots_def\<close>)
  show "r \<noteq> Panic q" using heap_collect_no_panic [of "vm_roots ?v cbs" "vheap v" q] hc r by auto
  assume "r = Ok ()"
  then have run': "heap_collect (vm_roots ?v cbs) (vheap v) = (Ok (), hp)"
    and u: "u = ?v\<lparr>vheap := hp, completion_order := bt_retain (\<lambda>h _. is_settled hp h) (completion_order v)\<rparr>"
    using r hc by auto
  have ok: "heap_ok p (vheap v)" and tk: "tasks_ok p (vheap v) [] v" and ro: "roots_ok (vheap v) v"
    and cx: "ctx_ok (vheap v) (ctx v)" using v by (simp_all add: vm_inv_def)
  note col = collected_heap_ok [OF ok run']
  have k: "kept (vheap v) hp (vm_roots ?v cbs)" unfolding kept_def using col(2) by blast
  then have kt: "kept (vheap v) hp (task_roots t)" if "t \<in> set (bt_values (tasks v))" for t
    using that by (simp add: vm_roots_def)
  have "tasks_ok p hp [] v"
    using tk kept_task [OF kt] by (auto simp: tasks_ok_def)
  moreover have "roots_ok hp v"
    using ro k by (auto simp: roots_ok_def vm_roots_def is_promise_at_def intro: kept_live split: option.splits)
  moreover have "ctx_ok hp c"
  proof -
    have o: "ctx_ok (vheap v) c" "handles_live (vheap v) cbs" using ctx_ok_roots [OF cx cr] by simp_all
    have "\<forall>(i, h, strong) \<in> set (callbacks c). h \<in> set cbs"
      using cr by (force simp: ctx_roots_def Let_def)
    then show ?thesis
      using o k by (fastforce simp: ctx_ok_def vm_roots_def kept_def live_iff)
  qed
  ultimately show "vm_inv p [] u" using v col(1) by (simp add: u vm_inv_def)
qed

lemma task_roots_live:
  assumes "heap_ok p hp" and "task_ok p hp t" and "pending hp (tk_promise t)"
  shows "handles_live hp (task_roots t)"
proof -
  have f: "handles_live hp (frame_roots f)" if "frame_ok p hp f" for f
    using that by (cases "slot_children f"; cases "then_call f")
      (auto simp: frame_ok_def frame_roots_def handles_live_def intro: is_cell_live)
  have w: "work_ok p hp (tk_work t)" using assms(2) by (simp add: task_ok_def)
  have "handles_live hp (work_roots (tk_work t))"
  proof (cases "tk_work t")
    case (W_Code fs)
    then show ?thesis using w f by (auto simp: work_ok_def work_roots_def handles_live_def)
  next
    case (W_Join j)
    then show ?thesis
      using w join_values_live [OF assms(1), of j] by (auto simp: work_ok_def work_roots_def join_ok_def)
  qed (use w in \<open>auto simp: work_ok_def work_roots_def intro: is_promise_at_live\<close>)
  then show ?thesis
    using is_promise_at_live [OF pending_is_promise [OF assms(3)]] by (simp add: task_roots_def)
qed

lemma machine_roots_live:
  assumes v: "vm_inv p [] v" and cbs: "handles_live (vheap v) cbs"
  shows "handles_live (vheap v) (vm_roots v cbs)"
proof -
  have ok: "heap_ok p (vheap v)" and tk: "tasks_ok p (vheap v) [] v" and ro: "roots_ok (vheap v) v"
    using v by (simp_all add: vm_inv_def)
  have "handles_live (vheap v) (task_roots t)" if "t \<in> set (bt_values (tasks v))" for t
    by (rule task_roots_live [OF ok]) (use tk that in \<open>auto simp: tasks_ok_def\<close>)
  then have "handles_live (vheap v) (concat (map task_roots (bt_values (tasks v))))"
    by (auto simp: handles_live_def)
  then show ?thesis
    using ro cbs by (auto simp: vm_roots_def roots_ok_def intro: is_promise_at_live split: option.splits)
qed

section \<open>The drive\<close>

definition drive_body :: "nat \<Rightarrow> handle option \<Rightarrow> nat option \<Rightarrow> (vm, bool \<times> bool) rm" where
  "drive_body budget only limit =
     bind (if only = None then host_commands budget else ret (False, budget)) (\<lambda>(p, left).
     bind (gets (\<lambda>v. runnable v only)) (\<lambda>ids.
     bind (drive_tasks only limit ids \<lparr>dr_left = left, dr_progressed = p, dr_deferred = False\<rparr>) (\<lambda>d.
     bind (if only = None then host_commands (dr_left d) else ret (False, dr_left d)) (\<lambda>(p', _).
     ret (dr_progressed d \<or> p', dr_deferred d)))))"

lemma drive_eq: "drive budget only limit = bind (drive_body budget only limit) (\<lambda>x. seq vm_collect (ret x))"
  unfolding drive_def drive_body_def by (simp add: bind_assoc case_prod_unfold cong: if_cong)

lemma vv_drive_body: "vv.triple p held (\<lambda>_. True) (drive_body budget only limit) (\<lambda>_ _. True)"
proof -
  have c: "vv.triple p held (\<lambda>_. True) (if only = None then host_commands n else ret (False, n)) (\<lambda>_ _. True)" for n
    by (intro vv.triple_if vv_host_commands vv.triple_ret) simp
  show ?thesis
    unfolding drive_body_def
    by (intro vv.triple_use [OF c] vv.triple_use [OF vv_gets] vv.triple_use [OF vv_drive_tasks] vv.triple_prod
        vv.triple_ret vv_stable) auto
qed

lemma drive_safe:
  assumes v: "vm_inv p [] v" and run: "drive budget only limit v = (r, u)"
  shows "r = Ok x \<Longrightarrow> vm_inv p [] u" and "r = Panic q \<Longrightarrow> excused q"
proof -
  obtain r1 w where b: "drive_body budget only limit v = (r1, w)" by fastforce
  note d = vv.triple_D [OF vv_drive_body v TrueI b]
  obtain r2 w2 where c: "vm_collect w = (r2, w2)" by fastforce
  note m = collect_moved [OF d(1) c]
  have "(\<forall>x. r = Ok x \<longrightarrow> vm_inv p [] u) \<and> (\<forall>q. r = Panic q \<longrightarrow> excused q)"
    using run b c d(3) m by (cases r1; cases r2) (auto simp: drive_eq bind_def seq_def ret_def)
  then show "r = Ok x \<Longrightarrow> vm_inv p [] u" "r = Panic q \<Longrightarrow> excused q" by blast+
qed

section \<open>Cancellation\<close>

definition cancelled_vm :: "vm \<Rightarrow> bool" where
  "cancelled_vm v \<longleftrightarrow> root v = None \<and> tasks v = [] \<and> pins v = [] \<and> descriptors v = [] \<and> events v = [] \<and>
     completion_order v = [] \<and> \<not> alive (ctx v) \<and> queue (ctx v) = [] \<and> callbacks (ctx v) = [] \<and> jobs (ctx v) = []"

lemma finish_fields [simp]:
  "alive (finish cp r c) = alive c" "queue (finish cp r c) = queue c" "callbacks (finish cp r c) = callbacks c"
  "jobs (finish cp r c) = jobs c" "ctx_id (finish cp r c) = ctx_id c" "cancelled (finish cp r c) = cancelled c"
  "ready (finish cp r c) = ready c" "has_waker (finish cp r c) = has_waker c"
  by (simp_all add: finish_def split: option.split)

lemma drop_fields [simp]:
  "alive (drop_completion cp c) = alive c" "queue (drop_completion cp c) = queue c"
  "callbacks (drop_completion cp c) = callbacks c" "jobs (drop_completion cp c) = jobs c"
  by (simp_all add: drop_completion_def split: option.split)

lemma drops_fields [simp]:
  "alive (foldl (\<lambda>c x. drop_completion (f x) c) c xs) = alive c"
  "queue (foldl (\<lambda>c x. drop_completion (f x) c) c xs) = queue c"
  "callbacks (foldl (\<lambda>c x. drop_completion (f x) c) c xs) = callbacks c"
  "jobs (foldl (\<lambda>c x. drop_completion (f x) c) c xs) = jobs c"
  by (induction xs arbitrary: c) simp_all

lemma cancel_cancels:
  assumes "vm_cancel v = (r, u)"
  shows "cancelled_vm u" and "r \<noteq> Panic q"
proof -
  show "cancelled_vm u"
    using assms by (auto simp: vm_cancel_def on_heap_def zoom_def cancelled_vm_def drop_completions_def ctx_close_def
        split: prod.splits)
  show "r \<noteq> Panic q"
    using assms heap_collect_no_panic [of "[]" "vheap v" q]
    by (auto simp: vm_cancel_def on_heap_def zoom_def split: prod.splits)
qed

section \<open>Turns and polls\<close>

lemma vm_inv_clear_wake: "vm_inv p [] v \<Longrightarrow> vm_inv p [] (clear_wake v)"
  unfolding clear_wake_def by (rule vm_inv_ctx) (simp_all add: vm_inv_def)

lemma vm_inv_wake: "vm_inv p held v \<Longrightarrow> vm_inv p held (wake v)"
  unfolding wake_def by (rule vm_inv_ctx) (simp_all add: vm_inv_def)

lemma vm_inv_root: "vm_inv p [] v \<Longrightarrow> root v = Some h \<Longrightarrow> is_promise_at (vheap v) h"
  by (simp add: vm_inv_def roots_ok_def)

definition machine_ok :: "program \<Rightarrow> vm \<Rightarrow> bool" where
  "machine_ok p v \<longleftrightarrow> vm_inv p [] v \<or> cancelled_vm v"

lemma turn_safe:
  assumes v: "machine_ok p v" and run: "run_turn budget v = (r, u)"
  shows "r = Panic q \<Longrightarrow> excused q" and "(\<And>q. r \<noteq> Panic q) \<Longrightarrow> machine_ok p u" and "r = Ok x \<Longrightarrow> vm_inv p [] u"
proof -
  have "(\<forall>q. r = Panic q \<longrightarrow> excused q) \<and> ((\<forall>q. r \<noteq> Panic q) \<longrightarrow> machine_ok p u) \<and> (\<forall>x. r = Ok x \<longrightarrow> vm_inv p [] u)"
  proof (cases "budget = 0 \<or> root v = None")
    case True
    then show ?thesis using run v by (auto simp: run_turn_def split: if_splits)
  next
    case False
    then have i: "vm_inv p [] v" using v by (auto simp: machine_ok_def cancelled_vm_def)
    obtain r1 w where d: "drive budget None None (clear_wake v) = (r1, w)" by fastforce
    note ds = drive_safe [OF vm_inv_clear_wake [OF i] d]
    obtain r2 w2 where c: "vm_cancel w = (r2, w2)" by fastforce
    note cs = cancel_cancels [OF c]
    show ?thesis
      using run False d c ds cs vm_inv_wake [of p "[]" w]
      by (cases r1; cases r2) (auto simp: run_turn_def machine_ok_def split: if_splits)
  qed
  then show "r = Panic q \<Longrightarrow> excused q" "(\<And>q. r \<noteq> Panic q) \<Longrightarrow> machine_ok p u" "r = Ok x \<Longrightarrow> vm_inv p [] u"
    by blast+
qed

lemma root_result_ok:
  assumes v: "vm_inv p [] v" and run: "root_result v = (r, u)"
  shows "vm_inv p [] u" and "r = Some (Panic q) \<Longrightarrow> excused q"
proof -
  have "vm_inv p [] u \<and> (\<forall>q. r = Some (Panic q) \<longrightarrow> excused q)"
  proof (cases "root v")
    case None
    then show ?thesis using run v by (auto simp: root_result_def)
  next
    case (Some h)
    then obtain x where x: "heap_get (vheap v) h = Ok (V_Promise x)"
      using vm_inv_root [OF v] by (auto simp: is_promise_at_def)
    show ?thesis
    proof (cases "\<exists>t. x = Some (Inr (Out_Thrown t))")
      case True
      then obtain t where t: "x = Some (Inr (Out_Thrown t))" by blast
      obtain r1 w where th: "(thrown_error t :: (vm, handle) rm) v = (r1, w)" by fastforce
      from vv.triple_D [OF vv_thrown v TrueI th] show ?thesis
        using run Some x t th by (auto simp: root_result_def)
    next
      case False
      then show ?thesis
        using run Some x v by (auto simp: root_result_def split: option.splits sum.splits outcome.splits)
    qed
  qed
  then show "vm_inv p [] u" "r = Some (Panic q) \<Longrightarrow> excused q" by blast+
qed

lemma poll_inner_safe:
  assumes v: "machine_ok p v" and run: "poll_inner drain v = (r, u)"
  shows "r = Some (Panic q) \<Longrightarrow> excused q" and "r = None \<Longrightarrow> vm_inv p [] u"
    and "r = Some (Ok h) \<Longrightarrow> vm_inv p [] u"
proof -
  have "(\<forall>q. r = Some (Panic q) \<longrightarrow> excused q) \<and> (r = None \<longrightarrow> vm_inv p [] u) \<and> (\<forall>h. r = Some (Ok h) \<longrightarrow> vm_inv p [] u)"
  proof (cases "root v = None")
    case False
    then have i: "vm_inv p [] v" using v by (auto simp: machine_ok_def cancelled_vm_def)
    obtain r1 w where d: "drive 4096 None (instruction_limit v) (clear_wake v) = (r1, w)" by fastforce
    note ds = drive_safe [OF vm_inv_clear_wake [OF i] d]
    show ?thesis
    proof (cases r1)
      case (Ok x)
      obtain r2 w2 where rr: "root_result w = (r2, w2)" by fastforce
      note rs = root_result_ok [OF ds(1) [OF Ok] rr]
      obtain a b where ab: "x = (a, b)" by fastforce
      show ?thesis
        using run False d Ok rr ab rs(1) rs(2) vm_inv_wake [OF rs(1)]
        by (auto simp: poll_inner_def split: if_splits)
    qed (use run False d ds in \<open>auto simp: poll_inner_def\<close>)
  qed (use run in \<open>auto simp: poll_inner_def\<close>)
  then show "r = Some (Panic q) \<Longrightarrow> excused q" "r = None \<Longrightarrow> vm_inv p [] u" "r = Some (Ok h) \<Longrightarrow> vm_inv p [] u" by blast+
qed

lemma poll_safe:
  assumes v: "machine_ok p v" and run: "vm_poll v = (r, u)"
  shows "r = Some (Panic q) \<Longrightarrow> excused q" and "(\<And>q. r \<noteq> Some (Panic q)) \<Longrightarrow> machine_ok p u"
    and "r = None \<Longrightarrow> vm_inv p [] u" and "r = Some (Ok x) \<Longrightarrow> cancelled_vm u"
proof -
  have "(\<forall>q. r = Some (Panic q) \<longrightarrow> excused q) \<and> ((\<forall>q. r \<noteq> Some (Panic q)) \<longrightarrow> machine_ok p u) \<and>
    (r = None \<longrightarrow> vm_inv p [] u) \<and> (\<forall>x. r = Some (Ok x) \<longrightarrow> cancelled_vm u)"
  proof -
    obtain r1 w where pi: "poll_inner True v = (r1, w)" by fastforce
    note ps = poll_inner_safe [OF v pi]
    show ?thesis
    proof (cases r1)
      case None
      then show ?thesis using run pi ps by (auto simp: vm_poll_def machine_ok_def)
    next
      case (Some r2)
      obtain r3 w3 where h: "bind (lift_res r2) to_host w = (r3, w3)" by fastforce
      have ex: "excused q" if "r3 = Panic q" for q
      proof (cases r2)
        case (Ok k)
        then have "to_host k w = (r3, w3)" using h by (simp add: bind_def lift_res_def)
        from vv.triple_D(3) [OF vv_to_host _ TrueI this that] ps(3) Some Ok show ?thesis by blast
      qed (use h that ps(1) Some in \<open>auto simp: bind_def lift_res_def\<close>)
      obtain r4 w4 where c: "vm_cancel w3 = (r4, w4)" by fastforce
      note cs = cancel_cancels [OF c]
      show ?thesis
        using run pi Some h c cs ex by (cases r3; cases r4) (auto simp: vm_poll_def machine_ok_def)
    qed
  qed
  then show "r = Some (Panic q) \<Longrightarrow> excused q" "(\<And>q. r \<noteq> Some (Panic q)) \<Longrightarrow> machine_ok p u"
    "r = None \<Longrightarrow> vm_inv p [] u" "r = Some (Ok x) \<Longrightarrow> cancelled_vm u" by blast+
qed

section \<open>A new machine\<close>

lemma heap_ok_empty: "heap_ok p empty_heap"
  by (simp add: heap_ok_def heap_wf_def reads_ok_def empty_heap_def heap_get_def slots_get_def ok_or_def)

lemma vm_new_inv:
  assumes new: "vm_new p hs i lib = Ok v"
    and env: "hosts_ok hs" "handlers_ok hs" "polls_ok lib"
  shows "vm_inv p [] v" and "root v \<noteq> None"
proof -
  let ?v = "\<lparr>prog = p, vm_hosts = hs, ctx = new_context i, vheap = empty_heap, pins = [],
       tasks = [], next_task = 0, root = None, instructions = 0, instruction_limit = None,
       descriptors = [], turn_cursor = 0, completion_epoch = 0, completion_order = [],
       events = [], clock = 0, ext_lib = lib\<rparr>"
  have safe: "program_safe p" using new by (auto simp: vm_new_def res_bind_Ok_iff validate_safe)
  obtain h w where run: "bind (vm_frame 0 [] [] None) (\<lambda>f. vm_spawn (W_Code [f])) ?v = (Ok h, w)"
    and v: "v = wake (w\<lparr>root := Some h\<rparr>)"
    using new by (auto simp: vm_new_def res_bind_Ok_iff Let_def split: if_splits prod.splits res.splits)
  have start: "vm_inv p [] ?v"
    using safe env by (simp add: vm_inv_def heap_ok_empty roots_ok_def tasks_ok_def bt.inv_empty bt_values_def bt_keys_def)
  have "vv.triple p [] (\<lambda>_. True) (bind (vm_frame 0 [] [] None) (\<lambda>f. vm_spawn (W_Code [f])))
      (\<lambda>h v. is_promise_at (vheap v) h)"
    by (rule vv.triple_use [OF vv_frame], intro vv_stable, simp add: call_ready_def, rule vv.triple_pre [OF vv_spawn])
       (simp add: work_ok_def)
  note d = vv.triple_D [OF this start TrueI run]
  have "vm_inv p [] (w\<lparr>root := Some h\<rparr>)"
    using d(1) d(4) [OF refl] by (auto simp: vm_inv_def roots_ok_def)
  then show "vm_inv p [] v" by (simp add: v vm_inv_wake)
  show "root v \<noteq> None" by (simp add: v wake_def)
qed

section \<open>Between turns\<close>

lemma enqueue_closed: "\<not> alive c \<Longrightarrow> queue (snd (ctx_enqueue cmd c)) = queue c \<and> alive (snd (ctx_enqueue cmd c)) = alive c \<and>
    callbacks (snd (ctx_enqueue cmd c)) = callbacks c \<and> jobs (snd (ctx_enqueue cmd c)) = jobs c"
  by (simp add: ctx_enqueue_def)

lemma cb_enqueue_closed: "\<not> alive c \<Longrightarrow> queue (snd (cb_enqueue cb args job cp c)) = queue c \<and>
    alive (snd (cb_enqueue cb args job cp c)) = alive c \<and>
    callbacks (snd (cb_enqueue cb args job cp c)) = callbacks c \<and> jobs (snd (cb_enqueue cb args job cp c)) = jobs c"
  by (auto simp: cb_enqueue_def monad_defs enqueue_closed split: option.split res.split)

lemma closed_effect:
  assumes "\<not> alive c" and "queue c = []" and "callbacks c = []" and "jobs c = []"
  shows "\<not> alive (host_effect e c) \<and> queue (host_effect e c) = [] \<and> callbacks (host_effect e c) = [] \<and>
    jobs (host_effect e c) = []"
proof (cases e)
  case (Ev_CallAsync cb args)
  show ?thesis
  proof (cases "hc_sig cb")
    case (Some sg)
    let ?cp = "\<lparr>cp_id = next_completion c, cp_result = sig_result sg, cp_channel = sig_channel sg\<rparr>"
    let ?c = "c\<lparr>completions := bt_insert (next_completion c) None (completions c), next_completion := Suc (next_completion c)\<rparr>"
    have "host_effect e c = snd (cb_enqueue cb args None (Some ?cp) ?c)"
      by (simp add: Ev_CallAsync cb_call_async_def Some Let_def monad_defs split: prod.split res.split)
    then show ?thesis using cb_enqueue_closed [of ?c cb args None "Some ?cp"] assms by simp
  qed (use assms Ev_CallAsync in \<open>simp add: cb_call_async_def\<close>)
qed (use assms in \<open>simp_all add: ctx_job_def ctx_spawn_def ctx_cancel_def cb_call_def cb_call_for_def
       enqueue_closed cb_enqueue_closed\<close>)

lemma machine_ok_event: "machine_ok p v \<Longrightarrow> event_ok e \<Longrightarrow> machine_ok p (env_event e v)"
  unfolding machine_ok_def
proof (elim disjE)
  assume "vm_inv p [] v" "event_ok e"
  then show "vm_inv p [] (env_event e v) \<or> cancelled_vm (env_event e v)"
    unfolding env_event_def by (auto intro!: vm_inv_ctx ctx_ok_effect) (simp add: vm_inv_def)
next
  assume "cancelled_vm v"
  then show "vm_inv p [] (env_event e v) \<or> cancelled_vm (env_event e v)"
    using closed_effect [of "ctx v" e] by (simp add: env_event_def cancelled_vm_def)
qed

lemma machine_ok_wake: "machine_ok p v \<Longrightarrow> machine_ok p (env_wake i v)"
proof (cases "\<exists>t hw. bt_get (tasks v) i = Some t \<and> tk_work t = W_Host hw")
  case True
  then obtain t hw where t: "bt_get (tasks v) i = Some t" "tk_work t = W_Host hw" by blast
  assume "machine_ok p v"
  then have v: "vm_inv p [] v" using t(1) by (auto simp: machine_ok_def cancelled_vm_def)
  have "task_ok p (vheap v) (t\<lparr>tk_work := W_Host (hw\<lparr>hw_ready := True\<rparr>)\<rparr>)"
    using vm_inv_take(2) [OF v t(1)] t(2) by (simp add: task_ok_def work_ok_def)
  from vm_inv_set_task [OF v t(1) this] show ?thesis
    using t by (simp add: env_wake_def machine_ok_def vm_inv_wake)
next
  case False
  then have "env_wake i v = v" by (auto simp: env_wake_def split: option.split work.split)
  then show "machine_ok p v \<Longrightarrow> ?thesis" by simp
qed

lemma vv_enqueue_event:
  "vv.triple p held (\<lambda>v. handles_live (vheap v) args) (enqueue_event closure args) (\<lambda>_ _. True)"
proof -
  have m: "vv.triple p held (\<lambda>_. True) (modify (\<lambda>v. v\<lparr>events := next_task v # events v\<rparr>)) (\<lambda>_ _. True)"
    by (rule vv_modify_same) simp
  have w: "vv.triple p held (\<lambda>_. True) (modify wake) (\<lambda>_ _. True)"
    by (rule vv_modify_same) (auto simp: vm_inv_wake, auto simp: wake_def)
  show ?thesis
    unfolding enqueue_event_def
    by (intro vv.triple_use [OF vv_get] vv.triple_use [OF vv_frame] vv.triple_use_seq [OF m] vv.triple_use [OF vv_spawn]
        vv.triple_val vv.triple_fail vv_stable vv.triple_weaken [OF w])
       (auto simp: val_ok_closure_ready work_ok_def simp del: val_ok_simps(17))
qed

text \<open>
  What can be done with a machine from its construction on. Host code acts through events and
  wakes; the client of the machine polls it or runs turns, hands in events of the user
  interface, allocates values, pins values it still needs, asks for a collection and cancels.
  \<open>allowed\<close> says when a use is one the callers make: the handles they pass are live, an event is
  one the context can build, and only a cancellation, a turn or a poll is asked of a machine that
  has been cancelled. \<open>use_machine\<close> runs the operation of the code, with its result.
\<close>

datatype machine_use = Turn nat | Poll | Cancel | Collect | Host_Event host_event | Wake nat
  | Enqueue handle "handle list" | New_Value host_value | Pin "handle list"

fun allowed :: "machine_use \<Rightarrow> vm \<Rightarrow> bool" where
  "allowed Collect v \<longleftrightarrow> root v \<noteq> None"
| "allowed (Host_Event e) v \<longleftrightarrow> event_ok e"
| "allowed (Enqueue h args) v \<longleftrightarrow> root v \<noteq> None \<and> handles_live (vheap v) args"
| "allowed (New_Value x) v \<longleftrightarrow> root v \<noteq> None"
| "allowed (Pin hs) v \<longleftrightarrow> root v \<noteq> None \<and> handles_live (vheap v) hs"
| "allowed _ v \<longleftrightarrow> True"

fun use_machine :: "machine_use \<Rightarrow> vm \<Rightarrow> unit res \<times> vm" where
  "use_machine (Turn n) v = (case run_turn n v of (r, w) \<Rightarrow> (map_res (\<lambda>_. ()) r, w))"
| "use_machine Poll v = (case vm_poll v of (None, w) \<Rightarrow> (Ok (), w) | (Some r, w) \<Rightarrow> (map_res (\<lambda>_. ()) r, w))"
| "use_machine Cancel v = vm_cancel v"
| "use_machine Collect v = vm_collect v"
| "use_machine (Host_Event e) v = (Ok (), env_event e v)"
| "use_machine (Wake k) v = (Ok (), env_wake k v)"
| "use_machine (Enqueue h args) v = enqueue_event h args v"
| "use_machine (New_Value x) v = (case alloc_host_value x v of (r, w) \<Rightarrow> (map_res (\<lambda>_. ()) r, w))"
| "use_machine (Pin hs) v = (Ok (), set_pins hs v)"

text \<open>
  A panic ends the process, and a collection that reports an error, as it does when the
  generation of a slot is exhausted, leaves a half swept heap that nobody uses again. Any other
  error is an answer after which the machine is used further.
\<close>

fun survives :: "machine_use \<Rightarrow> 'a res \<Rightarrow> bool" where
  "survives _ (Ok _) \<longleftrightarrow> True"
| "survives u (Err _) \<longleftrightarrow> u \<noteq> Collect"
| "survives _ (Panic _) \<longleftrightarrow> False"

inductive life :: "program \<Rightarrow> hosts \<Rightarrow> nat \<Rightarrow> externals \<Rightarrow> vm \<Rightarrow> bool" for p hs i lib where
  life_new: "vm_new p hs i lib = Ok v \<Longrightarrow> life p hs i lib v"
| life_use: "life p hs i lib v \<Longrightarrow> allowed u v \<Longrightarrow> use_machine u v = (r, w) \<Longrightarrow> survives u r \<Longrightarrow> life p hs i lib w"

lemma machine_ok_rooted: "machine_ok p v \<Longrightarrow> root v \<noteq> None \<Longrightarrow> vm_inv p [] v"
  by (auto simp: machine_ok_def cancelled_vm_def)

lemma use_safe:
  assumes v: "machine_ok p v" and a: "allowed u v" and run: "use_machine u v = (r, w)"
  shows "(\<forall>q. r = Panic q \<longrightarrow> excused q) \<and> (survives u r \<longrightarrow> machine_ok p w)"
proof (cases u)
  case (Turn n)
  obtain r' where t: "run_turn n v = (r', w)" "r = map_res (\<lambda>_. ()) r'" using run Turn by (auto split: prod.splits)
  show ?thesis using turn_safe(1) [OF v t(1)] turn_safe(2) [OF v t(1)] t(2) Turn by (cases r') auto
next
  case Poll
  obtain r' where t: "vm_poll v = (r', w)" "r = (case r' of None \<Rightarrow> Ok () | Some x \<Rightarrow> map_res (\<lambda>_. ()) x)"
    using run Poll by (auto split: prod.splits option.splits)
  show ?thesis
  proof (cases r')
    case None
    then show ?thesis using poll_safe(2) [OF v t(1)] t(2) by auto
  next
    case (Some x)
    then show ?thesis using poll_safe(1) [OF v t(1)] poll_safe(2) [OF v t(1)] t(2) Poll by (cases x) auto
  qed
next
  case Cancel
  with cancel_cancels [of v r w] run show ?thesis by (auto simp: machine_ok_def)
next
  case Collect
  with a have "vm_inv p [] v" by (intro machine_ok_rooted [OF v]) simp
  from collect_moved [OF this, of r w] run Collect show ?thesis by (cases r) (auto simp: machine_ok_def)
next
  case (Host_Event e)
  with a run v show ?thesis by (auto simp: machine_ok_event)
next
  case (Wake k)
  with run v show ?thesis by (auto simp: machine_ok_wake)
next
  case (Enqueue h args)
  with a have i: "vm_inv p [] v" by (intro machine_ok_rooted [OF v]) simp
  have "enqueue_event h args v = (r, w)" using run Enqueue by simp
  moreover have "handles_live (vheap v) args" using a Enqueue by simp
  ultimately show ?thesis using vv.triple_D [OF vv_enqueue_event i] Enqueue by (cases r) (auto simp: machine_ok_def)
next
  case (New_Value x)
  with a have i: "vm_inv p [] v" by (intro machine_ok_rooted [OF v]) simp
  obtain r' where t: "alloc_host_value x v = (r', w)" "r = map_res (\<lambda>_. ()) r'"
    using run New_Value by (auto split: prod.splits)
  show ?thesis using vv.triple_D [OF vv_alloc_host i TrueI t(1)] t(2) New_Value by (cases r') (auto simp: machine_ok_def)
next
  case (Pin hs)
  with a have "vm_inv p [] v" by (intro machine_ok_rooted [OF v]) simp
  then show ?thesis using a run Pin by (auto simp: machine_ok_def set_pins_def vm_inv_def roots_ok_def)
qed

lemma life_machine_ok:
  assumes env: "hosts_ok hs" "handlers_ok hs" "polls_ok lib"
  shows "life p hs i lib v \<Longrightarrow> machine_ok p v"
proof (induction rule: life.induct)
  case (life_new v)
  then show ?case using vm_new_inv [OF _ env] by (auto simp: machine_ok_def)
next
  case (life_use v u r w)
  then show ?case using use_safe by blast
qed

end
