(* ===== verification/StepKeeps.thy ===== *)
theory StepKeeps
  imports VmSched
begin

text \<open>
  What instructions leave alone: a step never touches the machine's root, pins, limits,
  counters of instructions, cursor or program. With it the accounting of a turn: a drive
  never executes more instructions than its budget.
\<close>

section \<open>Operations that keep a part of the state\<close>

definition keeps :: "('s \<Rightarrow> 'x) \<Rightarrow> ('s, 'a) rm \<Rightarrow> bool" where
  "keeps f m \<longleftrightarrow> (\<forall>s. f (snd (m s)) = f s)"

lemma keepsD: "keeps f m \<Longrightarrow> m s = (r, t) \<Longrightarrow> f t = f s"
  unfolding keeps_def by (metis snd_conv)

lemma keeps_basic:
  "keeps f (ret a)" "keeps f (fail e)" "keeps f (panic e)" "keeps f (gets g)" "keeps f (lift_res r)"
  "keeps f (of_opt e x)"
  by (simp_all add: keeps_def run_simps of_opt_def)

lemma keeps_modify: "(\<And>s. f (g s) = f s) \<Longrightarrow> keeps f (modify g)"
  by (simp add: keeps_def run_simps)

lemma keeps_bind: "keeps f m \<Longrightarrow> (\<And>a. keeps f (k a)) \<Longrightarrow> keeps f (bind m k)"
  by (auto simp: keeps_def bind_def split: prod.splits res.splits) (metis snd_conv)+

lemma keeps_seq: "keeps f m \<Longrightarrow> keeps f k \<Longrightarrow> keeps f (seq m k)"
  unfolding seq_def by (rule keeps_bind)

lemma keeps_mapM: "(\<And>x. keeps f (g x)) \<Longrightarrow> keeps f (mapM g xs)"
  by (induction xs) (auto intro: keeps_bind keeps_basic)

lemma keeps_zoom: "(\<And>s t. f (p s t) = f t) \<Longrightarrow> keeps f (zoom g p m)"
  by (simp add: keeps_def zoom_def split: prod.split)

lemma keeps_zoom_inner: "keeps h m \<Longrightarrow> (\<And>s t. h s = h (g t) \<Longrightarrow> f (p s t) = f t) \<Longrightarrow> keeps f (zoom g p m)"
  unfolding keeps_def zoom_def by (metis (mono_tags, lifting) case_prod_beta' snd_conv)

lemma keeps_cases:
  "keeps f x \<Longrightarrow> keeps f y \<Longrightarrow> keeps f (if b then x else y)"
  "keeps f m \<Longrightarrow> (\<And>y. keeps f (g y)) \<Longrightarrow> keeps f (case o' of None \<Rightarrow> m | Some y \<Rightarrow> g y)"
  "(\<And>a b. keeps f (h a b)) \<Longrightarrow> keeps f (case z of (a, b) \<Rightarrow> h a b)"
  "(\<And>a. keeps f (l a)) \<Longrightarrow> (\<And>b. keeps f (r b)) \<Longrightarrow> keeps f (case u of Inl a \<Rightarrow> l a | Inr b \<Rightarrow> r b)"
  "keeps f m \<Longrightarrow> (\<And>y ys. keeps f (c y ys)) \<Longrightarrow> keeps f (case xs of [] \<Rightarrow> m | y # ys \<Rightarrow> c y ys)"
  "(\<And>h. keeps f (v h)) \<Longrightarrow> (\<And>h. keeps f (w h)) \<Longrightarrow> keeps f (case out of Out_Value h \<Rightarrow> v h | Out_Thrown h \<Rightarrow> w h)"
  "keeps f (q e) \<Longrightarrow> keeps f (let x = e in q x)"
  by (auto split: option.split prod.split sum.split list.split outcome.split)

lemma keeps_val:
  assumes "keeps f m1" "keeps f m2" "\<And>d. keeps f (m3 d)" "\<And>n. keeps f (m4 n)" "\<And>b. keeps f (m5 b)"
    "\<And>s. keeps f (m6 s)" "\<And>bs. keeps f (m7 bs)" "\<And>x. keeps f (m8 x)" "\<And>hs. keeps f (m9 hs)"
    "\<And>r. keeps f (m10 r)" "\<And>m. keeps f (m11 m)" "\<And>h. keeps f (m12 h)" "\<And>g cs sl. keeps f (m13 g cs sl)"
    "\<And>x. keeps f (m14 x)"
  shows "keeps f (case_val m1 m2 m3 m4 m5 m6 m7 m8 m9 m10 m11 m12 m13 m14 v)"
  using assms by (cases v) simp_all

lemmas keeps_intros = keeps_basic keeps_bind keeps_seq keeps_mapM keeps_cases keeps_val

section \<open>The machine\<close>

definition control :: "vm \<Rightarrow> program \<times> hosts \<times> externals \<times> handle option \<times> handle list \<times> nat \<times> nat option \<times> nat \<times> nat list" where
  "control v = (prog v, vm_hosts v, ext_lib v, root v, pins v, instructions v, instruction_limit v, turn_cursor v, events v)"

abbreviation run_control :: "mst \<Rightarrow> program \<times> hosts \<times> externals \<times> handle option \<times> handle list \<times> nat \<times> nat option \<times> nat \<times> nat list" where
  "run_control \<equiv> \<lambda>s. control (fst s)"

lemma keeps_on_heap: "keeps control (on_heap m)"
  unfolding on_heap_def by (rule keeps_zoom) (simp add: control_def)

lemma keeps_on_ctx: "keeps control (on_ctx m)"
  unfolding on_ctx_def by (rule keeps_zoom) (simp add: control_def)

lemma keeps_on_vm: "keeps control m \<Longrightarrow> keeps run_control (on_vm m)"
  unfolding on_vm_def by (rule keeps_zoom_inner) auto

lemma keeps_on_vheap: "keeps run_control (on_vheap m)"
  unfolding on_vheap_def by (rule keeps_on_vm [OF keeps_on_heap])

lemma keeps_vm_parts:
  "keeps control (vm_alloc x)" "keeps control (enum_value n c i pl)" "keeps control (vm_frame f cs as sl)"
  "keeps control (function_at f)" "keeps control (intern_descriptor d)" "keeps control (value_text h)"
  "keeps control (vm_spawn w)" "keeps control (to_host h)" "keeps control (alloc_host_value y)"
  by (simp_all add: vm_alloc_def enum_value_def vm_frame_def function_at_def value_text_def to_host_def
      alloc_host_value_def keeps_on_heap keeps_on_ctx keeps_bind keeps_basic keeps_cases)
     (auto simp: keeps_def intern_descriptor_def vm_spawn_def control_def Let_def split: option.split prod.split)

lemma keeps_vm_calls:
  "keeps control (invoke f cs as sl)" "keeps control (vm_join k l)" "keeps control (host_result r ty ch er)"
  "keeps control (call_host n vs)" "keeps control (parse_json t s fac)" "keeps control (settle_promise h out)"
  unfolding invoke_def vm_join_def host_result_def call_host_def parse_json_def settle_promise_def
  by (intro keeps_intros keeps_vm_parts keeps_on_heap keeps_on_ctx keeps_modify; simp add: control_def)+

lemma keeps_ready: "keeps control (ready_result v opr)"
proof -
  have p: "keeps control (bind (vm_alloc (V_Promise None)) (\<lambda>h. seq (settle_promise h out) (ret h)))" for out
    by (intro keeps_intros keeps_vm_parts keeps_vm_calls)
  show ?thesis
    unfolding keeps_def
  proof
    fix s
    obtain r t where run: "host_result v (op_result opr) (result_channel opr) (result_error opr) s = (r, t)" by fastforce
    have "control t = control s" by (rule keepsD [OF keeps_vm_calls(3) run])
    then show "control (snd (ready_result v opr s)) = control s"
      using run p [unfolded keeps_def] by (cases r) (simp_all add: ready_result_def)
  qed
qed

section \<open>A step\<close>

lemma keeps_top:
  "keeps run_control top_frame" "keeps run_control (set_top f)"
  by (simp_all add: keeps_def top_frame_def set_top_def split: list.split)

lemma keeps_raise: "keeps run_control (raise h)"
  by (simp add: keeps_def raise_def split: prod.split)

lemma keeps_frames: "keeps run_control (modify (\<lambda>(v, fs). (v, g fs)))"
  by (rule keeps_modify) auto

lemmas keeps_walk = keeps_intros keeps_top keeps_raise keeps_frames keeps_on_vheap keeps_on_vm keeps_vm_parts
  keeps_vm_calls keeps_ready

lemma keeps_prims:
  "keeps run_control (push h)" "keeps run_control pop_operand" "keeps run_control (jump i)"
  "keeps run_control (local_at i)" "keeps run_control (push_frame f)" "keeps run_control (get_val h)"
  "keeps run_control (alloc_push x)" "keeps run_control (observe h rd)"
  unfolding push_def pop_operand_def jump_def local_at_def push_frame_def get_val_def alloc_push_def observe_def
  by (intro keeps_walk)+

lemma keeps_pops: "keeps run_control (pop_many n)" "keeps run_control (arguments n)"
proof -
  show "keeps run_control (pop_many n)" for n by (induction n) (auto intro!: keeps_walk keeps_prims)
  then show "keeps run_control (arguments n)" unfolding arguments_def by (intro keeps_walk)
qed

lemma keeps_enter: "keeps run_control (enter i)"
  unfolding enter_def by (cases i) (auto intro: keeps_prims)

lemmas keeps_run = keeps_walk keeps_prims keeps_pops keeps_enter

lemma keeps_calls:
  "keeps run_control (call_value h as)" "keeps run_control (read_prop x th)" "keeps run_control (field_read n h)"
  "keeps run_control pop_number"
  unfolding call_value_def read_prop_def field_read_def pop_number_def
  by (intro keeps_run keeps_run; unfold call_value_def; intro keeps_run)+

lemmas op_defs = op_dup_def op_load_def op_load_checked_def op_store_def op_rebind_def op_binary_def op_neg_def
  op_not_def op_newtype_def op_get_type_def op_to_string_def op_to_number_def op_panic_def op_jump_if_false_def
  op_jump_if_unit_def op_json_stringify_def op_json_parse_def op_json_parse_result_def
  op_descriptor_def op_enum_def op_match_enum_def op_match_struct_def op_match_type_def op_match_equal_def
  op_match_tuple_def op_closure_def op_slot_def op_component_call_def op_call_def op_method_call_def
  op_promise_join_def op_await_def op_handler_def op_end_handler_def op_return_def op_list_def op_list_has_def
  op_list_append_def op_props_def op_list_extend_def op_record_def op_struct_def op_record_extend_def op_field_def
  op_field_or_self_def op_index_def op_field_set_def op_index_set_def

lemma keeps_jwt: "keeps run_control (op_jwt_stringify s e)"
proof -
  have "keeps run_control (case r of Panic p \<Rightarrow> panic p
     | Ok text \<Rightarrow> bind (on_vm (vm_alloc (V_String text))) (\<lambda>p.
         bind (on_vm (enum_value ''Result'' ''Ok'' 0 (Some p))) push)
     | Err _ \<Rightarrow> bind (on_vm (vm_alloc (V_String e))) (\<lambda>p.
         bind (on_vm (enum_value ''Result'' ''Err'' 1 (Some p))) push))" for r
    by (cases r; simp only: res.case; intro keeps_run)
  then show ?thesis unfolding op_jwt_stringify_def by (intro keeps_run)
qed

lemma keeps_host: "keeps run_control (op_host n argc)"
proof -
  have r: "keeps run_control (f fut) \<Longrightarrow> keeps run_control (g x) \<Longrightarrow>
      keeps run_control (case rp of Reply_Ready v \<Rightarrow> g v | Reply_Pending fut \<Rightarrow> f fut)"
    if "\<And>fut. keeps run_control (f fut)" "\<And>v. keeps run_control (g v)"
    for f :: "nat \<Rightarrow> (mst, vm_step) rm" and g fut x rp
    using that by (cases rp) simp_all
  show ?thesis
    unfolding op_host_def by (intro keeps_run r)
qed

lemma keeps_list_mut: "keeps run_control (list_mut_op k)"
  unfolding list_mut_op_def
  by (cases k; simp only: list_mut.case;
      unfold list_push_def list_take_def list_splice_def list_sort_def list_reverse_def list_fill_def list_copy_within_def;
      intro keeps_run keeps_calls)

lemma keeps_exec_op: "keeps run_control (exec_op x)"
  by (cases x; simp only: exec_op_def op.case continue_def;
      (intro keeps_seq keeps_basic)?;
      (rule keeps_jwt keeps_host keeps_list_mut | (unfold op_defs)?, intro keeps_run keeps_calls))

lemma keeps_step: "keeps run_control step"
  unfolding step_def fetch_def by (intro keeps_run keeps_exec_op)

lemma step_control: "step (v, fs) = (r, w, gs) \<Longrightarrow> control w = control v"
  using keepsD [OF keeps_step] by fastforce

section \<open>The accounting of a drive\<close>

lemma keeps_count: "keeps control m \<Longrightarrow> keeps instructions m"
  by (simp add: keeps_def control_def)

lemma step_count: "step (v, fs) = (r, w, gs) \<Longrightarrow> instructions w = instructions v"
  using step_control by (force simp: control_def)

lemma run_code_count:
  "run_code n limit v fs = (r, w) \<Longrightarrow> instructions w \<le> instructions v + n \<and>
   (\<forall>res h fs' k b. r = Ok (res, h, fs', k, b) \<longrightarrow> instructions w = instructions v + k \<and> k \<le> n)"
proof (induction n arbitrary: v fs r w)
  case (Suc n)
  let ?v1 = "v\<lparr>instructions := Suc (instructions v)\<rparr>"
  show ?case
  proof (cases "case limit of None \<Rightarrow> False | Some l \<Rightarrow> instructions ?v1 > l")
    case True
    then show ?thesis using Suc.prems by (auto simp: Let_def)
  next
    case False
    obtain r1 v2 fs2 where st: "step (?v1, fs) = (r1, v2, fs2)" by (metis surj_pair)
    have c: "instructions v2 = Suc (instructions v)" using step_count [OF st] by simp
    show ?thesis
    proof (cases "r1 = Ok St_Continue")
      case True
      obtain r3 v3 where rc: "run_code n limit v2 fs2 = (r3, v3)" by fastforce
      from Suc.IH [OF rc] show ?thesis
        using Suc.prems False st True rc c by (cases r3) (auto simp: Let_def)
    next
      case False': False
      show ?thesis
        using Suc.prems False False' st c by (cases r1) (auto simp: Let_def split: vm_step.splits)
    qed
  qed
qed auto

lemma join_scan_left: "join_scan hp orders n j left = Ok (j', l) \<Longrightarrow> l \<le> left"
proof (induction n arbitrary: j left)
  case (Suc n)
  then show ?case by (force simp: res_bind_Ok_iff split: if_splits)
qed simp

lemma poll_join_count:
  assumes "poll_join j left v = (r, w)"
  shows "instructions w = instructions v \<and> (\<forall>out j' l. r = Ok (out, j', l) \<longrightarrow> l \<le> left)"
proof -
  have a: "keeps instructions (bind (vm_alloc (V_List hs)) (\<lambda>h. ret (Some (Out_Value h), j2, l)))" for hs j2 l
    by (intro keeps_bind keeps_count keeps_vm_parts keeps_basic)
  have al: "bind (vm_alloc (V_List hs)) (\<lambda>h. ret (Some (Out_Value h), j2, l)) v = (Ok (out, j', l'), u) \<Longrightarrow> l' = l"
    for hs j2 l out j' l' u
    by (auto simp: bind_Ok ret_def)
  show ?thesis
    using assms keepsD [OF a] al join_scan_left
    by (fastforce simp: poll_join_def Let_def split: res.splits prod.splits join_result.splits)
qed

lemma run_work_count:
  assumes "run_work t left limit v = (r, w)"
  shows "instructions w \<le> instructions v + left \<and> (\<forall>s. r = Ok s \<longrightarrow> instructions w + sl_left s \<le> instructions v + left)"
proof (cases "tk_work t")
  case (W_CallbackWait h)
  have "keeps instructions (on_heap (get_m h))" by (rule keeps_count [OF keeps_on_heap])
  moreover obtain r1 w1 where g: "on_heap (get_m h) v = (r1, w1)" by fastforce
  ultimately have "instructions w1 = instructions v" by (rule keepsD)
  then show ?thesis
    using assms g W_CallbackWait
    by (cases r1) (auto simp: run_work_def bind_def ret_def fail_def split: val.splits option.splits)
next
  case (W_Join j)
  obtain r1 w1 where g: "poll_join j left v = (r1, w1)" by fastforce
  from poll_join_count [OF g] show ?thesis
    using assms g W_Join by (cases r1) (auto simp: run_work_def bind_def ret_def)
next
  case (W_Host hw)
  obtain x woke evs where e: "ext_poll (ext_lib v) (clock v) (hw_future hw) = (x, woke, evs)" by (metis surj_pair)
  have pf: "\<exists>u. poll_future (hw_future hw) v = (Ok (x, woke), u) \<and> instructions u = instructions v"
    by (simp add: poll_future_def e)
  then obtain u where u: "poll_future (hw_future hw) v = (Ok (x, woke), u)" "instructions u = instructions v" by blast
  show ?thesis
  proof (cases x)
    case None
    then show ?thesis using assms u W_Host by (auto simp: run_work_def bind_def ret_def Let_def)
  next
    case (Some y)
    obtain r2 w2 where h: "host_result y (hw_result hw) (hw_channel hw) (hw_error hw) u = (r2, w2)" by fastforce
    have "instructions w2 = instructions u" by (rule keepsD [OF keeps_count [OF keeps_vm_calls(3)] h])
    then show ?thesis
      using assms u h Some W_Host by (cases r2) (auto simp: run_work_def bind_def ret_def Let_def)
  qed
next
  case (W_Code fs)
  obtain r1 w1 where g: "run_code (min 256 left) limit v fs = (r1, w1)" by fastforce
  from run_code_count [OF g] show ?thesis
    using assms g W_Code by (cases r1) (fastforce simp: run_work_def)+
qed

lemma keeps_callback: "keeps control (callback_result r ty ch)"
  unfolding callback_result_def checked_result_def thrown_error_def
  by (intro keeps_intros keeps_vm_parts keeps_on_heap)

lemma keeps_resolve: "keeps instructions (resolve_completion cp r)"
proof (cases cp)
  case (Some c)
  show ?thesis
    unfolding keeps_def
  proof
    fix s
    obtain r1 t where run: "callback_result r (cp_result c) (cp_channel c) s = (r1, t)" by fastforce
    have "instructions t = instructions s" by (rule keepsD [OF keeps_count [OF keeps_callback] run])
    then show "instructions (snd (resolve_completion cp r s)) = instructions s"
      using run by (cases r1) (simp_all add: resolve_completion_def Some)
  qed
qed (simp add: resolve_completion_def keeps_basic)

lemma keeps_finish: "keeps instructions (finish_slice i s)"
proof -
  have g: "keeps instructions (thrown_error h)" for h
    unfolding thrown_error_def by (intro keeps_bind keeps_basic keeps_count keeps_vm_parts)
  have e: "keeps instructions (event_guard i out)" for out
    unfolding event_guard_def by (intro keeps_intros keeps_modify g) simp
  have f: "keeps instructions (\<lambda>v. (followed v t r, v))" for t r by (simp add: keeps_def)
  have o: "keeps instructions (of_sum r)" for r :: "string + 'z"
    unfolding of_sum_def by (intro keeps_intros)
  show ?thesis
    unfolding finish_slice_def
    by (intro keeps_intros e f o keeps_resolve keeps_count [OF keeps_vm_calls(6)] keeps_modify) simp_all
qed

lemma drive_task_count:
  assumes "drive_task only limit i d v = (r, w)"
  shows "instructions w \<le> instructions v + dr_left d \<and>
    (\<forall>d'. r = Ok d' \<longrightarrow> instructions w + dr_left d' \<le> instructions v + dr_left d)"
proof (cases "bt_get (tasks v) i")
  case (Some t)
  let ?v = "v\<lparr>tasks := bt_remove i (tasks v)\<rparr>"
  obtain r1 w1 where g: "run_work (t\<lparr>tk_waiting := None\<rparr>) (dr_left d) limit ?v = (r1, w1)" by fastforce
  note c = run_work_count [OF g]
  show ?thesis
  proof (cases r1)
    case (Ok s)
    let ?w = "if only = None then w1\<lparr>turn_cursor := min (Suc i) usize_max\<rparr> else w1"
    obtain r2 w2 where f: "finish_slice i s ?w = (r2, w2)" by fastforce
    have "instructions w2 = instructions w1" using keepsD [OF keeps_finish f] by simp
    then show ?thesis
      using assms Some g Ok f c by (cases r2) (auto simp: drive_task_def dropping_def bind_def seq_def modify_def ret_def)
  qed (use assms Some g c in \<open>auto simp: drive_task_def dropping_def bind_def\<close>)
qed (use assms in \<open>auto simp: drive_task_def\<close>)

lemma drive_tasks_count:
  "drive_tasks only limit is d v = (r, w) \<Longrightarrow> instructions w \<le> instructions v + dr_left d \<and>
    (\<forall>d'. r = Ok d' \<longrightarrow> instructions w + dr_left d' \<le> instructions v + dr_left d)"
proof (induction "is" arbitrary: d v)
  case (Cons i "is")
  show ?case
  proof (cases "dr_left d = 0")
    case False
    obtain r1 w1 where g: "drive_task only limit i d v = (r1, w1)" by fastforce
    note c = drive_task_count [OF g]
    show ?thesis
    proof (cases r1)
      case (Ok d1)
      then have "drive_tasks only limit is d1 w1 = (r, w)" using Cons.prems False g by (simp add: bind_def)
      from Cons.IH [OF this] c Ok show ?thesis by force
    qed (use Cons.prems False g c in \<open>auto simp: bind_def\<close>)
  qed (use Cons.prems in \<open>auto simp: ret_def\<close>)
qed (auto simp: ret_def)

lemma keeps_commands: "keeps instructions (run_commands cmds)"
proof -
  have sc: "keeps instructions (set_completion i cp)" for i cp
    by (simp add: keeps_def set_completion_def split: option.split)
  have cb: "keeps instructions (start_callback cb args cp)" for cb args cp
    unfolding start_callback_def
    by (intro keeps_intros sc keeps_count [OF keeps_on_heap] keeps_count [OF keeps_vm_parts(3)]
        keeps_count [OF keeps_vm_parts(7)] keeps_count [OF keeps_vm_parts(9)])
  have one: "keeps instructions (run_command cmd)" for cmd
    unfolding run_command_def
    by (intro keeps_bind keeps_basic, cases cmd; simp only: command.case;
        intro keeps_intros cb keeps_modify keeps_count [OF keeps_vm_parts(7)]; simp)
  show ?thesis
  proof (induction cmds)
    case (Cons cmd cmds)
    show ?case
      unfolding keeps_def
    proof
      fix s
      obtain r t where run: "run_command cmd s = (r, t)" by fastforce
      have "instructions t = instructions s" by (rule keepsD [OF one run])
      then show "instructions (snd (run_commands (cmd # cmds) s)) = instructions s"
        using run Cons [unfolded keeps_def] by (cases r) simp_all
    qed
  qed (simp add: keeps_def)
qed

lemma host_commands_count:
  assumes "host_commands left v = (r, w)"
  shows "instructions w = instructions v \<and> (\<forall>p l. r = Ok (p, l) \<longrightarrow> l \<le> left)"
proof -
  obtain cmds c where t: "ctx_take left (ctx v) = (cmds, c)" by fastforce
  obtain r1 w1 where g: "run_commands cmds (v\<lparr>ctx := c\<rparr>) = (r1, w1)" by fastforce
  from keepsD [OF keeps_commands g] show ?thesis
    using assms t g by (cases r1) (auto simp: host_commands_def bind_def ret_def)
qed

lemma keeps_collect: "keeps control vm_collect"
proof -
  have "keeps control (bind (on_heap (heap_collect hs)) (\<lambda>_. modify (\<lambda>v. v\<lparr>completion_order :=
          bt_retain (\<lambda>h _. is_settled (vheap v) h) (completion_order v)\<rparr>)))" for hs
    by (intro keeps_bind keeps_on_heap keeps_modify) (simp add: control_def)
  note k = this [unfolded keeps_def]
  show ?thesis
    unfolding keeps_def by (simp add: vm_collect_def k split: prod.split) (simp add: control_def)
qed

lemma drive_count:
  assumes run: "drive budget only limit v = (r, w)"
  shows "instructions w \<le> instructions v + budget"
proof -
  let ?c = "\<lambda>n. if only = None then host_commands n else ret (False, n)"
  have c: "instructions u = instructions s \<and> (\<forall>p l. x = Ok (p, l) \<longrightarrow> l \<le> n)" if "?c n s = (x, u)" for n s x u
    using that host_commands_count [of n s x u] by (auto simp: ret_def split: if_splits)
  obtain r1 w1 where 1: "?c budget v = (r1, w1)" by fastforce
  show ?thesis
  proof (cases r1)
    case (Ok x)
    obtain p left where x: "x = (p, left)" by fastforce
    have l: "left \<le> budget" "instructions w1 = instructions v" using c [OF 1] Ok x by auto
    let ?d = "\<lparr>dr_left = left, dr_progressed = p, dr_deferred = False\<rparr>"
    obtain r2 w2 where 2: "drive_tasks only limit (runnable w1 only) ?d w1 = (r2, w2)" by fastforce
    note t = drive_tasks_count [OF 2]
    show ?thesis
    proof (cases r2)
      case (Ok d)
      obtain r3 w3 where 3: "?c (dr_left d) w2 = (r3, w3)" by fastforce
      have i3: "instructions w3 = instructions w2" using c [OF 3] by blast
      obtain r4 w4 where 4: "vm_collect w3 = (r4, w4)" by fastforce
      have i4: "instructions w4 = instructions w3" by (rule keepsD [OF keeps_count [OF keeps_collect] 4])
      have "instructions w = instructions w2"
        using run 1 2 3 4 \<open>r1 = Ok x\<close> x Ok i3 i4
        by (cases r3; cases r4) (auto simp: drive_def bind_def gets_def seq_def ret_def)
      then show ?thesis using t Ok l by force
    qed (use run 1 2 \<open>r1 = Ok x\<close> x t l in \<open>auto simp: drive_def bind_def gets_def\<close>)
  qed (use run 1 c [OF 1] in \<open>auto simp: drive_def bind_def\<close>)
qed

end
