(* ===== verification/VmProps.thy ===== *)
theory VmProps
  imports TurnTriples StepKeeps
begin

text \<open>
  What the virtual machine promises: one step is safe, so is every turn and poll of a machine
  however its host and client use it, exceptions reach the nearest handler, joins keep their
  order, cancellation lets go of everything.
\<close>

section \<open>An example\<close>

text \<open>A program that throws under a handler, keeps what it caught and returns it.\<close>

definition demo_ext :: externals where
  "demo_ext = \<lparr>ext_quote = id, ext_read = (\<lambda>_. Inl []), ext_print = (\<lambda>_. []),
     ext_poll = (\<lambda>_ _. (None, False, [])), ext_unordered = (\<lambda>_. None)\<rparr>"

definition demo_program :: program where
  "demo_program = \<lparr>version = 1, funcs = [\<lparr>fn_name = ''main'', parameters = 0, captures = 0, locals = 1,
     asynchronous = False, code = [Op_Handler 3, Op_Const (Lit_String ''boom''), Op_Throw, Op_Store 0, Op_Load 0, Op_Return]\<rparr>]\<rparr>"

definition demo_frame :: frame where
  "demo_frame = \<lparr>fr_function = 0, ip = 0, frame_locals = [Handle 1 0], stack = [], slot_children = None,
     then_call = None, handlers = []\<rparr>"

definition demo_vm :: vm where
  "demo_vm = \<lparr>prog = demo_program, vm_hosts = empty_hosts, ctx = (new_context 0)\<lparr>ready := True\<rparr>,
     vheap = \<lparr>slots =
            [\<lparr>slot_value = Some V_Unit, slot_gen = 0, slot_marked = False,
                slot_newtype = None, slot_created = 1, slot_revision = 0\<rparr>,
             \<lparr>slot_value = Some (V_Cell (Handle 0 0)), slot_gen = 0,
                slot_marked = False, slot_newtype = None, slot_created = 2,
                slot_revision = 0\<rparr>,
             \<lparr>slot_value = Some (V_Promise None), slot_gen = 0,
                slot_marked = False, slot_newtype = None, slot_created = 3,
                slot_revision = 0\<rparr>],
            free = [], collections = 0, allocations = 3, heap_reads = None\<rparr>,
     pins = [],
     tasks = [(0, \<lparr>tk_promise = Handle 2 0, tk_work = W_Code [demo_frame], tk_waiting = None, tk_completion = None\<rparr>)],
     next_task = 1, root = Some (Handle 2 0), instructions = 0, instruction_limit = None, descriptors = [],
     turn_cursor = 0, completion_epoch = 0, completion_order = [], events = [], clock = 0, ext_lib = demo_ext\<rparr>"

lemma demo_new: "vm_new demo_program empty_hosts 0 demo_ext = Ok demo_vm"
proof -
  have "validate demo_program = Ok ()"
    by (simp add: validate_safe program_safe_def demo_program_def func_safe_def op_safe_def)
  then show ?thesis
    by (simp add: vm_new_def demo_program_def vm_frame_def on_heap_def new_frame_def alloc_cells_def fill_cells_def
        alloc_m_def heap_alloc_def empty_heap_def Let_def vm_spawn_def monad_defs wake_def demo_vm_def demo_frame_def)
qed

lemma demo_env: "hosts_ok empty_hosts" "handlers_ok empty_hosts" "polls_ok demo_ext"
  by (rule hosts_ok_empty) (simp_all add: handlers_ok_def polls_ok_def empty_hosts_def demo_ext_def)

lemma demo_inv: "vm_inv demo_program [] demo_vm"
  by (rule vm_new_inv(1) [OF demo_new demo_env])

lemma demo_life: "life demo_program empty_hosts 0 demo_ext demo_vm"
  by (rule life_new [OF demo_new])

lemma demo_run_inv: "run_inv demo_program [] (demo_vm, [demo_frame])"
proof -
  have "task_ok demo_program (vheap demo_vm) \<lparr>tk_promise = Handle 2 0, tk_work = W_Code [demo_frame], tk_waiting = None, tk_completion = None\<rparr>"
    by (rule vm_inv_take(2) [OF demo_inv, where i = 0]) (simp add: demo_vm_def bt_get_def)
  then show ?thesis using demo_inv by (simp add: run_inv_def frames_ok_def task_ok_def work_ok_def)
qed

text \<open>A program that answers at once, polled to its end.\<close>

definition answer_program :: program where
  "answer_program = \<lparr>version = 1, funcs = [\<lparr>fn_name = ''main'', parameters = 0, captures = 0, locals = 0,
     asynchronous = False, code = [Op_Const (Lit_Bool True), Op_Return]\<rparr>]\<rparr>"

definition answer_vm :: vm where
  "answer_vm = \<lparr>prog = answer_program, vm_hosts = empty_hosts, ctx = (new_context 0)\<lparr>ready := True\<rparr>,
     vheap = \<lparr>slots = [\<lparr>slot_value = Some (V_Promise None), slot_gen = 0, slot_marked = False, slot_newtype = None,
       slot_created = 1, slot_revision = 0\<rparr>], free = [], collections = 0, allocations = 1, heap_reads = None\<rparr>,
     pins = [],
     tasks = [(0, \<lparr>tk_promise = Handle 0 0, tk_work = W_Code [\<lparr>fr_function = 0, ip = 0, frame_locals = [],
       stack = [], slot_children = None, then_call = None, handlers = []\<rparr>], tk_waiting = None, tk_completion = None\<rparr>)],
     next_task = 1, root = Some (Handle 0 0), instructions = 0, instruction_limit = None, descriptors = [],
     turn_cursor = 0, completion_epoch = 0, completion_order = [], events = [], clock = 0, ext_lib = demo_ext\<rparr>"

lemma answer_new: "vm_new answer_program empty_hosts 0 demo_ext = Ok answer_vm"
proof -
  have "validate answer_program = Ok ()"
    by (simp add: validate_safe program_safe_def answer_program_def func_safe_def op_safe_def)
  then show ?thesis
    by (simp add: vm_new_def answer_program_def vm_frame_def on_heap_def new_frame_def alloc_cells_def fill_cells_def
        alloc_m_def heap_alloc_def empty_heap_def Let_def vm_spawn_def monad_defs wake_def answer_vm_def)
qed

lemma answer_inv: "vm_inv answer_program [] answer_vm"
  by (rule vm_new_inv(1) [OF answer_new demo_env])

lemmas run_code_numeral = run_code.simps(2) [where n = "pred_numeral k" for k, folded numeral_eq_Suc]

lemmas run_defs = drive_def host_commands_def ctx_take_def runnable_def is_ready_def drive_task_def bt_get_def
  bt_remove_def run_work_def run_code_numeral step_def fetch_def exec_op_def continue_def top_frame_def set_top_def
  on_vm_def function_at_def monad_defs alloc_push_def vm_alloc_def on_heap_def alloc_m_def heap_alloc_def push_def
  Let_def op_return_def pop_operand_def dropping_def finish_slice_def followed_def resolve_completion_def of_sum_def
  event_guard_def settle_promise_def replace_m_def heap_replace_def heap_get_def slots_get_def ok_or_def
  observe_write_def bump_revision_def heap_put_def vm_collect_def ctx_roots_def bt_retain_def vm_roots_def
  task_roots_def bt_values_def heap_collect_def collect_roots_def mark_slot_def is_settled_def usize_max_def
  vm_poll_def poll_inner_def root_result_def wake_def has_commands_def to_host_def on_ctx_def to_host_inner.simps
  vm_cancel_def ctx_close_def drop_completions_def clear_wake_def ctx_set_waker_def new_context_def

lemma answer_poll: "\<exists>w. vm_poll answer_vm = (Some (Ok (HV_Bool True)), w)"
  by (simp add: run_defs answer_vm_def answer_program_def empty_hosts_def)

section \<open>Steps, turns and polls\<close>

text \<open>
  C2. One step of a validated program is safe: started with frames that fit their functions
  and live handles everywhere, whatever the instruction does - succeed, fail or throw - all
  of it still holds afterwards. The step never panics, but for the overflow of the stack on
  embeds that form a cycle and a sort that meets \<open>NaN\<close>; it blocks only on a promise and
  completes only with a live value.
\<close>

theorem step_safe:
  assumes "run_inv p held (v, fs)" and "step (v, fs) = (r, w, gs)"
  shows "run_inv p held (w, gs) \<and> (\<forall>q. r = Panic q \<longrightarrow> excused q) \<and> (\<forall>st. r = Ok st \<longrightarrow> step_post st (w, gs))"
  using mm.triple_D [OF step_triple assms(1) TrueI assms(2)] by blast

theorem step_safe_witness:
  "run_inv demo_program [] (fst (snd (step (demo_vm, [demo_frame]))), snd (snd (step (demo_vm, [demo_frame])))) \<and>
   \<not> (\<exists>q. fst (step (demo_vm, [demo_frame])) = Panic q \<and> \<not> excused q)"
  using step_safe [OF demo_run_inv, of "fst (step (demo_vm, [demo_frame]))"] by (metis surjective_pairing)

text \<open>
  C1. However its host and its client use a machine - turns of any budget, polls, events and
  wakes in between, user interface events, values handed in, pins, collections, cancellation -
  it stays in its invariant or has been cancelled, and no next use of it panics, whichever it is,
  but for the overflow of the stack on embeds that form a cycle and a sort that meets \<open>NaN\<close>; so
  none can index out of range, read a freed handle or reach an impossible branch. After a use that
  answers or fails the machine is in its invariant again or cancelled; only a failed collection
  is excepted, and C4 says when one succeeds.
\<close>

theorem life_safe:
  assumes "hosts_ok hs" and "handlers_ok hs" and "polls_ok lib" and "life p hs i lib v"
    and "allowed u v" and "use_machine u v = (r, w)"
  shows "machine_ok p v \<and> (\<forall>q. r = Panic q \<longrightarrow> excused q) \<and> (survives u r \<longrightarrow> machine_ok p w)"
  using life_machine_ok [OF assms(1-4)] use_safe [OF _ assms(5,6)] by blast

theorem life_safe_witness:
  "machine_ok demo_program demo_vm \<and>
   \<not> (\<exists>n q. fst (use_machine (Turn n) demo_vm) = Panic q \<and> \<not> excused q) \<and>
   \<not> (\<exists>q. fst (use_machine Poll demo_vm) = Panic q \<and> \<not> excused q) \<and>
   \<not> (\<exists>q. fst (use_machine (Enqueue (Handle 2 0) [Handle 1 0]) demo_vm) = Panic q \<and> \<not> excused q)"
proof -
  have a: "allowed (Turn n) demo_vm" "allowed Poll demo_vm" "allowed (Enqueue (Handle 2 0) [Handle 1 0]) demo_vm" for n
    by (simp_all add: demo_vm_def handles_live_def live_def heap_get_def slots_get_def ok_or_def)
  note use = life_safe [OF demo_env demo_life _ surjective_pairing]
  show ?thesis using use [OF a(1)] use [OF a(2)] use [OF a(3)] by blast
qed

text \<open>
  C11. A poll that answers has finished the machine for good: it is cancelled, and every
  later poll answers that it was cancelled.
\<close>

theorem poll_once:
  assumes "vm_poll v = (Some r, w)" and "no_panic r"
  shows "cancelled_vm w \<and> fst (vm_poll w) = Some (Err ''VM cancelled'')"
proof -
  have c: "cancelled_vm w"
  proof -
    obtain r1 w1 where pi: "poll_inner True v = (Some r1, w1)"
      using assms(1) by (cases "poll_inner True v") (auto simp: vm_poll_def split: option.splits)
    obtain r2 w2 where h: "bind (lift_res r1) to_host w1 = (r2, w2)" by fastforce
    obtain r3 w3 where d: "vm_cancel w2 = (r3, w3)" by fastforce
    have "w = w3 \<and> no_panic r2"
      using assms pi h d cancel_cancels(2) [OF d] by (cases r2; cases r3) (auto simp: vm_poll_def)
    then show ?thesis using cancel_cancels(1) [OF d] by simp
  qed
  obtain r3 w3 where d: "vm_cancel w = (r3, w3)" by fastforce
  have "fst (vm_poll w) = Some (Err ''VM cancelled'')"
    using c d cancel_cancels(2) [OF d]
    by (cases r3) (auto simp: vm_poll_def poll_inner_def cancelled_vm_def bind_def lift_res_def)
  with c show ?thesis by blast
qed

theorem poll_once_witness:
  "\<exists>w. vm_poll answer_vm = (Some (Ok (HV_Bool True)), w) \<and> cancelled_vm w \<and>
     fst (vm_poll w) = Some (Err ''VM cancelled'')"
proof -
  obtain w where w: "vm_poll answer_vm = (Some (Ok (HV_Bool True)), w)" using answer_poll by blast
  from poll_once [OF w] w show ?thesis by simp
qed

text \<open>
  C10. A turn never executes more instructions than its budget, whatever the tasks do, and
  reports no more.
\<close>

lemma keeps_cancel: "instructions (snd (vm_cancel v)) = instructions v"
  by (simp add: vm_cancel_def on_heap_def zoom_def split: prod.split)

theorem turn_budget:
  "instructions (snd (run_turn n v)) \<le> instructions v + n \<and>
   (case fst (run_turn n v) of Ok t \<Rightarrow> turn_instructions t \<le> n | _ \<Rightarrow> True)"
proof -
  obtain r w where d: "drive n None None (clear_wake v) = (r, w)" by fastforce
  have c: "instructions w \<le> instructions v + n" using drive_count [OF d] by (simp add: clear_wake_def)
  obtain r1 w1 where k: "vm_cancel w = (r1, w1)" by fastforce
  have "instructions w1 = instructions w" using keeps_cancel [of w] k by simp
  then show ?thesis
    using d c k by (cases r; cases r1) (auto simp: run_turn_def wake_def split: prod.splits)
qed

text \<open>
  C4. The machine hands the collector every handle it still holds: on a machine in its
  invariant the collection succeeds (until a slot has been reused \<open>2\<^sup>6\<^sup>4 - 1\<close> times), keeps the
  invariant, and afterwards a handle reads as before or is stale, according to whether the
  machine's roots reach it.
\<close>

theorem collect_complete:
  assumes v: "vm_inv p [] v" and gen: "\<forall>s \<in> set (slots (vheap v)). slot_gen s < usize_max"
  shows "\<exists>w. vm_collect v = (Ok (), w) \<and> vm_inv p [] w \<and>
    (\<forall>h. heap_get (vheap w) h =
      (if reach (heap_get (vheap v)) (set (collect_roots (vheap v) (vm_roots v (fst (ctx_roots (ctx v)))))) h
       then heap_get (vheap v) h else Err ''stale heap handle''))"
proof -
  obtain cbs c where cr: "ctx_roots (ctx v) = (cbs, c)" by fastforce
  let ?roots = "vm_roots v cbs"
  have ok: "heap_ok p (vheap v)" and wf: "heap_wf (vheap v)" using v by (simp_all add: vm_inv_def heap_ok_def)
  have live: "\<forall>h \<in> set (collect_roots (vheap v) ?roots). live (vheap v) h"
  proof
    fix h assume h: "h \<in> set (collect_roots (vheap v) ?roots)"
    have o: "handles_live (vheap v) cbs" using ctx_ok_roots [OF _ cr, of "vheap v"] v by (simp add: vm_inv_def)
    have "live (vheap v) h" if "h \<in> set ?roots"
      using that machine_roots_live [OF v o] by (simp add: handles_live_def)
    moreover have "live (vheap v) h" if "heap_reads (vheap v) = Some rs" "d \<in> set (reads_deps rs)" "h \<in> set (dep_roots d)" for rs d
      using that ok by (auto simp: heap_ok_def reads_ok_def handles_live_def)
    ultimately show "live (vheap v) h"
      using h by (cases "heap_reads (vheap v)") (auto simp: collect_roots_def)
  qed
  have ns: "no_stale (vheap v) ?roots" by (rule closed_no_stale [OF heap_ok_closed [OF ok] live])
  obtain hp where hc: "heap_collect ?roots (vheap v) = (Ok (), hp)"
    using heap_collect_total [OF ns gen] by (metis (full_types) old.unit.exhaust prod.collapse)
  let ?w = "v\<lparr>ctx := c, vheap := hp, completion_order := bt_retain (\<lambda>h _. is_settled hp h) (completion_order v)\<rparr>"
  have run: "vm_collect v = (Ok (), ?w)"
    using hc by (simp add: vm_collect_def cr on_heap_def zoom_def bind_def modify_def vm_roots_def)
  show ?thesis
    by (rule exI [of _ ?w]) (use run collect_moved(1) [OF v run] heap_collect_exact(1) [OF wf hc] in \<open>auto simp: cr\<close>)
qed

theorem collect_complete_witness:
  "\<exists>w. vm_collect answer_vm = (Ok (), w) \<and> vm_inv answer_program [] w"
proof -
  have "\<forall>s \<in> set (slots (vheap answer_vm)). slot_gen s < usize_max" by (simp add: answer_vm_def usize_max_def)
  from collect_complete [OF answer_inv this] show ?thesis by blast
qed

section \<open>Cancellation\<close>

lemma finish_resolves: "bt_get (completions (finish cp r c)) (cp_id cp) \<noteq> Some None"
  by (auto simp: finish_def split: option.splits)

lemma finish_stays: "bt_get (completions c) n \<noteq> Some None \<Longrightarrow> bt_get (completions (finish cp r c)) n \<noteq> Some None"
  by (auto simp: finish_def split: option.splits)

lemma drops_stay:
  "bt_get (completions c) n \<noteq> Some None \<Longrightarrow>
   bt_get (completions (foldl (\<lambda>c x. drop_completion (f x) c) c xs)) n \<noteq> Some None"
  by (induction xs arbitrary: c) (auto simp: drop_completion_def finish_stays split: option.splits)

lemma drops_resolve:
  "x \<in> set xs \<Longrightarrow> f x = Some cp \<Longrightarrow>
   bt_get (completions (foldl (\<lambda>c x. drop_completion (f x) c) c xs)) (cp_id cp) \<noteq> Some None"
proof (induction xs arbitrary: c)
  case (Cons y xs)
  show ?case
  proof (cases "x = y")
    case True
    then have "bt_get (completions (drop_completion (f y) c)) (cp_id cp) \<noteq> Some None"
      using Cons.prems(2) finish_resolves [of cp] by (simp add: drop_completion_def)
    then show ?thesis by (simp add: drops_stay)
  qed (use Cons in simp)
qed simp

lemma reach_empty: "\<not> reach get {} h"
proof
  assume "reach get {} h"
  then show False by (induction rule: reach.induct) simp_all
qed

text \<open>
  C6. Cancelling a machine lets go of everything: no handle of its heap is live any more,
  no task, pin, event or command is left, its context is closed, and whoever awaits a
  callback that was running or queued is told instead of being left to wait.
\<close>

theorem cancel_complete:
  assumes v: "vm_inv p [] v" and reads: "heap_reads (vheap v) = None"
    and gen: "\<forall>s \<in> set (slots (vheap v)). slot_gen s < usize_max"
  shows "\<exists>w. vm_cancel v = (Ok (), w) \<and> cancelled_vm w \<and> (\<forall>h. \<not> live (vheap w) h) \<and>
    (\<forall>cp. Some cp \<in> tk_completion ` set (bt_values (tasks v)) \<union> command_completion ` set (queue (ctx v)) \<longrightarrow>
       bt_get (completions (ctx w)) (cp_id cp) \<noteq> Some None)"
proof -
  obtain r w where run: "vm_cancel v = (r, w)" by fastforce
  have ok: "heap_ok p (vheap v)" and wf: "heap_wf (vheap v)" using v by (simp_all add: vm_inv_def heap_ok_def)
  have roots: "collect_roots (vheap v) [] = []" using reads by (simp add: collect_roots_def)
  have ns: "no_stale (vheap v) []" by (simp add: no_stale_def roots reach_empty)
  obtain hp where hc: "heap_collect [] (vheap v) = (Ok (), hp)"
    using heap_collect_total [OF ns gen] by (metis (full_types) old.unit.exhaust prod.collapse)
  let ?closed = "foldl (\<lambda>c cmd. drop_completion (command_completion cmd) c)
       ((ctx v)\<lparr>alive := False, cancelled := map fst (filter snd (jobs (ctx v))) @ cancelled (ctx v),
          jobs := [], callbacks := [], has_waker := False, queue := []\<rparr>) (queue (ctx v))"
  have w: "r = Ok ()" "vheap w = hp"
    "ctx w = foldl (\<lambda>c t. drop_completion (tk_completion t) c) ?closed (bt_values (tasks v))"
    using run hc by (auto simp: vm_cancel_def on_heap_def zoom_def drop_completions_def ctx_close_def)
  have dead: "\<not> live (vheap w) h" for h
    using w(2) heap_collect_exact(1) [OF wf hc, of h] by (simp add: live_def roots reach_empty)
  have told: "bt_get (completions (ctx w)) (cp_id cp) \<noteq> Some None"
    if "Some cp \<in> tk_completion ` set (bt_values (tasks v)) \<union> command_completion ` set (queue (ctx v))" for cp
  proof (cases "Some cp \<in> tk_completion ` set (bt_values (tasks v))")
    case True
    then obtain t where "t \<in> set (bt_values (tasks v))" "tk_completion t = Some cp" by (metis imageE)
    then show ?thesis unfolding w(3) by (rule drops_resolve)
  next
    case False
    then have "Some cp \<in> command_completion ` set (queue (ctx v))" using that by blast
    then obtain cmd where "cmd \<in> set (queue (ctx v))" "command_completion cmd = Some cp" by (metis imageE)
    then have "bt_get (completions ?closed) (cp_id cp) \<noteq> Some None" by (rule drops_resolve)
    then show ?thesis unfolding w(3) by (rule drops_stay)
  qed
  show ?thesis
    by (intro exI [of _ w] conjI allI impI) (use run w(1) cancel_cancels(1) [OF run] dead told in simp_all)
qed

theorem cancel_complete_witness:
  "\<exists>w. vm_cancel answer_vm = (Ok (), w) \<and> cancelled_vm w \<and> \<not> live (vheap w) (Handle 0 0)"
proof -
  have "heap_reads (vheap answer_vm) = None" "\<forall>s \<in> set (slots (vheap answer_vm)). slot_gen s < usize_max"
    by (simp_all add: answer_vm_def usize_max_def)
  from cancel_complete [OF answer_inv this] show ?thesis by blast
qed

section \<open>Exceptions\<close>

text \<open>
  C9. A thrown value unwinds to the nearest frame with a handler: frames without one are
  dropped, the handler is used up, the operand stack is cut back to the depth at which the
  handler was installed with the value on top, and execution goes on at its target; with no
  handler anywhere the task completes with the value as thrown.
\<close>

theorem raise_unwinds:
  assumes "\<forall>f \<in> set fs. handlers f = []" and "handlers g = h # hs"
  shows "raise value (v, fs @ g # gs) =
      (Ok St_Continue, v, g\<lparr>handlers := hs, ip := target h,
         stack := value # drop (length (stack g) - stack_depth h) (stack g)\<rparr> # gs) \<and>
    raise value (v, fs) = (Ok (St_Complete (Out_Thrown value)), v, [])"
proof -
  have "raise_frames value (fs @ g # gs) = (St_Continue, g\<lparr>handlers := hs, ip := target h,
         stack := value # drop (length (stack g) - stack_depth h) (stack g)\<rparr> # gs) \<and>
    raise_frames value fs = (St_Complete (Out_Thrown value), [])"
    using assms(1) by (induction fs) (simp_all add: assms(2) stack_truncate_def)
  then show ?thesis by (simp add: raise_def)
qed

theorem raise_unwinds_witness:
  "raise (Handle 3 0) (demo_vm, [demo_frame] @ demo_frame\<lparr>handlers := [\<lparr>target = 3, stack_depth = 0\<rparr>], stack := [Handle 0 0]\<rparr> # []) =
     (Ok St_Continue, demo_vm, [demo_frame\<lparr>ip := 3, stack := [Handle 3 0]\<rparr>])"
proof -
  let ?g = "demo_frame\<lparr>handlers := [\<lparr>target = 3, stack_depth = 0\<rparr>], stack := [Handle 0 0]\<rparr>"
  have a: "\<forall>f \<in> set [demo_frame]. handlers f = []" "handlers ?g = \<lparr>target = 3, stack_depth = 0\<rparr> # []"
    by (simp_all add: demo_frame_def)
  show ?thesis using conjunct1 [OF raise_unwinds [OF a, of "Handle 3 0" demo_vm "[]"]] by (simp add: demo_frame_def)
qed

end
