(* ===== verification/JoinProps.thy ===== *)
theory JoinProps
  imports VmProps
begin

text \<open>
  What the joins of promises deliver: \<open>all\<close> gives the values of its inputs in their order,
  \<open>race\<close> (and the failure of \<open>all\<close>) gives the input that settled first, however the scan is
  cut into slices and whatever settles between two slices, ahead of the cursor or behind it.
\<close>

section \<open>Joins and the order of settling\<close>

definition new_join :: "promise_join \<Rightarrow> handle list \<Rightarrow> nat \<Rightarrow> join_state" where
  "new_join k hs n = \<lparr>jn_kind = k, jn_inputs = hs, jn_values = replicate (length hs) None,
     jn_remaining = length hs, jn_cursor = 0, jn_created = n, jn_scan = n, jn_checked = None, jn_first = None\<rparr>"

lemma vm_join_new:
  assumes "vm_join k list v = (Ok h, w)"
  obtains hs where "heap_get (vheap v) list = Ok (V_List hs)"
    and "\<exists>t. bt_get (tasks w) (next_task v) = Some t \<and> tk_promise t = h \<and>
      tk_work t = W_Join (new_join k hs (completion_epoch v))"
  using assms
  by (auto simp: vm_join_def on_heap_def zoom_def get_m_def bind_def gets_def vm_spawn_def monad_defs new_join_def Let_def
      split: res.splits val.splits prod.splits)

text \<open>
  Settled before the join was made counts as settled at once; ties go to the first input. An
  input contends when its outcome is one the join delivers at once: any in a race, a failure
  in a join of all.
\<close>

definition effective_order :: "(handle, nat) btree \<Rightarrow> nat \<Rightarrow> handle list \<Rightarrow> nat \<Rightarrow> nat" where
  "effective_order orders e hs i = (let n = the (bt_get orders (hs ! i)) in if n \<le> e then 0 else n)"

definition contender :: "heap \<Rightarrow> promise_join \<Rightarrow> handle list \<Rightarrow> nat \<Rightarrow> outcome \<Rightarrow> bool" where
  "contender hp k hs i out \<longleftrightarrow> i < length hs \<and> settled_to hp (hs ! i) out \<and> (k = PJ_Race \<or> is_thrown out)"

abbreviation rank :: "vm \<Rightarrow> nat \<Rightarrow> handle list \<Rightarrow> nat \<Rightarrow> nat \<times> nat" where
  "rank v e hs i \<equiv> (effective_order (completion_order v) e hs i, i)"

definition first_settled :: "vm \<Rightarrow> promise_join \<Rightarrow> nat \<Rightarrow> handle list \<Rightarrow> outcome \<Rightarrow> bool" where
  "first_settled v k e hs out \<longleftrightarrow>
     (\<exists>i. contender (vheap v) k hs i out \<and>
       (\<forall>m x. contender (vheap v) k hs m x \<longrightarrow> rank v e hs i \<le> rank v e hs m))"

definition all_settled :: "vm \<Rightarrow> handle list \<Rightarrow> vm \<Rightarrow> outcome \<Rightarrow> bool" where
  "all_settled v hs w out \<longleftrightarrow>
     (\<exists>vs h. out = Out_Value h \<and> heap_get (vheap w) h = Ok (V_List vs) \<and>
       list_all2 (\<lambda>p x. settled_to (vheap v) p (Out_Value x)) hs vs)"

lemma contender_unique: "contender hp k hs i x \<Longrightarrow> contender hp k hs i y \<Longrightarrow> x = y"
  by (auto simp: contender_def settled_to_def)

section \<open>A join while promises settle\<close>

text \<open>
  What a join may rely on when it is made: its inputs are live, and a settled one carries the
  epoch it settled at. Between two slices a pending promise may settle, and everything else
  the machine does leaves the promises of the inputs and their orders alone.
\<close>

definition stamped :: "handle list \<Rightarrow> vm \<Rightarrow> bool" where
  "stamped hs v \<longleftrightarrow>
     handles_live (vheap v) hs \<and>
     (\<forall>h \<in> set hs. \<forall>out. heap_get (vheap v) h = Ok (V_Promise (Some out)) \<longrightarrow>
       (\<exists>n. bt_get (completion_order v) h = Some n \<and> n \<le> completion_epoch v))"

definition elsewhere :: "handle list \<Rightarrow> vm \<Rightarrow> vm \<Rightarrow> bool" where
  "elsewhere hs v w \<longleftrightarrow>
     completion_epoch w = completion_epoch v \<and> handles_live (vheap w) hs \<and>
     (\<forall>h \<in> set hs. \<forall>x. heap_get (vheap w) h = Ok (V_Promise x) \<longleftrightarrow> heap_get (vheap v) h = Ok (V_Promise x)) \<and>
     (\<forall>h \<in> set hs. \<forall>x. heap_get (vheap v) h = Ok (V_Promise (Some x)) \<longrightarrow>
       bt_get (completion_order w) h = bt_get (completion_order v) h)"

inductive joining :: "promise_join \<Rightarrow> handle list \<Rightarrow> nat \<Rightarrow> vm \<Rightarrow> join_state \<Rightarrow> bool" for k hs e where
  made: "stamped hs v \<Longrightarrow> completion_epoch v = e \<Longrightarrow> joining k hs e v (new_join k hs e)"
| slice: "joining k hs e v j \<Longrightarrow> poll_join j left v = (Ok (None, j', left'), w) \<Longrightarrow> joining k hs e w j'"
| settles: "joining k hs e v j \<Longrightarrow> pending (vheap v) h \<Longrightarrow> settle_promise h out v = (Ok (), w) \<Longrightarrow> joining k hs e w j"
| other: "joining k hs e v j \<Longrightarrow> elsewhere hs v w \<Longrightarrow> joining k hs e w j"

lemma settle_promise_effect:
  assumes "pending (vheap v) p" and "settle_promise p out v = (Ok (), w)"
  shows "heap_get (vheap w) h = (if h = p then Ok (V_Promise (Some out)) else heap_get (vheap v) h)"
    and "completion_epoch w = Suc (completion_epoch v)"
    and "bt_get (completion_order w) h = (if h = p then Some (Suc (completion_epoch v)) else bt_get (completion_order v) h)"
proof -
  obtain r1 hp2 where rep: "heap_replace p (V_Promise (Some out)) (vheap v) = (r1, hp2)" by fastforce
  from heap_replace_cases [OF rep] assms(1) obtain hp1 where
    c: "same_values hp1 (vheap v)" "r1 = Ok ()" "hp2 = heap_put p (V_Promise (Some out)) hp1"
    by (auto simp: pending_def)
  have g: "heap_get hp1 p = Ok (V_Promise None)" using assms(1) same_values_get [OF c(1)] by (simp add: pending_def)
  have w: "w = v\<lparr>vheap := hp2, completion_epoch := Suc (completion_epoch v),
      completion_order := bt_insert p (Suc (completion_epoch v)) (completion_order v)\<rparr>"
    using assms(2) rep c(2) by (simp add: on_heap_def settle_promise_def replace_m_def monad_defs)
  show "heap_get (vheap w) h = (if h = p then Ok (V_Promise (Some out)) else heap_get (vheap v) h)"
    using heap_put_get [OF g] same_values_get [OF c(1)] by (simp add: w c(3))
  show "completion_epoch w = Suc (completion_epoch v)"
    "bt_get (completion_order w) h = (if h = p then Some (Suc (completion_epoch v)) else bt_get (completion_order v) h)"
    by (simp_all add: w)
qed

text \<open>A collection while the join is a task of the machine is such an event elsewhere.\<close>

lemma bt_get_retain_key: "f k \<Longrightarrow> bt_get (bt_retain (\<lambda>k _. f k) m) k = bt_get m k"
  by (induction m) (auto simp: bt_get_def bt_retain_def)

lemma collect_elsewhere:
  assumes v: "vm_inv p [] v" and t: "t \<in> set (bt_values (tasks v))" "tk_work t = W_Join j"
    and run: "vm_collect v = (Ok (), w)"
  shows "elsewhere (jn_inputs j) v w"
proof -
  obtain cbs c where cr: "ctx_roots (ctx v) = (cbs, c)" by fastforce
  let ?roots = "vm_roots v cbs"
  obtain hp where hc: "heap_collect ?roots (vheap v) = (Ok (), hp)"
    and w: "w = v\<lparr>ctx := c, vheap := hp, completion_order := bt_retain (\<lambda>h _. is_settled hp h) (completion_order v)\<rparr>"
    using run by (auto simp: vm_collect_def cr on_heap_def zoom_def bind_def modify_def vm_roots_def split: prod.splits res.splits)
  have wf: "heap_wf (vheap v)" using v by (simp add: vm_inv_def heap_ok_def)
  have in_roots: "h \<in> set (collect_roots (vheap v) ?roots)" if "h \<in> set (jn_inputs j)" for h
    using that t by (force simp: collect_roots_def vm_roots_def task_roots_def work_roots_def split: option.split)
  have same: "heap_get hp h = heap_get (vheap v) h" if "h \<in> set (jn_inputs j)" for h
    using heap_collect_exact(1) [OF wf hc, of h] reach_root [OF in_roots [OF that]] by simp
  have "task_ok p (vheap v) t" using v t(1) by (simp add: vm_inv_def tasks_ok_def)
  then have "handles_live (vheap v) (jn_inputs j)" using t(2) by (simp add: task_ok_def work_ok_def join_ok_def)
  then show ?thesis
    using same by (auto simp: elsewhere_def w handles_live_def live_def is_settled_def intro!: bt_get_retain_key)
qed


section \<open>What a scan knows\<close>

text \<open>
  Every input behind the cursor that had settled when the scan began is beaten by the
  candidate; an input that settled behind the cursor since has a later order.
\<close>

definition beaten :: "join_state \<Rightarrow> nat \<times> nat \<Rightarrow> bool" where
  "beaten j r \<longleftrightarrow> (\<exists>n i y. jn_first j = Some (n, i, y) \<and> (n, i) \<le> r)"

definition candidate_ok :: "vm \<Rightarrow> promise_join \<Rightarrow> nat \<Rightarrow> handle list \<Rightarrow> join_state \<Rightarrow> bool" where
  "candidate_ok v k e hs j \<longleftrightarrow> jn_kind j = k \<and> jn_created j = e \<and> jn_inputs j = hs \<and>
     (\<forall>n i y. jn_first j = Some (n, i, y) \<longrightarrow> contender (vheap v) k hs i y \<and> (n, i) = rank v e hs i)"

definition scanned :: "vm \<Rightarrow> promise_join \<Rightarrow> nat \<Rightarrow> handle list \<Rightarrow> join_state \<Rightarrow> bool" where
  "scanned v k e hs j \<longleftrightarrow> join_ok (vheap v) j \<and> candidate_ok v k e hs j \<and>
     (\<forall>m < jn_cursor j. \<forall>x. contender (vheap v) k hs m x \<longrightarrow>
        effective_order (completion_order v) e hs m \<le> jn_scan j \<longrightarrow> beaten j (rank v e hs m))"

lemma visit_cases:
  assumes "join_visit hp orders j = Ok j'"
  obtains (waits) "heap_get hp (jn_inputs j ! jn_cursor j) = Ok (V_Promise None)"
      "j' = j\<lparr>jn_cursor := Suc (jn_cursor j)\<rparr>"
    | (skips) out where "settled_to hp (jn_inputs j ! jn_cursor j) out" "\<not> (jn_kind j = PJ_Race \<or> is_thrown out)"
      "j' = (join_value out j)\<lparr>jn_cursor := Suc (jn_cursor j)\<rparr>"
    | (contends) out n where "settled_to hp (jn_inputs j ! jn_cursor j) out" "jn_kind j = PJ_Race \<or> is_thrown out"
      "bt_get orders (jn_inputs j ! jn_cursor j) = Some n"
      "j' = (join_candidate n out (join_value out j))\<lparr>jn_cursor := Suc (jn_cursor j)\<rparr>"
proof -
  obtain v j1 where v: "heap_get hp (jn_inputs j ! jn_cursor j) = Ok v" and j': "j' = j1\<lparr>jn_cursor := Suc (jn_cursor j1)\<rparr>"
    and arm: "(case v of
             V_Promise (Some (Inl e)) \<Rightarrow> Err e
           | V_Promise (Some (Inr out)) \<Rightarrow>
               if jn_kind j = PJ_Race \<or> is_thrown out
               then res_bind (ok_or ''missing promise settlement order'' (bt_get orders (jn_inputs j ! jn_cursor j)))
                      (\<lambda>o'. Ok (join_candidate o' out (join_value out j)))
               else Ok (join_value out j)
           | V_Promise None \<Rightarrow> Ok j
           | _ \<Rightarrow> Err ''promise combinator requires promises'') = Ok j1"
    using assms unfolding join_visit_def Let_def res_bind_Ok_iff by blast
  show ?thesis
  proof (cases "\<exists>out. v = V_Promise (Some (Inr out))")
    case True
    then obtain out where out: "v = V_Promise (Some (Inr out))" by blast
    show ?thesis
    proof (cases "jn_kind j = PJ_Race \<or> is_thrown out")
      case True
      then obtain n where "bt_get orders (jn_inputs j ! jn_cursor j) = Some n" "j1 = join_candidate n out (join_value out j)"
        using arm out by (auto simp: res_bind_Ok_iff ok_or_def split: option.splits)
      then show ?thesis using contends [of out n] True v out j' by (simp add: settled_to_def)
    next
      case False
      then have "j1 = join_value out j" using arm out by simp
      then show ?thesis using skips [of out] False v out j' by (simp add: settled_to_def)
    qed
  next
    case False
    then have "v = V_Promise None \<and> j1 = j" using arm by (auto split: val.splits option.splits sum.splits)
    then show ?thesis using waits v j' by simp
  qed
qed

lemma join_candidate_same' [simp]:
  "jn_kind (join_candidate n out j) = jn_kind j" "jn_created (join_candidate n out j) = jn_created j"
  "jn_scan (join_candidate n out j) = jn_scan j" "jn_scan (join_value out j) = jn_scan j"
  by (simp_all add: join_candidate_def join_value_def Let_def split: outcome.split)

lemma join_visit_same:
  assumes "join_visit hp orders j = Ok j'"
  shows "jn_cursor j' = Suc (jn_cursor j)" and "jn_kind j' = jn_kind j" and "jn_inputs j' = jn_inputs j"
    and "jn_created j' = jn_created j" and "jn_scan j' = jn_scan j"
  using assms by (cases rule: visit_cases; simp)+

lemma join_candidate_first:
  "jn_first (join_candidate n out j) =
     (if beaten j (if n \<le> jn_created j then 0 else n, jn_cursor j) then jn_first j
      else Some (if n \<le> jn_created j then 0 else n, jn_cursor j, out))"
  by (auto simp: join_candidate_def beaten_def Let_def not_less [symmetric] split: option.splits)

lemma scanned_visit:
  assumes s: "scanned v k e hs j" and c: "jn_cursor j < length hs"
    and run: "join_visit (vheap v) (completion_order v) j = Ok j'"
  shows "scanned v k e hs j'"
proof -
  let ?c = "jn_cursor j"
  note same = join_visit_same [OF run]
  have j: "join_ok (vheap v) j" "jn_kind j = k" "jn_created j = e" "jn_inputs j = hs"
    and first: "\<And>n i y. jn_first j = Some (n, i, y) \<Longrightarrow> contender (vheap v) k hs i y \<and> (n, i) = rank v e hs i"
    and old: "\<And>m x. m < ?c \<Longrightarrow> contender (vheap v) k hs m x \<Longrightarrow>
        effective_order (completion_order v) e hs m \<le> jn_scan j \<Longrightarrow> beaten j (rank v e hs m)"
    using s by (auto simp: scanned_def candidate_ok_def)
  have ok: "join_ok (vheap v) j'" using join_visit_ok(2) [OF j(1) _ run] c j(4) by simp
  show ?thesis
  proof (cases "\<exists>out. contender (vheap v) k hs ?c out")
    case False
    then have "jn_first j' = jn_first j"
      using c j by (cases rule: visit_cases [OF run]) (auto simp: contender_def)
    moreover have "\<not> contender (vheap v) k hs ?c x" for x using False by blast
    ultimately show ?thesis
      using ok first old same j by (auto simp: scanned_def candidate_ok_def beaten_def less_Suc_eq)
  next
    case True
    then obtain out where out: "contender (vheap v) k hs ?c out" by blast
    then obtain n where n: "bt_get (completion_order v) (hs ! ?c) = Some n"
      and j': "j' = (join_candidate n out (join_value out j))\<lparr>jn_cursor := Suc ?c\<rparr>"
      using j by (cases rule: visit_cases [OF run]) (auto simp: contender_def settled_to_def)
    have r: "(if n \<le> e then 0 else n, ?c) = rank v e hs ?c" using n by (simp add: effective_order_def)
    have b: "beaten (join_value out j) = beaten j" by (simp add: beaten_def fun_eq_iff)
    have f: "jn_first j' = (if beaten j (rank v e hs ?c) then jn_first j
        else Some (effective_order (completion_order v) e hs ?c, ?c, out))"
      using r by (simp add: j' join_candidate_first j(3) b del: split_paired_Ex)
    have mono: "beaten j' r" if b: "beaten j r" for r
    proof (cases "beaten j (rank v e hs ?c)")
      case False
      from b obtain n i y where first: "jn_first j = Some (n, i, y)" "(n, i) \<le> r" unfolding beaten_def by blast
      with False have "\<not> (n, i) \<le> rank v e hs ?c" unfolding beaten_def by blast
      then have "rank v e hs ?c \<le> r" using first(2) by (meson le_cases order_trans)
      moreover have "jn_first j' = Some (effective_order (completion_order v) e hs ?c, ?c, out)"
        using f False by argo
      ultimately show ?thesis unfolding beaten_def by blast
    qed (use f b in \<open>simp add: beaten_def\<close>)
    have "beaten j' (rank v e hs ?c)" using f mono by (cases "beaten j (rank v e hs ?c)") (auto simp: beaten_def)
    then have "beaten j' (rank v e hs m)"
      if "m < Suc ?c" "contender (vheap v) k hs m x" "effective_order (completion_order v) e hs m \<le> jn_scan j" for m x
      using that mono old [of m x] by (cases "m = ?c") auto
    moreover have "contender (vheap v) k hs i y \<and> (n', i) = rank v e hs i" if "jn_first j' = Some (n', i, y)" for n' i y
      using that f first out by (cases "beaten j (rank v e hs ?c)") auto
    ultimately show ?thesis
      using ok same j by (auto simp: scanned_def candidate_ok_def)
  qed
qed

lemma scanned_scan:
  "scanned v k e hs j \<Longrightarrow> join_scan (vheap v) (completion_order v) n j left = Ok (j', l) \<Longrightarrow>
   scanned v k e hs j' \<and> jn_scan j' = jn_scan j"
proof (induction n arbitrary: j left)
  case (Suc n)
  have len: "jn_cursor j \<le> length hs" "jn_inputs j = hs"
    using Suc.prems(1) by (auto simp: scanned_def candidate_ok_def join_ok_def)
  show ?case
  proof (cases "jn_cursor j = length hs")
    case False
    then obtain j1 where v: "join_visit (vheap v) (completion_order v) j = Ok j1"
      and s: "join_scan (vheap v) (completion_order v) n j1 (left - 1) = Ok (j', l)"
      using Suc.prems(2) len by (auto simp: res_bind_Ok_iff)
    have "scanned v k e hs j1" by (rule scanned_visit [OF Suc.prems(1) _ v]) (use False len in simp)
    from Suc.IH [OF this s] join_visit_same(5) [OF v] show ?thesis by simp
  qed (use Suc.prems len in auto)
qed simp

section \<open>Slices, settlements and the rest\<close>

definition join_state_ok :: "vm \<Rightarrow> promise_join \<Rightarrow> nat \<Rightarrow> handle list \<Rightarrow> join_state \<Rightarrow> bool" where
  "join_state_ok v k e hs j \<longleftrightarrow> stamped hs v \<and> scanned v k e hs j \<and> e \<le> completion_epoch v \<and>
     (0 < jn_cursor j \<longrightarrow> e \<le> jn_scan j \<and> jn_scan j \<le> completion_epoch v)"

lemma contender_stays:
  assumes "\<And>h x. h \<in> set hs \<Longrightarrow> heap_get (vheap v) h = Ok (V_Promise (Some x)) \<Longrightarrow>
      heap_get (vheap w) h = Ok (V_Promise (Some x)) \<and> bt_get (completion_order w) h = bt_get (completion_order v) h"
    and "contender (vheap v) k hs i x"
  shows "contender (vheap w) k hs i x" and "rank w e hs i = rank v e hs i"
  using assms by (auto simp: contender_def settled_to_def effective_order_def)

text \<open>What settles between two slices gets an order beyond the epoch of the scan.\<close>

lemma join_state_moves:
  assumes j: "join_state_ok v k e hs j"
    and live: "handles_live (vheap w) hs"
    and keep: "\<And>h x. h \<in> set hs \<Longrightarrow> heap_get (vheap v) h = Ok (V_Promise (Some x)) \<Longrightarrow>
      heap_get (vheap w) h = Ok (V_Promise (Some x)) \<and> bt_get (completion_order w) h = bt_get (completion_order v) h"
    and fresh: "\<And>h x. h \<in> set hs \<Longrightarrow> heap_get (vheap w) h = Ok (V_Promise (Some x)) \<Longrightarrow>
      heap_get (vheap v) h \<noteq> Ok (V_Promise (Some x)) \<Longrightarrow>
      \<exists>n. bt_get (completion_order w) h = Some n \<and> completion_epoch v < n \<and> n \<le> completion_epoch w"
    and epoch: "completion_epoch v \<le> completion_epoch w"
  shows "join_state_ok w k e hs j"
proof -
  have stay: "contender (vheap w) k hs i x" "rank w e hs i = rank v e hs i" if "contender (vheap v) k hs i x" for i x
    using contender_stays [of hs v w, OF _ that] keep by blast+
  have s: "scanned v k e hs j" "stamped hs v" "e \<le> completion_epoch v"
    and sc: "0 < jn_cursor j \<Longrightarrow> e \<le> jn_scan j \<and> jn_scan j \<le> completion_epoch v" and ins: "jn_inputs j = hs"
    using j by (auto simp: join_state_ok_def scanned_def candidate_ok_def)
  have settled: "settled_to (vheap w) (hs ! i) out" if "settled_to (vheap v) (hs ! i) out" "i < length hs" for i out
    using that keep [of "hs ! i" "Inr out"] by (simp add: settled_to_def)
  have "join_ok (vheap w) j"
    using s(1) live settled unfolding scanned_def join_ok_def ins by blast
  moreover have "candidate_ok w k e hs j"
  proof -
    have c: "candidate_ok v k e hs j" using s(1) by (simp add: scanned_def)
    have "contender (vheap w) k hs i y \<and> (n, i) = rank w e hs i" if "jn_first j = Some (n, i, y)" for n i y
    proof -
      have *: "contender (vheap v) k hs i y" "(n, i) = rank v e hs i" using c that unfolding candidate_ok_def by blast+
      show ?thesis using stay [OF *(1)] *(2) by simp
    qed
    then show ?thesis using c unfolding candidate_ok_def by blast
  qed
  moreover have "beaten j (rank w e hs m)"
    if m: "m < jn_cursor j" "contender (vheap w) k hs m x" "effective_order (completion_order w) e hs m \<le> jn_scan j" for m x
  proof (cases "contender (vheap v) k hs m x")
    case True
    have r: "rank w e hs m = rank v e hs m" by (rule stay(2) [OF True])
    then have "effective_order (completion_order v) e hs m \<le> jn_scan j" using m(3) by simp
    then show ?thesis using s(1) m(1) True unfolding scanned_def r by blast
  next
    case False
    then have h: "hs ! m \<in> set hs" "heap_get (vheap w) (hs ! m) = Ok (V_Promise (Some (Inr x)))"
      "heap_get (vheap v) (hs ! m) \<noteq> Ok (V_Promise (Some (Inr x)))"
      using m(2) by (auto simp: contender_def settled_to_def)
    from fresh [OF this] sc m(1,3) show ?thesis by (fastforce simp: effective_order_def split: if_splits)
  qed
  moreover have "stamped hs w"
    unfolding stamped_def
  proof (intro conjI ballI allI impI)
    fix h out assume h: "h \<in> set hs" "heap_get (vheap w) h = Ok (V_Promise (Some out))"
    show "\<exists>n. bt_get (completion_order w) h = Some n \<and> n \<le> completion_epoch w"
    proof (cases "heap_get (vheap v) h = Ok (V_Promise (Some out))")
      case True
      then obtain n where "bt_get (completion_order v) h = Some n" "n \<le> completion_epoch v"
        using h(1) s(2) by (auto simp: stamped_def)
      then show ?thesis using keep [OF h(1) True] epoch by auto
    next
      case False
      then show ?thesis using fresh [OF h] by blast
    qed
  qed (rule live)
  ultimately show ?thesis
    using s(3) sc epoch by (auto simp: join_state_ok_def scanned_def)
qed


lemma join_state_settles:
  assumes j: "join_state_ok v k e hs j" and p: "pending (vheap v) h" and run: "settle_promise h out v = (Ok (), w)"
  shows "join_state_ok w k e hs j"
proof (rule join_state_moves [OF j])
  note eff = settle_promise_effect [OF p run]
  show "handles_live (vheap w) hs"
    using j by (auto simp: join_state_ok_def stamped_def handles_live_def live_def eff(1))
  show "completion_epoch v \<le> completion_epoch w" by (simp add: eff(2))
  show "heap_get (vheap w) a = Ok (V_Promise (Some x)) \<and> bt_get (completion_order w) a = bt_get (completion_order v) a"
    if "heap_get (vheap v) a = Ok (V_Promise (Some x))" for a x
    using that p by (auto simp: eff pending_def)
  show "\<exists>n. bt_get (completion_order w) a = Some n \<and> completion_epoch v < n \<and> n \<le> completion_epoch w"
    if "heap_get (vheap w) a = Ok (V_Promise (Some x))" "heap_get (vheap v) a \<noteq> Ok (V_Promise (Some x))" for a x
    using that by (auto simp: eff split: if_splits)
qed

lemma join_state_elsewhere:
  assumes j: "join_state_ok v k e hs j" and w: "elsewhere hs v w"
  shows "join_state_ok w k e hs j"
  by (rule join_state_moves [OF j]) (use w in \<open>auto simp: elsewhere_def\<close>)

lemma join_state_made: "stamped hs v \<Longrightarrow> join_state_ok v k (completion_epoch v) hs (new_join k hs (completion_epoch v))"
  by (auto simp: join_state_ok_def scanned_def candidate_ok_def new_join_def join_ok_def stamped_def)

text \<open>A slice: the scan goes on, or starts again from the first input at a later epoch.\<close>

lemma poll_join_scan:
  assumes j: "join_state_ok v k e hs j" and run: "poll_join j left v = (Ok (res, j', left'), w)"
  obtains j1 r where "scanned v k e hs j1" and "join_finish j1 = (r, j')"
    and "e \<le> jn_scan j1" and "jn_scan j1 \<le> completion_epoch v"
    and "case r of Jr_Pending \<Rightarrow> res = None \<and> w = v
      | Jr_Outcome out \<Rightarrow> res = Some out \<and> w = v
      | Jr_All vs \<Rightarrow> \<exists>h hp. res = Some (Out_Value h) \<and> heap_alloc (V_List vs) (vheap v) = (h, hp) \<and> w = v\<lparr>vheap := hp\<rparr>"
proof -
  let ?j = "if jn_cursor j = 0 then j\<lparr>jn_scan := completion_epoch v\<rparr> else j"
  have s: "scanned v k e hs ?j"
    using j by (auto simp: join_state_ok_def scanned_def candidate_ok_def join_ok_def)
  have sc: "e \<le> jn_scan ?j" "jn_scan ?j \<le> completion_epoch v"
    using j by (auto simp: join_state_ok_def)
  obtain j1 l where scan: "join_scan (vheap v) (completion_order v) (min 256 left) ?j left = Ok (j1, l)"
    using run by (auto simp: poll_join_def Let_def split: res.splits)
  obtain r j2 where f: "join_finish j1 = (r, j2)" by fastforce
  note sc1 = scanned_scan [OF s scan]
  have j2: "j2 = j'" and r: "case r of Jr_Pending \<Rightarrow> res = None \<and> w = v
      | Jr_Outcome out \<Rightarrow> res = Some out \<and> w = v
      | Jr_All vs \<Rightarrow> \<exists>h hp. res = Some (Out_Value h) \<and> heap_alloc (V_List vs) (vheap v) = (h, hp) \<and> w = v\<lparr>vheap := hp\<rparr>"
    using run scan f
    by (auto simp: poll_join_def Let_def monad_defs vm_alloc_def alloc_m_def on_heap_def split: join_result.splits prod.splits)
  show thesis by (rule that [of j1 r]) (use sc1 sc f j2 r in auto)
qed

lemma join_state_slice:
  assumes j: "join_state_ok v k e hs j" and run: "poll_join j left v = (Ok (None, j', left'), w)"
  shows "join_state_ok w k e hs j'"
proof -
  from poll_join_scan [OF assms] obtain j1 where s: "scanned v k e hs j1" "join_finish j1 = (Jr_Pending, j')"
    "e \<le> jn_scan j1" "jn_scan j1 \<le> completion_epoch v" "w = v"
    by (force split: join_result.splits)
  have "scanned v k e hs j' \<and> (0 < jn_cursor j' \<longrightarrow> jn_scan j' = jn_scan j1)"
    using s(1,2)
    by (auto simp: join_finish_def scanned_def candidate_ok_def join_ok_def split: option.splits if_splits)
  then show ?thesis using j s(3-5) by (simp add: join_state_ok_def)
qed

lemma joining_ok: "joining k hs e v j \<Longrightarrow> join_state_ok v k e hs j"
  by (induction rule: joining.induct)
     (auto intro: join_state_made join_state_slice join_state_settles join_state_elsewhere)

lemma finish_values:
  assumes "join_ok hp j" and "join_finish j = (Jr_All hs, j')"
  shows "jn_kind j = PJ_All \<and> list_all2 (\<lambda>p h. settled_to hp p (Out_Value h)) (jn_inputs j) hs"
proof -
  have r: "jn_remaining j = 0" "jn_kind j = PJ_All" and hs: "hs = List.map_filter id (jn_values j)"
    using assms(2) by (auto simp: join_finish_def split: option.splits if_splits)
  have "filter (\<lambda>x. x = None) (jn_values j) = []" using assms(1) r(1) by (simp add: join_ok_def)
  then have some: "\<forall>x \<in> set (jn_values j). x \<noteq> None" by (auto simp: filter_empty_conv)
  then have "hs = map the (jn_values j)"
    unfolding hs List.map_filter_def by (auto simp: filter_id_conv)
  then have "length hs = length (jn_inputs j) \<and> (\<forall>i < length (jn_inputs j). settled_to hp (jn_inputs j ! i) (Out_Value (hs ! i)))"
    using assms(1) some unfolding join_ok_def by (metis length_map nth_map nth_mem option.collapse)
  then show ?thesis using r(2) by (simp add: list_all2_conv_all_nth)
qed

lemma finish_first:
  assumes s: "scanned v k e hs j" and f: "join_finish j = (Jr_Outcome out, j')" and sc: "e \<le> jn_scan j"
  shows "first_settled v k e hs out"
proof -
  have j: "jn_cursor j = length hs" and c: "candidate_ok v k e hs j"
    using s f by (auto simp: join_finish_def scanned_def candidate_ok_def join_ok_def split: option.splits if_splits)
  obtain n i where first: "jn_first j = Some (n, i, out)" and n: "n \<le> jn_scan j"
    using f by (auto simp: join_finish_def split: option.splits if_splits)
  have i: "contender (vheap v) k hs i out" "(n, i) = rank v e hs i" using c first unfolding candidate_ok_def by blast+
  have "rank v e hs i \<le> rank v e hs m" if m: "contender (vheap v) k hs m x" for m x
  proof (cases "effective_order (completion_order v) e hs m \<le> jn_scan j")
    case True
    then have "beaten j (rank v e hs m)" using s m unfolding scanned_def j by (metis contender_def)
    then show ?thesis using first i(2) by (auto simp: beaten_def)
  next
    case False
    then show ?thesis using n i(2) by simp
  qed
  then show ?thesis using i(1) unfolding first_settled_def by blast
qed

section \<open>Properties\<close>

text \<open>
  C8. A join of all that finishes with values has one for every input, in the order of the
  inputs, each the value its promise settled to - in whatever order they settled.
\<close>

theorem join_all_order:
  assumes "join_ok hp j" and "join_finish j = (Jr_All hs, j')"
  shows "jn_kind j = PJ_All \<and> list_all2 (\<lambda>p h. settled_to hp p (Out_Value h)) (jn_inputs j) hs"
  by (rule finish_values [OF assms])

text \<open>A heap with two settled promises, and a join over them.\<close>

definition settled_heap :: heap where
  "settled_heap = \<lparr>slots = [
     \<lparr>slot_value = Some (V_Bool True), slot_gen = 0, slot_marked = False, slot_newtype = None, slot_created = 1, slot_revision = 0\<rparr>,
     \<lparr>slot_value = Some (V_Promise (Some (Inr (Out_Value (Handle 0 0))))), slot_gen = 0, slot_marked = False, slot_newtype = None, slot_created = 2, slot_revision = 0\<rparr>],
     free = [], collections = 0, allocations = 2, heap_reads = None\<rparr>"

theorem join_all_order_witness:
  "join_finish ((new_join PJ_All [Handle 1 0, Handle 1 0] 5)\<lparr>jn_values := [Some (Handle 0 0), Some (Handle 0 0)],
     jn_remaining := 0, jn_cursor := 2\<rparr>) =
     (Jr_All [Handle 0 0, Handle 0 0], (new_join PJ_All [Handle 1 0, Handle 1 0] 5)\<lparr>jn_values := [Some (Handle 0 0), Some (Handle 0 0)],
     jn_remaining := 0, jn_cursor := 2\<rparr>) \<and>
   list_all2 (\<lambda>p h. settled_to settled_heap p (Out_Value h)) [Handle 1 0, Handle 1 0] [Handle 0 0, Handle 0 0]"
proof -
  let ?j = "(new_join PJ_All [Handle 1 0, Handle 1 0] 5)\<lparr>jn_values := [Some (Handle 0 0), Some (Handle 0 0)],
     jn_remaining := 0, jn_cursor := 2\<rparr>"
  have ok: "join_ok settled_heap ?j"
    by (simp add: join_ok_def settled_heap_def new_join_def handles_live_def live_def heap_get_def slots_get_def
        ok_or_def settled_to_def less_Suc_eq)
  have fin: "join_finish ?j = (Jr_All [Handle 0 0, Handle 0 0], ?j)"
    by (simp add: join_finish_def new_join_def List.map_filter_def)
  from join_all_order [OF ok fin] fin show ?thesis by (simp add: new_join_def)
qed

text \<open>
  C7. However a join is cut into slices and whatever settles between them, when it delivers an
  outcome it is that of the input that settled first among all that have settled by then: the
  least order of settling, with the inputs settled before the join was made all first, and the
  least index among equals. An input that settled behind the cursor is not missed. Only a
  join of all without a failure delivers something else, the list of the values of its inputs.
\<close>

theorem join_first_settled:
  assumes "joining k hs e v j" and "heap_wf (vheap v)" and "poll_join j left v = (Ok (Some out, j', left'), w)"
  shows "first_settled v k e hs out \<or> k = PJ_All \<and> all_settled v hs w out"
proof (rule poll_join_scan [OF joining_ok [OF assms(1)] assms(3)])
  fix j1 r
  assume s: "scanned v k e hs j1" "join_finish j1 = (r, j')" "e \<le> jn_scan j1"
    and r: "case r of Jr_Pending \<Rightarrow> Some out = None \<and> w = v
      | Jr_Outcome x \<Rightarrow> Some out = Some x \<and> w = v
      | Jr_All vs \<Rightarrow> \<exists>h hp. Some out = Some (Out_Value h) \<and> heap_alloc (V_List vs) (vheap v) = (h, hp) \<and> w = v\<lparr>vheap := hp\<rparr>"
  show ?thesis
  proof (cases r)
    case (Jr_Outcome x)
    then show ?thesis using finish_first [OF s(1) _ s(3)] s(2) r by auto
  next
    case (Jr_All vs)
    then obtain h hp where o': "out = Out_Value h" "heap_alloc (V_List vs) (vheap v) = (h, hp)" "w = v\<lparr>vheap := hp\<rparr>"
      using r by auto
    have "heap_get (vheap w) h = Ok (V_List vs)" using heap_alloc_get(1) [OF assms(2) o'(2)] o'(3) by simp
    moreover have "k = PJ_All \<and> list_all2 (\<lambda>p x. settled_to (vheap v) p (Out_Value x)) hs vs"
      using finish_values [of "vheap v" j1 vs j'] s(1,2) Jr_All by (simp add: scanned_def candidate_ok_def)
    ultimately show ?thesis using o'(1) by (auto simp: all_settled_def)
  qed (use r in simp)
qed

text \<open>
  A race of two pending promises, scanned one input at a time: both settle behind and ahead of
  the cursor after the first slice, so the second slice finds the later one and scans again.
\<close>

definition race_vm :: "heap \<Rightarrow> nat \<Rightarrow> (handle, nat) btree \<Rightarrow> vm" where
  "race_vm hp n ords = demo_vm\<lparr>vheap := hp, completion_epoch := n, completion_order := ords\<rparr>"

definition race_heap :: "(string + outcome) option \<Rightarrow> (string + outcome) option \<Rightarrow> 64 word \<Rightarrow> 64 word \<Rightarrow> heap" where
  "race_heap a b r1 r2 = \<lparr>slots = [
     \<lparr>slot_value = Some (V_Promise a), slot_gen = 0, slot_marked = False, slot_newtype = None, slot_created = 1, slot_revision = r1\<rparr>,
     \<lparr>slot_value = Some (V_Promise b), slot_gen = 0, slot_marked = False, slot_newtype = None, slot_created = 2, slot_revision = r2\<rparr>],
     free = [], collections = 0, allocations = 2, heap_reads = None\<rparr>"

lemmas race_defs = race_vm_def race_heap_def heap_get_def slots_get_def ok_or_def Let_def new_join_def

lemma race_joining:
  "joining PJ_Race [Handle 0 0, Handle 1 0] 0 (race_vm (race_heap (Some (Inr (Out_Value (Handle 1 0)))) (Some (Inr (Out_Value (Handle 0 0)))) 1 1) 2
       [(Handle 0 0, 1), (Handle 1 0, 2)])
     ((new_join PJ_Race [Handle 0 0, Handle 1 0] 0)\<lparr>jn_first := Some (2, 1, Out_Value (Handle 0 0)),
       jn_values := [None, Some (Handle 0 0)], jn_remaining := 1\<rparr>)"
  (is "joining _ ?hs 0 ?v2 ?j2")
proof -
  let ?v0 = "race_vm (race_heap None None 0 0) 0 []"
  let ?v1 = "race_vm (race_heap (Some (Inr (Out_Value (Handle 1 0)))) None 1 0) 1 [(Handle 0 0, 1)]"
  let ?j0 = "new_join PJ_Race ?hs 0"
  let ?j1 = "?j0\<lparr>jn_cursor := 1\<rparr>"
  have "joining PJ_Race ?hs 0 ?v0 ?j0"
    by (rule made) (simp_all add: stamped_def race_defs handles_live_def live_def)
  moreover have "poll_join ?j0 1 ?v0 = (Ok (None, ?j1, 0), ?v0)"
    by (simp add: poll_join_def race_defs join_visit_def join_finish_def)
  ultimately have "joining PJ_Race ?hs 0 ?v0 ?j1" by (rule slice)
  moreover have "settle_promise (Handle 0 0) (Inr (Out_Value (Handle 1 0))) ?v0 = (Ok (), ?v1)"
    by (simp add: settle_promise_def replace_m_def heap_replace_def race_defs on_heap_def monad_defs observe_write_def
        bump_revision_def heap_put_def)
  moreover have "pending (vheap ?v0) (Handle 0 0)" by (simp add: pending_def race_defs)
  ultimately have "joining PJ_Race ?hs 0 ?v1 ?j1" by (metis settles)
  moreover have "settle_promise (Handle 1 0) (Inr (Out_Value (Handle 0 0))) ?v1 = (Ok (), ?v2)"
    by (simp add: settle_promise_def replace_m_def heap_replace_def race_defs on_heap_def monad_defs observe_write_def
        bump_revision_def heap_put_def less_handle_def)
  moreover have "pending (vheap ?v1) (Handle 1 0)" by (simp add: pending_def race_defs)
  ultimately have "joining PJ_Race ?hs 0 ?v2 ?j1" by (metis settles)
  moreover have "poll_join ?j1 9 ?v2 = (Ok (None, ?j2, 7), ?v2)"
    by (simp add: poll_join_def race_defs join_visit_def join_finish_def eval_nat_numeral join_value_def
        join_candidate_def bt_get_def)
  ultimately show ?thesis by (rule slice)
qed

theorem join_first_settled_witness:
  "\<exists>v j j' w n. joining PJ_Race [Handle 0 0, Handle 1 0] 0 v j \<and> jn_first j = Some (2, 1, Out_Value (Handle 0 0)) \<and>
     poll_join j 9 v = (Ok (Some (Out_Value (Handle 1 0)), j', n), w) \<and>
     first_settled v PJ_Race 0 [Handle 0 0, Handle 1 0] (Out_Value (Handle 1 0))"
proof -
  let ?v = "race_vm (race_heap (Some (Inr (Out_Value (Handle 1 0)))) (Some (Inr (Out_Value (Handle 0 0)))) 1 1) 2
       [(Handle 0 0, 1), (Handle 1 0, 2)]"
  let ?j = "(new_join PJ_Race [Handle 0 0, Handle 1 0] 0)\<lparr>jn_first := Some (2, 1, Out_Value (Handle 0 0)),
       jn_values := [None, Some (Handle 0 0)], jn_remaining := 1\<rparr>"
  obtain j' w n where p: "poll_join ?j 9 ?v = (Ok (Some (Out_Value (Handle 1 0)), j', n), w)"
    by (simp add: poll_join_def race_defs join_visit_def join_finish_def eval_nat_numeral join_value_def
        join_candidate_def bt_get_def)
  have wf: "heap_wf (vheap ?v)" by (auto simp: heap_wf_def race_defs less_Suc_eq nth_Cons')
  have "first_settled ?v PJ_Race 0 [Handle 0 0, Handle 1 0] (Out_Value (Handle 1 0))"
    using join_first_settled [OF race_joining wf p] by simp
  then show ?thesis using race_joining p by (intro exI conjI) simp_all
qed

end
