(* ===== verification/ByteLib.thy ===== *)
theory ByteLib
  imports Hosts
begin

unbundle bit_operations_syntax

text \<open>
  The immutable binary library (\<open>crates/deka_vm/src/bytes.rs\<close>): hexadecimal and base-64
  texts, slices, and the table of host operations that exposes them.
\<close>

section \<open>UTF-8\<close>

text \<open>
  \<open>std::str::from_utf8\<close>: the index up to which the bytes are valid, and the length of the
  invalid sequence, or nothing when the input ends within a character.
\<close>

definition utf8_cont :: "8 word \<Rightarrow> bool" where
  "utf8_cont b \<longleftrightarrow> 128 \<le> b \<and> b \<le> 191"

text \<open>The second byte that may follow the first of a character of three or four bytes.\<close>

definition utf8_second :: "8 word \<Rightarrow> 8 word \<Rightarrow> bool" where
  "utf8_second a b \<longleftrightarrow>
     (if a = 224 then 160 \<le> b \<and> b \<le> 191
      else if a = 237 then 128 \<le> b \<and> b \<le> 159
      else if a = 240 then 144 \<le> b \<and> b \<le> 191
      else if a = 244 then 128 \<le> b \<and> b \<le> 143
      else utf8_cont b)"

definition utf8_width :: "8 word \<Rightarrow> nat" where
  "utf8_width a =
     (if a < 128 then 1 else if 194 \<le> a \<and> a \<le> 223 then 2 else if 224 \<le> a \<and> a \<le> 239 then 3
      else if 240 \<le> a \<and> a \<le> 244 then 4 else 0)"

text \<open>The bytes after the first: how many were good, and whether the input ended.\<close>

fun utf8_rest :: "nat \<Rightarrow> 8 word list \<Rightarrow> nat \<Rightarrow> (nat option) option" where
  "utf8_rest 0 bs good = None"
| "utf8_rest (Suc n) [] good = Some None"
| "utf8_rest (Suc n) (b # bs) good =
     (if utf8_cont b then utf8_rest n bs (Suc good) else Some (Some good))"

definition utf8_step :: "8 word \<Rightarrow> 8 word list \<Rightarrow> (nat option) option" where
  "utf8_step a bs =
     (if utf8_width a = 0 then Some (Some 1)
      else if utf8_width a = 1 then None
      else case bs of
        [] \<Rightarrow> Some None
      | b # bs' \<Rightarrow>
          if (if utf8_width a = 2 then utf8_cont b else utf8_second a b)
          then utf8_rest (utf8_width a - 2) bs' 2 else Some (Some 1))"

function utf8_error :: "nat \<Rightarrow> 8 word list \<Rightarrow> (nat \<times> nat option) option" where
  "utf8_error i [] = None"
| "utf8_error i (a # bs) =
     (case utf8_step a bs of
        Some e \<Rightarrow> Some (i, e)
      | None \<Rightarrow> utf8_error (i + utf8_width a) (drop (utf8_width a - 1) bs))"
  by pat_completeness auto
termination
  by (relation "measure (\<lambda>(i, bs). length bs)") (auto simp: le_imp_less_Suc)

definition utf8_message :: "nat \<times> nat option \<Rightarrow> string" where
  "utf8_message e =
     (case snd e of
        Some n \<Rightarrow> ''invalid utf-8 sequence of '' @ nat_text n @ '' bytes from index '' @ nat_text (fst e)
      | None \<Rightarrow> ''incomplete utf-8 byte sequence from index '' @ nat_text (fst e))"

definition str_bytes :: "string \<Rightarrow> 8 word list" where
  "str_bytes s = map of_char s"

definition bytes_str :: "8 word list \<Rightarrow> string" where
  "bytes_str bs = map (\<lambda>b. char_of (unat b)) bs"

section \<open>Hexadecimal\<close>

definition hex_digits :: string where
  "hex_digits = ''0123456789abcdef''"

fun to_hex :: "8 word list \<Rightarrow> string" where
  "to_hex [] = []"
| "to_hex (b # bs) =
     hex_digits ! unat (drop_bit 4 b) # hex_digits ! unat (b AND 15) # to_hex bs"

text \<open>\<open>char::to_digit(16)\<close>.\<close>

definition hex_value :: "char \<Rightarrow> nat option" where
  "hex_value c =
     (if ascii_digit c then Some (byte c - 48)
      else if 97 \<le> byte c \<and> byte c \<le> 102 then Some (byte c - 87)
      else if 65 \<le> byte c \<and> byte c \<le> 70 then Some (byte c - 55)
      else None)"

text \<open>The pairs of \<open>chunks_exact(2)\<close>.\<close>

fun hex_pairs :: "string \<Rightarrow> 8 word list option" where
  "hex_pairs (a # b # cs) =
     (case (hex_value a, hex_value b) of
        (Some x, Some y) \<Rightarrow> map_option ((#) (word_of_nat (x * 16 + y))) (hex_pairs cs)
      | _ \<Rightarrow> None)"
| "hex_pairs _ = Some []"

definition from_hex :: "string \<Rightarrow> 8 word list option" where
  "from_hex text = (if length text mod 2 \<noteq> 0 then None else hex_pairs text)"

section \<open>Base 64\<close>

definition base64_digits :: string where
  "base64_digits = ''ABCDEFGHIJKLMNOPQRSTUVWXYZabcdefghijklmnopqrstuvwxyz0123456789+/''"

definition sextet :: "32 word \<Rightarrow> nat \<Rightarrow> char" where
  "sextet n k = base64_digits ! unat (drop_bit k n AND 63)"

definition group_bits :: "8 word \<Rightarrow> 8 word \<Rightarrow> 8 word \<Rightarrow> 32 word" where
  "group_bits a b c = push_bit 16 (ucast a) OR push_bit 8 (ucast b) OR ucast c"

fun to_base64 :: "8 word list \<Rightarrow> string" where
  "to_base64 [] = []"
| "to_base64 [a] =
     (let n = group_bits a 0 0 in [sextet n 18, sextet n 12, CHR ''='', CHR ''=''])"
| "to_base64 [a, b] =
     (let n = group_bits a b 0 in [sextet n 18, sextet n 12, sextet n 6, CHR ''=''])"
| "to_base64 (a # b # c # bs) =
     (let n = group_bits a b c
      in sextet n 18 # sextet n 12 # sextet n 6 # sextet n 0 # to_base64 bs)"

definition base64_value :: "char \<Rightarrow> 32 word option" where
  "base64_value c = map_option (\<lambda>(i, _). word_of_nat i) (find (\<lambda>(_, d). d = c) (enumerate 0 base64_digits))"

definition padding :: "char \<Rightarrow> char \<Rightarrow> nat" where
  "padding c d = (if c = CHR ''='' \<and> d = CHR ''='' then 2 else if d = CHR ''='' then 1 else 0)"

text \<open>The four digits of a chunk, the padding read as zeros.\<close>

fun chunk_bits :: "nat \<Rightarrow> string \<Rightarrow> 32 word \<Rightarrow> 32 word option" where
  "chunk_bits digits [] n = Some n"
| "chunk_bits digits (c # cs) n =
     (case (if digits = 0 then Some 0 else base64_value c) of
        None \<Rightarrow> None
      | Some v \<Rightarrow> chunk_bits (digits - 1) cs (push_bit 6 n OR v))"

definition chunk_bytes :: "nat \<Rightarrow> 32 word \<Rightarrow> 8 word list" where
  "chunk_bytes pad n =
     ucast (drop_bit 16 n) # (if pad < 2 then [ucast (drop_bit 8 n)] else []) @
     (if pad = 0 then [ucast n] else [])"

fun base64_chunks :: "string \<Rightarrow> 8 word list option" where
  "base64_chunks (a # b # c # d # cs) =
     (let pad = padding c d
      in if pad \<noteq> 0 \<and> cs \<noteq> [] then None
         else case chunk_bits (4 - pad) [a, b, c, d] 0 of
           None \<Rightarrow> None
         | Some n \<Rightarrow> map_option ((@) (chunk_bytes pad n)) (base64_chunks cs))"
| "base64_chunks _ = Some []"

definition from_base64 :: "string \<Rightarrow> 8 word list option" where
  "from_base64 text = (if length text mod 4 \<noteq> 0 then None else base64_chunks text)"

section \<open>Slices\<close>

definition f64_clamp :: "f64 \<Rightarrow> f64 \<Rightarrow> f64 \<Rightarrow> f64" where
  "f64_clamp x lo hi = (if f64_lt x lo then lo else if f64_lt hi x then hi else x)"

definition bytes_index :: "f64 \<Rightarrow> nat \<Rightarrow> nat" where
  "bytes_index value len =
     (if value = NaN then 0
      else let v = f64_trunc value
           in if f64_lt v f64_zero
              then f64_to_u64 (f64_clamp (f64_add (f64_of_nat len) v) f64_zero (f64_of_nat len))
              else f64_to_u64 (f64_min v (f64_of_nat len)))"

text \<open>A range of a slice panics unless it is ascending and within the bytes.\<close>

definition byte_range :: "nat \<Rightarrow> nat \<Rightarrow> 8 word list \<Rightarrow> 8 word list res" where
  "byte_range i j bs =
     (if i \<le> j \<and> j \<le> length bs then Ok (take (j - i) (drop i bs)) else Panic ''range out of bounds'')"

definition bytes_slice :: "8 word list \<Rightarrow> f64 \<Rightarrow> f64 \<Rightarrow> 8 word list res" where
  "bytes_slice b start end0 =
     (let i = bytes_index start (length b)
      in byte_range i (max (bytes_index end0 (length b)) i) b)"

definition byte_of_number :: "f64 \<Rightarrow> 8 word option" where
  "byte_of_number n =
     (if f64_is_finite n \<and> f64_fract_zero n \<and> f64_le f64_zero n \<and> f64_le n (f64_of_nat 255)
      then Some (word_of_nat (f64_to_u64 n)) else None)"

definition bytes_at :: "8 word list \<Rightarrow> f64 \<Rightarrow> host_value res" where
  "bytes_at b i =
     (if f64_is_finite i \<and> f64_fract_zero i \<and> f64_le f64_zero i \<and> f64_lt i (f64_of_nat (length b))
      then if f64_to_u64 i < length b
           then Ok (HV_Option (Some (HV_Number (f64_of_nat (unat (b ! f64_to_u64 i))))))
           else Panic ''index out of bounds''
      else Ok (HV_Option None))"

section \<open>The host operations\<close>

definition optional_bytes :: "8 word list option \<Rightarrow> host_value" where
  "optional_bytes b = HV_Option (map_option HV_Bytes b)"

fun number_of :: "host_value \<Rightarrow> 8 word option res" where
  "number_of (HV_Number n) = Ok (byte_of_number n)"
| "number_of _ = Panic ''checked number array''"

definition bytes_op :: "string \<Rightarrow> host_value list \<Rightarrow> host_value res" where
  "bytes_op name args =
     (case args of
        [HV_Bytes b] \<Rightarrow>
          if name = ''len'' then Ok (HV_Number (f64_of_nat (length b)))
          else if name = ''to_string'' then
            (case utf8_error 0 b of
               None \<Rightarrow> Ok (HV_String (bytes_str b))
             | Some e \<Rightarrow> Err (''invalid UTF-8: '' @ utf8_message e))
          else if name = ''to_hex'' then Ok (HV_String (to_hex b))
          else if name = ''to_base64'' then Ok (HV_String (to_base64 b))
          else Panic ''checked bytes operation''
      | [HV_Bytes b, HV_Number i] \<Rightarrow>
          if name = ''get'' then bytes_at b i else Panic ''checked bytes operation''
      | [HV_Bytes b, HV_Number i, HV_Number j] \<Rightarrow>
          if name = ''slice'' then res_map HV_Bytes (bytes_slice b i j)
          else Panic ''checked bytes operation''
      | [HV_Bytes a, HV_Bytes b] \<Rightarrow>
          if name = ''concat'' then Ok (HV_Bytes (a @ b)) else Panic ''checked bytes operation''
      | [HV_List items] \<Rightarrow>
          if name = ''from_array'' then
            res_map (\<lambda>os. optional_bytes (those os)) (res_mapM number_of items)
          else Panic ''checked bytes operation''
      | [HV_String s] \<Rightarrow>
          if name = ''from_string'' then Ok (HV_Bytes (str_bytes s))
          else if name = ''from_hex'' then Ok (optional_bytes (from_hex s))
          else if name = ''from_base64'' then Ok (optional_bytes (from_base64 s))
          else Panic ''checked bytes operation''
      | _ \<Rightarrow> Panic ''checked bytes operation'')"

text \<open>Name, arguments, output, defaults, and whether the output is a \<open>Result\<close>.\<close>

definition bytes_table :: "(string \<times> host_type list \<times> host_type \<times> host_value list \<times> bool) list" where
  "bytes_table =
     [(''len'', [HT_Bytes], HT_Number, [], False),
      (''get'', [HT_Bytes, HT_Number], HT_Option HT_Number, [], False),
      (''slice'', [HT_Bytes, HT_Number, HT_Number], HT_Bytes, [HV_Number (f64_of_int 9007199254740991)], False),
      (''concat'', [HT_Bytes, HT_Bytes], HT_Bytes, [], False),
      (''from_array'', [HT_List HT_Number], HT_Option HT_Bytes, [], False),
      (''from_string'', [HT_String], HT_Bytes, [], False),
      (''to_string'', [HT_Bytes], HT_String, [], True),
      (''to_hex'', [HT_Bytes], HT_String, [], False),
      (''from_hex'', [HT_String], HT_Option HT_Bytes, [], False),
      (''to_base64'', [HT_Bytes], HT_String, [], False),
      (''from_base64'', [HT_String], HT_Option HT_Bytes, [], False)]"

text \<open>
  \<open>HostOp::new\<close>, and the operation of an entry. A handler that panics never replies; here it
  would answer with the message, which \<open>bytes_ops_typed\<close> excludes.
\<close>

definition new_op :: "string \<Rightarrow> host_type list \<Rightarrow> host_type \<Rightarrow> bool \<Rightarrow>
    (nat \<Rightarrow> host_value list \<Rightarrow> host_reply \<times> host_event list) \<Rightarrow> host_op" where
  "new_op name args result async h =
     \<lparr>op_name = name, op_args = args, op_result = result, op_async = async, result_channel = False,
      result_error = None, exception_channel = False, global = False, global_value = None,
      namespace = None, receiver_method = None, receiver_property = False, receiver_setter = None,
      json_body = False, defaults = [], handler = h\<rparr>"

fun reply_of :: "host_value res \<Rightarrow> host_reply" where
  "reply_of (Ok v) = Reply_Ready (Inr v)"
| "reply_of (Err e) = Reply_Ready (Inl e)"
| "reply_of (Panic p) = Reply_Ready (Inl p)"

definition bytes_host_op ::
    "string \<times> host_type list \<times> host_type \<times> host_value list \<times> bool \<Rightarrow> host_op" where
  "bytes_host_op e =
     (case e of (name, args, output, defs, chan) \<Rightarrow>
        (new_op (''bytes_'' @ name) args output False (\<lambda>_ vs. (reply_of (bytes_op name vs), [])))
          \<lparr>defaults := defs, result_channel := chan\<rparr>)"

definition register_all :: "(string \<Rightarrow> string) \<Rightarrow> host_op list \<Rightarrow> (hosts, unit) rm" where
  "register_all quote = eachM (register quote)"

definition register_bytes :: "(string \<Rightarrow> string) \<Rightarrow> (hosts, unit) rm" where
  "register_bytes quote = register_all quote (map bytes_host_op bytes_table)"

end
