(* ===== verification/HttpHeaders.thy ===== *)
theory HttpHeaders
  imports ByteLib
begin

text \<open>
  HTTP header lists (\<open>crates/deka_vm/src/http_headers.rs\<close>): validated names and values,
  duplicates in the order of their insertion, iteration in the order of the names.
\<close>

section \<open>Characters beyond ASCII\<close>

text \<open>The code point of one character of \<open>chars()\<close>, given as the bytes of its encoding.\<close>

fun code_point :: "string \<Rightarrow> nat" where
  "code_point [a] = byte a"
| "code_point [a, b] = (byte a - 192) * 64 + (byte b - 128)"
| "code_point [a, b, c] = ((byte a - 224) * 64 + (byte b - 128)) * 64 + (byte c - 128)"
| "code_point [a, b, c, d] =
     (((byte a - 240) * 64 + (byte b - 128)) * 64 + (byte c - 128)) * 64 + (byte d - 128)"
| "code_point _ = 0"

section \<open>Names and values\<close>

definition token_char :: "char \<Rightarrow> bool" where
  "token_char c \<longleftrightarrow> ascii_alnum c \<or> c \<in> set ''!#$%&*+-.^_`|~'' \<or> byte c = 39"

definition header_name :: "string \<Rightarrow> string res" where
  "header_name s =
     (if s = [] \<or> \<not> list_all token_char s then Err ''invalid header name'' else Ok (ascii_lowercase s))"

definition http_space :: "char \<Rightarrow> bool" where
  "http_space c \<longleftrightarrow> byte c \<in> {9, 10, 13, 32}"

definition http_trim :: "string \<Rightarrow> string" where
  "http_trim s = rev (dropWhile http_space (rev (dropWhile http_space s)))"

definition header_value :: "string \<Rightarrow> string res" where
  "header_value s =
     (if list_ex (\<lambda>ch. code_point ch > 255) (utf8_chars s)
      then Err ''header value must contain only byte-string characters''
      else if list_ex (\<lambda>c. byte c \<in> {0, 10, 13}) (http_trim s) then Err ''invalid header value''
      else Ok (http_trim s))"

section \<open>The list\<close>

record header_list =
  header_values :: "(string, string list) btree"

definition no_headers :: header_list where
  "no_headers = \<lparr>header_values = []\<rparr>"

definition headers_append :: "string \<Rightarrow> string \<Rightarrow> (header_list, unit) rm" where
  "headers_append key text =
     bind (lift_res (header_name key)) (\<lambda>k.
     bind (lift_res (header_value text)) (\<lambda>v.
     modify (\<lambda>h. h\<lparr>header_values :=
       bt_insert k ((case bt_get (header_values h) k of None \<Rightarrow> [] | Some vs \<Rightarrow> vs) @ [v])
         (header_values h)\<rparr>)))"

definition headers_set :: "string \<Rightarrow> string \<Rightarrow> (header_list, unit) rm" where
  "headers_set key text =
     bind (lift_res (header_name key)) (\<lambda>k.
     bind (lift_res (header_value text)) (\<lambda>v.
     modify (\<lambda>h. h\<lparr>header_values := bt_insert k [v] (header_values h)\<rparr>)))"

definition headers_delete :: "string \<Rightarrow> (header_list, unit) rm" where
  "headers_delete key =
     bind (lift_res (header_name key)) (\<lambda>k.
     modify (\<lambda>h. h\<lparr>header_values := bt_remove k (header_values h)\<rparr>))"

text \<open>A list from pairs is published only when every pair is valid.\<close>

definition headers_from_pairs :: "string list list \<Rightarrow> header_list res" where
  "headers_from_pairs pairs =
     (case eachM (\<lambda>pair. case pair of
            [k, v] \<Rightarrow> headers_append k v
          | _ \<Rightarrow> fail ''header initializer entries must have exactly two strings'') pairs no_headers of
        (Ok _, h) \<Rightarrow> Ok h
      | (Err e, _) \<Rightarrow> Err e
      | (Panic p, _) \<Rightarrow> Panic p)"

definition headers_get :: "header_list \<Rightarrow> string \<Rightarrow> string option res" where
  "headers_get h key =
     res_map (\<lambda>k. map_option (join '', '') (bt_get (header_values h) k)) (header_name key)"

definition headers_has :: "header_list \<Rightarrow> string \<Rightarrow> bool res" where
  "headers_has h key = res_map (bt_contains (header_values h)) (header_name key)"

definition set_cookie :: string where
  "set_cookie = ''set-cookie''"

definition headers_get_set_cookie :: "header_list \<Rightarrow> string list" where
  "headers_get_set_cookie h =
     (case bt_get (header_values h) set_cookie of None \<Rightarrow> [] | Some vs \<Rightarrow> vs)"

definition headers_entries :: "header_list \<Rightarrow> (string \<times> string) list" where
  "headers_entries h =
     concat (map (\<lambda>(n, vs). if n = set_cookie then map (Pair n) vs else [(n, join '', '' vs)])
       (header_values h))"

definition headers_keys :: "header_list \<Rightarrow> string list" where
  "headers_keys h = map fst (headers_entries h)"

definition headers_vals :: "header_list \<Rightarrow> string list" where
  "headers_vals h = map snd (headers_entries h)"

definition wire_value :: "string \<Rightarrow> 8 word list" where
  "wire_value s = map (\<lambda>ch. word_of_nat (code_point ch)) (utf8_chars s)"

definition headers_wire :: "header_list \<Rightarrow> (string \<times> 8 word list) list" where
  "headers_wire h = concat (map (\<lambda>(n, vs). map (\<lambda>v. (n, wire_value v)) vs) (header_values h))"

section \<open>The host operations\<close>

text \<open>The text arguments after the receiver; the schema excludes anything else.\<close>

definition text_at :: "host_value list \<Rightarrow> nat \<Rightarrow> string res" where
  "text_at args i =
     (if i < length args then
        (case args ! i of HV_String s \<Rightarrow> Ok s | _ \<Rightarrow> Panic ''checked Headers argument'')
      else Panic ''index out of bounds'')"

definition method_on_list :: "string \<Rightarrow> host_value list \<Rightarrow> (header_list, host_value) rm" where
  "method_on_list method args =
     (if method = ''append'' then
        bind (lift_res (text_at args 1)) (\<lambda>k. bind (lift_res (text_at args 2)) (\<lambda>v.
        seq (headers_append k v) (ret HV_Unit)))
      else if method = ''set'' then
        bind (lift_res (text_at args 1)) (\<lambda>k. bind (lift_res (text_at args 2)) (\<lambda>v.
        seq (headers_set k v) (ret HV_Unit)))
      else if method = ''delete'' then
        bind (lift_res (text_at args 1)) (\<lambda>k. seq (headers_delete k) (ret HV_Unit))
      else if method = ''get'' then
        bind (lift_res (text_at args 1)) (\<lambda>k h.
          (res_map (\<lambda>x. HV_Option (map_option HV_String x)) (headers_get h k), h))
      else if method = ''has'' then
        bind (lift_res (text_at args 1)) (\<lambda>k h. (res_map HV_Bool (headers_has h k), h))
      else if method = ''getSetCookie'' then gets (\<lambda>h. HV_Strings (headers_get_set_cookie h))
      else if method = ''keys'' then gets (\<lambda>h. HV_Strings (headers_keys h))
      else if method = ''values'' then gets (\<lambda>h. HV_Strings (headers_vals h))
      else if method = ''entries'' then
        gets (\<lambda>h. HV_List (map (\<lambda>(k, v). HV_List [HV_String k, HV_String v]) (headers_entries h)))
      else panic ''registered Headers method'')"

text \<open>
  The receiver. What a handle refers to is a shared cell of any Rust type; a store gives the
  header list in the cell of a resource, and nothing for a resource of another type, which the
  handler refuses before it looks at the method.
\<close>

definition headers_method ::
    "string \<Rightarrow> host_value list \<Rightarrow> (nat \<Rightarrow> header_list option, host_value) rm" where
  "headers_method method args st =
     (if args = [] then (Panic ''index out of bounds'', st)
      else case hd args of
        HV_Handle hh \<Rightarrow>
          (case st (hh_resource hh) of
             None \<Rightarrow> (Err ''invalid Headers resource'', st)
           | Some h \<Rightarrow>
               (case method_on_list method args h of
                  (r, h') \<Rightarrow> (r, st(hh_resource hh := Some h'))))
      | _ \<Rightarrow> (Panic ''checked Headers receiver'', st))"

text \<open>Name, arguments after the receiver, result, and whether the result is a \<open>Result\<close>.\<close>

definition headers_table :: "(string \<times> host_type list \<times> host_type \<times> bool) list" where
  "headers_table =
     [(''append'', [HT_String, HT_String], HT_Unit, True),
      (''set'', [HT_String, HT_String], HT_Unit, True),
      (''delete'', [HT_String], HT_Unit, True),
      (''get'', [HT_String], HT_Option HT_String, True),
      (''has'', [HT_String], HT_Bool, True),
      (''getSetCookie'', [], HT_Strings, False),
      (''entries'', [], HT_List (HT_Tuple [HT_String, HT_String]), False),
      (''keys'', [], HT_Strings, False),
      (''values'', [], HT_Strings, False)]"

text \<open>The constructor's pairs, each a checked tuple of two strings.\<close>

fun header_pair :: "host_value \<Rightarrow> string list res" where
  "header_pair (HV_List items) =
     res_mapM (\<lambda>v. case v of HV_String s \<Rightarrow> Ok s | _ \<Rightarrow> Panic ''checked header string'') items"
| "header_pair _ = Panic ''checked header tuple''"

definition headers_new :: "host_value list \<Rightarrow> header_list res" where
  "headers_new args =
     (case args of
        [HV_List entries] \<Rightarrow> res_bind (res_mapM header_pair entries) headers_from_pairs
      | _ \<Rightarrow> Panic ''checked Headers initializer'')"

end
