(* ===== verification/F64Whole.thy ===== *)
theory F64Whole
  imports F64
begin

text \<open>
  Whole numbers as doubles: below \<open>2\<^sup>5\<^sup>3\<close> in magnitude the sum, the comparisons and the
  roundings of doubles are those of the integers.
\<close>

definition safe_int :: "int \<Rightarrow> bool" where
  "safe_int n \<longleftrightarrow> \<bar>n\<bar> < 2 ^ 53"

lemma bit_len_double: "0 < m \<Longrightarrow> bit_len (m * 2 ^ j) = bit_len m + j"
proof (induction j)
  case (Suc j)
  have "m * 2 ^ Suc j > 0" using Suc.prems by simp
  then have "bit_len (m * 2 ^ Suc j) = Suc (bit_len (m * 2 ^ Suc j div 2))" by (subst bit_len.simps) simp
  also have "m * 2 ^ Suc j div 2 = m * 2 ^ j" by simp
  finally show ?case using Suc by simp
qed simp

lemma f64_round_exact:
  assumes m: "0 \<le> m" "m < 2 ^ 53" and e: "- 1074 \<le> e"
  shows "f64_round s (m * 2 ^ j) (e - int j) False = f64_round s m e False"
proof (cases "m = 0")
  case False
  with m have pos: "0 < m" by simp
  have b: "bit_len m \<le> 53" using m by (intro bit_len_bound)
  define e' where "e' = max (e + int (bit_len m) - 53) (- 1074)"
  have le: "e' \<le> e" using b e by (simp add: e'_def)
  define k where "k = nat (e - e')"
  have k: "e' = e - int k" and kb: "k \<le> 53 - bit_len m" using le b by (simp_all add: k_def e'_def max_def) linarith+
  have lt: "m * 2 ^ k < 2 ^ 53"
  proof -
    have "m < 2 ^ bit_len m" using m(1) by (rule bit_len_le)
    then have "m * 2 ^ k < 2 ^ bit_len m * 2 ^ k" by simp
    also have "\<dots> \<le> 2 ^ 53" using b kb power_increasing [of "bit_len m + k" 53 "2::int"] by (simp add: power_add)
    finally show ?thesis .
  qed
  have e1: "max (e - int j + int (bit_len (m * 2 ^ j)) - 53) (- 1074) = e'"
    using bit_len_double [OF pos, of j] by (simp add: e'_def)
  have one: "f64_round s m e False = (if 971 < e' then Inf s else Fin s (m * 2 ^ k) e')"
    using pos le by (simp add: f64_round_def Let_def e'_def [symmetric] k_def)
  have two: "f64_round s (m * 2 ^ j) (e - int j) False = (if 971 < e' then Inf s else Fin s (m * 2 ^ k) e')"
  proof (cases "j \<le> k")
    case True
    then have n: "nat (e - int j - e') = k - j" and sh: "e' \<le> e - int j" by (auto simp: k)
    have p: "(2::int) ^ j * 2 ^ (k - j) = 2 ^ k" using True by (simp add: power_add [symmetric])
    have nz: "m * 2 ^ j \<noteq> 0" using pos by simp
    show ?thesis using pos by (simp add: f64_round_def Let_def e1 n sh nz mult.assoc p)
  next
    case False
    then have n: "nat (e' - (e - int j)) = j - k" and l: "k \<le> j" and sh: "\<not> e' \<le> e - int j"
      by (auto simp: k)
    have p: "(2::int) ^ j = 2 ^ k * 2 ^ (j - k)" using l by (simp add: power_add [symmetric])
    have q: "m * 2 ^ j div 2 ^ (j - k) = m * 2 ^ k" and r: "m * 2 ^ j mod 2 ^ (j - k) = 0"
      by (simp_all add: p mult.assoc [symmetric])
    have nz: "m * 2 ^ j \<noteq> 0" using pos by simp
    show ?thesis using lt nz sh by (simp only: f64_round_def Let_def e1 n q r) auto
  qed
  show ?thesis by (simp add: one two)
qed (simp add: f64_round_def)

lemma f64_round_scale:
  "0 \<le> m \<Longrightarrow> m < 2 ^ 53 \<Longrightarrow> f64_round s (m * 2 ^ j) (- int j) False = f64_round s m 0 False"
  using f64_round_exact [of m 0 s j] by simp

text \<open>A number in normal form is its own rounding.\<close>

lemma f64_round_wf:
  assumes "f64_wf (Fin s m e)" and "m \<noteq> 0"
  shows "f64_round s m e False = Fin s m e"
proof -
  have m: "0 < m" "m < 2 ^ 53" and e: "- 1074 \<le> e" "e \<le> 971" and n: "2 ^ 52 \<le> m \<or> e = - 1074"
    using assms by auto
  have b: "bit_len m \<le> 53" using m by (intro bit_len_bound) auto
  have "max (e + int (bit_len m) - 53) (- 1074) = e"
  proof (cases "2 ^ 52 \<le> m")
    case True
    have "bit_len m \<noteq> k" if "k < 53" for k
    proof
      assume "bit_len m = k"
      then have "m < 2 ^ k" using bit_len_le [of m] m by simp
      also have "(2::int) ^ k \<le> 2 ^ 52" using that by (intro power_increasing) auto
      finally show False using True by simp
    qed
    then have "bit_len m = 53" using b by (metis le_neq_implies_less)
    then show ?thesis using e by simp
  qed (use n b e in simp)
  then show ?thesis using m e by (simp add: f64_round_def Let_def)
qed

text \<open>The representation of a whole number, and its value at any scale.\<close>

lemma whole_parts:
  assumes "safe_int n"
  obtains s m e where "f64_of_int n = Fin s m e" and "e \<le> 0" and "0 \<le> m"
    and "s \<longleftrightarrow> n < 0" and "\<And>g. g \<le> e \<Longrightarrow> signed s (m * 2 ^ nat (e - g)) = n * 2 ^ nat (- g)"
proof (cases "n = 0")
  case True
  then show ?thesis
    using that [of False 0 "- 1074"] assms by (simp add: f64_of_int_round safe_int_def signed_def)
next
  case False
  define k where "k = nat (53 - int (bit_len \<bar>n\<bar>))"
  have f: "f64_of_int n = Fin (n < 0) (\<bar>n\<bar> * 2 ^ k) (- int k)"
    using False assms by (simp add: f64_of_int_round safe_int_def k_def Let_def)
  have "signed (n < 0) (\<bar>n\<bar> * 2 ^ k * 2 ^ nat (- int k - g)) = n * 2 ^ nat (- g)" if "g \<le> - int k" for g
  proof -
    have "k + nat (- int k - g) = nat (- g)" using that by simp
    then have "(2::int) ^ k * 2 ^ nat (- int k - g) = 2 ^ nat (- g)" by (metis power_add)
    then show ?thesis by (simp add: signed_def mult.assoc)
  qed
  then show ?thesis using that [OF f] by simp
qed

lemma f64_lt_whole: "safe_int a \<Longrightarrow> safe_int b \<Longrightarrow> f64_lt (f64_of_int a) (f64_of_int b) \<longleftrightarrow> a < b"
proof -
  assume a: "safe_int a" and b: "safe_int b"
  obtain s m e where A: "f64_of_int a = Fin s m e" "\<And>g. g \<le> e \<Longrightarrow> signed s (m * 2 ^ nat (e - g)) = a * 2 ^ nat (- g)"
    using whole_parts [OF a] by metis
  obtain t n f where B: "f64_of_int b = Fin t n f" "\<And>g. g \<le> f \<Longrightarrow> signed t (n * 2 ^ nat (f - g)) = b * 2 ^ nat (- g)"
    using whole_parts [OF b] by metis
  show ?thesis by (simp add: A B Let_def)
qed

lemma f64_eq_whole: "safe_int a \<Longrightarrow> safe_int b \<Longrightarrow> f64_eq (f64_of_int a) (f64_of_int b) \<longleftrightarrow> a = b"
proof -
  assume a: "safe_int a" and b: "safe_int b"
  obtain s m e where A: "f64_of_int a = Fin s m e" "\<And>g. g \<le> e \<Longrightarrow> signed s (m * 2 ^ nat (e - g)) = a * 2 ^ nat (- g)"
    using whole_parts [OF a] by metis
  obtain t n f where B: "f64_of_int b = Fin t n f" "\<And>g. g \<le> f \<Longrightarrow> signed t (n * 2 ^ nat (f - g)) = b * 2 ^ nat (- g)"
    using whole_parts [OF b] by metis
  show ?thesis by (simp add: A B Let_def)
qed

lemma f64_not_NaN: "safe_int a \<Longrightarrow> f64_of_int a \<noteq> NaN"
  using whole_parts [of a] by (metis f64.distinct(3))

lemma f64_zero_whole: "f64_zero = f64_of_int 0"
  by (simp add: f64_of_int_round)

lemma f64_add_whole:
  assumes a: "safe_int a" and b: "safe_int b" and ab: "safe_int (a + b)"
  shows "f64_add (f64_of_int a) (f64_of_int b) = f64_of_int (a + b)"
proof -
  obtain s m e where A: "f64_of_int a = Fin s m e" "s \<longleftrightarrow> a < 0"
    "\<And>g. g \<le> e \<Longrightarrow> signed s (m * 2 ^ nat (e - g)) = a * 2 ^ nat (- g)" "e \<le> 0"
    using whole_parts [OF a] by metis
  obtain t n f where B: "f64_of_int b = Fin t n f" "t \<longleftrightarrow> b < 0"
    "\<And>g. g \<le> f \<Longrightarrow> signed t (n * 2 ^ nat (f - g)) = b * 2 ^ nat (- g)"
    using whole_parts [OF b] by metis
  define g where "g = min e f"
  have v: "signed s (m * 2 ^ nat (e - g)) + signed t (n * 2 ^ nat (f - g)) = (a + b) * 2 ^ nat (- g)"
    using A(3) [of g] B(3) [of g] by (simp add: g_def distrib_right)
  have neg: "(a + b) * 2 ^ nat (- g) < 0 \<longleftrightarrow> a + b < 0" by (simp add: mult_less_0_iff)
  have mag: "\<bar>(a + b) * 2 ^ nat (- g)\<bar> = \<bar>a + b\<bar> * 2 ^ nat (- g)" by (simp add: abs_mult)
  have "g \<le> 0" using A(4) by (simp add: g_def min.coboundedI1)
  then have g: "g = - int (nat (- g))" by simp
  have sc: "f64_round (a + b < 0) (\<bar>a + b\<bar> * 2 ^ nat (- g)) g False = f64_of_int (a + b)"
    using f64_round_scale [of "\<bar>a + b\<bar>" "a + b < 0" "nat (- g)"] ab
    by (simp only: g [symmetric] f64_of_int_def safe_int_def)
  show ?thesis
  proof (cases "a + b = 0")
    case True
    then have "\<not> (s \<and> t)" using A(2) B(2) by linarith
    then show ?thesis
      using True v by (auto simp: A(1) B(1) g_def [symmetric] Let_def f64_zero_whole [symmetric])
  next
    case False
    then show ?thesis
      using v neg mag sc by (simp add: A(1) B(1) g_def [symmetric] Let_def)
  qed
qed

lemma f64_trunc_whole: "safe_int a \<Longrightarrow> f64_trunc (f64_of_int a) = f64_of_int a"
proof (cases "a = 0")
  case False
  assume a: "safe_int a"
  define k where "k = nat (53 - int (bit_len \<bar>a\<bar>))"
  have f: "f64_of_int a = Fin (a < 0) (\<bar>a\<bar> * 2 ^ k) (- int k)"
    using False a by (simp add: f64_of_int_round safe_int_def k_def Let_def)
  have "f64_round (a < 0) \<bar>a\<bar> 0 False = Fin (a < 0) (\<bar>a\<bar> * 2 ^ k) (- int k)"
    using f by (simp add: f64_of_int_def)
  then show ?thesis unfolding f by simp
qed (simp add: f64_of_int_round f64_round_def)

lemma f64_to_u64_whole: "safe_int a \<Longrightarrow> f64_to_u64 (f64_of_int a) = nat a"
proof -
  assume a: "safe_int a"
  obtain s m e where A: "f64_of_int a = Fin s m e" using whole_parts [OF a] by metis
  have "f64_trunc_int (Fin s m e) = a" using f64_trunc_of_int [of a] a A by (simp add: safe_int_def)
  then show ?thesis using a by (simp add: A safe_int_def min_def)
qed

lemma f64_min_whole:
  "safe_int a \<Longrightarrow> safe_int b \<Longrightarrow> f64_min (f64_of_int a) (f64_of_int b) = f64_of_int (min a b)"
  by (simp add: f64_min_def f64_not_NaN f64_lt_whole min_def)

text \<open>A double that is not above a length is cast to an index within it.\<close>

lemma f64_to_u64_le:
  assumes n: "safe_int (int n)" and le: "\<not> f64_lt (f64_of_nat n) x"
  shows "f64_to_u64 x \<le> n"
proof (cases x)
  case (Fin s m e)
  obtain t k f where A: "f64_of_int (int n) = Fin t k f" "f \<le> 0"
    "\<And>g. g \<le> f \<Longrightarrow> signed t (k * 2 ^ nat (f - g)) = int n * 2 ^ nat (- g)"
    using whole_parts [OF n] by metis
  define g where "g = min e f"
  define X where "X = signed s m"
  have sx: "signed s (m * c) = X * c" for c by (simp add: X_def signed_def)
  have g: "g \<le> e" "g \<le> f" "g \<le> 0" using A(2) by (simp_all add: g_def min.coboundedI2)
  have "X * 2 ^ nat (e - g) \<le> int n * 2 ^ nat (- g)"
    using le A(3) [OF g(2)] by (simp add: Fin f64_of_nat_def A(1) Let_def g_def sx min.commute)
  have "f64_trunc_int (Fin s m e) \<le> int n"
  proof (cases "0 \<le> e")
    case True
    have "nat (e - g) = nat e + nat (- g)" using True g by simp
    then have "X * 2 ^ nat e * 2 ^ nat (- g) \<le> int n * 2 ^ nat (- g)"
      using \<open>X * 2 ^ nat (e - g) \<le> int n * 2 ^ nat (- g)\<close> by (simp add: power_add mult.assoc)
    then show ?thesis using True by (simp add: sx)
  next
    case False
    have "nat (- g) = nat (- e) + nat (e - g)" using False g by simp
    then have "X * 2 ^ nat (e - g) \<le> int n * 2 ^ nat (- e) * 2 ^ nat (e - g)"
      using \<open>X * 2 ^ nat (e - g) \<le> int n * 2 ^ nat (- g)\<close> by (simp add: power_add mult.assoc)
    then have b: "X \<le> int n * 2 ^ nat (- e)" by simp
    show ?thesis
    proof (cases s)
      case True
      then have "- int n * 2 ^ nat (- e) \<le> m" using b by (simp add: X_def signed_def)
      then have "- int n * 2 ^ nat (- e) div 2 ^ nat (- e) \<le> m div 2 ^ nat (- e)" by (intro zdiv_mono1) simp_all
      moreover have "- int n * 2 ^ nat (- e) div 2 ^ nat (- e) = - int n" by (rule nonzero_mult_div_cancel_right) simp
      ultimately have "- int n \<le> m div 2 ^ nat (- e)" by (simp only:)
      then show ?thesis using True False by (simp add: signed_def)
    next
      case s: False
      then have "m div 2 ^ nat (- e) \<le> int n * 2 ^ nat (- e) div 2 ^ nat (- e)"
        using b by (intro zdiv_mono1) (simp_all add: X_def signed_def)
      then show ?thesis using s False by (simp add: signed_def)
    qed
  qed
  then show ?thesis by (simp add: Fin)
next
  case (Inf s)
  obtain t k f where A: "f64_of_int (int n) = Fin t k f" using whole_parts [OF n] by metis
  show ?thesis using le Inf by (cases s) (simp_all add: f64_of_nat_def A)
qed simp

lemma f64_to_u64_less:
  assumes n: "safe_int (int n)" and lt: "f64_lt x (f64_of_nat n)" and pos: "f64_le f64_zero x" and wf: "f64_wf x"
  shows "f64_to_u64 x < n"
proof (cases x)
  case (Fin s m e)
  obtain t k f where A: "f64_of_int (int n) = Fin t k f" "f \<le> 0"
    "\<And>g. g \<le> f \<Longrightarrow> signed t (k * 2 ^ nat (f - g)) = int n * 2 ^ nat (- g)"
    using whole_parts [OF n] by metis
  define g where "g = min e f"
  have g: "g \<le> e" "g \<le> f" "g \<le> 0" using A(2) by (simp_all add: g_def min.coboundedI2)
  have m: "0 \<le> m" using wf Fin by simp
  have sm: "signed s m = m"
  proof (rule ccontr)
    assume n: "signed s m \<noteq> m"
    then have "s" "0 < m" using m by (auto simp: signed_def split: if_splits)
    moreover from this have "\<not> m * 2 ^ nat (e - min (- 1074) e) < 0" by (simp add: mult_less_0_iff)
    ultimately show False using pos by (simp add: Fin f64_le_def signed_def Let_def)
  qed
  then have sc: "signed s (m * c) = m * c" for c by (auto simp: signed_def)
  have "m * 2 ^ nat (e - g) < int n * 2 ^ nat (- g)"
    using lt A(3) [OF g(2)] by (simp add: Fin f64_of_nat_def A(1) Let_def g_def sc)
  have "f64_trunc_int (Fin s m e) < int n"
  proof (cases "0 \<le> e")
    case True
    have "nat (e - g) = nat e + nat (- g)" using True g by simp
    then have "m * 2 ^ nat e * 2 ^ nat (- g) < int n * 2 ^ nat (- g)"
      using \<open>m * 2 ^ nat (e - g) < int n * 2 ^ nat (- g)\<close> by (simp add: power_add mult.assoc)
    then show ?thesis using True by (simp add: sc)
  next
    case False
    have "nat (- g) = nat (- e) + nat (e - g)" using False g by simp
    then have "m * 2 ^ nat (e - g) < int n * 2 ^ nat (- e) * 2 ^ nat (e - g)"
      using \<open>m * 2 ^ nat (e - g) < int n * 2 ^ nat (- g)\<close> by (simp add: power_add mult.assoc)
    then have "m < int n * 2 ^ nat (- e)" by simp
    moreover have "m div 2 ^ nat (- e) * 2 ^ nat (- e) \<le> m" by (simp add: minus_mod_eq_div_mult [symmetric])
    ultimately have "m div 2 ^ nat (- e) * 2 ^ nat (- e) < int n * 2 ^ nat (- e)" by linarith
    then have "m div 2 ^ nat (- e) < int n" by simp
    then show ?thesis using sm m False by (cases s) (auto simp: signed_def)
  qed
  moreover have "0 \<le> f64_trunc_int (Fin s m e)"
    using sm m by (cases "0 \<le> e"; cases s) (simp_all add: sc, simp_all add: signed_def pos_imp_zdiv_nonneg_iff)
  ultimately have "min (f64_trunc_int (Fin s m e)) (2 ^ 64 - 1) < int n \<and> 0 < n" by linarith
  moreover have "x < int n \<and> 0 < n \<Longrightarrow> nat x < n" for x by linarith
  ultimately show ?thesis unfolding Fin f64_to_u64.simps by blast
next
  case (Inf s)
  obtain t k f where A: "f64_of_int (int n) = Fin t k f" using whole_parts [OF n] by metis
  show ?thesis using lt pos Inf by (cases s) (simp_all add: f64_of_nat_def f64_le_def A)
qed (use lt in \<open>simp add: f64_of_nat_def\<close>)

section \<open>Whole doubles of any size\<close>

lemma f64_eq_zero: "f64_eq (Fin s m e) f64_zero \<longleftrightarrow> m = 0"
  by (auto simp: Let_def signed_def)

lemma f64_round_nonzero:
  assumes M: "0 < M" and g: "- 1074 \<le> g"
  shows "\<not> f64_eq (f64_round b M g False) f64_zero"
proof -
  define e where "e = max (g + int (bit_len M) - 53) (- 1074)"
  show ?thesis
  proof (cases "e - g \<le> 0")
    case True
    then show ?thesis using M f64_eq_zero by (simp add: f64_round_def Let_def e_def [symmetric])
  next
    case False
    then have sh: "nat (e - g) = bit_len M - 53" and bl: "53 < bit_len M" using g by (auto simp: e_def max_def split: if_splits)
    define q where "q = M div 2 ^ nat (e - g)"
    have "2 ^ 52 * 2 ^ nat (e - g) \<le> M"
    proof -
      have "2 ^ 52 * (2::int) ^ nat (e - g) = 2 ^ (bit_len M - 1)" 
      proof -
        have "52 + nat (e - g) = bit_len M - 1" using bl sh by simp
        then show ?thesis by (metis power_add)
      qed
      then show ?thesis using bit_len_ge [OF M] by simp
    qed
    then have "2 ^ 52 * 2 ^ nat (e - g) div 2 ^ nat (e - g) \<le> q" unfolding q_def by (rule zdiv_mono1) simp
    then have "2 ^ 52 \<le> q" by simp
    then have q: "0 < q" by simp
    show ?thesis
      using False M q by (auto simp: f64_round_def Let_def e_def [symmetric] q_def [symmetric] f64_eq_zero simp del: f64_eq.simps)
         (simp_all)
  qed
qed

text \<open>A double whose fraction is zero is the double of its integer part.\<close>

lemma fract_zero_exact:
  assumes wf: "f64_wf (Fin s m e)" and fr: "f64_fract_zero (Fin s m e)" and e: "e < 0"
  shows "m = m div 2 ^ nat (- e) * 2 ^ nat (- e)"
proof (cases "m div 2 ^ nat (- e) = 0")
  case True
  have m: "0 \<le> m" "- 1074 \<le> e" using wf by simp_all
  have "m = 0"
  proof (rule ccontr)
    assume "m \<noteq> 0"
    then have pos: "0 < m * 2 ^ nat (e + 1074)" using m by simp
    have "f64_fract (Fin s m e) = f64_round s (m * 2 ^ nat (e + 1074)) (- 1074) False"
      using True e m \<open>m \<noteq> 0\<close>
      by (simp add: f64_fract_def f64_sub_def f64_round_def [of s 0] Let_def signed_def min_def mult_less_0_iff abs_mult)
    then show False using fr f64_round_nonzero [OF pos] by (simp add: f64_fract_zero_def)
  qed
  then show ?thesis by simp
next
  case False
  define q where "q = m div 2 ^ nat (- e)"
  have m: "0 \<le> m" "- 1074 \<le> e" "m < 2 ^ 53" using wf by simp_all
  have "0 \<le> q" using m by (simp add: q_def pos_imp_zdiv_nonneg_iff)
  then have q0: "0 < q" using False by (simp add: q_def)
  have "q * 2 ^ nat (- e) \<le> m" by (simp add: q_def minus_mod_eq_div_mult [symmetric])
  moreover have "q * 1 \<le> q * 2 ^ nat (- e)" using q0 by (intro mult_left_mono) auto
  ultimately have q1: "q < 2 ^ 53" using m by linarith
  define j where "j = 53 - bit_len q"
  have bl: "bit_len q \<le> 53" using q0 q1 by (intro bit_len_bound) auto
  have tr: "f64_trunc (Fin s m e) = Fin s (q * 2 ^ j) (- int j)"
    using e q0 bl by (simp add: q_def [symmetric] f64_round_def Let_def j_def of_nat_diff max_def)
  define g where "g = min e (- int j)"
  have g: "- 1074 \<le> g" "g \<le> e" "g \<le> - int j" using m by (simp_all add: g_def j_def)
  have p: "(2::int) ^ j * 2 ^ nat (- int j - g) = 2 ^ nat (- g)" "(2::int) ^ nat (- g) = 2 ^ nat (- e) * 2 ^ nat (e - g)"
  proof -
    have "j + nat (- int j - g) = nat (- g)" "nat (- g) = nat (- e) + nat (e - g)" using g e by simp_all
    then show "(2::int) ^ j * 2 ^ nat (- int j - g) = 2 ^ nat (- g)" "(2::int) ^ nat (- g) = 2 ^ nat (- e) * 2 ^ nat (e - g)"
      by (metis power_add)+
  qed
  define v where "v = (m - q * 2 ^ nat (- e)) * 2 ^ nat (e - g)"
  have v: "signed s (m * 2 ^ nat (e - g)) + signed (\<not> s) (q * 2 ^ j * 2 ^ nat (- int j - g)) = signed s v"
    by (simp add: v_def mult.assoc p signed_def left_diff_distrib)
  have "v = 0"
  proof (rule ccontr)
    assume "v \<noteq> 0"
    then have "f64_fract (Fin s m e) = f64_round (signed s v < 0) \<bar>v\<bar> g False"
      using v \<open>v \<noteq> 0\<close>
      by (simp only: f64_fract_def f64_sub_def tr f64_neg.simps f64_add.simps g_def [symmetric] Let_def)
         (simp add: signed_def)
    then show False using fr f64_round_nonzero [of "\<bar>v\<bar>" g] \<open>v \<noteq> 0\<close> g by (simp add: f64_fract_zero_def)
  qed
  then show ?thesis by (simp add: v_def q_def)
qed

lemma f64_of_trunc:
  assumes wf: "f64_wf (Fin s m e)" and fr: "f64_fract_zero (Fin s m e)" and m: "m \<noteq> 0"
  shows "f64_of_int (f64_trunc_int (Fin s m e)) = Fin s m e"
proof -
  have pos: "0 < m" "m < 2 ^ 53" "- 1074 \<le> e" using wf m by auto
  have r: "f64_round s m e False = Fin s m e" by (rule f64_round_wf [OF wf m])
  have sg: "f64_of_int (signed s k) = f64_round s k 0 False" if "0 < k" for k
    using that by (simp add: f64_of_int_def signed_def)
  show ?thesis
  proof (cases "0 \<le> e")
    case True
    then have "f64_round s (m * 2 ^ nat e) 0 False = Fin s m e"
      using f64_round_exact [of m e s "nat e"] pos r by simp
    then show ?thesis using True pos sg [of "m * 2 ^ nat e"] by simp
  next
    case False
    define q where "q = m div 2 ^ nat (- e)"
    have mq: "m = q * 2 ^ nat (- e)" unfolding q_def using fract_zero_exact [OF wf fr] False by simp
    have q: "0 < q" using pos(1) unfolding mq by (simp add: zero_less_mult_iff)
    have "q * 1 \<le> q * 2 ^ nat (- e)" using q by (intro mult_left_mono) auto
    then have "q < 2 ^ 53" using pos mq by linarith
    then have "f64_round s q 0 False = f64_round s (q * 2 ^ nat (- e)) (- int (nat (- e))) False"
      using f64_round_scale [of q s "nat (- e)"] q by simp
    then have "f64_round s q 0 False = Fin s m e" using False r mq by simp
    then show ?thesis using False sg [OF q] by (simp add: q_def)
  qed
qed

lemma whole_bounds:
  assumes wf: "f64_wf (Fin s m e)" and fr: "f64_fract_zero (Fin s m e)"
  shows "f64_lt (Fin s m e) (Fin False (2 ^ 52) 11) \<Longrightarrow> f64_trunc_int (Fin s m e) < 2 ^ 63"
    and "f64_le (Fin True (2 ^ 52) 11) (Fin s m e) \<Longrightarrow> - (2 ^ 63) \<le> f64_trunc_int (Fin s m e)"
proof -
  define i where "i = f64_trunc_int (Fin s m e)"
  define g where "g = min e 11"
  have sc: "signed s (a * c) = signed s a * c" for a c by (simp add: signed_def)
  have big: "(2::int) ^ 52 * 2 ^ nat (11 - g) = 2 ^ 63 * 2 ^ nat (- g) \<and> signed s (m * 2 ^ nat (e - g)) = i * 2 ^ nat (- g)" if "e < 0"
  proof -
    have p: "52 + nat (11 - g) = 63 + nat (- g)" and g: "g = e" using that by (simp_all add: g_def)
    have "signed s m = signed s (m div 2 ^ nat (- e)) * 2 ^ nat (- e)"
      using arg_cong [where f = "signed s", OF fract_zero_exact [OF wf fr that]] by (simp only: sc)
    then have "signed s (m * 2 ^ nat (e - g)) = i * 2 ^ nat (- g)" using that by (simp add: g i_def)
    with p show ?thesis by (metis power_add)
  qed
  have small: "(2::int) ^ 52 * 2 ^ nat (11 - g) * 2 ^ nat g = 2 ^ 63 \<and> signed s (m * 2 ^ nat (e - g)) * 2 ^ nat g = i" if "0 \<le> e"
  proof -
    have "52 + nat (11 - g) + nat g = 63" "nat (e - g) + nat g = nat e" using that by (auto simp: g_def)
    then show ?thesis using that unfolding i_def by (simp add: sc mult.assoc power_add [symmetric])
  qed
  show "f64_trunc_int (Fin s m e) < 2 ^ 63" if "f64_lt (Fin s m e) (Fin False (2 ^ 52) 11)"
  proof -
    have l: "signed s (m * 2 ^ nat (e - g)) < 2 ^ 52 * 2 ^ nat (11 - g)"
      using that by (simp add: Let_def g_def signed_def)
    show ?thesis
    proof (cases "0 \<le> e")
      case True
      have "signed s (m * 2 ^ nat (e - g)) * 2 ^ nat g < 2 ^ 52 * 2 ^ nat (11 - g) * 2 ^ nat g"
        using l by (intro mult_strict_right_mono) auto
      then show ?thesis unfolding conjunct1 [OF small [OF True]] conjunct2 [OF small [OF True]] i_def .
    next
      case False
      then have "i * 2 ^ nat (- g) < 2 ^ 63 * 2 ^ nat (- g)" using l big by simp
      then have "i < 2 ^ 63" by (rule mult_right_less_imp_less) simp
      then show ?thesis by (simp add: i_def)
    qed
  qed
  show "- (2 ^ 63) \<le> f64_trunc_int (Fin s m e)" if "f64_le (Fin True (2 ^ 52) 11) (Fin s m e)"
  proof -
    have l: "- (2 ^ 52 * 2 ^ nat (11 - g)) \<le> signed s (m * 2 ^ nat (e - g))"
      using that by (auto simp: Let_def g_def signed_def f64_le_def min.commute)
    show ?thesis
    proof (cases "0 \<le> e")
      case True
      have "- (2 ^ 52 * 2 ^ nat (11 - g)) * 2 ^ nat g \<le> signed s (m * 2 ^ nat (e - g)) * 2 ^ nat g"
        using l by (intro mult_right_mono) auto
      then show ?thesis
        unfolding mult_minus_left conjunct1 [OF small [OF True]] conjunct2 [OF small [OF True]] i_def .
    next
      case False
      then have "- (2 ^ 63) * 2 ^ nat (- g) \<le> i * 2 ^ nat (- g)" using l big by simp
      then have "- (2 ^ 63) \<le> i" by (rule mult_right_le_imp_le) simp
      then show ?thesis by (simp add: i_def)
    qed
  qed
qed

end
