(* ===== verification/ByteProps.thy ===== *)
theory ByteProps
  imports ByteLib F64Whole
begin

text \<open>What the binary library promises: its codecs invert each other, its slices never leave
  the bytes, and its operations meet their declarations.\<close>

section \<open>Hexadecimal\<close>

lemma byte_bound: "byte c < 256"
  by (simp add: byte_def)

lemma byte_eq: "c = d \<longleftrightarrow> byte c = byte d"
  by (metis byte_def char_of_char)

lemma byte_char_of: "n < 256 \<Longrightarrow> byte (char_of n) = n"
  by (simp add: byte_def)

lemma byte_lower: "byte (lower_char c) = (if 65 \<le> byte c \<and> byte c \<le> 90 then byte c + 32 else byte c)"
  by (simp add: lower_char_def ascii_upper_def byte_char_of)

lemma less16: "(x::nat) < 16 \<longleftrightarrow> x \<in> {0, 1, 2, 3, 4, 5, 6, 7, 8, 9, 10, 11, 12, 13, 14, 15}"
  by (simp only: insert_iff empty_iff) presburger

lemma hex_digit_byte: "x < 16 \<Longrightarrow> byte (hex_digits ! x) = (if x < 10 then 48 + x else 87 + x)"
  by (auto simp: less16 hex_digits_def byte_def)

lemma hex_value_iff: "hex_value c = Some x \<longleftrightarrow> x < 16 \<and> lower_char c = hex_digits ! x"
proof (cases "x < 16")
  case True
  then show ?thesis
    by (auto simp: byte_eq [of "lower_char c"] byte_lower hex_digit_byte hex_value_def ascii_digit_def)
next
  case False
  then show ?thesis by (auto simp: hex_value_def ascii_digit_def)
qed

lemma high_nibble: "unat (drop_bit 4 (b :: 8 word)) = unat b div 16"
  unfolding unat_drop_bit_eq by (simp add: drop_bit_eq_div)

lemma low_nibble: "unat ((b :: 8 word) AND 15) = unat b mod 16"
proof -
  have "b AND 15 = b mod 16"
    using take_bit_eq_mask [of 4 b] by (simp add: take_bit_eq_mod mask_eq_exp_minus_1)
  then show ?thesis by (simp add: unat_mod)
qed

lemma nibbles:
  fixes b :: "8 word"
  shows "unat (drop_bit 4 b) < 16" and "unat (b AND 15) < 16"
  using unsigned_less [of b, where 'a = nat] unfolding high_nibble low_nibble by simp_all

lemma nibble_pair:
  assumes "x < 16" and "y < 16"
  shows "w = word_of_nat (x * 16 + y) \<longleftrightarrow> x = unat (drop_bit 4 (w :: 8 word)) \<and> y = unat (w AND 15)"
proof -
  have "w = word_of_nat (x * 16 + y) \<longleftrightarrow> unat w = unat (word_of_nat (x * 16 + y) :: 8 word)" by (rule word_unat_eq_iff)
  also have "unat (word_of_nat (x * 16 + y) :: 8 word) = x * 16 + y"
    unfolding unat_of_nat using assms by simp
  also have "unat w = x * 16 + y \<longleftrightarrow> x = unat w div 16 \<and> y = unat w mod 16"
    using assms by (metis div_mult_mod_eq div_mult_self3 mod_mult_self3 div_less mod_less add_0 add.right_neutral
        zero_neq_numeral)
  finally show ?thesis unfolding high_nibble low_nibble .
qed

lemma hex_pairs_iff:
  "length s mod 2 = 0 \<Longrightarrow> hex_pairs s = Some bs \<longleftrightarrow> ascii_lowercase s = to_hex bs"
proof (induction s arbitrary: bs rule: induct_list012)
  case (3 a b cs)
  then have IH: "hex_pairs cs = Some bs \<longleftrightarrow> ascii_lowercase cs = to_hex bs" for bs by simp
  show ?case
  proof (cases bs)
    case Nil
    then show ?thesis by (auto simp: ascii_lowercase_def split: option.splits)
  next
    case (Cons w ws)
    have "hex_pairs (a # b # cs) = Some (w # ws) \<longleftrightarrow>
        (\<exists>x y. hex_value a = Some x \<and> hex_value b = Some y \<and> w = word_of_nat (x * 16 + y) \<and> hex_pairs cs = Some ws)"
      by (auto split: option.splits)
    also have "\<dots> \<longleftrightarrow> hex_value a = Some (unat (drop_bit 4 w)) \<and> hex_value b = Some (unat (w AND 15)) \<and>
        hex_pairs cs = Some ws"
    proof -
      have "w = word_of_nat (x * 16 + y) \<longleftrightarrow> x = unat (drop_bit 4 w) \<and> y = unat (w AND 15)"
        if "hex_value a = Some x" "hex_value b = Some y" for x y
        using that nibble_pair by (simp add: hex_value_iff)
      then show ?thesis by (cases "hex_value a"; cases "hex_value b") auto
    qed
    also have "\<dots> \<longleftrightarrow> ascii_lowercase (a # b # cs) = to_hex (w # ws)"
      using nibbles [of w] by (simp add: hex_value_iff IH ascii_lowercase_def)
    finally show ?thesis using Cons by simp
  qed
next
  case 1
  show ?case by (cases bs) (simp_all add: ascii_lowercase_def)
qed simp

lemma length_to_hex: "length (to_hex bs) = 2 * length bs"
  by (induction bs) simp_all

text \<open>
  C18. The reading of hexadecimal text inverts the writing, and only it: a text is accepted
  exactly when, lower-cased, it is what some bytes are written as, and those are the bytes read.
\<close>

theorem hex_exact: "from_hex s = Some bs \<longleftrightarrow> ascii_lowercase s = to_hex bs"
proof (cases "length s mod 2 = 0")
  case True
  then show ?thesis by (simp add: from_hex_def hex_pairs_iff)
next
  case False
  then have "length (ascii_lowercase s) mod 2 \<noteq> length (to_hex bs) mod 2"
    unfolding length_to_hex by (simp add: ascii_lowercase_def)
  then show ?thesis using False by (auto simp: from_hex_def)
qed

section \<open>Base 64\<close>

lemma base64_length: "length base64_digits = 64"
  by (simp add: base64_digits_def)

lemma base64_distinct: "distinct base64_digits"
  by (simp add: base64_digits_def)

lemma find_enumerate:
  "distinct ds \<Longrightarrow> i < length ds \<Longrightarrow> find (\<lambda>(_, d). d = ds ! i) (enumerate k ds) = Some (k + i, ds ! i)"
proof (induction ds arbitrary: k i)
  case (Cons d ds)
  show ?case
  proof (cases i)
    case (Suc j)
    then have "ds ! j \<noteq> d" using Cons.prems by (auto simp: in_set_conv_nth)
    then show ?thesis using Cons.IH [of j "Suc k"] Cons.prems Suc by auto
  qed simp
qed simp

lemma base64_value_digit: "i < 64 \<Longrightarrow> base64_value (base64_digits ! i) = Some (word_of_nat i)"
  unfolding base64_value_def using find_enumerate [OF base64_distinct, of i 0] by (simp add: base64_length)

lemma sextet_bound: "unat ((n::32 word) AND 63) < 64"
proof -
  have "n AND 63 \<le> 63" by (rule word_and_le1)
  then have "unat (n AND 63) \<le> unat (63 :: 32 word)" by (simp only: word_le_nat_alt)
  then show ?thesis by simp
qed

lemma base64_value_sextet: "base64_value (sextet n k) = Some (drop_bit k n AND 63)"
  using base64_value_digit [OF sextet_bound] by (simp add: sextet_def)

lemma equals_no_digit: "CHR ''='' \<notin> set base64_digits"
  by (simp add: base64_digits_def)

lemma sextet_not_pad: "sextet n k \<noteq> CHR ''=''"
proof -
  have "sextet n k \<in> set base64_digits" by (simp add: sextet_def base64_length sextet_bound nth_mem)
  then show ?thesis using equals_no_digit by metis
qed

lemma six_bits: "(63 :: 32 word) = mask 6"
  by (simp add: mask_eq_exp_minus_1)

lemma regroup:
  "push_bit 6 (push_bit 6 (push_bit 6 (push_bit 6 0 OR (drop_bit 18 n AND 63)) OR (drop_bit 12 n AND 63)) OR
     (drop_bit 6 n AND 63)) OR (n AND 63) = take_bit 24 (n :: 32 word)"
  unfolding six_bits
proof (rule bit_word_eqI)
  fix i :: nat
  consider "i < 6" | "6 \<le> i" "i < 12" | "12 \<le> i" "i < 18" | "18 \<le> i" "i < 24" | "24 \<le> i" by linarith
  then show "bit (push_bit 6 (push_bit 6 (push_bit 6 (push_bit 6 0 OR (drop_bit 18 n AND mask 6)) OR (drop_bit 12 n AND mask 6)) OR
     (drop_bit 6 n AND mask 6)) OR (n AND mask 6)) i = bit (take_bit 24 n) i" if "i < LENGTH(32)"
    by cases (use that in \<open>auto simp: bit_or_iff bit_and_iff bit_push_bit_iff bit_drop_bit_eq bit_mask_iff bit_take_bit_iff\<close>)
qed

lemma group_parts:
  "take_bit 24 (group_bits a b c) = group_bits a b c"
  "ucast (drop_bit 16 (group_bits a b c)) = a" "ucast (drop_bit 8 (group_bits a b c)) = b"
  "ucast (group_bits a b c) = c"
  by (rule bit_word_eqI, auto simp: group_bits_def bit_simps dest: bit_imp_le_length)+

text \<open>The digits under the padding would be zeros, so the three lengths read alike.\<close>

lemma group_zeros:
  "group_bits a b 0 AND 63 = 0" "group_bits a 0 0 AND 63 = 0" "drop_bit 6 (group_bits a 0 0) AND 63 = 0"
  unfolding six_bits by (rule bit_word_eqI, auto simp: group_bits_def bit_simps)+

lemma group_read:
  "chunk_bits 4 [sextet n 18, sextet n 12, sextet n 6, sextet n 0] 0 = Some (take_bit 24 n)"
  "n AND 63 = 0 \<Longrightarrow> chunk_bits 3 [sextet n 18, sextet n 12, sextet n 6, c] 0 = Some (take_bit 24 n)"
  "n AND 63 = 0 \<Longrightarrow> drop_bit 6 n AND 63 = 0 \<Longrightarrow> chunk_bits 2 [sextet n 18, sextet n 12, c, d] 0 = Some (take_bit 24 n)"
  using regroup [of n] by (simp_all add: base64_value_sextet numeral_eq_Suc)

lemma group_chunks:
  "base64_chunks (to_base64 [a, b, c] @ cs) = map_option ((@) [a, b, c]) (base64_chunks cs)"
  "base64_chunks (to_base64 [a, b]) = Some [a, b]"
  "base64_chunks (to_base64 [a]) = Some [a]"
  using group_read(1) [of "group_bits a b c"] group_read(2) [of "group_bits a b 0"] group_read(3) [of "group_bits a 0 0"]
  by (simp_all add: Let_def padding_def sextet_not_pad group_parts chunk_bytes_def group_zeros del: chunk_bits.simps)

lemma length_to_base64: "length (to_base64 bs) = 4 * ((length bs + 2) div 3)"
proof (induction bs rule: to_base64.induct)
  case (4 a b c bs)
  have "(length (a # b # c # bs) + 2) div 3 = Suc ((length bs + 2) div 3)" by simp
  with 4 show ?case by (simp add: Let_def del: div_Suc)
qed (simp_all add: Let_def)

text \<open>
  C17. Base-64 text reads back as the bytes it was written from, whatever their number, and
  has four digits for every three bytes begun.
\<close>

theorem base64_roundtrip:
  "from_base64 (to_base64 bs) = Some bs \<and> length (to_base64 bs) = 4 * ((length bs + 2) div 3)"
proof -
  have "base64_chunks (to_base64 bs) = Some bs"
  proof (induction bs rule: to_base64.induct)
    case (4 a b c bs)
    moreover have "to_base64 (a # b # c # bs) = to_base64 [a, b, c] @ to_base64 bs" by (simp add: Let_def)
    ultimately show ?case by (simp only: group_chunks(1)) simp
  qed (simp_all only: group_chunks, simp)
  then show ?thesis by (simp add: from_base64_def length_to_base64)
qed

section \<open>Slices\<close>

text \<open>Where an offset points: negative ones count from the end, others are clipped to it.\<close>

definition offset :: "int \<Rightarrow> nat \<Rightarrow> nat" where
  "offset i len = (if i < 0 then nat (int len + i) else min (nat i) len)"

lemma bytes_index_le:
  assumes n: "safe_int (int n)"
  shows "bytes_index x n \<le> n"
proof -
  have z: "f64_to_u64 f64_zero = 0" by (simp add: signed_def)
  have top: "f64_to_u64 (f64_of_nat n) = n" using f64_to_u64_whole [OF n] by (simp add: f64_of_nat_def)
  have "f64_to_u64 (f64_clamp y f64_zero (f64_of_nat n)) \<le> n" for y
    using f64_to_u64_le [OF n, of y] by (simp add: f64_clamp_def z top del: f64_to_u64.simps)
  moreover have "f64_to_u64 (f64_min y (f64_of_nat n)) \<le> n" for y
    using f64_to_u64_le [OF n, of y] by (simp add: f64_min_def top del: f64_to_u64.simps)
  ultimately show ?thesis by (simp add: bytes_index_def Let_def)
qed

lemma bytes_index_whole:
  assumes n: "safe_int (int n)" and i: "safe_int i"
  shows "bytes_index (f64_of_int i) n = offset i n"
proof (cases "i < 0")
  case True
  have s: "safe_int (int n + i)" "safe_int 0" using n i True by (simp_all add: safe_int_def)
  have "f64_clamp (f64_of_int (int n + i)) (f64_of_int 0) (f64_of_int (int n)) = f64_of_int (max 0 (int n + i))"
    using True by (simp add: f64_clamp_def f64_lt_whole s n max_def)
  moreover have "safe_int (max 0 (int n + i))" using s by (simp add: max_def)
  ultimately show ?thesis
    using True n i s
    by (simp add: bytes_index_def f64_not_NaN f64_trunc_whole Let_def f64_zero_whole f64_lt_whole f64_of_nat_def
        f64_add_whole f64_to_u64_whole offset_def del: f64_to_u64.simps)
next
  case False
  have "safe_int (min i (int n))" "safe_int 0" and m: "nat (min i (int n)) = min (nat i) n"
    using n i by (auto simp: min_def safe_int_def)
  then show ?thesis
    using False n i
    by (simp add: bytes_index_def f64_not_NaN f64_trunc_whole Let_def f64_zero_whole f64_lt_whole f64_of_nat_def
        f64_min_whole f64_to_u64_whole offset_def m del: f64_to_u64.simps)
qed

text \<open>
  C19. A slice never leaves the bytes, whatever doubles its bounds are - NaN, infinite,
  fractional; for whole bounds it holds the bytes from one offset up to the other, where
  negative offsets count from the end, and none if they cross.
\<close>

theorem bytes_slice_exact:
  assumes "length b < 2 ^ 53"
  shows "(\<exists>i j. i \<le> j \<and> j \<le> length b \<and> bytes_slice b x y = Ok (take (j - i) (drop i b))) \<and>
    (safe_int m \<longrightarrow> safe_int n \<longrightarrow>
       bytes_slice b (f64_of_int m) (f64_of_int n) =
         Ok (take (offset n (length b) - offset m (length b)) (drop (offset m (length b)) b)))"
proof -
  have s: "safe_int (int (length b))" using assms by (simp add: safe_int_def)
  note le = bytes_index_le [OF s]
  have "\<exists>i j. i \<le> j \<and> j \<le> length b \<and> bytes_slice b x y = Ok (take (j - i) (drop i b))"
    by (rule exI [of _ "bytes_index x (length b)"],
        rule exI [of _ "max (bytes_index y (length b)) (bytes_index x (length b))"])
       (simp add: bytes_slice_def byte_range_def Let_def le)
  moreover have "offset k (length b) \<le> length b" for k by (auto simp: offset_def)
  ultimately show ?thesis
    by (auto simp: bytes_slice_def byte_range_def Let_def bytes_index_whole [OF s] max_def)
qed

theorem bytes_slice_exact_witness:
  "bytes_slice [1, 2, 3, 4, 5] (f64_of_int (- 4)) (f64_of_int (- 1)) = Ok [2, 3, 4]"
proof -
  have s: "safe_int (- 4)" "safe_int (- 1)" by (simp_all add: safe_int_def)
  have l: "length [1, 2, 3, 4, 5 :: 8 word] < 2 ^ 53" and l5: "length [1, 2, 3, 4, 5 :: 8 word] = 5" by simp_all
  from bytes_slice_exact [OF l, unfolded l5] s
  have "bytes_slice [1, 2, 3, 4, 5] (f64_of_int (- 4)) (f64_of_int (- 1)) =
      Ok (take (offset (- 1) 5 - offset (- 4) 5) (drop (offset (- 4) 5) [1, 2, 3, 4, 5]))" by simp
  then show ?thesis by (simp add: offset_def)
qed

section \<open>The host operations\<close>

text \<open>Bytes that fit in memory, numbers that are doubles.\<close>

fun sized :: "host_value \<Rightarrow> bool" where
  "sized (HV_Bytes b) \<longleftrightarrow> length b < 2 ^ 53"
| "sized (HV_Number n) \<longleftrightarrow> f64_wf n"
| "sized _ \<longleftrightarrow> True"

lemma bytes_at_typed:
  assumes "length b < 2 ^ 53" and "f64_wf i"
  shows "\<exists>v. bytes_at b i = Ok v \<and> accepts (HT_Option HT_Number) v"
proof -
  have "safe_int (int (length b))" using assms(1) by (simp add: safe_int_def)
  from f64_to_u64_less [OF this _ _ assms(2)] show ?thesis by (auto simp: bytes_at_def)
qed

lemma numbers_read: "list_all (accepts HT_Number) vs \<Longrightarrow> \<exists>ns. res_mapM number_of vs = Ok ns"
proof (induction vs)
  case (Cons v vs)
  then obtain n where "v = HV_Number n" by (auto split: host_value.splits)
  with Cons show ?case by auto
qed simp

lemma accepts_kinds:
  "accepts HT_Bytes v \<Longrightarrow> \<exists>b. v = HV_Bytes b" "accepts HT_Number v \<Longrightarrow> \<exists>n. v = HV_Number n"
  "accepts HT_String v \<Longrightarrow> \<exists>s. v = HV_String s"
  "accepts (HT_List HT_Number) v \<Longrightarrow> \<exists>vs. v = HV_List vs \<and> list_all (accepts HT_Number) vs"
  by (auto split: host_value.splits)

definition keeps_type :: "string \<times> host_type list \<times> host_type \<times> host_value list \<times> bool \<Rightarrow> bool" where
  "keeps_type e \<longleftrightarrow> (case e of (name, args, output, _, chan) \<Rightarrow>
     \<forall>vs. list_all2 accepts args vs \<longrightarrow> list_all sized vs \<longrightarrow>
       (\<exists>v. bytes_op name vs = Ok v \<and> accepts output v) \<or> (chan \<and> (\<exists>e. bytes_op name vs = Err e)))"

lemma keeps_type_1:
  assumes "\<And>v. accepts t v \<Longrightarrow>
      (\<exists>x. bytes_op name [v] = Ok x \<and> accepts output x) \<or> (chan \<and> (\<exists>e. bytes_op name [v] = Err e))"
  shows "keeps_type (name, [t], output, ds, chan)"
  unfolding keeps_type_def prod.case list_all2_Cons1 list_all2_Nil using assms by fast

lemma keeps_type_2:
  assumes "\<And>v w. accepts t v \<Longrightarrow> accepts u w \<Longrightarrow> sized v \<Longrightarrow> sized w \<Longrightarrow>
      \<exists>x. bytes_op name [v, w] = Ok x \<and> accepts output x"
  shows "keeps_type (name, [t, u], output, ds, chan)"
  unfolding keeps_type_def prod.case list_all2_Cons1 list_all2_Nil using assms by fastforce

lemma keeps_type_3:
  assumes "\<And>v w z. accepts t v \<Longrightarrow> accepts u w \<Longrightarrow> accepts r z \<Longrightarrow> sized v \<Longrightarrow>
      \<exists>x. bytes_op name [v, w, z] = Ok x \<and> accepts output x"
  shows "keeps_type (name, [t, u, r], output, ds, chan)"
  unfolding keeps_type_def prod.case list_all2_Cons1 list_all2_Nil using assms by fastforce

lemma bytes_table_typed: "\<forall>e \<in> set bytes_table. keeps_type e"
  unfolding bytes_table_def list.set ball_simps
proof (intro conjI TrueI)
  show "keeps_type (''len'', [HT_Bytes], HT_Number, [], False)" "keeps_type (''to_hex'', [HT_Bytes], HT_String, [], False)"
    "keeps_type (''to_base64'', [HT_Bytes], HT_String, [], False)"
    by (rule keeps_type_1, drule accepts_kinds, clarify, simp add: bytes_op_def split: option.split)+
  show "keeps_type (''from_string'', [HT_String], HT_Bytes, [], False)"
    "keeps_type (''from_hex'', [HT_String], HT_Option HT_Bytes, [], False)"
    "keeps_type (''from_base64'', [HT_String], HT_Option HT_Bytes, [], False)"
    by (rule keeps_type_1, drule accepts_kinds, clarify, simp add: bytes_op_def optional_bytes_def split: option.split)+
  show "keeps_type (''from_array'', [HT_List HT_Number], HT_Option HT_Bytes, [], False)"
  proof (rule keeps_type_1)
    fix v assume "accepts (HT_List HT_Number) v"
    then obtain vs ns where "v = HV_List vs" "res_mapM number_of vs = Ok ns"
      using accepts_kinds(4) numbers_read by metis
    then show "(\<exists>x. bytes_op ''from_array'' [v] = Ok x \<and> accepts (HT_Option HT_Bytes) x) \<or>
        (False \<and> (\<exists>e. bytes_op ''from_array'' [v] = Err e))"
      by (simp add: bytes_op_def optional_bytes_def split: option.split)
  qed
  show "keeps_type (''concat'', [HT_Bytes, HT_Bytes], HT_Bytes, [], False)"
    by (rule keeps_type_2, drule accepts_kinds, drule accepts_kinds, clarify) (simp add: bytes_op_def)
  show "keeps_type (''get'', [HT_Bytes, HT_Number], HT_Option HT_Number, [], False)"
  proof (rule keeps_type_2)
    fix v w assume t: "accepts HT_Bytes v" "accepts HT_Number w" and s: "sized v" "sized w"
    obtain b i where "v = HV_Bytes b" "w = HV_Number i" using accepts_kinds(1,2) t by metis
    then show "\<exists>x. bytes_op ''get'' [v, w] = Ok x \<and> accepts (HT_Option HT_Number) x"
      using s bytes_at_typed [of b i] by (simp add: bytes_op_def)
  qed
  show "keeps_type (''to_string'', [HT_Bytes], HT_String, [], True)"
  proof (rule keeps_type_1)
    fix v assume "accepts HT_Bytes v"
    then obtain b where "v = HV_Bytes b" using accepts_kinds(1) by metis
    then show "(\<exists>x. bytes_op ''to_string'' [v] = Ok x \<and> accepts HT_String x) \<or>
        (True \<and> (\<exists>e. bytes_op ''to_string'' [v] = Err e))"
      by (cases "utf8_error 0 b") (simp_all add: bytes_op_def)
  qed
  show "keeps_type (''slice'', [HT_Bytes, HT_Number, HT_Number], HT_Bytes, [HV_Number (f64_of_int 9007199254740991)], False)"
  proof (rule keeps_type_3)
    fix v w z assume t: "accepts HT_Bytes v" "accepts HT_Number w" "accepts HT_Number z" and s: "sized v"
    obtain b i j where v: "v = HV_Bytes b" "w = HV_Number i" "z = HV_Number j" using accepts_kinds(1,2) t by metis
    then have "safe_int (int (length b))" using s by (simp add: safe_int_def)
    then show "\<exists>x. bytes_op ''slice'' [v, w, z] = Ok x \<and> accepts HT_Bytes x"
      by (simp add: v bytes_op_def bytes_slice_def byte_range_def Let_def bytes_index_le)
  qed
qed

text \<open>
  C20. Each operation of the library, called with arguments of its declared types, answers
  with a value of its declared result; only one declared with a result channel can answer
  with an error; and no branch the sources call unreachable is reached.
\<close>

theorem bytes_ops_typed:
  assumes "(name, args, output, defs, chan) \<in> set bytes_table" and "list_all2 accepts args vs" and "list_all sized vs"
  shows "(\<exists>v. bytes_op name vs = Ok v \<and> accepts output v) \<or> (chan \<and> (\<exists>e. bytes_op name vs = Err e))"
  using bytes_table_typed assms unfolding keeps_type_def by fast

theorem bytes_ops_typed_witness:
  "\<exists>v. bytes_op ''get'' [HV_Bytes [7, 9], HV_Number f64_one] = Ok v \<and> accepts (HT_Option HT_Number) v"
proof -
  have "(''get'', [HT_Bytes, HT_Number], HT_Option HT_Number, [], False) \<in> set bytes_table"
    by (simp add: bytes_table_def)
  moreover have "list_all2 accepts [HT_Bytes, HT_Number] [HV_Bytes [7, 9], HV_Number f64_one]"
    "list_all sized [HV_Bytes [7, 9], HV_Number f64_one]"
    by (simp_all add: f64_one_def)
  ultimately show ?thesis using bytes_ops_typed by blast
qed

section \<open>Registration\<close>

text \<open>
  An operation without bindings whose types are valid and mention no nominal type; its
  registration depends only on its name.
\<close>

definition bare_op :: "(string \<Rightarrow> string) \<Rightarrow> host_op \<Rightarrow> bool" where
  "bare_op quote op \<longleftrightarrow>
     \<not> global op \<and> global_value op = None \<and> namespace op = None \<and> receiver_method op = None \<and>
     \<not> receiver_property op \<and> receiver_setter op = None \<and> \<not> json_body op \<and> result_error op = None \<and>
     \<not> exception_channel op \<and> is_identifier (op_name op) \<and>
     check_types quote op = Ok () \<and> eachM collect_type (op_types op) = ret ()"

lemma pair_conflict_bare: "receiver_setter op = None \<Longrightarrow> receiver_method op = None \<Longrightarrow> \<not> pair_conflict op old"
  by (auto simp: pair_conflict_def property_pair_def)

definition bare_hosts :: "hosts \<Rightarrow> bool" where
  "bare_hosts hs \<longleftrightarrow> bt_inv (operations hs) \<and> nominal hs = [] \<and>
     (\<forall>op \<in> set (bt_values (operations hs)). eachM collect_type (op_types op) = ret ())"

lemma nominal_schemas_bare:
  assumes "\<forall>op \<in> set ops. eachM collect_type (op_types op) = ret ()"
  shows "nominal_schemas ops = Ok []"
proof -
  have "eachM (\<lambda>op. eachM collect_type (op_types op)) ops [] = (Ok (), [])"
    using assms by (induction ops) (simp_all add: monad_defs)
  then show ?thesis by (simp add: nominal_schemas_def)
qed

lemma register_bare:
  assumes op: "bare_op quote op" and hs: "bare_hosts hs" and new: "bt_get (operations hs) (op_name op) = None"
  shows "\<exists>hs'. register quote op hs = (Ok (), hs') \<and> bare_hosts hs' \<and>
    operations hs' = bt_insert (op_name op) op (operations hs)"
proof -
  have "check_names hs op = Ok ()"
    using op new by (simp add: check_names_def bare_op_def res_then_def reject_if_def bt_contains_get)
  moreover have "check_receivers hs op = Ok ()"
    using op by (simp add: check_receivers_def bare_op_def res_then_def reject_if_def any_op_def pair_conflict_bare
        list_ex_iff)
  moreover have "nominal_schemas (bt_values (operations hs) @ [op]) = Ok []"
    using op hs by (intro nominal_schemas_bare) (auto simp: bare_op_def bare_hosts_def)
  ultimately have "register quote op hs =
      (Ok (), \<lparr>operations = bt_insert (op_name op) op (operations hs), nominal = []\<rparr>)"
    using op by (simp add: register_def bare_op_def res_then_def)
  moreover have "bare_hosts \<lparr>operations = bt_insert (op_name op) op (operations hs), nominal = []\<rparr>"
    using op hs set_bt_insert_pairs [of "op_name op" op "operations hs"]
    by (fastforce simp: bare_hosts_def bare_op_def bt.inv_insert bt_values_def)
  ultimately show ?thesis by simp
qed

lemma register_all_bare:
  "list_all (bare_op quote) ops \<Longrightarrow> bare_hosts hs \<Longrightarrow> distinct (map op_name ops) \<Longrightarrow>
   (\<forall>op \<in> set ops. bt_get (operations hs) (op_name op) = None) \<Longrightarrow>
   \<exists>hs'. register_all quote ops hs = (Ok (), hs') \<and>
     (\<forall>op \<in> set ops. bt_get (operations hs') (op_name op) = Some op) \<and>
     (\<forall>n. n \<notin> op_name ` set ops \<longrightarrow> bt_get (operations hs') n = bt_get (operations hs) n)"
proof (induction ops arbitrary: hs)
  case (Cons op ops)
  obtain h1 where r: "register quote op hs = (Ok (), h1)" and b: "bare_hosts h1"
    and o: "operations h1 = bt_insert (op_name op) op (operations hs)"
    using register_bare [of quote op hs] Cons.prems by auto
  have get: "bt_get (operations h1) n = (if n = op_name op then Some op else bt_get (operations hs) n)" for n
    by (simp add: o)
  have "\<exists>hs'. register_all quote ops h1 = (Ok (), hs') \<and>
     (\<forall>op \<in> set ops. bt_get (operations hs') (op_name op) = Some op) \<and>
     (\<forall>n. n \<notin> op_name ` set ops \<longrightarrow> bt_get (operations hs') n = bt_get (operations h1) n)"
  proof (rule Cons.IH)
    have "op_name x \<noteq> op_name op" if "x \<in> set ops" for x using Cons.prems(3) that by (auto simp: rev_image_eqI)
    then show "\<forall>x \<in> set ops. bt_get (operations h1) (op_name x) = None" using Cons.prems(4) get by simp
  qed (use Cons.prems b in auto)
  then obtain hs' where h: "register_all quote ops h1 = (Ok (), hs')"
    "\<forall>op \<in> set ops. bt_get (operations hs') (op_name op) = Some op"
    "\<forall>n. n \<notin> op_name ` set ops \<longrightarrow> bt_get (operations hs') n = bt_get (operations h1) n" by blast
  have "register_all quote (op # ops) hs = (Ok (), hs')"
    using r h(1) by (simp add: register_all_def seq_Ok)
  with h(2,3) Cons.prems(3) show ?case by (intro exI [of _ hs']) (auto simp: get)
qed (simp add: register_all_def run_simps)

lemma register_all_ok:
  "hosts_ok hs \<Longrightarrow> list_all op_wf ops \<Longrightarrow> register_all quote ops hs = (Ok (), hs') \<Longrightarrow> hosts_ok hs'"
proof (induction ops arbitrary: hs)
  case (Cons op ops)
  obtain h1 where r: "register quote op hs = (Ok (), h1)" and rest: "register_all quote ops h1 = (Ok (), hs')"
    using Cons.prems(3) by (auto simp: register_all_def seq_Ok)
  have "hosts_ok h1" by (rule register_hosts_ok(1) [OF Cons.prems(1) _ r]) (use Cons.prems(2) in simp)
  from Cons.IH [OF this _ rest] Cons.prems(2) show ?case by simp
qed (simp add: register_all_def run_simps)

lemma bytes_ops_bare: "list_all (bare_op quote) (map bytes_host_op bytes_table)"
  unfolding bytes_table_def list.map list.pred_inject
  by (simp add: bytes_host_op_def new_op_def bare_op_def check_types_def res_then_def reject_if_def op_types_def run_simps
      monad_defs is_identifier_def ascii_alpha_def ascii_upper_def ascii_lower_def ascii_digit_def byte_def
      within_depth_def f64_of_int_finite)

text \<open>
  The library can be registered in a fresh registry: all its operations pass the checks,
  and each is then found under its name with the types, the defaults and the handler of the
  table; the registry stays well formed.
\<close>

theorem bytes_registered:
  "\<exists>hs. register_bytes quote empty_hosts = (Ok (), hs) \<and> hosts_ok hs \<and>
    list_all (\<lambda>e. bt_get (operations hs) (''bytes_'' @ fst e) = Some (bytes_host_op e)) bytes_table"
proof -
  let ?ops = "map bytes_host_op bytes_table"
  have names: "op_name (bytes_host_op e) = ''bytes_'' @ fst e" for e
    by (cases e) (simp add: bytes_host_op_def new_op_def)
  have "distinct (map op_name ?ops)" by (simp add: bytes_table_def bytes_host_op_def new_op_def)
  moreover have "bare_hosts empty_hosts" by (simp add: bare_hosts_def empty_hosts_def bt.inv_empty bt_values_def)
  moreover have "\<forall>op \<in> set ?ops. bt_get (operations empty_hosts) (op_name op) = None"
    by (simp add: empty_hosts_def bt_get_def)
  ultimately obtain hs where hs: "register_all quote ?ops empty_hosts = (Ok (), hs)"
    "\<forall>op \<in> set ?ops. bt_get (operations hs) (op_name op) = Some op"
    using register_all_bare [OF bytes_ops_bare] by blast
  have "list_all op_wf ?ops"
    by (simp add: bytes_table_def bytes_host_op_def new_op_def op_wf_def op_types_def)
  from register_all_ok [OF hosts_ok_empty this hs(1)] hs show ?thesis
    by (intro exI [of _ hs]) (auto simp: register_bytes_def list_all_iff names)
qed

end
