(* ===== verification/HeaderProps.thy ===== *)
theory HeaderProps
  imports HttpHeaders ByteProps
begin

text \<open>
  What a header list promises: no operation lets a byte through that could break the framing
  of a message, names are found whatever their case, and the list is the map from names to
  lists of values that the Fetch standard describes.
\<close>

section \<open>Well-formed text\<close>

text \<open>
  Rust's strings are valid UTF-8: each character has the bytes its first byte announces, in
  the ranges the encoding allows.
\<close>

definition char_ok :: "string \<Rightarrow> bool" where
  "char_ok g \<longleftrightarrow> (case str_bytes g of
       [] \<Rightarrow> False
     | a # bs \<Rightarrow> utf8_step a bs = None \<and> length g = utf8_width a)"

definition text_ok :: "string \<Rightarrow> bool" where
  "text_ok s \<longleftrightarrow> list_all char_ok (utf8_chars s)"

lemma str_bytes_simps [simp]:
  "str_bytes [] = []" "str_bytes (c # s) = of_char c # str_bytes s" "length (str_bytes s) = length s"
  by (simp_all add: str_bytes_def)

lemma unat_byte: "unat (of_char c :: 8 word) = byte c"
  by (subst of_nat_of_char [symmetric]) (use byte_bound [of c] in \<open>simp add: unat_of_nat byte_def\<close>)

lemmas byte_order = word_le_nat_alt word_less_nat_alt word_unat_eq_iff unat_byte

lemma width_byte:
  "utf8_width (of_char c) =
     (if byte c < 128 then 1 else if 194 \<le> byte c \<and> byte c \<le> 223 then 2
      else if 224 \<le> byte c \<and> byte c \<le> 239 then 3 else if 240 \<le> byte c \<and> byte c \<le> 244 then 4 else 0)"
  by (simp add: utf8_width_def byte_order)

lemma cont_byte: "utf8_cont (of_char c) \<longleftrightarrow> is_cont c"
  by (auto simp: utf8_cont_def is_cont_def byte_order)

lemma second_byte: "utf8_second (of_char a) (of_char b) \<Longrightarrow>
   is_cont b \<and> (byte a = 224 \<longrightarrow> 160 \<le> byte b) \<and> (byte a = 240 \<longrightarrow> 144 \<le> byte b)"
  by (auto simp: utf8_second_def cont_byte is_cont_def byte_order split: if_splits)

text \<open>What a well-formed character looks like.\<close>

lemma char_ok_cases:
  assumes "char_ok g"
  obtains (one) a where "g = [a]" and "byte a < 128"
  | (two) a b where "g = [a, b]" and "194 \<le> byte a" and "byte a \<le> 223" and "is_cont b"
  | (more) a bs where "g = a # bs" and "224 \<le> byte a" and "code_point g > 255"
proof (cases g)
  case (Cons a bs)
  have w: "length g = utf8_width (of_char a)" and st: "utf8_step (of_char a) (str_bytes bs) = None"
    using assms Cons by (auto simp: char_ok_def)
  consider "byte a < 128" | "194 \<le> byte a" "byte a \<le> 223" | "224 \<le> byte a" "byte a \<le> 239" | "240 \<le> byte a" "byte a \<le> 244"
    using st by (auto simp: utf8_step_def width_byte split: if_splits)
  then show ?thesis
  proof cases
    case 1
    then show ?thesis using one [of a] w Cons by (simp add: width_byte)
  next
    case 2
    then obtain b where "bs = [b]" using w Cons by (auto simp: width_byte length_Suc_conv)
    then show ?thesis using two [of a b] 2 st Cons by (auto simp: utf8_step_def width_byte cont_byte split: if_splits)
  next
    case 3
    then obtain b c where bs: "bs = [b, c]" using w Cons by (auto simp: width_byte length_Suc_conv numeral_eq_Suc)
    then have "utf8_second (of_char a) (of_char b)" using 3 st by (auto simp: utf8_step_def width_byte split: if_splits)
    then have "is_cont b" "byte a = 224 \<longrightarrow> 160 \<le> byte b" using second_byte by blast+
    then have "code_point g > 255" using 3 bs Cons by (cases "byte a = 224") (auto simp: is_cont_def)
    then show ?thesis using more [of a bs] 3 Cons by simp
  next
    case 4
    then obtain b c d where bs: "bs = [b, c, d]" using w Cons by (auto simp: width_byte length_Suc_conv numeral_eq_Suc)
    then have "utf8_second (of_char a) (of_char b)" using 4 st by (auto simp: utf8_step_def width_byte split: if_splits)
    then have "is_cont b" "byte a = 240 \<longrightarrow> 144 \<le> byte b" using second_byte by blast+
    then have "code_point g > 255" using 4 bs Cons by (cases "byte a = 240") (auto simp: is_cont_def)
    then show ?thesis using more [of a bs] 4 Cons by simp
  qed
qed (use assms in \<open>simp add: char_ok_def\<close>)

lemma char_ok_head: "char_ok (a # bs) \<Longrightarrow> \<not> is_cont a"
  by (auto elim!: char_ok_cases simp: is_cont_def)

lemma char_ok_ascii: "char_ok (a # bs) \<Longrightarrow> byte a < 128 \<Longrightarrow> bs = []"
  by (auto elim!: char_ok_cases)

lemma utf8_chars_snoc: "\<not> is_cont c \<Longrightarrow> utf8_chars (s @ [c]) = utf8_chars s @ [[c]]"
proof (induction s rule: utf8_chars.induct)
  case (2 b bs)
  show ?case
  proof (cases "list_all is_cont bs")
    case True
    then have w: "takeWhile is_cont (bs @ [c]) = bs" "dropWhile is_cont (bs @ [c]) = [c]" "takeWhile is_cont bs = bs"
      "dropWhile is_cont bs = []"
      using 2(2) by (auto simp: list_all_iff takeWhile_append dropWhile_append)
    show ?thesis by (simp only: append_Cons utf8_chars.simps w) simp
  next
    case False
    then show ?thesis using 2 by (auto simp: takeWhile_append dropWhile_append list_all_iff)
  qed
qed simp

lemma text_ok_Cons: "text_ok (c # s) \<Longrightarrow> byte c < 128 \<Longrightarrow> utf8_chars (c # s) = [c] # utf8_chars s"
proof -
  assume "text_ok (c # s)" "byte c < 128"
  then have "takeWhile is_cont s = []" by (auto simp: text_ok_def dest: char_ok_ascii)
  then have "dropWhile is_cont s = s" by (metis append_Nil takeWhile_dropWhile_id)
  with \<open>takeWhile is_cont s = []\<close> show ?thesis by simp
qed

section \<open>Trimming\<close>

text \<open>Trimming drops whole characters: it leaves a run of the characters there were.\<close>

lemma space_ascii: "http_space c \<Longrightarrow> byte c < 128 \<and> \<not> is_cont c"
  by (auto simp: http_space_def is_cont_def)

lemma trim_start: "text_ok s \<Longrightarrow> \<exists>gs. utf8_chars s = gs @ utf8_chars (dropWhile http_space s)"
proof (induction s)
  case (Cons c s)
  show ?case
  proof (cases "http_space c")
    case True
    then have g: "utf8_chars (c # s) = [c] # utf8_chars s" using text_ok_Cons [OF Cons.prems] space_ascii by blast
    then have "text_ok s" using Cons.prems by (simp add: text_ok_def)
    with Cons.IH True g show ?thesis by (metis append_Cons dropWhile.simps(2))
  qed (simp add: exI [of _ "[]"])
qed simp

lemma trim_end: "\<exists>gs. utf8_chars s = utf8_chars (rev (dropWhile http_space (rev s))) @ gs"
proof (induction s rule: rev_induct)
  case (snoc c s)
  show ?case
  proof (cases "http_space c")
    case True
    then have "utf8_chars (s @ [c]) = utf8_chars s @ [[c]]" using space_ascii by (simp add: utf8_chars_snoc)
    with snoc True show ?thesis by auto
  qed simp
qed simp

lemma trim_chars:
  assumes "text_ok s"
  shows "set (utf8_chars (http_trim s)) \<subseteq> set (utf8_chars s)"
proof -
  obtain gs where a: "utf8_chars s = gs @ utf8_chars (dropWhile http_space s)" using trim_start [OF assms] by blast
  obtain hs where "utf8_chars (dropWhile http_space s) = utf8_chars (http_trim s) @ hs"
    using trim_end [of "dropWhile http_space s"] by (auto simp: http_trim_def)
  with a show ?thesis by auto
qed

lemma trim_edges: "http_trim s \<noteq> [] \<Longrightarrow> \<not> http_space (hd (http_trim s)) \<and> \<not> http_space (last (http_trim s))"
proof
  define t where "t = dropWhile http_space s"
  assume ne: "http_trim s \<noteq> []"
  have e: "http_trim s = rev (dropWhile http_space (rev t))" by (simp add: http_trim_def t_def)
  show "\<not> http_space (last (http_trim s))" using ne e by (simp add: last_rev hd_dropWhile)
  have "t = http_trim s @ rev (takeWhile http_space (rev t))"
    unfolding e by (metis rev_append rev_rev_ident takeWhile_dropWhile_id)
  then have "hd t = hd (http_trim s)" "t \<noteq> []" using ne by (metis hd_append2, auto)
  then show "\<not> http_space (hd (http_trim s))" by (metis hd_dropWhile t_def)
qed

section \<open>The invariant\<close>

definition clean_name :: "string \<Rightarrow> bool" where
  "clean_name n \<longleftrightarrow> n \<noteq> [] \<and> list_all token_char n \<and> ascii_lowercase n = n"

definition clean_value :: "string \<Rightarrow> bool" where
  "clean_value v \<longleftrightarrow>
     list_all (\<lambda>c. byte c \<notin> {0, 10, 13}) v \<and> list_all (\<lambda>g. char_ok g \<and> code_point g \<le> 255) (utf8_chars v) \<and>
     (v \<noteq> [] \<longrightarrow> \<not> http_space (hd v) \<and> \<not> http_space (last v))"

definition headers_ok :: "header_list \<Rightarrow> bool" where
  "headers_ok h \<longleftrightarrow> bt_inv (header_values h) \<and>
     (\<forall>(n, vs) \<in> set (header_values h). clean_name n \<and> vs \<noteq> [] \<and> list_all clean_value vs)"

lemma lower_idem: "lower_char (lower_char c) = lower_char c"
  by (simp add: byte_eq [of "lower_char (lower_char c)"] byte_lower)

lemma lowercase_idem: "ascii_lowercase (ascii_lowercase s) = ascii_lowercase s"
  by (simp add: ascii_lowercase_def lower_idem)

lemma lower_token: "token_char c \<Longrightarrow> token_char (lower_char c)"
proof (cases "ascii_upper c")
  case True
  then have "ascii_lower (lower_char c)" by (simp add: ascii_lower_def byte_lower) (simp add: ascii_upper_def)
  then show ?thesis by (simp add: token_char_def ascii_alnum_def ascii_alpha_def)
qed (simp add: lower_char_def)

lemma header_name_Ok:
  "header_name s = Ok n \<longleftrightarrow> n = ascii_lowercase s \<and> s \<noteq> [] \<and> list_all token_char s"
  by (auto simp: header_name_def)

lemma header_name_clean: "header_name s = Ok n \<Longrightarrow> clean_name n"
  by (auto simp: header_name_Ok clean_name_def lowercase_idem) (auto simp: ascii_lowercase_def list_all_iff lower_token)

lemma header_value_clean: "text_ok s \<Longrightarrow> header_value s = Ok v \<Longrightarrow> v = http_trim s \<and> clean_value v"
  using trim_chars [of s] trim_edges [of s]
  by (auto simp: header_value_def clean_value_def text_ok_def list_all_iff list_ex_iff not_less split: if_splits)

text \<open>The edits of a list, as one type.\<close>

datatype header_edit = HE_Append string string | HE_Set string string | HE_Delete string

fun run_edit :: "header_edit \<Rightarrow> (header_list, unit) rm" where
  "run_edit (HE_Append k v) = headers_append k v"
| "run_edit (HE_Set k v) = headers_set k v"
| "run_edit (HE_Delete k) = headers_delete k"

fun edit_text :: "header_edit \<Rightarrow> string" where
  "edit_text (HE_Append k v) = v"
| "edit_text (HE_Set k v) = v"
| "edit_text (HE_Delete k) = []"

lemma no_headers_ok: "headers_ok no_headers"
  by (simp add: headers_ok_def no_headers_def bt.inv_empty)

lemma values_clean: "headers_ok h \<Longrightarrow> bt_get (header_values h) k = Some vs \<Longrightarrow> vs \<noteq> [] \<and> list_all clean_value vs"
  by (auto simp: headers_ok_def dest!: bt_get_in_set)

lemma insert_headers_ok:
  "headers_ok h \<Longrightarrow> clean_name k \<Longrightarrow> vs \<noteq> [] \<Longrightarrow> list_all clean_value vs \<Longrightarrow>
   headers_ok (h\<lparr>header_values := bt_insert k vs (header_values h)\<rparr>)"
  using set_bt_insert_pairs [of k vs "header_values h"] by (fastforce simp: headers_ok_def bt.inv_insert)

lemma edit_cases:
  assumes "run_edit e h = (r, h')"
  shows "(r \<noteq> Ok () \<longrightarrow> h' = h) \<and> no_panic r"
  using assms
  by (cases e; auto simp: headers_append_def headers_set_def headers_delete_def monad_defs header_name_def
      header_value_def split: res.splits if_splits)

lemma edit_headers_ok:
  assumes ok: "headers_ok h" and t: "text_ok (edit_text e)" and run: "run_edit e h = (r, h')"
  shows "headers_ok h'"
proof (cases r)
  case (Ok u)
  show ?thesis
  proof (cases e)
    case (HE_Append k v)
    then obtain n w where n: "header_name k = Ok n" and w: "header_value v = Ok w"
      and h': "h' = h\<lparr>header_values := bt_insert n
        ((case bt_get (header_values h) n of None \<Rightarrow> [] | Some vs \<Rightarrow> vs) @ [w]) (header_values h)\<rparr>"
      using run Ok by (auto simp: headers_append_def monad_defs split: res.splits)
    have "clean_value w" using header_value_clean [OF _ w] t HE_Append by auto
    then show ?thesis
      unfolding h' using values_clean [OF ok, of n] header_name_clean [OF n]
      by (intro insert_headers_ok [OF ok]) (auto split: option.splits)
  next
    case (HE_Set k v)
    then obtain n w where n: "header_name k = Ok n" and w: "header_value v = Ok w"
      and h': "h' = h\<lparr>header_values := bt_insert n [w] (header_values h)\<rparr>"
      using run Ok by (auto simp: headers_set_def monad_defs split: res.splits)
    have "clean_value w" using header_value_clean [OF _ w] t HE_Set by auto
    then show ?thesis
      unfolding h' using header_name_clean [OF n] by (intro insert_headers_ok [OF ok]) auto
  next
    case (HE_Delete k)
    then obtain n where "h' = h\<lparr>header_values := bt_remove n (header_values h)\<rparr>"
      using run Ok by (auto simp: headers_delete_def monad_defs split: res.splits)
    moreover have "set (bt_remove n (header_values h)) \<subseteq> set (header_values h)" by (auto simp: bt_remove_def)
    ultimately show ?thesis using ok by (auto simp: headers_ok_def bt.inv_remove)
  qed
qed (use edit_cases [OF run] ok in auto)

section \<open>The wire\<close>

text \<open>The text of Latin-1 bytes.\<close>

definition latin1_char :: "8 word \<Rightarrow> string" where
  "latin1_char b = (if b < 128 then [char_of (unat b)] else [char_of (192 + unat b div 64), char_of (128 + unat b mod 64)])"

definition latin1_text :: "8 word list \<Rightarrow> string" where
  "latin1_text bs = concat (map latin1_char bs)"

lemma latin1_wire_char:
  assumes "char_ok g" and "code_point g \<le> 255"
  shows "latin1_char (word_of_nat (code_point g)) = g \<and>
    (code_point g < 128 \<longrightarrow> g = [char_of (code_point g)])"
proof -
  have u: "unat (word_of_nat (code_point g) :: 8 word) = code_point g" using assms(2) by (simp add: unat_of_nat)
  have c: "(word_of_nat (code_point g) :: 8 word) < 128 \<longleftrightarrow> code_point g < 128" by (simp add: word_less_nat_alt u)
  have l: "latin1_char (word_of_nat (code_point g)) = (if code_point g < 128 then [char_of (code_point g)]
      else [char_of (192 + code_point g div 64), char_of (128 + code_point g mod 64)])"
    by (simp only: latin1_char_def u c)
  have cb: "char_of (byte x) = x" for x by (simp add: byte_def)
  show ?thesis
    using assms(1)
  proof (cases rule: char_ok_cases)
    case (one a)
    then show ?thesis unfolding l by (simp add: cb)
  next
    case (two a b)
    define x y where "x = byte a - 192" and "y = byte b - 128"
    have v: "code_point g = x * 64 + y" "y < 64" "2 \<le> x" "byte a = 192 + x" "byte b = 128 + y"
      using two by (auto simp: is_cont_def x_def y_def)
    then have "192 + code_point g div 64 = byte a" "128 + code_point g mod 64 = byte b" "\<not> code_point g < 128"
      by simp_all
    then show ?thesis using two(1) unfolding l by (simp add: cb del: code_point.simps)
  next
    case (more a bs)
    then show ?thesis using assms(2) by simp
  qed
qed

lemma wire_value_back:
  assumes "clean_value v"
  shows "latin1_text (wire_value v) = v \<and> list_all (\<lambda>b. unat b \<notin> {0, 10, 13}) (wire_value v)"
proof -
  have ok: "char_ok g \<and> code_point g \<le> 255" if "g \<in> set (utf8_chars v)" for g
    using assms that by (auto simp: clean_value_def list_all_iff)
  have "map (\<lambda>g. latin1_char (word_of_nat (code_point g))) (utf8_chars v) = map (\<lambda>g. g) (utf8_chars v)"
    by (rule map_cong [OF refl]) (use ok latin1_wire_char in blast)
  then have "latin1_text (wire_value v) = v"
    by (simp add: latin1_text_def wire_value_def comp_def utf8_chars_concat)
  moreover have "unat (word_of_nat (code_point g) :: 8 word) \<notin> {0, 10, 13}" if g: "g \<in> set (utf8_chars v)" for g
  proof
    assume "unat (word_of_nat (code_point g) :: 8 word) \<in> {0, 10, 13}"
    then have n: "code_point g \<in> {0, 10, 13}" using ok [OF g] by (simp add: unat_of_nat)
    then have "g = [char_of (code_point g)]" using latin1_wire_char ok [OF g] by force
    then have "char_of (code_point g) \<in> set v" using g utf8_chars_concat [of v] by (metis UN_I list.set_intros(1) set_concat)
    then show False using assms n by (auto simp: clean_value_def list_all_iff byte_char_of)
  qed
  ultimately show ?thesis by (simp add: wire_value_def list_all_iff)
qed

text \<open>
  C21. However a header list is edited - by any sequence of appends, replacements and
  deletions, failing ones included - it stays within the framing of a message: every name on
  the wire is a token in lower case, no value holds a NUL, a carriage return or a line feed,
  and the bytes sent for a value are its Latin-1 form, which reads back as the value. An edit
  that fails changes nothing.
\<close>

theorem headers_framed:
  assumes "\<forall>e \<in> set es. text_ok (edit_text e)" and "h = foldl (\<lambda>h e. snd (run_edit e h)) no_headers es"
  shows "headers_ok h \<and>
    (\<forall>(n, bs) \<in> set (headers_wire h). clean_name n \<and> list_all (\<lambda>b. unat b \<notin> {0, 10, 13}) bs \<and>
       latin1_text bs \<in> set (case bt_get (header_values h) n of None \<Rightarrow> [] | Some vs \<Rightarrow> vs)) \<and>
    (\<forall>e. fst (run_edit e h) \<noteq> Ok () \<longrightarrow> snd (run_edit e h) = h)"
proof (intro conjI)
  have "headers_ok (foldl (\<lambda>h e. snd (run_edit e h)) g es)" if "headers_ok g" for g
    using assms(1) that edit_headers_ok by (induction es arbitrary: g) (auto simp: prod_eq_iff)
  then show ok: "headers_ok h" using no_headers_ok assms(2) by blast
  show "\<forall>(n, bs) \<in> set (headers_wire h). clean_name n \<and> list_all (\<lambda>b. unat b \<notin> {0, 10, 13}) bs \<and>
       latin1_text bs \<in> set (case bt_get (header_values h) n of None \<Rightarrow> [] | Some vs \<Rightarrow> vs)"
  proof (clarify)
    fix n bs assume "(n, bs) \<in> set (headers_wire h)"
    then obtain vs v where v: "(n, vs) \<in> set (header_values h)" "v \<in> set vs" "bs = wire_value v"
      by (auto simp: headers_wire_def)
    have g: "bt_get (header_values h) n = Some vs" using ok v(1) by (simp add: headers_ok_def bt_get_iff)
    have "clean_value v" "clean_name n" using ok v by (auto simp: headers_ok_def list_all_iff)
    then show "clean_name n \<and> list_all (\<lambda>b. unat b \<notin> {0, 10, 13}) bs \<and>
        latin1_text bs \<in> set (case bt_get (header_values h) n of None \<Rightarrow> [] | Some vs \<Rightarrow> vs)"
      using wire_value_back v g by simp
  qed
  show "\<forall>e. fst (run_edit e h) \<noteq> Ok () \<longrightarrow> snd (run_edit e h) = h"
    using edit_cases by (metis prod.collapse)
qed

theorem headers_framed_witness:
  "headers_ok (foldl (\<lambda>h e. snd (run_edit e h)) no_headers
     [HE_Append ''X-Name'' '' caf'', HE_Set ''bad name'' ''v'', HE_Delete ''y''])"
proof -
  have "\<forall>e \<in> set [HE_Append ''X-Name'' '' caf'', HE_Set ''bad name'' ''v'', HE_Delete ''y'']. text_ok (edit_text e)"
    by (simp add: text_ok_def char_ok_def is_cont_def byte_def utf8_step_def utf8_width_def)
  from headers_framed [OF this refl] show ?thesis by blast
qed

section \<open>A header list is a map\<close>

text \<open>The abstract list: the values of a name, whatever its case, in the order they were added.\<close>

definition header_map :: "header_list \<Rightarrow> string \<Rightarrow> string list" where
  "header_map h key = (case bt_get (header_values h) (ascii_lowercase key) of None \<Rightarrow> [] | Some vs \<Rightarrow> vs)"

text \<open>
  C22. A header list implements a map from names, whatever their case, to lists of values:
  appending adds the trimmed value at the end of the name's list, setting leaves only it,
  deleting leaves none, other names are untouched; and what is read - a value, the presence
  of a name, the cookies - is read off that map. All of it holds for the names and values the
  code accepts; others it rejects.
\<close>

theorem headers_refine:
  assumes h: "headers_ok h" and k: "header_name k = Ok n" and v: "header_value v = Ok w"
  shows "header_map (snd (headers_append k v h)) = (header_map h)(ascii_lowercase k := header_map h k @ [w]) \<circ> ascii_lowercase \<and>
    header_map (snd (headers_set k v h)) = (header_map h)(ascii_lowercase k := [w]) \<circ> ascii_lowercase \<and>
    header_map (snd (headers_delete k h)) = (header_map h)(ascii_lowercase k := []) \<circ> ascii_lowercase \<and>
    headers_get h k = Ok (if header_map h k = [] then None else Some (join '', '' (header_map h k))) \<and>
    headers_has h k = Ok (header_map h k \<noteq> []) \<and>
    headers_get_set_cookie h = header_map h ''Set-Cookie''"
proof -
  have n: "n = ascii_lowercase k" using k by (simp add: header_name_Ok)
  have ne: "bt_get (header_values h) m \<noteq> Some []" for m using values_clean [OF h, of m] by auto
  have c: "ascii_lowercase ''Set-Cookie'' = set_cookie"
    by code_simp
  show ?thesis
    using ne [of n]
    by (auto simp: headers_append_def headers_set_def headers_delete_def headers_get_def headers_has_def monad_defs k v
        header_map_def n lowercase_idem fun_eq_iff bt_contains_get c headers_get_set_cookie_def split: option.splits)
qed

theorem headers_refine_witness:
  "header_map (snd (headers_append ''Accept'' ''b '' (snd (headers_set ''ACCEPT'' ''a'' no_headers)))) ''accept'' = [''a'', ''b'']"
proof -
  have k: "header_name ''Accept'' = Ok ''accept''" "header_name ''ACCEPT'' = Ok ''accept''"
    by code_simp+
  have v: "header_value ''a'' = Ok ''a''" "header_value ''b '' = Ok ''b''"
    by code_simp+
  define g where "g = snd (headers_set ''ACCEPT'' ''a'' no_headers)"
  have "text_ok (edit_text (HE_Set ''ACCEPT'' ''a''))"
    by (simp add: text_ok_def char_ok_def is_cont_def byte_def utf8_step_def utf8_width_def)
  from edit_headers_ok [OF no_headers_ok this prod.collapse [symmetric]] have g: "headers_ok g" by (simp add: g_def)
  have l: "ascii_lowercase ''Accept'' = ''accept''" "ascii_lowercase ''ACCEPT'' = ''accept''" "ascii_lowercase ''accept'' = ''accept''"
    by code_simp+
  have "header_map g ''accept'' = [''a'']"
    using headers_refine [OF no_headers_ok k(2) v(1)] by (simp add: g_def l)
  moreover have "header_map g ''Accept'' = header_map g ''accept''" by (simp add: header_map_def l)
  ultimately show ?thesis
    using headers_refine [OF g k(1) v(2)] by (simp add: g_def [symmetric] l)
qed

section \<open>Iteration\<close>

definition entries_of :: "string \<Rightarrow> string list \<Rightarrow> (string \<times> string) list" where
  "entries_of n vs = (if n = set_cookie then map (Pair n) vs else [(n, join '', '' vs)])"

lemma headers_entries_concat: "headers_entries h = concat (map (\<lambda>(n, vs). entries_of n vs) (header_values h))"
  by (simp add: headers_entries_def entries_of_def case_prod_unfold)

lemma sorted_entries:
  "sorted_wrt (<) (map fst m) \<Longrightarrow> sorted (map fst (concat (map (\<lambda>(n, vs). entries_of n vs) m)))"
proof (induction m)
  case (Cons p m)
  obtain n vs where p: "p = (n, vs)" by (cases p)
  have a: "\<forall>x \<in> set (map fst (entries_of n vs)). x = n" by (auto simp: entries_of_def)
  have "\<forall>x \<in> set (map fst (concat (map (\<lambda>(n, vs). entries_of n vs) m))). n < x"
    using Cons.prems p by (fastforce simp: entries_of_def split: if_splits)
  moreover have "sorted (map fst (entries_of n vs))" by (auto simp: entries_of_def comp_def sorted_wrt_iff_nth_less)
  ultimately show ?case using Cons a by (fastforce simp: p sorted_append)
qed simp

lemma filter_entries:
  "sorted_wrt (<) (map fst m) \<Longrightarrow>
   filter (\<lambda>e. fst e = n) (concat (map (\<lambda>(n, vs). entries_of n vs) m)) =
     (case map_of m n of None \<Rightarrow> [] | Some vs \<Rightarrow> entries_of n vs)"
proof (induction m)
  case (Cons p m)
  obtain k vs where p: "p = (k, vs)" by (cases p)
  have e: "filter (\<lambda>e. fst e = n) (entries_of k vs) = (if k = n then entries_of k vs else [])"
    by (auto simp: entries_of_def)
  have "map_of m k = None" using Cons.prems p by (fastforce simp: map_of_eq_None_iff)
  then show ?case using Cons p e by auto
qed simp

text \<open>
  Iteration visits the names in ascending order, each of them once with its values
  joined, but cookies one entry per value, in the order they were added.
\<close>

theorem headers_iterate:
  assumes "headers_ok h"
  shows "sorted (headers_keys h) \<and> headers_keys h = map fst (headers_entries h) \<and>
    headers_vals h = map snd (headers_entries h) \<and>
    (\<forall>n. filter (\<lambda>e. fst e = n) (headers_entries h) =
       (case bt_get (header_values h) n of
          None \<Rightarrow> []
        | Some vs \<Rightarrow> if n = set_cookie then map (Pair n) vs else [(n, join '', '' vs)]))"
proof -
  have "sorted_wrt (<) (map fst (header_values h))" using assms by (simp add: headers_ok_def bt_inv_def)
  from sorted_entries [OF this] filter_entries [OF this] show ?thesis
    by (simp add: headers_keys_def headers_vals_def headers_entries_concat bt_get_def) (simp add: entries_of_def split: option.split)
qed

theorem headers_iterate_witness: "sorted (headers_keys no_headers)"
  using headers_iterate [OF no_headers_ok] by blast

section \<open>The host operations\<close>

lemma text_args:
  "text_at (r # HV_String s # vs) (Suc 0) = Ok s" "text_at (r # x # HV_String s # vs) 2 = Ok s"
  by (simp_all add: text_at_def)

definition method_typed :: "string \<times> host_type list \<times> host_type \<times> bool \<Rightarrow> bool" where
  "method_typed e \<longleftrightarrow> (case e of (m, args, output, chan) \<Rightarrow>
     \<forall>receiver vs h. list_all2 accepts args vs \<longrightarrow> (\<exists>r h'. method_on_list m (receiver # vs) h = (r, h') \<and>
       ((\<exists>v. r = Ok v \<and> accepts output v) \<or> (chan \<and> (\<exists>e. r = Err e) \<and> h' = h))))"

lemma text_values:
  "list_all2 accepts [] vs \<longleftrightarrow> vs = []"
  "list_all2 accepts [HT_String] vs \<longleftrightarrow> (\<exists>s. vs = [HV_String s])"
  "list_all2 accepts [HT_String, HT_String] vs \<longleftrightarrow> (\<exists>s t. vs = [HV_String s, HV_String t])"
  by (auto simp: list_all2_Cons1 simp del: accepts.simps dest!: accepts_kinds(3)) simp_all

lemma edit_reply:
  "\<exists>r h'. seq (run_edit e) (ret HV_Unit) h = (r, h') \<and> ((\<exists>v. r = Ok v \<and> accepts HT_Unit v) \<or> ((\<exists>e. r = Err e) \<and> h' = h))"
proof -
  obtain q h' where run: "run_edit e h = (q, h')" by fastforce
  show ?thesis using edit_cases [OF run] run by (cases q) (auto simp: monad_defs)
qed

lemma name_total: "\<exists>n. header_name k = Ok n \<or> (\<exists>e. header_name k = Err e)"
  by (simp add: header_name_def)

lemma headers_table_typed: "\<forall>e \<in> set headers_table. method_typed e"
  unfolding headers_table_def list.set ball_simps
proof (intro conjI TrueI)
  show "method_typed (''append'', [HT_String, HT_String], HT_Unit, True)"
    using edit_reply [of "HE_Append k v" for k v] unfolding method_typed_def prod.case text_values
    by (auto simp: method_on_list_def text_args lift_res_run bind_def)
  show "method_typed (''set'', [HT_String, HT_String], HT_Unit, True)"
    using edit_reply [of "HE_Set k v" for k v] unfolding method_typed_def prod.case text_values
    by (auto simp: method_on_list_def text_args lift_res_run bind_def)
  show "method_typed (''delete'', [HT_String], HT_Unit, True)"
    using edit_reply [of "HE_Delete k" for k] unfolding method_typed_def prod.case text_values
    by (auto simp: method_on_list_def text_args lift_res_run bind_def)
  have n: "\<exists>n. header_name k = Ok n \<or> (\<exists>e. header_name k = Err e)" for k by (rule name_total)
  show "method_typed (''get'', [HT_String], HT_Option HT_String, True)"
    unfolding method_typed_def prod.case text_values
  proof (clarify)
    fix receiver h s
    show "\<exists>r h'. method_on_list ''get'' [receiver, HV_String s] h = (r, h') \<and>
       ((\<exists>v. r = Ok v \<and> accepts (HT_Option HT_String) v) \<or> (True \<and> (\<exists>e. r = Err e) \<and> h' = h))"
      using name_total [of s]
      by (auto simp: method_on_list_def text_args lift_res_run bind_def headers_get_def split: option.splits)
  qed
  show "method_typed (''has'', [HT_String], HT_Bool, True)"
    unfolding method_typed_def prod.case text_values
  proof (clarify)
    fix receiver h s
    show "\<exists>r h'. method_on_list ''has'' [receiver, HV_String s] h = (r, h') \<and>
       ((\<exists>v. r = Ok v \<and> accepts HT_Bool v) \<or> (True \<and> (\<exists>e. r = Err e) \<and> h' = h))"
      using name_total [of s] by (auto simp: method_on_list_def text_args lift_res_run bind_def headers_has_def)
  qed
qed (auto simp: method_typed_def text_values method_on_list_def gets_run list_all_iff)

text \<open>
  C23. Each method, called with arguments of the declared types of its operation, the receiver
  first, reaches no branch the sources call unreachable. On the resource of a header list it
  answers with a value of its declared result, or, if it has a result channel, with an error that
  leaves the list as it was; no other list changes. On a resource of another type every method
  fails with the same error, and nothing changes.
\<close>

theorem headers_methods_typed:
  assumes "(m, args, output, chan) \<in> set headers_table" and "list_all2 accepts (HT_Handle ''Headers'' # args) vs"
  shows "\<exists>hh. hd vs = HV_Handle hh \<and>
    (case st (hh_resource hh) of
       None \<Rightarrow> headers_method m vs st = (Err ''invalid Headers resource'', st)
     | Some h \<Rightarrow> \<exists>r h'. headers_method m vs st = (r, st(hh_resource hh \<mapsto> h')) \<and>
         ((\<exists>v. r = Ok v \<and> accepts output v) \<or> (chan \<and> (\<exists>e. r = Err e) \<and> h' = h)))"
proof -
  obtain x ws where x: "vs = x # ws" "accepts (HT_Handle ''Headers'') x" "list_all2 accepts args ws"
    using assms(2) unfolding list_all2_Cons1 by blast
  then obtain hh where "x = HV_Handle hh" by (cases x) auto
  with x have vs: "vs = HV_Handle hh # ws" "list_all2 accepts args ws" by simp_all
  have typed: "\<exists>r h'. method_on_list m vs h = (r, h') \<and>
      ((\<exists>v. r = Ok v \<and> accepts output v) \<or> (chan \<and> (\<exists>e. r = Err e) \<and> h' = h))" for h
    using headers_table_typed assms(1) vs unfolding method_typed_def by fast
  show ?thesis
  proof (cases "st (hh_resource hh)")
    case (Some h)
    obtain r h' where run: "method_on_list m vs h = (r, h')"
      and r: "(\<exists>v. r = Ok v \<and> accepts output v) \<or> (chan \<and> (\<exists>e. r = Err e) \<and> h' = h)"
      using typed [of h] by (elim exE conjE)
    have "headers_method m vs st = (r, st(hh_resource hh \<mapsto> h'))"
      using Some run by (simp add: headers_method_def vs(1))
    with r have "\<exists>r h'. headers_method m vs st = (r, st(hh_resource hh \<mapsto> h')) \<and>
         ((\<exists>v. r = Ok v \<and> accepts output v) \<or> (chan \<and> (\<exists>e. r = Err e) \<and> h' = h))" by blast
    then show ?thesis by (intro exI [of _ hh]) (simp only: Some option.case vs(1) list.sel simp_thms)
  qed (simp add: headers_method_def vs(1))
qed

theorem headers_methods_typed_witness:
  "\<exists>hh. hd [HV_Handle (HostHandle ''Headers'' 3), HV_String ''x''] = HV_Handle hh \<and>
    (case [3 \<mapsto> no_headers] (hh_resource hh) of
       None \<Rightarrow> headers_method ''get'' [HV_Handle (HostHandle ''Headers'' 3), HV_String ''x''] [3 \<mapsto> no_headers] =
         (Err ''invalid Headers resource'', [3 \<mapsto> no_headers])
     | Some h \<Rightarrow> \<exists>r h'. headers_method ''get'' [HV_Handle (HostHandle ''Headers'' 3), HV_String ''x''] [3 \<mapsto> no_headers] =
           (r, [3 \<mapsto> no_headers, hh_resource hh \<mapsto> h']) \<and>
         ((\<exists>v. r = Ok v \<and> accepts (HT_Option HT_String) v) \<or> (True \<and> (\<exists>e. r = Err e) \<and> h' = h)))"
proof (rule headers_methods_typed)
  show "(''get'', [HT_String], HT_Option HT_String, True) \<in> set headers_table" by (simp add: headers_table_def)
  show "list_all2 accepts [HT_Handle ''Headers'', HT_String] [HV_Handle (HostHandle ''Headers'' 3), HV_String ''x'']" by simp
qed

end
