(* ===== verification/JsonRound.thy ===== *)
theory JsonRound
  imports JsonTriples F64Whole
begin

text \<open>
  The round trip of typed JSON (\<open>crates/deka_vm/src/json.rs\<close>): a document that was encoded
  along a schema is decoded along it, and what is decoded encodes to the same document. The
  schemas are those that tell their documents apart: no unions, no optional part whose
  present case may also be written \<open>null\<close>, no newtype directly of a newtype.
\<close>

section \<open>Numbers\<close>

lemma encode_number_bounds:
  "f64_of_int (2 ^ 63 - 1) = Fin False (2 ^ 52) 11" "f64_of_int (- (2 ^ 63)) = Fin True (2 ^ 52) 11"
  by code_simp+

lemma encode_number_again:
  assumes n: "encode_number n = Ok j" and wf: "f64_wf n"
  shows "\<exists>k. j = J_Number k \<and> f64_is_finite (json_as_f64 k) \<and> encode_number (json_as_f64 k) = Ok j"
proof (cases n)
  case (Fin s m e)
  show ?thesis
  proof (cases "f64_fract_zero n \<and> f64_le (f64_of_int (- (2 ^ 63))) n \<and> f64_lt n (f64_of_int (2 ^ 63 - 1))")
    case True
    then have fr: "f64_fract_zero (Fin s m e)"
      and b: "f64_lt (Fin s m e) (Fin False (2 ^ 52) 11)" "f64_le (Fin True (2 ^ 52) 11) (Fin s m e)"
      unfolding encode_number_bounds Fin by simp_all
    have w: "f64_wf (Fin s m e)" using wf Fin by simp
    define i where "i = f64_to_i64 n"
    have i: "i = f64_trunc_int (Fin s m e)"
      using whole_bounds(1) [OF w fr b(1)] whole_bounds(2) [OF w fr b(2)]
      unfolding i_def Fin f64_to_i64.simps max_def min_def by simp
    have j: "j = J_Number (JInt i)" using n True Fin by (simp add: encode_number_def i_def)
    show ?thesis
    proof (cases "m = 0")
      case True
      then have "i = 0" by (simp add: i signed_def)
      moreover have "encode_number (f64_of_int 0) = Ok (J_Number (JInt 0)) \<and> f64_is_finite (f64_of_int 0)"
        by code_simp
      ultimately show ?thesis using j by simp
    next
      case False
      have "f64_of_int i = n" using f64_of_trunc [OF w fr False] by (simp add: i Fin)
      then show ?thesis using j n Fin by auto
    qed
  next
    case False
    then have "j = J_Number (JFloat n)" using n Fin by (auto simp: encode_number_def)
    then show ?thesis using n Fin by auto
  qed
qed (use n in \<open>simp_all add: encode_number_def\<close>)

definition numbers_wf :: "heap \<Rightarrow> bool" where
  "numbers_wf hp \<longleftrightarrow> (\<forall>h n. heap_get hp h = Ok (V_Number n) \<longrightarrow> f64_wf n)"

section \<open>Heaps that only grow\<close>

text \<open>Every handle that is live keeps its value and its newtype.\<close>

definition grows :: "heap \<Rightarrow> heap \<Rightarrow> bool" where
  "grows a b \<longleftrightarrow> (\<forall>h v. heap_get a h = Ok v \<longrightarrow> heap_get b h = Ok v \<and> newtype_name b h = newtype_name a h)"

lemma grows_refl [simp]: "grows a a"
  by (simp add: grows_def)

lemma grows_trans: "grows a b \<Longrightarrow> grows b c \<Longrightarrow> grows a c"
  unfolding grows_def by metis

lemma grows_get: "grows a b \<Longrightarrow> heap_get a h = Ok v \<Longrightarrow> heap_get b h = Ok v"
  by (simp add: grows_def)

lemma grows_newtype: "grows a b \<Longrightarrow> newtype_name a h = Ok n \<Longrightarrow> newtype_name b h = Ok n"
proof -
  assume g: "grows a b" and n: "newtype_name a h = Ok n"
  then obtain v where "heap_get a h = Ok v" by (auto simp: newtype_name_def res_bind_Ok_iff)
  with g n show "newtype_name b h = Ok n" unfolding grows_def by metis
qed

lemma alloc_grows:
  assumes wf: "heap_wf hp" and run: "heap_alloc v hp = (h, hp')"
  shows "grows hp hp'" and "index h < length (slots hp')" and "slot_gen (slots hp' ! index h) = generation h"
    and "slot_value (slots hp' ! index h) = Some v"
proof -
  note a = heap_alloc_get [OF wf run]
  have hg: "heap_get hp' h = Ok v" using a(1) by simp
  then show s: "index h < length (slots hp')" "slot_gen (slots hp' ! index h) = generation h"
    "slot_value (slots hp' ! index h) = Some v"
    by (auto simp: heap_get_def slots_get_Ok_iff)
  have "heap_get hp' k = Ok u \<and> newtype_name hp' k = newtype_name hp k" if k: "heap_get hp k = Ok u" for k u
  proof -
    have ne: "k \<noteq> h" using k a(2) by auto
    have u: "heap_get hp' k = Ok u" using a(1) [of k] ne k by simp
    have ku: "index k < length (slots hp)" "slot_value (slots hp ! index k) = Some u"
      using k by (auto simp: heap_get_def slots_get_Ok_iff)
    have "slots hp' ! index k = slots hp ! index k"
    proof (cases "free hp")
      case Nil
      then show ?thesis using run ku by (auto simp: heap_alloc_def Let_def nth_append)
    next
      case (Cons i rest)
      then have "slot_value (slots hp ! i) = None" using wf by (auto simp: heap_wf_def)
      then have "i \<noteq> index k" using ku by auto
      then show ?thesis using run Cons by (auto simp: heap_alloc_def Let_def)
    qed
    then show ?thesis using u k by (simp add: newtype_name_def)
  qed
  then show "grows hp hp'" by (simp add: grows_def)
qed

text \<open>What an allocation of the decoder returns.\<close>

lemma alloc_m_run:
  assumes "heap_wf hp"
  obtains h hp' where "alloc_m v hp = (Ok h, hp')" and "heap_wf hp'" and "grows hp hp'" and "heap_get hp' h = Ok v"
proof -
  obtain h hp' where r: "heap_alloc v hp = (h, hp')" by fastforce
  show ?thesis
    by (rule that [of h hp']) (use heap_alloc_get [OF assms r] alloc_grows [OF assms r] r in \<open>simp_all add: alloc_m_def\<close>)
qed

lemma alloc_newtype_run:
  assumes "heap_wf hp"
  obtains h hp' where "alloc_newtype_m v n hp = (Ok h, hp')" and "heap_wf hp'" and "grows hp hp'"
    and "heap_get hp' h = Ok v" and "newtype_name hp' h = Ok (Some n)"
proof -
  obtain h hp1 where r: "heap_alloc v hp = (h, hp1)" by fastforce
  define hp' where "hp' = hp1\<lparr>slots := (slots hp1)[index h := (slots hp1 ! index h)\<lparr>slot_newtype := Some n\<rparr>]\<rparr>"
  note a = heap_alloc_get [OF assms r] and g = alloc_grows [OF assms r]
  have sv: "same_values hp' hp1" by (simp add: hp'_def same_values_def nth_update)
  have "grows hp hp'"
  proof -
    have "newtype_name hp' k = newtype_name hp1 k" if k: "heap_get hp k = Ok u" for k u
    proof -
      have "heap_get hp1 k = Ok u" by (rule grows_get [OF g(1) k])
      then have "slot_gen (slots hp1 ! index k) = generation k" by (auto simp: heap_get_def slots_get_Ok_iff)
      moreover have "k \<noteq> h" using k a(2) by auto
      ultimately have "index k \<noteq> index h" using g(3) by (metis handle.expand)
      then have "slots hp' ! index k = slots hp1 ! index k" by (simp add: hp'_def)
      then show ?thesis by (simp only: newtype_name_def same_values_get [OF sv])
    qed
    then show ?thesis using g(1) by (simp add: grows_def same_values_get [OF sv])
  qed
  moreover have "heap_get hp' h = Ok v" using a(1) [of h] by (simp add: same_values_get [OF sv])
  moreover have "newtype_name hp' h = Ok (Some n)"
    using calculation(2) g(2) by (simp add: newtype_name_def hp'_def)
  moreover have "alloc_newtype_m v n hp = (Ok h, hp')"
    by (simp add: alloc_newtype_m_def heap_alloc_newtype_def r hp'_def)
  moreover have "heap_wf hp'" using a(3) same_values_wf [OF sv] by simp
  ultimately show ?thesis using that by blast
qed

lemma alloc_enum_run:
  assumes "heap_wf hp"
  obtains h hp' r where "alloc_enum_m n c i p hp = (Ok h, hp')" and "heap_wf hp'" and "grows hp hp'"
    and "heap_get hp' h = Ok (V_Record r)" and "rec_enum_name r = Some n" and "enum_case hp' r = Ok c"
    and "rec_get r ''value'' = p"
proof -
  obtain l hp1 where 1: "alloc_m (V_String c) hp = (Ok l, hp1)" "heap_wf hp1" "grows hp hp1" "heap_get hp1 l = Ok (V_String c)"
    using alloc_m_run [OF assms] by blast
  obtain ih hp2 where 2: "alloc_m (V_Number (f64_of_nat i)) hp1 = (Ok ih, hp2)" "heap_wf hp2" "grows hp1 hp2"
    using alloc_m_run [OF 1(2)] by blast
  define q where "q = (case p of None \<Rightarrow> record_from_iter [(''name'', l), (''index'', ih)]
       | Some v \<Rightarrow> rec_put ''value'' v (record_from_iter [(''name'', l), (''index'', ih)]))\<lparr>rec_enum_name := Some n\<rparr>"
  obtain h hp3 where 3: "alloc_m (V_Record q) hp2 = (Ok h, hp3)" "heap_wf hp3" "grows hp2 hp3" "heap_get hp3 h = Ok (V_Record q)"
    using alloc_m_run [OF 2(2)] by blast
  have q: "rec_get q ''name'' = Some l" "rec_get q ''value'' = p" "rec_enum_name q = Some n"
    by (cases p; simp add: q_def record_from_iter_def rec_put_def rec_insert_def rec_get_def Let_def empty_record_def)+
  have "heap_get hp3 l = Ok (V_String c)" using 1(4) 2(3) 3(3) by (meson grows_get)
  then have "enum_case hp3 q = Ok c" by (simp add: enum_case_def ok_or_def q)
  moreover have "alloc_enum_m n c i p hp = (Ok h, hp3)"
    unfolding alloc_enum_m_eq using 1(1) 2(1) 3(1) by (simp add: bind_def q_def)
  ultimately show ?thesis using that 3 q grows_trans 1(3) 2(3) by blast
qed

section \<open>Encoding depends only on what is reached\<close>

text \<open>The shapes covered, with the factories' method tables that decoding a struct adds.\<close>

definition method_names :: "heap \<Rightarrow> handle \<Rightarrow> string \<Rightarrow> string set option" where
  "method_names hp fac ident =
     (case heap_get hp fac of
        Ok (V_Record t) \<Rightarrow>
          (case rec_get t ident of
             None \<Rightarrow> Some {}
           | Some m \<Rightarrow> (case heap_get hp m of Ok (V_Record r) \<Rightarrow> Some (set (bt_keys (rec_fields r))) | _ \<Rightarrow> None))
      | _ \<Rightarrow> None)"

fun nullable :: "json_shape \<Rightarrow> bool" where
  "nullable (Js_Leaf kind) = (kind = ''none'')"
| "nullable (Js_Option s) = True"
| "nullable (Js_Newtype n s) = nullable s"
| "nullable (Js_Union ss) = True"
| "nullable _ = False"

fun is_newtype :: "json_shape \<Rightarrow> bool" where
  "is_newtype (Js_Newtype n s) = True"
| "is_newtype _ = False"

fun tells_apart :: "heap \<Rightarrow> handle \<Rightarrow> json_shape \<Rightarrow> bool" where
  "tells_apart hp fac (Js_Leaf k) = True"
| "tells_apart hp fac (Js_Array s) = tells_apart hp fac s"
| "tells_apart hp fac (Js_Tuple ss) = list_all (tells_apart hp fac) ss"
| "tells_apart hp fac (Js_Record fs) = (distinct (map fst fs) \<and> list_all (\<lambda>(n, s). tells_apart hp fac s) fs)"
| "tells_apart hp fac (Js_Struct name ident fs embeds) =
     (distinct (map fst fs) \<and> list_all (\<lambda>(n, s). tells_apart hp fac s) fs \<and>
      (case method_names hp fac ident of None \<Rightarrow> False | Some ks \<Rightarrow> ks \<inter> set (map fst fs) = {}))"
| "tells_apart hp fac (Js_Option s) = (\<not> nullable s \<and> tells_apart hp fac s)"
| "tells_apart hp fac (Js_Enum name cs) =
     list_all (\<lambda>(l, p). case p of None \<Rightarrow> True | Some s \<Rightarrow> tells_apart hp fac s) cs"
| "tells_apart hp fac (Js_Newtype name s) = (\<not> is_newtype s \<and> tells_apart hp fac s)"
| "tells_apart hp fac (Js_Union ss) = False"

lemma method_names_grows: "method_names a fac ident = Some ks \<Longrightarrow> grows a b \<Longrightarrow> method_names b fac ident = Some ks"
  by (auto simp: method_names_def grows_get split: res.splits val.splits option.splits)

lemma tells_apart_grows: "tells_apart a fac s \<Longrightarrow> grows a b \<Longrightarrow> tells_apart b fac s"
proof (induction a fac s rule: tells_apart.induct)
  case (4 hp fac fs)
  then show ?case by (fastforce simp: list_all_iff)
next
  case (5 hp fac name ident fs embeds)
  obtain ks where ks: "method_names hp fac ident = Some ks" using "5.prems"(1) by (simp split: option.splits)
  have "tells_apart b fac s" if "(n, s) \<in> set fs" for n s
    by (rule "5.IH" [OF that refl _ "5.prems"(2)]) (use "5.prems"(1) that in \<open>fastforce simp: list_all_iff\<close>)
  then show ?case using "5.prems"(1) ks method_names_grows [OF ks "5.prems"(2)] by (auto simp: list_all_iff)
next
  case (7 hp fac name cs)
  have "case p of None \<Rightarrow> True | Some s \<Rightarrow> tells_apart b fac s" if "(l, p) \<in> set cs" for l p
    using 7 that by (cases p) (force simp: list_all_iff)+
  then show ?case by (auto simp: list_all_iff)
qed (simp_all add: list_all_iff)

lemma encode_same_value:
  "heap_get hp h = heap_get hp h' \<Longrightarrow> \<not> is_newtype s \<Longrightarrow> tells_apart hp fac s \<Longrightarrow> encode hp h s = encode hp h' s"
  by (cases s) simp_all

text \<open>What an encoding that succeeds has seen.\<close>

lemma encode_inv:
  "(case v of V_Record r \<Rightarrow> f r | _ \<Rightarrow> mismatch_shape) = Ok j \<longleftrightarrow> (\<exists>r. v = V_Record r \<and> f r = Ok j)"
  "(case v of V_List hs \<Rightarrow> g hs | _ \<Rightarrow> mismatch_shape) = Ok j \<longleftrightarrow> (\<exists>hs. v = V_List hs \<and> g hs = Ok j)"
  "(if c then x else mismatch_shape) = Ok j \<longleftrightarrow> c \<and> x = Ok j"
  by (cases v; simp add: mismatch_shape_def)+

lemma res_map_Ok_iff: "res_map f r = Ok b \<longleftrightarrow> (\<exists>a. r = Ok a \<and> b = f a)"
  by (cases r) auto

lemma encode_not_null: "encode hp h s = Ok J_Null \<Longrightarrow> nullable s"
proof (induction hp h s rule: encode.induct)
  case (8 hp h name repr)
  then show ?case by (auto simp: res_bind_Ok_iff mismatch_shape_def split: if_splits)
next
  case (7 hp h name cases)
  then obtain r c where "heap_get hp h = Ok (V_Record r)" "rec_enum_name r = Some name" "enum_case hp r = Ok c"
    by (auto simp: res_bind_Ok_iff encode_inv)
  with "7.prems" show ?case
    by (cases "find (\<lambda>(label, _). label = c) cases")
       (auto simp: res_bind_Ok_iff res_map_Ok_iff split: option.split_asm)
next
  case (1 hp h kind)
  then obtain v where "heap_get hp h = Ok v" by (auto simp: res_bind_Ok_iff)
  with "1.prems" show ?case
    by (cases v) (auto simp: mismatch_shape_def encode_number_def split: if_splits)
qed (auto simp: res_bind_Ok_iff encode_inv encode_fields_def res_map_Ok_iff)


section \<open>The loops of the decoder\<close>

definition decodes_to ::
    "(heap, handle) rm \<Rightarrow> heap \<Rightarrow> json_shape \<Rightarrow> json \<Rightarrow> bool" where
  "decodes_to m hp s j \<longleftrightarrow> (\<exists>h hp'. m hp = (Ok h, hp') \<and> heap_wf hp' \<and> grows hp hp' \<and> encode hp' h s = Ok j)"

text \<open>What is encoded stays encoded in a larger heap.\<close>

lemma enum_case_grows: "grows a b \<Longrightarrow> enum_case a r = Ok c \<Longrightarrow> enum_case b r = Ok c"
  by (auto simp: enum_case_def res_bind_Ok_iff grows_get split: val.splits)

lemma res_mapM_mono:
  "res_mapM f xs = Ok ys \<Longrightarrow> (\<And>x y. x \<in> set xs \<Longrightarrow> f x = Ok y \<Longrightarrow> g x = Ok y) \<Longrightarrow> res_mapM g xs = Ok ys"
proof (induction xs arbitrary: ys)
  case (Cons x xs)
  then obtain y zs where "f x = Ok y" "res_mapM f xs = Ok zs" "ys = y # zs" by (auto simp: res_bind_Ok_iff)
  moreover have "res_mapM g xs = Ok zs" using Cons calculation by simp
  ultimately show ?case using Cons.prems(2) [of x y] by simp
qed simp

lemma encode_fields_mono:
  assumes "encode_fields f r fs = Ok j" and "\<And>n s h j. (n, s) \<in> set fs \<Longrightarrow> f h s = Ok j \<Longrightarrow> g h s = Ok j"
  shows "encode_fields g r fs = Ok j"
proof -
  obtain ps where ps: "res_mapM (\<lambda>(n, s). res_bind (ok_or (''JSON field `'' @ n @ ''` is missing'') (rec_get r n))
      (\<lambda>h. res_map (Pair n) (f h s))) fs = Ok ps" "j = J_Object (bt_collect ps)"
    using assms(1) by (auto simp: encode_fields_def res_map_Ok_iff)
  have "res_mapM (\<lambda>(n, s). res_bind (ok_or (''JSON field `'' @ n @ ''` is missing'') (rec_get r n))
      (\<lambda>h. res_map (Pair n) (g h s))) fs = Ok ps"
    by (rule res_mapM_mono [OF ps(1)]) (use assms(2) in \<open>auto simp: res_bind_Ok_iff res_map_Ok_iff\<close>)
  then show ?thesis using ps(2) by (simp add: encode_fields_def)
qed

lemma encode_grows:
  "encode a h s = Ok j \<Longrightarrow> grows a b \<Longrightarrow> tells_apart a fac s \<Longrightarrow> encode b h s = Ok j"
proof (induction a h s arbitrary: j rule: encode.induct)
  case (1 hp h kind)
  then obtain v where v: "heap_get hp h = Ok v" by (auto simp: res_bind_Ok_iff)
  have "enum_case b r = Ok c" if "enum_case hp r = Ok c" for r c by (rule enum_case_grows [OF "1.prems"(2) that])
  then show ?case
    using "1.prems"(1) grows_get [OF "1.prems"(2) v] v
    by (cases v) (auto simp: mismatch_shape_def res_bind_Ok_iff split: if_splits)
next
  case (2 hp h el)
  then obtain items where i: "heap_get hp h = Ok (V_List items)"
    by (auto simp: res_bind_Ok_iff encode_inv)
  then obtain js where js: "res_mapM (\<lambda>i. encode hp i el) items = Ok js" "j = J_Array js"
    using "2.prems"(1) by (auto simp: res_map_Ok_iff)
  have "res_mapM (\<lambda>i. encode b i el) items = Ok js"
    by (rule res_mapM_mono [OF js(1)]) (use 2 i in simp)
  then show ?case using js(2) grows_get [OF "2.prems"(2) i] by simp
next
  case (3 hp h els)
  then obtain items where i: "heap_get hp h = Ok (V_List items)"
    by (auto simp: res_bind_Ok_iff encode_inv)
  then obtain js where js: "length items = length els"
      "res_mapM (\<lambda>(i, el). encode hp i el) (zip items els) = Ok js" "j = J_Array js"
    using "3.prems"(1) by (auto simp: res_map_Ok_iff encode_inv)
  have "res_mapM (\<lambda>(i, el). encode b i el) (zip items els) = Ok js"
  proof (rule res_mapM_mono [OF js(2)])
    fix x y assume x: "x \<in> set (zip items els)" "(case x of (i, el) \<Rightarrow> encode hp i el) = Ok y"
    then have "snd x \<in> set els" by (metis prod.collapse set_zip_rightD)
    then have "tells_apart hp fac (snd x)" using "3.prems"(3) by (auto simp: list_all_iff)
    then show "(case x of (i, el) \<Rightarrow> encode b i el) = Ok y"
      using 3(1) [OF i refl js(1) x(1), of "fst x" "snd x" y] x(2) "3.prems"(2) by (simp add: case_prod_beta)
  qed
  then show ?case using js grows_get [OF "3.prems"(2) i] by simp
next
  case (4 hp h fs)
  then obtain r where r: "heap_get hp h = Ok (V_Record r)"
    by (auto simp: res_bind_Ok_iff encode_inv)
  have "encode_fields (encode b) r fs = Ok j"
  proof (rule encode_fields_mono)
    show "encode_fields (encode hp) r fs = Ok j" using "4.prems"(1) r by simp
    fix n s k i assume "(n, s) \<in> set fs" "encode hp k s = Ok i"
    then show "encode b k s = Ok i" using 4(1) [OF r refl] "4.prems"(2,3) by (auto simp: list_all_iff)
  qed
  then show ?case using grows_get [OF "4.prems"(2) r] by simp
next
  case (5 hp h name ident fs embeds)
  then obtain r where r: "heap_get hp h = Ok (V_Record r)" "rec_struct_identity r = Some ident"
    by (auto simp: res_bind_Ok_iff encode_inv)
  then obtain o' where o': "encode_fields (encode hp) r fs = Ok o'" "j = J_Object [(name, o')]"
    using "5.prems"(1) by (auto simp: res_map_Ok_iff)
  have "encode_fields (encode b) r fs = Ok o'"
  proof (rule encode_fields_mono [OF o'(1)])
    fix n s k i assume "(n, s) \<in> set fs" "encode hp k s = Ok i"
    then show "encode b k s = Ok i" using 5(1) [OF r(1) refl r(2)] "5.prems"(2,3) by (auto simp: list_all_iff)
  qed
  then show ?case using grows_get [OF "5.prems"(2) r(1)] r(2) o'(2) by simp
next
  case (6 hp h inner)
  then obtain r c where r: "heap_get hp h = Ok (V_Record r)" "rec_enum_name r = Some ''Option''" "enum_case hp r = Ok c"
    by (auto simp: res_bind_Ok_iff encode_inv)
  then show ?case
    using "6.IH" [OF r(1) refl r(2,3)] "6.prems" grows_get [OF "6.prems"(2) r(1)] enum_case_grows [OF "6.prems"(2) r(3)]
    by (auto simp: res_bind_Ok_iff split: if_splits)
next
  case (7 hp h name cases)
  then obtain r c where r: "heap_get hp h = Ok (V_Record r)" "rec_enum_name r = Some name" "enum_case hp r = Ok c"
    by (auto simp: res_bind_Ok_iff encode_inv)
  note b = grows_get [OF "7.prems"(2) r(1)] enum_case_grows [OF "7.prems"(2) r(3)]
  show ?case
  proof (cases "find (\<lambda>(label, _). label = c) cases")
    case (Some q)
    obtain l p where q: "q = (l, p)" by fastforce
    show ?thesis
    proof (cases p)
      case None
      then show ?thesis using "7.prems"(1) r b Some q by simp
    next
      case (Some s)
      then have f: "find (\<lambda>(label, _). label = c) cases = Some (l, Some s)" using \<open>find _ _ = Some q\<close> q by simp
      then have "(l, Some s) \<in> set cases" by (metis find_Some_iff nth_mem)
      then have t: "tells_apart hp fac s" using "7.prems"(3) by (force simp: list_all_iff)
      obtain v jv where v: "enum_payload r = Ok v" "encode hp v s = Ok jv"
          "j = J_Object [(''tag'', J_String c), (''value'', jv)]"
        using "7.prems"(1) r f by (auto simp: res_bind_Ok_iff res_map_Ok_iff)
      have "encode b v s = Ok jv" using 7(1) [OF r(1) refl r(2,3) f refl refl v(1,2) "7.prems"(2) t] .
      then show ?thesis using r b f v by simp
    qed
  qed (use "7.prems"(1) r in simp)
next
  case (8 hp h name repr)
  then show ?case
    by (auto simp: res_bind_Ok_iff mismatch_shape_def dest: grows_get grows_newtype split: if_splits)
qed simp


lemma bt_get_extend: "bt_get (bt_extend m xs) k = (case map_of (rev xs) k of None \<Rightarrow> bt_get m k | Some v \<Rightarrow> Some v)"
proof (induction xs arbitrary: m)
  case (Cons x xs)
  obtain k' v where "x = (k', v)" by fastforce
  then show ?case by (simp add: Cons.IH map_add_def split: option.splits)
qed simp

lemma bt_get_collect_distinct: "distinct (map fst xs) \<Longrightarrow> (k, v) \<in> set xs \<Longrightarrow> bt_get (bt_collect xs) k = Some v"
  by (simp add: bt_collect_def bt_get_extend rev_map [symmetric] map_of_is_SomeI del: rev_map)

definition document :: "(string \<times> json_shape) list \<Rightarrow> (string, json) btree \<Rightarrow> (string \<times> json) list" where
  "document fs m = map (\<lambda>(n, s). (n, the (bt_get m n))) fs"

lemma encode_fields_parts:
  assumes e: "encode_fields enc r fs = Ok j" and d: "distinct (map fst fs)"
  obtains m where "j = J_Object m" and "m = bt_collect (document fs m)"
    and "\<And>n s. (n, s) \<in> set fs \<Longrightarrow> \<exists>h i. rec_get r n = Some h \<and> enc h s = Ok i \<and> bt_get m n = Some i"
proof -
  let ?g = "\<lambda>(n, s). res_bind (ok_or (''JSON field `'' @ n @ ''` is missing'') (rec_get r n)) (\<lambda>h. res_map (Pair n) (enc h s))"
  obtain ps where ps: "res_mapM ?g fs = Ok ps" "j = J_Object (bt_collect ps)"
    using e by (auto simp: encode_fields_def res_map_Ok_iff)
  have len: "length ps = length fs" by (rule res_mapM_Ok_length [OF ps(1)])
  have nth: "?g (fs ! k) = Ok (ps ! k)" if "k < length fs" for k by (rule res_mapM_Ok_nth [OF ps(1) that])
  have at: "fst (ps ! k) = fst (fs ! k) \<and>
      (\<exists>h. rec_get r (fst (fs ! k)) = Some h \<and> enc h (snd (fs ! k)) = Ok (snd (ps ! k)))"
    if "k < length fs" for k
    using nth [OF that] by (auto simp: case_prod_beta ok_or_def res_bind_Ok_iff res_map_Ok_iff split: option.splits)
  have ks: "map fst ps = map fst fs" using at len by (intro nth_equalityI) auto
  have get: "bt_get (bt_collect ps) (fst (fs ! k)) = Some (snd (ps ! k))" if "k < length fs" for k
  proof -
    have "(fst (fs ! k), snd (ps ! k)) = ps ! k" using at [OF that] by (simp add: prod_eq_iff)
    then have "(fst (fs ! k), snd (ps ! k)) \<in> set ps" using that len by (metis nth_mem)
    then show ?thesis using d ks by (intro bt_get_collect_distinct) simp_all
  qed
  show ?thesis
  proof (rule that)
    show "j = J_Object (bt_collect ps)" by (rule ps(2))
    have "document fs (bt_collect ps) = ps"
      using at get len by (intro nth_equalityI) (auto simp: document_def case_prod_beta prod_eq_iff)
    then show "bt_collect ps = bt_collect (document fs (bt_collect ps))" by simp
    fix n s assume "(n, s) \<in> set fs"
    then obtain k where k: "k < length fs" "fs ! k = (n, s)" by (metis in_set_conv_nth)
    then show "\<exists>h i. rec_get r n = Some h \<and> enc h s = Ok i \<and> bt_get (bt_collect ps) n = Some i"
      using at [OF k(1)] get [OF k(1)] by simp
  qed
qed

lemma encode_fields_document:
  assumes "\<And>n s. (n, s) \<in> set fs \<Longrightarrow> \<exists>h i. rec_get r n = Some h \<and> enc h s = Ok i \<and> bt_get m n = Some i"
  shows "encode_fields enc r fs = Ok (J_Object (bt_collect (document fs m)))"
proof -
  have "res_mapM (\<lambda>(n, s). res_bind (ok_or (''JSON field `'' @ n @ ''` is missing'') (rec_get r n))
      (\<lambda>h. res_map (Pair n) (enc h s))) fs = Ok (map (\<lambda>(n, s). (n, the (bt_get m n))) fs)"
    by (rule res_mapM_Ok_map) (use assms in \<open>fastforce simp: ok_or_def\<close>)
  then show ?thesis by (simp add: encode_fields_def document_def)
qed

lemma decode_fields_run:
  assumes "heap_wf hp" and "distinct (map fst fs)" and "\<And>n s. (n, s) \<in> set fs \<Longrightarrow> tells_apart hp fac s"
    and "\<And>n s p hp'. (n, s) \<in> set fs \<Longrightarrow> heap_wf hp' \<Longrightarrow> grows hp hp' \<Longrightarrow>
      \<exists>j. bt_get obj n = Some j \<and> decodes_to (dec j s p) hp' s j"
  shows "\<exists>r' hp'. decode_fields dec path fs obj r hp = (Ok r', hp') \<and> heap_wf hp' \<and> grows hp hp' \<and>
    rec_struct_identity r' = rec_struct_identity r \<and>
    (\<forall>n. n \<notin> fst ` set fs \<longrightarrow> rec_get r' n = rec_get r n) \<and>
    (\<forall>(n, s) \<in> set fs. \<exists>h j. rec_get r' n = Some h \<and> encode hp' h s = Ok j \<and> bt_get obj n = Some j)"
  using assms
proof (induction fs arbitrary: r hp)
  case Nil
  then show ?case by (simp add: ret_def)
next
  case (Cons f fs)
  obtain n s where f: "f = (n, s)" by fastforce
  have first: "(n, s) \<in> set (f # fs)" by (simp add: f)
  obtain j where j: "bt_get obj n = Some j" "decodes_to (dec j s (path @ ''.'' @ n)) hp s j"
    using Cons.prems(4) [OF first Cons.prems(1) grows_refl] by blast
  then obtain h hp1 where 1: "dec j s (path @ ''.'' @ n) hp = (Ok h, hp1)" "heap_wf hp1" "grows hp hp1" "encode hp1 h s = Ok j"
    unfolding decodes_to_def by blast
  define r1 where "r1 = rec_insert n h (r\<lparr>rec_order := rec_order r @ [n]\<rparr>)"
  have r1: "rec_get r1 k = (if k = n then Some h else rec_get r k)" "rec_struct_identity r1 = rec_struct_identity r" for k
    by (simp_all add: r1_def rec_insert_def rec_get_def)
  have "\<exists>r' hp'. decode_fields dec path fs obj r1 hp1 = (Ok r', hp') \<and> heap_wf hp' \<and> grows hp1 hp' \<and>
    rec_struct_identity r' = rec_struct_identity r1 \<and>
    (\<forall>n. n \<notin> fst ` set fs \<longrightarrow> rec_get r' n = rec_get r1 n) \<and>
    (\<forall>(n, s) \<in> set fs. \<exists>h j. rec_get r' n = Some h \<and> encode hp' h s = Ok j \<and> bt_get obj n = Some j)"
  proof (rule Cons.IH [OF 1(2)])
    show "distinct (map fst fs)" using Cons.prems(2) by simp
    fix m t assume mt: "(m, t) \<in> set fs"
    then have mf: "(m, t) \<in> set (f # fs)" by simp
    show "tells_apart hp1 fac t" by (rule tells_apart_grows [OF Cons.prems(3) [OF mf] 1(3)])
    fix p hp' assume "heap_wf hp'" "grows hp1 hp'"
    then show "\<exists>j. bt_get obj m = Some j \<and> decodes_to (dec j t p) hp' t j"
      using Cons.prems(4) [OF mf] grows_trans [OF 1(3)] by blast
  qed
  then obtain r' hp' where 2: "decode_fields dec path fs obj r1 hp1 = (Ok r', hp')" "heap_wf hp'" "grows hp1 hp'"
    "rec_struct_identity r' = rec_struct_identity r1" "\<forall>n. n \<notin> fst ` set fs \<longrightarrow> rec_get r' n = rec_get r1 n"
    "\<forall>(n, s) \<in> set fs. \<exists>h j. rec_get r' n = Some h \<and> encode hp' h s = Ok j \<and> bt_get obj n = Some j"
    by blast
  have "n \<notin> fst ` set fs" using Cons.prems(2) by (simp add: f)
  then have "rec_get r' n = Some h" using 2(5) r1 by simp
  moreover have "encode hp' h s = Ok j"
    by (rule encode_grows [OF 1(4) 2(3) tells_apart_grows [OF Cons.prems(3) [OF first] 1(3)]])
  moreover have "decode_fields dec path (f # fs) obj r hp = (Ok r', hp')"
    using 1(1) 2(1) j(1) by (simp add: f Let_def bind_def r1_def)
  ultimately show ?case
    using 2 r1 j(1) grows_trans [OF 1(3) 2(3)] by (intro exI [of _ r'] exI [of _ hp']) (auto simp: f)
qed

lemma res_mapM_all2: "list_all2 (\<lambda>x y. f x = Ok y) xs ys \<Longrightarrow> res_mapM f xs = Ok ys"
  by (induction rule: list_all2_induct) auto

lemma decode_items_run:
  assumes "heap_wf hp" and "\<And>j s. (j, s) \<in> set ps \<Longrightarrow> tells_apart hp fac s"
    and "\<And>j s p hp'. (j, s) \<in> set ps \<Longrightarrow> heap_wf hp' \<Longrightarrow> grows hp hp' \<Longrightarrow> decodes_to (dec j s p) hp' s j"
  shows "\<exists>hs hp'. decode_items dec path i ps hp = (Ok hs, hp') \<and> heap_wf hp' \<and> grows hp hp' \<and>
    list_all2 (\<lambda>h (j, s). encode hp' h s = Ok j) hs ps"
  using assms
proof (induction ps arbitrary: hp i)
  case Nil
  then show ?case by (simp add: ret_def)
next
  case (Cons x ps)
  obtain j s where x: "x = (j, s)" by fastforce
  have first: "(j, s) \<in> set (x # ps)" by (simp add: x)
  obtain h hp1 where 1: "dec j s (path @ ''['' @ nat_text i @ '']'') hp = (Ok h, hp1)" "heap_wf hp1" "grows hp hp1"
    "encode hp1 h s = Ok j"
    using Cons.prems(3) [OF first Cons.prems(1) grows_refl] unfolding decodes_to_def by blast
  have "\<exists>hs hp'. decode_items dec path (Suc i) ps hp1 = (Ok hs, hp') \<and> heap_wf hp' \<and> grows hp1 hp' \<and>
    list_all2 (\<lambda>h (j, s). encode hp' h s = Ok j) hs ps"
  proof (rule Cons.IH [OF 1(2)])
    fix k t assume kt: "(k, t) \<in> set ps"
    then have kx: "(k, t) \<in> set (x # ps)" by simp
    show "tells_apart hp1 fac t" by (rule tells_apart_grows [OF Cons.prems(2) [OF kx] 1(3)])
    fix p hp' assume "heap_wf hp'" "grows hp1 hp'"
    then show "decodes_to (dec k t p) hp' t k" using Cons.prems(3) [OF kx] grows_trans [OF 1(3)] by blast
  qed
  then obtain hs hp' where 2: "decode_items dec path (Suc i) ps hp1 = (Ok hs, hp')" "heap_wf hp'" "grows hp1 hp'"
    "list_all2 (\<lambda>h (j, s). encode hp' h s = Ok j) hs ps"
    by blast
  have "encode hp' h s = Ok j"
    by (rule encode_grows [OF 1(4) 2(3) tells_apart_grows [OF Cons.prems(2) [OF first] 1(3)]])
  moreover have "decode_items dec path i (x # ps) hp = (Ok (h # hs), hp')"
    using 1(1) 2(1) by (simp add: x bind_def ret_def)
  ultimately show ?case
    using 2 grows_trans [OF 1(3) 2(3)] by (intro exI [of _ "h # hs"] exI [of _ hp']) (simp add: x)
qed


section \<open>The decoder gives back what was encoded\<close>

lemma decodes_to_alloc:
  assumes "heap_wf hp" and "\<And>h hp'. grows hp hp' \<Longrightarrow> heap_get hp' h = Ok v \<Longrightarrow> encode hp' h s = Ok j"
  shows "decodes_to (alloc_m v) hp s j"
proof -
  obtain h hp' where "alloc_m v hp = (Ok h, hp')" "heap_wf hp'" "grows hp hp'" "heap_get hp' h = Ok v"
    using alloc_m_run [OF assms(1)] by blast
  then show ?thesis using assms(2) [of hp' h] unfolding decodes_to_def by blast
qed

lemma decodes_to_after:
  "m hp = (Ok x, hp') \<Longrightarrow> grows hp hp' \<Longrightarrow> decodes_to (f x) hp' s j \<Longrightarrow> decodes_to (bind m f) hp s j"
  unfolding decodes_to_def bind_def by (auto intro: grows_trans)

lemma decodes_to_enum:
  assumes "heap_wf hp"
    and "\<And>h hp' r. grows hp hp' \<Longrightarrow> heap_get hp' h = Ok (V_Record r) \<Longrightarrow> rec_enum_name r = Some n \<Longrightarrow>
      enum_case hp' r = Ok c \<Longrightarrow> rec_get r ''value'' = p \<Longrightarrow> encode hp' h s = Ok j"
  shows "decodes_to (alloc_enum_m n c i p) hp s j"
proof -
  obtain h hp' r where "alloc_enum_m n c i p hp = (Ok h, hp')" "heap_wf hp'" "grows hp hp'"
    "heap_get hp' h = Ok (V_Record r)" "rec_enum_name r = Some n" "enum_case hp' r = Ok c" "rec_get r ''value'' = p"
    using alloc_enum_run [OF assms(1)] by metis
  then show ?thesis using assms(2) [of hp' h r] unfolding decodes_to_def by blast
qed

lemma decodes_to_bind:
  assumes "decodes_to m hp s j"
    and "\<And>h hp'. heap_wf hp' \<Longrightarrow> grows hp hp' \<Longrightarrow> encode hp' h s = Ok j \<Longrightarrow> decodes_to (f h) hp' s' j'"
  shows "decodes_to (bind m f) hp s' j'"
proof -
  obtain h hp1 where 1: "m hp = (Ok h, hp1)" "heap_wf hp1" "grows hp hp1" "encode hp1 h s = Ok j"
    using assms(1) unfolding decodes_to_def by blast
  show ?thesis by (rule decodes_to_after [where m = m and f = f, OF 1(1) 1(3)]) (rule assms(2) [OF 1(2-4)])
qed

lemma add_methods_run:
  assumes "method_names hp fac ident = Some ks"
  shows "\<exists>r'. add_methods fac ident r hp = (Ok r', hp) \<and> rec_struct_identity r' = rec_struct_identity r \<and>
    (\<forall>n. n \<notin> ks \<longrightarrow> rec_get r' n = rec_get r n)"
proof -
  obtain t where t: "heap_get hp fac = Ok (V_Record t)"
    using assms by (auto simp: method_names_def split: res.splits val.splits)
  show ?thesis
  proof (cases "rec_get t ident")
    case None
    then show ?thesis by (simp add: add_methods_def bind_def get_m_def t ret_def)
  next
    case (Some m)
    then obtain q where q: "heap_get hp m = Ok (V_Record q)" and ks: "ks = set (bt_keys (rec_fields q))"
      using assms t by (auto simp: method_names_def split: res.splits val.splits)
    have "bt_get (bt_extend (rec_fields r) (rec_fields q)) n = bt_get (rec_fields r) n" if "n \<notin> ks" for n
    proof -
      have "map_of (rev (rec_fields q)) n = None" using that by (simp add: ks bt_keys_def map_of_eq_None_iff)
      then show ?thesis by (simp add: bt_get_extend)
    qed
    then show ?thesis using Some q by (simp add: add_methods_def bind_def get_m_def t ret_def rec_get_def)
  qed
qed

lemma find_label: "find (\<lambda>(l, _). l = c) cs = Some (l, p) \<Longrightarrow> l = c \<and> (l, p) \<in> set cs"
  by (induction cs) (auto split: if_splits)

lemma find_labelled:
  "find (\<lambda>(l, _). l = c) cs = Some (l, p) \<Longrightarrow> \<exists>i. find (\<lambda>(i, l, _). l = c) (enumerate k cs) = Some (i, c, p)"
proof (induction cs arbitrary: k)
  case (Cons x cs)
  then show ?case by (cases x) (auto split: if_splits)
qed simp

lemma items_round:
  assumes wf: "heap_wf hp" and len: "length js = length ss" and t: "\<And>s. s \<in> set ss \<Longrightarrow> tells_apart hp fac s"
    and dec: "\<And>n p hp'. n < length ss \<Longrightarrow> heap_wf hp' \<Longrightarrow> grows hp hp' \<Longrightarrow> decodes_to (dec (js ! n) (ss ! n) p) hp' (ss ! n) (js ! n)"
  obtains hs hp' where "decode_items dec path 0 (zip js ss) hp = (Ok hs, hp')" and "heap_wf hp'" and "grows hp hp'"
    and "length hs = length ss"
    and "\<And>q n. grows hp' q \<Longrightarrow> n < length ss \<Longrightarrow> encode q (hs ! n) (ss ! n) = Ok (js ! n)"
proof -
  have "\<exists>hs hp'. decode_items dec path 0 (zip js ss) hp = (Ok hs, hp') \<and>
      heap_wf hp' \<and> grows hp hp' \<and> list_all2 (\<lambda>h (j, s). encode hp' h s = Ok j) hs (zip js ss)"
  proof (rule decode_items_run [OF wf])
    fix j s assume z: "(j, s) \<in> set (zip js ss)"
    then obtain n where n: "n < length ss" "j = js ! n" "s = ss ! n" by (auto simp: in_set_zip)
    then show "tells_apart hp fac s" by (simp add: t)
    show "decodes_to (dec j s p) hp' s j" if "heap_wf hp'" "grows hp hp'" for p hp'
      using dec [OF n(1) that] n by simp
  qed
  then obtain hs hp' where r: "decode_items dec path 0 (zip js ss) hp = (Ok hs, hp')" "heap_wf hp'" "grows hp hp'"
      "list_all2 (\<lambda>h (j, s). encode hp' h s = Ok j) hs (zip js ss)" by blast
  have hs: "length hs = length ss" using list_all2_lengthD [OF r(4)] len by simp
  show ?thesis
  proof (rule that [OF r(1-3) hs])
    fix q n assume q: "grows hp' q" and n: "n < length ss"
    have "encode hp' (hs ! n) (ss ! n) = Ok (js ! n)" using list_all2_nthD2 [OF r(4), of n] n len by simp
    moreover have "tells_apart hp' fac (ss ! n)" by (rule tells_apart_grows [OF t r(3)]) (use n in simp)
    ultimately show "encode q (hs ! n) (ss ! n) = Ok (js ! n)" by (rule encode_grows [OF _ q])
  qed
qed

lemma fields_round:
  assumes wf: "heap_wf hp2" and ef: "encode_fields (encode hp) r fs = Ok j" and d: "distinct (map fst fs)"
    and t: "\<And>n s. (n, s) \<in> set fs \<Longrightarrow> tells_apart hp2 fac s"
    and dec: "\<And>n s h i p hp'. (n, s) \<in> set fs \<Longrightarrow> encode hp h s = Ok i \<Longrightarrow> heap_wf hp' \<Longrightarrow> grows hp2 hp' \<Longrightarrow>
      decodes_to (decode fac i s p) hp' s i"
  obtains m r' hp' where "j = J_Object m" and "decode_fields (decode fac) path fs m r0 hp2 = (Ok r', hp')"
    and "heap_wf hp'" and "grows hp2 hp'" and "rec_struct_identity r' = rec_struct_identity r0"
    and "\<And>q r''. grows hp' q \<Longrightarrow> (\<And>n. n \<in> fst ` set fs \<Longrightarrow> rec_get r'' n = rec_get r' n) \<Longrightarrow>
      encode_fields (encode q) r'' fs = Ok j"
proof -
  obtain m where m: "j = J_Object m" "m = bt_collect (document fs m)"
    and mf: "\<And>n s. (n, s) \<in> set fs \<Longrightarrow> \<exists>h i. rec_get r n = Some h \<and> encode hp h s = Ok i \<and> bt_get m n = Some i"
    by (rule encode_fields_parts [OF ef d]) blast
  have run: "\<exists>i. bt_get m n = Some i \<and> decodes_to (decode fac i s p) hp' s i"
    if "(n, s) \<in> set fs" "heap_wf hp'" "grows hp2 hp'" for n s p hp'
    using mf [OF that(1)] dec [OF that(1) _ that(2,3)] by blast
  have "\<exists>r' hp'. decode_fields (decode fac) path fs m r0 hp2 = (Ok r', hp') \<and> heap_wf hp' \<and> grows hp2 hp' \<and>
    rec_struct_identity r' = rec_struct_identity r0 \<and>
    (\<forall>n. n \<notin> fst ` set fs \<longrightarrow> rec_get r' n = rec_get r0 n) \<and>
    (\<forall>(n, s) \<in> set fs. \<exists>h j. rec_get r' n = Some h \<and> encode hp' h s = Ok j \<and> bt_get m n = Some j)"
    by (rule decode_fields_run [where fac = fac, OF wf d]) (use t run in blast)+
  then obtain r' hp' where 1: "decode_fields (decode fac) path fs m r0 hp2 = (Ok r', hp')" "heap_wf hp'" "grows hp2 hp'"
    "rec_struct_identity r' = rec_struct_identity r0"
    "\<forall>(n, s) \<in> set fs. \<exists>h j. rec_get r' n = Some h \<and> encode hp' h s = Ok j \<and> bt_get m n = Some j"
    by blast
  show ?thesis
  proof (rule that [OF m(1) 1(1-4)])
    fix q r'' assume q: "grows hp' q" and same: "\<And>n. n \<in> fst ` set fs \<Longrightarrow> rec_get r'' n = rec_get r' n"
    have "encode_fields (encode q) r'' fs = Ok (J_Object (bt_collect (document fs m)))"
    proof (rule encode_fields_document)
      fix n s assume ns: "(n, s) \<in> set fs"
      then obtain h i where "rec_get r' n = Some h" "encode hp' h s = Ok i" "bt_get m n = Some i" using 1(5) by blast
      moreover have "rec_get r'' n = rec_get r' n" by (rule same) (use ns in force)
      ultimately show "\<exists>h i. rec_get r'' n = Some h \<and> encode q h s = Ok i \<and> bt_get m n = Some i"
        using encode_grows [OF _ q tells_apart_grows [OF t [OF ns] 1(3)]] by auto
    qed
    then show "encode_fields (encode q) r'' fs = Ok j" using m by simp
  qed
qed

lemma decode_encode:
  assumes "encode hp h s = Ok j" and "numbers_wf hp" and "heap_wf hp2" and "tells_apart hp2 fac s"
  shows "decodes_to (decode fac j s path) hp2 s j"
  using assms
proof (induction hp h s arbitrary: j path hp2 rule: encode.induct)
  case (1 hp h kind)
  then obtain v where v: "heap_get hp h = Ok v" by (auto simp: res_bind_Ok_iff)
  show ?case
  proof (cases v)
    case (V_Number n)
    then have e: "encode_number n = Ok j" and k: "kind = ''number''"
      using "1.prems"(1) v by (auto simp: encode_inv)
    have "f64_wf n" using "1.prems"(2) v V_Number by (simp add: numbers_wf_def)
    then obtain m where m: "j = J_Number m" "f64_is_finite (json_as_f64 m)" "encode_number (json_as_f64 m) = Ok j"
      using encode_number_again [OF e] by blast
    then show ?thesis using k decodes_to_alloc [OF "1.prems"(3)] by simp
  next
    case (V_String x)
    then have "kind = ''string''" "j = J_String x" using "1.prems"(1) v by (auto simp: encode_inv)
    then show ?thesis using "1.prems"(3) by (auto intro!: decodes_to_alloc)
  next
    case (V_Bool x)
    then have "kind = ''boolean''" "j = J_Bool x" using "1.prems"(1) v by (auto simp: encode_inv)
    then show ?thesis using "1.prems"(3) by (auto intro!: decodes_to_alloc)
  next
    case (V_Record r)
    then have "kind = ''none''" "j = J_Null"
      using "1.prems"(1) v by (auto simp: encode_inv res_bind_Ok_iff)
    then show ?thesis using "1.prems"(3) by (auto intro!: decodes_to_enum)
  qed (use "1.prems" v in \<open>simp_all add: mismatch_shape_def\<close>)
next
  case (2 hp h el)
  then obtain items js where i: "heap_get hp h = Ok (V_List items)" "res_mapM (\<lambda>i. encode hp i el) items = Ok js" "j = J_Array js"
    by (auto simp: res_bind_Ok_iff encode_inv res_map_Ok_iff)
  have len: "length js = length items" by (rule res_mapM_Ok_length [OF i(2)])
  have t: "tells_apart hp2 fac el" using "2.prems"(4) by simp
  let ?ss = "replicate (length js) el"
  have each: "decodes_to (decode fac (js ! n) el p) hp' el (js ! n)" if "n < length js" "heap_wf hp'" "grows hp2 hp'" for n p hp'
    using "2.IH" [OF i(1) refl nth_mem res_mapM_Ok_nth [OF i(2)]] that "2.prems"(2) tells_apart_grows [OF t] len by simp
  obtain hs hp' where r: "decode_items (\<lambda>j _ p. decode fac j el p) path 0 (zip js ?ss) hp2 = (Ok hs, hp')"
      "heap_wf hp'" "grows hp2 hp'" "length hs = length ?ss"
      and e: "\<And>q n. grows hp' q \<Longrightarrow> n < length ?ss \<Longrightarrow> encode q (hs ! n) (?ss ! n) = Ok (js ! n)"
    by (rule items_round [OF "2.prems"(3), of js ?ss fac "\<lambda>j _ p. decode fac j el p" path]) (use each t in simp_all)
  have "decodes_to (alloc_m (V_List hs)) hp' (Js_Array el) j"
  proof (rule decodes_to_alloc [OF r(2)])
    fix h q assume q: "grows hp' q" "heap_get q h = Ok (V_List hs)"
    have "res_mapM (\<lambda>i. encode q i el) hs = Ok js"
      by (rule res_mapM_all2) (use e [OF q(1)] r(4) in \<open>simp add: list_all2_conv_all_nth\<close>)
    then show "encode q h (Js_Array el) = Ok j" using q(2) i(3) by simp
  qed
  moreover have "decode_items (\<lambda>j _ p. decode fac j el p) path 0 (map (\<lambda>i. (i, el)) js) hp2 = (Ok hs, hp')"
    using r(1) by (simp add: zip_replicate2)
  ultimately show ?case by (simp add: i(3)) (rule decodes_to_after [OF _ r(3)])
next
  case (3 hp h els)
  then obtain items js where i: "heap_get hp h = Ok (V_List items)" "length items = length els"
      "res_mapM (\<lambda>(i, el). encode hp i el) (zip items els) = Ok js" "j = J_Array js"
    by (auto simp: res_bind_Ok_iff encode_inv res_map_Ok_iff)
  have len: "length js = length els" using res_mapM_Ok_length [OF i(3)] i(2) by simp
  have t: "tells_apart hp2 fac s" if "s \<in> set els" for s using "3.prems"(4) that by (simp add: list_all_iff)
  have each: "decodes_to (decode fac (js ! n) (els ! n) p) hp' (els ! n) (js ! n)"
    if n: "n < length els" and "heap_wf hp'" "grows hp2 hp'" for n p hp'
  proof -
    have z: "(items ! n, els ! n) \<in> set (zip items els)" using n i(2) by (auto simp: in_set_zip)
    show ?thesis
      using "3.IH" [OF i(1) refl i(2) z refl] res_mapM_Ok_nth [OF i(3), of n] n i(2) "3.prems"(2) that(2)
        tells_apart_grows [OF t that(3)] by simp
  qed
  obtain hs hp' where r: "decode_items (decode fac) path 0 (zip js els) hp2 = (Ok hs, hp')"
      "heap_wf hp'" "grows hp2 hp'" "length hs = length els"
      and e: "\<And>q n. grows hp' q \<Longrightarrow> n < length els \<Longrightarrow> encode q (hs ! n) (els ! n) = Ok (js ! n)"
    by (rule items_round [where dec = "decode fac" and path = path, OF "3.prems"(3) len t each]) blast+
  have "decodes_to (alloc_m (V_List hs)) hp' (Js_Tuple els) j"
  proof (rule decodes_to_alloc [OF r(2)])
    fix h q assume q: "grows hp' q" "heap_get q h = Ok (V_List hs)"
    have "res_mapM (\<lambda>(i, el). encode q i el) (zip hs els) = Ok js"
      by (rule res_mapM_all2) (use e [OF q(1)] r(4) len in \<open>simp add: list_all2_conv_all_nth\<close>)
    then show "encode q h (Js_Tuple els) = Ok j" using q(2) i(4) r(4) by simp
  qed
  with r(1) show ?case by (simp add: i(4) len) (rule decodes_to_after [OF _ r(3)])
next
  case (4 hp h fs)
  then obtain r where r: "heap_get hp h = Ok (V_Record r)" and ef: "encode_fields (encode hp) r fs = Ok j"
    by (auto simp: res_bind_Ok_iff encode_inv)
  have d: "distinct (map fst fs)" and t: "\<And>n s. (n, s) \<in> set fs \<Longrightarrow> tells_apart hp2 fac s"
    using "4.prems"(4) by (auto simp: list_all_iff)
  have each: "decodes_to (decode fac i s p) hp' s i"
    if "(n, s) \<in> set fs" "encode hp k s = Ok i" "heap_wf hp'" "grows hp2 hp'" for n s k i p hp'
    using "4.IH" [OF r refl] that "4.prems"(2) tells_apart_grows [OF t] by blast
  obtain m r' hp' where 1: "j = J_Object m" "decode_fields (decode fac) path fs m empty_record hp2 = (Ok r', hp')"
      "heap_wf hp'" "grows hp2 hp'"
      and e: "\<And>q r''. grows hp' q \<Longrightarrow> (\<And>n. n \<in> fst ` set fs \<Longrightarrow> rec_get r'' n = rec_get r' n) \<Longrightarrow>
        encode_fields (encode q) r'' fs = Ok j"
    by (rule fields_round [OF "4.prems"(3) ef d t each, where path = path and ?r0.0 = empty_record]) blast+
  have "decodes_to (alloc_m (V_Record r')) hp' (Js_Record fs) j"
    by (rule decodes_to_alloc [OF 1(3)]) (use e in simp)
  with 1(2) show ?case by (simp add: 1(1)) (rule decodes_to_after [OF _ 1(4)])
next
  case (5 hp h name ident fs embeds)
  then obtain r ob where r: "heap_get hp h = Ok (V_Record r)" "rec_struct_identity r = Some ident"
      and ef: "encode_fields (encode hp) r fs = Ok ob" and j: "j = J_Object [(name, ob)]"
    by (auto simp: res_bind_Ok_iff encode_inv res_map_Ok_iff)
  obtain ks where ks: "method_names hp2 fac ident = Some ks" "ks \<inter> set (map fst fs) = {}"
    using "5.prems"(4) by (auto split: option.splits)
  have d: "distinct (map fst fs)" and t: "\<And>n s. (n, s) \<in> set fs \<Longrightarrow> tells_apart hp2 fac s"
    using "5.prems"(4) by (auto simp: list_all_iff)
  have each: "decodes_to (decode fac i s p) hp' s i"
    if "(n, s) \<in> set fs" "encode hp k s = Ok i" "heap_wf hp'" "grows hp2 hp'" for n s k i p hp'
    using "5.IH" [OF r(1) refl r(2)] that "5.prems"(2) tells_apart_grows [OF t] by blast
  let ?r0 = "empty_record\<lparr>rec_struct_name := Some name, rec_struct_identity := Some ident, rec_embeds := embeds\<rparr>"
  obtain m r' hp' where 1: "ob = J_Object m" "decode_fields (decode fac) (path @ ''.'' @ name) fs m ?r0 hp2 = (Ok r', hp')"
      "heap_wf hp'" "grows hp2 hp'" "rec_struct_identity r' = rec_struct_identity ?r0"
      and e: "\<And>q r''. grows hp' q \<Longrightarrow> (\<And>n. n \<in> fst ` set fs \<Longrightarrow> rec_get r'' n = rec_get r' n) \<Longrightarrow>
        encode_fields (encode q) r'' fs = Ok ob"
    by (rule fields_round [OF "5.prems"(3) ef d t each, where path = "path @ ''.'' @ name" and ?r0.0 = ?r0]) blast+
  obtain r'' where 2: "add_methods fac ident r' hp' = (Ok r'', hp')" "rec_struct_identity r'' = rec_struct_identity r'"
      "\<forall>n. n \<notin> ks \<longrightarrow> rec_get r'' n = rec_get r' n"
    using add_methods_run [OF method_names_grows [OF ks(1) 1(4)], of r'] by blast
  have "decodes_to (alloc_m (V_Record r'')) hp' (Js_Struct name ident fs embeds) j"
  proof (rule decodes_to_alloc [OF 1(3)])
    fix k q assume q: "grows hp' q" "heap_get q k = Ok (V_Record r'')"
    have "encode_fields (encode q) r'' fs = Ok ob" by (rule e [OF q(1)]) (use 2(3) ks(2) in auto)
    then show "encode q k (Js_Struct name ident fs embeds) = Ok j" using q(2) 2(2) 1(5) j by simp
  qed
  then have "decodes_to (bind (add_methods fac ident r') (\<lambda>r'. alloc_m (V_Record r'))) hp' (Js_Struct name ident fs embeds) j"
    by (rule decodes_to_after [where m = "add_methods fac ident r'", OF 2(1) grows_refl])
  with 1(2) show ?case by (simp add: 1(1) j bt_get_def) (rule decodes_to_after [OF _ 1(4)])
next
  case (6 hp h inner)
  then obtain r c where r: "heap_get hp h = Ok (V_Record r)" "rec_enum_name r = Some ''Option''" "enum_case hp r = Ok c"
    by (auto simp: res_bind_Ok_iff encode_inv)
  show ?case
  proof (cases "c = ''None''")
    case True
    then have "j = J_Null" using "6.prems"(1) r by simp
    then show ?thesis using "6.prems"(3) by (auto intro!: decodes_to_enum)
  next
    case False
    then obtain v where c: "c = ''Some''" and v: "enum_payload r = Ok v" "encode hp v inner = Ok j"
      using "6.prems"(1) r by (auto simp: res_bind_Ok_iff split: if_splits)
    have t: "tells_apart hp2 fac inner" and nn: "j \<noteq> J_Null" using "6.prems"(4) encode_not_null v(2) by auto
    have "decodes_to (bind (decode fac j inner path) (\<lambda>h. alloc_enum_m ''Option'' ''Some'' 0 (Some h))) hp2 (Js_Option inner) j"
    proof (rule decodes_to_bind [OF 6(1) [OF r(1) refl r(2,3) False c v(1,2) "6.prems"(2,3) t]])
      fix k hp' assume k: "heap_wf hp'" "grows hp2 hp'" "encode hp' k inner = Ok j"
      show "decodes_to (alloc_enum_m ''Option'' ''Some'' 0 (Some k)) hp' (Js_Option inner) j"
        by (rule decodes_to_enum [OF k(1)])
           (use encode_grows [OF k(3) _ tells_apart_grows [OF t k(2)]] in \<open>simp add: enum_payload_def ok_or_def\<close>)
    qed
    then show ?thesis using nn by (cases j) simp_all
  qed
next
  case (7 hp h name cases)
  then obtain r c where r: "heap_get hp h = Ok (V_Record r)" "rec_enum_name r = Some name" "enum_case hp r = Ok c"
    by (auto simp: res_bind_Ok_iff encode_inv)
  obtain l p where f: "find (\<lambda>(label, _). label = c) cases = Some (l, p)"
    using "7.prems"(1) r by (cases "find (\<lambda>(label, _). label = c) cases") auto
  then have l: "l = c" and mem: "(l, p) \<in> set cases"
    by (auto dest: find_label)
  obtain i where fe: "find (\<lambda>(i, label, _). label = c) (enumerate 0 cases) = Some (i, c, p)"
    using find_labelled [OF f [unfolded l]] by blast
  show ?case
  proof (cases p)
    case None
    then have j: "j = J_Object [(''tag'', J_String c)]" using "7.prems"(1) r f by simp
    have "decodes_to (alloc_enum_m name c i None) hp2 (Js_Enum name cases) j"
      by (rule decodes_to_enum [OF "7.prems"(3)]) (use f None j in simp)
    then show ?thesis using fe None j by (simp add: bt_get_def bt_contains_def bt_keys_def)
  next
    case (Some s)
    then obtain v jv where v: "enum_payload r = Ok v" "encode hp v s = Ok jv"
        and j: "j = J_Object [(''tag'', J_String c), (''value'', jv)]"
      using "7.prems"(1) r f by (auto simp: res_bind_Ok_iff res_map_Ok_iff)
    have t: "tells_apart hp2 fac s" using "7.prems"(4) mem Some by (force simp: list_all_iff)
    have "decodes_to (bind (decode fac jv s (path @ ''.value'')) (\<lambda>h. alloc_enum_m name c i (Some h))) hp2 (Js_Enum name cases) j"
    proof (rule decodes_to_bind [OF 7(1) [OF r(1) refl r(2,3) f refl Some v(1,2) "7.prems"(2,3) t]])
      fix k hp' assume k: "heap_wf hp'" "grows hp2 hp'" "encode hp' k s = Ok jv"
      show "decodes_to (alloc_enum_m name c i (Some k)) hp' (Js_Enum name cases) j"
        by (rule decodes_to_enum [OF k(1)])
           (use encode_grows [OF k(3) _ tells_apart_grows [OF t k(2)]] f Some j in \<open>simp add: enum_payload_def ok_or_def\<close>)
    qed
    then show ?thesis using fe Some j by (simp add: bt_get_def)
  qed
next
  case (8 hp h name repr)
  then have e: "encode hp h repr = Ok j" and nn: "newtype_name hp h = Ok (Some name)"
    and t: "tells_apart hp2 fac repr" and nr: "\<not> is_newtype repr"
    by (auto simp: res_bind_Ok_iff encode_inv)
  obtain v where v: "heap_get hp h = Ok v" using "8.prems"(1) by (auto simp: res_bind_Ok_iff)
  have "decodes_to (bind (decode fac j repr path) (\<lambda>h. bind (get_m h) (\<lambda>v. alloc_newtype_m v name))) hp2 (Js_Newtype name repr) j"
  proof (rule decodes_to_bind [OF 8(1) [OF v nn refl e "8.prems"(2,3) t]])
    fix k hp' assume k: "heap_wf hp'" "grows hp2 hp'" "encode hp' k repr = Ok j"
    have t': "tells_apart hp' fac repr" by (rule tells_apart_grows [OF t k(2)])
    obtain u where u: "heap_get hp' k = Ok u" using k(3) nr t' by (cases repr) (auto simp: res_bind_Ok_iff)
    obtain h' q where q: "alloc_newtype_m u name hp' = (Ok h', q)" "heap_wf q" "grows hp' q" "heap_get q h' = Ok u"
        "newtype_name q h' = Ok (Some name)"
      by (rule alloc_newtype_run [OF k(1)])
    have "encode q h' repr = encode q k repr"
      by (rule encode_same_value [OF _ nr tells_apart_grows [OF t' q(3)]]) (use q(4) grows_get [OF q(3) u] in simp)
    then have "encode q h' (Js_Newtype name repr) = Ok j"
      using encode_grows [OF k(3) q(3) t'] q(4,5) by simp
    then show "decodes_to (bind (get_m k) (\<lambda>v. alloc_newtype_m v name)) hp' (Js_Newtype name repr) j"
      using q u unfolding decodes_to_def by (auto simp: bind_def get_m_def)
  qed
  then show ?case by simp
qed simp


section \<open>The property\<close>

text \<open>
  C24. Typed JSON round-trips: whatever document \<open>encode\<close> built from a value along a schema,
  \<open>decode\<close> reads back along the same schema, in any well-formed heap: it cannot fail, it leaves
  every value of the heap as it was, and the value it builds has the same document again, numbers,
  field names, enum tags, newtypes and struct identities included; so \<open>parse\<close> builds that value from
  every text that the reader gives this document for, and \<open>stringify\<close> writes the same text for both
  values. The schema must tell its documents apart: no unions, no field twice, no option of
  what may itself be null, no newtype of a newtype, and no method of a struct with the name of a
  field. The text of a document is not part of this: \<open>serde_json\<close> prints and reads it.
\<close>

theorem json_roundtrip:
  assumes "encode hp h s = Ok j" and "numbers_wf hp" and "heap_wf hp2" and "tells_apart hp2 fac s"
  shows "\<exists>h' hp3. decode fac j s ''$'' hp2 = (Ok h', hp3) \<and> heap_wf hp3 \<and> grows hp2 hp3 \<and> encode hp3 h' s = Ok j \<and>
    (\<forall>read text. read text = Inr j \<longrightarrow> json_parse read text s fac hp2 = (Ok h', hp3)) \<and>
    (\<forall>print. stringify print hp3 h' s = stringify print hp h s)"
  using decode_encode [OF assms, of "''$''"] assms(1)
  by (auto simp: decodes_to_def json_parse_def stringify_def)

text \<open>A record with a fraction, a list and an option.\<close>

definition note_option :: record_value where
  "note_option = (record_from_iter [(''name'', Handle 3 0), (''value'', Handle 1 0)])\<lparr>rec_enum_name := Some ''Option''\<rparr>"

definition note_record :: record_value where
  "note_record = record_from_iter [(''size'', Handle 0 0), (''tags'', Handle 2 0), (''note'', Handle 4 0)]"

definition note_slot :: "val \<Rightarrow> slot" where
  "note_slot v = \<lparr>slot_value = Some v, slot_gen = 0, slot_marked = False, slot_newtype = None,
     slot_created = 1, slot_revision = 0\<rparr>"

definition note_heap :: heap where
  "note_heap = \<lparr>slots = map note_slot [V_Number (Fin False (5 * 2 ^ 50) (- 51)), V_String ''x'',
     V_List [Handle 1 0, Handle 1 0], V_String ''Some'', V_Record note_option, V_Record note_record],
     free = [], collections = 0, allocations = 6, heap_reads = None\<rparr>"

definition note_shape :: json_shape where
  "note_shape = Js_Record [(''size'', Js_Leaf ''number''), (''tags'', Js_Array (Js_Leaf ''string'')),
     (''note'', Js_Option (Js_Leaf ''string''))]"

definition note_doc :: json where
  "note_doc = J_Object [(''note'', J_String ''x''), (''size'', J_Number (JFloat (Fin False (5 * 2 ^ 50) (- 51)))),
     (''tags'', J_Array [J_String ''x'', J_String ''x''])]"

lemma json_roundtrip_witness:
  "\<exists>h' hp3. decode (Handle 0 0) note_doc note_shape ''$'' note_heap = (Ok h', hp3) \<and> heap_wf hp3 \<and>
    grows note_heap hp3 \<and> encode hp3 h' note_shape = Ok note_doc"
proof -
  have e: "encode note_heap (Handle 5 0) note_shape = Ok note_doc" by code_simp
  have "f64_wf (Fin False (5 * 2 ^ 50) (- 51))" by code_simp
  then have n: "numbers_wf note_heap"
    by (auto simp: numbers_wf_def heap_get_def slots_get_def note_heap_def note_slot_def ok_or_def less_Suc_eq nth_Cons'
        split: if_splits)
  have w: "heap_wf note_heap" by (auto simp: heap_wf_def note_heap_def note_slot_def less_Suc_eq nth_Cons')
  have t: "tells_apart note_heap (Handle 0 0) note_shape" by (simp add: note_shape_def)
  from json_roundtrip [OF e n w t] show ?thesis by blast
qed

end
