(* ===== verification/SecPolicy.thy ===== *)
theory SecPolicy
  imports Json
begin

text \<open>
  The security policy of a project (\<open>crates/security/src/security_policy.rs\<close>): the rules of
  each capability, their reading from the manifest with its diagnostics, the merge with the
  flags of the command line, and the document a policy is written as.

  A function that pushes on the shared list of diagnostics returns the diagnostics it adds.
  A JSON document is the value the manifest was read into; an object is the list of its
  entries in the order its keys are visited. Flags and parameters are maps.
\<close>

section \<open>Rules, scopes, policies\<close>

datatype rule_list = RL_None | RL_All | RL_List "string list"

record scope =
  sc_read :: rule_list
  sc_write :: rule_list
  sc_net :: rule_list
  sc_env :: rule_list
  sc_run :: rule_list
  sc_db :: rule_list
  sc_wasm :: rule_list
  sc_dynamic :: bool

definition default_scope :: scope where
  "default_scope = \<lparr>sc_read = RL_None, sc_write = RL_None, sc_net = RL_None, sc_env = RL_None,
     sc_run = RL_None, sc_db = RL_None, sc_wasm = RL_None, sc_dynamic = False\<rparr>"

record policy =
  pol_allow :: scope
  pol_deny :: scope
  pol_prompt :: bool

definition default_policy :: policy where
  "default_policy = \<lparr>pol_allow = default_scope\<lparr>sc_run := RL_List [''deka'']\<rparr>,
     pol_deny = default_scope, pol_prompt = True\<rparr>"

datatype diag_level = Lv_Warning | Lv_Error

record diagnostic =
  dg_level :: diag_level
  dg_code :: string
  dg_path :: string
  dg_message :: string

definition diag :: "diag_level \<Rightarrow> string \<Rightarrow> string \<Rightarrow> string \<Rightarrow> diagnostic" where
  "diag level c path message = \<lparr>dg_level = level, dg_code = c, dg_path = path, dg_message = message\<rparr>"

definition has_errors :: "diagnostic list \<Rightarrow> bool" where
  "has_errors ds \<longleftrightarrow> list_ex (\<lambda>d. dg_level d = Lv_Error) ds"

section \<open>Flags of the command line\<close>

record cli_overrides =
  cli_allow_all :: bool
  cli_allow_read :: bool
  cli_allow_write :: bool
  cli_allow_net :: bool
  cli_allow_env :: bool
  cli_allow_run :: bool
  cli_allow_db :: bool
  cli_allow_dynamic :: bool
  cli_allow_wasm :: bool
  cli_deny_read :: bool
  cli_deny_write :: bool
  cli_deny_net :: bool
  cli_deny_env :: bool
  cli_deny_run :: bool
  cli_deny_db :: bool
  cli_deny_dynamic :: bool
  cli_deny_wasm :: bool
  cli_no_prompt :: bool
  cli_allow_read_list :: "string list"
  cli_allow_write_list :: "string list"
  cli_allow_net_list :: "string list"
  cli_allow_env_list :: "string list"
  cli_allow_run_list :: "string list"
  cli_allow_db_list :: "string list"
  cli_allow_wasm_list :: "string list"
  cli_deny_read_list :: "string list"
  cli_deny_write_list :: "string list"
  cli_deny_net_list :: "string list"
  cli_deny_env_list :: "string list"
  cli_deny_run_list :: "string list"
  cli_deny_db_list :: "string list"
  cli_deny_wasm_list :: "string list"

definition flag_set :: "(string \<rightharpoonup> bool) \<Rightarrow> string \<Rightarrow> bool" where
  "flag_set flags name = (case flags name of None \<Rightarrow> False | Some b \<Rightarrow> b)"

definition csv_list :: "(string \<rightharpoonup> string) \<Rightarrow> string \<Rightarrow> string list" where
  "csv_list params key =
     (case params key of
        None \<Rightarrow> []
      | Some raw \<Rightarrow> filter (\<lambda>item. item \<noteq> []) (List.map str_trim (split_on (CHR '','') raw)))"

definition from_flags_and_params :: "(string \<rightharpoonup> bool) \<Rightarrow> (string \<rightharpoonup> string) \<Rightarrow> cli_overrides" where
  "from_flags_and_params flags params =
     \<lparr>cli_allow_all = flag_set flags ''--allow-all'',
      cli_allow_read = flag_set flags ''--allow-read'',
      cli_allow_write = flag_set flags ''--allow-write'',
      cli_allow_net = flag_set flags ''--allow-net'',
      cli_allow_env = flag_set flags ''--allow-env'',
      cli_allow_run = flag_set flags ''--allow-run'',
      cli_allow_db = flag_set flags ''--allow-db'',
      cli_allow_dynamic = flag_set flags ''--allow-dynamic'',
      cli_allow_wasm = flag_set flags ''--allow-wasm'',
      cli_deny_read = flag_set flags ''--deny-read'',
      cli_deny_write = flag_set flags ''--deny-write'',
      cli_deny_net = flag_set flags ''--deny-net'',
      cli_deny_env = flag_set flags ''--deny-env'',
      cli_deny_run = flag_set flags ''--deny-run'',
      cli_deny_db = flag_set flags ''--deny-db'',
      cli_deny_dynamic = flag_set flags ''--deny-dynamic'',
      cli_deny_wasm = flag_set flags ''--deny-wasm'',
      cli_no_prompt = flag_set flags ''--no-prompt'',
      cli_allow_read_list = csv_list params ''--allow-read'',
      cli_allow_write_list = csv_list params ''--allow-write'',
      cli_allow_net_list = csv_list params ''--allow-net'',
      cli_allow_env_list = csv_list params ''--allow-env'',
      cli_allow_run_list = csv_list params ''--allow-run'',
      cli_allow_db_list = csv_list params ''--allow-db'',
      cli_allow_wasm_list = csv_list params ''--allow-wasm'',
      cli_deny_read_list = csv_list params ''--deny-read'',
      cli_deny_write_list = csv_list params ''--deny-write'',
      cli_deny_net_list = csv_list params ''--deny-net'',
      cli_deny_env_list = csv_list params ''--deny-env'',
      cli_deny_run_list = csv_list params ''--deny-run'',
      cli_deny_db_list = csv_list params ''--deny-db'',
      cli_deny_wasm_list = csv_list params ''--deny-wasm''\<rparr>"

definition from_flags :: "(string \<rightharpoonup> bool) \<Rightarrow> cli_overrides" where
  "from_flags flags = from_flags_and_params flags (\<lambda>_. None)"

definition apply_rule :: "rule_list \<Rightarrow> bool \<Rightarrow> string list \<Rightarrow> rule_list" where
  "apply_rule current bare items =
     (if items \<noteq> [] then RL_List items else if bare then RL_All else current)"

definition allow_everything :: "scope \<Rightarrow> scope" where
  "allow_everything s = s\<lparr>sc_read := RL_All, sc_write := RL_All, sc_net := RL_All, sc_env := RL_All,
     sc_run := RL_All, sc_db := RL_All, sc_wasm := RL_All, sc_dynamic := True\<rparr>"

definition merge_policy_with_cli :: "policy \<Rightarrow> cli_overrides \<Rightarrow> policy" where
  "merge_policy_with_cli base cli =
     (let a = (if cli_allow_all cli then allow_everything (pol_allow base) else pol_allow base);
          d = pol_deny base
      in \<lparr>pol_allow = \<lparr>
            sc_read = apply_rule (sc_read a) (cli_allow_read cli) (cli_allow_read_list cli),
            sc_write = apply_rule (sc_write a) (cli_allow_write cli) (cli_allow_write_list cli),
            sc_net = apply_rule (sc_net a) (cli_allow_net cli) (cli_allow_net_list cli),
            sc_env = apply_rule (sc_env a) (cli_allow_env cli) (cli_allow_env_list cli),
            sc_run = apply_rule (sc_run a) (cli_allow_run cli) (cli_allow_run_list cli),
            sc_db = apply_rule (sc_db a) (cli_allow_db cli) (cli_allow_db_list cli),
            sc_wasm = apply_rule (sc_wasm a) (cli_allow_wasm cli) (cli_allow_wasm_list cli),
            sc_dynamic = (if cli_allow_dynamic cli then True else sc_dynamic a)\<rparr>,
          pol_deny = \<lparr>
            sc_read = apply_rule (sc_read d) (cli_deny_read cli) (cli_deny_read_list cli),
            sc_write = apply_rule (sc_write d) (cli_deny_write cli) (cli_deny_write_list cli),
            sc_net = apply_rule (sc_net d) (cli_deny_net cli) (cli_deny_net_list cli),
            sc_env = apply_rule (sc_env d) (cli_deny_env cli) (cli_deny_env_list cli),
            sc_run = apply_rule (sc_run d) (cli_deny_run cli) (cli_deny_run_list cli),
            sc_db = apply_rule (sc_db d) (cli_deny_db cli) (cli_deny_db_list cli),
            sc_wasm = apply_rule (sc_wasm d) (cli_deny_wasm cli) (cli_deny_wasm_list cli),
            sc_dynamic = (if cli_deny_dynamic cli then True else sc_dynamic d)\<rparr>,
          pol_prompt = (if cli_no_prompt cli then False else pol_prompt base)\<rparr>)"

definition merge_policy_with_cli_manifest_net_env :: "policy \<Rightarrow> cli_overrides \<Rightarrow> policy" where
  "merge_policy_with_cli_manifest_net_env base cli =
     (let s = cli\<lparr>cli_allow_net := False, cli_allow_env := False, cli_deny_net := False, cli_deny_env := False\<rparr>;
          s' = (if cli_allow_all s
                then s\<lparr>cli_allow_all := False, cli_allow_read := True, cli_allow_write := True, cli_allow_run := True,
                       cli_allow_db := True, cli_allow_dynamic := True, cli_allow_wasm := True\<rparr>
                else s)
      in merge_policy_with_cli base s')"


section \<open>Misspelled capabilities\<close>

definition known_capability_keys :: "string list" where
  "known_capability_keys = [''read'', ''write'', ''net'', ''env'', ''run'', ''db'', ''wasm'', ''dynamic'']"

text \<open>
  One row of the table of edit distances: \<open>prev\<close> is the row above with its first entry
  split off, \<open>left\<close> the entry just written. The two loops of \<open>edit_distance_within\<close> with its
  two rows that are swapped.
\<close>

fun distance_row :: "'a \<Rightarrow> 'a list \<Rightarrow> nat \<Rightarrow> nat list \<Rightarrow> nat \<Rightarrow> nat list" where
  "distance_row ca (cb # b) diagonal (up # prev) left =
     (let e = min (min (diagonal + (if ca \<noteq> cb then 1 else 0)) (up + 1)) (left + 1)
      in e # distance_row ca b up prev e)"
| "distance_row ca _ diagonal _ left = []"

fun distance_rows :: "'a list \<Rightarrow> 'a list \<Rightarrow> nat \<Rightarrow> nat list \<Rightarrow> nat list" where
  "distance_rows [] b i prev = prev"
| "distance_rows (ca # a) b i prev =
     distance_rows a b (Suc i) (Suc i # distance_row ca b (hd prev) (tl prev) (Suc i))"

definition edit_distance_within :: "string \<Rightarrow> string \<Rightarrow> nat \<Rightarrow> bool" where
  "edit_distance_within s t bound =
     (let a = utf8_chars s; b = utf8_chars t
      in if max (length a) (length b) - min (length a) (length b) > bound then False
         else distance_rows a b 0 [0..<length b + 1] ! length b \<le> bound)"

definition concept_keys :: "string \<Rightarrow> string list" where
  "concept_keys lowered =
     (if lowered \<in> set [''fs'', ''file'', ''files'', ''filesystem'', ''path'', ''paths''] then [''read'', ''write'']
      else if lowered \<in> set [''network'', ''http'', ''fetch'', ''socket''] then [''net'']
      else if lowered \<in> set [''process'', ''proc'', ''exec'', ''spawn'', ''command''] then [''run'', ''env'']
      else if lowered \<in> set [''database'', ''sql'', ''postgres'', ''mysql'', ''sqlite''] then [''db'']
      else if lowered \<in> set [''eval'', ''unsafe''] then [''dynamic'']
      else [])"

definition nearest_capability_keys :: "string \<Rightarrow> string option" where
  "nearest_capability_keys key =
     (let lowered = ascii_lowercase key; by_concept = concept_keys lowered
      in if by_concept \<noteq> [] then Some (join '' or '' by_concept)
         else let close = filter (\<lambda>known. edit_distance_within lowered known 2) known_capability_keys
              in if close = [] then None else Some (join '' or '' close))"

section \<open>Reading a rule\<close>

definition broad_allow_hint :: \<open>string \<Rightarrow> string option\<close> where
  \<open>broad_allow_hint path =
     (if ends_with path ''.read'' then Some ''Prefer explicit folders like "./src" or "./ds_modules".''
      else if ends_with path ''.write'' then Some ''Prefer explicit folders like "./ds_modules/.cache".''
      else if ends_with path ''.net'' then Some ''Prefer explicit hosts like "localhost:5432".''
      else if ends_with path ''.env'' then Some ''Prefer explicit vars like "DATABASE_URL".''
      else if ends_with path ''.run'' then Some ''Prefer explicit binaries like "git" or "deka".''
      else if ends_with path ''.db'' then Some ''Prefer explicit drivers like "postgres" or "sqlite".''
      else if ends_with path ''.wasm'' then Some ''Prefer explicit modules like "module.wasm".''
      else None)\<close>

definition capability_from_path :: "string \<Rightarrow> string option" where
  "capability_from_path path =
     (if ends_with path ''.read'' then Some ''read''
      else if ends_with path ''.write'' then Some ''write''
      else if ends_with path ''.net'' then Some ''net''
      else if ends_with path ''.env'' then Some ''env''
      else if ends_with path ''.run'' then Some ''run''
      else if ends_with path ''.db'' then Some ''db''
      else if ends_with path ''.wasm'' then Some ''wasm''
      else None)"

definition is_broad_allow_item :: "string \<Rightarrow> string \<Rightarrow> bool" where
  "is_broad_allow_item capability item =
     (let normalized = str_trim item
      in normalized = ''*'' \<or>
         (capability = ''read'' \<or> capability = ''write'') \<and>
           normalized \<in> set [''/'', ''.'', ''./'', ''/*'', ''./*''])"

definition weak_allow_hint :: \<open>string \<Rightarrow> string option\<close> where
  \<open>weak_allow_hint capability = map_of
     [(''read'', ''Prefer explicit folders like "./src" or "./ds_modules".''),
      (''write'', ''Prefer explicit folders like "./ds_modules/.cache".''),
      (''net'', ''Prefer explicit hosts like "localhost:5432".''),
      (''env'', ''Prefer explicit vars like "DATABASE_URL".''),
      (''run'', ''Prefer explicit binaries like "git" or "deka".''),
      (''db'', ''Prefer explicit drivers like "postgres" or "sqlite".''),
      (''wasm'', ''Prefer explicit modules like "module.wasm".'')] capability\<close>

definition weak_allow_warning :: \<open>string \<Rightarrow> string \<Rightarrow> string option\<close> where
  \<open>weak_allow_warning path item =
     (case capability_from_path path of
        None \<Rightarrow> None
      | Some capability \<Rightarrow>
          if \<not> is_broad_allow_item capability item then None
          else map_option (\<lambda>hint. ''Rule item "'' @ item @ ''" is very broad. '' @ hint) (weak_allow_hint capability))\<close>

definition in_allow :: "string \<Rightarrow> bool" where
  "in_allow path = contains_str path ''.allow.''"

definition item_path :: "string \<Rightarrow> nat \<Rightarrow> string" where
  "item_path path i = path @ ''['' @ nat_text i @ '']''"

definition weak_warnings :: "string \<Rightarrow> string \<Rightarrow> string \<Rightarrow> diagnostic list" where
  "weak_warnings path at item =
     (if in_allow path
      then case weak_allow_warning path item of
             None \<Rightarrow> []
           | Some message \<Rightarrow> [diag Lv_Warning ''SECURITY_POLICY_WEAK_ALLOW'' at message]
      else [])"

text \<open>One entry of a list of rules: what is inserted, and the diagnostics it adds.\<close>

definition rule_item :: "string \<Rightarrow> nat \<Rightarrow> json \<Rightarrow> string list \<times> diagnostic list" where
  "rule_item path i item =
     (case item of
        J_String raw \<Rightarrow>
          (let trimmed = str_trim raw
           in if trimmed = []
              then ([], [diag Lv_Error ''SECURITY_POLICY_EMPTY_RULE_ITEM'' (item_path path i)
                           ''Rule list entries must not be empty''])
              else ([trimmed], weak_warnings path (item_path path i) trimmed))
      | _ \<Rightarrow> ([], [diag Lv_Error ''SECURITY_POLICY_RULE_ITEM_NOT_STRING'' (item_path path i)
                  ''Rule list entries must be strings'']))"

text \<open>The loop over the entries; the set of what was inserted is read in its order.\<close>

definition rule_items :: "string \<Rightarrow> json list \<Rightarrow> string list \<times> diagnostic list" where
  "rule_items path items =
     (let rs = List.map (\<lambda>(i, item). rule_item path i item) (enumerate 0 items)
      in (bt_keys (bt_collect (List.map (\<lambda>s. (s, ())) (concat (List.map fst rs)))), concat (List.map snd rs)))"

definition parse_rule_list :: "string \<Rightarrow> json option \<Rightarrow> rule_list \<times> diagnostic list" where
  "parse_rule_list path v =
     (case v of
        None \<Rightarrow> (RL_None, [])
      | Some (J_Bool flag) \<Rightarrow>
          (if flag then RL_All else RL_None,
           if flag \<and> in_allow path
           then [diag Lv_Warning ''SECURITY_POLICY_BROAD_ALLOW'' path
                   (case broad_allow_hint path of
                      Some hint \<Rightarrow> ''Broad allow enabled. '' @ hint
                    | None \<Rightarrow> ''Broad allow enabled.'')]
           else [])
      | Some (J_String single) \<Rightarrow>
          (let item = str_trim single
           in if item = []
              then (RL_None, [diag Lv_Error ''SECURITY_POLICY_EMPTY_RULE_ITEM'' path ''Empty rule item is not allowed''])
              else (RL_List [item], weak_warnings path path item))
      | Some (J_Array items) \<Rightarrow>
          (case rule_items path items of (rules, ds) \<Rightarrow>
             (if rules = [] then RL_None else RL_List rules, ds))
      | Some _ \<Rightarrow> (RL_None, [diag Lv_Error ''SECURITY_POLICY_INVALID_RULE_TYPE'' path
                              ''Expected boolean, string, or string array'']))"

section \<open>Reading a scope\<close>

definition unknown_scope_key :: "string \<Rightarrow> string \<Rightarrow> diagnostic list" where
  "unknown_scope_key path key =
     (if key \<in> set known_capability_keys then []
      else [diag Lv_Error ''SECURITY_POLICY_UNKNOWN_SCOPE_KEY'' (path @ ''.'' @ key)
              (''Unknown capability key '' @ [CHR 0x27] @ key @ [CHR 0x27] @ '' in security scope. Valid keys: '' @ join '', '' known_capability_keys @ ''.'' @
               (case nearest_capability_keys key of
                  None \<Rightarrow> []
                | Some suggestions \<Rightarrow> '' Did you mean '' @ suggestions @ ''?''))])"

text \<open>A switch that must be a boolean: what it is set to, if it is, and its diagnostics.\<close>

definition parse_switch :: "string \<Rightarrow> string \<Rightarrow> string \<Rightarrow> bool \<Rightarrow> json option \<Rightarrow> bool \<times> diagnostic list" where
  "parse_switch c path message current v =
     (case v of
        None \<Rightarrow> (current, [])
      | Some (J_Bool b) \<Rightarrow> (b, [])
      | Some _ \<Rightarrow> (current, [diag Lv_Error c path message]))"

definition parse_scope :: "string \<Rightarrow> json \<Rightarrow> scope \<times> diagnostic list" where
  "parse_scope path v =
     (case v of
        J_Object obj \<Rightarrow>
          (let rule = (\<lambda>k. parse_rule_list (path @ ''.'' @ k) (bt_get obj k));
               dyn = parse_switch ''SECURITY_POLICY_INVALID_DYNAMIC'' (path @ ''.dynamic'')
                       ''Expected boolean for `dynamic`'' False (bt_get obj ''dynamic'')
           in (\<lparr>sc_read = fst (rule ''read''), sc_write = fst (rule ''write''), sc_net = fst (rule ''net''),
                sc_env = fst (rule ''env''), sc_run = fst (rule ''run''), sc_db = fst (rule ''db''),
                sc_wasm = fst (rule ''wasm''), sc_dynamic = fst dyn\<rparr>,
               concat (List.map (unknown_scope_key path) (bt_keys obj)) @
               concat (List.map (\<lambda>k. snd (rule k)) [''read'', ''write'', ''net'', ''env'', ''run'', ''db'', ''wasm'']) @
               snd dyn))
      | _ \<Rightarrow> (default_scope, [diag Lv_Error ''SECURITY_POLICY_SCOPE_NOT_OBJECT'' path
                                ''Expected object for security scope'']))"

section \<open>Reading the manifest\<close>

text \<open>\<open>permissions.get("fs").and_then(|fs| fs.get("read"))\<close>.\<close>

definition nested_get :: "(string, json) btree \<Rightarrow> string \<Rightarrow> string \<Rightarrow> json option" where
  "nested_get obj a b = (case bt_get obj a of None \<Rightarrow> None | Some j \<Rightarrow> json_get j b)"

text \<open>A legacy rule is read only where the policy has none.\<close>

definition legacy_rule :: "rule_list \<Rightarrow> string \<Rightarrow> json option \<Rightarrow> rule_list \<times> diagnostic list" where
  "legacy_rule current path v = (if current = RL_None then parse_rule_list path v else (current, []))"

definition apply_legacy_permissions :: "(string, json) btree \<Rightarrow> policy \<Rightarrow> policy \<times> diagnostic list" where
  "apply_legacy_permissions obj p =
     (case bt_get obj ''permissions'' of
        Some (J_Object perms) \<Rightarrow>
          (let ar = legacy_rule (sc_read (pol_allow p)) ''$.permissions.fs.read'' (nested_get perms ''fs'' ''read'');
               aw = legacy_rule (sc_write (pol_allow p)) ''$.permissions.fs.write'' (nested_get perms ''fs'' ''write'');
               an = legacy_rule (sc_net (pol_allow p)) ''$.permissions.net.allow'' (nested_get perms ''net'' ''allow'');
               dn = legacy_rule (sc_net (pol_deny p)) ''$.permissions.net.deny'' (nested_get perms ''net'' ''deny'');
               ae = legacy_rule (sc_env (pol_allow p)) ''$.permissions.env.allow'' (nested_get perms ''env'' ''allow'');
               de = legacy_rule (sc_env (pol_deny p)) ''$.permissions.env.deny'' (nested_get perms ''env'' ''deny'')
           in (p\<lparr>pol_allow := (pol_allow p)\<lparr>sc_read := fst ar, sc_write := fst aw, sc_net := fst an, sc_env := fst ae\<rparr>,
                 pol_deny := (pol_deny p)\<lparr>sc_net := fst dn, sc_env := fst de\<rparr>\<rparr>,
               snd ar @ snd aw @ snd an @ snd dn @ snd ae @ snd de))
      | _ \<Rightarrow> (p, []))"

definition unknown_security_key :: "string \<Rightarrow> diagnostic list" where
  "unknown_security_key key =
     (if key \<in> set [''allow'', ''deny'', ''prompt''] then []
      else [diag Lv_Warning ''SECURITY_POLICY_UNKNOWN_KEY'' (''$.security.'' @ key) ''Unknown key in `security`''])"

definition optional_scope :: "string \<Rightarrow> scope \<Rightarrow> json option \<Rightarrow> scope \<times> diagnostic list" where
  "optional_scope path current v = (case v of None \<Rightarrow> (current, []) | Some j \<Rightarrow> parse_scope path j)"

definition parse_deka_security_policy :: "json \<Rightarrow> policy \<times> diagnostic list" where
  "parse_deka_security_policy root =
     (case root of
        J_Object obj \<Rightarrow>
          (case bt_get obj ''security'' of
             None \<Rightarrow> apply_legacy_permissions obj default_policy
           | Some (J_Object sec) \<Rightarrow>
               (let unknown = concat (List.map unknown_security_key (bt_keys sec));
                    a = optional_scope ''$.security.allow'' (pol_allow default_policy) (bt_get sec ''allow'');
                    d = optional_scope ''$.security.deny'' (pol_deny default_policy) (bt_get sec ''deny'');
                    pr = parse_switch ''SECURITY_POLICY_INVALID_PROMPT'' ''$.security.prompt''
                           ''Expected boolean for `prompt`'' (pol_prompt default_policy) (bt_get sec ''prompt'');
                    l = apply_legacy_permissions obj
                          \<lparr>pol_allow = fst a, pol_deny = fst d, pol_prompt = fst pr\<rparr>
                in (fst l, unknown @ snd a @ snd d @ snd pr @ snd l))
           | Some _ \<Rightarrow> (default_policy, [diag Lv_Error ''SECURITY_POLICY_INVALID_TYPE'' ''$.security''
                                          ''Expected object for `security`'']))
      | _ \<Rightarrow> (default_policy, [diag Lv_Error ''SECURITY_POLICY_ROOT_NOT_OBJECT'' ''$''
                                 ''Expected JSON object at document root'']))"

section \<open>Writing a policy\<close>

definition rule_list_to_json :: "rule_list \<Rightarrow> json" where
  "rule_list_to_json r =
     (case r of RL_None \<Rightarrow> J_Bool False | RL_All \<Rightarrow> J_Bool True | RL_List items \<Rightarrow> J_Array (List.map J_String items))"

definition scope_to_json :: "scope \<Rightarrow> json" where
  "scope_to_json s = J_Object (bt_collect
     [(''read'', rule_list_to_json (sc_read s)), (''write'', rule_list_to_json (sc_write s)),
      (''net'', rule_list_to_json (sc_net s)), (''env'', rule_list_to_json (sc_env s)),
      (''run'', rule_list_to_json (sc_run s)), (''db'', rule_list_to_json (sc_db s)),
      (''wasm'', rule_list_to_json (sc_wasm s)), (''dynamic'', J_Bool (sc_dynamic s))])"

definition policy_to_json :: "policy \<Rightarrow> json" where
  "policy_to_json p = J_Object (bt_collect [(''security'', J_Object (bt_collect
     [(''allow'', scope_to_json (pol_allow p)), (''deny'', scope_to_json (pol_deny p)),
      (''prompt'', J_Bool (pol_prompt p))]))])"

end
