(* ===== verification/SecEnforce.thy ===== *)
theory SecEnforce
  imports SecPolicy
begin

text \<open>
  Enforcement of the security policy (\<open>crates/deka_host/src/modules/security.rs\<close>, with the
  parts of \<open>security_hint.rs\<close> it decides by, and \<open>crates/security/src/security_context.rs\<close>):
  the policy of an execution, the matching of a target against the rules, the resolution of
  paths, the gate with its interactive prompt, and the rule a granted prompt adds to the
  manifest; the grants of bridge kinds and the wire form of a denial
  (\<open>crates/permissions/src/host_grants.rs\<close>).

  What the operating system answers is the record \<open>os\<close>: the working directory, the canonical
  form of a path that exists, whether a terminal is attached, and the line the user types.
  What is printed on the terminal is not modelled. The text of a JSON document is read and
  printed by \<open>serde_json\<close>, parameters.
\<close>

section \<open>Paths\<close>

text \<open>
  \<open>std::path\<close> on Unix: the components of a text, with repeated separators and inner \<open>.\<close>
  parts skipped.
\<close>

datatype comp = C_Root | C_Cur | C_Par | C_Name string

definition body_comps :: "string \<Rightarrow> comp list" where
  "body_comps s = List.map (\<lambda>p. if p = ''..'' then C_Par else C_Name p)
     (filter (\<lambda>p. p \<noteq> [] \<and> p \<noteq> ''.'') (split_on (CHR ''/'') s))"

definition comps :: "string \<Rightarrow> comp list" where
  "comps s =
     (if starts_with s ''/'' then C_Root # body_comps s
      else if s = ''.'' \<or> starts_with s ''./'' then C_Cur # body_comps s
      else body_comps s)"

definition is_absolute :: "string \<Rightarrow> bool" where
  "is_absolute s \<longleftrightarrow> starts_with s ''/''"

text \<open>\<open>base.join(s)\<close>.\<close>

definition path_join :: "string \<Rightarrow> string \<Rightarrow> string" where
  "path_join base s =
     (if is_absolute s then s
      else if base = [] \<or> ends_with base ''/'' then base @ s
      else base @ ''/'' @ s)"

definition comp_text :: "comp \<Rightarrow> string" where
  "comp_text c = (case c of C_Root \<Rightarrow> ''/'' | C_Cur \<Rightarrow> ''.'' | C_Par \<Rightarrow> ''..'' | C_Name n \<Rightarrow> n)"

definition path_text :: "comp list \<Rightarrow> string" where
  "path_text cs =
     (case cs of
        C_Root # rest \<Rightarrow> ''/'' @ join ''/'' (List.map comp_text rest)
      | _ \<Rightarrow> join ''/'' (List.map comp_text cs))"

definition path_prefix :: "comp list \<Rightarrow> comp list \<Rightarrow> bool" where
  "path_prefix p base \<longleftrightarrow> take (length base) p = base"

text \<open>\<open>parent()\<close> and \<open>file_name()\<close>.\<close>

definition path_parent :: "comp list \<Rightarrow> comp list option" where
  "path_parent cs = (if cs = [] \<or> last cs = C_Root then None else Some (butlast cs))"

definition file_name :: "comp list \<Rightarrow> string option" where
  "file_name cs = (if cs = [] then None else case last cs of C_Name n \<Rightarrow> Some n | _ \<Rightarrow> None)"

record os =
  os_cwd :: "string option"
  os_canonical :: "string \<Rightarrow> comp list option"
  os_module_root :: "string option"
  os_handler_path :: "string option"
  os_terminals :: bool
  os_line :: "string + string"

section \<open>Resolving a path for comparison\<close>

text \<open>
  The loop towards the nearest ancestor that exists: \<open>cursor\<close> is what is left of the path,
  \<open>trailing\<close> the names walked past, the outermost first.
\<close>

function resolve_up :: "os \<Rightarrow> comp list \<Rightarrow> comp list \<Rightarrow> string list \<Rightarrow> comp list" where
  "resolve_up w resolved cursor trailing =
     (case path_parent cursor of
        None \<Rightarrow> resolved
      | Some par \<Rightarrow>
          (case file_name cursor of
             None \<Rightarrow> resolved
           | Some name \<Rightarrow>
               (case os_canonical w (path_text par) of
                  Some canonical \<Rightarrow> canonical @ List.map C_Name (name # trailing)
                | None \<Rightarrow> resolve_up w resolved par (name # trailing))))"
  by pat_completeness auto
termination
  by (relation "measure (\<lambda>(w, r, c, t). length c)") (auto simp: path_parent_def split: if_splits)

definition resolved_text :: "os \<Rightarrow> string \<Rightarrow> string" where
  "resolved_text w s =
     (if is_absolute s then s
      else path_join (case os_cwd w of Some d \<Rightarrow> d | None \<Rightarrow> ''.'') s)"

definition normalize_path :: "os \<Rightarrow> string \<Rightarrow> comp list" where
  "normalize_path w s =
     (let r = resolved_text w s
      in case os_canonical w r of
           Some canonical \<Rightarrow> canonical
         | None \<Rightarrow> resolve_up w (comps r) (comps r) [])"

definition path_matches :: "os \<Rightarrow> string \<Rightarrow> string \<Rightarrow> bool" where
  "path_matches w item target = path_prefix (normalize_path w target) (normalize_path w item)"

section \<open>Matching a rule\<close>

definition match_rule_item :: "os \<Rightarrow> string \<Rightarrow> string \<Rightarrow> string \<Rightarrow> bool" where
  "match_rule_item w capability item target =
     (if item = ''*'' then True
      else if capability \<in> set [''read'', ''write'', ''wasm''] then path_matches w item target
      else if capability = ''net'' \<and> starts_with item ''*.''
        then let suffix = drop 1 item; t = ascii_lowercase target
             in ends_with t suffix \<and> length t > length suffix
      else item = target)"

definition rule_allows :: "os \<Rightarrow> string \<Rightarrow> rule_list \<Rightarrow> string option \<Rightarrow> bool" where
  "rule_allows w capability r target =
     (case r of
        RL_None \<Rightarrow> False
      | RL_All \<Rightarrow> True
      | RL_List items \<Rightarrow>
          (case target of
             Some t \<Rightarrow> list_ex (\<lambda>item. match_rule_item w capability item t) items
           | None \<Rightarrow> False))"

definition rule_denies :: "os \<Rightarrow> string \<Rightarrow> rule_list \<Rightarrow> string option \<Rightarrow> bool" where
  "rule_denies w capability r target =
     (case r of
        RL_None \<Rightarrow> False
      | RL_All \<Rightarrow> True
      | RL_List items \<Rightarrow>
          (case target of
             Some t \<Rightarrow> list_ex (\<lambda>item. match_rule_item w capability item t) items
           | None \<Rightarrow> False))"

section \<open>The policy of an execution\<close>

record security_context =
  ctx_policy_json :: "string option"
  ctx_no_prompt :: bool

text \<open>
  The context of a thread. Installing one hands out a guard that holds the previous one and
  restores it when it is dropped.
\<close>

definition set_security_context :: "security_context \<Rightarrow> security_context option \<Rightarrow> security_context option \<times> security_context option" where
  "set_security_context context current = (current, Some context)"

definition drop_guard :: "security_context option \<Rightarrow> security_context option \<Rightarrow> security_context option" where
  "drop_guard previous current = previous"

definition context_policy_json :: "security_context option \<Rightarrow> string option" where
  "context_policy_json current = (case current of None \<Rightarrow> None | Some c \<Rightarrow> ctx_policy_json c)"

definition context_no_prompt :: "security_context option \<Rightarrow> bool" where
  "context_no_prompt current = (case current of None \<Rightarrow> False | Some c \<Rightarrow> ctx_no_prompt c)"

definition security_policy_from_json_str :: "(string \<Rightarrow> string + json) \<Rightarrow> string \<Rightarrow> policy res" where
  "security_policy_from_json_str read raw =
     (case read raw of
        Inl e \<Rightarrow> Err (''invalid security policy in the per-execution security context: '' @ e)
      | Inr j \<Rightarrow>
          (case parse_deka_security_policy j of (p, ds) \<Rightarrow>
             if has_errors ds
             then Err (''invalid security policy in the per-execution security context: '' @
                    join ''; '' (List.map (\<lambda>d. dg_code d @ '' at '' @ dg_path d @ '': '' @ dg_message d)
                      (filter (\<lambda>d. dg_level d = Lv_Error) ds)))
             else Ok p))"

definition security_policy_from_context :: "(string \<Rightarrow> string + json) \<Rightarrow> security_context option \<Rightarrow> policy res" where
  "security_policy_from_context read current =
     (case context_policy_json current of
        None \<Rightarrow> Err (''security policy missing: no per-execution security context is installed; '' @
                  ''the dispatch path failed to supply the resolved deka.json policy'')
      | Some raw \<Rightarrow> security_policy_from_json_str read raw)"

section \<open>The wire form of a denial\<close>

definition permission_denied_marker :: string where
  "permission_denied_marker = ''__DEKA_PERMISSION_DENIED__''"

record permission_denied =
  pd_capability :: string
  pd_target :: string

definition pd_encode :: "(json \<Rightarrow> string) \<Rightarrow> permission_denied \<Rightarrow> string" where
  "pd_encode print d = permission_denied_marker @
     print (J_Object [(''capability'', J_String (pd_capability d)), (''target'', J_String (pd_target d))])"

text \<open>The derived reader of a struct: an object with both fields, or the two in an array.\<close>

definition pd_of_json :: "json \<Rightarrow> permission_denied option" where
  "pd_of_json j =
     (case j of
        J_Object m \<Rightarrow>
          (case (bt_get m ''capability'', bt_get m ''target'') of
             (Some (J_String c), Some (J_String t)) \<Rightarrow> Some \<lparr>pd_capability = c, pd_target = t\<rparr>
           | _ \<Rightarrow> None)
      | J_Array [J_String c, J_String t] \<Rightarrow> Some \<lparr>pd_capability = c, pd_target = t\<rparr>
      | _ \<Rightarrow> None)"

definition pd_decode :: "(string \<Rightarrow> string + json) \<Rightarrow> string \<Rightarrow> permission_denied option" where
  "pd_decode read message =
     (case strip_prefix permission_denied_marker message of
        None \<Rightarrow> None
      | Some text \<Rightarrow> (case read text of Inl _ \<Rightarrow> None | Inr j \<Rightarrow> pd_of_json j))"

definition permission_denied_err :: "(json \<Rightarrow> string) \<Rightarrow> string \<Rightarrow> string option \<Rightarrow> string" where
  "permission_denied_err print capability target =
     pd_encode print \<lparr>pd_capability = capability, pd_target = (case target of Some t \<Rightarrow> t | None \<Rightarrow> ''*'')\<rparr>"


section \<open>The project, and what a request is about\<close>

text \<open>The handler paths of the process: none, or both fields of the installed ones.\<close>

definition project_root :: "os \<Rightarrow> string option" where
  "project_root w =
     (case os_module_root w of
        Some root \<Rightarrow> if str_trim root \<noteq> [] then Some root
          else (case os_handler_path w of
                  Some h \<Rightarrow> (case path_parent (comps h) of Some p \<Rightarrow> Some (path_text p) | None \<Rightarrow> os_cwd w)
                | None \<Rightarrow> os_cwd w)
      | None \<Rightarrow>
          (case os_handler_path w of
             Some h \<Rightarrow> (case path_parent (comps h) of Some p \<Rightarrow> Some (path_text p) | None \<Rightarrow> os_cwd w)
           | None \<Rightarrow> os_cwd w))"

definition slashes :: "string \<Rightarrow> string" where
  "slashes s = List.map (\<lambda>c. if c = CHR 0x5C then CHR ''/'' else c) s"

function strip_dots :: "string \<Rightarrow> string" where
  "strip_dots s = (if starts_with s ''./'' then strip_dots (drop 2 s) else s)"
  by pat_completeness auto
termination
  by (relation "measure length") (auto simp: starts_with_iff)

declare strip_dots.simps [simp del]

definition normalize_rel_like :: "string \<Rightarrow> string" where
  "normalize_rel_like s = strip_dots (str_trim (slashes s))"

text \<open>
  \<open>strip_prefix\<close>: the text that is left when the components of a base are taken away, with
  the separators and \<open>.\<close> parts around it cut off. \<open>skip_front\<close> and \<open>skip_back\<close> are the
  trimming of \<open>Components::as_path\<close>.
\<close>

function skip_front :: "string \<Rightarrow> string" where
  "skip_front s =
     (if starts_with s ''/'' then skip_front (drop 1 s)
      else if s = ''.'' then []
      else if starts_with s ''./'' then skip_front (drop 2 s)
      else s)"
  by pat_completeness auto
termination
  by (relation "measure length") (auto simp: starts_with_iff)

declare skip_front.simps [simp del]

function skip_back :: "string \<Rightarrow> string" where
  "skip_back s =
     (if ends_with s ''/'' then skip_back (take (length s - 1) s)
      else if s = ''.'' then []
      else if ends_with s ''/.'' then skip_back (take (length s - 2) s)
      else s)"
  by pat_completeness auto
termination
  by (relation "measure length") (auto simp: ends_with_iff)

declare skip_back.simps [simp del]

fun drop_parts :: "nat \<Rightarrow> string \<Rightarrow> string" where
  "drop_parts 0 s = s"
| "drop_parts (Suc n) s = drop_parts n (dropWhile (\<lambda>c. c \<noteq> CHR ''/'') (skip_front s))"

text \<open>The front of a path, a root or a leading \<open>.\<close>, is one component of its own.\<close>

definition path_strip_prefix :: "string \<Rightarrow> string \<Rightarrow> string option" where
  "path_strip_prefix s base =
     (if \<not> path_prefix (comps s) (comps base) then None
      else if comps base = [] then Some s
      else case comps s of
             C_Root # _ \<Rightarrow> Some (skip_back (skip_front (drop_parts (length (comps base) - 1) (drop 1 s))))
           | C_Cur # _ \<Rightarrow> Some (skip_back (skip_front (drop_parts (length (comps base) - 1) (drop 1 s))))
           | _ \<Rightarrow> Some (skip_back (skip_front (drop_parts (length (comps base)) s))))"

definition target_resolves_outside_project :: "os \<Rightarrow> string \<Rightarrow> string \<Rightarrow> bool" where
  "target_resolves_outside_project w root target \<longleftrightarrow>
     \<not> path_prefix (normalize_path w target) (normalize_path w root)"

text \<open>The rule that would grant a path: a directory of the project, or the path itself.\<close>

definition rule_item_for_rel :: "bool \<Rightarrow> string \<Rightarrow> string \<Rightarrow> string \<Rightarrow> string" where
  "rule_item_for_rel is_read target rel r =
     (if starts_with r ''php_modules/.cache'' then ''./php_modules/.cache''
      else if starts_with r ''php_modules/'' then ''./php_modules''
      else if starts_with r ''src/'' then ''./src''
      else if starts_with r ''deps/'' then ''./deps''
      else if starts_with r ''node_modules/'' then ''./node_modules''
      else if \<not> is_read \<and> starts_with r ''dist/'' then ''./dist''
      else if \<not> is_read \<and> starts_with r ''build/'' then ''./build''
      else if r = ''deka.lock'' then ''./deka.lock''
      else case comps rel of
             c # _ \<Rightarrow> ''./'' @ comp_text c
           | [] \<Rightarrow> target)"

definition rule_items_for_path :: "os \<Rightarrow> string \<Rightarrow> bool \<Rightarrow> string list" where
  "rule_items_for_path w target is_read =
     (case project_root w of
        Some root \<Rightarrow>
          if target_resolves_outside_project w root target then [target]
          else let rel = (case path_strip_prefix target root of Some x \<Rightarrow> x | None \<Rightarrow> target)
               in [rule_item_for_rel is_read target rel (normalize_rel_like (slashes rel))]
      | None \<Rightarrow> [rule_item_for_rel is_read target target (normalize_rel_like (slashes target))])"

definition rule_items_for_request :: "os \<Rightarrow> string \<Rightarrow> string \<Rightarrow> string list" where
  "rule_items_for_request w capability target =
     (if capability = ''read'' then rule_items_for_path w target True
      else if capability = ''write'' then rule_items_for_path w target False
      else if capability \<in> set [''net'', ''env'', ''run'', ''db'', ''wasm''] then [str_trim target]
      else [])"

definition ascii_uppercase :: "string \<Rightarrow> string" where
  "ascii_uppercase s = List.map (\<lambda>c. if ascii_lower c then char_of (byte c - 32) else c) s"

definition is_runtime_safe_env_key :: "string \<Rightarrow> bool" where
  "is_runtime_safe_env_key key =
     (let n = ascii_uppercase (str_trim key)
      in n \<in> set [''PORT'', ''PWD'', ''TMPDIR'', ''TEMP'', ''TMP'', ''HOME'', ''PATH''] \<or> starts_with n ''DEKA_'')"

definition prompt_scope_key :: "os \<Rightarrow> string \<Rightarrow> string option \<Rightarrow> string" where
  "prompt_scope_key w capability target =
     (case target of
        None \<Rightarrow> capability @ ''::*''
      | Some t0 \<Rightarrow>
          let t = str_trim t0
          in if t = [] then capability @ ''::*''
             else if capability = ''read'' \<or> capability = ''write''
               then (case rule_items_for_request w capability t of
                       item # _ \<Rightarrow> capability @ ''::'' @ item
                     | [] \<Rightarrow> capability @ ''::'' @ t)
             else if capability = ''env'' \<and> is_runtime_safe_env_key t then ''env::runtime-safe''
             else capability @ ''::'' @ t)"

section \<open>Who owns a target\<close>

definition trim_end_slashes :: "string \<Rightarrow> string" where
  "trim_end_slashes s = rev (dropWhile (\<lambda>c. c = CHR ''/'') (rev s))"

definition is_internal_security_target :: "string \<Rightarrow> bool" where
  "is_internal_security_target target =
     (let n = trim_end_slashes (slashes target)
      in n = ''deka.lock'' \<or> ends_with n ''/deka.lock'' \<or>
         n = ''php_modules/.cache'' \<or> starts_with n ''php_modules/.cache/'' \<or>
         contains_str n ''/php_modules/.cache/'' \<or> ends_with n ''/php_modules/.cache'' \<or>
         n = ''.cache'' \<or> starts_with n ''.cache/'' \<or> contains_str n ''/.cache/'' \<or> ends_with n ''/.cache'')"

datatype origin = Or_Unknown | Or_Internal | Or_ThirdParty | Or_Project

definition origin_of_rel :: "string \<Rightarrow> origin option" where
  "origin_of_rel r =
     (if starts_with r ''deps/'' \<or> starts_with r ''vendor/'' \<or> starts_with r ''node_modules/'' then Some Or_ThirdParty
      else if starts_with r ''app/'' \<or> starts_with r ''src/'' \<or> starts_with r ''public/'' \<or>
              starts_with r ''php_modules/'' \<or> r = ''deka.json'' \<or> r = ''deka.lock'' then Some Or_Project
      else None)"

definition classify_security_origin :: "os \<Rightarrow> string \<Rightarrow> string option \<Rightarrow> origin" where
  "classify_security_origin w capability raw =
     (case raw of
        None \<Rightarrow> Or_Unknown
      | Some t0 \<Rightarrow>
          let t = str_trim t0
          in if t = [] then Or_Unknown
             else if (capability = ''read'' \<or> capability = ''write'') \<and> is_internal_security_target t then Or_Internal
             else let rel = (case project_root w of
                               None \<Rightarrow> None
                             | Some root \<Rightarrow> if is_absolute t then path_strip_prefix t root else Some t);
                      own = (case rel of
                               None \<Rightarrow> None
                             | Some r \<Rightarrow> origin_of_rel (normalize_rel_like (slashes r)))
                  in case own of
                       Some o' \<Rightarrow> o'
                     | None \<Rightarrow> if is_absolute t then Or_ThirdParty else Or_Unknown)"

section \<open>The gate\<close>

text \<open>
  The state of the prompt: the scopes granted so far in this process, and the requests for
  which the manifest is updated, in order. The mutex around the scopes is poisoned only by a panic of
  its holder, which looks up or inserts one scope; the error of a poisoned lock is not modelled.
\<close>

record prompts =
  pr_grants :: "string list"
  pr_updates :: "(string \<times> string option) list"

definition prompt_enabled :: "os \<Rightarrow> security_context option \<Rightarrow> bool" where
  "prompt_enabled w current = (if context_no_prompt current then False else os_terminals w)"

definition prompt_grant :: "os \<Rightarrow> string \<Rightarrow> string option \<Rightarrow> (prompts, bool) rm" where
  "prompt_grant w capability target = (\<lambda>st.
     let key = prompt_scope_key w capability target
     in if key \<in> set (pr_grants st) then (Ok True, st)
        else case os_line w of
               Inl e \<Rightarrow> (Err (''security prompt failed: '' @ e), st)
             | Inr line \<Rightarrow>
                 let accepted = ascii_lowercase (str_trim line) \<in> set [''y'', ''yes'']
                 in (Ok accepted,
                     if accepted
                     then st\<lparr>pr_grants := pr_grants st @ [key], pr_updates := pr_updates st @ [(capability, target)]\<rparr>
                     else st))"

definition enforce_scope ::
    "(json \<Rightarrow> string) \<Rightarrow> os \<Rightarrow> security_context option \<Rightarrow> string \<Rightarrow> rule_list \<Rightarrow> rule_list \<Rightarrow> string option \<Rightarrow>
     (prompts, unit) rm" where
  "enforce_scope print w current capability allow deny target =
     (if rule_denies w capability deny target then fail (permission_denied_err print capability target)
      else if \<not> rule_allows w capability allow target
      then bind (if prompt_enabled w current then prompt_grant w capability target else ret False) (\<lambda>granted.
             if granted then ret () else fail (permission_denied_err print capability target))
      else ret ())"

text \<open>The gate of each capability.\<close>

definition enforce ::
    "(json \<Rightarrow> string) \<Rightarrow> (string \<Rightarrow> string + json) \<Rightarrow> os \<Rightarrow> security_context option \<Rightarrow> string \<Rightarrow> (scope \<Rightarrow> rule_list) \<Rightarrow>
     string option \<Rightarrow> (prompts, unit) rm" where
  "enforce print read w current capability sel target =
     bind (lift_res (security_policy_from_context read current)) (\<lambda>p.
       enforce_scope print w current capability (sel (pol_allow p)) (sel (pol_deny p)) target)"

definition enforce_read where "enforce_read print read w current = enforce print read w current ''read'' sc_read"
definition enforce_write where "enforce_write print read w current = enforce print read w current ''write'' sc_write"
definition enforce_net where "enforce_net print read w current = enforce print read w current ''net'' sc_net"
definition enforce_env where "enforce_env print read w current = enforce print read w current ''env'' sc_env"
definition enforce_db where "enforce_db print read w current = enforce print read w current ''db'' sc_db"
definition enforce_wasm where "enforce_wasm print read w current = enforce print read w current ''wasm'' sc_wasm"

definition env_capability_granted :: "(string \<Rightarrow> string + json) \<Rightarrow> security_context option \<Rightarrow> bool" where
  "env_capability_granted read current =
     (case security_policy_from_context read current of
        Ok p \<Rightarrow> sc_env (pol_deny p) \<noteq> RL_All \<and> sc_env (pol_allow p) \<noteq> RL_None
      | _ \<Rightarrow> False)"

section \<open>What a granted prompt writes into the manifest\<close>

definition default_allow_target :: "string \<Rightarrow> string option" where
  "default_allow_target capability =
     (if capability \<in> set [''env'', ''net'', ''run'', ''db'', ''wasm''] then Some ''*'' else None)"

definition entry_object :: "(string, json) btree \<Rightarrow> string \<Rightarrow> string \<Rightarrow> (string, json) btree res" where
  "entry_object obj key e =
     (case bt_get obj key of
        None \<Rightarrow> Ok []
      | Some (J_Object m) \<Rightarrow> Ok m
      | Some _ \<Rightarrow> Err e)"

text \<open>The items a rule of the manifest lists already.\<close>

definition listed_items :: "string \<Rightarrow> json \<Rightarrow> string list res" where
  "listed_items capability entry =
     (case entry of
        J_Bool _ \<Rightarrow> Ok []
      | J_String s \<Rightarrow> Ok [s]
      | J_Array xs \<Rightarrow> Ok (List.map_filter (\<lambda>x. case x of
            J_String s \<Rightarrow> if str_trim s \<noteq> [] then Some s else None
          | _ \<Rightarrow> None) xs)
      | _ \<Rightarrow> Err (''security.allow.'' @ capability @ '' must be boolean, string, or array''))"

fun add_items :: "string list \<Rightarrow> string list \<Rightarrow> string list" where
  "add_items xs [] = xs"
| "add_items xs (i # is) = add_items (if i \<in> set xs then xs else xs @ [i]) is"

definition allow_in_manifest :: "json \<Rightarrow> string \<Rightarrow> string list \<Rightarrow> json res" where
  "allow_in_manifest doc capability items =
     (case doc of
        J_Object root \<Rightarrow>
          res_bind (entry_object root ''security'' ''security must be an object'') (\<lambda>sec.
          res_bind (entry_object sec ''allow'' ''security.allow must be an object'') (\<lambda>allow.
          res_then (reject_if (items = []) ''no allow items to apply'') (
            let entry = (case bt_get allow capability of None \<Rightarrow> J_Bool False | Some j \<Rightarrow> j)
            in if entry = J_Bool True then Ok doc
               else res_bind (listed_items capability entry) (\<lambda>old.
                 let allow' = bt_insert capability (J_Array (List.map J_String (add_items old items))) allow;
                     sec' = bt_insert ''allow'' (J_Object allow') sec
                 in Ok (J_Object (bt_insert ''security'' (J_Object sec') root))))))
      | _ \<Rightarrow> Err ''deka.json root must be an object'')"

definition update_deka_json_allow :: "os \<Rightarrow> json \<Rightarrow> string \<Rightarrow> string option \<Rightarrow> json res" where
  "update_deka_json_allow w doc capability target =
     (let given = (case target of None \<Rightarrow> None | Some t \<Rightarrow> if str_trim t = [] then None else Some (str_trim t))
      in case (case given of Some t \<Rightarrow> Some t | None \<Rightarrow> default_allow_target capability) of
           None \<Rightarrow> Err ''missing target''
         | Some t \<Rightarrow> if project_root w = None then Err ''failed to determine project root''
             else allow_in_manifest doc capability (rule_items_for_request w capability t))"

section \<open>Grants of bridge kinds\<close>

record host_grant =
  hg_name :: string
  hg_version :: string
  hg_digest :: string
  hg_kinds :: "string list"

definition grant_lookup :: "host_grant list \<Rightarrow> string \<Rightarrow> host_grant option" where
  "grant_lookup table digest = find (\<lambda>g. hg_digest g = digest) table"

datatype grant_error = AppDeclaresHostKinds string string \<comment> \<open>package, path\<close>

definition is_official_package_name :: "string \<Rightarrow> bool" where
  "is_official_package_name name = starts_with name ''@deka/''"

definition resolve_project_root_grants :: "string \<Rightarrow> string \<Rightarrow> string list option \<Rightarrow> grant_error + string list" where
  "resolve_project_root_grants name path host_kinds =
     (case host_kinds of
        None \<Rightarrow> Inr []
      | Some kinds \<Rightarrow> if is_official_package_name name then Inr kinds else Inl (AppDeclaresHostKinds name path))"

definition resolve_dependency_grants :: "host_grant list \<Rightarrow> string option \<Rightarrow> string list" where
  "resolve_dependency_grants table digest =
     (case digest of
        None \<Rightarrow> []
      | Some d \<Rightarrow> (case grant_lookup table d of None \<Rightarrow> [] | Some g \<Rightarrow> hg_kinds g))"

definition granted_kind_names ::
    "grant_error + string list \<Rightarrow> host_grant list \<Rightarrow> string option list \<Rightarrow> grant_error + string list" where
  "granted_kind_names root table digests =
     (case root of
        Inl e \<Rightarrow> Inl e
      | Inr kinds \<Rightarrow> Inr (foldl (\<lambda>names d. add_items names (resolve_dependency_grants table d)) (add_items [] kinds) digests))"

end
