(* ===== verification/PhasePerms.thy ===== *)
theory PhasePerms
  imports SecEnforce
begin

text \<open>
  Phase-aware permissions (\<open>crates/permissions/src/permissions.rs\<close>): the profiles \<open>dev\<close> and
  \<open>prod\<close> of the manifest, their validation with its diagnostics, and the policy each phase of
  execution runs under; and how a command arrives at the policy it hands to an execution
  (\<open>crates/runtime/src/security.rs\<close>). The document read from \<open>deka.json\<close>, an empty object
  where there is none, is an argument; the texts printed on the terminal are left out. The
  name of the directory of installed modules is a constant of another package, a parameter.
\<close>

section \<open>The data\<close>

datatype execution_phase = DevRequest | DevBuild | ProdRequest

datatype fs_grant = Fs_Denied | Fs_WorkingDir | Fs_Paths "string list"

record capabilities =
  cap_read :: fs_grant
  cap_write :: fs_grant
  cap_net :: "string list"
  cap_env :: "string list"
  cap_db :: "string list"
  cap_wasm :: bool
  cap_import :: bool

definition no_capabilities :: capabilities where
  "no_capabilities = \<lparr>cap_read = Fs_Denied, cap_write = Fs_Denied, cap_net = [], cap_env = [], cap_db = [],
     cap_wasm = False, cap_import = False\<rparr>"

definition is_fully_denied :: "capabilities \<Rightarrow> bool" where
  "is_fully_denied c \<longleftrightarrow> cap_read c = Fs_Denied \<and> cap_write c = Fs_Denied \<and> cap_net c = [] \<and> cap_env c = [] \<and>
     cap_db c = [] \<and> \<not> cap_wasm c \<and> \<not> cap_import c"

record phase_policy =
  ph_caps :: capabilities
  ph_build :: "capabilities option"

definition default_phase :: phase_policy where
  "default_phase = \<lparr>ph_caps = no_capabilities, ph_build = None\<rparr>"

record permissions =
  pm_dev :: phase_policy
  pm_prod :: phase_policy

section \<open>The policy of a phase\<close>

definition fs_rule :: "fs_grant \<Rightarrow> string \<Rightarrow> rule_list" where
  "fs_rule grant working_dir =
     (case grant of
        Fs_Denied \<Rightarrow> RL_None
      | Fs_WorkingDir \<Rightarrow> RL_List [working_dir]
      | Fs_Paths paths \<Rightarrow> RL_List (List.map (path_join working_dir) paths))"

definition list_rule :: "string list \<Rightarrow> rule_list" where
  "list_rule items = (if items = [] then RL_None else RL_List items)"

definition phase_capabilities :: "permissions \<Rightarrow> execution_phase \<Rightarrow> capabilities \<times> bool" where
  "phase_capabilities pm phase =
     (case phase of
        DevRequest \<Rightarrow> (ph_caps (pm_dev pm), True)
      | ProdRequest \<Rightarrow> (ph_caps (pm_prod pm), True)
      | DevBuild \<Rightarrow> (case ph_build (pm_dev pm) of Some c \<Rightarrow> c | None \<Rightarrow> no_capabilities, False))"

definition resolve_phase :: "permissions \<Rightarrow> execution_phase \<Rightarrow> string \<Rightarrow> policy" where
  "resolve_phase pm phase working_dir =
     (case phase_capabilities pm phase of (c, prompt) \<Rightarrow>
        \<lparr>pol_allow = \<lparr>sc_read = fs_rule (cap_read c) working_dir, sc_write = fs_rule (cap_write c) working_dir,
           sc_net = list_rule (cap_net c), sc_env = list_rule (cap_env c), sc_run = RL_None,
           sc_db = list_rule (cap_db c), sc_wasm = (if cap_wasm c then RL_All else RL_None), sc_dynamic = False\<rparr>,
         pol_deny = default_scope, pol_prompt = prompt\<rparr>)"

section \<open>Validation\<close>

definition perm_error :: "string \<Rightarrow> string \<Rightarrow> string \<Rightarrow> diagnostic list" where
  "perm_error c path message = [diag Lv_Error c path message]"

definition quoted :: \<open>string \<Rightarrow> string\<close> where
  \<open>quoted s = ''"'' @ s @ ''"''\<close>

text \<open>
  \<open>validate_relative_path\<close>: a path of the manifest is relative and stays inside. The
  components of a relative path have no root; a prefix exists on Windows only.
\<close>

definition validate_relative_path :: "string \<Rightarrow> string + string" where
  "validate_relative_path raw =
     (let t = str_trim raw
      in if t = [] then Inl ''Path entries must not be empty''
         else if CHR 0x00 \<in> set t then Inl ''Path entries must not contain NUL bytes''
         else if is_absolute t
           then Inl (quoted t @ '' is an absolute path; permissions paths are relative to the working directory'')
         else if C_Par \<in> set (comps t)
           then Inl (quoted t @ '' escapes the working directory with `..`; permissions paths must stay inside it'')
         else Inr t)"

definition check_label :: "string \<Rightarrow> string \<Rightarrow> string option" where
  "check_label raw label =
     (if length label > 63 then Some (quoted raw @ '' has a DNS label over 63 characters'')
      else if starts_with label ''-'' \<or> ends_with label ''-''
        then Some (quoted raw @ '' has a DNS label starting or ending with '' @ [CHR 0x27, CHR ''-'', CHR 0x27])
      else if \<not> list_all (\<lambda>c. ascii_alnum c \<or> c = CHR ''-'') label
        then Some (quoted raw @ '' has characters outside a-z, 0-9, and '' @ [CHR 0x27, CHR ''-'', CHR 0x27])
      else None)"

fun check_labels :: "string \<Rightarrow> string list \<Rightarrow> string option" where
  "check_labels raw [] = None"
| "check_labels raw (l # ls) = (case check_label raw l of Some e \<Rightarrow> Some e | None \<Rightarrow> check_labels raw ls)"

definition host_delimiters :: string where
  "host_delimiters = ''/:@?#'' @ [CHR 0x5C]"

definition validate_hostname :: "string \<Rightarrow> string + string" where
  "validate_hostname raw =
     (let t = ascii_lowercase (str_trim raw); labels = split_on (CHR ''.'') t
      in if t = [] then Inl ''Hostname entries must not be empty''
         else if length t > 253 then Inl (quoted raw @ '' exceeds the 253-character hostname limit'')
         else if contains_str t ''://''
           then Inl (quoted raw @ '' includes a URL scheme; list hostnames only (https is implied)'')
         else if list_ex (\<lambda>c. c \<in> set host_delimiters) t
           then Inl (quoted raw @ '' includes a port or path; list bare hostnames only'')
         else if list_ex white_space (utf8_chars t) then Inl (quoted raw @ '' contains whitespace'')
         else if [] \<in> set labels then Inl (quoted raw @ '' has an empty DNS label'')
         else if hd labels = ''*''
           then (if tl labels = [] then Inl (quoted ''*'' @ '' alone is not a hostname; use an explicit name'')
                 else case check_labels raw (tl labels) of Some e \<Rightarrow> Inl e | None \<Rightarrow> Inr t)
         else if starts_with t ''*''
           then Inl (quoted raw @ '' misuses a wildcard; only a leading *.label is allowed'')
         else case check_labels raw labels of Some e \<Rightarrow> Inl e | None \<Rightarrow> Inr t)"

text \<open>\<open>for (idx, item) in items\<close>: what each entry adds to the list and to the diagnostics.\<close>

definition entries :: "(string \<Rightarrow> json \<Rightarrow> string list \<times> diagnostic list) \<Rightarrow> string \<Rightarrow> json list \<Rightarrow> string list \<times> diagnostic list" where
  "entries f path items =
     (let rs = List.map (\<lambda>(i, item). f (item_path path i) item) (enumerate 0 items)
      in (concat (List.map fst rs), concat (List.map snd rs)))"

definition path_entry :: "string \<Rightarrow> json \<Rightarrow> string list \<times> diagnostic list" where
  "path_entry p item =
     (case item of
        J_String raw \<Rightarrow> (case validate_relative_path raw of
            Inr clean \<Rightarrow> ([clean], [])
          | Inl message \<Rightarrow> ([], perm_error ''PERMISSIONS_INVALID_PATH'' p message))
      | _ \<Rightarrow> ([], perm_error ''PERMISSIONS_PATH_NOT_STRING'' p ''Path entries must be strings''))"

definition host_entry :: "string \<Rightarrow> json \<Rightarrow> string list \<times> diagnostic list" where
  "host_entry p item =
     (case item of
        J_String raw \<Rightarrow> (case validate_hostname raw of
            Inr host \<Rightarrow> ([host], [])
          | Inl message \<Rightarrow> ([], perm_error ''PERMISSIONS_INVALID_HOSTNAME'' p message))
      | _ \<Rightarrow> ([], perm_error ''PERMISSIONS_HOST_NOT_STRING'' p ''Hostname entries must be strings''))"

definition valid_env_name :: "string \<Rightarrow> bool" where
  "valid_env_name n \<longleftrightarrow> n \<noteq> [] \<and> (ascii_alpha (hd n) \<or> hd n = CHR ''_'') \<and>
     list_all (\<lambda>c. ascii_alnum c \<or> c = CHR ''_'') n"

definition env_entry :: "string \<Rightarrow> json \<Rightarrow> string list \<times> diagnostic list" where
  "env_entry p item =
     (case item of
        J_String raw \<Rightarrow>
          (let n = str_trim raw
           in if valid_env_name n then ([n], [])
              else ([], perm_error ''PERMISSIONS_INVALID_ENV_NAME'' p
                      (quoted raw @ '' is not a valid environment-variable name'')))
      | _ \<Rightarrow> ([], perm_error ''PERMISSIONS_ENV_NOT_STRING'' p ''Environment name entries must be strings''))"

definition db_entry :: "string \<Rightarrow> json \<Rightarrow> string list \<times> diagnostic list" where
  "db_entry p item =
     (case item of
        J_String raw \<Rightarrow>
          (let n = str_trim raw
           in if n = []
              then ([], perm_error ''PERMISSIONS_DB_EMPTY'' p ''Database connection name entries must not be empty'')
              else ([n], []))
      | _ \<Rightarrow> ([], perm_error ''PERMISSIONS_DB_NOT_STRING'' p ''Database connection name entries must be strings''))"

definition parse_fs_grant :: "string \<Rightarrow> json option \<Rightarrow> fs_grant \<times> diagnostic list" where
  "parse_fs_grant path v =
     (case v of
        None \<Rightarrow> (Fs_Denied, [])
      | Some (J_Bool flag) \<Rightarrow> (if flag then Fs_WorkingDir else Fs_Denied, [])
      | Some (J_Array items) \<Rightarrow> (case entries path_entry path items of (ps, ds) \<Rightarrow> (Fs_Paths ps, ds))
      | Some _ \<Rightarrow> (Fs_Denied, perm_error ''PERMISSIONS_INVALID_FS_GRANT'' path
                    ''Expected `true`, `false`, or an array of relative paths''))"

text \<open>The lists of hosts, variables and connections, which never accept \<open>true\<close>.\<close>

definition parse_name_list ::
    "string \<times> string \<Rightarrow> string \<times> string \<Rightarrow> (string \<Rightarrow> json \<Rightarrow> string list \<times> diagnostic list) \<Rightarrow> string \<Rightarrow> json option \<Rightarrow>
     string list \<times> diagnostic list" where
  "parse_name_list on_true on_other f path v =
     (case v of
        None \<Rightarrow> ([], [])
      | Some (J_Bool flag) \<Rightarrow> ([], if flag then perm_error (fst on_true) path (snd on_true) else [])
      | Some (J_Array items) \<Rightarrow> entries f path items
      | Some _ \<Rightarrow> ([], perm_error (fst on_other) path (snd on_other)))"

definition parse_net_list :: "string \<Rightarrow> json option \<Rightarrow> string list \<times> diagnostic list" where
  "parse_net_list = parse_name_list
     (''PERMISSIONS_NET_REQUIRES_HOSTNAMES'',
      ''`net` does not accept `true`; list explicit hostnames (https only, checked on every redirect hop)'')
     (''PERMISSIONS_INVALID_NET'', ''Expected `false` or an array of hostnames'') host_entry"

definition parse_env_list :: "string \<Rightarrow> json option \<Rightarrow> string list \<times> diagnostic list" where
  "parse_env_list = parse_name_list
     (''PERMISSIONS_ENV_REQUIRES_NAMES'', ''`env` does not accept `true`; list exact environment-variable names'')
     (''PERMISSIONS_INVALID_ENV'', ''Expected `false` or an array of environment-variable names'') env_entry"

definition parse_db_list :: "string \<Rightarrow> json option \<Rightarrow> string list \<times> diagnostic list" where
  "parse_db_list = parse_name_list
     (''PERMISSIONS_DB_REQUIRES_NAMES'', ''`db` does not accept `true`; list declared database connection names'')
     (''PERMISSIONS_INVALID_DB'', ''Expected `false` or an array of database connection names'') db_entry"

definition parse_bool_capability :: "string \<Rightarrow> json option \<Rightarrow> bool \<times> diagnostic list" where
  "parse_bool_capability path v =
     (case v of
        None \<Rightarrow> (False, [])
      | Some (J_Bool flag) \<Rightarrow> (flag, [])
      | Some _ \<Rightarrow> (False, perm_error ''PERMISSIONS_INVALID_CAPABILITY_VALUE'' path ''Expected boolean''))"

definition capability_keys :: "string list" where
  "capability_keys = [''read'', ''write'', ''net'', ''env'', ''db'', ''wasm'', ''import'', ''build'']"

definition build_capability_keys :: "string list" where
  "build_capability_keys = [''read'', ''write'', ''net'', ''env'', ''db'', ''wasm'', ''import'']"

definition parse_capabilities :: "string \<Rightarrow> (string, json) btree \<Rightarrow> string list \<Rightarrow> capabilities \<times> diagnostic list" where
  "parse_capabilities path obj known =
     (let at = (\<lambda>k. path @ ''.'' @ k);
          fs = (''read'' \<in> set known); rest = (''net'' \<in> set known);
          rd = (if fs then parse_fs_grant (at ''read'') (bt_get obj ''read'') else (Fs_Denied, []));
          wr = (if fs then parse_fs_grant (at ''write'') (bt_get obj ''write'') else (Fs_Denied, []));
          net = (if rest then parse_net_list (at ''net'') (bt_get obj ''net'') else ([], []));
          env = (if rest then parse_env_list (at ''env'') (bt_get obj ''env'') else ([], []));
          db = (if rest then parse_db_list (at ''db'') (bt_get obj ''db'') else ([], []));
          wasm = (if rest then parse_bool_capability (at ''wasm'') (bt_get obj ''wasm'') else (False, []));
          imp = (if rest then parse_bool_capability (at ''import'') (bt_get obj ''import'') else (False, []))
      in (\<lparr>cap_read = fst rd, cap_write = fst wr, cap_net = fst net, cap_env = fst env, cap_db = fst db,
            cap_wasm = fst wasm, cap_import = fst imp\<rparr>,
          snd rd @ snd wr @ snd net @ snd env @ snd db @ snd wasm @ snd imp))"

definition unknown_capability :: "string list \<Rightarrow> string \<Rightarrow> string \<Rightarrow> string \<Rightarrow> diagnostic list" where
  "unknown_capability known path place key =
     (if key \<in> set known then []
      else perm_error ''PERMISSIONS_UNKNOWN_CAPABILITY'' (path @ ''.'' @ key)
             (''Unknown capability key '' @ [CHR 0x27] @ key @ [CHR 0x27] @ '' in '' @ place @ ''. Valid keys: '' @
              join '', '' known @ ''.''))"

text \<open>The dash of the messages, in UTF-8.\<close>

definition em_dash :: string where
  "em_dash = [CHR 0xE2, CHR 0x80, CHR 0x94]"

definition parse_build :: "string \<Rightarrow> json option \<Rightarrow> capabilities option \<times> diagnostic list" where
  "parse_build profile_path v =
     (let path = profile_path @ ''.build''
      in case v of
           None \<Rightarrow> (None, [])
         | Some j \<Rightarrow>
             if j = J_Bool False then (None, [])
             else if ends_with profile_path ''.prod''
               then (None, perm_error ''PERMISSIONS_PROD_BUILD_MUST_BE_FALSE'' path
                      (''permissions.prod.build is '' @
                       (case j of J_Object _ \<Rightarrow> ''an object''
                        | _ \<Rightarrow> if j = J_Bool True then ''`true`'' else ''a non-false value'') @
                       '' here; it must be exactly false. Deka has no production build environment '' @ em_dash @
                       '' `build {}` executes only through permissions.dev.build (RFD 53).''))
             else case j of
               J_Object obj \<Rightarrow>
                 (case parse_capabilities path obj build_capability_keys of (c, ds) \<Rightarrow>
                    (Some c, concat (List.map (unknown_capability build_capability_keys path ''build policy'') (bt_keys obj)) @ ds))
             | _ \<Rightarrow> (None, perm_error ''PERMISSIONS_INVALID_BUILD'' path
                            ''Expected `false` or an object for `permissions.dev.build`''))"

definition parse_profile :: "string \<Rightarrow> json option \<Rightarrow> phase_policy option \<times> diagnostic list" where
  "parse_profile path v =
     (case v of
        None \<Rightarrow> (None, [])
      | Some (J_Object obj) \<Rightarrow>
          (case parse_capabilities path obj capability_keys of (c, ds) \<Rightarrow>
           case parse_build path (bt_get obj ''build'') of (b, bs) \<Rightarrow>
             (Some \<lparr>ph_caps = c, ph_build = b\<rparr>,
              concat (List.map (unknown_capability capability_keys path path) (bt_keys obj)) @ ds @ bs))
      | Some _ \<Rightarrow> (None, perm_error ''PERMISSIONS_PROFILE_NOT_OBJECT'' path
                    (''Expected object for `'' @ last (split_on (CHR ''.'') path) @ ''`'')))"

definition unknown_profile_key :: "string \<Rightarrow> diagnostic list" where
  "unknown_profile_key key =
     perm_error ''PERMISSIONS_UNKNOWN_KEY'' (''$.permissions.'' @ key)
       (''Unknown key '' @ [CHR 0x27] @ key @ [CHR 0x27] @ '' in permissions. Valid keys: dev, prod.'')"

definition or_default :: "phase_policy option \<Rightarrow> phase_policy" where
  "or_default x = (case x of Some p \<Rightarrow> p | None \<Rightarrow> default_phase)"

definition parse_permissions :: "json \<Rightarrow> permissions option \<times> diagnostic list" where
  "parse_permissions document =
     (case document of
        J_Object obj \<Rightarrow>
          (case bt_get obj ''permissions'' of
             None \<Rightarrow> (None, [])
           | Some (J_Object pm) \<Rightarrow>
               (let phase_aware = bt_contains pm ''dev'' \<or> bt_contains pm ''prod'';
                    legacy_shape = bt_contains pm ''fs'' \<or> bt_contains pm ''net'' \<or> bt_contains pm ''env''
                in if \<not> phase_aware \<and> legacy_shape then (None, [])
                   else
                     (case parse_profile ''$.permissions.dev'' (bt_get pm ''dev'') of (dev, ds) \<Rightarrow>
                      case parse_profile ''$.permissions.prod'' (bt_get pm ''prod'') of (pr, ps) \<Rightarrow>
                        (Some \<lparr>pm_dev = or_default dev, pm_prod = or_default pr\<rparr>,
                         (if \<not> phase_aware then concat (List.map unknown_profile_key (bt_keys pm)) else []) @ ds @ ps)))
           | Some _ \<Rightarrow> (None, perm_error ''PERMISSIONS_INVALID_TYPE'' ''$.permissions'' ''Expected object for `permissions`''))
      | _ \<Rightarrow> (None, perm_error ''PERMISSIONS_ROOT_NOT_OBJECT'' ''$'' ''Expected JSON object at document root''))"

section \<open>The policy a command hands to an execution\<close>

record resolved =
  rp_policy_json :: string
  rp_prompt :: bool

definition error_lines :: "diagnostic list \<Rightarrow> string" where
  "error_lines ds = join [CHR 0x0A] (List.map (\<lambda>d. dg_code d @ '' at '' @ dg_path d @ '': '' @ dg_message d)
     (filter (\<lambda>d. dg_level d = Lv_Error) ds))"

definition resolved_of :: "(json \<Rightarrow> string) \<Rightarrow> policy \<Rightarrow> resolved" where
  "resolved_of print p = \<lparr>rp_policy_json = print (policy_to_json p), rp_prompt = pol_prompt p\<rparr>"

definition resolve_phase_aware ::
    "(json \<Rightarrow> string) \<Rightarrow> os \<Rightarrow> json \<Rightarrow> string \<Rightarrow> execution_phase \<Rightarrow> resolved option res" where
  "resolve_phase_aware print w document root phase =
     (case parse_permissions document of (pm, ds) \<Rightarrow>
        if has_errors ds then Err (''invalid permissions:'' @ [CHR 0x0A] @ error_lines ds)
        else case pm of
               None \<Rightarrow> Ok None
             | Some p \<Rightarrow>
                 Ok (Some (resolved_of print (resolve_phase p phase (case os_cwd w of Some d \<Rightarrow> d | None \<Rightarrow> root)))))"

definition apply_dev_defaults :: "string \<Rightarrow> policy \<Rightarrow> string \<Rightarrow> policy" where
  "apply_dev_defaults modules_dir p root =
     (let a = pol_allow p;
          a1 = (if sc_read a = RL_None then a\<lparr>sc_read := RL_List [root]\<rparr> else a);
          a2 = (if sc_write a1 = RL_None
                then a1\<lparr>sc_write := RL_List [path_join root ''.cache'', path_join (path_join root modules_dir) ''.cache'']\<rparr>
                else a1);
          a3 = (if sc_wasm a2 = RL_None then a2\<lparr>sc_wasm := RL_All\<rparr> else a2)
      in p\<lparr>pol_allow := a3\<rparr>)"

definition resolve_security_policy_for_root ::
    "(json \<Rightarrow> string) \<Rightarrow> string \<Rightarrow> os \<Rightarrow> json \<Rightarrow> string \<Rightarrow> (string \<rightharpoonup> bool) \<Rightarrow> (string \<rightharpoonup> string) \<Rightarrow> bool \<Rightarrow> resolved res" where
  "resolve_security_policy_for_root print modules_dir w document root flags params dev =
     res_bind (resolve_phase_aware print w document root (if dev then DevRequest else ProdRequest)) (\<lambda>r.
       case r of
         Some x \<Rightarrow> Ok x
       | None \<Rightarrow>
           (case parse_deka_security_policy document of (p, ds) \<Rightarrow>
              if has_errors ds then Err (''invalid security policy:'' @ [CHR 0x0A] @ error_lines ds)
              else Ok (resolved_of print (merge_policy_with_cli_manifest_net_env
                     (if dev then apply_dev_defaults modules_dir p root else p) (from_flags_and_params flags params)))))"

definition resolve_build_policy_for_root ::
    "(json \<Rightarrow> string) \<Rightarrow> string \<Rightarrow> os \<Rightarrow> json \<Rightarrow> string \<Rightarrow> (string \<rightharpoonup> bool) \<Rightarrow> (string \<rightharpoonup> string) \<Rightarrow> bool \<Rightarrow> resolved res" where
  "resolve_build_policy_for_root print modules_dir w document root flags params dev =
     res_bind (resolve_phase_aware print w document root DevBuild) (\<lambda>r.
       case r of
         Some x \<Rightarrow> Ok x
       | None \<Rightarrow> resolve_security_policy_for_root print modules_dir w document root flags params dev)"

end
