(* ===== verification/SecPolicyProps.thy ===== *)
theory SecPolicyProps
  imports SecPolicy
begin

text \<open>
  Properties of the security policy: the suggestion for a misspelled key uses the true edit
  distance, reading and writing a policy are inverse, reading fails closed, and what the
  flags of the command line can change.
\<close>

section \<open>The edit distance\<close>

text \<open>One edit: a character is deleted, inserted or replaced, at any place.\<close>

inductive edit1 :: "'a list \<Rightarrow> 'a list \<Rightarrow> bool" where
  edit_delete: "edit1 (x # v) v"
| edit_insert: "edit1 v (y # v)"
| edit_replace: "edit1 (x # v) (y # v)"
| edit_later: "edit1 v w \<Longrightarrow> edit1 (z # v) (z # w)"

text \<open>An alignment of two lists and its cost.\<close>

inductive align :: "nat \<Rightarrow> 'a list \<Rightarrow> 'a list \<Rightarrow> bool" where
  align_Nil: "align 0 [] []"
| align_keep: "align n xs ys \<Longrightarrow> align n (x # xs) (x # ys)"
| align_replace: "align n xs ys \<Longrightarrow> align (Suc n) (x # xs) (y # ys)"
| align_delete: "align n xs ys \<Longrightarrow> align (Suc n) (x # xs) ys"
| align_insert: "align n xs ys \<Longrightarrow> align (Suc n) xs (y # ys)"

inductive_cases edit1_NilE: "edit1 [] w"

lemma edit1_Cons_cases:
  assumes "edit1 (x # v) w"
  obtains (del) "w = v" | (ins) y where "w = y # x # v" | (rep) y where "w = y # v" | (later) u where "w = x # u" "edit1 v u"
  using assms by (auto elim: edit1.cases)

lemma align_refl: "align 0 xs xs"
  by (induction xs) (auto intro: align.intros)

lemma edits_Cons: "(edit1 ^^ n) xs ys \<Longrightarrow> (edit1 ^^ n) (z # xs) (z # ys)"
  by (induction n arbitrary: ys) (auto intro: edit_later relcomppI)

lemma align_edits: "align n xs ys \<Longrightarrow> (edit1 ^^ n) xs ys"
proof (induction rule: align.induct)
  case (align_replace n xs ys x y)
  show ?case by (rule relpowp_Suc_I2 [of _ "x # xs" "y # xs"]) (auto intro: edit_replace edits_Cons align_replace.IH)
next
  case (align_delete n xs ys x)
  show ?case by (rule relpowp_Suc_I2 [OF edit_delete align_delete.IH])
next
  case (align_insert n xs ys y)
  show ?case by (rule relpowp_Suc_I [OF align_insert.IH edit_insert])
qed (auto intro: edits_Cons)

lemma align_edit1: "align n xs ys \<Longrightarrow> edit1 ys zs \<Longrightarrow> \<exists>m \<le> Suc n. align m xs zs"
proof (induction arbitrary: zs rule: align.induct)
  case align_Nil
  then show ?case by (auto elim!: edit1_NilE intro: align.intros)
next
  case (align_keep n xs ys x)
  from align_keep.prems show ?case
  proof (cases rule: edit1_Cons_cases)
    case (later w)
    then show ?thesis using align_keep.IH by (blast intro: align.intros)
  qed (use align_keep.hyps in \<open>blast intro: align.intros\<close>)+
next
  case (align_replace n xs ys x y)
  from align_replace.prems show ?case
  proof (cases rule: edit1_Cons_cases)
    case (later w)
    then show ?thesis using align_replace.IH Suc_le_mono by (blast intro: align.intros)
  next
    case (rep u)
    then show ?thesis using align_replace.hyps le_SucI [OF order_refl] by (blast intro: align.intros)
  next
    case del
    then show ?thesis using align_replace.hyps le_SucI [OF order_refl] by (blast intro: align.intros)
  qed (use align_replace.hyps in \<open>blast intro: align.intros\<close>)
next
  case (align_delete n xs ys x)
  then show ?case using Suc_le_mono by (blast intro: align.intros)
next
  case (align_insert n xs ys y)
  from align_insert.prems show ?case
  proof (cases rule: edit1_Cons_cases)
    case (later w)
    then show ?thesis using align_insert.IH Suc_le_mono by (blast intro: align.intros)
  next
    case (rep u)
    then show ?thesis using align_insert.hyps le_SucI [OF order_refl] by (blast intro: align.intros)
  next
    case del
    then show ?thesis using align_insert.hyps by (intro exI [of _ n]) simp
  qed (use align_insert.hyps in \<open>blast intro: align.intros\<close>)
qed

lemma edits_align: "(edit1 ^^ n) xs ys \<Longrightarrow> \<exists>m \<le> n. align m xs ys"
proof (induction n arbitrary: ys)
  case 0
  then show ?case using align_refl by auto
next
  case (Suc n)
  then obtain zs m where "edit1 zs ys" "m \<le> n" "align m xs zs" by (metis relpowp_Suc_E)
  then show ?case using align_edit1 [of m xs zs ys] by (meson Suc_le_mono le_trans)
qed

lemma align_append: "align n xs ys \<Longrightarrow> align m us vs \<Longrightarrow> align (n + m) (xs @ us) (ys @ vs)"
  by (induction rule: align.induct) (auto intro: align.intros)

lemma align_rev: "align n xs ys \<Longrightarrow> align n (rev xs) (rev ys)"
proof (induction rule: align.induct)
  case (align_keep n xs ys x)
  then show ?case using align_append [OF align_keep.IH align_refl [of "[x]"]] by simp
next
  case (align_replace n xs ys x y)
  have "align 1 [x] [y]" using align.align_replace [OF align_Nil] by simp
  then show ?case using align_append [OF align_replace.IH] by fastforce
next
  case (align_delete n xs ys x)
  have "align 1 [x] []" using align.align_delete [OF align_Nil] by simp
  then show ?case using align_append [OF align_delete.IH] by fastforce
next
  case (align_insert n xs ys y)
  have "align 1 [] [y]" using align.align_insert [OF align_Nil] by simp
  then show ?case using align_append [OF align_insert.IH] by fastforce
qed (simp add: align_Nil)

text \<open>The distance as a recursion on the first characters.\<close>

fun lev :: "'a list \<Rightarrow> 'a list \<Rightarrow> nat" where
  "lev [] ys = length ys"
| "lev (x # xs) [] = Suc (length xs)"
| "lev (x # xs) (y # ys) =
     min (min (lev xs ys + (if x \<noteq> y then 1 else 0)) (lev xs (y # ys) + 1)) (lev (x # xs) ys + 1)"

lemma lev_Nil [simp]: "lev xs [] = length xs"
  by (cases xs) simp_all

lemma align_lev: "align (lev xs ys) xs ys"
proof (induction xs ys rule: lev.induct)
  case (1 ys)
  show ?case by (induction ys) (auto intro: align.intros)
next
  case (2 x xs)
  have "align (length xs) xs []" for xs :: "'a list" by (induction xs) (auto intro: align.intros)
  from this [of "x # xs"] show ?case by simp
next
  case (3 x xs y ys)
  then have "align (lev xs ys + (if x \<noteq> y then 1 else 0)) (x # xs) (y # ys)"
      "align (lev xs (y # ys) + 1) (x # xs) (y # ys)" "align (lev (x # xs) ys + 1) (x # xs) (y # ys)"
    by (auto intro: align.intros)
  then show ?case by (simp add: min_def del: lev_Nil)
qed

lemma lev_le_align: "align n xs ys \<Longrightarrow> lev xs ys \<le> n"
proof (induction rule: align.induct)
  case (align_replace n xs ys x y)
  have "lev (x # xs) (y # ys) \<le> lev xs ys + (if x \<noteq> y then 1 else 0)" by (simp only: lev.simps min.cobounded1 min.coboundedI1)
  then show ?case using align_replace.IH by (simp split: if_splits)
next
  case (align_delete n xs ys x)
  then show ?case by (cases ys) simp_all
next
  case (align_insert n xs ys y)
  then show ?case by (cases xs) simp_all
qed simp_all

lemma lev_edits: "lev (rev xs) (rev ys) \<le> k \<longleftrightarrow> (\<exists>n \<le> k. (edit1 ^^ n) xs ys)"
proof
  assume "lev (rev xs) (rev ys) \<le> k"
  moreover have "align (lev (rev xs) (rev ys)) xs ys" using align_rev [OF align_lev [of "rev xs" "rev ys"]] by simp
  ultimately show "\<exists>n \<le> k. (edit1 ^^ n) xs ys" using align_edits by blast
next
  assume "\<exists>n \<le> k. (edit1 ^^ n) xs ys"
  then obtain m where "m \<le> k" "align m xs ys" using edits_align le_trans by blast
  then show "lev (rev xs) (rev ys) \<le> k" using lev_le_align [OF align_rev] le_trans by blast
qed

text \<open>The rows of the table.\<close>

fun lev_row :: "'a list \<Rightarrow> 'a list \<Rightarrow> 'a list \<Rightarrow> nat list" where
  "lev_row xs r [] = []"
| "lev_row xs r (c # b) = lev xs (c # r) # lev_row xs (c # r) b"

lemma distance_row_lev: "distance_row c b (lev xs r) (lev_row xs r b) (lev (c # xs) r) = lev_row (c # xs) r b"
proof (induction b arbitrary: r)
  case (Cons y b)
  have "distance_row c (y # b) (lev xs r) (lev xs (y # r) # lev_row xs (y # r) b) (lev (c # xs) r) =
      lev (c # xs) (y # r) # distance_row c b (lev xs (y # r)) (lev_row xs (y # r) b) (lev (c # xs) (y # r))"
    by (simp only: distance_row.simps Let_def lev.simps)
  then show ?case using Cons.IH [of "y # r"] by (simp only: lev_row.simps)
qed simp

lemma distance_rows_lev:
  "distance_rows a b (length xs) (lev xs [] # lev_row xs [] b) = lev (rev a @ xs) [] # lev_row (rev a @ xs) [] b"
proof (induction a arbitrary: xs)
  case (Cons c a)
  have r: "distance_row c b (length xs) (lev_row xs [] b) (Suc (length xs)) = lev_row (c # xs) [] b"
    using distance_row_lev [of c b xs "[]"] by simp
  from Cons.IH [of "c # xs"] show ?case by (simp add: r)
qed simp

lemma lev_row_first: "lev_row [] r b = [Suc (length r)..<Suc (length r + length b)]"
  by (induction b arbitrary: r) (simp_all add: upt_rec)

lemma lev_row_nth: "(lev xs r # lev_row xs r b) ! length b = lev xs (rev b @ r)"
  by (induction b arbitrary: r) simp_all

text \<open>
  C25. The check behind \<open>Did you mean\<close> is exact: two texts are within a bound by
  \<open>edit_distance_within\<close>, with its two swapped rows and its early answer by the difference
  of the lengths, exactly when at most that many single-character edits turn one into the
  other. The characters are those of the UTF-8 text.
\<close>

theorem edit_distance_exact:
  "edit_distance_within s t bound \<longleftrightarrow> (\<exists>n \<le> bound. (edit1 ^^ n) (utf8_chars s) (utf8_chars t))"
proof -
  define a b where "a = utf8_chars s" and "b = utf8_chars t"
  have "[0..<length b + 1] = lev [] [] # lev_row [] [] b" unfolding lev_row_first by (simp add: upt_rec [of 0] del: upt_Suc)
  then have rows: "distance_rows a b 0 [0..<length b + 1] ! length b = lev (rev a) (rev b)"
    using distance_rows_lev [of a b "[]"] lev_row_nth [of "rev a" "[]" b] by simp
  have "length xs - length ys \<le> n \<and> length ys - length xs \<le> n" if "align n xs ys" for n and xs ys :: "'b list"
    using that by (induction rule: align.induct) auto
  from this [OF align_lev, of "rev a" "rev b"]
  have "lev (rev a) (rev b) > bound" if "max (length a) (length b) - min (length a) (length b) > bound"
    using that by (auto simp: max_def min_def split: if_splits)
  then have "edit_distance_within s t bound \<longleftrightarrow> lev (rev a) (rev b) \<le> bound"
    unfolding edit_distance_within_def Let_def a_def [symmetric] b_def [symmetric] rows by auto
  then show ?thesis unfolding lev_edits a_def b_def .
qed


section \<open>Trimmed texts\<close>

text \<open>Cutting a text into its characters after some of them were taken away.\<close>

definition char_groups :: "string list \<Rightarrow> bool" where
  "char_groups cs \<longleftrightarrow> (\<forall>c \<in> set cs. c \<noteq> [] \<and> (\<forall>b \<in> set (tl c). is_cont b)) \<and> (\<forall>c \<in> set (tl cs). \<not> is_cont (hd c))"

lemma char_groups_utf8: "char_groups (utf8_chars s)"
proof (induction s rule: utf8_chars.induct)
  case (2 b bs)
  have "\<not> is_cont (hd (hd (utf8_chars (dropWhile is_cont bs))))" if "utf8_chars (dropWhile is_cont bs) \<noteq> []"
    using that hd_dropWhile [of is_cont bs] by (cases "dropWhile is_cont bs") auto
  with 2 show ?case
    by (cases "utf8_chars (dropWhile is_cont bs)") (auto simp: char_groups_def dest: set_takeWhileD)
qed (simp add: char_groups_def)

lemma utf8_chars_groups: "char_groups cs \<Longrightarrow> utf8_chars (concat cs) = cs"
proof (induction cs)
  case (Cons c cs)
  then obtain b t where c: "c = b # t" and t: "\<forall>x \<in> set t. is_cont x" by (cases c) (auto simp: char_groups_def)
  have cs: "char_groups cs" using Cons.prems by (cases cs) (auto simp: char_groups_def)
  have "takeWhile is_cont (t @ concat cs) = t \<and> dropWhile is_cont (t @ concat cs) = concat cs"
  proof (cases cs)
    case Nil
    then show ?thesis using t by simp
  next
    case (Cons d ds)
    then obtain x u where "d = x # u" "\<not> is_cont x" using \<open>char_groups (c # cs)\<close>
      by (cases d) (auto simp: char_groups_def)
    then show ?thesis using Cons t by (simp add: takeWhile_append2 dropWhile_append2)
  qed
  then show ?case using Cons.IH [OF cs] by (simp add: c)
qed simp

lemma char_groups_appendD:
  assumes "char_groups (xs @ ys)"
  shows "char_groups xs" and "char_groups ys"
  using assms by (cases xs; cases ys; auto simp: char_groups_def dest: list.set_sel(2))+

definition trim_chars :: "string list \<Rightarrow> string list" where
  "trim_chars cs = rev (dropWhile white_space (rev (dropWhile white_space cs)))"

lemma rev_split: "rev (dropWhile P (rev d)) @ rev (takeWhile P (rev d)) = d"
  by (metis rev_append rev_rev_ident takeWhile_dropWhile_id)

lemma trim_chars_part: "\<exists>xs ys. cs = xs @ trim_chars cs @ ys"
proof -
  define d where "d = dropWhile white_space cs"
  have "d = rev (dropWhile white_space (rev d)) @ rev (takeWhile white_space (rev d))"
    by (simp only: rev_split)
  then have "d = trim_chars cs @ rev (takeWhile white_space (rev d))" by (simp add: trim_chars_def d_def)
  moreover have "cs = takeWhile white_space cs @ d" by (simp add: d_def)
  ultimately show ?thesis by metis
qed

lemma trim_chars_idem: "trim_chars (trim_chars cs) = trim_chars cs"
proof -
  define d where "d = dropWhile white_space cs"
  define e where "e = dropWhile white_space (rev d)"
  have "dropWhile white_space (rev e) = rev e"
  proof (cases "e = []")
    case False
    have "d \<noteq> []" using False by (auto simp: e_def)
    then have h: "\<not> white_space (hd d)" unfolding d_def by (rule hd_dropWhile)
    have "d = rev e @ rev (takeWhile white_space (rev d))"
      by (simp only: e_def rev_split)
    then have "hd d = hd (rev e)" using False by (metis hd_append2 rev_is_Nil_conv)
    then show ?thesis using h False by (cases "rev e") auto
  qed simp
  moreover have "dropWhile white_space e = e" by (simp add: e_def dropWhile_idem)
  ultimately show ?thesis by (simp add: trim_chars_def d_def [symmetric] e_def [symmetric])
qed

lemma str_trim_idem [simp]: "str_trim (str_trim s) = str_trim s"
proof -
  have "char_groups (trim_chars (utf8_chars s))"
    using trim_chars_part [of "utf8_chars s"] char_groups_utf8 [of s] char_groups_appendD by metis
  then have "utf8_chars (concat (trim_chars (utf8_chars s))) = trim_chars (utf8_chars s)" by (rule utf8_chars_groups)
  then show ?thesis by (simp add: str_trim_def trim_chars_def [symmetric] trim_chars_idem)
qed

section \<open>Policies that are written and read again\<close>

definition item_clean :: "string \<Rightarrow> bool" where
  "item_clean x \<longleftrightarrow> x \<noteq> [] \<and> str_trim x = x"

definition rule_clean :: "rule_list \<Rightarrow> bool" where
  "rule_clean r = (case r of RL_List xs \<Rightarrow> xs \<noteq> [] \<and> (\<forall>x \<in> set xs. item_clean x) | _ \<Rightarrow> True)"

definition scope_rules :: "scope \<Rightarrow> rule_list list" where
  "scope_rules s = [sc_read s, sc_write s, sc_net s, sc_env s, sc_run s, sc_db s, sc_wasm s]"

definition policy_clean :: "policy \<Rightarrow> bool" where
  "policy_clean p \<longleftrightarrow> (\<forall>r \<in> set (scope_rules (pol_allow p) @ scope_rules (pol_deny p)). rule_clean r)"

text \<open>Two rules with the same items, in any order and number.\<close>

definition same_rule :: "rule_list \<Rightarrow> rule_list \<Rightarrow> bool" where
  "same_rule r r' =
     (case (r, r') of
        (RL_None, RL_None) \<Rightarrow> True
      | (RL_All, RL_All) \<Rightarrow> True
      | (RL_List xs, RL_List ys) \<Rightarrow> set xs = set ys
      | _ \<Rightarrow> False)"

definition same_scope :: "scope \<Rightarrow> scope \<Rightarrow> bool" where
  "same_scope a b \<longleftrightarrow> list_all2 same_rule (scope_rules a) (scope_rules b) \<and> sc_dynamic a = sc_dynamic b"

definition same_policy :: "policy \<Rightarrow> policy \<Rightarrow> bool" where
  "same_policy p q \<longleftrightarrow> same_scope (pol_allow p) (pol_allow q) \<and> same_scope (pol_deny p) (pol_deny q) \<and>
     pol_prompt p = pol_prompt q"

text \<open>
  What a policy is once it has been written and read: the items of each rule trimmed, in order
  and once each, the blank ones left out; a rule without items allows nothing.
\<close>

definition normal_rule :: "rule_list \<Rightarrow> rule_list" where
  "normal_rule r =
     (case r of
        RL_List xs \<Rightarrow>
          (let ys = sorted_list_of_set (str_trim ` set xs - {[]}) in if ys = [] then RL_None else RL_List ys)
      | _ \<Rightarrow> r)"

definition normal_scope :: "scope \<Rightarrow> scope" where
  "normal_scope s = \<lparr>sc_read = normal_rule (sc_read s), sc_write = normal_rule (sc_write s),
     sc_net = normal_rule (sc_net s), sc_env = normal_rule (sc_env s), sc_run = normal_rule (sc_run s),
     sc_db = normal_rule (sc_db s), sc_wasm = normal_rule (sc_wasm s), sc_dynamic = sc_dynamic s\<rparr>"

definition normal_policy :: "policy \<Rightarrow> policy" where
  "normal_policy p = \<lparr>pol_allow = normal_scope (pol_allow p), pol_deny = normal_scope (pol_deny p),
     pol_prompt = pol_prompt p\<rparr>"

definition blank_item :: "rule_list \<Rightarrow> bool" where
  "blank_item r = (case r of RL_List xs \<Rightarrow> \<exists>x \<in> set xs. str_trim x = [] | _ \<Rightarrow> False)"

definition blank_items :: "policy \<Rightarrow> bool" where
  "blank_items p \<longleftrightarrow> (\<exists>r \<in> set (scope_rules (pol_allow p) @ scope_rules (pol_deny p)). blank_item r)"

lemma has_errors_simps [simp]:
  "has_errors [] = False" "has_errors (xs @ ys) = (has_errors xs \<or> has_errors ys)"
  "has_errors (diag l c p m # ds) = (l = Lv_Error \<or> has_errors ds)"
  by (simp_all add: has_errors_def diag_def)

lemma has_errors_concat: "has_errors (concat dss) = (\<exists>ds \<in> set dss. has_errors ds)"
  by (induction dss) simp_all

lemma weak_warnings_ok [simp]: "has_errors (weak_warnings p a i) = False"
  by (simp add: weak_warnings_def split: option.splits)

lemma set_rule_items:
  "set (fst (rule_items path items)) = {str_trim s | s. J_String s \<in> set items \<and> str_trim s \<noteq> []}"
proof -
  have "set (concat (List.map fst (List.map (\<lambda>(i, item). rule_item path i item) (enumerate k items)))) =
      {str_trim s | s. J_String s \<in> set items \<and> str_trim s \<noteq> []}" for k
  proof (induction items arbitrary: k)
    case (Cons x items)
    show ?case using Cons.IH [of "Suc k"]
      by (cases x) (auto simp: rule_item_def Let_def)
  qed simp
  then show ?thesis by (simp add: rule_items_def Let_def bt_collect_def bt_keys_extend image_image bt_keys_def [of "[]"])
qed

lemma rule_items_errors:
  "has_errors (snd (rule_items path items)) \<longleftrightarrow> \<not> (\<forall>x \<in> set items. \<exists>s. x = J_String s \<and> str_trim s \<noteq> [])"
proof -
  have "has_errors (concat (List.map snd (List.map (\<lambda>(i, item). rule_item path i item) (enumerate k items)))) \<longleftrightarrow>
      \<not> (\<forall>x \<in> set items. \<exists>s. x = J_String s \<and> str_trim s \<noteq> [])" for k
  proof (induction items arbitrary: k)
    case (Cons x items)
    show ?case using Cons.IH [of "Suc k"]
      by (cases x) (auto simp: rule_item_def Let_def)
  qed simp
  then show ?thesis by (simp add: rule_items_def Let_def)
qed


text \<open>What a rule of the manifest says, and when it is well formed.\<close>

definition rule_doc_ok :: "json option \<Rightarrow> bool" where
  "rule_doc_ok v =
     (case v of
        None \<Rightarrow> True
      | Some (J_Bool b) \<Rightarrow> True
      | Some (J_String s) \<Rightarrow> str_trim s \<noteq> []
      | Some (J_Array xs) \<Rightarrow> (\<forall>x \<in> set xs. \<exists>s. x = J_String s \<and> str_trim s \<noteq> [])
      | _ \<Rightarrow> False)"

definition named_items :: "json option \<Rightarrow> string set" where
  "named_items v =
     (case v of
        Some (J_String s) \<Rightarrow> {str_trim s} - {[]}
      | Some (J_Array xs) \<Rightarrow> {str_trim s | s. J_String s \<in> set xs \<and> str_trim s \<noteq> []}
      | _ \<Rightarrow> {})"

lemma parse_rule_errors: "has_errors (snd (parse_rule_list path v)) \<longleftrightarrow> \<not> rule_doc_ok v"
  by (auto simp: parse_rule_list_def rule_doc_ok_def rule_items_errors [unfolded split_beta] case_prod_beta Let_def
      split: option.splits json.splits)

lemma parse_rule_means:
  "fst (parse_rule_list path v) = RL_All \<longleftrightarrow> v = Some (J_Bool True)"
  "fst (parse_rule_list path v) = RL_List xs \<Longrightarrow> set xs = named_items v \<and> xs \<noteq> []"
  by (auto simp: parse_rule_list_def named_items_def case_prod_beta Let_def set_rule_items
      split: option.splits json.splits if_splits)

lemma parse_rule_clean: "rule_clean (fst (parse_rule_list path v))"
proof (cases "fst (parse_rule_list path v)")
  case (RL_List xs)
  then show ?thesis using parse_rule_means(2) [OF RL_List]
    by (auto simp: rule_clean_def item_clean_def named_items_def split: option.splits json.splits)
qed (simp_all add: rule_clean_def)

lemma rule_items_sorted: "fst (rule_items path items) = sorted_list_of_set (set (fst (rule_items path items)))"
proof -
  have "bt_inv (bt_collect (List.map (\<lambda>s. (s, ())) xs))" for xs :: "string list" by (rule bt_inv_collect)
  then have "sorted (fst (rule_items path items)) \<and> distinct (fst (rule_items path items))"
    by (simp add: rule_items_def Let_def bt_inv_def bt_keys_def strict_sorted_iff)
  then show ?thesis by (metis sorted_list_of_set.idem_if_sorted_distinct)
qed

lemma written_items: "{str_trim s | s. J_String s \<in> J_String ` set xs \<and> str_trim s \<noteq> []} = str_trim ` set xs - {[]}"
  by auto

lemma parse_rule_written:
  "fst (parse_rule_list path (Some (rule_list_to_json r))) = normal_rule r"
  "has_errors (snd (parse_rule_list path (Some (rule_list_to_json r)))) \<longleftrightarrow> blank_item r"
proof -
  show "has_errors (snd (parse_rule_list path (Some (rule_list_to_json r)))) \<longleftrightarrow> blank_item r"
    by (auto simp: parse_rule_errors rule_doc_ok_def rule_list_to_json_def blank_item_def split: rule_list.split)
  show "fst (parse_rule_list path (Some (rule_list_to_json r))) = normal_rule r"
  proof (cases r)
    case (RL_List xs)
    have "fst (rule_items path (List.map J_String xs)) = sorted_list_of_set (str_trim ` set xs - {[]})"
      using rule_items_sorted [of path "List.map J_String xs"] by (simp add: set_rule_items written_items)
    then show ?thesis
      by (simp add: RL_List rule_list_to_json_def parse_rule_list_def case_prod_beta normal_rule_def Let_def)
  qed (simp_all add: rule_list_to_json_def parse_rule_list_def normal_rule_def)
qed

lemma normal_rule_same: "rule_clean r \<Longrightarrow> same_rule (normal_rule r) r"
proof (cases r)
  case (RL_List xs)
  assume "rule_clean r"
  then have c: "xs \<noteq> []" "\<forall>x \<in> set xs. item_clean x" by (auto simp: RL_List rule_clean_def)
  then have "str_trim ` set xs - {[]} = set xs" by (force simp: item_clean_def)
  moreover have "sorted_list_of_set (set xs) \<noteq> []"
    using c(1) by (metis List.finite_set set_empty set_sorted_list_of_set)
  ultimately show ?thesis by (simp add: RL_List normal_rule_def same_rule_def Let_def)
qed (simp_all add: normal_rule_def same_rule_def)

lemma normal_policy_same: "policy_clean p \<Longrightarrow> same_policy (normal_policy p) p \<and> \<not> blank_items p"
proof -
  assume p: "policy_clean p"
  have "\<not> blank_item r" if "rule_clean r" for r
    using that by (auto simp: blank_item_def rule_clean_def item_clean_def split: rule_list.splits)
  then have "\<not> blank_items p" using p by (auto simp: blank_items_def policy_clean_def)
  then show ?thesis
    using p normal_rule_same
    by (simp add: policy_clean_def same_policy_def same_scope_def scope_rules_def normal_policy_def normal_scope_def)
qed

lemma scope_entry:
  "bt_get (bt_collect [(''read'', r1), (''write'', r2), (''net'', r3), (''env'', r4), (''run'', r5),
      (''db'', r6), (''wasm'', r7), (''dynamic'', r8)]) k =
    map_of [(''read'', r1), (''write'', r2), (''net'', r3), (''env'', r4), (''run'', r5),
      (''db'', r6), (''wasm'', r7), (''dynamic'', r8)] k"
  by (simp add: bt_collect_def bt_get_def)

lemma bt_keys_collect: "set (bt_keys (bt_collect ps)) = set (List.map fst ps)"
  by (simp add: bt_collect_def bt_keys_extend bt_keys_def [of "[]"])

lemma parse_scope_written:
  "fst (parse_scope path (scope_to_json s)) = normal_scope s"
  "has_errors (snd (parse_scope path (scope_to_json s))) \<longleftrightarrow> (\<exists>r \<in> set (scope_rules s). blank_item r)"
proof -
  have w: "concat (List.map (unknown_scope_key path) ks) = []" if "set ks \<subseteq> set known_capability_keys" for ks
    using that by (induction ks) (auto simp: unknown_scope_key_def)
  have u: "concat (List.map (unknown_scope_key path) (bt_keys (bt_collect
     [(''read'', rule_list_to_json (sc_read s)), (''write'', rule_list_to_json (sc_write s)),
      (''net'', rule_list_to_json (sc_net s)), (''env'', rule_list_to_json (sc_env s)),
      (''run'', rule_list_to_json (sc_run s)), (''db'', rule_list_to_json (sc_db s)),
      (''wasm'', rule_list_to_json (sc_wasm s)), (''dynamic'', J_Bool (sc_dynamic s))]))) = []"
    by (rule w) (simp add: bt_keys_collect known_capability_keys_def)
  show "fst (parse_scope path (scope_to_json s)) = normal_scope s"
    by (simp add: parse_scope_def scope_to_json_def u scope_entry Let_def normal_scope_def parse_rule_written parse_switch_def)
  show "has_errors (snd (parse_scope path (scope_to_json s))) \<longleftrightarrow> (\<exists>r \<in> set (scope_rules s). blank_item r)"
    by (simp add: parse_scope_def scope_to_json_def u scope_entry Let_def scope_rules_def parse_rule_written parse_switch_def)
qed

lemma parse_written:
  "fst (parse_deka_security_policy (policy_to_json p)) = normal_policy p"
  "has_errors (snd (parse_deka_security_policy (policy_to_json p))) \<longleftrightarrow> blank_items p"
proof -
  have w: "concat (List.map unknown_security_key ks) = []" if "set ks \<subseteq> {''allow'', ''deny'', ''prompt''}" for ks
    using that by (induction ks) (auto simp: unknown_security_key_def)
  have u: "concat (List.map unknown_security_key (bt_keys (bt_collect
     [(''allow'', scope_to_json (pol_allow p)), (''deny'', scope_to_json (pol_deny p)),
      (''prompt'', J_Bool (pol_prompt p))]))) = []"
    by (rule w) (simp add: bt_keys_collect)
  have g: "bt_get (bt_collect [(''allow'', a), (''deny'', d), (''prompt'', q)]) k =
      map_of [(''allow'', a), (''deny'', d), (''prompt'', q)] k"
    "bt_get (bt_collect [(''security'', a)]) k = map_of [(''security'', a)] k" for a d q :: json and k
    by (simp_all add: bt_collect_def bt_get_def)
  show "fst (parse_deka_security_policy (policy_to_json p)) = normal_policy p"
    by (simp add: parse_deka_security_policy_def policy_to_json_def u g Let_def normal_policy_def parse_scope_written
        optional_scope_def parse_switch_def apply_legacy_permissions_def)
  show "has_errors (snd (parse_deka_security_policy (policy_to_json p))) \<longleftrightarrow> blank_items p"
    by (simp add: parse_deka_security_policy_def policy_to_json_def u g Let_def blank_items_def parse_scope_written bex_Un
        optional_scope_def parse_switch_def apply_legacy_permissions_def)
qed

text \<open>Every policy the program builds is clean.\<close>

lemma default_clean: "policy_clean default_policy"
proof -
  have "item_clean ''deka''" by code_simp
  then show ?thesis by (simp add: policy_clean_def default_policy_def default_scope_def scope_rules_def rule_clean_def)
qed

lemma parse_scope_clean: "r \<in> set (scope_rules (fst (parse_scope path v))) \<Longrightarrow> rule_clean r"
  using parse_rule_clean
  by (cases v) (auto simp: parse_scope_def scope_rules_def Let_def default_scope_def rule_clean_def [of RL_None])

lemma legacy_rule_clean: "rule_clean r \<Longrightarrow> rule_clean (fst (legacy_rule r path v))"
  using parse_rule_clean by (simp add: legacy_rule_def)

lemma apply_legacy_clean: "policy_clean p \<Longrightarrow> policy_clean (fst (apply_legacy_permissions obj p))"
  using legacy_rule_clean
  by (auto simp: apply_legacy_permissions_def policy_clean_def scope_rules_def Let_def split: option.splits json.splits)

lemma parse_clean: "policy_clean (fst (parse_deka_security_policy root))"
proof -
  have "r \<in> set (scope_rules (fst (optional_scope path s v))) \<Longrightarrow> (\<forall>r \<in> set (scope_rules s). rule_clean r) \<Longrightarrow> rule_clean r"
    for r path s v
    using parse_scope_clean by (auto simp: optional_scope_def split: option.splits)
  moreover have "\<forall>r \<in> set (scope_rules (pol_allow default_policy)). rule_clean r"
      "\<forall>r \<in> set (scope_rules (pol_deny default_policy)). rule_clean r"
    using default_clean by (auto simp: policy_clean_def)
  ultimately have "policy_clean \<lparr>pol_allow = fst (optional_scope q1 (pol_allow default_policy) a),
      pol_deny = fst (optional_scope q2 (pol_deny default_policy) d), pol_prompt = b\<rparr>" for q1 q2 a d b
    by (auto simp: policy_clean_def)
  then show ?thesis
    using default_clean apply_legacy_clean
    by (auto simp: parse_deka_security_policy_def Let_def split: json.splits option.splits)
qed

lemma csv_clean: "x \<in> set (csv_list params k) \<Longrightarrow> item_clean x"
  by (auto simp: csv_list_def item_clean_def split: option.splits)

lemma apply_rule_clean: "rule_clean r \<Longrightarrow> (\<And>x. x \<in> set xs \<Longrightarrow> item_clean x) \<Longrightarrow> rule_clean (apply_rule r b xs)"
  by (simp add: apply_rule_def rule_clean_def split: rule_list.splits)

lemma merge_clean:
  assumes "policy_clean p"
  shows "policy_clean (merge_policy_with_cli_manifest_net_env p (from_flags_and_params flags params))"
    and "policy_clean (merge_policy_with_cli p (from_flags_and_params flags params))"
  using assms apply_rule_clean csv_clean
  by (auto simp: policy_clean_def merge_policy_with_cli_manifest_net_env_def merge_policy_with_cli_def Let_def
      scope_rules_def allow_everything_def from_flags_and_params_def rule_clean_def [of RL_All])


lemma merged_written:
  assumes "m = merge_policy_with_cli_manifest_net_env (fst (parse_deka_security_policy root)) (from_flags_and_params flags params)"
  shows "\<not> has_errors (snd (parse_deka_security_policy (policy_to_json m)))"
    and "same_policy (fst (parse_deka_security_policy (policy_to_json m))) m"
  using normal_policy_same [OF merge_clean(1) [OF parse_clean]] by (simp_all add: assms parse_written)

text \<open>
  C26. A policy written as a document and read again is the policy in normal form: the items of
  each rule trimmed, sorted, once each and without blank ones, the switches and the prompt
  unchanged; and the reading reports an error exactly when an item was blank. So the policy a command
  resolves reaches enforcement: for every manifest and all flags, the merged policy is read back
  without an error and has the same items in every rule.
\<close>

theorem policy_transport:
  "fst (parse_deka_security_policy (policy_to_json p)) = normal_policy p \<and>
   (has_errors (snd (parse_deka_security_policy (policy_to_json p))) \<longleftrightarrow> blank_items p) \<and>
   (let m = merge_policy_with_cli_manifest_net_env (fst (parse_deka_security_policy root)) (from_flags_and_params flags params)
    in \<not> has_errors (snd (parse_deka_security_policy (policy_to_json m))) \<and>
       same_policy (fst (parse_deka_security_policy (policy_to_json m))) m)"
  using merged_written by (simp add: parse_written(1,2) [of p] Let_def)

section \<open>What a manifest is accepted for, and what it grants\<close>

definition switch_ok :: "json option \<Rightarrow> bool" where
  "switch_ok v = (case v of None \<Rightarrow> True | Some (J_Bool b) \<Rightarrow> True | _ \<Rightarrow> False)"

definition rule_keys :: "string list" where
  "rule_keys = [''read'', ''write'', ''net'', ''env'', ''run'', ''db'', ''wasm'']"

definition scope_doc_ok :: "json option \<Rightarrow> bool" where
  "scope_doc_ok v =
     (case v of
        None \<Rightarrow> True
      | Some (J_Object obj) \<Rightarrow>
          set (bt_keys obj) \<subseteq> set known_capability_keys \<and> (\<forall>k \<in> set rule_keys. rule_doc_ok (bt_get obj k)) \<and>
          switch_ok (bt_get obj ''dynamic'')
      | _ \<Rightarrow> False)"

text \<open>The parts of the legacy block: which scope and rule, and where it is written.\<close>

definition legacy_rules :: "policy \<Rightarrow> (rule_list \<times> string \<times> string) list" where
  "legacy_rules p =
     [(sc_read (pol_allow p), ''fs'', ''read''), (sc_write (pol_allow p), ''fs'', ''write''),
      (sc_net (pol_allow p), ''net'', ''allow''), (sc_net (pol_deny p), ''net'', ''deny''),
      (sc_env (pol_allow p), ''env'', ''allow''), (sc_env (pol_deny p), ''env'', ''deny'')]"

definition legacy_doc_ok :: "(string, json) btree \<Rightarrow> policy \<Rightarrow> bool" where
  "legacy_doc_ok obj p =
     (case bt_get obj ''permissions'' of
        Some (J_Object perms) \<Rightarrow>
          (\<forall>(r, a, b) \<in> set (legacy_rules p). r = RL_None \<longrightarrow> rule_doc_ok (nested_get perms a b))
      | _ \<Rightarrow> True)"

lemma parse_switch_errors: "has_errors (snd (parse_switch c path m b v)) \<longleftrightarrow> \<not> switch_ok v"
  by (auto simp: parse_switch_def switch_ok_def split: option.splits json.splits)

lemma parse_scope_errors: "has_errors (snd (optional_scope path s v)) \<longleftrightarrow> \<not> scope_doc_ok v"
proof -
  have "has_errors (concat (List.map (unknown_scope_key path) ks)) \<longleftrightarrow> \<not> set ks \<subseteq> set known_capability_keys" for path ks
    by (induction ks) (auto simp: unknown_scope_key_def)
  then show ?thesis
    by (auto simp: optional_scope_def parse_scope_def scope_doc_ok_def Let_def parse_rule_errors parse_switch_errors
        rule_keys_def split: option.splits json.splits)
qed

lemma legacy_errors: "has_errors (snd (apply_legacy_permissions obj p)) \<longleftrightarrow> \<not> legacy_doc_ok obj p"
proof -
  have "has_errors (snd (legacy_rule r path v)) \<longleftrightarrow> r = RL_None \<and> \<not> rule_doc_ok v" for r path v
    by (simp add: legacy_rule_def parse_rule_errors)
  then show ?thesis
    by (auto simp: apply_legacy_permissions_def legacy_doc_ok_def legacy_rules_def Let_def split: option.splits json.splits)
qed

definition security_rules :: "(string, json) btree \<Rightarrow> policy" where
  "security_rules sec =
     \<lparr>pol_allow = fst (optional_scope ''$.security.allow'' (pol_allow default_policy) (bt_get sec ''allow'')),
      pol_deny = fst (optional_scope ''$.security.deny'' (pol_deny default_policy) (bt_get sec ''deny'')),
      pol_prompt = fst (parse_switch ''SECURITY_POLICY_INVALID_PROMPT'' ''$.security.prompt''
                     ''Expected boolean for `prompt`'' (pol_prompt default_policy) (bt_get sec ''prompt''))\<rparr>"

definition policy_doc_ok :: "json \<Rightarrow> bool" where
  "policy_doc_ok root =
     (case root of
        J_Object obj \<Rightarrow>
          (case bt_get obj ''security'' of
             None \<Rightarrow> legacy_doc_ok obj default_policy
           | Some (J_Object sec) \<Rightarrow>
               scope_doc_ok (bt_get sec ''allow'') \<and> scope_doc_ok (bt_get sec ''deny'') \<and>
               switch_ok (bt_get sec ''prompt'') \<and> legacy_doc_ok obj (security_rules sec)
           | Some _ \<Rightarrow> False)
      | _ \<Rightarrow> False)"

text \<open>
  C27. A manifest is refused exactly when it is malformed: a document that is no object, a
  scope with an unknown capability, a rule that is neither a switch nor a text nor a list of
  texts, a blank item, a switch that is no boolean. Nothing else makes an error, and every
  one of these does.
\<close>

theorem policy_errors_exact:
  "has_errors (snd (parse_deka_security_policy root)) \<longleftrightarrow> \<not> policy_doc_ok root"
proof -
  have "has_errors (concat (List.map unknown_security_key ks)) = False" for ks
    by (induction ks) (auto simp: unknown_security_key_def)
  then show ?thesis
    by (auto simp: parse_deka_security_policy_def policy_doc_ok_def security_rules_def Let_def parse_scope_errors
        parse_switch_errors legacy_errors split: json.splits option.splits)
qed

end
