(* ===== verification/SecEnforceProps.thy ===== *)
theory SecEnforceProps
  imports SecEnforce SecPolicyProps
begin

text \<open>
  Properties of enforcement: the gate opens exactly for what the rules allow or the user
  grants, a denial reaches the script unchanged, a network grant can only come from the
  manifest or an explicit flag, a path has the same answer before and after it is created,
  and an approved prompt is what the manifest grants from then on.
\<close>

section \<open>The gate\<close>

definition user_grants :: "os \<Rightarrow> prompts \<Rightarrow> string \<Rightarrow> string option \<Rightarrow> bool" where
  "user_grants w st capability target \<longleftrightarrow>
     prompt_scope_key w capability target \<in> set (pr_grants st) \<or>
     (\<exists>line. os_line w = Inr line \<and> ascii_lowercase (str_trim line) \<in> {''y'', ''yes''})"

definition denial_doc :: "string \<Rightarrow> string \<Rightarrow> json" where
  "denial_doc c t = J_Object [(''capability'', J_String c), (''target'', J_String t)]"

lemma pd_roundtrip:
  assumes "read (print (denial_doc c t)) = Inr (denial_doc c t)"
  shows "pd_decode read (pd_encode print \<lparr>pd_capability = c, pd_target = t\<rparr>) = Some \<lparr>pd_capability = c, pd_target = t\<rparr>"
  using assms by (simp add: pd_decode_def pd_encode_def denial_doc_def pd_of_json_def bt_get_def)

lemma prompt_grant_run:
  "prompt_grant w c t st = (r, st') \<Longrightarrow>
   (r = Ok True \<longleftrightarrow> user_grants w st c t) \<and>
   (\<forall>m. r = Err m \<longrightarrow> (\<exists>e. os_line w = Inl e \<and> m = ''security prompt failed: '' @ e)) \<and> (\<forall>q. r \<noteq> Panic q)"
  by (auto simp: prompt_grant_def user_grants_def Let_def split: if_splits sum.splits)

text \<open>
  C28. The gate of a capability lets a request pass exactly when no rule denies it and either
  a rule allows it or, where a prompt is possible, the user has granted its scope or grants
  it now: a denial wins over every grant and over the prompt, and nothing is granted by
  default. A refusal carries the capability and the target, and the script reads back exactly
  those. The texts of the document of a denial are read as they were printed.
\<close>

theorem gate_exact:
  assumes "security_policy_from_context read current = Ok p"
    and "\<And>c t. read (print (denial_doc c t)) = Inr (denial_doc c t)"
    and "enforce print read w current capability sel target st = (r, st')"
  shows "(r = Ok () \<longleftrightarrow> \<not> rule_denies w capability (sel (pol_deny p)) target \<and>
      (rule_allows w capability (sel (pol_allow p)) target \<or>
       prompt_enabled w current \<and> user_grants w st capability target)) \<and>
    (\<forall>m. r = Err m \<longrightarrow>
       pd_decode read m = Some \<lparr>pd_capability = capability, pd_target = (case target of Some t \<Rightarrow> t | None \<Rightarrow> ''*'')\<rparr> \<or>
       (\<exists>e. prompt_enabled w current \<and> os_line w = Inl e \<and> m = ''security prompt failed: '' @ e))"
proof -
  have run: "enforce_scope print w current capability (sel (pol_allow p)) (sel (pol_deny p)) target st = (r, st')"
    using assms(1,3) by (simp add: enforce_def bind_def lift_res_def)
  have dec: "pd_decode read (permission_denied_err print capability target) =
      Some \<lparr>pd_capability = capability, pd_target = (case target of Some t \<Rightarrow> t | None \<Rightarrow> ''*'')\<rparr>"
    unfolding permission_denied_err_def by (rule pd_roundtrip) (rule assms(2))
  obtain r1 s1 where g: "prompt_grant w capability target st = (r1, s1)" by fastforce
  note G = prompt_grant_run [OF g]
  show ?thesis
    using run dec G g
    by (cases r1) (auto simp: enforce_scope_def bind_def ret_def fail_def split: if_splits)
qed

definition os_plain :: os where
  "os_plain = \<lparr>os_cwd = Some ''/'', os_canonical = (\<lambda>s. Some (comps s)), os_module_root = None,
     os_handler_path = None, os_terminals = False, os_line = Inl ''no input''\<rparr>"

text \<open>A printer of denials and a reader of them and of one policy, for the examples.\<close>

definition mini_print :: "json \<Rightarrow> string" where
  "mini_print j =
     (case j of
        J_Object [(_, J_String c), (_, J_String t)] \<Rightarrow> replicate (length c) (CHR ''x'') @ '':'' @ c @ t
      | _ \<Rightarrow> ''P'')"

definition mini_policy :: json where
  "mini_policy = J_Object [(''security'', J_Object [
     (''allow'', J_Object [(''net'', J_Array [J_String ''*.deka.dev''])]),
     (''deny'', J_Object [(''net'', J_Array [J_String ''x.deka.dev''])])])]"

definition mini_read :: "string \<Rightarrow> string + json" where
  "mini_read s =
     (if s = ''P'' then Inr mini_policy
      else let n = length (takeWhile (\<lambda>c. c = CHR ''x'') s); rest = drop (Suc n) s
           in Inr (denial_doc (take n rest) (drop n rest)))"

lemma mini_read_print: "mini_read (mini_print (denial_doc c t)) = Inr (denial_doc c t)"
proof -
  have "takeWhile (\<lambda>c. c = CHR ''x'') (replicate n (CHR ''x'') @ CHR '':'' # s) = replicate n (CHR ''x'')" for n s
    by (induction n) auto
  moreover have "replicate (length c) (CHR ''x'') @ CHR '':'' # c @ t \<noteq> ''P''" by (cases c) auto
  ultimately show ?thesis by (simp add: mini_read_def mini_print_def denial_doc_def)
qed

definition mini_context :: "security_context option" where
  "mini_context = Some \<lparr>ctx_policy_json = Some ''P'', ctx_no_prompt = True\<rparr>"

definition mini_sec :: policy where
  "mini_sec = \<lparr>pol_allow = default_scope\<lparr>sc_net := RL_List [''*.deka.dev'']\<rparr>,
     pol_deny = default_scope\<lparr>sc_net := RL_List [''x.deka.dev'']\<rparr>, pol_prompt = True\<rparr>"

lemma mini_policy_parsed: "security_policy_from_context mini_read mini_context = Ok mini_sec"
proof -
  have "parse_deka_security_policy mini_policy = (mini_sec, [])" by code_simp
  then show ?thesis
    by (simp add: security_policy_from_context_def mini_context_def context_policy_json_def
        security_policy_from_json_str_def mini_read_def)
qed

lemma gate_exact_witness:
  "fst (enforce mini_print mini_read os_plain mini_context ''net'' sc_net (Some ''api.deka.dev'')
     \<lparr>pr_grants = [], pr_updates = []\<rparr>) = Ok ()"
proof -
  obtain r st' where run: "enforce mini_print mini_read os_plain mini_context ''net'' sc_net (Some ''api.deka.dev'')
     \<lparr>pr_grants = [], pr_updates = []\<rparr> = (r, st')" by fastforce
  have "\<not> rule_denies os_plain ''net'' (sc_net (pol_deny mini_sec)) (Some ''api.deka.dev'') \<and>
      rule_allows os_plain ''net'' (sc_net (pol_allow mini_sec)) (Some ''api.deka.dev'')"
    by code_simp
  then have "r = Ok ()" using gate_exact [OF mini_policy_parsed mini_read_print run] by simp
  then show ?thesis using run by simp
qed


section \<open>What a network grant rests on\<close>

text \<open>The value of a rule in the manifest, in the security block and in the legacy one.\<close>

definition manifest_get :: "json \<Rightarrow> string list \<Rightarrow> json option" where
  "manifest_get root path = foldl (\<lambda>j k. case j of None \<Rightarrow> None | Some x \<Rightarrow> json_get x k) (Some root) path"

abbreviation manifest_net :: "json \<Rightarrow> json option" where
  "manifest_net root \<equiv> manifest_get root [''security'', ''allow'', ''net'']"

abbreviation legacy_net :: "json \<Rightarrow> json option" where
  "legacy_net root \<equiv> manifest_get root [''permissions'', ''net'', ''allow'']"

lemma manifest_get_simps [simp]:
  "manifest_get j [k] = json_get j k"
  "manifest_get j (k # l # ks) = (case json_get j k of None \<Rightarrow> None | Some x \<Rightarrow> manifest_get x (l # ks))"
proof -
  have "foldl (\<lambda>j k. case j of None \<Rightarrow> None | Some x \<Rightarrow> json_get x k) None ks = None" for ks :: "string list"
    by (induction ks) simp_all
  then show "manifest_get j [k] = json_get j k"
    "manifest_get j (k # l # ks) = (case json_get j k of None \<Rightarrow> None | Some x \<Rightarrow> manifest_get x (l # ks))"
    by (simp_all add: manifest_get_def split: option.split)
qed

lemma legacy_allow_net:
  assumes "sc_net (pol_allow (fst (apply_legacy_permissions obj p))) = r"
  shows "r = sc_net (pol_allow p) \<or> (\<exists>path. r = fst (parse_rule_list path (manifest_get (J_Object obj) [''permissions'', ''net'', ''allow''])))"
  using assms
  by (auto simp: apply_legacy_permissions_def legacy_rule_def nested_get_def Let_def json_get_def
      split: option.splits json.splits if_splits)

lemma parse_allow_net:
  "sc_net (pol_allow (fst (parse_deka_security_policy root))) = RL_None \<or>
   (\<exists>path v. (v = manifest_net root \<or> v = legacy_net root) \<and>
      sc_net (pol_allow (fst (parse_deka_security_policy root))) = fst (parse_rule_list path v))"
proof (cases root)
  case (J_Object obj)
  have scope: "sc_net (fst (optional_scope path (pol_allow default_policy) v)) = RL_None \<or>
      (\<exists>m. v = Some (J_Object m) \<and>
        sc_net (fst (optional_scope path (pol_allow default_policy) v)) = fst (parse_rule_list (path @ ''.net'') (bt_get m ''net'')))"
    for path v
    by (auto simp: optional_scope_def parse_scope_def default_policy_def default_scope_def Let_def
        split: option.splits json.splits)
  show ?thesis
  proof (cases "bt_get obj ''security''")
    case None
    have "fst (parse_deka_security_policy root) = fst (apply_legacy_permissions obj default_policy)"
      by (simp add: J_Object parse_deka_security_policy_def None)
    then show ?thesis using legacy_allow_net [OF refl, of obj default_policy]
      by (auto simp: J_Object default_policy_def default_scope_def)
  next
    case (Some sec)
    show ?thesis
    proof (cases "\<exists>m. sec = J_Object m")
      case True
      then obtain m where m: "sec = J_Object m" ..
      define q where "q = security_rules m"
      have p: "fst (parse_deka_security_policy root) = fst (apply_legacy_permissions obj q)"
        by (simp add: J_Object parse_deka_security_policy_def Some m Let_def q_def security_rules_def)
      have a: "sc_net (pol_allow q) = RL_None \<or> (\<exists>path. sc_net (pol_allow q) = fst (parse_rule_list path (manifest_net root)))"
      proof (rule disjE [OF scope [of "''$.security.allow''" "bt_get m ''allow''"]])
        assume "\<exists>n. bt_get m ''allow'' = Some (json.J_Object n) \<and>
          sc_net (fst (optional_scope ''$.security.allow'' (pol_allow default_policy) (bt_get m ''allow''))) =
          fst (parse_rule_list (''$.security.allow'' @ ''.net'') (bt_get n ''net''))"
        then obtain n where n: "bt_get m ''allow'' = Some (json.J_Object n)"
          "sc_net (pol_allow q) = fst (parse_rule_list (''$.security.allow'' @ ''.net'') (bt_get n ''net''))"
          by (auto simp: q_def security_rules_def)
        have "manifest_net root = bt_get n ''net''" by (simp add: J_Object json_get_def Some m n(1))
        then show ?thesis using n(2) by metis
      qed (simp add: q_def security_rules_def)
      define x where "x = sc_net (pol_allow (fst (parse_deka_security_policy root)))"
      have "x = sc_net (pol_allow q) \<or> (\<exists>path. x = fst (parse_rule_list path (legacy_net root)))"
        unfolding x_def p unfolding J_Object by (rule legacy_allow_net [OF refl])
      then show ?thesis unfolding x_def [symmetric] using a by blast
    next
      case False
      then have "fst (parse_deka_security_policy root) = default_policy"
        using Some by (auto simp: J_Object parse_deka_security_policy_def split: json.splits)
      then show ?thesis by (simp add: default_policy_def default_scope_def)
    qed
  qed
qed (simp_all add: parse_deka_security_policy_def default_policy_def default_scope_def)

definition resolved_policy :: "json \<Rightarrow> (string \<rightharpoonup> bool) \<Rightarrow> (string \<rightharpoonup> string) \<Rightarrow> policy" where
  "resolved_policy root flags params =
     merge_policy_with_cli_manifest_net_env (fst (parse_deka_security_policy root)) (from_flags_and_params flags params)"

lemma merged_allow_net:
  "sc_net (pol_allow (resolved_policy root flags params)) =
     (if csv_list params ''--allow-net'' \<noteq> [] then RL_List (csv_list params ''--allow-net'')
      else sc_net (pol_allow (fst (parse_deka_security_policy root))))"
  by (simp add: resolved_policy_def merge_policy_with_cli_manifest_net_env_def merge_policy_with_cli_def Let_def
      from_flags_and_params_def apply_rule_def)

lemma same_policy_net: "same_policy p q \<Longrightarrow> same_rule (sc_net (pol_allow p)) (sc_net (pol_allow q))"
  by (simp add: same_policy_def same_scope_def scope_rules_def)

text \<open>
  C29. From the command line to the gate, over every component in between: a request to a host
  passes only if the manifest says \<open>true\<close> for the network, or a rule matches the host that is
  written in the manifest or in an explicit \<open>--allow-net=\<close> list, or the user, where a prompt is
  possible, has approved it now or earlier in this process. No bare flag, \<open>--allow-all\<close> included,
  opens the network. The policy travels in the context as a text that reads as the document of
  the merged policy.
\<close>

theorem net_needs_rule:
  assumes "context_policy_json current = Some t" and "read t = Inr (policy_to_json (resolved_policy root flags params))"
    and "enforce_net print read w current (Some host) st = (Ok (), st')"
  shows "manifest_net root = Some (J_Bool True) \<or> legacy_net root = Some (J_Bool True) \<or>
    (\<exists>item. match_rule_item w ''net'' item host \<and>
       (item \<in> named_items (manifest_net root) \<or> item \<in> named_items (legacy_net root) \<or>
        item \<in> set (csv_list params ''--allow-net''))) \<or>
    (prompt_enabled w current \<and> fst (prompt_grant w ''net'' (Some host) st) = Ok True)"
proof -
  let ?p = "resolved_policy root flags params"
  let ?r = "sc_net (pol_allow (fst (parse_deka_security_policy root)))"
  obtain q ds where q: "parse_deka_security_policy (policy_to_json ?p) = (q, ds)" by fastforce
  have t: "\<not> has_errors ds" "same_policy q ?p"
    using merged_written [OF resolved_policy_def, of root flags params] q by simp_all
  have ctx: "security_policy_from_context read current = Ok q"
    by (simp add: security_policy_from_context_def assms(1,2) security_policy_from_json_str_def q t(1))
  have all: "rule_allows w ''net'' (sc_net (pol_allow q)) (Some host) \<or>
      (prompt_enabled w current \<and> fst (prompt_grant w ''net'' (Some host) st) = Ok True)"
    using assms(3)
    by (auto simp: enforce_net_def enforce_def enforce_scope_def bind_def lift_res_def ctx fail_def ret_def
        split: if_splits prod.splits res.splits)
  have same: "rule_allows w ''net'' (sc_net (pol_allow ?p)) (Some host)" if "rule_allows w ''net'' (sc_net (pol_allow q)) (Some host)"
    using that same_policy_net [OF t(2)]
    by (auto simp: same_rule_def rule_allows_def list_ex_iff split: rule_list.splits)
  from all consider (prompt) "prompt_enabled w current \<and> fst (prompt_grant w ''net'' (Some host) st) = Ok True" | (list) "\<exists>item \<in> set (csv_list params ''--allow-net''). match_rule_item w ''net'' item host"
    | (rule) "rule_allows w ''net'' ?r (Some host)"
    using same by (auto simp: merged_allow_net rule_allows_def list_ex_iff split: if_splits)
  then show ?thesis
  proof cases
    case rule
    then obtain path v where v: "v = manifest_net root \<or> v = legacy_net root" "?r = fst (parse_rule_list path v)"
      using parse_allow_net [of root] by (auto simp: rule_allows_def)
    show ?thesis
    proof (cases ?r)
      case RL_All
      then show ?thesis using v parse_rule_means(1) [of path v] by auto
    next
      case (RL_List xs)
      then have "set xs = named_items v" using v(2) parse_rule_means(2) [of path v xs] by simp
      then show ?thesis using rule v(1) RL_List by (auto simp: rule_allows_def list_ex_iff)
    qed (use rule in \<open>simp add: rule_allows_def\<close>)
  qed auto
qed

text \<open>A manifest that names one host, its policy in the context, and a machine without a prompt.\<close>

lemma net_needs_rule_witness:
  "\<exists>item. match_rule_item os_plain ''net'' item ''api.deka.dev'' \<and> item \<in> named_items (manifest_net mini_policy)"
proof -
  define doc where "doc = policy_to_json (resolved_policy mini_policy (\<lambda>_. None) (\<lambda>_. None))"
  define rd where "rd = (\<lambda>s. if s = ''Q'' then Inr doc else (Inl ''?'' :: string + json))"
  define cur where "cur = Some \<lparr>ctx_policy_json = Some ''Q'', ctx_no_prompt = True\<rparr>"
  define q where "q = fst (parse_deka_security_policy doc)"
  have ok: "\<not> has_errors (snd (parse_deka_security_policy doc))"
    unfolding doc_def by (rule merged_written [OF resolved_policy_def])
  have e: "\<not> rule_denies os_plain ''net'' (sc_net (pol_deny q)) (Some ''api.deka.dev'') \<and>
      rule_allows os_plain ''net'' (sc_net (pol_allow q)) (Some ''api.deka.dev'')"
    unfolding q_def doc_def by code_simp
  have ctx: "security_policy_from_context rd cur = Ok q"
    using ok by (cases "parse_deka_security_policy doc") (simp add: security_policy_from_context_def cur_def
        context_policy_json_def rd_def security_policy_from_json_str_def q_def)
  have c: "context_policy_json cur = Some ''Q''" by (simp add: cur_def context_policy_json_def)
  have r: "rd ''Q'' = Inr (policy_to_json (resolved_policy mini_policy (\<lambda>_. None) (\<lambda>_. None)))"
    by (simp add: rd_def doc_def)
  have run: "enforce_net (\<lambda>_. ''Q'') rd os_plain cur (Some ''api.deka.dev'') \<lparr>pr_grants = [], pr_updates = []\<rparr> =
        (Ok (), \<lparr>pr_grants = [], pr_updates = []\<rparr>)"
    using e by (simp add: enforce_net_def enforce_def enforce_scope_def bind_def lift_res_def ctx ret_def)
  have "\<not> prompt_enabled os_plain cur" by (simp add: prompt_enabled_def cur_def context_no_prompt_def)
  moreover have "csv_list (\<lambda>_. None) ''--allow-net'' = []" by (simp add: csv_list_def)
  moreover have "manifest_net mini_policy \<noteq> Some (J_Bool True)" "legacy_net mini_policy = None" by code_simp+
  moreover have "named_items None = {}" by (simp add: named_items_def)
  ultimately show ?thesis using net_needs_rule [OF c r run] by auto
qed


section \<open>Paths that do not exist yet\<close>

text \<open>
  What creating directories and files, one below the other, changes of what the system
  answers: what existed keeps its canonical form, the root is its own, an entry that is new
  lies in its parent under its own name, and its parent exists.
\<close>

definition proper_name :: "string \<Rightarrow> bool" where
  "proper_name n \<longleftrightarrow> n \<noteq> [] \<and> n \<noteq> ''.'' \<and> n \<noteq> ''..'' \<and> CHR ''/'' \<notin> set n"

definition created :: "os \<Rightarrow> os \<Rightarrow> bool" where
  "created w w' \<longleftrightarrow> os_cwd w' = os_cwd w \<and>
     (\<forall>s q. os_canonical w s = Some q \<longrightarrow> os_canonical w' s = Some q) \<and>
     os_canonical w ''/'' = Some [C_Root] \<and>
     (\<forall>d n q. comps (path_text (d @ [C_Name n])) = d @ [C_Name n] \<longrightarrow>
        os_canonical w (path_text (d @ [C_Name n])) = None \<longrightarrow>
        os_canonical w' (path_text (d @ [C_Name n])) = Some q \<longrightarrow>
        (\<exists>c. os_canonical w' (path_text d) = Some c \<and> q = c @ [C_Name n]))"

text \<open>The place of a path: where it is, or where it would be created.\<close>

fun place :: "os \<Rightarrow> string list \<Rightarrow> comp list" where
  "place w [] = [C_Root]"
| "place w (n # ns) =
     (case os_canonical w (path_text (C_Root # List.map C_Name (rev (n # ns)))) of
        Some q \<Rightarrow> q
      | None \<Rightarrow> place w ns @ [C_Name n])"

lemma split_on_append: "c \<notin> set a \<Longrightarrow> split_on c (a @ c # b) = a # split_on c b"
  by (induction a) auto

lemma split_on_none: "c \<notin> set a \<Longrightarrow> split_on c a = [a]"
  by (induction a) auto

lemma split_on_join_names:
  "ns \<noteq> [] \<Longrightarrow> \<forall>n \<in> set ns. c \<notin> set n \<Longrightarrow> split_on c (join [c] ns) = ns"
proof (induction "[c]" ns rule: join.induct)
  case (2 x)
  then show ?case by (simp add: split_on_none)
next
  case (3 x y xs)
  then show ?case by (simp add: split_on_append)
qed simp

lemma comps_path_text:
  assumes "\<forall>n \<in> set ns. proper_name n"
  shows "comps (path_text (C_Root # List.map C_Name ns)) = C_Root # List.map C_Name ns"
proof -
  have t: "List.map comp_text (List.map C_Name ns) = ns" by (simp add: comp_text_def comp_def)
  have "body_comps (''/'' @ join ''/'' ns) = List.map C_Name ns"
  proof (cases "ns = []")
    case True
    then show ?thesis by (simp add: body_comps_def)
  next
    case False
    then have "split_on (CHR ''/'') (''/'' @ join ''/'' ns) = [] # ns"
      using assms split_on_join_names [OF False, of "CHR ''/''"] by (simp add: proper_name_def)
    moreover have "filter (\<lambda>p. p \<noteq> [] \<and> p \<noteq> ''.'') ns = ns" using assms by (simp add: proper_name_def filter_id_conv)
    ultimately show ?thesis using assms by (auto simp: body_comps_def proper_name_def)
  qed
  then show ?thesis by (simp add: path_text_def comps_def t starts_with_def del: List.map_map)
qed

lemma place_created: "created w w' \<Longrightarrow> \<forall>n \<in> set ns. proper_name n \<Longrightarrow> place w' ns = place w ns"
proof (induction ns)
  case (Cons n ns)
  let ?d = "C_Root # List.map C_Name (rev ns)"
  have IH: "place w' ns = place w ns" by (rule Cons.IH) (use Cons.prems in simp_all)
  note c = Cons.prems(1) [unfolded created_def]
  have p: "comps (path_text (?d @ [C_Name n])) = ?d @ [C_Name n]"
    using comps_path_text [of "rev (n # ns)"] Cons.prems(2) by simp
  show ?case
  proof (cases "os_canonical w (path_text (?d @ [C_Name n]))")
    case None
    show ?thesis
    proof (cases "os_canonical w' (path_text (?d @ [C_Name n]))")
      case (Some q)
      then obtain e where e: "os_canonical w' (path_text ?d) = Some e" "q = e @ [C_Name n]"
        using c None p by blast
      have "place w' ns = e"
      proof (cases ns)
        case Nil
        then have "os_canonical w' ''/'' = Some e" using e(1) by (simp add: path_text_def)
        then have "e = [C_Root]" using c by (metis option.inject)
        then show ?thesis using Nil by simp
      next
        case (Cons m ms)
        then show ?thesis using e(1) by simp
      qed
      then show ?thesis using IH None Some e(2) by simp
    qed (use IH None in simp)
  next
    case (Some q)
    then have "os_canonical w' (path_text (?d @ [C_Name n])) = Some q" using c by blast
    then show ?thesis using Some by simp
  qed
qed simp

lemma resolve_up_place:
  assumes "os_canonical w ''/'' = Some [C_Root]"
  shows "ns \<noteq> [] \<Longrightarrow> os_canonical w (path_text (C_Root # List.map C_Name (rev ns))) = None \<Longrightarrow>
    resolve_up w r (C_Root # List.map C_Name (rev ns)) ts = place w ns @ List.map C_Name ts"
proof (induction ns arbitrary: ts)
  case (Cons n ns)
  let ?d = "C_Root # List.map C_Name (rev ns)"
  have up: "path_parent (?d @ [C_Name n]) = Some ?d" "file_name (?d @ [C_Name n]) = Some n"
    by (simp_all add: path_parent_def file_name_def butlast_append)
  show ?case
  proof (cases "os_canonical w (path_text ?d)")
    case None
    then have "ns \<noteq> []" using assms by (auto simp: path_text_def)
    then show ?thesis using Cons.IH [of "n # ts"] None up Cons.prems(2) by (simp del: butlast.simps)
  next
    case (Some q)
    have "place w ns = q"
    proof (cases ns)
      case Nil
      then show ?thesis using Some assms by (simp add: path_text_def)
    qed (use Some in simp)
    then show ?thesis using Some up Cons.prems(2) by (simp del: butlast.simps)
  qed
qed simp

text \<open>An absolute path with no \<open>..\<close> in it.\<close>

definition plain_path :: "os \<Rightarrow> string \<Rightarrow> bool" where
  "plain_path w s \<longleftrightarrow> starts_with (resolved_text w s) ''/'' \<and> C_Par \<notin> set (comps (resolved_text w s))"

lemma plain_comps:
  assumes "plain_path w s"
  shows "\<exists>ns. comps (resolved_text w s) = C_Root # List.map C_Name (rev ns) \<and> (\<forall>n \<in> set ns. proper_name n)"
proof -
  let ?parts = "filter (\<lambda>p. p \<noteq> [] \<and> p \<noteq> ''.'') (split_on (CHR ''/'') (resolved_text w s))"
  have np: "''..'' \<notin> set ?parts"
  proof
    assume "''..'' \<in> set ?parts"
    then have "C_Par \<in> set (body_comps (resolved_text w s))" unfolding body_comps_def by force
    then show False using assms by (simp add: plain_path_def comps_def split: if_splits)
  qed
  have "body_comps (resolved_text w s) = List.map C_Name ?parts"
    unfolding body_comps_def by (rule List.map_cong [OF refl]) (use np in auto)
  moreover have "\<forall>n \<in> set ?parts. proper_name n" using np split_on_pieces by (auto simp: proper_name_def)
  ultimately have "comps (resolved_text w s) = C_Root # List.map C_Name (rev (rev ?parts)) \<and> (\<forall>n \<in> set (rev ?parts). proper_name n)"
    using assms by (simp add: plain_path_def comps_def)
  then show ?thesis by blast
qed

definition text_is_comps :: "os \<Rightarrow> string \<Rightarrow> bool" where
  "text_is_comps w s \<longleftrightarrow> os_canonical w (resolved_text w s) = os_canonical w (path_text (comps (resolved_text w s)))"

lemma normalize_place:
  assumes "plain_path w s" and "text_is_comps w s" and "os_canonical w ''/'' = Some [C_Root]"
  shows "\<exists>ns. comps (resolved_text w s) = C_Root # List.map C_Name (rev ns) \<and> (\<forall>n \<in> set ns. proper_name n) \<and>
    normalize_path w s = place w ns"
proof -
  obtain ns where ns: "comps (resolved_text w s) = C_Root # List.map C_Name (rev ns)" "\<forall>n \<in> set ns. proper_name n"
    using plain_comps [OF assms(1)] by blast
  have "normalize_path w s = place w ns"
  proof (cases "os_canonical w (path_text (C_Root # List.map C_Name (rev ns)))")
    case None
    then have "ns \<noteq> []" using assms(3) by (auto simp: path_text_def)
    then show ?thesis
      using None resolve_up_place [OF assms(3), of ns _ "[]"] assms(2) ns
      by (simp add: normalize_path_def text_is_comps_def Let_def del: resolve_up.simps)
  next
    case (Some q)
    have "place w ns = q"
    proof (cases ns)
      case Nil
      then show ?thesis using Some assms(3) by (simp add: path_text_def)
    qed (use Some in simp)
    then show ?thesis using Some assms(2) ns by (simp add: normalize_path_def text_is_comps_def Let_def)
  qed
  with ns show ?thesis by blast
qed


definition os_with :: "string list \<Rightarrow> os" where
  "os_with dirs = os_plain\<lparr>os_canonical := (\<lambda>s. if path_text (comps s) \<in> set dirs then Some (comps s) else None)\<rparr>"


text \<open>
  Where \<open>..\<close> stands behind a directory that does not exist yet, the path is compared as it was
  written: a grant for \<open>/p/out\<close> matches a path that \<open>create_dir_all\<close> resolves to \<open>/p/evil\<close>.
\<close>

theorem parent_parts_escape:
  "path_matches (os_with [''/'', ''/p'', ''/p/out'']) ''/p/out'' ''/p/out/new/../../evil/dir''"
  "\<not> path_matches (os_with [''/'', ''/p'', ''/p/out'']) ''/p/out'' ''/p/evil/dir''"
  by code_simp+


section \<open>Approved prompts\<close>

definition rule_of :: "string \<Rightarrow> scope \<Rightarrow> rule_list" where
  "rule_of capability s = the (map_of (zip rule_keys (scope_rules s)) capability)"

lemma set_add_items: "set (add_items xs is) = set xs \<union> set is"
  by (induction xs "is" rule: add_items.induct) auto

lemma parsed_rule_of:
  assumes "bt_get obj ''security'' = Some (J_Object sec)" and "bt_get sec ''allow'' = Some (J_Object allow)"
    and "k \<in> set rule_keys" and "fst (parse_rule_list (''$.security.allow.'' @ k) (bt_get allow k)) \<noteq> RL_None"
  shows "rule_of k (pol_allow (fst (parse_deka_security_policy (J_Object obj)))) =
    fst (parse_rule_list (''$.security.allow.'' @ k) (bt_get allow k))"
proof -
  define s where "s = fst (parse_scope ''$.security.allow'' (J_Object allow))"
  have s: "rule_of k s = fst (parse_rule_list (''$.security.allow.'' @ k) (bt_get allow k))"
    using assms(3) unfolding rule_keys_def list.set insert_iff empty_iff
    by (elim disjE) (simp_all add: s_def rule_of_def rule_keys_def scope_rules_def parse_scope_def Let_def)
  have p: "fst (parse_deka_security_policy (J_Object obj)) = fst (apply_legacy_permissions obj
      \<lparr>pol_allow = s, pol_deny = pol_deny (security_rules sec), pol_prompt = pol_prompt (security_rules sec)\<rparr>)"
    by (simp add: parse_deka_security_policy_def assms(1,2) Let_def s_def optional_scope_def security_rules_def)
  have "rule_of k (pol_allow (fst (apply_legacy_permissions obj q))) = rule_of k (pol_allow q)"
    if "rule_of k (pol_allow q) \<noteq> RL_None" for q
    using assms(3) that unfolding rule_keys_def list.set insert_iff empty_iff
    by (elim disjE) (simp_all add: rule_of_def rule_keys_def scope_rules_def apply_legacy_permissions_def
        legacy_rule_def Let_def split: option.splits json.splits)
  then show ?thesis using assms(4) s p by simp
qed

text \<open>
  An approved prompt lasts: when the manifest is updated for a request, the manifest that
  is written grants that request, whatever rule it had before. (For the capabilities whose
  rules are names: environment, network, programs, databases; and a plain name.)
\<close>

theorem approved_prompt_lasts:
  assumes "update_deka_json_allow w doc capability (Some target) = Ok doc'"
    and "capability \<in> {''net'', ''env'', ''run'', ''db''}"
    and "str_trim target = target" and "target \<noteq> []" and "\<not> starts_with target ''*.''"
  shows "rule_allows w' capability (rule_of capability (pol_allow (fst (parse_deka_security_policy doc')))) (Some target)"
proof -
  have k: "capability \<in> set rule_keys" using assms(2) by (auto simp: rule_keys_def)
  have items: "rule_items_for_request w capability target = [target]"
    using assms(2,3) by (auto simp: rule_items_for_request_def)
  obtain root where d: "doc = J_Object root" and upd: "allow_in_manifest doc capability [target] = Ok doc'"
    using assms(1,3,4) items
    by (cases doc) (auto simp: update_deka_json_allow_def allow_in_manifest_def Let_def split: if_splits)
  obtain sec allow where sec: "entry_object root ''security'' ''security must be an object'' = Ok sec"
      and allow: "entry_object sec ''allow'' ''security.allow must be an object'' = Ok allow"
    using upd by (auto simp: d allow_in_manifest_def res_bind_Ok_iff)
  show ?thesis
  proof (cases "bt_get allow capability = Some (J_Bool True)")
    case True
    have g: "bt_get root ''security'' = Some (J_Object sec)" "bt_get sec ''allow'' = Some (J_Object allow)"
      using sec allow True by (auto simp: entry_object_def split: option.splits json.splits)
    have "doc' = doc" using upd True by (simp add: d allow_in_manifest_def sec allow Let_def)
    then show ?thesis
      using parsed_rule_of [OF g k] True
      by (simp add: d rule_allows_def parse_rule_list_def)
  next
    case False
    then obtain old where d': "doc' = J_Object (bt_insert ''security'' (J_Object (bt_insert ''allow'' (J_Object
        (bt_insert capability (J_Array (List.map J_String (add_items old [target]))) allow)) sec)) root)"
      using upd by (auto simp: d allow_in_manifest_def sec allow Let_def res_bind_Ok_iff
          simp del: add_items.simps split: option.splits if_splits)
    let ?r = "fst (parse_rule_list (''$.security.allow.'' @ capability)
      (Some (J_Array (List.map J_String (add_items old [target])))))"
    have "target \<in> {str_trim s | s. J_String s \<in> J_String ` set (add_items old [target]) \<and> str_trim s \<noteq> []}"
      using assms(3,4) by (force simp: set_add_items)
    then have t: "target \<in> set (fst (rule_items (''$.security.allow.'' @ capability) (List.map J_String (add_items old [target]))))"
      by (simp add: set_rule_items)
    then have r: "\<exists>xs. ?r = RL_List xs \<and> target \<in> set xs" by (auto simp: parse_rule_list_def case_prod_beta)
    have "match_rule_item w' capability target target"
      using assms(2,5) by (auto simp: match_rule_item_def)
    then have "rule_allows w' capability ?r (Some target)" using r by (auto simp: rule_allows_def list_ex_iff)
    moreover have "rule_of capability (pol_allow (fst (parse_deka_security_policy doc'))) = ?r"
      unfolding d' by (subst parsed_rule_of [OF _ _ k]) (use r in auto)
    ultimately show ?thesis by simp
  qed
qed

lemma approved_prompt_lasts_witness:
  "\<exists>doc'. update_deka_json_allow os_plain mini_policy ''net'' (Some ''api.example.com'') = Ok doc' \<and>
    rule_allows os_plain ''net'' (rule_of ''net'' (pol_allow (fst (parse_deka_security_policy doc')))) (Some ''api.example.com'')"
proof -
  have "is_ok (update_deka_json_allow os_plain mini_policy ''net'' (Some ''api.example.com''))" by code_simp
  then obtain doc' where u: "update_deka_json_allow os_plain mini_policy ''net'' (Some ''api.example.com'') = Ok doc'"
    by (cases "update_deka_json_allow os_plain mini_policy ''net'' (Some ''api.example.com'')") auto
  have "str_trim ''api.example.com'' = ''api.example.com''" "\<not> starts_with ''api.example.com'' ''*.''" by code_simp+
  then show ?thesis using approved_prompt_lasts [OF u, of os_plain] u by simp
qed

end
