(* ===== verification/PhasePermsProps.thy ===== *)
theory PhasePermsProps
  imports PhasePerms SecEnforceProps
begin

text \<open>
  Properties of phase-aware permissions: the host names accepted are those of a grammar, file
  grants stay inside the working directory, and each phase runs under its own part of the
  manifest and nothing else.
\<close>

section \<open>Host names\<close>

definition dns_label :: "string \<Rightarrow> bool" where
  "dns_label l \<longleftrightarrow> l \<noteq> [] \<and> length l \<le> 63 \<and> (\<forall>c \<in> set l. ascii_lower c \<or> ascii_digit c \<or> c = CHR ''-'') \<and>
     hd l \<noteq> CHR ''-'' \<and> last l \<noteq> CHR ''-''"

definition dns_name :: "string \<Rightarrow> bool" where
  "dns_name h \<longleftrightarrow> length h \<le> 253 \<and>
     (\<exists>ls. ls \<noteq> [] \<and> (\<forall>l \<in> set ls. dns_label l) \<and> (h = join ''.'' ls \<or> h = ''*.'' @ join ''.'' ls))"

lemma check_labels_None: "check_labels raw ls = None \<longleftrightarrow> (\<forall>l \<in> set ls. check_label raw l = None)"
  by (induction ls) (simp_all split: option.splits)

lemma lower_no_upper: "c \<in> set (ascii_lowercase s) \<Longrightarrow> \<not> ascii_upper c"
  by (auto simp: ascii_lowercase_def lower_char_def ascii_upper_def byte_def split: if_splits)

lemma starts_hd: "l \<noteq> [] \<Longrightarrow> starts_with l [c] \<longleftrightarrow> hd l = c"
  by (cases l) (auto simp: starts_with_def)

lemma ends_last: "l \<noteq> [] \<Longrightarrow> ends_with l [c] \<longleftrightarrow> last l = c"
  using starts_hd [of "rev l" c] by (simp add: ends_with_def hd_rev)

lemma check_label_None:
  assumes "l \<noteq> []" and "\<forall>c \<in> set l. \<not> ascii_upper c"
  shows "check_label raw l = None \<longleftrightarrow> dns_label l"
  using assms
  by (auto simp: check_label_def dns_label_def starts_hd ends_last list_all_iff ascii_alnum_def ascii_alpha_def)

lemma set_join: "set (join sep ls) \<subseteq> set sep \<union> \<Union> (set ` set ls)"
  by (induction sep ls rule: join.induct) auto

lemma utf8_chars_ascii: "\<forall>c \<in> set s. byte c < 128 \<Longrightarrow> utf8_chars s = List.map (\<lambda>c. [c]) s"
proof (induction s rule: utf8_chars.induct)
  case (2 b bs)
  have "takeWhile is_cont bs = [] \<and> dropWhile is_cont bs = bs" using 2(2) by (cases bs) (auto simp: is_cont_def)
  then show ?case using 2 by auto
qed simp

lemma starts_with_set: "starts_with s p \<Longrightarrow> set p \<subseteq> set s"
  by (auto simp: starts_with_iff)

lemma contains_set: "contains_str s p \<Longrightarrow> set p \<subseteq> set s"
proof (induction s p rule: contains_str.induct)
  case (2 x xs p)
  then show ?case using starts_with_set [of "x # xs" p] by auto
qed simp

definition host_char :: "char \<Rightarrow> bool" where
  "host_char c \<longleftrightarrow> ascii_lower c \<or> ascii_digit c \<or> c = CHR ''-'' \<or> c = CHR ''.'' \<or> c = CHR ''*''"

lemma host_char_facts:
  assumes "host_char c"
  shows "byte c < 128" and "c \<notin> set host_delimiters" and "\<not> white_space [c]" and "c \<noteq> CHR '':''"
  using assms
  by (auto simp: host_char_def host_delimiters_def ascii_lower_def ascii_digit_def byte_def white_space_def)

lemma labels_checked:
  assumes "[] \<notin> set xs" and "set xs \<subseteq> set (split_on (CHR ''.'') (ascii_lowercase t))"
  shows "check_labels raw xs = None \<longleftrightarrow> (\<forall>l \<in> set xs. dns_label l)"
proof -
  have "set l \<subseteq> set (join ''.'' ls)" if "l \<in> set ls" for l and ls :: "string list"
    using that by (induction "''.''" ls rule: join.induct) auto
  then have "c \<in> set (ascii_lowercase t)" if "l \<in> set xs" "c \<in> set l" for l c
    using that assms(2) split_on_join [of "CHR ''.''" "ascii_lowercase t"] by (metis subsetD)
  then show ?thesis
    unfolding check_labels_None
    by (intro ball_cong [OF refl] check_label_None) (use assms(1) lower_no_upper in auto)
qed

lemma hostname_sound:
  assumes a: "validate_hostname raw = Inr h"
  shows "h = ascii_lowercase (str_trim raw) \<and> dns_name h"
proof -
  define t where "t = ascii_lowercase (str_trim raw)"
  define ls where "ls = split_on (CHR ''.'') t"
  have jn: "join ''.'' ls = t" unfolding ls_def by (rule split_on_join)
  have ne: "ls \<noteq> []" by (simp add: ls_def)
  have h: "h = t" using a by (auto simp: validate_hostname_def Let_def t_def [symmetric] split: if_splits option.splits)
  have b: "length t \<le> 253" "[] \<notin> set ls"
    using a by (auto simp: validate_hostname_def Let_def t_def [symmetric] ls_def [symmetric] split: if_splits)
  note lab = labels_checked [of _ "str_trim raw" raw, folded t_def, folded ls_def]
  show ?thesis
  proof (cases "hd ls = ''*''")
    case True
    then obtain rest where l: "ls = ''*'' # rest" using ne by (cases ls) auto
    have c: "rest \<noteq> []" "check_labels raw rest = None"
      using a b l by (auto simp: validate_hostname_def Let_def t_def [symmetric] ls_def [symmetric] split: if_splits option.splits)
    then have "\<forall>x \<in> set rest. dns_label x" using lab [of rest] b(2) l by auto
    moreover have "t = ''*.'' @ join ''.'' rest" using jn l c(1) by (cases rest) auto
    ultimately show ?thesis using b(1) c(1) h t_def by (auto simp: dns_name_def)
  next
    case False
    then have "check_labels raw ls = None"
      using a b by (auto simp: validate_hostname_def Let_def t_def [symmetric] ls_def [symmetric] split: if_splits option.splits)
    then have "\<forall>x \<in> set ls. dns_label x" using lab [of ls] b(2) by auto
    then have "dns_name t" using b(1) ne jn unfolding dns_name_def by metis
    then show ?thesis using h t_def by simp
  qed
qed

text \<open>What the labels of a name are made of.\<close>

lemma label_chars:
  assumes "dns_label l" and "c \<in> set l"
  shows "ascii_lower c \<or> ascii_digit c \<or> c = CHR ''-''" and "c \<noteq> CHR ''.''" and "c \<noteq> CHR ''*''"
proof -
  have "\<not> ascii_lower (CHR ''.'') \<and> \<not> ascii_digit (CHR ''.'') \<and> \<not> ascii_lower (CHR ''*'') \<and> \<not> ascii_digit (CHR ''*'')"
    by code_simp
  then show "ascii_lower c \<or> ascii_digit c \<or> c = CHR ''-''" "c \<noteq> CHR ''.''" "c \<noteq> CHR ''*''"
    using assms unfolding dns_label_def by fastforce+
qed

lemma name_chars:
  assumes "\<forall>l \<in> set ms. dns_label l" and "c \<in> set (join ''.'' ms)"
  shows "host_char c \<and> c \<noteq> CHR ''*''"
proof -
  have "c = CHR ''.'' \<or> (\<exists>l \<in> set ms. c \<in> set l)" using assms(2) set_join [of "''.''" ms] by auto
  then show ?thesis using assms(1) label_chars unfolding host_char_def by fastforce
qed

lemma host_text:
  assumes hc: "\<forall>c \<in> set t. host_char c"
  shows "\<not> contains_str t ''://''" and "\<not> list_ex (\<lambda>c. c \<in> set host_delimiters) t"
    and "\<not> list_ex white_space (utf8_chars t)"
proof -
  have "CHR '':'' \<notin> set t" using hc host_char_facts(4) by blast
  then show "\<not> contains_str t ''://''" using contains_set [of t "''://''"] by auto
  show "\<not> list_ex (\<lambda>c. c \<in> set host_delimiters) t" using hc host_char_facts(2) by (auto simp: list_ex_iff)
  show "\<not> list_ex white_space (utf8_chars t)"
    using hc host_char_facts(1,3) utf8_chars_ascii [of t] by (auto simp: list_ex_iff)
qed

lemma hostname_complete:
  assumes h: "t = ascii_lowercase (str_trim raw)" and ms: "ms \<noteq> []" "\<forall>l \<in> set ms. dns_label l" "length t \<le> 253"
    and t: "t = join ''.'' ms \<or> t = ''*.'' @ join ''.'' ms"
  shows "validate_hostname raw = Inr t"
proof -
  define ls where "ls = split_on (CHR ''.'') t"
  have e: "[] \<notin> set ms" using ms(2) by (auto simp: dns_label_def)
  have sp: "split_on (CHR ''.'') (join ''.'' ms) = ms"
    by (rule split_on_join_names [OF ms(1)]) (use ms(2) label_chars in blast)
  have "join ''.'' ms \<noteq> []" using ms(1) e by (cases ms rule: remdups_adj.cases) auto
  then have t0: "t \<noteq> []" using t by auto
  have "\<forall>c \<in> set t. host_char c"
  proof
    fix c assume "c \<in> set t"
    then have "c = CHR ''*'' \<or> c = CHR ''.'' \<or> c \<in> set (join ''.'' ms)" using t by auto
    then show "host_char c" using name_chars [OF ms(2)] by (auto simp: host_char_def)
  qed
  note ht = host_text [OF this]
  have lens: "\<not> length t > 253" using ms(3) by simp
  note lab = labels_checked [of _ "str_trim raw" raw, folded h, folded ls_def]
  show ?thesis
  proof (rule disjE [OF t])
    assume t: "t = join ''.'' ms"
    then have l: "ls = ms" using sp by (simp add: ls_def)
    have h1: "hd ls \<noteq> ''*''" using label_chars ms(1,2) l by (cases ms) fastforce+
    have "CHR ''*'' \<notin> set t" using name_chars [OF ms(2)] t by blast
    then have h2: "\<not> starts_with t ''*''" using starts_with_set [of t "''*''"] by auto
    have "check_labels raw ls = None" using lab [of ls] e ms(2) l by simp
    then show ?thesis
      unfolding validate_hostname_def Let_def h [symmetric] ls_def [symmetric]
      using t0 ht lens e h1 h2 l by simp
  next
    assume t: "t = ''*.'' @ join ''.'' ms"
    then have l: "ls = ''*'' # ms" using sp by (simp add: ls_def)
    have "check_labels raw ms = None" using lab [of ms] e ms(2) l by auto
    then show ?thesis
      unfolding validate_hostname_def Let_def h [symmetric] ls_def [symmetric]
      using t0 ht lens e l ms(1) by simp
  qed
qed

text \<open>
  C31. The host names a manifest may list are those of a grammar: at most 253 bytes of labels
  joined by dots, each of 1 to 63 lower-case letters, digits and hyphens with no hyphen at an
  end, and before them perhaps the wildcard label. What is kept of an entry is its text
  trimmed and in lower case, and every entry outside the grammar is refused.
\<close>

theorem hostname_exact:
  "validate_hostname raw = Inr h \<longleftrightarrow> h = ascii_lowercase (str_trim raw) \<and> dns_name h"
  using hostname_sound [of raw h] hostname_complete [of h raw] by (auto simp: dns_name_def)


section \<open>File grants\<close>

lemma split_on_append2: "split_on c (a @ c # b) = split_on c a @ split_on c b"
  by (induction a) (auto split: list.splits)

lemma body_comps_append: "body_comps (a @ CHR ''/'' # b) = body_comps a @ body_comps b"
  by (simp add: body_comps_def split_on_append2)

lemma body_comps_Nil [simp]: "body_comps [] = []"
  by (simp add: body_comps_def)

lemma comps_join:
  assumes "is_absolute wd" and "\<not> is_absolute p"
  shows "comps (path_join wd p) = comps wd @ body_comps p"
proof -
  have abs: "starts_with (wd @ x) ''/''" for x
    using assms(1) by (auto simp: is_absolute_def starts_with_iff)
  have ne: "wd \<noteq> []" using assms(1) by (auto simp: is_absolute_def starts_with_def)
  show ?thesis
  proof (cases "ends_with wd ''/''")
    case True
    then obtain v where v: "wd = v @ ''/''" by (auto simp: ends_with_iff)
    have "body_comps (wd @ p) = body_comps wd @ body_comps p"
      using body_comps_append [of v p] body_comps_append [of v "[]"] by (simp add: v)
    then show ?thesis
      using assms ne True abs [of p] abs [of "[]"] by (simp add: path_join_def comps_def)
  next
    case False
    then show ?thesis
      using assms ne abs [of "CHR ''/'' # p"] abs [of "[]"] by (simp add: path_join_def comps_def body_comps_append)
  qed
qed

lemma entries_from: "x \<in> set (fst (entries f path items)) \<Longrightarrow> \<exists>p i. i \<in> set items \<and> x \<in> set (fst (f p i))"
  by (fastforce simp: entries_def Let_def dest: in_set_enumerate_eq [THEN iffD1] intro: nth_mem)

definition relative_inside :: "string \<Rightarrow> bool" where
  "relative_inside p \<longleftrightarrow> \<not> is_absolute p \<and> C_Par \<notin> set (body_comps p)"

lemma path_entry_inside: "x \<in> set (fst (path_entry p j)) \<Longrightarrow> relative_inside x"
  by (auto simp: path_entry_def validate_relative_path_def relative_inside_def Let_def is_absolute_def comps_def
      split: json.splits sum.splits if_splits)

definition grant_inside :: "fs_grant \<Rightarrow> bool" where
  "grant_inside g = (case g of Fs_Paths ps \<Rightarrow> (\<forall>p \<in> set ps. relative_inside p) | _ \<Rightarrow> True)"

lemma parse_fs_grant_inside: "grant_inside (fst (parse_fs_grant path v))"
proof -
  have "grant_inside (Fs_Paths (fst (entries path_entry path items)))" for items
    using entries_from [of _ path_entry path items] path_entry_inside by (fastforce simp: grant_inside_def)
  then show ?thesis
    by (simp add: parse_fs_grant_def case_prod_beta grant_inside_def [of Fs_Denied] grant_inside_def [of Fs_WorkingDir]
        split: option.splits json.splits)
qed

definition caps_inside :: "capabilities \<Rightarrow> bool" where
  "caps_inside c \<longleftrightarrow> grant_inside (cap_read c) \<and> grant_inside (cap_write c)"

lemma parse_capabilities_inside: "caps_inside (fst (parse_capabilities path obj known))"
  using parse_fs_grant_inside by (simp add: caps_inside_def parse_capabilities_def Let_def grant_inside_def [of Fs_Denied])

lemma no_capabilities_inside: "caps_inside no_capabilities"
  by (simp add: caps_inside_def no_capabilities_def grant_inside_def)

definition phase_inside :: "phase_policy \<Rightarrow> bool" where
  "phase_inside p \<longleftrightarrow> caps_inside (ph_caps p) \<and> (\<forall>b. ph_build p = Some b \<longrightarrow> caps_inside b)"

lemma parse_build_inside: "fst (parse_build path v) = Some b \<Longrightarrow> caps_inside b"
  using parse_capabilities_inside
  by (fastforce simp: parse_build_def Let_def case_prod_beta split: option.splits json.splits if_splits)

lemma parse_profile_inside: "phase_inside (or_default (fst (parse_profile path v)))"
proof -
  have "phase_inside default_phase" by (simp add: phase_inside_def default_phase_def no_capabilities_inside)
  then show ?thesis
    using parse_build_inside [of path] parse_capabilities_inside
    by (auto simp: parse_profile_def or_default_def case_prod_beta phase_inside_def split: option.splits json.splits)
qed

lemma parse_permissions_inside:
  "fst (parse_permissions document) = Some pm \<Longrightarrow> phase_inside (pm_dev pm) \<and> phase_inside (pm_prod pm)"
  using parse_profile_inside
  by (auto simp: parse_permissions_def Let_def case_prod_beta split: json.splits option.splits if_splits)

lemma fs_rule_inside:
  assumes "grant_inside g" and "is_absolute wd" and "fs_rule g wd = RL_List items" and "x \<in> set items"
  shows "\<exists>rest. comps x = comps wd @ rest \<and> C_Par \<notin> set rest"
  using assms comps_join [OF assms(2)]
  by (cases g) (auto simp: fs_rule_def grant_inside_def relative_inside_def)

lemma phase_items_inside:
  assumes "fst (parse_permissions document) = Some pm" and "is_absolute wd"
    and "sel \<in> {sc_read, sc_write}"
    and "sel (pol_allow (resolve_phase pm phase wd)) = RL_List items" and "x \<in> set items"
  shows "\<exists>rest. comps x = comps wd @ rest \<and> C_Par \<notin> set rest"
proof -
  have "caps_inside (fst (phase_capabilities pm phase))"
    using parse_permissions_inside [OF assms(1)] no_capabilities_inside
    by (auto simp: phase_capabilities_def phase_inside_def split: execution_phase.splits option.splits)
  then have "grant_inside (cap_read (fst (phase_capabilities pm phase)))" "grant_inside (cap_write (fst (phase_capabilities pm phase)))"
    by (simp_all add: caps_inside_def)
  moreover have "fs_rule (cap_read (fst (phase_capabilities pm phase))) wd = RL_List items \<or>
      fs_rule (cap_write (fst (phase_capabilities pm phase))) wd = RL_List items"
    using assms(3,4) by (auto simp: resolve_phase_def case_prod_beta)
  ultimately show ?thesis using fs_rule_inside [OF _ assms(2) _ assms(5)] by blast
qed

text \<open>
  What is known of the system: the root is its own, and a path is taken for its components. No
  symbolic link below the working directory leads out of it.
\<close>

definition posix_paths :: "os \<Rightarrow> bool" where
  "posix_paths w \<longleftrightarrow> os_canonical w ''/'' = Some [C_Root] \<and> (\<forall>s. plain_path w s \<longrightarrow> text_is_comps w s)"

definition links_stay :: "os \<Rightarrow> string \<Rightarrow> bool" where
  "links_stay w wd \<longleftrightarrow>
     (\<forall>s q rest. comps s = comps wd @ rest \<longrightarrow> C_Par \<notin> set rest \<longrightarrow> os_canonical w s = Some q \<longrightarrow>
        path_prefix q (normalize_path w wd))"

lemma path_prefix_trans: "path_prefix p q \<Longrightarrow> path_prefix q r \<Longrightarrow> path_prefix p r"
  unfolding path_prefix_def by (metis min.absorb1 nat_le_linear take_all take_take)

lemma path_prefix_append: "path_prefix p q \<Longrightarrow> path_prefix (p @ xs) q"
  unfolding path_prefix_def by (metis append_take_drop_id append.assoc append_eq_conv_conj)

lemma absolute_comps: "is_absolute s \<Longrightarrow> resolved_text w s = s \<and> (plain_path w s \<longleftrightarrow> C_Par \<notin> set (comps s))"
  by (auto simp: resolved_text_def plain_path_def is_absolute_def)

lemma inside_normal:
  assumes w: "posix_paths w" "links_stay w wd" and wd: "is_absolute wd" "C_Par \<notin> set (comps wd)"
    and x: "comps x = comps wd @ rest" "C_Par \<notin> set rest"
  shows "path_prefix (normalize_path w x) (normalize_path w wd)"
proof -
  have root: "os_canonical w ''/'' = Some [C_Root]" using w(1) by (simp add: posix_paths_def)
  have ax: "is_absolute x"
    using x(1) wd(1) by (auto simp: comps_def is_absolute_def body_comps_def split: if_splits)
  note awd = absolute_comps [OF wd(1), of w] and ax' = absolute_comps [OF ax, of w]
  have px: "plain_path w x" using ax' x wd(2) by simp
  have pwd: "plain_path w wd" using awd wd(2) by simp
  obtain ws where ws: "comps wd = C_Root # List.map C_Name (rev ws)" "\<forall>n \<in> set ws. proper_name n" "normalize_path w wd = place w ws"
    using normalize_place [OF pwd _ root] w(1) pwd awd by (auto simp: posix_paths_def)
  obtain ns where ns: "comps x = C_Root # List.map C_Name (rev ns)" "\<forall>n \<in> set ns. proper_name n" "normalize_path w x = place w ns"
    using normalize_place [OF px _ root] w(1) px ax' by (auto simp: posix_paths_def)
  have "List.map C_Name (rev ns) = List.map C_Name (rev ws) @ rest" using ns(1) ws(1) x(1) by simp
  then obtain rs where rest: "rest = List.map C_Name rs" and "List.map C_Name (rev ns) = List.map C_Name (rev ws @ rs)"
    by (metis append_eq_map_conv map_append inj_map_eq_map comp.inject inj_onI)
  then have "rev ns = rev ws @ rs" by (metis comp.inject inj_map_eq_map inj_onI)
  then have n: "ns = rev rs @ ws" by (metis rev_append rev_rev_ident)
  have "path_prefix (place w (us @ ws)) (place w ws)" if "\<forall>n \<in> set (us @ ws). proper_name n" for us
    using that
  proof (induction us)
    case Nil
    show ?case by (simp add: path_prefix_def)
  next
    case (Cons u us)
    let ?t = "path_text (C_Root # List.map C_Name (rev (u # us @ ws)))"
    have IH: "path_prefix (place w (us @ ws)) (place w ws)" using Cons by simp
    show ?case
    proof (cases "os_canonical w ?t")
      case (Some q)
      have "\<forall>n \<in> set (rev (u # us @ ws)). proper_name n" using Cons.prems by auto
      from comps_path_text [OF this] have "comps ?t = comps wd @ List.map C_Name (rev (u # us))"
        using ws(1) by simp
      then have "path_prefix q (normalize_path w wd)"
        using w(2) Some unfolding links_stay_def by fastforce
      then show ?thesis using Some ws(3) by simp
    qed (use path_prefix_append [OF IH] in simp)
  qed
  from this [of "rev rs"] show ?thesis using ns(2,3) ws(3) n by simp
qed


definition perm_doc :: json where
  "perm_doc = J_Object [(''permissions'', J_Object [(''dev'', J_Object
     [(''read'', J_Array [J_String ''./assets'']), (''build'', J_Object [(''net'', J_Array [J_String ''api.deka.dev''])])])])]"

definition perm_parsed :: permissions where
  "perm_parsed = \<lparr>pm_dev = \<lparr>ph_caps = no_capabilities\<lparr>cap_read := Fs_Paths [''./assets'']\<rparr>,
     ph_build = Some (no_capabilities\<lparr>cap_net := [''api.deka.dev'']\<rparr>)\<rparr>, pm_prod = default_phase\<rparr>"

lemma perm_doc_parsed: "parse_permissions perm_doc = (Some perm_parsed, [])"
  by code_simp

definition app_os :: os where
  "app_os = os_with [''/'', ''/home'', ''/home/app'']"

lemma app_os_posix: "posix_paths app_os"
proof -
  have "text_is_comps app_os s" if p: "plain_path app_os s" for s
  proof -
    obtain ns where ns: "comps (resolved_text app_os s) = C_Root # List.map C_Name (rev ns)" "\<forall>n \<in> set ns. proper_name n"
      using plain_comps [OF p] by blast
    have "comps (path_text (comps (resolved_text app_os s))) = comps (resolved_text app_os s)"
      unfolding ns(1) by (rule comps_path_text) (use ns(2) in simp)
    then show ?thesis by (simp add: text_is_comps_def) (simp add: app_os_def os_with_def)
  qed
  moreover have "os_canonical app_os ''/'' = Some [C_Root]" by code_simp
  ultimately show ?thesis by (simp add: posix_paths_def)
qed

lemma app_os_links: "links_stay app_os ''/home/app''"
proof -
  have "normalize_path app_os ''/home/app'' = comps ''/home/app''" by code_simp
  then show ?thesis by (auto simp: links_stay_def path_prefix_def app_os_def os_with_def split: if_splits)
qed


section \<open>Phases\<close>

definition rule_free :: "scope \<Rightarrow> bool" where
  "rule_free s \<longleftrightarrow> (\<forall>r \<in> set (scope_rules s). r = RL_None) \<and> \<not> sc_dynamic s"

lemma parsed_profiles:
  assumes "fst (parse_permissions document) = Some pm"
  shows "pm_dev pm = or_default (fst (parse_profile ''$.permissions.dev'' (manifest_get document [''permissions'', ''dev''])))"
    and "pm_prod pm = or_default (fst (parse_profile ''$.permissions.prod'' (manifest_get document [''permissions'', ''prod''])))"
  using assms
  by (auto simp: parse_permissions_def Let_def case_prod_beta json_get_def split: json.splits option.splits if_splits)

lemma parsed_build:
  "ph_build (or_default (fst (parse_profile path v))) =
     (case v of Some j \<Rightarrow> (case j of J_Object obj \<Rightarrow> fst (parse_build path (bt_get obj ''build'')) | _ \<Rightarrow> None) | None \<Rightarrow> None)"
  by (auto simp: parse_profile_def or_default_def default_phase_def case_prod_beta split: option.splits json.splits)

text \<open>What a profile grants to requests is a function of its own entries, the build slots' left out.\<close>

definition request_keys :: "string list" where
  "request_keys = [''read'', ''write'', ''net'', ''env'', ''db'', ''wasm'', ''import'']"

lemma parse_capabilities_reads:
  "\<forall>k \<in> set request_keys. bt_get obj k = bt_get obj' k \<Longrightarrow>
   fst (parse_capabilities path obj known) = fst (parse_capabilities path obj' known)"
  by (simp add: request_keys_def parse_capabilities_def Let_def)

lemma parse_capabilities_empty: "fst (parse_capabilities path [] known) = no_capabilities"
  by (simp add: parse_capabilities_def Let_def bt_get_def no_capabilities_def parse_fs_grant_def parse_net_list_def
      parse_env_list_def parse_db_list_def parse_name_list_def parse_bool_capability_def)

definition entries_of :: "json option \<Rightarrow> (string, json) btree" where
  "entries_of v = (case v of Some (J_Object obj) \<Rightarrow> obj | _ \<Rightarrow> [])"

lemma parsed_caps: "ph_caps (or_default (fst (parse_profile path v))) = fst (parse_capabilities path (entries_of v) capability_keys)"
  by (auto simp: parse_profile_def or_default_def default_phase_def case_prod_beta entries_of_def parse_capabilities_empty
      split: option.splits json.splits)

lemma profile_entry: "bt_get (entries_of (manifest_get d [''permissions'', q])) k = manifest_get d [''permissions'', q, k]"
  by (auto simp: entries_of_def json_get_def bt_get_def split: option.splits json.splits)

lemma request_caps:
  assumes "fst (parse_permissions d) = Some pm"
  shows "ph_caps (pm_dev pm) = fst (parse_capabilities ''$.permissions.dev'' (entries_of (manifest_get d [''permissions'', ''dev''])) capability_keys)"
    and "ph_caps (pm_prod pm) = fst (parse_capabilities ''$.permissions.prod'' (entries_of (manifest_get d [''permissions'', ''prod''])) capability_keys)"
  unfolding parsed_profiles [OF assms] by (rule parsed_caps)+

lemma no_capabilities_free: "fst (phase_capabilities pm phase) = no_capabilities \<Longrightarrow> rule_free (pol_allow (resolve_phase pm phase wd))"
  by (simp add: resolve_phase_def case_prod_beta rule_free_def scope_rules_def no_capabilities_def fs_rule_def list_rule_def)

text \<open>
  C33. Each phase runs under its own part of the manifest. Requests in development get what
  \<open>dev\<close> lists outside its \<open>build\<close>, requests in production what \<open>prod\<close> lists, build slots
  what \<open>dev.build\<close> lists: two manifests that agree on that part give the phase the same policy,
  whatever else they say, and a manifest that lists nothing there gives the phase a policy that
  allows nothing; so nothing is inherited from another phase. There is never a build policy for
  production, and a build slot never waits for a prompt.
\<close>

theorem phases_isolated:
  assumes "fst (parse_permissions d) = Some pm" and "fst (parse_permissions d') = Some pm'"
  shows "((\<forall>k \<in> set request_keys. manifest_get d [''permissions'', ''dev'', k] = manifest_get d' [''permissions'', ''dev'', k]) \<longrightarrow>
      resolve_phase pm DevRequest wd = resolve_phase pm' DevRequest wd) \<and>
    ((\<forall>k \<in> set request_keys. manifest_get d [''permissions'', ''prod'', k] = manifest_get d' [''permissions'', ''prod'', k]) \<longrightarrow>
      resolve_phase pm ProdRequest wd = resolve_phase pm' ProdRequest wd) \<and>
    (manifest_get d [''permissions'', ''dev'', ''build''] = manifest_get d' [''permissions'', ''dev'', ''build''] \<longrightarrow>
      resolve_phase pm DevBuild wd = resolve_phase pm' DevBuild wd) \<and>
    ((\<forall>k \<in> set request_keys. manifest_get d [''permissions'', ''dev'', k] = None) \<longrightarrow>
      rule_free (pol_allow (resolve_phase pm DevRequest wd))) \<and>
    ((\<forall>k \<in> set request_keys. manifest_get d [''permissions'', ''prod'', k] = None) \<longrightarrow>
      rule_free (pol_allow (resolve_phase pm ProdRequest wd))) \<and>
    (manifest_get d [''permissions'', ''dev'', ''build''] \<in> {None, Some (J_Bool False)} \<longrightarrow>
      rule_free (pol_allow (resolve_phase pm DevBuild wd))) \<and>
    ph_build (pm_prod pm) = None \<and> \<not> pol_prompt (resolve_phase pm DevBuild wd)"
proof -
  have b: "ph_build (pm_dev pm) = fst (parse_build ''$.permissions.dev'' (manifest_get d [''permissions'', ''dev'', ''build'']))"
    if "fst (parse_permissions d) = Some pm" for d pm
    unfolding parsed_profiles(1) [OF that] parsed_build
    by (auto simp: json_get_def parse_build_def split: option.splits json.splits)
  have "fst (parse_build ''$.permissions.prod'' v) = None" for v
  proof -
    have "ends_with ''$.permissions.prod'' ''.prod''" by code_simp
    then show ?thesis by (auto simp: parse_build_def Let_def split: option.splits)
  qed
  then have prod: "ph_build (pm_prod pm) = None"
    unfolding parsed_profiles(2) [OF assms(1)] parsed_build by (simp split: option.splits json.splits)
  have same: "ph_caps (pm_dev pm) = ph_caps (pm_dev pm')"
    if "\<forall>k \<in> set request_keys. manifest_get d [''permissions'', ''dev'', k] = manifest_get d' [''permissions'', ''dev'', k]"
    unfolding request_caps(1) [OF assms(1)] request_caps(1) [OF assms(2)]
    by (rule parse_capabilities_reads) (use that in \<open>simp only: profile_entry\<close>)
  have same': "ph_caps (pm_prod pm) = ph_caps (pm_prod pm')"
    if "\<forall>k \<in> set request_keys. manifest_get d [''permissions'', ''prod'', k] = manifest_get d' [''permissions'', ''prod'', k]"
    unfolding request_caps(2) [OF assms(1)] request_caps(2) [OF assms(2)]
    by (rule parse_capabilities_reads) (use that in \<open>simp only: profile_entry\<close>)
  have none: "fst (parse_capabilities path (entries_of (manifest_get d [''permissions'', q])) known) = no_capabilities"
    if "\<forall>k \<in> set request_keys. manifest_get d [''permissions'', q, k] = None" for path q known
    unfolding parse_capabilities_empty [of path known, symmetric]
    by (rule parse_capabilities_reads) (use that in \<open>simp only: profile_entry bt_get_empty\<close>)
  show ?thesis
  proof (intro conjI impI)
    show "resolve_phase pm DevRequest wd = resolve_phase pm' DevRequest wd"
      if "\<forall>k \<in> set request_keys. manifest_get d [''permissions'', ''dev'', k] = manifest_get d' [''permissions'', ''dev'', k]"
      using same [OF that] by (simp add: resolve_phase_def phase_capabilities_def)
    show "resolve_phase pm ProdRequest wd = resolve_phase pm' ProdRequest wd"
      if "\<forall>k \<in> set request_keys. manifest_get d [''permissions'', ''prod'', k] = manifest_get d' [''permissions'', ''prod'', k]"
      using same' [OF that] by (simp add: resolve_phase_def phase_capabilities_def)
    show "resolve_phase pm DevBuild wd = resolve_phase pm' DevBuild wd"
      if "manifest_get d [''permissions'', ''dev'', ''build''] = manifest_get d' [''permissions'', ''dev'', ''build'']"
      using b [OF assms(1)] b [OF assms(2)] that by (simp add: resolve_phase_def phase_capabilities_def)
    show "rule_free (pol_allow (resolve_phase pm DevRequest wd))"
      if "\<forall>k \<in> set request_keys. manifest_get d [''permissions'', ''dev'', k] = None"
      by (rule no_capabilities_free) (simp only: phase_capabilities_def execution_phase.case fst_conv request_caps(1) [OF assms(1)] none [OF that])
    show "rule_free (pol_allow (resolve_phase pm ProdRequest wd))"
      if "\<forall>k \<in> set request_keys. manifest_get d [''permissions'', ''prod'', k] = None"
      by (rule no_capabilities_free) (simp only: phase_capabilities_def execution_phase.case fst_conv request_caps(2) [OF assms(1)] none [OF that])
    show "rule_free (pol_allow (resolve_phase pm DevBuild wd))"
      if "manifest_get d [''permissions'', ''dev'', ''build''] \<in> {None, Some (J_Bool False)}"
      by (rule no_capabilities_free) (use b [OF assms(1)] that in \<open>auto simp: phase_capabilities_def parse_build_def\<close>)
    show "ph_build (pm_prod pm) = None" by (rule prod)
    show "\<not> pol_prompt (resolve_phase pm DevBuild wd)" by (simp add: resolve_phase_def phase_capabilities_def)
  qed
qed

text \<open>The same grants for development, but neither build slots nor the grants of production.\<close>

definition other_doc :: json where
  "other_doc = J_Object [(''permissions'', J_Object [(''dev'', J_Object [(''read'', J_Array [J_String ''./assets''])]),
     (''prod'', J_Object [(''net'', J_Array [J_String ''api.deka.dev''])])])]"

lemma phases_isolated_witness:
  "\<exists>pm. fst (parse_permissions other_doc) = Some pm \<and>
     resolve_phase pm DevRequest ''/home/app'' = resolve_phase perm_parsed DevRequest ''/home/app'' \<and>
     rule_free (pol_allow (resolve_phase pm DevBuild ''/home/app'')) \<and>
     rule_free (pol_allow (resolve_phase perm_parsed ProdRequest ''/home/app'')) \<and>
     ph_build (pm_prod pm) = None"
proof -
  have "fst (parse_permissions other_doc) \<noteq> None" by code_simp
  then obtain pm where pm: "fst (parse_permissions other_doc) = Some pm" by blast
  have p: "fst (parse_permissions perm_doc) = Some perm_parsed" by (simp add: perm_doc_parsed)
  have "\<forall>k \<in> set request_keys. manifest_get other_doc [''permissions'', ''dev'', k] = manifest_get perm_doc [''permissions'', ''dev'', k]"
    "\<forall>k \<in> set request_keys. manifest_get perm_doc [''permissions'', ''prod'', k] = None"
    "manifest_get other_doc [''permissions'', ''dev'', ''build''] = None"
    by (simp_all add: request_keys_def other_doc_def perm_doc_def json_get_def bt_get_def)
  with phases_isolated [OF pm p, of "''/home/app''"] phases_isolated [OF p pm, of "''/home/app''"] pm show ?thesis by blast
qed

text \<open>
  A misspelled profile next to a right one is not reported: the check of the keys runs only
  where neither profile is named.
\<close>

theorem misspelled_profile_accepted:
  "parse_permissions (J_Object [(''permissions'', J_Object [(''dev'', J_Object []), (''production'', J_Object [])])]) =
     (Some \<lparr>pm_dev = default_phase, pm_prod = default_phase\<rparr>, [])"
  by code_simp

end
