(* ===== verification/Selectors.thy ===== *)
theory Selectors
  imports OrdMap Text F64
begin

text \<open>
  The selectors of the native views (\<open>crates/deka_native_ir/src/selectors.rs\<close>): their parser
  and the search for the elements they select. The parser works on the characters of the
  source that are left and the offset in bytes of the first of them, which its errors name.
  The adapter \<open>SelectorTree\<close> is a record of its three functions.
\<close>

section \<open>Selectors\<close>

record element =
  el_tag :: string
  el_id :: "string option"
  el_classes :: string

record 'n selector_tree =
  st_element :: "'n \<Rightarrow> element option"
  st_parent :: "'n \<Rightarrow> 'n option"
  st_children :: "'n \<Rightarrow> 'n list"

text \<open>\<open>split_whitespace\<close>: the pieces between white space that are not empty.\<close>

fun words :: "string list \<Rightarrow> string list \<Rightarrow> string list" where
  "words w [] = (if w = [] then [] else [concat (rev w)])"
| "words w (c # cs) =
     (if white_space c then (if w = [] then [] else [concat (rev w)]) @ words [] cs
      else words (c # w) cs)"

definition class_tokens :: "string \<Rightarrow> string list" where
  "class_tokens classes = words [] (utf8_chars classes)"

record compound =
  cp_tag :: "string option"
  cp_ids :: "string list"
  cp_classes :: "string list"

datatype relation = Rel_Descendant | Rel_Child

record selector =
  sel_compounds :: "compound list"
  sel_relations :: "relation list"

definition compound_matches :: "'n selector_tree \<Rightarrow> compound \<Rightarrow> 'n \<Rightarrow> bool" where
  "compound_matches T c n =
     (case st_element T n of
        None \<Rightarrow> False
      | Some e \<Rightarrow>
          (case cp_tag c of None \<Rightarrow> True | Some tag \<Rightarrow> el_tag e = tag) \<and>
          list_all (\<lambda>i. el_id e = Some i) (cp_ids c) \<and>
          list_all (\<lambda>k. list_ex (\<lambda>t. t = k) (class_tokens (el_classes e))) (cp_classes c))"


section \<open>The parser\<close>

type_synonym parser = "string list \<times> nat" \<comment> \<open>the characters left, the offset\<close>

definition peek :: "parser \<Rightarrow> string option" where
  "peek p = (case fst p of [] \<Rightarrow> None | c # _ \<Rightarrow> Some c)"

definition next_is :: "(string \<Rightarrow> bool) \<Rightarrow> parser \<Rightarrow> bool" where
  "next_is f p = (case peek p of None \<Rightarrow> False | Some c \<Rightarrow> f c)"

definition advance :: "parser \<Rightarrow> parser" where
  "advance p = (case fst p of [] \<Rightarrow> p | c # cs \<Rightarrow> (cs, snd p + length c))"

text \<open>\<open>while self.peek().is_some_and(f) { self.advance(); }\<close>\<close>

fun skip_while :: "(string \<Rightarrow> bool) \<Rightarrow> string list \<Rightarrow> nat \<Rightarrow> parser" where
  "skip_while f [] k = ([], k)"
| "skip_while f (c # cs) k = (if f c then skip_while f cs (k + length c) else (c # cs, k))"

definition whitespace :: "parser \<Rightarrow> bool \<times> parser" where
  "whitespace p = (let p' = skip_while white_space (fst p) (snd p) in (snd p' \<noteq> snd p, p'))"

definition parse_error :: "parser \<Rightarrow> string \<Rightarrow> string" where
  "parse_error p message = ''invalid selector at byte '' @ nat_text (snd p) @ '': '' @ message"

definition ascii :: "string \<Rightarrow> bool" where
  "ascii c \<longleftrightarrow> (case c of [b] \<Rightarrow> byte b < 128 | _ \<Rightarrow> False)"

definition identifier_start :: "string \<Rightarrow> bool" where
  "identifier_start c \<longleftrightarrow>
     (case c of [b] \<Rightarrow> ascii_alpha b \<or> b = CHR ''_'' \<or> b = CHR ''-'' | _ \<Rightarrow> False) \<or>
     \<not> ascii c \<and> \<not> white_space c"

definition identifier_continue :: "string \<Rightarrow> bool" where
  "identifier_continue c \<longleftrightarrow>
     identifier_start c \<or> (case c of [b] \<Rightarrow> ascii_digit b | _ \<Rightarrow> False)"

text \<open>The text of an identifier is the source between the two offsets.\<close>

definition consumed :: "parser \<Rightarrow> parser \<Rightarrow> string" where
  "consumed p p' = concat (take (length (fst p) - length (fst p')) (fst p))"

definition parse_identifier :: "parser \<Rightarrow> (string \<times> parser) res" where
  "parse_identifier p =
     (case peek p of
        None \<Rightarrow> Err (parse_error p ''expected an unescaped identifier'')
      | Some first \<Rightarrow>
          if \<not> identifier_start first then Err (parse_error p ''expected an unescaped identifier'')
          else let q = advance p in
            if first = ''-'' \<and> \<not> next_is identifier_start q
            then Err (parse_error q ''a leading hyphen needs an identifier character'')
            else let r = skip_while identifier_continue (fst q) (snd q) in Ok (consumed p r, r))"

text \<open>Every round of the loop over \<open>#id\<close> and \<open>.class\<close> reads at least two characters.\<close>

lemma skip_while_drops: "fst (skip_while f cs k) = dropWhile f cs"
  by (induction cs arbitrary: k) auto

lemma identifier_shorter:
  assumes "parse_identifier p = Ok (w, q)"
  shows "length (fst q) < length (fst p)"
proof (cases "fst p")
  case (Cons c cs)
  then have "fst q = dropWhile identifier_continue cs"
    using assms by (auto simp: parse_identifier_def peek_def advance_def Let_def skip_while_drops split: if_splits)
  then show ?thesis using Cons length_dropWhile_le [of identifier_continue cs] by simp
qed (use assms in \<open>auto simp: parse_identifier_def peek_def\<close>)

lemma advance_le: "length (fst (advance p)) \<le> length (fst p)"
  by (auto simp: advance_def split: list.splits)

function marks :: "compound \<Rightarrow> parser \<Rightarrow> (compound \<times> parser) res" where
  "marks c p =
     (case peek p of
        None \<Rightarrow> Ok (c, p)
      | Some prefix \<Rightarrow>
          if prefix \<noteq> ''#'' \<and> prefix \<noteq> ''.'' then Ok (c, p)
          else case parse_identifier (advance p) of
            Err e \<Rightarrow> Err e
          | Panic e \<Rightarrow> Panic e
          | Ok (name, q) \<Rightarrow>
              marks (if prefix = ''#'' then c\<lparr>cp_ids := cp_ids c @ [name]\<rparr>
                     else c\<lparr>cp_classes := cp_classes c @ [name]\<rparr>) q)"
  by pat_completeness auto
termination
proof (relation "measure (\<lambda>(c, p). length (fst p))")
  show "wf (measure (\<lambda>(c :: compound, p :: parser). length (fst p)))" by simp
next
  fix c p prefix x name q
  assume "parse_identifier (advance p) = Ok x" "(name, q) = x"
  then have "length (fst q) < length (fst p)"
    using identifier_shorter [of "advance p" name q] advance_le [of p] by simp
  then show "((if prefix = ''#'' then c\<lparr>cp_ids := cp_ids c @ [name]\<rparr>
               else c\<lparr>cp_classes := cp_classes c @ [name]\<rparr>, q), c, p)
        \<in> measure (\<lambda>(c :: compound, p :: parser). length (fst p))" by simp
qed

declare marks.simps [simp del]

definition compound_at :: "parser \<Rightarrow> (compound \<times> parser) res" where
  "compound_at p =
     (let c = \<lparr>cp_tag = None, cp_ids = [], cp_classes = []\<rparr> in
      res_bind (if next_is identifier_start p
                then res_bind (parse_identifier p) (\<lambda>(tag, q). Ok (c\<lparr>cp_tag := Some tag\<rparr>, q))
                else Ok (c, p)) (\<lambda>(c, p).
      res_bind (marks c p) (\<lambda>(c, p).
        if cp_tag c = None \<and> cp_ids c = [] \<and> cp_classes c = []
        then Err (parse_error p ''expected a tag, #id or .class'')
        else Ok (c, p))))"

lemma marks_shorter:
  "marks c p = Ok (d, q) \<Longrightarrow> (d = c \<and> q = p) \<or> length (fst q) < length (fst p)"
proof (induction c p rule: marks.induct)
  case (1 c p)
  show ?case
  proof (cases "\<exists>x. peek p = Some x \<and> (x = ''#'' \<or> x = ''.'')")
    case True
    then obtain x where x: "peek p = Some x" "x = ''#'' \<or> x = ''.''" by blast
    obtain w r where i: "parse_identifier (advance p) = Ok (w, r)"
      and m: "marks (if x = ''#'' then c\<lparr>cp_ids := cp_ids c @ [w]\<rparr>
                     else c\<lparr>cp_classes := cp_classes c @ [w]\<rparr>) r = Ok (d, q)"
      using "1.prems" x by (subst (asm) marks.simps) (auto split: res.splits prod.splits)
    have "length (fst r) < length (fst p)"
      using identifier_shorter [OF i] advance_le [of p] by simp
    moreover have "length (fst q) \<le> length (fst r)"
      using "1.IH" [OF x(1) _ i refl m] x(2) by auto
    ultimately show ?thesis by simp
  next
    case False
    then show ?thesis using "1.prems" by (subst (asm) marks.simps) (auto split: option.splits if_splits)
  qed
qed

lemma compound_shorter:
  assumes "compound_at p = Ok (c, q)"
  shows "length (fst q) < length (fst p)"
proof -
  let ?c = "\<lparr>cp_tag = None, cp_ids = [], cp_classes = []\<rparr>"
  show ?thesis
  proof (cases "next_is identifier_start p")
    case True
    then obtain w r where "parse_identifier p = Ok (w, r)" "marks (?c\<lparr>cp_tag := Some w\<rparr>) r = Ok (c, q)"
      using assms by (auto simp: compound_at_def Let_def res_bind_Ok_iff split: if_splits prod.splits)
    then show ?thesis using identifier_shorter [of p w r] marks_shorter by fastforce
  next
    case False
    then have "marks ?c p = Ok (c, q)" "c \<noteq> ?c"
      using assms by (auto simp: compound_at_def Let_def res_bind_Ok_iff split: if_splits prod.splits)
    then show ?thesis using marks_shorter by blast
  qed
qed

lemma whitespace_le: "length (fst (snd (whitespace p))) \<le> length (fst p)"
  by (simp add: whitespace_def Let_def skip_while_drops length_dropWhile_le)

text \<open>The relation between two compounds.\<close>

definition relation_at :: "bool \<Rightarrow> parser \<Rightarrow> (relation \<times> parser) res" where
  "relation_at space p =
     (if peek p = Some ''>'' then Ok (Rel_Child, snd (whitespace (advance p)))
      else if space then Ok (Rel_Descendant, p)
      else Err (parse_error p ''unsupported selector syntax''))"

lemma relation_le: "relation_at space p = Ok (r, q) \<Longrightarrow> length (fst q) \<le> length (fst p)"
  using whitespace_le [of "advance p"] advance_le [of p] by (auto simp: relation_at_def split: if_splits)

function compounds_from :: "compound list \<Rightarrow> relation list \<Rightarrow> parser \<Rightarrow> selector res" where
  "compounds_from cs rs p =
     (case whitespace p of (space, q) \<Rightarrow>
        if peek q = None then Ok \<lparr>sel_compounds = cs, sel_relations = rs\<rparr>
        else case relation_at space q of
          Err e \<Rightarrow> Err e
        | Panic e \<Rightarrow> Panic e
        | Ok (r, q1) \<Rightarrow>
            (case compound_at q1 of
               Err e \<Rightarrow> Err e
             | Panic e \<Rightarrow> Panic e
             | Ok (c, q2) \<Rightarrow> compounds_from (cs @ [c]) (rs @ [r]) q2))"
  by pat_completeness auto
termination
proof (relation "measure (\<lambda>(cs, rs, p). length (fst p))", goal_cases)
  case (2 cs rs p space q y r q1 z c q2)
  then show ?case
    using whitespace_le [of p] relation_le [of space q r q1] compound_shorter [of q1 c q2] by (cases "whitespace p") auto
qed simp

declare compounds_from.simps [simp del]

definition parse_selector :: "string \<Rightarrow> selector res" where
  "parse_selector source =
     res_bind (compound_at (snd (whitespace (utf8_chars source, 0)))) (\<lambda>(c, p). compounds_from [c] [] p)"


section \<open>Matching and searching\<close>

text \<open>
  The loop over the ancestors of a node: those that match, the last one found first. The
  loops stop only when the adapter is a tree, so each is a partial function: \<open>None\<close> stands
  for one that runs forever.
\<close>

partial_function (option) ancestors_matching ::
    "'n selector_tree \<Rightarrow> compound \<Rightarrow> relation \<Rightarrow> 'n option \<Rightarrow> 'n list \<Rightarrow> 'n list option" where
  "ancestors_matching T c r parent found =
     (case parent of
        None \<Rightarrow> Some found
      | Some a \<Rightarrow>
          let found' = if compound_matches T c a then a # found else found
          in if r = Rel_Child then Some found' else ancestors_matching T c r (st_parent T a) found')"

text \<open>\<open>matches\<close>: a stack of pairs of an index and a node whose compound of that index matched.\<close>

partial_function (option) match_loop ::
    "'n selector_tree \<Rightarrow> selector \<Rightarrow> (nat \<times> 'n) list \<Rightarrow> (nat \<times> 'n) list \<Rightarrow> bool option" where
  "match_loop T s pending visited =
     (case pending of
        [] \<Rightarrow> Some False
      | (i, n) # todo \<Rightarrow>
          if i = 0 then Some True
          else if (i, n) \<in> set visited then match_loop T s todo visited
          else Option.bind (ancestors_matching T (sel_compounds s ! (i - 1)) (sel_relations s ! (i - 1)) (st_parent T n) [])
            (\<lambda>found. match_loop T s (List.map (Pair (i - 1)) found @ todo) (visited @ [(i, n)])))"

definition selector_matches :: "'n selector_tree \<Rightarrow> selector \<Rightarrow> 'n \<Rightarrow> bool option" where
  "selector_matches T s n =
     (let last = length (sel_compounds s) - 1
      in if \<not> compound_matches T (sel_compounds s ! last) n then Some False
         else match_loop T s [(last, n)] [])"

partial_function (option) query_loop ::
    "'n selector_tree \<Rightarrow> selector \<Rightarrow> bool \<Rightarrow> 'n list \<Rightarrow> 'n list \<Rightarrow> 'n list option" where
  "query_loop T s first_only pending found =
     (case pending of
        [] \<Rightarrow> Some found
      | n # todo \<Rightarrow>
          Option.bind (selector_matches T s n) (\<lambda>m.
            if m \<and> first_only then Some (found @ [n])
            else query_loop T s first_only (st_children T n @ todo) (if m then found @ [n] else found)))"

definition query_all :: "'n selector_tree \<Rightarrow> selector \<Rightarrow> 'n \<Rightarrow> 'n list option" where
  "query_all T s root = query_loop T s False [root] []"

definition query_first :: "'n selector_tree \<Rightarrow> selector \<Rightarrow> 'n \<Rightarrow> 'n option option" where
  "query_first T s root =
     map_option (\<lambda>ns. case ns of [] \<Rightarrow> None | n # _ \<Rightarrow> Some n) (query_loop T s True [root] [])"

end
