(* ===== verification/Retained.thy ===== *)
theory Retained
  imports Selectors
begin

text \<open>
  The retained native store (\<open>crates/deka_native_ir/src/tree.rs\<close>): the records behind the
  nodes of a view, the frames that update them while keeping the identity of every node
  whose slot and kind stay the same, the edits a program makes between frames, and the reads
  of the query interface.

  Memory is the list of the records allocated so far, and a \<open>NodeHandle\<close> is the index of its
  record: equal handles are the same allocation. Strong references are the root, the handles
  held outside (\<open>vt_held\<close>) and the children of a live record; a record with none of them is
  dropped, which the weak references (a parent, an entry of the index) observe.

  The translation of classes to a style (\<open>style.rs\<close>, \<open>motion.rs\<close>) is arithmetic on 32-bit
  floats and enters as the argument \<open>style\<close>, the result of \<open>WireNode::style\<close> on whether the node
  is a text, its tag and its classes.
\<close>

section \<open>Data\<close>

datatype kind = K_Text | K_Element string

text \<open>\<open>WireNode\<close>, and \<open>Prepared\<close>, the same with its style computed.\<close>

datatype wire = Wire
  (wr_tag: string) (wr_classes: string) (wr_attributes: "(string, string) btree")
  (wr_text: "string option") (wr_handler: "nat option") (wr_children: "wire list")

datatype 'st prepared = Prepared
  (pr_kind: kind) (pr_slot: "nat list") (pr_classes: string)
  (pr_attributes: "(string, string) btree") (pr_style: 'st) (pr_text: "string option")
  (pr_handler: "nat option") (pr_children: "'st prepared list")

record 'st view_record =
  vr_id :: nat
  vr_owner :: nat
  vr_parent :: "nat option"
  vr_authored_text :: "string option"
  vr_text_override :: "string option"
  vr_authored_classes :: string
  vr_authored_attributes :: "(string, string) btree"
  vr_attributes :: "(string, string) btree"
  vr_kind :: kind
  vr_slot :: "nat list"
  vr_classes :: string
  vr_style :: 'st
  vr_text :: "string option"
  vr_handler :: "nat option"
  vr_children :: "nat list"

record 'st view_tree =
  vt_mem :: "'st view_record list"
  vt_root :: "nat option"
  vt_records :: "(nat, nat) btree"
  vt_next :: nat
  vt_owner :: nat
  vt_held :: "nat list"

definition class_attribute :: string where
  "class_attribute = ''class''"

definition is_supported_attribute :: "string \<Rightarrow> bool" where
  "is_supported_attribute name \<longleftrightarrow> name \<in> set
     [''id'', class_attribute, ''value'', ''placeholder'', ''aria-label'', ''aria-hidden'',
      ''tabIndex'', ''disabled'', ''role'', ''aria-selected'', ''aria-controls'',
      ''aria-modal'', ''aria-expanded'', ''aria-haspopup'']"


section \<open>References\<close>

text \<open>The records reachable from a list of strong references.\<close>

function strong_reach :: "'st view_record list \<Rightarrow> nat list \<Rightarrow> nat list \<Rightarrow> nat list" where
  "strong_reach m [] seen = seen"
| "strong_reach m (a # todo) seen =
     (if length m \<le> a \<or> a \<in> set seen then strong_reach m todo seen
      else strong_reach m (vr_children (m ! a) @ todo) (a # seen))"
  by pat_completeness auto
termination
proof (relation "measures [\<lambda>(m, todo, seen). card ({..<length m} - set seen), \<lambda>(m, todo, seen). length todo]")
  fix m :: "'st view_record list" and a todo seen
  assume "\<not> (length m \<le> a \<or> a \<in> set seen)"
  then have "a \<in> {..<length m} - set seen" by simp
  moreover have "{..<length m} - set (a # seen) = ({..<length m} - set seen) - {a}" by fastforce
  ultimately have "card ({..<length m} - set (a # seen)) < card ({..<length m} - set seen)"
    by (simp add: card_Diff1_less del: card_Diff_insert)
  then show "((m, vr_children (m ! a) @ todo, a # seen), m, a # todo, seen)
      \<in> measures [\<lambda>(m, todo, seen). card ({..<length m} - set seen), \<lambda>(m, todo, seen). length todo]"
    by simp
qed auto

definition strong :: "'st view_tree \<Rightarrow> nat list" where
  "strong t = (case vt_root t of None \<Rightarrow> [] | Some r \<Rightarrow> [r]) @ vt_held t"

text \<open>\<open>Weak::upgrade\<close> succeeds.\<close>

definition alive :: "'st view_tree \<Rightarrow> nat \<Rightarrow> bool" where
  "alive t a \<longleftrightarrow> a \<in> set (strong_reach (vt_mem t) (strong t) [])"

definition node_at :: "'st view_tree \<Rightarrow> nat \<Rightarrow> 'st view_record" where
  "node_at t a = vt_mem t ! a"

definition set_node :: "nat \<Rightarrow> ('st view_record \<Rightarrow> 'st view_record) \<Rightarrow> 'st view_tree \<Rightarrow> 'st view_tree" where
  "set_node a f t = t\<lparr>vt_mem := (vt_mem t)[a := f (vt_mem t ! a)]\<rparr>"


section \<open>Reading a node\<close>

definition has_click_handler :: "'st view_tree \<Rightarrow> nat \<Rightarrow> bool" where
  "has_click_handler t a \<longleftrightarrow> vr_handler (node_at t a) \<noteq> None"

definition renderer_id :: "nat \<Rightarrow> string" where
  "renderer_id i = ''view/'' @ nat_text i"

definition tag_name :: "'st view_tree \<Rightarrow> nat \<Rightarrow> string option" where
  "tag_name t a = (case vr_kind (node_at t a) of K_Element tag \<Rightarrow> Some tag | K_Text \<Rightarrow> None)"

definition all_children :: "'st view_tree \<Rightarrow> nat \<Rightarrow> nat list" where
  "all_children t a =
     (if vr_text_override (node_at t a) \<noteq> None then [] else vr_children (node_at t a))"

definition is_element :: "'st view_tree \<Rightarrow> nat \<Rightarrow> bool" where
  "is_element t a \<longleftrightarrow> vr_kind (node_at t a) \<noteq> K_Text"

definition upgrade_parent :: "'st view_tree \<Rightarrow> nat \<Rightarrow> nat option" where
  "upgrade_parent t a =
     (case vr_parent (node_at t a) of None \<Rightarrow> None | Some p \<Rightarrow> if alive t p then Some p else None)"

definition node_parent :: "'st view_tree \<Rightarrow> nat \<Rightarrow> nat option" where
  "node_parent t a =
     (case upgrade_parent t a of
        None \<Rightarrow> None
      | Some p \<Rightarrow> if vr_text_override (node_at t p) \<noteq> None then None else Some p)"

definition node_children :: "'st view_tree \<Rightarrow> nat \<Rightarrow> nat list" where
  "node_children t a = filter (is_element t) (all_children t a)"

definition node_attribute :: "'st view_tree \<Rightarrow> nat \<Rightarrow> string \<Rightarrow> string option" where
  "node_attribute t a name =
     (let r = node_at t a
      in if name = class_attribute then map_option (\<lambda>_. vr_classes r) (bt_get (vr_attributes r) name)
         else bt_get (vr_attributes r) name)"

text \<open>
  The recursions over a subtree. Children are allocated after their parent, so the memory
  bounds the depth; a recursion deeper than that would never return.
\<close>

fun text_content :: "nat \<Rightarrow> 'st view_tree \<Rightarrow> nat \<Rightarrow> string option" where
  "text_content 0 t a = None"
| "text_content (Suc k) t a =
     (case vr_text_override (node_at t a) of
        Some x \<Rightarrow> Some x
      | None \<Rightarrow>
          (case those (List.map (text_content k t) (vr_children (node_at t a))) of
             None \<Rightarrow> None
           | Some xs \<Rightarrow> Some ((case vr_text (node_at t a) of None \<Rightarrow> [] | Some x \<Rightarrow> x) @ concat xs)))"

fun element_by_id :: "nat \<Rightarrow> 'st view_tree \<Rightarrow> string \<Rightarrow> nat \<Rightarrow> nat option option"
  and first_by_id :: "nat \<Rightarrow> 'st view_tree \<Rightarrow> string \<Rightarrow> nat list \<Rightarrow> nat option option" where
  "element_by_id 0 t i a = None"
| "element_by_id (Suc k) t i a =
     (if is_element t a \<and> node_attribute t a ''id'' = Some i then Some (Some a)
      else first_by_id k t i (all_children t a))"
| "first_by_id k t i [] = Some None"
| "first_by_id k t i (c # cs) =
     (case element_by_id k t i c of
        None \<Rightarrow> None
      | Some (Some x) \<Rightarrow> Some (Some x)
      | Some None \<Rightarrow> first_by_id k t i cs)"

datatype 'st view_node = View_Node
  (sn_id: string) (sn_style: 'st) (sn_text: "string option") (sn_on_click: "nat option")
  (sn_children: "'st view_node list")

fun snapshot :: "nat \<Rightarrow> 'st view_tree \<Rightarrow> nat \<Rightarrow> 'st view_node option" where
  "snapshot 0 t a = None"
| "snapshot (Suc k) t a =
     (let r = node_at t a
      in map_option
           (View_Node (renderer_id (vr_id r)) (vr_style r)
              (case vr_text_override r of Some x \<Rightarrow> Some x | None \<Rightarrow> vr_text r) (vr_handler r))
           (if vr_text_override r \<noteq> None then Some []
            else those (List.map (snapshot k t) (vr_children r))))"


section \<open>Editing a node\<close>

definition reclaim_text_overrides :: "nat \<Rightarrow> 'st view_tree \<Rightarrow> 'st view_tree" where
  "reclaim_text_overrides a = set_node a (\<lambda>r. r\<lparr>vr_text_override := None\<rparr>)"

definition reclaim_text_binding :: "nat \<Rightarrow> 'st view_tree \<Rightarrow> 'st view_tree" where
  "reclaim_text_binding a t =
     (let t' = reclaim_text_overrides a t
      in if vr_kind (node_at t' a) = K_Text
         then (case upgrade_parent t' a of None \<Rightarrow> t' | Some p \<Rightarrow> reclaim_text_overrides p t')
         else t')"

text \<open>\<open>Record::patch_text\<close> and \<open>Record::patch_classes\<close>.\<close>

definition record_patch_text :: "string option \<Rightarrow> 'st view_record \<Rightarrow> 'st view_record" where
  "record_patch_text x r =
     (if vr_authored_text r = x then r else r\<lparr>vr_authored_text := x, vr_text := x\<rparr>)"

definition record_patch_classes :: "string \<Rightarrow> 'st \<Rightarrow> 'st view_record \<Rightarrow> 'st view_record" where
  "record_patch_classes c st r =
     (if vr_authored_classes r = c then r
      else r\<lparr>vr_authored_classes := c, vr_classes := c, vr_style := st\<rparr>)"

definition set_text_content :: "nat \<Rightarrow> string \<Rightarrow> ('st view_tree, bool) rm" where
  "set_text_content a x t =
     (let r = node_at t a
      in if vr_kind r = K_Text
         then if vr_text r = Some x then (Ok False, t)
              else (Ok True, set_node a (\<lambda>r. r\<lparr>vr_text := Some x\<rparr>) t)
         else if vr_text_override r = Some x then (Ok False, t)
              else (Ok True, set_node a (\<lambda>r. r\<lparr>vr_text_override := Some x\<rparr>) t))"

definition set_attribute ::
    "(bool \<Rightarrow> string \<Rightarrow> string \<Rightarrow> 'st res) \<Rightarrow> nat \<Rightarrow> string \<Rightarrow> string \<Rightarrow> ('st view_tree, bool) rm" where
  "set_attribute style a name v t =
     (let r = node_at t a; store = (\<lambda>r. r\<lparr>vr_attributes := bt_insert name v (vr_attributes r)\<rparr>)
      in case vr_kind r of
           K_Text \<Rightarrow> (Err ''attributes require an element'', t)
         | K_Element tag \<Rightarrow>
             if \<not> is_supported_attribute name then (Err (''unsupported native attribute '' @ name), t)
             else if name = class_attribute
             then (case style False tag v of
                     Err e \<Rightarrow> (Err e, t)
                   | Panic e \<Rightarrow> (Panic e, t)
                   | Ok st \<Rightarrow>
                       if bt_get (vr_attributes r) name = Some v then (Ok False, t)
                       else (Ok True, set_node a (\<lambda>r. store (r\<lparr>vr_classes := v, vr_style := st\<rparr>)) t))
             else if bt_get (vr_attributes r) name = Some v then (Ok False, t)
             else (Ok True, set_node a store t))"

definition patch_text :: "nat \<Rightarrow> string \<Rightarrow> ('st view_tree, bool) rm" where
  "patch_text a x t =
     (let changed = (vr_authored_text (node_at t a) \<noteq> Some x);
          t' = set_node a (record_patch_text (Some x)) t
      in (Ok changed, if changed then reclaim_text_binding a t' else t'))"

definition patch_classes ::
    "(bool \<Rightarrow> string \<Rightarrow> string \<Rightarrow> 'st res) \<Rightarrow> nat \<Rightarrow> string \<Rightarrow> ('st view_tree, bool) rm" where
  "patch_classes style a c t =
     (let r = node_at t a
      in if vr_authored_classes r = c then (Ok False, t)
         else case (case vr_kind r of K_Text \<Rightarrow> style True [] c | K_Element tag \<Rightarrow> style False tag c) of
           Err e \<Rightarrow> (Err e, t)
         | Panic e \<Rightarrow> (Panic e, t)
         | Ok st \<Rightarrow> (Ok True, set_node a (\<lambda>r. record_patch_classes c st
             (r\<lparr>vr_authored_attributes := bt_insert class_attribute c (vr_authored_attributes r),
                vr_attributes := bt_insert class_attribute c (vr_attributes r)\<rparr>)) t))"

definition patch_attribute ::
    "(bool \<Rightarrow> string \<Rightarrow> string \<Rightarrow> 'st res) \<Rightarrow> nat \<Rightarrow> string \<Rightarrow> string \<Rightarrow> ('st view_tree, bool) rm" where
  "patch_attribute style a name v t =
     (if name = class_attribute then patch_classes style a v t
      else if bt_get (vr_authored_attributes (node_at t a)) name = Some v then (Ok False, t)
      else (Ok True, set_node a (\<lambda>r. r\<lparr>vr_authored_attributes := bt_insert name v (vr_authored_attributes r),
                                       vr_attributes := bt_insert name v (vr_attributes r)\<rparr>) t))"


section \<open>A frame\<close>

text \<open>The iterator of the slots: a list, or one that repeats the empty slot for ever.\<close>

definition next_slot :: "nat list list option \<Rightarrow> (nat list \<times> nat list list option) option" where
  "next_slot slts =
     (case slts of None \<Rightarrow> Some ([], None) | Some [] \<Rightarrow> None | Some (s # ss) \<Rightarrow> Some (s, Some ss))"

fun prepare :: "(bool \<Rightarrow> string \<Rightarrow> string \<Rightarrow> 'st res) \<Rightarrow> wire \<Rightarrow> nat list list option \<Rightarrow> ('st prepared \<times> nat list list option) res"
  and prepare_children :: "(bool \<Rightarrow> string \<Rightarrow> string \<Rightarrow> 'st res) \<Rightarrow> wire list \<Rightarrow> nat list list option \<Rightarrow> ('st prepared list \<times> nat list list option) res" where
  "prepare style (Wire tag classes attributes txt handler ws) slts =
     (case next_slot slts of
        None \<Rightarrow> Err ''missing structural slot''
      | Some (slot, rest) \<Rightarrow>
          res_bind (style (txt \<noteq> None) tag classes) (\<lambda>st.
          res_bind (prepare_children style ws rest) (\<lambda>(cs, rest').
            Ok (Prepared (if txt \<noteq> None then K_Text else K_Element tag) slot classes attributes st txt handler cs, rest'))))"
| "prepare_children style [] slts = Ok ([], slts)"
| "prepare_children style (w # ws) slts =
     res_bind (prepare style w slts) (\<lambda>(c, rest).
     res_bind (prepare_children style ws rest) (\<lambda>(cs, rest'). Ok (c # cs, rest')))"

definition new_node :: "'st prepared \<Rightarrow> ('st view_tree, nat) rm" where
  "new_node p t =
     (if usize_max \<le> vt_next t then (Err ''node identity exhausted'', t)
      else let a = length (vt_mem t) in
        (Ok a, t\<lparr>vt_next := Suc (vt_next t),
                 vt_mem := vt_mem t @
                   [\<lparr>vr_id = vt_next t, vr_owner = vt_owner t, vr_parent = None,
                     vr_authored_text = pr_text p, vr_text_override = None,
                     vr_authored_classes = pr_classes p, vr_authored_attributes = pr_attributes p,
                     vr_attributes = pr_attributes p, vr_kind = pr_kind p, vr_slot = pr_slot p,
                     vr_classes = pr_classes p, vr_style = pr_style p, vr_text = pr_text p,
                     vr_handler = pr_handler p, vr_children = []\<rparr>],
                 vt_records := bt_insert (vt_next t) a (vt_records t)\<rparr>))"

text \<open>\<open>by_slot\<close>: for each slot the first old child that has it.\<close>

definition by_slot :: "'st view_record list \<Rightarrow> nat list \<Rightarrow> (nat list \<times> nat) list" where
  "by_slot m old =
     foldl (\<lambda>b a. if vr_slot (m ! a) \<in> fst ` set b then b else b @ [(vr_slot (m ! a), a)]) [] old"

definition merge_attributes ::
    "(string, string) btree \<Rightarrow> (string, string) btree \<Rightarrow> (string, string) btree \<Rightarrow> (string, string) btree" where
  "merge_attributes authored new attributes =
     foldl (\<lambda>m name.
       if bt_get authored name \<noteq> bt_get new name
       then (case bt_get new name of Some v \<Rightarrow> bt_insert name v m | None \<Rightarrow> bt_remove name m)
       else m) attributes (bt_keys (bt_collect (List.map (\<lambda>n. (n, ())) (bt_keys authored @ bt_keys new))))"

text \<open>The removed children forget their parent.\<close>

definition clear_parents :: "nat list \<Rightarrow> nat list \<Rightarrow> 'st view_tree \<Rightarrow> 'st view_tree" where
  "clear_parents old kept t =
     fold (\<lambda>a. set_node a (\<lambda>r. r\<lparr>vr_parent := None\<rparr>)) (filter (\<lambda>a. a \<notin> set kept) old) t"

definition patch_record :: "'st prepared \<Rightarrow> nat list \<Rightarrow> 'st view_record \<Rightarrow> 'st view_record" where
  "patch_record p children r =
     (let r = record_patch_classes (pr_classes p) (pr_style p) r;
          r = r\<lparr>vr_attributes := merge_attributes (vr_authored_attributes r) (pr_attributes p) (vr_attributes r)\<rparr>;
          r = r\<lparr>vr_authored_attributes := pr_attributes p\<rparr>;
          r = record_patch_text (pr_text p) r;
          r = r\<lparr>vr_handler := pr_handler p\<rparr>
      in r\<lparr>vr_children := children\<rparr>)"

definition finish_retain :: "nat \<Rightarrow> 'st prepared \<Rightarrow> nat list \<Rightarrow> nat list \<Rightarrow> 'st view_tree \<Rightarrow> 'st view_tree" where
  "finish_retain a p old children t =
     (let t = clear_parents old children t;
          text_changed = (vr_authored_text (node_at t a) \<noteq> pr_text p);
          children_changed = (vr_children (node_at t a) \<noteq> children);
          t = set_node a (patch_record p children) t;
          t = (if text_changed then reclaim_text_binding a t else t)
      in if children_changed then reclaim_text_overrides a t else t)"

definition same_kind :: "'st view_tree \<Rightarrow> nat option \<Rightarrow> kind \<Rightarrow> nat option" where
  "same_kind t current k =
     (case current of None \<Rightarrow> None | Some a \<Rightarrow> if vr_kind (node_at t a) = k then Some a else None)"

fun retain :: "nat option \<Rightarrow> 'st prepared \<Rightarrow> ('st view_tree, nat) rm"
  and retain_children :: "nat \<Rightarrow> nat list \<Rightarrow> (nat list \<times> nat) list \<Rightarrow> nat \<Rightarrow> 'st prepared list \<Rightarrow> ('st view_tree, nat list) rm" where
  "retain current (Prepared k slot classes attributes st txt handler ps) =
     bind (gets (\<lambda>t. same_kind t current k)) (\<lambda>kept.
     bind (case kept of Some a \<Rightarrow> ret a | None \<Rightarrow> new_node (Prepared k slot classes attributes st txt handler ps)) (\<lambda>a.
     bind (gets (\<lambda>t. vr_children (node_at t a))) (\<lambda>old.
     bind (gets (\<lambda>t. by_slot (vt_mem t) old)) (\<lambda>slts.
     bind (retain_children a old slts 0 ps) (\<lambda>children.
     seq (modify (finish_retain a (Prepared k slot classes attributes st txt handler ps) old children)) (ret a))))))"
| "retain_children a old slts i [] = ret []"
| "retain_children a old slts i (p # ps) =
     bind (retain (if pr_slot p = [] then (if i < length old then Some (old ! i) else None)
                   else map_of slts (pr_slot p)) p) (\<lambda>c.
     seq (modify (set_node c (\<lambda>r. r\<lparr>vr_parent := Some a\<rparr>)))
     (bind (retain_children a old
              (if pr_slot p = [] then slts else filter (\<lambda>(s, _). s \<noteq> pr_slot p) slts) (Suc i) ps) (\<lambda>cs.
      ret (c # cs))))"

text \<open>\<open>self.records.retain(|_, record| record.strong_count() > 0)\<close>; \<open>locals\<close> are the strong
  references of the local variables that are not held otherwise.\<close>

definition sweep_records :: "nat list \<Rightarrow> 'st view_tree \<Rightarrow> 'st view_tree" where
  "sweep_records locals t =
     t\<lparr>vt_records := bt_retain (\<lambda>_ a. alive (t\<lparr>vt_held := locals @ vt_held t\<rparr>) a) (vt_records t)\<rparr>"

definition lookup :: "'st view_tree \<Rightarrow> nat \<Rightarrow> nat option" where
  "lookup t i =
     (case bt_get (vt_records t) i of
        None \<Rightarrow> None
      | Some a \<Rightarrow> if alive t a \<and> vr_owner (node_at t a) = vt_owner t then Some a else None)"

text \<open>\<open>root.snapshot()\<close>, which the height of the tree bounds by the memory.\<close>

definition snapshot_of :: "nat \<Rightarrow> ('st view_tree, 'st view_node) rm" where
  "snapshot_of a t =
     (case snapshot (length (vt_mem t)) t a of None \<Rightarrow> (Panic stack_overflow, t) | Some n \<Rightarrow> (Ok n, t))"

definition commit :: "'st prepared \<Rightarrow> ('st view_tree, 'st view_node) rm" where
  "commit p =
     bind (gets vt_root) (\<lambda>current.
     bind (retain current p) (\<lambda>root.
     seq (modify (\<lambda>t. t\<lparr>vt_root := Some root\<rparr>))
     (seq (modify (sweep_records []))
     (bind (gets (\<lambda>t. lookup t (vr_id (node_at t root)))) (\<lambda>found.
      bind (of_opt ''missing retained root'' found) snapshot_of)))))"

definition update_slots ::
    "(bool \<Rightarrow> string \<Rightarrow> string \<Rightarrow> 'st res) \<Rightarrow> wire \<Rightarrow> nat list list \<Rightarrow> ('st view_tree, 'st view_node) rm" where
  "update_slots style w slts = bind (lift_res (prepare style w (Some slts))) (\<lambda>(p, _). commit p)"

definition update :: "(bool \<Rightarrow> string \<Rightarrow> string \<Rightarrow> 'st res) \<Rightarrow> wire \<Rightarrow> ('st view_tree, 'st view_node) rm" where
  "update style w = bind (lift_res (prepare style w None)) (\<lambda>(p, _). commit p)"


section \<open>Edits of the structure\<close>

definition owns :: "'st view_tree \<Rightarrow> nat \<Rightarrow> bool" where
  "owns t a \<longleftrightarrow> vr_owner (node_at t a) = vt_owner t"

text \<open>The merge of two sequences by slot, the first preferred.\<close>

fun merge_by :: "('a \<Rightarrow> 'b::linorder) \<Rightarrow> 'a list \<Rightarrow> 'a list \<Rightarrow> 'a list" where
  "merge_by f (a # as) (b # bs) = (if f a \<le> f b then a # merge_by f as (b # bs) else b # merge_by f (a # as) bs)"
| "merge_by f as [] = as"
| "merge_by f [] bs = bs"

text \<open>
  \<open>replace_slot\<close>. Every new child has a slot that begins with the prefix, so its loop is that
  of \<open>retain\<close> on slots that are not empty. A sequence that is in order already is left as it is,
  which is what the stable sort does to it. The old children whose slot no new child took are
  still in the local map when the index is swept.
\<close>

definition within :: "nat list \<Rightarrow> nat list \<Rightarrow> bool" where
  "within prefix slot \<longleftrightarrow> take (length prefix) slot = prefix"

definition splice :: "nat \<Rightarrow> nat list \<Rightarrow> nat list \<Rightarrow> nat list \<Rightarrow> 'st view_tree \<Rightarrow> 'st view_tree" where
  "splice parent prefix old new t =
     (let slot = (\<lambda>a. vr_slot (node_at t a));
          t' = clear_parents (filter (\<lambda>a. within prefix (slot a)) old) new t;
          children = merge_by slot (sort_key slot (filter (\<lambda>a. \<not> within prefix (slot a)) old)) (sort_key slot new);
          changed = (vr_children (node_at t' parent) \<noteq> children);
          t' = set_node parent (\<lambda>r. r\<lparr>vr_children := children\<rparr>) t'
      in if changed then reclaim_text_overrides parent t' else t')"

definition replace_slot ::
    "(bool \<Rightarrow> string \<Rightarrow> string \<Rightarrow> 'st res) \<Rightarrow> nat \<Rightarrow> nat list \<Rightarrow> wire list \<Rightarrow> nat list list \<Rightarrow> ('st view_tree, nat list) rm" where
  "replace_slot style parent prefix wires slts =
     bind (gets (\<lambda>t. prefix = [] \<or> \<not> owns t parent)) (\<lambda>bad.
     if bad then fail ''invalid retained structural slot''
     else bind (lift_res (prepare_children style wires (Some slts))) (\<lambda>(ps, _).
       if list_ex (\<lambda>p. \<not> within prefix (pr_slot p)) ps then fail ''child lies outside its structural slot''
       else bind (gets (\<lambda>t. vr_children (node_at t parent))) (\<lambda>old.
         bind (gets (\<lambda>t. by_slot (vt_mem t) old)) (\<lambda>slts.
         bind (retain_children parent old slts 0 ps) (\<lambda>new.
         seq (modify (splice parent prefix old new))
         (seq (modify (sweep_records (List.map snd (filter (\<lambda>(s, _). s \<notin> pr_slot ` set ps) slts))))
          (ret new)))))))"

datatype keyed_child = Keyed_Kept nat | Keyed_New wire "nat list list"

datatype 'st keyed_next = Next_Kept nat | Next_New "'st prepared"

text \<open>The complete edit is validated before the topology changes.\<close>

fun validate_keyed ::
    "(bool \<Rightarrow> string \<Rightarrow> string \<Rightarrow> 'st res) \<Rightarrow> 'st view_tree \<Rightarrow> nat \<Rightarrow> nat list \<Rightarrow> keyed_child list \<Rightarrow> 'st keyed_next list res" where
  "validate_keyed style t parent seen [] = Ok []"
| "validate_keyed style t parent seen (Keyed_Kept a # cs) =
     (if \<not> owns t a \<or> node_parent t a \<noteq> Some parent \<or> a \<in> set seen
      then Err ''invalid or duplicate keyed child''
      else res_map ((#) (Next_Kept a)) (validate_keyed style t parent (a # seen) cs))"
| "validate_keyed style t parent seen (Keyed_New w slts # cs) =
     res_bind (prepare style w (Some slts)) (\<lambda>(p, _).
       res_map ((#) (Next_New p)) (validate_keyed style t parent seen cs))"

fun keyed_roots :: "nat \<Rightarrow> 'st keyed_next list \<Rightarrow> ('st view_tree, nat list) rm" where
  "keyed_roots parent [] = ret []"
| "keyed_roots parent (c # cs) =
     bind (case c of Next_Kept a \<Rightarrow> ret a | Next_New p \<Rightarrow> retain None p) (\<lambda>a.
     seq (modify (set_node a (\<lambda>r. r\<lparr>vr_parent := Some parent\<rparr>)))
     (bind (keyed_roots parent cs) (\<lambda>as. ret (a # as))))"

definition set_children :: "nat \<Rightarrow> nat list \<Rightarrow> 'st view_tree \<Rightarrow> 'st view_tree" where
  "set_children parent roots t =
     (let t' = clear_parents (vr_children (node_at t parent)) roots t
      in if vr_children (node_at t' parent) \<noteq> roots
         then reclaim_text_overrides parent (set_node parent (\<lambda>r. r\<lparr>vr_children := roots\<rparr>) t')
         else t')"

definition replace_keyed_children ::
    "(bool \<Rightarrow> string \<Rightarrow> string \<Rightarrow> 'st res) \<Rightarrow> nat \<Rightarrow> keyed_child list \<Rightarrow> ('st view_tree, nat list) rm" where
  "replace_keyed_children style parent children =
     bind (gets (\<lambda>t. owns t parent)) (\<lambda>own.
     if \<not> own then fail ''keyed container belongs to another tree''
     else bind (\<lambda>t. (validate_keyed style t parent [] children, t)) (\<lambda>next.
       bind (keyed_roots parent next) (\<lambda>roots.
       seq (modify (set_children parent roots))
       (seq (modify (sweep_records [])) (ret roots)))))"


section \<open>Queries\<close>

text \<open>The adapter of the store for selectors.\<close>

definition tree_view :: "'st view_tree \<Rightarrow> nat selector_tree" where
  "tree_view t = \<lparr>
     st_element = (\<lambda>a. let r = node_at t a in
       case vr_kind r of
         K_Text \<Rightarrow> None
       | K_Element tag \<Rightarrow> Some \<lparr>el_tag = tag, el_id = bt_get (vr_attributes r) ''id'', el_classes = vr_classes r\<rparr>),
     st_parent = node_parent t,
     st_children = all_children t\<rparr>"

definition query :: "'st view_tree \<Rightarrow> selector \<Rightarrow> bool \<Rightarrow> nat list option" where
  "query t s all =
     (case vt_root t of
        None \<Rightarrow> Some []
      | Some r \<Rightarrow>
          if all then query_all (tree_view t) s r
          else map_option (\<lambda>x. case x of None \<Rightarrow> [] | Some n \<Rightarrow> [n]) (query_first (tree_view t) s r))"

text \<open>A client keeps a handle it was given, and drops it.\<close>

definition hold :: "nat \<Rightarrow> 'st view_tree \<Rightarrow> 'st view_tree" where
  "hold a t = t\<lparr>vt_held := a # vt_held t\<rparr>"

definition drop_handle :: "nat \<Rightarrow> 'st view_tree \<Rightarrow> 'st view_tree" where
  "drop_handle a t = t\<lparr>vt_held := remove1 a (vt_held t)\<rparr>"

definition empty_tree :: "nat \<Rightarrow> 'st view_tree" where
  "empty_tree owner = \<lparr>vt_mem = [], vt_root = None, vt_records = [], vt_next = 0, vt_owner = owner, vt_held = []\<rparr>"

end
