(* ===== verification/RetainedInv.thy ===== *)
theory RetainedInv
  imports Retained
begin

text \<open>
  The invariant of the retained store. Ownership is a forest: every child names its parent,
  which was allocated before it, so subtrees of siblings are disjoint and the recursions over
  the store end. The main lemma says what \<open>retain\<close> does to the memory: it touches only the
  subtree it was given and new records, and leaves the prepared node on display.
\<close>

section \<open>Forests\<close>

definition forest :: "'st view_record list \<Rightarrow> bool" where
  "forest m \<longleftrightarrow> (\<forall>a < length m.
     distinct (vr_children (m ! a)) \<and>
     (\<forall>c \<in> set (vr_children (m ! a)). c < length m \<and> vr_parent (m ! c) = Some a) \<and>
     (\<forall>p. vr_parent (m ! a) = Some p \<longrightarrow> p < a))"

text \<open>\<open>below m a x\<close>: \<open>x\<close> lies in the subtree of \<open>a\<close>.\<close>

inductive below :: "'st view_record list \<Rightarrow> nat \<Rightarrow> nat \<Rightarrow> bool" for m a where
  self: "below m a a"
| child: "below m a x \<Longrightarrow> y \<in> set (vr_children (m ! x)) \<Longrightarrow> below m a y"

definition subtree :: "'st view_record list \<Rightarrow> nat option \<Rightarrow> nat set" where
  "subtree m a = (case a of None \<Rightarrow> {} | Some x \<Rightarrow> {y. below m x y})"

lemma forest_child:
  assumes "forest m" and "a < length m" and "c \<in> set (vr_children (m ! a))"
  shows "c < length m" and "vr_parent (m ! c) = Some a" and "a < c"
  using assms unfolding forest_def by blast+

lemma forest_parent: "forest m \<Longrightarrow> a < length m \<Longrightarrow> vr_parent (m ! a) = Some p \<Longrightarrow> p < a"
  by (simp add: forest_def)

lemma forest_distinct: "forest m \<Longrightarrow> a < length m \<Longrightarrow> distinct (vr_children (m ! a))"
  by (simp add: forest_def)

lemma below_range:
  assumes "below m a x" and f: "forest m" and "a < length m"
  shows "x < length m \<and> a \<le> x"
  using assms(1)
proof (induction rule: below.induct)
  case (child x y)
  then show ?case using forest_child [OF f, of x y] by auto
qed (use assms(3) in simp)

lemma below_trans: "below m b x \<Longrightarrow> below m a b \<Longrightarrow> below m a x"
  by (induction rule: below.induct) (auto intro: below.child)

lemma below_up:
  assumes "forest m" and "a < length m" and "below m a x" and "x \<noteq> a"
  shows "\<exists>p. vr_parent (m ! x) = Some p \<and> p < x \<and> below m a p"
  using assms(3,4)
proof cases
  case (child p)
  then show ?thesis using forest_child [OF assms(1)] below_range [OF child(1) assms(1,2)] by blast
qed simp

lemma sibling_not_below:
  assumes f: "forest m" and n: "n < length m" and "o1 \<noteq> o2"
    and o: "o1 \<in> set (vr_children (m ! n))" "o2 \<in> set (vr_children (m ! n))"
  shows "\<not> below m o2 o1"
proof
  note o1 = forest_child [OF f n o(1)] and o2 = forest_child [OF f n o(2)]
  assume "below m o2 o1"
  then obtain p where "vr_parent (m ! o1) = Some p" "below m o2 p"
    using below_up [OF f o2(1)] assms(3) by blast
  then have "o2 \<le> n" using o1(2) below_range [OF _ f o2(1)] by simp
  then show False using o2(3) by simp
qed

lemma siblings_apart:
  assumes f: "forest m" and n: "n < length m"
    and o: "o1 \<in> set (vr_children (m ! n))" "o2 \<in> set (vr_children (m ! n))"
  shows "below m o1 y \<Longrightarrow> below m o2 y \<Longrightarrow> o1 = o2"
proof (induction y rule: less_induct)
  case (less y)
  note o1 = forest_child [OF f n o(1)] and o2 = forest_child [OF f n o(2)]
  show ?case
  proof (cases "y = o1 \<or> y = o2")
    case True
    then show ?thesis
      using less.prems sibling_not_below [OF f n _ o] sibling_not_below [OF f n _ o(2,1)] by metis
  next
    case False
    then show ?thesis
      using below_up [OF f o1(1) less.prems(1)] below_up [OF f o2(1) less.prems(2)] less.IH by auto
  qed
qed

section \<open>What an operation leaves alone\<close>

text \<open>
  Equal but for the effective text of the element, which may have been dropped; equal also but for
  the parent.
\<close>

definition same :: "'st view_record \<Rightarrow> 'st view_record \<Rightarrow> bool" where
  "same r r' \<longleftrightarrow> r' = r\<lparr>vr_text_override := vr_text_override r'\<rparr> \<and>
     vr_text_override r' \<in> {None, vr_text_override r}"

definition sim :: "'st view_record \<Rightarrow> 'st view_record \<Rightarrow> bool" where
  "sim r r' \<longleftrightarrow> r' = r\<lparr>vr_text_override := vr_text_override r', vr_parent := vr_parent r'\<rparr> \<and>
     vr_text_override r' \<in> {None, vr_text_override r}"

lemma same_refl [simp]: "same r r"
  by (simp add: same_def)

lemma same_trans: "same a b \<Longrightarrow> same b c \<Longrightarrow> same a c"
  unfolding same_def by (cases a; cases b; cases c) auto

lemma same_sim: "same a b \<Longrightarrow> sim a b"
  unfolding same_def sim_def by (cases a; cases b) simp

lemma sim_trans: "sim a b \<Longrightarrow> sim b c \<Longrightarrow> sim a c"
  unfolding sim_def by (cases a; cases b; cases c) auto

lemma same_reads:
  assumes "same r r'"
  shows "vr_children r' = vr_children r" and "vr_parent r' = vr_parent r" and "vr_kind r' = vr_kind r"
    and "vr_id r' = vr_id r" and "vr_owner r' = vr_owner r" and "vr_slot r' = vr_slot r"
    and "vr_authored_text r' = vr_authored_text r" and "vr_authored_classes r' = vr_authored_classes r"
    and "vr_authored_attributes r' = vr_authored_attributes r" and "vr_handler r' = vr_handler r"
    and "vr_text r' = vr_text r" and "vr_classes r' = vr_classes r" and "vr_style r' = vr_style r"
    and "vr_attributes r' = vr_attributes r" and "vr_text_override r' \<in> {None, vr_text_override r}"
  using assms unfolding same_def by (cases r; cases r'; simp)+

lemma sim_reads:
  assumes "sim r r'"
  shows "vr_children r' = vr_children r" and "vr_kind r' = vr_kind r"
    and "vr_id r' = vr_id r" and "vr_owner r' = vr_owner r" and "vr_slot r' = vr_slot r"
    and "vr_authored_text r' = vr_authored_text r" and "vr_authored_classes r' = vr_authored_classes r"
    and "vr_authored_attributes r' = vr_authored_attributes r" and "vr_handler r' = vr_handler r"
    and "vr_text r' = vr_text r" and "vr_classes r' = vr_classes r" and "vr_style r' = vr_style r"
    and "vr_attributes r' = vr_attributes r" and "vr_text_override r' \<in> {None, vr_text_override r}"
  using assms unfolding sim_def by (cases r; cases r'; simp)+

text \<open>
  From one memory to a later one: the records outside \<open>S\<close> keep everything but their effective
  text; children that a record gains are new, and new records have new children.
\<close>

definition evolves :: "nat set \<Rightarrow> 'st view_record list \<Rightarrow> 'st view_record list \<Rightarrow> bool" where
  "evolves S m m' \<longleftrightarrow> length m \<le> length m' \<and>
     (\<forall>y < length m. (y \<notin> S \<longrightarrow> same (m ! y) (m' ! y)) \<and>
        vr_id (m' ! y) = vr_id (m ! y) \<and> vr_owner (m' ! y) = vr_owner (m ! y) \<and>
        set (vr_children (m' ! y)) \<subseteq> set (vr_children (m ! y)) \<union> {length m..}) \<and>
     (\<forall>y. length m \<le> y \<and> y < length m' \<longrightarrow> set (vr_children (m' ! y)) \<subseteq> {length m..})"

lemma evolves_refl: "evolves S m m"
  by (auto simp: evolves_def)

lemma evolves_mono: "evolves S m m' \<Longrightarrow> S \<subseteq> S' \<Longrightarrow> evolves S' m m'"
  by (auto simp: evolves_def)

lemma chain: "A \<subseteq> B \<union> C' \<Longrightarrow> B \<subseteq> D \<union> C \<Longrightarrow> C' \<subseteq> C \<Longrightarrow> A \<subseteq> D \<union> C"
  by blast

lemma evolves_trans:
  assumes a: "evolves S m m'" and b: "evolves S' m' m''" and s: "S' \<subseteq> S \<union> {length m..}"
  shows "evolves S m m''"
  unfolding evolves_def
proof (intro conjI allI impI)
  show le: "length m \<le> length m''" using a b by (auto simp: evolves_def)
  fix y assume y: "y < length m"
  then have y': "y < length m'" using a by (auto simp: evolves_def)
  show "same (m ! y) (m'' ! y)" if "y \<notin> S"
  proof (rule same_trans)
    show "same (m ! y) (m' ! y)" using a y that by (simp add: evolves_def)
    have "y \<notin> S'" using s that y by auto
    then show "same (m' ! y) (m'' ! y)" using b y' by (simp add: evolves_def)
  qed
  show "vr_id (m'' ! y) = vr_id (m ! y)" "vr_owner (m'' ! y) = vr_owner (m ! y)"
    using y y' a b by (simp_all add: evolves_def)
  have "set (vr_children (m'' ! y)) \<subseteq> set (vr_children (m' ! y)) \<union> {length m'..}" using b y' by (simp add: evolves_def)
  moreover have "set (vr_children (m' ! y)) \<subseteq> set (vr_children (m ! y)) \<union> {length m..}" using a y by (simp add: evolves_def)
  moreover have "{length m'..} \<subseteq> {length m..}" using a by (simp add: evolves_def)
  ultimately show "set (vr_children (m'' ! y)) \<subseteq> set (vr_children (m ! y)) \<union> {length m..}" by (rule chain)
next
  fix y assume y: "length m \<le> y \<and> y < length m''"
  have le: "{length m'..} \<subseteq> {length m..}" using a by (simp add: evolves_def)
  show "set (vr_children (m'' ! y)) \<subseteq> {length m..}"
  proof (cases "y < length m'")
    case True
    then have "set (vr_children (m'' ! y)) \<subseteq> set (vr_children (m' ! y)) \<union> {length m'..}" "set (vr_children (m' ! y)) \<subseteq> {length m..}"
      using a b y by (simp_all add: evolves_def)
    then show ?thesis using le chain [of _ _ _ "{}"] by (metis Un_empty_left)
  next
    case False
    then have "set (vr_children (m'' ! y)) \<subseteq> {length m'..}" using b y by (simp add: evolves_def)
    then show ?thesis using le by (rule subset_trans)
  qed
qed

lemma evolves_same: "evolves S m m' \<Longrightarrow> y < length m \<Longrightarrow> y \<notin> S \<Longrightarrow> same (m ! y) (m' ! y)"
  by (simp add: evolves_def)

lemma evolves_length: "evolves S m m' \<Longrightarrow> length m \<le> length m'"
  by (simp add: evolves_def)

text \<open>A subtree that is left alone is the same subtree afterwards.\<close>

lemma below_kept:
  assumes f: "forest m" and a: "a < length m" and k: "\<And>y. below m a y \<Longrightarrow> sim (m ! y) (m' ! y)"
  shows "below m' a y \<longleftrightarrow> below m a y"
proof
  show "below m' a y \<Longrightarrow> below m a y"
  proof (induction rule: below.induct)
    case (child x y)
    then show ?case using sim_reads(1) [OF k [OF child(3)]] by (auto intro: below.child)
  qed (rule below.self)
  show "below m a y \<Longrightarrow> below m' a y"
  proof (induction rule: below.induct)
    case (child x y)
    then show ?case using sim_reads(1) [OF k [OF child(1)]] by (auto intro: below.child)
  qed (rule below.self)
qed

section \<open>What a node displays\<close>

text \<open>
  What a frame leaves of the effective values of a node that it continues: where the authored value
  is what it was, what the application has set since stays; where it is another, that is shown. An
  effective text set on an element does not outlive a change of its authored text or of the list of
  its children.
\<close>

definition carried :: "'st prepared \<Rightarrow> 'st view_record \<Rightarrow> 'st view_record \<Rightarrow> bool" where
  "carried p r r' \<longleftrightarrow>
     vr_text r' = (if vr_authored_text r = pr_text p then vr_text r else pr_text p) \<and>
     vr_classes r' = (if vr_authored_classes r = pr_classes p then vr_classes r else pr_classes p) \<and>
     vr_style r' = (if vr_authored_classes r = pr_classes p then vr_style r else pr_style p) \<and>
     (\<forall>n. bt_get (vr_attributes r') n =
        (if bt_get (vr_authored_attributes r) n = bt_get (pr_attributes p) n then bt_get (vr_attributes r) n
         else bt_get (pr_attributes p) n)) \<and>
     (vr_text_override r' = None \<or>
      vr_text_override r' = vr_text_override r \<and> vr_authored_text r = pr_text p \<and> vr_children r' = vr_children r)"

text \<open>A new node shows what was authored.\<close>

definition carried_new :: "'st prepared \<Rightarrow> 'st view_record \<Rightarrow> bool" where
  "carried_new p r' \<longleftrightarrow> vr_text r' = pr_text p \<and> vr_classes r' = pr_classes p \<and> vr_style r' = pr_style p \<and>
     (\<forall>n. bt_get (vr_attributes r') n = bt_get (pr_attributes p) n) \<and> vr_text_override r' = None"

lemma carried_sim:
  "carried p r1 r' \<Longrightarrow> sim r r1 \<Longrightarrow> carried p r r'" "carried p r r1 \<Longrightarrow> sim r1 r' \<Longrightarrow> carried p r r'"
  "carried_new p r1 \<Longrightarrow> sim r1 r' \<Longrightarrow> carried_new p r'"
  by (auto simp: carried_def carried_new_def sim_reads(1,6-8,10-13) dest: sim_reads(14))

text \<open>The node and its subtree carry the authored values of a prepared node.\<close>

inductive displays :: "'st view_record list \<Rightarrow> nat \<Rightarrow> 'st prepared \<Rightarrow> bool" for m where
  "a < length m \<Longrightarrow> vr_kind (m ! a) = pr_kind p \<Longrightarrow> vr_authored_text (m ! a) = pr_text p \<Longrightarrow>
   vr_authored_classes (m ! a) = pr_classes p \<Longrightarrow> vr_authored_attributes (m ! a) = pr_attributes p \<Longrightarrow>
   vr_handler (m ! a) = pr_handler p \<Longrightarrow> list_all2 (displays m) (vr_children (m ! a)) (pr_children p) \<Longrightarrow>
   displays m a p"

lemma displays_kept:
  "displays m a p \<Longrightarrow> (\<And>y. below m a y \<Longrightarrow> sim (m ! y) (m' ! y)) \<Longrightarrow> length m \<le> length m' \<Longrightarrow> displays m' a p"
proof (induction rule: displays.induct)
  case (1 a p)
  note r = sim_reads [OF "1.prems"(1) [OF below.self]]
  have "list_all2 (displays m') (vr_children (m ! a)) (pr_children p)"
  proof (rule list.rel_mono_strong [OF 1(7)])
    fix c q
    assume c: "c \<in> set (vr_children (m ! a))" and ih: "displays m c q \<and> ((\<forall>y. below m c y \<longrightarrow> sim (m ! y) (m' ! y)) \<longrightarrow> length m \<le> length m' \<longrightarrow> displays m' c q)"
    have "below m a y" if "below m c y" for y
      using that below_trans below.child [OF below.self c] by blast
    then show "displays m' c q" using ih "1.prems" by blast
  qed
  then show ?case using 1 r by (intro displays.intros) simp_all
qed

section \<open>Single steps\<close>

lemma set_node_fields [simp]:
  "vt_mem (set_node a f t) = (vt_mem t)[a := f (vt_mem t ! a)]"
  "vt_root (set_node a f t) = vt_root t" "vt_records (set_node a f t) = vt_records t"
  "vt_next (set_node a f t) = vt_next t" "vt_owner (set_node a f t) = vt_owner t"
  "vt_held (set_node a f t) = vt_held t"
  by (simp_all add: set_node_def)

text \<open>What an edit of records leaves of the rest of the store.\<close>

definition same_index :: "'st view_tree \<Rightarrow> 'st view_tree \<Rightarrow> bool" where
  "same_index t t' \<longleftrightarrow> vt_root t' = vt_root t \<and> vt_records t' = vt_records t \<and> vt_next t' = vt_next t \<and>
     vt_owner t' = vt_owner t \<and> vt_held t' = vt_held t \<and> length (vt_mem t') = length (vt_mem t)"

lemma same_index_refl [simp]: "same_index t t"
  by (simp add: same_index_def)

lemma same_index_trans: "same_index t t1 \<Longrightarrow> same_index t1 t2 \<Longrightarrow> same_index t t2"
  by (simp add: same_index_def)

lemma same_index_set [simp]: "same_index t (set_node a f t)"
  by (simp add: same_index_def)

lemma override_same: "same r (r\<lparr>vr_text_override := None\<rparr>)"
  by (simp add: same_def)

lemma reclaim_overrides:
  "same_index t (reclaim_text_overrides a t)"
  "y < length (vt_mem t) \<Longrightarrow> same (vt_mem t ! y) (vt_mem (reclaim_text_overrides a t) ! y)"
  by (simp add: reclaim_text_overrides_def)
     (cases "y = a"; simp add: reclaim_text_overrides_def override_same)

lemma reclaim_binding:
  "same_index t (reclaim_text_binding a t)"
  "y < length (vt_mem t) \<Longrightarrow> same (vt_mem t ! y) (vt_mem (reclaim_text_binding a t) ! y)"
proof -
  let ?u = "reclaim_text_overrides a t"
  have "reclaim_text_binding a t = ?u \<or> (\<exists>p. reclaim_text_binding a t = reclaim_text_overrides p ?u)"
    by (cases "upgrade_parent ?u a") (auto simp: reclaim_text_binding_def Let_def)
  then consider (one) "reclaim_text_binding a t = ?u" | (two) p where "reclaim_text_binding a t = reclaim_text_overrides p ?u"
    by blast
  then have "same_index t (reclaim_text_binding a t) \<and>
      (y < length (vt_mem t) \<longrightarrow> same (vt_mem t ! y) (vt_mem (reclaim_text_binding a t) ! y))"
  proof cases
    case one
    then show ?thesis using reclaim_overrides [where t = t and a = a] by simp
  next
    case (two p)
    have l: "length (vt_mem ?u) = length (vt_mem t)" by (simp add: reclaim_text_overrides_def)
    show ?thesis
      unfolding two
      using same_index_trans [OF reclaim_overrides(1) reclaim_overrides(1)]
        same_trans [OF reclaim_overrides(2) reclaim_overrides(2)] l by metis
  qed
  then show "same_index t (reclaim_text_binding a t)"
    "y < length (vt_mem t) \<Longrightarrow> same (vt_mem t ! y) (vt_mem (reclaim_text_binding a t) ! y)" by blast+
qed

lemma binding_cleared:
  assumes "a < length (vt_mem t)"
  shows "vr_text_override (vt_mem (reclaim_text_binding a t) ! a) = None"
proof -
  let ?u = "reclaim_text_overrides a t"
  have u: "vr_text_override (vt_mem ?u ! a) = None" "a < length (vt_mem ?u)"
    using assms by (simp_all add: reclaim_text_overrides_def)
  then have "vr_text_override (vt_mem (reclaim_text_overrides p ?u) ! a) = None" for p
    using same_reads(15) [OF reclaim_overrides(2) [OF u(2)], of p] by simp
  then show ?thesis using u by (simp add: reclaim_text_binding_def Let_def split: option.split)
qed

lemma clear_parents_spec:
  "same_index t (clear_parents old kept t)"
  "y < length (vt_mem t) \<Longrightarrow> vt_mem (clear_parents old kept t) ! y =
     (if y \<in> set old \<and> y \<notin> set kept then (vt_mem t ! y)\<lparr>vr_parent := None\<rparr> else vt_mem t ! y)"
proof -
  have "same_index t (fold (\<lambda>a. set_node a (\<lambda>r. r\<lparr>vr_parent := None\<rparr>)) xs t) \<and>
    (y < length (vt_mem t) \<longrightarrow> vt_mem (fold (\<lambda>a. set_node a (\<lambda>r. r\<lparr>vr_parent := None\<rparr>)) xs t) ! y =
       (if y \<in> set xs then (vt_mem t ! y)\<lparr>vr_parent := None\<rparr> else vt_mem t ! y))" for xs y
  proof (induction xs arbitrary: t)
    case (Cons x xs)
    show ?case
      using Cons [of "set_node x (\<lambda>r. r\<lparr>vr_parent := None\<rparr>) t"]
      by (cases "y = x") (auto intro: same_index_trans [OF same_index_set])
  qed simp
  then show "same_index t (clear_parents old kept t)"
    "y < length (vt_mem t) \<Longrightarrow> vt_mem (clear_parents old kept t) ! y =
       (if y \<in> set old \<and> y \<notin> set kept then (vt_mem t ! y)\<lparr>vr_parent := None\<rparr> else vt_mem t ! y)"
    unfolding clear_parents_def by simp_all
qed

lemma patch_reads:
  "vr_children (patch_record p cs r) = cs" "vr_kind (patch_record p cs r) = vr_kind r"
  "vr_parent (patch_record p cs r) = vr_parent r" "vr_id (patch_record p cs r) = vr_id r"
  "vr_owner (patch_record p cs r) = vr_owner r" "vr_authored_text (patch_record p cs r) = pr_text p"
  "vr_authored_classes (patch_record p cs r) = pr_classes p"
  "vr_authored_attributes (patch_record p cs r) = pr_attributes p"
  "vr_handler (patch_record p cs r) = pr_handler p"
  by (simp_all add: patch_record_def Let_def record_patch_classes_def record_patch_text_def)

lemma merge_attributes_get:
  "bt_get (merge_attributes authored new m) n =
     (if bt_get authored n = bt_get new n then bt_get m n else bt_get new n)"
proof -
  let ?f = "\<lambda>m name. if bt_get authored name \<noteq> bt_get new name
       then (case bt_get new name of Some v \<Rightarrow> bt_insert name v m | None \<Rightarrow> bt_remove name m) else m"
  have "bt_get (foldl ?f m ns) n =
      (if n \<in> set ns \<and> bt_get authored n \<noteq> bt_get new n then bt_get new n else bt_get m n)" for ns
    by (induction ns arbitrary: m) (auto split: option.split)
  moreover have "n \<in> set (bt_keys (bt_collect (List.map (\<lambda>n. (n, ())) (bt_keys authored @ bt_keys new))))"
    if "bt_get authored n \<noteq> bt_get new n"
  proof -
    have "n \<in> set (bt_keys authored) \<union> set (bt_keys new)"
      using that by (cases "bt_get authored n"; cases "bt_get new n")
        (auto simp: bt_keys_def dest!: bt_get_in_set intro: rev_image_eqI)
    then show ?thesis by (simp add: bt_collect_def bt_keys_extend bt_keys_def [of "[]"] image_Un image_image)
  qed
  ultimately show ?thesis unfolding merge_attributes_def by auto
qed

lemma patch_shows:
  "vr_text (patch_record p cs r) = (if vr_authored_text r = pr_text p then vr_text r else pr_text p)"
  "vr_classes (patch_record p cs r) = (if vr_authored_classes r = pr_classes p then vr_classes r else pr_classes p)"
  "vr_style (patch_record p cs r) = (if vr_authored_classes r = pr_classes p then vr_style r else pr_style p)"
  "vr_attributes (patch_record p cs r) = merge_attributes (vr_authored_attributes r) (pr_attributes p) (vr_attributes r)"
  "vr_text_override (patch_record p cs r) = vr_text_override r"
  by (simp_all add: patch_record_def Let_def record_patch_classes_def record_patch_text_def)

lemma patch_carried:
  assumes o: "vr_text_override r' = None \<or> vr_authored_text r = pr_text p \<and> vr_children r = cs"
    and s: "same (patch_record p cs r) r'"
  shows "carried p r r'"
  using same_reads(1,11-15) [OF s] o
  unfolding carried_def patch_shows patch_reads by (auto simp: merge_attributes_get)

text \<open>The records at the end of \<open>retain\<close>, but for the effective texts.\<close>

definition finished :: "nat \<Rightarrow> 'st prepared \<Rightarrow> nat list \<Rightarrow> nat list \<Rightarrow> 'st view_record list \<Rightarrow> nat \<Rightarrow> 'st view_record" where
  "finished a p old cs m y =
     (if y = a then patch_record p cs (m ! a)
      else if y \<in> set old \<and> y \<notin> set cs then (m ! y)\<lparr>vr_parent := None\<rparr> else m ! y)"

lemma finish_spec:
  assumes "a \<notin> set old"
  shows "same_index t (finish_retain a p old cs t)"
    and "y < length (vt_mem t) \<Longrightarrow> same (finished a p old cs (vt_mem t) y) (vt_mem (finish_retain a p old cs t) ! y)"
    and "a < length (vt_mem t) \<Longrightarrow> carried p (vt_mem t ! a) (vt_mem (finish_retain a p old cs t) ! a)"
proof -
  define t1 where "t1 = clear_parents old cs t"
  define t2 where "t2 = set_node a (patch_record p cs) t1"
  define t3 where "t3 = (if vr_authored_text (node_at t1 a) \<noteq> pr_text p then reclaim_text_binding a t2 else t2)"
  have e: "finish_retain a p old cs t = (if vr_children (node_at t1 a) \<noteq> cs then reclaim_text_overrides a t3 else t3)"
    by (simp add: finish_retain_def t1_def t2_def t3_def Let_def)
  have i1: "same_index t t1" unfolding t1_def by (rule clear_parents_spec)
  have i2: "same_index t t2" unfolding t2_def by (rule same_index_trans [OF i1]) simp
  have i3: "same_index t t3" using same_index_trans [OF i2 reclaim_binding(1)] i2 by (simp add: t3_def)
  show "same_index t (finish_retain a p old cs t)"
    using same_index_trans [OF i3 reclaim_overrides(1)] i3 by (simp add: e)
  have m1: "vt_mem t1 ! z = (if z \<in> set old \<and> z \<notin> set cs then (vt_mem t ! z)\<lparr>vr_parent := None\<rparr> else vt_mem t ! z)"
    if "z < length (vt_mem t)" for z
    unfolding t1_def by (rule clear_parents_spec(2) [OF that])
  have cleared: "vt_mem (finish_retain a p old cs t) ! a = (vt_mem t3 ! a)\<lparr>vr_text_override := None\<rparr>"
    if "a < length (vt_mem t)" "vr_children (vt_mem t ! a) \<noteq> cs"
    using that m1 [OF that(1)] i3 assms by (simp add: e node_at_def reclaim_text_overrides_def same_index_def)
  have kept: "same (finished a p old cs (vt_mem t) y) (vt_mem (finish_retain a p old cs t) ! y)" if y: "y < length (vt_mem t)" for y
  proof -
    have l: "y < length (vt_mem t1)" "y < length (vt_mem t2)" "y < length (vt_mem t3)"
      using y i1 i2 i3 by (simp_all add: same_index_def)
    have "vt_mem t2 ! y = finished a p old cs (vt_mem t) y"
      using y l(1) m1 assms by (auto simp: t2_def finished_def nth_list_update)
    moreover have "same (vt_mem t2 ! y) (vt_mem t3 ! y)" using reclaim_binding(2) [OF l(2)] by (simp add: t3_def)
    moreover have "same (vt_mem t3 ! y) (vt_mem (finish_retain a p old cs t) ! y)"
      using reclaim_overrides(2) [OF l(3)] by (simp add: e)
    ultimately show ?thesis using same_trans by metis
  qed
  then show "y < length (vt_mem t) \<Longrightarrow> same (finished a p old cs (vt_mem t) y) (vt_mem (finish_retain a p old cs t) ! y)" .
  show "carried p (vt_mem t ! a) (vt_mem (finish_retain a p old cs t) ! a)" if a: "a < length (vt_mem t)"
  proof (rule patch_carried)
    show "same (patch_record p cs (vt_mem t ! a)) (vt_mem (finish_retain a p old cs t) ! a)"
      using kept [OF a] by (simp add: finished_def)
    consider (children) "vr_children (vt_mem t ! a) \<noteq> cs"
      | (content) "vr_authored_text (vt_mem t ! a) \<noteq> pr_text p" "vr_children (vt_mem t ! a) = cs"
      | (same) "vr_authored_text (vt_mem t ! a) = pr_text p" "vr_children (vt_mem t ! a) = cs" by blast
    then show "vr_text_override (vt_mem (finish_retain a p old cs t) ! a) = None \<or>
        vr_authored_text (vt_mem t ! a) = pr_text p \<and> vr_children (vt_mem t ! a) = cs"
    proof cases
      case content
      have "vr_text_override (vt_mem (reclaim_text_binding a t2) ! a) = None"
        by (rule binding_cleared) (use a i2 in \<open>simp add: same_index_def\<close>)
      then show ?thesis using content m1 [OF a] assms by (simp add: e t3_def node_at_def)
    qed (use cleared [OF a] in simp_all)
  qed
qed

lemma finished_reads:
  "vr_children (finished a p old cs m y) = (if y = a then cs else vr_children (m ! y))"
  "vr_id (finished a p old cs m y) = vr_id (m ! y)" "vr_owner (finished a p old cs m y) = vr_owner (m ! y)"
  "vr_parent (finished a p old cs m y) = (if y \<noteq> a \<and> y \<in> set old \<and> y \<notin> set cs then None else vr_parent (m ! y))"
  by (simp_all add: finished_def patch_reads)

text \<open>A node that gets other children, all of them its own already, and lets some old ones go.\<close>

lemma relink_forest:
  assumes f: "forest m" and a: "a < length m" and X: "X \<subseteq> set (vr_children (m ! a))" "X \<inter> set cs = {}"
    and cs: "distinct cs" "\<And>c. c \<in> set cs \<Longrightarrow> c < length m \<and> vr_parent (m ! c) = Some a"
    and l: "length m' = length m"
    and r: "\<And>y. y < length m \<Longrightarrow> vr_children (m' ! y) = (if y = a then cs else vr_children (m ! y)) \<and>
      vr_parent (m' ! y) = (if y \<in> X then None else vr_parent (m ! y))"
  shows "forest m'"
  unfolding forest_def l
proof (intro allI impI conjI ballI)
  fix y assume y: "y < length m"
  show "distinct (vr_children (m' ! y))" using r [OF y] cs(1) forest_distinct [OF f y] by simp
  show "x < y" if "vr_parent (m' ! y) = Some x" for x
    by (rule forest_parent [OF f y]) (use that r [OF y] in \<open>simp split: if_splits\<close>)
  fix c assume c: "c \<in> set (vr_children (m' ! y))"
  then have d: "c < length m \<and> vr_parent (m ! c) = Some y"
    using r [OF y] cs(2) forest_child [OF f y] by (auto split: if_splits)
  then show "c < length m" by simp
  have "c \<notin> X"
  proof
    assume x: "c \<in> X"
    then have "y = a" using forest_child(2) [OF f a] X(1) d by fastforce
    then show False using c r [OF y] x X(2) by auto
  qed
  then show "vr_parent (m' ! c) = Some y" using r [of c] d by simp
qed

lemma finish_forest:
  assumes f: "forest m" and a: "a < length m" and old: "old = vr_children (m ! a)"
    and cs: "distinct cs" "\<And>c. c \<in> set cs \<Longrightarrow> c < length m \<and> vr_parent (m ! c) = Some a"
    and l: "length m' = length m" and m': "\<And>y. y < length m \<Longrightarrow> same (finished a p old cs m y) (m' ! y)"
  shows "forest m'"
proof (rule relink_forest [OF f a, of "set old - set cs"])
  have "a \<notin> set old" using forest_child(3) [OF f a] old by blast
  then show "vr_children (m' ! y) = (if y = a then cs else vr_children (m ! y)) \<and>
      vr_parent (m' ! y) = (if y \<in> set old - set cs then None else vr_parent (m ! y))" if "y < length m" for y
    using same_reads(1,2) [OF m' [OF that], unfolded finished_reads] by auto
qed (use old cs l in auto)

lemma finish_evolves:
  assumes e: "evolves S m0 m" and l: "length m' = length m" and m': "\<And>y. y < length m \<Longrightarrow> same (finished a p old cs m y) (m' ! y)"
    and k: "a < length m0 \<Longrightarrow> set cs \<subseteq> set (vr_children (m0 ! a)) \<union> {length m0..}"
    and n: "length m0 \<le> a \<Longrightarrow> set cs \<subseteq> {length m0..}"
  shows "evolves (S \<union> {a} \<union> set old) m0 m'"
  unfolding evolves_def
proof (intro conjI allI impI)
  show le: "length m0 \<le> length m'" using e l by (simp add: evolves_def)
  fix y assume y: "y < length m0"
  then have y1: "y < length m" using e by (simp add: evolves_def)
  note r = same_reads [OF m' [OF y1]]
  show "vr_id (m' ! y) = vr_id (m0 ! y)" "vr_owner (m' ! y) = vr_owner (m0 ! y)"
    using r(4,5) e y by (simp_all add: finished_reads evolves_def)
  show "set (vr_children (m' ! y)) \<subseteq> set (vr_children (m0 ! y)) \<union> {length m0..}"
    using r(1) k e y by (simp add: finished_reads evolves_def split: if_splits)
  assume "y \<notin> S \<union> {a} \<union> set old"
  then show "same (m0 ! y) (m' ! y)"
    using same_trans [OF _ m' [OF y1]] evolves_same [OF e y] by (simp add: finished_def)
next
  fix y assume y: "length m0 \<le> y \<and> y < length m'"
  then show "set (vr_children (m' ! y)) \<subseteq> {length m0..}"
    using same_reads(1) [OF m', of y] n e l by (auto simp: finished_reads evolves_def split: if_splits)
qed

end
