(* ===== verification/RetainedUpdate.thy ===== *)
theory RetainedUpdate
  imports RetainedInv
begin

text \<open>
  What \<open>retain\<close> does: it keeps the forest, puts the prepared node on display, keeps the identity
  of every node that a child of the same slot and kind continues, and leaves alone whatever is
  outside the subtree it was given.
\<close>

section \<open>Identities\<close>

text \<open>
  The old child that each prepared child continues: the one at its position when it has no
  slot, else the first with its slot that no earlier child took.
\<close>

fun candidates :: "nat list \<Rightarrow> (nat list \<times> nat) list \<Rightarrow> nat \<Rightarrow> 'st prepared list \<Rightarrow> nat option list" where
  "candidates old slts i [] = []"
| "candidates old slts i (p # ps) =
     (if pr_slot p = [] then (if i < length old then Some (old ! i) else None) else map_of slts (pr_slot p))
     # candidates old (if pr_slot p = [] then slts else filter (\<lambda>(s, _). s \<noteq> pr_slot p) slts) (Suc i) ps"

text \<open>
  \<open>follows m m' cur a p\<close>: the node \<open>a\<close> of the memory \<open>m'\<close> is the node \<open>cur\<close> of \<open>m\<close> when its kind
  is that of \<open>p\<close> and a new record otherwise, and so on for the children. A node that is continued
  keeps of its effective values what the frame does not change; a new one shows what was authored.
\<close>

inductive follows :: "'st view_record list \<Rightarrow> 'st view_record list \<Rightarrow> nat option \<Rightarrow> nat \<Rightarrow> 'st prepared \<Rightarrow> bool"
  and follows_all :: "'st view_record list \<Rightarrow> 'st view_record list \<Rightarrow> nat option list \<Rightarrow> nat list \<Rightarrow> 'st prepared list \<Rightarrow> bool"
  for m m' where
  kept: "x < length m \<Longrightarrow> vr_kind (m ! x) = pr_kind p \<Longrightarrow>
    follows_all m m' (candidates (vr_children (m ! x)) (by_slot m (vr_children (m ! x))) 0 (pr_children p))
      (vr_children (m' ! x)) (pr_children p) \<Longrightarrow> carried p (m ! x) (m' ! x) \<Longrightarrow> follows m m' (Some x) x p"
| new: "(\<And>x. cur = Some x \<Longrightarrow> vr_kind (m ! x) \<noteq> pr_kind p) \<Longrightarrow> length m \<le> a \<Longrightarrow>
    follows_all m m' (candidates [] [] 0 (pr_children p)) (vr_children (m' ! a)) (pr_children p) \<Longrightarrow>
    carried_new p (m' ! a) \<Longrightarrow> follows m m' cur a p"
| nil: "follows_all m m' [] [] []"
| cons: "follows m m' cur a p \<Longrightarrow> follows_all m m' curs as ps \<Longrightarrow> follows_all m m' (cur # curs) (a # as) (p # ps)"

lemma candidates_in:
  "Some x \<in> set (candidates old slts i ps) \<Longrightarrow> x \<in> set old \<or> x \<in> snd ` set slts"
proof (induction ps arbitrary: slts i)
  case (Cons p ps)
  have "x \<in> snd ` set slts" if "map_of slts s = Some x" for s
    using map_of_SomeD [OF that] by force
  then show ?case using Cons by (fastforce split: if_splits)
qed simp

lemma by_slot_snd: "snd ` set (by_slot m old) \<subseteq> set old" and by_slot_distinct: "distinct old \<Longrightarrow> distinct (List.map snd (by_slot m old))"
proof -
  define f where "f = (\<lambda>b a. if vr_slot (m ! a) \<in> fst ` set b then b else b @ [(vr_slot (m ! a), a)])"
  have "snd ` set (foldl f b xs) \<subseteq> snd ` set b \<union> set xs" for b xs
    by (induction xs arbitrary: b) (auto simp: f_def split: if_splits, force+)
  then show "snd ` set (by_slot m old) \<subseteq> set old" unfolding by_slot_def f_def [symmetric] by (metis (no_types, lifting) Un_empty_left image_empty list.set(1))
  have "distinct (List.map snd b) \<Longrightarrow> snd ` set b \<inter> set xs = {} \<Longrightarrow> distinct xs \<Longrightarrow> distinct (List.map snd (foldl f b xs))" for b xs
  proof (induction xs arbitrary: b)
    case (Cons x xs)
    show ?case using Cons.prems by (simp, intro Cons.IH) (auto simp: f_def)
  qed simp
  then show "distinct old \<Longrightarrow> distinct (List.map snd (by_slot m old))" by (simp add: by_slot_def f_def [symmetric])
qed

lemma by_slot_cong: "(\<And>a. a \<in> set old \<Longrightarrow> vr_slot (m' ! a) = vr_slot (m ! a)) \<Longrightarrow> by_slot m' old = by_slot m old"
  unfolding by_slot_def by (rule foldl_cong) auto

text \<open>The relation reads the old memory only below the candidate, and the new one only below the node.\<close>

lemma follows_old:
  "follows m1 m' cur a p \<Longrightarrow> forest m \<Longrightarrow> length m \<le> length m1 \<Longrightarrow> (\<And>x. cur = Some x \<Longrightarrow> x < length m) \<Longrightarrow>
     (\<And>x y. cur = Some x \<Longrightarrow> below m x y \<Longrightarrow> sim (m ! y) (m1 ! y)) \<Longrightarrow> follows m m' cur a p"
  and follows_all_old:
  "follows_all m1 m' curs as ps \<Longrightarrow> forest m \<Longrightarrow> length m \<le> length m1 \<Longrightarrow> (\<And>x. Some x \<in> set curs \<Longrightarrow> x < length m) \<Longrightarrow>
     (\<And>x y. Some x \<in> set curs \<Longrightarrow> below m x y \<Longrightarrow> sim (m ! y) (m1 ! y)) \<Longrightarrow> follows_all m m' curs as ps"
proof (induction rule: follows_follows_all.inducts)
  case (kept x p)
  let ?old = "vr_children (m ! x)"
  have x: "x < length m" and r: "sim (m ! y) (m1 ! y)" if "below m x y" for y
    using kept.prems(3) kept.prems(4) [OF refl that] by auto
  have x: "x < length m" using kept.prems(3) by simp
  note rx = sim_reads [OF r [OF below.self]]
  have slots: "by_slot m1 ?old = by_slot m ?old"
    by (rule by_slot_cong) (rule sim_reads(5) [OF r], rule below.child [OF below.self])
  have in_old: "y \<in> set ?old" if "Some y \<in> set (candidates ?old (by_slot m ?old) 0 (pr_children p))" for y
    using candidates_in [OF that] by_slot_snd by blast
  have "follows_all m m' (candidates ?old (by_slot m ?old) 0 (pr_children p)) (vr_children (m' ! x)) (pr_children p)"
  proof (rule kept.IH(4) [unfolded rx(1) slots, OF kept.prems(1,2)])
    show "y < length m" if "Some y \<in> set (candidates ?old (by_slot m ?old) 0 (pr_children p))" for y
      using forest_child(1) [OF kept.prems(1) x in_old [OF that]] .
    show "sim (m ! z) (m1 ! z)" if "Some y \<in> set (candidates ?old (by_slot m ?old) 0 (pr_children p))" "below m y z" for y z
      by (rule r, rule below_trans [OF that(2)], rule below.child [OF below.self in_old [OF that(1)]])
  qed
  moreover have "carried p (m ! x) (m' ! x)" by (rule carried_sim(1) [OF kept.IH(5) r [OF below.self]])
  ultimately show ?case using kept.IH(1-3) rx(2) x by (intro follows_follows_all.kept) simp_all
next
  case (new cur p a)
  have none: "False" if "Some y \<in> set (candidates [] [] 0 (pr_children p))" for y
    using candidates_in [OF that] by simp
  have "vr_kind (m ! x) \<noteq> pr_kind p" if "cur = Some x" for x
    using new.IH(1) [OF that] sim_reads(2) [OF new.prems(4) [OF that below.self]] by simp
  moreover have "follows_all m m' (candidates [] [] 0 (pr_children p)) (vr_children (m' ! a)) (pr_children p)"
    by (rule new.IH(4) [OF new.prems(1,2)]) (use none in blast)+
  ultimately show ?case using new.IH(2,5) new.prems(2) by (intro follows_follows_all.new) simp_all
qed (auto intro: follows_follows_all.intros)

lemma follows_new:
  "follows m m1 cur a p \<Longrightarrow> (\<And>y. below m1 a y \<Longrightarrow> sim (m1 ! y) (m' ! y)) \<Longrightarrow> follows m m' cur a p"
  and follows_all_new:
  "follows_all m m1 curs as ps \<Longrightarrow> (\<And>a y. a \<in> set as \<Longrightarrow> below m1 a y \<Longrightarrow> sim (m1 ! y) (m' ! y)) \<Longrightarrow> follows_all m m' curs as ps"
proof (induction rule: follows_follows_all.inducts)
  case (kept x p)
  have "vr_children (m' ! x) = vr_children (m1 ! x)" by (rule sim_reads(1) [OF kept.prems [OF below.self]])
  moreover have "follows_all m m' (candidates (vr_children (m ! x)) (by_slot m (vr_children (m ! x))) 0 (pr_children p))
      (vr_children (m1 ! x)) (pr_children p)"
    by (rule kept.IH(4), rule kept.prems) (rule below_trans [OF _ below.child [OF below.self]])
  moreover have "carried p (m ! x) (m' ! x)" by (rule carried_sim(2) [OF kept.IH(5) kept.prems [OF below.self]])
  ultimately show ?case using kept.IH(1-2) by (intro follows_follows_all.kept) simp_all
next
  case (new cur p a)
  have "vr_children (m' ! a) = vr_children (m1 ! a)" by (rule sim_reads(1) [OF new.prems [OF below.self]])
  moreover have "follows_all m m' (candidates [] [] 0 (pr_children p)) (vr_children (m1 ! a)) (pr_children p)"
    by (rule new.IH(4), rule new.prems) (rule below_trans [OF _ below.child [OF below.self]])
  moreover have "carried_new p (m' ! a)" by (rule carried_sim(3) [OF new.IH(5) new.prems [OF below.self]])
  ultimately show ?case using new.IH(1-2) by (intro follows_follows_all.new) simp_all
qed (auto intro: follows_follows_all.intros)


section \<open>The index\<close>

definition indexed :: "'st view_tree \<Rightarrow> bool" where
  "indexed t \<longleftrightarrow> bt_inv (vt_records t) \<and> (\<forall>i a. bt_get (vt_records t) i = Some a \<longrightarrow>
     a < length (vt_mem t) \<and> vr_id (vt_mem t ! a) = i \<and> vr_owner (vt_mem t ! a) = vt_owner t \<and> i < vt_next t)"

text \<open>The rest of the store while records are added.\<close>

definition grown :: "'st view_tree \<Rightarrow> 'st view_tree \<Rightarrow> bool" where
  "grown t t' \<longleftrightarrow> vt_root t' = vt_root t \<and> vt_owner t' = vt_owner t \<and> vt_held t' = vt_held t \<and>
     vt_next t \<le> vt_next t' \<and>
     (indexed t \<longrightarrow> indexed t' \<and> (\<forall>i < vt_next t. bt_get (vt_records t') i = bt_get (vt_records t) i) \<and>
       (\<forall>y. length (vt_mem t) \<le> y \<and> y < length (vt_mem t') \<longrightarrow>
          vr_owner (vt_mem t' ! y) = vt_owner t' \<and> bt_get (vt_records t') (vr_id (vt_mem t' ! y)) = Some y))"

lemma grown_refl: "grown t t"
  by (auto simp: grown_def)

lemma grown_trans:
  assumes a: "grown t t1" and b: "grown t1 t2"
    and e: "\<And>y. y < length (vt_mem t1) \<Longrightarrow> vr_id (vt_mem t2 ! y) = vr_id (vt_mem t1 ! y) \<and> vr_owner (vt_mem t2 ! y) = vr_owner (vt_mem t1 ! y)"
  shows "grown t t2"
  unfolding grown_def
proof (intro conjI impI allI)
  show "vt_root t2 = vt_root t" "vt_owner t2 = vt_owner t" "vt_held t2 = vt_held t" "vt_next t \<le> vt_next t2"
    using a b by (simp_all add: grown_def)
  assume i: "indexed t"
  then have i1: "indexed t1" using a by (simp add: grown_def)
  then show "indexed t2" using b by (simp add: grown_def)
  show "bt_get (vt_records t2) j = bt_get (vt_records t) j" if "j < vt_next t" for j
    using a b i i1 that by (simp add: grown_def)
  fix y assume y: "length (vt_mem t) \<le> y \<and> y < length (vt_mem t2)"
  have "vr_owner (vt_mem t2 ! y) = vt_owner t2 \<and> bt_get (vt_records t2) (vr_id (vt_mem t2 ! y)) = Some y"
  proof (cases "y < length (vt_mem t1)")
    case True
    then have r: "vr_owner (vt_mem t1 ! y) = vt_owner t1" "bt_get (vt_records t1) (vr_id (vt_mem t1 ! y)) = Some y"
      using a i y by (simp_all add: grown_def)
    moreover have "vr_id (vt_mem t1 ! y) < vt_next t1" using r(2) i1 unfolding indexed_def by blast
    moreover have "vr_id (vt_mem t2 ! y) = vr_id (vt_mem t1 ! y)" "vr_owner (vt_mem t2 ! y) = vr_owner (vt_mem t1 ! y)"
      using e [OF True] by simp_all
    ultimately show ?thesis using b i1 by (simp add: grown_def)
  next
    case False
    then show ?thesis using b i1 y by (simp add: grown_def)
  qed
  then show "vr_owner (vt_mem t2 ! y) = vt_owner t2" "bt_get (vt_records t2) (vr_id (vt_mem t2 ! y)) = Some y" by blast+
qed

lemma evolves_ids:
  "evolves S m m' \<Longrightarrow> y < length m \<Longrightarrow> vr_id (m' ! y) = vr_id (m ! y) \<and> vr_owner (m' ! y) = vr_owner (m ! y)"
  by (simp add: evolves_def)

lemma same_index_grown:
  assumes s: "same_index t t'"
    and r: "\<And>y. y < length (vt_mem t) \<Longrightarrow> vr_id (vt_mem t' ! y) = vr_id (vt_mem t ! y) \<and> vr_owner (vt_mem t' ! y) = vr_owner (vt_mem t ! y)"
  shows "grown t t'"
proof -
  note i = s [unfolded same_index_def]
  have "indexed t' \<longleftrightarrow> indexed t" unfolding indexed_def by (simp add: i r cong: conj_cong)
  then show ?thesis using i unfolding grown_def by auto
qed

lemma new_node_spec:
  assumes f: "forest (vt_mem t)" and n: "new_node p t = (Ok a, t1)"
  shows "a = length (vt_mem t)" and "forest (vt_mem t1)" and "evolves {} (vt_mem t) (vt_mem t1)" and "grown t t1"
    and "length (vt_mem t1) = Suc a" and "vr_children (vt_mem t1 ! a) = []" and "vr_kind (vt_mem t1 ! a) = pr_kind p"
    and "vr_parent (vt_mem t1 ! a) = None"
    and "\<And>r'. carried p (vt_mem t1 ! a) r' \<Longrightarrow> carried_new p r'"
proof -
  define r where "r = \<lparr>vr_id = vt_next t, vr_owner = vt_owner t, vr_parent = None,
    vr_authored_text = pr_text p, vr_text_override = None,
    vr_authored_classes = pr_classes p, vr_authored_attributes = pr_attributes p,
    vr_attributes = pr_attributes p, vr_kind = pr_kind p, vr_slot = pr_slot p,
    vr_classes = pr_classes p, vr_style = pr_style p, vr_text = pr_text p,
    vr_handler = pr_handler p, vr_children = []\<rparr>"
  have a: "a = length (vt_mem t)"
    and e: "t1 = t\<lparr>vt_next := Suc (vt_next t), vt_mem := vt_mem t @ [r], vt_records := bt_insert (vt_next t) a (vt_records t)\<rparr>"
    using n [symmetric] unfolding r_def by (auto simp only: new_node_def Let_def prod.inject res.inject res.distinct split: if_splits)
  have m: "vt_mem t1 = vt_mem t @ [r]" "vr_children r = []" "vr_kind r = pr_kind p" "vr_parent r = None"
      "vr_id r = vt_next t" "vr_owner r = vt_owner t"
    and t1: "vt_records t1 = bt_insert (vt_next t) a (vt_records t)" "vt_next t1 = Suc (vt_next t)"
      "vt_root t1 = vt_root t" "vt_owner t1 = vt_owner t" "vt_held t1 = vt_held t"
    by (simp_all add: e r_def)
  show "a = length (vt_mem t)" by (rule a)
  show "length (vt_mem t1) = Suc a" "vr_children (vt_mem t1 ! a) = []" "vr_kind (vt_mem t1 ! a) = pr_kind p"
    "vr_parent (vt_mem t1 ! a) = None" using m a by simp_all
  show "carried_new p r'" if "carried p (vt_mem t1 ! a) r'" for r'
    using that unfolding m(1) a by (auto simp: r_def carried_def carried_new_def)
  show e: "evolves {} (vt_mem t) (vt_mem t1)" by (auto simp: evolves_def m nth_append)
  have old: "vt_mem t1 ! x = vt_mem t ! x" if "x < length (vt_mem t)" for x using that by (simp add: m nth_append)
  have new: "vt_mem t1 ! a = r" by (simp add: m a)
  show "forest (vt_mem t1)"
    unfolding forest_def
  proof (intro allI impI)
    fix x assume x: "x < length (vt_mem t1)"
    show "distinct (vr_children (vt_mem t1 ! x)) \<and>
      (\<forall>c \<in> set (vr_children (vt_mem t1 ! x)). c < length (vt_mem t1) \<and> vr_parent (vt_mem t1 ! c) = Some x) \<and>
      (\<forall>q. vr_parent (vt_mem t1 ! x) = Some q \<longrightarrow> q < x)"
    proof (cases "x < length (vt_mem t)")
      case True
      have "c < length (vt_mem t1) \<and> vr_parent (vt_mem t1 ! c) = Some x" if "c \<in> set (vr_children (vt_mem t ! x))" for c
        using forest_child [OF f True that] old by (simp add: m(1))
      then show ?thesis using old [OF True] forest_distinct [OF f True] forest_parent [OF f True] by simp
    next
      case False
      then have "x = a" using x by (simp add: m(1) a)
      then show ?thesis using new m(2,4) by simp
    qed
  qed
  have "indexed t1" if i: "indexed t"
    unfolding indexed_def
  proof (intro conjI allI impI)
    show "bt_inv (vt_records t1)" using i by (simp add: t1 indexed_def bt.inv_insert)
    fix j b assume g: "bt_get (vt_records t1) j = Some b"
    have "b < length (vt_mem t1) \<and> vr_id (vt_mem t1 ! b) = j \<and> vr_owner (vt_mem t1 ! b) = vt_owner t1 \<and> j < vt_next t1"
    proof (cases "j = vt_next t")
      case True
      then have "b = a" using g i by (simp add: t1 indexed_def)
      then show ?thesis
        using True new m a t1 by simp
    next
      case False
      then have "bt_get (vt_records t) j = Some b" using g i by (simp add: t1 indexed_def)
      then have "b < length (vt_mem t)" "vr_id (vt_mem t ! b) = j" "vr_owner (vt_mem t ! b) = vt_owner t" "j < vt_next t"
        using i unfolding indexed_def by blast+
      then show ?thesis
        using old m(1) t1 by simp
    qed
    then show "b < length (vt_mem t1)" "vr_id (vt_mem t1 ! b) = j" "vr_owner (vt_mem t1 ! b) = vt_owner t1" "j < vt_next t1"
      by blast+
  qed
  moreover have "y = a" if "length (vt_mem t) \<le> y \<and> y < length (vt_mem t1)" for y using that by (simp add: m(1) a)
  ultimately show "grown t t1"
    unfolding grown_def t1 using new m(5,6) t1 by (auto simp: indexed_def)
qed


section \<open>The main lemma\<close>

text \<open>Siblings have slots all of them or none of them, as frames have.\<close>

fun uniform :: "'st prepared \<Rightarrow> bool" where
  "uniform (Prepared k s c at st x h ps) \<longleftrightarrow>
     ((\<forall>p \<in> set ps. pr_slot p = []) \<or> (\<forall>p \<in> set ps. pr_slot p \<noteq> [])) \<and> (\<forall>p \<in> set ps. uniform p)"

definition retained :: "'st view_tree \<Rightarrow> nat option \<Rightarrow> 'st prepared \<Rightarrow> nat \<Rightarrow> 'st view_tree \<Rightarrow> bool" where
  "retained t cur p a t' \<longleftrightarrow> forest (vt_mem t') \<and> evolves (subtree (vt_mem t) cur) (vt_mem t) (vt_mem t') \<and>
     a < length (vt_mem t') \<and> displays (vt_mem t') a p \<and> follows (vt_mem t) (vt_mem t') cur a p \<and>
     (\<forall>y. below (vt_mem t') a y \<longrightarrow> y \<in> subtree (vt_mem t) cur \<or> length (vt_mem t) \<le> y) \<and>
     (cur = Some a \<and> vr_parent (vt_mem t' ! a) = vr_parent (vt_mem t ! a) \<or>
      length (vt_mem t) \<le> a \<and> vr_parent (vt_mem t' ! a) = None) \<and>
     grown t t'"

definition subtrees :: "'st view_record list \<Rightarrow> nat set \<Rightarrow> nat set" where
  "subtrees m A = {y. \<exists>x \<in> A. below m x y}"

definition retained_all ::
    "'st view_tree \<Rightarrow> nat \<Rightarrow> nat set \<Rightarrow> nat option list \<Rightarrow> 'st prepared list \<Rightarrow> nat list \<Rightarrow> 'st view_tree \<Rightarrow> bool" where
  "retained_all t n A curs ps cs t' \<longleftrightarrow> forest (vt_mem t') \<and> evolves (subtrees (vt_mem t) A) (vt_mem t) (vt_mem t') \<and>
     list_all2 (displays (vt_mem t')) cs ps \<and> follows_all (vt_mem t) (vt_mem t') curs cs ps \<and> distinct cs \<and>
     (\<forall>c \<in> set cs. c < length (vt_mem t') \<and> vr_parent (vt_mem t' ! c) = Some n \<and>
        (c \<in> A \<or> length (vt_mem t) \<le> c) \<and>
        (\<forall>y. below (vt_mem t') c y \<longrightarrow> y \<in> subtrees (vt_mem t) A \<or> length (vt_mem t) \<le> y)) \<and>
     grown t t'"

text \<open>A child that has been retained gets its parent, and the rest of the loop runs.\<close>

lemma set_parent_spec:
  assumes f: "forest (vt_mem t)" and c: "c < length (vt_mem t)" and n: "n < c"
    and p: "vr_parent (vt_mem t ! c) = Some n \<or> vr_parent (vt_mem t ! c) = None"
  defines "t' \<equiv> set_node c (\<lambda>r. r\<lparr>vr_parent := Some n\<rparr>) t"
  shows "forest (vt_mem t')" and "evolves {c} (vt_mem t) (vt_mem t')" and "grown t t'"
    and "\<And>y. y < length (vt_mem t) \<Longrightarrow> sim (vt_mem t ! y) (vt_mem t' ! y)"
    and "vr_parent (vt_mem t' ! c) = Some n" and "length (vt_mem t') = length (vt_mem t)"
proof -
  have m: "vt_mem t' ! y = (if y = c then (vt_mem t ! c)\<lparr>vr_parent := Some n\<rparr> else vt_mem t ! y)" if "y < length (vt_mem t)" for y
    using that by (simp add: t'_def nth_list_update)
  show l: "length (vt_mem t') = length (vt_mem t)" by (simp add: t'_def)
  show e: "evolves {c} (vt_mem t) (vt_mem t')" by (auto simp: evolves_def m l)
  show "grown t t'" by (rule same_index_grown [OF _ evolves_ids [OF e]]) (simp_all add: t'_def)
  show "sim (vt_mem t ! y) (vt_mem t' ! y)" if "y < length (vt_mem t)" for y
    using m [OF that] by (simp add: sim_def)
  show "vr_parent (vt_mem t' ! c) = Some n" using m [OF c] by simp
  show "forest (vt_mem t')"
    unfolding forest_def l
  proof (intro allI impI conjI ballI)
    fix y assume y: "y < length (vt_mem t)"
    have ch: "vr_children (vt_mem t' ! y) = vr_children (vt_mem t ! y)" using m [OF y] by simp
    show "distinct (vr_children (vt_mem t' ! y))" unfolding ch by (rule forest_distinct [OF f y])
    show "q < y" if "vr_parent (vt_mem t' ! y) = Some q" for q
      using that m [OF y] n forest_parent [OF f y] by (simp split: if_splits)
    fix d assume "d \<in> set (vr_children (vt_mem t' ! y))"
    then have d: "d < length (vt_mem t)" "vr_parent (vt_mem t ! d) = Some y" unfolding ch using forest_child [OF f y] by blast+
    then show "d < length (vt_mem t)" "vr_parent (vt_mem t' ! d) = Some y" using m [OF d(1)] p by auto
  qed
qed

lemma parent_set:
  assumes f: "forest (vt_mem t)" and n: "n < length (vt_mem t)"
    and cur: "\<And>x. cur = Some x \<Longrightarrow> x \<in> set (vr_children (vt_mem t ! n))"
    and head: "retained t cur p c t1" and t2: "t2 = set_node c (\<lambda>r. r\<lparr>vr_parent := Some n\<rparr>) t1"
  shows "n < c" and "vr_parent (vt_mem t1 ! c) = Some n \<or> vr_parent (vt_mem t1 ! c) = None"
    and "forest (vt_mem t2)" and "n < length (vt_mem t2)" and "vr_children (vt_mem t2 ! n) = vr_children (vt_mem t ! n)"
proof -
  note h = head [unfolded retained_def]
  note child = forest_child [OF f n cur]
  have e1: "evolves (subtree (vt_mem t) cur) (vt_mem t) (vt_mem t1)" using h by blast
  show nc: "n < c" using h child(3) n by fastforce
  show p: "vr_parent (vt_mem t1 ! c) = Some n \<or> vr_parent (vt_mem t1 ! c) = None" using h child(2) by fastforce
  have c: "c < length (vt_mem t1)" and f1: "forest (vt_mem t1)" using h by blast+
  note s = set_parent_spec [OF f1 c nc p, folded t2]
  show "forest (vt_mem t2)" by (rule s(1))
  show "n < length (vt_mem t2)" using s(6) n evolves_length [OF e1] by simp
  have "n \<notin> subtree (vt_mem t) cur"
  proof
    assume "n \<in> subtree (vt_mem t) cur"
    then obtain x where x: "cur = Some x" "below (vt_mem t) x n" by (auto simp: subtree_def split: option.splits)
    then show False using below_range [OF x(2) f child(1) [OF x(1)]] child(3) [OF x(1)] by simp
  qed
  then have "vr_children (vt_mem t1 ! n) = vr_children (vt_mem t ! n)" by (rule same_reads(1) [OF evolves_same [OF e1 n]])
  moreover have "vr_children (vt_mem t2 ! n) = vr_children (vt_mem t1 ! n)"
    using sim_reads(1) [OF s(4)] n evolves_length [OF e1] by simp
  ultimately show "vr_children (vt_mem t2 ! n) = vr_children (vt_mem t ! n)" by simp
qed

lemma retained_cons:
  assumes f: "forest (vt_mem t)" and n: "n < length (vt_mem t)"
    and A: "A \<subseteq> set (vr_children (vt_mem t ! n))" "A' \<subseteq> A" "\<And>x. cur = Some x \<Longrightarrow> x \<in> A - A'"
    and head: "retained t cur p c t1"
    and t2: "t2 = set_node c (\<lambda>r. r\<lparr>vr_parent := Some n\<rparr>) t1"
    and tail: "retained_all t2 n A' curs ps cs t'" and curs: "\<And>x. Some x \<in> set curs \<Longrightarrow> x \<in> A'"
  shows "retained_all t n A (cur # curs) (p # ps) (c # cs) t'"
proof -
  let ?m = "vt_mem t" and ?m1 = "vt_mem t1" and ?m2 = "vt_mem t2" and ?m' = "vt_mem t'"
  note h = head [unfolded retained_def]
  have f1: "forest ?m1" and e1: "evolves (subtree ?m cur) ?m ?m1" and c1: "c < length ?m1" using h by blast+
  have child: "x < length ?m" "vr_parent (?m ! x) = Some n" "n < x" if "x \<in> A" for x
    using forest_child [OF f n, of x] A(1) that by blast+
  have nc0: "n < c \<and> (vr_parent (?m1 ! c) = Some n \<or> vr_parent (?m1 ! c) = None) \<and> (c \<in> subtree ?m cur \<or> length ?m \<le> c) \<and> c \<notin> A'"
    proof (cases "length ?m \<le> c")
      case True
      have "c \<notin> A'" using child(1) [of c] A(2) True by auto
      moreover have "vr_parent (?m1 ! c) = Some n \<or> vr_parent (?m1 ! c) = None" using h child(1) [of c] A(3) True by auto
      ultimately show ?thesis using True n by simp
    next
      case False
      then have k: "cur = Some c" "vr_parent (?m1 ! c) = vr_parent (?m ! c)" using h by blast+
      then show ?thesis using A(3) [OF k(1)] child [of c] below.self by (simp add: subtree_def)
    qed
  note nc = nc0 [THEN conjunct1] nc0 [THEN conjunct2, THEN conjunct1] nc0 [THEN conjunct2, THEN conjunct2, THEN conjunct1]
    nc0 [THEN conjunct2, THEN conjunct2, THEN conjunct2]
  note s = set_parent_spec [OF f1 c1 nc(1,2), folded t2]
  have e2: "evolves (subtree ?m cur) ?m ?m2" by (rule evolves_trans [OF e1 s(2)]) (use nc(3) in auto)
  have apart: "y \<notin> subtree ?m cur" "y < length ?m" if "x \<in> A'" "below ?m x y" for x y
  proof -
    show "y < length ?m" using below_range [OF that(2) f] child A(2) that(1) by blast
    show "y \<notin> subtree ?m cur"
    proof
      assume "y \<in> subtree ?m cur"
      then obtain o1 where o1: "cur = Some o1" "below ?m o1 y" by (auto simp: subtree_def split: option.splits)
      then have "o1 = x" using siblings_apart [OF f n _ _ o1(2) that(2)] A that(1) by blast
      then show False using A(3) [OF o1(1)] that(1) by blast
    qed
  qed
  have keep: "sim (?m ! y) (?m2 ! y)" if "x \<in> A'" "below ?m x y" for x y
    using evolves_same [OF e2 apart(2,1) [OF that]] by (rule same_sim)
  have subs: "subtrees ?m2 A' = subtrees ?m A'"
  proof -
    have "below ?m2 x y \<longleftrightarrow> below ?m x y" if "x \<in> A'" for x y
      by (rule below_kept [OF f child(1)]) (use that A(2) keep in blast)+
    then show ?thesis by (auto simp: subtrees_def)
  qed
  note r0 = tail [unfolded retained_all_def subs]
  note r = r0 [THEN conjunct1] r0 [THEN conjunct2, THEN conjunct1] r0 [THEN conjunct2, THEN conjunct2, THEN conjunct1]
    r0 [THEN conjunct2, THEN conjunct2, THEN conjunct2, THEN conjunct1]
    r0 [THEN conjunct2, THEN conjunct2, THEN conjunct2, THEN conjunct2, THEN conjunct1]
    r0 [THEN conjunct2, THEN conjunct2, THEN conjunct2, THEN conjunct2, THEN conjunct2, THEN conjunct1]
    r0 [THEN conjunct2, THEN conjunct2, THEN conjunct2, THEN conjunct2, THEN conjunct2, THEN conjunct2]
  note f' = r(1) and e' = r(2)
  have sub: "subtree ?m cur \<subseteq> subtrees ?m A" "subtrees ?m A' \<subseteq> subtrees ?m A"
    using A(2,3) by (auto simp: subtree_def subtrees_def split: option.splits)
  have E: "evolves (subtrees ?m A) ?m ?m'"
    by (rule evolves_trans [OF evolves_mono [OF e2 sub(1)] e']) (use sub(2) in blast)
  have out: "y \<notin> subtrees ?m A'" if "below ?m1 c y" for y
    using h that apart by (force simp: subtrees_def)
  have keep1: "sim (?m1 ! y) (?m' ! y)" if "below ?m1 c y" for y
  proof -
    have y: "y < length ?m1" using below_range [OF that f1 c1] by simp
    show ?thesis
      using sim_trans [OF s(4) [OF y] same_sim] evolves_same [OF e' _ out [OF that]] y s(6) by simp
  qed
  have len: "length ?m \<le> length ?m1" "length ?m1 \<le> length ?m'" "length ?m2 = length ?m1"
    using evolves_length [OF e1] evolves_length [OF e'] s(6) by simp_all
  have d: "displays ?m' c p" by (rule displays_kept [OF _ keep1 len(2)]) (use h in blast)
  have fo: "follows ?m ?m' cur c p" by (rule follows_new [OF _ keep1]) (use h in blast)
  have fs: "follows_all ?m ?m' curs cs ps"
  proof (rule follows_all_old [OF r(4) f])
    show "length ?m \<le> length ?m2" using len(1,3) by simp
    show "x < length ?m" if "Some x \<in> set curs" for x using child(1) curs [OF that] A(2) by blast
    show "sim (?m ! y) (?m2 ! y)" if "Some x \<in> set curs" "below ?m x y" for x y using keep [OF curs [OF that(1)] that(2)] .
  qed
  have b: "below ?m' c y \<longleftrightarrow> below ?m1 c y" for y by (rule below_kept [OF f1 c1 keep1])
  have par: "vr_parent (?m' ! c) = Some n"
    using same_reads(2) [OF evolves_same [OF e' _ out [OF below.self]]] s(5) c1 len(3) by simp
  have dis: "c \<notin> set cs" using r(6) nc(4) c1 len(3) by fastforce
  have g: "grown t t'" by (rule grown_trans [OF grown_trans [OF _ s(3) evolves_ids [OF s(2)]] r(7) evolves_ids [OF e']]) (use h in \<open>blast | assumption\<close>)+
  have cs: "c' < length ?m' \<and> vr_parent (?m' ! c') = Some n \<and> (c' \<in> A \<or> length ?m \<le> c') \<and>
      (\<forall>y. below ?m' c' y \<longrightarrow> y \<in> subtrees ?m A \<or> length ?m \<le> y)" if "c' \<in> set cs" for c'
    using bspec [OF r(6) that] A(2) sub(2) len(1,3) by fastforce
  have cc: "c \<in> A \<or> length ?m \<le> c" using h A(3) by blast
  have cb: "y \<in> subtrees ?m A \<or> length ?m \<le> y" if "below ?m' c y" for y
    using that h sub(1) unfolding b by blast
  have "c < length ?m'" using c1 len(2) by simp
  then have all: "\<forall>c' \<in> set (c # cs). c' < length ?m' \<and> vr_parent (?m' ! c') = Some n \<and> (c' \<in> A \<or> length ?m \<le> c') \<and>
      (\<forall>y. below ?m' c' y \<longrightarrow> y \<in> subtrees ?m A \<or> length ?m \<le> y)"
    using par cc cb cs by simp
  show ?thesis
    unfolding retained_all_def
    using f' E d r(3) follows_follows_all.cons [OF fo fs] dis r(5) all g by simp
qed

lemma below_first: "below m a y \<Longrightarrow> y = a \<or> (\<exists>c \<in> set (vr_children (m ! a)). below m c y)"
  by (induction rule: below.induct) (auto intro: below.intros)

lemma evolves_restrict: "evolves S m m' \<Longrightarrow> (\<And>y. y \<in> S \<Longrightarrow> y < length m \<Longrightarrow> y \<in> S') \<Longrightarrow> evolves S' m m'"
  unfolding evolves_def by blast

text \<open>The children, when they are done, with the end of \<open>retain\<close>.\<close>

lemma finish_children:
  assumes f: "forest (vt_mem t1)" and a: "a < length (vt_mem t1)" and old: "old = vr_children (vt_mem t1 ! a)"
    and A: "A \<subseteq> set old" and all: "retained_all t1 a A curs ps cs t2" and t': "t' = finish_retain a p old cs t2"
  shows "forest (vt_mem t')" and "length (vt_mem t') = length (vt_mem t2)" and "same_index t2 t'"
    and "\<And>y. y < length (vt_mem t2) \<Longrightarrow> same (finished a p old cs (vt_mem t2) y) (vt_mem t' ! y)"
    and "\<And>c y. c \<in> set cs \<Longrightarrow> below (vt_mem t2) c y \<Longrightarrow> sim (vt_mem t2 ! y) (vt_mem t' ! y)"
    and "same (vt_mem t1 ! a) (vt_mem t2 ! a)" and "a \<notin> set old"
    and "carried p (vt_mem t1 ! a) (vt_mem t' ! a)"
    and "\<And>y. below (vt_mem t') a y \<Longrightarrow> y = a \<or> y \<in> subtrees (vt_mem t1) A \<or> length (vt_mem t1) \<le> y"
proof -
  let ?m1 = "vt_mem t1" and ?m2 = "vt_mem t2" and ?m' = "vt_mem t'"
  have f2: "forest ?m2" and e: "evolves (subtrees ?m1 A) ?m1 ?m2" and dis: "distinct cs" using all by (simp_all add: retained_all_def)
  have cs: "c < length ?m2 \<and> vr_parent (?m2 ! c) = Some a" if "c \<in> set cs" for c
    using all that by (simp add: retained_all_def)
  have cb: "y \<in> subtrees ?m1 A \<or> length ?m1 \<le> y" if "c \<in> set cs" "below ?m2 c y" for c y
    using all that unfolding retained_all_def by blast
  show no: "a \<notin> set old" using forest_child(3) [OF f a] by (auto simp: old)
  have "a \<notin> subtrees ?m1 A"
  proof
    assume "a \<in> subtrees ?m1 A"
    then obtain x where x: "x \<in> set old" "below ?m1 x a" using A by (auto simp: subtrees_def)
    then have "x \<le> a" using below_range [OF x(2) f] forest_child(1) [OF f a] old by blast
    then show False using forest_child(3) [OF f a] x(1) old by fastforce
  qed
  then show sa: "same (?m1 ! a) (?m2 ! a)" by (rule evolves_same [OF e a])
  have a2: "a < length ?m2" using a evolves_length [OF e] by simp
  have o2: "old = vr_children (?m2 ! a)" using same_reads(1) [OF sa] old by simp
  note fin = finish_spec [OF no, where t = t2 and p = p and cs = cs, folded t']
  show i: "same_index t2 t'" by (rule fin(1))
  show "carried p (?m1 ! a) (?m' ! a)" by (rule carried_sim(1) [OF fin(3) [OF a2] same_sim [OF sa]])
  show m': "same (finished a p old cs ?m2 y) (?m' ! y)" if "y < length ?m2" for y by (rule fin(2) [OF that])
  show l: "length ?m' = length ?m2" using i by (simp add: same_index_def)
  show f': "forest ?m'" by (rule finish_forest [OF f2 a2 o2 dis cs l m'])
  show keep: "sim (?m2 ! y) (?m' ! y)" if c: "c \<in> set cs" and b: "below ?m2 c y" for c y
  proof -
    have "a < c" using forest_parent [OF f2] cs [OF c] by blast
    then have y: "y < length ?m2" "y \<noteq> a" using below_range [OF b f2] cs [OF c] by auto
    have "sim (?m2 ! y) (finished a p old cs ?m2 y)" using y(2) by (simp add: finished_def sim_def)
    then show ?thesis by (rule sim_trans [OF _ same_sim [OF m' [OF y(1)]]])
  qed
  have ch: "vr_children (?m' ! a) = cs" using same_reads(1) [OF m' [OF a2]] by (simp add: finished_reads)
  show "y = a \<or> y \<in> subtrees ?m1 A \<or> length ?m1 \<le> y" if y: "below ?m' a y" for y
  proof (cases "y = a")
    case False
    then obtain c where c: "c \<in> set cs" "below ?m' c y" using below_first [OF y] ch by blast
    have "below ?m2 c y" using c(2) below_kept [OF f2 _ keep [OF c(1)]] cs [OF c(1)] by simp
    then show ?thesis using cb [OF c(1)] by blast
  qed simp
qed

lemma finish_node:
  assumes f: "forest (vt_mem t)" and ft: "forest (vt_mem t1)" and e1: "evolves {} (vt_mem t) (vt_mem t1)" and g1: "grown t t1"
    and a: "a < length (vt_mem t1)" and k: "vr_kind (vt_mem t1 ! a) = pr_kind p" and old: "old = vr_children (vt_mem t1 ! a)"
    and A: "A \<subseteq> set old" and all: "retained_all t1 a A curs (pr_children p) cs t2" and t': "t' = finish_retain a p old cs t2"
    and start: "cur = Some a \<and> t1 = t \<or> length (vt_mem t) \<le> a \<and> old = [] \<and> vr_parent (vt_mem t1 ! a) = None"
    and fo: "\<And>m'. follows_all (vt_mem t1) m' curs cs (pr_children p) \<Longrightarrow> vr_children (m' ! a) = cs \<Longrightarrow>
      carried p (vt_mem t1 ! a) (m' ! a) \<Longrightarrow> follows (vt_mem t) m' cur a p"
  shows "retained t cur p a t'"
proof -
  let ?m = "vt_mem t" and ?m1 = "vt_mem t1" and ?m2 = "vt_mem t2" and ?m' = "vt_mem t'"
  note fin = finish_children [OF ft a old A all t']
  have e2: "evolves (subtrees ?m1 A) ?m1 ?m2" and fs: "follows_all ?m1 ?m2 curs cs (pr_children p)"
    and ds: "list_all2 (displays ?m2) cs (pr_children p)" and g2: "grown t1 t2"
    using all by (simp_all add: retained_all_def)
  have cA: "c \<in> A \<or> length ?m1 \<le> c" if "c \<in> set cs" for c using all that unfolding retained_all_def by blast
  have len: "length ?m \<le> length ?m1" "length ?m1 \<le> length ?m2" using evolves_length [OF e1] evolves_length [OF e2] by simp_all
  have a2: "a < length ?m2" using a len(2) by simp
  note r = same_reads [OF fin(4) [OF a2]]
  have ch: "vr_children (?m' ! a) = cs" using r(1) by (simp add: finished_reads)
  have S: "subtrees ?m1 A \<subseteq> subtree ?m cur" "set old \<subseteq> subtree ?m cur" "a \<in> subtree ?m cur \<or> length ?m \<le> a"
  proof -
    have up: "below ?m1 a y" if "x \<in> set old" "below ?m1 x y" for x y
      by (rule below_trans [OF that(2)], rule below.child [OF below.self that(1) [unfolded old]])
    show "subtrees ?m1 A \<subseteq> subtree ?m cur" "set old \<subseteq> subtree ?m cur"
      using start A up below.self by (fastforce simp: subtrees_def subtree_def)+
    show "a \<in> subtree ?m cur \<or> length ?m \<le> a" using start below.self by (auto simp: subtree_def)
  qed
  have e12: "evolves (subtrees ?m1 A) ?m ?m2"
    using start evolves_trans [OF e1 e2] A e2 by (auto simp: subtrees_def)
  have e: "evolves (subtrees ?m1 A \<union> {a} \<union> set old) ?m ?m'"
  proof (rule finish_evolves [OF e12 fin(2) fin(4)])
    show "set cs \<subseteq> set (vr_children (?m ! a)) \<union> {length ?m..}" if "a < length ?m"
      using start that cA A old by auto
    show "set cs \<subseteq> {length ?m..}" if "length ?m \<le> a"
      using start that cA A old a len by fastforce
  qed
  have e': "evolves (subtree ?m cur) ?m ?m'" by (rule evolves_restrict [OF e]) (use S in auto)
  have d: "displays ?m' a p"
  proof (rule displays.intros)
    show "list_all2 (displays ?m') (vr_children (?m' ! a)) (pr_children p)"
      unfolding ch
      by (rule list.rel_mono_strong [OF ds], rule displays_kept, assumption) (use fin(2,5) in auto)
  qed (use a2 fin(2) r same_reads(3) [OF fin(6)] k in \<open>simp_all add: finished_def patch_reads\<close>)
  have "follows_all ?m1 ?m' curs cs (pr_children p)" by (rule follows_all_new [OF fs fin(5)])
  then have fo': "follows ?m ?m' cur a p" by (rule fo) (rule ch, rule fin(8))
  have b: "y \<in> subtree ?m cur \<or> length ?m \<le> y" if "below ?m' a y" for y
    using fin(9) [OF that] S len(1) by auto
  have "vr_parent (?m' ! a) = vr_parent (?m1 ! a)"
    using r(2) same_reads(2) [OF fin(6)] by (simp add: finished_reads)
  then have id: "cur = Some a \<and> vr_parent (?m' ! a) = vr_parent (?m ! a) \<or> length ?m \<le> a \<and> vr_parent (?m' ! a) = None"
    using start by auto
  have ids: "vr_id (?m' ! y) = vr_id (?m2 ! y) \<and> vr_owner (?m' ! y) = vr_owner (?m2 ! y)" if "y < length ?m2" for y
    using same_reads(4,5) [OF fin(4) [OF that]] by (simp add: finished_reads)
  have g: "grown t t'"
    by (rule grown_trans [OF grown_trans [OF g1 g2 evolves_ids [OF e2]] same_index_grown [OF fin(3) ids] ids])
  show ?thesis
    unfolding retained_def
    using fin(1) e' a2 fin(2) d fo' b id g by simp
qed

lemma retain_Ok:
  assumes "retain cur p t = (Ok a, t')"
  obtains t1 cs t2 where
    "case same_kind t cur (pr_kind p) of Some x \<Rightarrow> a = x \<and> t1 = t | None \<Rightarrow> new_node p t = (Ok a, t1)"
    "retain_children a (vr_children (vt_mem t1 ! a)) (by_slot (vt_mem t1) (vr_children (vt_mem t1 ! a))) 0 (pr_children p) t1 = (Ok cs, t2)"
    "t' = finish_retain a p (vr_children (vt_mem t1 ! a)) cs t2"
  using assms by (cases p) (auto simp: bind_Ok seq_Ok run_simps node_at_def split: option.splits)

lemma retain_children_Ok:
  assumes "retain_children n old slts i (p # ps) t = (Ok cs, t')"
  obtains c ds t1 where
    "retain (if pr_slot p = [] then (if i < length old then Some (old ! i) else None) else map_of slts (pr_slot p)) p t = (Ok c, t1)"
    "retain_children n old (if pr_slot p = [] then slts else filter (\<lambda>(s, _). s \<noteq> pr_slot p) slts) (Suc i) ps
       (set_node c (\<lambda>r. r\<lparr>vr_parent := Some n\<rparr>) t1) = (Ok ds, t')"
    "cs = c # ds"
  using assms by (auto simp: bind_Ok seq_Ok run_simps)

text \<open>Which old children are left for the rest of the loop.\<close>

definition left :: "bool \<Rightarrow> nat list \<Rightarrow> (nat list \<times> nat) list \<Rightarrow> nat \<Rightarrow> nat set" where
  "left b old slts i = (if b then set (drop i old) else snd ` set slts)"

lemma left_step:
  fixes p :: "'st prepared" and i :: nat and old :: "nat list" and slts :: "(nat list \<times> nat) list"
  assumes d: "distinct old" "distinct (List.map snd slts)" and b: "(pr_slot p = []) = b"
  defines "cur \<equiv> (if pr_slot p = [] then (if i < length old then Some (old ! i) else None) else map_of slts (pr_slot p))"
    and "slts' \<equiv> (if pr_slot p = [] then slts else filter (\<lambda>(s, _). s \<noteq> pr_slot p) slts)"
  shows "left b old slts' (Suc i) \<subseteq> left b old slts i" and "cur = Some x \<Longrightarrow> x \<in> left b old slts i - left b old slts' (Suc i)"
    and "distinct (List.map snd slts')" and "snd ` set slts' \<subseteq> snd ` set slts"
proof -
  show "distinct (List.map snd slts')" using d(2) by (simp add: slts'_def distinct_map_filter)
  show "snd ` set slts' \<subseteq> snd ` set slts" by (auto simp: slts'_def)
  then show "left b old slts' (Suc i) \<subseteq> left b old slts i"
    using set_drop_subset_set_drop [of i "Suc i" old] by (auto simp: left_def)
  show "x \<in> left b old slts i - left b old slts' (Suc i)" if "cur = Some x"
  proof (cases b)
    case True
    then have "i < length old" "x = old ! i" using that b by (auto simp: cur_def split: if_splits)
    then have "drop i old = x # drop (Suc i) old" by (simp add: Cons_nth_drop_Suc)
    then show ?thesis using True d(1) distinct_drop [of old i] by (simp add: left_def)
  next
    case False
    then have m: "map_of slts (pr_slot p) = Some x" using that b by (simp add: cur_def)
    then have x: "(pr_slot p, x) \<in> set slts" by (rule map_of_SomeD)
    have "s = pr_slot p" if "(s, x) \<in> set slts" for s
      using inj_onD [of snd "set slts" "(s, x)" "(pr_slot p, x)"] that x d(2) by (simp add: distinct_map)
    then have "x \<notin> snd ` set slts'" using False b by (auto simp: slts'_def)
    moreover have "x \<in> snd ` set slts" using x by (rule image_eqI [rotated]) simp
    ultimately show ?thesis using False by (simp add: left_def)
  qed
qed

lemma candidates_left:
  "Some x \<in> set (candidates old slts i ps) \<Longrightarrow> \<forall>p \<in> set ps. (pr_slot p = []) = b \<Longrightarrow> x \<in> left b old slts i"
proof (induction ps arbitrary: slts i)
  case (Cons p ps)
  have m: "x \<in> snd ` set slts" if "map_of slts s = Some x" for s
    using map_of_SomeD [OF that] by force
  show ?case
  proof (cases b)
    case True
    then consider "i < length old" "x = old ! i" | "x \<in> left b old slts (Suc i)"
      using Cons by (auto split: if_splits)
    then show ?thesis
    proof cases
      case 1
      then show ?thesis using True Cons_nth_drop_Suc [of i old] by (simp add: left_def) (metis list.set_intros(1))
    next
      case 2
      then show ?thesis using True set_drop_subset_set_drop [of i "Suc i" old] by (auto simp: left_def)
    qed
  next
    case False
    then show ?thesis using Cons m by (fastforce simp: left_def split: if_splits)
  qed
qed simp

lemma uniform_children:
  assumes "uniform p"
  obtains b where "\<forall>q \<in> set (pr_children p). (pr_slot q = []) = b" and "\<forall>q \<in> set (pr_children p). uniform q"
  using assms by (cases p) (simp, metis)

lemma retain_exact:
  fixes p :: "'st prepared" and ps :: "'st prepared list"
  shows "\<And>t a t'. retain cur p t = (Ok a, t') \<Longrightarrow> forest (vt_mem t) \<Longrightarrow> uniform p \<Longrightarrow>
     (\<And>x. cur = Some x \<Longrightarrow> x < length (vt_mem t)) \<Longrightarrow> retained t cur p a t'"
  and retain_children_exact:
  "\<And>t cs t' b. retain_children n old slts i ps t = (Ok cs, t') \<Longrightarrow> forest (vt_mem t) \<Longrightarrow> n < length (vt_mem t) \<Longrightarrow>
     old = vr_children (vt_mem t ! n) \<Longrightarrow> \<forall>p \<in> set ps. uniform p \<Longrightarrow> \<forall>p \<in> set ps. (pr_slot p = []) = b \<Longrightarrow>
     distinct (List.map snd slts) \<Longrightarrow> snd ` set slts \<subseteq> set old \<Longrightarrow>
     retained_all t n (left b old slts i) (candidates old slts i ps) ps cs t'"
proof (induction cur p and n old slts i ps rule: retain_retain_children.induct)
  case (1 cur k slot cls at st x h ps)
  let ?p = "Prepared k slot cls at st x h ps"
  obtain t1 cs t2 where s: "case same_kind t cur (pr_kind ?p) of Some x \<Rightarrow> a = x \<and> t1 = t | None \<Rightarrow> new_node ?p t = (Ok a, t1)"
    and ch: "retain_children a (vr_children (vt_mem t1 ! a)) (by_slot (vt_mem t1) (vr_children (vt_mem t1 ! a))) 0 ps t1 = (Ok cs, t2)"
    and t': "t' = finish_retain a ?p (vr_children (vt_mem t1 ! a)) cs t2"
    using retain_Ok [OF "1.prems"(1)] by (metis prepared.sel(8))
  obtain b where b: "\<forall>q \<in> set ps. (pr_slot q = []) = b" "\<forall>q \<in> set ps. uniform q"
    using uniform_children [OF "1.prems"(3)] by (metis prepared.sel(8))
  define old where "old = vr_children (vt_mem t1 ! a)"
  have start: "forest (vt_mem t1) \<and> evolves {} (vt_mem t) (vt_mem t1) \<and> grown t t1 \<and> a < length (vt_mem t1) \<and>
    vr_kind (vt_mem t1 ! a) = k \<and> (cur = Some a \<and> t1 = t \<or> length (vt_mem t) \<le> a \<and> old = [] \<and>
      vr_parent (vt_mem t1 ! a) = None \<and> (\<forall>r'. carried ?p (vt_mem t1 ! a) r' \<longrightarrow> carried_new ?p r'))"
  proof (cases "same_kind t cur k")
    case None
    then have "new_node ?p t = (Ok a, t1)" using s by simp
    from new_node_spec [OF "1.prems"(2) this] show ?thesis by (simp add: old_def)
  next
    case (Some x)
    then have "cur = Some x" "vr_kind (vt_mem t ! x) = k" "a = x" "t1 = t"
      using s by (auto simp: same_kind_def node_at_def split: option.splits if_splits)
    then show ?thesis using "1.prems"(2,4) evolves_refl grown_refl by auto
  qed
  have all: "retained_all t1 a (left b old (by_slot (vt_mem t1) old) 0) (candidates old (by_slot (vt_mem t1) old) 0 ps) ps cs t2"
    unfolding old_def
    by (rule "1.IH" [OF ch _ _ refl b(2,1) by_slot_distinct by_slot_snd])
       (use start forest_distinct in \<open>auto simp: old_def\<close>)
  show ?case
  proof (rule finish_node [OF "1.prems"(2) _ _ _ _ _ old_def _ _ t' [folded old_def]])
    show "left b old (by_slot (vt_mem t1) old) 0 \<subseteq> set old" using by_slot_snd by (auto simp: left_def)
    show "retained_all t1 a (left b old (by_slot (vt_mem t1) old) 0) (candidates old (by_slot (vt_mem t1) old) 0 ps) (pr_children ?p) cs t2"
      using all by simp
    show "follows (vt_mem t) m' cur a ?p"
      if fs: "follows_all (vt_mem t1) m' (candidates old (by_slot (vt_mem t1) old) 0 ps) cs (pr_children ?p)" and c: "vr_children (m' ! a) = cs"
        and eff: "carried ?p (vt_mem t1 ! a) (m' ! a)" for m'
    proof (cases "cur = Some a \<and> t1 = t")
      case True
      then show ?thesis using fs c start eff by (auto simp: old_def intro!: kept)
    next
      case False
      then have o: "old = []" "length (vt_mem t) \<le> a" and eff': "carried_new ?p (m' ! a)" using start eff by auto
      have "same_kind t cur k = None" using s False by (auto simp: same_kind_def split: option.splits if_splits)
      then have no: "vr_kind (vt_mem t ! x) \<noteq> k" if "cur = Some x" for x using that by (simp add: same_kind_def node_at_def split: if_splits)
      have e: "by_slot (vt_mem t1) [] = []" by (simp add: by_slot_def)
      have "follows_all (vt_mem t) m' (candidates [] [] 0 ps) cs ps"
        by (rule follows_all_old [OF _ "1.prems"(2)])
           (use fs o e start candidates_in evolves_length in \<open>fastforce+\<close>)
      then show ?thesis using no o c eff' by (intro new) simp_all
    qed
    show "cur = Some a \<and> t1 = t \<or> length (vt_mem t) \<le> a \<and> old = [] \<and> vr_parent (vt_mem t1 ! a) = None"
      using start by blast
  qed (use start in simp_all)
next
  case (2 n old slts i)
  then have "cs = []" "t' = t" by (simp_all add: ret_def)
  then show ?case using 2(2) by (simp add: retained_all_def evolves_refl grown_refl follows_follows_all.nil)
next
  case (3 n old slts i p ps)
  let ?cur = "if pr_slot p = [] then (if i < length old then Some (old ! i) else None) else map_of slts (pr_slot p)"
  let ?slts = "if pr_slot p = [] then slts else filter (\<lambda>(s, _). s \<noteq> pr_slot p) slts"
  obtain c ds t1 where r: "retain ?cur p t = (Ok c, t1)"
    and rs: "retain_children n old ?slts (Suc i) ps (set_node c (\<lambda>r. r\<lparr>vr_parent := Some n\<rparr>) t1) = (Ok ds, t')"
    and cs: "cs = c # ds"
    using retain_children_Ok [OF "3.prems"(1)] by blast
  note f = "3.prems"(2) and n = "3.prems"(3) and old = "3.prems"(4)
  have b: "(pr_slot p = []) = b" "\<forall>q \<in> set ps. (pr_slot q = []) = b" and u: "uniform p" "\<forall>q \<in> set ps. uniform q"
    using "3.prems"(5,6) by simp_all
  have d: "distinct old" using forest_distinct [OF f n] old by simp
  note ls = left_step(1,2) [OF d "3.prems"(7) b(1), where i = i] left_step(3,4) [OF d "3.prems"(7) b(1)]
  have A: "left b old slts i \<subseteq> set old" using "3.prems"(8) by (auto simp: left_def dest: in_set_dropD)
  have x: "x < length (vt_mem t)" if "?cur = Some x" for x
    using ls(2) [OF that] A forest_child(1) [OF f n] old by blast
  have head: "retained t ?cur p c t1" by (rule "3.IH"(1) [OF r f u(1) x])
  define t2 where "t2 = set_node c (\<lambda>r. r\<lparr>vr_parent := Some n\<rparr>) t1"
  have same: "forest (vt_mem t2)" "n < length (vt_mem t2)" "old = vr_children (vt_mem t2 ! n)"
  proof -
    have cin: "x \<in> set (vr_children (vt_mem t ! n))" if "?cur = Some x" for x using ls(2) [OF that] A old by blast
    note ps = parent_set [OF f n cin head t2_def]
    show "forest (vt_mem t2)" by (rule ps(3))
    show "n < length (vt_mem t2)" by (rule ps(4))
    show "old = vr_children (vt_mem t2 ! n)" using ps(5) old by simp
  qed
  have tail: "retained_all t2 n (left b old ?slts (Suc i)) (candidates old ?slts (Suc i) ps) ps ds t'"
    by (rule "3.IH"(2) [OF rs [folded t2_def] same u(2) b(2) ls(3)]) (use ls(4) "3.prems"(8) in blast)
  show ?case
    unfolding cs candidates.simps
    by (rule retained_cons [OF f n _ ls(1) ls(2) head t2_def tail]) (use A old candidates_left [OF _ b(2)] in auto)
qed

end
