(* ===== verification/SelectorProps.thy ===== *)
theory SelectorProps
  imports Selectors
begin

text \<open>
  What the parser of selectors accepts, as a grammar, and what the two loops of the search
  compute on a tree: they end, and they find the nodes a declarative reading of the selector
  selects, in document order.
\<close>

section \<open>The grammar\<close>

text \<open>Texts are lists of characters, each the bytes of its encoding.\<close>

definition ident :: "string list \<Rightarrow> bool" where
  "ident cs \<longleftrightarrow>
     (case cs of
        [] \<Rightarrow> False
      | c # r \<Rightarrow> identifier_start c \<and> (c = ''-'' \<longrightarrow> r \<noteq> [] \<and> identifier_start (hd r)) \<and>
          list_all identifier_continue r)"

datatype mark = Id_Mark "string list" | Class_Mark "string list"

fun mark_name :: "mark \<Rightarrow> string list" where
  "mark_name (Id_Mark n) = n"
| "mark_name (Class_Mark n) = n"

fun mark_text :: "mark \<Rightarrow> string list" where
  "mark_text (Id_Mark n) = ''#'' # n"
| "mark_text (Class_Mark n) = ''.'' # n"

fun add_mark :: "compound \<Rightarrow> mark \<Rightarrow> compound" where
  "add_mark c (Id_Mark n) = c\<lparr>cp_ids := cp_ids c @ [concat n]\<rparr>"
| "add_mark c (Class_Mark n) = c\<lparr>cp_classes := cp_classes c @ [concat n]\<rparr>"

definition bare :: "string option \<Rightarrow> compound" where
  "bare tag = \<lparr>cp_tag = tag, cp_ids = [], cp_classes = []\<rparr>"

definition marks_text :: "mark list \<Rightarrow> string list" where
  "marks_text ms = concat (List.map mark_text ms)"

inductive compound_text :: "string list \<Rightarrow> compound \<Rightarrow> bool" where
  tagged: "ident n \<Longrightarrow> \<forall>m \<in> set ms. ident (mark_name m) \<Longrightarrow>
    compound_text (n @ marks_text ms) (foldl add_mark (bare (Some (concat n))) ms)"
| untagged: "ms \<noteq> [] \<Longrightarrow> \<forall>m \<in> set ms. ident (mark_name m) \<Longrightarrow>
    compound_text (marks_text ms) (foldl add_mark (bare None) ms)"

definition blank :: "string list \<Rightarrow> bool" where
  "blank cs \<longleftrightarrow> list_all white_space cs"

inductive separator :: "string list \<Rightarrow> relation \<Rightarrow> bool" where
  descendant: "blank cs \<Longrightarrow> cs \<noteq> [] \<Longrightarrow> separator cs Rel_Descendant"
| child: "blank a \<Longrightarrow> blank b \<Longrightarrow> separator (a @ ''>'' # b) Rel_Child"

text \<open>What follows the first compound.\<close>

inductive rest_text :: "string list \<Rightarrow> compound list \<Rightarrow> relation list \<Rightarrow> bool" where
  last: "blank cs \<Longrightarrow> rest_text cs [] []"
| more: "separator s r \<Longrightarrow> compound_text cs c \<Longrightarrow> rest_text t cps rs \<Longrightarrow>
    rest_text (s @ cs @ t) (c # cps) (r # rs)"

inductive selector_text :: "string list \<Rightarrow> selector \<Rightarrow> bool" where
  "blank b \<Longrightarrow> compound_text cs c \<Longrightarrow> rest_text t cps rs \<Longrightarrow>
    selector_text (b @ cs @ t) \<lparr>sel_compounds = c # cps, sel_relations = rs\<rparr>"


section \<open>The parser accepts only the grammar\<close>

lemma whitespace_fst: "fst (whitespace p) \<longleftrightarrow> takeWhile white_space (fst p) \<noteq> []"
proof -
  have "snd (skip_while white_space cs k) = k \<longleftrightarrow> takeWhile white_space cs = []" for cs k
  proof -
    have le: "k \<le> snd (skip_while white_space cs k)" for cs k
      by (induction cs arbitrary: k) (auto intro: add_leD1)
    show ?thesis
    proof (cases cs)
      case (Cons c cs')
      have "white_space c \<Longrightarrow> 0 < length c" by (auto simp: white_space_def)
      then show ?thesis using Cons le [of "k + length c" cs'] by fastforce
    qed simp
  qed
  then show ?thesis by (simp add: whitespace_def Let_def)
qed

lemma whitespace_rest: "fst (snd (whitespace p)) = dropWhile white_space (fst p)"
  by (simp add: whitespace_def Let_def skip_while_drops)

lemma ident_sound:
  assumes "parse_identifier p = Ok (w, q)"
  shows "\<exists>n. fst p = n @ fst q \<and> ident n \<and> w = concat n"
proof (cases "fst p")
  case (Cons c cs)
  let ?r = "dropWhile identifier_continue cs" and ?n = "c # takeWhile identifier_continue cs"
  have i: "identifier_start c" "c = ''-'' \<Longrightarrow> cs \<noteq> [] \<and> identifier_start (hd cs)" "fst q = ?r" "w = consumed p q"
    using assms Cons
    by (auto simp: parse_identifier_def peek_def next_is_def advance_def Let_def skip_while_drops split: if_splits list.splits)
  have d: "fst p = ?n @ fst q" using Cons i(3) by simp
  then have "w = concat ?n" unfolding i(4) consumed_def by (simp add: concat_append [symmetric] del: concat_append)
  moreover have "ident ?n"
    using i(1,2) by (cases cs) (auto simp: ident_def identifier_continue_def list_all_iff dest: set_takeWhileD)
  ultimately show ?thesis using d by blast
qed (use assms in \<open>auto simp: parse_identifier_def peek_def\<close>)

lemma peek_Some: "peek p = Some c \<Longrightarrow> fst p = c # fst (advance p)"
  by (auto simp: peek_def advance_def split: list.splits)

lemma peek_None: "peek p = None \<longleftrightarrow> fst p = []"
  by (auto simp: peek_def split: list.splits)

lemma marks_sound:
  "marks c p = Ok (d, q) \<Longrightarrow>
     \<exists>ms. fst p = marks_text ms @ fst q \<and> (\<forall>m \<in> set ms. ident (mark_name m)) \<and> d = foldl add_mark c ms"
proof (induction c p rule: marks.induct)
  case (1 c p)
  show ?case
  proof (cases "\<exists>x. peek p = Some x \<and> (x = ''#'' \<or> x = ''.'')")
    case True
    then obtain x where x: "peek p = Some x" "x = ''#'' \<or> x = ''.''" by blast
    define c' where "c' w = (if x = ''#'' then c\<lparr>cp_ids := cp_ids c @ [w]\<rparr> else c\<lparr>cp_classes := cp_classes c @ [w]\<rparr>)" for w
    obtain w r where i: "parse_identifier (advance p) = Ok (w, r)" and m: "marks (c' w) r = Ok (d, q)"
      using "1.prems" x unfolding c'_def by (subst (asm) marks.simps) (auto split: res.splits prod.splits)
    obtain ms where ms: "fst r = marks_text ms @ fst q" "\<forall>m \<in> set ms. ident (mark_name m)" "d = foldl add_mark (c' w) ms"
      using "1.IH" [OF x(1) _ i refl m [unfolded c'_def]] x(2) unfolding c'_def by auto
    obtain n where n: "fst (advance p) = n @ fst r" "ident n" "w = concat n" using ident_sound [OF i] by blast
    define k where "k = (if x = ''#'' then Id_Mark n else Class_Mark n)"
    have "fst p = marks_text (k # ms) @ fst q" "ident (mark_name k)" "d = foldl add_mark c (k # ms)"
      using peek_Some [OF x(1)] n ms x(2) by (auto simp: k_def c'_def marks_text_def)
    then show ?thesis using ms(2) by (intro exI [of _ "k # ms"]) auto
  next
    case False
    then have "d = c \<and> q = p" using "1.prems" by (subst (asm) marks.simps) (auto split: option.splits if_splits)
    then show ?thesis by (intro exI [of _ "[]"]) (simp add: marks_text_def)
  qed
qed

lemma compound_sound:
  assumes "compound_at p = Ok (c, q)"
  shows "\<exists>cs. fst p = cs @ fst q \<and> compound_text cs c"
proof (cases "next_is identifier_start p")
  case True
  then obtain w r where i: "parse_identifier p = Ok (w, r)" and m: "marks (bare (Some w)) r = Ok (c, q)"
    using assms by (auto simp: compound_at_def bare_def Let_def res_bind_Ok_iff split: if_splits prod.splits)
  obtain n where n: "fst p = n @ fst r" "ident n" "w = concat n" using ident_sound [OF i] by blast
  obtain ms where ms: "fst r = marks_text ms @ fst q" "\<forall>m \<in> set ms. ident (mark_name m)" "c = foldl add_mark (bare (Some w)) ms"
    using marks_sound [OF m] by blast
  show ?thesis
    using n ms tagged [OF n(2) ms(2)] by (intro exI [of _ "n @ marks_text ms"]) simp
next
  case False
  then have m: "marks (bare None) p = Ok (c, q)" "c \<noteq> bare None"
    using assms by (auto simp: compound_at_def bare_def Let_def res_bind_Ok_iff split: if_splits prod.splits)
  obtain ms where ms: "fst p = marks_text ms @ fst q" "\<forall>m \<in> set ms. ident (mark_name m)" "c = foldl add_mark (bare None) ms"
    using marks_sound [OF m(1)] by blast
  have "ms \<noteq> []" using m(2) ms(3) by auto
  then show ?thesis using ms untagged [of ms] by blast
qed

lemma relation_sound:
  assumes "relation_at (fst (whitespace p)) (snd (whitespace p)) = Ok (r, q)"
    and ne: "peek (snd (whitespace p)) \<noteq> None"
  shows "\<exists>s. fst p = s @ fst q \<and> separator s r"
proof -
  let ?a = "takeWhile white_space (fst p)"
  have p: "fst p = ?a @ fst (snd (whitespace p))" by (simp add: whitespace_rest)
  have a: "blank ?a" by (auto simp: blank_def list_all_iff dest: set_takeWhileD)
  show ?thesis
  proof (cases "peek (snd (whitespace p)) = Some ''>''")
    case True
    let ?q = "advance (snd (whitespace p))"
    let ?b = "takeWhile white_space (fst ?q)"
    have q: "r = Rel_Child" "q = snd (whitespace ?q)" using assms(1) True by (auto simp: relation_at_def)
    have "fst (snd (whitespace p)) = ''>'' # ?b @ fst q"
      using peek_Some [OF True] by (simp add: q(2) whitespace_rest)
    moreover have "blank ?b" by (auto simp: blank_def list_all_iff dest: set_takeWhileD)
    ultimately show ?thesis using p child [OF a] q(1) by (intro exI [of _ "?a @ ''>'' # ?b"]) simp
  next
    case False
    then have "r = Rel_Descendant" "q = snd (whitespace p)" "?a \<noteq> []"
      using assms(1) by (auto simp: relation_at_def whitespace_fst split: if_splits)
    then show ?thesis using p descendant [OF a] by auto
  qed
qed

lemma compounds_step:
  assumes "whitespace p = (sp, q)" and "peek q \<noteq> None"
  shows "compounds_from cs rs p =
    res_bind (relation_at sp q) (\<lambda>(r, q1). res_bind (compound_at q1) (\<lambda>(c, q2). compounds_from (cs @ [c]) (rs @ [r]) q2))"
  using assms by (subst compounds_from.simps) (auto split: res.splits)

lemma rest_sound:
  "compounds_from cs rs p = Ok s \<Longrightarrow>
     \<exists>cps rs'. s = \<lparr>sel_compounds = cs @ cps, sel_relations = rs @ rs'\<rparr> \<and> rest_text (fst p) cps rs'"
proof (induction cs rs p rule: compounds_from.induct)
  case (1 cs rs p)
  let ?q = "snd (whitespace p)"
  show ?case
  proof (cases "peek ?q = None")
    case True
    then have "s = \<lparr>sel_compounds = cs, sel_relations = rs\<rparr>"
      using "1.prems" by (subst (asm) compounds_from.simps) (auto split: prod.splits)
    moreover have "blank (fst p)"
      using True by (simp add: peek_None whitespace_rest blank_def list_all_iff)
    ultimately show ?thesis using rest_text.last by (intro exI [of _ "[]"]) auto
  next
    case False
    obtain sp where w: "whitespace p = (sp, ?q)" by (cases "whitespace p") simp
    have "\<exists>r q1 c q2. relation_at sp ?q = Ok (r, q1) \<and> compound_at q1 = Ok (c, q2) \<and>
        compounds_from (cs @ [c]) (rs @ [r]) q2 = Ok s"
      using "1.prems" unfolding compounds_step [OF w False] by (auto simp: res_bind_Ok_iff)
    then obtain r q1 c q2 where r: "relation_at sp ?q = Ok (r, q1)" and c: "compound_at q1 = Ok (c, q2)"
      and m: "compounds_from (cs @ [c]) (rs @ [r]) q2 = Ok s" by blast
    obtain cps rs' where ih: "s = \<lparr>sel_compounds = (cs @ [c]) @ cps, sel_relations = (rs @ [r]) @ rs'\<rparr>" "rest_text (fst q2) cps rs'"
      using "1.IH" [OF w [symmetric] False r refl c refl m] by blast
    obtain t where t: "fst p = t @ fst q1" "separator t r"
      using relation_sound [of p r q1] r False w by (metis fst_conv)
    obtain d where d: "fst q1 = d @ fst q2" "compound_text d c" using compound_sound [OF c] by blast
    have "rest_text (fst p) (c # cps) (r # rs')" using rest_text.more [OF t(2) d(2) ih(2)] t(1) d(1) by simp
    then show ?thesis using ih(1) by (intro exI [of _ "c # cps"]) auto
  qed
qed

lemma selector_sound:
  assumes "parse_selector source = Ok s"
  shows "selector_text (utf8_chars source) s"
proof -
  let ?p = "(utf8_chars source, 0 :: nat)"
  let ?b = "takeWhile white_space (utf8_chars source)"
  obtain c q where c: "compound_at (snd (whitespace ?p)) = Ok (c, q)" and r: "compounds_from [c] [] q = Ok s"
    using assms by (auto simp: parse_selector_def res_bind_Ok_iff)
  obtain d where d: "dropWhile white_space (utf8_chars source) = d @ fst q" "compound_text d c"
    using compound_sound [OF c] by (auto simp: whitespace_rest)
  have b: "blank ?b" by (auto simp: blank_def list_all_iff dest: set_takeWhileD)
  obtain cps rs where s: "s = \<lparr>sel_compounds = c # cps, sel_relations = rs\<rparr>" "rest_text (fst q) cps rs"
    using rest_sound [OF r] by auto
  have "utf8_chars source = ?b @ d @ fst q" using d(1) takeWhile_dropWhile_id [of white_space "utf8_chars source"] by metis
  then show ?thesis using selector_text.intros [OF b d(2) s(2)] s(1) by simp
qed


section \<open>The parser accepts all of the grammar\<close>

lemma separator_chars:
  "\<not> identifier_continue ''#''" "\<not> identifier_continue ''.''" "\<not> identifier_continue ''>''"
  "\<not> identifier_start ''#''" "\<not> identifier_start ''.''" "\<not> identifier_start ''>''"
  "\<not> white_space ''#''" "\<not> white_space ''.''" "\<not> white_space ''>''"
  by code_simp+

lemma space_not_continue: "white_space c \<Longrightarrow> \<not> identifier_continue c"
  by (auto simp: white_space_def identifier_continue_def identifier_start_def ascii_def ascii_alpha_def
        ascii_upper_def ascii_lower_def ascii_digit_def byte_def split: list.splits)

lemma start_not_space: "identifier_start c \<Longrightarrow> \<not> white_space c"
  using space_not_continue by (auto simp: identifier_continue_def)

text \<open>Where an identifier, and where a compound, is known to end.\<close>

definition stops :: "string list \<Rightarrow> bool" where
  "stops cs \<longleftrightarrow> cs = [] \<or> \<not> identifier_continue (hd cs)"

definition closed :: "string list \<Rightarrow> bool" where
  "closed cs \<longleftrightarrow> cs = [] \<or> white_space (hd cs) \<or> hd cs = ''>''"

lemma closed_stops: "closed cs \<Longrightarrow> stops cs"
  using separator_chars(3) space_not_continue by (auto simp: closed_def stops_def)

lemma marks_stop: "closed t \<Longrightarrow> stops (marks_text ms @ t)"
  using closed_stops separator_chars(1,2) by (cases ms; cases "hd ms") (auto simp: marks_text_def stops_def)

lemma ident_complete:
  assumes p: "fst p = n @ t" and n: "ident n" and t: "stops t"
  shows "\<exists>q. parse_identifier p = Ok (concat n, q) \<and> fst q = t"
proof -
  obtain c r where c: "n = c # r" using n by (cases n) (auto simp: ident_def)
  have d: "dropWhile identifier_continue (r @ t) = t"
    using n t c by (cases t) (auto simp: ident_def stops_def list_all_iff)
  let ?q = "skip_while identifier_continue (r @ t) (snd p + length c)"
  have a: "advance p = (r @ t, snd p + length c)" "peek p = Some c"
    using p c by (simp_all add: advance_def peek_def)
  have "next_is identifier_start (r @ t, snd p + length c)" if "c = ''-''"
    using n c that by (cases r) (auto simp: ident_def next_is_def peek_def)
  then have "parse_identifier p = Ok (consumed p ?q, ?q)"
    using n c a by (cases "c = ''-''") (simp_all add: parse_identifier_def ident_def Let_def)
  moreover have q: "fst ?q = t" by (simp add: skip_while_drops d)
  moreover have "consumed p ?q = concat n" using p by (simp add: consumed_def q)
  ultimately show ?thesis by (intro exI [of _ ?q]) simp
qed

lemma marks_complete:
  assumes "fst p = marks_text ms @ t" and "\<forall>m \<in> set ms. ident (mark_name m)" and "closed t"
  shows "\<exists>q. marks c p = Ok (foldl add_mark c ms, q) \<and> fst q = t"
  using assms
proof (induction ms arbitrary: c p)
  case Nil
  have "peek p = None \<or> (\<exists>x. peek p = Some x \<and> x \<noteq> ''#'' \<and> x \<noteq> ''.'')"
    using Nil separator_chars(7,8) by (cases t) (auto simp: peek_def marks_text_def closed_def)
  then have "marks c p = Ok (c, p)" by (subst marks.simps) auto
  then show ?case using Nil by (simp add: marks_text_def)
next
  case (Cons m ms)
  have s: "stops (marks_text ms @ t)" using Cons.prems(3) by (rule marks_stop)
  have a: "fst (advance p) = mark_name m @ marks_text ms @ t"
    using Cons.prems(1) by (cases m) (auto simp: marks_text_def advance_def)
  obtain q where q: "parse_identifier (advance p) = Ok (concat (mark_name m), q)" "fst q = marks_text ms @ t"
    using ident_complete [OF a _ s] Cons.prems(2) by auto
  have k: "peek p = Some (case m of Id_Mark _ \<Rightarrow> ''#'' | Class_Mark _ \<Rightarrow> ''.'')"
    using Cons.prems(1) by (cases m) (auto simp: marks_text_def peek_def)
  have "marks c p = marks (add_mark c m) q"
    using q(1) k by (subst marks.simps) (cases m; simp)
  then show ?case using Cons.IH [OF q(2)] Cons.prems(2,3) by simp
qed

lemma marks_tag: "cp_tag (foldl add_mark c ms) = cp_tag c"
proof (induction ms arbitrary: c)
  case (Cons m ms)
  then show ?case by (cases m) auto
qed simp

lemma marks_grow:
  "length (cp_ids (foldl add_mark c ms)) + length (cp_classes (foldl add_mark c ms)) =
     length (cp_ids c) + length (cp_classes c) + length ms"
proof (induction ms arbitrary: c)
  case (Cons m ms)
  then show ?case by (cases m) auto
qed simp

lemma compound_complete:
  assumes p: "fst p = cs @ t" and c: "compound_text cs c" and t: "closed t"
  shows "\<exists>q. compound_at p = Ok (c, q) \<and> fst q = t"
  using c
proof cases
  case (tagged n ms)
  have b: "next_is identifier_start p"
    using tagged p by (cases n) (auto simp: next_is_def peek_def ident_def)
  obtain q where q: "parse_identifier p = Ok (concat n, q)" "fst q = marks_text ms @ t"
    using ident_complete [of p n "marks_text ms @ t"] tagged p marks_stop [OF t] by auto
  obtain r where r: "marks (bare (Some (concat n))) q = Ok (c, r)" "fst r = t"
    using marks_complete [OF q(2) tagged(4) t] tagged(2) by blast
  have "cp_tag c \<noteq> None" unfolding tagged(2) marks_tag by (simp add: bare_def)
  then show ?thesis using b q(1) r by (intro exI [of _ r]) (simp add: compound_at_def bare_def)
next
  case (untagged ms)
  have b: "\<not> next_is identifier_start p"
    using untagged p separator_chars(4,5) by (cases ms; cases "hd ms") (auto simp: next_is_def peek_def marks_text_def)
  obtain r where r: "marks (bare None) p = Ok (c, r)" "fst r = t"
    using marks_complete [of p ms t "bare None"] untagged p t by blast
  have "cp_ids c \<noteq> [] \<or> cp_classes c \<noteq> []"
    using marks_grow [of "bare None" ms] untagged(2,3) by (auto simp: bare_def)
  then show ?thesis using b r by (intro exI [of _ r]) (auto simp: compound_at_def bare_def)
qed

lemma compound_start: "compound_text cs c \<Longrightarrow> cs \<noteq> [] \<and> \<not> white_space (hd cs) \<and> hd cs \<noteq> ''>''"
proof (induction rule: compound_text.induct)
  case (tagged n ms)
  then show ?case using start_not_space separator_chars(6) by (cases n) (auto simp: ident_def)
next
  case (untagged ms)
  then show ?case using separator_chars(7,8) by (cases ms; cases "hd ms") (auto simp: marks_text_def)
qed

lemma blank_drop: "blank b \<Longrightarrow> cs = [] \<or> \<not> white_space (hd cs) \<Longrightarrow> dropWhile white_space (b @ cs) = cs"
  by (cases cs) (auto simp: blank_def list_all_iff)

lemma blank_closed: "blank b \<Longrightarrow> closed b"
  by (cases b) (auto simp: blank_def closed_def)

lemma rest_closed: "rest_text t cps rs \<Longrightarrow> closed t"
proof (induction rule: rest_text.induct)
  case (more s r cs c t cps rs)
  from more(1) show ?case
  proof cases
    case descendant
    then show ?thesis by (cases s) (auto simp: closed_def blank_def)
  next
    case (child a b)
    then show ?thesis by (cases a) (auto simp: closed_def blank_def)
  qed
qed (rule blank_closed)

lemma relation_complete:
  assumes p: "fst p = s @ cs" and s: "separator s r" and cs: "cs \<noteq> []" "\<not> white_space (hd cs)" "hd cs \<noteq> ''>''"
  shows "\<exists>q. peek (snd (whitespace p)) \<noteq> None \<and>
    relation_at (fst (whitespace p)) (snd (whitespace p)) = Ok (r, q) \<and> fst q = cs"
  using s
proof cases
  case descendant
  have "fst (snd (whitespace p)) = cs" using p descendant(2) cs(2) by (simp add: whitespace_rest blank_drop)
  moreover have "fst (whitespace p)" using p descendant by (cases s) (auto simp: whitespace_fst blank_def)
  ultimately show ?thesis using cs descendant(1) by (cases cs) (auto simp: relation_at_def peek_def)
next
  case (child a b)
  have w: "fst (snd (whitespace p)) = ''>'' # b @ cs"
    using p child separator_chars(9) by (simp add: whitespace_rest blank_drop)
  then have k: "peek (snd (whitespace p)) = Some ''>''" by (simp add: peek_def)
  have "fst (advance (snd (whitespace p))) = b @ cs" using w by (simp add: advance_def)
  then have "fst (snd (whitespace (advance (snd (whitespace p))))) = cs"
    using child(4) cs(2) by (simp add: whitespace_rest blank_drop)
  then show ?thesis using k child(2) by (auto simp: relation_at_def)
qed

lemma rest_complete:
  "rest_text t cps rs \<Longrightarrow> fst p = t \<Longrightarrow>
     compounds_from cs0 rs0 p = Ok \<lparr>sel_compounds = cs0 @ cps, sel_relations = rs0 @ rs\<rparr>"
proof (induction arbitrary: p cs0 rs0 rule: rest_text.induct)
  case (last cs)
  then have "peek (snd (whitespace p)) = None" by (simp add: peek_None whitespace_rest blank_def list_all_iff)
  then show ?case by (subst compounds_from.simps) (auto split: prod.splits)
next
  case (more s r cs c t cps rs)
  note st = compound_start [OF more(2)]
  have s1: "cs @ t \<noteq> []" "\<not> white_space (hd (cs @ t))" "hd (cs @ t) \<noteq> ''>''" using st by auto
  obtain q1 where q1: "peek (snd (whitespace p)) \<noteq> None"
    "relation_at (fst (whitespace p)) (snd (whitespace p)) = Ok (r, q1)" "fst q1 = cs @ t"
    using relation_complete [OF more.prems more(1) s1] by blast
  obtain q2 where q2: "compound_at q1 = Ok (c, q2)" "fst q2 = t"
    using compound_complete [OF q1(3) more(2) rest_closed [OF more(3)]] by blast
  have "compounds_from cs0 rs0 p = compounds_from (cs0 @ [c]) (rs0 @ [r]) q2"
    using q1(1,2) q2(1) by (subst compounds_from.simps) (auto split: prod.splits)
  then show ?case using more.IH [OF q2(2), of "cs0 @ [c]" "rs0 @ [r]"] by simp
qed

lemma selector_complete:
  assumes "selector_text (utf8_chars source) s"
  shows "parse_selector source = Ok s"
  using assms
proof cases
  case (1 b cs c t cps rs)
  let ?p = "snd (whitespace (utf8_chars source, 0 :: nat))"
  have p: "fst ?p = cs @ t"
    using 1 compound_start [OF 1(4)] by (simp add: whitespace_rest blank_drop)
  obtain q where q: "compound_at ?p = Ok (c, q)" "fst q = t"
    using compound_complete [OF p 1(4) rest_closed [OF 1(5)]] by blast
  show ?thesis using q(1) rest_complete [OF 1(5) q(2), of "[c]" "[]"] 1(2) by (simp add: parse_selector_def)
qed

lemma identifier_no_panic: "no_panic (parse_identifier q)"
  by (auto simp: parse_identifier_def Let_def split: option.splits)

lemma marks_no_panic: "no_panic (marks c p)"
proof (induction c p rule: marks.induct)
  case (1 c p)
  show ?case
  proof (cases "\<exists>x. peek p = Some x \<and> (x = ''#'' \<or> x = ''.'')")
    case True
    then obtain x where x: "peek p = Some x" "\<not> (x \<noteq> ''#'' \<and> x \<noteq> ''.'')" by blast
    show ?thesis
    proof (cases "parse_identifier (advance p)")
      case (Ok wr)
      obtain w r where wr: "wr = (w, r)" by (cases wr)
      show ?thesis using "1.IH" [OF x Ok wr [symmetric]] x Ok wr by (subst marks.simps) auto
    next
      case (Panic e)
      then show ?thesis using identifier_no_panic [of "advance p"] by simp
    qed (use x in \<open>subst marks.simps, auto\<close>)
  next
    case False
    then show ?thesis by (subst marks.simps) (auto split: option.splits)
  qed
qed

lemma compound_no_panic: "no_panic (compound_at p)"
  unfolding compound_at_def Let_def
  by (intro no_panic_bind)
     (auto intro!: no_panic_bind marks_no_panic identifier_no_panic [of p] simp del: split_paired_All split: prod.splits)

lemma rest_no_panic: "no_panic (compounds_from cs rs p)"
proof (induction cs rs p rule: compounds_from.induct)
  case (1 cs rs p)
  obtain sp q where w: "whitespace p = (sp, q)" by (cases "whitespace p")
  show ?case
  proof (cases "peek q = None")
    case True
    then show ?thesis using w by (subst compounds_from.simps) simp
  next
    case False
    have r: "no_panic (relation_at sp q)" by (simp add: relation_at_def)
    show ?thesis
      unfolding compounds_step [OF w False]
      using "1.IH" [OF w [symmetric] False _ refl _ refl]
      by (auto intro!: no_panic_bind r compound_no_panic split: prod.splits)
  qed
qed

text \<open>
  C34. The parser of selectors accepts exactly the selectors of the grammar, in any spelling of
  the white space between compounds, and reads each as the compounds and relations it is
  written with: the grammar is unambiguous. Every other text is an error, never a panic.
\<close>

theorem selector_parse_exact:
  "(parse_selector source = Ok s \<longleftrightarrow> selector_text (utf8_chars source) s) \<and> no_panic (parse_selector source)"
  using selector_sound [of source s] selector_complete [of source s]
  by (auto simp: parse_selector_def intro!: no_panic_bind compound_no_panic rest_no_panic split: prod.splits)


section \<open>The search\<close>

text \<open>
  What a selector means. A node satisfies the compounds up to index \<open>i\<close> when it matches the
  \<open>i\<close>-th and an ancestor in the relation before it, the parent or any, satisfies those below.
\<close>

definition related :: "'n selector_tree \<Rightarrow> relation \<Rightarrow> 'n \<Rightarrow> 'n \<Rightarrow> bool" where
  "related T r n a \<longleftrightarrow>
     (if r = Rel_Child then st_parent T n = Some a else (\<lambda>x y. st_parent T x = Some y)\<^sup>+\<^sup>+ n a)"

fun context_ok :: "'n selector_tree \<Rightarrow> selector \<Rightarrow> nat \<Rightarrow> 'n \<Rightarrow> bool" where
  "context_ok T s 0 n \<longleftrightarrow> True"
| "context_ok T s (Suc i) n \<longleftrightarrow>
     (\<exists>a. related T (sel_relations s ! i) n a \<and> compound_matches T (sel_compounds s ! i) a \<and> context_ok T s i a)"

definition selects :: "'n selector_tree \<Rightarrow> selector \<Rightarrow> 'n \<Rightarrow> bool" where
  "selects T s n \<longleftrightarrow>
     (let i = length (sel_compounds s) - 1
      in compound_matches T (sel_compounds s ! i) n \<and> context_ok T s i n)"

text \<open>The nodes from a root down in document order.\<close>

inductive preorder :: "'n selector_tree \<Rightarrow> 'n \<Rightarrow> 'n list \<Rightarrow> bool" for T where
  "list_all2 (preorder T) (st_children T n) nss \<Longrightarrow> preorder T n (n # concat nss)"

text \<open>
  What the search relies on: along parents and along children one cannot walk for ever. The
  tree may change between searches, so the interface is over its states.
\<close>

locale searchable =
  fixes view :: "'t \<Rightarrow> 'n selector_tree" and ok :: "'t \<Rightarrow> bool" and nodes :: "'t \<Rightarrow> 'n set"
  assumes parent_node: "ok t \<Longrightarrow> n \<in> nodes t \<Longrightarrow> st_parent (view t) n = Some a \<Longrightarrow> a \<in> nodes t"
    and child_node: "ok t \<Longrightarrow> n \<in> nodes t \<Longrightarrow> c \<in> set (st_children (view t) n) \<Longrightarrow> c \<in> nodes t"
    and parents_end: "ok t \<Longrightarrow> wfp (\<lambda>a n. n \<in> nodes t \<and> st_parent (view t) n = Some a)"
    and children_end: "ok t \<Longrightarrow> wfp (\<lambda>c n. n \<in> nodes t \<and> c \<in> set (st_children (view t) n))"
begin

lemma ancestors_found:
  assumes "ok t" and "n \<in> nodes t"
  shows "\<exists>as. ancestors_matching (view t) c r (st_parent (view t) n) found = Some (as @ found) \<and>
    set as = {a. related (view t) r n a \<and> compound_matches (view t) c a}"
  using assms(2)
proof (induction n arbitrary: found rule: wfp_induct_rule [OF parents_end [OF assms(1)]])
  case (1 n)
  show ?case
  proof (cases "st_parent (view t) n")
    case None
    then have "\<not> related (view t) r n a" for a by (auto simp: related_def dest: tranclpD)
    then show ?thesis using None by (subst ancestors_matching.simps) auto
  next
    case (Some a)
    define as where "as = (if compound_matches (view t) c a then [a] else [])"
    show ?thesis
    proof (cases "r = Rel_Child")
      case True
      then show ?thesis using Some
        by (subst ancestors_matching.simps) (auto simp: related_def Let_def intro!: exI [of _ as] simp: as_def)
    next
      case False
      obtain bs where bs: "ancestors_matching (view t) c r (st_parent (view t) a) (as @ found) = Some (bs @ as @ found)"
        "set bs = {b. related (view t) r a b \<and> compound_matches (view t) c b}"
        using "1.IH" [OF _ parent_node [OF assms(1) "1.prems" Some]] "1.prems" Some by blast
      have "related (view t) r n b \<longleftrightarrow> b = a \<or> related (view t) r a b" for b
        using False Some tranclpD [of "\<lambda>x y. st_parent (view t) x = Some y" n b] rtranclpD [of "\<lambda>x y. st_parent (view t) x = Some y" a b]
        by (auto simp: related_def intro: tranclp_into_tranclp2)
      then have "set (bs @ as) = {b. related (view t) r n b \<and> compound_matches (view t) c b}"
        using bs(2) by (auto simp: as_def)
      moreover have "ancestors_matching (view t) c r (st_parent (view t) n) found = Some ((bs @ as) @ found)"
        using bs(1) Some False
        by (subst ancestors_matching.simps) (cases "compound_matches (view t) c a"; simp add: as_def)
      ultimately show ?thesis by blast
    qed
  qed
qed

lemma finite_ancestors:
  assumes "ok t" and "n \<in> nodes t"
  shows "finite {a. (\<lambda>x y. st_parent (view t) x = Some y)\<^sup>*\<^sup>* n a}"
  using assms(2)
proof (induction n rule: wfp_induct_rule [OF parents_end [OF assms(1)]])
  case (1 n)
  have "{a. (\<lambda>x y. st_parent (view t) x = Some y)\<^sup>*\<^sup>* n a} =
    insert n (case st_parent (view t) n of None \<Rightarrow> {} | Some p \<Rightarrow> {a. (\<lambda>x y. st_parent (view t) x = Some y)\<^sup>*\<^sup>* p a})"
    by (auto split: option.splits elim: converse_rtranclpE intro: converse_rtranclp_into_rtranclp)
  then show ?case using 1 parent_node [OF assms(1)] by (auto split: option.splits)
qed

text \<open>
  The loop of \<open>matches\<close> within a finite set that holds the stack and is closed under the steps:
  it ends, and what it has visited without success has no context.
\<close>

definition steps :: "'t \<Rightarrow> selector \<Rightarrow> nat \<times> 'n \<Rightarrow> (nat \<times> 'n) set" where
  "steps t s p = {(i, a). Suc i = fst p \<and> related (view t) (sel_relations s ! i) (snd p) a \<and>
     compound_matches (view t) (sel_compounds s ! i) a}"

lemma no_context:
  assumes "\<forall>p \<in> V. 0 < fst p \<and> steps t s p \<subseteq> V" and "(i, n) \<in> V"
  shows "\<not> context_ok (view t) s i n"
  using assms(2)
proof (induction i arbitrary: n)
  case (Suc i)
  have sub: "steps t s (Suc i, n) \<subseteq> V" using assms(1) Suc.prems by blast
  have "\<not> context_ok (view t) s i a"
    if "related (view t) (sel_relations s ! i) n a" "compound_matches (view t) (sel_compounds s ! i) a" for a
    by (rule Suc.IH, rule subsetD [OF sub]) (use that in \<open>simp add: steps_def\<close>)
  then show ?case by auto
qed (use assms(1) in auto)

lemma match_loop_exact:
  assumes ok: "ok t" and fin: "finite U" and closed: "\<And>p. p \<in> U \<Longrightarrow> steps t s p \<subseteq> U"
    and inside: "\<And>p. p \<in> U \<Longrightarrow> snd p \<in> nodes t"
  shows "set pending \<subseteq> U \<Longrightarrow> set visited \<subseteq> U \<Longrightarrow>
    \<forall>p \<in> set visited. 0 < fst p \<and> steps t s p \<subseteq> set visited \<union> set pending \<Longrightarrow>
    match_loop (view t) s pending visited =
      Some (\<exists>p \<in> set pending \<union> set visited. context_ok (view t) s (fst p) (snd p))"
proof (induction "card (U - set visited)" arbitrary: pending visited rule: less_induct)
  case less
  show ?case using less.prems
  proof (induction pending)
    case Nil
    then have "\<not> context_ok (view t) s (fst p) (snd p)" if "p \<in> set visited" for p
      using no_context [of "set visited" t s "fst p" "snd p"] that by auto
    then show ?case by (subst match_loop.simps) auto
  next
    case (Cons p todo)
    obtain i n where p: "p = (i, n)" by (cases p)
    show ?case
    proof (cases i)
      case 0
      then show ?thesis using p by (subst match_loop.simps) auto
    next
      case (Suc j)
      show ?thesis
      proof (cases "p \<in> set visited")
        case True
        have "match_loop (view t) s (p # todo) visited = match_loop (view t) s todo visited"
          using True Suc p by (subst match_loop.simps) simp
        then show ?thesis using Cons True by (simp add: insert_absorb)
      next
        case False
        have pU: "p \<in> U" "set todo \<subseteq> U" using Cons.prems(1) by auto
        obtain as where as: "ancestors_matching (view t) (sel_compounds s ! j) (sel_relations s ! j) (st_parent (view t) n) [] = Some as"
          "set as = {a. related (view t) (sel_relations s ! j) n a \<and> compound_matches (view t) (sel_compounds s ! j) a}"
          using ancestors_found [OF ok inside [OF pU(1), unfolded p snd_conv], of "sel_compounds s ! j" "sel_relations s ! j" "[]"] by auto
        have st: "steps t s p = Pair j ` set as" using as(2) p Suc by (auto simp: steps_def)
        let ?pending = "List.map (Pair j) as @ todo" and ?visited = "visited @ [p]"
        have e: "match_loop (view t) s (p # todo) visited = match_loop (view t) s ?pending ?visited"
          using False Suc p as(1) by (subst match_loop.simps) simp
        have "card (U - set ?visited) < card (U - set visited)"
          using fin pU False by (intro psubset_card_mono) auto
        moreover have "set ?pending \<subseteq> U" "set ?visited \<subseteq> U"
          using closed [OF pU(1)] st pU Cons.prems(2) by auto
        moreover have "\<forall>q \<in> set ?visited. 0 < fst q \<and> steps t s q \<subseteq> set ?visited \<union> set ?pending"
          using Cons.prems(3) st p Suc by auto
        ultimately have "match_loop (view t) s ?pending ?visited =
            Some (\<exists>q \<in> set ?pending \<union> set ?visited. context_ok (view t) s (fst q) (snd q))"
          by (rule less.hyps)
        moreover have "context_ok (view t) s i n" if "a \<in> set as" "context_ok (view t) s j a" for a
          using that as(2) Suc by auto
        ultimately show ?thesis unfolding e using p by auto
      qed
    qed
  qed
qed

lemma matches_exact:
  assumes ok: "ok t" and n: "n \<in> nodes t"
  shows "selector_matches (view t) s n = Some (selects (view t) s n)"
proof -
  let ?l = "length (sel_compounds s) - 1"
  define U where "U = {..?l} \<times> {a. (\<lambda>x y. st_parent (view t) x = Some y)\<^sup>*\<^sup>* n a}"
  have fin: "finite U" unfolding U_def using finite_ancestors [OF ok n] by simp
  have rel: "(\<lambda>x y. st_parent (view t) x = Some y)\<^sup>*\<^sup>* a b" if "related (view t) r a b" for r a b
    using that by (auto simp: related_def tranclp_into_rtranclp split: if_splits)
  have closed: "steps t s p \<subseteq> U" if "p \<in> U" for p
    using that rel by (auto simp: U_def steps_def intro: rtranclp_trans)
  have "a \<in> nodes t" if "(\<lambda>x y. st_parent (view t) x = Some y)\<^sup>*\<^sup>* n a" for a
    using that by induction (auto intro: n parent_node [OF ok])
  then have inside: "snd p \<in> nodes t" if "p \<in> U" for p using that by (auto simp: U_def)
  have "set [(?l, n)] \<subseteq> U" by (auto simp: U_def)
  then have "match_loop (view t) s [(?l, n)] [] = Some (context_ok (view t) s ?l n)"
    using match_loop_exact [OF ok fin closed inside, of "[(?l, n)]" "[]"] by simp
  then show ?thesis by (simp add: selector_matches_def selects_def Let_def)
qed

lemma preorder_exists:
  assumes "ok t" and "n \<in> nodes t"
  shows "\<exists>ns. preorder (view t) n ns"
  using assms(2)
proof (induction n rule: wfp_induct_rule [OF children_end [OF assms(1)]])
  case (1 n)
  have "\<exists>nss. list_all2 (preorder (view t)) cs nss" if "set cs \<subseteq> set (st_children (view t) n)" for cs
    using that
  proof (induction cs)
    case (Cons c cs)
    obtain ns where "preorder (view t) c ns" using "1.IH" [of c] "1.prems" Cons.prems child_node [OF assms(1) "1.prems"] by auto
    moreover obtain nss where "list_all2 (preorder (view t)) cs nss" using Cons by auto
    ultimately show ?case by blast
  qed blast
  then obtain nss where "list_all2 (preorder (view t)) (st_children (view t) n) nss" by blast
  then have "preorder (view t) n (n # concat nss)" by (rule preorder.intros)
  then show ?case by (rule exI)
qed

text \<open>The stack of the search holds what is left of the preorder.\<close>

lemma query_loop_pre:
  assumes ok: "ok t"
  shows "preorder (view t) n ns \<Longrightarrow> n \<in> nodes t \<Longrightarrow>
    query_loop (view t) s False (n # todo) found =
      query_loop (view t) s False todo (found @ filter (selects (view t) s) ns)"
proof (induction n ns arbitrary: todo found rule: preorder.induct)
  case (1 n nss)
  have "query_loop (view t) s False (cs @ todo) found =
      query_loop (view t) s False todo (found @ filter (selects (view t) s) (concat nss))"
    if "list_all2 (\<lambda>c ns. \<forall>todo found. query_loop (view t) s False (c # todo) found =
          query_loop (view t) s False todo (found @ filter (selects (view t) s) ns)) cs nss" for cs nss found
    using that by (induction arbitrary: found rule: list_all2_induct) auto
  moreover have "list_all2 (\<lambda>c ns. \<forall>todo found. query_loop (view t) s False (c # todo) found =
          query_loop (view t) s False todo (found @ filter (selects (view t) s) ns)) (st_children (view t) n) nss"
    using 1 child_node [OF ok 1(2)] by (auto simp: list_all2_conv_all_nth)
  ultimately show ?case
    by (subst query_loop.simps) (simp add: matches_exact [OF ok 1(2)])
qed

lemma query_first_pre:
  assumes ok: "ok t"
  shows "preorder (view t) n ns \<Longrightarrow> n \<in> nodes t \<Longrightarrow>
    query_loop (view t) s True (n # todo) [] =
      (case filter (selects (view t) s) ns of [] \<Rightarrow> query_loop (view t) s True todo [] | x # _ \<Rightarrow> Some [x])"
proof (induction n ns arbitrary: todo rule: preorder.induct)
  case (1 n nss)
  have "query_loop (view t) s True (cs @ todo) [] =
      (case filter (selects (view t) s) (concat nss) of [] \<Rightarrow> query_loop (view t) s True todo [] | x # _ \<Rightarrow> Some [x])"
    if "list_all2 (\<lambda>c ns. \<forall>todo. query_loop (view t) s True (c # todo) [] =
          (case filter (selects (view t) s) ns of [] \<Rightarrow> query_loop (view t) s True todo [] | x # _ \<Rightarrow> Some [x])) cs nss" for cs nss
    using that by (induction rule: list_all2_induct) (auto split: list.splits)
  moreover have "list_all2 (\<lambda>c ns. \<forall>todo. query_loop (view t) s True (c # todo) [] =
          (case filter (selects (view t) s) ns of [] \<Rightarrow> query_loop (view t) s True todo [] | x # _ \<Rightarrow> Some [x])) (st_children (view t) n) nss"
    using 1 child_node [OF ok 1(2)] by (auto simp: list_all2_conv_all_nth)
  ultimately show ?case
    by (subst query_loop.simps) (simp add: matches_exact [OF ok 1(2)])
qed

lemma query_exact:
  assumes "ok t" and "root \<in> nodes t"
  obtains ns where "preorder (view t) root ns"
    and "query_all (view t) s root = Some (filter (selects (view t) s) ns)"
    and "query_first (view t) s root = Some (find (selects (view t) s) ns)"
proof -
  obtain ns where ns: "preorder (view t) root ns" using preorder_exists [OF assms] by blast
  have "find P xs = (case filter P xs of [] \<Rightarrow> None | x # _ \<Rightarrow> Some x)" for P and xs :: "'n list"
    by (induction xs) auto
  then show thesis
    using that [OF ns] query_loop_pre [OF assms(1) ns assms(2), of s "[]" "[]"] query_first_pre [OF assms(1) ns assms(2), of s "[]"]
    by (simp add: query_all_def query_first_def query_loop.simps [of _ _ _ "[]"] split: list.splits)
qed

end

end
