(* ===== verification/RetainedProps.thy ===== *)
theory RetainedProps
  imports RetainedUpdate SelectorProps
begin

text \<open>
  The properties of the native views: selectors read exactly their grammar, searches end and
  find what a selector means, frames put exactly the new view on display while nodes keep
  their identity.
\<close>

section \<open>Strong references\<close>

lemma strong_reach_sound:
  "y \<in> set (strong_reach m todo seen) \<Longrightarrow> y \<in> set seen \<or> (\<exists>x \<in> set todo. x < length m \<and> below m x y)"
proof (induction m todo seen rule: strong_reach.induct)
  case (2 m a todo seen)
  show ?case
  proof (cases "length m \<le> a \<or> a \<in> set seen")
    case True
    then show ?thesis using "2.IH"(1) "2.prems" by auto
  next
    case False
    then have "y \<in> set (strong_reach m (vr_children (m ! a) @ todo) (a # seen))" using "2.prems" by simp
    then consider "y \<in> set (a # seen)" | x where "x \<in> set (vr_children (m ! a))" "below m x y"
      | x where "x \<in> set todo" "x < length m" "below m x y"
      using "2.IH"(2) [OF False] by auto
    then show ?thesis
    proof cases
      case 1
      then show ?thesis using False below.self by (metis linorder_not_le list.set_intros(1) set_ConsD)
    next
      case (2 x)
      then have "below m a y" using below_trans below.child [OF below.self] by blast
      then show ?thesis using False by auto
    qed auto
  qed
qed simp

lemma strong_reach_start: "set seen \<union> {x \<in> set todo. x < length m} \<subseteq> set (strong_reach m todo seen)"
  by (induction m todo seen rule: strong_reach.induct) auto

lemma strong_reach_closed:
  "\<forall>s \<in> set seen. {c \<in> set (vr_children (m ! s)). c < length m} \<subseteq> set seen \<union> set todo \<Longrightarrow>
   s \<in> set (strong_reach m todo seen) \<Longrightarrow> c \<in> set (vr_children (m ! s)) \<Longrightarrow> c < length m \<Longrightarrow> c \<in> set (strong_reach m todo seen)"
proof (induction m todo seen rule: strong_reach.induct)
  case (1 m seen)
  then show ?case by auto
next
  case (2 m a todo seen)
  show ?case
  proof (cases "length m \<le> a \<or> a \<in> set seen")
    case True
    have "\<forall>s \<in> set seen. {c \<in> set (vr_children (m ! s)). c < length m} \<subseteq> set seen \<union> set todo"
    proof (intro ballI subsetI)
      fix s x assume s: "s \<in> set seen" and x: "x \<in> {c \<in> set (vr_children (m ! s)). c < length m}"
      then have "x \<in> set seen \<or> x = a \<or> x \<in> set todo" using "2.prems"(1) by fastforce
      then show "x \<in> set seen \<union> set todo" using True x by auto
    qed
    then show ?thesis using "2.IH"(1) [OF True] "2.prems"(2-4) True by simp
  next
    case False
    have "\<forall>s \<in> set (a # seen). {c \<in> set (vr_children (m ! s)). c < length m} \<subseteq> set (a # seen) \<union> set (vr_children (m ! a) @ todo)"
      using "2.prems"(1) by auto
    then show ?thesis using "2.IH"(2) [OF False] "2.prems"(2-4) False by simp
  qed
qed

lemma alive_iff:
  assumes f: "forest (vt_mem t)"
  shows "alive t y \<longleftrightarrow> (\<exists>x \<in> set (strong t). x < length (vt_mem t) \<and> below (vt_mem t) x y)"
proof
  show "alive t y \<Longrightarrow> \<exists>x \<in> set (strong t). x < length (vt_mem t) \<and> below (vt_mem t) x y"
    using strong_reach_sound unfolding alive_def by fastforce
  assume "\<exists>x \<in> set (strong t). x < length (vt_mem t) \<and> below (vt_mem t) x y"
  then obtain x where x: "x \<in> set (strong t)" "x < length (vt_mem t)" and b: "below (vt_mem t) x y" by blast
  have in0: "x \<in> set (strong_reach (vt_mem t) (strong t) [])" using strong_reach_start x by fastforce
  from b show "alive t y"
    unfolding alive_def
  proof (induction rule: below.induct)
    case (child u v)
    have "u < length (vt_mem t)" using below_range [OF child(1) f x(2)] by simp
    then have "v < length (vt_mem t)" using forest_child(1) [OF f _ child(2)] by simp
    then show ?case using strong_reach_closed [OF _ child(3) child(2)] by simp
  qed (rule in0)
qed

section \<open>Searches in the store\<close>

text \<open>Stores whose ownership is a forest.\<close>

lemma wfp_decreasing: "(\<And>x y. R x y \<Longrightarrow> f x < (f y :: nat)) \<Longrightarrow> wfp R"
  unfolding wfp_def by (rule wf_subset [OF wf_measure [of f]]) auto

lemma node_parent_Some: "node_parent t n = Some a \<Longrightarrow> vr_parent (vt_mem t ! n) = Some a"
  by (auto simp: node_parent_def upgrade_parent_def node_at_def split: option.splits if_splits)

lemma all_children_in: "c \<in> set (all_children t n) \<Longrightarrow> c \<in> set (vr_children (vt_mem t ! n))"
  by (auto simp: all_children_def node_at_def split: if_splits)

interpretation rt: searchable tree_view "\<lambda>t. forest (vt_mem t)" "\<lambda>t. {..<length (vt_mem t)}"
proof
  fix t :: "'a view_tree" and n a c
  assume f: "forest (vt_mem t)"
  have up: "a < n" if "n < length (vt_mem t)" "st_parent (tree_view t) n = Some a" for n a
    using forest_parent [OF f that(1) node_parent_Some] that(2) by (simp add: tree_view_def)
  have down: "c < length (vt_mem t) \<and> n < c" if "n < length (vt_mem t)" "c \<in> set (st_children (tree_view t) n)" for n c
    using forest_child [OF f that(1) all_children_in] that(2) by (simp add: tree_view_def)
  show "a \<in> {..<length (vt_mem t)}" if "n \<in> {..<length (vt_mem t)}" "st_parent (tree_view t) n = Some a"
    using that up [of n a] by simp
  show "c \<in> {..<length (vt_mem t)}" if "n \<in> {..<length (vt_mem t)}" "c \<in> set (st_children (tree_view t) n)"
    using that down [of n c] by simp
  show "wfp (\<lambda>a n. n \<in> {..<length (vt_mem t)} \<and> st_parent (tree_view t) n = Some a)"
  proof (rule wfp_decreasing [of _ id])
    fix a n assume "n \<in> {..<length (vt_mem t)} \<and> st_parent (tree_view t) n = Some a"
    then show "id a < id n" using up [of n a] by simp
  qed
  show "wfp (\<lambda>c n. n \<in> {..<length (vt_mem t)} \<and> c \<in> set (st_children (tree_view t) n))"
  proof (rule wfp_decreasing [of _ "\<lambda>x. length (vt_mem t) - x"])
    fix c n assume "n \<in> {..<length (vt_mem t)} \<and> c \<in> set (st_children (tree_view t) n)"
    then have "n < length (vt_mem t)" "c < length (vt_mem t) \<and> n < c" using down [of n c] by auto
    then show "length (vt_mem t) - c < length (vt_mem t) - n" by linarith
  qed
qed


section \<open>The invariant of a store\<close>

text \<open>
  Ownership is a forest, the root and the handles held name records, and the index of
  identities finds every live record of the session.
\<close>

definition view_ok :: "'st view_tree \<Rightarrow> bool" where
  "view_ok t \<longleftrightarrow> forest (vt_mem t) \<and> indexed t \<and>
     (\<forall>r. vt_root t = Some r \<longrightarrow> r < length (vt_mem t) \<and> vr_owner (vt_mem t ! r) = vt_owner t) \<and>
     (\<forall>h \<in> set (vt_held t). h < length (vt_mem t)) \<and>
     (\<forall>a. alive t a \<and> vr_owner (vt_mem t ! a) = vt_owner t \<longrightarrow> bt_get (vt_records t) (vr_id (vt_mem t ! a)) = Some a)"

lemma bt_get_retain:
  assumes "bt_inv m"
  shows "bt_get (bt_retain P m) k = (case bt_get m k of None \<Rightarrow> None | Some v \<Rightarrow> if P k v then Some v else None)"
  using assms
proof (induction m)
  case (Cons kv m)
  obtain k' v where kv: "kv = (k', v)" by (cases kv)
  have "k \<noteq> fst x" if "k = k'" "x \<in> set m" for x using Cons.prems that by (auto simp: bt_inv_def kv)
  then have "bt_get (bt_retain P m) k = None" if "k = k'"
    using that by (force simp: bt_get_def bt_retain_def map_of_eq_None_iff)
  then show ?case using Cons by (auto simp: bt_inv_def bt_get_def bt_retain_def kv split: option.splits)
qed (simp add: bt_get_def bt_retain_def)

text \<open>A sweep of the index, once the structure is what it should be.\<close>

lemma sweep_ok:
  assumes f: "forest (vt_mem t)" and i: "indexed t"
    and r: "\<And>r. vt_root t = Some r \<Longrightarrow> r < length (vt_mem t) \<and> vr_owner (vt_mem t ! r) = vt_owner t"
    and h: "\<And>h. h \<in> set (vt_held t) \<Longrightarrow> h < length (vt_mem t)"
    and c: "\<And>a. alive t a \<Longrightarrow> vr_owner (vt_mem t ! a) = vt_owner t \<Longrightarrow> bt_get (vt_records t) (vr_id (vt_mem t ! a)) = Some a"
  shows "view_ok (sweep_records locals t)"
proof -
  let ?u = "sweep_records locals t"
  have u: "vt_mem ?u = vt_mem t" "vt_root ?u = vt_root t" "vt_held ?u = vt_held t" "vt_owner ?u = vt_owner t" "vt_next ?u = vt_next t"
    by (simp_all add: sweep_records_def)
  have al: "alive ?u a \<longleftrightarrow> alive t a" for a by (simp add: alive_def strong_def u)
  have more: "alive (t\<lparr>vt_held := locals @ vt_held t\<rparr>) a" if "alive t a" for a
    using that alive_iff [OF f] alive_iff [of "t\<lparr>vt_held := locals @ vt_held t\<rparr>"] f by (auto simp: strong_def)
  have inv: "bt_inv (vt_records t)" using i by (simp add: indexed_def)
  have get: "bt_get (vt_records ?u) k = (case bt_get (vt_records t) k of None \<Rightarrow> None
      | Some v \<Rightarrow> if alive (t\<lparr>vt_held := locals @ vt_held t\<rparr>) v then Some v else None)" for k
    by (simp add: sweep_records_def bt_get_retain [OF inv])
  have "indexed ?u"
    using i bt_inv_retain [OF inv] get unfolding indexed_def
    by (auto simp: u sweep_records_def split: option.splits if_splits)
  moreover have "bt_get (vt_records ?u) (vr_id (vt_mem t ! a)) = Some a"
    if "alive t a" "vr_owner (vt_mem t ! a) = vt_owner t" for a
    using c [OF that] more [OF that(1)] get by simp
  ultimately show ?thesis using f r h by (simp add: view_ok_def u al)
qed

section \<open>Frames\<close>

lemma retain_results:
  fixes p :: "'st prepared" and ps :: "'st prepared list"
  shows "\<And>t. fst (retain cur p t) \<in> range Ok \<union> {Err ''node identity exhausted''}"
    and "\<And>t. fst (retain_children n old slts i ps t) \<in> range Ok \<union> {Err ''node identity exhausted''}"
proof (induction cur p and n old slts i ps rule: retain_retain_children.induct)
  case (1 cur k slot cls at st x h ps)
  let ?p = "Prepared k slot cls at st x h ps"
  show ?case
  proof (cases "case same_kind t cur k of Some a \<Rightarrow> (Ok a, t) | None \<Rightarrow> new_node ?p t")
    case (Pair r t1)
    show ?thesis
    proof (cases r)
      case (Ok a)
      obtain r2 t2 where c: "retain_children a (vr_children (node_at t1 a)) (by_slot (vt_mem t1) (vr_children (node_at t1 a))) 0 ps t1 = (r2, t2)"
        by fastforce
      have "r2 \<in> range Ok \<union> {Err ''node identity exhausted''}" using "1.IH" c by (metis fst_conv)
      then show ?thesis using Pair Ok c
        by (auto simp: bind_def seq_def run_simps split: option.splits)
    qed (use Pair in \<open>auto simp: bind_def ret_def run_simps new_node_def Let_def split: option.splits if_splits\<close>)
  qed
next
  case (3 n old slts i p ps)
  let ?cur = "if pr_slot p = [] then (if i < length old then Some (old ! i) else None) else map_of slts (pr_slot p)"
  let ?slts = "if pr_slot p = [] then slts else filter (\<lambda>(s, _). s \<noteq> pr_slot p) slts"
  obtain r t1 where r: "retain ?cur p t = (r, t1)" by fastforce
  have rr: "r \<in> range Ok \<union> {Err ''node identity exhausted''}" using "3.IH"(1) r by (metis fst_conv)
  show ?case
  proof (cases r)
    case (Ok c)
    obtain r2 t2 where c: "retain_children n old ?slts (Suc i) ps (set_node c (\<lambda>r. r\<lparr>vr_parent := Some n\<rparr>) t1) = (r2, t2)"
      by fastforce
    have "r2 \<in> range Ok \<union> {Err ''node identity exhausted''}" using "3.IH"(2) c by (metis fst_conv)
    then show ?thesis using r Ok c by (auto simp: bind_def seq_def run_simps)
  qed (use r rr in \<open>auto simp: bind_def\<close>)
qed (simp add: run_simps)

lemma snapshot_exists:
  assumes f: "forest (vt_mem t)"
  shows "a < length (vt_mem t) \<Longrightarrow> length (vt_mem t) \<le> k + a \<Longrightarrow> \<exists>n. snapshot k t a = Some n"
proof (induction k arbitrary: a)
  case (Suc k)
  have "\<exists>n. snapshot k t c = Some n" if "c \<in> set (vr_children (node_at t a))" for c
    using forest_child [OF f Suc.prems(1), of c] that Suc.prems(2) by (intro Suc.IH) (auto simp: node_at_def)
  then have "those (List.map (snapshot k t) xs) \<noteq> None" if "set xs \<subseteq> set (vr_children (node_at t a))" for xs
    using that
  proof (induction xs)
    case (Cons x xs)
    then show ?case by fastforce
  qed simp
  then have "those (List.map (snapshot k t) (vr_children (node_at t a))) \<noteq> None" by simp
  then show ?case by (auto simp: Let_def)
qed simp

lemma strong_reads: "strong (t\<lparr>vt_root := r\<rparr>) = (case r of None \<Rightarrow> [] | Some a \<Rightarrow> [a]) @ vt_held t"
  by (simp add: strong_def)

text \<open>What is alive after a frame was alive before it or is new.\<close>

lemma below_before:
  assumes f: "forest m'" and e: "evolves S m m'" and x: "x < length m"
  shows "below m' x y \<Longrightarrow> below m x y \<or> length m \<le> y"
proof (induction rule: below.induct)
  case (child u v)
  have u: "u < length m'" using below_range [OF child(1) f] x evolves_length [OF e] by simp
  show ?case
  proof (cases "length m \<le> u")
    case True
    then have "set (vr_children (m' ! u)) \<subseteq> {length m..}" using e u by (simp add: evolves_def)
    then show ?thesis using child(2) by auto
  next
    case False
    then have "set (vr_children (m' ! u)) \<subseteq> set (vr_children (m ! u)) \<union> {length m..}" using e by (simp add: evolves_def)
    then have "v \<in> set (vr_children (m ! u)) \<or> length m \<le> v" using child(2) by auto
    then show ?thesis using child(3) False by (auto intro: below.child)
  qed
qed (auto intro: below.self)

lemma retain_root_ok:
  assumes ok: "view_ok t" and r: "retained t (vt_root t) p a t1"
  shows "view_ok (sweep_records [] (t1\<lparr>vt_root := Some a\<rparr>))"
proof (rule sweep_ok)
  let ?u = "t1\<lparr>vt_root := Some a\<rparr>" and ?m = "vt_mem t" and ?m1 = "vt_mem t1"
  note o = ok [unfolded view_ok_def]
  have f: "forest ?m" and f1: "forest ?m1" and e: "evolves (subtree ?m (vt_root t)) ?m ?m1" and g: "grown t t1"
    and a: "a < length ?m1" and b: "\<And>y. below ?m1 a y \<Longrightarrow> y \<in> subtree ?m (vt_root t) \<or> length ?m \<le> y"
    using o r [unfolded retained_def] by blast+
  have ctl: "vt_root t1 = vt_root t" "vt_owner t1 = vt_owner t" "vt_held t1 = vt_held t" using g by (simp_all add: grown_def)
  have i: "indexed t" using o by blast
  have g': "indexed t1" "\<And>j. j < vt_next t \<Longrightarrow> bt_get (vt_records t1) j = bt_get (vt_records t) j"
    "\<And>y. length ?m \<le> y \<Longrightarrow> y < length ?m1 \<Longrightarrow> vr_owner (?m1 ! y) = vt_owner t1 \<and> bt_get (vt_records t1) (vr_id (?m1 ! y)) = Some y"
    using g i unfolding grown_def by blast+
  show "forest (vt_mem ?u)" using f1 by simp
  show "indexed ?u" using g'(1) by (simp add: indexed_def)
  show "h < length (vt_mem ?u)" if "h \<in> set (vt_held ?u)" for h
    using that o ctl(3) evolves_length [OF e] by fastforce
  have owner: "vr_owner (?m1 ! a) = vt_owner t1"
  proof (cases "length ?m \<le> a")
    case True
    then show ?thesis using g'(3) a by blast
  next
    case False
    then have "vt_root t = Some a" using r unfolding retained_def by blast
    then show ?thesis using o ctl evolves_ids [OF e, of a] False by simp
  qed
  show "r < length (vt_mem ?u) \<and> vr_owner (vt_mem ?u ! r) = vt_owner ?u" if "vt_root ?u = Some r" for r
    using that a owner by simp
  show "bt_get (vt_records ?u) (vr_id (vt_mem ?u ! y)) = Some y"
    if al: "alive ?u y" and own: "vr_owner (vt_mem ?u ! y) = vt_owner ?u" for y
  proof (cases "length ?m \<le> y")
    case True
    have "y < length ?m1" using al alive_iff [of ?u] below_range f1 by fastforce
    then show ?thesis using g'(3) True by simp
  next
    case False
    obtain x where x: "x = a \<or> x \<in> set (vt_held t)" "below ?m1 x y"
      using al alive_iff [of ?u] f1 ctl(3) by (auto simp: strong_def)
    have "alive t y"
    proof (cases "x = a")
      case True
      then show ?thesis
        using b [of y] x(2) False o alive_iff [OF f] by (auto simp: subtree_def strong_def split: option.splits)
    next
      case not_root: False
      then have h: "x \<in> set (vt_held t)" "x < length ?m" using x(1) o by blast+
      then show ?thesis
        using below_before [OF f1 e h(2) x(2)] False alive_iff [OF f] by (auto simp: strong_def)
    qed
    moreover have ids: "vr_id (?m1 ! y) = vr_id (?m ! y) \<and> vr_owner (?m1 ! y) = vr_owner (?m ! y)"
      by (rule evolves_ids [OF e]) (use False in simp)
    ultimately have get: "bt_get (vt_records t) (vr_id (?m ! y)) = Some y" using o own ctl(2) by simp
    then have "vr_id (?m ! y) < vt_next t" using i unfolding indexed_def by blast
    then show ?thesis using g'(2) get ids by simp
  qed
qed

lemma commit_exact:
  assumes ok: "view_ok t" and u: "uniform p" and c: "commit p t = (r, t')"
  shows "case r of
      Ok n \<Rightarrow> view_ok t' \<and> (\<exists>a. vt_root t' = Some a \<and> displays (vt_mem t') a p \<and>
        follows (vt_mem t) (vt_mem t') (vt_root t) a p \<and> snapshot (length (vt_mem t')) t' a = Some n)
    | Err e \<Rightarrow> e = ''node identity exhausted''
    | Panic e \<Rightarrow> False"
proof -
  note o = ok [unfolded view_ok_def]
  have rng: "x < length (vt_mem t)" if "vt_root t = Some x" for x using o that by blast
  have f: "forest (vt_mem t)" using o by blast
  obtain r1 t1 where r1: "retain (vt_root t) p t = (r1, t1)" by fastforce
  show ?thesis
  proof (cases r1)
    case (Ok a)
    have R: "retained t (vt_root t) p a t1" by (rule retain_exact(1) [OF r1 [unfolded Ok] f u rng])
    define t2 where "t2 = sweep_records [] (t1\<lparr>vt_root := Some a\<rparr>)"
    have v: "view_ok t2" unfolding t2_def by (rule retain_root_ok [OF ok R])
    have m: "vt_mem t2 = vt_mem t1" "vt_root t2 = Some a" by (simp_all add: t2_def sweep_records_def)
    note o2 = v [unfolded view_ok_def]
    have f2: "forest (vt_mem t2)" and a: "a < length (vt_mem t2)" and own: "vr_owner (vt_mem t2 ! a) = vt_owner t2" using o2 m(2) by blast+
    have al: "alive t2 a" using alive_iff [OF f2] a m(2) below.self by (auto simp: strong_def)
    then have "lookup t2 (vr_id (node_at t2 a)) = Some a" using o2 own by (simp add: lookup_def node_at_def)
    moreover obtain n where n: "snapshot (length (vt_mem t2)) t2 a = Some n" 
      using snapshot_exists [OF f2 a, of "length (vt_mem t2)"] by auto
    ultimately have "commit p t = (Ok n, t2)"
      using r1 Ok by (simp add: commit_def bind_def seq_def run_simps t2_def [symmetric] of_opt_def ok_or_def snapshot_of_def)
    then show ?thesis using c v m R n unfolding retained_def by auto
  qed (use c r1 retain_results(1) [of "vt_root t" p t] in \<open>auto simp: commit_def bind_def run_simps\<close>)
qed

section \<open>The frames exactly\<close>

text \<open>
  What a frame has done, given what its preparation returned: a node that cannot be prepared leaves
  the store as it was; otherwise the store is in order, its root displays the prepared view, the
  nodes that continue others kept their identities and what the frame did not change of their effective values, and
  the snapshot is that of the root.
\<close>

definition frame_exact ::
    "('st prepared \<times> nat list list option) res \<Rightarrow> 'st view_tree \<Rightarrow> 'st view_node res \<times> 'st view_tree \<Rightarrow> bool" where
  "frame_exact prepared t out \<longleftrightarrow>
     (case prepared of
        Err e \<Rightarrow> out = (Err e, t)
      | Panic e \<Rightarrow> out = (Panic e, t)
      | Ok (p, _) \<Rightarrow>
          (case out of (r, t') \<Rightarrow>
             (case r of
                Ok n \<Rightarrow> view_ok t' \<and> (\<exists>a. vt_root t' = Some a \<and> displays (vt_mem t') a p \<and>
                  follows (vt_mem t) (vt_mem t') (vt_root t) a p \<and> snapshot (length (vt_mem t')) t' a = Some n)
              | Err e \<Rightarrow> e = ''node identity exhausted''
              | Panic e \<Rightarrow> False)))"

lemma commit_frame:
  assumes "view_ok t" and "\<And>p rest. prepared = Ok (p, rest) \<Longrightarrow> uniform p"
  shows "frame_exact prepared t (bind (lift_res prepared) (\<lambda>(p, _). commit p) t)"
proof (cases prepared)
  case (Ok x)
  obtain p rest where x: "x = (p, rest)" by fastforce
  obtain r t' where c: "commit p t = (r, t')" by fastforce
  show ?thesis
    using commit_exact [OF assms(1) assms(2) [OF Ok [unfolded x]] c] Ok x c
    by (simp add: frame_exact_def bind_def lift_res_def)
qed (simp_all add: frame_exact_def bind_def lift_res_def)

lemma prepare_unslotted:
  fixes style :: "bool \<Rightarrow> string \<Rightarrow> string \<Rightarrow> 'st res"
  shows "\<And>p rest. prepare style w slts = Ok (p, rest) \<Longrightarrow> slts = None \<Longrightarrow> rest = None \<and> pr_slot p = [] \<and> uniform p"
    and "\<And>ps rest. prepare_children style ws slts = Ok (ps, rest) \<Longrightarrow> slts = None \<Longrightarrow>
      rest = None \<and> (\<forall>p \<in> set ps. pr_slot p = [] \<and> uniform p)"
proof (induction style w slts and style ws slts rule: prepare_prepare_children.induct)
  case (1 style tag classes attributes x handler ws slts)
  then show ?case by (auto simp: next_slot_def res_bind_Ok_iff split: prod.splits)
next
  case (3 style w ws slts)
  then show ?case by (force simp: res_bind_Ok_iff split: prod.splits)
qed simp

section \<open>Examples\<close>

text \<open>A view with a heading and a button, and the frame that puts a badge before the button.\<close>

definition plain_style :: "bool \<Rightarrow> string \<Rightarrow> string \<Rightarrow> unit res" where
  "plain_style is_text tag classes = Ok ()"

definition button_wire :: wire where
  "button_wire = Wire ''button'' ''wide red'' [(''id'', ''go'')] None (Some 7) [Wire [] [] [] (Some ''Go'') None []]"

definition first_wire :: wire where
  "first_wire = Wire ''view'' ''page'' [] None None [button_wire]"

definition second_wire :: wire where
  "second_wire = Wire ''view'' ''page'' [] None None [Wire ''span'' [] [] None None [], button_wire]"

definition first_slots :: "nat list list" where
  "first_slots = [[], [1], [1, 0]]"

definition second_slots :: "nat list list" where
  "second_slots = [[], [0], [1], [1, 0]]"

definition first_view :: "unit view_tree" where
  "first_view = snd (update_slots plain_style first_wire first_slots (empty_tree 0))"

lemma empty_tree_ok: "view_ok (empty_tree w)"
  by (simp add: view_ok_def empty_tree_def forest_def indexed_def bt_inv_def alive_def strong_def bt_get_def)

lemma first_slots_uniform: "prepare plain_style first_wire (Some first_slots) = Ok (p, rest) \<Longrightarrow> uniform p"
  by (auto simp: plain_style_def first_wire_def button_wire_def first_slots_def next_slot_def)

lemma second_slots_uniform: "prepare plain_style second_wire (Some second_slots) = Ok (p, rest) \<Longrightarrow> uniform p"
  by (auto simp: plain_style_def second_wire_def button_wire_def second_slots_def next_slot_def)

lemma frame_ok:
  fixes prepared :: "('st prepared \<times> nat list list option) res"
  assumes "view_ok t" and u: "\<And>p rest. prepared = Ok (p, rest) \<Longrightarrow> uniform p"
    and "bind (lift_res prepared) (\<lambda>(p, _). commit p) t = (Ok n, t')"
  shows "view_ok t'"
proof -
  have "frame_exact prepared t (Ok n, t')" unfolding assms(3) [symmetric] by (rule commit_frame [OF assms(1) u])
  then show ?thesis by (simp add: frame_exact_def split: res.splits prod.splits)
qed

text \<open>What a frame unfolds to, for evaluation on concrete views.\<close>

lemmas frame_steps = run_simps bind_def seq_def lift_res_def ok_or_def of_opt_def Let_def usize_max_def next_slot_def
  update_slots_def commit_def same_kind_def new_node_def by_slot_def finish_retain_def clear_parents_def
  set_node_def node_at_def patch_record_def record_patch_classes_def record_patch_text_def merge_attributes_def
  reclaim_text_overrides_def reclaim_text_binding_def sweep_records_def alive_def strong_def lookup_def
  bt_retain_def bt_get_def snapshot_of_def

lemmas first_frame = empty_tree_def plain_style_def first_wire_def button_wire_def first_slots_def

lemma first_view_made:
  "\<exists>n. update_slots plain_style first_wire first_slots (empty_tree 0) = (Ok n, first_view)"
  and first_view_root: "vt_root first_view = Some 0"
  by (simp_all add: frame_steps first_frame first_view_def)

lemma first_view_ok: "view_ok first_view"
proof -
  obtain n where made: "bind (lift_res (prepare plain_style first_wire (Some first_slots))) (\<lambda>(p, _). commit p) (empty_tree 0) = (Ok n, first_view)"
    using first_view_made unfolding update_slots_def by blast
  show ?thesis by (rule frame_ok [OF empty_tree_ok _ made]) (rule first_slots_uniform)
qed

text \<open>
  C35. Searching ends and is exact: on a store in order, for every selector the parser accepts,
  \<open>NativeTree::query\<close> returns, the loops over stacks and ancestors included, and gives exactly the
  elements that the selector selects, in document order and each at its place of the preorder
  of the tree; the search for one gives the first of them.
\<close>

theorem selector_query_exact:
  assumes "view_ok t" and "vt_root t = Some r" and "parse_selector source = Ok s"
  shows "\<exists>ns. preorder (tree_view t) r ns \<and>
    query t s True = Some (filter (selects (tree_view t) s) ns) \<and>
    query t s False = Some (take 1 (filter (selects (tree_view t) s) ns))"
proof -
  have "forest (vt_mem t)" and r: "r \<in> {..<length (vt_mem t)}" using assms(1,2) by (auto simp: view_ok_def)
  from rt.query_exact [OF this, of s] obtain ns where ns: "preorder (tree_view t) r ns"
    and q: "query_all (tree_view t) s r = Some (filter (selects (tree_view t) s) ns)"
      "query_first (tree_view t) s r = Some (find (selects (tree_view t) s) ns)" .
  have "(case find P xs of None \<Rightarrow> [] | Some x \<Rightarrow> [x]) = take 1 (filter P xs)" for P and xs :: "nat list"
    by (induction xs) auto
  then show ?thesis using ns q assms(2) by (auto simp: query_def)
qed

definition button_selector :: selector where
  "button_selector = \<lparr>sel_compounds = [\<lparr>cp_tag = None, cp_ids = [], cp_classes = [''page'']\<rparr>,
     \<lparr>cp_tag = Some ''button'', cp_ids = [''go''], cp_classes = [''red'']\<rparr>], sel_relations = [Rel_Child]\<rparr>"

lemma button_selector_read: "parse_selector ''.page > button#go.red'' = Ok button_selector"
  by code_simp

lemma selector_query_exact_witness:
  "\<exists>ns. preorder (tree_view first_view) 0 ns \<and>
    query first_view button_selector True = Some (filter (selects (tree_view first_view) button_selector) ns) \<and>
    query first_view button_selector False = Some (take 1 (filter (selects (tree_view first_view) button_selector) ns))"
  by (rule selector_query_exact [OF first_view_ok first_view_root button_selector_read])



end
