(* ===== verification/RetainedEdits.thy ===== *)
theory RetainedEdits
  imports RetainedProps
begin

text \<open>
  The edits between frames: writes to single nodes, structural slots and keyed children. Each
  keeps the store in order, so every store a client can make is.
\<close>

section \<open>Reachability across an edit\<close>

lemma alive_range: "forest (vt_mem t) \<Longrightarrow> alive t y \<Longrightarrow> y < length (vt_mem t)"
  using alive_iff below_range by blast

lemma alive_child:
  assumes "forest (vt_mem t)" and "alive t u" and "v \<in> set (vr_children (vt_mem t ! u))"
  shows "alive t v"
  using assms alive_iff below.child by metis

lemma alive_strong:
  assumes "forest (vt_mem t)" and "x \<in> set (strong t)" and "x < length (vt_mem t)"
  shows "alive t x"
  using assms alive_iff below.self by blast

lemma alive_after:
  assumes f: "forest (vt_mem t)" and al: "alive t y"
    and start: "\<And>x. x \<in> set (strong t) \<Longrightarrow> x < length (vt_mem t) \<Longrightarrow> G x"
    and step: "\<And>u v. G u \<Longrightarrow> u < length (vt_mem t) \<Longrightarrow> v \<in> set (vr_children (vt_mem t ! u)) \<Longrightarrow> G v"
  shows "G y"
proof -
  obtain x where x: "x \<in> set (strong t)" "x < length (vt_mem t)" and b: "below (vt_mem t) x y"
    using al alive_iff [OF f] by blast
  from b show ?thesis
  proof (induction rule: below.induct)
    case (child u v)
    then show ?case using step [OF child(3)] below_range [OF child(1) f x(2)] by blast
  qed (rule start [OF x])
qed

text \<open>An edit is in order when it keeps ownership and revives nothing.\<close>

lemma edit_ok:
  assumes ok: "view_ok t" and f: "forest (vt_mem t')" and g: "grown t t'"
    and l: "length (vt_mem t) \<le> length (vt_mem t')"
    and ids: "\<And>y. y < length (vt_mem t) \<Longrightarrow> vr_id (vt_mem t' ! y) = vr_id (vt_mem t ! y) \<and> vr_owner (vt_mem t' ! y) = vr_owner (vt_mem t ! y)"
    and al: "\<And>y. alive t' y \<Longrightarrow> alive t y \<or> length (vt_mem t) \<le> y"
  shows "view_ok t'"
proof -
  note o = ok [unfolded view_ok_def]
  have i: "indexed t" using o by blast
  have ctl: "vt_root t' = vt_root t" "vt_owner t' = vt_owner t" "vt_held t' = vt_held t" using g by (simp_all add: grown_def)
  have g': "indexed t'" "\<And>j. j < vt_next t \<Longrightarrow> bt_get (vt_records t') j = bt_get (vt_records t) j"
    "\<And>y. length (vt_mem t) \<le> y \<Longrightarrow> y < length (vt_mem t') \<Longrightarrow> bt_get (vt_records t') (vr_id (vt_mem t' ! y)) = Some y"
    using g i unfolding grown_def by blast+
  have "r < length (vt_mem t') \<and> vr_owner (vt_mem t' ! r) = vt_owner t'" if "vt_root t' = Some r" for r
    using that o ctl ids [of r] l by auto
  moreover have "h < length (vt_mem t')" if "h \<in> set (vt_held t')" for h
    using that o ctl(3) l by fastforce
  moreover have "bt_get (vt_records t') (vr_id (vt_mem t' ! y)) = Some y"
    if y: "alive t' y" "vr_owner (vt_mem t' ! y) = vt_owner t'" for y
  proof (cases "y < length (vt_mem t)")
    case True
    then have "alive t y" using al [OF y(1)] by simp
    then have get: "bt_get (vt_records t) (vr_id (vt_mem t ! y)) = Some y" using o y(2) ids [OF True] ctl(2) by simp
    then have "vr_id (vt_mem t ! y) < vt_next t" using i unfolding indexed_def by blast
    then show ?thesis using g'(2) get ids [OF True] by simp
  next
    case False
    then show ?thesis using g'(3) alive_range [OF f y(1)] by simp
  qed
  ultimately show ?thesis using f g'(1) by (simp add: view_ok_def)
qed

lemma sweep_view_ok: "view_ok t \<Longrightarrow> view_ok (sweep_records locals t)"
  by (rule sweep_ok) (simp_all add: view_ok_def)


section \<open>Writes to a node\<close>

text \<open>The records keep their place.\<close>

definition reshaped :: "'st view_tree \<Rightarrow> 'st view_tree \<Rightarrow> bool" where
  "reshaped t t' \<longleftrightarrow> same_index t t' \<and> (\<forall>y < length (vt_mem t).
     vr_children (vt_mem t' ! y) = vr_children (vt_mem t ! y) \<and> vr_parent (vt_mem t' ! y) = vr_parent (vt_mem t ! y) \<and>
     vr_id (vt_mem t' ! y) = vr_id (vt_mem t ! y) \<and> vr_owner (vt_mem t' ! y) = vr_owner (vt_mem t ! y))"

lemma reshaped_refl [simp]: "reshaped t t"
  by (simp add: reshaped_def)

lemma reshaped_trans: "reshaped t t1 \<Longrightarrow> reshaped t1 t2 \<Longrightarrow> reshaped t t2"
  by (auto simp: reshaped_def same_index_def)

lemma reshaped_set:
  "(\<And>r. vr_children (f r) = vr_children r \<and> vr_parent (f r) = vr_parent r \<and> vr_id (f r) = vr_id r \<and> vr_owner (f r) = vr_owner r) \<Longrightarrow>
   reshaped t (set_node a f t)"
  by (cases "a < length (vt_mem t)") (simp_all add: reshaped_def nth_list_update list_update_beyond)

lemma reshaped_same:
  assumes "same_index t t'" and "\<And>y. y < length (vt_mem t) \<Longrightarrow> same (vt_mem t ! y) (vt_mem t' ! y)"
  shows "reshaped t t'"
  using assms same_reads unfolding reshaped_def by blast

lemma reshaped_binding: "reshaped t (reclaim_text_binding a t)"
  by (rule reshaped_same [OF reclaim_binding])

lemma reshaped_ok:
  assumes ok: "view_ok t" and r: "reshaped t t'"
  shows "view_ok t'"
proof (rule edit_ok [OF ok])
  note s = r [unfolded reshaped_def]
  have l: "length (vt_mem t') = length (vt_mem t)" and f: "forest (vt_mem t)"
    using s ok by (simp_all add: same_index_def view_ok_def)
  have "forest (vt_mem t') \<longleftrightarrow> forest (vt_mem t)"
    unfolding forest_def l using s by (intro all_cong1 imp_cong refl) auto
  with f show f': "forest (vt_mem t')" by simp
  show "grown t t'" using s by (intro same_index_grown) auto
  show "alive t y \<or> length (vt_mem t) \<le> y" if "alive t' y" for y
  proof -
    have "alive t y"
    proof (rule alive_after [OF f' that])
      show "alive t x" if "x \<in> set (strong t')" "x < length (vt_mem t')" for x
        by (rule alive_strong [OF f]) (use that s l in \<open>simp_all add: strong_def same_index_def\<close>)
      show "alive t v" if "alive t u" "u < length (vt_mem t')" "v \<in> set (vr_children (vt_mem t' ! u))" for u v
        by (rule alive_child [OF f that(1)]) (use that s l in simp)
    qed
    then show ?thesis ..
  qed
qed (use r in \<open>simp_all add: reshaped_def same_index_def\<close>)

lemma set_text_content_keeps: "set_text_content a x t = (r, t') \<Longrightarrow> reshaped t t'"
  by (auto simp: set_text_content_def Let_def intro: reshaped_set split: if_splits)

lemma set_attribute_keeps: "set_attribute style a name v t = (r, t') \<Longrightarrow> reshaped t t'"
  by (auto simp: set_attribute_def Let_def intro!: reshaped_set split: if_splits kind.splits res.splits)

lemma record_patch_shape:
  "vr_children (record_patch_text x r) = vr_children r" "vr_parent (record_patch_text x r) = vr_parent r"
  "vr_id (record_patch_text x r) = vr_id r" "vr_owner (record_patch_text x r) = vr_owner r"
  "vr_children (record_patch_classes c st r) = vr_children r" "vr_parent (record_patch_classes c st r) = vr_parent r"
  "vr_id (record_patch_classes c st r) = vr_id r" "vr_owner (record_patch_classes c st r) = vr_owner r"
  by (simp_all add: record_patch_text_def record_patch_classes_def)

lemma patch_text_keeps: "patch_text a x t = (r, t') \<Longrightarrow> reshaped t t'"
  using reshaped_trans [OF reshaped_set reshaped_binding, of "record_patch_text (Some x)" t a a] reshaped_set [of "record_patch_text (Some x)" t a]
  by (auto simp: patch_text_def Let_def record_patch_shape split: if_splits)

lemma patch_classes_keeps: "patch_classes style a c t = (r, t') \<Longrightarrow> reshaped t t'"
  by (auto simp: patch_classes_def Let_def record_patch_shape intro!: reshaped_set split: if_splits kind.splits res.splits)

lemma patch_attribute_keeps: "patch_attribute style a name v t = (r, t') \<Longrightarrow> reshaped t t'"
  using patch_classes_keeps
  by (auto simp: patch_attribute_def intro!: reshaped_set split: if_splits)


section \<open>Edits of the children of a node\<close>

text \<open>
  What both structural edits end with: the old children that are not kept forget their parent,
  the node gets its new list, and a change takes back the effective text.
\<close>

definition relink :: "nat \<Rightarrow> nat list \<Rightarrow> nat list \<Rightarrow> nat list \<Rightarrow> 'st view_tree \<Rightarrow> 'st view_tree" where
  "relink n old kept cs t =
     (let t' = clear_parents old kept t; t'' = set_node n (\<lambda>r. r\<lparr>vr_children := cs\<rparr>) t'
      in if vr_children (node_at t' n) \<noteq> cs then reclaim_text_overrides n t'' else t'')"

lemma relink_spec:
  assumes "n < length (vt_mem t)"
  shows "same_index t (relink n old kept cs t)"
    and "y < length (vt_mem t) \<Longrightarrow> vr_children (vt_mem (relink n old kept cs t) ! y) = (if y = n then cs else vr_children (vt_mem t ! y)) \<and>
      vr_parent (vt_mem (relink n old kept cs t) ! y) = (if y \<in> set old - set kept then None else vr_parent (vt_mem t ! y)) \<and>
      vr_id (vt_mem (relink n old kept cs t) ! y) = vr_id (vt_mem t ! y) \<and>
      vr_owner (vt_mem (relink n old kept cs t) ! y) = vr_owner (vt_mem t ! y)"
proof -
  define t1 where "t1 = clear_parents old kept t"
  define t2 where "t2 = set_node n (\<lambda>r. r\<lparr>vr_children := cs\<rparr>) t1"
  have e: "relink n old kept cs t = (if vr_children (node_at t1 n) \<noteq> cs then reclaim_text_overrides n t2 else t2)"
    by (simp add: relink_def t1_def t2_def Let_def)
  have i1: "same_index t t1" unfolding t1_def by (rule clear_parents_spec)
  have i2: "same_index t t2" unfolding t2_def by (rule same_index_trans [OF i1]) simp
  show "same_index t (relink n old kept cs t)"
    using same_index_trans [OF i2 reclaim_overrides(1)] i2 by (simp add: e)
  assume y: "y < length (vt_mem t)"
  have l: "y < length (vt_mem t2)" "length (vt_mem t1) = length (vt_mem t)" using i1 i2 y by (simp_all add: same_index_def)
  have m1: "vt_mem t1 ! y = (if y \<in> set old \<and> y \<notin> set kept then (vt_mem t ! y)\<lparr>vr_parent := None\<rparr> else vt_mem t ! y)"
    unfolding t1_def by (rule clear_parents_spec(2) [OF y])
  have m2: "vr_children (vt_mem t2 ! y) = (if y = n then cs else vr_children (vt_mem t ! y)) \<and>
      vr_parent (vt_mem t2 ! y) = (if y \<in> set old - set kept then None else vr_parent (vt_mem t ! y)) \<and>
      vr_id (vt_mem t2 ! y) = vr_id (vt_mem t ! y) \<and> vr_owner (vt_mem t2 ! y) = vr_owner (vt_mem t ! y)"
    using assms l(2) m1 by (cases "y = n") (auto simp: t2_def)
  have "same (vt_mem t2 ! y) (vt_mem (relink n old kept cs t) ! y)"
    using reclaim_overrides(2) [OF l(1)] by (simp add: e)
  from same_reads(1,2,4,5) [OF this] m2
  show "vr_children (vt_mem (relink n old kept cs t) ! y) = (if y = n then cs else vr_children (vt_mem t ! y)) \<and>
      vr_parent (vt_mem (relink n old kept cs t) ! y) = (if y \<in> set old - set kept then None else vr_parent (vt_mem t ! y)) \<and>
      vr_id (vt_mem (relink n old kept cs t) ! y) = vr_id (vt_mem t ! y) \<and>
      vr_owner (vt_mem (relink n old kept cs t) ! y) = vr_owner (vt_mem t ! y)" by simp
qed

lemma relink_ok:
  assumes ok: "view_ok t" and f1: "forest (vt_mem t1)" and g: "grown t t1" and e: "evolves S (vt_mem t) (vt_mem t1)"
    and n: "n < length (vt_mem t)" and same_n: "vr_children (vt_mem t1 ! n) = vr_children (vt_mem t ! n)"
    and old: "set old \<subseteq> set (vr_children (vt_mem t ! n))" "set old \<inter> set cs \<subseteq> set kept"
    and cs: "distinct cs" "\<And>c. c \<in> set cs \<Longrightarrow> c < length (vt_mem t1) \<and> vr_parent (vt_mem t1 ! c) = Some n"
      "\<And>c. c \<in> set cs \<Longrightarrow> alive t c \<or> length (vt_mem t) \<le> c"
  shows "view_ok (relink n old kept cs t1)"
proof (rule edit_ok [OF ok])
  let ?t' = "relink n old kept cs t1"
  have n1: "n < length (vt_mem t1)" using n evolves_length [OF e] by simp
  note r = relink_spec [OF n1, where old = old and kept = kept and cs = cs]
  have i: "same_index t1 ?t'" by (rule r(1))
  then have l: "length (vt_mem ?t') = length (vt_mem t1)" by (simp add: same_index_def)
  show f': "forest (vt_mem ?t')"
    by (rule relink_forest [OF f1 n1, of "set old - set kept" cs]) (use r old same_n cs l in auto)
  show "grown t ?t'" by (rule grown_trans [OF g same_index_grown [OF i]]) (use r(2) in blast)+
  show "length (vt_mem t) \<le> length (vt_mem ?t')" using evolves_length [OF e] l by simp
  show "vr_id (vt_mem ?t' ! y) = vr_id (vt_mem t ! y) \<and> vr_owner (vt_mem ?t' ! y) = vr_owner (vt_mem t ! y)"
    if "y < length (vt_mem t)" for y
    using that r(2) [of y] evolves_ids [OF e that] evolves_length [OF e] by simp
  have f: "forest (vt_mem t)" using ok by (simp add: view_ok_def)
  show "alive t y \<or> length (vt_mem t) \<le> y" if "alive ?t' y" for y
  proof (rule alive_after [OF f' that, where G = "\<lambda>y. alive t y \<or> length (vt_mem t) \<le> y"])
    show "alive t x \<or> length (vt_mem t) \<le> x" if "x \<in> set (strong ?t')" for x
      using that alive_strong [OF f, of x] i g by (fastforce simp: strong_def same_index_def grown_def)
    show "alive t v \<or> length (vt_mem t) \<le> v"
      if u: "alive t u \<or> length (vt_mem t) \<le> u" "u < length (vt_mem ?t')" and v: "v \<in> set (vr_children (vt_mem ?t' ! u))" for u v
    proof (cases "u = n")
      case True
      then show ?thesis using v r(2) [OF n1] cs(3) by simp
    next
      case False
      then have v1: "v \<in> set (vr_children (vt_mem t1 ! u))" using v r(2) [of u] u(2) l by simp
      show ?thesis
      proof (cases "length (vt_mem t) \<le> u")
        case True
        then have "set (vr_children (vt_mem t1 ! u)) \<subseteq> {length (vt_mem t)..}" using e u(2) l by (simp add: evolves_def)
        then show ?thesis using v1 by auto
      next
        case False
        then have "set (vr_children (vt_mem t1 ! u)) \<subseteq> set (vr_children (vt_mem t ! u)) \<union> {length (vt_mem t)..}"
          using e by (simp add: evolves_def)
        then have "v \<in> set (vr_children (vt_mem t ! u)) \<or> length (vt_mem t) \<le> v" using v1 by auto
        then show ?thesis using alive_child [OF f, of u v] u(1) False by auto
      qed
    qed
  qed
qed


section \<open>Structural slots\<close>

text \<open>No step of a frame changes the slot of a record.\<close>

definition slots_kept :: "('st view_tree, 'a) rm \<Rightarrow> bool" where
  "slots_kept c \<longleftrightarrow> (\<forall>t. length (vt_mem t) \<le> length (vt_mem (snd (c t))) \<and>
     (\<forall>y < length (vt_mem t). vr_slot (vt_mem (snd (c t)) ! y) = vr_slot (vt_mem t ! y)))"

lemma slots_kept_bind:
  assumes c: "slots_kept c" and f: "\<And>a. slots_kept (f a)"
  shows "slots_kept (bind c f)"
  unfolding slots_kept_def
proof (intro allI)
  fix t
  obtain r t1 where ct: "c t = (r, t1)" by fastforce
  have t1: "length (vt_mem t) \<le> length (vt_mem t1)" "\<forall>y < length (vt_mem t). vr_slot (vt_mem t1 ! y) = vr_slot (vt_mem t ! y)"
    using c ct unfolding slots_kept_def by (metis snd_conv)+
  show "length (vt_mem t) \<le> length (vt_mem (snd (bind c f t))) \<and>
      (\<forall>y < length (vt_mem t). vr_slot (vt_mem (snd (bind c f t)) ! y) = vr_slot (vt_mem t ! y))"
  proof (cases r)
    case (Ok a)
    have "length (vt_mem t1) \<le> length (vt_mem (snd (f a t1)))"
      "\<forall>y < length (vt_mem t1). vr_slot (vt_mem (snd (f a t1)) ! y) = vr_slot (vt_mem t1 ! y)"
      using f [of a] unfolding slots_kept_def by blast+
    then show ?thesis using t1 ct Ok by (simp add: bind_def)
  qed (use t1 ct in \<open>simp_all add: bind_def\<close>)
qed

lemma slots_kept_pure: "slots_kept (ret a)" "slots_kept (gets g)"
  by (simp_all add: slots_kept_def run_simps)

lemma slots_kept_seq: "slots_kept (modify g) \<Longrightarrow> slots_kept k \<Longrightarrow> slots_kept (seq (modify g) k)"
  unfolding seq_def by (rule slots_kept_bind)

lemma slots_kept_new: "slots_kept (new_node p)"
  by (simp add: slots_kept_def new_node_def Let_def nth_append)

lemma slots_kept_parent: "slots_kept (modify (set_node c (\<lambda>r. r\<lparr>vr_parent := x\<rparr>)))"
  unfolding slots_kept_def
proof (intro allI conjI impI)
  fix t :: "'a view_tree" and y
  show "vr_slot (vt_mem (snd (modify (set_node c (\<lambda>r. r\<lparr>vr_parent := x\<rparr>)) t)) ! y) = vr_slot (vt_mem t ! y)"
    if "y < length (vt_mem t)"
    using that by (cases "c = y") (simp_all add: run_simps)
qed (simp add: run_simps)

lemma slots_kept_finish: "slots_kept (modify (finish_retain a p old cs))"
  unfolding slots_kept_def
proof (intro allI)
  fix t :: "'a view_tree"
  define t1 where "t1 = clear_parents old cs t"
  define t2 where "t2 = set_node a (patch_record p cs) t1"
  define t3 where "t3 = (if vr_authored_text (node_at t1 a) \<noteq> pr_text p then reclaim_text_binding a t2 else t2)"
  have e: "finish_retain a p old cs t = (if vr_children (node_at t1 a) \<noteq> cs then reclaim_text_overrides a t3 else t3)"
    by (simp add: finish_retain_def t1_def t2_def t3_def Let_def)
  have l1: "length (vt_mem t1) = length (vt_mem t)" and l2: "length (vt_mem t2) = length (vt_mem t)"
    and l3: "length (vt_mem t3) = length (vt_mem t)"
    using clear_parents_spec(1) [of t old cs] reclaim_binding(1) [of t2 a]
    by (auto simp: t1_def t2_def t3_def same_index_def)
  have "vr_slot (vt_mem (finish_retain a p old cs t) ! y) = vr_slot (vt_mem t ! y)" if y: "y < length (vt_mem t)" for y
  proof -
    have "vr_slot (vt_mem t1 ! y) = vr_slot (vt_mem t ! y)"
      using clear_parents_spec(2) [OF y, of old cs] by (simp add: t1_def)
    moreover have "vr_slot (vt_mem t2 ! y) = vr_slot (vt_mem t1 ! y)"
      using y l1 by (cases "a = y") (simp_all add: t2_def patch_record_def record_patch_classes_def record_patch_text_def Let_def)
    moreover have "vr_slot (vt_mem t3 ! y) = vr_slot (vt_mem t2 ! y)"
      using same_reads(6) [OF reclaim_binding(2) [of y t2 a]] y l2 by (simp add: t3_def)
    moreover have "vr_slot (vt_mem (finish_retain a p old cs t) ! y) = vr_slot (vt_mem t3 ! y)"
      using same_reads(6) [OF reclaim_overrides(2) [of y t3 a]] y l3 by (simp add: e)
    ultimately show ?thesis by simp
  qed
  moreover have "length (vt_mem (finish_retain a p old cs t)) = length (vt_mem t)"
    using reclaim_overrides(1) [of t3 a] l3 by (simp add: e same_index_def)
  ultimately show "length (vt_mem t) \<le> length (vt_mem (snd (modify (finish_retain a p old cs) t))) \<and>
      (\<forall>y < length (vt_mem t). vr_slot (vt_mem (snd (modify (finish_retain a p old cs) t)) ! y) = vr_slot (vt_mem t ! y))"
    by (simp add: run_simps)
qed

lemma retain_slots:
  fixes p :: "'st prepared" and ps :: "'st prepared list"
  shows "slots_kept (retain cur p)" and retain_children_slots: "slots_kept (retain_children n old slts i ps)"
proof (induction cur p and n old slts i ps rule: retain_retain_children.induct)
  case (1 cur k slot cls at st x h ps)
  show ?case
    unfolding retain.simps
    by (intro slots_kept_bind slots_kept_seq slots_kept_pure slots_kept_finish "1.IH")
       (auto intro: slots_kept_pure slots_kept_new split: option.splits)
next
  case (3 n old slts i p ps)
  show ?case
    unfolding retain_children.simps
    by (intro slots_kept_bind slots_kept_seq slots_kept_pure slots_kept_parent "3.IH")
qed (simp add: slots_kept_pure)

text \<open>Which new children a slot gives.\<close>

lemma merge_by_set: "set (merge_by f as bs) = set as \<union> set bs"
  by (induction f as bs rule: merge_by.induct) auto

lemma merge_by_distinct:
  "distinct as \<Longrightarrow> distinct bs \<Longrightarrow> set as \<inter> set bs = {} \<Longrightarrow> distinct (merge_by f as bs)"
  by (induction f as bs rule: merge_by.induct) (auto simp: merge_by_set)

lemma by_slot_keys: "(s, a) \<in> set (by_slot m old) \<Longrightarrow> s = vr_slot (m ! a) \<and> a \<in> set old"
proof -
  define f where "f = (\<lambda>b a. if vr_slot (m ! a) \<in> fst ` set b then b else b @ [(vr_slot (m ! a), a)])"
  have "(s, a) \<in> set (foldl f b xs) \<Longrightarrow> (s, a) \<in> set b \<or> s = vr_slot (m ! a) \<and> a \<in> set xs" for b xs
  proof (induction xs arbitrary: b)
    case (Cons x xs)
    then show ?case by (fastforce simp: f_def split: if_splits)
  qed simp
  from this [of "[]" old] show "(s, a) \<in> set (by_slot m old) \<Longrightarrow> s = vr_slot (m ! a) \<and> a \<in> set old"
    by (simp add: by_slot_def f_def)
qed

lemma retain_children_filter:
  "\<forall>p \<in> set ps. pr_slot p \<noteq> [] \<and> P (pr_slot p) \<Longrightarrow>
   retain_children n old slts i ps = retain_children n old (filter (\<lambda>(s, _). P s) slts) i ps"
proof (induction ps arbitrary: slts i)
  case (Cons p ps)
  have "map_of (filter (\<lambda>(s, _). P s) slts) (pr_slot p) = map_of slts (pr_slot p)"
    using Cons.prems by (induction slts) auto
  moreover have "filter (\<lambda>(s, _). s \<noteq> pr_slot p) (filter (\<lambda>(s, _). P s) slts) = filter (\<lambda>(s, _). P s) (filter (\<lambda>(s, _). s \<noteq> pr_slot p) slts)"
    by (simp add: conj_commute case_prod_beta)
  ultimately show ?case
    using Cons by (simp del: filter_filter)
qed simp


lemma replace_slot_cases:
  assumes "replace_slot style n prefix ws slts t = (r, t')"
  obtains "t' = t" | "r = Err ''node identity exhausted''"
  | ps rest new t1 locals where "prepare_children style ws (Some slts) = Ok (ps, rest)"
    and "\<forall>p \<in> set ps. pr_slot p \<noteq> [] \<and> within prefix (pr_slot p)"
    and "retain_children n (vr_children (vt_mem t ! n)) (by_slot (vt_mem t) (vr_children (vt_mem t ! n))) 0 ps t = (Ok new, t1)"
    and "t' = sweep_records locals (splice n prefix (vr_children (vt_mem t ! n)) new t1)"
proof (cases "prefix = [] \<or> \<not> owns t n")
  case True
  then show ?thesis using assms that(1) by (simp add: replace_slot_def bind_def run_simps)
next
  case own: False
  show ?thesis
  proof (cases "prepare_children style ws (Some slts)")
    case (Ok x)
    obtain ps rest where x: "x = (ps, rest)" by fastforce
    show ?thesis
    proof (cases "list_ex (\<lambda>p. \<not> within prefix (pr_slot p)) ps")
      case True
      then show ?thesis using assms that(1) own Ok x by (simp add: replace_slot_def bind_def run_simps)
    next
      case False
      let ?old = "vr_children (vt_mem t ! n)"
      obtain r1 t1 where c: "retain_children n ?old (by_slot (vt_mem t) ?old) 0 ps t = (r1, t1)" by fastforce
      have w: "\<forall>p \<in> set ps. pr_slot p \<noteq> [] \<and> within prefix (pr_slot p)"
        using False own by (auto simp: list_ex_iff within_def)
      from retain_results(2) [of n ?old "by_slot (vt_mem t) ?old" 0 ps t]
      consider new where "r1 = Ok new" | "r1 = Err ''node identity exhausted''" using c by auto
      then show ?thesis
      proof cases
        case (1 new)
        define locals where "locals = List.map snd (filter (\<lambda>(s, _). s \<notin> pr_slot ` set ps) (by_slot (vt_mem t) ?old))"
        have "t' = sweep_records locals (splice n prefix ?old new t1)"
          using assms own Ok x False c 1 by (simp add: replace_slot_def bind_def seq_def run_simps node_at_def locals_def)
        then show ?thesis using that(3) Ok x w c 1 by simp
      next
        case 2
        then show ?thesis using assms own Ok x False c that(2) by (simp add: replace_slot_def bind_def seq_def run_simps node_at_def)
      qed
    qed
  qed (use assms own that(1) in \<open>simp_all add: replace_slot_def bind_def run_simps\<close>)
qed

lemma replace_slot_ok:
  fixes style :: "bool \<Rightarrow> string \<Rightarrow> string \<Rightarrow> 'st res"
  assumes ok: "view_ok t" and al: "alive t n" and r: "replace_slot style n prefix ws slts t = (r, t')"
    and e: "r \<noteq> Err ''node identity exhausted''"
    and u: "\<And>ps rest p. prepare_children style ws (Some slts) = Ok (ps, rest) \<Longrightarrow> p \<in> set ps \<Longrightarrow> uniform p"
  shows "view_ok t'"
  using r
proof (cases rule: replace_slot_cases)
  case (3 ps rest new t1 locals)
  let ?old = "vr_children (vt_mem t ! n)" and ?P = "\<lambda>s. within prefix s"
  let ?slts = "filter (\<lambda>(s, _). ?P s) (by_slot (vt_mem t) ?old)"
  have f: "forest (vt_mem t)" using ok by (simp add: view_ok_def)
  have n: "n < length (vt_mem t)" by (rule alive_range [OF f al])
  have c: "retain_children n ?old ?slts 0 ps t = (Ok new, t1)" using 3(3) retain_children_filter [OF 3(2)] by metis
  have sub: "snd ` set ?slts \<subseteq> {a \<in> set ?old. ?P (vr_slot (vt_mem t ! a))}"
    by (auto dest: by_slot_keys)
  have d: "distinct (List.map snd ?slts)"
    using by_slot_distinct [OF forest_distinct [OF f n], of "vt_mem t"] by (rule distinct_map_filter)
  have ra: "retained_all t n (left False ?old ?slts 0) (candidates ?old ?slts 0 ps) ps new t1"
    by (rule retain_children_exact [OF c f n refl _ _ d]) (use 3(1,2) u sub in auto)
  let ?A = "left False ?old ?slts 0"
  have A: "?A \<subseteq> {a \<in> set ?old. ?P (vr_slot (vt_mem t ! a))}" using sub by (simp add: left_def)
  note R = ra [unfolded retained_all_def]
  have f1: "forest (vt_mem t1)" and ev: "evolves (subtrees (vt_mem t) ?A) (vt_mem t) (vt_mem t1)" and g: "grown t t1"
    and dn: "distinct new" and new: "\<And>c. c \<in> set new \<Longrightarrow> c < length (vt_mem t1) \<and> vr_parent (vt_mem t1 ! c) = Some n \<and> (c \<in> ?A \<or> length (vt_mem t) \<le> c)"
    using R by blast+
  have outside: "n \<notin> subtrees (vt_mem t) ?A"
  proof
    assume "n \<in> subtrees (vt_mem t) ?A"
    then obtain a where a: "a \<in> set ?old" "below (vt_mem t) a n" using A by (auto simp: subtrees_def)
    note k = forest_child [OF f n a(1)]
    show False using below_range [OF a(2) f k(1)] k(3) by simp
  qed
  then have same_n: "vr_children (vt_mem t1 ! n) = ?old" by (rule same_reads(1) [OF evolves_same [OF ev n]])
  have l: "length (vt_mem t) \<le> length (vt_mem t1)" by (rule evolves_length [OF ev])
  have slot: "vr_slot (vt_mem t1 ! y) = vr_slot (vt_mem t ! y)" if "y < length (vt_mem t)" for y
    using retain_slots(2) [of n ?old ?slts 0 ps] that c unfolding slots_kept_def by (metis snd_conv)
  have old: "x < length (vt_mem t)" "vr_parent (vt_mem t1 ! x) = Some n" "alive t x" if "x \<in> set ?old" for x
    using forest_child [OF f n that] forest_child(2) [OF f1, of n x] n l same_n that alive_child [OF f al that] by simp_all
  define slot1 where "slot1 = (\<lambda>a. vr_slot (node_at t1 a))"
  define kids where "kids = merge_by slot1 (sort_key slot1 (filter (\<lambda>a. \<not> ?P (slot1 a)) ?old)) (sort_key slot1 new)"
  have slot1: "slot1 x = vr_slot (vt_mem t ! x)" if "x \<in> set ?old" for x
    using slot [OF old(1) [OF that]] by (simp add: slot1_def node_at_def)
  have kids: "set kids = {x \<in> set ?old. \<not> ?P (vr_slot (vt_mem t ! x))} \<union> set new"
    using slot1 by (auto simp: kids_def merge_by_set)
  have "set (filter (\<lambda>a. \<not> ?P (slot1 a)) ?old) \<inter> set new = {}"
    using slot1 new A old(1) by fastforce
  then have dk: "distinct kids"
    unfolding kids_def using dn forest_distinct [OF f n] by (intro merge_by_distinct) simp_all
  have "view_ok (relink n (filter (\<lambda>a. ?P (slot1 a)) ?old) new kids t1)"
  proof (rule relink_ok [OF ok f1 g ev n same_n _ _ dk])
    show "set (filter (\<lambda>a. ?P (slot1 a)) ?old) \<subseteq> set ?old" by auto
    show "set (filter (\<lambda>a. ?P (slot1 a)) ?old) \<inter> set kids \<subseteq> set new" using kids slot1 by auto
    fix c assume "c \<in> set kids"
    then consider "c \<in> set ?old" | "c \<in> set new" using kids by auto
    then show "c < length (vt_mem t1) \<and> vr_parent (vt_mem t1 ! c) = Some n" "alive t c \<or> length (vt_mem t) \<le> c"
      using old new A l by (cases; fastforce)+
  qed
  moreover have "splice n prefix ?old new t1 = relink n (filter (\<lambda>a. ?P (slot1 a)) ?old) new kids t1"
    by (simp add: splice_def relink_def Let_def slot1_def kids_def)
  ultimately show ?thesis using 3(4) sweep_view_ok by simp
qed (use ok e in auto)


section \<open>Keyed children\<close>

definition kept_nodes :: "'st keyed_next list \<Rightarrow> nat list" where
  "kept_nodes cs = List.map_filter (\<lambda>c. case c of Next_Kept a \<Rightarrow> Some a | Next_New p \<Rightarrow> None) cs"

lemma kept_nodes_simps [simp]:
  "kept_nodes [] = []" "kept_nodes (Next_Kept a # cs) = a # kept_nodes cs" "kept_nodes (Next_New p # cs) = kept_nodes cs"
  by (simp_all add: kept_nodes_def List.map_filter_simps)

lemma res_map_Ok: "res_map f r = Ok b \<longleftrightarrow> (\<exists>a. r = Ok a \<and> b = f a)"
  by (cases r) auto

lemma validate_keyed_sound:
  "validate_keyed style t n seen cs = Ok nx \<Longrightarrow>
     distinct (kept_nodes nx) \<and> set (kept_nodes nx) \<inter> set seen = {} \<and>
     (\<forall>a \<in> set (kept_nodes nx). Keyed_Kept a \<in> set cs \<and> vr_parent (vt_mem t ! a) = Some n) \<and>
     (\<forall>p. Next_New p \<in> set nx \<longrightarrow> (\<exists>w slts rest. Keyed_New w slts \<in> set cs \<and> prepare style w (Some slts) = Ok (p, rest)))"
proof (induction style t n seen cs arbitrary: nx rule: validate_keyed.induct)
  case (2 style t n seen a cs)
  obtain ny where n: "validate_keyed style t n (a # seen) cs = Ok ny" "nx = Next_Kept a # ny"
    and a: "node_parent t a = Some n" "a \<notin> set seen" and ok: "\<not> (\<not> owns t a \<or> node_parent t a \<noteq> Some n \<or> a \<in> set seen)"
    using "2.prems" by (auto split: if_splits simp: res_map_Ok res_bind_Ok_iff split: res.splits)
  show ?case using "2.IH" [OF ok n(1)] n(2) a node_parent_Some [OF a(1)] by auto
next
  case (3 style t n seen w slts cs)
  obtain p rest ny where p: "prepare style w (Some slts) = Ok (p, rest)"
    and n: "validate_keyed style t n seen cs = Ok ny" "nx = Next_New p # ny"
    using "3.prems" by (auto simp: res_map_Ok res_bind_Ok_iff split: res.splits prod.splits)
  note ih = "3.IH" [OF p refl n(1)]
  have "\<exists>w' slts' rest. Keyed_New w' slts' \<in> set (Keyed_New w slts # cs) \<and> prepare style w' (Some slts') = Ok (q, rest)"
    if "Next_New q \<in> set nx" for q
  proof (cases "q = p")
    case True
    then show ?thesis using p by (intro exI [of _ w] exI [of _ slts] exI [of _ rest]) simp
  next
    case False
    then have "Next_New q \<in> set ny" using that n(2) by simp
    then obtain w' slts' rest' where "Keyed_New w' slts' \<in> set cs" "prepare style w' (Some slts') = Ok (q, rest')"
      using ih by blast
    then show ?thesis by (intro exI [of _ w'] exI [of _ slts'] exI [of _ rest']) simp
  qed
  moreover have "distinct (kept_nodes nx)" "set (kept_nodes nx) \<inter> set seen = {}"
    "\<forall>a \<in> set (kept_nodes nx). Keyed_Kept a \<in> set (Keyed_New w slts # cs) \<and> vr_parent (vt_mem t ! a) = Some n"
    using ih n(2) by simp_all
  ultimately show ?case by blast
qed simp

lemma keyed_roots_results: "fst (keyed_roots n cs t) \<in> range Ok \<union> {Err ''node identity exhausted''}"
proof (induction cs arbitrary: t)
  case (Cons c cs)
  obtain r1 t1 where c: "(case c of Next_Kept a \<Rightarrow> ret a | Next_New p \<Rightarrow> retain None p) t = (r1, t1)" by fastforce
  have "r1 \<in> range Ok \<union> {Err ''node identity exhausted''}"
    using c retain_results(1) [of None _ t] by (cases c) (auto simp: run_simps dest: arg_cong [of _ _ fst], metis fst_conv)
  then consider a where "r1 = Ok a" | "r1 = Err ''node identity exhausted''" by auto
  then show ?case
  proof cases
    case (1 a)
    obtain r2 t2 where k: "keyed_roots n cs (set_node a (\<lambda>r. r\<lparr>vr_parent := Some n\<rparr>) t1) = (r2, t2)" by fastforce
    have "r2 \<in> range Ok \<union> {Err ''node identity exhausted''}" using Cons k by (metis fst_conv)
    then show ?thesis using c 1 k by (auto simp: bind_def seq_def run_simps)
  qed (use c in \<open>simp add: bind_def\<close>)
qed (simp add: run_simps)

lemma keyed_roots_exact:
  "keyed_roots n cs t = (Ok roots, t') \<Longrightarrow> forest (vt_mem t) \<Longrightarrow> n < length (vt_mem t) \<Longrightarrow> distinct (kept_nodes cs) \<Longrightarrow>
   (\<And>a. a \<in> set (kept_nodes cs) \<Longrightarrow> a < length (vt_mem t) \<and> vr_parent (vt_mem t ! a) = Some n) \<Longrightarrow>
   (\<And>p. Next_New p \<in> set cs \<Longrightarrow> uniform p) \<Longrightarrow>
   forest (vt_mem t') \<and> evolves {} (vt_mem t) (vt_mem t') \<and> grown t t' \<and> distinct roots \<and>
   (\<forall>c \<in> set roots. c < length (vt_mem t') \<and> vr_parent (vt_mem t' ! c) = Some n \<and>
      (c \<in> set (kept_nodes cs) \<or> length (vt_mem t) \<le> c))"
proof (induction cs arbitrary: t roots)
  case Nil
  then show ?case by (simp add: run_simps evolves_refl grown_refl)
next
  case (Cons k cs)
  obtain a t1 as where h: "(case k of Next_Kept a \<Rightarrow> ret a | Next_New p \<Rightarrow> retain None p) t = (Ok a, t1)"
    and tl: "keyed_roots n cs (set_node a (\<lambda>r. r\<lparr>vr_parent := Some n\<rparr>) t1) = (Ok as, t')" and roots: "roots = a # as"
    using Cons.prems(1) by (auto simp: bind_def seq_def run_simps split: prod.splits res.splits)
  define t2 where "t2 = set_node a (\<lambda>r. r\<lparr>vr_parent := Some n\<rparr>) t1"
  note tl = tl [folded t2_def]
  show ?case
  proof (cases k)
    case (Next_Kept b)
    then have b: "b = a" "t1 = t" using h by (simp_all add: run_simps)
    then have a: "a < length (vt_mem t)" "vr_parent (vt_mem t ! a) = Some n" using Cons.prems(5) Next_Kept by auto
    then have "t2 = t" by (simp add: t2_def b set_node_def list_update_same_conv)
    then have ih: "forest (vt_mem t') \<and> evolves {} (vt_mem t) (vt_mem t') \<and> grown t t' \<and> distinct as \<and>
       (\<forall>c \<in> set as. c < length (vt_mem t') \<and> vr_parent (vt_mem t' ! c) = Some n \<and>
          (c \<in> set (kept_nodes cs) \<or> length (vt_mem t) \<le> c))"
      using Cons.IH [OF tl] Cons.prems(2-6) Next_Kept by simp
    have "evolves {} (vt_mem t) (vt_mem t')" using ih by blast
    then have "a < length (vt_mem t')" "vr_parent (vt_mem t' ! a) = Some n"
      using a evolves_length same_reads(2) [OF evolves_same] by fastforce+
    moreover have "a \<notin> set as" using ih a(1) Cons.prems(4) Next_Kept b(1) by fastforce
    ultimately show ?thesis using ih roots Next_Kept b(1) by auto
  next
    case (Next_New p)
    then have "retain None p t = (Ok a, t1)" using h by simp
    then have R: "retained t None p a t1" by (rule retain_exact(1)) (use Cons.prems Next_New in auto)
    note R = R [unfolded retained_def]
    have f1: "forest (vt_mem t1)" and e1: "evolves {} (vt_mem t) (vt_mem t1)" and g1: "grown t t1"
      and a: "a < length (vt_mem t1)" "length (vt_mem t) \<le> a" "vr_parent (vt_mem t1 ! a) = None"
      using R by (auto simp: subtree_def)
    have na: "n < a" using a(2) Cons.prems(3) by simp
    note s = set_parent_spec [OF f1 a(1) na disjI2 [OF a(3)], folded t2_def]
    have e2: "evolves {} (vt_mem t) (vt_mem t2)" by (rule evolves_trans [OF e1 s(2)]) (use a(2) in simp)
    have g2: "grown t t2" by (rule grown_trans [OF g1 s(3) evolves_ids [OF s(2)]])
    have l: "length (vt_mem t) \<le> length (vt_mem t2)" by (rule evolves_length [OF e2])
    have kept: "b < length (vt_mem t2) \<and> vr_parent (vt_mem t2 ! b) = Some n" if "b \<in> set (kept_nodes cs)" for b
      using Cons.prems(5) [of b] that Next_New same_reads(2) [OF evolves_same [OF e2, of b]] l by simp
    have ih: "forest (vt_mem t') \<and> evolves {} (vt_mem t2) (vt_mem t') \<and> grown t2 t' \<and> distinct as \<and>
       (\<forall>c \<in> set as. c < length (vt_mem t') \<and> vr_parent (vt_mem t' ! c) = Some n \<and>
          (c \<in> set (kept_nodes cs) \<or> length (vt_mem t2) \<le> c))"
      using Cons.IH [OF tl s(1) _ _ kept] Cons.prems(3,4,6) Next_New l by simp
    have e3: "evolves {} (vt_mem t2) (vt_mem t')" and g3: "grown t2 t'" using ih by blast+
    have e: "evolves {} (vt_mem t) (vt_mem t')" by (rule evolves_trans [OF e2 e3]) simp
    have g: "grown t t'" by (rule grown_trans [OF g2 g3 evolves_ids [OF e3]])
    have "a < length (vt_mem t')" "vr_parent (vt_mem t' ! a) = Some n"
      using a(1) s(5,6) evolves_length [OF e3] same_reads(2) [OF evolves_same [OF e3, of a]] by simp_all
    moreover have "a \<notin> set as" using ih a s(6) Cons.prems(5) Next_New by fastforce
    ultimately show ?thesis using ih e g roots Next_New a(2) l by auto
  qed
qed


lemma set_children_relink: "set_children n roots t = relink n (vr_children (node_at t n)) roots roots t"
proof -
  define t1 where "t1 = clear_parents (vr_children (node_at t n)) roots t"
  have "set_node n (\<lambda>r. r\<lparr>vr_children := roots\<rparr>) t1 = t1" if "vr_children (node_at t1 n) = roots"
  proof (cases "n < length (vt_mem t1)")
    case True
    then show ?thesis using that by (simp add: set_node_def node_at_def list_update_same_conv)
  qed (simp add: set_node_def list_update_beyond)
  then show ?thesis by (simp add: set_children_def relink_def Let_def t1_def)
qed

lemma replace_keyed_cases:
  assumes "replace_keyed_children style n cs t = (r, t')"
  obtains "t' = t" | "r = Err ''node identity exhausted''"
  | nx roots t1 where "validate_keyed style t n [] cs = Ok nx" and "keyed_roots n nx t = (Ok roots, t1)"
    and "t' = sweep_records [] (set_children n roots t1)"
proof (cases "owns t n")
  case False
  then show ?thesis using assms that(1) by (simp add: replace_keyed_children_def bind_def run_simps)
next
  case own: True
  show ?thesis
  proof (cases "validate_keyed style t n [] cs")
    case (Ok nx)
    obtain r1 t1 where c: "keyed_roots n nx t = (r1, t1)" by fastforce
    from keyed_roots_results [of n nx t] consider roots where "r1 = Ok roots" | "r1 = Err ''node identity exhausted''"
      using c by auto
    then show ?thesis
    proof cases
      case (1 roots)
      have "t' = sweep_records [] (set_children n roots t1)"
        using assms own Ok c 1 by (simp add: replace_keyed_children_def bind_def seq_def run_simps)
      then show ?thesis using that(3) Ok c 1 by simp
    next
      case 2
      then show ?thesis using assms own Ok c that(2) by (simp add: replace_keyed_children_def bind_def seq_def run_simps)
    qed
  qed (use assms own that(1) in \<open>simp_all add: replace_keyed_children_def bind_def run_simps\<close>)
qed

lemma replace_keyed_ok:
  fixes style :: "bool \<Rightarrow> string \<Rightarrow> string \<Rightarrow> 'st res"
  assumes ok: "view_ok t" and al: "alive t n" "\<And>a. Keyed_Kept a \<in> set cs \<Longrightarrow> alive t a"
    and r: "replace_keyed_children style n cs t = (r, t')" and e: "r \<noteq> Err ''node identity exhausted''"
    and u: "\<And>w slts p rest. Keyed_New w slts \<in> set cs \<Longrightarrow> prepare style w (Some slts) = Ok (p, rest) \<Longrightarrow> uniform p"
  shows "view_ok t'"
  using r
proof (cases rule: replace_keyed_cases)
  case (3 nx roots t1)
  note v = validate_keyed_sound [OF 3(1)]
  have f: "forest (vt_mem t)" using ok by (simp add: view_ok_def)
  have n: "n < length (vt_mem t)" by (rule alive_range [OF f al(1)])
  have kept: "alive t a" "a < length (vt_mem t)" "vr_parent (vt_mem t ! a) = Some n" if "a \<in> set (kept_nodes nx)" for a
    using v that al(2) alive_range [OF f] by blast+
  have R: "forest (vt_mem t1) \<and> evolves {} (vt_mem t) (vt_mem t1) \<and> grown t t1 \<and> distinct roots \<and>
     (\<forall>c \<in> set roots. c < length (vt_mem t1) \<and> vr_parent (vt_mem t1 ! c) = Some n \<and>
        (c \<in> set (kept_nodes nx) \<or> length (vt_mem t) \<le> c))"
    by (rule keyed_roots_exact [OF 3(2) f n]) (use v kept u in blast)+
  then have f1: "forest (vt_mem t1)" and ev: "evolves {} (vt_mem t) (vt_mem t1)" and g: "grown t t1" and d: "distinct roots"
    and roots: "\<And>c. c \<in> set roots \<Longrightarrow> c < length (vt_mem t1) \<and> vr_parent (vt_mem t1 ! c) = Some n"
      "\<And>c. c \<in> set roots \<Longrightarrow> c \<in> set (kept_nodes nx) \<or> length (vt_mem t) \<le> c"
    by blast+
  have same_n: "vr_children (vt_mem t1 ! n) = vr_children (vt_mem t ! n)"
    by (rule same_reads(1) [OF evolves_same [OF ev n]]) simp
  have "view_ok (relink n (vr_children (vt_mem t ! n)) roots roots t1)"
    by (rule relink_ok [OF ok f1 g ev n same_n _ _ d roots(1)]) (use roots(2) kept(1) in auto)
  then show ?thesis using 3(3) sweep_view_ok by (simp add: set_children_relink node_at_def same_n)
qed (use ok e in auto)


section \<open>Handles\<close>

lemma hold_ok:
  assumes ok: "view_ok t" and a: "alive t a"
  shows "view_ok (hold a t)"
proof -
  have f: "forest (vt_mem t)" using ok by (simp add: view_ok_def)
  have same: "vt_mem (hold a t) = vt_mem t" "vt_root (hold a t) = vt_root t" "vt_records (hold a t) = vt_records t"
    "vt_owner (hold a t) = vt_owner t" "vt_held (hold a t) = a # vt_held t" "indexed (hold a t) = indexed t"
    by (simp_all add: hold_def indexed_def)
  have f': "forest (vt_mem (hold a t))" using f same(1) by simp
  have al: "alive t y" if "alive (hold a t) y" for y
  proof (rule alive_after [OF f' that])
    show "alive t x" if "x \<in> set (strong (hold a t))" "x < length (vt_mem (hold a t))" for x
      using that a alive_strong [OF f, of x] by (auto simp: strong_def same)
    show "alive t v" if "alive t u" "v \<in> set (vr_children (vt_mem (hold a t) ! u))" for u v
      using alive_child [OF f] that same(1) by simp
  qed
  note o = ok [unfolded view_ok_def]
  have held: "\<forall>h \<in> set (a # vt_held t). h < length (vt_mem t)" using o alive_range [OF f a] by simp
  have reg: "\<forall>y. alive (hold a t) y \<and> vr_owner (vt_mem t ! y) = vt_owner t \<longrightarrow>
      bt_get (vt_records t) (vr_id (vt_mem t ! y)) = Some y"
    using o al by simp
  have "indexed t" "\<forall>r. vt_root t = Some r \<longrightarrow> r < length (vt_mem t) \<and> vr_owner (vt_mem t ! r) = vt_owner t"
    using o by blast+
  then show ?thesis
    unfolding view_ok_def same by (intro conjI f held reg)
qed

lemma drop_ok:
  assumes ok: "view_ok t"
  shows "view_ok (drop_handle a t)"
proof -
  have f: "forest (vt_mem t)" using ok by (simp add: view_ok_def)
  have sub: "set (remove1 a (vt_held t)) \<subseteq> set (vt_held t)" by (rule set_remove1_subset)
  then have "set (strong (drop_handle a t)) \<subseteq> set (strong t)" by (auto simp: drop_handle_def strong_def)
  then have al: "alive t y" if "alive (drop_handle a t) y" for y
    using that alive_iff [OF f, of y] alive_iff [of "drop_handle a t" y] f by (auto simp: drop_handle_def)
  have same: "vt_mem (drop_handle a t) = vt_mem t" "vt_root (drop_handle a t) = vt_root t"
    "vt_records (drop_handle a t) = vt_records t" "vt_owner (drop_handle a t) = vt_owner t"
    "vt_held (drop_handle a t) = remove1 a (vt_held t)" "indexed (drop_handle a t) = indexed t"
    by (simp_all add: drop_handle_def indexed_def)
  note o = ok [unfolded view_ok_def]
  have held: "\<forall>h \<in> set (remove1 a (vt_held t)). h < length (vt_mem t)" using o sub by blast
  have reg: "\<forall>y. alive (drop_handle a t) y \<and> vr_owner (vt_mem t ! y) = vt_owner t \<longrightarrow>
      bt_get (vt_records t) (vr_id (vt_mem t ! y)) = Some y"
    using o al by simp
  have "indexed t" "\<forall>r. vt_root t = Some r \<longrightarrow> r < length (vt_mem t) \<and> vr_owner (vt_mem t ! r) = vt_owner t"
    using o by blast+
  then show ?thesis
    unfolding view_ok_def same by (intro conjI f held reg)
qed


section \<open>Every store\<close>

text \<open>
  The stores a session can reach: frames, writes and edits by handles that are alive, and
  handles kept and dropped, until identities are exhausted.
\<close>

inductive view_life :: "(bool \<Rightarrow> string \<Rightarrow> string \<Rightarrow> 'st res) \<Rightarrow> 'st view_tree \<Rightarrow> bool" for style where
  start: "view_life style (empty_tree w)"
| frame_slots: "view_life style t \<Longrightarrow> update_slots style w slts t = (r, t') \<Longrightarrow> r \<noteq> Err ''node identity exhausted'' \<Longrightarrow>
    (\<And>p rest. prepare style w (Some slts) = Ok (p, rest) \<Longrightarrow> uniform p) \<Longrightarrow> view_life style t'"
| frame: "view_life style t \<Longrightarrow> update style w t = (r, t') \<Longrightarrow> r \<noteq> Err ''node identity exhausted'' \<Longrightarrow> view_life style t'"
| set_text: "view_life style t \<Longrightarrow> set_text_content a x t = (r, t') \<Longrightarrow> view_life style t'"
| set_attribute: "view_life style t \<Longrightarrow> set_attribute style a name x t = (r, t') \<Longrightarrow> view_life style t'"
| patch_text: "view_life style t \<Longrightarrow> patch_text a x t = (r, t') \<Longrightarrow> view_life style t'"
| patch_attribute: "view_life style t \<Longrightarrow> patch_attribute style a name x t = (r, t') \<Longrightarrow> view_life style t'"
| slot: "view_life style t \<Longrightarrow> alive t n \<Longrightarrow> replace_slot style n prefix ws slts t = (r, t') \<Longrightarrow>
    r \<noteq> Err ''node identity exhausted'' \<Longrightarrow>
    (\<And>ps rest p. prepare_children style ws (Some slts) = Ok (ps, rest) \<Longrightarrow> p \<in> set ps \<Longrightarrow> uniform p) \<Longrightarrow> view_life style t'"
| keyed: "view_life style t \<Longrightarrow> alive t n \<Longrightarrow> (\<And>a. Keyed_Kept a \<in> set cs \<Longrightarrow> alive t a) \<Longrightarrow>
    replace_keyed_children style n cs t = (r, t') \<Longrightarrow> r \<noteq> Err ''node identity exhausted'' \<Longrightarrow>
    (\<And>w slts p rest. Keyed_New w slts \<in> set cs \<Longrightarrow> prepare style w (Some slts) = Ok (p, rest) \<Longrightarrow> uniform p) \<Longrightarrow>
    view_life style t'"
| hold: "view_life style t \<Longrightarrow> alive t a \<Longrightarrow> view_life style (hold a t)"
| drop: "view_life style t \<Longrightarrow> view_life style (drop_handle a t)"

lemma frame_keeps:
  fixes prepared :: "('st prepared \<times> nat list list option) res"
  assumes "view_ok t" and "\<And>p rest. prepared = Ok (p, rest) \<Longrightarrow> uniform p"
    and e: "bind (lift_res prepared) (\<lambda>(p, _). commit p) t = (r, t')" and "r \<noteq> Err ''node identity exhausted''"
  shows "view_ok t'"
proof -
  have "frame_exact prepared t (r, t')" unfolding e [symmetric] by (rule commit_frame [OF assms(1,2)])
  then show ?thesis
    using assms(1,4) by (simp add: frame_exact_def split: res.splits prod.splits)
qed

lemma view_life_ok: "view_life style t \<Longrightarrow> view_ok t"
proof (induction rule: view_life.induct)
  case (frame_slots t w slts r t')
  show ?case
    by (rule frame_keeps [OF frame_slots.IH _ frame_slots.hyps(2) [unfolded update_slots_def] frame_slots.hyps(3)])
      (rule frame_slots.hyps(4))
next
  case (frame t w r t')
  show ?case
    by (rule frame_keeps [OF frame.IH _ frame.hyps(2) [unfolded update_def] frame.hyps(3)])
      (use prepare_unslotted(1) in blast)
next
  case (slot t n prefix ws slts r t')
  show ?case
    by (rule replace_slot_ok [OF slot.IH slot.hyps(2,3,4)]) (rule slot.hyps(5))
next
  case (keyed t n cs r t')
  show ?case
    by (rule replace_keyed_ok [OF keyed.IH keyed.hyps(2) _ keyed.hyps(4,5)]) (fact keyed.hyps(3), fact keyed.hyps(6))
next
  case (start w)
  show ?case by (rule empty_tree_ok)
qed (auto intro: reshaped_ok [OF _ set_text_content_keeps] reshaped_ok [OF _ set_attribute_keeps]
      reshaped_ok [OF _ patch_text_keeps] reshaped_ok [OF _ patch_attribute_keeps] hold_ok drop_ok)

text \<open>
  C37. Throughout a session the store is in order: ownership is a forest, identities are never
  shared or lost (\<open>lookup\<close> finds exactly the live node of the session that has the identity), and
  the parent of every child of a live node is that node, whatever sequence of frames, writes and
  structural edits led there.
\<close>

theorem view_life_ordered:
  assumes "view_life style t" and "alive t b"
  shows "view_ok t \<and>
    (lookup t i = Some a \<longleftrightarrow> alive t a \<and> owns t a \<and> vr_id (node_at t a) = i) \<and>
    set (vr_children (node_at t b)) \<subseteq> {c. upgrade_parent t c = Some b}"
proof (intro conjI)
  show ok: "view_ok t" by (rule view_life_ok [OF assms(1)])
  note o = ok [unfolded view_ok_def]
  have f: "forest (vt_mem t)" using o by blast
  have "vr_id (vt_mem t ! x) = j" if "bt_get (vt_records t) j = Some x" for j x
    using o that unfolding indexed_def by blast
  moreover have "bt_get (vt_records t) (vr_id (vt_mem t ! x)) = Some x" if "alive t x" "vr_owner (vt_mem t ! x) = vt_owner t" for x
    using o that by blast
  ultimately show "lookup t i = Some a \<longleftrightarrow> alive t a \<and> owns t a \<and> vr_id (node_at t a) = i"
    by (auto simp: lookup_def owns_def node_at_def split: option.splits)
  have "vr_parent (vt_mem t ! c) = Some b" if "c \<in> set (vr_children (vt_mem t ! b))" for c
    by (rule forest_child(2) [OF f alive_range [OF f assms(2)] that])
  then show "set (vr_children (node_at t b)) \<subseteq> {c. upgrade_parent t c = Some b}"
    using assms(2) by (auto simp: upgrade_parent_def node_at_def)
qed

lemma first_view_life: "view_life plain_style first_view"
proof -
  obtain n where "update_slots plain_style first_wire first_slots (empty_tree 0) = (Ok n, first_view)"
    using first_view_made by blast
  then show ?thesis by (rule view_life.frame_slots [OF view_life.start]) (simp, rule first_slots_uniform)
qed

lemma first_view_alive: "alive first_view 0"
proof (rule alive_strong)
  have "view_ok first_view" by (rule first_view_ok)
  then show "forest (vt_mem first_view)" "0 < length (vt_mem first_view)"
    using first_view_root unfolding view_ok_def by blast+
qed (simp add: strong_def first_view_root)

lemma view_life_ordered_witness:
  "view_ok first_view \<and>
    (lookup first_view 1 = Some 1 \<longleftrightarrow> alive first_view 1 \<and> owns first_view 1 \<and> vr_id (node_at first_view 1) = 1) \<and>
    set (vr_children (node_at first_view 0)) \<subseteq> {c. upgrade_parent first_view c = Some 0}"
  by (rule view_life_ordered [OF first_view_life first_view_alive])

end
