(* ===== verification/Reactive.thy ===== *)
theory Reactive
  imports Prelude
begin

text \<open>
  The reactive state of Rust applications (\<open>crates/deka_ui/src/reactive.rs\<close>): signals, derived
  values and effects of one scope. A scope is the record of the cells of \<open>Core\<close>.

  User code is a tree of the calls it makes (\<open>code\<close>): each node is one call, its continuation
  takes the result, a leaf returns a value. A closure is a value of a type \<open>'c\<close>, and \<open>body\<close> gives
  the code that calling it runs; what the closure has captured afterwards is the closure that
  the leaf returns. All signals carry values of one type \<open>'v\<close>, whose \<open>PartialEq\<close> is equality. The
  closure of \<open>update\<close> is such code too, from the value that it finds to the one that it leaves: it runs
  while the cell is mutably borrowed, and what it returns besides is given to the code after it.

  Values and closures have no destructors: freeing a value or disposing an observer runs no code and drops
  no owner that a closure has captured; an owner that the application keeps is dropped by \<open>Release\<close>.
  Panics of the code itself are not modelled, so that nothing unwinds through the guards of the scope.

  The \<open>u64\<close> counters of generations and revisions are natural numbers. There is one scope, which is
  the current one: the errors of a dropped scope and of a read across scopes, which need the scope to end or a
  second one, do not occur.

  Handles are private in Rust. Code that uses a handle of another kind or scope is not Rust
  code; where that could be seen, the model stops with \<open>ill_typed\<close>.
\<close>

section \<open>Handles and state\<close>

datatype failure = Dropped_Scope | Disposed_Signal | Cross_Scope_Read | Uninitialized | Borrowed_Value

record signal =
  sg_slot :: nat
  sg_gen :: nat

record effect_handle =
  ef_slot :: nat
  ef_gen :: nat

datatype reaction_kind = Derived signal | Effect

text \<open>
  \<open>Value<T>\<close>, a \<open>RefCell<Option<T>>\<close>. A cell that is mutably borrowed cannot be read; what it held is
  kept to speak about it.
\<close>

datatype 'v cell = Unset | Held 'v | Lent 'v

record owned_slots =
  ow_values :: "nat list"
  ow_effects :: "effect_handle list"

text \<open>A closure that runs is borrowed: its cell is \<open>None\<close>. A derived value knows its output.\<close>

record 'c observer =
  ob_closure :: "'c option"
  ob_deps :: "nat set"
  ob_kind :: reaction_kind
  ob_run_owner :: "owned_slots option"

text \<open>
  Stacks have their top in front, and the reads of a reaction are pairs of a slot and a revision.
  \<open>rx_regions\<close> are the owners that \<open>owned\<close> has given to its
  callers; each is dropped at most once.
\<close>

record ('v, 'c) scope_core =
  rx_values :: "'v cell option list"
  rx_free_values :: "nat list"
  rx_gens :: "nat list"
  rx_free_observers :: "nat list"
  rx_obs_gens :: "nat list"
  rx_owners :: "owned_slots list"
  rx_observers :: "'c observer option list"
  rx_subs :: "nat set list"
  rx_reads :: "(nat \<times> nat) list list"
  rx_revs :: "nat list"
  rx_dirty :: "nat set"
  rx_depth :: nat
  rx_flushing :: bool
  rx_regions :: "owned_slots option list"

definition new_scope :: "('v, 'c) scope_core" where
  "new_scope = \<lparr>rx_values = [], rx_free_values = [], rx_gens = [], rx_free_observers = [], rx_obs_gens = [],
     rx_owners = [], rx_observers = [], rx_subs = [], rx_reads = [], rx_revs = [], rx_dirty = {},
     rx_depth = 0, rx_flushing = False, rx_regions = []\<rparr>"

definition no_slots :: owned_slots where
  "no_slots = \<lparr>ow_values = [], ow_effects = []\<rparr>"

type_synonym ('v, 'c, 'a) rx = "(('v, 'c) scope_core, 'a) rm"

type_synonym 'v reading = "failure + 'v"

definition ill_typed :: string where
  "ill_typed = ''a handle is used against its type''"

definition unsettled :: string where
  "unsettled = ''reactive cycle did not settle within 10000 reactions''"


section \<open>Signals\<close>

text \<open>\<open>Signal::value\<close>: the cell behind a handle.\<close>

definition signal_value :: "('v, 'c) scope_core \<Rightarrow> signal \<Rightarrow> failure + 'v cell" where
  "signal_value s h =
     (let d = sg_slot h in
      if d < length (rx_gens s) \<and> rx_gens s ! d = sg_gen h
      then (case if d < length (rx_values s) then rx_values s ! d else None of
              None \<Rightarrow> Inl Disposed_Signal
            | Some cell \<Rightarrow> Inr cell)
      else Inl Disposed_Signal)"

definition read_signal :: "('v, 'c) scope_core \<Rightarrow> signal \<Rightarrow> 'v reading" where
  "read_signal s h =
     (case signal_value s h of
        Inl e \<Rightarrow> Inl e
      | Inr Unset \<Rightarrow> Inl Uninitialized
      | Inr (Held v) \<Rightarrow> Inr v
      | Inr (Lent v) \<Rightarrow> Inl Borrowed_Value)"

text \<open>\<open>reads.entry(slot).or_insert(revision)\<close> on the innermost reaction.\<close>

definition note_read :: "nat \<Rightarrow> ('v, 'c) scope_core \<Rightarrow> ('v, 'c) scope_core" where
  "note_read d s =
     (case rx_reads s of
        [] \<Rightarrow> s
      | R # Rs \<Rightarrow> s\<lparr>rx_reads := (if d \<in> fst ` set R then R else (d, rx_revs s ! d) # R) # Rs\<rparr>)"

definition try_get :: "signal \<Rightarrow> ('v, 'c, 'v reading) rx" where
  "try_get h s =
     (case read_signal s h of
        Inl e \<Rightarrow> (Ok (Inl e), s)
      | Inr v \<Rightarrow> (Ok (Inr v), note_read (sg_slot h) s))"

definition mark_changed :: "nat \<Rightarrow> ('v, 'c) scope_core \<Rightarrow> ('v, 'c) scope_core" where
  "mark_changed d s =
     s\<lparr>rx_revs := (rx_revs s)[d := Suc (rx_revs s ! d)], rx_dirty := rx_dirty s \<union> rx_subs s ! d\<rparr>"

definition changed :: "('v, 'c, unit) rx \<Rightarrow> nat \<Rightarrow> ('v, 'c, unit) rx" where
  "changed flush d = seq (modify (mark_changed d)) flush"

definition store_value :: "nat \<Rightarrow> 'v \<Rightarrow> ('v, 'c) scope_core \<Rightarrow> ('v, 'c) scope_core" where
  "store_value d v s = s\<lparr>rx_values := (rx_values s)[d := Some (Held v)]\<rparr>"

definition lend_value :: "nat \<Rightarrow> 'v \<Rightarrow> ('v, 'c) scope_core \<Rightarrow> ('v, 'c) scope_core" where
  "lend_value d v s = s\<lparr>rx_values := (rx_values s)[d := Some (Lent v)]\<rparr>"

text \<open>The end of the borrow: a cell that has been disposed meanwhile is no longer in its slot.\<close>

definition return_value :: "signal \<Rightarrow> 'v \<Rightarrow> ('v, 'c) scope_core \<Rightarrow> ('v, 'c) scope_core" where
  "return_value h v s = (case signal_value s h of Inl e \<Rightarrow> s | Inr cell \<Rightarrow> store_value (sg_slot h) v s)"

text \<open>A signal within a \<open>Derived\<close> cannot be written: it is a private field.\<close>

definition is_output :: "('v, 'c) scope_core \<Rightarrow> nat \<Rightarrow> bool" where
  "is_output s d \<longleftrightarrow>
     list_ex (\<lambda>x. case x of
         Some ob \<Rightarrow> (case ob_kind ob of Derived h \<Rightarrow> sg_slot h = d | Effect \<Rightarrow> False)
       | None \<Rightarrow> False) (rx_observers s)"

definition try_set :: "('v, 'c, unit) rx \<Rightarrow> signal \<Rightarrow> 'v \<Rightarrow> ('v, 'c, failure option) rx" where
  "try_set flush h v s =
     (case signal_value s h of
        Inl e \<Rightarrow> (Ok (Some e), s)
      | Inr (Lent x) \<Rightarrow> (Ok (Some Borrowed_Value), s)
      | Inr _ \<Rightarrow>
          if is_output s (sg_slot h) then (Panic ill_typed, s)
          else seq (modify (store_value (sg_slot h) v)) (seq (changed flush (sg_slot h)) (ret None)) s)"

text \<open>
  \<open>Signal::update\<close>: \<open>run v\<close> is the call of the closure. The guard marks the change when the borrow is over, by
  the slot alone.
\<close>

definition update_signal ::
    "('v, 'c, unit) rx \<Rightarrow> ('v \<Rightarrow> ('v, 'c, 'v \<times> 'c) rx) \<Rightarrow> signal \<Rightarrow> ('v, 'c, failure + 'c) rx" where
  "update_signal flush run h s =
     (case signal_value s h of
        Inl e \<Rightarrow> (Ok (Inl e), s)
      | Inr (Lent x) \<Rightarrow> (Ok (Inl Borrowed_Value), s)
      | Inr Unset \<Rightarrow> (Ok (Inl Uninitialized), s)
      | Inr (Held v) \<Rightarrow>
          if is_output s (sg_slot h) then (Panic ill_typed, s)
          else seq (modify (lend_value (sg_slot h) v))
            (bind (run v) (\<lambda>(v', c).
             seq (modify (return_value h v')) (seq (changed flush (sg_slot h)) (ret (Inr c))))) s)"

definition own_value :: "nat \<Rightarrow> ('v, 'c) scope_core \<Rightarrow> ('v, 'c) scope_core" where
  "own_value d s =
     (case rx_owners s of
        [] \<Rightarrow> s
      | w # ws \<Rightarrow> s\<lparr>rx_owners := w\<lparr>ow_values := ow_values w @ [d]\<rparr> # ws\<rparr>)"

definition allocate :: "'v cell \<Rightarrow> ('v, 'c, signal) rx" where
  "allocate cell s =
     (let (d, s') =
        (case rx_free_values s of
           d # ds \<Rightarrow> (d, s\<lparr>rx_free_values := ds, rx_values := (rx_values s)[d := Some cell],
                          rx_gens := (rx_gens s)[d := Suc (rx_gens s ! d)]\<rparr>)
         | [] \<Rightarrow> (length (rx_values s),
                  s\<lparr>rx_values := rx_values s @ [Some cell], rx_subs := rx_subs s @ [{}],
                    rx_revs := rx_revs s @ [0], rx_gens := rx_gens s @ [0]\<rparr>))
      in (Ok \<lparr>sg_slot = d, sg_gen = rx_gens s' ! d\<rparr>, own_value d s'))"


section \<open>Disposal\<close>

definition set_observer :: "nat \<Rightarrow> 'c observer option \<Rightarrow> ('v, 'c) scope_core \<Rightarrow> ('v, 'c) scope_core" where
  "set_observer i x s = s\<lparr>rx_observers := (rx_observers s)[i := x]\<rparr>"

definition resubscribe :: "nat \<Rightarrow> nat set \<Rightarrow> nat set \<Rightarrow> ('v, 'c) scope_core \<Rightarrow> ('v, 'c) scope_core" where
  "resubscribe i old new s =
     s\<lparr>rx_subs := List.map (\<lambda>d. if d \<in> old - new then rx_subs s ! d - {i}
                                 else if d \<in> new - old then insert i (rx_subs s ! d)
                                 else rx_subs s ! d) [0..<length (rx_subs s)]\<rparr>"

definition free_value :: "nat \<Rightarrow> ('v, 'c) scope_core \<Rightarrow> ('v, 'c) scope_core" where
  "free_value d s =
     s\<lparr>rx_values := (rx_values s)[d := None], rx_revs := (rx_revs s)[d := 0], rx_subs := (rx_subs s)[d := {}],
       rx_observers := List.map (map_option (\<lambda>ob. ob\<lparr>ob_deps := ob_deps ob - {d}\<rparr>)) (rx_observers s),
       rx_reads := List.map (filter (\<lambda>(x, _). x \<noteq> d)) (rx_reads s), rx_free_values := d # rx_free_values s\<rparr>"

text \<open>
  \<open>Effect::dispose\<close> and the destructor of \<open>ReactiveOwner\<close>, which call each other: an observer
  that is disposed drops what its last run owns. The fuel bounds the depth.
\<close>

definition dispose_effect :: "(nat \<Rightarrow> ('v, 'c, unit) rx) \<Rightarrow> effect_handle \<Rightarrow> ('v, 'c, unit) rx" where
  "dispose_effect dispose e =
     bind (gets (\<lambda>s. if ef_slot e < length (rx_obs_gens s) then Some (rx_obs_gens s ! ef_slot e) else None)) (\<lambda>g.
     case g of
       None \<Rightarrow> panic ''index out of bounds''
     | Some g \<Rightarrow> if g = ef_gen e then dispose (ef_slot e) else ret ())"

definition drop_owner :: "(nat \<Rightarrow> ('v, 'c, unit) rx) \<Rightarrow> owned_slots \<Rightarrow> ('v, 'c, unit) rx" where
  "drop_owner dispose w =
     seq (eachM (dispose_effect dispose) (ow_effects w)) (modify (fold free_value (ow_values w)))"

definition drop_run_owner :: "(nat \<Rightarrow> ('v, 'c, unit) rx) \<Rightarrow> owned_slots option \<Rightarrow> ('v, 'c, unit) rx" where
  "drop_run_owner dispose w = (case w of None \<Rightarrow> ret () | Some w \<Rightarrow> drop_owner dispose w)"

definition take_observer :: "nat \<Rightarrow> 'c observer \<Rightarrow> ('v, 'c) scope_core \<Rightarrow> ('v, 'c) scope_core" where
  "take_observer i ob s =
     (let s = resubscribe i (ob_deps ob) {} (set_observer i None s)
      in s\<lparr>rx_dirty := rx_dirty s - {i}, rx_free_observers := i # rx_free_observers s\<rparr>)"

fun dispose_observer :: "nat \<Rightarrow> nat \<Rightarrow> ('v, 'c, unit) rx" where
  "dispose_observer 0 i = panic stack_overflow"
| "dispose_observer (Suc k) i =
     bind (gets (\<lambda>s. rx_observers s ! i)) (\<lambda>x.
     case x of
       None \<Rightarrow> ret ()
     | Some ob \<Rightarrow>
         seq (modify (take_observer i ob)) (drop_run_owner (dispose_observer k) (ob_run_owner ob)))"

text \<open>No more observers can be disposed within one another than there are.\<close>

definition dispose_slot :: "nat \<Rightarrow> ('v, 'c, unit) rx" where
  "dispose_slot i s = dispose_observer (Suc (length (rx_observers s))) i s"


section \<open>User code\<close>

datatype ('v, 'c) code =
    Return 'v 'c
  | Get signal "'v reading \<Rightarrow> ('v, 'c) code"
  | Put signal 'v "failure option \<Rightarrow> ('v, 'c) code"
  | Update signal "'v \<Rightarrow> ('v, 'c) code" "failure + 'c \<Rightarrow> ('v, 'c) code"
  | Make 'v "signal \<Rightarrow> ('v, 'c) code"
  | Derive 'c "signal \<Rightarrow> ('v, 'c) code"
  | Watch 'c "effect_handle \<Rightarrow> ('v, 'c) code"
  | Dispose effect_handle "('v, 'c) code"
  | Batch "('v, 'c) code" "('v, 'c) code"
  | Own "('v, 'c) code" "nat \<Rightarrow> ('v, 'c) code"
  | Release nat "('v, 'c) code"

text \<open>\<open>Scope::batch\<close>: its guard flushes when the outermost batch ends.\<close>

definition batch :: "('v, 'c, unit) rx \<Rightarrow> ('v, 'c, 'a) rx \<Rightarrow> ('v, 'c, 'a) rx" where
  "batch flush m =
     seq (modify (\<lambda>s. s\<lparr>rx_depth := Suc (rx_depth s)\<rparr>))
     (bind m (\<lambda>a.
      seq (modify (\<lambda>s. s\<lparr>rx_depth := rx_depth s - 1\<rparr>)) (seq flush (ret a))))"

definition own_effect :: "effect_handle \<Rightarrow> ('v, 'c) scope_core \<Rightarrow> ('v, 'c) scope_core" where
  "own_effect e s =
     (case rx_owners s of
        [] \<Rightarrow> s
      | w # ws \<Rightarrow> s\<lparr>rx_owners := w\<lparr>ow_effects := ow_effects w @ [e]\<rparr> # ws\<rparr>)"

definition add_observer :: "reaction_kind \<Rightarrow> 'c \<Rightarrow> ('v, 'c, effect_handle) rx" where
  "add_observer k c s =
     (let ob = \<lparr>ob_closure = Some c, ob_deps = {}, ob_kind = k, ob_run_owner = None\<rparr>;
          (i, s') =
        (case rx_free_observers s of
           i # is \<Rightarrow> (i, s\<lparr>rx_free_observers := is, rx_observers := (rx_observers s)[i := Some ob],
                          rx_obs_gens := (rx_obs_gens s)[i := Suc (rx_obs_gens s ! i)]\<rparr>)
         | [] \<Rightarrow> (length (rx_observers s),
                  s\<lparr>rx_observers := rx_observers s @ [Some ob], rx_obs_gens := rx_obs_gens s @ [0]\<rparr>));
          e = \<lparr>ef_slot = i, ef_gen = rx_obs_gens s' ! i\<rparr>
      in (Ok e, own_effect e s'))"

definition observe_reaction ::
    "(nat \<Rightarrow> ('v, 'c, unit) rx) \<Rightarrow> ('v, 'c, unit) rx \<Rightarrow> reaction_kind \<Rightarrow> 'c \<Rightarrow> ('v, 'c, effect_handle) rx" where
  "observe_reaction evaluate flush k c =
     bind (add_observer k c) (\<lambda>e. seq (batch flush (evaluate (ef_slot e))) (ret e))"

definition derived :: "(nat \<Rightarrow> ('v, 'c, unit) rx) \<Rightarrow> ('v, 'c, unit) rx \<Rightarrow> 'c \<Rightarrow> ('v, 'c, signal) rx" where
  "derived evaluate flush c =
     bind (allocate Unset) (\<lambda>h. bind (observe_reaction evaluate flush (Derived h) c) (\<lambda>_. ret h))"

definition push_owner :: "('v, 'c) scope_core \<Rightarrow> ('v, 'c) scope_core" where
  "push_owner s = s\<lparr>rx_owners := no_slots # rx_owners s\<rparr>"

definition pop_owner :: "('v, 'c, owned_slots) rx" where
  "pop_owner s =
     (case rx_owners s of
        [] \<Rightarrow> (Panic ''allocation owner'', s)
      | w # ws \<Rightarrow> (Ok w, s\<lparr>rx_owners := ws\<rparr>))"

definition owned :: "('v, 'c, 'a) rx \<Rightarrow> ('v, 'c, 'a \<times> owned_slots) rx" where
  "owned m = seq (modify push_owner) (bind m (\<lambda>a. bind pop_owner (\<lambda>w. ret (a, w))))"

definition keep_region :: "owned_slots \<Rightarrow> ('v, 'c, nat) rx" where
  "keep_region w s = (Ok (length (rx_regions s)), s\<lparr>rx_regions := rx_regions s @ [Some w]\<rparr>)"

definition release :: "nat \<Rightarrow> ('v, 'c, unit) rx" where
  "release r =
     bind (gets (\<lambda>s. if r < length (rx_regions s) then rx_regions s ! r else None)) (\<lambda>x.
     case x of
       None \<Rightarrow> panic ill_typed
     | Some w \<Rightarrow> seq (modify (\<lambda>s. s\<lparr>rx_regions := (rx_regions s)[r := None]\<rparr>)) (drop_owner dispose_slot w))"

definition dispose :: "effect_handle \<Rightarrow> ('v, 'c, unit) rx" where
  "dispose e =
     bind (gets (\<lambda>s. ef_slot e < length (rx_observers s))) (\<lambda>known.
     if known then dispose_effect dispose_slot e else panic ill_typed)"

primrec exec ::
    "(nat \<Rightarrow> ('v, 'c, unit) rx) \<Rightarrow> ('v, 'c, unit) rx \<Rightarrow> ('v, 'c) code \<Rightarrow> ('v, 'c, 'v \<times> 'c) rx" where
  "exec evaluate flush (Return v c) = ret (v, c)"
| "exec evaluate flush (Get h k) = bind (try_get h) (\<lambda>r. exec evaluate flush (k r))"
| "exec evaluate flush (Put h v k) = bind (try_set flush h v) (\<lambda>r. exec evaluate flush (k r))"
| "exec evaluate flush (Update h f k) =
     bind (update_signal flush (\<lambda>v. exec evaluate flush (f v)) h) (\<lambda>r. exec evaluate flush (k r))"
| "exec evaluate flush (Make v k) = bind (allocate (Held v)) (\<lambda>h. exec evaluate flush (k h))"
| "exec evaluate flush (Derive c k) = bind (derived evaluate flush c) (\<lambda>h. exec evaluate flush (k h))"
| "exec evaluate flush (Watch c k) = bind (observe_reaction evaluate flush Effect c) (\<lambda>e. exec evaluate flush (k e))"
| "exec evaluate flush (Dispose e k) = seq (dispose e) (exec evaluate flush k)"
| "exec evaluate flush (Batch a k) = bind (batch flush (exec evaluate flush a)) (\<lambda>_. exec evaluate flush k)"
| "exec evaluate flush (Own a k) =
     bind (owned (exec evaluate flush a)) (\<lambda>(_, w). bind (keep_region w) (\<lambda>r. exec evaluate flush (k r)))"
| "exec evaluate flush (Release r k) = seq (release r) (exec evaluate flush k)"


section \<open>Reactions\<close>

text \<open>
  Inside a reaction the scope is in a batch or in a flush, so the flush that every write asks
  for returns at once. The model checks this instead of flushing.
\<close>

definition flush_inside :: "('v, 'c, unit) rx" where
  "flush_inside =
     bind (gets (\<lambda>s. rx_depth s \<noteq> 0 \<or> rx_flushing s)) (\<lambda>busy.
     if busy then ret () else panic ''flush within a reaction'')"

text \<open>The observer that a run started with, unless it was disposed since.\<close>

definition still_there :: "nat \<Rightarrow> nat \<Rightarrow> ('v, 'c) scope_core \<Rightarrow> 'c observer option" where
  "still_there i g s = (if rx_obs_gens s ! i = g then rx_observers s ! i else None)"

definition with_observer ::
    "nat \<Rightarrow> nat \<Rightarrow> ('c observer \<Rightarrow> 'c observer) \<Rightarrow> ('v, 'c) scope_core \<Rightarrow> ('v, 'c) scope_core" where
  "with_observer i g f s =
     (case still_there i g s of None \<Rightarrow> s | Some ob \<Rightarrow> set_observer i (Some (f ob)) s)"

text \<open>The closure of \<open>derived\<close>: it writes the output only when the value differs.\<close>

definition write_output :: "reaction_kind \<Rightarrow> 'v \<Rightarrow> ('v, 'c, unit) rx" where
  "write_output k v s =
     (case k of
        Effect \<Rightarrow> (Ok (), s)
      | Derived h \<Rightarrow>
          (case signal_value s h of
             Inl e \<Rightarrow> (Ok (), s)
           | Inr (Lent x) \<Rightarrow> (Panic ''already mutably borrowed'', s)
           | Inr cell \<Rightarrow>
               if cell = Held v then (Ok (), s)
               else seq (modify (store_value (sg_slot h) v)) (changed flush_inside (sg_slot h)) s))"

text \<open>The destructor of \<open>Capture\<close>.\<close>

definition capture_reads :: "nat \<Rightarrow> 'c observer \<Rightarrow> (nat \<times> nat) list \<Rightarrow> ('v, 'c) scope_core \<Rightarrow> ('v, 'c) scope_core" where
  "capture_reads i ob R s =
     (let D = fst ` set R;
          s' = set_observer i (Some (ob\<lparr>ob_deps := D\<rparr>)) (resubscribe i (ob_deps ob) D s)
      in if \<exists>(d, r) \<in> set R. rx_revs s ! d \<noteq> r then s'\<lparr>rx_dirty := insert i (rx_dirty s')\<rparr> else s')"

definition capture :: "nat \<Rightarrow> nat \<Rightarrow> ('v, 'c, unit) rx" where
  "capture i g s =
     (case rx_reads s of
        [] \<Rightarrow> (Panic ''reaction read capture'', s)
      | R # Rs \<Rightarrow>
          (let s' = s\<lparr>rx_reads := Rs\<rparr>
           in (Ok (), case still_there i g s' of None \<Rightarrow> s' | Some ob \<Rightarrow> capture_reads i ob R s')))"

definition run_callback ::
    "(nat \<Rightarrow> ('v, 'c, unit) rx) \<Rightarrow> ('c \<Rightarrow> ('v, 'c) code) \<Rightarrow> nat \<Rightarrow> nat \<Rightarrow> reaction_kind \<Rightarrow> 'c \<Rightarrow> ('v, 'c, unit) rx" where
  "run_callback evaluate body i g k c =
     seq (modify (\<lambda>s. s\<lparr>rx_reads := [] # rx_reads s\<rparr>))
     (seq (modify (with_observer i g (\<lambda>ob. ob\<lparr>ob_closure := None\<rparr>)))
     (bind (exec evaluate flush_inside (body c)) (\<lambda>(v, c').
      seq (write_output k v)
      (seq (modify (with_observer i g (\<lambda>ob. ob\<lparr>ob_closure := Some c'\<rparr>))) (capture i g)))))"

definition attach_owner :: "nat \<Rightarrow> nat \<Rightarrow> owned_slots \<Rightarrow> ('v, 'c, unit) rx" where
  "attach_owner i g w =
     bind (gets (still_there i g)) (\<lambda>x.
     case x of
       None \<Rightarrow> drop_owner dispose_slot w
     | Some ob \<Rightarrow> modify (set_observer i (Some (ob\<lparr>ob_run_owner := Some w\<rparr>))))"

definition react ::
    "(nat \<Rightarrow> ('v, 'c, unit) rx) \<Rightarrow> ('c \<Rightarrow> ('v, 'c) code) \<Rightarrow> nat \<Rightarrow> 'c observer \<Rightarrow> ('v, 'c, unit) rx" where
  "react evaluate body i ob =
     seq (modify (set_observer i (Some (ob\<lparr>ob_run_owner := None\<rparr>))))
     (seq (drop_run_owner dispose_slot (ob_run_owner ob))
     (bind (gets (\<lambda>s. rx_obs_gens s ! i)) (\<lambda>g.
      case ob_closure ob of
        None \<Rightarrow> panic ''already borrowed''
      | Some c \<Rightarrow>
          bind (owned (run_callback evaluate body i g (ob_kind ob) c)) (\<lambda>(_, w). attach_owner i g w))))"

text \<open>\<open>Core::evaluate\<close>. The fuel is the stack: reactions that create reactions run within one another.\<close>

fun evaluate :: "('c \<Rightarrow> ('v, 'c) code) \<Rightarrow> nat \<Rightarrow> nat \<Rightarrow> ('v, 'c, unit) rx" where
  "evaluate body 0 i = panic stack_overflow"
| "evaluate body (Suc n) i =
     bind (gets (\<lambda>s. rx_observers s ! i)) (\<lambda>x.
     case x of None \<Rightarrow> ret () | Some ob \<Rightarrow> react (evaluate body n) body i ob)"

text \<open>\<open>Core::flush\<close>: derived values first, then effects, each in the order of the slots.\<close>

definition is_derived :: "('v, 'c) scope_core \<Rightarrow> nat \<Rightarrow> bool" where
  "is_derived s i \<longleftrightarrow> (case rx_observers s ! i of Some ob \<Rightarrow> ob_kind ob \<noteq> Effect | None \<Rightarrow> False)"

definition next_dirty :: "('v, 'c) scope_core \<Rightarrow> nat option" where
  "next_dirty s =
     (let D = {i \<in> rx_dirty s. is_derived s i}
      in if D \<noteq> {} then Some (Min D) else if rx_dirty s \<noteq> {} then Some (Min (rx_dirty s)) else None)"

fun flush_loop :: "(nat \<Rightarrow> ('v, 'c, unit) rx) \<Rightarrow> nat \<Rightarrow> ('v, 'c, unit) rx" where
  "flush_loop ev n s =
     (case next_dirty s of
        None \<Rightarrow> (Ok (), s)
      | Some i \<Rightarrow>
          (case n of
             0 \<Rightarrow> (Panic unsettled, s)
           | Suc m \<Rightarrow> seq (modify (\<lambda>s. s\<lparr>rx_dirty := rx_dirty s - {i}\<rparr>)) (seq (ev i) (flush_loop ev m)) s))"

declare flush_loop.simps [simp del]

definition turns :: nat where
  "turns = 10000"

definition flush :: "(nat \<Rightarrow> ('v, 'c, unit) rx) \<Rightarrow> ('v, 'c, unit) rx" where
  "flush ev s =
     (if rx_depth s \<noteq> 0 \<or> rx_flushing s then (Ok (), s)
      else case flush_loop ev turns (s\<lparr>rx_flushing := True\<rparr>) of
        (r, s') \<Rightarrow> (r, s'\<lparr>rx_flushing := False\<rparr>))"

text \<open>Code that an application runs in the scope, outside every reaction.\<close>

definition client :: "('c \<Rightarrow> ('v, 'c) code) \<Rightarrow> nat \<Rightarrow> ('v, 'c) code \<Rightarrow> ('v, 'c, 'v \<times> 'c) rx" where
  "client body n = exec (evaluate body n) (flush (evaluate body n))"

end
