(* ===== verification/ReactiveInv.thy ===== *)
theory ReactiveInv
  imports Reactive
begin

text \<open>
  The invariant of a reactive scope, and what every primitive step does to it: subscriptions
  and dependencies are two views of one relation, slots are free exactly when they are empty,
  every live allocation has one owner at most, and a derived value that is not marked dirty is
  what its closure computes from the signals it is subscribed to.
\<close>

section \<open>What a computation reads\<close>

text \<open>Closures that only read and do not change what they have captured.\<close>

primrec reads_only :: "'c \<Rightarrow> ('v, 'c) code \<Rightarrow> bool" where
  "reads_only c (Return v c') \<longleftrightarrow> c' = c"
| "reads_only c (Get h k) \<longleftrightarrow> (\<forall>r. reads_only c (k r))"
| "reads_only c (Put h v k) \<longleftrightarrow> False"
| "reads_only c (Update h f k) \<longleftrightarrow> False"
| "reads_only c (Make v k) \<longleftrightarrow> False"
| "reads_only c (Derive d k) \<longleftrightarrow> False"
| "reads_only c (Watch d k) \<longleftrightarrow> False"
| "reads_only c (Dispose e k) \<longleftrightarrow> False"
| "reads_only c (Batch a k) \<longleftrightarrow> False"
| "reads_only c (Own a k) \<longleftrightarrow> False"
| "reads_only c (Release r k) \<longleftrightarrow> False"

text \<open>
  The closures a run of the code can leave, and the closures of pure computed state: they only
  read, and no other closure turns into one of them.
\<close>

primrec leaves :: "('v, 'c) code \<Rightarrow> 'c set" where
  "leaves (Return v c) = {c}"
| "leaves (Get h k) = (\<Union>r. leaves (k r))"
| "leaves (Put h v k) = (\<Union>r. leaves (k r))"
| "leaves (Update h f k) = (\<Union>r. leaves (k r))"
| "leaves (Make v k) = (\<Union>h. leaves (k h))"
| "leaves (Derive d k) = (\<Union>h. leaves (k h))"
| "leaves (Watch d k) = (\<Union>e. leaves (k e))"
| "leaves (Dispose e k) = leaves k"
| "leaves (Batch a k) = leaves k"
| "leaves (Own a k) = (\<Union>r. leaves (k r))"
| "leaves (Release r k) = leaves k"

definition computes :: "('c \<Rightarrow> ('v, 'c) code) \<Rightarrow> 'c \<Rightarrow> bool" where
  "computes body c \<longleftrightarrow> reads_only c (body c) \<and> (\<forall>c0. c \<in> leaves (body c0) \<longrightarrow> c0 = c)"

text \<open>The value of such code in a scope.\<close>

primrec evaluated :: "('v, 'c) scope_core \<Rightarrow> ('v, 'c) code \<Rightarrow> 'v option" where
  "evaluated s (Return v c) = Some v"
| "evaluated s (Get h k) = evaluated s (k (read_signal s h))"
| "evaluated s (Put h v k) = None"
| "evaluated s (Update h f k) = None"
| "evaluated s (Make v k) = None"
| "evaluated s (Derive d k) = None"
| "evaluated s (Watch d k) = None"
| "evaluated s (Dispose e k) = None"
| "evaluated s (Batch a k) = None"
| "evaluated s (Own a k) = None"
| "evaluated s (Release r k) = None"

text \<open>
  The values such code can return, and those it can return when one of its reads has failed.
\<close>

primrec returns :: "('v, 'c) code \<Rightarrow> 'v set" where
  "returns (Return v c) = {v}"
| "returns (Get h k) = (\<Union>r. returns (k r))"
| "returns (Put h v k) = {}"
| "returns (Update h f k) = {}"
| "returns (Make v k) = {}"
| "returns (Derive d k) = {}"
| "returns (Watch d k) = {}"
| "returns (Dispose e k) = {}"
| "returns (Batch a k) = {}"
| "returns (Own a k) = {}"
| "returns (Release r k) = {}"

primrec after_failure :: "('v, 'c) code \<Rightarrow> 'v set" where
  "after_failure (Return v c) = {}"
| "after_failure (Get h k) = (\<Union>e. returns (k (Inl e))) \<union> (\<Union>x. after_failure (k (Inr x)))"
| "after_failure (Put h v k) = {}"
| "after_failure (Update h f k) = {}"
| "after_failure (Make v k) = {}"
| "after_failure (Derive d k) = {}"
| "after_failure (Watch d k) = {}"
| "after_failure (Dispose e k) = {}"
| "after_failure (Batch a k) = {}"
| "after_failure (Own a k) = {}"
| "after_failure (Release r k) = {}"

text \<open>All that the code reads can be read.\<close>

primrec readable :: "('v, 'c) scope_core \<Rightarrow> ('v, 'c) code \<Rightarrow> bool" where
  "readable s (Return v c) \<longleftrightarrow> True"
| "readable s (Get h k) \<longleftrightarrow> (case read_signal s h of Inl e \<Rightarrow> False | Inr x \<Rightarrow> readable s (k (Inr x)))"
| "readable s (Put h v k) \<longleftrightarrow> False"
| "readable s (Update h f k) \<longleftrightarrow> False"
| "readable s (Make v k) \<longleftrightarrow> False"
| "readable s (Derive d k) \<longleftrightarrow> False"
| "readable s (Watch d k) \<longleftrightarrow> False"
| "readable s (Dispose e k) \<longleftrightarrow> False"
| "readable s (Batch a k) \<longleftrightarrow> False"
| "readable s (Own a k) \<longleftrightarrow> False"
| "readable s (Release r k) \<longleftrightarrow> False"

text \<open>
  What a handle shows, a cell that is mutably borrowed being what it was before; the handles that are borrowed;
  the handles the scope has given out, now or before, and those of them that are disposed.
\<close>

definition seen :: "('v, 'c) scope_core \<Rightarrow> signal \<Rightarrow> 'v reading" where
  "seen s h = (case signal_value s h of
      Inl e \<Rightarrow> Inl e
    | Inr Unset \<Rightarrow> Inl Uninitialized
    | Inr (Held v) \<Rightarrow> Inr v
    | Inr (Lent v) \<Rightarrow> Inr v)"

definition lent :: "('v, 'c) scope_core \<Rightarrow> signal \<Rightarrow> bool" where
  "lent s h \<longleftrightarrow> (\<exists>v. signal_value s h = Inr (Lent v))"

definition given :: "('v, 'c) scope_core \<Rightarrow> signal \<Rightarrow> bool" where
  "given s h \<longleftrightarrow> sg_slot h < length (rx_gens s) \<and> sg_gen h \<le> rx_gens s ! sg_slot h"

definition gone :: "('v, 'c) scope_core \<Rightarrow> signal \<Rightarrow> bool" where
  "gone s h \<longleftrightarrow> given s h \<and> (\<exists>e. signal_value s h = Inl e)"

text \<open>
  \<open>fits s D code v\<close>: a run of the code gave \<open>v\<close>, in which every read was of a slot of \<open>D\<close> and gave what the scope
  shows now, or failed, or was of a signal disposed since.
\<close>

primrec fits :: "('v, 'c) scope_core \<Rightarrow> nat set \<Rightarrow> ('v, 'c) code \<Rightarrow> 'v \<Rightarrow> bool" where
  "fits s D (Return v c) w \<longleftrightarrow> v = w"
| "fits s D (Get h k) w \<longleftrightarrow>
     (if sg_slot h \<in> D then fits s D (k (seen s h)) w
      else (\<exists>e. fits s D (k (Inl e)) w) \<or> gone s h \<and> (\<exists>x. fits s D (k (Inr x)) w))"
| "fits s D (Put h v k) w \<longleftrightarrow> True"
| "fits s D (Update h f k) w \<longleftrightarrow> True"
| "fits s D (Make v k) w \<longleftrightarrow> True"
| "fits s D (Derive d k) w \<longleftrightarrow> True"
| "fits s D (Watch d k) w \<longleftrightarrow> True"
| "fits s D (Dispose e k) w \<longleftrightarrow> True"
| "fits s D (Batch a k) w \<longleftrightarrow> True"
| "fits s D (Own a k) w \<longleftrightarrow> True"
| "fits s D (Release r k) w \<longleftrightarrow> True"

lemma same_cells:
  assumes "rx_values t = rx_values s" and "rx_gens t = rx_gens s"
  shows "signal_value t = signal_value s" and "read_signal t = read_signal s" and "seen t = seen s"
    and "lent t = lent s" and "given t = given s" and "gone t = gone s"
proof -
  show v: "signal_value t = signal_value s" by (auto simp: signal_value_def fun_eq_iff Let_def assms)
  show g: "given t = given s" by (simp add: given_def fun_eq_iff assms)
  show "read_signal t = read_signal s" "seen t = seen s" "lent t = lent s" "gone t = gone s"
    by (simp_all add: read_signal_def seen_def lent_def gone_def fun_eq_iff v g)
qed

text \<open>Another state of the scope: the slots of \<open>D\<close> show what they did, or were disposed.\<close>

lemma fits_step:
  assumes "fits s D code w" and "D' \<subseteq> D"
    and same: "\<And>h. sg_slot h \<in> D' \<Longrightarrow> seen t h = seen s h"
    and lost: "\<And>h x. sg_slot h \<in> D - D' \<Longrightarrow> seen s h = Inr x \<Longrightarrow> gone t h"
    and stays: "\<And>h. gone s h \<Longrightarrow> gone t h"
  shows "fits t D' code w"
  using assms(1)
proof (induction code)
  case (Get h k)
  have ih: "fits s D (k r) w \<Longrightarrow> fits t D' (k r) w" for r using Get.IH by blast
  show ?case
  proof (cases "sg_slot h \<in> D'")
    case True
    then show ?thesis using Get.prems ih same [OF True] assms(2) by auto
  next
    case out: False
    show ?thesis
    proof (cases "sg_slot h \<in> D")
      case True
      then have f: "fits t D' (k (seen s h)) w" using Get.prems ih by simp
      show ?thesis
      proof (cases "seen s h")
        case (Inr x)
        then have "gone t h" using lost [of h x] True out by simp
        then show ?thesis using out f Inr by auto
      qed (use out f in auto)
    next
      case False
      then show ?thesis using out Get.prems ih stays [of h] by auto
    qed
  qed
qed simp_all

lemma fits_mono:
  "fits s D code w \<Longrightarrow> (\<And>h. sg_slot h \<in> D \<Longrightarrow> seen t h = seen s h) \<Longrightarrow> (\<And>h. gone s h \<Longrightarrow> gone t h) \<Longrightarrow> fits t D code w"
  by (rule fits_step [of s D code w D t]) auto

lemma fits_same:
  assumes "rx_values t = rx_values s" and "rx_gens t = rx_gens s"
  shows "fits t D code w \<longleftrightarrow> fits s D code w"
  using fits_mono [of s D code w t] fits_mono [of t D code w s] same_cells [OF assms] by auto

lemma fits_returns: "reads_only c code \<Longrightarrow> fits s D code w \<Longrightarrow> w \<in> returns code"
  by (induction code) (auto split: if_splits)

text \<open>
  When the reads succeed now, and the value is not one that follows a failed read, nothing is out of date.
\<close>

lemma fits_evaluated:
  "reads_only c code \<Longrightarrow> readable s code \<Longrightarrow> w \<notin> after_failure code \<Longrightarrow> fits s D code w \<Longrightarrow> evaluated s code = Some w"
proof (induction code)
  case (Get h k)
  obtain x where x: "read_signal s h = Inr x" "readable s (k (Inr x))" using Get.prems(2) by (auto split: sum.splits)
  then have v: "signal_value s h = Inr (Held x)" by (auto simp: read_signal_def split: sum.splits cell.splits)
  have "\<not> fits s D (k (Inl e)) w" for e using Get.prems(1,3) fits_returns [of c "k (Inl e)" s D w] by auto
  then have "fits s D (k (Inr x)) w"
    using Get.prems(4) v by (auto simp: seen_def gone_def split: if_splits)
  then show ?case using Get.IH [OF rangeI, of "Inr x"] Get.prems(1,3) x by auto
qed auto


section \<open>The invariant\<close>

definition value_at :: "('v, 'c) scope_core \<Rightarrow> nat \<Rightarrow> 'v cell option" where
  "value_at s d = (if d < length (rx_values s) then rx_values s ! d else None)"

definition obs_at :: "('v, 'c) scope_core \<Rightarrow> nat \<Rightarrow> 'c observer option" where
  "obs_at s i = (if i < length (rx_observers s) then rx_observers s ! i else None)"

text \<open>The places where an owner can be: the stack from the bottom, an observer, a client.\<close>

datatype owner_place = On_Stack nat | Of_Run nat | Of_Client nat

fun owner_at :: "('v, 'c) scope_core \<Rightarrow> owner_place \<Rightarrow> owned_slots option" where
  "owner_at s (On_Stack n) = (if n < length (rx_owners s) then Some (rev (rx_owners s) ! n) else None)"
| "owner_at s (Of_Run i) = (case obs_at s i of None \<Rightarrow> None | Some ob \<Rightarrow> ob_run_owner ob)"
| "owner_at s (Of_Client r) = (if r < length (rx_regions s) then rx_regions s ! r else None)"

definition shape :: "('v, 'c) scope_core \<Rightarrow> bool" where
  "shape s \<longleftrightarrow> length (rx_gens s) = length (rx_values s) \<and> length (rx_subs s) = length (rx_values s) \<and>
     length (rx_revs s) = length (rx_values s) \<and> length (rx_obs_gens s) = length (rx_observers s)"

definition free_ok :: "('v, 'c) scope_core \<Rightarrow> bool" where
  "free_ok s \<longleftrightarrow>
     distinct (rx_free_values s) \<and> set (rx_free_values s) = {d. d < length (rx_values s) \<and> value_at s d = None} \<and>
     distinct (rx_free_observers s) \<and> set (rx_free_observers s) = {i. i < length (rx_observers s) \<and> obs_at s i = None}"

definition subs_ok :: "('v, 'c) scope_core \<Rightarrow> bool" where
  "subs_ok s \<longleftrightarrow>
     (\<forall>i ob d. obs_at s i = Some ob \<and> d \<in> ob_deps ob \<longrightarrow> value_at s d \<noteq> None \<and> i \<in> rx_subs s ! d) \<and>
     (\<forall>d i. d < length (rx_values s) \<and> i \<in> rx_subs s ! d \<longrightarrow> (\<exists>ob. obs_at s i = Some ob \<and> d \<in> ob_deps ob))"

definition dirty_ok :: "('v, 'c) scope_core \<Rightarrow> bool" where
  "dirty_ok s \<longleftrightarrow> (\<forall>i \<in> rx_dirty s. obs_at s i \<noteq> None)"

definition captures_ok :: "('v, 'c) scope_core \<Rightarrow> bool" where
  "captures_ok s \<longleftrightarrow> (\<forall>R \<in> set (rx_reads s). \<forall>d \<in> fst ` set R. value_at s d \<noteq> None)"

definition owner_live :: "('v, 'c) scope_core \<Rightarrow> owned_slots \<Rightarrow> bool" where
  "owner_live s w \<longleftrightarrow> distinct (ow_values w) \<and> (\<forall>d \<in> set (ow_values w). value_at s d \<noteq> None) \<and>
     (\<forall>e \<in> set (ow_effects w). ef_slot e < length (rx_observers s))"

definition apart :: "('v, 'c) scope_core \<Rightarrow> owned_slots \<Rightarrow> bool" where
  "apart s w \<longleftrightarrow> (\<forall>p w'. owner_at s p = Some w' \<longrightarrow> set (ow_values w) \<inter> set (ow_values w') = {})"

definition owners_ok :: "('v, 'c) scope_core \<Rightarrow> bool" where
  "owners_ok s \<longleftrightarrow> (\<forall>p w. owner_at s p = Some w \<longrightarrow> owner_live s w) \<and>
     (\<forall>p q w w'. p \<noteq> q \<and> owner_at s p = Some w \<and> owner_at s q = Some w' \<longrightarrow> set (ow_values w) \<inter> set (ow_values w') = {})"

definition output_of :: "('v, 'c) scope_core \<Rightarrow> nat \<Rightarrow> signal option" where
  "output_of s i =
     (case obs_at s i of
        None \<Rightarrow> None
      | Some ob \<Rightarrow> (case ob_kind ob of Derived h \<Rightarrow> Some h | Effect \<Rightarrow> None))"

text \<open>Derived values have outputs of their own, which nobody borrows.\<close>

definition outputs_ok :: "('v, 'c) scope_core \<Rightarrow> bool" where
  "outputs_ok s \<longleftrightarrow> (\<forall>i h. output_of s i = Some h \<longrightarrow> given s h \<and> \<not> lent s h) \<and>
     (\<forall>i j h. output_of s i = Some h \<and> output_of s j = Some h \<longrightarrow> i = j)"

text \<open>What \<open>i\<close> shows is what its closure computes.\<close>

definition current :: "('c \<Rightarrow> ('v, 'c) code) \<Rightarrow> ('v, 'c) scope_core \<Rightarrow> nat \<Rightarrow> bool" where
  "current body s i \<longleftrightarrow>
     (\<forall>ob c h v. obs_at s i = Some ob \<and> ob_closure ob = Some c \<and> ob_kind ob = Derived h \<and>
        computes body c \<and> read_signal s h = Inr v \<longrightarrow> fits s (ob_deps ob) (body c) v)"

text \<open>The observers of \<open>X\<close> are about to run again.\<close>

definition scope_ok :: "('c \<Rightarrow> ('v, 'c) code) \<Rightarrow> nat set \<Rightarrow> ('v, 'c) scope_core \<Rightarrow> bool" where
  "scope_ok body X s \<longleftrightarrow> shape s \<and> free_ok s \<and> subs_ok s \<and> dirty_ok s \<and> captures_ok s \<and> owners_ok s \<and> outputs_ok s \<and>
     (\<forall>i. i \<notin> X \<and> i \<notin> rx_dirty s \<longrightarrow> current body s i)"

lemma scope_okD:
  assumes "scope_ok body X s"
  shows "shape s" "free_ok s" "subs_ok s" "dirty_ok s" "captures_ok s" "owners_ok s" "outputs_ok s"
    and "i \<notin> X \<Longrightarrow> i \<notin> rx_dirty s \<Longrightarrow> current body s i"
  using assms by (simp_all add: scope_ok_def)

lemma scope_ok_mono: "scope_ok body X s \<Longrightarrow> X \<subseteq> Y \<Longrightarrow> scope_ok body Y s"
  by (auto simp: scope_ok_def)


section \<open>How a scope evolves\<close>

definition fresh :: "('v, 'c) scope_core \<Rightarrow> signal \<Rightarrow> bool" where
  "fresh s h \<longleftrightarrow> \<not> given s h"

text \<open>
  From one state to a later one at the same depth of stacks: a slot that is free stays so until it
  is given out under a new generation; a live observer is either the one that was there, running or
  not as before, or a new one, which is not running and whose output is new; what is borrowed was so before.
\<close>

definition later :: "('v, 'c) scope_core \<Rightarrow> ('v, 'c) scope_core \<Rightarrow> bool" where
  "later s t \<longleftrightarrow>
     rx_depth t = rx_depth s \<and> rx_flushing t = rx_flushing s \<and>
     length (rx_owners t) = length (rx_owners s) \<and> length (rx_reads t) = length (rx_reads s) \<and>
     length (rx_gens s) \<le> length (rx_gens t) \<and> (\<forall>d < length (rx_gens s). rx_gens s ! d \<le> rx_gens t ! d \<and>
        (rx_gens t ! d = rx_gens s ! d \<and> value_at s d = None \<longrightarrow> value_at t d = None)) \<and>
     length (rx_observers s) \<le> length (rx_observers t) \<and>
     (\<forall>i < length (rx_observers s). rx_obs_gens s ! i \<le> rx_obs_gens t ! i) \<and>
     (\<forall>i ob. obs_at t i = Some ob \<longrightarrow>
        (\<exists>ob0. obs_at s i = Some ob0 \<and> rx_obs_gens t ! i = rx_obs_gens s ! i \<and> ob_kind ob = ob_kind ob0 \<and>
           (ob_closure ob = None \<longleftrightarrow> ob_closure ob0 = None)) \<or>
        ob_closure ob \<noteq> None \<and> (i < length (rx_observers s) \<longrightarrow> rx_obs_gens s ! i < rx_obs_gens t ! i) \<and>
        (\<forall>h. ob_kind ob = Derived h \<longrightarrow> fresh s h)) \<and>
     (\<forall>h. lent t h \<longrightarrow> lent s h)"

lemma later_refl: "later s s"
  by (auto simp: later_def)

lemma obs_at_range: "obs_at s i = Some ob \<Longrightarrow> i < length (rx_observers s)"
  by (simp add: obs_at_def split: if_splits)

lemma fresh_back:
  assumes "later s t" and "fresh t h"
  shows "fresh s h"
  using assms unfolding later_def fresh_def given_def by (meson less_le_trans order_trans)

lemma laterD:
  assumes "later s t"
  shows "rx_depth t = rx_depth s" "rx_flushing t = rx_flushing s" "length (rx_owners t) = length (rx_owners s)"
    "length (rx_reads t) = length (rx_reads s)" "length (rx_gens s) \<le> length (rx_gens t)"
    "d < length (rx_gens s) \<Longrightarrow> rx_gens s ! d \<le> rx_gens t ! d"
    "length (rx_observers s) \<le> length (rx_observers t)"
    "i < length (rx_observers s) \<Longrightarrow> rx_obs_gens s ! i \<le> rx_obs_gens t ! i"
    "d < length (rx_gens s) \<Longrightarrow> rx_gens t ! d = rx_gens s ! d \<Longrightarrow> value_at s d = None \<Longrightarrow> value_at t d = None"
    "lent t h \<Longrightarrow> lent s h"
  using assms by (simp_all add: later_def)

lemma later_obs:
  assumes "later s t" and "obs_at t i = Some ob"
  obtains (kept) ob0 where "obs_at s i = Some ob0" "rx_obs_gens t ! i = rx_obs_gens s ! i" "ob_kind ob = ob_kind ob0"
      "ob_closure ob = None \<longleftrightarrow> ob_closure ob0 = None"
    | (new) "ob_closure ob \<noteq> None" "i < length (rx_observers s) \<longrightarrow> rx_obs_gens s ! i < rx_obs_gens t ! i"
      "\<forall>h. ob_kind ob = Derived h \<longrightarrow> fresh s h"
proof -
  have "\<forall>i ob. obs_at t i = Some ob \<longrightarrow>
        (\<exists>ob0. obs_at s i = Some ob0 \<and> rx_obs_gens t ! i = rx_obs_gens s ! i \<and> ob_kind ob = ob_kind ob0 \<and>
           (ob_closure ob = None \<longleftrightarrow> ob_closure ob0 = None)) \<or>
        ob_closure ob \<noteq> None \<and> (i < length (rx_observers s) \<longrightarrow> rx_obs_gens s ! i < rx_obs_gens t ! i) \<and>
        (\<forall>h. ob_kind ob = Derived h \<longrightarrow> fresh s h)"
    using assms(1) by (simp add: later_def)
  from this [rule_format, OF assms(2)] show thesis
    using that by (elim disjE exE conjE) simp_all
qed

lemma later_trans:
  assumes a: "later s t" and b: "later t u"
  shows "later s u"
  unfolding later_def
proof (intro conjI allI impI)
  note A = laterD [OF a] and B = laterD [OF b]
  show "lent u h \<Longrightarrow> lent s h" for h using A(10) B(10) by blast
  show "rx_depth u = rx_depth s" "rx_flushing u = rx_flushing s" "length (rx_owners u) = length (rx_owners s)"
    "length (rx_reads u) = length (rx_reads s)" "length (rx_gens s) \<le> length (rx_gens u)"
    "length (rx_observers s) \<le> length (rx_observers u)"
    using A(1-5,7) B(1-5,7) by simp_all
  show "rx_gens s ! d \<le> rx_gens u ! d" if "d < length (rx_gens s)" for d
    using A(5) A(6) [OF that] B(6) [of d] that by linarith
  show "value_at u d = None" if "d < length (rx_gens s)" "rx_gens u ! d = rx_gens s ! d \<and> value_at s d = None" for d
    using A(5) A(6,9) [OF that(1)] B(6,9) [of d] that by simp
  show og: "rx_obs_gens s ! i \<le> rx_obs_gens u ! i" if "i < length (rx_observers s)" for i
    using A(7) A(8) [OF that] B(8) [of i] that by linarith
  fix i ob assume ob: "obs_at u i = Some ob"
  show "(\<exists>ob0. obs_at s i = Some ob0 \<and> rx_obs_gens u ! i = rx_obs_gens s ! i \<and> ob_kind ob = ob_kind ob0 \<and>
           (ob_closure ob = None \<longleftrightarrow> ob_closure ob0 = None)) \<or>
        ob_closure ob \<noteq> None \<and> (i < length (rx_observers s) \<longrightarrow> rx_obs_gens s ! i < rx_obs_gens u ! i) \<and>
        (\<forall>h. ob_kind ob = Derived h \<longrightarrow> fresh s h)"
  proof (cases rule: later_obs [OF b ob])
    case (1 ob1)
    show ?thesis
    proof (cases rule: later_obs [OF a 1(1)])
      case (1 ob0)
      then show ?thesis using \<open>rx_obs_gens u ! i = rx_obs_gens t ! i\<close> \<open>ob_kind ob = ob_kind ob1\<close>
          \<open>(ob_closure ob = None) = (ob_closure ob1 = None)\<close> by auto
    next
      case 2
      then show ?thesis using 1 by auto
    qed
  next
    case 2
    have "rx_obs_gens s ! i < rx_obs_gens u ! i" if "i < length (rx_observers s)"
      using A(7) A(8) [OF that] 2(2) that by linarith
    then show ?thesis using 2(1,3) fresh_back [OF a] by blast
  qed
qed

text \<open>What a step needs to show when it only keeps or removes observers.\<close>

lemma later_same:
  assumes "rx_depth t = rx_depth s" and "rx_flushing t = rx_flushing s"
    and "length (rx_owners t) = length (rx_owners s)" and "length (rx_reads t) = length (rx_reads s)"
    and "rx_gens t = rx_gens s" and "rx_obs_gens t = rx_obs_gens s" and "length (rx_observers t) = length (rx_observers s)"
    and "\<And>d. value_at s d = None \<Longrightarrow> value_at t d = None"
    and "\<And>i ob. obs_at t i = Some ob \<Longrightarrow> \<exists>ob0. obs_at s i = Some ob0 \<and> ob_kind ob = ob_kind ob0 \<and>
           (ob_closure ob = None \<longleftrightarrow> ob_closure ob0 = None)"
    and "\<And>h. lent t h \<Longrightarrow> lent s h"
  shows "later s t"
  using assms unfolding later_def by simp

end
