(* ===== verification/ReactiveSteps.thy ===== *)
theory ReactiveSteps
  imports ReactiveInv
begin

text \<open>Each primitive step of a scope keeps the invariant and is a step in the sense of \<open>later\<close>.\<close>

section \<open>Accessors\<close>

lemma signal_value_alt:
  "shape s \<Longrightarrow> signal_value s h =
     (if sg_slot h < length (rx_gens s) \<and> rx_gens s ! sg_slot h = sg_gen h
      then (case value_at s (sg_slot h) of None \<Rightarrow> Inl Disposed_Signal | Some cell \<Rightarrow> Inr cell)
      else Inl Disposed_Signal)"
  by (simp add: signal_value_def value_at_def shape_def Let_def)

lemma read_signal_Inr:
  assumes "shape s"
  shows "read_signal s h = Inr v \<longleftrightarrow>
    sg_slot h < length (rx_gens s) \<and> rx_gens s ! sg_slot h = sg_gen h \<and> value_at s (sg_slot h) = Some (Held v)"
  by (auto simp: read_signal_def signal_value_alt [OF assms] split: option.splits cell.splits)

lemma signal_value_same:
  "shape s \<Longrightarrow> shape t \<Longrightarrow> length (rx_gens t) = length (rx_gens s) \<Longrightarrow> rx_gens t ! sg_slot h = rx_gens s ! sg_slot h \<Longrightarrow>
   value_at t (sg_slot h) = value_at s (sg_slot h) \<Longrightarrow> signal_value t h = signal_value s h"
  by (simp add: signal_value_alt)

lemma shown_same:
  "signal_value t h = signal_value s h \<Longrightarrow> read_signal t h = read_signal s h"
  "signal_value t h = signal_value s h \<Longrightarrow> seen t h = seen s h"
  "signal_value t h = signal_value s h \<Longrightarrow> lent t h = lent s h"
  by (simp_all add: read_signal_def seen_def lent_def)

lemma gone_alt:
  assumes "shape s"
  shows "gone s h \<longleftrightarrow> given s h \<and> (rx_gens s ! sg_slot h \<noteq> sg_gen h \<or> value_at s (sg_slot h) = None)"
  by (auto simp: gone_def given_def signal_value_alt [OF assms] split: option.splits)

lemma lent_alt:
  assumes "shape s"
  shows "lent s h \<longleftrightarrow> sg_slot h < length (rx_gens s) \<and> rx_gens s ! sg_slot h = sg_gen h \<and>
    (\<exists>v. value_at s (sg_slot h) = Some (Lent v))"
  by (auto simp: lent_def signal_value_alt [OF assms] split: option.splits)

text \<open>When the same slots are taken under the same generations, the same handles are disposed.\<close>

lemma gone_same:
  "shape s \<Longrightarrow> shape t \<Longrightarrow> rx_gens t = rx_gens s \<Longrightarrow> (\<And>d. value_at s d = None \<Longrightarrow> value_at t d = None) \<Longrightarrow> gone s h \<Longrightarrow> gone t h"
  by (auto simp: gone_alt given_def)

lemma value_at_range: "value_at s d \<noteq> None \<Longrightarrow> d < length (rx_values s)"
  by (simp add: value_at_def split: if_splits)

lemma output_of_Some: "output_of s i = Some h \<longleftrightarrow> (\<exists>ob. obs_at s i = Some ob \<and> ob_kind ob = Derived h)"
  by (auto simp: output_of_def split: option.splits reaction_kind.splits)

lemma is_output_iff: "is_output s d \<longleftrightarrow> (\<exists>i h. output_of s i = Some h \<and> sg_slot h = d)"
proof -
  have "is_output s d \<longleftrightarrow> (\<exists>x \<in> set (rx_observers s). \<exists>ob h. x = Some ob \<and> ob_kind ob = Derived h \<and> sg_slot h = d)"
    unfolding is_output_def list_ex_iff by (intro bex_cong refl) (auto split: option.splits reaction_kind.splits)
  also have "\<dots> \<longleftrightarrow> (\<exists>i h. output_of s i = Some h \<and> sg_slot h = d)"
    unfolding output_of_Some obs_at_def in_set_conv_nth Bex_def by (simp split: if_splits) blast
  finally show ?thesis .
qed

lemma subs_okD:
  assumes "subs_ok s"
  shows "obs_at s i = Some ob \<Longrightarrow> d \<in> ob_deps ob \<Longrightarrow> value_at s d \<noteq> None"
    and "obs_at s i = Some ob \<Longrightarrow> d \<in> ob_deps ob \<Longrightarrow> i \<in> rx_subs s ! d"
    and "d < length (rx_values s) \<Longrightarrow> i \<in> rx_subs s ! d \<Longrightarrow> \<exists>ob. obs_at s i = Some ob \<and> d \<in> ob_deps ob"
  using assms unfolding subs_ok_def by blast+

lemma subs_empty: "subs_ok s \<Longrightarrow> d < length (rx_values s) \<Longrightarrow> value_at s d = None \<Longrightarrow> rx_subs s ! d = {}"
  using subs_okD by blast

text \<open>The parts of the invariant that only look at who owns what, and at what is live.\<close>

lemma owners_ok_mono:
  assumes "owners_ok s" and "owner_at t = owner_at s"
    and "\<And>d. value_at s d \<noteq> None \<Longrightarrow> value_at t d \<noteq> None" and "length (rx_observers s) \<le> length (rx_observers t)"
  shows "owners_ok t"
  using assms(1,3,4) unfolding owners_ok_def owner_live_def assms(2) by (meson less_le_trans)

lemma reads_ok_mono:
  "captures_ok s \<Longrightarrow> rx_reads t = rx_reads s \<Longrightarrow> (\<And>d. value_at s d \<noteq> None \<Longrightarrow> value_at t d \<noteq> None) \<Longrightarrow> captures_ok t"
  by (simp add: captures_ok_def)

text \<open>A step that leaves cells, observers and owners alone.\<close>

lemma scope_ok_cong:
  assumes ok: "scope_ok body X s"
    and same: "rx_values t = rx_values s" "rx_gens t = rx_gens s" "rx_subs t = rx_subs s" "rx_revs t = rx_revs s"
      "rx_observers t = rx_observers s" "rx_obs_gens t = rx_obs_gens s" "rx_free_values t = rx_free_values s"
      "rx_free_observers t = rx_free_observers s" "owner_at t = owner_at s"
    and d: "rx_dirty t - Y = rx_dirty s - Y" "rx_dirty t \<subseteq> rx_dirty s"
    and r: "captures_ok t"
  shows "scope_ok body (X \<union> Y) t"
proof -
  have v: "value_at t = value_at s" and o: "obs_at t = obs_at s" by (auto simp: value_at_def obs_at_def same)
  note cells = same_cells [OF same(1,2)]
  have c: "current body t i \<longleftrightarrow> current body s i" for i
    unfolding current_def o cells(2) fits_same [OF same(1,2)] by (rule refl)
  show ?thesis
    unfolding scope_ok_def
  proof (intro conjI allI impI)
    show "shape t" "free_ok t" "subs_ok t" "dirty_ok t" "outputs_ok t"
      using scope_okD(1-4,7) [OF ok] d(2)
      by (auto simp: shape_def free_ok_def subs_ok_def dirty_ok_def outputs_ok_def output_of_def cells(4,5) v o same)
    show "owners_ok t" by (rule owners_ok_mono [OF scope_okD(6) [OF ok] same(9)]) (simp_all add: v same)
    show "current body t i" if "i \<notin> X \<union> Y \<and> i \<notin> rx_dirty t" for i
      unfolding c by (rule scope_okD(8) [OF ok]) (use that d(1) in auto)
  qed (rule r)
qed

lemma owner_at_other:
  "owner_at (s\<lparr>rx_dirty := x1\<rparr>) = owner_at s" "owner_at (s\<lparr>rx_depth := x2\<rparr>) = owner_at s"
  "owner_at (s\<lparr>rx_flushing := x3\<rparr>) = owner_at s" "owner_at (s\<lparr>rx_reads := x4\<rparr>) = owner_at s"
  by (rule ext, case_tac x, simp_all add: obs_at_def)+

lemma flags_simps:
  "obs_at (s\<lparr>rx_depth := n\<rparr>) = obs_at s" "obs_at (s\<lparr>rx_flushing := b\<rparr>) = obs_at s" "obs_at (s\<lparr>rx_dirty := D\<rparr>) = obs_at s"
  "fresh (s\<lparr>rx_depth := n\<rparr>) = fresh s" "fresh (s\<lparr>rx_flushing := b\<rparr>) = fresh s" "fresh (s\<lparr>rx_dirty := D\<rparr>) = fresh s"
  "value_at (s\<lparr>rx_depth := n\<rparr>) = value_at s" "value_at (s\<lparr>rx_flushing := b\<rparr>) = value_at s" "value_at (s\<lparr>rx_dirty := D\<rparr>) = value_at s"
  "obs_at (s\<lparr>rx_reads := Rs\<rparr>) = obs_at s" "value_at (s\<lparr>rx_reads := Rs\<rparr>) = value_at s"
  "lent (s\<lparr>rx_depth := n\<rparr>) = lent s" "lent (s\<lparr>rx_flushing := b\<rparr>) = lent s" "lent (s\<lparr>rx_dirty := D\<rparr>) = lent s"
  "lent (s\<lparr>rx_reads := Rs\<rparr>) = lent s"
  by (simp_all add: obs_at_def value_at_def fresh_def given_def lent_def signal_value_def Let_def fun_eq_iff)

lemma reads_flags:
  "captures_ok (s\<lparr>rx_depth := n\<rparr>) = captures_ok s" "captures_ok (s\<lparr>rx_flushing := b\<rparr>) = captures_ok s" "captures_ok (s\<lparr>rx_dirty := D\<rparr>) = captures_ok s"
  by (simp_all add: captures_ok_def flags_simps)

lemma later_depth: "later s t \<Longrightarrow> later (s\<lparr>rx_depth := n\<rparr>) (t\<lparr>rx_depth := n\<rparr>)"
  and later_flushing: "later s t \<Longrightarrow> later (s\<lparr>rx_flushing := b\<rparr>) (t\<lparr>rx_flushing := b\<rparr>)"
  unfolding later_def flags_simps by simp_all

lemma scope_ok_flags: "scope_ok body X s \<Longrightarrow> scope_ok body X (s\<lparr>rx_depth := n\<rparr>)"
    "scope_ok body X s \<Longrightarrow> scope_ok body X (s\<lparr>rx_flushing := b\<rparr>)"
  using scope_ok_cong [of body X s "s\<lparr>rx_depth := n\<rparr>" "{}"] scope_ok_cong [of body X s "s\<lparr>rx_flushing := b\<rparr>" "{}"]
    scope_okD(5) [of body X s] by (simp_all add: owner_at_other reads_flags)

lemma scope_ok_clean: "scope_ok body X s \<Longrightarrow> scope_ok body (insert i X) (s\<lparr>rx_dirty := rx_dirty s - {i}\<rparr>)"
  using scope_ok_cong [of body X s "s\<lparr>rx_dirty := rx_dirty s - {i}\<rparr>" "{i}"] scope_okD(5) [of body X s]
  by (auto simp: owner_at_other reads_flags)


section \<open>Signals\<close>

lemma note_read_ok:
  assumes ok: "scope_ok body X s" and d: "value_at s d \<noteq> None"
  shows "scope_ok body X (note_read d s)" and "later s (note_read d s)"
proof -
  have "scope_ok body X (note_read d s) \<and> later s (note_read d s)"
  proof (cases "rx_reads s")
    case Nil
    then show ?thesis using ok later_refl by (simp add: note_read_def)
  next
    case (Cons R Rs)
    define R' where "R' = (if d \<in> fst ` set R then R else (d, rx_revs s ! d) # R)"
    have t: "note_read d s = s\<lparr>rx_reads := R' # Rs\<rparr>" by (simp add: note_read_def Cons R'_def)
    have "scope_ok body (X \<union> {}) (s\<lparr>rx_reads := R' # Rs\<rparr>)"
    proof (rule scope_ok_cong [OF ok])
      show "captures_ok (s\<lparr>rx_reads := R' # Rs\<rparr>)"
        using scope_okD(5) [OF ok] d by (auto simp: captures_ok_def flags_simps Cons R'_def split: if_splits)
    qed (simp_all add: owner_at_other)
    moreover have "later s (s\<lparr>rx_reads := R' # Rs\<rparr>)"
      by (rule later_same) (simp_all add: Cons flags_simps)
    ultimately show ?thesis using t by simp
  qed
  then show "scope_ok body X (note_read d s)" "later s (note_read d s)" by blast+
qed

text \<open>
  A change of the cell in a slot, and of the marks of those subscribed to it: all of them are marked, or the slot
  shows what it did.
\<close>

lemma cell_ok:
  assumes ok: "scope_ok body X s" and d: "d < length (rx_values s)" and M: "M \<subseteq> rx_subs s ! d"
    and len: "length vs = length (rx_values s)" "length rs = length (rx_revs s)"
    and same: "\<And>x. x \<noteq> d \<Longrightarrow> vs ! x = rx_values s ! x" "vs ! d = None \<longleftrightarrow> rx_values s ! d = None"
  defines "t \<equiv> s\<lparr>rx_values := vs, rx_revs := rs, rx_dirty := rx_dirty s \<union> M\<rparr>"
  assumes dep: "M = rx_subs s ! d \<or> (\<forall>h. seen t h = seen s h)"
    and out: "\<And>i ob h w. i \<notin> X \<Longrightarrow> obs_at s i = Some ob \<Longrightarrow> ob_closure ob \<noteq> None \<Longrightarrow> ob_kind ob = Derived h \<Longrightarrow> sg_slot h = d \<Longrightarrow>
      read_signal t h = Inr w \<Longrightarrow> read_signal s h = Inr w"
    and free: "\<And>i h. output_of s i = Some h \<Longrightarrow> sg_slot h = d \<Longrightarrow> lent t h \<Longrightarrow> lent s h"
  shows "scope_ok body X t"
proof -
  note inv = scope_okD [OF ok]
  have f: "rx_gens t = rx_gens s" "rx_subs t = rx_subs s" "rx_observers t = rx_observers s" "rx_obs_gens t = rx_obs_gens s"
    "rx_free_values t = rx_free_values s" "rx_free_observers t = rx_free_observers s" "rx_reads t = rx_reads s"
    "rx_dirty t = rx_dirty s \<union> M" "length (rx_values t) = length (rx_values s)" "length (rx_revs t) = length (rx_revs s)"
    using len by (simp_all add: t_def)
  have va: "value_at t x = value_at s x" if "x \<noteq> d" for x using same(1) [OF that] len by (simp add: value_at_def t_def)
  have o: "obs_at t = obs_at s" by (auto simp: obs_at_def t_def)
  have ow: "owner_at t = owner_at s"
  proof
    show "owner_at t p = owner_at s p" for p by (cases p) (simp_all add: o, simp_all add: t_def)
  qed
  have live: "value_at t x = None \<longleftrightarrow> value_at s x = None" for x
    using va [of x] same(2) d len by (cases "x = d") (simp_all add: value_at_def t_def)
  have sh: "shape t" using inv(1) by (simp add: shape_def f)
  have shown: "signal_value t h = signal_value s h" if "sg_slot h \<noteq> d" for h
    by (rule signal_value_same [OF inv(1) sh]) (simp_all add: f va that)
  show ?thesis
    unfolding scope_ok_def
  proof (intro conjI allI impI)
    show "free_ok t" using inv(2) live by (simp add: free_ok_def f o)
    show "subs_ok t" using inv(3) unfolding subs_ok_def f o live by blast
    have "\<exists>ob. obs_at s i = Some ob \<and> d \<in> ob_deps ob" if "i \<in> M" for i
      using inv(3) d M that unfolding subs_ok_def by blast
    then show "dirty_ok t" using inv(4) by (auto simp: dirty_ok_def f o)
    show "captures_ok t" by (rule reads_ok_mono [OF inv(5)]) (simp_all add: f live)
    show "owners_ok t" by (rule owners_ok_mono [OF inv(6) ow]) (simp_all add: f live)
    have "\<not> lent t h" if "output_of s i = Some h" for i h
    proof (cases "sg_slot h = d")
      case True
      then show ?thesis using free [OF that] inv(7) that by (auto simp: outputs_ok_def)
    next
      case False
      then show ?thesis using shown_same(3) [OF shown] inv(7) that by (simp add: outputs_ok_def)
    qed
    then show "outputs_ok t" using inv(7) by (simp add: outputs_ok_def output_of_def given_def f o)
    fix i assume i: "i \<notin> X \<and> i \<notin> rx_dirty t"
    show "current body t i"
      unfolding current_def o
    proof (intro allI impI)
      fix ob c h w
      assume a: "obs_at s i = Some ob \<and> ob_closure ob = Some c \<and> ob_kind ob = Derived h \<and> computes body c \<and> read_signal t h = Inr w"
      have "read_signal s h = Inr w"
      proof (cases "sg_slot h = d")
        case True
        then show ?thesis using out [of i ob h w] a i by auto
      next
        case False
        then show ?thesis using shown_same(1) [OF shown] a by simp
      qed
      then have fit: "fits s (ob_deps ob) (body c) w" using inv(8) [of i] a i unfolding current_def f(8) by auto
      have "seen t h' = seen s h'" if h': "sg_slot h' \<in> ob_deps ob" for h'
        using dep
      proof
        assume "M = rx_subs s ! d"
        then have "d \<notin> ob_deps ob" using inv(3) a i unfolding subs_ok_def f(8) by blast
        then have "sg_slot h' \<noteq> d" using h' by blast
        then show ?thesis using shown_same(2) [OF shown] by simp
      qed blast
      then show "fits t (ob_deps ob) (body c) w"
        by (rule fits_mono [OF fit _ gone_same [OF inv(1) sh f(1)]]) (simp_all add: live)
    qed
  qed (rule sh)
qed

text \<open>A write to a cell, with the marks it leaves.\<close>

lemma write_value_at:
  assumes "value_at s d \<noteq> None"
  shows "value_at (mark_changed d (store_value d v s)) x = (if x = d then Some (Held v) else value_at s x)"
  using value_at_range [OF assms] by (simp add: value_at_def mark_changed_def store_value_def)

lemma write_lent:
  assumes "shape s" and "value_at s d \<noteq> None" and "lent (mark_changed d (store_value d v s)) h"
  shows "lent s h \<and> (sg_slot h = d \<longrightarrow> rx_gens s ! d \<noteq> sg_gen h)"
proof -
  have sh: "shape (mark_changed d (store_value d v s))" "rx_gens (mark_changed d (store_value d v s)) = rx_gens s"
    using assms(1) by (simp_all add: shape_def mark_changed_def store_value_def)
  show ?thesis
    using assms(3) by (auto simp: lent_alt [OF sh(1)] lent_alt [OF assms(1)] write_value_at [OF assms(2)] sh(2) split: if_splits)
qed

lemma write_ok:
  assumes ok: "scope_ok body X s" and d: "value_at s d \<noteq> None"
    and out: "\<And>i ob h. i \<notin> X \<Longrightarrow> obs_at s i = Some ob \<Longrightarrow> ob_closure ob \<noteq> None \<Longrightarrow> ob_kind ob = Derived h \<Longrightarrow> sg_slot h = d \<Longrightarrow>
      rx_gens s ! d \<noteq> sg_gen h"
  shows "scope_ok body X (mark_changed d (store_value d v s))" and "later s (mark_changed d (store_value d v s))"
proof -
  let ?t = "mark_changed d (store_value d v s)"
  note inv = scope_okD [OF ok]
  have dl: "d < length (rx_values s)" by (rule value_at_range [OF d])
  have e: "?t = s\<lparr>rx_values := (rx_values s)[d := Some (Held v)], rx_revs := (rx_revs s)[d := Suc (rx_revs s ! d)],
      rx_dirty := rx_dirty s \<union> rx_subs s ! d\<rparr>"
    by (simp add: mark_changed_def store_value_def)
  note va = write_value_at [OF d, of v] and lt = write_lent [OF inv(1) d, of v]
  have sh: "shape ?t" using inv(1) by (simp add: shape_def e)
  have g: "rx_gens ?t = rx_gens s" by (simp add: e)
  have o: "obs_at ?t = obs_at s" by (auto simp: obs_at_def e)
  show "later s ?t"
    by (rule later_same) (use d in \<open>auto simp: o va lt\<close>, simp_all add: e)
  show "scope_ok body X ?t"
    unfolding e
  proof (rule cell_ok [OF ok dl], unfold e [symmetric])
    show "read_signal s h = Inr w"
      if "i \<notin> X" "obs_at s i = Some ob" "ob_closure ob \<noteq> None" "ob_kind ob = Derived h" "sg_slot h = d" "read_signal ?t h = Inr w" for i ob h w
      using out [OF that(1-5)] that(5,6) by (simp add: read_signal_Inr [OF sh] g)
  qed (use d dl lt in \<open>simp_all add: value_at_def\<close>)
qed

text \<open>A cell is mutably borrowed; later the change is marked, whatever is in the slot by then.\<close>

lemma lend_ok:
  assumes ok: "scope_ok body {} s" and h: "signal_value s h = Inr (Held v)" and out: "\<not> is_output s (sg_slot h)"
  shows "scope_ok body {} (lend_value (sg_slot h) v s)"
proof -
  let ?d = "sg_slot h" and ?t = "lend_value (sg_slot h) v s"
  note inv = scope_okD [OF ok]
  have e: "?t = s\<lparr>rx_values := (rx_values s)[?d := Some (Lent v)], rx_revs := rx_revs s, rx_dirty := rx_dirty s \<union> {}\<rparr>"
    by (simp add: lend_value_def)
  have v: "value_at s ?d = Some (Held v)"
    using h by (auto simp: signal_value_alt [OF inv(1)] split: if_splits option.splits)
  then have dl: "?d < length (rx_values s)" by (intro value_at_range) simp
  have va: "value_at ?t x = (if x = ?d then Some (Lent v) else value_at s x)" for x
    using dl by (simp add: value_at_def lend_value_def)
  have sh: "shape ?t" using inv(1) by (simp add: shape_def lend_value_def)
  have g: "rx_gens ?t = rx_gens s" by (simp add: lend_value_def)
  have "seen ?t x = seen s x" for x
    by (simp add: seen_def signal_value_alt [OF sh] signal_value_alt [OF inv(1)] va v g)
  moreover have "\<not> (\<exists>i. output_of s i = Some x \<and> sg_slot x = ?d)" for x
    using out by (auto simp: is_output_iff)
  ultimately show ?thesis
    unfolding e
    by (intro cell_ok [OF ok dl], unfold e [symmetric]) (use dl v in \<open>auto simp: value_at_def output_of_Some\<close>)
qed

lemma mark_ok:
  assumes ok: "scope_ok body X s" and d: "d < length (rx_values s)"
  shows "scope_ok body X (mark_changed d s)"
proof -
  have e: "mark_changed d s = s\<lparr>rx_values := rx_values s, rx_revs := (rx_revs s)[d := Suc (rx_revs s ! d)],
      rx_dirty := rx_dirty s \<union> rx_subs s ! d\<rparr>"
    by (simp add: mark_changed_def)
  have "rx_values (mark_changed d s) = rx_values s" "rx_gens (mark_changed d s) = rx_gens s" by (simp_all add: mark_changed_def)
  note cells = same_cells [OF this]
  show ?thesis
    unfolding e by (rule cell_ok [OF ok d], unfold e [symmetric]) (simp_all add: cells)
qed


section \<open>Owners\<close>

text \<open>One owner changes, comes or goes.\<close>

lemma owners_ok_upd:
  assumes ok: "owners_ok s" and t: "owner_at t = (owner_at s)(p := x)"
    and w: "\<And>w. x = Some w \<Longrightarrow> owner_live t w"
    and dis: "\<And>w q w'. x = Some w \<Longrightarrow> q \<noteq> p \<Longrightarrow> owner_at s q = Some w' \<Longrightarrow> set (ow_values w) \<inter> set (ow_values w') = {}"
    and mono: "\<And>d. value_at s d \<noteq> None \<Longrightarrow> value_at t d \<noteq> None" "length (rx_observers s) \<le> length (rx_observers t)"
  shows "owners_ok t"
  unfolding owners_ok_def
proof (intro conjI allI impI)
  have k: "owner_live t w" if "owner_at s q = Some w" for q w
    using ok that mono unfolding owners_ok_def owner_live_def by (meson less_le_trans)
  show "owner_live t v" if "owner_at t q = Some v" for q v
    using that k [of q v] w [of v] unfolding t by (auto split: if_splits)
  fix q q' v v'
  assume a: "q \<noteq> q' \<and> owner_at t q = Some v \<and> owner_at t q' = Some v'"
  consider "q = p" | "q' = p" "q \<noteq> p" | "q \<noteq> p" "q' \<noteq> p" by blast
  then show "set (ow_values v) \<inter> set (ow_values v') = {}"
  proof cases
    case 1
    then show ?thesis using a dis [of v q' v'] unfolding t by auto
  next
    case 2
    then show ?thesis using a dis [of v' q v] unfolding t by auto
  next
    case 3
    then show ?thesis using a ok unfolding t owners_ok_def by auto
  qed
qed

lemma owners_okD:
  assumes "owners_ok s" and "owner_at s p = Some w"
  shows "owner_live s w" and "q \<noteq> p \<Longrightarrow> owner_at s q = Some w' \<Longrightarrow> set (ow_values w) \<inter> set (ow_values w') = {}"
  using assms unfolding owners_ok_def by blast+

lemma owned_live: "owners_ok s \<Longrightarrow> owner_at s p = Some w \<Longrightarrow> d \<in> set (ow_values w) \<Longrightarrow> value_at s d \<noteq> None"
  by (auto simp: owners_ok_def owner_live_def)

lemma owner_at_top:
  assumes "rx_owners s = w # ws"
  shows "owner_at s (On_Stack (length ws)) = Some w"
    and "owner_at (s\<lparr>rx_owners := w' # ws\<rparr>) = (owner_at s)(On_Stack (length ws) := Some w')"
proof -
  show "owner_at s (On_Stack (length ws)) = Some w" by (simp add: assms nth_append)
  show "owner_at (s\<lparr>rx_owners := w' # ws\<rparr>) = (owner_at s)(On_Stack (length ws) := Some w')"
  proof
    fix p show "owner_at (s\<lparr>rx_owners := w' # ws\<rparr>) p = ((owner_at s)(On_Stack (length ws) := Some w')) p"
      by (cases p) (simp_all add: assms nth_append obs_at_def)
  qed
qed

lemma owner_at_values:
  "rx_owners t = rx_owners s \<Longrightarrow> rx_observers t = rx_observers s \<Longrightarrow> rx_regions t = rx_regions s \<Longrightarrow> owner_at t = owner_at s"
  by (rule ext, case_tac x) (simp_all add: obs_at_def)


section \<open>Allocation\<close>

lemma allocate_cell:
  assumes ok: "scope_ok body X s" and a: "allocate cell s = (r, t)"
  obtains d u where "r = Ok \<lparr>sg_slot = d, sg_gen = rx_gens u ! d\<rparr>" "t = own_value d u"
    "value_at s d = None" "value_at u = (value_at s)(d := Some cell)" "rx_observers u = rx_observers s" "rx_owners u = rx_owners s"
    "rx_regions u = rx_regions s" "rx_obs_gens u = rx_obs_gens s" "rx_reads u = rx_reads s" "rx_dirty u = rx_dirty s"
    "rx_depth u = rx_depth s" "rx_flushing u = rx_flushing s" "rx_free_observers u = rx_free_observers s"
    "shape u" "length (rx_values s) \<le> length (rx_values u)" "d < length (rx_values u)"
    "\<And>x. x < length (rx_values s) \<Longrightarrow> x \<noteq> d \<Longrightarrow> rx_gens u ! x = rx_gens s ! x"
    "d < length (rx_values s) \<Longrightarrow> rx_gens s ! d < rx_gens u ! d"
    "\<And>x. x < length (rx_values u) \<Longrightarrow> x \<noteq> d \<Longrightarrow> x < length (rx_values s) \<and> rx_subs u ! x = rx_subs s ! x"
    "rx_subs u ! d = {}" "distinct (rx_free_values u)" "set (rx_free_values u) = set (rx_free_values s) - {d}"
proof (cases "rx_free_values s")
  case Nil
  define u where "u = s\<lparr>rx_values := rx_values s @ [Some cell], rx_subs := rx_subs s @ [{}], rx_revs := rx_revs s @ [0], rx_gens := rx_gens s @ [0]\<rparr>"
  note inv = scope_okD [OF ok]
  have l: "length (rx_gens s) = length (rx_values s)" "length (rx_subs s) = length (rx_values s)" using inv(1) by (simp_all add: shape_def)
  have "value_at u = (value_at s)(length (rx_values s) := Some cell)"
    by (auto simp: value_at_def u_def nth_append fun_eq_iff)
  then show thesis
    using a Nil inv(1) l
    by (intro that [of "length (rx_values s)" u])
      (auto simp: allocate_def u_def Let_def shape_def value_at_def nth_append)
next
  case (Cons d ds)
  define u where "u = s\<lparr>rx_free_values := ds, rx_values := (rx_values s)[d := Some cell], rx_gens := (rx_gens s)[d := Suc (rx_gens s ! d)]\<rparr>"
  note inv = scope_okD [OF ok]
  have l: "length (rx_gens s) = length (rx_values s)" "length (rx_subs s) = length (rx_values s)" using inv(1) by (simp_all add: shape_def)
  have d: "d < length (rx_values s)" "value_at s d = None" "d \<notin> set ds" "distinct ds" using inv(2) Cons by (auto simp: free_ok_def)
  have "rx_subs s ! d = {}" by (rule subs_empty [OF inv(3) d(1,2)])
  moreover have "value_at u = (value_at s)(d := Some cell)" using d(1) by (auto simp: value_at_def u_def fun_eq_iff)
  ultimately show thesis
    using a Cons inv(1) l d
    by (intro that [of d u]) (auto simp: allocate_def u_def Let_def shape_def)
qed


lemma allocate_ok:
  assumes ok: "scope_ok body X s" and a: "allocate cell s = (r, t)" and cell: "\<And>v. cell \<noteq> Lent v"
  obtains h where "r = Ok h" "scope_ok body X t" "later s t" "fresh s h" "given t h"
    "value_at t (sg_slot h) = Some cell" "obs_at t = obs_at s" "rx_dirty t = rx_dirty s" "\<not> lent t h"
proof -
  obtain d u where r: "r = Ok \<lparr>sg_slot = d, sg_gen = rx_gens u ! d\<rparr>" and t: "t = own_value d u"
    and d: "value_at s d = None" and v: "value_at u = (value_at s)(d := Some cell)"
    and same: "rx_observers u = rx_observers s" "rx_owners u = rx_owners s"
    "rx_regions u = rx_regions s" "rx_obs_gens u = rx_obs_gens s" "rx_reads u = rx_reads s" "rx_dirty u = rx_dirty s"
    "rx_depth u = rx_depth s" "rx_flushing u = rx_flushing s" "rx_free_observers u = rx_free_observers s"
    and sh: "shape u" and len: "length (rx_values s) \<le> length (rx_values u)" "d < length (rx_values u)"
    and g: "\<And>x. x < length (rx_values s) \<Longrightarrow> x \<noteq> d \<Longrightarrow> rx_gens u ! x = rx_gens s ! x"
    "d < length (rx_values s) \<Longrightarrow> rx_gens s ! d < rx_gens u ! d"
    and subs: "\<And>x. x < length (rx_values u) \<Longrightarrow> x \<noteq> d \<Longrightarrow> x < length (rx_values s) \<and> rx_subs u ! x = rx_subs s ! x"
    "rx_subs u ! d = {}"
    and free: "distinct (rx_free_values u)" "set (rx_free_values u) = set (rx_free_values s) - {d}"
    using allocate_cell [OF ok a] by metis
  note inv = scope_okD [OF ok]
  have lens: "length (rx_gens s) = length (rx_values s)" "length (rx_gens u) = length (rx_values u)"
    using inv(1) sh by (simp_all add: shape_def)
  have tu: "rx_values t = rx_values u" "rx_observers t = rx_observers s" "rx_regions t = rx_regions s" "rx_obs_gens t = rx_obs_gens s"
    "rx_reads t = rx_reads s" "rx_dirty t = rx_dirty s" "rx_depth t = rx_depth s" "rx_flushing t = rx_flushing s"
    "rx_free_observers t = rx_free_observers s" "rx_free_values t = rx_free_values u" "rx_gens t = rx_gens u" "rx_subs t = rx_subs u"
    "rx_revs t = rx_revs u" "length (rx_owners t) = length (rx_owners s)"
    by (cases "rx_owners u"; simp add: t own_value_def same)+
  have va: "value_at t = (value_at s)(d := Some cell)" unfolding v [symmetric] by (simp add: value_at_def tu fun_eq_iff)
  have ob: "obs_at t = obs_at s" by (auto simp: obs_at_def tu)
  have sht: "shape t" using sh by (simp add: shape_def tu same)
  have live: "value_at t x \<noteq> None" if "value_at s x \<noteq> None" for x using that va by simp
  have nd: "x \<noteq> d" if "value_at s x \<noteq> None" for x using that d by auto
  have given_old: "given t h" "sg_slot h = d \<Longrightarrow> rx_gens t ! d \<noteq> sg_gen h" if "given s h" for h
    using that g len lens by (cases "sg_slot h = d"; fastforce simp: given_def tu)+
  have shown: "signal_value t h = signal_value s h" if "sg_slot h \<noteq> d" "sg_slot h < length (rx_values s)" for h
    unfolding signal_value_alt [OF inv(1)] signal_value_alt [OF sht]
    using that g(1) len lens by (simp add: va tu)
  note read = shown_same(1) [OF shown] and seen = shown_same(2) [OF shown]
  have lt: "lent s h" if "lent t h" for h
  proof -
    have n: "sg_slot h \<noteq> d" using that cell by (auto simp: lent_alt [OF sht] va)
    then have "sg_slot h < length (rx_values s)"
      using that v va value_at_range [of s "sg_slot h"] by (auto simp: lent_alt [OF sht] split: if_splits)
    then show ?thesis using that shown_same(3) [OF shown [OF n]] by simp
  qed
  have lost: "gone t h" if "gone s h" for h
  proof (cases "sg_slot h = d")
    case True
    then show ?thesis using that given_old [of h] by (simp add: gone_alt [OF sht] gone_alt [OF inv(1)])
  next
    case False
    then show ?thesis
      using that given_old(1) [of h] g(1) [of "sg_slot h"] lens
      by (auto simp: gone_alt [OF sht] gone_alt [OF inv(1)] va tu given_def)
  qed
  have us: "owner_at u = owner_at s" by (rule owner_at_values) (simp_all add: same)
  have "owners_ok u"
    by (rule owners_ok_mono [OF inv(6) us]) (simp_all add: v same)
  have "owners_ok t"
  proof (cases "rx_owners u")
    case Nil
    then show ?thesis using \<open>owners_ok u\<close> by (simp add: t own_value_def)
  next
    case (Cons w ws)
    have e: "t = u\<lparr>rx_owners := w\<lparr>ow_values := ow_values w @ [d]\<rparr> # ws\<rparr>" by (simp add: t own_value_def Cons)
    note top = owner_at_top [OF Cons]
    have notd: "d \<notin> set (ow_values w')" if "owner_at u q = Some w'" for q w'
      using owned_live [OF inv(6)] that d us by metis
    have wok: "owner_live u w" by (rule owners_okD(1) [OF \<open>owners_ok u\<close> top(1)])
    show ?thesis
    proof (rule owners_ok_upd [OF \<open>owners_ok u\<close>])
      show "owner_at t = (owner_at u)(On_Stack (length ws) := Some (w\<lparr>ow_values := ow_values w @ [d]\<rparr>))"
        unfolding e by (rule top(2))
      show "owner_live t x" if "Some (w\<lparr>ow_values := ow_values w @ [d]\<rparr>) = Some x" for x
        using that [symmetric] wok notd [OF top(1)] by (auto simp: owner_live_def va v tu same)
      show "set (ow_values x) \<inter> set (ow_values w') = {}"
        if "Some (w\<lparr>ow_values := ow_values w @ [d]\<rparr>) = Some x" "q \<noteq> On_Stack (length ws)" "owner_at u q = Some w'" for x q w'
        using that(1) [symmetric] notd [OF that(3)] owners_okD(2) [OF \<open>owners_ok u\<close> top(1) that(2,3)] by auto
    qed (simp_all add: va v tu same)
  qed
  have "scope_ok body X t"
    unfolding scope_ok_def
  proof (intro conjI allI impI)
    show "free_ok t"
      using inv(2) free len subs(1) d unfolding free_ok_def tu ob va by (auto split: if_splits)
    show "subs_ok t"
      unfolding subs_ok_def ob tu
    proof (intro conjI allI impI)
      fix i ob e assume a: "obs_at s i = Some ob \<and> e \<in> ob_deps ob"
      then have e: "value_at s e \<noteq> None" using subs_okD(1) [OF inv(3)] by blast
      then show "value_at t e \<noteq> None" by (rule live)
      have "e < length (rx_values u)" using value_at_range [OF e] len by simp
      then show "i \<in> rx_subs u ! e" using subs(1) [OF _ nd [OF e]] subs_okD(2) [OF inv(3)] a by auto
    next
      fix e i assume a: "e < length (rx_values u) \<and> i \<in> rx_subs u ! e"
      then have "e \<noteq> d" using subs(2) by auto
      then show "\<exists>ob. obs_at s i = Some ob \<and> e \<in> ob_deps ob" using a subs(1) [of e] subs_okD(3) [OF inv(3)] by simp
    qed
    show "dirty_ok t" using inv(4) by (simp add: dirty_ok_def ob tu)
    show "captures_ok t" by (rule reads_ok_mono [OF inv(5)]) (use live in \<open>simp_all add: tu\<close>)
    show "outputs_ok t"
      using inv(7) given_old(1) lt unfolding outputs_ok_def output_of_def ob by blast
    fix i assume i: "i \<notin> X \<and> i \<notin> rx_dirty t"
    show "current body t i"
      unfolding current_def ob
    proof (intro allI impI)
      fix b c h w
      assume a: "obs_at s i = Some b \<and> ob_closure b = Some c \<and> ob_kind b = Derived h \<and> computes body c \<and> read_signal t h = Inr w"
      then have gh: "given s h" using inv(7) by (auto simp: outputs_ok_def output_of_Some)
      then have "sg_slot h \<noteq> d" using given_old(2) [OF gh] a by (auto simp: read_signal_Inr [OF sht])
      then have "read_signal s h = Inr w" using a read [of h] gh lens by (simp add: given_def)
      then have "fits s (ob_deps b) (body c) w" using inv(8) [of i] a i unfolding current_def tu by blast
      moreover have "seen t h' = seen s h'" if "sg_slot h' \<in> ob_deps b" for h'
        using seen [of h'] nd value_at_range subs_okD(1) [OF inv(3)] a that by blast
      ultimately show "fits t (ob_deps b) (body c) w" using lost by (rule fits_mono)
    qed
  qed (use sht \<open>owners_ok t\<close> in auto)
  moreover have "later s t"
    unfolding later_def ob
    using g len lens lt by (auto simp: tu va)
  moreover have "\<not> lent t \<lparr>sg_slot = d, sg_gen = rx_gens u ! d\<rparr>" using cell by (auto simp: lent_alt [OF sht] va)
  moreover have "fresh s \<lparr>sg_slot = d, sg_gen = rx_gens u ! d\<rparr>" using g(2) lens by (auto simp: fresh_def given_def)
  moreover have "given t \<lparr>sg_slot = d, sg_gen = rx_gens u ! d\<rparr>" using len lens by (simp add: given_def tu)
  ultimately show thesis using that r va ob tu(6) by simp
qed

end
