(* ===== verification/ReactiveDrop.thy ===== *)
theory ReactiveDrop
  imports ReactiveSteps
begin

text \<open>
  Disposal: freeing a value, taking an observer out, and the two destructors that call each
  other. They keep the invariant, they only take away, and what they take away was owned.
\<close>

section \<open>States that only lost something\<close>

definition shrinks :: "nat set \<Rightarrow> ('v, 'c) scope_core \<Rightarrow> ('v, 'c) scope_core \<Rightarrow> bool" where
  "shrinks V s t \<longleftrightarrow>
     rx_depth t = rx_depth s \<and> rx_flushing t = rx_flushing s \<and> rx_owners t = rx_owners s \<and> rx_regions t = rx_regions s \<and>
     length (rx_reads t) = length (rx_reads s) \<and> rx_gens t = rx_gens s \<and> rx_obs_gens t = rx_obs_gens s \<and>
     length (rx_observers t) = length (rx_observers s) \<and> rx_dirty t \<subseteq> rx_dirty s \<and>
     (\<forall>d. value_at s d = None \<longrightarrow> value_at t d = None) \<and> (\<forall>h. lent t h \<longrightarrow> lent s h) \<and>
     (\<forall>i ob. obs_at t i = Some ob \<longrightarrow> (\<exists>ob0. obs_at s i = Some ob0 \<and> ob_kind ob = ob_kind ob0 \<and>
        ob_closure ob = ob_closure ob0 \<and> ob_run_owner ob = ob_run_owner ob0)) \<and>
     (\<forall>d. value_at s d \<noteq> None \<and> value_at t d = None \<longrightarrow>
        d \<in> V \<or> (\<exists>p w. owner_at s p = Some w \<and> d \<in> set (ow_values w)))"

lemma shrinksD:
  assumes "shrinks V s t"
  shows "rx_depth t = rx_depth s" "rx_flushing t = rx_flushing s" "rx_owners t = rx_owners s" "rx_regions t = rx_regions s"
    "length (rx_reads t) = length (rx_reads s)" "rx_gens t = rx_gens s" "rx_obs_gens t = rx_obs_gens s"
    "length (rx_observers t) = length (rx_observers s)" "rx_dirty t \<subseteq> rx_dirty s"
    and "obs_at t i = Some ob \<Longrightarrow> \<exists>ob0. obs_at s i = Some ob0 \<and> ob_kind ob = ob_kind ob0 \<and>
        ob_closure ob = ob_closure ob0 \<and> ob_run_owner ob = ob_run_owner ob0"
    and "value_at s d \<noteq> None \<Longrightarrow> value_at t d = None \<Longrightarrow>
        d \<in> V \<or> (\<exists>p w. owner_at s p = Some w \<and> d \<in> set (ow_values w))"
    and "value_at s d = None \<Longrightarrow> value_at t d = None" and "lent t h \<Longrightarrow> lent s h"
  using assms unfolding shrinks_def by simp_all

lemma shrinks_refl: "shrinks V s s"
  by (auto simp: shrinks_def)

lemma shrinks_owner:
  assumes "shrinks V s t" and "owner_at t p = Some w"
  shows "owner_at s p = Some w"
proof (cases p)
  case (Of_Run i)
  then obtain ob where "obs_at t i = Some ob" "ob_run_owner ob = Some w"
    using assms(2) by (auto split: option.splits)
  then show ?thesis using shrinksD(10) [OF assms(1)] Of_Run by fastforce
qed (use assms(2) shrinksD(3,4) [OF assms(1)] in \<open>auto split: if_splits\<close>)

lemma shrinks_trans:
  assumes a: "shrinks V s t" and b: "shrinks V t u"
  shows "shrinks V s u"
proof -
  have o: "\<exists>ob0. obs_at s i = Some ob0 \<and> ob_kind ob = ob_kind ob0 \<and> ob_closure ob = ob_closure ob0 \<and>
      ob_run_owner ob = ob_run_owner ob0" if "obs_at u i = Some ob" for i ob
    using shrinksD(10) [OF b that] shrinksD(10) [OF a] by metis
  have v: "d \<in> V \<or> (\<exists>p w. owner_at s p = Some w \<and> d \<in> set (ow_values w))"
    if "value_at s d \<noteq> None" "value_at u d = None" for d
  proof (cases "value_at t d = None")
    case True
    then show ?thesis using shrinksD(11) [OF a that(1)] by blast
  next
    case False
    then show ?thesis using shrinksD(11) [OF b False that(2)] shrinks_owner [OF a] by blast
  qed
  show ?thesis
    unfolding shrinks_def
    using shrinksD(1-9,12,13) [OF a] shrinksD(1-9,12,13) [OF b] o v by auto
qed

lemma shrinks_mono: "shrinks V s t \<Longrightarrow> V \<subseteq> W \<Longrightarrow> shrinks W s t"
  unfolding shrinks_def by blast

lemma shrinks_later:
  assumes "shrinks V s t"
  shows "later s t"
proof (rule later_same)
  show "\<exists>ob0. obs_at s i = Some ob0 \<and> ob_kind ob = ob_kind ob0 \<and> (ob_closure ob = None \<longleftrightarrow> ob_closure ob0 = None)"
    if "obs_at t i = Some ob" for i ob
    using shrinksD(10) [OF assms that] by auto
qed (simp_all add: shrinksD(1-8,12,13) [OF assms])

text \<open>An owner that is in nobody's hands keeps its slots while others are dropped.\<close>

lemma shrinks_apart:
  assumes s: "shrinks V s t" and w: "owner_live s w" and a: "apart s w" and V: "V \<inter> set (ow_values w) = {}"
  shows "owner_live t w" and "apart t w"
proof -
  have "value_at t d \<noteq> None" if "d \<in> set (ow_values w)" for d
  proof
    assume n: "value_at t d = None"
    have "value_at s d \<noteq> None" using w that by (auto simp: owner_live_def)
    from shrinksD(11) [OF s this n] show False using a V that unfolding apart_def by blast
  qed
  then show "owner_live t w" using w shrinksD(8) [OF s] by (auto simp: owner_live_def)
  show "apart t w" using a shrinks_owner [OF s] unfolding apart_def by blast
qed


section \<open>A value is freed\<close>

lemma free_value_ok:
  assumes ok: "scope_ok body X s" and d: "value_at s d \<noteq> None"
    and un: "\<And>p w. owner_at s p = Some w \<Longrightarrow> d \<notin> set (ow_values w)"
  shows "scope_ok body X (free_value d s)" and "shrinks {d} s (free_value d s)"
proof -
  let ?t = "free_value d s"
  note inv = scope_okD [OF ok]
  have dl: "d < length (rx_values s)" by (rule value_at_range [OF d])
  have va: "value_at ?t = (value_at s)(d := None)" by (auto simp: value_at_def free_value_def fun_eq_iff)
  have o: "obs_at ?t i = map_option (\<lambda>ob. ob\<lparr>ob_deps := ob_deps ob - {d}\<rparr>) (obs_at s i)" for i
    by (simp add: obs_at_def free_value_def)
  have f: "rx_gens ?t = rx_gens s" "rx_obs_gens ?t = rx_obs_gens s" "rx_dirty ?t = rx_dirty s" "rx_owners ?t = rx_owners s"
    "rx_regions ?t = rx_regions s" "rx_depth ?t = rx_depth s" "rx_flushing ?t = rx_flushing s" "rx_free_values ?t = d # rx_free_values s"
    "rx_free_observers ?t = rx_free_observers s" "rx_subs ?t = (rx_subs s)[d := {}]"
    "length (rx_values ?t) = length (rx_values s)" "length (rx_observers ?t) = length (rx_observers s)" "length (rx_revs ?t) = length (rx_revs s)"
    "rx_reads ?t = List.map (filter (\<lambda>(x, _). x \<noteq> d)) (rx_reads s)"
    by (simp_all add: free_value_def)
  have ow: "owner_at ?t = owner_at s"
  proof
    show "owner_at ?t p = owner_at s p" for p by (cases p) (auto simp: o f split: option.splits)
  qed
  have sh: "shape ?t" using inv(1) by (simp add: shape_def f)
  have sl: "length (rx_subs s) = length (rx_values s)" using inv(1) by (simp add: shape_def)
  have live: "value_at ?t x \<noteq> None \<longleftrightarrow> value_at s x \<noteq> None \<and> x \<noteq> d" for x by (simp add: va)
  have shown: "signal_value ?t h = signal_value s h" if "sg_slot h \<noteq> d" for h
    by (rule signal_value_same [OF inv(1) sh]) (simp_all add: f va that)
  have lt: "lent s h" if "lent ?t h" for h
  proof -
    have "sg_slot h \<noteq> d" using that by (auto simp: lent_alt [OF sh] va)
    then show ?thesis using that shown_same(3) [OF shown] by simp
  qed
  show "shrinks {d} s ?t" by (auto simp: shrinks_def f o va lt split: if_splits)
  show "scope_ok body X ?t"
    unfolding scope_ok_def
  proof (intro conjI allI impI)
    show "free_ok ?t"
      using inv(2) d dl unfolding free_ok_def f o va by (auto split: if_splits)
    show "subs_ok ?t"
      unfolding subs_ok_def
    proof (intro conjI allI impI)
      fix i ob e assume a: "obs_at ?t i = Some ob \<and> e \<in> ob_deps ob"
      then obtain ob0 where b: "obs_at s i = Some ob0" "e \<in> ob_deps ob0" "e \<noteq> d" by (auto simp: o)
      then show "value_at ?t e \<noteq> None" using subs_okD(1) [OF inv(3)] live by blast
      show "i \<in> rx_subs ?t ! e" using subs_okD(2) [OF inv(3) b(1,2)] b(3) by (simp add: f)
    next
      fix e i assume a: "e < length (rx_values ?t) \<and> i \<in> rx_subs ?t ! e"
      then have "e \<noteq> d" using dl sl by (auto simp: f)
      then show "\<exists>ob. obs_at ?t i = Some ob \<and> e \<in> ob_deps ob" using a subs_okD(3) [OF inv(3)] by (fastforce simp: f o)
    qed
    show "dirty_ok ?t" using inv(4) by (simp add: dirty_ok_def f o)
    show "captures_ok ?t" using inv(5) by (fastforce simp: captures_ok_def f va)
    show "owners_ok ?t"
      unfolding owners_ok_def ow
    proof (intro conjI allI impI)
      fix p w assume w: "owner_at s p = Some w"
      show "owner_live ?t w" using owners_okD(1) [OF inv(6) w] un [OF w] by (auto simp: owner_live_def va f)
    qed (use owners_okD(2) [OF inv(6)] in blast)
    have out: "output_of ?t = output_of s" by (simp add: output_of_def o fun_eq_iff split: option.splits)
    show "outputs_ok ?t" using inv(7) lt unfolding outputs_ok_def given_def f out by blast
    fix i assume i: "i \<notin> X \<and> i \<notin> rx_dirty ?t"
    show "current body ?t i"
      unfolding current_def
    proof (intro allI impI)
      fix ob c h w
      assume a: "obs_at ?t i = Some ob \<and> ob_closure ob = Some c \<and> ob_kind ob = Derived h \<and> computes body c \<and> read_signal ?t h = Inr w"
      then obtain ob0 where b: "obs_at s i = Some ob0" "ob = ob0\<lparr>ob_deps := ob_deps ob0 - {d}\<rparr>" by (auto simp: o)
      have "sg_slot h \<noteq> d" using a by (auto simp: read_signal_Inr [OF sh] va)
      then have "fits s (ob_deps ob0) (body c) w" using inv(8) [of i] a b i shown_same(1) [OF shown, of h] unfolding current_def f(3) by simp
      then show "fits ?t (ob_deps ob) (body c) w"
      proof (rule fits_step)
        show "ob_deps ob \<subseteq> ob_deps ob0" by (simp add: b Diff_subset)
        show "seen ?t h' = seen s h'" if "sg_slot h' \<in> ob_deps ob" for h'
          by (rule shown_same(2) [OF shown]) (use that b(2) in simp)
        show "gone ?t h'" if "sg_slot h' \<in> ob_deps ob0 - ob_deps ob" "seen s h' = Inr x" for h' x
        proof -
          have "sg_slot h' = d" using that(1) b(2) by simp
          moreover have "sg_slot h' < length (rx_gens s) \<and> rx_gens s ! sg_slot h' = sg_gen h'"
            using that(2) by (auto simp: seen_def signal_value_alt [OF inv(1)] split: if_splits)
          ultimately show ?thesis by (simp add: gone_alt [OF sh] given_def f va)
        qed
        show "gone ?t h'" if "gone s h'" for h' by (rule gone_same [OF inv(1) sh f(1) _ that]) (simp add: va)
      qed
    qed
  qed (rule sh)
qed

lemma free_values_ok:
  assumes "scope_ok body X s" and "distinct ds" and "\<And>d. d \<in> set ds \<Longrightarrow> value_at s d \<noteq> None"
    and "\<And>d p w. d \<in> set ds \<Longrightarrow> owner_at s p = Some w \<Longrightarrow> d \<notin> set (ow_values w)"
  shows "scope_ok body X (fold free_value ds s) \<and> shrinks (set ds) s (fold free_value ds s)"
  using assms
proof (induction ds arbitrary: s)
  case Nil
  then show ?case by (simp add: shrinks_refl)
next
  case (Cons d ds)
  note step = free_value_ok [OF Cons.prems(1), of d]
  have 1: "scope_ok body X (free_value d s)" "shrinks {d} s (free_value d s)"
    using step Cons.prems(3,4) by simp_all
  have "scope_ok body X (fold free_value ds (free_value d s)) \<and> shrinks (set ds) (free_value d s) (fold free_value ds (free_value d s))"
  proof (rule Cons.IH [OF 1(1)])
    show "value_at (free_value d s) e \<noteq> None" if "e \<in> set ds" for e
    proof -
      have "e \<noteq> d" using that Cons.prems(2) by auto
      then have "value_at (free_value d s) e = value_at s e" by (simp add: value_at_def free_value_def)
      then show ?thesis using Cons.prems(3) that by simp
    qed
    show "e \<notin> set (ow_values w)" if "e \<in> set ds" "owner_at (free_value d s) p = Some w" for e p w
      using Cons.prems(4) [of e p w] that shrinks_owner [OF 1(2)] by simp
  qed (use Cons.prems(2) in simp)
  then show ?case
    using shrinks_trans [OF shrinks_mono [OF 1(2), of "set (d # ds)"] shrinks_mono [of "set ds"]] by (auto simp: subset_insertI)
qed


section \<open>An observer is taken out\<close>

lemma resubscribe_nth:
  "d < length (rx_subs s) \<Longrightarrow> rx_subs (resubscribe i old new s) ! d =
     (if d \<in> old - new then rx_subs s ! d - {i} else if d \<in> new - old then insert i (rx_subs s ! d) else rx_subs s ! d)"
  by (simp add: resubscribe_def)

lemma resubscribe_same:
  "rx_values (resubscribe i A B s) = rx_values s" "rx_free_values (resubscribe i A B s) = rx_free_values s"
  "rx_gens (resubscribe i A B s) = rx_gens s" "rx_free_observers (resubscribe i A B s) = rx_free_observers s"
  "rx_obs_gens (resubscribe i A B s) = rx_obs_gens s" "rx_owners (resubscribe i A B s) = rx_owners s"
  "rx_observers (resubscribe i A B s) = rx_observers s" "rx_reads (resubscribe i A B s) = rx_reads s"
  "rx_revs (resubscribe i A B s) = rx_revs s" "rx_dirty (resubscribe i A B s) = rx_dirty s"
  "rx_depth (resubscribe i A B s) = rx_depth s" "rx_flushing (resubscribe i A B s) = rx_flushing s"
  "rx_regions (resubscribe i A B s) = rx_regions s" "length (rx_subs (resubscribe i A B s)) = length (rx_subs s)"
  by (simp_all add: resubscribe_def)

lemma take_observer_ok:
  assumes ok: "scope_ok body X s" and ob: "obs_at s i = Some ob"
  defines "t \<equiv> take_observer i ob s"
  shows "scope_ok body X t" and "shrinks {} s t" and "obs_at t = (obs_at s)(i := None)"
    and "ob_run_owner ob = Some w \<Longrightarrow> owner_live t w \<and> apart t w"
proof -
  note inv = scope_okD [OF ok]
  have il: "i < length (rx_observers s)" by (rule obs_at_range [OF ob])
  have f: "rx_values t = rx_values s" "rx_gens t = rx_gens s" "rx_obs_gens t = rx_obs_gens s" "rx_dirty t = rx_dirty s - {i}"
    "rx_owners t = rx_owners s" "rx_regions t = rx_regions s" "rx_depth t = rx_depth s" "rx_flushing t = rx_flushing s"
    "rx_free_values t = rx_free_values s" "rx_free_observers t = i # rx_free_observers s"
    "length (rx_observers t) = length (rx_observers s)" "rx_revs t = rx_revs s" "rx_reads t = rx_reads s"
    "length (rx_subs t) = length (rx_subs s)" "rx_observers t = (rx_observers s)[i := None]"
    by (simp_all add: t_def take_observer_def set_observer_def resubscribe_same Let_def)
  show o: "obs_at t = (obs_at s)(i := None)" by (auto simp: obs_at_def f fun_eq_iff)
  have va: "value_at t = value_at s" by (simp add: value_at_def f fun_eq_iff)
  have sl: "length (rx_subs s) = length (rx_values s)" using inv(1) by (simp add: shape_def)
  have su: "rx_subs t ! d = (if d \<in> ob_deps ob then rx_subs s ! d - {i} else rx_subs s ! d)" if "d < length (rx_values s)" for d
    using that sl resubscribe_nth [of d "set_observer i None s" i "ob_deps ob" "{}"]
    by (simp add: t_def take_observer_def Let_def) (simp add: set_observer_def)
  have ow: "owner_at t = (owner_at s)(Of_Run i := None)"
  proof
    show "owner_at t p = ((owner_at s)(Of_Run i := None)) p" for p by (cases p) (simp_all add: o f)
  qed
  have sh: "shape t" using inv(1) by (simp add: shape_def f)
  note cells = same_cells [OF f(1,2)]
  show "shrinks {} s t" unfolding shrinks_def f o va cells(4) by auto
  show "scope_ok body X t"
    unfolding scope_ok_def
  proof (intro conjI allI impI)
    show "free_ok t" using inv(2) ob il unfolding free_ok_def f o va by auto
    show "subs_ok t"
      unfolding subs_ok_def va f
    proof (intro conjI allI impI)
      fix j b d assume a: "obs_at t j = Some b \<and> d \<in> ob_deps b"
      then have b: "obs_at s j = Some b" "j \<noteq> i" by (auto simp: o split: if_splits)
      then show "value_at s d \<noteq> None" using a subs_okD(1) [OF inv(3)] by blast
      then show "j \<in> rx_subs t ! d" using su [OF value_at_range] a b subs_okD(2) [OF inv(3)] by auto
    next
      fix d j assume a: "d < length (rx_values s) \<and> j \<in> rx_subs t ! d"
      then have "j \<in> rx_subs s ! d" using su by (auto split: if_splits)
      then obtain b where b: "obs_at s j = Some b" "d \<in> ob_deps b" using a subs_okD(3) [OF inv(3)] by blast
      then have "j \<noteq> i" using a su ob by (auto split: if_splits)
      then show "\<exists>ob. obs_at t j = Some ob \<and> d \<in> ob_deps ob" using b by (simp add: o)
    qed
    show "dirty_ok t" using inv(4) by (auto simp: dirty_ok_def f o)
    show "captures_ok t" using inv(5) by (simp add: captures_ok_def f va)
    show "owners_ok t" by (rule owners_ok_upd [OF inv(6) ow]) (simp_all add: va f)
    show "outputs_ok t" using inv(7) by (auto simp: outputs_ok_def output_of_def cells(4,5) o)
    fix j assume j: "j \<notin> X \<and> j \<notin> rx_dirty t"
    show "current body t j"
      unfolding current_def cells(2) fits_same [OF f(1,2)]
    proof (intro allI impI)
      fix b c h w
      assume a: "obs_at t j = Some b \<and> ob_closure b = Some c \<and> ob_kind b = Derived h \<and> computes body c \<and> read_signal s h = Inr w"
      then have "obs_at s j = Some b" "j \<noteq> i" by (auto simp: o split: if_splits)
      then show "fits s (ob_deps b) (body c) w" using inv(8) [of j] a j by (auto simp: current_def f)
    qed
  qed (rule sh)
  assume w: "ob_run_owner ob = Some w"
  have p: "owner_at s (Of_Run i) = Some w" by (simp add: ob w)
  have "owner_live t w" using owners_okD(1) [OF inv(6) p] by (simp add: owner_live_def va f)
  moreover have "apart t w"
    unfolding apart_def ow using owners_okD(2) [OF inv(6) p] by auto
  ultimately show "owner_live t w \<and> apart t w" by blast
qed


section \<open>The destructors\<close>

definition live_obs :: "('v, 'c) scope_core \<Rightarrow> nat set" where
  "live_obs s = {i. obs_at s i \<noteq> None}"

lemma live_obs_bound: "live_obs s \<subseteq> {..<length (rx_observers s)}" "finite (live_obs s)" "card (live_obs s) \<le> length (rx_observers s)"
proof -
  show b: "live_obs s \<subseteq> {..<length (rx_observers s)}" by (auto simp: live_obs_def dest: obs_at_range)
  show "finite (live_obs s)" using b finite_subset by blast
  show "card (live_obs s) \<le> length (rx_observers s)" using card_mono [OF _ b] by simp
qed

lemma shrinks_gone: "shrinks V s t \<Longrightarrow> obs_at s i = None \<Longrightarrow> obs_at t i = None"
  using shrinksD(10) by (metis not_None_eq)

lemma shrinks_live: "shrinks V s t \<Longrightarrow> card (live_obs t) \<le> card (live_obs s)"
  by (rule card_mono [OF live_obs_bound(2)]) (use shrinksD(10) in \<open>fastforce simp: live_obs_def\<close>)

text \<open>What disposing an observer with fuel \<open>k\<close> promises.\<close>

definition disposes :: "('c \<Rightarrow> ('v, 'c) code) \<Rightarrow> nat set \<Rightarrow> nat \<Rightarrow> (nat \<Rightarrow> ('v, 'c, unit) rx) \<Rightarrow> bool" where
  "disposes body X k disp \<longleftrightarrow>
     (\<forall>i s. scope_ok body X s \<and> i < length (rx_observers s) \<and> card (live_obs s) < k \<longrightarrow>
        (\<exists>t. disp i s = (Ok (), t) \<and> scope_ok body X t \<and> shrinks {} s t \<and> obs_at t i = None))"

lemma effects_dropped:
  assumes d: "disposes body X k disp" and "scope_ok body X s" and "card (live_obs s) < k"
    and "\<And>e. e \<in> set es \<Longrightarrow> ef_slot e < length (rx_observers s)"
  shows "\<exists>t. eachM (dispose_effect disp) es s = (Ok (), t) \<and> scope_ok body X t \<and> shrinks {} s t \<and>
    (\<forall>e \<in> set es. rx_obs_gens s ! ef_slot e = ef_gen e \<longrightarrow> obs_at t (ef_slot e) = None)"
  using assms(2-4)
proof (induction es arbitrary: s)
  case Nil
  then show ?case by (simp add: ret_run shrinks_refl)
next
  case (Cons e es)
  have e: "ef_slot e < length (rx_observers s)" using Cons.prems(3) by simp
  then have g: "ef_slot e < length (rx_obs_gens s)" using scope_okD(1) [OF Cons.prems(1)] by (simp add: shape_def)
  obtain t where t: "dispose_effect disp e s = (Ok (), t)" "scope_ok body X t" "shrinks {} s t"
    and gone: "rx_obs_gens s ! ef_slot e = ef_gen e \<Longrightarrow> obs_at t (ef_slot e) = None"
  proof (cases "rx_obs_gens s ! ef_slot e = ef_gen e")
    case True
    then show thesis
      using d Cons.prems(1,2) e g that unfolding disposes_def dispose_effect_def by (fastforce simp: bind_def gets_run)
  next
    case False
    then show thesis using that [of s] g Cons.prems(1) by (simp add: dispose_effect_def bind_def gets_run ret_run shrinks_refl)
  qed
  have "card (live_obs t) < k" using shrinks_live [OF t(3)] Cons.prems(2) by linarith
  then obtain u where u: "eachM (dispose_effect disp) es t = (Ok (), u)" "scope_ok body X u" "shrinks {} t u"
      "\<forall>e \<in> set es. rx_obs_gens t ! ef_slot e = ef_gen e \<longrightarrow> obs_at u (ef_slot e) = None"
    using Cons.IH [OF t(2)] Cons.prems(3) shrinksD(8) [OF t(3)] by auto
  have "rx_obs_gens s ! ef_slot e' = ef_gen e' \<longrightarrow> obs_at u (ef_slot e') = None" if "e' \<in> set (e # es)" for e'
    using that gone u(4) shrinks_gone [OF u(3)] shrinksD(7) [OF t(3)] by auto
  moreover have "eachM (dispose_effect disp) (e # es) s = (Ok (), u)" using t(1) u(1) by (simp add: seq_def bind_def)
  ultimately show ?case using u(2) shrinks_trans [OF t(3) u(3)] by blast
qed

lemma freed_values: "d \<in> set ds \<Longrightarrow> value_at (fold free_value ds s) d = None"
proof (induction ds arbitrary: s)
  case (Cons x ds)
  have keep: "value_at (fold free_value es u) d = None" if "value_at u d = None" for es and u :: "('a, 'b) scope_core"
    using that
  proof (induction es arbitrary: u)
    case (Cons y es)
    have "value_at (free_value y u) d = None"
      using Cons.prems by (cases "d = y") (auto simp: value_at_def free_value_def)
    then show ?case using Cons.IH by simp
  qed simp
  show ?case
  proof (cases "d = x")
    case True
    have "value_at (free_value x s) x = None" by (auto simp: value_at_def free_value_def)
    then show ?thesis using keep [of "free_value x s" ds] True by simp
  next
    case False
    then show ?thesis using Cons by simp
  qed
qed simp

lemma drop_owner_ok:
  assumes d: "disposes body X k disp" and ok: "scope_ok body X s" and k: "card (live_obs s) < k"
    and w: "owner_live s w" and a: "apart s w"
  shows "\<exists>t. drop_owner disp w s = (Ok (), t) \<and> scope_ok body X t \<and> shrinks (set (ow_values w)) s t \<and>
    (\<forall>d \<in> set (ow_values w). value_at t d = None) \<and>
    (\<forall>e \<in> set (ow_effects w). rx_obs_gens s ! ef_slot e = ef_gen e \<longrightarrow> obs_at t (ef_slot e) = None)"
proof -
  obtain t where t: "eachM (dispose_effect disp) (ow_effects w) s = (Ok (), t)" "scope_ok body X t" "shrinks {} s t"
      "\<forall>e \<in> set (ow_effects w). rx_obs_gens s ! ef_slot e = ef_gen e \<longrightarrow> obs_at t (ef_slot e) = None"
    using effects_dropped [OF d ok k, of "ow_effects w"] w by (auto simp: owner_live_def)
  have w': "owner_live t w" "apart t w" using shrinks_apart [OF t(3) w a] by simp_all
  let ?u = "fold free_value (ow_values w) t"
  have u: "scope_ok body X ?u \<and> shrinks (set (ow_values w)) t ?u"
    by (rule free_values_ok [OF t(2)]) (use w' in \<open>auto simp: owner_live_def apart_def\<close>)
  have "shrinks (set (ow_values w)) s ?u" by (rule shrinks_trans [OF shrinks_mono [OF t(3)]]) (use u in simp_all)
  moreover have "drop_owner disp w s = (Ok (), ?u)" using t(1) by (simp add: drop_owner_def seq_def bind_def modify_run)
  moreover have "\<forall>e \<in> set (ow_effects w). rx_obs_gens s ! ef_slot e = ef_gen e \<longrightarrow> obs_at ?u (ef_slot e) = None"
    using t(4) shrinks_gone u by blast
  ultimately show ?thesis using u freed_values by blast
qed

lemma shrinks_owned:
  "shrinks V s t \<Longrightarrow> (\<And>d. d \<in> V \<Longrightarrow> \<exists>p w. owner_at s p = Some w \<and> d \<in> set (ow_values w)) \<Longrightarrow> shrinks {} s t"
  unfolding shrinks_def by blast

lemma disposes_observer: "disposes body X k (dispose_observer k)"
proof (induction k)
  case 0
  then show ?case by (simp add: disposes_def)
next
  case (Suc k)
  show ?case
    unfolding disposes_def
  proof (intro allI impI, elim conjE)
    fix i s assume ok: "scope_ok body X s" and il: "i < length (rx_observers s)" and c: "card (live_obs s) < Suc k"
    show "\<exists>t. dispose_observer (Suc k) i s = (Ok (), t) \<and> scope_ok body X t \<and> shrinks {} s t \<and> obs_at t i = None"
    proof (cases "obs_at s i")
      case None
      then show ?thesis using il ok by (simp add: bind_def gets_run ret_run shrinks_refl obs_at_def)
    next
      case (Some ob)
      define t where "t = take_observer i ob s"
      note tk = take_observer_ok [OF ok Some, folded t_def]
      have "live_obs t = live_obs s - {i}" by (auto simp: live_obs_def tk(3))
      then have k: "card (live_obs t) < k"
        using c Some card_Diff1_less [OF live_obs_bound(2), of i s] by (simp add: live_obs_def) 
      have run: "dispose_observer (Suc k) i s = drop_run_owner (dispose_observer k) (ob_run_owner ob) t"
        using Some il by (simp add: bind_def seq_def gets_run modify_run obs_at_def t_def)
      show ?thesis
      proof (cases "ob_run_owner ob")
        case None
        then show ?thesis using run tk(1-3) by (simp add: drop_run_owner_def ret_run)
      next
        case w: (Some w)
        obtain u where u: "drop_owner (dispose_observer k) w t = (Ok (), u)" "scope_ok body X u" "shrinks (set (ow_values w)) t u"
          using drop_owner_ok [OF Suc.IH tk(1) k] tk(4) [OF w] by blast
        have "shrinks (set (ow_values w)) s u" by (rule shrinks_trans [OF shrinks_mono [OF tk(2)] u(3)]) simp
        then have "shrinks {} s u"
          by (rule shrinks_owned) (rule exI [of _ "Of_Run i"], rule exI [of _ w], simp add: Some w)
        moreover have "obs_at u i = None" by (rule shrinks_gone [OF u(3)]) (simp add: tk(3))
        ultimately show ?thesis using run u w by (simp add: drop_run_owner_def)
      qed
    qed
  qed
qed

lemma disposes_slot: "scope_ok body X s \<Longrightarrow> i < length (rx_observers s) \<Longrightarrow>
    \<exists>t. dispose_slot i s = (Ok (), t) \<and> scope_ok body X t \<and> shrinks {} s t \<and> obs_at t i = None"
  using disposes_observer [of body X "Suc (length (rx_observers s))"] live_obs_bound(3) [of s]
  unfolding disposes_def dispose_slot_def by (meson le_imp_less_Suc)

lemma disposes_any: "disposes body X k dispose_slot"
  unfolding disposes_def using disposes_slot by blast

lemma dropped:
  assumes "scope_ok body X s" and "owner_live s w" and "apart s w"
  shows "\<exists>t. drop_owner dispose_slot w s = (Ok (), t) \<and> scope_ok body X t \<and> shrinks (set (ow_values w)) s t \<and>
    (\<forall>d \<in> set (ow_values w). value_at t d = None) \<and>
    (\<forall>e \<in> set (ow_effects w). rx_obs_gens s ! ef_slot e = ef_gen e \<longrightarrow> obs_at t (ef_slot e) = None)"
  by (rule drop_owner_ok [OF disposes_any assms(1) lessI assms(2,3)])

end
