(* ===== verification/ReactiveOwn.thy ===== *)
theory ReactiveOwn
  imports ReactiveDrop
begin

text \<open>
  Owners and observers: pushing, popping, handing over and attaching owners, a new observer,
  the borrow of a closure, and the capture of what a reaction has read.
\<close>

section \<open>Owners change hands\<close>

definition visible :: "'c observer option \<Rightarrow> ('c option \<times> nat set \<times> reaction_kind) option" where
  "visible x = map_option (\<lambda>ob. (ob_closure ob, ob_deps ob, ob_kind ob)) x"

lemma visible_Some: "visible x = visible (Some b) \<Longrightarrow> \<exists>ob. x = Some ob \<and> ob_deps ob = ob_deps b \<and> ob_kind ob = ob_kind b \<and> ob_closure ob = ob_closure b"
  by (auto simp: visible_def)

lemma visible_None: "visible x = None \<longleftrightarrow> x = None"
  by (simp add: visible_def)

text \<open>A step that only moves owners.\<close>

lemma scope_ok_owner:
  assumes ok: "scope_ok body X s"
    and same: "rx_values t = rx_values s" "rx_gens t = rx_gens s" "rx_subs t = rx_subs s" "rx_revs t = rx_revs s"
      "rx_obs_gens t = rx_obs_gens s" "rx_free_values t = rx_free_values s" "rx_free_observers t = rx_free_observers s"
      "rx_dirty t = rx_dirty s" "rx_reads t = rx_reads s" "length (rx_observers t) = length (rx_observers s)"
    and b: "\<And>i. visible (obs_at t i) = visible (obs_at s i)" and w: "owners_ok t"
  shows "scope_ok body X t"
proof -
  note inv = scope_okD [OF ok]
  have v: "value_at t = value_at s" by (simp add: value_at_def same fun_eq_iff)
  note cells = same_cells [OF same(1,2)]
  have n: "obs_at t i = None \<longleftrightarrow> obs_at s i = None" for i using b [of i] visible_None by metis
  have to: "\<exists>ob0. obs_at s i = Some ob0 \<and> ob_deps ob0 = ob_deps ob \<and> ob_kind ob0 = ob_kind ob \<and> ob_closure ob0 = ob_closure ob"
    if "obs_at t i = Some ob" for i ob using visible_Some [of "obs_at s i" ob] b [of i] that by simp
  have from': "\<exists>ob. obs_at t i = Some ob \<and> ob_deps ob = ob_deps ob0 \<and> ob_kind ob = ob_kind ob0 \<and> ob_closure ob = ob_closure ob0"
    if "obs_at s i = Some ob0" for i ob0 using visible_Some [of "obs_at t i" ob0] b [of i] that by simp
  have out: "output_of t i = output_of s i" for i
  proof (cases "obs_at t i")
    case None
    then show ?thesis using n [of i] by (simp add: output_of_def)
  next
    case (Some ob)
    then show ?thesis using to [OF Some] by (auto simp: output_of_def)
  qed
  show ?thesis
    unfolding scope_ok_def
  proof (intro conjI allI impI)
    show "shape t" using inv(1) by (simp add: shape_def same)
    show "free_ok t" using inv(2) by (simp add: free_ok_def same v n)
    show "subs_ok t"
      unfolding subs_ok_def v same
    proof (intro conjI allI impI)
      fix i ob d assume a: "obs_at t i = Some ob \<and> d \<in> ob_deps ob"
      then obtain ob0 where "obs_at s i = Some ob0" "d \<in> ob_deps ob0" using to by metis
      then show "value_at s d \<noteq> None" "i \<in> rx_subs s ! d" using subs_okD(1,2) [OF inv(3)] by blast+
    next
      fix d i assume "d < length (rx_values s) \<and> i \<in> rx_subs s ! d"
      then obtain ob0 where "obs_at s i = Some ob0" "d \<in> ob_deps ob0" using subs_okD(3) [OF inv(3)] by blast
      then show "\<exists>ob. obs_at t i = Some ob \<and> d \<in> ob_deps ob" using from' by metis
    qed
    show "dirty_ok t" using inv(4) by (simp add: dirty_ok_def same n)
    show "captures_ok t" using inv(5) by (simp add: captures_ok_def same v)
    show "outputs_ok t" using inv(7) by (simp add: outputs_ok_def cells(4,5) out)
    fix i assume i: "i \<notin> X \<and> i \<notin> rx_dirty t"
    show "current body t i"
      unfolding current_def cells(2) fits_same [OF same(1,2)]
    proof (intro allI impI)
      fix ob c h w
      assume a: "obs_at t i = Some ob \<and> ob_closure ob = Some c \<and> ob_kind ob = Derived h \<and> computes body c \<and> read_signal s h = Inr w"
      then obtain ob0 where "obs_at s i = Some ob0" "ob_deps ob0 = ob_deps ob" "ob_kind ob0 = ob_kind ob" "ob_closure ob0 = ob_closure ob"
        using to by blast
      then show "fits s (ob_deps ob) (body c) w"
        using inv(8) [of i] a i by (metis current_def same(8))
    qed
  qed (rule w)
qed

lemma owner_at_push: "owner_at (s\<lparr>rx_owners := w # rx_owners s\<rparr>) = (owner_at s)(On_Stack (length (rx_owners s)) := Some w)"
proof
  show "owner_at (s\<lparr>rx_owners := w # rx_owners s\<rparr>) p = ((owner_at s)(On_Stack (length (rx_owners s)) := Some w)) p" for p
    by (cases p) (auto simp: nth_append obs_at_def)
qed

lemma owner_at_pop: "rx_owners s = w # ws \<Longrightarrow> owner_at (s\<lparr>rx_owners := ws\<rparr>) = (owner_at s)(On_Stack (length ws) := None)"
  by (rule ext, case_tac x) (auto simp: nth_append obs_at_def)

lemma owner_at_region:
  "owner_at (s\<lparr>rx_regions := rx_regions s @ [x]\<rparr>) = (owner_at s)(Of_Client (length (rx_regions s)) := x)"
  "r < length (rx_regions s) \<Longrightarrow> owner_at (s\<lparr>rx_regions := (rx_regions s)[r := x]\<rparr>) = (owner_at s)(Of_Client r := x)"
  by (rule ext, case_tac xa, auto simp: nth_append obs_at_def)+

lemma obs_at_set: "i < length (rx_observers s) \<Longrightarrow> obs_at (set_observer i x s) = (obs_at s)(i := x)"
  by (auto simp: obs_at_def set_observer_def fun_eq_iff)

lemma owner_at_run:
  "obs_at s i = Some ob \<Longrightarrow> owner_at (set_observer i (Some (ob\<lparr>ob_run_owner := x\<rparr>)) s) = (owner_at s)(Of_Run i := x)"
  by (rule ext, case_tac xa) (auto simp: obs_at_set obs_at_range, auto simp: set_observer_def)

text \<open>Taking an owner away from its place, and putting one into an empty place.\<close>

lemma owner_taken:
  assumes ok: "owners_ok s" and p: "owner_at s p = Some w" and t: "owner_at t = (owner_at s)(p := None)"
    and v: "value_at t = value_at s" and l: "length (rx_observers t) = length (rx_observers s)"
  shows "owners_ok t" and "owner_live t w" and "apart t w"
proof -
  show "owners_ok t" by (rule owners_ok_upd [OF ok t]) (simp_all add: v l)
  show "owner_live t w" using owners_okD(1) [OF ok p] by (simp add: owner_live_def v l)
  show "apart t w" unfolding apart_def t using owners_okD(2) [OF ok p] by auto
qed

lemma owner_put:
  assumes ok: "owners_ok s" and w: "owner_live s w" "apart s w" and t: "owner_at t = (owner_at s)(p := Some w)"
    and v: "value_at t = value_at s" and l: "length (rx_observers t) = length (rx_observers s)"
  shows "owners_ok t"
proof (rule owners_ok_upd [OF ok t])
  show "owner_live t x" if "Some w = Some x" for x using w(1) that by (simp add: owner_live_def v l)
  show "set (ow_values x) \<inter> set (ow_values w') = {}" if "Some w = Some x" "q \<noteq> p" "owner_at s q = Some w'" for x q w'
    using w(2) that unfolding apart_def by blast
qed (simp_all add: v l)

lemma value_at_owners:
  "value_at (s\<lparr>rx_owners := ws\<rparr>) = value_at s" "value_at (s\<lparr>rx_regions := rs\<rparr>) = value_at s" "value_at (set_observer i x s) = value_at s"
  "obs_at (s\<lparr>rx_owners := ws\<rparr>) = obs_at s" "obs_at (s\<lparr>rx_regions := rs\<rparr>) = obs_at s"
  "fresh (s\<lparr>rx_owners := ws\<rparr>) = fresh s" "fresh (s\<lparr>rx_regions := rs\<rparr>) = fresh s" "fresh (set_observer i x s) = fresh s"
  "lent (s\<lparr>rx_owners := ws\<rparr>) = lent s" "lent (s\<lparr>rx_regions := rs\<rparr>) = lent s" "lent (set_observer i x s) = lent s"
  by (simp_all add: value_at_def obs_at_def fresh_def given_def set_observer_def lent_def signal_value_def Let_def fun_eq_iff)

lemma no_slots_ok: "owner_live s no_slots" "apart s no_slots"
  by (simp_all add: owner_live_def apart_def no_slots_def)

lemma push_owner_ok: "scope_ok body X s \<Longrightarrow> scope_ok body X (push_owner s)"
  unfolding push_owner_def
  by (rule scope_ok_owner, assumption)
    (simp_all add: value_at_owners owner_put [OF scope_okD(6) no_slots_ok owner_at_push])

lemma pop_owner_ok:
  assumes ok: "scope_ok body X s" and ws: "rx_owners s = w # ws"
  shows "scope_ok body X (s\<lparr>rx_owners := ws\<rparr>)" and "owner_live (s\<lparr>rx_owners := ws\<rparr>) w" and "apart (s\<lparr>rx_owners := ws\<rparr>) w"
proof -
  note tk = owner_taken [OF scope_okD(6) [OF ok] owner_at_top(1) [OF ws] owner_at_pop [OF ws]]
  show "scope_ok body X (s\<lparr>rx_owners := ws\<rparr>)"
    by (rule scope_ok_owner [OF ok]) (simp_all add: value_at_owners tk(1))
  show "owner_live (s\<lparr>rx_owners := ws\<rparr>) w" "apart (s\<lparr>rx_owners := ws\<rparr>) w" using tk(2,3) by (simp_all add: value_at_owners)
qed

lemma keep_region_ok:
  assumes "scope_ok body X s" and "owner_live s w" and "apart s w"
  shows "scope_ok body X (s\<lparr>rx_regions := rx_regions s @ [Some w]\<rparr>)"
  by (rule scope_ok_owner [OF assms(1)])
    (simp_all add: value_at_owners owner_put [OF scope_okD(6) [OF assms(1)] assms(2,3) owner_at_region(1)])

lemma free_region_ok:
  assumes ok: "scope_ok body X s" and r: "r < length (rx_regions s)" "rx_regions s ! r = Some w"
  defines "t \<equiv> s\<lparr>rx_regions := (rx_regions s)[r := None]\<rparr>"
  shows "scope_ok body X t" and "owner_live t w" and "apart t w"
proof -
  have "owner_at s (Of_Client r) = Some w" using r by simp
  note tk = owner_taken [OF scope_okD(6) [OF ok] this owner_at_region(2) [OF r(1)], folded t_def]
  have ws: "owners_ok t" by (rule tk(1)) (simp_all add: t_def value_at_owners)
  show "scope_ok body X t"
    by (rule scope_ok_owner [OF ok _ _ _ _ _ _ _ _ _ _ _ ws]) (simp_all add: t_def value_at_owners)
  show "owner_live t w" "apart t w" using tk(2,3) by (simp_all add: t_def value_at_owners)
qed

lemma take_run_owner_ok:
  assumes ok: "scope_ok body X s" and ob: "obs_at s i = Some ob"
  defines "t \<equiv> set_observer i (Some (ob\<lparr>ob_run_owner := None\<rparr>)) s"
  shows "scope_ok body X t" and "ob_run_owner ob = Some w \<Longrightarrow> owner_live t w \<and> apart t w"
proof -
  have f: "length (rx_observers t) = length (rx_observers s)" "value_at t = value_at s" by (simp_all add: t_def value_at_owners, simp add: set_observer_def)
  have ow: "owner_at t = (owner_at s)(Of_Run i := None)" unfolding t_def by (rule owner_at_run [OF ob])
  have ws: "owners_ok t" by (rule owners_ok_upd [OF scope_okD(6) [OF ok] ow]) (simp_all add: f)
  have o: "obs_at t = (obs_at s)(i := Some (ob\<lparr>ob_run_owner := None\<rparr>))" unfolding t_def by (rule obs_at_set [OF obs_at_range [OF ob]])
  show "scope_ok body X t"
    by (rule scope_ok_owner [OF ok]) (simp_all add: ws o visible_def ob, simp_all add: t_def set_observer_def)
  assume "ob_run_owner ob = Some w"
  then have "owner_at s (Of_Run i) = Some w" by (simp add: ob)
  from owner_taken [OF scope_okD(6) [OF ok] this ow f(2,1)] show "owner_live t w \<and> apart t w" by simp
qed

lemma attach_run_owner_ok:
  assumes ok: "scope_ok body X s" and ob: "obs_at s i = Some ob" and w: "owner_live s w" "apart s w"
  shows "scope_ok body X (set_observer i (Some (ob\<lparr>ob_run_owner := Some w\<rparr>)) s)"
proof -
  let ?t = "set_observer i (Some (ob\<lparr>ob_run_owner := Some w\<rparr>)) s"
  have l: "length (rx_observers ?t) = length (rx_observers s)" by (simp add: set_observer_def)
  have ws: "owners_ok ?t"
    by (rule owner_put [OF scope_okD(6) [OF ok] w owner_at_run [OF ob]]) (simp_all add: value_at_owners l)
  show ?thesis
    by (rule scope_ok_owner [OF ok])
      (simp_all add: ws obs_at_set obs_at_range [OF ob] visible_def ob, simp_all add: set_observer_def)
qed

end
