(* ===== verification/ReactiveRun.thy ===== *)
theory ReactiveRun
  imports ReactiveOwn
begin

text \<open>
  What happens to an observer: its registration, the borrow of its closure while it runs, and
  the end of a run, which returns the closure, writes the output and captures the reads.
\<close>

section \<open>A new observer\<close>

lemma add_observer_slot:
  assumes ok: "scope_ok body X s" and a: "add_observer k c s = (r, t)"
  obtains i u where "r = Ok \<lparr>ef_slot = i, ef_gen = rx_obs_gens u ! i\<rparr>" "t = own_effect \<lparr>ef_slot = i, ef_gen = rx_obs_gens u ! i\<rparr> u"
    "obs_at s i = None"
    "obs_at u = (obs_at s)(i := Some \<lparr>ob_closure = Some c, ob_deps = {}, ob_kind = k, ob_run_owner = None\<rparr>)"
    "rx_values u = rx_values s" "rx_gens u = rx_gens s" "rx_subs u = rx_subs s" "rx_revs u = rx_revs s" "rx_owners u = rx_owners s"
    "rx_regions u = rx_regions s" "rx_reads u = rx_reads s" "rx_dirty u = rx_dirty s" "rx_depth u = rx_depth s" "rx_flushing u = rx_flushing s"
    "rx_free_values u = rx_free_values s" "length (rx_obs_gens u) = length (rx_observers u)"
    "length (rx_observers s) \<le> length (rx_observers u)" "i < length (rx_observers u)"
    "\<forall>x < length (rx_observers s). x \<noteq> i \<longrightarrow> rx_obs_gens u ! x = rx_obs_gens s ! x"
    "i < length (rx_observers s) \<longrightarrow> rx_obs_gens s ! i < rx_obs_gens u ! i"
    "\<forall>x < length (rx_observers u). x \<noteq> i \<longrightarrow> x < length (rx_observers s)"
    "distinct (rx_free_observers u)" "set (rx_free_observers u) = set (rx_free_observers s) - {i}"
proof -
  define ob where "ob = \<lparr>ob_closure = Some c, ob_deps = {}, ob_kind = k, ob_run_owner = None\<rparr>"
  note inv = scope_okD [OF ok]
  have l: "length (rx_obs_gens s) = length (rx_observers s)" using inv(1) by (simp add: shape_def)
  show thesis
  proof (cases "rx_free_observers s")
    case Nil
    define u where "u = s\<lparr>rx_observers := rx_observers s @ [Some ob], rx_obs_gens := rx_obs_gens s @ [0]\<rparr>"
    have "obs_at u = (obs_at s)(length (rx_observers s) := Some ob)" by (auto simp: obs_at_def u_def nth_append fun_eq_iff)
    then show thesis
      using a Nil l
      by (intro that [of "length (rx_observers s)" u])
        (auto simp: add_observer_def u_def ob_def Let_def obs_at_def nth_append)
  next
    case (Cons i js)
    define u where "u = s\<lparr>rx_free_observers := js, rx_observers := (rx_observers s)[i := Some ob], rx_obs_gens := (rx_obs_gens s)[i := Suc (rx_obs_gens s ! i)]\<rparr>"
    have i: "i < length (rx_observers s)" "obs_at s i = None" "i \<notin> set js" "distinct js" using inv(2) Cons by (auto simp: free_ok_def)
    have "obs_at u = (obs_at s)(i := Some ob)" using i(1) by (auto simp: obs_at_def u_def fun_eq_iff)
    then show thesis
      using a Cons l i
      by (intro that [of i u]) (auto simp: add_observer_def u_def ob_def Let_def)
  qed
qed

lemma add_observer_ok:
  assumes ok: "scope_ok body X s" and a: "add_observer k c s = (r, t)" and l: "later s0 s"
    and h: "\<And>h. k = Derived h \<Longrightarrow> fresh s0 h \<and> given s h \<and> \<not> lent s h \<and> (\<forall>j. output_of s j \<noteq> Some h)"
  obtains i g where "r = Ok \<lparr>ef_slot = i, ef_gen = g\<rparr>" "i < length (rx_observers t)"
    "obs_at t i = Some \<lparr>ob_closure = Some c, ob_deps = {}, ob_kind = k, ob_run_owner = None\<rparr>"
    "scope_ok body (insert i X) t" "later s0 t" "rx_dirty t = rx_dirty s" "value_at t = value_at s" "rx_gens t = rx_gens s"
proof -
  define ob where "ob = \<lparr>ob_closure = Some c, ob_deps = {}, ob_kind = k, ob_run_owner = None\<rparr>"
  obtain i u where r: "r = Ok \<lparr>ef_slot = i, ef_gen = rx_obs_gens u ! i\<rparr>" and t: "t = own_effect \<lparr>ef_slot = i, ef_gen = rx_obs_gens u ! i\<rparr> u"
    and i: "obs_at s i = None" and ou: "obs_at u = (obs_at s)(i := Some ob)"
    and same: "rx_values u = rx_values s" "rx_gens u = rx_gens s" "rx_subs u = rx_subs s" "rx_revs u = rx_revs s" "rx_owners u = rx_owners s"
    "rx_regions u = rx_regions s" "rx_reads u = rx_reads s" "rx_dirty u = rx_dirty s" "rx_depth u = rx_depth s" "rx_flushing u = rx_flushing s"
    "rx_free_values u = rx_free_values s" and len: "length (rx_obs_gens u) = length (rx_observers u)"
    "length (rx_observers s) \<le> length (rx_observers u)" "i < length (rx_observers u)"
    and g: "\<forall>x < length (rx_observers s). x \<noteq> i \<longrightarrow> rx_obs_gens u ! x = rx_obs_gens s ! x"
    "i < length (rx_observers s) \<longrightarrow> rx_obs_gens s ! i < rx_obs_gens u ! i"
    and new: "\<forall>x < length (rx_observers u). x \<noteq> i \<longrightarrow> x < length (rx_observers s)"
    and free: "distinct (rx_free_observers u)" "set (rx_free_observers u) = set (rx_free_observers s) - {i}"
    using add_observer_slot [OF ok a, folded ob_def] by metis
  note inv = scope_okD [OF ok]
  have f: "rx_values t = rx_values s" "rx_gens t = rx_gens s" "rx_subs t = rx_subs s" "rx_revs t = rx_revs s"
    "rx_regions t = rx_regions s" "rx_reads t = rx_reads s" "rx_dirty t = rx_dirty s" "rx_depth t = rx_depth s" "rx_flushing t = rx_flushing s"
    "rx_free_values t = rx_free_values s" "rx_free_observers t = rx_free_observers u" "rx_observers t = rx_observers u" "rx_obs_gens t = rx_obs_gens u"
    "length (rx_owners t) = length (rx_owners s)"
    by (cases "rx_owners u"; simp add: t own_effect_def same)+
  have o: "obs_at t = (obs_at s)(i := Some ob)" unfolding ou [symmetric] by (simp add: obs_at_def f fun_eq_iff)
  have va: "value_at t = value_at s" by (simp add: value_at_def f fun_eq_iff)
  note cells = same_cells [OF f(1,2)]
  have us: "owner_at u = owner_at s"
    by (rule ext, case_tac x) (simp_all add: same ou i ob_def)
  have vu: "value_at u = value_at s" by (simp add: value_at_def same fun_eq_iff)
  have wu: "owners_ok u" by (rule owners_ok_mono [OF inv(6) us]) (simp_all add: vu len)
  have "owners_ok t"
  proof (cases "rx_owners u")
    case Nil
    then show ?thesis using wu by (simp add: t own_effect_def)
  next
    case (Cons w ws)
    let ?w = "w\<lparr>ow_effects := ow_effects w @ [\<lparr>ef_slot = i, ef_gen = rx_obs_gens u ! i\<rparr>]\<rparr>"
    have e: "t = u\<lparr>rx_owners := ?w # ws\<rparr>" by (simp add: t own_effect_def Cons)
    note top = owner_at_top [OF Cons]
    have w: "owner_live u w" by (rule owners_okD(1) [OF wu top(1)])
    show ?thesis
    proof (rule owners_ok_upd [OF wu])
      show "owner_at t = (owner_at u)(On_Stack (length ws) := Some ?w)" unfolding e by (rule top(2))
      show "owner_live t x" if "Some ?w = Some x" for x
        using that [symmetric] w len(3) by (auto simp: owner_live_def e value_at_owners)
      show "set (ow_values x) \<inter> set (ow_values w') = {}"
        if "Some ?w = Some x" "q \<noteq> On_Stack (length ws)" "owner_at u q = Some w'" for x q w'
        using that(1) [symmetric] owners_okD(2) [OF wu top(1) that(2,3)] by simp
    qed (simp_all add: e value_at_owners)
  qed
  have nd: "i \<notin> rx_dirty s" using inv(4) i by (auto simp: dirty_ok_def)
  have was: "obs_at s j = Some b" if "obs_at t j = Some b" "j \<noteq> i" for j b using that by (simp add: o)
  have "scope_ok body (insert i X) t"
    unfolding scope_ok_def
  proof (intro conjI allI impI)
    show "shape t" using inv(1) len by (simp add: shape_def f)
    show "free_ok t"
      using inv(2) free len new i unfolding free_ok_def f o va by (auto simp: obs_at_def split: if_splits)
    show "subs_ok t"
      unfolding subs_ok_def f va
    proof (intro conjI allI impI)
      fix j b d assume a: "obs_at t j = Some b \<and> d \<in> ob_deps b"
      then have "j \<noteq> i" by (auto simp: o ob_def)
      then have "obs_at s j = Some b" using a was by blast
      then show "value_at s d \<noteq> None" "j \<in> rx_subs s ! d" using a subs_okD(1,2) [OF inv(3)] by blast+
    next
      fix d j assume "d < length (rx_values s) \<and> j \<in> rx_subs s ! d"
      then obtain b where "obs_at s j = Some b" "d \<in> ob_deps b" using subs_okD(3) [OF inv(3)] by blast
      then show "\<exists>ob. obs_at t j = Some ob \<and> d \<in> ob_deps ob" using i by (auto simp: o)
    qed
    show "dirty_ok t" using inv(4) by (auto simp: dirty_ok_def f o)
    show "captures_ok t" using inv(5) by (simp add: captures_ok_def f va)
    show "outputs_ok t"
    proof -
      have out: "output_of t j = (if j = i then (case k of Derived h \<Rightarrow> Some h | Effect \<Rightarrow> None) else output_of s j)" for j
        by (simp add: output_of_def o ob_def)
      have G: "given s g' \<and> \<not> lent s g'" if "output_of s j = Some g'" for j g' using inv(7) that by (simp add: outputs_ok_def)
      have U: "j = j'" if "output_of s j = Some g'" "output_of s j' = Some g'" for j j' g'
        using inv(7) that unfolding outputs_ok_def by blast
      show ?thesis
        unfolding outputs_ok_def cells(4,5)
      proof (rule conjI; intro allI impI)
        show "given s g' \<and> \<not> lent s g'" if "output_of t j = Some g'" for j g'
          using that G [of j g'] h [of g'] by (auto simp: out split: if_splits reaction_kind.splits)
        show "j = j'" if "output_of t j = Some g' \<and> output_of t j' = Some g'" for j j' g'
          using that U [of j g' j'] h [of g'] by (auto simp: out split: if_splits reaction_kind.splits)
      qed
    qed
    fix j assume j: "j \<notin> insert i X \<and> j \<notin> rx_dirty t"
    then have j: "j \<noteq> i" "current body s j" using inv(8) [of j] by (simp_all add: f)
    show "current body t j"
      unfolding current_def cells(2) fits_same [OF f(1,2)]
    proof (intro allI impI)
      fix b c h w
      assume a: "obs_at t j = Some b \<and> ob_closure b = Some c \<and> ob_kind b = Derived h \<and> computes body c \<and> read_signal s h = Inr w"
      then show "fits s (ob_deps b) (body c) w" using j was [of j b] by (simp add: current_def)
    qed
  qed (rule \<open>owners_ok t\<close>)
  moreover have "later s0 t"
  proof -
    have og: "rx_obs_gens t ! x = rx_obs_gens s ! x" if "x < length (rx_observers s)" "x \<noteq> i" for x using g(1) that by (simp add: f)
    note L = laterD [OF l]
    have gm: "rx_obs_gens s0 ! x \<le> rx_obs_gens t ! x" if "x < length (rx_observers s0)" for x
      using L(8) [OF that] og [of x] g(2) L(7) that by (cases "x = i") (auto simp: f)
    show ?thesis
      unfolding later_def f(8,9,14,6,2,12)
    proof (intro conjI allI impI)
      fix j b assume b: "obs_at t j = Some b"
      show "(\<exists>ob0. obs_at s0 j = Some ob0 \<and> rx_obs_gens t ! j = rx_obs_gens s0 ! j \<and> ob_kind b = ob_kind ob0 \<and>
           (ob_closure b = None \<longleftrightarrow> ob_closure ob0 = None)) \<or>
        ob_closure b \<noteq> None \<and> (j < length (rx_observers s0) \<longrightarrow> rx_obs_gens s0 ! j < rx_obs_gens t ! j) \<and>
        (\<forall>h. ob_kind b = Derived h \<longrightarrow> fresh s0 h)"
      proof (cases "j = i")
        case True
        have "rx_obs_gens s0 ! i < rx_obs_gens t ! i" if "i < length (rx_observers s0)"
          using L(7) L(8) [OF that] g(2) that by (simp add: f)
        then show ?thesis using True b h by (auto simp: o ob_def)
      next
        case False
        have bs: "obs_at s j = Some b" by (rule was [OF b False])
        have e: "rx_obs_gens t ! j = rx_obs_gens s ! j" by (rule og [OF obs_at_range [OF bs] False])
        show ?thesis
          using later_obs [OF l bs] unfolding e by metis
      qed
    qed (use L gm len(2) in \<open>auto simp: va cells(4)\<close>)
  qed
  ultimately show thesis using that r o va f len(3) by (simp add: ob_def)
qed


section \<open>An observer changes\<close>

lemma scope_ok_run:
  assumes ok: "scope_ok body (insert i X) s" and ob: "obs_at s i = Some ob"
    and k: "ob_kind ob' = ob_kind ob" "ob_run_owner ob' = ob_run_owner ob"
    and same: "rx_values t = rx_values s" "rx_gens t = rx_gens s" "rx_revs t = rx_revs s" "rx_obs_gens t = rx_obs_gens s"
      "rx_free_values t = rx_free_values s" "rx_free_observers t = rx_free_observers s" "length (rx_subs t) = length (rx_subs s)"
      "length (rx_observers t) = length (rx_observers s)" "rx_owners t = rx_owners s" "rx_regions t = rx_regions s"
    and o: "obs_at t = (obs_at s)(i := Some ob')"
    and su: "subs_ok t" and dirty: "rx_dirty s \<subseteq> rx_dirty t" "rx_dirty t \<subseteq> insert i (rx_dirty s)" and rds: "captures_ok t"
    and cur: "i \<notin> X \<Longrightarrow> i \<notin> rx_dirty t \<Longrightarrow> current body t i"
  shows "scope_ok body X t"
proof -
  note inv = scope_okD [OF ok]
  have va: "value_at t = value_at s" by (simp add: value_at_def same fun_eq_iff)
  note cells = same_cells [OF same(1,2)]
  have ow: "owner_at t = owner_at s"
    by (rule ext, case_tac x) (simp_all add: same o ob k)
  have out: "output_of t = output_of s" by (simp add: output_of_def o ob k fun_eq_iff)
  show ?thesis
    unfolding scope_ok_def
  proof (intro conjI allI impI)
    show "shape t" using inv(1) by (simp add: shape_def same)
    show "free_ok t" using inv(2) ob by (auto simp: free_ok_def same va o)
    show "dirty_ok t" using inv(4) dirty(2) by (auto simp: dirty_ok_def o)
    show "owners_ok t" by (rule owners_ok_mono [OF inv(6) ow]) (simp_all add: va same)
    show "outputs_ok t" using inv(7) by (simp add: outputs_ok_def cells(4,5) out)
    fix j assume j: "j \<notin> X \<and> j \<notin> rx_dirty t"
    show "current body t j"
    proof (cases "j = i")
      case True
      then show ?thesis using cur j by simp
    next
      case False
      then have c: "current body s j" using inv(8) [of j] j dirty(1) by auto
      show ?thesis
        unfolding current_def cells(2) fits_same [OF same(1,2)]
      proof (intro allI impI)
        fix b c h w
        assume "obs_at t j = Some b \<and> ob_closure b = Some c \<and> ob_kind b = Derived h \<and> computes body c \<and> read_signal s h = Inr w"
        then show "fits s (ob_deps b) (body c) w" using c False by (simp add: current_def o)
      qed
    qed
  qed (use su rds in auto)
qed

text \<open>The closure of an observer is borrowed, or given back.\<close>

lemma set_closure_ok:
  assumes ok: "scope_ok body (insert i X) s" and ob: "obs_at s i = Some ob"
    and cur: "i \<notin> X \<Longrightarrow> x = None"
  defines "t \<equiv> set_observer i (Some (ob\<lparr>ob_closure := x\<rparr>)) s"
  shows "scope_ok body X t"
proof -
  have o: "obs_at t = (obs_at s)(i := Some (ob\<lparr>ob_closure := x\<rparr>))" unfolding t_def by (rule obs_at_set [OF obs_at_range [OF ob]])
  have f: "rx_values t = rx_values s" "rx_subs t = rx_subs s" "rx_reads t = rx_reads s" by (simp_all add: t_def set_observer_def)
  have va: "value_at t = value_at s" by (simp add: value_at_def f fun_eq_iff)
  note su = scope_okD(3) [OF ok]
  have "subs_ok t"
    unfolding subs_ok_def va f
  proof (intro conjI allI impI)
    fix j b d assume a: "obs_at t j = Some b \<and> d \<in> ob_deps b"
    then have "\<exists>b. obs_at s j = Some b \<and> d \<in> ob_deps b" by (auto simp: o ob split: if_splits)
    then show "value_at s d \<noteq> None" "j \<in> rx_subs s ! d" using subs_okD(1,2) [OF su] by blast+
  next
    fix d j assume "d < length (rx_values s) \<and> j \<in> rx_subs s ! d"
    then obtain b where "obs_at s j = Some b" "d \<in> ob_deps b" using subs_okD(3) [OF su] by blast
    then show "\<exists>ob. obs_at t j = Some ob \<and> d \<in> ob_deps ob" using ob by (auto simp: o)
  qed
  moreover have "current body t i" if "i \<notin> X" using cur [OF that] by (simp add: current_def o)
  ultimately show ?thesis
    using scope_okD(5) [OF ok]
    by (intro scope_ok_run [OF ok ob _ _ _ _ _ _ _ _ _ _ _ _ o])
      (simp_all add: captures_ok_def va f, auto simp: t_def set_observer_def)
qed

text \<open>The reads of a run become its dependencies; it is dirty when one has changed since.\<close>

lemma capture_reads_ok:
  assumes ok: "scope_ok body (insert i X) s" and ob: "obs_at s i = Some ob"
    and R: "\<And>d. d \<in> fst ` set R \<Longrightarrow> value_at s d \<noteq> None"
    and cur: "\<And>c h v. \<forall>(d, r) \<in> set R. rx_revs s ! d = r \<Longrightarrow> ob_closure ob = Some c \<Longrightarrow> ob_kind ob = Derived h \<Longrightarrow>
       computes body c \<Longrightarrow> read_signal s h = Inr v \<Longrightarrow> fits s (fst ` set R) (body c) v"
  defines "t \<equiv> capture_reads i ob R s"
  shows "scope_ok body X t" and "obs_at t = (obs_at s)(i := Some (ob\<lparr>ob_deps := fst ` set R\<rparr>))"
proof -
  let ?D = "fst ` set R"
  let ?stale = "\<exists>(d, r) \<in> set R. rx_revs s ! d \<noteq> r"
  have f: "rx_values t = rx_values s" "rx_gens t = rx_gens s" "rx_revs t = rx_revs s" "rx_obs_gens t = rx_obs_gens s"
    "rx_free_values t = rx_free_values s" "rx_free_observers t = rx_free_observers s" "length (rx_subs t) = length (rx_subs s)"
    "length (rx_observers t) = length (rx_observers s)" "rx_owners t = rx_owners s" "rx_regions t = rx_regions s" "rx_reads t = rx_reads s"
    "rx_dirty t = (if ?stale then insert i (rx_dirty s) else rx_dirty s)" "rx_observers t = (rx_observers s)[i := Some (ob\<lparr>ob_deps := ?D\<rparr>)]"
    "rx_subs t = rx_subs (resubscribe i (ob_deps ob) ?D s)"
    by (auto simp: t_def capture_reads_def set_observer_def resubscribe_same Let_def)
  show o: "obs_at t = (obs_at s)(i := Some (ob\<lparr>ob_deps := ?D\<rparr>))"
    using obs_at_range [OF ob] by (auto simp: obs_at_def f fun_eq_iff)
  have va: "value_at t = value_at s" by (simp add: value_at_def f fun_eq_iff)
  note cells = same_cells [OF f(1,2)]
  note inv = scope_okD [OF ok]
  have sl: "length (rx_subs s) = length (rx_values s)" using inv(1) by (simp add: shape_def)
  have su: "rx_subs t ! d = (if d \<in> ob_deps ob - ?D then rx_subs s ! d - {i} else if d \<in> ?D - ob_deps ob then insert i (rx_subs s ! d) else rx_subs s ! d)"
    if "d < length (rx_values s)" for d using that sl by (simp add: f(14) resubscribe_nth)
  have mine: "i \<in> rx_subs s ! d \<longleftrightarrow> d \<in> ob_deps ob" if "d < length (rx_values s)" for d
    using subs_okD(2,3) [OF inv(3)] that ob by fastforce
  have "subs_ok t"
    unfolding subs_ok_def va f
  proof (intro conjI allI impI)
    fix j b d assume a: "obs_at t j = Some b \<and> d \<in> ob_deps b"
    show live: "value_at s d \<noteq> None"
    proof (cases "j = i")
      case True
      then have "d \<in> ?D" using a by (auto simp: o)
      then show ?thesis by (rule R)
    next
      case False
      then show ?thesis using a subs_okD(1) [OF inv(3), of j b d] by (simp add: o)
    qed
    show "j \<in> rx_subs (resubscribe i (ob_deps ob) ?D s) ! d"
    proof (cases "j = i")
      case True
      then have "d \<in> ?D" using a by (auto simp: o)
      then show ?thesis using True su [OF value_at_range [OF live]] mine [OF value_at_range [OF live]] unfolding f(14) by auto
    next
      case False
      then have "j \<in> rx_subs s ! d" using a subs_okD(2) [OF inv(3)] by (simp add: o)
      then show ?thesis using False su [OF value_at_range [OF live]] unfolding f(14) by auto
    qed
  next
    fix d j assume a: "d < length (rx_values s) \<and> j \<in> rx_subs (resubscribe i (ob_deps ob) ?D s) ! d"
    then have j: "j \<in> rx_subs t ! d" and d: "d < length (rx_values s)" by (simp_all add: f)
    show "\<exists>ob. obs_at t j = Some ob \<and> d \<in> ob_deps ob"
    proof (cases "j = i")
      case True
      have "d \<in> ?D" using j mine [OF d] True unfolding su [OF d] by (auto split: if_splits)
      then show ?thesis using True by (simp add: o)
    next
      case False
      then have "j \<in> rx_subs s ! d" using j unfolding su [OF d] by (auto split: if_splits)
      then show ?thesis using False subs_okD(3) [OF inv(3) d] by (simp add: o)
    qed
  qed
  moreover have "current body t i" if "i \<notin> rx_dirty t"
    unfolding current_def cells(2) fits_same [OF f(1,2)]
  proof (intro allI impI)
    fix b c h v
    assume "obs_at t i = Some b \<and> ob_closure b = Some c \<and> ob_kind b = Derived h \<and> computes body c \<and> read_signal s h = Inr v"
    then have b: "b = ob\<lparr>ob_deps := ?D\<rparr>" and a: "ob_closure ob = Some c" "ob_kind ob = Derived h" "computes body c" "read_signal s h = Inr v"
      by (auto simp: o)
    have "\<forall>(d, r) \<in> set R. rx_revs s ! d = r" using that by (auto simp: f split: if_splits)
    from cur [OF this a] show "fits s (ob_deps b) (body c) v" by (simp add: b)
  qed
  ultimately show "scope_ok body X t"
    using inv(5) by (intro scope_ok_run [OF ok ob _ _ f(1-10) o]) (auto simp: captures_ok_def va f)
qed

end
