(* ===== verification/ReactiveExec.thy ===== *)
theory ReactiveExec
  imports ReactiveRun
begin

text \<open>
  User code in a scope: every call keeps the invariant and returns, or stops with one of the
  panics of \<open>excuses\<close>. What the code needs of a flush and of the evaluation of a new observer are
  the assumptions of the locale \<open>reactive_host\<close>; the scope provides both, to a client and to a reaction.
\<close>

section \<open>How a run ends\<close>

definition excuses :: "string set" where
  "excuses = {stack_overflow, unsettled, ill_typed}"

definition ends :: "('s, 'a) rm \<Rightarrow> 's \<Rightarrow> ('a \<Rightarrow> 's \<Rightarrow> bool) \<Rightarrow> bool" where
  "ends m s P \<longleftrightarrow> (case m s of (r, t) \<Rightarrow> (case r of Ok a \<Rightarrow> P a t | Err e \<Rightarrow> False | Panic p \<Rightarrow> p \<in> excuses))"

lemma ends_ret: "P a s \<Longrightarrow> ends (ret a) s P"
  by (simp add: ends_def run_simps)

lemma ends_modify: "P () (f s) \<Longrightarrow> ends (modify f) s P"
  by (simp add: ends_def run_simps)

lemma ends_Ok: "m s = (Ok a, t) \<Longrightarrow> P a t \<Longrightarrow> ends m s P"
  by (simp add: ends_def)

lemma ends_Panic: "m s = (Panic p, t) \<Longrightarrow> p \<in> excuses \<Longrightarrow> ends m s P"
  by (simp add: ends_def)

lemma ends_mono: "ends m s P \<Longrightarrow> (\<And>a t. P a t \<Longrightarrow> Q a t) \<Longrightarrow> ends m s Q"
  by (auto simp: ends_def split: prod.splits res.splits)

lemma ends_bind:
  assumes m: "ends m s P" and f: "\<And>a t. P a t \<Longrightarrow> ends (f a) t Q"
  shows "ends (bind m f) s Q"
proof -
  obtain r t where e: "m s = (r, t)" by fastforce
  show ?thesis
  proof (cases r)
    case (Ok a)
    then have "ends (f a) t Q" using m e by (intro f) (simp add: ends_def)
    then show ?thesis using e Ok by (simp add: ends_def bind_def)
  qed (use m e in \<open>simp_all add: ends_def bind_def\<close>)
qed

lemma ends_seq: "ends m s P \<Longrightarrow> (\<And>t. P () t \<Longrightarrow> ends k t Q) \<Longrightarrow> ends (seq m k) s Q"
  unfolding seq_def by (rule ends_bind [where P = P]) auto

lemma excused_panics [simp]: "stack_overflow \<in> excuses" "unsettled \<in> excuses" "ill_typed \<in> excuses"
  by (simp_all add: excuses_def)


section \<open>Between two calls\<close>

definition busy :: "('v, 'c) scope_core \<Rightarrow> bool" where
  "busy s \<longleftrightarrow> rx_depth s \<noteq> 0 \<or> rx_flushing s"

text \<open>No closure is running.\<close>

definition rested :: "('v, 'c) scope_core \<Rightarrow> bool" where
  "rested s \<longleftrightarrow> (\<forall>i ob. obs_at s i = Some ob \<longrightarrow> ob_closure ob \<noteq> None)"

text \<open>Between two calls of user code; \<open>b\<close> says that the code runs within a reaction.\<close>

definition ready :: "bool \<Rightarrow> ('c \<Rightarrow> ('v, 'c) code) \<Rightarrow> ('v, 'c) scope_core \<Rightarrow> bool" where
  "ready b body s \<longleftrightarrow> scope_ok body {} s \<and> (busy s \<or> \<not> b \<and> rested s \<and> rx_dirty s = {})"

lemma later_busy: "later s t \<Longrightarrow> busy t = busy s"
  by (simp add: busy_def laterD(1,2))

lemma later_rested: "later s t \<Longrightarrow> rested s \<Longrightarrow> rested t"
  unfolding rested_def by (metis later_obs)

lemma ready_step:
  "ready b body s \<Longrightarrow> scope_ok body {} t \<Longrightarrow> later s t \<Longrightarrow> rx_dirty t \<subseteq> rx_dirty s \<Longrightarrow> ready b body t"
  unfolding ready_def using later_busy later_rested by blast

lemma ready_flags: "ready b body s \<Longrightarrow> later s t \<Longrightarrow> busy t \<or> \<not> b \<and> rested t"
  unfolding ready_def using later_busy later_rested by blast

definition flusher :: "bool \<Rightarrow> ('c \<Rightarrow> ('v, 'c) code) \<Rightarrow> ('v, 'c, unit) rx \<Rightarrow> bool" where
  "flusher b body fl \<longleftrightarrow>
     (\<forall>s. scope_ok body {} s \<and> (busy s \<or> \<not> b \<and> rested s) \<longrightarrow> ends fl s (\<lambda>_ t. ready b body t \<and> later s t))"

definition evaluator :: "('c \<Rightarrow> ('v, 'c) code) \<Rightarrow> (nat \<Rightarrow> ('v, 'c, unit) rx) \<Rightarrow> bool" where
  "evaluator body ev \<longleftrightarrow>
     (\<forall>s i. scope_ok body {i} s \<and> busy s \<and> i < length (rx_observers s) \<and>
        (\<forall>ob. obs_at s i = Some ob \<longrightarrow> ob_closure ob \<noteq> None) \<longrightarrow>
        ends (ev i) s (\<lambda>_ t. scope_ok body {} t \<and> later s t))"

lemma flusherD: "flusher b body fl \<Longrightarrow> scope_ok body {} s \<Longrightarrow> busy s \<or> \<not> b \<and> rested s \<Longrightarrow> ends fl s (\<lambda>_ t. ready b body t \<and> later s t)"
  by (simp add: flusher_def)

lemma flush_inside_ok: "flusher True body flush_inside"
  unfolding flusher_def
proof (intro allI impI)
  fix s assume s: "scope_ok body {} s \<and> (busy s \<or> \<not> True \<and> rested s)"
  have "flush_inside s = (Ok (), s)"
    using s by (simp add: flush_inside_def bind_def gets_run ret_run busy_def)
  then show "ends flush_inside s (\<lambda>_ t. ready True body t \<and> later s t)"
    by (rule ends_Ok) (use s in \<open>simp add: ready_def later_refl\<close>)
qed


section \<open>Calls\<close>

lemma try_get_ok:
  assumes "ready b body s"
  shows "ends (try_get h) s (\<lambda>_ t. ready b body t \<and> later s t)"
proof (cases "read_signal s h")
  case (Inl e)
  then show ?thesis by (intro ends_Ok [of _ _ "Inl e" s]) (simp_all add: try_get_def assms later_refl)
next
  case (Inr v)
  have ok: "scope_ok body {} s" using assms by (simp add: ready_def)
  have d: "value_at s (sg_slot h) \<noteq> None" using Inr by (simp add: read_signal_Inr [OF scope_okD(1) [OF ok]])
  have "rx_dirty (note_read (sg_slot h) s) = rx_dirty s" by (simp add: note_read_def split: list.splits)
  then show ?thesis
    using Inr note_read_ok [OF ok d] ready_step [OF assms]
    by (intro ends_Ok [of _ _ "Inr v" "note_read (sg_slot h) s"]) (simp_all add: try_get_def)
qed

lemma not_output: "\<not> is_output s d \<Longrightarrow> obs_at s i = Some ob \<Longrightarrow> ob_kind ob = Derived h \<Longrightarrow> sg_slot h \<noteq> d"
  unfolding is_output_iff output_of_Some by blast

lemma make_ok:
  assumes s: "ready b body s"
  shows "ends (allocate (Held v)) s (\<lambda>_ t. ready b body t \<and> later s t)"
proof -
  have ok: "scope_ok body {} s" using s by (simp add: ready_def)
  obtain r t where e: "allocate (Held v) s = (r, t)" by fastforce
  obtain h where "r = Ok h" "scope_ok body {} t" "later s t" "rx_dirty t = rx_dirty s"
    using allocate_ok [OF ok e cell.distinct(5)] by metis
  then show ?thesis using e ready_step [OF s] by (intro ends_Ok [of _ _ h t]) simp_all
qed

text \<open>A cell that was lent is returned, if it is still there, and the change is marked.\<close>

lemma returned_ok:
  assumes ok: "scope_ok body {} s" and v: "signal_value s h = Inr (Held v)" and out: "\<not> is_output s (sg_slot h)"
    and u: "u = lend_value (sg_slot h) v s" and t: "scope_ok body {} t" "later u t"
  shows "scope_ok body {} (mark_changed (sg_slot h) (return_value h v' t))"
    and "later s (mark_changed (sg_slot h) (return_value h v' t))"
proof -
  let ?d = "sg_slot h" and ?t = "mark_changed (sg_slot h) (return_value h v' t)"
  note inv = scope_okD [OF ok] and invt = scope_okD [OF t(1)] and L = laterD [OF t(2)]
  have h: "?d < length (rx_gens s)" "rx_gens s ! ?d = sg_gen h" "value_at s ?d = Some (Held v)"
    using v by (auto simp: signal_value_alt [OF inv(1)] split: if_splits option.splits)
  have f: "rx_gens u = rx_gens s" "rx_obs_gens u = rx_obs_gens s" "length (rx_observers u) = length (rx_observers s)"
    "rx_depth u = rx_depth s" "rx_flushing u = rx_flushing s" "rx_owners u = rx_owners s" "rx_reads u = rx_reads s"
    by (simp_all add: u lend_value_def)
  have ou: "obs_at u = obs_at s" by (simp add: obs_at_def u lend_value_def fun_eq_iff)
  have vu: "value_at u x = (if x = ?d then Some (Lent v) else value_at s x)" for x
    using value_at_range [of s ?d] h(3) by (simp add: value_at_def u lend_value_def)
  have shu: "shape u" using inv(1) by (simp add: shape_def u lend_value_def)
  have fr: "fresh u = fresh s" by (simp add: fresh_def given_def f fun_eq_iff)
  have dt: "?d < length (rx_values t)" using h(1) L(5) invt(1) by (simp add: shape_def f)
  have apart: "rx_gens t ! ?d \<noteq> sg_gen h'"
    if o: "obs_at t i = Some ob" "ob_kind ob = Derived h'" "sg_slot h' = ?d" and g: "rx_gens t ! ?d = sg_gen h" for i ob h'
  proof (cases rule: later_obs [OF t(2) o(1)])
    case (1 ob0)
    then show ?thesis using not_output [OF out, of i ob0 h'] o(2,3) by (simp add: ou)
  next
    case 2
    then have "\<not> given s h'" using o(2) by (simp add: fr fresh_def)
    then show ?thesis using o(3) g h(1,2) by (auto simp: given_def)
  qed
  have ok': "scope_ok body {} ?t \<and> (\<forall>x. lent ?t x \<longrightarrow> lent t x \<and> x \<noteq> h)"
  proof (cases "signal_value t h")
    case (Inl x)
    then have "?t = mark_changed ?d t" by (simp add: return_value_def)
    moreover have "rx_values (mark_changed ?d t) = rx_values t" "rx_gens (mark_changed ?d t) = rx_gens t"
      by (simp_all add: mark_changed_def)
    from same_cells(4) [OF this] have "lent (mark_changed ?d t) = lent t" .
    moreover have "\<not> lent t h" using Inl by (simp add: lent_def)
    ultimately show ?thesis using mark_ok [OF t(1) dt] by auto
  next
    case (Inr cell)
    then have live: "value_at t ?d \<noteq> None" and g: "rx_gens t ! ?d = sg_gen h"
      by (auto simp: signal_value_alt [OF invt(1)] split: if_splits option.splits)
    have e: "?t = mark_changed ?d (store_value ?d v' t)" using Inr by (simp add: return_value_def)
    show ?thesis
      unfolding e using write_ok(1) [OF t(1) live, of v'] write_lent [OF invt(1) live] apart [OF _ _ _ g] g by blast
  qed
  then show "scope_ok body {} ?t" by blast
  have lt: "lent s x" if "lent ?t x" for x
  proof -
    have x: "lent u x" "x \<noteq> h" using L(10) ok' that by blast+
    then have "sg_slot x \<noteq> ?d" using h(2) by (auto simp: lent_alt [OF shu] f signal.equality)
    then show ?thesis using x(1) by (simp add: lent_alt [OF shu] lent_alt [OF inv(1)] f vu)
  qed
  have n: "value_at ?t x = None \<longleftrightarrow> value_at t x = None" for x
    using dt by (cases "signal_value t h")
      (auto simp: signal_value_alt [OF invt(1)] value_at_def return_value_def mark_changed_def store_value_def nth_list_update
        split: if_splits option.splits)
  have ft: "rx_gens ?t = rx_gens t" "rx_obs_gens ?t = rx_obs_gens t" "rx_observers ?t = rx_observers t"
    "rx_depth ?t = rx_depth t" "rx_flushing ?t = rx_flushing t" "rx_owners ?t = rx_owners t" "rx_reads ?t = rx_reads t"
    by (simp_all add: mark_changed_def return_value_def store_value_def split: sum.split)
  have ot: "obs_at ?t = obs_at t" by (simp add: obs_at_def ft fun_eq_iff)
  have nu: "value_at u x = None \<longleftrightarrow> value_at s x = None" for x by (simp add: vu h(3))
  show "later s ?t"
    using t(2) unfolding later_def f ft ot n nu ou fr using lt by blast
qed

text \<open>What calls rely on: the flush that a write asks for, and the first evaluation of a new observer.\<close>

locale reactive_host =
  fixes b :: bool and body :: "'c \<Rightarrow> ('v, 'c) code" and fl :: "('v, 'c, unit) rx" and ev :: "nat \<Rightarrow> ('v, 'c, unit) rx"
  assumes flushes: "flusher b body fl" and evaluates: "evaluator body ev"
begin

lemma try_set_ok:
  assumes s: "ready b body s"
  shows "ends (try_set fl h v) s (\<lambda>_ t. ready b body t \<and> later s t)"
proof -
  have ok: "scope_ok body {} s" using s by (simp add: ready_def)
  show ?thesis
  proof (cases "signal_value s h")
    case (Inl e)
    then show ?thesis by (intro ends_Ok [of _ _ "Some e" s]) (simp_all add: try_set_def s later_refl)
  next
    case (Inr cell)
    then have d: "value_at s (sg_slot h) \<noteq> None"
      by (auto simp: signal_value_alt [OF scope_okD(1) [OF ok]] split: if_splits option.splits)
    show ?thesis
    proof (cases "(\<exists>x. cell = Lent x) \<or> is_output s (sg_slot h)")
      case True
      then have "try_set fl h v s = (Ok (Some Borrowed_Value), s) \<or> try_set fl h v s = (Panic ill_typed, s)"
        using Inr by (auto simp: try_set_def split: cell.split)
      then show ?thesis using s later_refl by (auto intro: ends_Ok ends_Panic)
    next
      case False
      let ?t = "mark_changed (sg_slot h) (store_value (sg_slot h) v s)"
      have t: "scope_ok body {} ?t" "later s ?t"
        using write_ok [OF ok d, of v] not_output [of s "sg_slot h"] False by blast+
      have "ends (seq fl (ret None)) ?t (\<lambda>_ t. ready b body t \<and> later s t)"
        by (rule ends_seq [OF flusherD [OF flushes t(1) ready_flags [OF s t(2)]]])
          (use later_trans [OF t(2)] in \<open>auto intro!: ends_ret\<close>)
      moreover have "try_set fl h v s = seq fl (ret None) ?t"
        using Inr False
        by (cases cell) (simp_all add: try_set_def changed_def seq_def bind_def modify_run split: prod.splits)
      ultimately show ?thesis by (simp add: ends_def)
    qed
  qed
qed

text \<open>
  An update: its closure runs while the cell is borrowed, and may write, dispose and flush like any code. At its
  end the cell is what it was, with another value, or it is disposed.
\<close>

lemma update_ok:
  assumes s: "ready b body s"
    and run: "\<And>v s. ready b body s \<Longrightarrow> ends (run v) s (\<lambda>_ t. ready b body t \<and> later s t)"
  shows "ends (update_signal fl run h) s (\<lambda>_ t. ready b body t \<and> later s t)"
proof (cases "\<exists>v. signal_value s h = Inr (Held v) \<and> \<not> is_output s (sg_slot h)")
  case False
  then have "(\<exists>e. update_signal fl run h s = (Ok (Inl e), s)) \<or> update_signal fl run h s = (Panic ill_typed, s)"
    by (auto simp: update_signal_def split: sum.split cell.split)
  then show ?thesis using s later_refl by (auto intro: ends_Ok ends_Panic)
next
  case True
  let ?d = "sg_slot h"
  obtain v where v: "signal_value s h = Inr (Held v)" and out: "\<not> is_output s ?d" using True by blast
  define u where "u = lend_value ?d v s"
  have ok: "scope_ok body {} s" using s by (simp add: ready_def)
  have oku: "scope_ok body {} u" unfolding u_def by (rule lend_ok [OF ok v out])
  have "obs_at u = obs_at s" by (simp add: obs_at_def u_def lend_value_def fun_eq_iff)
  moreover have "busy u = busy s" "rx_dirty u = rx_dirty s" by (simp_all add: busy_def u_def lend_value_def)
  ultimately have "ready b body u" using s oku by (simp add: ready_def rested_def)
  then have r: "ends (run v) u (\<lambda>_ t. ready b body t \<and> later u t)" by (rule run)
  have k: "ends (seq (modify (return_value h v')) (seq (changed fl ?d) (ret (Inr c :: failure + 'c)))) t (\<lambda>_ t. ready b body t \<and> later s t)"
    if t: "ready b body t" "later u t" for v' c t
  proof -
    let ?t = "mark_changed ?d (return_value h v' t)"
    have m: "scope_ok body {} ?t" "later s ?t" using returned_ok [OF ok v out u_def] t by (simp_all add: ready_def)
    have "ends (seq fl (ret (Inr c :: failure + 'c))) ?t (\<lambda>_ t. ready b body t \<and> later s t)"
      by (rule ends_seq [OF flusherD [OF flushes m(1) ready_flags [OF s m(2)]]])
        (use later_trans [OF m(2)] in \<open>auto intro!: ends_ret\<close>)
    moreover have "seq (modify (return_value h v')) (seq (changed fl ?d) (ret (Inr c :: failure + 'c))) t = seq fl (ret (Inr c :: failure + 'c)) ?t"
      by (simp add: changed_def seq_def bind_def modify_run split: prod.splits res.splits)
    ultimately show ?thesis by (simp add: ends_def)
  qed
  have "ends (bind (run v) (\<lambda>(v', c). seq (modify (return_value h v')) (seq (changed fl ?d) (ret (Inr c :: failure + 'c))))) u
      (\<lambda>_ t. ready b body t \<and> later s t)"
    by (rule ends_bind [OF r]) (use k in auto)
  moreover have "update_signal fl run h s =
      bind (run v) (\<lambda>(v', c). seq (modify (return_value h v')) (seq (changed fl ?d) (ret (Inr c :: failure + 'c)))) u"
    using v out by (simp add: update_signal_def u_def seq_def bind_def modify_run)
  ultimately show ?thesis by (simp add: ends_def)
qed

text \<open>A batch, around any run that keeps the invariant.\<close>

lemma batch_ok:
  assumes s: "busy s \<or> \<not> b \<and> rested s"
    and m: "ends m (s\<lparr>rx_depth := Suc (rx_depth s)\<rparr>) (\<lambda>_ t. scope_ok body {} t \<and> later (s\<lparr>rx_depth := Suc (rx_depth s)\<rparr>) t)"
  shows "ends (batch fl m) s (\<lambda>_ t. ready b body t \<and> later s t)"
  unfolding batch_def
proof (rule ends_seq [OF ends_modify [where P = "\<lambda>_ t. t = s\<lparr>rx_depth := Suc (rx_depth s)\<rparr>"]], rule refl, clarify,
    rule ends_bind [OF m], elim conjE)
  fix a t assume t: "scope_ok body {} t" "later (s\<lparr>rx_depth := Suc (rx_depth s)\<rparr>) t"
  let ?u = "t\<lparr>rx_depth := rx_depth t - 1\<rparr>"
  have "rx_depth t - 1 = rx_depth s" using laterD(1) [OF t(2)] by simp
  then have l: "later s ?u" using later_depth [OF t(2), of "rx_depth s"] by simp
  have f: "busy ?u \<or> \<not> b \<and> rested ?u" using s later_busy [OF l] later_rested [OF l] by blast
  show "ends (seq (modify (\<lambda>s. s\<lparr>rx_depth := rx_depth s - 1\<rparr>)) (seq fl (ret a))) t (\<lambda>_ t. ready b body t \<and> later s t)"
    by (rule ends_seq [OF ends_modify [where P = "\<lambda>_ u. u = ?u"]], rule refl, clarify,
        rule ends_seq [OF flusherD [OF flushes scope_ok_flags(1) [OF t(1)] f]])
      (use later_trans [OF l] in \<open>auto intro!: ends_ret\<close>)
qed

lemma observe_ok:
  assumes s0: "ready b body s0"
    and ok: "scope_ok body {} s" and l: "later s0 s"
    and h: "\<And>h. k = Derived h \<Longrightarrow> fresh s0 h \<and> given s h \<and> \<not> lent s h \<and> (\<forall>j. output_of s j \<noteq> Some h)"
  shows "ends (observe_reaction ev fl k c) s (\<lambda>_ t. ready b body t \<and> later s0 t)"
proof -
  obtain r t where e: "add_observer k c s = (r, t)" by fastforce
  obtain i g where r: "r = Ok \<lparr>ef_slot = i, ef_gen = g\<rparr>" and i: "i < length (rx_observers t)"
    and ob: "obs_at t i = Some \<lparr>ob_closure = Some c, ob_deps = {}, ob_kind = k, ob_run_owner = None\<rparr>"
    and t: "scope_ok body {i} t" "later s0 t"
    using add_observer_ok [OF ok e l h] by metis
  let ?t = "t\<lparr>rx_depth := Suc (rx_depth t)\<rparr>"
  have "ends (ev i) ?t (\<lambda>_ u. scope_ok body {} u \<and> later ?t u)"
    using evaluates scope_ok_flags(1) [OF t(1)] i ob unfolding evaluator_def by (simp add: busy_def flags_simps)
  from batch_ok [OF ready_flags [OF s0 t(2)] this]
  have b: "ends (batch fl (ev i)) t (\<lambda>_ u. ready b body u \<and> later t u)" .
  show ?thesis
    unfolding observe_reaction_def
    by (rule ends_bind [OF ends_Ok [where P = "\<lambda>x u. x = \<lparr>ef_slot = i, ef_gen = g\<rparr> \<and> u = t"]], rule e [unfolded r], simp, clarify,
        rule ends_seq, simp, rule b)
      (use later_trans [OF t(2)] in \<open>auto intro!: ends_ret\<close>)
qed

lemma derived_ok:
  assumes s: "ready b body s"
  shows "ends (derived ev fl c) s (\<lambda>_ t. ready b body t \<and> later s t)"
proof -
  have ok: "scope_ok body {} s" using s by (simp add: ready_def)
  obtain r t where e: "allocate Unset s = (r, t)" by fastforce
  obtain h where h: "r = Ok h" "scope_ok body {} t" "later s t" "fresh s h" "given t h" "obs_at t = obs_at s" "\<not> lent t h"
    using allocate_ok [OF ok e cell.distinct(3)] by metis
  have "output_of t j \<noteq> Some h" for j
    using scope_okD(7) [OF ok] h(4) unfolding outputs_ok_def fresh_def output_of_def h(6) by blast
  then have o: "ends (observe_reaction ev fl (Derived h) c) t (\<lambda>_ u. ready b body u \<and> later s u)"
    using h by (intro observe_ok [OF s h(2,3)]) simp
  show ?thesis
    unfolding derived_def
    by (rule ends_bind [OF ends_Ok [where P = "\<lambda>x u. x = h \<and> u = t"]], rule e [unfolded h(1)], simp, clarify,
        rule ends_bind [OF o]) (auto intro!: ends_ret)
qed

end

lemma dispose_ok:
  assumes s: "ready b body s"
  shows "ends (dispose e) s (\<lambda>_ t. ready b body t \<and> later s t)"
proof (cases "ef_slot e < length (rx_observers s)")
  case False
  then show ?thesis
    by (intro ends_Panic [of _ _ ill_typed s]) (simp_all add: dispose_def bind_def gets_run panic_run)
next
  case True
  have ok: "scope_ok body {} s" using s by (simp add: ready_def)
  obtain t where t: "eachM (dispose_effect dispose_slot) [e] s = (Ok (), t)" "scope_ok body {} t" "shrinks {} s t"
    using effects_dropped [OF disposes_any ok lessI, of "[e]"] True by auto
  have "dispose e s = (Ok (), t)"
    using t(1) True by (auto simp: dispose_def seq_def bind_def gets_run ret_run split: prod.splits res.splits)
  then show ?thesis
    by (rule ends_Ok) (use ready_step [OF s t(2) shrinks_later [OF t(3)] shrinksD(9) [OF t(3)]] shrinks_later [OF t(3)] in simp)
qed

lemma release_ends:
  assumes s: "ready b body s"
  shows "ends (release r) s (\<lambda>_ t. ready b body t \<and> later s t \<and> rx_gens t = rx_gens s \<and> rx_obs_gens t = rx_obs_gens s \<and>
    (\<forall>w. owner_at s (Of_Client r) = Some w \<longrightarrow> (\<forall>d \<in> set (ow_values w). value_at t d = None) \<and>
       (\<forall>e \<in> set (ow_effects w). rx_obs_gens s ! ef_slot e = ef_gen e \<longrightarrow> obs_at t (ef_slot e) = None)))"
proof (cases "if r < length (rx_regions s) then rx_regions s ! r else None")
  case None
  then show ?thesis
    by (intro ends_Panic [of _ _ ill_typed s]) (simp_all add: release_def bind_def gets_run panic_run)
next
  case (Some w)
  have ok: "scope_ok body {} s" using s by (simp add: ready_def)
  let ?t = "s\<lparr>rx_regions := (rx_regions s)[r := None]\<rparr>"
  have r: "r < length (rx_regions s)" "rx_regions s ! r = Some w" using Some by (simp_all split: if_splits)
  note f = free_region_ok [OF ok r]
  obtain u where u: "drop_owner dispose_slot w ?t = (Ok (), u)" "scope_ok body {} u" "shrinks (set (ow_values w)) ?t u"
    and gone: "\<forall>d \<in> set (ow_values w). value_at u d = None"
      "\<forall>e \<in> set (ow_effects w). rx_obs_gens ?t ! ef_slot e = ef_gen e \<longrightarrow> obs_at u (ef_slot e) = None"
    using dropped [OF f] by blast
  have l: "later s ?t" by (rule later_same) (simp_all add: value_at_owners)
  have su: "later s u" by (rule later_trans [OF l shrinks_later [OF u(3)]])
  have "release r s = (Ok (), u)"
    using u(1) r by (simp add: release_def seq_def bind_def gets_run modify_run)
  then show ?thesis
    by (rule ends_Ok) (use ready_step [OF s u(2) su] shrinksD(6,7,9) [OF u(3)] su gone r in simp)
qed

lemma release_ok: "ready b body s \<Longrightarrow> ends (release r) s (\<lambda>_ t. ready b body t \<and> later s t)"
  by (rule ends_mono [OF release_ends]) blast+

text \<open>Code that runs with an owner of its own on top of the stack.\<close>

lemma later_push: "later (push_owner s) t \<Longrightarrow> rx_owners t = w # ws \<Longrightarrow> later s (t\<lparr>rx_owners := ws\<rparr>)"
  unfolding later_def value_at_owners push_owner_def by simp

lemma own_ok:
  assumes s: "ready b body s"
    and m: "ready b body (push_owner s) \<Longrightarrow> ends m (push_owner s) (\<lambda>_ t. ready b body t \<and> later (push_owner s) t)"
  shows "ends (bind (owned m) (\<lambda>(_, w). keep_region w)) s (\<lambda>_ t. ready b body t \<and> later s t)"
proof -
  have ok: "scope_ok body {} (push_owner s)" using s push_owner_ok by (auto simp: ready_def)
  have p: "ready b body (push_owner s)"
    using s ok by (simp add: ready_def busy_def rested_def push_owner_def value_at_owners)
  have q: "ends (bind pop_owner (\<lambda>w. keep_region w)) t (\<lambda>_ t. ready b body t \<and> later s t)"
    if t: "ready b body t" "later (push_owner s) t" for t
  proof -
    have okt: "scope_ok body {} t" using t(1) by (simp add: ready_def)
    obtain w ws where w: "rx_owners t = w # ws"
      using laterD(3) [OF t(2)] by (cases "rx_owners t") (simp_all add: push_owner_def)
    note po = pop_owner_ok [OF okt w]
    let ?t = "t\<lparr>rx_owners := ws\<rparr>"
    let ?u = "?t\<lparr>rx_regions := rx_regions ?t @ [Some w]\<rparr>"
    have u: "scope_ok body {} ?u" by (rule keep_region_ok [OF po])
    have "later ?t ?u" by (rule later_same) (simp_all add: value_at_owners)
    then have l: "later s ?u" by (rule later_trans [OF later_push [OF t(2) w]])
    have "ready b body ?u"
      using u t(1) by (auto simp: ready_def busy_def rested_def value_at_owners)
    moreover have "bind pop_owner (\<lambda>w. keep_region w) t = (Ok (length (rx_regions ?t)), ?u)"
      using w by (simp add: bind_def pop_owner_def keep_region_def)
    ultimately show ?thesis using l by (simp add: ends_def)
  qed
  have "ends (bind m (\<lambda>a. bind pop_owner (\<lambda>w. keep_region w))) (push_owner s) (\<lambda>_ t. ready b body t \<and> later s t)"
    by (rule ends_bind [OF m [OF p]]) (use q in blast)
  moreover have "bind (owned m) (\<lambda>(_, w). keep_region w) s = bind m (\<lambda>a. bind pop_owner (\<lambda>w. keep_region w)) (push_owner s)"
    by (simp add: owned_def seq_def bind_def ret_def modify_run split: prod.splits res.splits)
  ultimately show ?thesis by (simp add: ends_def)
qed


section \<open>Code\<close>

definition executes :: "bool \<Rightarrow> ('c \<Rightarrow> ('v, 'c) code) \<Rightarrow> ('v, 'c, 'v \<times> 'c) rx \<Rightarrow> 'c set \<Rightarrow> bool" where
  "executes b body m L \<longleftrightarrow>
     (\<forall>s. ready b body s \<longrightarrow> ends m s (\<lambda>(_, c) t. ready b body t \<and> later s t \<and> c \<in> L))"

lemma executes_bind:
  assumes m: "\<And>s. ready b body s \<Longrightarrow> ends m s (\<lambda>_ t. ready b body t \<and> later s t)" and k: "\<And>a. executes b body (k a) L"
  shows "executes b body (bind m k) L"
  unfolding executes_def
proof (intro allI impI)
  fix s assume s: "ready b body s"
  show "ends (bind m k) s (\<lambda>(_, c) t. ready b body t \<and> later s t \<and> c \<in> L)"
  proof (rule ends_bind [OF m [OF s]], elim conjE)
    fix a t assume t: "ready b body t" "later s t"
    then have "ends (k a) t (\<lambda>(_, c) u. ready b body u \<and> later t u \<and> c \<in> L)" using k by (simp add: executes_def)
    then show "ends (k a) t (\<lambda>(_, c) u. ready b body u \<and> later s u \<and> c \<in> L)"
      by (rule ends_mono) (use later_trans [OF t(2)] in auto)
  qed
qed

lemma executes_mono: "executes b body m L \<Longrightarrow> L \<subseteq> L' \<Longrightarrow> executes b body m L'"
  unfolding executes_def by (blast intro: ends_mono)

lemma executes_choice:
  assumes m: "\<And>s. ready b body s \<Longrightarrow> ends m s (\<lambda>_ t. ready b body t \<and> later s t)" and k: "\<And>a. executes b body (k a) (L a)"
  shows "executes b body (bind m k) (\<Union>a. L a)"
  by (rule executes_bind [OF m executes_mono [OF k]]) auto

lemma executes_keeps: "executes b body m L \<Longrightarrow> ready b body s \<Longrightarrow> ends m s (\<lambda>_ t. ready b body t \<and> later s t)"
  unfolding executes_def by (rule ends_mono [of m s "\<lambda>(_, c) t. ready b body t \<and> later s t \<and> c \<in> L"]) auto

context reactive_host
begin

lemma exec_ok: "executes b body (exec ev fl code) (leaves code)"
proof (induction code)
  case (Return v c)
  show ?case by (auto simp: executes_def later_refl intro!: ends_ret)
next
  case (Get h k)
  show ?case unfolding exec.simps leaves.simps by (rule executes_choice [OF try_get_ok Get [OF rangeI]])
next
  case (Put h v k)
  show ?case unfolding exec.simps leaves.simps by (rule executes_choice [OF try_set_ok Put [OF rangeI]])
next
  case (Update h f k)
  show ?case
    unfolding exec.simps leaves.simps
    by (rule executes_choice [OF update_ok Update.IH(2) [OF rangeI]], assumption)
      (rule executes_keeps [OF Update.IH(1) [OF rangeI]])
next
  case (Make v k)
  show ?case unfolding exec.simps leaves.simps by (rule executes_choice [OF make_ok Make [OF rangeI]])
next
  case (Derive c k)
  show ?case unfolding exec.simps leaves.simps by (rule executes_choice [OF derived_ok Derive [OF rangeI]])
next
  case (Watch c k)
  have "ends (observe_reaction ev fl Effect c) s (\<lambda>_ t. ready b body t \<and> later s t)" if "ready b body s" for s
    by (rule observe_ok [OF that _ later_refl]) (use that in \<open>simp_all add: ready_def\<close>)
  then show ?case unfolding exec.simps leaves.simps by (rule executes_choice [OF _ Watch [OF rangeI]])
next
  case (Dispose e k)
  show ?case unfolding exec.simps seq_def by (rule executes_bind [OF dispose_ok]) (use Dispose in simp_all)
next
  case (Batch a k)
  have "ends (batch fl (exec ev fl a)) s (\<lambda>_ t. ready b body t \<and> later s t)" if s: "ready b body s" for s
  proof (rule batch_ok)
    show "busy s \<or> \<not> b \<and> rested s" using s by (auto simp: ready_def)
    let ?s = "s\<lparr>rx_depth := Suc (rx_depth s)\<rparr>"
    have "ready b body ?s" using s scope_ok_flags(1) by (auto simp: ready_def busy_def)
    from executes_keeps [OF Batch.IH(1) this]
    show "ends (exec ev fl a) ?s (\<lambda>_ t. scope_ok body {} t \<and> later ?s t)" by (rule ends_mono) (simp add: ready_def)
  qed
  then show ?case by (simp, intro executes_bind) (use Batch in simp_all)
next
  case (Own a k)
  have "ends (bind (owned (exec ev fl a)) (\<lambda>(_, w). keep_region w)) s (\<lambda>_ t. ready b body t \<and> later s t)" if "ready b body s" for s
    by (rule own_ok [OF that executes_keeps [OF Own.IH(1)]])
  then have "executes b body (bind (bind (owned (exec ev fl a)) (\<lambda>(_, w). keep_region w)) (\<lambda>r. exec ev fl (k r))) (leaves (Own a k))"
    unfolding leaves.simps by (rule executes_choice [OF _ Own(2) [OF rangeI]])
  moreover have "bind (bind (owned (exec ev fl a)) (\<lambda>(_, w). keep_region w)) (\<lambda>r. exec ev fl (k r)) = exec ev fl (Own a k)"
    by (simp add: bind_assoc case_prod_unfold)
  ultimately show ?case by simp
next
  case (Release r k)
  show ?case unfolding exec.simps seq_def by (rule executes_bind [OF release_ok]) (use Release in simp_all)
qed

end

end
