(* ===== verification/ReactiveEval.thy ===== *)
theory ReactiveEval
  imports ReactiveExec
begin

text \<open>
  Reactions: a run borrows the closure, executes it, writes the output, gives the closure back
  and captures what was read. Evaluation of an observer and the flush of the dirty ones keep the
  invariant, by induction on the fuel, and so does every program of a client.
\<close>

section \<open>Code that only reads\<close>

definition unlent :: "('v, 'c) scope_core \<Rightarrow> nat \<Rightarrow> bool" where
  "unlent s d \<longleftrightarrow> (\<forall>v. value_at s d \<noteq> Some (Lent v))"

text \<open>Every read of such code that succeeds is noted, and is of a signal that nobody has borrowed.\<close>

lemma exec_reads_only:
  assumes "reads_only c code" and "rx_reads s = R0 # Rs" and "shape s" and "\<forall>d \<in> fst ` set R0. unlent s d"
  shows "\<exists>R v. exec ev fl code s = (Ok (v, c), s\<lparr>rx_reads := R # Rs\<rparr>) \<and> fits s (fst ` set R) code v \<and>
    (\<forall>(d, r) \<in> set R. (d, r) \<in> set R0 \<or> rx_revs s ! d = r) \<and> fst ` set R0 \<subseteq> fst ` set R \<and>
    (\<forall>d \<in> fst ` set R. unlent s d)"
  using assms
proof (induction code arbitrary: s R0)
  case (Return v c')
  then show ?case by (intro exI [of _ R0] exI [of _ v]) (auto simp: ret_run)
next
  case (Get h k)
  note ih = Get.IH [OF rangeI]
  have sv: "seen s h = read_signal s h" if "unlent s (sg_slot h)"
    using that by (auto simp: seen_def read_signal_def signal_value_alt [OF Get.prems(3)] unlent_def split: option.splits cell.splits)
  show ?case
  proof (cases "read_signal s h")
    case (Inl e)
    have e: "exec ev fl (Get h k) s = exec ev fl (k (Inl e)) s" by (simp add: bind_def try_get_def Inl)
    obtain R v where R: "exec ev fl (k (Inl e)) s = (Ok (v, c), s\<lparr>rx_reads := R # Rs\<rparr>)" "fits s (fst ` set R) (k (Inl e)) v"
      "\<forall>(d, r) \<in> set R. (d, r) \<in> set R0 \<or> rx_revs s ! d = r" "fst ` set R0 \<subseteq> fst ` set R" "\<forall>d \<in> fst ` set R. unlent s d"
      using ih [of "Inl e" s R0] Get.prems by auto
    have "fits s (fst ` set R) (Get h k) v"
    proof (cases "sg_slot h \<in> fst ` set R")
      case True
      then have "seen s h = Inl e" using sv R(5) Inl by simp
      then show ?thesis using True R(2) by simp
    qed (use R(2) in auto)
    then show ?thesis
      unfolding e by (intro exI [of _ R] exI [of _ v]) (use R(1,3,4,5) in blast)
  next
    case (Inr x)
    define R1 where "R1 = (if sg_slot h \<in> fst ` set R0 then R0 else (sg_slot h, rx_revs s ! sg_slot h) # R0)"
    let ?s = "s\<lparr>rx_reads := R1 # Rs\<rparr>"
    have e: "exec ev fl (Get h k) s = exec ev fl (k (Inr x)) ?s"
      by (simp add: bind_def try_get_def Inr note_read_def Get.prems(2) R1_def)
    have un: "unlent s (sg_slot h)" using Inr by (simp add: read_signal_Inr [OF Get.prems(3)] unlent_def)
    have same: "rx_values ?s = rx_values s" "rx_gens ?s = rx_gens s" "unlent ?s = unlent s" "shape ?s"
      using Get.prems(3) by (simp_all add: unlent_def flags_simps shape_def fun_eq_iff)
    obtain R v where R: "exec ev fl (k (Inr x)) ?s = (Ok (v, c), ?s\<lparr>rx_reads := R # Rs\<rparr>)" "fits ?s (fst ` set R) (k (Inr x)) v"
      "\<forall>(d, r) \<in> set R. (d, r) \<in> set R1 \<or> rx_revs s ! d = r" "fst ` set R1 \<subseteq> fst ` set R" "\<forall>d \<in> fst ` set R. unlent s d"
      using ih [of "Inr x" ?s R1] Get.prems un same(3,4) by (auto simp: R1_def split: if_splits)
    have "sg_slot h \<in> fst ` set R" using R(4) by (auto simp: R1_def split: if_splits)
    moreover have "seen s h = Inr x" using sv [OF un] Inr by simp
    ultimately have "fits s (fst ` set R) (Get h k) v" using R(2) fits_same [OF same(1,2)] by simp
    moreover have "\<forall>(d, r) \<in> set R. (d, r) \<in> set R0 \<or> rx_revs s ! d = r"
      using R(3) by (fastforce simp: R1_def split: if_splits)
    moreover have "fst ` set R0 \<subseteq> fst ` set R" using R(4) by (auto simp: R1_def split: if_splits)
    ultimately show ?thesis
      unfolding e by (intro exI [of _ R] exI [of _ v]) (use R(1,5) in simp)
  qed
qed simp_all


section \<open>The end of a run\<close>

definition finish_run :: "nat \<Rightarrow> nat \<Rightarrow> reaction_kind \<Rightarrow> 'v \<Rightarrow> 'c \<Rightarrow> ('v, 'c, unit) rx" where
  "finish_run i g k v c = seq (write_output k v) (seq (modify (with_observer i g (\<lambda>ob. ob\<lparr>ob_closure := Some c\<rparr>))) (capture i g))"

text \<open>The closure of \<open>i\<close> was given back if the observer is still there; one capture of reads is gone.\<close>

definition returned :: "nat \<Rightarrow> nat \<Rightarrow> ('v, 'c) scope_core \<Rightarrow> ('v, 'c) scope_core \<Rightarrow> bool" where
  "returned i g s t \<longleftrightarrow>
     rx_depth t = rx_depth s \<and> rx_flushing t = rx_flushing s \<and> rx_owners t = rx_owners s \<and>
     Suc (length (rx_reads t)) = length (rx_reads s) \<and> rx_gens t = rx_gens s \<and> rx_obs_gens t = rx_obs_gens s \<and>
     length (rx_observers t) = length (rx_observers s) \<and> (\<forall>d. value_at s d = None \<longrightarrow> value_at t d = None) \<and>
     (\<forall>h. lent t h \<longrightarrow> lent s h) \<and>
     (\<forall>j ob. obs_at t j = Some ob \<longrightarrow> (\<exists>ob1. obs_at s j = Some ob1 \<and> ob_kind ob = ob_kind ob1 \<and>
        (ob_closure ob = None \<longleftrightarrow> ob_closure ob1 = None \<and> \<not> (j = i \<and> rx_obs_gens s ! i = g))))"

lemma returned_obs:
  "returned i g s t \<Longrightarrow> obs_at t j = Some ob \<Longrightarrow> \<exists>ob1. obs_at s j = Some ob1 \<and> ob_kind ob = ob_kind ob1 \<and>
        (ob_closure ob = None \<longleftrightarrow> ob_closure ob1 = None \<and> \<not> (j = i \<and> rx_obs_gens s ! i = g))"
  by (simp add: returned_def)

text \<open>Who may have \<open>h\<close> as its output while \<open>i\<close> runs.\<close>

definition runs :: "nat \<Rightarrow> reaction_kind \<Rightarrow> ('v, 'c) scope_core \<Rightarrow> bool" where
  "runs i k s \<longleftrightarrow> i < length (rx_observers s) \<and>
     (\<forall>ob. obs_at s i = Some ob \<longrightarrow> ob_closure ob = None \<and> ob_kind ob = k) \<and>
     (\<forall>h. k = Derived h \<longrightarrow> given s h \<and> \<not> lent s h \<and> (\<forall>j. output_of s j = Some h \<longrightarrow> j = i))"

lemma write_output_ok:
  assumes ok: "scope_ok body {} t" and l: "later s t" and b: "busy t" and r: "runs i k s"
  obtains u where "write_output k v t = (Ok (), u)" "scope_ok body {} u"
    "u = t \<and> (\<forall>h w. k = Derived h \<and> read_signal u h = Inr w \<longrightarrow> w = v) \<or>
     (\<exists>h. k = Derived h \<and> value_at t (sg_slot h) \<noteq> None \<and> u = mark_changed (sg_slot h) (store_value (sg_slot h) v t))"
proof (cases k)
  case Effect
  then show thesis using ok by (intro that [of t]) (simp_all add: write_output_def)
next
  case (Derived h)
  show thesis
  proof (cases "signal_value t h")
    case (Inl e)
    then show thesis using ok Derived by (intro that [of t]) (auto simp: write_output_def read_signal_def)
  next
    case (Inr cell)
    have nl: "\<forall>x. cell \<noteq> Lent x" using laterD(10) [OF l, of h] r Derived Inr by (auto simp: runs_def lent_def)
    show thesis
    proof (cases "cell = Held v")
      case True
      then show thesis using ok Derived Inr by (intro that [of t]) (auto simp: write_output_def read_signal_def)
    next
      case False
      let ?u = "mark_changed (sg_slot h) (store_value (sg_slot h) v t)"
      have live: "value_at t (sg_slot h) \<noteq> None" and g: "rx_gens t ! sg_slot h = sg_gen h"
        using Inr by (auto simp: signal_value_alt [OF scope_okD(1) [OF ok]] split: if_splits option.splits)
      have "rx_gens t ! sg_slot h \<noteq> sg_gen h'"
        if o: "obs_at t j = Some ob" "ob_closure ob \<noteq> None" "ob_kind ob = Derived h'" "sg_slot h' = sg_slot h" for j ob h'
      proof
        assume "rx_gens t ! sg_slot h = sg_gen h'"
        then have h': "h' = h" using g o(4) by (simp add: signal.equality)
        show False
        proof (cases rule: later_obs [OF l o(1)])
          case (1 ob0)
          then have "output_of s j = Some h" using o(3) h' by (auto simp: output_of_Some)
          then have "j = i" using r Derived by (simp add: runs_def)
          then show False using 1 r o(2) by (auto simp: runs_def)
        next
          case 2
          then show False using o(3) h' r Derived by (simp add: runs_def fresh_def)
        qed
      qed
      then have "scope_ok body {} ?u" by (intro write_ok(1) [OF ok live]) blast
      moreover have "busy ?u" using b by (simp add: busy_def mark_changed_def store_value_def)
      then have "write_output k v t = (Ok (), ?u)"
        using Derived Inr False nl
        by (cases cell) (simp_all add: write_output_def changed_def seq_def bind_def modify_run flush_inside_def gets_run ret_run busy_def)
      ultimately show thesis using Derived live by (intro that [of ?u]) simp_all
    qed
  qed
qed


text \<open>Leaving the top of the reads.\<close>

lemma drop_reads_ok: "scope_ok body X s \<Longrightarrow> rx_reads s = R # Rs \<Longrightarrow> scope_ok body X (s\<lparr>rx_reads := Rs\<rparr>)"
  using scope_ok_cong [of body X s "s\<lparr>rx_reads := Rs\<rparr>" "{}"] scope_okD(5) [of body X s]
  by (simp add: owner_at_other captures_ok_def flags_simps)

lemma still_there_obs: "i < length (rx_observers s) \<Longrightarrow> still_there i g s = (if rx_obs_gens s ! i = g then obs_at s i else None)"
  by (simp add: still_there_def obs_at_def)

text \<open>
  What a pure run hands to the capture: the reads \<open>R\<close>, all at the present revisions, and a value
  that fits them. The write of the output changes none of the signals read, or bumps a revision.
\<close>

lemma fits_after_write:
  assumes sh: "shape t" "shape u" and f: "fits t (fst ` set R) code v" and rv: "\<forall>(d, r) \<in> set R. rx_revs t ! d = r"
    and live: "\<And>d. d \<in> fst ` set R \<Longrightarrow> d < length (rx_revs t)"
    and u: "u = t \<or> (\<exists>d x. u = mark_changed d (store_value d x t))"
    and same: "\<forall>(d, r) \<in> set R. rx_revs u ! d = r" and was: "\<And>d. value_at t d = None \<Longrightarrow> value_at u d = None"
  shows "fits u (fst ` set R) code v"
  using u
proof
  assume "\<exists>d x. u = mark_changed d (store_value d x t)"
  then obtain d x where e: "u = mark_changed d (store_value d x t)" by blast
  have nd: "d \<notin> fst ` set R"
  proof
    assume d: "d \<in> fst ` set R"
    then obtain r where "(d, r) \<in> set R" by force
    then show False using rv same live [OF d] by (fastforce simp: e mark_changed_def store_value_def)
  qed
  have "seen u h = seen t h" if "sg_slot h \<in> fst ` set R" for h
  proof (rule shown_same(2) [OF signal_value_same [OF sh]])
    have "sg_slot h \<noteq> d" using that nd by blast
    then show "value_at u (sg_slot h) = value_at t (sg_slot h)" by (simp add: e value_at_def mark_changed_def store_value_def)
  qed (simp_all add: e mark_changed_def store_value_def)
  then show ?thesis
  proof (rule fits_mono [OF f])
    show "gone u h" if "gone t h" for h
      by (rule gone_same [OF sh _ was that]) (simp add: e mark_changed_def store_value_def)
  qed
qed (use f in simp)

lemma finish_ok:
  assumes s: "scope_ok body {} s" "runs i k s" "busy s" "rx_reads s = [] # Rs" "rx_obs_gens s ! i = g" and x: "exec ev fl (body c) s = (Ok (v, c'), t)"
    and t: "scope_ok body {} t" "later s t" "c' \<in> leaves (body c)"
  obtains u where "finish_run i g k v c' t = (Ok (), u)" "scope_ok body {} u" "returned i g t u"
proof -
  have bt: "busy t" using s(3) later_busy [OF t(2)] by simp
  obtain u where u: "write_output k v t = (Ok (), u)" "scope_ok body {} u"
    and w: "u = t \<and> (\<forall>h w. k = Derived h \<and> read_signal u h = Inr w \<longrightarrow> w = v) \<or>
     (\<exists>h. k = Derived h \<and> value_at t (sg_slot h) \<noteq> None \<and> u = mark_changed (sg_slot h) (store_value (sg_slot h) v t))"
    using write_output_ok [OF t(1,2) bt s(2), of v] by metis
  have f: "rx_depth u = rx_depth t" "rx_flushing u = rx_flushing t" "rx_owners u = rx_owners t" "rx_reads u = rx_reads t"
    "rx_gens u = rx_gens t" "rx_obs_gens u = rx_obs_gens t" "rx_observers u = rx_observers t"
    using w by (auto simp: mark_changed_def store_value_def)
  have o: "obs_at u = obs_at t" by (simp add: obs_at_def f fun_eq_iff)
  have n: "value_at u d = None" if "value_at t d = None" for d
    using w that by (auto simp: value_at_def mark_changed_def store_value_def nth_list_update split: if_splits)
  have lt: "lent t x" if "lent u x" for x
    using w
  proof (elim disjE exE conjE)
    fix y assume "value_at t (sg_slot y) \<noteq> None" "u = mark_changed (sg_slot y) (store_value (sg_slot y) v t)"
    then show ?thesis using write_lent [OF scope_okD(1) [OF t(1)]] that by blast
  qed (use that in simp)
  have il: "i < length (rx_observers u)" using s(2) laterD(7) [OF t(2)] by (simp add: runs_def f)
  obtain R Rs' where R: "rx_reads u = R # Rs'" using laterD(4) [OF t(2)] s(4) by (cases "rx_reads u") (simp_all add: f)
  show thesis
  proof (cases "still_there i g u")
    case None
    let ?u = "u\<lparr>rx_reads := Rs'\<rparr>"
    have "still_there i g ?u = None" using None by (auto simp: still_there_def split: if_splits)
    then have run: "finish_run i g k v c' t = (Ok (), ?u)"
      using u(1) None R by (simp add: finish_run_def seq_def bind_def modify_run with_observer_def capture_def Let_def)
    have "returned i g t ?u"
      using None R n lt unfolding returned_def flags_simps o still_there_obs [OF il] by (auto simp: f split: if_splits)
    with run show thesis using drop_reads_ok [OF u(2) R] by (intro that)
  next
    case (Some b)
    then have g: "rx_obs_gens t ! i = g" and b: "obs_at u i = Some b" by (auto simp: still_there_obs [OF il] f split: if_splits)
    let ?b = "b\<lparr>ob_closure := Some c'\<rparr>"
    let ?u = "set_observer i (Some ?b) u"
    let ?w = "?u\<lparr>rx_reads := Rs'\<rparr>"
    have su: "set_observer i x (y\<lparr>rx_reads := z\<rparr>) = (set_observer i x y)\<lparr>rx_reads := z\<rparr>" for x y z by (simp add: set_observer_def)
    have b': "obs_at ?w i = Some ?b" using il by (simp add: flags_simps obs_at_set)
    have il': "i < length (rx_observers ?w)" by (rule obs_at_range [OF b'])
    have st: "still_there i g ?w = Some ?b"
      unfolding still_there_obs [OF il'] b' using g by (simp add: set_observer_def f)
    have run: "finish_run i g k v c' t = (Ok (), capture_reads i ?b R ?w)"
      using u(1) Some R st
      by (simp add: finish_run_def seq_def bind_def modify_run with_observer_def capture_def Let_def) (simp add: set_observer_def)
    have "scope_ok body {i} u" by (rule scope_ok_mono [OF u(2)]) simp
    then have ok: "scope_ok body {i} ?u" using b by (intro set_closure_ok) simp_all
    have okw: "scope_ok body {i} ?w" by (rule drop_reads_ok [OF ok]) (simp add: set_observer_def R)
    have live: "value_at ?w d \<noteq> None" if "d \<in> fst ` set R" for d
      using scope_okD(5) [OF u(2)] that R by (auto simp: captures_ok_def flags_simps value_at_owners)
    have fw: "rx_values ?w = rx_values u" "rx_gens ?w = rx_gens u" by (simp_all add: set_observer_def)
    note rd = same_cells(2) [OF fw]
    have kind: "ob_kind b = k"
    proof (cases rule: later_obs [OF t(2) b [unfolded o]])
      case (1 ob0)
      then show ?thesis using s(2) by (simp add: runs_def)
    next
      case 2
      then show ?thesis using s(2,5) g by (simp add: runs_def)
    qed
    have fit: "fits ?w (fst ` set R) (body c0) x"
      if cur: "\<forall>(d, r) \<in> set R. rx_revs ?w ! d = r" "ob_closure ?b = Some c0" "ob_kind ?b = Derived h" "computes body c0"
        "read_signal ?w h = Inr x" for c0 h x
    proof -
      have c0: "c0 = c'" "c = c'" and ro: "reads_only c (body c)"
        using cur(2,4) t(3) by (auto simp: computes_def)
      obtain R1 v1 where R1: "exec ev fl (body c) s = (Ok (v1, c), s\<lparr>rx_reads := R1 # Rs\<rparr>)" "fits s (fst ` set R1) (body c) v1"
        "\<forall>(d, r) \<in> set R1. rx_revs s ! d = r"
        using exec_reads_only [OF ro s(4) scope_okD(1) [OF s(1)], of ev fl] by auto
      have e: "v1 = v" "t = s\<lparr>rx_reads := R1 # Rs\<rparr>" "R1 = R" using R1(1) x R by (auto simp: f)
      have ft: "fits t (fst ` set R) (body c) v"
        using R1(2) fits_same [of t s] unfolding e by simp
      have "fits u (fst ` set R) (body c) v"
      proof (rule fits_after_write [OF scope_okD(1) [OF t(1)] scope_okD(1) [OF u(2)] ft])
        show "\<forall>(d, r) \<in> set R. rx_revs t ! d = r" using R1(3) by (simp add: e)
        show "d < length (rx_revs t)" if "d \<in> fst ` set R" for d
        proof -
          have "value_at t d \<noteq> None" using scope_okD(5) [OF t(1)] that R by (auto simp: captures_ok_def f)
          from value_at_range [OF this] show ?thesis using scope_okD(1) [OF t(1)] by (simp add: shape_def)
        qed
        show "\<forall>(d, r) \<in> set R. rx_revs u ! d = r" using cur(1) by (simp add: set_observer_def)
        show "u = t \<or> (\<exists>d x. u = mark_changed d (store_value d x t))" using w by blast
      qed (rule n)
      moreover have "x = v"
        using w
      proof
        assume "u = t \<and> (\<forall>h w. k = Derived h \<and> read_signal u h = Inr w \<longrightarrow> w = v)"
        then show ?thesis using cur(3,5) kind rd by simp
      next
        assume "\<exists>h. k = Derived h \<and> value_at t (sg_slot h) \<noteq> None \<and> u = mark_changed (sg_slot h) (store_value (sg_slot h) v t)"
        then have e: "u = mark_changed (sg_slot h) (store_value (sg_slot h) v t)" using cur(3) kind by auto
        then show ?thesis
          using cur(5) unfolding rd read_signal_Inr [OF scope_okD(1) [OF u(2)]]
          by (auto simp: value_at_def mark_changed_def store_value_def split: if_splits)
      qed
      ultimately show ?thesis using fits_same [OF fw] by (simp add: c0)
    qed
    have cap: "scope_ok body {} (capture_reads i ?b R ?w)"
      "obs_at (capture_reads i ?b R ?w) = (obs_at ?w)(i := Some (?b\<lparr>ob_deps := fst ` set R\<rparr>))"
      by (rule capture_reads_ok [OF okw b']; erule live fit; assumption)+
    have "returned i g t (capture_reads i ?b R ?w)"
      unfolding returned_def cap(2)
    proof (intro conjI allI impI)
      fix j ob assume "((obs_at ?w)(i := Some (?b\<lparr>ob_deps := fst ` set R\<rparr>))) j = Some ob"
      then consider "j = i" "ob = ?b\<lparr>ob_deps := fst ` set R\<rparr>" | "j \<noteq> i" "obs_at t j = Some ob"
        using il by (auto simp: flags_simps obs_at_set o split: if_splits)
      then show "\<exists>ob1. obs_at t j = Some ob1 \<and> ob_kind ob = ob_kind ob1 \<and>
        (ob_closure ob = None \<longleftrightarrow> ob_closure ob1 = None \<and> \<not> (j = i \<and> rx_obs_gens t ! i = g))"
        by cases (use b g o in simp_all)
    next
      show "value_at (capture_reads i ?b R ?w) d = None" if "value_at t d = None" for d
        using n [OF that] by (auto simp: value_at_def capture_reads_def set_observer_def resubscribe_same Let_def split: if_splits)
      have "rx_values (capture_reads i ?b R ?w) = rx_values u" "rx_gens (capture_reads i ?b R ?w) = rx_gens u"
        by (simp_all add: capture_reads_def set_observer_def resubscribe_same Let_def)
      from same_cells(4) [OF this] show "lent t x" if "lent (capture_reads i ?b R ?w) x" for x using that lt by simp
    qed (use R in \<open>simp_all add: capture_reads_def set_observer_def resubscribe_same Let_def f\<close>)
    then show thesis using that [OF run cap(1)] by simp
  qed
qed


section \<open>A reaction\<close>

lemma scope_ok_gone:
  assumes ok: "scope_ok body (insert i X) s" and n: "obs_at s i = None"
  shows "scope_ok body X s"
proof -
  have "current body s j" if "j \<notin> X" "j \<notin> rx_dirty s" for j
    using scope_okD(8) [OF ok, of j] that n by (cases "j = i") (simp_all add: current_def)
  then show ?thesis using scope_okD(1-7) [OF ok] by (simp add: scope_ok_def)
qed

lemma ends_run: "ends m s P \<Longrightarrow> ends m s (\<lambda>a t. P a t \<and> m s = (Ok a, t))"
  by (auto simp: ends_def split: prod.splits res.splits)

text \<open>The state in which the closure of \<open>i\<close> is called.\<close>

definition entered :: "nat \<Rightarrow> nat \<Rightarrow> ('v, 'c) scope_core \<Rightarrow> ('v, 'c) scope_core" where
  "entered i g s = with_observer i g (\<lambda>ob. ob\<lparr>ob_closure := None\<rparr>) (s\<lparr>rx_reads := [] # rx_reads s\<rparr>)"

lemma entered_simps:
  "rx_depth (entered i g s) = rx_depth s" "rx_flushing (entered i g s) = rx_flushing s" "rx_owners (entered i g s) = rx_owners s"
  "rx_reads (entered i g s) = [] # rx_reads s" "rx_gens (entered i g s) = rx_gens s" "rx_obs_gens (entered i g s) = rx_obs_gens s"
  "length (rx_observers (entered i g s)) = length (rx_observers s)" "value_at (entered i g s) = value_at s"
  "fresh (entered i g s) = fresh s" "given (entered i g s) = given s" "lent (entered i g s) = lent s"
proof -
  have "rx_values (entered i g s) = rx_values s" "rx_gens (entered i g s) = rx_gens s"
    by (simp_all add: entered_def with_observer_def set_observer_def split: option.splits)
  note cells = same_cells [OF this]
  show "given (entered i g s) = given s" "lent (entered i g s) = lent s" by (rule cells)+
qed (simp_all add: entered_def with_observer_def set_observer_def value_at_def fresh_def given_def fun_eq_iff split: option.splits)

lemma entered_obs:
  assumes "i < length (rx_observers s)" and "rx_obs_gens s ! i = g"
  shows "obs_at (entered i g s) = (obs_at s)(i := map_option (\<lambda>ob. ob\<lparr>ob_closure := None\<rparr>) (obs_at s i))"
proof -
  let ?s = "s\<lparr>rx_reads := [] # rx_reads s\<rparr>"
  have "still_there i g ?s = obs_at s i" using assms by (simp add: still_there_def obs_at_def)
  then show ?thesis
    using assms(1) by (cases "obs_at s i") (simp_all add: entered_def with_observer_def obs_at_set flags_simps fun_upd_idem)
qed

lemma entered_ok:
  assumes ok: "scope_ok body {i} s" and i: "i < length (rx_observers s)" "rx_obs_gens s ! i = g"
  shows "scope_ok body {} (entered i g s)"
proof -
  let ?s = "s\<lparr>rx_reads := [] # rx_reads s\<rparr>"
  have "captures_ok ?s" using scope_okD(5) [OF ok] by (simp add: captures_ok_def flags_simps)
  then have ok': "scope_ok body {i} ?s"
    using scope_ok_cong [OF ok, of ?s "{}"] by (simp add: owner_at_other)
  have st: "still_there i g ?s = obs_at ?s i" using i by (simp add: still_there_def obs_at_def)
  show ?thesis
  proof (cases "obs_at ?s i")
    case None
    then show ?thesis using scope_ok_gone [OF ok'] st by (simp add: entered_def with_observer_def)
  next
    case (Some ob)
    then have "entered i g s = set_observer i (Some (ob\<lparr>ob_closure := None\<rparr>)) ?s" using st by (simp add: entered_def with_observer_def)
    then show ?thesis using set_closure_ok [OF ok' Some] by simp
  qed
qed

lemma later_run:
  assumes i: "i < length (rx_observers s)" "rx_obs_gens s ! i = g" and c: "\<And>ob. obs_at s i = Some ob \<Longrightarrow> ob_closure ob \<noteq> None"
    and l: "later (entered i g s) t" and r: "returned i g t u"
  shows "later s u"
proof -
  note L = laterD [OF l, unfolded entered_simps]
  have R: "rx_depth u = rx_depth t" "rx_flushing u = rx_flushing t" "rx_owners u = rx_owners t"
    "Suc (length (rx_reads u)) = length (rx_reads t)" "rx_gens u = rx_gens t" "rx_obs_gens u = rx_obs_gens t"
    "length (rx_observers u) = length (rx_observers t)" "\<And>d. value_at t d = None \<Longrightarrow> value_at u d = None"
    "\<And>h. lent u h \<Longrightarrow> lent t h"
    using r by (simp_all add: returned_def)
  show ?thesis
    unfolding later_def R(1-7)
  proof (intro conjI allI impI)
    fix j ob assume ob: "obs_at u j = Some ob"
    then obtain ob1 where ob1: "obs_at t j = Some ob1" "ob_kind ob = ob_kind ob1"
      "ob_closure ob = None \<longleftrightarrow> ob_closure ob1 = None \<and> \<not> (j = i \<and> rx_obs_gens t ! i = g)"
      using returned_obs [OF r ob] by (elim exE conjE) (rule that)
    show "(\<exists>ob0. obs_at s j = Some ob0 \<and> rx_obs_gens t ! j = rx_obs_gens s ! j \<and> ob_kind ob = ob_kind ob0 \<and>
           (ob_closure ob = None \<longleftrightarrow> ob_closure ob0 = None)) \<or>
        ob_closure ob \<noteq> None \<and> (j < length (rx_observers s) \<longrightarrow> rx_obs_gens s ! j < rx_obs_gens t ! j) \<and>
        (\<forall>h. ob_kind ob = Derived h \<longrightarrow> fresh s h)"
    proof (cases rule: later_obs [OF l ob1(1)])
      case (1 ob0)
      show ?thesis
      proof (cases "j = i")
        case True
        then obtain b where b: "obs_at s i = Some b" "ob0 = b\<lparr>ob_closure := None\<rparr>"
          using 1(1) unfolding entered_obs [OF i] by auto
        have "rx_obs_gens t ! i = g" using 1(2) True i(2) by (simp add: entered_simps)
        then show ?thesis using True b c [OF b(1)] 1 ob1 i(2) by (auto simp: entered_simps)
      next
        case False
        then show ?thesis using 1 ob1 unfolding entered_obs [OF i] by (auto simp: entered_simps)
      qed
    next
      case 2
      then show ?thesis using ob1 by (auto simp: entered_simps)
    qed
  qed (use L R(4,8,9) in \<open>auto simp: entered_simps\<close>)
qed

lemma run_callback_ok:
  assumes ev: "evaluator body ev" and s: "scope_ok body {i} s" "busy s" and i: "i < length (rx_observers s)" "rx_obs_gens s ! i = g"
    and c: "\<And>ob. obs_at s i = Some ob \<Longrightarrow> ob_closure ob \<noteq> None \<and> ob_kind ob = k"
    and h: "\<And>h. k = Derived h \<Longrightarrow> given s h \<and> \<not> lent s h \<and> (\<forall>j. output_of s j = Some h \<longrightarrow> j = i)"
  shows "ends (run_callback ev body i g k c) s (\<lambda>_ u. scope_ok body {} u \<and> later s u)"
proof -
  let ?t = "entered i g s"
  have ok: "scope_ok body {} ?t" by (rule entered_ok [OF s(1) i])
  have b: "busy ?t" using s(2) by (simp add: busy_def entered_simps)
  have out: "output_of ?t = output_of s"
    by (auto simp: output_of_def entered_obs [OF i] fun_eq_iff split: option.splits)
  have r: "runs i k ?t"
    using i c h by (auto simp: runs_def entered_simps entered_obs [OF i] out)
  have run: "run_callback ev body i g k c s = bind (exec ev flush_inside (body c)) (\<lambda>(v, c'). finish_run i g k v c') ?t"
    by (simp add: run_callback_def finish_run_def seq_def bind_def modify_run entered_def)
  have x: "ends (exec ev flush_inside (body c)) ?t (\<lambda>(_, c') t. ready True body t \<and> later ?t t \<and> c' \<in> leaves (body c))"
    using reactive_host.exec_ok [OF reactive_host.intro [OF flush_inside_ok ev]] ok b by (simp add: executes_def ready_def)
  have "ends (bind (exec ev flush_inside (body c)) (\<lambda>(v, c'). finish_run i g k v c')) ?t (\<lambda>_ u. scope_ok body {} u \<and> later s u)"
  proof (rule ends_bind [OF ends_run [OF x]], clarify)
    fix v c' t assume t: "exec ev flush_inside (body c) ?t = (Ok (v, c'), t)" "ready True body t" "later ?t t" "c' \<in> leaves (body c)"
    have okt: "scope_ok body {} t" using t(2) by (simp add: ready_def)
    have g: "rx_obs_gens ?t ! i = g" using i by (simp add: entered_simps)
    obtain u where u: "finish_run i g k v c' t = (Ok (), u)" "scope_ok body {} u" "returned i g t u"
      using finish_ok [OF ok r b entered_simps(4) g t(1) okt t(3,4)] by blast
    show "ends (finish_run i g k v c') t (\<lambda>_ u. scope_ok body {} u \<and> later s u)"
      by (rule ends_Ok, rule u(1)) (use u(2) later_run [OF i _ t(3) u(3)] c in blast)
  qed
  then show ?thesis using run by (simp add: ends_def)
qed

end
