(* ===== verification/ReactiveScope.thy ===== *)
theory ReactiveScope
  imports ReactiveEval
begin

text \<open>
  The whole scope: the evaluation of an observer, the flush, and the programs of a client. The
  states that clients can reach satisfy the invariant, and in them nothing is left to update.
\<close>

section \<open>Evaluation\<close>

lemma later_run_owner:
  assumes "obs_at s i = Some ob"
  shows "later s (set_observer i (Some (ob\<lparr>ob_run_owner := x\<rparr>)) s)"
proof (rule later_same)
  show "\<exists>ob0. obs_at s j = Some ob0 \<and> ob_kind b = ob_kind ob0 \<and> (ob_closure b = None \<longleftrightarrow> ob_closure ob0 = None)"
    if "obs_at (set_observer i (Some (ob\<lparr>ob_run_owner := x\<rparr>)) s) j = Some b" for j b
    using that assms by (auto simp: obs_at_set obs_at_range split: if_splits)
qed (simp_all add: value_at_owners, simp_all add: set_observer_def)

lemma run_owner_dropped:
  assumes ok: "scope_ok body {i} s" and ob: "obs_at s i = Some ob"
  obtains t V where "seq (modify (set_observer i (Some (ob\<lparr>ob_run_owner := None\<rparr>)))) (drop_run_owner dispose_slot (ob_run_owner ob)) s = (Ok (), t)"
    "scope_ok body {i} t" "shrinks V (set_observer i (Some (ob\<lparr>ob_run_owner := None\<rparr>)) s) t"
proof -
  let ?s = "set_observer i (Some (ob\<lparr>ob_run_owner := None\<rparr>)) s"
  note tk = take_run_owner_ok [OF ok ob]
  show thesis
  proof (cases "ob_run_owner ob")
    case None
    then show thesis using tk(1) shrinks_refl [of "{}" ?s]
      by (intro that [of ?s "{}"]) (simp_all add: seq_def bind_def modify_run drop_run_owner_def ret_run)
  next
    case (Some w)
    obtain u where "drop_owner dispose_slot w ?s = (Ok (), u)" "scope_ok body {i} u" "shrinks (set (ow_values w)) ?s u"
      using dropped [OF tk(1)] tk(2) [OF Some] by blast
    then show thesis using Some
      by (intro that [of u "set (ow_values w)"]) (simp_all add: seq_def bind_def modify_run drop_run_owner_def)
  qed
qed

lemma attach_owner_ok:
  assumes ok: "scope_ok body {} s" and w: "owner_live s w" "apart s w" and i: "i < length (rx_observers s)"
  shows "ends (attach_owner i g w) s (\<lambda>_ t. scope_ok body {} t \<and> later s t)"
proof (cases "still_there i g s")
  case None
  obtain t where t: "drop_owner dispose_slot w s = (Ok (), t)" "scope_ok body {} t" "shrinks (set (ow_values w)) s t"
    using dropped [OF ok w] by blast
  have "attach_owner i g w s = (Ok (), t)" using None t(1) by (simp add: attach_owner_def bind_def gets_run)
  then show ?thesis by (simp add: ends_def t(2) shrinks_later [OF t(3)])
next
  case (Some ob)
  then have ob: "obs_at s i = Some ob" using still_there_obs [OF i, of g] by (simp split: if_splits)
  let ?t = "set_observer i (Some (ob\<lparr>ob_run_owner := Some w\<rparr>)) s"
  have "later s ?t" by (rule later_run_owner [OF ob])
  moreover have "attach_owner i g w s = (Ok (), ?t)" using Some by (simp add: attach_owner_def bind_def gets_run modify_run)
  ultimately show ?thesis by (simp add: ends_def attach_run_owner_ok [OF ok ob w])
qed

lemma react_ok:
  assumes ev: "evaluator body ev" and ok: "scope_ok body {i} s" and b: "busy s"
    and ob: "obs_at s i = Some ob" and c: "ob_closure ob = Some c"
  shows "ends (react ev body i ob) s (\<lambda>_ t. scope_ok body {} t \<and> later s t)"
proof -
  let ?s = "set_observer i (Some (ob\<lparr>ob_run_owner := None\<rparr>)) s"
  have il: "i < length (rx_observers s)" by (rule obs_at_range [OF ob])
  have os: "obs_at ?s = (obs_at s)(i := Some (ob\<lparr>ob_run_owner := None\<rparr>))" by (rule obs_at_set [OF il])
  have l1: "later s ?s" by (rule later_run_owner [OF ob])
  obtain t V where t: "seq (modify (set_observer i (Some (ob\<lparr>ob_run_owner := None\<rparr>)))) (drop_run_owner dispose_slot (ob_run_owner ob)) s = (Ok (), t)"
      "scope_ok body {i} t" and sh: "shrinks V ?s t"
    by (rule run_owner_dropped [OF ok ob])
  have l2: "later s t" by (rule later_trans [OF l1 shrinks_later [OF sh]])
  define g where "g = rx_obs_gens t ! i"
  let ?t = "push_owner t"
  have ot: "obs_at ?t = obs_at t" by (simp add: push_owner_def value_at_owners)
  have it: "i < length (rx_observers ?t)" using il laterD(7) [OF l2] by (simp add: push_owner_def)
  have run: "react ev body i ob s = bind (owned (run_callback ev body i g (ob_kind ob) c)) (\<lambda>(_, w). attach_owner i g w) t"
  proof -
    have "react ev body i ob s = bind (gets (\<lambda>s. rx_obs_gens s ! i)) (\<lambda>g. case ob_closure ob of None \<Rightarrow> panic ''already borrowed''
      | Some c \<Rightarrow> bind (owned (run_callback ev body i g (ob_kind ob) c)) (\<lambda>(_, w). attach_owner i g w)) t"
      using t(1) by (auto simp: react_def seq_def bind_def modify_run split: prod.splits res.splits)
    then show ?thesis by (simp add: bind_def gets_run c g_def)
  qed
  have bt: "busy ?t" using b later_busy [OF l2] by (simp add: busy_def push_owner_def)
  have cl: "ob_closure b \<noteq> None \<and> ob_kind b = ob_kind ob" if "obs_at ?t i = Some b" for b
    using shrinksD(10) [OF sh, of i b] that c by (auto simp: ot os)
  have outs: "given ?t h \<and> \<not> lent ?t h \<and> (\<forall>j. output_of ?t j = Some h \<longrightarrow> j = i)" if h: "ob_kind ob = Derived h" for h
  proof (intro conjI allI impI)
    have mine: "output_of s i = Some h" using h ob by (auto simp: output_of_Some)
    then have gl: "given s h" "\<not> lent s h" using scope_okD(7) [OF ok] by (auto simp: outputs_ok_def)
    then show "given ?t h" using shrinksD(6) [OF sh] by (simp add: given_def push_owner_def set_observer_def)
    show "\<not> lent ?t h" using gl(2) laterD(10) [OF l2] by (auto simp: push_owner_def value_at_owners)
    fix j assume "output_of ?t j = Some h"
    then obtain b1 where "obs_at t j = Some b1" "ob_kind b1 = Derived h" by (auto simp: output_of_Some ot)
    then obtain b0 where "obs_at ?s j = Some b0" "ob_kind b0 = Derived h" using shrinksD(10) [OF sh] by fastforce
    then have "output_of s j = Some h" using ob by (auto simp: output_of_Some os split: if_splits)
    then show "j = i" using mine scope_okD(7) [OF ok] unfolding outputs_ok_def by blast
  qed
  have cb: "ends (run_callback ev body i g (ob_kind ob) c) ?t (\<lambda>_ u. scope_ok body {} u \<and> later ?t u)"
    by (rule run_callback_ok [OF ev push_owner_ok [OF t(2)] bt it _ cl outs]) (simp_all add: g_def push_owner_def)
  have fin: "ends (bind pop_owner (attach_owner i g)) u (\<lambda>_ v. scope_ok body {} v \<and> later s v)"
    if u: "scope_ok body {} u" "later ?t u" for u
  proof -
    obtain w ws where w: "rx_owners u = w # ws" using laterD(3) [OF u(2)] by (cases "rx_owners u") (simp_all add: push_owner_def)
    note po = pop_owner_ok [OF u(1) w]
    let ?u = "u\<lparr>rx_owners := ws\<rparr>"
    have l: "later s ?u" by (rule later_trans [OF l2 later_push [OF u(2) w]])
    have "i < length (rx_observers ?u)" using it laterD(7) [OF u(2)] by simp
    from attach_owner_ok [OF po this, of g]
    have "ends (attach_owner i g w) ?u (\<lambda>_ v. scope_ok body {} v \<and> later s v)"
      by (rule ends_mono) (use later_trans [OF l] in blast)
    moreover have "bind pop_owner (attach_owner i g) u = attach_owner i g w ?u" using w by (simp add: bind_def pop_owner_def)
    ultimately show ?thesis by (simp add: ends_def)
  qed
  have "ends (bind (run_callback ev body i g (ob_kind ob) c) (\<lambda>_. bind pop_owner (attach_owner i g))) ?t (\<lambda>_ v. scope_ok body {} v \<and> later s v)"
    by (rule ends_bind [OF cb]) (use fin in blast)
  moreover have "bind (owned (run_callback ev body i g (ob_kind ob) c)) (\<lambda>(_, w). attach_owner i g w) t =
      bind (run_callback ev body i g (ob_kind ob) c) (\<lambda>_. bind pop_owner (attach_owner i g)) ?t"
    by (simp add: owned_def seq_def bind_def ret_def modify_run split: prod.splits res.splits)
  ultimately show ?thesis unfolding run by (simp add: ends_def run)
qed

lemma evaluate_ok: "evaluator body (evaluate body n)"
proof (induction n)
  case 0
  show ?case by (auto simp: evaluator_def ends_def panic_run)
next
  case (Suc n)
  show ?case
    unfolding evaluator_def
  proof (intro allI impI, elim conjE)
    fix s i
    assume s: "scope_ok body {i} s" "busy s" "i < length (rx_observers s)" "\<forall>ob. obs_at s i = Some ob \<longrightarrow> ob_closure ob \<noteq> None"
    show "ends (evaluate body (Suc n) i) s (\<lambda>_ t. scope_ok body {} t \<and> later s t)"
    proof (cases "obs_at s i")
      case None
      then have "evaluate body (Suc n) i s = (Ok (), s)" using s(3) by (simp add: bind_def gets_run ret_run obs_at_def)
      then show ?thesis using scope_ok_gone [of body i "{}" s] s(1) None by (simp add: ends_def later_refl)
    next
      case (Some ob)
      then have "evaluate body (Suc n) i s = react (evaluate body n) body i ob s" using s(3) by (simp add: bind_def gets_run obs_at_def)
      moreover obtain c where "ob_closure ob = Some c" using s(4) Some by blast
      ultimately show ?thesis using react_ok [OF Suc.IH s(1,2) Some] by (simp add: ends_def)
    qed
  qed
qed


section \<open>The flush\<close>

lemma dirty_finite: "dirty_ok s \<Longrightarrow> finite (rx_dirty s)"
  by (rule finite_subset [of _ "{..<length (rx_observers s)}"]) (auto simp: dirty_ok_def dest: obs_at_range)

lemma next_dirty_in:
  assumes d: "dirty_ok s" and n: "next_dirty s = Some i"
  shows "i \<in> rx_dirty s"
proof -
  let ?D = "{i \<in> rx_dirty s. is_derived s i}"
  note fin = dirty_finite [OF d]
  show ?thesis
  proof (cases "?D = {}")
    case True
    then have "rx_dirty s \<noteq> {}" "i = Min (rx_dirty s)" using n by (auto simp: next_dirty_def Let_def split: if_splits)
    then show ?thesis using Min_in [OF fin] by simp
  next
    case False
    then have "i = Min ?D" using n by (auto simp: next_dirty_def Let_def)
    then show ?thesis using Min_in [of ?D] fin False by auto
  qed
qed

lemma next_dirty_None: "next_dirty s = None \<longleftrightarrow> rx_dirty s = {}"
  by (auto simp: next_dirty_def Let_def)

lemma flush_loop_ok:
  assumes ev: "evaluator body ev" and "scope_ok body {} s" and "busy s" and "rested s"
  shows "ends (flush_loop ev n) s (\<lambda>_ t. scope_ok body {} t \<and> later s t \<and> rx_dirty t = {})"
  using assms(2-4)
proof (induction n arbitrary: s)
  case 0
  then show ?case using next_dirty_None [of s]
    by (cases "next_dirty s") (simp_all add: flush_loop.simps ends_def later_refl)
next
  case (Suc n)
  show ?case
  proof (cases "next_dirty s")
    case None
    then show ?thesis using Suc.prems next_dirty_None [of s] by (simp add: flush_loop.simps ends_def later_refl)
  next
    case (Some i)
    let ?s = "s\<lparr>rx_dirty := rx_dirty s - {i}\<rparr>"
    have i: "i \<in> rx_dirty s" using next_dirty_in scope_okD(4) [OF Suc.prems(1)] Some by blast
    then have il: "i < length (rx_observers s)" using scope_okD(4) [OF Suc.prems(1)] by (auto simp: dirty_ok_def dest: obs_at_range)
    have l: "later s ?s" by (rule later_same) (simp_all add: flags_simps)
    have e: "ends (ev i) ?s (\<lambda>_ t. scope_ok body {} t \<and> later ?s t)"
      using ev scope_ok_clean [OF Suc.prems(1), of i] Suc.prems(2,3) il
      unfolding evaluator_def by (simp add: busy_def rested_def flags_simps)
    have "ends (seq (ev i) (flush_loop ev n)) ?s (\<lambda>_ t. scope_ok body {} t \<and> later s t \<and> rx_dirty t = {})"
    proof (rule ends_seq [OF e], elim conjE)
      fix t assume t: "scope_ok body {} t" "later ?s t"
      have lt: "later s t" by (rule later_trans [OF l t(2)])
      show "ends (flush_loop ev n) t (\<lambda>_ t. scope_ok body {} t \<and> later s t \<and> rx_dirty t = {})"
        by (rule ends_mono [OF Suc.IH [OF t(1)]]) (use later_busy [OF lt] later_rested [OF lt] Suc.prems later_trans [OF lt] in auto)
    qed
    moreover have "flush_loop ev (Suc n) s = seq (ev i) (flush_loop ev n) ?s"
      using Some by (simp add: flush_loop.simps seq_def bind_def modify_run)
    ultimately show ?thesis by (simp add: ends_def)
  qed
qed

lemma flush_ok:
  assumes ev: "evaluator body ev"
  shows "flusher False body (flush ev)"
  unfolding flusher_def
proof (intro allI impI)
  fix s assume s: "scope_ok body {} s \<and> (busy s \<or> \<not> False \<and> rested s)"
  show "ends (flush ev) s (\<lambda>_ t. ready False body t \<and> later s t)"
  proof (cases "busy s")
    case True
    then have "flush ev s = (Ok (), s)" by (auto simp: flush_def busy_def)
    then show ?thesis using s True by (simp add: ends_def ready_def later_refl)
  next
    case False
    let ?s = "s\<lparr>rx_flushing := True\<rparr>"
    have "ends (flush_loop ev turns) ?s (\<lambda>_ t. scope_ok body {} t \<and> later ?s t \<and> rx_dirty t = {})"
      using s False by (intro flush_loop_ok [OF ev]) (simp_all add: scope_ok_flags busy_def rested_def flags_simps)
    then have "ends (flush ev) s (\<lambda>_ u. \<exists>t. u = t\<lparr>rx_flushing := False\<rparr> \<and> scope_ok body {} t \<and> later ?s t \<and> rx_dirty t = {})"
      using False by (auto simp: flush_def ends_def busy_def split: prod.splits res.splits)
    then show ?thesis
    proof (rule ends_mono, elim exE conjE)
      fix u t assume t: "u = t\<lparr>rx_flushing := False\<rparr>" "scope_ok body {} t" "later ?s t" "rx_dirty t = {}"
      have "s\<lparr>rx_flushing := False\<rparr> = s" using False by (simp add: busy_def)
      then have l: "later s u" using later_flushing [OF t(3), of False] t(1) by simp
      have "rested u" using later_rested [OF l] s False by blast
      then show "ready False body u \<and> later s u"
        using t l scope_ok_flags(2) [OF t(2), of False] by (simp add: ready_def)
    qed
  qed
qed

text \<open>The scope is a host for the code of reactions and for that of clients.\<close>

interpretation within: reactive_host True body flush_inside "evaluate body n" for body n
  by unfold_locales (rule flush_inside_ok evaluate_ok)+

interpretation outside: reactive_host False body "flush (evaluate body n)" "evaluate body n" for body n
  by unfold_locales (rule flush_ok evaluate_ok)+

lemma client_ok: "executes False body (client body n code) (leaves code)"
  unfolding client_def by (rule outside.exec_ok)

end
