(* ===== verification/ReactiveProps.thy ===== *)
theory ReactiveProps
  imports ReactiveScope
begin

text \<open>
  Properties of reactive scopes: what every program of a client meets and leaves, derived values
  that are up to date, and the end of what an owner owned.
\<close>

section \<open>What clients can reach\<close>

inductive client_step :: "('c \<Rightarrow> ('v, 'c) code) \<Rightarrow> ('v, 'c) scope_core \<Rightarrow> ('v, 'c) scope_core \<Rightarrow> bool" for body where
  "client body n code s = (Ok x, t) \<Longrightarrow> client_step body s t"

definition reached :: "('c \<Rightarrow> ('v, 'c) code) \<Rightarrow> ('v, 'c) scope_core \<Rightarrow> bool" where
  "reached body s \<longleftrightarrow> (client_step body)\<^sup>*\<^sup>* new_scope s"

definition settled :: "('c \<Rightarrow> ('v, 'c) code) \<Rightarrow> ('v, 'c) scope_core \<Rightarrow> bool" where
  "settled body s \<longleftrightarrow> scope_ok body {} s \<and> \<not> busy s \<and> rested s \<and> rx_dirty s = {} \<and> rx_owners s = [] \<and> rx_reads s = [] \<and>
     (\<forall>h. \<not> lent s h)"

lemma settled_new: "settled body new_scope"
proof -
  have o: "obs_at new_scope i = None" and v: "value_at new_scope d = None" for i d
    by (simp_all add: obs_at_def value_at_def new_scope_def)
  have w: "owner_at new_scope p = None" for p by (cases p) (simp_all add: o, simp_all add: new_scope_def)
  have l: "\<not> lent new_scope h" for h by (simp add: lent_def signal_value_def new_scope_def Let_def)
  show ?thesis
    unfolding settled_def scope_ok_def
    by (simp add: l shape_def free_ok_def subs_ok_def dirty_ok_def captures_ok_def owners_ok_def w outputs_ok_def output_of_def
        o v current_def rested_def) (simp add: new_scope_def busy_def)
qed

lemma client_ends:
  assumes "settled body s"
  shows "ends (client body n code) s (\<lambda>_ t. settled body t \<and> later s t)"
proof -
  have "ready False body s" using assms by (simp add: settled_def ready_def)
  from executes_keeps [OF client_ok this] show ?thesis
  proof (rule ends_mono, elim conjE, intro conjI)
    fix x t assume t: "ready False body t" "later s t"
    have "rx_owners t = []" "rx_reads t = []" using laterD(3,4) [OF t(2)] assms by (simp_all add: settled_def)
    then show "settled body t" "later s t"
      using t assms later_busy [OF t(2)] laterD(10) [OF t(2)] by (auto simp: settled_def ready_def)
  qed
qed

lemma step_later:
  assumes "client_step body s t" and "settled body s"
  shows "settled body t \<and> later s t"
  using assms(1)
proof cases
  case (1 n code x)
  then show ?thesis using client_ends [OF assms(2), of n code] by (simp add: ends_def)
qed

lemma steps_later: "(client_step body)\<^sup>*\<^sup>* s t \<Longrightarrow> settled body s \<Longrightarrow> settled body t \<and> later s t"
  by (induction rule: rtranclp_induct) (use later_refl later_trans step_later in blast)+

lemma reached_settled: "reached body s \<Longrightarrow> settled body s"
  using steps_later settled_new unfolding reached_def by blast


section \<open>What is disposed stays so\<close>

lemma later_disposed:
  assumes l: "later s t" and g: "given s h" and e: "signal_value s h = Inl e" and ok: "shape s" "shape t"
  shows "signal_value t h = Inl Disposed_Signal"
proof -
  let ?d = "sg_slot h"
  have d: "?d < length (rx_gens s)" "sg_gen h \<le> rx_gens s ! ?d" using g by (simp_all add: given_def)
  have dead: "rx_gens s ! ?d \<noteq> sg_gen h \<or> value_at s ?d = None"
    using e d(1) by (auto simp: signal_value_alt [OF ok(1)] split: if_splits option.splits)
  have "rx_gens t ! ?d \<noteq> sg_gen h \<or> value_at t ?d = None"
    using dead d(2) laterD(6,9) [OF l, of ?d] d(1) by (metis le_antisym)
  then show ?thesis by (auto simp: signal_value_alt [OF ok(2)])
qed

lemma later_gone:
  assumes l: "later s t" and n: "obs_at s i = None" and i: "i < length (rx_observers s)"
  shows "still_there i (rx_obs_gens s ! i) t = None"
proof (cases "rx_obs_gens t ! i = rx_obs_gens s ! i")
  case True
  have "obs_at t i = None"
  proof (rule ccontr)
    assume "obs_at t i \<noteq> None"
    then obtain ob where ob: "obs_at t i = Some ob" by blast
    show False by (cases rule: later_obs [OF l ob]) (use n i True in simp_all)
  qed
  then show ?thesis using i laterD(7) [OF l] by (simp add: still_there_def obs_at_def)
qed (simp add: still_there_def)

lemma run_release:
  assumes s: "settled body s" and run: "client body n (Release r code) s = (Ok x, t)"
    and w: "r < length (rx_regions s)" "rx_regions s ! r = Some w"
  obtains u where "scope_ok body {} u" "later u t" "rx_gens u = rx_gens s" "rx_obs_gens u = rx_obs_gens s" "later s u"
    "\<forall>d \<in> set (ow_values w). value_at u d = None"
    "\<forall>e \<in> set (ow_effects w). rx_obs_gens s ! ef_slot e = ef_gen e \<longrightarrow> obs_at u (ef_slot e) = None"
proof -
  have ready: "ready False body s" using s by (simp add: settled_def ready_def)
  obtain u where u: "release r s = (Ok (), u)" and k: "client body n code u = (Ok x, t)"
    using run unfolding client_def by (auto simp: seq_Ok)
  have r: "ready False body u" "later s u" "rx_gens u = rx_gens s" "rx_obs_gens u = rx_obs_gens s"
    "\<forall>d \<in> set (ow_values w). value_at u d = None"
    "\<forall>e \<in> set (ow_effects w). rx_obs_gens s ! ef_slot e = ef_gen e \<longrightarrow> obs_at u (ef_slot e) = None"
    using release_ends [OF ready, of r] u w by (simp_all add: ends_def)
  have "later u t" using executes_keeps [OF client_ok r(1), of n code] k by (simp add: ends_def)
  moreover have "scope_ok body {} u" using r(1) by (simp add: ready_def)
  ultimately show thesis using r(2-) by (intro that)
qed


section \<open>An application\<close>

text \<open>
  A region with a signal and a derived value that is one more than it; the signal is then set.
  Afterwards the region is dropped and its slot is used again.
\<close>

definition counter_body :: "nat \<Rightarrow> (int, nat) code" where
  "counter_body c = Get \<lparr>sg_slot = 0, sg_gen = 0\<rparr> (\<lambda>r. Return (case r of Inr v \<Rightarrow> v + 1 | Inl _ \<Rightarrow> 0) c)"

definition counter_program :: "(int, nat) code" where
  "counter_program = Own (Make 3 (\<lambda>h. Derive 7 (\<lambda>d. Put h 5 (\<lambda>_. Return 0 0)))) (\<lambda>r. Return 1 1)"

definition counter_observer :: "nat observer" where
  "counter_observer = \<lparr>ob_closure = Some 7, ob_deps = {0}, ob_kind = Derived \<lparr>sg_slot = 1, sg_gen = 0\<rparr>, ob_run_owner = Some no_slots\<rparr>"

definition counter_region :: owned_slots where
  "counter_region = \<lparr>ow_values = [0, 1], ow_effects = [\<lparr>ef_slot = 0, ef_gen = 0\<rparr>]\<rparr>"

definition counter_scope :: "(int, nat) scope_core" where
  "counter_scope = \<lparr>rx_values = [Some (Held 5), Some (Held 6)], rx_free_values = [], rx_gens = [0, 0],
     rx_free_observers = [], rx_obs_gens = [0], rx_owners = [], rx_observers = [Some counter_observer],
     rx_subs = [{0}, {}], rx_reads = [], rx_revs = [1, 2], rx_dirty = {}, rx_depth = 0, rx_flushing = False,
     rx_regions = [Some counter_region]\<rparr>"

definition counter_release :: "(int, nat) code" where
  "counter_release = Make 9 (\<lambda>_. Return 2 2)"

definition counter_after :: "(int, nat) scope_core" where
  "counter_after = \<lparr>rx_values = [None, Some (Held 9)], rx_free_values = [0], rx_gens = [0, 1],
     rx_free_observers = [0], rx_obs_gens = [0], rx_owners = [], rx_observers = [None],
     rx_subs = [{}, {}], rx_reads = [], rx_revs = [0, 0], rx_dirty = {}, rx_depth = 0, rx_flushing = False,
     rx_regions = [None]\<rparr>"

lemma counter_run: "client counter_body 3 counter_program new_scope = (Ok (1, 1), counter_scope)"
  by code_simp

lemma counter_rerun: "client counter_body 3 (Release 0 counter_release) counter_scope = (Ok (2, 2), counter_after)"
  by code_simp

lemma counter_reached: "reached counter_body new_scope" "reached counter_body counter_scope"
proof -
  show "reached counter_body new_scope" by (simp add: reached_def)
  show "reached counter_body counter_scope" using client_step.intros [OF counter_run] by (auto simp: reached_def)
qed

lemma counter_computes: "computes counter_body c"
  by (simp add: computes_def counter_body_def)


text \<open>
  The same scope, where the signal is updated by a closure that reads it, in vain, and sets it, in vain, while
  it is borrowed, and then adds one.
\<close>

definition adder_program :: "(int, nat) code" where
  "adder_program = Update \<lparr>sg_slot = 0, sg_gen = 0\<rparr>
     (\<lambda>v. Get \<lparr>sg_slot = 0, sg_gen = 0\<rparr> (\<lambda>r. Put \<lparr>sg_slot = 0, sg_gen = 0\<rparr> 9
       (\<lambda>e. Return (if r = Inl Borrowed_Value \<and> e = Some Borrowed_Value then v + 1 else 0) 4)))
     (\<lambda>r. Return 8 (case r of Inr c \<Rightarrow> c | Inl e \<Rightarrow> 0))"

definition adder_scope :: "(int, nat) scope_core" where
  "adder_scope = counter_scope\<lparr>rx_values := [Some (Held 6), Some (Held 7)], rx_revs := [2, 3]\<rparr>"

lemma adder_run: "client counter_body 3 adder_program counter_scope = (Ok (8, 4), adder_scope)"
  by code_simp

text \<open>Two signals and their sum; the second one is then set.\<close>

definition total_body :: "nat \<Rightarrow> (int, nat) code" where
  "total_body c = Get \<lparr>sg_slot = 0, sg_gen = 0\<rparr> (\<lambda>a. case a of Inl _ \<Rightarrow> Return 0 c | Inr x \<Rightarrow>
     Get \<lparr>sg_slot = 1, sg_gen = 0\<rparr> (\<lambda>b. case b of Inl _ \<Rightarrow> Return 0 c | Inr y \<Rightarrow> Return (x + y) c))"

definition total_program :: "(int, nat) code" where
  "total_program = Make 3 (\<lambda>h. Make 4 (\<lambda>g. Derive 7 (\<lambda>d. Put g 9 (\<lambda>_. Return 0 0))))"

definition total_observer :: "nat observer" where
  "total_observer = \<lparr>ob_closure = Some 7, ob_deps = {0, 1}, ob_kind = Derived \<lparr>sg_slot = 2, sg_gen = 0\<rparr>, ob_run_owner = Some no_slots\<rparr>"

definition total_scope :: "(int, nat) scope_core" where
  "total_scope = \<lparr>rx_values = [Some (Held 3), Some (Held 9), Some (Held 12)], rx_free_values = [], rx_gens = [0, 0, 0],
     rx_free_observers = [], rx_obs_gens = [0], rx_owners = [], rx_observers = [Some total_observer],
     rx_subs = [{0}, {0}, {}], rx_reads = [], rx_revs = [0, 1, 2], rx_dirty = {}, rx_depth = 0, rx_flushing = False,
     rx_regions = []\<rparr>"

lemma total_run: "client total_body 3 total_program new_scope = (Ok (0, 0), total_scope)"
  by code_simp

lemma total_reached: "reached total_body total_scope"
  using client_step.intros [OF total_run] by (auto simp: reached_def)

lemma total_computes: "computes total_body c"
  by (auto simp: computes_def total_body_def split: sum.splits) (metis sum.exhaust)+


section \<open>Properties\<close>

text \<open>
  C38. Whatever an application does in a scope, from its creation on: a program either runs to its end and
  leaves a scope of the same kind, with subscriptions and dependencies in agreement, no slot owned twice, no
  signal borrowed and no reaction pending, or it stops with the overflow of the stack, the report that a cycle
  does not settle, or a handle used against its type. It never meets a closure or an output that is already
  borrowed, an empty stack of owners or reads, or a slot out of range. Programs are trees of calls
  whose closures for \<open>update\<close> are programs too, that may use the signal that they update; code that
  panics by itself, and values and closures whose destructors use the scope, are not among them.
\<close>

theorem reactive_safe:
  assumes "reached body s"
  shows "case client body n code s of
      (Ok x, t) \<Rightarrow> reached body t \<and> scope_ok body {} t \<and> (\<forall>h. \<not> lent t h) \<and> rx_dirty t = {} \<and> rx_depth t = 0 \<and>
        \<not> rx_flushing t
    | (Err e, t) \<Rightarrow> False
    | (Panic p, t) \<Rightarrow> p = stack_overflow \<or> p = unsettled \<or> p = ill_typed"
proof -
  note s = reached_settled [OF assms]
  have r: "reached body t" if "client body n code s = (Ok x, t)" for x t
    using assms client_step.intros [OF that] unfolding reached_def by (rule rtranclp.rtrancl_into_rtrancl)
  show ?thesis
    using client_ends [OF s, of n code] r
    by (auto simp: ends_def settled_def busy_def excuses_def split: prod.splits res.splits)
qed

lemma reactive_safe_witness:
  "reached counter_body counter_scope \<and> scope_ok counter_body {} counter_scope \<and> rx_dirty counter_scope = {} \<and> rx_depth counter_scope = 0 \<and>
   reached counter_body adder_scope \<and> \<not> lent adder_scope \<lparr>sg_slot = 0, sg_gen = 0\<rparr> \<and> rx_dirty adder_scope = {}"
  using reactive_safe [OF counter_reached(1), of 3 counter_program] reactive_safe [OF counter_reached(2), of 3 adder_program]
  by (simp add: counter_run adder_run)

text \<open>
  C39. Between programs of the application no derived value is stale: when the closure is a pure computation,
  all that it reads can be read, and the value shown is not one that it returns after a read that failed, then
  the value shown is what the closure computes from the signals as they are now. Nothing is assumed of
  the subscriptions of the reaction.
\<close>

theorem derived_up_to_date:
  assumes "reached body s" and "obs_at s i = Some ob" and "ob_kind ob = Derived h" and "ob_closure ob = Some c"
    and "computes body c" and "read_signal s h = Inr v" and "readable s (body c)" and "v \<notin> after_failure (body c)"
  shows "evaluated s (body c) = Some v"
proof -
  note s = reached_settled [OF assms(1), unfolded settled_def]
  have "current body s i" using scope_okD(8) [of body "{}" s i] s by simp
  then have "fits s (ob_deps ob) (body c) v" using assms unfolding current_def by blast
  then show ?thesis using assms(5,7,8) by (intro fits_evaluated) (auto simp: computes_def)
qed

lemma derived_up_to_date_witness:
  "evaluated total_scope (total_body 7) = Some 12 \<and> read_signal total_scope \<lparr>sg_slot = 2, sg_gen = 0\<rparr> = Inr 12"
proof -
  have ob: "obs_at total_scope 0 = Some total_observer" by (simp add: obs_at_def total_scope_def)
  have rd: "read_signal total_scope \<lparr>sg_slot = 2, sg_gen = 0\<rparr> = Inr 12" by code_simp
  have "readable total_scope (total_body 7)" by (simp add: total_body_def) code_simp
  moreover have "(12::int) \<notin> after_failure (total_body 7)" by (simp add: total_body_def)
  ultimately show ?thesis
    using derived_up_to_date [OF total_reached ob _ _ total_computes rd, of 7] rd by (simp add: total_observer_def)
qed

text \<open>
  C40. What an owner owned is gone for good: once the owner is dropped, every signal it owned
  reads as disposed and no reaction it owned is registered any more, in the rest of that program
  and after all later ones, even when the slots have been given out again meanwhile.
\<close>

theorem released_for_good:
  assumes "reached body s" and "r < length (rx_regions s)" and "rx_regions s ! r = Some w"
    and "client body n (Release r code) s = (Ok x, t)" and "(client_step body)\<^sup>*\<^sup>* t u"
  shows "(\<forall>d \<in> set (ow_values w). signal_value u \<lparr>sg_slot = d, sg_gen = rx_gens s ! d\<rparr> = Inl Disposed_Signal) \<and>
    (\<forall>e \<in> set (ow_effects w). rx_obs_gens s ! ef_slot e = ef_gen e \<longrightarrow> still_there (ef_slot e) (ef_gen e) u = None)"
proof -
  note s = reached_settled [OF assms(1)]
  have ok: "scope_ok body {} s" using s by (simp add: settled_def)
  obtain v where v: "scope_ok body {} v" "later v t" "rx_gens v = rx_gens s" "rx_obs_gens v = rx_obs_gens s" "later s v"
    "\<forall>d \<in> set (ow_values w). value_at v d = None"
    "\<forall>e \<in> set (ow_effects w). rx_obs_gens s ! ef_slot e = ef_gen e \<longrightarrow> obs_at v (ef_slot e) = None"
    using run_release [OF s assms(4,2,3)] by blast
  have t: "settled body t" using client_step.intros [OF assms(4)] s step_later by blast
  have u: "settled body u" "later v u" using steps_later [OF assms(5) t] later_trans [OF v(2)] by blast+
  have w: "owner_live s w" using owners_okD(1) [OF scope_okD(6) [OF ok], of "Of_Client r"] assms(2,3) by simp
  show ?thesis
  proof (intro conjI ballI impI)
    fix d assume d: "d \<in> set (ow_values w)"
    let ?h = "\<lparr>sg_slot = d, sg_gen = rx_gens s ! d\<rparr>"
    have "d < length (rx_gens s)"
      using w d value_at_range [of s d] scope_okD(1) [OF ok] by (auto simp: owner_live_def shape_def)
    then have "given v ?h" by (simp add: given_def v(3))
    moreover have "signal_value v ?h = Inl Disposed_Signal"
      using v(6) d by (simp add: signal_value_alt [OF scope_okD(1) [OF v(1)]])
    ultimately show "signal_value u ?h = Inl Disposed_Signal"
      by (rule later_disposed [OF u(2) _ _ scope_okD(1) [OF v(1)] scope_okD(1) [of body "{}"]]) (use u(1) in \<open>simp add: settled_def\<close>)
  next
    fix e assume e: "e \<in> set (ow_effects w)" "rx_obs_gens s ! ef_slot e = ef_gen e"
    have "ef_slot e < length (rx_observers v)" using w e(1) laterD(7) [OF v(5)] by (auto simp: owner_live_def)
    then show "still_there (ef_slot e) (ef_gen e) u = None"
      using later_gone [OF u(2), of "ef_slot e"] v(4,7) e by simp
  qed
qed

lemma released_for_good_witness:
  "signal_value counter_after \<lparr>sg_slot = 0, sg_gen = 0\<rparr> = Inl Disposed_Signal \<and>
   signal_value counter_after \<lparr>sg_slot = 1, sg_gen = 0\<rparr> = Inl Disposed_Signal \<and>
   signal_value counter_after \<lparr>sg_slot = 1, sg_gen = 1\<rparr> = Inr (Held 9) \<and> still_there 0 0 counter_after = None"
proof -
  have new: "signal_value counter_after \<lparr>sg_slot = 1, sg_gen = 1\<rparr> = Inr (Held 9)" by code_simp
  have r: "0 < length (rx_regions counter_scope)" "rx_regions counter_scope ! 0 = Some counter_region" by (simp_all add: counter_scope_def)
  show ?thesis
    using released_for_good [OF counter_reached(2) r counter_rerun rtranclp.rtrancl_refl] new
    by (simp add: counter_region_def) (simp add: counter_scope_def)
qed

end
