(* ===== verification/Spec2Isabelle.thy ===== *)
theory Spec2Isabelle
  imports HeapProps HostProps JoinProps HeaderProps JsonRound PhasePermsProps RetainedEdits ReactiveProps
begin

text \<open>
  A verification library for the native virtual machine of Deka (\<open>crates/deka_vm\<close>), the
  security policies that its host operations are gated by, the retained store of native
  views (\<open>crates/deka_native_ir\<close>), and the reactive state of Rust applications
  (\<open>crates/deka_ui\<close>).

  The program. Deka compiles its language to a bytecode that a garbage collected machine
  runs. Programs reach the outside only through registered host operations with typed
  arguments and results; host code answers at once, with a future, or later through
  callbacks whose commands the machine takes from a queue at the start and end of a drive.
  Tasks run in bounded slices, wait for promises and are joined.

  The theories, in the order of their imports.
  \<^item> \<open>Prelude\<close>: results with errors and panics as values, the state monad with both, and the
    locale \<open>hoare\<close> of triples over an invariant that an operation keeps on every outcome.
  \<^item> \<open>OrdMap\<close>: ordered maps (\<open>BTreeMap\<close>) as a locale with its interpretation. \<open>F64\<close>: IEEE
    doubles. \<open>Text\<close>: strings of bytes in UTF-8.
  \<^item> \<open>Bytecode\<close>: \<open>bytecode.rs\<close>, the instruction set and \<open>Program::validate\<close>.
  \<^item> \<open>HeapModel\<close>, \<open>HeapGC\<close>, \<open>HeapOps\<close>, \<open>HeapInv\<close>, \<open>HeapTriples\<close>, \<open>HeapProps\<close>: \<open>heap.rs\<close>; the
    collector is exact, freed handles stay dead, each operation keeps the heap well formed.
  \<^item> \<open>HostTypes\<close>, \<open>Hosts\<close>, \<open>HostProps\<close>: \<open>host.rs\<close>; schemas, normal forms, the registry, calls.
  \<^item> \<open>Context\<close>: \<open>callback.rs\<close>; jobs, callbacks, the queue of commands, completions.
  \<^item> \<open>Json\<close>, \<open>JsonTriples\<close>: \<open>json.rs\<close>; typed encoding and decoding.
  \<^item> \<open>VmState\<close>, \<open>VmOps\<close>, \<open>VmStep\<close>, \<open>VmSched\<close>: \<open>machine.rs\<close>, \<open>stack.rs\<close>, \<open>turn.rs\<close>; the state of
    the machine, what single instructions compute, one step, the scheduler.
  \<^item> \<open>VmInv\<close>, \<open>VmTriples\<close>, \<open>BoundaryTriples\<close>, \<open>OpsTriples\<close>, \<open>StepTriples\<close>, \<open>ExecTriples\<close>: the
    invariant of the machine (\<open>vm_inv\<close>: a well-formed heap without dangling handles, live
    handles everywhere, frames that fit their functions) and the triples of all operations
    from the heap up to \<open>step\<close>, each in the interpretation of \<open>hoare\<close> for its state.
  \<^item> \<open>SchedTriples\<close>, \<open>DriveTriples\<close>, \<open>TurnTriples\<close>: the same for joins, slices, commands and
    drives. A task that runs is taken out of the machine, so the invariant names its handles
    apart; the relation \<open>moved\<close> says what a drive may change. \<open>life\<close> is the relation of all
    states a machine can reach under the operations its host and client may call; a \<open>machine_use\<close> is one
    such operation with its outcome, its panics included.
  \<^item> \<open>StepKeeps\<close>: what a step leaves alone, and the accounting of instructions.
  \<^item> \<open>VmProps\<close>, \<open>JoinProps\<close>: the properties of the machine: safety of steps and of whole lives,
    complete roots, cancellation, exceptions, budgets, the results of joins. The relation \<open>joining\<close>
    interleaves the slices of one join with promises that settle, so the rescan in \<open>join_finish\<close> matters.

  \<^item> \<open>F64Whole\<close>: whole numbers as doubles. \<open>ByteLib\<close>, \<open>ByteProps\<close>: \<open>bytes.rs\<close>; codecs, slices,
    the typed table of operations and its registration. \<open>HttpHeaders\<close>, \<open>HeaderProps\<close>:
    \<open>http_headers.rs\<close>; a refinement of a map, what reaches the wire, and the methods with the check of
    their receiver, over a store of the resources. \<open>JsonRound\<close>: \<open>decode\<close> reads back the document that
    \<open>encode\<close> built; the text between them is the reader's and printer's.
  \<^item> \<open>SecPolicy\<close>, \<open>SecPolicyProps\<close>: \<open>security/src/security_policy.rs\<close>; rule lists, scopes and
    their merge with the command line, parsing with all diagnostics, the edit distance that
    suggests a key (equal to the recursive definition of Levenshtein), the transport of a
    policy as JSON, which gives its normal form (\<open>normal_policy\<close>).
  \<^item> \<open>SecEnforce\<close>, \<open>SecEnforceProps\<close>: \<open>deka_host/src/modules/security.rs\<close> and
    \<open>security_hint.rs\<close>, \<open>security_context.rs\<close>, \<open>host_grants.rs\<close>; the gate before each host
    operation: paths resolved against the file system, rules, prompts, the context of an
    execution. What passes the gate, and that the answer for a path does not depend on
    whether its file exists yet.
  \<^item> \<open>PhasePerms\<close>, \<open>PhasePermsProps\<close>: \<open>permissions.rs\<close>, \<open>runtime/src/security.rs\<close>; the
    permissions of development, of build slots and of production, their translation to a
    policy. What the gate lets a phase touch (for paths in the notation of POSIX, \<open>posix_paths\<close>, where no link
    leads out of the working directory, \<open>links_stay\<close>), and that phases do not share authority.

  \<^item> \<open>Selectors\<close>, \<open>SelectorProps\<close>: \<open>deka_native_ir/src/selectors.rs\<close>; the parser of selectors and
    the search. The parser accepts exactly a grammar; the locale \<open>searchable\<close> states what the
    search relies on in a tree, and in it the loops end with what a selector means.
  \<^item> \<open>Retained\<close>: \<open>deka_native_ir/src/tree.rs\<close>; records and handles, frames, edits of the
    structure, reads and queries. Memory is the list of all records allocated so far and a
    handle is an index into it; whether a weak reference upgrades is reachability from the
    strong ones.
  \<^item> \<open>RetainedInv\<close>, \<open>RetainedUpdate\<close>, \<open>RetainedProps\<close>: ownership is a forest (\<open>forest\<close>), what a step
    may change outside the subtree it works on (\<open>evolves\<close>), the authored values of a node (\<open>displays\<close>),
    which old node it continues (\<open>follows\<close>) and what it shows then (\<open>carried\<close>); \<open>retain\<close> achieves all of them. The store interprets
    \<open>searchable\<close>. \<open>RetainedEdits\<close>: writes, structural slots and keyed children; \<open>view_life\<close> is the
    relation of all stores that a session reaches before its \<open>2\<^sup>6\<^sup>4\<close> identities are used up.
  \<^item> \<open>Reactive\<close>: \<open>deka_ui/src/reactive.rs\<close>; the record \<open>scope_core\<close> of the cells of a scope, user code
    as the tree of its calls (\<open>code\<close>), signals with the borrows of their cells, observers, owners and their destructors
    (\<open>dispose_observer\<close>, \<open>drop_owner\<close>), one run of a reaction (\<open>react\<close>), the flush, and the programs of a client.
  \<^item> \<open>ReactiveInv\<close>: the invariant \<open>scope_ok\<close> and the relation \<open>later\<close> between two states of a scope.
    \<open>ReactiveSteps\<close>, \<open>ReactiveDrop\<close>, \<open>ReactiveOwn\<close>, \<open>ReactiveRun\<close>: each primitive keeps the one and
    obeys the other; disposal only takes away what was owned (\<open>shrinks\<close>).
  \<^item> \<open>ReactiveExec\<close>, \<open>ReactiveEval\<close>, \<open>ReactiveScope\<close>: user code needs a flush and the evaluation of new
    observers, the locale \<open>reactive_host\<close>; the scope interprets it for code within a reaction,
    by induction on the depth of reactions, and for code of a client. \<open>ReactiveProps\<close>: what clients can
    reach, derived values that are up to date, owners that are gone for good.

  Conventions. A Rust \<open>Result\<close> is \<open>Ok\<close> or \<open>Err\<close>; a panic is the third outcome \<open>Panic\<close>, so that
  its absence is something to prove. Two panics are excused where they occur: the overflow
  of the stack by the one recursion of the sources without a guard (\<open>field_owner\<close> on embeds
  that form a cycle), and \<open>sort_by\<close> under a comparison that is no total order (keys with
  \<open>NaN\<close>). Counters that the code only increments in 64 bits are natural numbers; casts,
  bitwise operators and generations keep their width.

  Parameters. \<open>serde_json\<close> (reading, printing, quoting texts), the handlers and futures of
  host code and the order of an unordered sort are fields of \<open>externals\<close> or of a host
  operation; host code acts on the machine only through the events of its context.
  For the gates: the file system, the environment and the user are the record \<open>os\<close>, the
  JSON reader and printer are arguments, as is the name of the module directory (a crate of
  its own). For the views: \<open>style\<close>, the translation of classes to a style in 32-bit floats. A path is its text and the list of its components, as \<open>Path::components\<close> gives it.

  Fuel. \<open>field_owner\<close> runs with as much fuel as the heap has slots, plus one: a longer path
  through embeds visits a record twice, so the search would never return. All other
  recursions terminate by themselves: the marking by the number of unmarked slots, printing
  and conversion by their limits of 24 and 64 nested values. The reads of a subtree of a view
  have the size of the memory: children are allocated after their parent, so no branch is longer.
  The destructors of a scope nest at most as deep as there are observers. Reactions that create
  reactions run within one another without a bound, so \<open>evaluate\<close> takes its fuel as an argument and
  ends with the overflow of the stack; the properties hold for every amount of it. The stack is taken to hold
  every recursion that ends by itself.

  The life of a machine. Events, pins and collections are for machines that are not
  cancelled, as their callers in \<open>component.rs\<close> use them. A collection fails only once the
  generation of a slot has reached \<open>2\<^sup>6\<^sup>4 - 1\<close>.

  Frames of views. The slots of siblings are all empty or none of them is, as the callers in
  \<open>deka_ui/src/view.rs\<close> make them (only a root has the empty slot): with both kinds among the same
  siblings, \<open>retain\<close> could continue one old child twice.

  Scopes. Handles that are no Rust program's (a foreign kind, a guess) are not typed in the model:
  a use that Rust would refuse ends as \<open>ill_typed\<close>. Generations and revisions are natural numbers.
  There is one scope, so no read crosses scopes, and a panic ends the run: what a later
  \<open>catch_unwind\<close> finds in the scope is not stated. Values and closures have no destructors: a value whose destructor reads
  a signal makes \<open>ReactiveOwner::drop\<close> panic, since it runs while the cells are borrowed, and a closure that has captured an
  owner drops it with its observer; neither is a program of the model.

  Not modelled. The compiler and the type checker (\<open>deka_syntax\<close>) with the texts of
  declarations generated for them; the bindings of the built-in host modules to the file
  system, the network and cryptographic libraries; the renderer of native
  views, the translation of their classes and hot reload; the legacy command line. \<open>PROJECT.json\<close> lists every part with its status.
\<close>

end
